(* ===== verification/Prelude.thy ===== *)
theory Prelude
  imports Main "HOL-Library.Word"
begin

text \<open>
  The shared vocabulary of the development: names for Rust's machine integers and byte
  slices, the reading of \<open>Result\<close>, \<open>slice::get\<close> and \<open>checked_add\<close> as total functions, the
  little- and big-endian conversions of the standard library with their round-trip laws, and
  the ASCII part of \<open>str\<close>.  A Rust \<open>str\<close> or \<open>String\<close> is the list of its UTF-8 bytes.
\<close>

unbundle bit_operations_syntax

named_theorems byte_simps
named_theorems result_defs

type_synonym u8 = "8 word"
type_synonym u16 = "16 word"
type_synonym u32 = "32 word"
type_synonym u64 = "64 word"
type_synonym bytes = "u8 list"
type_synonym rust_str = "u8 list"

text \<open>A panic (an out-of-range index, a failed \<open>expect\<close>) is kept apart from the error a function returns.\<close>

datatype 'e fault = Err 'e | Panic

section \<open>Definitions\<close>

subsection \<open>Sizes and slices\<close>

abbreviation usize_limit :: nat where
  "usize_limit \<equiv> 2 ^ 64"

definition checked_add_usize :: "nat \<Rightarrow> nat \<Rightarrow> nat option" where
  "checked_add_usize a b = (if a + b < usize_limit then Some (a + b) else None)"

definition get_byte :: "bytes \<Rightarrow> nat \<Rightarrow> u8 option" where
  "get_byte xs i = (if i < length xs then Some (xs ! i) else None)"

definition slice :: "'a list \<Rightarrow> nat \<Rightarrow> nat \<Rightarrow> 'a list" where
  "slice xs a b = take (b - a) (drop a xs)"

definition get_range :: "bytes \<Rightarrow> nat \<Rightarrow> nat \<Rightarrow> bytes option" where
  "get_range xs a b = (if a \<le> b \<and> b \<le> length xs then Some (slice xs a b) else None)"

definition div_ceil :: "nat \<Rightarrow> nat \<Rightarrow> nat" where
  "div_ceil a b = (a + b - 1) div b"

text \<open>The \<open>?\<close> operator: go on with the value of an \<open>Ok\<close>, return an \<open>Err\<close> at once.\<close>

definition and_then :: "'e + 'a \<Rightarrow> ('a \<Rightarrow> 'e + 'b) \<Rightarrow> 'e + 'b" where
  "and_then m f = (case m of Inl e \<Rightarrow> Inl e | Inr x \<Rightarrow> f x)"

text \<open>\<open>map_err\<close> and \<open>ok_or\<close>.\<close>

definition map_err :: "('e \<Rightarrow> 'f) \<Rightarrow> 'e + 'a \<Rightarrow> 'f + 'a" where
  "map_err g m = (case m of Inl e \<Rightarrow> Inl (g e) | Inr x \<Rightarrow> Inr x)"

definition ok_or :: "'e \<Rightarrow> 'a option \<Rightarrow> 'e + 'a" where
  "ok_or e m = (case m of None \<Rightarrow> Inl e | Some x \<Rightarrow> Inr x)"

text \<open>\<open>iter().map(f).collect::<Result<Vec<_>, _>>()\<close>: the first error wins.\<close>

fun collect_results :: "('a \<Rightarrow> 'e + 'b) \<Rightarrow> 'a list \<Rightarrow> 'e + 'b list" where
  "collect_results f [] = Inr []"
| "collect_results f (x # xs) =
     (case f x of Inl e \<Rightarrow> Inl e
      | Inr y \<Rightarrow> (case collect_results f xs of Inl e \<Rightarrow> Inl e | Inr ys \<Rightarrow> Inr (y # ys)))"

subsection \<open>Byte order\<close>

fun le_nat :: "bytes \<Rightarrow> nat" where
  "le_nat [] = 0"
| "le_nat (b # bs) = unat b + 256 * le_nat bs"

fun le_bytes :: "nat \<Rightarrow> nat \<Rightarrow> bytes" where
  "le_bytes 0 x = []"
| "le_bytes (Suc n) x = word_of_nat (x mod 256) # le_bytes n (x div 256)"

definition be_nat :: "bytes \<Rightarrow> nat" where
  "be_nat bs = le_nat (rev bs)"

definition be_bytes :: "nat \<Rightarrow> nat \<Rightarrow> bytes" where
  "be_bytes n x = rev (le_bytes n x)"

definition u16_of_be :: "bytes \<Rightarrow> u16" where
  "u16_of_be bs = word_of_nat (be_nat bs)"

definition u32_of_be :: "bytes \<Rightarrow> u32" where
  "u32_of_be bs = word_of_nat (be_nat bs)"

definition u16_of_le :: "bytes \<Rightarrow> u16" where
  "u16_of_le bs = word_of_nat (le_nat bs)"

definition u32_of_le :: "bytes \<Rightarrow> u32" where
  "u32_of_le bs = word_of_nat (le_nat bs)"

definition u64_of_le :: "bytes \<Rightarrow> u64" where
  "u64_of_le bs = word_of_nat (le_nat bs)"

definition u16_to_be :: "u16 \<Rightarrow> bytes" where
  "u16_to_be w = be_bytes 2 (unat w)"

definition u32_to_be :: "u32 \<Rightarrow> bytes" where
  "u32_to_be w = be_bytes 4 (unat w)"

definition u16_to_le :: "u16 \<Rightarrow> bytes" where
  "u16_to_le w = le_bytes 2 (unat w)"

definition u32_to_le :: "u32 \<Rightarrow> bytes" where
  "u32_to_le w = le_bytes 4 (unat w)"

definition u64_to_le :: "u64 \<Rightarrow> bytes" where
  "u64_to_le w = le_bytes 8 (unat w)"

subsection \<open>ASCII text\<close>

definition ascii :: "string \<Rightarrow> rust_str" where
  "ascii s = map (\<lambda>c. word_of_nat (of_char c)) s"

definition is_ascii_upper :: "u8 \<Rightarrow> bool" where
  "is_ascii_upper b \<longleftrightarrow> 65 \<le> b \<and> b \<le> 90"

definition is_ascii_lower :: "u8 \<Rightarrow> bool" where
  "is_ascii_lower b \<longleftrightarrow> 97 \<le> b \<and> b \<le> 122"

definition is_ascii_digit :: "u8 \<Rightarrow> bool" where
  "is_ascii_digit b \<longleftrightarrow> 48 \<le> b \<and> b \<le> 57"

definition is_ascii_alphanumeric :: "u8 \<Rightarrow> bool" where
  "is_ascii_alphanumeric b \<longleftrightarrow> is_ascii_digit b \<or> is_ascii_upper b \<or> is_ascii_lower b"

definition to_ascii_lower_byte :: "u8 \<Rightarrow> u8" where
  "to_ascii_lower_byte b = (if is_ascii_upper b then b + 32 else b)"

definition to_ascii_lowercase :: "rust_str \<Rightarrow> rust_str" where
  "to_ascii_lowercase s = map to_ascii_lower_byte s"

text \<open>
  \<open>str::trim\<close> removes the characters with Unicode's \<open>White_Space\<close> property, here by their UTF-8
  encodings: U+0009 to U+000D, U+0020, U+0085, U+00A0, U+1680, U+2000 to U+200A, U+2028, U+2029,
  U+202F, U+205F and U+3000.
\<close>

definition is_space1 :: "u8 \<Rightarrow> bool" where
  "is_space1 a \<longleftrightarrow> (9 \<le> a \<and> a \<le> 13) \<or> a = 32"

definition is_space2 :: "u8 \<Rightarrow> u8 \<Rightarrow> bool" where
  "is_space2 a b \<longleftrightarrow> a = 0xC2 \<and> (b = 0x85 \<or> b = 0xA0)"

definition is_space3 :: "u8 \<Rightarrow> u8 \<Rightarrow> u8 \<Rightarrow> bool" where
  "is_space3 a b c \<longleftrightarrow>
     (a = 0xE1 \<and> b = 0x9A \<and> c = 0x80) \<or>
     (a = 0xE2 \<and> b = 0x80 \<and> ((0x80 \<le> c \<and> c \<le> 0x8A) \<or> c = 0xA8 \<or> c = 0xA9 \<or> c = 0xAF)) \<or>
     (a = 0xE2 \<and> b = 0x81 \<and> c = 0x9F) \<or>
     (a = 0xE3 \<and> b = 0x80 \<and> c = 0x80)"

fun trim_start :: "rust_str \<Rightarrow> rust_str" where
  "trim_start (a # s) =
     (if is_space1 a then trim_start s
      else (case s of
          b # c # s' \<Rightarrow> (if is_space2 a b then trim_start (c # s')
                         else if is_space3 a b c then trim_start s' else a # s)
        | [b] \<Rightarrow> (if is_space2 a b then [] else a # s)
        | [] \<Rightarrow> a # s))"
| "trim_start [] = []"

fun trim_end_rev :: "rust_str \<Rightarrow> rust_str" where
  "trim_end_rev (a # s) =
     (if is_space1 a then trim_end_rev s
      else (case s of
          b # c # s' \<Rightarrow> (if is_space2 b a then trim_end_rev (c # s')
                         else if is_space3 c b a then trim_end_rev s' else a # s)
        | [b] \<Rightarrow> (if is_space2 b a then [] else a # s)
        | [] \<Rightarrow> a # s))"
| "trim_end_rev [] = []"

definition str_trim :: "rust_str \<Rightarrow> rust_str" where
  "str_trim s = rev (trim_end_rev (rev (trim_start s)))"

text \<open>\<open>trim_end_matches(b)\<close> and \<open>split(b)\<close> for an ASCII character \<open>b\<close>; \<open>split\<close> always yields at least one piece.\<close>

definition trim_end_matches :: "u8 \<Rightarrow> rust_str \<Rightarrow> rust_str" where
  "trim_end_matches b s = rev (dropWhile (\<lambda>x. x = b) (rev s))"

fun str_split :: "u8 \<Rightarrow> rust_str \<Rightarrow> rust_str list" where
  "str_split b [] = [[]]"
| "str_split b (x # xs) =
     (if x = b then [] # str_split b xs
      else (case str_split b xs of p # ps \<Rightarrow> (x # p) # ps | [] \<Rightarrow> [[x]]))"

fun str_join :: "rust_str \<Rightarrow> rust_str list \<Rightarrow> rust_str" where
  "str_join sep [] = []"
| "str_join sep [p] = p"
| "str_join sep (p # q # ps) = p @ sep @ str_join sep (q # ps)"

text \<open>
  \<open>str::from_utf8\<close>: the well-formed UTF-8 byte sequences of the Unicode standard (no overlong forms,
  no surrogates, nothing above U+10FFFF).
\<close>

definition utf8_cont :: "u8 \<Rightarrow> bool" where
  "utf8_cont b \<longleftrightarrow> 0x80 \<le> b \<and> b \<le> 0xBF"

definition utf8_lead3 :: "u8 \<Rightarrow> u8 \<Rightarrow> bool" where
  "utf8_lead3 a b \<longleftrightarrow>
     (a = 0xE0 \<and> 0xA0 \<le> b \<and> b \<le> 0xBF) \<or> (a = 0xED \<and> 0x80 \<le> b \<and> b \<le> 0x9F) \<or>
     (((0xE1 \<le> a \<and> a \<le> 0xEC) \<or> a = 0xEE \<or> a = 0xEF) \<and> utf8_cont b)"

definition utf8_lead4 :: "u8 \<Rightarrow> u8 \<Rightarrow> bool" where
  "utf8_lead4 a b \<longleftrightarrow>
     (a = 0xF0 \<and> 0x90 \<le> b \<and> b \<le> 0xBF) \<or> (a = 0xF4 \<and> 0x80 \<le> b \<and> b \<le> 0x8F) \<or>
     (0xF1 \<le> a \<and> a \<le> 0xF3 \<and> utf8_cont b)"

fun utf8_valid :: "bytes \<Rightarrow> bool" where
  "utf8_valid [] \<longleftrightarrow> True"
| "utf8_valid (a # s) \<longleftrightarrow>
     (if a < 0x80 then utf8_valid s
      else case s of
          [] \<Rightarrow> False
        | b # s2 \<Rightarrow>
            (if 0xC2 \<le> a \<and> a \<le> 0xDF then utf8_cont b \<and> utf8_valid s2
             else case s2 of
                 [] \<Rightarrow> False
               | c # s3 \<Rightarrow>
                   (if utf8_lead3 a b then utf8_cont c \<and> utf8_valid s3
                    else case s3 of
                        [] \<Rightarrow> False
                      | d # s4 \<Rightarrow> utf8_lead4 a b \<and> utf8_cont c \<and> utf8_cont d \<and> utf8_valid s4)))"

definition str_from_utf8 :: "bytes \<Rightarrow> rust_str option" where
  "str_from_utf8 bs = (if utf8_valid bs then Some bs else None)"

text \<open>Hexadecimal literals for the byte-array constants of the source.\<close>

definition hex_digit :: "char \<Rightarrow> nat" where
  "hex_digit c =
     (let n = of_char c :: nat in
      if n \<le> 57 then n - 48 else if n \<le> 70 then n - 55 else n - 87)"

fun hex_lit :: "string \<Rightarrow> bytes" where
  "hex_lit (a # b # s) = word_of_nat (16 * hex_digit a + hex_digit b) # hex_lit s"
| "hex_lit [a] = []"
| "hex_lit [] = []"

section \<open>Lemmas\<close>

subsection \<open>Slices\<close>

lemma checked_add_usize_Some [simp]:
  "checked_add_usize a b = Some c \<longleftrightarrow> c = a + b \<and> a + b < usize_limit"
  by (auto simp: checked_add_usize_def)

lemma checked_add_usize_None [simp]:
  "checked_add_usize a b = None \<longleftrightarrow> usize_limit \<le> a + b"
  by (auto simp: checked_add_usize_def)

lemma checked_add_usize_eq: "a + b < usize_limit \<Longrightarrow> checked_add_usize a b = Some (a + b)"
  by simp

lemma get_byte_Some [simp]: "get_byte xs i = Some b \<longleftrightarrow> i < length xs \<and> b = xs ! i"
  by (auto simp: get_byte_def)

lemma get_byte_None [simp]: "get_byte xs i = None \<longleftrightarrow> length xs \<le> i"
  by (auto simp: get_byte_def)

lemma get_range_Some [simp]:
  "get_range xs a b = Some ys \<longleftrightarrow> a \<le> b \<and> b \<le> length xs \<and> ys = slice xs a b"
  by (auto simp: get_range_def)

lemma get_range_None [simp]: "get_range xs a b = None \<longleftrightarrow> \<not> (a \<le> b \<and> b \<le> length xs)"
  by (auto simp: get_range_def)

lemma length_slice [simp]: "length (slice xs a b) = min (b - a) (length xs - a)"
  by (simp add: slice_def)

lemma slice_all [simp]: "slice xs 0 (length xs) = xs"
  by (simp add: slice_def)

lemma slice_append_mid [simp]:
  "slice (pre @ mid @ post) (length pre) (length pre + length mid) = mid"
  by (simp add: slice_def)

lemma slice_append_mid_eq:
  "\<lbrakk>length pre = a; b = a + length mid\<rbrakk> \<Longrightarrow> slice (pre @ mid @ post) a b = mid"
  by (auto simp: slice_def)

lemma slice_nth [simp]: "\<lbrakk>i < b - a; b \<le> length xs\<rbrakk> \<Longrightarrow> slice xs a b ! i = xs ! (a + i)"
  by (simp add: slice_def)

lemma get_byte_append_mid: "length pre = i \<Longrightarrow> get_byte (pre @ b # post) i = Some b"
  by auto

lemma slice_split:
  "\<lbrakk>a \<le> b; b \<le> c\<rbrakk> \<Longrightarrow> slice xs a c = slice xs a b @ slice xs b c"
proof -
  assume "a \<le> b" "b \<le> c"
  then have "c - a = (b - a) + (c - b)" and "drop b xs = drop (b - a) (drop a xs)"
    by simp_all
  then show ?thesis unfolding slice_def by (simp only: take_add)
qed

lemma take_slice_drop:
  "\<lbrakk>a \<le> b; b \<le> length xs\<rbrakk> \<Longrightarrow> take a xs @ slice xs a b @ drop b xs = xs"
  by (metis append_take_drop_id le_add_diff_inverse2 le_iff_add add_diff_cancel_left' slice_def
      drop_drop add.commute)

lemma take_drop_cat: "k + n = m \<Longrightarrow> take n (drop k xs) @ drop m xs = drop k xs"
  by (metis append_take_drop_id drop_drop add.commute)

lemma map_le_Some: "\<lbrakk>m \<subseteq>\<^sub>m m'; m k = Some v\<rbrakk> \<Longrightarrow> m' k = Some v"
  by (metis domI map_le_def)

subsection \<open>Results\<close>

lemma set_map_filter: "set (List.map_filter f xs) = {y. \<exists>x\<in>set xs. f x = Some y}"
  by (induction xs) (auto simp: List.map_filter_simps split: option.splits)

lemma and_then_simps [simp]:
  "and_then (Inl e) f = Inl e" "and_then (Inr x) f = f x"
  by (simp_all add: and_then_def)

lemma and_then_Inr: "and_then m f = Inr y \<longleftrightarrow> (\<exists>x. m = Inr x \<and> f x = Inr y)"
  by (cases m) auto

lemma and_then_Inl: "and_then m f = Inl e \<longleftrightarrow> m = Inl e \<or> (\<exists>x. m = Inr x \<and> f x = Inl e)"
  by (cases m) auto

lemma and_then_cong [fundef_cong]:
  "\<lbrakk>m = n; \<And>x. n = Inr x \<Longrightarrow> f x = g x\<rbrakk> \<Longrightarrow> and_then m f = and_then n g"
  by (cases n) auto

lemma map_err_simps [simp]: "map_err g (Inl e) = Inl (g e)" "map_err g (Inr x) = Inr x"
  by (simp_all add: map_err_def)

lemma map_err_Inr [simp]: "map_err g m = Inr x \<longleftrightarrow> m = Inr x"
  by (cases m) auto

lemma map_err_Inl [simp]: "map_err g m = Inl e \<longleftrightarrow> (\<exists>d. m = Inl d \<and> e = g d)"
  by (cases m) auto

lemma ok_or_simps [simp]: "ok_or e None = Inl e" "ok_or e (Some x) = Inr x"
  by (simp_all add: ok_or_def)

lemma ok_or_Inr [simp]: "ok_or e m = Inr x \<longleftrightarrow> m = Some x"
  by (cases m) auto

lemma ok_or_Inl [simp]: "ok_or e m = Inl d \<longleftrightarrow> m = None \<and> d = e"
  by (cases m) auto

lemmas [result_defs] = and_then_Inr and_then_Inl

lemma collect_results_length: "collect_results f xs = Inr ys \<Longrightarrow> length ys = length xs"
  by (induction xs arbitrary: ys) (auto split: sum.splits)

lemma collect_results_set:
  "collect_results f xs = Inr ys \<Longrightarrow> y \<in> set ys \<Longrightarrow> \<exists>x \<in> set xs. f x = Inr y"
  by (induction xs arbitrary: ys) (auto split: sum.splits)

lemma collect_results_list_all2:
  "collect_results f xs = Inr ys \<longleftrightarrow> list_all2 (\<lambda>x y. f x = Inr y) xs ys"
proof (induction xs arbitrary: ys)
  case (Cons x xs)
  show ?case
  proof (cases "f x")
    case (Inr y)
    have "collect_results f (x # xs) = Inr ys \<longleftrightarrow>
        (\<exists>zs. collect_results f xs = Inr zs \<and> ys = y # zs)"
      using Inr by (auto split: sum.splits)
    with Cons Inr show ?thesis by (auto simp: list_all2_Cons1)
  qed (auto simp: list_all2_Cons1)
qed auto

lemma collect_results_cong [fundef_cong]:
  "\<lbrakk>xs = ys; \<And>x. x \<in> set ys \<Longrightarrow> f x = g x\<rbrakk> \<Longrightarrow> collect_results f xs = collect_results g ys"
  by (induction xs arbitrary: ys) (auto split: sum.splits)

subsection \<open>Byte order\<close>

lemma unat_u8_less [simp]: "unat (b :: u8) < 256"
  using unsigned_less [of b, where 'a = nat] by simp

lemma length_le_bytes [simp]: "length (le_bytes n x) = n"
  by (induction n arbitrary: x) auto

lemma length_be_bytes [simp]: "length (be_bytes n x) = n"
  by (simp add: be_bytes_def)

lemma le_bytes_0 [simp]: "le_bytes n 0 = replicate n 0"
  by (induction n) auto

lemma le_nat_less: "le_nat bs < 256 ^ length bs"
proof (induction bs)
  case (Cons b bs)
  have "unat b + 256 * le_nat bs < 256 + 256 * le_nat bs" by simp
  also have "\<dots> \<le> 256 * 256 ^ length bs" using Cons by simp
  finally show ?case by simp
qed simp

lemma be_nat_less: "be_nat bs < 256 ^ length bs"
  using le_nat_less [of "rev bs"] by (simp add: be_nat_def)

lemma le_nat_append: "le_nat (xs @ ys) = le_nat xs + 256 ^ length xs * le_nat ys"
  by (induction xs) (auto simp: algebra_simps)

lemma le_nat_le_bytes [byte_simps]: "le_nat (le_bytes n x) = x mod 256 ^ n"
proof (induction n arbitrary: x)
  case (Suc n)
  have "le_nat (le_bytes (Suc n) x) = x mod 256 + 256 * ((x div 256) mod 256 ^ n)"
    using Suc by (simp add: unat_of_nat)
  then show ?case by (simp add: mod_mult2_eq)
qed simp

lemma be_nat_be_bytes [byte_simps]: "be_nat (be_bytes n x) = x mod 256 ^ n"
  by (simp add: be_nat_def be_bytes_def le_nat_le_bytes)

lemma le_bytes_le_nat [byte_simps]: "le_bytes (length bs) (le_nat bs) = bs"
  by (induction bs) (auto simp: unat_of_nat div_mult_self3 mod_mult_self2)

lemma be_bytes_be_nat [byte_simps]: "be_bytes (length bs) (be_nat bs) = bs"
  using le_bytes_le_nat [of "rev bs"] by (simp add: be_nat_def be_bytes_def)

lemma le_bytes_mod: "le_bytes n (x mod 256 ^ n) = le_bytes n x"
  using le_bytes_le_nat [of "le_bytes n x"] by (simp add: le_nat_le_bytes)

lemma length_word_bytes [simp]:
  "length (u16_to_be a) = 2" "length (u32_to_be b) = 4"
  "length (u16_to_le a) = 2" "length (u32_to_le b) = 4" "length (u64_to_le c) = 8"
  by (simp_all add: u16_to_be_def u32_to_be_def u16_to_le_def u32_to_le_def u64_to_le_def)

lemma word_bytes_round_trip [simp]:
  "u16_of_be (u16_to_be a) = a" "u32_of_be (u32_to_be b) = b"
  "u16_of_le (u16_to_le a) = a" "u32_of_le (u32_to_le b) = b" "u64_of_le (u64_to_le c) = c"
  using unsigned_less [of a, where 'a = nat] unsigned_less [of b, where 'a = nat]
    unsigned_less [of c, where 'a = nat]
  by (simp_all add: u16_of_be_def u16_to_be_def u32_of_be_def u32_to_be_def u16_of_le_def
      u16_to_le_def u32_of_le_def u32_to_le_def u64_of_le_def u64_to_le_def byte_simps)

lemma unat_u16_of_be: "length bs = 2 \<Longrightarrow> unat (u16_of_be bs) = be_nat bs"
  using be_nat_less [of bs] by (simp add: u16_of_be_def unat_of_nat)

lemma unat_u32_of_be: "length bs = 4 \<Longrightarrow> unat (u32_of_be bs) = be_nat bs"
  using be_nat_less [of bs] by (simp add: u32_of_be_def unat_of_nat)

lemma unat_u32_of_le: "length bs = 4 \<Longrightarrow> unat (u32_of_le bs) = le_nat bs"
  using le_nat_less [of bs] by (simp add: u32_of_le_def unat_of_nat)

lemma unat_u16_of_le: "length bs = 2 \<Longrightarrow> unat (u16_of_le bs) = le_nat bs"
  using le_nat_less [of bs] by (simp add: u16_of_le_def unat_of_nat)

lemma unat_u64_of_le: "length bs = 8 \<Longrightarrow> unat (u64_of_le bs) = le_nat bs"
  using le_nat_less [of bs] by (simp add: u64_of_le_def unat_of_nat)

lemma u16_to_be_of_be: "length bs = 2 \<Longrightarrow> u16_to_be (u16_of_be bs) = bs"
  using be_bytes_be_nat [of bs] by (simp add: u16_to_be_def unat_u16_of_be)

lemma u32_to_be_of_be: "length bs = 4 \<Longrightarrow> u32_to_be (u32_of_be bs) = bs"
  using be_bytes_be_nat [of bs] by (simp add: u32_to_be_def unat_u32_of_be)

lemma u16_to_le_of_le: "length bs = 2 \<Longrightarrow> u16_to_le (u16_of_le bs) = bs"
  using le_bytes_le_nat [of bs] by (simp add: u16_to_le_def unat_u16_of_le)

lemma u32_to_le_of_le: "length bs = 4 \<Longrightarrow> u32_to_le (u32_of_le bs) = bs"
  using le_bytes_le_nat [of bs] by (simp add: u32_to_le_def unat_u32_of_le)

lemma u64_to_le_of_le: "length bs = 8 \<Longrightarrow> u64_to_le (u64_of_le bs) = bs"
  using le_bytes_le_nat [of bs] by (simp add: u64_to_le_def unat_u64_of_le)

lemmas word_of_bytes_inverse =
  u16_to_be_of_be u32_to_be_of_be u16_to_le_of_le u32_to_le_of_le u64_to_le_of_le

lemma unat_drop_bit_div: "unat (drop_bit n (w :: 'a :: len word)) = unat w div 2 ^ n"
  unfolding unat_drop_bit_eq by (rule drop_bit_eq_div)

lemma unat_take_bit_mod: "unat (take_bit n (w :: 'a :: len word)) = unat w mod 2 ^ n"
  unfolding unsigned_take_bit_eq by (rule take_bit_eq_mod)

lemma bit_word_odd: "bit (w :: 'a :: len word) n \<longleftrightarrow> odd (unat w div 2 ^ n)"
proof -
  have "bit w n \<longleftrightarrow> bit (unat w) n" by (auto simp: bit_unsigned_iff bit_imp_possible_bit)
  then show ?thesis by (simp only: bit_iff_odd)
qed

lemma and_mask_mod: "unat ((w :: 'a :: len word) AND mask n) = unat w mod 2 ^ n"
  by (simp only: unat_take_bit_mod flip: take_bit_eq_mask)

lemma and_exp_zero: "(w :: 'a :: len word) AND 2 ^ n = 0 \<longleftrightarrow> even (unat w div 2 ^ n)"
  by (simp only: and_exp_eq_0_iff_not_bit bit_word_odd not_not)

subsection \<open>ASCII text\<close>

lemma to_ascii_lower_byte_idem [simp]:
  "to_ascii_lower_byte (to_ascii_lower_byte b) = to_ascii_lower_byte b"
proof -
  have "is_ascii_upper b \<Longrightarrow> \<not> is_ascii_upper (b + 32)"
    by (auto simp: is_ascii_upper_def word_le_nat_alt unat_word_ariths)
  then show ?thesis by (simp add: to_ascii_lower_byte_def)
qed

lemma to_ascii_lowercase_idem [simp]:
  "to_ascii_lowercase (to_ascii_lowercase s) = to_ascii_lowercase s"
  by (simp add: to_ascii_lowercase_def)

lemma length_to_ascii_lowercase [simp]: "length (to_ascii_lowercase s) = length s"
  by (simp add: to_ascii_lowercase_def)

lemma length_ascii [simp]: "length (ascii s) = length s"
  by (simp add: ascii_def)

lemma utf8_valid_ascii: "\<forall>b \<in> set bs. b < 0x80 \<Longrightarrow> utf8_valid bs"
  by (induction bs) auto

lemma str_split_nonempty [simp]: "str_split b s \<noteq> []"
  by (induction s) (auto split: list.splits)

lemma str_split_no_sep: "p \<in> set (str_split b s) \<Longrightarrow> b \<notin> set p"
  by (induction s arbitrary: p) (auto split: list.splits if_splits)

lemma str_split_single: "b \<notin> set s \<Longrightarrow> str_split b s = [s]"
  by (induction s) auto

lemma str_split_append_sep:
  "b \<notin> set p \<Longrightarrow> str_split b (p @ b # s) = p # str_split b s"
  by (induction p) (auto split: list.splits)

lemma str_split_join:
  "\<lbrakk>ps \<noteq> []; \<forall>p \<in> set ps. b \<notin> set p\<rbrakk> \<Longrightarrow> str_split b (str_join [b] ps) = ps"
proof (induction ps rule: induct_list012)
  case (3 p q ps)
  then show ?case by (simp add: str_split_append_sep)
qed (auto simp: str_split_single)

lemma str_join_split: "str_join [b] (str_split b s) = s"
proof (induction s)
  case (Cons x s)
  obtain p ps where sp: "str_split b s = p # ps"
    by (cases "str_split b s") auto
  show ?case
  proof (cases "x = b")
    case True
    with sp Cons show ?thesis by (cases ps) auto
  next
    case False
    with sp Cons show ?thesis by (cases ps) auto
  qed
qed simp

end
