(* ===== verification/Reader.thy ===== *)
theory Reader
  imports Prelude
begin

text \<open>
  \<open>hns-core/src/bytes.rs\<close>: the bounds-checked cursor over a byte slice that every fixed-layout
  parser of the program reads through.  A read returns the value and the advanced reader, or the
  \<open>ParseError\<close> and leaves the offset alone.
\<close>

section \<open>Definitions\<close>

datatype parse_error =
    UnexpectedEof
  | TrailingBytes
  | LengthLimit
  | InvalidDnsLabel
  | InvalidDnsPointer
  | InvalidSvcb

record reader =
  rd_data :: bytes
  rd_offset :: nat

definition reader_new :: "bytes \<Rightarrow> reader" where
  "reader_new data = \<lparr>rd_data = data, rd_offset = 0\<rparr>"

definition remaining :: "reader \<Rightarrow> nat" where
  "remaining r = length (rd_data r) - rd_offset r"

definition ensure_finished :: "reader \<Rightarrow> parse_error + unit" where
  "ensure_finished r = (if remaining r = 0 then Inr () else Inl TrailingBytes)"

definition read_bytes :: "nat \<Rightarrow> reader \<Rightarrow> parse_error + (bytes \<times> reader)" where
  "read_bytes len r =
     (case checked_add_usize (rd_offset r) len of
        None \<Rightarrow> Inl LengthLimit
      | Some fin \<Rightarrow>
          (if fin > length (rd_data r) then Inl UnexpectedEof
           else Inr (slice (rd_data r) (rd_offset r) fin, r\<lparr>rd_offset := fin\<rparr>)))"

definition read_array :: "nat \<Rightarrow> reader \<Rightarrow> parse_error + (bytes \<times> reader)" where
  "read_array n r = read_bytes n r"

definition read_u8 :: "reader \<Rightarrow> parse_error + (u8 \<times> reader)" where
  "read_u8 r =
     and_then (read_array 1 r) (\<lambda>(bs, r'). Inr (bs ! 0, r'))"

definition read_u16_be :: "reader \<Rightarrow> parse_error + (u16 \<times> reader)" where
  "read_u16_be r =
     and_then (read_array 2 r) (\<lambda>(bs, r'). Inr (u16_of_be bs, r'))"

definition read_u32_be :: "reader \<Rightarrow> parse_error + (u32 \<times> reader)" where
  "read_u32_be r =
     and_then (read_array 4 r) (\<lambda>(bs, r'). Inr (u32_of_be bs, r'))"

definition read_u32_le :: "reader \<Rightarrow> parse_error + (u32 \<times> reader)" where
  "read_u32_le r =
     and_then (read_array 4 r) (\<lambda>(bs, r'). Inr (u32_of_le bs, r'))"

definition read_u64_le :: "reader \<Rightarrow> parse_error + (u64 \<times> reader)" where
  "read_u64_le r =
     and_then (read_array 8 r) (\<lambda>(bs, r'). Inr (u64_of_le bs, r'))"

text \<open>The unread bytes, the reader after \<open>n\<close> of them, and the readers that can arise on a real slice.\<close>

definition rest :: "reader \<Rightarrow> bytes" where
  "rest r = drop (rd_offset r) (rd_data r)"

definition advance :: "nat \<Rightarrow> reader \<Rightarrow> reader" where
  "advance n r = r\<lparr>rd_offset := rd_offset r + n\<rparr>"

definition reader_ok :: "reader \<Rightarrow> bool" where
  "reader_ok r \<longleftrightarrow> rd_offset r \<le> length (rd_data r) \<and> length (rd_data r) < usize_limit div 2"

section \<open>Lemmas\<close>

lemma reader_new_simps [simp]:
  "rest (reader_new data) = data"
  "length data < usize_limit div 2 \<Longrightarrow> reader_ok (reader_new data)"
  by (simp_all add: rest_def reader_new_def reader_ok_def)

lemma rest_advance [simp]: "rest (advance n r) = drop n (rest r)"
  by (simp add: rest_def advance_def add.commute)

lemma reader_ok_advance [simp]:
  "\<lbrakk>reader_ok r; n \<le> length (rest r)\<rbrakk> \<Longrightarrow> reader_ok (advance n r)"
  by (auto simp: reader_ok_def advance_def rest_def)

text \<open>
  Reads in closed form: on a reader over a real slice a fixed-size read takes the next bytes
  when they are there and reports \<open>UnexpectedEof\<close> otherwise.
\<close>

lemma read_array_closed:
  assumes "reader_ok r" "n < usize_limit div 2"
  shows "read_array n r =
     (if n \<le> length (rest r) then Inr (take n (rest r), advance n r) else Inl UnexpectedEof)"
  using assms
  by (auto simp: read_array_def read_bytes_def reader_ok_def rest_def advance_def slice_def
      checked_add_usize_def)

lemma reads_closed:
  assumes "reader_ok r"
  shows
    "read_u32_le r = (if 4 \<le> length (rest r) then Inr (u32_of_le (take 4 (rest r)), advance 4 r)
       else Inl UnexpectedEof)"
    "read_u64_le r = (if 8 \<le> length (rest r) then Inr (u64_of_le (take 8 (rest r)), advance 8 r)
       else Inl UnexpectedEof)"
    "read_u16_be r = (if 2 \<le> length (rest r) then Inr (u16_of_be (take 2 (rest r)), advance 2 r)
       else Inl UnexpectedEof)"
    "read_u32_be r = (if 4 \<le> length (rest r) then Inr (u32_of_be (take 4 (rest r)), advance 4 r)
       else Inl UnexpectedEof)"
    "read_u8 r = (if 1 \<le> length (rest r) then Inr (rest r ! 0, advance 1 r)
       else Inl UnexpectedEof)"
  using assms
  by (simp_all add: read_u32_le_def read_u64_le_def read_u16_be_def read_u32_be_def read_u8_def
      read_array_closed)

lemma ensure_finished_closed:
  "reader_ok r \<Longrightarrow> ensure_finished r = (if rest r = [] then Inr () else Inl TrailingBytes)"
  by (simp add: ensure_finished_def remaining_def rest_def)

lemmas reader_closed = read_array_closed reads_closed ensure_finished_closed

end
