(* ===== verification/Hashing.thy ===== *)
theory Hashing
  imports Prelude
begin

text \<open>
  \<open>hns-core/src/hash.rs\<close>: 32-byte hashes, the Handshake name rules and the digest wrappers.
  The digests themselves come from the crates \<open>blake2\<close>, \<open>sha1\<close>, \<open>sha2\<close> and \<open>sha3\<close>; they are the
  fields of the record \<open>digest_fns\<close>, which every definition that hashes takes as an argument.
  What the code relies on of them is \<open>digest_laws\<close>: the documented output lengths.
  A \<open>Hash\<close> is its 32 bytes.
\<close>

section \<open>Definitions\<close>

type_synonym hash = bytes

record digest_fns =
  blake2b_var :: "nat \<Rightarrow> bytes \<Rightarrow> bytes"
  sha3_256_digest :: "bytes \<Rightarrow> bytes"
  sha1_digest :: "bytes \<Rightarrow> bytes"
  sha256_digest :: "bytes \<Rightarrow> bytes"
  sha384_digest :: "bytes \<Rightarrow> bytes"
  sha512_digest :: "bytes \<Rightarrow> bytes"

definition digest_laws :: "digest_fns \<Rightarrow> bool" where
  "digest_laws D \<longleftrightarrow>
     (\<forall>n m. length (blake2b_var D n m) = n) \<and>
     (\<forall>m. length (sha3_256_digest D m) = 32) \<and>
     (\<forall>m. length (sha1_digest D m) = 20) \<and>
     (\<forall>m. length (sha256_digest D m) = 32) \<and>
     (\<forall>m. length (sha384_digest D m) = 48) \<and>
     (\<forall>m. length (sha512_digest D m) = 64)"

definition MAX_HANDSHAKE_NAME_LEN :: nat where
  "MAX_HANDSHAKE_NAME_LEN = 63"

datatype hash_error = InvalidLength | InvalidHex

datatype name_hash_error =
    EmptyName | TooLong | Uppercase | InvalidCharacter | InvalidBoundary | Blacklisted

definition hash_ZERO :: hash where
  "hash_ZERO = replicate 32 0"

definition hash_from_slice :: "bytes \<Rightarrow> hash_error + hash" where
  "hash_from_slice bs = (if length bs \<noteq> 32 then Inl InvalidLength else Inr bs)"

text \<open>\<open>hex::decode\<close> is a function of the crate \<open>hex\<close>: a parameter.\<close>

definition hash_from_hex :: "(rust_str \<Rightarrow> bytes option) \<Rightarrow> rust_str \<Rightarrow> hash_error + hash" where
  "hash_from_hex hex_decode s =
     (case hex_decode s of None \<Rightarrow> Inl InvalidHex | Some bs \<Rightarrow> hash_from_slice bs)"

fun validate_name_bytes :: "nat \<Rightarrow> nat \<Rightarrow> rust_str \<Rightarrow> name_hash_error + unit" where
  "validate_name_bytes len index [] = Inr ()"
| "validate_name_bytes len index (byte # rest) =
     (if is_ascii_digit byte \<or> is_ascii_lower byte then validate_name_bytes len (Suc index) rest
      else if is_ascii_upper byte then Inl Uppercase
      else if byte = 45 \<or> byte = 95 then
        (if index = 0 \<or> index + 1 = len then Inl InvalidBoundary
         else validate_name_bytes len (Suc index) rest)
      else Inl InvalidCharacter)"

definition name_blacklist :: "rust_str list" where
  "name_blacklist =
     [ascii ''example'', ascii ''invalid'', ascii ''local'', ascii ''localhost'', ascii ''test'']"

definition validate_handshake_name :: "rust_str \<Rightarrow> name_hash_error + unit" where
  "validate_handshake_name name =
     (if name = [] then Inl EmptyName
      else if length name > MAX_HANDSHAKE_NAME_LEN then Inl TooLong
      else if name \<in> set name_blacklist then Inl Blacklisted
      else validate_name_bytes (length name) 0 name)"

definition blake2b_256 :: "digest_fns \<Rightarrow> bytes list \<Rightarrow> hash" where
  "blake2b_256 D parts = blake2b_var D 32 (concat parts)"

definition blake2b_512 :: "digest_fns \<Rightarrow> bytes list \<Rightarrow> bytes" where
  "blake2b_512 D parts = blake2b_var D 64 (concat parts)"

definition sha3_256 :: "digest_fns \<Rightarrow> bytes list \<Rightarrow> hash" where
  "sha3_256 D parts = sha3_256_digest D (concat parts)"

definition name_hash_from_name :: "digest_fns \<Rightarrow> rust_str \<Rightarrow> name_hash_error + hash" where
  "name_hash_from_name D name =
     (case validate_handshake_name name of
        Inl e \<Rightarrow> Inl e
      | Inr _ \<Rightarrow> Inr (sha3_256 D [name]))"

text \<open>
  The rule set the validator is meant to enforce, stated over the whole name: between one and
  63 bytes of lower-case letters, digits, hyphens and underscores, neither end a hyphen or an
  underscore, and not one of the reserved names.
\<close>

definition name_char :: "u8 \<Rightarrow> bool" where
  "name_char b \<longleftrightarrow> is_ascii_digit b \<or> is_ascii_lower b \<or> b = 45 \<or> b = 95"

definition name_edge_char :: "u8 \<Rightarrow> bool" where
  "name_edge_char b \<longleftrightarrow> is_ascii_digit b \<or> is_ascii_lower b"

definition handshake_name_ok :: "rust_str \<Rightarrow> bool" where
  "handshake_name_ok name \<longleftrightarrow>
     name \<noteq> [] \<and> length name \<le> 63 \<and> name \<notin> set name_blacklist \<and>
     (\<forall>b \<in> set name. name_char b) \<and> name_edge_char (hd name) \<and> name_edge_char (last name)"

text \<open>A family of digests with the documented output lengths, for concrete instances.\<close>

definition pad_digest :: "nat \<Rightarrow> bytes \<Rightarrow> bytes" where
  "pad_digest n m = take n (m @ replicate n 0)"

definition sample_digests :: digest_fns where
  "sample_digests =
     \<lparr>blake2b_var = pad_digest, sha3_256_digest = pad_digest 32, sha1_digest = pad_digest 20,
      sha256_digest = pad_digest 32, sha384_digest = pad_digest 48, sha512_digest = pad_digest 64\<rparr>"

section \<open>Lemmas\<close>

lemma sample_digests_laws: "digest_laws sample_digests"
  by (auto simp: digest_laws_def sample_digests_def pad_digest_def)

lemma length_hash_ZERO [simp]: "length hash_ZERO = 32"
  by (simp add: hash_ZERO_def)

lemma length_blake2b_256: "digest_laws D \<Longrightarrow> length (blake2b_256 D parts) = 32"
  by (simp add: digest_laws_def blake2b_256_def)

lemma length_blake2b_512: "digest_laws D \<Longrightarrow> length (blake2b_512 D parts) = 64"
  by (simp add: digest_laws_def blake2b_512_def)

lemma length_sha3_256: "digest_laws D \<Longrightarrow> length (sha3_256 D parts) = 32"
  by (simp add: digest_laws_def sha3_256_def)

lemma hash_from_slice_Inr [simp]: "hash_from_slice bs = Inr h \<longleftrightarrow> length bs = 32 \<and> h = bs"
  by (auto simp: hash_from_slice_def)

lemma name_char_not_upper: "name_char b \<Longrightarrow> \<not> is_ascii_upper b"
  by (auto simp: name_char_def is_ascii_digit_def is_ascii_lower_def is_ascii_upper_def
      word_le_nat_alt)

text \<open>
  The byte loop, from position \<open>index\<close> of a name of length \<open>len\<close>: it accepts exactly when the
  rest are name characters and a separator sits at neither end.
\<close>

lemma validate_name_bytes_iff:
  assumes "index + length rest = len"
  shows "validate_name_bytes len index rest = Inr () \<longleftrightarrow>
     (\<forall>i < length rest. name_char (rest ! i) \<and>
        (index + i = 0 \<or> index + i + 1 = len \<longrightarrow> name_edge_char (rest ! i)))"
  using assms
proof (induction len index rest rule: validate_name_bytes.induct)
  case (2 len index byte rest)
  note all = All_less_Suc2
  have len: "Suc index + length rest = len" using 2(3) by simp
  consider (plain) "is_ascii_digit byte \<or> is_ascii_lower byte"
    | (sep) "\<not> (is_ascii_digit byte \<or> is_ascii_lower byte)" "byte = 45 \<or> byte = 95"
    | (other) "\<not> name_char byte"
    by (auto simp: name_char_def)
  then show ?case
  proof cases
    case plain
    then have "name_char byte" "name_edge_char byte"
      by (auto simp: name_char_def name_edge_char_def)
    with plain 2(1) [OF plain len] show ?thesis by (simp add: all)
  next
    case sep
    then have up: "\<not> is_ascii_upper byte" and nc: "name_char byte" and ne: "\<not> name_edge_char byte"
      by (auto simp: is_ascii_upper_def name_char_def name_edge_char_def word_le_nat_alt)
    show ?thesis
    proof (cases "index = 0 \<or> index + 1 = len")
      case True
      with sep up ne show ?thesis by (auto simp: all)
    next
      case False
      with sep up nc 2(2) [OF sep(1) up sep(2) False len] show ?thesis by (simp add: all)
    qed
  next
    case other
    then show ?thesis by (auto simp: name_char_def all)
  qed
qed simp


lemma handshake_name_exact:
  "validate_handshake_name name = Inr () \<longleftrightarrow> handshake_name_ok name"
proof (cases "name = []")
  case False
  then have len: "0 + length name = length name" "0 < length name" by simp_all
  have ends: "(\<forall>i < length name. name_char (name ! i) \<and>
        (0 + i = 0 \<or> 0 + i + 1 = length name \<longrightarrow> name_edge_char (name ! i))) \<longleftrightarrow>
      (\<forall>b \<in> set name. name_char b) \<and> name_edge_char (hd name) \<and> name_edge_char (last name)"
    using False by (auto simp: all_set_conv_all_nth hd_conv_nth last_conv_nth)
      (metis One_nat_def diff_Suc_1)
  show ?thesis
    unfolding validate_handshake_name_def handshake_name_ok_def MAX_HANDSHAKE_NAME_LEN_def
    using False validate_name_bytes_iff [OF len(1)] by (simp only: ends) auto
qed (simp add: validate_handshake_name_def handshake_name_ok_def)

section \<open>Properties\<close>

text \<open>
  The name validator accepts exactly the names of the Handshake rule set: one to 63 bytes
  of lower-case letters, digits, hyphens and underscores, no hyphen or underscore at either end,
  and none of the reserved names.
\<close>

theorem validate_handshake_name_iff:
  "validate_handshake_name name = Inr () \<longleftrightarrow> handshake_name_ok name"
  by (rule handshake_name_exact)

end
