(* ===== verification/Header.thy ===== *)
theory Header
  imports Reader Hashing
begin

text \<open>
  \<open>hns-core/src/header.rs\<close> and the network table of \<open>hns-core/src/network.rs\<close>: the 236-byte
  Handshake block header, its wire format, the genesis headers, and the masked proof-of-work hash.
  Byte arrays are lists; \<open>wf_header\<close> records the array lengths the Rust types fix.
\<close>

section \<open>Definitions\<close>

definition HEADER_SIZE :: nat where
  "HEADER_SIZE = 236"

definition EXTRA_NONCE_SIZE :: nat where
  "EXTRA_NONCE_SIZE = 24"

record block_header =
  nonce :: u32
  time :: u64
  prev_block :: hash
  tree_root :: hash
  extra_nonce :: bytes
  reserved_root :: hash
  witness_root :: hash
  merkle_root :: hash
  version :: u32
  bits :: u32
  mask_hash_field :: hash

definition wf_header :: "block_header \<Rightarrow> bool" where
  "wf_header h \<longleftrightarrow>
     length (prev_block h) = 32 \<and> length (tree_root h) = 32 \<and>
     length (extra_nonce h) = EXTRA_NONCE_SIZE \<and> length (reserved_root h) = 32 \<and>
     length (witness_root h) = 32 \<and> length (merkle_root h) = 32 \<and>
     length (mask_hash_field h) = 32"

definition header_parse :: "bytes \<Rightarrow> parse_error + block_header" where
  "header_parse data =
     (if length data \<noteq> HEADER_SIZE then Inl UnexpectedEof else
      and_then (read_u32_le (reader_new data)) (\<lambda>(nonce_v, r).
      and_then (read_u64_le r) (\<lambda>(time_v, r).
      and_then (read_array 32 r) (\<lambda>(prev_v, r).
      and_then (read_array 32 r) (\<lambda>(tree_v, r).
      and_then (read_array EXTRA_NONCE_SIZE r) (\<lambda>(extra_v, r).
      and_then (read_array 32 r) (\<lambda>(reserved_v, r).
      and_then (read_array 32 r) (\<lambda>(witness_v, r).
      and_then (read_array 32 r) (\<lambda>(merkle_v, r).
      and_then (read_u32_le r) (\<lambda>(version_v, r).
      and_then (read_u32_le r) (\<lambda>(bits_v, r).
      and_then (read_array 32 r) (\<lambda>(mask_v, r).
      and_then (ensure_finished r) (\<lambda>_.
      Inr \<lparr>nonce = nonce_v, time = time_v, prev_block = prev_v, tree_root = tree_v,
           extra_nonce = extra_v, reserved_root = reserved_v, witness_root = witness_v,
           merkle_root = merkle_v, version = version_v, bits = bits_v,
           mask_hash_field = mask_v\<rparr>)))))))))))))"

text \<open>
  \<open>serialize\<close> writes the fields one after another into a 236-byte buffer; the writes are
  contiguous and, for headers with the array lengths of the type, fill it exactly.
\<close>

definition header_serialize :: "block_header \<Rightarrow> bytes" where
  "header_serialize h =
     u32_to_le (nonce h) @ u64_to_le (time h) @ prev_block h @ tree_root h @ extra_nonce h @
     reserved_root h @ witness_root h @ merkle_root h @ u32_to_le (version h) @
     u32_to_le (bits h) @ mask_hash_field h"

definition genesis_template :: block_header where
  "genesis_template =
     \<lparr>nonce = 0, time = 1580745078, prev_block = hash_ZERO, tree_root = hash_ZERO,
      extra_nonce = replicate EXTRA_NONCE_SIZE 0, reserved_root = hash_ZERO,
      witness_root = hex_lit ''1a2c60b9439206938f8d7823782abdb8b211a57431e9c9b6a6365d8d42893351'',
      merkle_root = hex_lit ''8e4c9756fef2ad10375f360e0560fcc7587eb5223ddf8cd7c7e06e60a1140b15'',
      version = 0, bits = 0x1c00ffff, mask_hash_field = hash_ZERO\<rparr>"

definition mainnet_genesis :: block_header where
  "mainnet_genesis =
     \<lparr>nonce = 0, time = 1580745078, prev_block = hash_ZERO, tree_root = hash_ZERO,
      extra_nonce = replicate EXTRA_NONCE_SIZE 0, reserved_root = hash_ZERO,
      witness_root = hex_lit ''1a2c60b9439206938f8d7823782abdb8b211a57431e9c9b6a6365d8d42893351'',
      merkle_root = hex_lit ''8e4c9756fef2ad10375f360e0560fcc7587eb5223ddf8cd7c7e06e60a1140b15'',
      version = 0, bits = 0x1c00ffff, mask_hash_field = hash_ZERO\<rparr>"

definition testnet_genesis :: block_header where
  "testnet_genesis = genesis_template\<lparr>time := 1580745079, bits := 0x1d00ffff\<rparr>"

definition regtest_genesis :: block_header where
  "regtest_genesis = genesis_template\<lparr>time := 1580745080, bits := 0x207fffff\<rparr>"

datatype network_kind = Mainnet | Testnet | Regtest

fun genesis_for_network :: "network_kind \<Rightarrow> block_header" where
  "genesis_for_network Mainnet = mainnet_genesis"
| "genesis_for_network Testnet = testnet_genesis"
| "genesis_for_network Regtest = regtest_genesis"

definition network_kind_parse :: "rust_str \<Rightarrow> network_kind option" where
  "network_kind_parse value =
     (let v = to_ascii_lowercase (str_trim value) in
      if v = ascii ''main'' \<or> v = ascii ''mainnet'' then Some Mainnet
      else if v = ascii ''test'' \<or> v = ascii ''testnet'' then Some Testnet
      else if v = ascii ''reg'' \<or> v = ascii ''regtest'' then Some Regtest
      else None)"

fun network_kind_as_str :: "network_kind \<Rightarrow> rust_str" where
  "network_kind_as_str Mainnet = ascii ''mainnet''"
| "network_kind_as_str Testnet = ascii ''testnet''"
| "network_kind_as_str Regtest = ascii ''regtest''"

record network =
  net_name :: rust_str
  net_magic :: u32
  net_port :: u16
  net_brontide_port :: u16
  net_dns_seeds :: "rust_str list"
  net_pow_bits :: u32
  net_pow_limit :: bytes
  net_genesis_hash :: hash

definition mainnet :: network where
  "mainnet =
     \<lparr>net_name = ascii ''mainnet'', net_magic = 1533997779, net_port = 12038,
      net_brontide_port = 44806,
      net_dns_seeds = [ascii ''hs-mainnet.bcoin.ninja'', ascii ''seed.htools.work''],
      net_pow_bits = 0x1c00ffff,
      net_pow_limit = hex_lit ''0000000000ffff00000000000000000000000000000000000000000000000000'',
      net_genesis_hash = hex_lit ''5b6ef2d3c1f3cdcadfd9a030ba1811efdd17740f14e166489760741d075992e0''\<rparr>"

definition testnet :: network where
  "testnet =
     \<lparr>net_name = ascii ''testnet'', net_magic = 2974944722, net_port = 13038,
      net_brontide_port = 45806,
      net_dns_seeds = [ascii ''hs-testnet.bcoin.ninja''],
      net_pow_bits = 0x1d00ffff,
      net_pow_limit = hex_lit ''00000000ffff0000000000000000000000000000000000000000000000000000'',
      net_genesis_hash = hex_lit ''b1520dd24372f82ec94ebf8cf9d9b037d419c4aa3575d05dec70aedd1b427901''\<rparr>"

definition regtest :: network where
  "regtest =
     \<lparr>net_name = ascii ''regtest'', net_magic = 2922943951, net_port = 14038,
      net_brontide_port = 46806,
      net_dns_seeds = [],
      net_pow_bits = 0x207fffff,
      net_pow_limit = hex_lit ''7fffff0000000000000000000000000000000000000000000000000000000000'',
      net_genesis_hash = hex_lit ''ae3895cf597eff05b19e02a70ceeeecb9dc72dbfe6504a50e9343a72f06a87c5''\<rparr>"

fun network_of_kind :: "network_kind \<Rightarrow> network" where
  "network_of_kind Mainnet = mainnet"
| "network_of_kind Testnet = testnet"
| "network_of_kind Regtest = regtest"

subsection \<open>The proof-of-work hash\<close>

definition padding :: "nat \<Rightarrow> block_header \<Rightarrow> bytes" where
  "padding n h = map (\<lambda>i. (prev_block h ! (i mod 32)) XOR (tree_root h ! (i mod 32))) [0..<n]"

definition to_subhead :: "block_header \<Rightarrow> bytes" where
  "to_subhead h =
     extra_nonce h @ reserved_root h @ witness_root h @ merkle_root h @
     u32_to_le (version h) @ u32_to_le (bits h)"

definition sub_hash :: "digest_fns \<Rightarrow> block_header \<Rightarrow> hash" where
  "sub_hash D h = blake2b_256 D [to_subhead h]"

definition mask_hash :: "digest_fns \<Rightarrow> block_header \<Rightarrow> hash" where
  "mask_hash D h = blake2b_256 D [prev_block h, mask_hash_field h]"

definition commit_hash :: "digest_fns \<Rightarrow> block_header \<Rightarrow> hash" where
  "commit_hash D h = blake2b_256 D [sub_hash D h, mask_hash D h]"

definition to_prehead :: "digest_fns \<Rightarrow> block_header \<Rightarrow> bytes" where
  "to_prehead D h =
     u32_to_le (nonce h) @ u64_to_le (time h) @ padding 20 h @ prev_block h @ tree_root h @
     commit_hash D h"

definition share_hash :: "digest_fns \<Rightarrow> block_header \<Rightarrow> hash" where
  "share_hash D h =
     (let prehead = to_prehead D h;
          left = blake2b_512 D [prehead];
          right = sha3_256 D [prehead, padding 8 h]
      in blake2b_256 D [left, padding 32 h, right])"

definition pow_hash :: "digest_fns \<Rightarrow> block_header \<Rightarrow> hash" where
  "pow_hash D h = map (\<lambda>(b, m). b XOR m) (zip (share_hash D h) (mask_hash_field h))"

definition header_hash :: "digest_fns \<Rightarrow> block_header \<Rightarrow> hash" where
  "header_hash D h = pow_hash D h"

section \<open>Lemmas\<close>

lemma wf_header_lengths:
  assumes "wf_header h"
  shows "length (prev_block h) = 32" "length (tree_root h) = 32"
    "length (extra_nonce h) = EXTRA_NONCE_SIZE" "length (reserved_root h) = 32"
    "length (witness_root h) = 32" "length (merkle_root h) = 32"
    "length (mask_hash_field h) = 32"
  using assms by (simp_all add: wf_header_def)

lemma length_header_serialize: "wf_header h \<Longrightarrow> length (header_serialize h) = HEADER_SIZE"
  by (simp add: header_serialize_def wf_header_def HEADER_SIZE_def EXTRA_NONCE_SIZE_def)

text \<open>The parser in closed form: every field is a fixed range of the 236 bytes.\<close>

lemma header_parse_closed:
  "length data = 236 \<Longrightarrow> header_parse data = Inr
     \<lparr>nonce = u32_of_le (take 4 data), time = u64_of_le (take 8 (drop 4 data)),
      prev_block = take 32 (drop 12 data), tree_root = take 32 (drop 44 data),
      extra_nonce = take 24 (drop 76 data), reserved_root = take 32 (drop 100 data),
      witness_root = take 32 (drop 132 data), merkle_root = take 32 (drop 164 data),
      version = u32_of_le (take 4 (drop 196 data)), bits = u32_of_le (take 4 (drop 200 data)),
      mask_hash_field = take 32 (drop 204 data)\<rparr>"
  by (simp add: header_parse_def HEADER_SIZE_def EXTRA_NONCE_SIZE_def reader_closed)

lemma header_parse_serialize:
  assumes "wf_header h"
  shows "header_parse (header_serialize h) = Inr h"
  using assms length_header_serialize [OF assms]
  by (simp add: header_parse_closed HEADER_SIZE_def EXTRA_NONCE_SIZE_def header_serialize_def
      wf_header_def)

lemma header_serialize_parse:
  assumes "header_parse data = Inr h"
  shows "header_serialize h = data \<and> wf_header h"
proof -
  have len: "length data = 236"
    using assms by (auto simp: header_parse_def HEADER_SIZE_def split: if_splits)
  show ?thesis
    using assms len
    by (auto simp: header_parse_closed header_serialize_def wf_header_def EXTRA_NONCE_SIZE_def
        word_of_bytes_inverse take_drop_cat)
qed


lemma length_padding [simp]: "length (padding n h) = n"
  by (simp add: padding_def)

lemma length_header_hash:
  assumes "digest_laws D" "wf_header h"
  shows "length (header_hash D h) = 32"
  using assms by (simp add: header_hash_def pow_hash_def share_hash_def Let_def
      length_blake2b_256 wf_header_def)

section \<open>Properties\<close>

text \<open>
  The header wire format is a bijection between the well-formed headers and the byte strings
  the parser accepts: a parse succeeds with \<open>h\<close> exactly when \<open>h\<close> has the array lengths of the type
  and the input is its serialization, so no other byte string parses to it.
\<close>

theorem header_parse_iff:
  "header_parse data = Inr h \<longleftrightarrow> wf_header h \<and> data = header_serialize h"
  using header_parse_serialize header_serialize_parse by blast

text \<open>
  The two preimages of the proof-of-work hash have the fixed sizes their buffers are declared
  with (128 bytes each), and the header hash is 32 bytes long.
\<close>

theorem pow_preimage_sizes:
  assumes "digest_laws D" "wf_header h"
  shows "length (to_subhead h) = 128 \<and> length (to_prehead D h) = 128 \<and>
    length (header_hash D h) = 32"
  using assms by (simp add: length_header_hash to_subhead_def to_prehead_def commit_hash_def
      length_blake2b_256 wf_header_def EXTRA_NONCE_SIZE_def)

theorem pow_preimage_sizes_witness:
  "length (to_subhead mainnet_genesis) = 128 \<and>
   length (to_prehead sample_digests mainnet_genesis) = 128 \<and>
   length (header_hash sample_digests mainnet_genesis) = 32"
  by (rule pow_preimage_sizes [OF sample_digests_laws])
    (simp add: wf_header_def mainnet_genesis_def EXTRA_NONCE_SIZE_def)

end
