(* ===== verification/Pow.thy ===== *)
theory Pow
  imports Hashing "HOL-Library.List_Lexorder"
begin

text \<open>
  \<open>hns-core/src/pow.rs\<close>: compact difficulty targets, chainwork, and the proof-of-work check.
  \<open>num_bigint::BigUint\<close> is an unbounded natural number; \<open>bit_length\<close> and \<open>big_to_bytes_be\<close> are its
  \<open>bits()\<close> and \<open>to_bytes_be()\<close>.  The order on byte arrays is the lexicographic one.
\<close>

section \<open>Definitions\<close>

datatype pow_error = NegativeTarget | ZeroTarget | Overflow | InvalidChainworkHex

type_synonym target = nat
type_synonym chainwork = nat

fun bit_length :: "nat \<Rightarrow> nat" where
  "bit_length n = (if n = 0 then 0 else Suc (bit_length (n div 2)))"

definition big_to_bytes_be :: "nat \<Rightarrow> bytes" where
  "big_to_bytes_be n = (if n = 0 then [0] else be_bytes (div_ceil (bit_length n) 8) n)"

definition big_to_u32 :: "nat \<Rightarrow> u32 option" where
  "big_to_u32 n = (if n < 2 ^ 32 then Some (word_of_nat n) else None)"

definition compact_to_target :: "u32 \<Rightarrow> pow_error + target" where
  "compact_to_target bits =
     (if bits AND 0x00800000 \<noteq> 0 then Inl NegativeTarget else
      let exponent = unat (drop_bit 24 bits);
          mantissa = unat (bits AND 0x007fffff)
      in if mantissa = 0 then Inl ZeroTarget else
         let target = (if exponent \<le> 3 then mantissa div 2 ^ (8 * (3 - exponent))
                       else mantissa * 2 ^ (8 * (exponent - 3)))
         in if target = 0 then Inl ZeroTarget
            else if bit_length target > 256 then Inl Overflow
            else Inr target)"

text \<open>\<open>copy_from_slice\<close> panics when the lengths differ, which happens for targets of more than 32 bytes.\<close>

definition to_be_bytes_32 :: "target \<Rightarrow> pow_error fault + bytes" where
  "to_be_bytes_32 t =
     (let bs = big_to_bytes_be t; start = 32 - length bs in
      if 32 - start = length bs then Inr (replicate start 0 @ bs) else Inl Panic)"

definition write_index :: "nat \<Rightarrow> u8 \<Rightarrow> bytes \<Rightarrow> 'e fault + bytes" where
  "write_index i v out = (if i < length out then Inr (out[i := v]) else Inl Panic)"

definition target_bytes_from_compact :: "u32 \<Rightarrow> pow_error fault + bytes" where
  "target_bytes_from_compact bits =
     (if bits AND 0x00800000 \<noteq> 0 then Inl (Err NegativeTarget) else
      let exponent = unat (drop_bit 24 bits);
          mantissa = bits AND 0x007fffff;
          out = replicate 32 (0 :: u8)
      in if mantissa = 0 then Inl (Err ZeroTarget)
         else if exponent > 32 then
           and_then (map_err Err (compact_to_target bits)) to_be_bytes_32
         else if exponent \<le> 3 then
           Inr (take 28 out @ u32_to_be (drop_bit (8 * (3 - exponent)) mantissa))
         else
           let offset = 32 - exponent in
           and_then (write_index offset (ucast (drop_bit 16 mantissa)) out) (\<lambda>out.
           and_then (write_index (offset + 1) (ucast (drop_bit 8 mantissa)) out) (\<lambda>out.
           write_index (offset + 2) (ucast mantissa) out)))"

definition verify_pow :: "hash \<Rightarrow> u32 \<Rightarrow> pow_error fault + bool" where
  "verify_pow h bits = and_then (target_bytes_from_compact bits) (\<lambda>t. Inr (h \<le> t))"

definition work_for_target :: "target \<Rightarrow> pow_error + chainwork" where
  "work_for_target t = (if t = 0 then Inl ZeroTarget else Inr (2 ^ 256 div (t + 1)))"

definition target_for_work :: "chainwork \<Rightarrow> pow_error + target" where
  "target_for_work w =
     (if w = 0 then Inl ZeroTarget else
      let t = 2 ^ 256 div w in if t = 0 then Inl ZeroTarget else Inr (t - 1))"

text \<open>\<open>None\<close> is the panic of the two \<open>expect\<close> calls.\<close>

definition target_to_compact :: "target \<Rightarrow> u32 option" where
  "target_to_compact t =
     (if t = 0 then Some 0 else
      let exponent = length (big_to_bytes_be t) in
      case (if exponent \<le> 3
            then map_option (push_bit (8 * (3 - exponent))) (big_to_u32 t)
            else big_to_u32 (t div 2 ^ (8 * (exponent - 3)))) of
        None \<Rightarrow> None
      | Some mantissa \<Rightarrow>
          (let (mantissa, exponent) =
             (if mantissa AND 0x00800000 \<noteq> 0 then (drop_bit 8 mantissa, exponent + 1)
              else (mantissa, exponent))
           in Some (push_bit 24 (word_of_nat exponent) OR mantissa)))"

definition chainwork_from_bits :: "u32 \<Rightarrow> pow_error + chainwork" where
  "chainwork_from_bits bits = and_then (compact_to_target bits) work_for_target"

definition chainwork_checked_add :: "chainwork \<Rightarrow> chainwork \<Rightarrow> chainwork" where
  "chainwork_checked_add a b = a + b"

definition chainwork_checked_sub :: "chainwork \<Rightarrow> chainwork \<Rightarrow> chainwork option" where
  "chainwork_checked_sub a b = (if a < b then None else Some (a - b))"

definition chainwork_mul_u64 :: "chainwork \<Rightarrow> nat \<Rightarrow> chainwork" where
  "chainwork_mul_u64 a factor = a * factor"

definition chainwork_div_u64 :: "chainwork \<Rightarrow> nat \<Rightarrow> chainwork option" where
  "chainwork_div_u64 a divisor = (if divisor = 0 then None else Some (a div divisor))"

section \<open>Lemmas\<close>

declare bit_length.simps [simp del]

subsection \<open>Bit lengths and byte representations\<close>

lemma bit_length_0 [simp]: "bit_length 0 = 0"
  by (simp add: bit_length.simps)

lemma bit_length_less: "bit_length n > k \<longleftrightarrow> 2 ^ k \<le> n"
proof (induction k arbitrary: n)
  case 0
  show ?case by (subst bit_length.simps) auto
next
  case (Suc k)
  have "bit_length n > Suc k \<longleftrightarrow> n \<noteq> 0 \<and> bit_length (n div 2) > k"
    by (subst bit_length.simps) simp
  also have "\<dots> \<longleftrightarrow> n \<noteq> 0 \<and> 2 ^ k \<le> n div 2" using Suc by simp
  also have "\<dots> \<longleftrightarrow> 2 ^ Suc k \<le> n"
    by (auto simp: less_eq_div_iff_mult_less_eq mult.commute intro: Nat.gr0I)
  finally show ?case .
qed

lemma bit_length_upper: "n < 2 ^ bit_length n"
  using bit_length_less [of "bit_length n" n] by simp

lemma bit_length_lower: "n \<noteq> 0 \<Longrightarrow> 2 ^ (bit_length n - 1) \<le> n"
  using bit_length_less [of "bit_length n - 1" n] bit_length_less [of 0 n] by simp

definition byte_len :: "nat \<Rightarrow> nat" where
  "byte_len n = div_ceil (bit_length n) 8"

lemma byte_len_upper: "n < 256 ^ byte_len n"
proof -
  have "bit_length n \<le> 8 * byte_len n" by (simp add: byte_len_def div_ceil_def)
  then have "(2 :: nat) ^ bit_length n \<le> 2 ^ (8 * byte_len n)" by simp
  with bit_length_upper [of n] show ?thesis by (simp add: power_mult)
qed

lemma byte_len_lower: "n \<noteq> 0 \<Longrightarrow> 256 ^ (byte_len n - 1) \<le> n"
proof -
  assume n: "n \<noteq> 0"
  have "8 * (byte_len n - 1) \<le> bit_length n - 1" by (simp add: byte_len_def div_ceil_def)
  then have "(2 :: nat) ^ (8 * (byte_len n - 1)) \<le> 2 ^ (bit_length n - 1)" by simp
  with bit_length_lower [OF n] show ?thesis by (simp add: power_mult)
qed

lemma byte_len_pos: "n \<noteq> 0 \<Longrightarrow> 0 < byte_len n"
  using byte_len_upper [of n] by (cases "byte_len n") auto

lemma byte_len_le: "n < 256 ^ k \<Longrightarrow> byte_len n \<le> k"
proof (rule ccontr)
  assume "n < 256 ^ k" "\<not> byte_len n \<le> k"
  then have "k \<le> byte_len n - 1" "n \<noteq> 0"
    by (auto simp: byte_len_def div_ceil_def intro: Nat.gr0I)
  then have "256 ^ k \<le> n"
    using byte_len_lower [of n] power_increasing [of k "byte_len n - 1" "256 :: nat"] by linarith
  with \<open>n < 256 ^ k\<close> show False by simp
qed

lemma length_big_to_bytes_be: "n \<noteq> 0 \<Longrightarrow> length (big_to_bytes_be n) = byte_len n"
  by (simp add: big_to_bytes_be_def byte_len_def)

lemma be_bytes_pad:
  assumes "n < 256 ^ k" "k \<le> m"
  shows "be_bytes m n = replicate (m - k) 0 @ be_bytes k n"
proof -
  have "le_bytes (k + j) n = le_bytes k n @ replicate j 0" if "n < 256 ^ k" for j k n
    using that
  proof (induction k arbitrary: n)
    case 0
    then show ?case by (induction j) auto
  next
    case (Suc k)
    then have "n div 256 < 256 ^ k" by (simp add: less_mult_imp_div_less mult.commute)
    with Suc.IH show ?case by simp
  qed
  from this [OF assms(1), of "m - k"] assms(2) show ?thesis
    by (simp add: be_bytes_def)
qed

lemma to_be_bytes_32_ok:
  assumes "t < 2 ^ 256" "t \<noteq> 0"
  shows "to_be_bytes_32 t = Inr (be_bytes 32 t)"
proof -
  have lim: "t < 256 ^ 32" using assms by simp
  have "big_to_bytes_be t = be_bytes (byte_len t) t"
    using assms by (simp add: big_to_bytes_be_def byte_len_def)
  with byte_len_le [OF lim] be_bytes_pad [OF byte_len_upper [of t] byte_len_le [OF lim]]
  show ?thesis by (simp add: to_be_bytes_32_def)
qed

subsection \<open>The compact format\<close>

text \<open>
  The three bit fields of a compact target read as arithmetic on its value: the size byte, the
  sign bit and the 23-bit mantissa.
\<close>

lemma compact_exponent: "unat (drop_bit 24 (b :: u32)) = unat b div 2 ^ 24"
  by (rule unat_drop_bit_div)

lemma compact_mantissa: "unat ((b :: u32) AND 0x007fffff) = unat b mod 2 ^ 23"
  using and_mask_mod [of b 23] by (simp add: mask_eq_exp_minus_1)

lemma compact_sign: "(b :: u32) AND 0x00800000 = 0 \<longleftrightarrow> even (unat b div 2 ^ 23)"
  using and_exp_zero [of b 23] by simp

subsection \<open>The lexicographic order on byte arrays is the numeric order\<close>

lemma be_nat_Cons: "be_nat (x # xs) = unat x * 256 ^ length xs + be_nat xs"
  by (simp add: be_nat_def le_nat_append algebra_simps)

lemma lex_le_iff_be_nat_le:
  "length xs = length ys \<Longrightarrow> xs \<le> ys \<longleftrightarrow> be_nat xs \<le> be_nat ys"
proof (induction xs ys rule: list_induct2)
  case (Cons x xs y ys)
  have bx: "be_nat xs < 256 ^ length xs" and bY: "be_nat ys < 256 ^ length xs"
    using be_nat_less [of xs] be_nat_less [of ys] Cons.hyps by simp_all
  consider "x < y" | "y < x" | "x = y" by (rule linorder_cases)
  then show ?case
  proof cases
    case 1
    then have "Suc (unat x) \<le> unat y" by (simp add: word_less_nat_alt)
    then have "Suc (unat x) * 256 ^ length xs \<le> unat y * 256 ^ length xs" by (rule mult_le_mono1)
    with 1 bx Cons.hyps show ?thesis by (simp add: be_nat_Cons)
  next
    case 2
    then have "Suc (unat y) \<le> unat x" by (simp add: word_less_nat_alt)
    then have "Suc (unat y) * 256 ^ length xs \<le> unat x * 256 ^ length xs" by (rule mult_le_mono1)
    with 2 bY Cons.hyps show ?thesis by (auto simp: be_nat_Cons)
  next
    case 3
    with Cons show ?thesis by (simp add: be_nat_Cons)
  qed
qed simp

subsection \<open>The two readings of a compact target agree\<close>

lemma compact_to_target_Inr:
  "compact_to_target b = Inr t \<Longrightarrow> 0 < t \<and> t < 2 ^ 256"
  using bit_length_less [of 256 t]
  by (auto simp: compact_to_target_def Let_def split: if_splits)

lemma word_of_nat_u8_mod: "(word_of_nat (n mod 256) :: u8) = word_of_nat n"
  by (simp add: word_of_nat_eq_iff take_bit_eq_mod)

lemma word_of_nat_u8_unat: "(word_of_nat (unat (w :: u32)) :: u8) = ucast w"
  by simp

lemma be_bytes_3:
  "be_bytes 3 (unat (m :: u32)) = [ucast (drop_bit 16 m), ucast (drop_bit 8 m), ucast m]"
proof -
  have d: "unat m div 256 = unat (drop_bit 8 m)" "unat (drop_bit 8 m) div 256 = unat (drop_bit 16 m)"
    using div_mult2_eq [of "unat m" 256 256] by (simp_all only: unat_drop_bit_div) simp_all
  have "be_bytes 3 (unat m) =
      [word_of_nat (unat m div 256 div 256), word_of_nat (unat m div 256), word_of_nat (unat m)]"
    by (simp only: be_bytes_def numeral_3_eq_3 le_bytes.simps word_of_nat_u8_mod rev.simps
        append.simps)
  then show ?thesis by (simp only: d word_of_nat_u8_unat)
qed

lemma le_bytes_shift: "le_bytes (c + n) (m * 256 ^ c) = replicate c 0 @ le_bytes n m"
  by (induction c arbitrary: m) (auto simp: div_mult_self3)

lemma be_bytes_mid:
  assumes "m < 256 ^ n"
  shows "be_bytes (a + n + c) (m * 256 ^ c) = replicate a 0 @ be_bytes n m @ replicate c 0"
proof -
  have "be_bytes (a + n) m = replicate a 0 @ be_bytes n m"
    using be_bytes_pad [OF assms, of "a + n"] by simp
  then show ?thesis
    using le_bytes_shift [of c "a + n" m] by (simp add: be_bytes_def ac_simps)
qed

lemma replicate_write3:
  assumes "a + 3 + c = 32"
  shows "(replicate 32 (0 :: u8))[a := x, a + 1 := y, a + 2 := z] =
    replicate a 0 @ [x, y, z] @ replicate c 0"
proof -
  have "replicate 32 (0 :: u8) = replicate a 0 @ [0, 0, 0] @ replicate c 0"
    using assms by (metis append.assoc replicate_add numeral_3_eq_3 replicate_Suc replicate_0)
  then show ?thesis by (simp add: list_update_append)
qed

lemma target_bytes_of_compact:
  assumes t: "compact_to_target b = Inr t"
  shows "target_bytes_from_compact b = Inr (be_bytes 32 t)"
proof -
  define e m where "e = unat (drop_bit 24 b)" and "m = b AND 0x007fffff"
  have bounds: "0 < t" "t < 2 ^ 256" using compact_to_target_Inr [OF t] by auto
  have m23: "unat m < 2 ^ 23" by (simp add: m_def compact_mantissa)
  have sign: "b AND 0x00800000 = 0" and m0: "m \<noteq> 0"
    and t_eq: "t = (if e \<le> 3 then unat m div 2 ^ (8 * (3 - e)) else unat m * 2 ^ (8 * (e - 3)))"
    using t by (auto simp: compact_to_target_def e_def m_def Let_def split: if_splits)
  consider (big) "e > 32" | (small) "e \<le> 3" | (mid) "3 < e" "e \<le> 32" by linarith
  then show ?thesis
  proof cases
    case big
    then show ?thesis using sign m0 t bounds
      by (simp add: target_bytes_from_compact_def to_be_bytes_32_ok flip: e_def m_def)
  next
    case small
    have "t \<le> unat m" using small div_le_dividend by (simp add: t_eq)
    with m23 have "t < 256 ^ 4" by simp
    then have "be_bytes 32 t = replicate 28 0 @ be_bytes 4 t"
      using be_bytes_pad [of t 4 32] by simp
    moreover have "unat (drop_bit (8 * (3 - e)) m) = t"
      using small by (simp only: unat_drop_bit_div t_eq if_True)
    ultimately show ?thesis using sign m0 small
      by (simp add: target_bytes_from_compact_def u32_to_be_def flip: e_def m_def)
  next
    case mid
    have "be_bytes 32 t = replicate (32 - e) 0 @ be_bytes 3 (unat m) @ replicate (e - 3) 0"
      using be_bytes_mid [of "unat m" 3 "32 - e" "e - 3"] mid m23
      by (simp add: t_eq power_mult)
    moreover have "(32 - e) + 3 + (e - 3) = 32" using mid by simp
    ultimately show ?thesis using sign m0 mid
      by (simp add: target_bytes_from_compact_def write_index_def Let_def be_bytes_3
          replicate_write3 [simplified] flip: e_def m_def)
  qed
qed

text \<open>
  The values for which the byte form exists although the numeric target is rejected: a size of at
  most two whose mantissa is shifted out entirely, for which the byte form is all zeroes.
\<close>

lemma target_bytes_otherwise:
  assumes e: "compact_to_target b = Inl err"
  shows "target_bytes_from_compact b = Inl (Err err) \<or>
    err = ZeroTarget \<and> target_bytes_from_compact b = Inr (replicate 32 0)"
proof (cases "b AND 0x00800000 = 0 \<and> b AND 0x007fffff \<noteq> 0 \<and> unat (drop_bit 24 b) \<le> 32")
  case True
  define x m where "x = unat (drop_bit 24 b)" and "m = b AND 0x007fffff"
  note T = True [folded x_def m_def]
  have m0: "unat m \<noteq> 0" using T by (simp add: unat_eq_0)
  have m23: "unat m < 2 ^ 23" by (simp add: m_def compact_mantissa)
  have "x \<le> 3 \<and> unat m div 2 ^ (8 * (3 - x)) = 0 \<and> err = ZeroTarget"
  proof (cases "x \<le> 3")
    case True
    have "unat m div 2 ^ (8 * (3 - x)) < 2 ^ 23" using m23 div_le_dividend le_less_trans by blast
    also have "(2 :: nat) ^ 23 \<le> 2 ^ 256" by (rule power_increasing) auto
    finally have "\<not> bit_length (unat m div 2 ^ (8 * (3 - x))) > 256"
      by (simp only: bit_length_less not_le)
    with e T m0 True show ?thesis
      by (auto simp: compact_to_target_def Let_def simp flip: x_def m_def split: if_splits)
  next
    case False
    have "unat m * 2 ^ (8 * (x - 3)) < 2 ^ 23 * 2 ^ (8 * (x - 3))" using m23 by simp
    also have "\<dots> = 2 ^ (23 + 8 * (x - 3))" by (simp only: power_add)
    also have "\<dots> \<le> 2 ^ 256" using T by (intro power_increasing) auto
    finally have "\<not> bit_length (unat m * 2 ^ (8 * (x - 3))) > 256"
      by (simp only: bit_length_less not_le)
    with e T m0 False show ?thesis
      by (auto simp: compact_to_target_def Let_def simp flip: x_def m_def split: if_splits)
  qed
  moreover from this have "drop_bit (8 * (3 - x)) m = 0"
    by (simp only: unat_drop_bit_div flip: unat_eq_0)
  moreover have "(replicate 28 0 @ be_bytes 4 0 :: bytes) = replicate 32 0"
    using be_bytes_pad [of 0 4 32] be_bytes_mid [of 0 0 32 0] by (simp add: be_bytes_def)
  ultimately show ?thesis using T
    by (simp add: target_bytes_from_compact_def u32_to_be_def Let_def flip: x_def m_def)
next
  case False
  with e show ?thesis
    by (auto simp: target_bytes_from_compact_def compact_to_target_def Let_def unat_eq_0
        split: if_splits)
qed

lemma target_bytes_no_panic: "target_bytes_from_compact b \<noteq> Inl Panic"
  using target_bytes_of_compact [of b] target_bytes_otherwise [of b]
  by (cases "compact_to_target b") auto

lemma length_target_bytes: "target_bytes_from_compact b = Inr bs \<Longrightarrow> length bs = 32"
  using target_bytes_of_compact [of b] target_bytes_otherwise [of b]
  by (cases "compact_to_target b") auto

subsection \<open>Encoding a target\<close>

text \<open>Packing a size byte and a 23-bit mantissa, and reading them back.\<close>

lemma pack_compact:
  assumes "e < 256" "m < 2 ^ 23"
  shows "unat (push_bit 24 (word_of_nat e) OR (word_of_nat m :: u32)) = e * 2 ^ 24 + m"
proof -
  have m: "unat (word_of_nat m :: u32) = m" using assms by (simp add: unat_of_nat)
  have e: "unat (push_bit 24 (word_of_nat e) :: u32) = e * 2 ^ 24"
    using assms by (simp add: push_bit_eq_mult unat_word_ariths unat_of_nat)
  have "push_bit 24 (word_of_nat e) AND (word_of_nat m :: u32) = 0"
  proof (rule bit_eqI)
    fix n
    have "\<not> bit (word_of_nat m :: u32) n" if "24 \<le> n"
    proof -
      have "m < 2 ^ n" using assms(2) that power_increasing [of 23 n "2 :: nat"] by simp
      then show ?thesis by (simp add: bit_word_odd m)
    qed
    then show "bit (push_bit 24 (word_of_nat e) AND (word_of_nat m :: u32)) n = bit 0 n"
      by (auto simp: bit_and_iff bit_push_bit_iff)
  qed
  then have "push_bit 24 (word_of_nat e) OR (word_of_nat m :: u32) =
      push_bit 24 (word_of_nat e) + word_of_nat m"
    by (rule disjunctive_add_eq_or [symmetric])
  moreover have "e * 2 ^ 24 + m < 2 ^ 32" using assms by simp
  ultimately show ?thesis by (simp only: unat_word_ariths m e) simp
qed

lemma compact_to_target_packed:
  assumes "unat b = e * 2 ^ 24 + m" "0 < m" "m < 2 ^ 23"
    and "t = (if e \<le> 3 then m div 2 ^ (8 * (3 - e)) else m * 2 ^ (8 * (e - 3)))"
    and "0 < t" "t < 2 ^ 256"
  shows "compact_to_target b = Inr t"
proof -
  have "unat b div 2 ^ 23 = 2 * e" using assms(1,3) by (intro div_nat_eqI) simp_all
  then have "even (unat b div 2 ^ 23)" by simp
  moreover have "unat b div 2 ^ 24 = e" using assms(1,3) by simp
  moreover have "unat b = m + (2 * e) * 2 ^ 23" using assms(1) by simp
  then have "unat b mod 2 ^ 23 = m" using assms(3) by (simp only: mod_mult_self1) simp
  moreover have "\<not> bit_length t > 256" using assms(6) by (simp only: bit_length_less not_le)
  ultimately show ?thesis
    using assms(2,4,5)
    by (simp only: compact_to_target_def compact_sign compact_exponent compact_mantissa Let_def
        not_not if_False simp_thms) simp
qed

text \<open>The mantissa and size that \<open>target_to_compact\<close> chooses, as numbers.\<close>

definition compact_parts :: "target \<Rightarrow> nat \<times> nat" where
  "compact_parts t =
     (let e = byte_len t;
          m = (if e \<le> 3 then t * 256 ^ (3 - e) else t div 256 ^ (e - 3))
      in if 2 ^ 23 \<le> m then (e + 1, m div 256) else (e, m))"

lemma top_bytes_bounds:
  assumes "0 < t"
  defines "e \<equiv> byte_len t"
  defines "m \<equiv> (if e \<le> 3 then t * 256 ^ (3 - e) else t div 256 ^ (e - 3))"
  shows "2 ^ 16 \<le> m" "m < 2 ^ 24"
proof -
  have up: "t < 256 ^ e" and lo: "256 ^ (e - 1) \<le> t" and e0: "0 < e"
    using assms byte_len_upper byte_len_lower byte_len_pos by simp_all
  have "256 ^ 2 \<le> m \<and> m < 256 ^ 3"
  proof (cases "e \<le> 3")
    case True
    have "256 ^ (e - 1) * 256 ^ (3 - e) \<le> t * 256 ^ (3 - e)" using lo by (rule mult_le_mono1)
    moreover have "t * 256 ^ (3 - e) < 256 ^ e * 256 ^ (3 - e)" using up by simp
    moreover have "(256 :: nat) ^ (e - 1) * 256 ^ (3 - e) = 256 ^ 2"
      "(256 :: nat) ^ e * 256 ^ (3 - e) = 256 ^ 3"
      using True e0 power_add [of "256 :: nat" "e - 1" "3 - e"] power_add [of "256 :: nat" e "3 - e"]
      by simp_all
    ultimately have "256 ^ 2 \<le> t * 256 ^ (3 - e)" "t * 256 ^ (3 - e) < 256 ^ 3" by linarith+
    with True show ?thesis by (simp add: m_def)
  next
    case False
    have "2 + (e - 3) = e - 1" "3 + (e - 3) = e" using False by simp_all
    then have "(256 :: nat) ^ 2 * 256 ^ (e - 3) = 256 ^ (e - 1)"
      "(256 :: nat) ^ 3 * 256 ^ (e - 3) = 256 ^ e"
      using power_add [of "256 :: nat" 2 "e - 3"] power_add [of "256 :: nat" 3 "e - 3"] by metis+
    with lo up have "256 ^ 2 \<le> t div 256 ^ (e - 3)" "t div 256 ^ (e - 3) < 256 ^ 3"
      by (metis less_eq_div_iff_mult_less_eq zero_less_power zero_less_numeral)
        (metis less_mult_imp_div_less \<open>256 ^ 3 * 256 ^ (e - 3) = 256 ^ e\<close> up)
    with False show ?thesis by (simp add: m_def)
  qed
  then show "2 ^ 16 \<le> m" "m < 2 ^ 24" by simp_all
qed

lemma target_to_compact_parts:
  assumes "0 < t" "t < 2 ^ 256" "compact_parts t = (e, m)"
  shows "\<exists>c. target_to_compact t = Some c \<and> unat c = e * 2 ^ 24 + m"
    and "2 ^ 15 \<le> m" "m < 2 ^ 23" "e \<le> 33"
proof -
  define x where "x = byte_len t"
  define n where "n = (if x \<le> 3 then t * 256 ^ (3 - x) else t div 256 ^ (x - 3))"
  have n16: "2 ^ 16 \<le> n" and n24: "n < 2 ^ 24"
    using top_bytes_bounds [OF assms(1)] by (simp_all only: n_def x_def)
  have x32: "x \<le> 32" unfolding x_def by (rule byte_len_le) (use assms in simp)
  have parts: "(e, m) = (if 2 ^ 23 \<le> n then (x + 1, n div 256) else (x, n))"
    using assms(3) by (simp only: compact_parts_def Let_def n_def x_def)
  show "2 ^ 15 \<le> m" "m < 2 ^ 23" "e \<le> 33" using parts n16 n24 x32 by (auto split: if_splits)
  have len: "length (big_to_bytes_be t) = x"
    using assms(1) by (simp add: length_big_to_bytes_be x_def)
  have mant: "(if x \<le> 3 then map_option (push_bit (8 * (3 - x))) (big_to_u32 t)
      else big_to_u32 (t div 2 ^ (8 * (x - 3)))) = Some (word_of_nat n)"
  proof (cases "x \<le> 3")
    case True
    have "t \<le> n" using True by (simp add: n_def)
    with n24 have "t < 2 ^ 32" by simp
    with True show ?thesis
      by (simp add: big_to_u32_def n_def push_bit_eq_mult power_mult)
  next
    case False
    with n24 show ?thesis by (simp add: big_to_u32_def n_def power_mult)
  qed
  have un: "unat (word_of_nat n :: u32) = n" using n24 by (simp add: unat_of_nat)
  have sgn: "(word_of_nat n :: u32) AND 0x00800000 \<noteq> 0 \<longleftrightarrow> 2 ^ 23 \<le> n"
  proof -
    have "n div 2 ^ 23 = (if 2 ^ 23 \<le> n then 1 else 0)"
      using n24 by (auto intro!: div_nat_eqI)
    then have "even (n div 2 ^ 23) \<longleftrightarrow> \<not> 2 ^ 23 \<le> n" by (simp split: if_splits)
    then show ?thesis by (simp only: compact_sign un not_not)
  qed
  have drop: "drop_bit 8 (word_of_nat n :: u32) = word_of_nat (n div 256)"
    using n24 by (simp add: word_unat_eq_iff unat_drop_bit_div un unat_of_nat)
  have "target_to_compact t = Some (push_bit 24 (word_of_nat e) OR word_of_nat m)"
    using assms(1) parts
    by (simp only: target_to_compact_def Let_def len mant sgn drop option.case)
      (auto split: if_splits)
  with pack_compact [of e m] \<open>m < 2 ^ 23\<close> \<open>e \<le> 33\<close>
  show "\<exists>c. target_to_compact t = Some c \<and> unat c = e * 2 ^ 24 + m" by auto
qed

text \<open>Dropping the low \<open>k\<close> bits loses less than \<open>2 ^ k\<close>.\<close>

lemma truncate_bounds:
  fixes t :: nat
  assumes "2 ^ 15 \<le> t div q" "0 < q"
  shows "t div q * q \<le> t" "(t - t div q * q) * 2 ^ 15 < t div q * q"
proof -
  show "t div q * q \<le> t" by (rule div_times_less_eq_dividend)
  have "t - t div q * q = t mod q" by (simp add: minus_div_mult_eq_mod)
  also have "\<dots> * 2 ^ 15 < q * 2 ^ 15" using assms(2) by simp
  also have "\<dots> \<le> t div q * q" using assms by (simp add: mult.commute)
  finally show "(t - t div q * q) * 2 ^ 15 < t div q * q" by simp
qed

lemma compact_parts_decode:
  assumes "0 < t" "t < 2 ^ 256" "compact_parts t = (e, m)"
  defines "u \<equiv> (if e \<le> 3 then m div 2 ^ (8 * (3 - e)) else m * 2 ^ (8 * (e - 3)))"
  shows "u = t \<or> (u \<le> t \<and> (t - u) * 2 ^ 15 < u)"
proof -
  define x where "x = byte_len t"
  note bounds = target_to_compact_parts(2) [OF assms(1-3)]
  have parts: "(e, m) = (let n = (if x \<le> 3 then t * 256 ^ (3 - x) else t div 256 ^ (x - 3))
      in if 2 ^ 23 \<le> n then (x + 1, n div 256) else (x, n))"
    using assms(3) by (simp only: compact_parts_def Let_def x_def)
  show ?thesis
  proof (cases "x \<le> 3")
    case True
    show ?thesis
    proof (cases "2 ^ 23 \<le> t * 256 ^ (3 - x)")
      case hi: True
      then have em: "e = x + 1" "m = t * 256 ^ (3 - x) div 256" using parts True by (simp_all add: Let_def)
      consider "x = 3" | j where "3 - x = Suc j" using True by (cases "3 - x") auto
      then show ?thesis
      proof cases
        case 1
        then show ?thesis using em truncate_bounds [of t 256] bounds by (simp add: u_def)
      next
        case 2
        then have "m = t * 256 ^ j" "3 - e = j" "e \<le> 3" using em True by simp_all
        then show ?thesis by (simp add: u_def power_mult)
      qed
    next
      case False
      then have "e = x" "m = t * 256 ^ (3 - x)" using parts True by (simp_all add: Let_def)
      then show ?thesis using True by (simp add: u_def power_mult)
    qed
  next
    case False
    show ?thesis
    proof (cases "2 ^ 23 \<le> t div 256 ^ (x - 3)")
      case True
      then have em: "e = x + 1" "m = t div 256 ^ (x - 3) div 256" using parts False by (simp_all add: Let_def)
      have "e - 3 = Suc (x - 3)" using em False by simp
      then have "m = t div 256 ^ (e - 3)"
        using em div_mult2_eq [of t "256 ^ (x - 3)" 256] by (simp add: mult.commute)
      then show ?thesis using em False bounds truncate_bounds [of t "256 ^ (e - 3)"]
        by (simp add: u_def power_mult)
    next
      case lo: False
      then have "e = x" "m = t div 256 ^ (x - 3)" using parts False by (simp_all add: Let_def)
      then show ?thesis using False bounds truncate_bounds [of t "256 ^ (e - 3)"]
        by (simp add: u_def power_mult)
    qed
  qed
qed

subsection \<open>Work\<close>

lemma work_for_target_pos: "\<lbrakk>work_for_target t = Inr w; t < 2 ^ 256\<rbrakk> \<Longrightarrow> 0 < w"
  by (auto simp: work_for_target_def div_greater_zero_iff split: if_splits)

lemma chainwork_from_bits_pos: "chainwork_from_bits b = Inr w \<Longrightarrow> 0 < w"
  using compact_to_target_Inr work_for_target_pos
  by (auto simp: chainwork_from_bits_def and_then_Inr)


lemma div_div_div_same:
  fixes N :: nat
  assumes "0 < k" "k \<le> N"
  shows "N div (N div (N div k)) = N div k"
proof -
  define w where "w = N div k"
  have w0: "0 < w" using assms by (simp add: w_def div_greater_zero_iff)
  have wk: "w * k \<le> N" unfolding w_def by (rule div_times_less_eq_dividend)
  then have k: "k \<le> N div w" using w0 by (simp add: less_eq_div_iff_mult_less_eq mult.commute)
  then have "0 < N div w" using assms by simp
  moreover have "w * (N div w) \<le> N" by simp
  ultimately have "w \<le> N div (N div w)" by (simp add: less_eq_div_iff_mult_less_eq)
  moreover have "N div (N div w) \<le> w"
    unfolding w_def [of] by (rule div_le_mono2) (use assms k in \<open>simp_all add: w_def\<close>)
  ultimately show ?thesis by (simp add: w_def)
qed

lemma be_nat_replicate:
  "be_nat (replicate n 0) = 0" "be_nat (replicate n 255) = 256 ^ n - 1"
proof -
  have "le_nat (replicate n 0) = 0" by (induction n) simp_all
  then show "be_nat (replicate n 0) = 0" by (simp add: be_nat_def)
  have "le_nat (replicate n 255) + 1 = 256 ^ n" by (induction n) simp_all
  then show "be_nat (replicate n 255) = 256 ^ n - 1" by (simp add: be_nat_def)
qed

lemma target_to_compact_decode:
  assumes "0 < t" "t < 2 ^ 256"
  shows "\<exists>c u. target_to_compact t = Some c \<and> compact_to_target c = Inr u \<and>
    u \<le> t \<and> (t - u) * 2 ^ 15 < u"
proof -
  obtain e m where em: "compact_parts t = (e, m)" by fastforce
  define u where "u = (if e \<le> 3 then m div 2 ^ (8 * (3 - e)) else m * 2 ^ (8 * (e - 3)))"
  obtain c where c: "target_to_compact t = Some c" "unat c = e * 2 ^ 24 + m"
    using target_to_compact_parts(1) [OF assms em] by blast
  note m = target_to_compact_parts(2,3) [OF assms em]
  have u: "u = t \<or> u \<le> t \<and> (t - u) * 2 ^ 15 < u"
    unfolding u_def by (rule compact_parts_decode [OF assms em])
  then have "0 < u" "u < 2 ^ 256" "u \<le> t" "(t - u) * 2 ^ 15 < u" using assms by auto
  moreover from this have "compact_to_target c = Inr u"
    using compact_to_target_packed [OF c(2) _ m(2) u_def] m(1) by simp
  ultimately show ?thesis using c(1) by blast
qed

lemma verify_pow_numeric:
  assumes "compact_to_target b = Inr t" "length h = 32"
  shows "verify_pow h b = Inr (be_nat h \<le> t)"
proof -
  have "t < 2 ^ 256" using compact_to_target_Inr [OF assms(1)] by simp
  then have "be_nat (be_bytes 32 t) = t" by (simp add: be_nat_be_bytes)
  with assms show ?thesis
    by (simp add: verify_pow_def target_bytes_of_compact lex_le_iff_be_nat_le)
qed

section \<open>Properties\<close>

text \<open>
  C13.  The proof-of-work check decides the numeric statement: for a compact value that decodes to
  a target, a 32-byte hash passes exactly when, read as a big-endian number, it is at most the
  target.  No index of the byte-level target construction is out of range.
\<close>

theorem verify_pow_correct:
  assumes "compact_to_target b = Inr t" "length h = 32"
  shows "verify_pow h b = Inr (be_nat h \<le> t)"
  using assms by (rule verify_pow_numeric)

theorem verify_pow_correct_witness:
  "verify_pow (replicate 32 0) 0x1c00ffff = Inr True \<and>
   verify_pow (replicate 32 255) 0x1c00ffff = Inr False"
proof -
  have t: "compact_to_target 0x1c00ffff = Inr (0xffff * 2 ^ 200)"
    by (rule compact_to_target_packed [where e = 28 and m = 65535]) simp_all
  then show ?thesis
    using verify_pow_correct [OF t, of "replicate 32 0"]
      verify_pow_correct [OF t, of "replicate 32 255"] by (simp add: be_nat_replicate)
qed

text \<open>
  Encoding a nonzero 256-bit target in compact form never panics, and the encoding decodes to
  a target that is no easier than the original and loses less than one part in 2^15 of it.
\<close>

theorem target_to_compact_sound:
  assumes "0 < t" "t < 2 ^ 256"
  shows "\<exists>c u. target_to_compact t = Some c \<and> compact_to_target c = Inr u \<and>
    u \<le> t \<and> (t - u) * 2 ^ 15 < u"
  using assms by (rule target_to_compact_decode)

theorem target_to_compact_sound_witness:
  "\<exists>c u. target_to_compact 0x123456789 = Some c \<and> compact_to_target c = Inr u \<and>
    u \<le> 0x123456789 \<and> (0x123456789 - u) * 2 ^ 15 < u"
  by (rule target_to_compact_sound) simp_all

text \<open>
  Work and targets determine each other up to rounding: the target recovered from the work of
  a target is at least that target and has the same work, so a retarget that converts back and
  forth cannot change the claimed work.
\<close>

theorem work_target_galois:
  assumes "work_for_target t = Inr w" "t < 2 ^ 256"
  shows "\<exists>t'. target_for_work w = Inr t' \<and> t \<le> t' \<and> work_for_target t' = Inr w"
proof -
  have w: "w = 2 ^ 256 div (t + 1)" and t0: "t \<noteq> 0"
    using assms(1) by (auto simp: work_for_target_def split: if_splits)
  have w0: "0 < w" using assms work_for_target_pos by blast
  have "w * (t + 1) \<le> 2 ^ 256" unfolding w by (rule div_times_less_eq_dividend)
  then have le: "t + 1 \<le> 2 ^ 256 div w"
    using w0 by (simp only: less_eq_div_iff_mult_less_eq mult.commute)
  have "2 ^ 256 div (2 ^ 256 div w) = w"
    unfolding w by (rule div_div_div_same) (use assms(2) in simp_all)
  with le w0 t0 show ?thesis
    by (intro exI [of _ "2 ^ 256 div w - 1"]) (simp add: target_for_work_def work_for_target_def)
qed

theorem work_target_galois_witness:
  "\<exists>t'. target_for_work (2 ^ 256 div 1000) = Inr t' \<and> 999 \<le> t' \<and>
    work_for_target t' = Inr (2 ^ 256 div 1000)"
  by (rule work_target_galois) (simp_all add: work_for_target_def)

end
