(* ===== verification/Header_Store.thy ===== *)
theory Header_Store
  imports Header Pow
begin

text \<open>
  The storage half of \<open>hns-chain/src/lib.rs\<close>: stored headers, the trait \<open>HeaderStore\<close> and its
  in-memory implementation.  The trait is a record of its methods over a state type; a method with
  \<open>&mut self\<close> returns its result and the new state.  What the header chain relies on is the locale
  \<open>header_store\<close>, stated over the three observers of a store (headers by hash, canonical hashes by
  height, best hash), and the in-memory store is an interpretation of it.  The SQLite store is
  \<open>rusqlite\<close> input and output and has no model here.
\<close>

section \<open>Definitions\<close>

text \<open>Heights are \<open>u32\<close>; they are natural numbers here, with the bound checked where the code does.\<close>

record stored_header =
  sh_hash :: hash
  sh_header :: block_header
  sh_height :: nat
  sh_chainwork :: chainwork

record header_checkpoint =
  cp_height :: nat
  cp_hash :: hash

datatype chain_error =
    InvalidGenesisHeader
  | UnknownParent
  | DuplicateHeader
  | MissingBestHeader
  | InvalidDifficultyBits u32 u32
  | InvalidDifficultyWindow
  | InvalidProofOfWork
  | InvalidCheckpoint nat hash hash
  | ChainPow pow_error
  | Storage rust_str

definition checkpoint_table :: "(nat \<times> hash) list" where
  "checkpoint_table =
     [(1008, hex_lit ''0000000000001013c28fa079b545fb805f04c496687799b98e35e83cbbb8953e''),
      (2016, hex_lit ''0000000000000424ee6c2a5d6e0da5edfc47a4a10328c1792056ee48303c3e40''),
      (10000, hex_lit ''00000000000001a86811a6f520bf67cefa03207dc84fd315f58153b28694ec51''),
      (20000, hex_lit ''0000000000000162c7ac70a582256f59c189b5c90d8e9861b3f374ed714c58de''),
      (30000, hex_lit ''0000000000000004f790862846b23c3a81585aea0fa79a7d851b409e027bcaa7''),
      (40000, hex_lit ''0000000000000002966206a40b10a575cb46531253b08dae8e1b356cfa277248''),
      (50000, hex_lit ''00000000000000020c7447e7139feeb90549bfc77a7f18d4ff28f327c04f8d6e''),
      (56880, hex_lit ''0000000000000001d4ef9ea6908bb4eb970d556bd07cbd7d06a634e1cd5bbf4e''),
      (61043, hex_lit ''00000000000000015b84385e0307370f8323420eaa27ef6e407f2d3162f1fd05''),
      (100000, hex_lit ''000000000000000136d7d3efa688072f40d9fdd71bd47bb961694c0f38950246''),
      (130000, hex_lit ''0000000000000005ee5106df9e48bcd232a1917684ac344b35ddd9b9e4101096''),
      (160000, hex_lit ''00000000000000021e723ce5aedc021ab4f85d46a6914e40148f01986baa46c9''),
      (200000, hex_lit ''000000000000000181ebc18d6c34442ffef3eedca90c57ca8ecc29016a1cfe16''),
      (225000, hex_lit ''00000000000000021f0be013ebad018a9ef97c8501766632f017a778781320d5''),
      (258026, hex_lit ''0000000000000004963d20732c58e5a91cb7e1b61ec6709d031f1a5ca8c55b95'')]"

definition mainnet_checkpoint_hash :: "nat \<Rightarrow> hash option" where
  "mainnet_checkpoint_hash height = map_of checkpoint_table height"

definition mainnet_sync_checkpoints :: "header_checkpoint list" where
  "mainnet_sync_checkpoints =
     List.map_filter
       (\<lambda>height. map_option (\<lambda>h. \<lparr>cp_height = height, cp_hash = h\<rparr>) (mainnet_checkpoint_hash height))
       [50000, 100000, 160000, 200000, 225000, 258026]"

text \<open>A method that changes the store: the result and the new store.\<close>

type_synonym ('s, 'a) store_call = "'s \<Rightarrow> (chain_error + 'a) \<times> 's"

record 's header_store_ops =
  get_header :: "'s \<Rightarrow> hash \<Rightarrow> stored_header option"
  put_header :: "stored_header \<Rightarrow> ('s, unit) store_call"
  put_headers :: "stored_header list \<Rightarrow> ('s, unit) store_call"
  best_hash :: "'s \<Rightarrow> hash option"
  canonical_hash :: "'s \<Rightarrow> nat \<Rightarrow> hash option"
  promote_canonical_tip :: "stored_header \<Rightarrow> ('s, unit) store_call"
  promote_canonical_tips :: "stored_header list \<Rightarrow> ('s, unit) store_call"
  replace_canonical_chain :: "stored_header list \<Rightarrow> ('s, unit) store_call"

text \<open>The default bodies of \<open>put_headers\<close> and \<open>promote_canonical_tips\<close>: one call per header, up to the first error.\<close>

fun for_each_header ::
  "(stored_header \<Rightarrow> ('s, unit) store_call) \<Rightarrow> stored_header list \<Rightarrow> ('s, unit) store_call" where
  "for_each_header f [] s = (Inr (), s)"
| "for_each_header f (h # hs) s =
     (case f h s of (Inl e, s') \<Rightarrow> (Inl e, s') | (Inr _, s') \<Rightarrow> for_each_header f hs s')"

subsection \<open>The in-memory store\<close>

record memory_header_store =
  headers :: "hash \<rightharpoonup> stored_header"
  canonical :: "nat \<rightharpoonup> hash"
  best :: "hash option"

definition memory_store_default :: memory_header_store where
  "memory_store_default = \<lparr>headers = Map.empty, canonical = Map.empty, best = None\<rparr>"

definition memory_get_header :: "memory_header_store \<Rightarrow> hash \<Rightarrow> stored_header option" where
  "memory_get_header s h = headers s h"

definition memory_put_header :: "stored_header \<Rightarrow> (memory_header_store, unit) store_call" where
  "memory_put_header h s =
     (if headers s (sh_hash h) \<noteq> None then (Inl DuplicateHeader, s)
      else (Inr (), s\<lparr>headers := (headers s)(sh_hash h \<mapsto> h)\<rparr>))"

definition memory_best_hash :: "memory_header_store \<Rightarrow> hash option" where
  "memory_best_hash s = best s"

definition memory_canonical_hash :: "memory_header_store \<Rightarrow> nat \<Rightarrow> hash option" where
  "memory_canonical_hash s height = canonical s height"

definition memory_promote_canonical_tip ::
  "stored_header \<Rightarrow> (memory_header_store, unit) store_call" where
  "memory_promote_canonical_tip h s =
     (if headers s (sh_hash h) = None then (Inl MissingBestHeader, s)
      else (Inr (), s\<lparr>canonical := (canonical s)(sh_height h \<mapsto> sh_hash h),
                      best := Some (sh_hash h)\<rparr>))"

fun insert_canonical :: "stored_header list \<Rightarrow> (nat \<rightharpoonup> hash) \<Rightarrow> (nat \<rightharpoonup> hash)" where
  "insert_canonical [] m = m"
| "insert_canonical (h # hs) m = insert_canonical hs (m(sh_height h \<mapsto> sh_hash h))"

definition memory_replace_canonical_chain ::
  "stored_header list \<Rightarrow> (memory_header_store, unit) store_call" where
  "memory_replace_canonical_chain hs s =
     (if hs = [] then (Inl MissingBestHeader, s)
      else if list_ex (\<lambda>h. headers s (sh_hash h) = None) hs then (Inl MissingBestHeader, s)
      else (Inr (), s\<lparr>canonical := insert_canonical hs Map.empty, best := Some (sh_hash (last hs))\<rparr>))"

definition memory_store :: "memory_header_store header_store_ops" where
  "memory_store =
     \<lparr>get_header = memory_get_header, put_header = memory_put_header,
      put_headers = for_each_header memory_put_header, best_hash = memory_best_hash,
      canonical_hash = memory_canonical_hash,
      promote_canonical_tip = memory_promote_canonical_tip,
      promote_canonical_tips = for_each_header memory_promote_canonical_tip,
      replace_canonical_chain = memory_replace_canonical_chain\<rparr>"

text \<open>Headers as a map from their hashes, later entries overriding earlier ones.\<close>

fun insert_stored :: "stored_header list \<Rightarrow> (hash \<rightharpoonup> stored_header) \<Rightarrow> (hash \<rightharpoonup> stored_header)" where
  "insert_stored [] m = m"
| "insert_stored (h # hs) m = insert_stored hs (m(sh_hash h \<mapsto> h))"

section \<open>The interface\<close>

text \<open>
  The contract of a header store.  A header is stored under its hash once; canonical positions and
  the best hash change only by promotion, which needs the headers to be stored; a failing call
  leaves the store alone.
\<close>

locale header_store =
  fixes ops :: "'s header_store_ops"
  assumes put_new: "get_header ops s (sh_hash h) = None \<Longrightarrow>
      \<exists>s'. put_header ops h s = (Inr (), s') \<and>
        get_header ops s' = (get_header ops s)(sh_hash h \<mapsto> h) \<and>
        best_hash ops s' = best_hash ops s \<and> canonical_hash ops s' = canonical_hash ops s"
    and put_duplicate: "get_header ops s (sh_hash h) \<noteq> None \<Longrightarrow>
      put_header ops h s = (Inl DuplicateHeader, s)"
    and put_all_new: "\<lbrakk>distinct (map sh_hash hs); \<forall>h \<in> set hs. get_header ops s (sh_hash h) = None\<rbrakk> \<Longrightarrow>
      \<exists>s'. put_headers ops hs s = (Inr (), s') \<and>
        get_header ops s' = insert_stored hs (get_header ops s) \<and>
        best_hash ops s' = best_hash ops s \<and> canonical_hash ops s' = canonical_hash ops s"
    and promote_tip: "get_header ops s (sh_hash h) \<noteq> None \<Longrightarrow>
      \<exists>s'. promote_canonical_tip ops h s = (Inr (), s') \<and>
        get_header ops s' = get_header ops s \<and> best_hash ops s' = Some (sh_hash h) \<and>
        canonical_hash ops s' = (canonical_hash ops s)(sh_height h \<mapsto> sh_hash h)"
    and promote_tips: "\<lbrakk>hs \<noteq> []; \<forall>h \<in> set hs. get_header ops s (sh_hash h) \<noteq> None\<rbrakk> \<Longrightarrow>
      \<exists>s'. promote_canonical_tips ops hs s = (Inr (), s') \<and>
        get_header ops s' = get_header ops s \<and> best_hash ops s' = Some (sh_hash (last hs)) \<and>
        canonical_hash ops s' = insert_canonical hs (canonical_hash ops s)"
    and replace_chain: "\<lbrakk>hs \<noteq> []; \<forall>h \<in> set hs. get_header ops s (sh_hash h) \<noteq> None\<rbrakk> \<Longrightarrow>
      \<exists>s'. replace_canonical_chain ops hs s = (Inr (), s') \<and>
        get_header ops s' = get_header ops s \<and> best_hash ops s' = Some (sh_hash (last hs)) \<and>
        canonical_hash ops s' = insert_canonical hs Map.empty"

section \<open>Lemmas\<close>

lemmas memory_ops_defs =
  memory_store_def memory_get_header_def memory_put_header_def memory_best_hash_def
  memory_canonical_hash_def memory_promote_canonical_tip_def memory_replace_canonical_chain_def

lemma insert_stored_other: "k \<notin> sh_hash ` set hs \<Longrightarrow> insert_stored hs m k = m k"
  by (induction hs arbitrary: m) auto

lemma insert_stored_member:
  "\<lbrakk>distinct (map sh_hash hs); h \<in> set hs\<rbrakk> \<Longrightarrow> insert_stored hs m (sh_hash h) = Some h"
  by (induction hs arbitrary: m) (auto simp: insert_stored_other)

lemma insert_stored_lookup:
  assumes "distinct (map sh_hash hs)" "insert_stored hs m k = Some s"
  shows "s \<in> set hs \<and> sh_hash s = k \<or> k \<notin> sh_hash ` set hs \<and> m k = Some s"
  using assms insert_stored_member [OF assms(1)] insert_stored_other [of k hs m] by fastforce

lemma insert_stored_extends:
  assumes "\<forall>h \<in> set hs. m (sh_hash h) = None"
  shows "m \<subseteq>\<^sub>m insert_stored hs m"
  using assms insert_stored_other unfolding map_le_def
  by (metis (no_types, lifting) domIff image_iff)

lemma insert_canonical_other: "n \<notin> sh_height ` set hs \<Longrightarrow> insert_canonical hs m n = m n"
  by (induction hs arbitrary: m) auto

lemma insert_canonical_append:
  "insert_canonical (hs @ gs) m = insert_canonical gs (insert_canonical hs m)"
  by (induction hs arbitrary: m) auto

lemma memory_put_all:
  "\<lbrakk>distinct (map sh_hash hs); \<forall>h \<in> set hs. headers s (sh_hash h) = None\<rbrakk> \<Longrightarrow>
     for_each_header memory_put_header hs s = (Inr (), s\<lparr>headers := insert_stored hs (headers s)\<rparr>)"
proof (induction hs arbitrary: s)
  case (Cons h hs)
  define s' where "s' = s\<lparr>headers := (headers s)(sh_hash h \<mapsto> h)\<rparr>"
  have "memory_put_header h s = (Inr (), s')"
    using Cons.prems by (simp add: memory_put_header_def s'_def)
  moreover have "\<forall>g \<in> set hs. headers s' (sh_hash g) = None"
    using Cons.prems by (auto simp: s'_def image_iff)
  ultimately show ?case using Cons.IH [of s'] Cons.prems by (simp add: s'_def fun_upd_def)
qed simp

lemma memory_promote_all:
  "\<lbrakk>hs \<noteq> []; \<forall>h \<in> set hs. headers s (sh_hash h) \<noteq> None\<rbrakk> \<Longrightarrow>
     for_each_header memory_promote_canonical_tip hs s =
       (Inr (), s\<lparr>canonical := insert_canonical hs (canonical s), best := Some (sh_hash (last hs))\<rparr>)"
proof (induction hs arbitrary: s)
  case (Cons h hs)
  define s' where "s' = s\<lparr>canonical := (canonical s)(sh_height h \<mapsto> sh_hash h), best := Some (sh_hash h)\<rparr>"
  have step: "memory_promote_canonical_tip h s = (Inr (), s')"
    using Cons.prems by (simp add: memory_promote_canonical_tip_def s'_def)
  show ?case
  proof (cases "hs = []")
    case True
    with step show ?thesis by (simp add: s'_def fun_upd_def)
  next
    case False
    moreover have "\<forall>g \<in> set hs. headers s' (sh_hash g) \<noteq> None"
      using Cons.prems by (simp add: s'_def)
    ultimately show ?thesis using Cons.IH [of s'] step by (simp add: s'_def fun_upd_def)
  qed
qed simp

lemma memory_observers [simp]:
  "get_header memory_store s = headers s" "best_hash memory_store s = best s"
  "canonical_hash memory_store s = canonical s"
  by (simp_all add: memory_ops_defs fun_eq_iff)

lemma memory_batch_ops:
  "put_headers memory_store = for_each_header memory_put_header"
  "promote_canonical_tips memory_store = for_each_header memory_promote_canonical_tip"
  by (simp_all add: memory_store_def)

interpretation mem: header_store memory_store
proof
  show "get_header memory_store s (sh_hash h) = None \<Longrightarrow>
      \<exists>s'. put_header memory_store h s = (Inr (), s') \<and>
        get_header memory_store s' = (get_header memory_store s)(sh_hash h \<mapsto> h) \<and>
        best_hash memory_store s' = best_hash memory_store s \<and>
        canonical_hash memory_store s' = canonical_hash memory_store s" for s h
    by (auto simp: memory_ops_defs fun_eq_iff)
  show "get_header memory_store s (sh_hash h) \<noteq> None \<Longrightarrow>
      put_header memory_store h s = (Inl DuplicateHeader, s)" for s h
    by (simp add: memory_ops_defs)
  show "\<lbrakk>distinct (map sh_hash hs); \<forall>h \<in> set hs. get_header memory_store s (sh_hash h) = None\<rbrakk> \<Longrightarrow>
      \<exists>s'. put_headers memory_store hs s = (Inr (), s') \<and>
        get_header memory_store s' = insert_stored hs (get_header memory_store s) \<and>
        best_hash memory_store s' = best_hash memory_store s \<and>
        canonical_hash memory_store s' = canonical_hash memory_store s" for hs s
    using memory_put_all [of hs s] by (simp add: memory_batch_ops)
  show "get_header memory_store s (sh_hash h) \<noteq> None \<Longrightarrow>
      \<exists>s'. promote_canonical_tip memory_store h s = (Inr (), s') \<and>
        get_header memory_store s' = get_header memory_store s \<and>
        best_hash memory_store s' = Some (sh_hash h) \<and>
        canonical_hash memory_store s' =
          (canonical_hash memory_store s)(sh_height h \<mapsto> sh_hash h)" for s h
    by (auto simp: memory_ops_defs fun_eq_iff)
  show "\<lbrakk>hs \<noteq> []; \<forall>h \<in> set hs. get_header memory_store s (sh_hash h) \<noteq> None\<rbrakk> \<Longrightarrow>
      \<exists>s'. promote_canonical_tips memory_store hs s = (Inr (), s') \<and>
        get_header memory_store s' = get_header memory_store s \<and>
        best_hash memory_store s' = Some (sh_hash (last hs)) \<and>
        canonical_hash memory_store s' = insert_canonical hs (canonical_hash memory_store s)" for hs s
    using memory_promote_all [of hs s] by (simp add: memory_batch_ops)
  show "\<lbrakk>hs \<noteq> []; \<forall>h \<in> set hs. get_header memory_store s (sh_hash h) \<noteq> None\<rbrakk> \<Longrightarrow>
      \<exists>s'. replace_canonical_chain memory_store hs s = (Inr (), s') \<and>
        get_header memory_store s' = get_header memory_store s \<and>
        best_hash memory_store s' = Some (sh_hash (last hs)) \<and>
        canonical_hash memory_store s' = insert_canonical hs Map.empty" for hs s
    by (auto simp: memory_ops_defs fun_eq_iff list_ex_iff)
qed

end
