(* ===== verification/Header_Chain.thy ===== *)
theory Header_Chain
  imports Header_Store
begin

text \<open>
  The consensus half of \<open>hns-chain/src/lib.rs\<close>: \<open>HeaderChain\<close> over any header store, with the
  Handshake difficulty rule, checkpoints, chain selection by accumulated work and the index of the
  canonical chain.  A method with \<open>&mut self\<close> returns its result and the new chain, so that an
  error is seen together with the state it leaves.
\<close>

section \<open>Definitions\<close>

definition MAINNET_POW_BITS :: u32 where "MAINNET_POW_BITS = 0x1c00ffff"
definition MAINNET_TARGET_SPACING :: nat where "MAINNET_TARGET_SPACING = 10 * 60"
definition MAINNET_BLOCKS_PER_DAY :: nat where "MAINNET_BLOCKS_PER_DAY = 144"
definition MAINNET_MIN_ACTUAL_TIMESPAN :: nat where
  "MAINNET_MIN_ACTUAL_TIMESPAN = 36 * MAINNET_TARGET_SPACING"
definition MAINNET_MAX_ACTUAL_TIMESPAN :: nat where
  "MAINNET_MAX_ACTUAL_TIMESPAN = 576 * MAINNET_TARGET_SPACING"

datatype difficulty_policy = MainnetPolicy | Permissive

record 's header_chain =
  chain_store :: 's
  chain_policy :: difficulty_policy

type_synonym 'a chain_result = "chain_error fault + 'a"
type_synonym ('s, 'a) chain_call = "'s header_chain \<Rightarrow> 'a chain_result \<times> 's header_chain"

definition chain_with_difficulty_policy :: "'s \<Rightarrow> difficulty_policy \<Rightarrow> 's header_chain" where
  "chain_with_difficulty_policy s pol = \<lparr>chain_store = s, chain_policy = pol\<rparr>"

definition chain_new :: "'s \<Rightarrow> 's header_chain" where
  "chain_new s = chain_with_difficulty_policy s MainnetPolicy"

definition checked_add_u32 :: "nat \<Rightarrow> nat \<Rightarrow> nat option" where
  "checked_add_u32 a b = (if a + b < 2 ^ 32 then Some (a + b) else None)"

text \<open>A pure step, a step on the store, and the \<open>?\<close> operator between steps.\<close>

definition chain_pure :: "'a chain_result \<Rightarrow> ('s, 'a) chain_call" where
  "chain_pure r c = (r, c)"

definition on_store :: "('s, 'a) store_call \<Rightarrow> ('s, 'a) chain_call" where
  "on_store f c = (let (r, s) = f (chain_store c) in (map_err Err r, c\<lparr>chain_store := s\<rparr>))"

definition chain_bind ::
  "('s, 'a) chain_call \<Rightarrow> ('a \<Rightarrow> ('s, 'b) chain_call) \<Rightarrow> ('s, 'b) chain_call" where
  "chain_bind m f c = (case m c of (Inl e, c) \<Rightarrow> (Inl e, c) | (Inr x, c) \<Rightarrow> f x c)"

subsection \<open>Ancestors\<close>

text \<open>\<open>get\<close> is \<open>self.store.get_header\<close>; headers of the current batch take precedence.\<close>

definition lookup_with_pending ::
  "(hash \<rightharpoonup> stored_header) \<Rightarrow> (hash \<rightharpoonup> stored_header) \<Rightarrow> hash \<Rightarrow> stored_header option" where
  "lookup_with_pending get pending h =
     (case pending h of Some s \<Rightarrow> Some s | None \<Rightarrow> get h)"

definition previous_with_pending ::
  "(hash \<rightharpoonup> stored_header) \<Rightarrow> (hash \<rightharpoonup> stored_header) \<Rightarrow> stored_header \<Rightarrow> stored_header chain_result" where
  "previous_with_pending get pending header =
     and_then (ok_or (Err UnknownParent)
         (lookup_with_pending get pending (prev_block (sh_header header)))) (\<lambda>previous.
     if checked_add_u32 (sh_height previous) 1 \<noteq> Some (sh_height header)
     then Inl (Err InvalidDifficultyWindow) else Inr previous)"

lemma previous_height:
  "previous_with_pending get pending h = Inr p \<Longrightarrow> sh_height h = Suc (sh_height p)"
  by (auto simp: previous_with_pending_def and_then_Inr checked_add_u32_def split: if_splits)

function ancestor_loop ::
  "(hash \<rightharpoonup> stored_header) \<Rightarrow> (hash \<rightharpoonup> stored_header) \<Rightarrow> nat \<Rightarrow> stored_header \<Rightarrow> stored_header chain_result" where
  "ancestor_loop get pending height current =
     (if sh_height current > height
      then and_then (previous_with_pending get pending current) (ancestor_loop get pending height)
      else Inr current)"
  by pat_completeness auto
termination by (relation "measure (\<lambda>(_, _, _, c). sh_height c)") (auto dest: previous_height)

definition ancestor_with_pending ::
  "(hash \<rightharpoonup> stored_header) \<Rightarrow> (hash \<rightharpoonup> stored_header) \<Rightarrow> stored_header \<Rightarrow> nat \<Rightarrow> stored_header chain_result" where
  "ancestor_with_pending get pending header height =
     (if height > sh_height header then Inl (Err InvalidDifficultyWindow)
      else ancestor_loop get pending height header)"

definition suitable_block_with_pending ::
  "(hash \<rightharpoonup> stored_header) \<Rightarrow> (hash \<rightharpoonup> stored_header) \<Rightarrow> stored_header \<Rightarrow> stored_header chain_result" where
  "suitable_block_with_pending get pending z =
     and_then (previous_with_pending get pending z) (\<lambda>y.
     and_then (previous_with_pending get pending y) (\<lambda>x.
     Inr (sort_key (\<lambda>b. unat (time (sh_header b))) [x, y, z] ! 1)))"

subsection \<open>Difficulty, genesis and checkpoints\<close>

definition retarget_bits :: "stored_header \<Rightarrow> stored_header \<Rightarrow> u32 chain_result" where
  "retarget_bits first lst =
     (if sh_height lst \<le> sh_height first then Inl (Err InvalidDifficultyWindow) else
      let timespan = unat (time (sh_header lst)) - unat (time (sh_header first));
          timespan = max MAINNET_MIN_ACTUAL_TIMESPAN (min timespan MAINNET_MAX_ACTUAL_TIMESPAN)
      in and_then (ok_or (Err InvalidDifficultyWindow)
             (chainwork_checked_sub (sh_chainwork lst) (sh_chainwork first))) (\<lambda>diff.
         and_then (ok_or (Err InvalidDifficultyWindow)
             (chainwork_div_u64 (chainwork_mul_u64 diff MAINNET_TARGET_SPACING) timespan)) (\<lambda>work.
         if work = 0 then Inr MAINNET_POW_BITS else
         and_then (map_err (\<lambda>e. Err (ChainPow e)) (target_for_work work)) (\<lambda>target.
         and_then (map_err (\<lambda>e. Err (ChainPow e)) (compact_to_target MAINNET_POW_BITS)) (\<lambda>limit.
         if target > limit then Inr MAINNET_POW_BITS
         else ok_or Panic (target_to_compact target))))))"

definition expected_mainnet_bits_with_pending ::
  "(hash \<rightharpoonup> stored_header) \<Rightarrow> (hash \<rightharpoonup> stored_header) \<Rightarrow> stored_header \<Rightarrow> u32 chain_result" where
  "expected_mainnet_bits_with_pending get pending parent =
     (if sh_height parent < MAINNET_BLOCKS_PER_DAY + 2 then Inr MAINNET_POW_BITS else
      and_then (suitable_block_with_pending get pending parent) (\<lambda>lst.
      and_then (ancestor_with_pending get pending parent
          (sh_height parent - MAINNET_BLOCKS_PER_DAY)) (\<lambda>ancestor.
      and_then (suitable_block_with_pending get pending ancestor) (\<lambda>first.
      retarget_bits first lst))))"

definition validate_difficulty_bits_with_pending ::
  "difficulty_policy \<Rightarrow> (hash \<rightharpoonup> stored_header) \<Rightarrow> (hash \<rightharpoonup> stored_header) \<Rightarrow>
   block_header \<Rightarrow> stored_header \<Rightarrow> unit chain_result" where
  "validate_difficulty_bits_with_pending pol get pending header parent =
     (case pol of
        Permissive \<Rightarrow> Inr ()
      | MainnetPolicy \<Rightarrow>
          and_then (expected_mainnet_bits_with_pending get pending parent) (\<lambda>expected.
          if bits header \<noteq> expected then Inl (Err (InvalidDifficultyBits (bits header) expected))
          else Inr ()))"

definition validate_difficulty_bits ::
  "difficulty_policy \<Rightarrow> (hash \<rightharpoonup> stored_header) \<Rightarrow> block_header \<Rightarrow> stored_header \<Rightarrow> unit chain_result" where
  "validate_difficulty_bits pol get header parent =
     validate_difficulty_bits_with_pending pol get Map.empty header parent"

definition validate_checkpoint :: "difficulty_policy \<Rightarrow> nat \<Rightarrow> hash \<Rightarrow> unit chain_result" where
  "validate_checkpoint pol height h =
     (if pol \<noteq> MainnetPolicy then Inr () else
      case mainnet_checkpoint_hash height of
        None \<Rightarrow> Inr ()
      | Some expected \<Rightarrow>
          (if h \<noteq> expected then Inl (Err (InvalidCheckpoint height h expected)) else Inr ()))"

definition validate_genesis :: "difficulty_policy \<Rightarrow> block_header \<Rightarrow> unit chain_result" where
  "validate_genesis pol header =
     (if pol = MainnetPolicy \<and> header \<noteq> mainnet_genesis then Inl (Err InvalidGenesisHeader)
      else Inr ())"

subsection \<open>The canonical chain\<close>

function chain_to_loop ::
  "(hash \<rightharpoonup> stored_header) \<Rightarrow> stored_header \<Rightarrow> stored_header list \<Rightarrow> stored_header list chain_result" where
  "chain_to_loop get current acc =
     (if sh_height current > 0 then
        and_then (previous_with_pending get Map.empty current) (\<lambda>previous.
        chain_to_loop get previous (acc @ [previous]))
      else Inr acc)"
  by pat_completeness auto
termination by (relation "measure (\<lambda>(_, c, _). sh_height c)") (auto dest: previous_height)

definition canonical_chain_to ::
  "(hash \<rightharpoonup> stored_header) \<Rightarrow> hash \<Rightarrow> stored_header list chain_result" where
  "canonical_chain_to get h =
     and_then (ok_or (Err MissingBestHeader) (get h)) (\<lambda>current.
     and_then (chain_to_loop get current [current]) (\<lambda>hs. Inr (rev hs)))"

definition best_header :: "'s header_store_ops \<Rightarrow> 's header_chain \<Rightarrow> stored_header option chain_result" where
  "best_header ops c =
     (case best_hash ops (chain_store c) of
        Some h \<Rightarrow> ok_or (Err MissingBestHeader) (map_option Some (get_header ops (chain_store c) h))
      | None \<Rightarrow> Inr None)"

definition chain_get_header :: "'s header_store_ops \<Rightarrow> 's header_chain \<Rightarrow> hash \<Rightarrow> stored_header option" where
  "chain_get_header ops c h = get_header ops (chain_store c) h"

definition chain_canonical_hash :: "'s header_store_ops \<Rightarrow> 's header_chain \<Rightarrow> nat \<Rightarrow> hash option" where
  "chain_canonical_hash ops c height = canonical_hash ops (chain_store c) height"

definition canonical_header :: "'s header_store_ops \<Rightarrow> 's header_chain \<Rightarrow> nat \<Rightarrow> stored_header option" where
  "canonical_header ops c height =
     Option.bind (chain_canonical_hash ops c height) (get_header ops (chain_store c))"

definition promote_best_hash :: "'s header_store_ops \<Rightarrow> hash \<Rightarrow> ('s, unit) chain_call" where
  "promote_best_hash ops h c =
     chain_bind (chain_pure (canonical_chain_to (get_header ops (chain_store c)) h)) (\<lambda>hs.
     on_store (replace_canonical_chain ops hs)) c"

subsection \<open>Insertion\<close>

definition insert_genesis ::
  "digest_fns \<Rightarrow> 's header_store_ops \<Rightarrow> block_header \<Rightarrow> ('s, stored_header) chain_call" where
  "insert_genesis D ops header c =
     chain_bind (chain_pure (
       and_then (validate_genesis (chain_policy c) header) (\<lambda>_.
       and_then (map_err (\<lambda>e. Err (ChainPow e)) (chainwork_from_bits (bits header))) (\<lambda>work.
       Inr \<lparr>sh_hash = header_hash D header, sh_header = header, sh_height = 0, sh_chainwork = work\<rparr>)))) (\<lambda>stored.
     chain_bind (on_store (put_header ops stored)) (\<lambda>_.
     chain_bind (promote_best_hash ops (sh_hash stored)) (\<lambda>_.
     chain_pure (Inr stored)))) c"

definition pow_fault :: "pow_error fault + 'a \<Rightarrow> 'a chain_result" where
  "pow_fault r = map_err (\<lambda>f. case f of Err e \<Rightarrow> Err (ChainPow e) | Panic \<Rightarrow> Panic) r"

text \<open>The checks of \<open>insert_header\<close> up to the first write.\<close>

definition check_header ::
  "digest_fns \<Rightarrow> difficulty_policy \<Rightarrow> (hash \<rightharpoonup> stored_header) \<Rightarrow> block_header \<Rightarrow> stored_header chain_result" where
  "check_header D pol get header =
     and_then (ok_or (Err UnknownParent) (get (prev_block header))) (\<lambda>parent.
     let h = header_hash D header in
     and_then (ok_or (Err InvalidDifficultyWindow) (checked_add_u32 (sh_height parent) 1)) (\<lambda>height.
     and_then (validate_difficulty_bits pol get header parent) (\<lambda>_.
     and_then (pow_fault (verify_pow h (bits header))) (\<lambda>ok.
     if \<not> ok then Inl (Err InvalidProofOfWork) else
     and_then (validate_checkpoint pol height h) (\<lambda>_.
     and_then (map_err (\<lambda>e. Err (ChainPow e)) (chainwork_from_bits (bits header))) (\<lambda>work.
     Inr \<lparr>sh_hash = h, sh_header = header, sh_height = height,
          sh_chainwork = chainwork_checked_add (sh_chainwork parent) work\<rparr>))))))"

definition insert_header ::
  "digest_fns \<Rightarrow> 's header_store_ops \<Rightarrow> block_header \<Rightarrow> ('s, stored_header) chain_call" where
  "insert_header D ops header c =
     chain_bind (chain_pure (check_header D (chain_policy c) (get_header ops (chain_store c)) header)) (\<lambda>stored.
     chain_bind (on_store (put_header ops stored)) (\<lambda>_.
     chain_bind (\<lambda>c. (best_header ops c, c)) (\<lambda>best.
     let extends_best = (case best of Some b \<Rightarrow> prev_block (sh_header stored) = sh_hash b | None \<Rightarrow> False);
         should_promote = (case best of Some b \<Rightarrow> sh_chainwork stored > sh_chainwork b | None \<Rightarrow> True)
     in chain_bind
          (if should_promote then
             (if extends_best then on_store (promote_canonical_tip ops stored)
              else promote_best_hash ops (sh_hash stored))
           else chain_pure (Inr ())) (\<lambda>_.
        chain_pure (Inr stored))))) c"

text \<open>The variables of the loop of \<open>insert_headers\<close>.\<close>

record batch =
  accepted :: "stored_header list"
  pending :: "hash \<rightharpoonup> stored_header"
  seen :: "hash set"
  chainwork_by_bits :: "u32 \<rightharpoonup> chainwork"

definition batch_empty :: batch where
  "batch_empty = \<lparr>accepted = [], pending = Map.empty, seen = {}, chainwork_by_bits = Map.empty\<rparr>"

definition batch_work :: "block_header \<Rightarrow> batch \<Rightarrow> (chainwork \<times> batch) chain_result" where
  "batch_work header b =
     (case chainwork_by_bits b (bits header) of
        Some work \<Rightarrow> Inr (work, b)
      | None \<Rightarrow>
          and_then (map_err (\<lambda>e. Err (ChainPow e)) (chainwork_from_bits (bits header))) (\<lambda>work.
          let memo = (chainwork_by_bits b)(bits header \<mapsto> work);
              b = b\<lparr>chainwork_by_bits := memo\<rparr>
          in and_then (ok_or (Err InvalidDifficultyWindow) (memo (bits header))) (\<lambda>work.
             Inr (work, b))))"

definition batch_step ::
  "digest_fns \<Rightarrow> difficulty_policy \<Rightarrow> (hash \<rightharpoonup> stored_header) \<Rightarrow> block_header \<Rightarrow> batch \<Rightarrow> batch chain_result" where
  "batch_step D pol get header b =
     (let h = header_hash D header in
      if h \<in> seen b then Inr b
      else let b = b\<lparr>seen := insert h (seen b)\<rparr> in
      if get h \<noteq> None then Inr b else
      and_then (ok_or (Err UnknownParent) (lookup_with_pending get (pending b) (prev_block header))) (\<lambda>parent.
      and_then (validate_difficulty_bits_with_pending pol get (pending b) header parent) (\<lambda>_.
      and_then (pow_fault (verify_pow h (bits header))) (\<lambda>ok.
      if \<not> ok then Inl (Err InvalidProofOfWork) else
      and_then (ok_or (Err InvalidDifficultyWindow) (checked_add_u32 (sh_height parent) 1)) (\<lambda>height.
      and_then (validate_checkpoint pol height h) (\<lambda>_.
      and_then (batch_work header b) (\<lambda>(work, b).
      let stored = \<lparr>sh_hash = h, sh_header = header, sh_height = height,
                    sh_chainwork = chainwork_checked_add (sh_chainwork parent) work\<rparr>
      in Inr (b\<lparr>pending := (pending b)(h \<mapsto> stored), accepted := accepted b @ [stored]\<rparr>))))))))"

fun batch_loop ::
  "digest_fns \<Rightarrow> difficulty_policy \<Rightarrow> (hash \<rightharpoonup> stored_header) \<Rightarrow> block_header list \<Rightarrow> batch \<Rightarrow> batch chain_result" where
  "batch_loop D pol get [] b = Inr b"
| "batch_loop D pol get (header # hs) b =
     and_then (batch_step D pol get header b) (batch_loop D pol get hs)"

text \<open>\<open>max_by\<close> keeps the later of two equal elements.\<close>

fun max_by_work :: "nat \<times> stored_header \<Rightarrow> (nat \<times> stored_header) list \<Rightarrow> nat \<times> stored_header" where
  "max_by_work m [] = m"
| "max_by_work m (x # xs) =
     max_by_work (if sh_chainwork (snd m) > sh_chainwork (snd x) then m else x) xs"

definition best_candidate :: "stored_header list \<Rightarrow> (nat \<times> stored_header) option" where
  "best_candidate hs =
     (case List.enumerate 0 hs of [] \<Rightarrow> None | x # xs \<Rightarrow> Some (max_by_work x xs))"

fun windows_linked :: "stored_header list \<Rightarrow> bool" where
  "windows_linked (a # b # hs) \<longleftrightarrow>
     prev_block (sh_header b) = sh_hash a \<and> windows_linked (b # hs)"
| "windows_linked _ \<longleftrightarrow> True"

definition insert_headers ::
  "digest_fns \<Rightarrow> 's header_store_ops \<Rightarrow> block_header list \<Rightarrow> ('s, stored_header list) chain_call" where
  "insert_headers D ops hs c =
     chain_bind (chain_pure (batch_loop D (chain_policy c) (get_header ops (chain_store c)) hs batch_empty)) (\<lambda>b.
     let acc = accepted b in
     if acc = [] then chain_pure (Inr acc) else
     chain_bind (\<lambda>c. (best_header ops c, c)) (\<lambda>best.
     chain_bind (chain_pure (ok_or (Err MissingBestHeader) (best_candidate acc))) (\<lambda>(index, candidate).
     let should_promote =
           (case best of Some b \<Rightarrow> sh_chainwork candidate > sh_chainwork b | None \<Rightarrow> True);
         extends_best =
           (case best of Some b \<Rightarrow>
              prev_block (sh_header (hd acc)) = sh_hash b \<and> windows_linked (take (index + 1) acc)
            | None \<Rightarrow> False)
     in chain_bind (on_store (put_headers ops acc)) (\<lambda>_.
        chain_bind
          (if should_promote then
             (if extends_best then on_store (promote_canonical_tips ops (take (index + 1) acc))
              else promote_best_hash ops (sh_hash candidate))
           else chain_pure (Inr ())) (\<lambda>_.
        chain_pure (Inr acc)))))) c"


subsection \<open>Invariant\<close>

text \<open>The relation of a stored header to its stored parent under the consensus rules.\<close>

definition header_follows ::
  "digest_fns \<Rightarrow> difficulty_policy \<Rightarrow> (hash \<rightharpoonup> stored_header) \<Rightarrow> stored_header \<Rightarrow> stored_header \<Rightarrow> bool" where
  "header_follows D pol get parent s \<longleftrightarrow>
     sh_height s = sh_height parent + 1 \<and>
     (\<exists>work. chainwork_from_bits (bits (sh_header s)) = Inr work \<and>
        sh_chainwork s = sh_chainwork parent + work) \<and>
     verify_pow (sh_hash s) (bits (sh_header s)) = Inr True \<and>
     (pol = MainnetPolicy \<longrightarrow>
        expected_mainnet_bits_with_pending get Map.empty parent = Inr (bits (sh_header s)) \<and>
        (\<forall>cp. mainnet_checkpoint_hash (sh_height s) = Some cp \<longrightarrow> sh_hash s = cp))"

definition header_valid ::
  "digest_fns \<Rightarrow> difficulty_policy \<Rightarrow> (hash \<rightharpoonup> stored_header) \<Rightarrow> hash \<Rightarrow> stored_header \<Rightarrow> bool" where
  "header_valid D pol get h s \<longleftrightarrow>
     sh_hash s = h \<and> header_hash D (sh_header s) = h \<and> sh_height s < 2 ^ 32 \<and>
     (if sh_height s = 0 then
        chainwork_from_bits (bits (sh_header s)) = Inr (sh_chainwork s) \<and>
        (pol = MainnetPolicy \<longrightarrow> sh_header s = mainnet_genesis)
      else (\<exists>p. get (prev_block (sh_header s)) = Some p \<and> header_follows D pol get p s))"

definition headers_valid ::
  "digest_fns \<Rightarrow> difficulty_policy \<Rightarrow> (hash \<rightharpoonup> stored_header) \<Rightarrow> bool" where
  "headers_valid D pol get \<longleftrightarrow> (\<forall>h s. get h = Some s \<longrightarrow> header_valid D pol get h s)"

text \<open>A list of stored headers from height zero upwards, each the parent of the next.\<close>

definition is_path :: "(hash \<rightharpoonup> stored_header) \<Rightarrow> stored_header list \<Rightarrow> bool" where
  "is_path get hs \<longleftrightarrow> hs \<noteq> [] \<and>
     (\<forall>i < length hs. sh_height (hs ! i) = i \<and> get (sh_hash (hs ! i)) = Some (hs ! i) \<and>
        (0 < i \<longrightarrow> prev_block (sh_header (hs ! i)) = sh_hash (hs ! (i - 1))))"

definition heaviest :: "(hash \<rightharpoonup> stored_header) \<Rightarrow> stored_header \<Rightarrow> bool" where
  "heaviest get s \<longleftrightarrow> get (sh_hash s) = Some s \<and>
     (\<forall>h t. get h = Some t \<longrightarrow> sh_chainwork t \<le> sh_chainwork s)"

definition index_of :: "stored_header list \<Rightarrow> nat \<rightharpoonup> hash" where
  "index_of hs n = (if n < length hs then Some (sh_hash (hs ! n)) else None)"

text \<open>
  The state of a header chain: every stored header is valid, the best hash belongs to a stored
  header of greatest work, and the canonical index is exactly the path from height zero to it.
\<close>

definition chain_ok ::
  "digest_fns \<Rightarrow> difficulty_policy \<Rightarrow> (hash \<rightharpoonup> stored_header) \<Rightarrow> hash option \<Rightarrow> (nat \<rightharpoonup> hash) \<Rightarrow> bool" where
  "chain_ok D pol get tip canon \<longleftrightarrow>
     headers_valid D pol get \<and>
     (case tip of
        None \<Rightarrow> get = Map.empty \<and> canon = Map.empty
      | Some b \<Rightarrow> (\<exists>hs. is_path get hs \<and> sh_hash (last hs) = b \<and> heaviest get (last hs) \<and>
          canon = index_of hs))"

definition chain_inv :: "digest_fns \<Rightarrow> 's header_store_ops \<Rightarrow> 's header_chain \<Rightarrow> bool" where
  "chain_inv D ops c \<longleftrightarrow>
     chain_ok D (chain_policy c) (get_header ops (chain_store c)) (best_hash ops (chain_store c))
       (canonical_hash ops (chain_store c))"

text \<open>The chains over the in-memory store that calls can produce; the genesis header comes first.\<close>

inductive chain_reachable ::
  "digest_fns \<Rightarrow> difficulty_policy \<Rightarrow> memory_header_store header_chain \<Rightarrow> bool" for D pol where
  reach_start: "chain_reachable D pol (chain_with_difficulty_policy memory_store_default pol)"
| reach_genesis: "\<lbrakk>chain_reachable D pol c; best (chain_store c) = None;
     insert_genesis D memory_store header c = (r, c')\<rbrakk> \<Longrightarrow> chain_reachable D pol c'"
| reach_header: "\<lbrakk>chain_reachable D pol c; insert_header D memory_store header c = (r, c')\<rbrakk> \<Longrightarrow>
     chain_reachable D pol c'"
| reach_headers: "\<lbrakk>chain_reachable D pol c; insert_headers D memory_store hs c = (r', c')\<rbrakk> \<Longrightarrow>
     chain_reachable D pol c'"

text \<open>Reference definition of a batch: one \<open>insert_header\<close> after another.\<close>

fun insert_each ::
  "digest_fns \<Rightarrow> 's header_store_ops \<Rightarrow> block_header list \<Rightarrow> ('s, stored_header list) chain_call" where
  "insert_each D ops [] c = (Inr [], c)"
| "insert_each D ops (h # hs) c =
     chain_bind (insert_header D ops h) (\<lambda>s.
     chain_bind (insert_each D ops hs) (\<lambda>ss.
     chain_pure (Inr (s # ss)))) c"

section \<open>Lemmas\<close>

declare ancestor_loop.simps [simp del] chain_to_loop.simps [simp del]

subsection \<open>Ancestor lookups depend only on the headers found\<close>

lemma lookup_with_pending_add: "lookup_with_pending get pend = get ++ pend"
  by (auto simp: lookup_with_pending_def map_add_def fun_eq_iff split: option.splits)

lemma previous_pending: "previous_with_pending get pend = previous_with_pending (get ++ pend) Map.empty"
  by (simp add: previous_with_pending_def lookup_with_pending_add fun_eq_iff)

lemma ancestor_loop_pending:
  "ancestor_loop get pend n cur = ancestor_loop (get ++ pend) Map.empty n cur"
proof (induction get pend n cur rule: ancestor_loop.induct)
  case (1 get pend n cur)
  show ?case
    by (subst (1 2) ancestor_loop.simps)
      (use 1 in \<open>auto simp: previous_pending [of get pend] intro: and_then_cong\<close>)
qed

lemma expected_bits_pending:
  "expected_mainnet_bits_with_pending get pend p =
     expected_mainnet_bits_with_pending (get ++ pend) Map.empty p"
proof -
  have "suitable_block_with_pending get pend = suitable_block_with_pending (get ++ pend) Map.empty"
    unfolding suitable_block_with_pending_def previous_pending [of get pend] ..
  moreover have "ancestor_with_pending get pend = ancestor_with_pending (get ++ pend) Map.empty"
    unfolding ancestor_with_pending_def ancestor_loop_pending [of get pend] ..
  ultimately show ?thesis unfolding expected_mainnet_bits_with_pending_def by simp
qed

lemma previous_mono:
  "\<lbrakk>previous_with_pending g Map.empty h = Inr p; g \<subseteq>\<^sub>m g'\<rbrakk> \<Longrightarrow> previous_with_pending g' Map.empty h = Inr p"
  by (auto simp: previous_with_pending_def lookup_with_pending_def and_then_Inr dest: map_le_Some
      split: if_splits)

lemma suitable_mono:
  "\<lbrakk>suitable_block_with_pending g Map.empty h = Inr p; g \<subseteq>\<^sub>m g'\<rbrakk> \<Longrightarrow>
     suitable_block_with_pending g' Map.empty h = Inr p"
  by (auto simp: suitable_block_with_pending_def and_then_Inr simp del: sort_key_simps dest: previous_mono)

lemma ancestor_loop_mono:
  "\<lbrakk>ancestor_loop g pend n cur = Inr p; pend = Map.empty; g \<subseteq>\<^sub>m g'\<rbrakk> \<Longrightarrow> ancestor_loop g' Map.empty n cur = Inr p"
proof (induction g pend n cur rule: ancestor_loop.induct)
  case (1 g pend n cur)
  show ?case
  proof (cases "n < sh_height cur")
    case True
    with 1(2,3) obtain q where q: "previous_with_pending g Map.empty cur = Inr q" "ancestor_loop g Map.empty n q = Inr p"
      by (subst (asm) ancestor_loop.simps) (auto simp: and_then_Inr)
    with 1 True previous_mono [OF q(1)] show ?thesis
      by (subst ancestor_loop.simps) (auto simp: and_then_Inr)
  next
    case False
    with 1(2) show ?thesis by (subst ancestor_loop.simps, subst (asm) ancestor_loop.simps) simp
  qed
qed

lemma expected_bits_mono:
  assumes "expected_mainnet_bits_with_pending g Map.empty p = Inr b" "g \<subseteq>\<^sub>m g'"
  shows "expected_mainnet_bits_with_pending g' Map.empty p = Inr b"
  using assms suitable_mono [OF _ assms(2)] ancestor_loop_mono [OF _ refl assms(2)]
  by (auto simp: expected_mainnet_bits_with_pending_def ancestor_with_pending_def and_then_Inr
      split: if_splits)

lemma header_follows_mono:
  "\<lbrakk>header_follows D pol g p s; g \<subseteq>\<^sub>m g'\<rbrakk> \<Longrightarrow> header_follows D pol g' p s"
  using expected_bits_mono [of g p _ g'] unfolding header_follows_def by blast

lemma header_valid_mono:
  "\<lbrakk>header_valid D pol g h s; g \<subseteq>\<^sub>m g'\<rbrakk> \<Longrightarrow> header_valid D pol g' h s"
proof -
  assume v: "header_valid D pol g h s" and le: "g \<subseteq>\<^sub>m g'"
  have "\<exists>p. g' (prev_block (sh_header s)) = Some p \<and> header_follows D pol g' p s"
    if "g (prev_block (sh_header s)) = Some p" "header_follows D pol g p s" for p
    using map_le_Some [OF le that(1)] header_follows_mono [OF that(2) le] by blast
  with v show ?thesis by (auto simp: header_valid_def split: if_splits)
qed

lemma headers_valid_insert:
  assumes "headers_valid D pol g" "g (sh_hash s) = None"
    and "header_valid D pol g (sh_hash s) s"
  shows "headers_valid D pol (g(sh_hash s \<mapsto> s))"
proof -
  have "g \<subseteq>\<^sub>m g(sh_hash s \<mapsto> s)" using assms(2) by (auto simp: map_le_def)
  with assms header_valid_mono [of D pol g] show ?thesis by (auto simp: headers_valid_def)
qed

subsection \<open>Paths\<close>

lemma is_path_mono: "\<lbrakk>is_path g hs; g \<subseteq>\<^sub>m g'\<rbrakk> \<Longrightarrow> is_path g' hs"
  by (auto simp: is_path_def dest: map_le_Some)

lemma is_path_stored: "\<lbrakk>is_path g hs; s \<in> set hs\<rbrakk> \<Longrightarrow> g (sh_hash s) = Some s"
  by (auto simp: is_path_def in_set_conv_nth)

lemma is_path_height: "is_path g hs \<Longrightarrow> sh_height (last hs) + 1 = length hs"
  by (auto simp: is_path_def last_conv_nth)

lemma is_path_append:
  assumes "is_path g hs" "g (sh_hash s) = Some s" "prev_block (sh_header s) = sh_hash (last hs)"
    and "sh_height s = sh_height (last hs) + 1"
  shows "is_path g (hs @ [s])"
  using assms is_path_height [OF assms(1)]
  by (auto simp: is_path_def nth_append last_conv_nth less_Suc_eq)

lemma insert_canonical_path:
  assumes "is_path g (hs @ gs)"
  shows "insert_canonical gs (index_of hs) = index_of (hs @ gs)"
  using assms
proof (induction gs arbitrary: hs)
  case (Cons s gs)
  have "sh_height s = length hs"
    using Cons.prems unfolding is_path_def
    by (metis length_append length_Cons less_add_Suc1 add_Suc_right nth_append_length)
  then have "(index_of hs)(sh_height s \<mapsto> sh_hash s) = index_of (hs @ [s])"
    by (auto simp: index_of_def fun_eq_iff nth_append)
  with Cons.IH [of "hs @ [s]"] Cons.prems show ?case by simp
qed simp

lemma index_of_Nil: "index_of [] = Map.empty"
  by (simp add: index_of_def fun_eq_iff)


lemma previous_valid:
  assumes "headers_valid D pol g" "g (sh_hash s) = Some s" "0 < sh_height s"
  obtains p where "previous_with_pending g Map.empty s = Inr p" "g (sh_hash p) = Some p"
    "prev_block (sh_header s) = sh_hash p" "sh_height s = sh_height p + 1"
proof -
  from assms obtain p where p: "g (prev_block (sh_header s)) = Some p" "header_follows D pol g p s"
    and "sh_height s < 2 ^ 32"
    by (fastforce simp: headers_valid_def header_valid_def)
  moreover have "sh_hash p = prev_block (sh_header s)"
    using assms(1) p(1) by (auto simp: headers_valid_def header_valid_def)
  ultimately show thesis
    by (intro that [of p])
      (auto simp: previous_with_pending_def lookup_with_pending_def header_follows_def checked_add_u32_def)
qed

lemma chain_to_loop_path:
  assumes "headers_valid D pol g" "g (sh_hash s) = Some s"
  shows "\<exists>hs. is_path g hs \<and> last hs = s \<and>
    chain_to_loop g s (rev gs @ [s]) = Inr (rev (hs @ gs))"
  using assms(2)
proof (induction "sh_height s" arbitrary: s gs)
  case 0
  then show ?case
    by (intro exI [of _ "[s]"]) (simp add: is_path_def chain_to_loop.simps [of _ s])
next
  case (Suc n)
  then obtain p where p: "previous_with_pending g Map.empty s = Inr p" "g (sh_hash p) = Some p"
    "prev_block (sh_header s) = sh_hash p" "sh_height s = sh_height p + 1"
    using previous_valid [OF assms(1) Suc.prems] by auto
  then obtain hs where hs: "is_path g hs" "last hs = p"
    "chain_to_loop g p (rev (s # gs) @ [p]) = Inr (rev (hs @ s # gs))"
    using Suc.hyps(1) [of p "s # gs"] Suc.hyps(2) by auto
  then have "is_path g (hs @ [s])" using p Suc.prems by (intro is_path_append) auto
  with hs p Suc.hyps(2) show ?case
    by (intro exI [of _ "hs @ [s]"]) (simp add: chain_to_loop.simps [of _ s])
qed

lemma canonical_chain_to_path:
  assumes "headers_valid D pol g" "g h = Some s"
  shows "\<exists>hs. canonical_chain_to g h = Inr hs \<and> is_path g hs \<and> last hs = s"
proof -
  have "g (sh_hash s) = Some s" using assms by (auto simp: headers_valid_def header_valid_def)
  from chain_to_loop_path [OF assms(1) this, of "[]"] assms(2) show ?thesis
    by (auto simp: canonical_chain_to_def)
qed

subsection \<open>Accepted headers are valid\<close>

lemma validate_difficulty_Inr:
  "validate_difficulty_bits_with_pending pol g pend header p = Inr () \<longleftrightarrow>
     (pol = MainnetPolicy \<longrightarrow>
        expected_mainnet_bits_with_pending (g ++ pend) Map.empty p = Inr (bits header))"
  by (auto simp: validate_difficulty_bits_with_pending_def and_then_Inr expected_bits_pending [of g pend]
      split: difficulty_policy.splits)

lemma validate_checkpoint_Inr:
  "validate_checkpoint pol height h = Inr () \<longleftrightarrow>
     (pol = MainnetPolicy \<longrightarrow> (\<forall>cp. mainnet_checkpoint_hash height = Some cp \<longrightarrow> h = cp))"
  by (auto simp: validate_checkpoint_def split: option.splits)

lemma pow_fault_Inr [simp]: "pow_fault r = Inr x \<longleftrightarrow> r = Inr x"
  by (simp add: pow_fault_def)

lemma checked_add_u32_Some [simp]: "checked_add_u32 a b = Some c \<longleftrightarrow> c = a + b \<and> a + b < 2 ^ 32"
  by (auto simp: checked_add_u32_def)

lemma check_header_valid:
  assumes "check_header D pol g header = Inr s"
  shows "header_valid D pol g (sh_hash s) s \<and> sh_header s = header \<and> sh_hash s = header_hash D header"
proof -
  obtain p w where "g (prev_block header) = Some p" "sh_height p + 1 < 2 ^ 32"
    "validate_difficulty_bits_with_pending pol g Map.empty header p = Inr ()"
    "verify_pow (header_hash D header) (bits header) = Inr True"
    "validate_checkpoint pol (sh_height p + 1) (header_hash D header) = Inr ()"
    "chainwork_from_bits (bits header) = Inr w"
    "s = \<lparr>sh_hash = header_hash D header, sh_header = header, sh_height = sh_height p + 1,
          sh_chainwork = sh_chainwork p + w\<rparr>"
    using assms
    by (auto simp: check_header_def and_then_Inr validate_difficulty_bits_def Let_def
        chainwork_checked_add_def split: if_splits)
  then show ?thesis
    by (auto simp: header_valid_def header_follows_def validate_difficulty_Inr validate_checkpoint_Inr)
qed

subsection \<open>The batch loop\<close>

definition batch_ok ::
  "digest_fns \<Rightarrow> difficulty_policy \<Rightarrow> (hash \<rightharpoonup> stored_header) \<Rightarrow> batch \<Rightarrow> bool" where
  "batch_ok D pol g b \<longleftrightarrow>
     headers_valid D pol (insert_stored (accepted b) g) \<and>
     g ++ pending b = insert_stored (accepted b) g \<and>
     distinct (map sh_hash (accepted b)) \<and> sh_hash ` set (accepted b) \<subseteq> seen b \<and>
     (\<forall>s \<in> set (accepted b). g (sh_hash s) = None \<and> 0 < sh_height s) \<and>
     (accepted b \<noteq> [] \<longrightarrow> g \<noteq> Map.empty) \<and>
     (\<forall>bits w. chainwork_by_bits b bits = Some w \<longrightarrow> chainwork_from_bits bits = Inr w)"

lemma insert_stored_append: "insert_stored (xs @ ys) m = insert_stored ys (insert_stored xs m)"
  by (induction xs arbitrary: m) auto

lemma batch_work_ok:
  assumes "batch_work header b = Inr (w, b')"
    and "\<forall>bits w. chainwork_by_bits b bits = Some w \<longrightarrow> chainwork_from_bits bits = Inr w"
  shows "chainwork_from_bits (bits header) = Inr w \<and>
    (\<forall>bits w. chainwork_by_bits b' bits = Some w \<longrightarrow> chainwork_from_bits bits = Inr w) \<and>
    accepted b' = accepted b \<and> pending b' = pending b \<and> seen b' = seen b"
  using assms by (auto simp: batch_work_def and_then_Inr Let_def split: option.splits if_splits)

lemma batch_step_ok:
  assumes ok: "batch_ok D pol g b" and step: "batch_step D pol g header b = Inr b'"
  shows "batch_ok D pol g b'"
proof -
  define h where "h = header_hash D header"
  define b1 where "b1 = b\<lparr>seen := insert h (seen b)\<rparr>"
  have pb: "pending b1 = pending b" by (simp add: b1_def)
  consider "b' = b" | "b' = b1"
    | (new) p w b2 where "h \<notin> seen b" "g h = None"
        "lookup_with_pending g (pending b) (prev_block header) = Some p"
        "validate_difficulty_bits_with_pending pol g (pending b) header p = Inr ()"
        "verify_pow h (bits header) = Inr True" "sh_height p + 1 < 2 ^ 32"
        "validate_checkpoint pol (sh_height p + 1) h = Inr ()" "batch_work header b1 = Inr (w, b2)"
        "b' = b2\<lparr>pending := (pending b2)(h \<mapsto> \<lparr>sh_hash = h, sh_header = header, sh_height = sh_height p + 1,
               sh_chainwork = sh_chainwork p + w\<rparr>),
             accepted := accepted b2 @ [\<lparr>sh_hash = h, sh_header = header, sh_height = sh_height p + 1,
               sh_chainwork = sh_chainwork p + w\<rparr>]\<rparr>"
    using step
    by (auto simp: batch_step_def and_then_Inr Let_def chainwork_checked_add_def pb
        simp flip: h_def b1_def split: if_splits)
  then show ?thesis
  proof cases
    case 2
    with ok show ?thesis by (auto simp: batch_ok_def b1_def)
  next
    case new
    define s where "s = \<lparr>sh_hash = h, sh_header = header, sh_height = sh_height p + 1,
               sh_chainwork = sh_chainwork p + w\<rparr>"
    have memo: "\<forall>bits w. chainwork_by_bits b1 bits = Some w \<longrightarrow> chainwork_from_bits bits = Inr w"
      using ok by (simp add: batch_ok_def b1_def)
    have w: "chainwork_from_bits (bits header) = Inr w"
      and b2: "\<forall>bits w. chainwork_by_bits b2 bits = Some w \<longrightarrow> chainwork_from_bits bits = Inr w"
        "accepted b2 = accepted b" "pending b2 = pending b" "seen b2 = insert h (seen b)"
      using batch_work_ok [OF new(8) memo] by (simp_all add: b1_def)
    have g: "g ++ pending b = insert_stored (accepted b) g" using ok by (simp add: batch_ok_def)
    have fresh: "h \<notin> sh_hash ` set (accepted b)" using new(1) ok by (auto simp: batch_ok_def)
    have "header_valid D pol (insert_stored (accepted b) g) h s"
      using new(3-7) w
      by (auto simp: header_valid_def header_follows_def validate_difficulty_Inr validate_checkpoint_Inr
          lookup_with_pending_add g s_def h_def)
    then have "headers_valid D pol ((insert_stored (accepted b) g)(sh_hash s \<mapsto> s))"
      using ok new(2) insert_stored_other [OF fresh, of g]
      by (intro headers_valid_insert) (simp_all add: batch_ok_def s_def)
    moreover have "g \<noteq> Map.empty"
      using ok new(3) g by (cases "accepted b = []") (auto simp: batch_ok_def lookup_with_pending_add)
    ultimately show ?thesis
      using ok new(2) b2(1) g fresh unfolding batch_ok_def
      by (simp add: new(9) insert_stored_append b2(2-4) flip: s_def) (auto simp: s_def)
  qed (use ok in simp)
qed

lemma batch_loop_ok:
  "\<lbrakk>batch_loop D pol g hs b = Inr b'; batch_ok D pol g b\<rbrakk> \<Longrightarrow> batch_ok D pol g b'"
  by (induction hs arbitrary: b) (auto simp: and_then_Inr dest: batch_step_ok)


subsection \<open>Chain selection over the observers\<close>

lemma chain_ok_promoted:
  "\<lbrakk>headers_valid D pol g; is_path g hs; heaviest g (last hs)\<rbrakk> \<Longrightarrow>
     chain_ok D pol g (Some (sh_hash (last hs))) (index_of hs)"
  by (auto simp: chain_ok_def)

lemma chain_ok_best:
  assumes "chain_ok D pol g tip canon" "g h = Some s"
  obtains hs where "tip = Some (sh_hash (last hs))" "is_path g hs" "heaviest g (last hs)"
    "canon = index_of hs"
  using assms by (auto simp: chain_ok_def split: option.splits)

lemma heaviest_extend:
  assumes "heaviest g t" "g \<subseteq>\<^sub>m g'"
    and "\<And>h s. g' h = Some s \<Longrightarrow> g h = None \<Longrightarrow> sh_chainwork s \<le> sh_chainwork t"
  shows "heaviest g' t"
proof -
  have "sh_chainwork s \<le> sh_chainwork t" if "g' h = Some s" for h s
  proof (cases "g h")
    case (Some u)
    with map_le_Some [OF assms(2) Some] that assms(1) show ?thesis by (auto simp: heaviest_def)
  qed (use assms(3) that in blast)
  with assms(1,2) show ?thesis by (auto simp: heaviest_def dest: map_le_Some)
qed

lemma heaviest_new:
  assumes "heaviest g t" "g' (sh_hash s) = Some s" "sh_chainwork t < sh_chainwork s"
    and "\<And>h u. g' h = Some u \<Longrightarrow> g h = Some u \<or> sh_chainwork u \<le> sh_chainwork s"
  shows "heaviest g' s"
proof -
  have "sh_chainwork u \<le> sh_chainwork s" if "g' h = Some u" for h u
    using assms(4) [OF that] assms(1,3) unfolding heaviest_def by fastforce
  with assms(2) show ?thesis by (auto simp: heaviest_def)
qed

lemma check_header_parent:
  "check_header D pol g header = Inr s \<Longrightarrow>
     \<exists>p. g (prev_block (sh_header s)) = Some p \<and> sh_height s = sh_height p + 1"
  by (auto simp: check_header_def and_then_Inr Let_def split: if_splits)

lemma chain_bind_pure [simp]:
  "chain_bind (chain_pure (Inr x)) f c = f x c" "chain_bind (chain_pure (Inl e)) f c = (Inl e, c)"
  by (simp_all add: chain_bind_def chain_pure_def)

lemma max_by_work_max:
  "max_by_work m xs = (i, s) \<Longrightarrow>
     (i, s) \<in> set (m # xs) \<and> (\<forall>x \<in> set (m # xs). sh_chainwork (snd x) \<le> sh_chainwork s)"
proof (induction m xs rule: max_by_work.induct)
  case (2 m x xs)
  then show ?case by (cases "sh_chainwork (snd m) > sh_chainwork (snd x)") auto
qed auto

lemma best_candidate_None: "best_candidate hs = None \<longleftrightarrow> hs = []"
  by (cases hs) (auto simp: best_candidate_def)

lemma best_candidate_max:
  assumes "best_candidate hs = Some (i, s)"
  shows "i < length hs \<and> s = hs ! i \<and> (\<forall>t \<in> set hs. sh_chainwork t \<le> sh_chainwork s)"
proof -
  obtain x xs where e: "List.enumerate 0 hs = x # xs" and "max_by_work x xs = (i, s)"
    using assms by (auto simp: best_candidate_def split: list.splits)
  then have "(i, s) \<in> set (List.enumerate 0 hs)"
    and mx: "\<forall>y \<in> set (List.enumerate 0 hs). sh_chainwork (snd y) \<le> sh_chainwork s"
    using max_by_work_max by metis+
  moreover have "t \<in> snd ` set (List.enumerate 0 hs)" if "t \<in> set hs" for t
    using that by (metis list.set_map map_snd_enumerate)
  ultimately show ?thesis by (auto simp: in_set_enumerate_eq)
qed

lemma windows_linked_nth:
  "\<lbrakk>windows_linked hs; Suc i < length hs\<rbrakk> \<Longrightarrow> prev_block (sh_header (hs ! Suc i)) = sh_hash (hs ! i)"
proof (induction hs arbitrary: i rule: windows_linked.induct)
  case (1 a b hs)
  then show ?case by (cases i) auto
qed auto

lemma is_path_linked:
  assumes "is_path g hs" "headers_valid D pol g" "windows_linked gs"
    and "\<forall>s \<in> set gs. g (sh_hash s) = Some s \<and> 0 < sh_height s"
    and "gs \<noteq> [] \<Longrightarrow> prev_block (sh_header (hd gs)) = sh_hash (last hs)"
  shows "is_path g (hs @ gs)"
  using assms
proof (induction gs arbitrary: hs)
  case (Cons s gs)
  have s: "g (sh_hash s) = Some s" "0 < sh_height s" "prev_block (sh_header s) = sh_hash (last hs)"
    using Cons.prems by auto
  have "g (sh_hash (last hs)) = Some (last hs)"
    using Cons.prems(1) by (auto simp: is_path_def last_conv_nth)
  with s previous_valid [OF Cons.prems(2) s(1,2)] have "sh_height s = sh_height (last hs) + 1"
    by (metis option.inject)
  with s Cons.prems(1) have "is_path g (hs @ [s])" by (intro is_path_append) auto
  moreover have "windows_linked gs" using Cons.prems(3) by (cases gs) auto
  moreover have "gs \<noteq> [] \<Longrightarrow> prev_block (sh_header (hd gs)) = sh_hash (last (hs @ [s]))"
    using windows_linked_nth [OF Cons.prems(3), of 0] by (cases gs) auto
  ultimately have "is_path g ((hs @ [s]) @ gs)"
    using Cons.prems(2,4) by (intro Cons.IH) auto
  then show ?case by simp
qed simp

subsection \<open>The operations on any store that keeps the contract\<close>

context header_store
begin

abbreviation stored_at :: "'s header_chain \<Rightarrow> hash \<rightharpoonup> stored_header" where
  "stored_at c \<equiv> get_header ops (chain_store c)"

abbreviation tip_of :: "'s header_chain \<Rightarrow> hash option" where
  "tip_of c \<equiv> best_hash ops (chain_store c)"

abbreviation index_at :: "'s header_chain \<Rightarrow> nat \<rightharpoonup> hash" where
  "index_at c \<equiv> canonical_hash ops (chain_store c)"

lemma promote_best_hash_ok:
  assumes valid: "headers_valid D (chain_policy c) (stored_at c)" and h: "stored_at c h = Some s"
  shows "\<exists>c' hs. promote_best_hash ops h c = (Inr (), c') \<and> chain_policy c' = chain_policy c \<and>
    stored_at c' = stored_at c \<and> tip_of c' = Some h \<and>
    is_path (stored_at c) hs \<and> last hs = s \<and> index_at c' = index_of hs"
proof -
  obtain hs where hs: "canonical_chain_to (stored_at c) h = Inr hs" "is_path (stored_at c) hs" "last hs = s"
    using canonical_chain_to_path [OF valid h] by blast
  have "hs \<noteq> []" "\<forall>x \<in> set hs. stored_at c (sh_hash x) \<noteq> None"
    using hs(2) by (auto simp: is_path_def in_set_conv_nth)
  from replace_chain [OF this] obtain s' where
    "replace_canonical_chain ops hs (chain_store c) = (Inr (), s')"
    "get_header ops s' = stored_at c" "best_hash ops s' = Some (sh_hash (last hs))"
    "canonical_hash ops s' = insert_canonical hs Map.empty" by blast
  moreover have "insert_canonical hs Map.empty = index_of hs"
    using insert_canonical_path [of "stored_at c" "[]" hs] hs(2) by (simp add: index_of_Nil)
  moreover have "sh_hash s = h" using valid h by (auto simp: headers_valid_def header_valid_def)
  ultimately show ?thesis using hs
    by (intro exI [of _ "c\<lparr>chain_store := s'\<rparr>"] exI [of _ hs]) (simp add: promote_best_hash_def on_store_def)
qed

lemma best_header_ok:
  assumes "chain_inv D ops c" "stored_at c h = Some s"
  obtains t hs where "best_header ops c = Inr (Some t)" "tip_of c = Some (sh_hash t)" "last hs = t"
    "is_path (stored_at c) hs" "heaviest (stored_at c) t" "index_at c = index_of hs"
proof -
  from chain_ok_best [OF assms(1) [unfolded chain_inv_def] assms(2)] obtain hs where
    hs: "tip_of c = Some (sh_hash (last hs))" "is_path (stored_at c) hs"
      "heaviest (stored_at c) (last hs)" "index_at c = index_of hs" .
  then show thesis
    by (intro that [of "last hs" hs]) (auto simp: best_header_def heaviest_def)
qed

text \<open>The last phase of an insertion: promotion by extension, by a new path, or none.\<close>

lemma finish_extend:
  assumes "headers_valid D (chain_policy c) (stored_at c)" "is_path (stored_at c) (hs @ gs)" "gs \<noteq> []"
    and "heaviest (stored_at c) (last gs)" "index_at c = index_of hs"
  shows "\<exists>c'. on_store (promote_canonical_tips ops gs) c = (Inr (), c') \<and> chain_inv D ops c' \<and>
    stored_at c' = stored_at c \<and> tip_of c' = Some (sh_hash (last gs)) \<and> chain_policy c' = chain_policy c"
proof -
  have "\<forall>x \<in> set gs. stored_at c (sh_hash x) \<noteq> None"
    using is_path_stored [OF assms(2)] by auto
  from promote_tips [OF assms(3) this] obtain s' where s':
    "promote_canonical_tips ops gs (chain_store c) = (Inr (), s')"
    "get_header ops s' = stored_at c" "best_hash ops s' = Some (sh_hash (last gs))"
    "canonical_hash ops s' = insert_canonical gs (index_at c)" by blast
  have "canonical_hash ops s' = index_of (hs @ gs)"
    using s'(4) assms(2,5) insert_canonical_path by simp
  with s' assms chain_ok_promoted [OF assms(1,2)] show ?thesis
    by (intro exI [of _ "c\<lparr>chain_store := s'\<rparr>"]) (simp add: on_store_def chain_inv_def)
qed

lemma finish_tip:
  assumes "headers_valid D (chain_policy c) (stored_at c)" "is_path (stored_at c) (hs @ [s])"
    and "heaviest (stored_at c) s" "index_at c = index_of hs"
  shows "\<exists>c'. on_store (promote_canonical_tip ops s) c = (Inr (), c') \<and> chain_inv D ops c' \<and>
    stored_at c' = stored_at c \<and> tip_of c' = Some (sh_hash s) \<and> chain_policy c' = chain_policy c"
proof -
  have "stored_at c (sh_hash s) \<noteq> None" using assms(3) by (auto simp: heaviest_def)
  from promote_tip [OF this] obtain s' where s':
    "promote_canonical_tip ops s (chain_store c) = (Inr (), s')"
    "get_header ops s' = stored_at c" "best_hash ops s' = Some (sh_hash s)"
    "canonical_hash ops s' = insert_canonical [s] (index_at c)" by auto
  have "canonical_hash ops s' = index_of (hs @ [s])"
    using s'(4) assms(2,4) insert_canonical_path [of _ hs "[s]"] by simp
  with s' assms chain_ok_promoted [OF assms(1,2)] show ?thesis
    by (intro exI [of _ "c\<lparr>chain_store := s'\<rparr>"]) (simp add: on_store_def chain_inv_def)
qed

lemma finish_replace:
  assumes "headers_valid D (chain_policy c) (stored_at c)" "heaviest (stored_at c) s"
  shows "\<exists>c'. promote_best_hash ops (sh_hash s) c = (Inr (), c') \<and> chain_inv D ops c' \<and>
    stored_at c' = stored_at c \<and> tip_of c' = Some (sh_hash s) \<and> chain_policy c' = chain_policy c"
proof -
  have "stored_at c (sh_hash s) = Some s" using assms(2) by (simp add: heaviest_def)
  from promote_best_hash_ok [OF assms(1) this] obtain c' hs where
    "promote_best_hash ops (sh_hash s) c = (Inr (), c')" "chain_policy c' = chain_policy c"
    "stored_at c' = stored_at c" "tip_of c' = Some (sh_hash s)" "is_path (stored_at c) hs"
    "last hs = s" "index_at c' = index_of hs" by blast
  with assms chain_ok_promoted [of D "chain_policy c" "stored_at c" hs] show ?thesis
    by (intro exI [of _ c']) (simp add: chain_inv_def)
qed

text \<open>
  The choice both insertions end with: \<open>s\<close> is the heaviest new header, \<open>t\<close> the current tip, and
  \<open>call\<close> the promotion used when the new headers extend the canonical chain.
\<close>

lemma finish_selection:
  assumes valid: "headers_valid D (chain_policy c) (stored_at c)"
    and t: "is_path (stored_at c) hs" "last hs = t" "heaviest g t" "index_at c = index_of hs"
      "tip_of c = Some (sh_hash t)"
    and le: "g \<subseteq>\<^sub>m stored_at c" and s: "stored_at c (sh_hash s) = Some s"
    and new: "\<And>h x. stored_at c h = Some x \<Longrightarrow> g h = Some x \<or> sh_chainwork x \<le> sh_chainwork s"
    and call: "\<lbrakk>ext; heaviest (stored_at c) s\<rbrakk> \<Longrightarrow>
      \<exists>c'. call c = (Inr (), c') \<and> chain_inv D ops c' \<and> stored_at c' = stored_at c \<and>
        tip_of c' = Some (sh_hash s) \<and> chain_policy c' = chain_policy c"
  shows "\<exists>c'. (if sh_chainwork t < sh_chainwork s then
        (if ext then call else promote_best_hash ops (sh_hash s)) else chain_pure (Inr ())) c = (Inr (), c') \<and>
    chain_inv D ops c' \<and> stored_at c' = stored_at c \<and> chain_policy c' = chain_policy c \<and>
    tip_of c' = Some (if sh_chainwork t < sh_chainwork s then sh_hash s else sh_hash t)"
proof (cases "sh_chainwork t < sh_chainwork s")
  case True
  have top: "heaviest (stored_at c) s" by (rule heaviest_new [OF t(3) _ True]) (use s new in auto)
  with call finish_replace [OF valid top] True show ?thesis by (cases ext) auto
next
  case False
  then have "heaviest (stored_at c) t" by (intro heaviest_extend [OF t(3) le]) (use new in fastforce)
  then have "chain_inv D ops c"
    using chain_ok_promoted [OF valid, of hs] t by (simp add: chain_inv_def)
  with False t(5) show ?thesis by (auto simp: chain_pure_def)
qed

text \<open>What a single insertion does on a chain that satisfies the invariant.\<close>

lemma insert_header_spec:
  assumes inv: "chain_inv D ops c"
    and ok: "check_header D (chain_policy c) (stored_at c) header = Inr s"
    and fresh: "stored_at c (sh_hash s) = None"
  shows "\<exists>c' t. insert_header D ops header c = (Inr s, c') \<and> chain_inv D ops c' \<and>
    chain_policy c' = chain_policy c \<and> stored_at c' = (stored_at c)(sh_hash s \<mapsto> s) \<and>
    best_header ops c = Inr (Some t) \<and>
    tip_of c' = Some (if sh_chainwork t < sh_chainwork s then sh_hash s else sh_hash t)"
proof -
  define g g' where "g = stored_at c" and "g' = g(sh_hash s \<mapsto> s)"
  obtain s1 where s1: "put_header ops s (chain_store c) = (Inr (), s1)" "get_header ops s1 = g'"
    "best_hash ops s1 = tip_of c" "canonical_hash ops s1 = index_at c"
    using put_new [OF fresh] by (auto simp: g_def g'_def)
  define c1 where "c1 = c\<lparr>chain_store := s1\<rparr>"
  have c1: "stored_at c1 = g'" "tip_of c1 = tip_of c" "index_at c1 = index_at c"
    "chain_policy c1 = chain_policy c" using s1 by (simp_all add: c1_def)
  obtain p where p: "g (prev_block (sh_header s)) = Some p" "sh_height s = sh_height p + 1"
    using check_header_parent [OF ok] by (auto simp: g_def)
  obtain t hs where t: "best_header ops c = Inr (Some t)" "tip_of c = Some (sh_hash t)" "last hs = t"
    "is_path g hs" "heaviest g t" "index_at c = index_of hs"
    using best_header_ok [OF inv p(1) [unfolded g_def]] by (auto simp: g_def)
  have le: "g \<subseteq>\<^sub>m g'" using fresh by (auto simp: g'_def g_def map_le_def)
  have valid: "headers_valid D (chain_policy c1) (stored_at c1)"
  proof -
    have "headers_valid D (chain_policy c) g" "header_valid D (chain_policy c) g (sh_hash s) s"
      using inv check_header_valid [OF ok] unfolding chain_inv_def chain_ok_def g_def by blast+
    from headers_valid_insert [OF this(1) _ this(2)] fresh c1 show ?thesis
      by (simp only: g'_def) (simp only: g_def)
  qed
  have path': "is_path g' hs" using is_path_mono [OF t(4) le] .
  have bh: "best_header ops c1 = Inr (Some t)"
    using map_le_Some [OF le] t(2,5) c1(1,2) by (auto simp: best_header_def heaviest_def)
  define fin where "fin = (if sh_chainwork t < sh_chainwork s then
       (if prev_block (sh_header s) = sh_hash t then on_store (promote_canonical_tip ops s)
        else promote_best_hash ops (sh_hash s))
     else chain_pure (Inr ()))"
  have ins: "insert_header D ops header c = chain_bind fin (\<lambda>_. chain_pure (Inr s)) c1"
    using ok s1(1) bh
    by (simp add: insert_header_def chain_bind_def [of "on_store _"] chain_bind_def [of "\<lambda>c. (_ c, c)"]
        on_store_def fin_def flip: c1_def)
  have call: "\<exists>c'. on_store (promote_canonical_tip ops s) c1 = (Inr (), c') \<and> chain_inv D ops c' \<and>
      stored_at c' = stored_at c1 \<and> tip_of c' = Some (sh_hash s) \<and> chain_policy c' = chain_policy c1"
    if ext: "prev_block (sh_header s) = sh_hash t" and top: "heaviest (stored_at c1) s"
  proof -
    have "p = t" using p(1) t(5) ext by (simp add: heaviest_def)
    then have "is_path (stored_at c1) (hs @ [s])"
      using path' ext p(2) t(3) c1(1) by (intro is_path_append) (auto simp: g'_def)
    from finish_tip [OF valid this top] t(6) c1 show ?thesis by simp
  qed
  have "\<exists>c'. fin c1 = (Inr (), c') \<and> chain_inv D ops c' \<and> stored_at c' = stored_at c1 \<and>
      chain_policy c' = chain_policy c1 \<and>
      tip_of c' = Some (if sh_chainwork t < sh_chainwork s then sh_hash s else sh_hash t)"
    unfolding fin_def
    by (rule finish_selection [where g = g and hs = hs, OF valid]; (rule call)?)
      (use path' t c1 le in \<open>auto simp: g'_def split: if_splits\<close>)
  with ins t(1) c1 show ?thesis by (auto simp: chain_bind_def chain_pure_def g_def g'_def)
qed

lemma insert_header_failed:
  assumes "\<nexists>s. check_header D (chain_policy c) (stored_at c) header = Inr s \<and>
      stored_at c (sh_hash s) = None"
  shows "\<exists>e. insert_header D ops header c = (Inl e, c)"
proof (cases "check_header D (chain_policy c) (stored_at c) header")
  case (Inl e)
  then show ?thesis by (simp add: insert_header_def)
next
  case (Inr s)
  with assms put_duplicate [of "chain_store c" s] have "put_header ops s (chain_store c) = (Inl DuplicateHeader, chain_store c)"
    by auto
  with Inr show ?thesis by (simp add: insert_header_def chain_bind_def [of "on_store _"] on_store_def)
qed

lemma batch_accepted_ok:
  assumes inv: "chain_inv D ops c"
    and loop: "batch_loop D (chain_policy c) (stored_at c) news batch_empty = Inr b"
  shows "batch_ok D (chain_policy c) (stored_at c) b"
  using inv by (intro batch_loop_ok [OF loop])
    (simp add: batch_ok_def batch_empty_def chain_inv_def chain_ok_def)

text \<open>What a batch insertion does when its loop accepts at least one header.\<close>

lemma insert_headers_spec:
  assumes inv: "chain_inv D ops c"
    and loop: "batch_loop D (chain_policy c) (stored_at c) news batch_empty = Inr b"
    and some: "accepted b \<noteq> []" and cand: "best_candidate (accepted b) = Some (i, s)"
  shows "\<exists>c' t. insert_headers D ops news c = (Inr (accepted b), c') \<and> chain_inv D ops c' \<and>
    chain_policy c' = chain_policy c \<and> stored_at c' = insert_stored (accepted b) (stored_at c) \<and>
    best_header ops c = Inr (Some t) \<and>
    tip_of c' = Some (if sh_chainwork t < sh_chainwork s then sh_hash s else sh_hash t)"
proof -
  define g acc where "g = stored_at c" and "acc = accepted b"
  define g' where "g' = insert_stored acc g"
  have ok: "headers_valid D (chain_policy c) g'" "distinct (map sh_hash acc)"
    "\<forall>x \<in> set acc. g (sh_hash x) = None" "\<forall>x \<in> set acc. 0 < sh_height x" "g \<noteq> Map.empty"
    using batch_accepted_ok [OF inv loop] some by (simp_all add: batch_ok_def g_def g'_def acc_def)
  obtain s1 where s1: "put_headers ops acc (chain_store c) = (Inr (), s1)" "get_header ops s1 = g'"
    "best_hash ops s1 = tip_of c" "canonical_hash ops s1 = index_at c"
    using put_all_new [OF ok(2)] ok(3) by (auto simp: g_def g'_def)
  define c1 where "c1 = c\<lparr>chain_store := s1\<rparr>"
  have c1: "stored_at c1 = g'" "tip_of c1 = tip_of c" "index_at c1 = index_at c"
    "chain_policy c1 = chain_policy c" using s1 by (simp_all add: c1_def)
  obtain h x where "stored_at c h = Some x" using ok(5) by (auto simp: g_def fun_eq_iff)
  then obtain t hs where t: "best_header ops c = Inr (Some t)" "tip_of c = Some (sh_hash t)" "last hs = t"
    "is_path g hs" "heaviest g t" "index_at c = index_of hs"
    using best_header_ok [OF inv] by (metis g_def)
  have le: "g \<subseteq>\<^sub>m g'" unfolding g'_def by (rule insert_stored_extends [OF ok(3)])
  have valid: "headers_valid D (chain_policy c1) (stored_at c1)" using ok(1) c1 by simp
  have path': "is_path g' hs" using is_path_mono [OF t(4) le] .
  have i: "i < length acc" "s = acc ! i" "\<forall>x \<in> set acc. sh_chainwork x \<le> sh_chainwork s"
    using best_candidate_max [OF cand] unfolding acc_def by blast+
  have in_g': "g' (sh_hash x) = Some x" if "x \<in> set acc" for x
    using insert_stored_member [OF ok(2) that] by (simp add: g'_def)
  have from_acc: "g h = Some x \<or> x \<in> set acc" if "g' h = Some x" for h x
    using insert_stored_lookup [OF ok(2) that [unfolded g'_def]] by blast
  define ext where "ext \<longleftrightarrow> prev_block (sh_header (hd acc)) = sh_hash t \<and> windows_linked (take (i + 1) acc)"
  define fin where "fin = (if sh_chainwork t < sh_chainwork s then
       (if ext then on_store (promote_canonical_tips ops (take (i + 1) acc))
        else promote_best_hash ops (sh_hash s))
     else chain_pure (Inr ()))"
  have ins: "insert_headers D ops news c = chain_bind fin (\<lambda>_. chain_pure (Inr acc)) c1"
    using loop some cand s1(1) t(1)
    by (simp add: insert_headers_def chain_bind_def [of "on_store _"] chain_bind_def [of "\<lambda>c. (_ c, c)"]
        on_store_def fin_def ext_def Let_def flip: c1_def acc_def)
  have call: "\<exists>c'. on_store (promote_canonical_tips ops (take (i + 1) acc)) c1 = (Inr (), c') \<and>
      chain_inv D ops c' \<and> stored_at c' = stored_at c1 \<and> tip_of c' = Some (sh_hash s) \<and>
      chain_policy c' = chain_policy c1"
    if ext: ext and top: "heaviest (stored_at c1) s"
  proof -
    define gs where "gs = take (i + 1) acc"
    have gs: "gs \<noteq> []" "last gs = s" "hd gs = hd acc" "set gs \<subseteq> set acc"
      using i some by (auto simp: gs_def acc_def last_conv_nth hd_take dest: in_set_takeD)
    have "is_path (stored_at c1) (hs @ gs)"
      using path' valid ext gs t(3) in_g' ok(4) unfolding c1(1) ext_def gs_def [symmetric]
      by (intro is_path_linked) auto
    from finish_extend [OF valid this gs(1)] top t(6) c1 gs(2) show ?thesis by (simp add: gs_def)
  qed
  have "\<exists>c'. fin c1 = (Inr (), c') \<and> chain_inv D ops c' \<and> stored_at c' = stored_at c1 \<and>
      chain_policy c' = chain_policy c1 \<and>
      tip_of c' = Some (if sh_chainwork t < sh_chainwork s then sh_hash s else sh_hash t)"
    unfolding fin_def
    by (rule finish_selection [where g = g and hs = hs, OF valid]; (rule call)?)
      (use path' t c1 le in_g' i from_acc in auto)
  with ins t(1) c1 show ?thesis by (auto simp: chain_bind_def chain_pure_def g_def g'_def acc_def)
qed

lemma insert_headers_other:
  assumes "\<nexists>b. batch_loop D (chain_policy c) (stored_at c) news batch_empty = Inr b \<and> accepted b \<noteq> []"
  shows "\<exists>r. insert_headers D ops news c = (r, c) \<and> (\<forall>hs. r = Inr hs \<longrightarrow> hs = [])"
  using assms
  by (cases "batch_loop D (chain_policy c) (stored_at c) news batch_empty")
    (auto simp: insert_headers_def Let_def chain_pure_def)

lemma insert_genesis_spec:
  assumes inv: "chain_inv D ops c" and empty: "tip_of c = None"
  shows "\<exists>r c'. insert_genesis D ops header c = (r, c') \<and> chain_inv D ops c' \<and>
    chain_policy c' = chain_policy c \<and> (case r of Inl e \<Rightarrow> c' = c
      | Inr s \<Rightarrow> stored_at c' = [sh_hash s \<mapsto> s] \<and> tip_of c' = Some (sh_hash s))"
proof (cases "validate_genesis (chain_policy c) header = Inr () \<and> (\<exists>w. chainwork_from_bits (bits header) = Inr w)")
  case True
  then obtain w where w: "chainwork_from_bits (bits header) = Inr w" by blast
  define s where "s = \<lparr>sh_hash = header_hash D header, sh_header = header, sh_height = 0, sh_chainwork = w\<rparr>"
  have g: "stored_at c = Map.empty" using inv empty by (simp add: chain_inv_def chain_ok_def)
  obtain s1 where s1: "put_header ops s (chain_store c) = (Inr (), s1)" "get_header ops s1 = [sh_hash s \<mapsto> s]"
    using put_new [of "chain_store c" s] g by auto
  define c1 where "c1 = c\<lparr>chain_store := s1\<rparr>"
  have "header_valid D (chain_policy c) Map.empty (sh_hash s) s"
    using True w by (auto simp: header_valid_def s_def validate_genesis_def split: if_splits)
  then have valid: "headers_valid D (chain_policy c1) (stored_at c1)"
    using headers_valid_insert [of D "chain_policy c" Map.empty s] s1
    by (simp add: c1_def headers_valid_def)
  have top: "heaviest (stored_at c1) s" using s1 by (auto simp: heaviest_def c1_def split: if_splits)
  from finish_replace [OF valid top] obtain c' where
    "promote_best_hash ops (sh_hash s) c1 = (Inr (), c')" "chain_inv D ops c'"
    "stored_at c' = stored_at c1" "tip_of c' = Some (sh_hash s)" "chain_policy c' = chain_policy c1" by blast
  with True w s1 show ?thesis
    by (simp add: insert_genesis_def chain_bind_def [of "on_store _"] chain_bind_def [of "promote_best_hash _ _"]
        chain_pure_def on_store_def flip: c1_def s_def) (simp add: c1_def)
next
  case False
  then obtain e where "and_then (validate_genesis (chain_policy c) header) (\<lambda>_.
       and_then (map_err (\<lambda>e. Err (ChainPow e)) (chainwork_from_bits (bits header))) (\<lambda>work.
       Inr \<lparr>sh_hash = header_hash D header, sh_header = header, sh_height = 0, sh_chainwork = work\<rparr>)) = Inl e"
    by (cases "validate_genesis (chain_policy c) header"; cases "chainwork_from_bits (bits header)") auto
  with inv show ?thesis by (simp add: insert_genesis_def)
qed

lemma insert_header_Inr:
  assumes inv: "chain_inv D ops c" and ins: "insert_header D ops header c = (Inr s, c')"
  shows "check_header D (chain_policy c) (stored_at c) header = Inr s \<and> stored_at c (sh_hash s) = None \<and>
    chain_inv D ops c' \<and> chain_policy c' = chain_policy c \<and> stored_at c' = (stored_at c)(sh_hash s \<mapsto> s)"
proof -
  obtain x where x: "check_header D (chain_policy c) (stored_at c) header = Inr x"
    "stored_at c (sh_hash x) = None"
    using insert_header_failed [of D c header] ins by auto
  from insert_header_spec [OF inv x] ins x show ?thesis by auto
qed

lemma insert_header_inv:
  assumes "chain_inv D ops c" "insert_header D ops header c = (r, c')"
  shows "chain_inv D ops c' \<and> chain_policy c' = chain_policy c \<and> (\<forall>e. r = Inl e \<longrightarrow> c' = c)"
proof (cases "\<exists>s. check_header D (chain_policy c) (stored_at c) header = Inr s \<and> stored_at c (sh_hash s) = None")
  case True
  with insert_header_spec [OF assms(1)] assms(2) show ?thesis by fastforce
next
  case False
  with insert_header_failed [of D c header] assms show ?thesis by auto
qed

lemma insert_headers_inv:
  assumes "chain_inv D ops c" "insert_headers D ops news c = (r, c')"
  shows "chain_inv D ops c' \<and> chain_policy c' = chain_policy c \<and> (\<forall>e. r = Inl e \<longrightarrow> c' = c)"
proof (cases "\<exists>b. batch_loop D (chain_policy c) (stored_at c) news batch_empty = Inr b \<and> accepted b \<noteq> []")
  case True
  then obtain b where b: "batch_loop D (chain_policy c) (stored_at c) news batch_empty = Inr b" "accepted b \<noteq> []"
    by blast
  then obtain i s where "best_candidate (accepted b) = Some (i, s)"
    using best_candidate_None [of "accepted b"] by fastforce
  from insert_headers_spec [OF assms(1) b this] assms(2) show ?thesis by auto
next
  case False
  with insert_headers_other [of D c news] assms show ?thesis by auto
qed

lemma check_header_batch_step:
  assumes ok: "batch_ok D pol g b" and chk: "check_header D pol (g ++ pending b) header = Inr s"
    and fresh: "(g ++ pending b) (sh_hash s) = None" and seen: "seen b \<subseteq> dom (g ++ pending b)"
  shows "\<exists>b'. batch_step D pol g header b = Inr b' \<and> accepted b' = accepted b @ [s] \<and>
    pending b' = (pending b)(sh_hash s \<mapsto> s) \<and> seen b' = insert (sh_hash s) (seen b)"
proof -
  define h where "h = header_hash D header"
  obtain p w where p: "(g ++ pending b) (prev_block header) = Some p" "sh_height p + 1 < 2 ^ 32"
    "validate_difficulty_bits_with_pending pol (g ++ pending b) Map.empty header p = Inr ()"
    "verify_pow h (bits header) = Inr True"
    "validate_checkpoint pol (sh_height p + 1) h = Inr ()" "chainwork_from_bits (bits header) = Inr w"
    "s = \<lparr>sh_hash = h, sh_header = header, sh_height = sh_height p + 1, sh_chainwork = sh_chainwork p + w\<rparr>"
    using chk by (auto simp: check_header_def and_then_Inr validate_difficulty_bits_def Let_def h_def
        chainwork_checked_add_def split: if_splits)
  have new: "h \<notin> seen b" "g h = None" using fresh seen p(7) by auto
  define b1 where "b1 = b\<lparr>seen := insert h (seen b)\<rparr>"
  obtain b2 where b2: "batch_work header b1 = Inr (w, b2)" "accepted b2 = accepted b"
    "pending b2 = pending b" "seen b2 = insert h (seen b)"
    using ok p(6) by (cases "chainwork_by_bits b1 (bits header)")
      (auto simp: batch_work_def batch_ok_def b1_def Let_def)
  have "validate_difficulty_bits_with_pending pol g (pending b) header p = Inr ()"
    using p(3) by (simp add: validate_difficulty_Inr)
  then have "batch_step D pol g header b = Inr (b2\<lparr>pending := (pending b2)(h \<mapsto> s), accepted := accepted b2 @ [s]\<rparr>)"
    using new p(1,2,4,5,7) b2(1)
    by (simp add: batch_step_def lookup_with_pending_add Let_def chainwork_checked_add_def pow_fault_def
        checked_add_u32_def b1_def flip: h_def)
  with b2(2-4) p(7) show ?thesis by auto
qed

lemma insert_each_batch:
  assumes "insert_each D ops hs c = (Inr ss, c')" "chain_inv D ops c" "chain_policy c = pol"
    and "batch_ok D pol g b" "stored_at c = g ++ pending b" "seen b \<subseteq> dom (g ++ pending b)"
  shows "\<exists>b'. batch_loop D pol g hs b = Inr b' \<and> accepted b' = accepted b @ ss \<and>
    stored_at c' = g ++ pending b' \<and> chain_inv D ops c'"
  using assms
proof (induction hs arbitrary: c ss b)
  case (Cons h hs)
  obtain s c1 where s: "insert_header D ops h c = (Inr s, c1)"
    using Cons.prems(1) by (cases "insert_header D ops h c") (auto simp: chain_bind_def split: sum.splits)
  then obtain rs where rs: "insert_each D ops hs c1 = (Inr rs, c')" "ss = s # rs"
    using Cons.prems(1) by (auto simp: chain_bind_def chain_pure_def split: prod.splits sum.splits)
  note i = insert_header_Inr [OF Cons.prems(2) s]
  obtain b1 where b1: "batch_step D pol g h b = Inr b1" "accepted b1 = accepted b @ [s]"
    "pending b1 = (pending b)(sh_hash s \<mapsto> s)" "seen b1 = insert (sh_hash s) (seen b)"
    using check_header_batch_step [OF Cons.prems(4) _ _ Cons.prems(6)] i Cons.prems(3,5) by metis
  have g1: "stored_at c1 = g ++ pending b1" using i Cons.prems(5) b1(3) by simp
  have "\<exists>b'. batch_loop D pol g hs b1 = Inr b' \<and> accepted b' = accepted b1 @ rs \<and>
      stored_at c' = g ++ pending b' \<and> chain_inv D ops c'"
    by (rule Cons.IH [OF rs(1) _ _ _ g1])
      (use i Cons.prems(3,6) batch_step_ok [OF Cons.prems(4) b1(1)] b1(3,4) in auto)
  with b1 rs show ?case by auto
qed (auto simp: fun_eq_iff)

end

text \<open>Every operation keeps the invariant, over the in-memory store.\<close>

lemma chain_reachable_inv:
  "chain_reachable D pol c \<Longrightarrow> chain_inv D memory_store c \<and> chain_policy c = pol"
proof (induction rule: chain_reachable.induct)
  case reach_start
  show ?case
    by (simp add: chain_inv_def chain_ok_def headers_valid_def chain_with_difficulty_policy_def
        memory_store_default_def)
next
  case (reach_genesis c header r c')
  then show ?case using mem.insert_genesis_spec [of D c header] by auto
next
  case (reach_header c header r c')
  then show ?case using mem.insert_header_inv by blast
next
  case (reach_headers c hs r' c')
  then show ?case using mem.insert_headers_inv by blast
qed

lemma is_path_init:
  assumes "is_path g (hs @ [s])" "hs \<noteq> []"
  shows "is_path g hs \<and> prev_block (sh_header s) = sh_hash (last hs)"
proof -
  have all: "sh_height ((hs @ [s]) ! i) = i \<and> g (sh_hash ((hs @ [s]) ! i)) = Some ((hs @ [s]) ! i) \<and>
      (0 < i \<longrightarrow> prev_block (sh_header ((hs @ [s]) ! i)) = sh_hash ((hs @ [s]) ! (i - 1)))"
    if "i \<le> length hs" for i
    using assms(1) that by (auto simp: is_path_def)
  have "sh_height (hs ! i) = i \<and> g (sh_hash (hs ! i)) = Some (hs ! i) \<and>
      (0 < i \<longrightarrow> prev_block (sh_header (hs ! i)) = sh_hash (hs ! (i - 1)))" if "i < length hs" for i
    using all [of i] that by (simp add: nth_append less_imp_diff_less)
  with all [of "length hs"] assms(2) show ?thesis by (simp add: is_path_def nth_append last_conv_nth)
qed

lemma path_work:
  assumes "headers_valid D pol g" "is_path g hs"
  shows "\<exists>ws. list_all2 (\<lambda>x w. chainwork_from_bits (bits (sh_header x)) = Inr w) hs ws \<and>
    sh_chainwork (last hs) = sum_list ws"
  using assms(2)
proof (induction hs rule: rev_induct)
  case (snoc s hs)
  have s: "g (sh_hash s) = Some s" and valid: "header_valid D pol g (sh_hash s) s"
    using snoc.prems assms(1) is_path_stored [OF snoc.prems] by (auto simp: headers_valid_def)
  have height: "sh_height s = length hs" using is_path_height [OF snoc.prems] by simp
  show ?case
  proof (cases "hs = []")
    case True
    with valid height show ?thesis by (intro exI [of _ "[sh_chainwork s]"]) (simp add: header_valid_def)
  next
    case False
    then have path: "is_path g hs" and link: "prev_block (sh_header s) = sh_hash (last hs)"
      using is_path_init [OF snoc.prems] by blast+
    obtain w where "chainwork_from_bits (bits (sh_header s)) = Inr w"
      "sh_chainwork s = sh_chainwork (last hs) + w"
      using valid height False link is_path_stored [OF path, of "last hs"]
      by (auto simp: header_valid_def header_follows_def)
    moreover from snoc.IH [OF path] obtain ws where
      "list_all2 (\<lambda>x w. chainwork_from_bits (bits (sh_header x)) = Inr w) hs ws"
      "sh_chainwork (last hs) = sum_list ws" by blast
    ultimately show ?thesis by (intro exI [of _ "ws @ [w]"]) (auto simp: list_all2_appendI)
  qed
qed (simp add: is_path_def)

lemma mainnet_limit: "compact_to_target MAINNET_POW_BITS = Inr (0xffff * 2 ^ 200)"
  unfolding MAINNET_POW_BITS_def
  by (rule compact_to_target_packed [where e = 28 and m = 65535]) simp_all

lemma target_for_work_bound: "target_for_work w = Inr t \<Longrightarrow> t < 2 ^ 256"
proof -
  assume "target_for_work w = Inr t"
  then have "t = 2 ^ 256 div w - 1" by (auto simp: target_for_work_def Let_def split: if_splits)
  also have "\<dots> \<le> 2 ^ 256 - 1" by (rule diff_le_mono) (rule div_le_dividend)
  also have "\<dots> < (2 :: nat) ^ 256" by simp
  finally show ?thesis .
qed

subsection \<open>A concrete chain\<close>

lemma genesis_reachable:
  "\<exists>s c. insert_genesis D memory_store mainnet_genesis
       (chain_with_difficulty_policy memory_store_default pol) = (Inr s, c) \<and>
     s = \<lparr>sh_hash = header_hash D mainnet_genesis, sh_header = mainnet_genesis, sh_height = 0,
          sh_chainwork = 2 ^ 256 div (0xffff * 2 ^ 200 + 1)\<rparr> \<and>
     chain_reachable D pol c \<and> get_header memory_store (chain_store c) = [sh_hash s \<mapsto> s] \<and> chain_policy c = pol"
proof -
  define c0 where "c0 = chain_with_difficulty_policy memory_store_default pol"
  have start: "chain_reachable D pol c0" unfolding c0_def by (rule reach_start)
  have none: "best (chain_store c0) = None"
    by (simp add: c0_def chain_with_difficulty_policy_def memory_store_default_def)
  define s where "s = \<lparr>sh_hash = header_hash D mainnet_genesis, sh_header = mainnet_genesis, sh_height = 0,
          sh_chainwork = 2 ^ 256 div (0xffff * 2 ^ 200 + 1)\<rparr>"
  have work: "chainwork_from_bits (bits mainnet_genesis) = Inr (sh_chainwork s)"
    using mainnet_limit
    by (simp add: chainwork_from_bits_def mainnet_genesis_def MAINNET_POW_BITS_def work_for_target_def s_def)
  obtain r c where rc: "insert_genesis D memory_store mainnet_genesis c0 = (r, c)"
    "chain_policy c = pol" "case r of Inl e \<Rightarrow> c = c0
      | Inr s \<Rightarrow> get_header memory_store (chain_store c) = [sh_hash s \<mapsto> s] \<and> best_hash memory_store (chain_store c) = Some (sh_hash s)"
    using mem.insert_genesis_spec [of D c0 mainnet_genesis] chain_reachable_inv [OF start] none by auto
  have "validate_genesis (chain_policy c0) mainnet_genesis = Inr ()" by (simp add: validate_genesis_def)
  then have "r = Inr s"
    using rc(1,3) work none
    by (auto simp: insert_genesis_def chain_bind_def chain_pure_def on_store_def s_def memory_ops_defs
        promote_best_hash_def canonical_chain_to_def chain_to_loop.simps c0_def
        chain_with_difficulty_policy_def memory_store_default_def split: sum.splits if_splits)
  with rc reach_genesis [OF start none rc(1)] show ?thesis by (auto simp: c0_def s_def)
qed

definition sample_child :: block_header where
  "sample_child = mainnet_genesis\<lparr>time := 0,
     prev_block := header_hash sample_digests mainnet_genesis,
     tree_root := header_hash sample_digests mainnet_genesis\<rparr>"

lemma sample_genesis_hash:
  "length (header_hash sample_digests mainnet_genesis) = 32 \<and>
   header_hash sample_digests mainnet_genesis \<noteq> replicate 32 0"
proof -
  have len: "length (header_hash sample_digests mainnet_genesis) = 32"
    using length_header_hash [OF sample_digests_laws]
    by (simp add: wf_header_def mainnet_genesis_def EXTRA_NONCE_SIZE_def)
  define p where "p = to_prehead sample_digests mainnet_genesis"
  have "u64_to_le (time mainnet_genesis) = 0x76 # le_bytes 7 (1580745078 div 256)"
    using le_bytes.simps(2) [of 7 1580745078] by (simp add: u64_to_le_def mainnet_genesis_def)
  then have "p ! 4 = 0x76" by (simp add: p_def to_prehead_def nth_append)
  moreover have "32 \<le> length p" by (simp add: p_def to_prehead_def)
  moreover have "blake2b_var sample_digests = pad_digest" by (simp add: sample_digests_def)
  ultimately have "share_hash sample_digests mainnet_genesis ! 4 = 0x76"
    by (simp add: share_hash_def Let_def blake2b_256_def blake2b_512_def pad_digest_def nth_append flip: p_def)
  then have "header_hash sample_digests mainnet_genesis ! 4 = 0x76"
    using len by (simp add: header_hash_def pow_hash_def mainnet_genesis_def hash_ZERO_def)
  with len show ?thesis by auto
qed

lemma sample_child_hash: "header_hash sample_digests sample_child = replicate 32 0"
proof -
  have len: "length (header_hash sample_digests mainnet_genesis) = 32"
    using length_header_hash [OF sample_digests_laws]
    by (simp add: wf_header_def mainnet_genesis_def EXTRA_NONCE_SIZE_def)
  have pad: "padding n sample_child = replicate n 0" for n
    by (simp add: padding_def sample_child_def map_replicate_const)
  have zero: "u32_to_le (nonce sample_child) = replicate 4 0" "u64_to_le (time sample_child) = replicate 8 0"
    by (simp_all add: sample_child_def mainnet_genesis_def u32_to_le_def u64_to_le_def)
  have "take 32 (to_prehead sample_digests sample_child) = replicate 32 0"
    by (simp only: to_prehead_def pad zero append_assoc [symmetric] replicate_add [symmetric])
      simp
  moreover have "32 \<le> length (to_prehead sample_digests sample_child)" by (simp add: to_prehead_def)
  moreover have "blake2b_var sample_digests = pad_digest" by (simp add: sample_digests_def)
  ultimately have "share_hash sample_digests sample_child = replicate 32 0"
    by (simp add: share_hash_def Let_def blake2b_256_def blake2b_512_def pad_digest_def)
  then show ?thesis
    by (simp add: header_hash_def pow_hash_def sample_child_def mainnet_genesis_def hash_ZERO_def)
qed

lemma sample_chain:
  "\<exists>c s c1. chain_reachable sample_digests Permissive c \<and>
     insert_header sample_digests memory_store sample_child c = (Inr s, c1) \<and>
     chain_reachable sample_digests Permissive c1 \<and>
     chain_get_header memory_store c1 (replicate 32 0) = Some s \<and> sh_height s = 1"
proof -
  obtain g c where g: "g = \<lparr>sh_hash = header_hash sample_digests mainnet_genesis, sh_header = mainnet_genesis,
        sh_height = 0, sh_chainwork = 2 ^ 256 div (0xffff * 2 ^ 200 + 1)\<rparr>"
    and c: "chain_reachable sample_digests Permissive c"
      "get_header memory_store (chain_store c) = [sh_hash g \<mapsto> g]" "chain_policy c = Permissive"
    using genesis_reachable [of sample_digests Permissive] by blast
  have bits: "bits sample_child = MAINNET_POW_BITS"
    by (simp add: sample_child_def mainnet_genesis_def MAINNET_POW_BITS_def)
  obtain w where w: "chainwork_from_bits MAINNET_POW_BITS = Inr w"
    using mainnet_limit by (auto simp: chainwork_from_bits_def work_for_target_def)
  have pow: "verify_pow (replicate 32 0) MAINNET_POW_BITS = Inr True"
    using verify_pow_numeric [OF mainnet_limit, of "replicate 32 0"] by (simp add: be_nat_replicate)
  have parent: "get_header memory_store (chain_store c) (prev_block sample_child) = Some g"
    unfolding c(2) g by (simp add: sample_child_def)
  define s where "s = \<lparr>sh_hash = replicate 32 0, sh_header = sample_child, sh_height = 1,
      sh_chainwork = sh_chainwork g + w\<rparr>"
  have chk: "check_header sample_digests (chain_policy c) (get_header memory_store (chain_store c)) sample_child = Inr s"
    unfolding check_header_def parent c(3)
    by (simp add: validate_difficulty_bits_def validate_difficulty_bits_with_pending_def
        validate_checkpoint_def sample_child_hash bits w pow pow_fault_def checked_add_u32_def
        chainwork_checked_add_def s_def) (simp add: g)
  have "length (header_hash sample_digests mainnet_genesis) = 32 \<and>
      header_hash sample_digests mainnet_genesis \<noteq> replicate 32 0"
    by (rule sample_genesis_hash)
  then have fresh: "get_header memory_store (chain_store c) (sh_hash s) = None"
    unfolding c(2) g by (auto simp: s_def)
  obtain c1 where c1: "insert_header sample_digests memory_store sample_child c = (Inr s, c1)"
    "get_header memory_store (chain_store c1) = (get_header memory_store (chain_store c))(sh_hash s \<mapsto> s)"
    using mem.insert_header_spec [OF _ chk fresh] chain_reachable_inv [OF c(1)] by blast
  then have "chain_get_header memory_store c1 (replicate 32 0) = Some s"
    by (simp add: chain_get_header_def s_def)
  with c(1) c1(1) reach_header [OF c(1) c1(1)] show ?thesis by (auto simp: s_def)
qed

section \<open>Properties\<close>

text \<open>
  C1.  Chain selection: on every reachable chain that stores a header, the best header exists and
  has the greatest accumulated work of all stored headers; the canonical index covers exactly the
  heights from zero to the best header, holds the best header at the top, and each canonical header
  has the canonical header below it as its parent.
\<close>

theorem canonical_chain_correct:
  assumes "chain_reachable D pol c" "chain_get_header memory_store c h = Some s"
  shows "\<exists>t. best_header memory_store c = Inr (Some t) \<and> sh_chainwork s \<le> sh_chainwork t \<and>
    canonical_header memory_store c (sh_height t) = Some t \<and>
    (\<forall>n. (canonical_header memory_store c n \<noteq> None) = (n \<le> sh_height t)) \<and>
    (\<forall>n x. canonical_header memory_store c (Suc n) = Some x \<longrightarrow>
      (\<exists>y. canonical_header memory_store c n = Some y \<and> prev_block (sh_header x) = sh_hash y))"
proof -
  have inv: "chain_inv D memory_store c" using chain_reachable_inv [OF assms(1)] by simp
  have st: "get_header memory_store (chain_store c) h = Some s" using assms(2) by (simp add: chain_get_header_def)
  obtain t hs where t: "best_header memory_store c = Inr (Some t)" "last hs = t"
    "is_path (headers (chain_store c)) hs" "heaviest (headers (chain_store c)) t"
    "canonical (chain_store c) = index_of hs"
    by (rule mem.best_header_ok [OF inv st]) (rule that; simp)
  have len: "length hs = Suc (sh_height t)" using is_path_height [OF t(3)] t(2) by simp
  have ch: "canonical_header memory_store c n = (if n < length hs then Some (hs ! n) else None)" for n
    using t(3,5) is_path_stored [OF t(3)]
    by (simp add: canonical_header_def chain_canonical_hash_def index_of_def)
  have "sh_chainwork s \<le> sh_chainwork t" using t(4) st by (auto simp: heaviest_def)
  moreover have "hs ! sh_height t = t" using t(2) len by (metis diff_Suc_1 last_conv_nth length_0_conv nat.distinct(1))
  moreover have "prev_block (sh_header (hs ! Suc n)) = sh_hash (hs ! n)" if "Suc n < length hs" for n
    using t(3) that by (auto simp: is_path_def)
  ultimately show ?thesis using t(1) len by (auto simp: ch split: if_splits)
qed

theorem canonical_chain_correct_witness:
  "\<exists>c s t. chain_get_header memory_store c (replicate 32 0) = Some s \<and> sh_height s = 1 \<and>
     best_header memory_store c = Inr (Some t) \<and> sh_chainwork s \<le> sh_chainwork t \<and>
     canonical_header memory_store c (sh_height t) = Some t"
proof -
  obtain c s where c: "chain_reachable sample_digests Permissive c"
    "chain_get_header memory_store c (replicate 32 0) = Some s" "sh_height s = 1"
    using sample_chain by blast
  from canonical_chain_correct [OF c(1,2)] c(2,3) show ?thesis by blast
qed

text \<open>
  C2.  Consensus rules: every header stored above height zero on a reachable mainnet chain
  hashes to the key it is stored under, has its parent stored one height below, satisfies its
  proof of work, carries exactly the difficulty the retarget rule demands after its parent, and
  equals the checkpoint when its height has one; the header at height zero is the mainnet genesis.
\<close>

theorem mainnet_headers_valid:
  assumes "chain_reachable D MainnetPolicy c" "chain_get_header memory_store c h = Some s"
  shows "header_hash D (sh_header s) = h \<and>
    (if sh_height s = 0 then sh_header s = mainnet_genesis
     else verify_pow h (bits (sh_header s)) = Inr True \<and>
       (case mainnet_checkpoint_hash (sh_height s) of None \<Rightarrow> True | Some cp \<Rightarrow> h = cp) \<and>
       (\<exists>p. chain_get_header memory_store c (prev_block (sh_header s)) = Some p \<and>
          sh_height s = sh_height p + 1 \<and>
          expected_mainnet_bits_with_pending (chain_get_header memory_store c) Map.empty p =
            Inr (bits (sh_header s))))"
proof -
  have g: "chain_get_header memory_store c = headers (chain_store c)"
    by (simp add: chain_get_header_def fun_eq_iff)
  have "headers_valid D MainnetPolicy (headers (chain_store c))"
    using chain_reachable_inv [OF assms(1)] by (auto simp: chain_inv_def chain_ok_def)
  with assms(2) have "header_valid D MainnetPolicy (headers (chain_store c)) h s"
    by (simp add: headers_valid_def g)
  then show ?thesis
    by (auto simp: header_valid_def header_follows_def g split: if_splits option.splits)
qed

theorem mainnet_headers_valid_witness:
  "\<exists>c s. chain_reachable sample_digests MainnetPolicy c \<and>
     chain_get_header memory_store c (header_hash sample_digests mainnet_genesis) = Some s \<and>
     sh_header s = mainnet_genesis"
proof -
  obtain c s where c: "chain_reachable sample_digests MainnetPolicy c"
    "chain_get_header memory_store c (header_hash sample_digests mainnet_genesis) = Some s" "sh_height s = 0"
    using genesis_reachable [of sample_digests MainnetPolicy] by (auto simp: chain_get_header_def)
  with mainnet_headers_valid [OF c(1,2)] show ?thesis by auto
qed

text \<open>
  Accumulated work: the work recorded for a stored header is the sum of the work of the
  headers on its path from height zero, which \<open>canonical_chain_to\<close> returns.
\<close>

theorem chainwork_is_path_sum:
  assumes "chain_reachable D pol c" "chain_get_header memory_store c h = Some s"
  shows "\<exists>hs ws. canonical_chain_to (chain_get_header memory_store c) h = Inr hs \<and> last hs = s \<and>
    list_all2 (\<lambda>x w. chainwork_from_bits (bits (sh_header x)) = Inr w) hs ws \<and>
    sh_chainwork s = sum_list ws"
proof -
  have g: "chain_get_header memory_store c = headers (chain_store c)"
    by (simp add: chain_get_header_def fun_eq_iff)
  have v: "headers_valid D pol (headers (chain_store c))"
    using chain_reachable_inv [OF assms(1)] by (auto simp: chain_inv_def chain_ok_def)
  with canonical_chain_to_path [OF v] path_work [OF v] assms(2) g show ?thesis by metis
qed

theorem chainwork_is_path_sum_witness:
  "\<exists>c s hs ws. chain_get_header memory_store c (replicate 32 0) = Some s \<and> sh_height s = 1 \<and>
     canonical_chain_to (chain_get_header memory_store c) (replicate 32 0) = Inr hs \<and>
     sh_chainwork s = sum_list ws \<and>
     list_all2 (\<lambda>x w. chainwork_from_bits (bits (sh_header x)) = Inr w) hs ws"
proof -
  obtain c s where c: "chain_reachable sample_digests Permissive c"
    "chain_get_header memory_store c (replicate 32 0) = Some s" "sh_height s = 1"
    using sample_chain by blast
  from chainwork_is_path_sum [OF c(1,2)] c(2,3) show ?thesis by blast
qed

text \<open>
  Failed insertions have no effect: when \<open>insert_header\<close> or \<open>insert_headers\<close> returns an error
  on a reachable chain, the chain and its store are exactly what they were.
\<close>

theorem failed_insertion_keeps_chain:
  assumes "chain_reachable D pol c"
    and "insert_header D memory_store header c = (Inl e, c1)"
    and "insert_headers D memory_store hs c = (Inl e', c2)"
  shows "c1 = c \<and> c2 = c"
  using chain_reachable_inv [OF assms(1)] mem.insert_header_inv [OF _ assms(2)]
    mem.insert_headers_inv [OF _ assms(3)] by auto

theorem failed_insertion_keeps_chain_witness:
  "let c = chain_new memory_store_default;
       (r1, c1) = insert_header sample_digests memory_store mainnet_genesis c;
       (r2, c2) = insert_headers sample_digests memory_store [mainnet_genesis] c
   in r1 = Inl (Err UnknownParent) \<and> r2 = Inl (Err UnknownParent) \<and> c1 = c \<and> c2 = c"
proof -
  define c where "c = chain_with_difficulty_policy memory_store_default MainnetPolicy"
  obtain c1 c2 where i: "insert_header sample_digests memory_store mainnet_genesis c = (Inl (Err UnknownParent), c1)"
    "insert_headers sample_digests memory_store [mainnet_genesis] c = (Inl (Err UnknownParent), c2)"
    by (simp add: insert_header_def insert_headers_def check_header_def batch_step_def batch_empty_def
        lookup_with_pending_def Let_def c_def chain_with_difficulty_policy_def memory_store_default_def)
  have "chain_reachable sample_digests MainnetPolicy c" unfolding c_def by (rule reach_start)
  from failed_insertion_keeps_chain [OF this i] i show ?thesis
    by (simp add: chain_new_def Let_def flip: c_def)
qed



text \<open>
  C10.  The retarget rule stays within the proof-of-work limit and never panics: the difficulty bits
  it yields are the limit itself or decode to a target of at most the limit, or are the zero
  encoding of a zero target.
\<close>

theorem retarget_within_limit:
  "case retarget_bits first lst of
     Inl f \<Rightarrow> f \<noteq> Panic
   | Inr b \<Rightarrow> b = MAINNET_POW_BITS \<or> b = 0 \<or> (\<exists>t. compact_to_target b = Inr t \<and> 0 < t \<and> t \<le> 0xffff * 2 ^ 200)"
proof (cases "retarget_bits first lst")
  case (Inl f)
  have "target_to_compact t \<noteq> None" if "target_for_work w = Inr t" for w t
    using target_for_work_bound [OF that] target_to_compact_decode [of t]
    by (cases "t = 0") (auto simp: target_to_compact_def [of 0])
  with Inl show ?thesis
    by (auto simp: retarget_bits_def and_then_Inl Let_def mainnet_limit split: if_splits)
next
  case (Inr b)
  have "b = 0 \<or> (\<exists>u. compact_to_target b = Inr u \<and> 0 < u \<and> u \<le> 0xffff * 2 ^ 200)"
    if "target_for_work w = Inr t" "target_to_compact t = Some b" "t \<le> 0xffff * 2 ^ 200" for w t
    using that target_to_compact_decode [of t] target_for_work_bound [OF that(1)]
    by (cases "t = 0") (auto simp: target_to_compact_def [of 0])
  with Inr show ?thesis
    by (auto simp: retarget_bits_def and_then_Inr Let_def mainnet_limit split: if_splits)
qed

end
