(* ===== verification/Ttl_Cache.thy ===== *)
theory Ttl_Cache
  imports Prelude "HOL-Library.AList"
begin

text \<open>
  \<open>hns-cache/src/lib.rs\<close>: the bounded least-recently-used cache with expiry.  The hash map is an
  association list with distinct keys, the recency queue a list with the least recently used key
  in front, and time a natural number.  Every reading of \<open>Instant::now()\<close> is an argument; the
  addition \<open>Instant + Duration\<close> panics above the platform's \<open>limit\<close>, which is \<open>None\<close> here.
  The reference definition is one list of entries in recency order, and every operation is shown
  to refine its counterpart on that list.
\<close>

section \<open>Definitions\<close>

record 'v entry =
  entry_value :: 'v
  expires_at :: nat

record ('k, 'v) ttl_cache =
  max_entries :: nat
  entries :: "('k \<times> 'v entry) list"
  order :: "'k list"

definition cache_new :: "nat \<Rightarrow> ('k, 'v) ttl_cache" where
  "cache_new n = \<lparr>max_entries = n, entries = [], order = []\<rparr>"

definition prune_expired :: "nat \<Rightarrow> ('k, 'v) ttl_cache \<Rightarrow> ('k, 'v) ttl_cache" where
  "prune_expired now c =
     (let kept = filter (\<lambda>(_, e). expires_at e > now) (entries c) in
      c\<lparr>entries := kept, order := filter (\<lambda>k. k \<in> fst ` set kept) (order c)\<rparr>)"

definition promote :: "'k \<Rightarrow> ('k, 'v) ttl_cache \<Rightarrow> ('k, 'v) ttl_cache" where
  "promote key c = c\<lparr>order := filter (\<lambda>k. k \<noteq> key) (order c)\<rparr>"

fun evict_loop ::
  "nat \<Rightarrow> ('k \<times> 'v entry) list \<Rightarrow> 'k list \<Rightarrow> ('k \<times> 'v entry) list \<times> 'k list" where
  "evict_loop limit es [] = (es, [])"
| "evict_loop limit es (k # ks) =
     (if length es > limit then evict_loop limit (AList.delete k es) ks else (es, k # ks))"

definition evict_over_limit :: "('k, 'v) ttl_cache \<Rightarrow> ('k, 'v) ttl_cache" where
  "evict_over_limit c =
     (let (es, ks) = evict_loop (max_entries c) (entries c) (order c) in
      c\<lparr>entries := es, order := ks\<rparr>)"

definition instant_add :: "nat \<Rightarrow> nat \<Rightarrow> nat \<Rightarrow> nat option" where
  "instant_add limit now ttl = (if now + ttl \<le> limit then Some (now + ttl) else None)"

text \<open>\<open>now\<close> is read when pruning, \<open>now'\<close> when the expiry is computed.\<close>

definition cache_insert ::
  "nat \<Rightarrow> nat \<Rightarrow> nat \<Rightarrow> 'k \<Rightarrow> 'v \<Rightarrow> nat \<Rightarrow> ('k, 'v) ttl_cache \<Rightarrow> ('k, 'v) ttl_cache option" where
  "cache_insert limit now now' key v ttl c =
     (let c = prune_expired now c in
      case instant_add limit now' ttl of
        None \<Rightarrow> None
      | Some expiry \<Rightarrow>
          (let c = promote key c;
               c = c\<lparr>order := order c @ [key]\<rparr>;
               c = c\<lparr>entries := AList.update key \<lparr>entry_value = v, expires_at = expiry\<rparr> (entries c)\<rparr>
           in Some (evict_over_limit c)))"

definition cache_get :: "nat \<Rightarrow> 'k \<Rightarrow> ('k, 'v) ttl_cache \<Rightarrow> 'v option \<times> ('k, 'v) ttl_cache" where
  "cache_get now key c =
     (let c = prune_expired now c in
      case map_of (entries c) key of
        None \<Rightarrow> (None, c)
      | Some e \<Rightarrow>
          (let c = promote key c in (Some (entry_value e), c\<lparr>order := order c @ [key]\<rparr>)))"

definition cache_len :: "nat \<Rightarrow> ('k, 'v) ttl_cache \<Rightarrow> nat \<times> ('k, 'v) ttl_cache" where
  "cache_len now c = (let c = prune_expired now c in (length (entries c), c))"

definition cache_is_empty :: "nat \<Rightarrow> ('k, 'v) ttl_cache \<Rightarrow> bool \<times> ('k, 'v) ttl_cache" where
  "cache_is_empty now c = (let (n, c) = cache_len now c in (n = 0, c))"

definition cache_clear :: "('k, 'v) ttl_cache \<Rightarrow> ('k, 'v) ttl_cache" where
  "cache_clear c = c\<lparr>entries := [], order := []\<rparr>"

subsection \<open>Invariant and reference definition\<close>

definition cache_inv :: "('k, 'v) ttl_cache \<Rightarrow> bool" where
  "cache_inv c \<longleftrightarrow>
     distinct (map fst (entries c)) \<and> distinct (order c) \<and>
     set (order c) = fst ` set (entries c) \<and> length (entries c) \<le> max_entries c"

definition cache_abs :: "('k, 'v) ttl_cache \<Rightarrow> ('k \<times> 'v entry) list" where
  "cache_abs c = map (\<lambda>k. (k, the (map_of (entries c) k))) (order c)"

definition spec_prune :: "nat \<Rightarrow> ('k \<times> 'v entry) list \<Rightarrow> ('k \<times> 'v entry) list" where
  "spec_prune now l = filter (\<lambda>(_, e). expires_at e > now) l"

definition spec_touch ::
  "'k \<Rightarrow> 'v entry \<Rightarrow> ('k \<times> 'v entry) list \<Rightarrow> ('k \<times> 'v entry) list" where
  "spec_touch key e l = filter (\<lambda>(k, _). k \<noteq> key) l @ [(key, e)]"

definition spec_insert ::
  "nat \<Rightarrow> nat \<Rightarrow> nat \<Rightarrow> 'k \<Rightarrow> 'v \<Rightarrow> ('k \<times> 'v entry) list \<Rightarrow> ('k \<times> 'v entry) list" where
  "spec_insert cap now expiry key v l =
     (let l = spec_touch key \<lparr>entry_value = v, expires_at = expiry\<rparr> (spec_prune now l) in
      drop (length l - cap) l)"

definition spec_get ::
  "nat \<Rightarrow> 'k \<Rightarrow> ('k \<times> 'v entry) list \<Rightarrow> 'v option \<times> ('k \<times> 'v entry) list" where
  "spec_get now key l =
     (let l = spec_prune now l in
      case map_of l key of None \<Rightarrow> (None, l) | Some e \<Rightarrow> (Some (entry_value e), spec_touch key e l))"

text \<open>The caches that a sequence of calls on a fresh cache can produce.\<close>

inductive cache_reachable :: "nat \<Rightarrow> ('k, 'v) ttl_cache \<Rightarrow> bool" for cap where
  reach_new: "cache_reachable cap (cache_new cap)"
| reach_insert: "\<lbrakk>cache_reachable cap c; cache_insert limit now now' k v ttl c = Some c'\<rbrakk> \<Longrightarrow>
     cache_reachable cap c'"
| reach_get: "\<lbrakk>cache_reachable cap c; cache_get now k c = (r, c')\<rbrakk> \<Longrightarrow> cache_reachable cap c'"
| reach_len: "\<lbrakk>cache_reachable cap c; cache_len now c = (n, c')\<rbrakk> \<Longrightarrow> cache_reachable cap c'"
| reach_clear: "cache_reachable cap c \<Longrightarrow> cache_reachable cap (cache_clear c)"

section \<open>Lemmas\<close>

text \<open>The queue and the map describe the same entries.\<close>

definition cache_coherent :: "('k \<times> 'v entry) list \<Rightarrow> 'k list \<Rightarrow> bool" where
  "cache_coherent es ks \<longleftrightarrow>
     distinct (map fst es) \<and> distinct ks \<and> set ks = fst ` set es"

definition in_order :: "('k \<times> 'v entry) list \<Rightarrow> 'k list \<Rightarrow> ('k \<times> 'v entry) list" where
  "in_order es ks = map (\<lambda>k. (k, the (map_of es k))) ks"

lemma cache_inv_coherent:
  "cache_inv c \<longleftrightarrow> cache_coherent (entries c) (order c) \<and> length (entries c) \<le> max_entries c"
  by (auto simp: cache_inv_def cache_coherent_def)

lemma cache_abs_in_order: "cache_abs c = in_order (entries c) (order c)"
  by (simp add: cache_abs_def in_order_def)

lemma coherent_length: "cache_coherent es ks \<Longrightarrow> length ks = length es"
  unfolding cache_coherent_def by (metis distinct_card length_map list.set_map)

lemma map_of_in_order: "cache_coherent es ks \<Longrightarrow> map_of (in_order es ks) k = map_of es k"
  unfolding cache_coherent_def in_order_def
  by (auto simp: map_of_map_restrict restrict_map_def map_of_eq_None_iff
      split: option.splits) (metis map_of_eq_None_iff option.collapse)

lemma map_of_filter_distinct:
  "distinct (map fst es) \<Longrightarrow> map_of (filter (\<lambda>(_, e). P e) es) k =
     (case map_of es k of None \<Rightarrow> None | Some e \<Rightarrow> if P e then Some e else None)"
  by (induction es) (auto split: option.splits simp: map_of_eq_None_iff rev_image_eqI)

lemma prune_coherent:
  fixes es :: "('k \<times> 'v entry) list" and now :: nat
  assumes "cache_coherent es ks"
  defines "kept \<equiv> filter (\<lambda>(_, e). expires_at e > now) es"
  shows "cache_coherent kept (filter (\<lambda>k. k \<in> fst ` set kept) ks)"
    and "in_order kept (filter (\<lambda>k. k \<in> fst ` set kept) ks) = spec_prune now (in_order es ks)"
proof -
  have d: "distinct (map fst es)" and s: "set ks = fst ` set es" and dk: "distinct ks"
    using assms by (auto simp: cache_coherent_def)
  show "cache_coherent kept (filter (\<lambda>k. k \<in> fst ` set kept) ks)"
    using d s dk by (auto simp: cache_coherent_def kept_def distinct_map_filter image_iff)
  have mem: "k \<in> fst ` set kept \<longleftrightarrow> (\<exists>e. map_of es k = Some e \<and> expires_at e > now)" for k
    using d unfolding kept_def
    by (force simp: map_of_eq_Some_iff image_iff)
  have lk: "map_of kept k = Some e" if "map_of es k = Some e" "expires_at e > now" for k e
    using that map_of_filter_distinct [OF d, of "\<lambda>e. expires_at e > now" k] by (simp add: kept_def)
  have "set ks' \<subseteq> fst ` set es \<Longrightarrow>
      in_order kept (filter (\<lambda>k. k \<in> fst ` set kept) ks') = spec_prune now (in_order es ks')" for ks'
  proof (induction ks')
    case (Cons k ks')
    then obtain e where "map_of es k = Some e"
      by (metis insert_subset list.set(2) map_of_eq_None_iff option.exhaust)
    with Cons mem [of k] lk [of k] show ?case
      by (auto simp: in_order_def spec_prune_def)
  qed (simp add: in_order_def spec_prune_def)
  then show "in_order kept (filter (\<lambda>k. k \<in> fst ` set kept) ks) = spec_prune now (in_order es ks)"
    using s by simp
qed

lemma touch_coherent:
  assumes "cache_coherent es ks"
  shows "cache_coherent (AList.update k e es) (filter (\<lambda>x. x \<noteq> k) ks @ [k])"
    and "in_order (AList.update k e es) (filter (\<lambda>x. x \<noteq> k) ks @ [k]) =
      spec_touch k e (in_order es ks)"
  using assms distinct_update [of es k e]
  by (auto simp: cache_coherent_def in_order_def spec_touch_def update_conv' dom_update
      filter_map o_def)

lemma evict_coherent:
  assumes "cache_coherent es ks" "evict_loop cap es ks = (es', ks')"
  shows "cache_coherent es' ks' \<and> length es' \<le> cap \<and>
    in_order es' ks' = drop (length es - cap) (in_order es ks)"
  using assms
proof (induction cap es ks arbitrary: es' ks' rule: evict_loop.induct)
  case (1 cap es)
  then have "es = []" by (auto simp: cache_coherent_def)
  with 1 show ?case by (auto simp: in_order_def)
next
  case (2 cap es k ks)
  show ?case
  proof (cases "length es > cap")
    case True
    have coh: "cache_coherent (AList.delete k es) ks"
      using 2(2) distinct_delete [of es k] arg_cong [OF delete_keys [of k es], of set]
      by (auto simp: cache_coherent_def simp del: distinct_delete)
    have len: "length (AList.delete k es) = length es - 1"
      using coherent_length [OF coh] coherent_length [OF 2(2)] by simp
    have same: "in_order (AList.delete k es) ks = in_order es ks"
      using 2(2) by (auto simp: in_order_def cache_coherent_def delete_conv')
    have cons: "in_order es (k # ks) = (k, the (map_of es k)) # in_order es ks"
      by (simp add: in_order_def)
    have "length es - cap = Suc (length es - 1 - cap)" using True by simp
    then show ?thesis
      using 2(1) [OF True coh] 2(3) True unfolding len same cons by simp
  qed (use 2 in auto)
qed

lemma prune_refines:
  assumes "cache_inv c"
  shows "cache_inv (prune_expired now c)"
    and "cache_abs (prune_expired now c) = spec_prune now (cache_abs c)"
    and "max_entries (prune_expired now c) = max_entries c"
  using assms prune_coherent [of "entries c" "order c" now]
  by (auto simp: cache_inv_coherent cache_abs_in_order prune_expired_def Let_def
      intro: order_trans [OF length_filter_le])

lemma cache_insert_refines:
  assumes inv: "cache_inv c" and i: "cache_insert limit now now' k v ttl c = Some c'"
  shows "cache_inv c' \<and> max_entries c' = max_entries c \<and>
    cache_abs c' = spec_insert (max_entries c) now (now' + ttl) k v (cache_abs c)"
proof -
  define p e where "p = prune_expired now c"
    and "e = \<lparr>entry_value = v, expires_at = now' + ttl\<rparr>"
  define es ks where "es = AList.update k e (entries p)"
    and "ks = filter (\<lambda>x. x \<noteq> k) (order p) @ [k]"
  obtain es' ks' where ev: "evict_loop (max_entries p) es ks = (es', ks')" by fastforce
  have c': "c' = p\<lparr>entries := es', order := ks'\<rparr>"
    using i ev by (auto simp: cache_insert_def promote_def evict_over_limit_def instant_add_def
        es_def ks_def e_def p_def Let_def split: if_splits)
  note p = prune_refines [OF inv, of now, folded p_def]
  have coh: "cache_coherent (entries p) (order p)" using p(1) by (simp add: cache_inv_coherent)
  note t = touch_coherent [OF coh, of k e, folded es_def ks_def]
  have "length es = length (in_order es ks)"
    using coherent_length [OF t(1)] by (simp add: in_order_def)
  with evict_coherent [OF t(1) ev] c' p t(2) show ?thesis
    by (simp add: cache_inv_coherent cache_abs_in_order spec_insert_def e_def Let_def)
qed

lemma update_same: "map_of es k = Some e \<Longrightarrow> AList.update k e es = es"
  by (induction es) auto

lemma cache_get_refines:
  assumes inv: "cache_inv c" and g: "cache_get now k c = (r, c')"
  shows "cache_inv c' \<and> max_entries c' = max_entries c \<and>
    spec_get now k (cache_abs c) = (r, cache_abs c')"
proof -
  define p where "p = prune_expired now c"
  note p = prune_refines [OF inv, of now, folded p_def]
  have coh: "cache_coherent (entries p) (order p)" using p(1) by (simp add: cache_inv_coherent)
  have look: "map_of (cache_abs p) k = map_of (entries p) k"
    using map_of_in_order [OF coh] by (simp add: cache_abs_in_order)
  show ?thesis
  proof (cases "map_of (entries p) k")
    case None
    with g p look show ?thesis by (simp add: cache_get_def spec_get_def Let_def flip: p_def)
  next
    case (Some e)
    with update_same have "AList.update k e (entries p) = entries p" by fast
    with g Some p look touch_coherent [OF coh, of k e] show ?thesis
      by (auto simp: cache_get_def spec_get_def promote_def cache_inv_coherent cache_abs_in_order
          Let_def simp flip: p_def)
  qed
qed

lemma cache_reachable_inv:
  "cache_reachable cap c \<Longrightarrow> cache_inv c \<and> max_entries c = cap"
proof (induction rule: cache_reachable.induct)
  case reach_new
  show ?case by (simp add: cache_inv_def cache_new_def)
next
  case (reach_insert c limit now now' k v ttl c')
  then show ?case using cache_insert_refines [of c limit now now' k v ttl c'] by simp
next
  case (reach_get c now k r c')
  then show ?case using cache_get_refines [of c now k r c'] by simp
next
  case (reach_len c now n c')
  then show ?case using prune_refines [of c now] by (auto simp: cache_len_def Let_def)
next
  case (reach_clear c)
  then show ?case by (simp add: cache_inv_def cache_clear_def)
qed

section \<open>Properties\<close>

text \<open>
  C14.  On every cache that calls can produce, the cache refines the list of its entries in
  recency order: an insertion drops the expired entries, moves or adds the key at the recent end
  and drops least recently used entries until at most \<open>max_entries\<close> are left; a lookup drops the
  expired entries, answers from what is left and moves a found key to the recent end.
\<close>

theorem ttl_cache_refines_lru:
  assumes "cache_reachable cap c"
    and "cache_insert limit now now' k v ttl c = Some c'" and "cache_get now key c = (r, d)"
  shows "cache_abs c' = spec_insert cap now (now' + ttl) k v (cache_abs c) \<and>
    spec_get now key (cache_abs c) = (r, cache_abs d)"
  using cache_reachable_inv [OF assms(1)] cache_insert_refines [OF _ assms(2)]
    cache_get_refines [OF _ assms(3)] by auto

theorem ttl_cache_refines_lru_witness:
  "\<exists>c' :: (nat, nat) ttl_cache. cache_insert 100 0 0 1 5 10 (cache_new 2) = Some c' \<and>
     cache_abs c' = spec_insert 2 0 (0 + 10) 1 5 (cache_abs (cache_new 2)) \<and>
     spec_get 0 1 (cache_abs (cache_new 2 :: (nat, nat) ttl_cache)) =
       (None, cache_abs (cache_new 2))"
proof -
  obtain c' :: "(nat, nat) ttl_cache" where c': "cache_insert 100 0 0 1 5 10 (cache_new 2) = Some c'"
    by (simp add: cache_insert_def instant_add_def Let_def)
  have "cache_get 0 1 (cache_new 2 :: (nat, nat) ttl_cache) = (None, cache_new 2)"
    by (simp add: cache_get_def cache_new_def prune_expired_def)
  with ttl_cache_refines_lru [OF reach_new c'] c' show ?thesis by blast
qed

text \<open>
  A reachable cache never holds more than its capacity, has one queue position per entry, and
  returns the value just inserted until its expiry, whatever was evicted to make room for it;
  at or after the expiry it does not.
\<close>

theorem ttl_cache_insert_get:
  assumes "cache_reachable cap c" "0 < cap"
    and "cache_insert limit now now' k v ttl c = Some c'"
  shows "length (entries c') \<le> cap \<and> length (order c') = length (entries c') \<and>
    fst (cache_get t k c') = (if t < now' + ttl then Some v else None)"
proof -
  note inv = cache_reachable_inv [OF assms(1)]
  note ins = cache_insert_refines [OF _ assms(3)]
  have inv': "cache_inv c'" and cap: "max_entries c' = cap" using inv ins by auto
  obtain r d where g: "cache_get t k c' = (r, d)" by fastforce
  define l where "l = spec_touch k \<lparr>entry_value = v, expires_at = now' + ttl\<rparr> (spec_prune now (cache_abs c))"
  have "cache_abs c' = drop (length l - cap) l"
    using ins inv by (simp add: spec_insert_def l_def Let_def)
  then obtain m where m: "cache_abs c' = m @ [(k, \<lparr>entry_value = v, expires_at = now' + ttl\<rparr>)]"
    and km: "k \<notin> fst ` set m"
    using assms(2) by (fastforce simp: l_def spec_touch_def dest: in_set_dropD)
  have "map_of (spec_prune t m) k = None"
    using km by (auto simp: map_of_eq_None_iff spec_prune_def image_iff)
  then have "fst (spec_get t k (cache_abs c')) = (if t < now' + ttl then Some v else None)"
    unfolding m by (auto simp: spec_get_def spec_prune_def spec_touch_def map_of_append Let_def
        map_add_def)
  moreover have "spec_get t k (cache_abs c') = (r, cache_abs d)"
    using cache_get_refines [OF inv' g] by simp
  ultimately show ?thesis
    using g inv' cap coherent_length [of "entries c'" "order c'"] by (simp add: cache_inv_coherent)
qed

theorem ttl_cache_insert_get_witness:
  "\<exists>c' :: (nat, nat) ttl_cache. cache_insert 100 0 0 1 5 10 (cache_new 2) = Some c' \<and>
     fst (cache_get 9 1 c') = Some 5 \<and> fst (cache_get 10 1 c') = None"
proof -
  obtain c' :: "(nat, nat) ttl_cache" where c': "cache_insert 100 0 0 1 5 10 (cache_new 2) = Some c'"
    by (simp add: cache_insert_def instant_add_def Let_def)
  show ?thesis
    using ttl_cache_insert_get [OF reach_new _ c', of 9] ttl_cache_insert_get [OF reach_new _ c', of 10]
      c' by simp
qed

end
