(* ===== verification/Dns_Name.thy ===== *)
theory Dns_Name
  imports Reader
begin

text \<open>
  The names of \<open>hns-core/src/dns.rs\<close>: parsing of compressed wire-format names, the presentation
  form, and encoding.  A \<open>DnsName\<close> is the list of its labels.  The wire parser follows compression
  pointers; it is a recursive function whose termination proof is the argument that it cannot be
  driven into a loop: at most sixteen jumps, and at most 254 bytes of labels.
\<close>

section \<open>Definitions\<close>

definition MAX_DNS_NAME_LEN :: nat where "MAX_DNS_NAME_LEN = 253"
definition MAX_DNS_LABEL_LEN :: nat where "MAX_DNS_LABEL_LEN = 63"

type_synonym dns_name = "rust_str list"

definition dns_root :: dns_name where
  "dns_root = []"

definition is_valid_dns_label :: "bytes \<Rightarrow> bool" where
  "is_valid_dns_label label \<longleftrightarrow>
     label = ascii ''*'' \<or> list_all (\<lambda>b. is_ascii_alphanumeric b \<or> b = 45 \<or> b = 95) label"

text \<open>\<open>labels.iter().map(|label| label.len() + 1).sum()\<close>.\<close>

definition labels_size :: "dns_name \<Rightarrow> nat" where
  "labels_size labels = sum_list (map (\<lambda>l. length l + 1) labels)"

function parse_wire_loop ::
  "bytes \<Rightarrow> dns_name \<Rightarrow> nat \<Rightarrow> nat option \<Rightarrow> nat \<Rightarrow> parse_error + (dns_name \<times> nat)" where
  "parse_wire_loop message labels cursor consumed jumps =
     and_then (ok_or UnexpectedEof (get_byte message cursor)) (\<lambda>len.
     let cursor = cursor + 1 in
     if len AND 0xc0 = 0xc0 then
       and_then (ok_or UnexpectedEof (get_byte message cursor)) (\<lambda>next.
       let cursor = cursor + 1;
           pointer = push_bit 8 (unat (len AND 0x3f)) OR unat next
       in if pointer \<ge> length message then Inl InvalidDnsPointer
          else let consumed = (case consumed of None \<Rightarrow> Some cursor | Some c \<Rightarrow> Some c)
          in if jumps + 1 > 255 then Inl InvalidDnsPointer
          else if jumps + 1 > 16 then Inl InvalidDnsPointer
          else parse_wire_loop message labels pointer consumed (jumps + 1))
     else if len AND 0xc0 \<noteq> 0 then Inl InvalidDnsLabel
     else if len = 0 then Inr (labels, case consumed of Some c \<Rightarrow> c | None \<Rightarrow> cursor)
     else if unat len > MAX_DNS_LABEL_LEN then Inl InvalidDnsLabel
     else
       and_then (ok_or LengthLimit (checked_add_usize cursor (unat len))) (\<lambda>fin.
       and_then (ok_or UnexpectedEof (get_range message cursor fin)) (\<lambda>label_bytes.
       if \<not> is_valid_dns_label label_bytes then Inl InvalidDnsLabel else
       and_then (ok_or InvalidDnsLabel (str_from_utf8 label_bytes)) (\<lambda>label.
       let labels = labels @ [to_ascii_lowercase label] in
       if labels_size labels > MAX_DNS_NAME_LEN + 1 then Inl LengthLimit
       else parse_wire_loop message labels fin consumed jumps))))"
  by pat_completeness auto
termination
  by (relation "measures [\<lambda>(_, _, _, _, jumps). 17 - jumps,
      \<lambda>(_, labels, _, _, _). 255 - labels_size labels]")
    (auto simp: labels_size_def MAX_DNS_NAME_LEN_def)

definition parse_wire :: "bytes \<Rightarrow> nat \<Rightarrow> parse_error + (dns_name \<times> nat)" where
  "parse_wire message offset = parse_wire_loop message [] offset None 0"

definition wire_len :: "dns_name \<Rightarrow> nat" where
  "wire_len n = (if n = [] then 1 else labels_size n + 1)"

fun from_ascii_labels :: "rust_str list \<Rightarrow> parse_error + dns_name" where
  "from_ascii_labels [] = Inr []"
| "from_ascii_labels (label # ls) =
     (if label = [] \<or> length label > MAX_DNS_LABEL_LEN \<or> \<not> is_valid_dns_label label
      then Inl InvalidDnsLabel
      else and_then (from_ascii_labels ls) (\<lambda>ns. Inr (to_ascii_lowercase label # ns)))"

definition from_ascii :: "rust_str \<Rightarrow> parse_error + dns_name" where
  "from_ascii name =
     (let trimmed = trim_end_matches 46 (str_trim name) in
      if trimmed = [] then Inr dns_root else
      and_then (from_ascii_labels (str_split 46 trimmed)) (\<lambda>n.
      if wire_len n > MAX_DNS_NAME_LEN + 2 then Inl LengthLimit else Inr n))"

fun encode_labels :: "dns_name \<Rightarrow> bytes \<Rightarrow> parse_error + bytes" where
  "encode_labels [] out = Inr out"
| "encode_labels (label # ls) out =
     (if length label > MAX_DNS_LABEL_LEN then Inl InvalidDnsLabel
      else encode_labels ls (out @ [word_of_nat (length label)] @ label))"

definition encode_wire :: "dns_name \<Rightarrow> bytes \<Rightarrow> parse_error + bytes" where
  "encode_wire n out = and_then (encode_labels n out) (\<lambda>out. Inr (out @ [0]))"

text \<open>\<open>Display\<close>.\<close>

definition dns_name_display :: "dns_name \<Rightarrow> rust_str" where
  "dns_name_display n = (if n = [] then ascii ''.'' else str_join [46] n)"

text \<open>
  The names the parsers produce: labels of one to 63 lower-case host-name characters (or a lone
  asterisk), at most 254 bytes with their length octets.
\<close>

definition wf_label :: "rust_str \<Rightarrow> bool" where
  "wf_label l \<longleftrightarrow> l \<noteq> [] \<and> length l \<le> 63 \<and> is_valid_dns_label l \<and> to_ascii_lowercase l = l"

definition wf_name :: "dns_name \<Rightarrow> bool" where
  "wf_name n \<longleftrightarrow> list_all wf_label n \<and> labels_size n \<le> 254"

definition wire :: "dns_name \<Rightarrow> bytes" where
  "wire n = concat (map (\<lambda>l. word_of_nat (length l) # l) n) @ [0]"

section \<open>Lemmas\<close>

declare parse_wire_loop.simps [simp del]

lemma labels_size_simps [simp]:
  "labels_size [] = 0" "labels_size (l # ls) = length l + 1 + labels_size ls"
  "labels_size (ls @ ms) = labels_size ls + labels_size ms"
  by (simp_all add: labels_size_def)

lemma valid_label_ascii: "\<lbrakk>is_valid_dns_label l; b \<in> set l\<rbrakk> \<Longrightarrow> b < 0x80"
  by (auto simp: is_valid_dns_label_def list_all_iff is_ascii_alphanumeric_def is_ascii_digit_def
      is_ascii_upper_def is_ascii_lower_def ascii_def word_less_nat_alt word_le_nat_alt)

lemma valid_label_utf8: "is_valid_dns_label l \<Longrightarrow> str_from_utf8 l = Some l"
  by (auto simp: str_from_utf8_def intro!: utf8_valid_ascii dest: valid_label_ascii)

lemma alnum_lower:
  "is_ascii_alphanumeric b \<or> b = 45 \<or> b = 95 \<Longrightarrow>
     is_ascii_alphanumeric (to_ascii_lower_byte b) \<or> to_ascii_lower_byte b = 45 \<or> to_ascii_lower_byte b = 95"
  by (auto simp: to_ascii_lower_byte_def is_ascii_alphanumeric_def is_ascii_upper_def
      is_ascii_lower_def is_ascii_digit_def word_le_nat_alt unat_word_ariths)

lemma valid_label_lower: "is_valid_dns_label l \<Longrightarrow> is_valid_dns_label (to_ascii_lowercase l)"
proof -
  have star: "to_ascii_lowercase (ascii ''*'') = ascii ''*''"
    by (simp add: to_ascii_lowercase_def ascii_def to_ascii_lower_byte_def is_ascii_upper_def)
  assume "is_valid_dns_label l"
  then show ?thesis
  proof (cases "l = ascii ''*''")
    case True
    then show ?thesis by (simp add: is_valid_dns_label_def star)
  next
    case False
    with \<open>is_valid_dns_label l\<close> show ?thesis
      unfolding is_valid_dns_label_def list_all_iff to_ascii_lowercase_def
      using alnum_lower by auto
  qed
qed

lemma wf_label_lower:
  "\<lbrakk>is_valid_dns_label l; l \<noteq> []; length l \<le> 63\<rbrakk> \<Longrightarrow> wf_label (to_ascii_lowercase l)"
  using valid_label_lower by (auto simp: wf_label_def) (auto simp: to_ascii_lowercase_def)

lemma wf_name_snoc [simp]:
  "wf_name (n @ [l]) \<longleftrightarrow> list_all wf_label n \<and> wf_label l \<and> labels_size n + length l + 1 \<le> 254"
  by (auto simp: wf_name_def)

subsection \<open>One step of the wire parser\<close>

text \<open>What a successful run did first: follow a pointer, stop at the root label, or read a label.\<close>

lemma parse_wire_loop_cases:
  assumes "parse_wire_loop m ls c con j = Inr (n, e)"
  obtains
    (jump) b1 where "c + 1 < length m" "b1 = m ! c" "b1 AND 0xc0 = 0xc0" "j + 1 \<le> 16"
      "push_bit 8 (unat (b1 AND 0x3f)) OR unat (m ! (c + 1)) < length m"
      "parse_wire_loop m ls (push_bit 8 (unat (b1 AND 0x3f)) OR unat (m ! (c + 1)))
        (Some (case con of None \<Rightarrow> c + 2 | Some x \<Rightarrow> x)) (j + 1) = Inr (n, e)"
  | (stop) "c < length m" "m ! c = 0" "n = ls" "e = (case con of Some x \<Rightarrow> x | None \<Rightarrow> c + 1)"
  | (label) k where "c < length m" "k = unat (m ! c)" "0 < k" "k \<le> 63" "c + 1 + k \<le> length m"
      "is_valid_dns_label (slice m (c + 1) (c + 1 + k))"
      "labels_size (ls @ [to_ascii_lowercase (slice m (c + 1) (c + 1 + k))]) \<le> 254"
      "parse_wire_loop m (ls @ [to_ascii_lowercase (slice m (c + 1) (c + 1 + k))]) (c + 1 + k) con j = Inr (n, e)"
proof -
  define b where "b = m ! c"
  have c: "c < length m" using assms
    by (subst (asm) parse_wire_loop.simps) (auto simp: and_then_Inr)
  then have get: "get_byte m c = Some b" by (simp add: b_def)
  note eq = assms [unfolded parse_wire_loop.simps [of m ls c con j] get ok_or_simps and_then_simps]
  consider "b AND 0xc0 = 0xc0" | "b AND 0xc0 \<noteq> 0xc0" "b = 0" | "b AND 0xc0 \<noteq> 0xc0" "b \<noteq> 0" by blast
  then show thesis
  proof cases
    case 1
    with eq show thesis
      by (intro jump [of b]) (auto simp: b_def and_then_Inr Let_def split: if_splits option.splits)
  next
    case 2
    with eq c show thesis by (intro stop) (auto simp: b_def Let_def split: if_splits option.splits)
  next
    case 3
    then have "0 < unat b" by (simp add: unat_gt_0)
    with 3 eq c show thesis
      by (intro label [of "unat b"])
        (auto simp: b_def and_then_Inr Let_def MAX_DNS_LABEL_LEN_def MAX_DNS_NAME_LEN_def
          valid_label_utf8 split: if_splits)
  qed
qed

lemma parse_wire_loop_wf:
  "\<lbrakk>parse_wire_loop m ls c con j = Inr (n, e); wf_name ls\<rbrakk> \<Longrightarrow>
     wf_name n \<and> (case con of Some x \<Rightarrow> e = x | None \<Rightarrow> c < e \<and> e \<le> length m)"
proof (induction "(17 - j, 255 - labels_size ls)" arbitrary: ls c con j
    rule: wf_induct_rule [OF wf_lex_prod [OF wf_less_than wf_less_than]])
  case 1
  note IH = 1(1)
  from 1(2) show ?case
  proof (cases rule: parse_wire_loop_cases)
    case (jump b1)
    have "((17 - (j + 1), 255 - labels_size ls), 17 - j, 255 - labels_size ls) \<in> less_than <*lex*> less_than"
      using jump by auto
    from IH [OF this jump(6) 1(3)] jump show ?thesis by (auto split: option.splits)
  next
    case stop
    with 1(3) show ?thesis by (auto split: option.splits)
  next
    case (label k)
    define l where "l = to_ascii_lowercase (slice m (c + 1) (c + 1 + k))"
    have "wf_label l" unfolding l_def
      by (rule wf_label_lower) (use label in \<open>auto simp flip: length_greater_0_conv\<close>)
    then have wf: "wf_name (ls @ [l])" using label 1(3) by (simp add: wf_name_def l_def)
    have "((17 - j, 255 - labels_size (ls @ [l])), 17 - j, 255 - labels_size ls) \<in> less_than <*lex*> less_than"
      using label by (auto simp: l_def)
    from IH [OF this label(8) [folded l_def] wf] label show ?thesis by (auto split: option.splits)
  qed
qed

lemma parse_wire_wf:
  "parse_wire m off = Inr (n, e) \<Longrightarrow> wf_name n \<and> off < e \<and> e \<le> length m"
  using parse_wire_loop_wf [of m "[]" off None 0 n e] by (simp add: parse_wire_def wf_name_def)

subsection \<open>Encoding\<close>

lemma encode_labels_closed:
  "list_all (\<lambda>l. length l \<le> 63) n \<Longrightarrow>
     encode_labels n out = Inr (out @ concat (map (\<lambda>l. word_of_nat (length l) # l) n))"
  by (induction n arbitrary: out) (auto simp: MAX_DNS_LABEL_LEN_def)

lemma wf_name_labels: "wf_name n \<Longrightarrow> list_all (\<lambda>l. length l \<le> 63) n"
  by (auto simp: wf_name_def wf_label_def list_all_iff)

lemma encode_wire_closed: "wf_name n \<Longrightarrow> encode_wire n out = Inr (out @ wire n)"
  by (simp add: encode_wire_def encode_labels_closed wf_name_labels wire_def)

lemma length_wire: "length (wire n) = labels_size n + 1"
  by (induction n) (auto simp: wire_def)

lemma length_byte: "k \<le> 63 \<Longrightarrow> unat (word_of_nat k :: u8) = k"
  by (simp add: unat_of_nat)

lemma small_byte_bits:
  assumes "k \<le> 63"
  shows "(word_of_nat k :: u8) AND 0xc0 = 0"
proof -
  have "(word_of_nat k :: u8) = take_bit 6 (word_of_nat k)"
    using assms by (simp add: word_unat_eq_iff unat_take_bit_mod length_byte)
  then have "(word_of_nat k :: u8) AND 0xc0 = take_bit 6 (word_of_nat k) AND 0xc0" by simp
  also have "\<dots> = word_of_nat k AND (mask 6 AND 0xc0)" by (simp only: take_bit_eq_mask and.assoc)
  finally show ?thesis by (simp add: mask_numeral)
qed

text \<open>The parser reads back what the encoder wrote, at any place of a message.\<close>

lemma parse_wire_loop_wire:
  assumes "list_all wf_label n" "labels_size ls + labels_size n \<le> 254"
    and "m = pre @ wire n @ post" "length m < usize_limit"
  shows "parse_wire_loop m ls (length pre) con j =
    Inr (ls @ n, case con of Some x \<Rightarrow> x | None \<Rightarrow> length pre + length (wire n))"
  using assms
proof (induction n arbitrary: ls pre)
  case Nil
  then have "get_byte m (length pre) = Some 0" by (simp add: wire_def)
  then show ?case
    by (simp only: parse_wire_loop.simps [of m ls "length pre"] ok_or_simps and_then_simps)
      (simp add: wire_def Let_def split: option.splits)
next
  case (Cons l n)
  have l: "wf_label l" "l \<noteq> []" "length l \<le> 63" "to_ascii_lowercase l = l" "is_valid_dns_label l"
    using Cons.prems(1) by (auto simp: wf_label_def)
  define b where "b = (word_of_nat (length l) :: u8)"
  have m: "m = pre @ (b # l) @ wire n @ post" using Cons.prems(3) by (simp add: wire_def b_def)
  have get: "get_byte m (length pre) = Some b" by (simp add: m)
  have ub: "unat b = length l" using l(3) by (simp add: b_def length_byte)
  have range: "get_range m (length pre + 1) (length pre + 1 + length l) = Some l"
    unfolding m by (simp add: slice_def)
  have "b AND 0xc0 = 0" "b \<noteq> 0"
    using l(2,3) ub by (auto simp: b_def small_byte_bits simp flip: unat_eq_0)
  moreover have "length pre + 1 + length l < usize_limit" using Cons.prems(4) by (simp add: m)
  ultimately have "parse_wire_loop m ls (length pre) con j =
      parse_wire_loop m (ls @ [l]) (length (pre @ b # l)) con j"
    using ub l Cons.prems(2)
    by (simp only: parse_wire_loop.simps [of m ls "length pre"] get ok_or_simps and_then_simps Let_def ub
        checked_add_usize_eq range)
      (simp add: MAX_DNS_LABEL_LEN_def MAX_DNS_NAME_LEN_def valid_label_utf8)
  also have "\<dots> = Inr ((ls @ [l]) @ n, case con of Some x \<Rightarrow> x | None \<Rightarrow> length (pre @ b # l) + length (wire n))"
    by (rule Cons.IH) (use Cons.prems m in auto)
  finally show ?case by (simp add: length_wire split: option.splits)
qed

lemma parse_wire_at:
  "\<lbrakk>wf_name n; m = pre @ wire n @ post; length m < usize_limit; off = length pre\<rbrakk> \<Longrightarrow>
     parse_wire m off = Inr (n, off + length (wire n))"
  using parse_wire_loop_wire [of n "[]" m pre post None 0] by (simp add: parse_wire_def wf_name_def)

subsection \<open>Presentation form\<close>

lemma label_byte:
  assumes "is_valid_dns_label l" "b \<in> set l"
  shows "b \<noteq> 46" "\<not> is_space1 b"
  using assms
  by (auto simp: is_valid_dns_label_def list_all_iff is_ascii_alphanumeric_def is_ascii_digit_def
      is_ascii_upper_def is_ascii_lower_def ascii_def is_space1_def word_le_nat_alt)

lemma trim_start_ascii:
  assumes "s = [] \<or> (\<not> is_space1 (hd s) \<and> hd s < 0x80)"
  shows "trim_start s = s"
proof (cases s)
  case (Cons a t)
  with assms have "\<not> is_space1 a" "a < 0x80" by auto
  moreover from this have "\<not> is_space2 a b" "\<not> is_space3 a b c" for b c
    by (auto simp: is_space2_def is_space3_def)
  ultimately show ?thesis using Cons by (auto split: list.splits)
qed simp

lemma trim_end_ascii:
  assumes "s = [] \<or> (\<not> is_space1 (hd s) \<and> hd s < 0x80)"
  shows "trim_end_rev s = s"
proof (cases s)
  case (Cons a t)
  with assms have "\<not> is_space1 a" "a < 0x80" by auto
  moreover from this have "\<not> is_space2 b a" "\<not> is_space3 c b a" for b c
    by (auto simp: is_space2_def is_space3_def word_le_nat_alt word_less_nat_alt)
  ultimately show ?thesis using Cons by (auto split: list.splits)
qed simp

lemma trim_end_matches_id: "s = [] \<or> last s \<noteq> b \<Longrightarrow> trim_end_matches b s = s"
  by (cases s rule: rev_cases) (auto simp: trim_end_matches_def)

lemma str_join_ends:
  "\<lbrakk>n \<noteq> []; \<forall>l \<in> set n. l \<noteq> []\<rbrakk> \<Longrightarrow>
     str_join sep n \<noteq> [] \<and> hd (str_join sep n) = hd (hd n) \<and> last (str_join sep n) = last (last n)"
  by (induction sep n rule: str_join.induct) auto

lemma from_ascii_labels_wf:
  "list_all wf_label n \<Longrightarrow> from_ascii_labels n = Inr n"
  by (induction n) (auto simp: wf_label_def MAX_DNS_LABEL_LEN_def)

lemma from_ascii_labels_sound:
  "from_ascii_labels ls = Inr n \<Longrightarrow> list_all wf_label n"
  by (induction ls arbitrary: n)
    (auto simp: and_then_Inr MAX_DNS_LABEL_LEN_def intro!: wf_label_lower split: if_splits)

lemma from_ascii_wf:
  "from_ascii s = Inr n \<Longrightarrow> wf_name n"
  by (auto simp: from_ascii_def Let_def and_then_Inr dns_root_def wf_name_def wire_len_def
      MAX_DNS_NAME_LEN_def dest: from_ascii_labels_sound split: if_splits)

lemma from_ascii_root: "from_ascii (ascii ''.'') = Inr dns_root"
proof -
  have "ascii ''.'' = [46]" by (simp add: ascii_def)
  moreover have "str_trim [46] = [46]"
    by (simp add: str_trim_def trim_start_ascii trim_end_ascii is_space1_def)
  ultimately show ?thesis by (simp add: from_ascii_def trim_end_matches_def)
qed

lemma from_ascii_display:
  assumes "wf_name n"
  shows "from_ascii (dns_name_display n) = Inr n"
proof (cases "n = []")
  case True
  then show ?thesis using from_ascii_root by (simp add: dns_name_display_def dns_root_def)
next
  case False
  define s where "s = str_join [46] n"
  have wf: "list_all wf_label n" "labels_size n \<le> 254" using assms by (auto simp: wf_name_def)
  have label: "l \<noteq> [] \<and> is_valid_dns_label l" if "l \<in> set n" for l
    using wf(1) that by (auto simp: list_all_iff wf_label_def)
  have ends: "s \<noteq> []" "hd s = hd (hd n)" "last s = last (last n)"
    using str_join_ends [OF False, of "[46]"] label by (auto simp: s_def)
  have h: "hd (hd n) \<in> set (hd n)" "hd n \<in> set n" "last (last n) \<in> set (last n)" "last n \<in> set n"
    using label False by auto
  have "\<not> is_space1 (hd s)" "hd s < 0x80" "\<not> is_space1 (last s)" "last s < 0x80" "last s \<noteq> 46"
    using h label label_byte valid_label_ascii unfolding ends(2,3) by blast+
  then have "str_trim s = s" "trim_end_matches 46 s = s"
    using ends(1) by (simp_all add: str_trim_def trim_start_ascii trim_end_ascii hd_rev trim_end_matches_id)
  moreover have "str_split 46 s = n"
    unfolding s_def using False label label_byte(1) by (intro str_split_join) auto
  ultimately show ?thesis
    using False ends(1) wf from_ascii_labels_wf
    by (simp add: from_ascii_def dns_name_display_def wire_len_def MAX_DNS_NAME_LEN_def flip: s_def)
qed

section \<open>Properties\<close>



text \<open>
  Names round-trip: a well-formed name encodes without error, the parser reads it back from any
  place of a message and reports the byte after it, and its presentation form parses back to it.
\<close>

theorem dns_name_round_trip:
  assumes "wf_name n" "length pre + length post + labels_size n + 1 < usize_limit"
  shows "\<exists>w. encode_wire n pre = Inr (pre @ w) \<and>
    parse_wire (pre @ w @ post) (length pre) = Inr (n, length pre + length w) \<and>
    from_ascii (dns_name_display n) = Inr n"
  using assms encode_wire_closed [OF assms(1)] from_ascii_display [OF assms(1)]
    parse_wire_at [OF assms(1) refl _ refl, of pre post]
  by (intro exI [of _ "wire n"]) (simp add: length_wire)

theorem dns_name_round_trip_witness:
  "\<exists>w. encode_wire [ascii ''www'', ascii ''example''] [1, 2] = Inr ([1, 2] @ w) \<and>
    parse_wire ([1, 2] @ w @ [3]) (length [1 :: u8, 2]) =
      Inr ([ascii ''www'', ascii ''example''], length [1 :: u8, 2] + length w) \<and>
    from_ascii (dns_name_display [ascii ''www'', ascii ''example'']) =
      Inr [ascii ''www'', ascii ''example'']"
  by (rule dns_name_round_trip)
    (simp_all add: wf_name_def wf_label_def is_valid_dns_label_def is_ascii_alphanumeric_def
      is_ascii_digit_def is_ascii_upper_def is_ascii_lower_def ascii_def to_ascii_lowercase_def
      to_ascii_lower_byte_def)

text \<open>
  The presentation parser only produces names the wire encoder accepts: whatever text it
  accepts, the name is well-formed, so encoding it succeeds and takes at most 255 bytes.
\<close>

theorem from_ascii_encodable:
  assumes "from_ascii s = Inr n"
  shows "\<exists>w. encode_wire n [] = Inr w \<and> length w \<le> 255 \<and> wf_name n"
  using from_ascii_wf [OF assms] encode_wire_closed [of n "[]"]
  by (auto simp: length_wire wf_name_def)

theorem from_ascii_encodable_witness:
  "\<exists>w. encode_wire dns_root [] = Inr w \<and> length w \<le> 255 \<and> wf_name dns_root"
  by (rule from_ascii_encodable [OF from_ascii_root])

end
