(* ===== verification/Dns_Message.thy ===== *)
theory Dns_Message
  imports Dns_Name
begin

text \<open>
  Messages, questions and resource records of \<open>hns-core/src/dns.rs\<close>.  \<open>encode\<close> methods append to
  the output buffer they are given and return it.  The parser expands compressed names inside
  CNAME and RRSIG data, so that a parsed record stands on its own.
\<close>

section \<open>Definitions\<close>

definition MAX_RDATA_LEN :: nat where "MAX_RDATA_LEN = 65535"
definition MAX_DNS_QUESTIONS :: nat where "MAX_DNS_QUESTIONS = 16"
definition MAX_DNS_RECORDS :: nat where "MAX_DNS_RECORDS = 2048"

datatype record_type =
    TypeA | TypeNs | TypeCname | TypeSoa | TypeTxt | TypeAaaa | TypeSrv | TypeDs | TypeRrsig
  | TypeNsec | TypeDnskey | TypeNsec3 | TypeTlsa | TypeSvcb | TypeHttps | TypeUnknown u16

definition from_code :: "u16 \<Rightarrow> record_type" where
  "from_code code =
     (if code = 1 then TypeA else if code = 2 then TypeNs else if code = 5 then TypeCname
      else if code = 6 then TypeSoa else if code = 16 then TypeTxt else if code = 28 then TypeAaaa
      else if code = 33 then TypeSrv else if code = 43 then TypeDs else if code = 46 then TypeRrsig
      else if code = 47 then TypeNsec else if code = 48 then TypeDnskey else if code = 50 then TypeNsec3
      else if code = 52 then TypeTlsa else if code = 64 then TypeSvcb else if code = 65 then TypeHttps
      else TypeUnknown code)"

fun record_type_code :: "record_type \<Rightarrow> u16" where
  "record_type_code TypeA = 1"
| "record_type_code TypeNs = 2"
| "record_type_code TypeCname = 5"
| "record_type_code TypeSoa = 6"
| "record_type_code TypeTxt = 16"
| "record_type_code TypeAaaa = 28"
| "record_type_code TypeSrv = 33"
| "record_type_code TypeDs = 43"
| "record_type_code TypeRrsig = 46"
| "record_type_code TypeNsec = 47"
| "record_type_code TypeDnskey = 48"
| "record_type_code TypeNsec3 = 50"
| "record_type_code TypeTlsa = 52"
| "record_type_code TypeSvcb = 64"
| "record_type_code TypeHttps = 65"
| "record_type_code (TypeUnknown code) = code"

record dns_header =
  dh_id :: u16
  dh_flags :: u16
  question_count :: u16
  answer_count :: u16
  authority_count :: u16
  additional_count :: u16

record dns_question =
  q_name :: dns_name
  q_type :: record_type
  q_class :: u16

record resource_record =
  rr_name :: dns_name
  rr_type :: record_type
  rr_class :: u16
  rr_ttl :: u32
  rr_rdata :: bytes

record dns_message =
  msg_header :: dns_header
  questions :: "dns_question list"
  answers :: "resource_record list"
  authorities :: "resource_record list"
  additionals :: "resource_record list"

record dns_encode_config =
  max_message_len :: nat

definition dns_encode_config_default :: dns_encode_config where
  "dns_encode_config_default = \<lparr>max_message_len = 1232\<rparr>"

text \<open>The accessors of \<open>DnsFlags\<close>, whose only field is the flag word.\<close>

definition is_response :: "u16 \<Rightarrow> bool" where "is_response bits \<longleftrightarrow> bits AND 0x8000 \<noteq> 0"
definition opcode :: "u16 \<Rightarrow> u8" where "opcode bits = ucast (drop_bit 11 bits AND 0x0f)"
definition authoritative_answer :: "u16 \<Rightarrow> bool" where "authoritative_answer bits \<longleftrightarrow> bits AND 0x0400 \<noteq> 0"
definition truncated :: "u16 \<Rightarrow> bool" where "truncated bits \<longleftrightarrow> bits AND 0x0200 \<noteq> 0"
definition recursion_desired :: "u16 \<Rightarrow> bool" where "recursion_desired bits \<longleftrightarrow> bits AND 0x0100 \<noteq> 0"
definition recursion_available :: "u16 \<Rightarrow> bool" where "recursion_available bits \<longleftrightarrow> bits AND 0x0080 \<noteq> 0"
definition rcode :: "u16 \<Rightarrow> u8" where "rcode bits = ucast (bits AND 0x000f)"

definition dns_header_parse :: "bytes \<Rightarrow> parse_error + dns_header" where
  "dns_header_parse data =
     and_then (read_u16_be (reader_new data)) (\<lambda>(id_v, r).
     and_then (read_u16_be r) (\<lambda>(flags_v, r).
     and_then (read_u16_be r) (\<lambda>(qd, r).
     and_then (read_u16_be r) (\<lambda>(an, r).
     and_then (read_u16_be r) (\<lambda>(ns, r).
     and_then (read_u16_be r) (\<lambda>(ar, r).
     Inr \<lparr>dh_id = id_v, dh_flags = flags_v, question_count = qd, answer_count = an,
          authority_count = ns, additional_count = ar\<rparr>))))))"

subsection \<open>Records\<close>

definition normalize_exact_name_rdata :: "bytes \<Rightarrow> nat \<Rightarrow> nat \<Rightarrow> parse_error + bytes" where
  "normalize_exact_name_rdata message start fin =
     and_then (parse_wire message start) (\<lambda>(name, next).
     if next > fin then Inl UnexpectedEof
     else if next \<noteq> fin then Inl TrailingBytes
     else encode_wire name [])"

definition normalize_prefixed_name_rdata :: "bytes \<Rightarrow> nat \<Rightarrow> nat \<Rightarrow> nat \<Rightarrow> parse_error + bytes" where
  "normalize_prefixed_name_rdata message start fin prefix_len =
     and_then (ok_or LengthLimit (checked_add_usize start prefix_len)) (\<lambda>name_start.
     if name_start \<ge> fin then Inl UnexpectedEof else
     and_then (parse_wire message name_start) (\<lambda>(name, next).
     if next > fin then Inl UnexpectedEof else
     and_then (ok_or UnexpectedEof (get_range message start name_start)) (\<lambda>out.
     and_then (encode_wire name out) (\<lambda>out.
     and_then (ok_or UnexpectedEof (get_range message next fin)) (\<lambda>tail.
     Inr (out @ tail))))))"

definition normalize_record_rdata ::
  "bytes \<Rightarrow> nat \<Rightarrow> nat \<Rightarrow> record_type \<Rightarrow> bytes \<Rightarrow> parse_error + bytes" where
  "normalize_record_rdata message start fin ty rdata =
     (if ty = TypeCname then normalize_exact_name_rdata message start fin
      else if ty = TypeRrsig \<and>
          (case get_byte rdata 18 of Some b \<Rightarrow> b AND 0xc0 = 0xc0 | None \<Rightarrow> False)
      then normalize_prefixed_name_rdata message start fin 18
      else Inr rdata)"

definition resource_record_parse :: "bytes \<Rightarrow> nat \<Rightarrow> parse_error + (resource_record \<times> nat)" where
  "resource_record_parse message offset =
     and_then (parse_wire message offset) (\<lambda>(name, cursor).
     and_then (ok_or LengthLimit (checked_add_usize cursor 10)) (\<lambda>fixed_end.
     and_then (ok_or UnexpectedEof (get_range message cursor fixed_end)) (\<lambda>fixed.
     let ty = from_code (u16_of_be [fixed ! 0, fixed ! 1]);
         class_v = u16_of_be [fixed ! 2, fixed ! 3];
         ttl_v = u32_of_be [fixed ! 4, fixed ! 5, fixed ! 6, fixed ! 7];
         rdlength = unat (u16_of_be [fixed ! 8, fixed ! 9])
     in if rdlength > MAX_RDATA_LEN then Inl LengthLimit else
     let cursor = cursor + 10 in
     and_then (ok_or LengthLimit (checked_add_usize cursor rdlength)) (\<lambda>fin.
     and_then (ok_or UnexpectedEof (get_range message cursor fin)) (\<lambda>raw_rdata.
     and_then (normalize_record_rdata message cursor fin ty raw_rdata) (\<lambda>rdata.
     Inr (\<lparr>rr_name = name, rr_type = ty, rr_class = class_v, rr_ttl = ttl_v, rr_rdata = rdata\<rparr>, fin)))))))"

definition resource_record_encode :: "resource_record \<Rightarrow> bytes \<Rightarrow> parse_error + bytes" where
  "resource_record_encode r out =
     (if length (rr_rdata r) > 65535 then Inl LengthLimit else
      and_then (encode_wire (rr_name r) out) (\<lambda>out.
      Inr (out @ u16_to_be (record_type_code (rr_type r)) @ u16_to_be (rr_class r) @
           u32_to_be (rr_ttl r) @ u16_to_be (word_of_nat (length (rr_rdata r))) @ rr_rdata r)))"

subsection \<open>Questions\<close>

definition dns_question_parse :: "bytes \<Rightarrow> nat \<Rightarrow> parse_error + (dns_question \<times> nat)" where
  "dns_question_parse message offset =
     and_then (parse_wire message offset) (\<lambda>(name, cursor).
     and_then (ok_or LengthLimit (checked_add_usize cursor 4)) (\<lambda>fixed_end.
     and_then (ok_or UnexpectedEof (get_range message cursor fixed_end)) (\<lambda>fixed.
     Inr (\<lparr>q_name = name, q_type = from_code (u16_of_be [fixed ! 0, fixed ! 1]),
           q_class = u16_of_be [fixed ! 2, fixed ! 3]\<rparr>, cursor + 4))))"

definition dns_question_encode :: "dns_question \<Rightarrow> bytes \<Rightarrow> parse_error + bytes" where
  "dns_question_encode q out =
     and_then (encode_wire (q_name q) out) (\<lambda>out.
     Inr (out @ u16_to_be (record_type_code (q_type q)) @ u16_to_be (q_class q)))"

subsection \<open>Messages\<close>

text \<open>The loops \<open>for _ in 0..count\<close> over a parser, and \<open>for x in xs\<close> over an encoder.\<close>

fun parse_many ::
  "(bytes \<Rightarrow> nat \<Rightarrow> parse_error + ('a \<times> nat)) \<Rightarrow> bytes \<Rightarrow> nat \<Rightarrow> nat \<Rightarrow> parse_error + ('a list \<times> nat)" where
  "parse_many p message cursor 0 = Inr ([], cursor)"
| "parse_many p message cursor (Suc n) =
     and_then (p message cursor) (\<lambda>(x, next).
     and_then (parse_many p message next n) (\<lambda>(xs, fin). Inr (x # xs, fin)))"

fun encode_many :: "('a \<Rightarrow> bytes \<Rightarrow> parse_error + bytes) \<Rightarrow> 'a list \<Rightarrow> bytes \<Rightarrow> parse_error + bytes" where
  "encode_many f [] out = Inr out"
| "encode_many f (x # xs) out = and_then (f x out) (encode_many f xs)"

definition parse_records :: "bytes \<Rightarrow> nat \<Rightarrow> u16 \<Rightarrow> parse_error + (resource_record list \<times> nat)" where
  "parse_records message cursor count = parse_many resource_record_parse message cursor (unat count)"

definition total_records :: "dns_message \<Rightarrow> nat" where
  "total_records m = length (answers m) + length (authorities m) + length (additionals m)"

definition response_for_query ::
  "dns_message \<Rightarrow> resource_record list \<Rightarrow> parse_error + dns_message" where
  "response_for_query query ans =
     (if length (questions query) > MAX_DNS_QUESTIONS \<or> length ans > MAX_DNS_RECORDS
      then Inl LengthLimit
      else Inr \<lparr>msg_header = \<lparr>dh_id = dh_id (msg_header query), dh_flags = 0x8400,
                  question_count = word_of_nat (length (questions query)),
                  answer_count = word_of_nat (length ans), authority_count = 0, additional_count = 0\<rparr>,
                questions = questions query, answers = ans, authorities = [], additionals = []\<rparr>)"

definition dns_message_parse :: "bytes \<Rightarrow> parse_error + dns_message" where
  "dns_message_parse message =
     (if length message < 12 then Inl UnexpectedEof else
      and_then (dns_header_parse (take 12 message)) (\<lambda>header.
      if unat (question_count header) > MAX_DNS_QUESTIONS then Inl LengthLimit
      else if unat (answer_count header) + unat (authority_count header) +
          unat (additional_count header) > MAX_DNS_RECORDS then Inl LengthLimit
      else
      and_then (parse_many dns_question_parse message 12 (unat (question_count header))) (\<lambda>(qs, cursor).
      and_then (parse_records message cursor (answer_count header)) (\<lambda>(ans, next).
      and_then (parse_records message next (authority_count header)) (\<lambda>(auths, next).
      and_then (parse_records message next (additional_count header)) (\<lambda>(adds, next).
      if next \<noteq> length message then Inl TrailingBytes
      else Inr \<lparr>msg_header = header, questions = qs, answers = ans, authorities = auths,
                additionals = adds\<rparr>))))))"

definition dns_message_encode :: "dns_encode_config \<Rightarrow> dns_message \<Rightarrow> parse_error + bytes" where
  "dns_message_encode cfg m =
     (if length (questions m) > MAX_DNS_QUESTIONS \<or> total_records m > MAX_DNS_RECORDS
      then Inl LengthLimit else
      let out = u16_to_be (dh_id (msg_header m)) @ u16_to_be (dh_flags (msg_header m)) @
                u16_to_be (word_of_nat (length (questions m))) @
                u16_to_be (word_of_nat (length (answers m))) @
                u16_to_be (word_of_nat (length (authorities m))) @
                u16_to_be (word_of_nat (length (additionals m)))
      in and_then (encode_many dns_question_encode (questions m) out) (\<lambda>out.
         and_then (encode_many resource_record_encode (answers m) out) (\<lambda>out.
         and_then (encode_many resource_record_encode (authorities m) out) (\<lambda>out.
         and_then (encode_many resource_record_encode (additionals m) out) (\<lambda>out.
         if length out > max_message_len cfg then Inl LengthLimit else Inr out)))))"

subsection \<open>Well-formed messages\<close>

definition wf_record_type :: "record_type \<Rightarrow> bool" where
  "wf_record_type t \<longleftrightarrow> from_code (record_type_code t) = t"

definition wf_rdata :: "record_type \<Rightarrow> bytes \<Rightarrow> bool" where
  "wf_rdata t rdata \<longleftrightarrow>
     (t = TypeCname \<longrightarrow> (\<exists>n. wf_name n \<and> rdata = wire n)) \<and>
     (t = TypeRrsig \<longrightarrow> \<not> (18 < length rdata \<and> rdata ! 18 AND 0xc0 = 0xc0))"

definition wf_record :: "resource_record \<Rightarrow> bool" where
  "wf_record r \<longleftrightarrow> wf_name (rr_name r) \<and> wf_record_type (rr_type r) \<and> wf_rdata (rr_type r) (rr_rdata r)"

definition wf_question :: "dns_question \<Rightarrow> bool" where
  "wf_question q \<longleftrightarrow> wf_name (q_name q) \<and> wf_record_type (q_type q)"

definition wf_message :: "dns_message \<Rightarrow> bool" where
  "wf_message m \<longleftrightarrow>
     list_all wf_question (questions m) \<and> list_all wf_record (answers m) \<and>
     list_all wf_record (authorities m) \<and> list_all wf_record (additionals m) \<and>
     length (questions m) \<le> 16 \<and> total_records m \<le> 2048 \<and>
     unat (question_count (msg_header m)) = length (questions m) \<and>
     unat (answer_count (msg_header m)) = length (answers m) \<and>
     unat (authority_count (msg_header m)) = length (authorities m) \<and>
     unat (additional_count (msg_header m)) = length (additionals m)"

text \<open>The bytes of a question and of a record.\<close>

definition question_bytes :: "dns_question \<Rightarrow> bytes" where
  "question_bytes q = wire (q_name q) @ u16_to_be (record_type_code (q_type q)) @ u16_to_be (q_class q)"

definition record_bytes :: "resource_record \<Rightarrow> bytes" where
  "record_bytes r =
     wire (rr_name r) @ u16_to_be (record_type_code (rr_type r)) @ u16_to_be (rr_class r) @
     u32_to_be (rr_ttl r) @ u16_to_be (word_of_nat (length (rr_rdata r))) @ rr_rdata r"

section \<open>Lemmas\<close>

lemma from_code_code [simp]: "record_type_code (from_code c) = c"
  by (simp add: from_code_def)

lemma wf_from_code [simp]: "wf_record_type (from_code c)"
  by (simp add: wf_record_type_def)

subsection \<open>Codecs\<close>

text \<open>
  The contract between a parser and an encoder of one item: encoding a well-formed item appends its
  image if it fits, the parser reads the image back at any place of a message, and what it returns
  is well-formed.  The loops over such items inherit the three laws.
\<close>

locale wire_codec =
  fixes parse :: "bytes \<Rightarrow> nat \<Rightarrow> parse_error + ('a \<times> nat)"
    and encode :: "'a \<Rightarrow> bytes \<Rightarrow> parse_error + bytes"
    and wf fits :: "'a \<Rightarrow> bool"
    and image :: "'a \<Rightarrow> bytes"
  assumes encode_image: "wf x \<Longrightarrow> encode x out = (if fits x then Inr (out @ image x) else Inl LengthLimit)"
    and parse_image: "\<lbrakk>wf x; fits x; m = pre @ image x @ post; length m < usize_limit div 2\<rbrakk> \<Longrightarrow>
      parse m (length pre) = Inr (x, length pre + length (image x))"
    and parse_sound: "\<lbrakk>parse m off = Inr (x, e); length m < usize_limit div 2\<rbrakk> \<Longrightarrow> wf x"
begin

lemma encode_many_Inr:
  "\<lbrakk>list_all wf xs; encode_many encode xs out = Inr out'\<rbrakk> \<Longrightarrow>
     list_all fits xs \<and> out' = out @ concat (map image xs)"
  by (induction xs arbitrary: out) (fastforce simp: and_then_Inr encode_image split: if_splits)+

lemma parse_many_image:
  assumes "list_all wf xs" "list_all fits xs" "m = pre @ concat (map image xs) @ post"
    and "length m < usize_limit div 2" "n = length xs" "off = length pre"
  shows "parse_many parse m off n = Inr (xs, length pre + length (concat (map image xs)))"
  using assms
proof (induction xs arbitrary: pre n off)
  case (Cons x xs)
  have "parse m (length pre) = Inr (x, length (pre @ image x))"
    using Cons.prems parse_image [of x m pre "concat (map image xs) @ post"] by simp
  moreover have "parse_many parse m (length (pre @ image x)) (length xs) =
      Inr (xs, length (pre @ image x) + length (concat (map image xs)))"
    by (rule Cons.IH) (use Cons.prems in auto)
  ultimately show ?case using Cons.prems(5,6) by simp
qed simp

lemma parse_many_sound:
  "\<lbrakk>parse_many parse m off n = Inr (xs, e); length m < usize_limit div 2\<rbrakk> \<Longrightarrow>
     list_all wf xs \<and> length xs = n"
proof (induction n arbitrary: off xs)
  case (Suc n)
  then obtain x i ys where "parse m off = Inr (x, i)" "parse_many parse m i n = Inr (ys, e)" "xs = x # ys"
    by (auto simp: and_then_Inr)
  with Suc parse_sound [of m off x i] show ?case by auto
qed simp

end

subsection \<open>Questions and records are codecs\<close>

lemma u16_to_be_list: "[u16_to_be w ! 0, u16_to_be w ! 1] = u16_to_be w"
  by (rule nth_equalityI) (auto simp: less_Suc_eq numeral_eq_Suc)

lemma u32_to_be_list:
  "[u32_to_be w ! 0, u32_to_be w ! 1, u32_to_be w ! 2, u32_to_be w ! 3] = u32_to_be w"
  by (rule nth_equalityI) (auto simp: less_Suc_eq numeral_eq_Suc)

lemma question_parse_image:
  assumes "wf_question q" "m = pre @ question_bytes q @ post" "length m < usize_limit div 2"
  shows "dns_question_parse m (length pre) = Inr (q, length pre + length (question_bytes q))"
proof -
  define f where "f = u16_to_be (record_type_code (q_type q)) @ u16_to_be (q_class q)"
  have m: "m = pre @ wire (q_name q) @ f @ post" using assms(2) by (simp add: question_bytes_def f_def)
  define c where "c = length pre + length (wire (q_name q))"
  have name: "parse_wire m (length pre) = Inr (q_name q, c)"
    using parse_wire_at [of "q_name q" m pre "f @ post"] assms(1,3) m by (simp add: wf_question_def c_def)
  have range: "get_range m c (c + 4) = Some f"
    unfolding m c_def by (simp add: slice_def f_def)
  have add: "checked_add_usize c 4 = Some (c + 4)"
    using assms(3) by (intro checked_add_usize_eq) (simp add: m c_def)
  have nth: "f ! 0 = u16_to_be (record_type_code (q_type q)) ! 0"
    "f ! 1 = u16_to_be (record_type_code (q_type q)) ! 1"
    "f ! 2 = u16_to_be (q_class q) ! 0" "f ! 3 = u16_to_be (q_class q) ! 1"
    by (simp_all add: f_def nth_append)
  show ?thesis
    unfolding dns_question_parse_def name and_then_simps prod.case add ok_or_simps range nth u16_to_be_list
    using assms(1) by (simp add: wf_question_def wf_record_type_def question_bytes_def c_def)
qed

lemma record_parse_image:
  assumes wf: "wf_record r" and fits: "length (rr_rdata r) \<le> 65535"
    and "m = pre @ record_bytes r @ post" and lim: "length m < usize_limit div 2"
  shows "resource_record_parse m (length pre) = Inr (r, length pre + length (record_bytes r))"
proof -
  define d where "d = rr_rdata r"
  define f where "f = u16_to_be (record_type_code (rr_type r)) @ u16_to_be (rr_class r) @
    u32_to_be (rr_ttl r) @ u16_to_be (word_of_nat (length d))"
  have m: "m = pre @ wire (rr_name r) @ f @ d @ post" using assms(3) by (simp add: record_bytes_def f_def d_def)
  define c where "c = length pre + length (wire (rr_name r))"
  have name: "parse_wire m (length pre) = Inr (rr_name r, c)"
    using parse_wire_at [of "rr_name r" m pre "f @ d @ post"] wf lim m by (simp add: wf_record_def c_def)
  have lf: "length f = 10" by (simp add: f_def)
  have range: "get_range m c (c + 10) = Some f"
    unfolding m c_def by (simp add: slice_def f_def)
  have add: "checked_add_usize c 10 = Some (c + 10)"
    "checked_add_usize (c + 10) (length d) = Some (c + 10 + length d)"
    using lim by (auto intro!: checked_add_usize_eq simp: m c_def lf)
  have range2: "get_range m (c + 10) (c + 10 + length d) = Some d"
    unfolding m c_def by (simp add: slice_def f_def)
  have nth: "f ! 0 = u16_to_be (record_type_code (rr_type r)) ! 0"
    "f ! 1 = u16_to_be (record_type_code (rr_type r)) ! 1"
    "f ! 2 = u16_to_be (rr_class r) ! 0" "f ! 3 = u16_to_be (rr_class r) ! 1"
    "f ! 4 = u32_to_be (rr_ttl r) ! 0" "f ! 5 = u32_to_be (rr_ttl r) ! 1"
    "f ! 6 = u32_to_be (rr_ttl r) ! 2" "f ! 7 = u32_to_be (rr_ttl r) ! 3"
    "f ! 8 = u16_to_be (word_of_nat (length d)) ! 0" "f ! 9 = u16_to_be (word_of_nat (length d)) ! 1"
    by (simp_all add: f_def nth_append)
  have ld: "unat (word_of_nat (length d) :: u16) = length d"
    using fits by (simp add: unat_of_nat d_def)
  have norm: "normalize_record_rdata m (c + 10) (c + 10 + length d) (rr_type r) d = Inr d"
  proof (cases "rr_type r = TypeCname")
    case True
    then obtain n where n: "wf_name n" "d = wire n" using wf by (auto simp: wf_record_def wf_rdata_def d_def)
    have "m = (pre @ wire (rr_name r) @ f) @ wire n @ post" by (simp add: m n(2))
    then have "parse_wire m (c + 10) = Inr (n, c + 10 + length (wire n))"
      by (rule parse_wire_at [OF n(1)]) (use lim lf in \<open>auto simp: c_def\<close>)
    with True n show ?thesis
      by (simp add: normalize_record_rdata_def normalize_exact_name_rdata_def encode_wire_closed)
  next
    case False
    with wf show ?thesis
      by (auto simp: normalize_record_rdata_def wf_record_def wf_rdata_def d_def split: option.splits)
  qed
  have ty: "from_code (record_type_code (rr_type r)) = rr_type r"
    using wf by (simp add: wf_record_def wf_record_type_def)
  show ?thesis
    unfolding resource_record_parse_def name and_then_simps prod.case add ok_or_simps range nth
      u16_to_be_list u32_to_be_list word_bytes_round_trip ld Let_def range2 ty norm
    using fits by (simp add: MAX_RDATA_LEN_def d_def record_bytes_def c_def)
qed

lemma first_wire_byte:
  assumes "wf_name n"
  shows "wire n ! 0 AND 0xc0 \<noteq> 0xc0"
proof (cases n)
  case (Cons l ls)
  then have "length l \<le> 63" using wf_name_labels [OF assms] by simp
  with Cons show ?thesis by (simp add: wire_def small_byte_bits)
qed (simp add: wire_def)

lemma normalize_wf:
  assumes "normalize_record_rdata m start fin ty raw = Inr rdata"
    and "raw = slice m start fin" "start + length raw = fin" "fin \<le> length m"
  shows "wf_rdata ty rdata"
proof -
  consider "ty = TypeCname" | "ty = TypeRrsig" "18 < length raw" "raw ! 18 AND 0xc0 = 0xc0"
    | "ty \<noteq> TypeCname" "rdata = raw" "ty = TypeRrsig \<longrightarrow> \<not> (18 < length raw \<and> raw ! 18 AND 0xc0 = 0xc0)"
    using assms(1) by (auto simp: normalize_record_rdata_def split: if_splits option.splits)
  then show ?thesis
  proof cases
    case 1
    then show ?thesis
      using assms(1) parse_wire_wf encode_wire_closed
      by (fastforce simp: normalize_record_rdata_def normalize_exact_name_rdata_def and_then_Inr
          wf_rdata_def split: if_splits)
  next
    case 2
    then have "normalize_prefixed_name_rdata m start fin 18 = Inr rdata"
      using assms(1) by (simp add: normalize_record_rdata_def get_byte_def)
    then obtain n e tail where n: "parse_wire m (start + 18) = Inr (n, e)" "start + 18 < fin"
      and rd: "and_then (encode_wire n (slice m start (start + 18))) (\<lambda>out. Inr (out @ tail)) = Inr rdata"
      by (auto simp: normalize_prefixed_name_rdata_def and_then_Inr split: if_splits)
    have wf: "wf_name n" using parse_wire_wf [OF n(1)] by simp
    then have "rdata = slice m start (start + 18) @ wire n @ tail"
      using rd by (simp add: encode_wire_closed)
    moreover have "length (slice m start (start + 18)) = 18" using n(2) assms(4) by simp
    ultimately have "rdata ! 18 = wire n ! 0"
      by (simp add: nth_append length_wire)
    with first_wire_byte [OF wf] 2(1) show ?thesis by (simp add: wf_rdata_def)
  next
    case 3
    then show ?thesis by (simp add: wf_rdata_def)
  qed
qed

lemma resource_record_parse_wf:
  assumes "resource_record_parse m off = Inr (r, e)"
  shows "wf_record r"
proof -
  obtain name c raw rdata ty where "parse_wire m off = Inr (name, c)"
    and nr: "normalize_record_rdata m (c + 10) e ty raw = Inr rdata" "raw = slice m (c + 10) e"
      "c + 10 \<le> e" "e \<le> length m"
    and "rr_name r = name" "rr_type r = ty" "rr_rdata r = rdata" "wf_record_type ty"
    using assms
    by (auto simp: resource_record_parse_def and_then_Inr Let_def simp del: slice_nth split: if_splits)
  moreover have "wf_rdata ty rdata" by (rule normalize_wf [OF nr(1,2)]) (use nr in auto)
  ultimately show ?thesis using parse_wire_wf by (auto simp: wf_record_def)
qed

interpretation question_codec: wire_codec dns_question_parse dns_question_encode wf_question "\<lambda>_. True" question_bytes
proof
  show "wf_question q \<Longrightarrow> dns_question_encode q out = (if True then Inr (out @ question_bytes q) else Inl LengthLimit)"
    for q out
    by (simp add: dns_question_encode_def question_bytes_def wf_question_def encode_wire_closed)
  show "dns_question_parse m off = Inr (q, e) \<Longrightarrow> length m < usize_limit div 2 \<Longrightarrow> wf_question q" for m off q e
    using parse_wire_wf by (fastforce simp: dns_question_parse_def and_then_Inr wf_question_def)
qed (rule question_parse_image)

interpretation record_codec: wire_codec resource_record_parse resource_record_encode wf_record
    "\<lambda>r. length (rr_rdata r) \<le> 65535" record_bytes
proof
  show "wf_record r \<Longrightarrow> resource_record_encode r out =
      (if length (rr_rdata r) \<le> 65535 then Inr (out @ record_bytes r) else Inl LengthLimit)" for r out
    by (simp add: resource_record_encode_def record_bytes_def wf_record_def encode_wire_closed)
qed (rule record_parse_image resource_record_parse_wf; assumption)+

subsection \<open>Messages\<close>

definition header_bytes :: "dns_header \<Rightarrow> bytes" where
  "header_bytes h =
     u16_to_be (dh_id h) @ u16_to_be (dh_flags h) @ u16_to_be (question_count h) @
     u16_to_be (answer_count h) @ u16_to_be (authority_count h) @ u16_to_be (additional_count h)"

lemma length_header_bytes [simp]: "length (header_bytes h) = 12"
  by (simp add: header_bytes_def)

lemma dns_header_parse_bytes: "dns_header_parse (header_bytes h) = Inr h"
  by (simp add: dns_header_parse_def header_bytes_def reader_closed)

lemma word_of_nat_eqI: "unat w = n \<Longrightarrow> word_of_nat n = w"
  by auto

lemma dns_message_encode_Inr:
  assumes wf: "wf_message m" and enc: "dns_message_encode cfg m = Inr bs"
  shows "bs = header_bytes (msg_header m) @ concat (map question_bytes (questions m)) @
      concat (map record_bytes (answers m)) @ concat (map record_bytes (authorities m)) @
      concat (map record_bytes (additionals m)) \<and>
    list_all (\<lambda>r. length (rr_rdata r) \<le> 65535) (answers m) \<and>
    list_all (\<lambda>r. length (rr_rdata r) \<le> 65535) (authorities m) \<and>
    list_all (\<lambda>r. length (rr_rdata r) \<le> 65535) (additionals m) \<and> length bs \<le> max_message_len cfg"
proof -
  have counts: "word_of_nat (length (questions m)) = question_count (msg_header m)"
    "word_of_nat (length (answers m)) = answer_count (msg_header m)"
    "word_of_nat (length (authorities m)) = authority_count (msg_header m)"
    "word_of_nat (length (additionals m)) = additional_count (msg_header m)"
    using wf by (auto simp: wf_message_def intro: word_of_nat_eqI)
  have lists: "list_all wf_question (questions m)" "list_all wf_record (answers m)"
    "list_all wf_record (authorities m)" "list_all wf_record (additionals m)"
    using wf by (simp_all add: wf_message_def)
  obtain o1 o2 o3 where o: "encode_many dns_question_encode (questions m) (header_bytes (msg_header m)) = Inr o1"
    "encode_many resource_record_encode (answers m) o1 = Inr o2"
    "encode_many resource_record_encode (authorities m) o2 = Inr o3"
    "encode_many resource_record_encode (additionals m) o3 = Inr bs" "length bs \<le> max_message_len cfg"
    using enc unfolding dns_message_encode_def counts Let_def
    by (auto simp: and_then_Inr header_bytes_def split: if_splits)
  show ?thesis
    using question_codec.encode_many_Inr [OF lists(1) o(1)] record_codec.encode_many_Inr [OF lists(2) o(2)]
      record_codec.encode_many_Inr [OF lists(3) o(3)] record_codec.encode_many_Inr [OF lists(4) o(4)] o(5)
    by simp
qed

lemma dns_message_round_trip:
  assumes wf: "wf_message m" and enc: "dns_message_encode cfg m = Inr bs"
    and lim: "max_message_len cfg < usize_limit div 2"
  shows "dns_message_parse bs = Inr m"
proof -
  define h qs a b c where "h = header_bytes (msg_header m)" and "qs = concat (map question_bytes (questions m))"
    and "a = concat (map record_bytes (answers m))" and "b = concat (map record_bytes (authorities m))"
    and "c = concat (map record_bytes (additionals m))"
  note e = dns_message_encode_Inr [OF wf enc]
  have bs: "bs = h @ qs @ a @ b @ c" and "length bs \<le> max_message_len cfg"
    using e unfolding h_def qs_def a_def b_def c_def by blast+
  then have blim: "length bs < usize_limit div 2" using lim by linarith
  have fit: "list_all (\<lambda>r. length (rr_rdata r) \<le> 65535) (answers m)"
    "list_all (\<lambda>r. length (rr_rdata r) \<le> 65535) (authorities m)"
    "list_all (\<lambda>r. length (rr_rdata r) \<le> 65535) (additionals m)"
    using e by blast+
  have h12: "length h = 12" by (simp add: h_def)
  have w: "list_all wf_question (questions m)" "list_all wf_record (answers m)"
    "list_all wf_record (authorities m)" "list_all wf_record (additionals m)"
    and n: "unat (question_count (msg_header m)) = length (questions m)"
    "unat (answer_count (msg_header m)) = length (answers m)"
    "unat (authority_count (msg_header m)) = length (authorities m)"
    "unat (additional_count (msg_header m)) = length (additionals m)"
    and small: "length (questions m) \<le> 16" "total_records m \<le> 2048"
    using wf by (simp_all add: wf_message_def)
  have "parse_many dns_question_parse bs 12 (length (questions m)) = Inr (questions m, length (h @ qs))"
    using question_codec.parse_many_image [OF w(1) _ _ blim refl, of h "a @ b @ c" 12] bs h12
    by (simp add: qs_def list_all_iff)
  moreover have "parse_many resource_record_parse bs (length (h @ qs)) (length (answers m)) =
      Inr (answers m, length (h @ qs @ a))"
    using record_codec.parse_many_image [OF w(2) _ _ blim refl refl, of "h @ qs" "b @ c"] bs fit by (simp add: a_def)
  moreover have "parse_many resource_record_parse bs (length (h @ qs @ a)) (length (authorities m)) =
      Inr (authorities m, length (h @ qs @ a @ b))"
    using record_codec.parse_many_image [OF w(3) _ _ blim refl refl, of "h @ qs @ a" c] bs fit by (simp add: b_def)
  moreover have "parse_many resource_record_parse bs (length (h @ qs @ a @ b)) (length (additionals m)) =
      Inr (additionals m, length bs)"
    using record_codec.parse_many_image [OF w(4) _ _ blim refl refl, of "h @ qs @ a @ b" "[]"] bs fit by (simp add: c_def)
  moreover have "dns_header_parse (take 12 bs) = Inr (msg_header m)"
    using dns_header_parse_bytes by (simp add: bs h12) (simp add: h_def)
  moreover have "\<not> length bs < 12" by (simp add: bs h12)
  ultimately show ?thesis
    using small by (simp add: dns_message_parse_def parse_records_def n MAX_DNS_QUESTIONS_def MAX_DNS_RECORDS_def
        total_records_def)
qed

lemma dns_message_parse_wf:
  assumes "dns_message_parse bs = Inr m" "length bs < usize_limit div 2"
  shows "wf_message m"
proof -
  define h where "h = msg_header m"
  obtain c1 c2 c3 c4 where "parse_many dns_question_parse bs 12 (unat (question_count h)) = Inr (questions m, c1)"
    "parse_many resource_record_parse bs c1 (unat (answer_count h)) = Inr (answers m, c2)"
    "parse_many resource_record_parse bs c2 (unat (authority_count h)) = Inr (authorities m, c3)"
    "parse_many resource_record_parse bs c3 (unat (additional_count h)) = Inr (additionals m, c4)"
    "unat (question_count h) \<le> 16"
    "unat (answer_count h) + unat (authority_count h) + unat (additional_count h) \<le> 2048"
    using assms(1)
    by (auto simp: dns_message_parse_def parse_records_def and_then_Inr h_def MAX_DNS_QUESTIONS_def
        MAX_DNS_RECORDS_def split: if_splits)
  note p = this
  show ?thesis
    using question_codec.parse_many_sound [OF p(1) assms(2)] record_codec.parse_many_sound [OF p(2) assms(2)]
      record_codec.parse_many_sound [OF p(3) assms(2)] record_codec.parse_many_sound [OF p(4) assms(2)] p(5,6)
    by (simp add: wf_message_def total_records_def h_def)
qed

section \<open>Properties\<close>

text \<open>
  C16.  Messages round-trip: the encoding of a well-formed message respects the configured limit and
  parses back to exactly that message, header counts, names and record data included.
\<close>

theorem dns_message_encode_parse:
  assumes "wf_message m" "dns_message_encode cfg m = Inr bs" "max_message_len cfg < usize_limit div 2"
  shows "length bs \<le> max_message_len cfg \<and> dns_message_parse bs = Inr m"
  using dns_message_encode_Inr [OF assms(1,2)] dns_message_round_trip [OF assms] by blast

definition sample_message :: dns_message where
  "sample_message =
     \<lparr>msg_header = \<lparr>dh_id = 7, dh_flags = 0x8400, question_count = 1, answer_count = 1,
        authority_count = 0, additional_count = 0\<rparr>,
      questions = [\<lparr>q_name = [], q_type = TypeA, q_class = 1\<rparr>],
      answers = [\<lparr>rr_name = [], rr_type = TypeA, rr_class = 1, rr_ttl = 60, rr_rdata = [1, 2, 3, 4]\<rparr>],
      authorities = [], additionals = []\<rparr>"

lemma sample_message_wf: "wf_message sample_message"
  by (simp add: wf_message_def sample_message_def wf_question_def wf_record_def wf_record_type_def
      wf_rdata_def wf_name_def from_code_def total_records_def)

lemma sample_message_encodes: "\<exists>bs. dns_message_encode dns_encode_config_default sample_message = Inr bs"
  by (simp add: dns_message_encode_def sample_message_def total_records_def MAX_DNS_QUESTIONS_def
      MAX_DNS_RECORDS_def dns_question_encode_def resource_record_encode_def encode_wire_def
      dns_encode_config_default_def Let_def)

theorem dns_message_encode_parse_witness:
  "\<exists>bs. dns_message_encode dns_encode_config_default sample_message = Inr bs \<and>
     length bs \<le> 1232 \<and> dns_message_parse bs = Inr sample_message"
proof -
  obtain bs where bs: "dns_message_encode dns_encode_config_default sample_message = Inr bs"
    using sample_message_encodes by blast
  from dns_message_encode_parse [OF sample_message_wf bs] bs show ?thesis
    by (simp add: dns_encode_config_default_def)
qed

text \<open>
  Parsing normalizes: every message the parser accepts is well-formed (counts agree with the
  header, all names are bounded, compressed names in CNAME and RRSIG data are expanded), and if its
  re-encoding succeeds, parsing that gives the same message again.
\<close>

theorem dns_message_parse_stable:
  assumes "dns_message_parse bs = Inr m" "length bs < usize_limit div 2"
    and "dns_message_encode cfg m = Inr out" "max_message_len cfg < usize_limit div 2"
  shows "wf_message m \<and> dns_message_parse out = Inr m"
  using dns_message_parse_wf [OF assms(1,2)] dns_message_round_trip [OF _ assms(3,4)] by blast

theorem dns_message_parse_stable_witness:
  "\<exists>bs. dns_message_encode dns_encode_config_default sample_message = Inr bs \<and>
     wf_message sample_message \<and> dns_message_parse bs = Inr sample_message"
proof -
  obtain bs where bs: "dns_message_encode dns_encode_config_default sample_message = Inr bs"
    using sample_message_encodes by blast
  have lim: "max_message_len dns_encode_config_default < usize_limit div 2"
    by (simp add: dns_encode_config_default_def)
  have "length bs < usize_limit div 2"
    using dns_message_encode_Inr [OF sample_message_wf bs] lim by linarith
  from dns_message_parse_stable [OF dns_message_round_trip [OF sample_message_wf bs lim] this bs lim] bs
  show ?thesis by blast
qed

end
