(* ===== verification/Svcb.thy ===== *)
theory Svcb
  imports Dns_Message
begin

text \<open>
  Service binding records (SVCB and HTTPS) of \<open>hns-core/src/dns.rs\<close>: the record data parser with its
  parameter rules, and the accessors for the parameters the browser uses.
\<close>

section \<open>Definitions\<close>

definition SVCB_PARAM_MANDATORY :: u16 where "SVCB_PARAM_MANDATORY = 0"
definition SVCB_PARAM_ALPN :: u16 where "SVCB_PARAM_ALPN = 1"
definition SVCB_PARAM_NO_DEFAULT_ALPN :: u16 where "SVCB_PARAM_NO_DEFAULT_ALPN = 2"
definition SVCB_PARAM_PORT :: u16 where "SVCB_PARAM_PORT = 3"
definition SVCB_PARAM_IPV4HINT :: u16 where "SVCB_PARAM_IPV4HINT = 4"
definition SVCB_PARAM_ECH :: u16 where "SVCB_PARAM_ECH = 5"
definition SVCB_PARAM_IPV6HINT :: u16 where "SVCB_PARAM_IPV6HINT = 6"

lemmas svcb_param_defs =
  SVCB_PARAM_MANDATORY_def SVCB_PARAM_ALPN_def SVCB_PARAM_NO_DEFAULT_ALPN_def SVCB_PARAM_PORT_def
  SVCB_PARAM_IPV4HINT_def SVCB_PARAM_ECH_def SVCB_PARAM_IPV6HINT_def

record svc_param =
  sp_key :: u16
  sp_value :: bytes

record svcb_record =
  svc_priority :: u16
  target_name :: dns_name
  svc_params :: "svc_param list"

function parse_alpn_loop :: "bytes \<Rightarrow> nat \<Rightarrow> bytes list \<Rightarrow> parse_error + bytes list" where
  "parse_alpn_loop v cursor ids =
     (if cursor < length v then
        let len = unat (v ! cursor); cursor = cursor + 1 in
        if len = 0 then Inl InvalidSvcb else
        and_then (ok_or LengthLimit (checked_add_usize cursor len)) (\<lambda>fin.
        and_then (ok_or InvalidSvcb (get_range v cursor fin)) (\<lambda>id_v.
        parse_alpn_loop v fin (ids @ [id_v])))
      else Inr ids)"
  by pat_completeness auto
termination by (relation "measure (\<lambda>(v, c, _). length v - c)") auto

definition parse_alpn_ids :: "bytes \<Rightarrow> parse_error + bytes list" where
  "parse_alpn_ids v = (if v = [] then Inl InvalidSvcb else parse_alpn_loop v 0 [])"

fun mandatory_loop :: "u16 option \<Rightarrow> bytes \<Rightarrow> parse_error + unit" where
  "mandatory_loop previous (a # b # rest') =
     (let key = u16_of_be [a, b] in
      if key = SVCB_PARAM_MANDATORY \<or> (case previous of Some p \<Rightarrow> key \<le> p | None \<Rightarrow> False)
      then Inl InvalidSvcb
      else mandatory_loop (Some key) rest')"
| "mandatory_loop previous _ = Inr ()"

definition validate_svc_param_value :: "u16 \<Rightarrow> bytes \<Rightarrow> parse_error + unit" where
  "validate_svc_param_value key v =
     (if key = SVCB_PARAM_MANDATORY then
        (if v = [] \<or> length v mod 2 \<noteq> 0 then Inl InvalidSvcb else mandatory_loop None v)
      else if key = SVCB_PARAM_ALPN then and_then (parse_alpn_ids v) (\<lambda>_. Inr ())
      else if key = SVCB_PARAM_NO_DEFAULT_ALPN then (if v = [] then Inr () else Inl InvalidSvcb)
      else if key = SVCB_PARAM_PORT then (if length v = 2 then Inr () else Inl InvalidSvcb)
      else if key = SVCB_PARAM_IPV4HINT then
        (if v \<noteq> [] \<and> length v mod 4 = 0 then Inr () else Inl InvalidSvcb)
      else if key = SVCB_PARAM_IPV6HINT then
        (if v \<noteq> [] \<and> length v mod 16 = 0 then Inr () else Inl InvalidSvcb)
      else Inr ())"

function parse_uncompressed_loop :: "bytes \<Rightarrow> nat \<Rightarrow> dns_name \<Rightarrow> parse_error + (dns_name \<times> nat)" where
  "parse_uncompressed_loop message cursor labels =
     and_then (ok_or InvalidSvcb (get_byte message cursor)) (\<lambda>len.
     let cursor = cursor + 1 in
     if len AND 0xc0 \<noteq> 0 then Inl InvalidSvcb
     else if len = 0 then
       (if wire_len labels > MAX_DNS_NAME_LEN + 2 then Inl LengthLimit else Inr (labels, cursor))
     else if unat len > MAX_DNS_LABEL_LEN then Inl InvalidSvcb
     else
       and_then (ok_or LengthLimit (checked_add_usize cursor (unat len))) (\<lambda>fin.
       and_then (ok_or InvalidSvcb (get_range message cursor fin)) (\<lambda>label_bytes.
       if \<not> is_valid_dns_label label_bytes then Inl InvalidSvcb else
       and_then (ok_or InvalidSvcb (str_from_utf8 label_bytes)) (\<lambda>label.
       parse_uncompressed_loop message fin (labels @ [to_ascii_lowercase label])))))"
  by pat_completeness auto
termination by (relation "measure (\<lambda>(m, c, _). length m - c)") auto

definition parse_uncompressed_dns_name :: "bytes \<Rightarrow> nat \<Rightarrow> parse_error + (dns_name \<times> nat)" where
  "parse_uncompressed_dns_name message offset = parse_uncompressed_loop message offset []"

function parse_params_loop ::
  "bytes \<Rightarrow> nat \<Rightarrow> u16 option \<Rightarrow> svc_param list \<Rightarrow> parse_error + svc_param list" where
  "parse_params_loop rdata cursor previous params =
     (if cursor < length rdata then
        and_then (ok_or LengthLimit (checked_add_usize cursor 4)) (\<lambda>fixed_end.
        and_then (ok_or InvalidSvcb (get_range rdata cursor fixed_end)) (\<lambda>fixed.
        let key = u16_of_be [fixed ! 0, fixed ! 1];
            len = unat (u16_of_be [fixed ! 2, fixed ! 3]);
            cursor = cursor + 4
        in if (case previous of Some p \<Rightarrow> key \<le> p | None \<Rightarrow> False) then Inl InvalidSvcb else
        and_then (ok_or LengthLimit (checked_add_usize cursor len)) (\<lambda>fin.
        and_then (ok_or InvalidSvcb (get_range rdata cursor fin)) (\<lambda>v.
        and_then (validate_svc_param_value key v) (\<lambda>_.
        parse_params_loop rdata fin (Some key) (params @ [\<lparr>sp_key = key, sp_value = v\<rparr>]))))))
      else Inr params)"
  by pat_completeness auto
termination by (relation "measure (\<lambda>(r, c, _, _). length r - c)") auto

definition svcb_parse_rdata :: "bytes \<Rightarrow> parse_error + svcb_record" where
  "svcb_parse_rdata rdata =
     (if length rdata < 3 then Inl InvalidSvcb else
      let priority = u16_of_be [rdata ! 0, rdata ! 1] in
      and_then (parse_uncompressed_dns_name rdata 2) (\<lambda>(target, cursor).
      and_then (parse_params_loop rdata cursor None []) (\<lambda>params.
      Inr \<lparr>svc_priority = priority, target_name = target, svc_params = params\<rparr>)))"

definition svcb_from_record :: "resource_record \<Rightarrow> parse_error + svcb_record" where
  "svcb_from_record r =
     (if rr_type r \<noteq> TypeSvcb \<and> rr_type r \<noteq> TypeHttps then Inl InvalidSvcb
      else svcb_parse_rdata (rr_rdata r))"

definition is_alias_mode :: "svcb_record \<Rightarrow> bool" where
  "is_alias_mode r \<longleftrightarrow> svc_priority r = 0"

definition svcb_param :: "svcb_record \<Rightarrow> u16 \<Rightarrow> bytes option" where
  "svcb_param r key = map_option sp_value (List.find (\<lambda>p. sp_key p = key) (svc_params r))"

definition alpn_ids :: "svcb_record \<Rightarrow> parse_error + bytes list" where
  "alpn_ids r = (case svcb_param r SVCB_PARAM_ALPN of None \<Rightarrow> Inr [] | Some v \<Rightarrow> parse_alpn_ids v)"

definition svcb_port :: "svcb_record \<Rightarrow> parse_error + u16 option" where
  "svcb_port r =
     (case svcb_param r SVCB_PARAM_PORT of
        None \<Rightarrow> Inr None
      | Some v \<Rightarrow> (if length v \<noteq> 2 then Inl InvalidSvcb else Inr (Some (u16_of_be [v ! 0, v ! 1]))))"

text \<open>The wire form of a list of protocol identifiers.\<close>

definition alpn_bytes :: "bytes list \<Rightarrow> bytes" where
  "alpn_bytes ids = concat (map (\<lambda>i. word_of_nat (length i) # i) ids)"

definition wf_alpn :: "bytes list \<Rightarrow> bool" where
  "wf_alpn ids \<longleftrightarrow> ids \<noteq> [] \<and> (\<forall>i \<in> set ids. 1 \<le> length i \<and> length i \<le> 255)"

section \<open>Lemmas\<close>

declare parse_alpn_loop.simps [simp del] parse_uncompressed_loop.simps [simp del]
  parse_params_loop.simps [simp del]

lemma alpn_bytes_simps [simp]:
  "alpn_bytes [] = []" "alpn_bytes (i # ids) = word_of_nat (length i) # i @ alpn_bytes ids"
  by (simp_all add: alpn_bytes_def)

lemma parse_alpn_loop_image:
  assumes "\<forall>i \<in> set ids. 1 \<le> length i \<and> length i \<le> 255" "v = pre @ alpn_bytes ids"
    and "length v < usize_limit"
  shows "parse_alpn_loop v (length pre) acc = Inr (acc @ ids)"
  using assms
proof (induction ids arbitrary: pre acc)
  case Nil
  then show ?case by (simp add: parse_alpn_loop.simps)
next
  case (Cons i ids)
  have len: "unat (word_of_nat (length i) :: u8) = length i" using Cons.prems(1) by (simp add: unat_of_nat)
  have v: "v = pre @ (word_of_nat (length i) # i) @ alpn_bytes ids" using Cons.prems(2) by simp
  have range: "get_range v (length pre + 1) (length pre + 1 + length i) = Some i"
    unfolding v by (simp add: slice_def)
  have at: "length pre < length v" "v ! length pre = word_of_nat (length i)" by (simp_all add: v)
  have add: "checked_add_usize (length pre + 1) (length i) = Some (length pre + 1 + length i)"
    using Cons.prems(3) by (intro checked_add_usize_eq) (simp add: v)
  have "parse_alpn_loop v (length pre) acc = parse_alpn_loop v (length (pre @ word_of_nat (length i) # i)) (acc @ [i])"
    unfolding parse_alpn_loop.simps [of v "length pre"] Let_def at(2) len add ok_or_simps and_then_simps range
    using Cons.prems(1) at(1) by auto
  also have "\<dots> = Inr ((acc @ [i]) @ ids)" by (rule Cons.IH) (use Cons.prems v in auto)
  finally show ?case by simp
qed

lemma parse_alpn_loop_sound:
  "\<lbrakk>parse_alpn_loop v c acc = Inr ids; c \<le> length v\<rbrakk> \<Longrightarrow>
     \<exists>new. ids = acc @ new \<and> drop c v = alpn_bytes new \<and> (\<forall>i \<in> set new. 1 \<le> length i \<and> length i \<le> 255)"
proof (induction "length v - c" arbitrary: c acc rule: less_induct)
  case 1: less
  show ?case
  proof (cases "c < length v")
    case True
    define k where "k = unat (v ! c)"
    define i where "i = slice v (c + 1) (c + 1 + k)"
    have k: "0 < k" "c + 1 + k \<le> length v" "c + 1 + k < usize_limit"
      and rec: "parse_alpn_loop v (c + 1 + k) (acc @ [i]) = Inr ids"
      using 1(2) True by (subst (asm) parse_alpn_loop.simps,
          auto simp: and_then_Inr Let_def k_def i_def split: if_splits)+
    have "k \<le> 255" using unat_u8_less [of "v ! c"] unfolding k_def by linarith
    have "\<exists>new. ids = (acc @ [i]) @ new \<and> drop (c + 1 + k) v = alpn_bytes new \<and>
        (\<forall>i \<in> set new. 1 \<le> length i \<and> length i \<le> 255)"
      by (rule 1(1) [OF _ rec]) (use k True in auto)
    then obtain new where new: "ids = (acc @ [i]) @ new" "drop (c + 1 + k) v = alpn_bytes new"
      "\<forall>i \<in> set new. 1 \<le> length i \<and> length i \<le> 255" by blast
    have len: "length i = k" using k by (simp add: i_def)
    have "drop c v = v ! c # drop (c + 1) v" using True by (simp add: Cons_nth_drop_Suc)
    also have "drop (c + 1) v = i @ drop (c + 1 + k) v"
      unfolding i_def slice_def by (simp add: take_drop_cat)
    finally have "drop c v = alpn_bytes (i # new)" using new(2) len by (simp add: k_def)
    with new len k(1) \<open>k \<le> 255\<close> show ?thesis by (intro exI [of _ "i # new"]) auto
  next
    case False
    with 1(2,3) show ?thesis by (subst (asm) parse_alpn_loop.simps) simp
  qed
qed

lemma parse_alpn_ids_iff:
  assumes "length v < usize_limit"
  shows "parse_alpn_ids v = Inr ids \<longleftrightarrow> wf_alpn ids \<and> v = alpn_bytes ids"
proof
  assume "parse_alpn_ids v = Inr ids"
  then have "v \<noteq> []" "parse_alpn_loop v 0 [] = Inr ids" by (auto simp: parse_alpn_ids_def split: if_splits)
  with parse_alpn_loop_sound [of v 0 "[]" ids] show "wf_alpn ids \<and> v = alpn_bytes ids"
    by (auto simp: wf_alpn_def)
next
  assume "wf_alpn ids \<and> v = alpn_bytes ids"
  then have "v \<noteq> []" "parse_alpn_loop v 0 [] = Inr ids"
    using parse_alpn_loop_image [of ids v "[]" "[]"] assms
    by (auto simp: wf_alpn_def) (cases ids; simp)
  then show "parse_alpn_ids v = Inr ids" by (simp add: parse_alpn_ids_def)
qed

lemma parse_uncompressed_wf:
  "\<lbrakk>parse_uncompressed_loop m c ls = Inr (n, e); list_all wf_label ls\<rbrakk> \<Longrightarrow> wf_name n \<and> c < e \<and> e \<le> length m"
proof (induction m c ls rule: parse_uncompressed_loop.induct)
  case (1 m c ls)
  define k where "k = unat (m ! c)"
  define l where "l = slice m (c + 1) (c + 1 + k)"
  have c: "c < length m" using 1(2) by (subst (asm) parse_uncompressed_loop.simps) (auto simp: and_then_Inr)
  consider "m ! c = 0" "n = ls" "e = c + 1" "wire_len ls \<le> 255"
    | "0 < k" "m ! c \<noteq> 0" "m ! c AND 0xc0 = 0" "k \<le> 63" "c + 1 + k < usize_limit" "c + 1 + k \<le> length m"
      "is_valid_dns_label l" "parse_uncompressed_loop m (c + 1 + k) (ls @ [to_ascii_lowercase l]) = Inr (n, e)"
    using 1(2) by (subst (asm) parse_uncompressed_loop.simps)
      (auto simp: and_then_Inr Let_def k_def l_def MAX_DNS_LABEL_LEN_def MAX_DNS_NAME_LEN_def valid_label_utf8
        unat_gt_0 split: if_splits)
  then show ?case
  proof cases
    case 1
    then show ?thesis using \<open>list_all wf_label ls\<close> c
      by (auto simp: wf_name_def wire_len_def split: if_splits)
  next
    case 2
    have "wf_label (to_ascii_lowercase l)"
      by (rule wf_label_lower) (use 2 in \<open>auto simp: l_def simp flip: length_greater_0_conv\<close>)
    then have "wf_name n \<and> c + 1 + k < e \<and> e \<le> length m"
      using 2 1(3) c
      by (intro 1(1) [of "m ! c" "c + 1" "c + 1 + k" l l])
        (auto simp: k_def l_def valid_label_utf8 checked_add_usize_def MAX_DNS_LABEL_LEN_def)
    then show ?thesis by simp
  qed
qed

text \<open>What the parameter loop guarantees of the parameters it adds.\<close>

definition params_ok :: "svc_param list \<Rightarrow> bool" where
  "params_ok ps \<longleftrightarrow> sorted_wrt (\<lambda>p q. sp_key p < sp_key q) ps \<and>
     (\<forall>p \<in> set ps. validate_svc_param_value (sp_key p) (sp_value p) = Inr () \<and> length (sp_value p) \<le> 65535)"

lemma parse_params_ok:
  "\<lbrakk>parse_params_loop r c prev ps = Inr qs; params_ok ps;
     prev = (if ps = [] then None else Some (sp_key (last ps)))\<rbrakk> \<Longrightarrow> params_ok qs"
proof (induction "length r - c" arbitrary: c prev ps rule: less_induct)
  case 1: less
  show ?case
  proof (cases "c < length r")
    case True
    define f where "f = slice r c (c + 4)"
    define key where "key = u16_of_be [f ! 0, f ! 1]"
    define len where "len = unat (u16_of_be [f ! 2, f ! 3])"
    define v where "v = slice r (c + 4) (c + 4 + len)"
    define p where "p = \<lparr>sp_key = key, sp_value = v\<rparr>"
    have "c + 4 \<le> length r \<and> \<not> (case prev of Some p \<Rightarrow> key \<le> p | None \<Rightarrow> False) \<and>
      c + 4 + len \<le> length r \<and> validate_svc_param_value key v = Inr () \<and>
      parse_params_loop r (c + 4 + len) (Some key) (ps @ [p]) = Inr qs"
      using 1(2) [unfolded parse_params_loop.simps [of r c prev ps]] True
      by (auto simp: and_then_Inr Let_def p_def v_def len_def key_def f_def simp del: slice_nth
        split: if_splits option.splits)
    then have step: "c + 4 \<le> length r" "\<not> (case prev of Some p \<Rightarrow> key \<le> p | None \<Rightarrow> False)"
      "c + 4 + len \<le> length r" "validate_svc_param_value key v = Inr ()"
      "parse_params_loop r (c + 4 + len) (Some key) (ps @ [p]) = Inr qs" by blast+
    have "len < 2 ^ 16" unfolding len_def using unsigned_less [of "u16_of_be [f ! 2, f ! 3]", where 'a = nat] by simp
    then have "length v \<le> 65535" using step(3) by (simp add: v_def)
    moreover have "sp_key q < key" if "q \<in> set ps" for q
    proof -
      have "ps \<noteq> []" using that by auto
      then have "sp_key (last ps) < key" using step(2) 1(4) by simp
      moreover have "sp_key q \<le> sp_key (last ps)"
        using that \<open>ps \<noteq> []\<close> 1(3) by (cases ps rule: rev_cases) (auto simp: params_ok_def sorted_wrt_append less_imp_le)
      ultimately show ?thesis by simp
    qed
    ultimately have ok: "params_ok (ps @ [p])"
      using 1(3) step(4) by (auto simp: params_ok_def sorted_wrt_append p_def)
    show ?thesis by (rule 1(1) [OF _ step(5) ok]) (use True in \<open>simp_all add: p_def\<close>)
  next
    case False
    with 1(2,3) show ?thesis by (subst (asm) parse_params_loop.simps) simp
  qed
qed

lemma svcb_parse_params_ok: "svcb_parse_rdata rdata = Inr r \<Longrightarrow> params_ok (svc_params r)"
  by (auto simp: svcb_parse_rdata_def and_then_Inr Let_def params_ok_def [of "[]"]
      dest!: parse_params_ok split: if_splits)

lemma find_param_iff:
  "sorted_wrt (\<lambda>p q. sp_key p < sp_key q) ps \<Longrightarrow>
     List.find (\<lambda>p. sp_key p = k) ps = Some q \<longleftrightarrow> q \<in> set ps \<and> sp_key q = k"
  by (induction ps) auto

section \<open>Properties\<close>

text \<open>
  A service binding that parses is usable as it is: its parameter keys are strictly ascending,
  so each key has at most one value and lookup finds exactly that value; its target is a
  well-formed name; and neither accessor can fail, the protocol list being a list of identifiers of
  one to 255 bytes each.
\<close>

theorem svcb_parse_accessors:
  assumes "svcb_parse_rdata rdata = Inr r"
  shows "sorted_wrt (\<lambda>p q. sp_key p < sp_key q) (svc_params r) \<and> wf_name (target_name r) \<and>
    (\<forall>k v. (svcb_param r k = Some v) = (\<lparr>sp_key = k, sp_value = v\<rparr> \<in> set (svc_params r))) \<and>
    (\<exists>ids. alpn_ids r = Inr ids \<and> (\<forall>i \<in> set ids. 1 \<le> length i \<and> length i \<le> 255)) \<and>
    (\<exists>p. svcb_port r = Inr p)"
proof -
  have ok: "params_ok (svc_params r)" using svcb_parse_params_ok [OF assms] .
  then have sorted: "sorted_wrt (\<lambda>p q. sp_key p < sp_key q) (svc_params r)" by (simp add: params_ok_def)
  have find: "(svcb_param r k = Some v) = (\<lparr>sp_key = k, sp_value = v\<rparr> \<in> set (svc_params r))" for k v
  proof -
    have "(svcb_param r k = Some v) = (\<exists>q. q \<in> set (svc_params r) \<and> sp_key q = k \<and> sp_value q = v)"
      by (simp only: svcb_param_def map_option_eq_Some find_param_iff [OF sorted] conj_assoc)
    also have "\<dots> = (\<lparr>sp_key = k, sp_value = v\<rparr> \<in> set (svc_params r))"
    proof -
      have "\<lparr>sp_key = sp_key q, sp_value = sp_value q\<rparr> = q" for q :: svc_param by simp
      then show ?thesis by (metis svc_param.select_convs)
    qed
    finally show ?thesis .
  qed
  have val: "validate_svc_param_value k v = Inr () \<and> length v \<le> 65535" if "svcb_param r k = Some v" for k v
    using that ok find by (fastforce simp: params_ok_def)
  have "\<exists>ids. alpn_ids r = Inr ids \<and> (\<forall>i \<in> set ids. 1 \<le> length i \<and> length i \<le> 255)"
  proof (cases "svcb_param r SVCB_PARAM_ALPN")
    case (Some v)
    then obtain ids where "parse_alpn_ids v = Inr ids" "length v < usize_limit"
      using val [OF Some] by (auto simp: validate_svc_param_value_def svcb_param_defs and_then_Inr)
    with Some parse_alpn_ids_iff show ?thesis by (auto simp: alpn_ids_def wf_alpn_def)
  qed (simp add: alpn_ids_def)
  moreover have "\<exists>p. svcb_port r = Inr p"
    using val [of SVCB_PARAM_PORT]
    by (cases "svcb_param r SVCB_PARAM_PORT")
      (auto simp: svcb_port_def validate_svc_param_value_def svcb_param_defs split: if_splits)
  moreover have "wf_name (target_name r)"
    using assms parse_uncompressed_wf
    by (fastforce simp: svcb_parse_rdata_def and_then_Inr Let_def parse_uncompressed_dns_name_def split: if_splits)
  ultimately show ?thesis using sorted find by blast
qed

theorem svcb_parse_accessors_witness:
  "\<exists>r. svcb_parse_rdata [0, 1, 0] = Inr r \<and> wf_name (target_name r) \<and>
     (\<exists>ids. alpn_ids r = Inr ids) \<and> (\<exists>p. svcb_port r = Inr p)"
proof -
  obtain r where r: "svcb_parse_rdata [0, 1, 0] = Inr r"
    by (simp add: svcb_parse_rdata_def parse_uncompressed_dns_name_def parse_uncompressed_loop.simps
        parse_params_loop.simps get_byte_def wire_len_def MAX_DNS_NAME_LEN_def Let_def)
  from svcb_parse_accessors [OF r] r show ?thesis by blast
qed

text \<open>
  The protocol list parser accepts exactly the encodings of non-empty lists of identifiers of
  one to 255 bytes, and returns the list that was encoded.
\<close>

theorem parse_alpn_ids_exact:
  assumes "length v < usize_limit"
  shows "parse_alpn_ids v = Inr ids \<longleftrightarrow> wf_alpn ids \<and> v = alpn_bytes ids"
  using assms by (rule parse_alpn_ids_iff)

theorem parse_alpn_ids_exact_witness:
  "parse_alpn_ids [2, 104, 50] = Inr [[104, 50]] \<longleftrightarrow>
     wf_alpn [[104, 50]] \<and> [2, 104, 50] = alpn_bytes [[104, 50]]"
  by (rule parse_alpn_ids_exact) simp

end
