(* ===== verification/Network_Policy.thy ===== *)
theory Network_Policy
  imports Prelude
begin

text \<open>
  \<open>hns-core/src/network_policy.rs\<close>: which addresses, host names and ports native networking may be
  asked to reach.  An IPv4 address is its four octets and an IPv6 address its eight segments, as
  \<open>octets()\<close> and \<open>segments()\<close> return them.
\<close>

section \<open>Definitions\<close>

type_synonym ipv4_addr = "u8 \<times> u8 \<times> u8 \<times> u8"
type_synonym ipv6_addr = "u16 list"

datatype ip_addr = V4 ipv4_addr | V6 ipv6_addr

definition browser_special_use_suffixes :: "rust_str list" where
  "browser_special_use_suffixes =
     [ascii ''alt'', ascii ''arpa'', ascii ''example'', ascii ''internal'', ascii ''invalid'',
      ascii ''local'', ascii ''localhost'', ascii ''onion'', ascii ''test'']"

fun is_public_ipv4 :: "ipv4_addr \<Rightarrow> bool" where
  "is_public_ipv4 (a, b, c, d) \<longleftrightarrow>
     \<not> (a = 0 \<or> a = 10 \<or> (a = 100 \<and> 64 \<le> b \<and> b \<le> 127) \<or> a = 127 \<or> (a = 169 \<and> b = 254) \<or>
        (a = 172 \<and> 16 \<le> b \<and> b \<le> 31) \<or> (a = 192 \<and> b = 0 \<and> c = 0) \<or> (a = 192 \<and> b = 0 \<and> c = 2) \<or>
        (a = 192 \<and> b = 88 \<and> c = 99) \<or> (a = 192 \<and> b = 168) \<or> (a = 198 \<and> 18 \<le> b \<and> b \<le> 19) \<or>
        (a = 198 \<and> b = 51 \<and> c = 100) \<or> (a = 203 \<and> b = 0 \<and> c = 113) \<or> (224 \<le> a \<and> a \<le> 255))"

text \<open>\<open>Ipv4Addr::new\<close> from two segments, and \<open>Ipv6Addr::to_ipv4_mapped\<close> (\<open>::ffff:a.b.c.d\<close>).\<close>

definition ipv4_of_segments :: "u16 \<Rightarrow> u16 \<Rightarrow> ipv4_addr" where
  "ipv4_of_segments x y = (ucast (drop_bit 8 x), ucast x, ucast (drop_bit 8 y), ucast y)"

definition to_ipv4_mapped :: "ipv6_addr \<Rightarrow> ipv4_addr option" where
  "to_ipv4_mapped s =
     (if take 6 s = [0, 0, 0, 0, 0, 0xffff] then Some (ipv4_of_segments (s ! 6) (s ! 7)) else None)"

definition is_public_ipv6 :: "ipv6_addr \<Rightarrow> bool" where
  "is_public_ipv6 s =
     (case to_ipv4_mapped s of
        Some mapped \<Rightarrow> is_public_ipv4 mapped
      | None \<Rightarrow>
          (if take 6 s = [0x0064, 0xff9b, 0, 0, 0, 0] then is_public_ipv4 (ipv4_of_segments (s ! 6) (s ! 7))
           else if s ! 0 AND 0xe000 \<noteq> 0x2000 then False
           else \<not> (s ! 0 = 0x2001 \<and> s ! 1 = 0 \<or>
                   take 3 s = [0x2001, 0x0002, 0] \<or>
                   s ! 0 = 0x2001 \<and> s ! 1 AND 0xfff0 = 0x0010 \<or>
                   s ! 0 = 0x2001 \<and> s ! 1 AND 0xfff0 = 0x0020 \<or>
                   take 2 s = [0x2001, 0x0db8] \<or>
                   s ! 0 = 0x2002 \<or>
                   s ! 0 AND 0xfff0 = 0x3ff0)))"

fun is_publicly_routable :: "ip_addr \<Rightarrow> bool" where
  "is_publicly_routable (V4 a) = is_public_ipv4 a"
| "is_publicly_routable (V6 s) = is_public_ipv6 s"

definition strip_suffix_dot :: "rust_str \<Rightarrow> rust_str" where
  "strip_suffix_dot host = (if host \<noteq> [] \<and> last host = 46 then butlast host else host)"

definition is_browser_special_use_host :: "rust_str \<Rightarrow> bool" where
  "is_browser_special_use_host host =
     (let suffix = last (str_split 46 (strip_suffix_dot host)) in
      \<exists>candidate \<in> set browser_special_use_suffixes.
        to_ascii_lowercase suffix = to_ascii_lowercase candidate)"

definition is_browser_blocked_port :: "u16 \<Rightarrow> bool" where
  "is_browser_blocked_port port \<longleftrightarrow>
     port \<in> {0, 1, 7, 9, 11, 13, 15, 17, 19, 20, 21, 22, 23, 25, 37, 42, 43, 53, 69, 77, 79, 87, 95,
       101, 102, 103, 104, 109, 110, 111, 113, 115, 117, 119, 123, 135, 137, 139, 143, 161, 179, 389,
       427, 465, 512, 513, 514, 515, 526, 530, 531, 532, 540, 548, 554, 556, 563, 587, 601, 636, 989,
       990, 993, 995, 1719, 1720, 1723, 2049, 3659, 4045, 4190, 5060, 5061, 6000, 6566, 6665, 6666,
       6667, 6668, 6669, 6679, 6697, 10080}"

subsection \<open>Reference tables\<close>

text \<open>Address blocks as a base and a prefix length, and membership of a 32-bit address.\<close>

definition ipv4_value :: "ipv4_addr \<Rightarrow> nat" where
  "ipv4_value = (\<lambda>(a, b, c, d). ((unat a * 256 + unat b) * 256 + unat c) * 256 + unat d)"

definition in_block :: "nat \<Rightarrow> nat \<times> nat \<Rightarrow> bool" where
  "in_block addr = (\<lambda>(base, len). addr div 2 ^ (32 - len) = base div 2 ^ (32 - len))"

definition special_ipv4_blocks :: "(nat \<times> nat) list" where
  "special_ipv4_blocks =
     map (\<lambda>(o4, len). (ipv4_value o4, len))
       [((0, 0, 0, 0), 8), ((10, 0, 0, 0), 8), ((100, 64, 0, 0), 10), ((127, 0, 0, 0), 8),
        ((169, 254, 0, 0), 16), ((172, 16, 0, 0), 12), ((192, 0, 0, 0), 24), ((192, 0, 2, 0), 24),
        ((192, 88, 99, 0), 24), ((192, 168, 0, 0), 16), ((198, 18, 0, 0), 15), ((198, 51, 100, 0), 24),
        ((203, 0, 113, 0), 24), ((224, 0, 0, 0), 3)]"

text \<open>The documentation block 3fff::/20.\<close>

definition in_3fff_20 :: "ipv6_addr \<Rightarrow> bool" where
  "in_3fff_20 s \<longleftrightarrow> s ! 0 = 0x3fff \<and> s ! 1 AND 0xf000 = 0"

section \<open>Lemmas\<close>

lemma byte_div: "(n * 256 + unat (d :: u8)) div 256 = n"
  by simp

lemma ipv4_value_div:
  "ipv4_value (a, b, c, d) div 256 = (unat a * 256 + unat b) * 256 + unat c"
  "ipv4_value (a, b, c, d) div 65536 = unat a * 256 + unat b"
  "ipv4_value (a, b, c, d) div 16777216 = unat a"
proof -
  show c: "ipv4_value (a, b, c, d) div 256 = (unat a * 256 + unat b) * 256 + unat c"
    unfolding ipv4_value_def prod.case by (rule byte_div)
  have "ipv4_value (a, b, c, d) div 65536 = ipv4_value (a, b, c, d) div 256 div 256"
    by (simp add: div_mult2_eq [symmetric])
  then show b: "ipv4_value (a, b, c, d) div 65536 = unat a * 256 + unat b"
    unfolding c byte_div .
  have "ipv4_value (a, b, c, d) div 16777216 = ipv4_value (a, b, c, d) div 65536 div 256"
    by (simp add: div_mult2_eq [symmetric])
  then show "ipv4_value (a, b, c, d) div 16777216 = unat a"
    unfolding b byte_div .
qed

lemma scaled_div: "0 < k \<Longrightarrow> (x * (m * k) + y) div k = x * m + y div (k :: nat)"
  using div_mult_self3 [of k "x * m" y] by (simp add: ac_simps)

lemma ipv4_value_div_fine:
  "ipv4_value (a, b, c, d) div 4194304 = unat a * 4 + unat b div 64"
  "ipv4_value (a, b, c, d) div 1048576 = unat a * 16 + unat b div 16"
  "ipv4_value (a, b, c, d) div 131072 = unat a * 128 + unat b div 2"
  "ipv4_value (a, b, c, d) div 536870912 = unat a div 32"
proof -
  note d = ipv4_value_div(2,3) [of a b c d]
  note split = div_mult2_eq [of "ipv4_value (a, b, c, d)"]
  show "ipv4_value (a, b, c, d) div 4194304 = unat a * 4 + unat b div 64"
    using split [of 65536 64] scaled_div [of 64 "unat a" 4 "unat b"] d by simp
  show "ipv4_value (a, b, c, d) div 1048576 = unat a * 16 + unat b div 16"
    using split [of 65536 16] scaled_div [of 16 "unat a" 16 "unat b"] d by simp
  show "ipv4_value (a, b, c, d) div 131072 = unat a * 128 + unat b div 2"
    using split [of 65536 2] scaled_div [of 2 "unat a" 128 "unat b"] d by simp
  show "ipv4_value (a, b, c, d) div 536870912 = unat a div 32"
    using split [of 16777216 32] d by simp
qed

lemmas block_divs = ipv4_value_div ipv4_value_div_fine

lemma quotient_digits:
  "\<lbrakk>0 < m; y div k < m; q < m\<rbrakk> \<Longrightarrow> x * m + y div k = p * m + q \<longleftrightarrow> x = p \<and> y div k = (q :: nat)"
  by (metis add.commute add_cancel_right_left div_less div_mult_self3 less_numeral_extra(3) mod_less
      mod_mult_self3)

lemma two_digits: "\<lbrakk>y < 256; q < 256\<rbrakk> \<Longrightarrow> x * 256 + y = p * 256 + q \<longleftrightarrow> x = p \<and> y = (q :: nat)"
  using quotient_digits [of 256 y 1 q x p] by simp

lemma special_blocks_iff:
  "(\<exists>blk \<in> set special_ipv4_blocks. in_block (ipv4_value (a, b, c, d)) blk) \<longleftrightarrow>
     \<not> is_public_ipv4 (a, b, c, d)"
proof -
  define x y z where "x = unat a" and "y = unat b" and "z = unat c"
  have bounds: "x < 256" "y < 256" "z < 256" by (simp_all only: x_def y_def z_def unat_u8_less)
  have l: "(\<exists>blk \<in> set special_ipv4_blocks. in_block (ipv4_value (a, b, c, d)) blk) \<longleftrightarrow>
      x = 0 \<or> x = 10 \<or> x * 4 + y div 64 = 401 \<or> x = 127 \<or> x * 256 + y = 43518 \<or>
      x * 16 + y div 16 = 2753 \<or> (x * 256 + y) * 256 + z = 12582912 \<or> (x * 256 + y) * 256 + z = 12582914 \<or>
      (x * 256 + y) * 256 + z = 12605539 \<or> x * 256 + y = 49320 \<or> x * 128 + y div 2 = 25353 \<or>
      (x * 256 + y) * 256 + z = 12989284 \<or> (x * 256 + y) * 256 + z = 13303921 \<or> x div 32 = 7"
    by (simp add: special_ipv4_blocks_def in_block_def block_divs flip: x_def y_def z_def)
  have q: "x * 4 + y div 64 = 401 \<longleftrightarrow> x = 100 \<and> 64 \<le> y \<and> y \<le> 127"
    "x * 16 + y div 16 = 2753 \<longleftrightarrow> x = 172 \<and> 16 \<le> y \<and> y \<le> 31"
    "x * 128 + y div 2 = 25353 \<longleftrightarrow> x = 198 \<and> 18 \<le> y \<and> y \<le> 19" "x div 32 = 7 \<longleftrightarrow> 224 \<le> x \<and> x \<le> 255"
    using bounds quotient_digits [of 4 y 64 1 x 100] quotient_digits [of 16 y 16 1 x 172]
      quotient_digits [of 128 y 2 9 x 198] by auto
  have w: "x * 256 + y = p * 256 + k \<longleftrightarrow> x = p \<and> y = k"
    "(x * 256 + y) * 256 + z = (p * 256 + k) * 256 + m \<longleftrightarrow> x = p \<and> y = k \<and> z = m"
    if "k < 256" "m < 256" for p k m
    using that bounds by (simp_all only: two_digits conj_assoc)
  have w': "x * 256 + y = 43518 \<longleftrightarrow> x = 169 \<and> y = 254" "x * 256 + y = 49320 \<longleftrightarrow> x = 192 \<and> y = 168"
    "(x * 256 + y) * 256 + z = 12582912 \<longleftrightarrow> x = 192 \<and> y = 0 \<and> z = 0"
    "(x * 256 + y) * 256 + z = 12582914 \<longleftrightarrow> x = 192 \<and> y = 0 \<and> z = 2"
    "(x * 256 + y) * 256 + z = 12605539 \<longleftrightarrow> x = 192 \<and> y = 88 \<and> z = 99"
    "(x * 256 + y) * 256 + z = 12989284 \<longleftrightarrow> x = 198 \<and> y = 51 \<and> z = 100"
    "(x * 256 + y) * 256 + z = 13303921 \<longleftrightarrow> x = 203 \<and> y = 0 \<and> z = 113"
    using w [of 254 0 169] w [of 168 0 192] w [of 0 0 192] w [of 0 2 192] w [of 88 99 192]
      w [of 51 100 198] w [of 0 113 203] by simp_all
  have "\<not> is_public_ipv4 (a, b, c, d) \<longleftrightarrow>
      x = 0 \<or> x = 10 \<or> (x = 100 \<and> 64 \<le> y \<and> y \<le> 127) \<or> x = 127 \<or> (x = 169 \<and> y = 254) \<or>
      (x = 172 \<and> 16 \<le> y \<and> y \<le> 31) \<or> (x = 192 \<and> y = 0 \<and> z = 0) \<or> (x = 192 \<and> y = 0 \<and> z = 2) \<or>
      (x = 192 \<and> y = 88 \<and> z = 99) \<or> (x = 192 \<and> y = 168) \<or> (x = 198 \<and> 18 \<le> y \<and> y \<le> 19) \<or>
      (x = 198 \<and> y = 51 \<and> z = 100) \<or> (x = 203 \<and> y = 0 \<and> z = 113) \<or> (224 \<le> x \<and> x \<le> 255)"
    by (simp only: is_public_ipv4.simps word_le_nat_alt word_unat_eq_iff x_def y_def z_def not_not
      unsigned_numeral) (simp add: conj_ac)
  then show ?thesis unfolding l q w' by (rule sym)
qed

text \<open>Stripping and splitting a host name.\<close>

lemma last_split_suffix: "last (str_split b (s @ b # t)) = last (str_split b t)"
proof (induction s)
  case (Cons x s)
  have "length (str_split b (s @ b # t)) > 1"
    by (induction s) (auto split: list.splits simp: Suc_lessI)
  with Cons show ?case by (auto split: list.splits)
qed simp

lemma strip_suffix_dot_append: "h \<noteq> [] \<Longrightarrow> strip_suffix_dot (s @ h) = s @ strip_suffix_dot h"
  by (simp add: strip_suffix_dot_def butlast_append)

lemma lower_byte_dot [simp]: "to_ascii_lower_byte b = 46 \<longleftrightarrow> b = 46"
  by (auto simp: to_ascii_lower_byte_def is_ascii_upper_def word_le_nat_alt word_unat_eq_iff
      unat_word_ariths)

lemma str_split_lower:
  "str_split 46 (to_ascii_lowercase s) = map to_ascii_lowercase (str_split 46 s)"
  by (induction s) (auto simp: to_ascii_lowercase_def split: list.splits)

lemma strip_suffix_dot_lower:
  "strip_suffix_dot (to_ascii_lowercase h) = to_ascii_lowercase (strip_suffix_dot h)"
  by (cases "h = []") (auto simp: strip_suffix_dot_def to_ascii_lowercase_def last_map map_butlast)

text \<open>Octets through segments, and masks as divisions.\<close>

lemma segment_octets:
  "ucast (drop_bit 8 (word_cat (a :: u8) (b :: u8) :: u16)) = a" "ucast (word_cat a b :: u16) = b"
  by (auto intro!: bit_word_eqI simp: bit_simps bit_word_cat_iff)

lemma ipv4_of_segments_cat:
  "ipv4_of_segments (word_cat a b) (word_cat c d) = (a, b, c, d)"
  by (simp add: ipv4_of_segments_def segment_octets)

lemma and_high_mask:
  "unat ((w :: u16) AND NOT (mask k)) = (unat w div 2 ^ k) * 2 ^ k"
proof -
  have "w AND NOT (mask k) = push_bit k (drop_bit k w)"
    by (auto intro!: bit_word_eqI simp: bit_simps)
  then have "unat (w AND NOT (mask k)) = (unat w div 2 ^ k) * 2 ^ k mod 2 ^ 16"
    by (simp only: unsigned_push_bit_eq unat_drop_bit_div)
      (simp add: push_bit_eq_mult [of k "unat w div 2 ^ k"] take_bit_eq_mod)
  moreover have "(unat w div 2 ^ k) * 2 ^ k < 2 ^ 16"
    by (rule le_less_trans [OF div_times_less_eq_dividend])
      (use unsigned_less [of w, where 'a = nat] in simp)
  ultimately show ?thesis by simp
qed

lemma segment_masks:
  "(w :: u16) AND 0xe000 = 0x2000 \<longleftrightarrow> unat w div 2 ^ 13 = 1"
  "w AND 0xfff0 = 0x3ff0 \<longleftrightarrow> unat w div 2 ^ 4 = 0x3ff"
proof -
  have "(0xe000 :: u16) = NOT (mask 13)" "(0xfff0 :: u16) = NOT (mask 4)"
    by (simp_all add: mask_eq_exp_minus_1)
  then have "unat (w AND 0xe000) = (unat w div 2 ^ 13) * 2 ^ 13"
    "unat (w AND 0xfff0) = (unat w div 2 ^ 4) * 2 ^ 4"
    by (simp_all only: and_high_mask)
  then show "(w :: u16) AND 0xe000 = 0x2000 \<longleftrightarrow> unat w div 2 ^ 13 = 1"
    "w AND 0xfff0 = 0x3ff0 \<longleftrightarrow> unat w div 2 ^ 4 = 0x3ff"
    by (simp_all add: word_unat_eq_iff)
qed

text \<open>
  An IPv4 destination is admitted exactly when it lies in none of the special-purpose
  blocks of the reference table, whether it is given as an IPv4 address, as an IPv4-mapped IPv6
  address or behind the well-known NAT64 prefix: no embedding gets around the check.
\<close>
theorem public_ipv4_table:
  "(is_publicly_routable (V4 (a, b, c, d)) \<longleftrightarrow>
     \<not> (\<exists>blk \<in> set special_ipv4_blocks. in_block (ipv4_value (a, b, c, d)) blk)) \<and>
   (is_publicly_routable (V6 ([0, 0, 0, 0, 0, 0xffff] @ [word_cat a b, word_cat c d])) \<longleftrightarrow>
     is_publicly_routable (V4 (a, b, c, d))) \<and>
   (is_publicly_routable (V6 ([0x64, 0xff9b, 0, 0, 0, 0] @ [word_cat a b, word_cat c d])) \<longleftrightarrow>
     is_publicly_routable (V4 (a, b, c, d)))"
  by (simp only: special_blocks_iff is_publicly_routable.simps not_not)
    (simp add: is_public_ipv6_def to_ipv4_mapped_def ipv4_of_segments_cat del: is_public_ipv4.simps)

text \<open>
  The last exclusion of the IPv6 check covers 3ff0::/12, 256 times as much as the
  documentation block 3fff::/20 its comment names: 3ff0::1 is rejected without lying in that block.
\<close>
lemma documentation_block_too_wide:
  "unat (s ! 0) div 2 ^ 4 = 0x3ff \<Longrightarrow> \<not> is_public_ipv6 s"
  "\<not> in_3fff_20 [0x3ff0, 0, 0, 0, 0, 0, 0, 1]" "\<not> is_public_ipv6 [0x3ff0, 0, 0, 0, 0, 0, 0, 1]"
proof -
  assume "unat (s ! 0) div 2 ^ 4 = 0x3ff"
  moreover from this have "s ! 0 \<noteq> 0" "s ! 0 \<noteq> 0x64" by auto
  then have "take 6 s \<noteq> [0, 0, 0, 0, 0, 0xffff]" "take 6 s \<noteq> [0x64, 0xff9b, 0, 0, 0, 0]"
    by (cases s; simp)+
  ultimately show "\<not> is_public_ipv6 s"
    by (simp add: is_public_ipv6_def to_ipv4_mapped_def segment_masks)
qed (simp_all add: in_3fff_20_def is_public_ipv6_def to_ipv4_mapped_def)

text \<open>
  A special-use name covers all its subdomains, with or without the final dot and in any
  letter case: prefixing labels, appending the root dot and folding ASCII case leave the decision
  unchanged, and every listed suffix is itself refused.
\<close>
theorem special_use_host_closed:
  "(h \<noteq> [] \<longrightarrow> is_browser_special_use_host (sub @ [46] @ h) = is_browser_special_use_host h) \<and>
   (h \<noteq> [] \<and> last h \<noteq> 46 \<longrightarrow> is_browser_special_use_host (h @ [46]) = is_browser_special_use_host h) \<and>
   is_browser_special_use_host (to_ascii_lowercase h) = is_browser_special_use_host h \<and>
   (h \<in> set browser_special_use_suffixes \<longrightarrow> is_browser_special_use_host h)"
proof (intro conjI impI)
  show "h \<noteq> [] \<Longrightarrow> is_browser_special_use_host (sub @ [46] @ h) = is_browser_special_use_host h"
    using strip_suffix_dot_append [of h "sub @ [46]"]
    by (simp add: is_browser_special_use_host_def last_split_suffix)
  show "h \<noteq> [] \<and> last h \<noteq> 46 \<Longrightarrow> is_browser_special_use_host (h @ [46]) = is_browser_special_use_host h"
    by (simp add: is_browser_special_use_host_def strip_suffix_dot_def)
  show "is_browser_special_use_host (to_ascii_lowercase h) = is_browser_special_use_host h"
    by (simp add: is_browser_special_use_host_def strip_suffix_dot_lower str_split_lower last_map)
  show "h \<in> set browser_special_use_suffixes \<Longrightarrow> is_browser_special_use_host h"
    by (auto simp: browser_special_use_suffixes_def is_browser_special_use_host_def Let_def
        strip_suffix_dot_def ascii_def)
qed

theorem special_use_host_closed_witness:
  "is_browser_special_use_host (ascii ''printer'' @ [46] @ ascii ''local'') \<and>
   is_browser_special_use_host (ascii ''local'' @ [46]) \<and>
   is_browser_special_use_host (ascii ''local'')"
proof -
  have "ascii ''local'' \<in> set browser_special_use_suffixes"
    by (simp add: browser_special_use_suffixes_def)
  moreover have "ascii ''local'' \<noteq> []" "last (ascii ''local'') \<noteq> 46" by (simp_all add: ascii_def)
  ultimately show ?thesis using special_use_host_closed [of "ascii ''local''" "ascii ''printer''"] by simp
qed

end
