(* ===== verification/Resource.thy ===== *)
theory Resource
  imports Dns_Message
begin

text \<open>
  \<open>hns-core/src/resource.rs\<close>: decoding of the resource stored on chain for a name into DNS records.
  Names inside a resource use the compressed wire format over the resource's own bytes.
\<close>

section \<open>Definitions\<close>

definition DEFAULT_HANDSHAKE_RESOURCE_TTL :: u32 where "DEFAULT_HANDSHAKE_RESOURCE_TTL = 21600"
definition MAX_HANDSHAKE_RESOURCE_RECORDS :: nat where "MAX_HANDSHAKE_RESOURCE_RECORDS = 128"
definition MAX_HANDSHAKE_TXT_STRINGS :: nat where "MAX_HANDSHAKE_TXT_STRINGS = 64"
definition RESOURCE_VERSION :: u8 where "RESOURCE_VERSION = 0"
definition HS_TYPE_DS :: u8 where "HS_TYPE_DS = 0"
definition HS_TYPE_NS :: u8 where "HS_TYPE_NS = 1"
definition HS_TYPE_GLUE4 :: u8 where "HS_TYPE_GLUE4 = 2"
definition HS_TYPE_GLUE6 :: u8 where "HS_TYPE_GLUE6 = 3"
definition HS_TYPE_SYNTH4 :: u8 where "HS_TYPE_SYNTH4 = 4"
definition HS_TYPE_SYNTH6 :: u8 where "HS_TYPE_SYNTH6 = 5"
definition HS_TYPE_TXT :: u8 where "HS_TYPE_TXT = 6"

datatype resource_error = ResMalformed | UnsupportedVersion | UnsupportedRecordType | TooManyRecords

record res_cursor =
  rc_data :: bytes
  rc_offset :: nat

definition rc_new :: "bytes \<Rightarrow> res_cursor" where
  "rc_new data = \<lparr>rc_data = data, rc_offset = 0\<rparr>"

definition rc_remaining :: "res_cursor \<Rightarrow> nat" where
  "rc_remaining c = length (rc_data c) - rc_offset c"

definition rc_read_u8 :: "res_cursor \<Rightarrow> resource_error + (u8 \<times> res_cursor)" where
  "rc_read_u8 c =
     and_then (ok_or ResMalformed (get_byte (rc_data c) (rc_offset c))) (\<lambda>b.
     Inr (b, c\<lparr>rc_offset := rc_offset c + 1\<rparr>))"

definition rc_read_bytes :: "nat \<Rightarrow> res_cursor \<Rightarrow> resource_error + (bytes \<times> res_cursor)" where
  "rc_read_bytes len c =
     and_then (ok_or ResMalformed (checked_add_usize (rc_offset c) len)) (\<lambda>fin.
     and_then (ok_or ResMalformed (get_range (rc_data c) (rc_offset c) fin)) (\<lambda>bs.
     Inr (bs, c\<lparr>rc_offset := fin\<rparr>)))"

definition rc_read_array :: "nat \<Rightarrow> res_cursor \<Rightarrow> resource_error + (bytes \<times> res_cursor)" where
  "rc_read_array n c = rc_read_bytes n c"

definition rc_read_u16_be :: "res_cursor \<Rightarrow> resource_error + (u16 \<times> res_cursor)" where
  "rc_read_u16_be c = and_then (rc_read_array 2 c) (\<lambda>(bs, c). Inr (u16_of_be bs, c))"

definition rc_read_len_u8_bytes :: "res_cursor \<Rightarrow> resource_error + (bytes \<times> res_cursor)" where
  "rc_read_len_u8_bytes c = and_then (rc_read_u8 c) (\<lambda>(len, c). rc_read_bytes (unat len) c)"

definition rc_read_name :: "res_cursor \<Rightarrow> resource_error + (dns_name \<times> res_cursor)" where
  "rc_read_name c =
     and_then (map_err (\<lambda>_. ResMalformed) (parse_wire (rc_data c) (rc_offset c))) (\<lambda>(name, next).
     if next \<le> rc_offset c \<or> next > length (rc_data c) then Inl ResMalformed
     else Inr (name, c\<lparr>rc_offset := next\<rparr>))"

subsection \<open>Synthesized names\<close>

definition base32hex_alphabet :: rust_str where
  "base32hex_alphabet = ascii ''0123456789abcdefghijklmnopqrstuv''"

fun base32_emit :: "u32 \<Rightarrow> nat \<Rightarrow> rust_str \<times> nat" where
  "base32_emit buffer bits =
     (if bits \<ge> 5 then
        let index = unat (drop_bit (bits - 5) buffer AND 0x1f);
            (out, bits') = base32_emit buffer (bits - 5)
        in (base32hex_alphabet ! index # out, bits')
      else ([], bits))"

fun base32_loop :: "u32 \<Rightarrow> nat \<Rightarrow> bytes \<Rightarrow> rust_str" where
  "base32_loop buffer bits [] =
     (if bits > 0 then [base32hex_alphabet ! unat (push_bit (5 - bits) buffer AND 0x1f)] else [])"
| "base32_loop buffer bits (byte # rest') =
     (let buffer = push_bit 8 buffer OR ucast byte;
          (out, bits) = base32_emit buffer (bits + 8)
      in out @ base32_loop buffer bits rest')"

definition base32hex_nopad :: "bytes \<Rightarrow> rust_str" where
  "base32hex_nopad input = base32_loop 0 0 input"

definition synth_name :: "bytes \<Rightarrow> resource_error + dns_name" where
  "synth_name address =
     map_err (\<lambda>_. ResMalformed)
       (from_ascii (ascii ''_'' @ base32hex_nopad address @ ascii ''._synth''))"

subsection \<open>Records\<close>

definition hs_record :: "dns_name \<Rightarrow> record_type \<Rightarrow> u32 \<Rightarrow> bytes \<Rightarrow> resource_record" where
  "hs_record name ty ttl rdata =
     \<lparr>rr_name = name, rr_type = ty, rr_class = 1, rr_ttl = ttl, rr_rdata = rdata\<rparr>"

definition push_record ::
  "resource_record list \<Rightarrow> resource_record \<Rightarrow> resource_error + resource_record list" where
  "push_record records r =
     (if length records \<ge> MAX_HANDSHAKE_RESOURCE_RECORDS then Inl TooManyRecords
      else Inr (records @ [r]))"

definition name_rdata :: "dns_name \<Rightarrow> resource_error + bytes" where
  "name_rdata name = map_err (\<lambda>_. ResMalformed) (encode_wire name [])"

text \<open>\<open>ends_with\<close> on slices.\<close>

definition is_subdomain_or_equal :: "dns_name \<Rightarrow> dns_name \<Rightarrow> bool" where
  "is_subdomain_or_equal name parent \<longleftrightarrow>
     length parent \<le> length name \<and> drop (length name - length parent) name = parent"

fun read_texts :: "nat \<Rightarrow> bytes \<Rightarrow> res_cursor \<Rightarrow> resource_error + (bytes \<times> res_cursor)" where
  "read_texts 0 rdata c = Inr (rdata, c)"
| "read_texts (Suc n) rdata c =
     and_then (rc_read_len_u8_bytes c) (\<lambda>(text, c).
     read_texts n (rdata @ [word_of_nat (length text)] @ text) c)"

text \<open>The arms of the match on the record type, in the order of the source.\<close>

definition push_ns ::
  "dns_name \<Rightarrow> u32 \<Rightarrow> dns_name \<Rightarrow> resource_record list \<Rightarrow> resource_error + resource_record list" where
  "push_ns owner ttl ns records =
     and_then (name_rdata ns) (\<lambda>rdata. push_record records (hs_record owner TypeNs ttl rdata))"

definition decode_ds ::
  "dns_name \<Rightarrow> u32 \<Rightarrow> resource_record list \<Rightarrow> res_cursor \<Rightarrow>
   resource_error + (resource_record list \<times> res_cursor)" where
  "decode_ds owner ttl records c =
     and_then (rc_read_u16_be c) (\<lambda>(key_tag, c).
     and_then (rc_read_u8 c) (\<lambda>(algorithm, c).
     and_then (rc_read_u8 c) (\<lambda>(digest_type, c).
     and_then (rc_read_len_u8_bytes c) (\<lambda>(digest, c).
     and_then (push_record records (hs_record owner TypeDs ttl
         (u16_to_be key_tag @ [algorithm] @ [digest_type] @ digest))) (\<lambda>records.
     Inr (records, c))))))"

definition decode_ns ::
  "dns_name \<Rightarrow> u32 \<Rightarrow> resource_record list \<Rightarrow> res_cursor \<Rightarrow>
   resource_error + (resource_record list \<times> res_cursor)" where
  "decode_ns owner ttl records c =
     and_then (rc_read_name c) (\<lambda>(ns, c).
     and_then (push_ns owner ttl ns records) (\<lambda>records.
     Inr (records, c)))"

definition decode_glue ::
  "nat \<Rightarrow> record_type \<Rightarrow> dns_name \<Rightarrow> u32 \<Rightarrow> resource_record list \<Rightarrow> res_cursor \<Rightarrow>
   resource_error + (resource_record list \<times> res_cursor)" where
  "decode_glue n ty owner ttl records c =
     and_then (rc_read_name c) (\<lambda>(ns, c).
     and_then (rc_read_array n c) (\<lambda>(address, c).
     and_then (push_ns owner ttl ns records) (\<lambda>records.
     if is_subdomain_or_equal ns owner then
       and_then (push_record records (hs_record ns ty ttl address)) (\<lambda>records. Inr (records, c))
     else Inr (records, c))))"

definition decode_synth ::
  "nat \<Rightarrow> record_type \<Rightarrow> dns_name \<Rightarrow> u32 \<Rightarrow> resource_record list \<Rightarrow> res_cursor \<Rightarrow>
   resource_error + (resource_record list \<times> res_cursor)" where
  "decode_synth n ty owner ttl records c =
     and_then (rc_read_array n c) (\<lambda>(address, c).
     and_then (synth_name address) (\<lambda>ns.
     and_then (push_ns owner ttl ns records) (\<lambda>records.
     and_then (push_record records (hs_record ns ty ttl address)) (\<lambda>records.
     Inr (records, c)))))"

definition decode_txt ::
  "dns_name \<Rightarrow> u32 \<Rightarrow> resource_record list \<Rightarrow> res_cursor \<Rightarrow>
   resource_error + (resource_record list \<times> res_cursor)" where
  "decode_txt owner ttl records c =
     and_then (rc_read_u8 c) (\<lambda>(count, c).
     if unat count > MAX_HANDSHAKE_TXT_STRINGS then Inl TooManyRecords else
     and_then (read_texts (unat count) [] c) (\<lambda>(rdata, c).
     and_then (push_record records (hs_record owner TypeTxt ttl rdata)) (\<lambda>records.
     Inr (records, c))))"

definition decode_record ::
  "dns_name \<Rightarrow> u32 \<Rightarrow> u8 \<Rightarrow> resource_record list \<Rightarrow> res_cursor \<Rightarrow>
   resource_error + (resource_record list \<times> res_cursor)" where
  "decode_record owner ttl ty records c =
     (if ty = HS_TYPE_DS then decode_ds owner ttl records c
      else if ty = HS_TYPE_NS then decode_ns owner ttl records c
      else if ty = HS_TYPE_GLUE4 then decode_glue 4 TypeA owner ttl records c
      else if ty = HS_TYPE_GLUE6 then decode_glue 16 TypeAaaa owner ttl records c
      else if ty = HS_TYPE_SYNTH4 then decode_synth 4 TypeA owner ttl records c
      else if ty = HS_TYPE_SYNTH6 then decode_synth 16 TypeAaaa owner ttl records c
      else if ty = HS_TYPE_TXT then decode_txt owner ttl records c
      else Inl UnsupportedRecordType)"

text \<open>The cursor only moves forward, which is why the loop over the records ends.\<close>

definition forward :: "res_cursor \<Rightarrow> res_cursor \<Rightarrow> bool" where
  "forward c d \<longleftrightarrow> rc_data d = rc_data c \<and> rc_offset c \<le> rc_offset d"

lemma forward_refl [simp]: "forward c c"
  by (simp add: forward_def)

lemma forward_trans: "\<lbrakk>forward a b; forward b c\<rbrakk> \<Longrightarrow> forward a c"
  by (simp add: forward_def)

lemma rc_reads_forward:
  "rc_read_u8 c = Inr (b, d) \<Longrightarrow> forward c d"
  "rc_read_bytes n c = Inr (bs, d) \<Longrightarrow> forward c d"
  "rc_read_array n c = Inr (bs, d) \<Longrightarrow> forward c d"
  "rc_read_u16_be c = Inr (w, d) \<Longrightarrow> forward c d"
  "rc_read_name c = Inr (name, d) \<Longrightarrow> forward c d"
  by (auto simp: rc_read_u8_def rc_read_bytes_def rc_read_array_def rc_read_u16_be_def
      rc_read_name_def and_then_Inr forward_def split: if_splits)

lemma rc_read_len_forward: "rc_read_len_u8_bytes c = Inr (bs, d) \<Longrightarrow> forward c d"
  by (auto simp: rc_read_len_u8_bytes_def and_then_Inr dest!: rc_reads_forward intro: forward_trans)

lemma read_texts_forward: "read_texts n rdata c = Inr (out, d) \<Longrightarrow> forward c d"
  by (induction n arbitrary: rdata c)
    (auto simp: and_then_Inr intro: forward_trans [OF rc_read_len_forward])

lemmas rc_forward = rc_reads_forward rc_read_len_forward read_texts_forward

lemma decode_record_forward: "decode_record owner ttl ty records c = Inr (rs, d) \<Longrightarrow> forward c d"
  by (auto simp: decode_record_def decode_ds_def decode_ns_def decode_glue_def decode_synth_def
      decode_txt_def and_then_Inr dest!: rc_forward simp: forward_def split: if_splits)

function decode_loop ::
  "dns_name \<Rightarrow> u32 \<Rightarrow> resource_record list \<Rightarrow> res_cursor \<Rightarrow> resource_error + resource_record list" where
  "decode_loop owner ttl records c =
     (if rc_remaining c > 0 then
        and_then (rc_read_u8 c) (\<lambda>(ty, c).
        and_then (decode_record owner ttl ty records c) (\<lambda>(records, c).
        decode_loop owner ttl records c))
      else Inr records)"
  by pat_completeness auto
termination
  by (relation "measure (\<lambda>(_, _, _, c). rc_remaining c)")
    (auto simp: rc_remaining_def rc_read_u8_def and_then_Inr forward_def dest!: decode_record_forward)

definition decode_handshake_resource_records_with_ttl ::
  "dns_name \<Rightarrow> bytes \<Rightarrow> u32 \<Rightarrow> resource_error + resource_record list" where
  "decode_handshake_resource_records_with_ttl owner data ttl =
     and_then (rc_read_u8 (rc_new data)) (\<lambda>(version, c).
     if version \<noteq> RESOURCE_VERSION then Inl UnsupportedVersion
     else decode_loop owner ttl [] c)"

definition decode_handshake_resource_records ::
  "dns_name \<Rightarrow> bytes \<Rightarrow> resource_error + resource_record list" where
  "decode_handshake_resource_records owner data =
     decode_handshake_resource_records_with_ttl owner data DEFAULT_HANDSHAKE_RESOURCE_TTL"

text \<open>
  What a decoded record may be: data about the owner itself, or the address of a name server that
  is either below the owner or synthesized from that very address.
\<close>

definition record_allowed :: "dns_name \<Rightarrow> u32 \<Rightarrow> resource_record \<Rightarrow> bool" where
  "record_allowed owner ttl r \<longleftrightarrow>
     rr_class r = 1 \<and> rr_ttl r = ttl \<and>
     (rr_type r \<in> {TypeDs, TypeNs, TypeTxt} \<and> rr_name r = owner \<or>
      rr_type r \<in> {TypeA, TypeAaaa} \<and>
      length (rr_rdata r) = (if rr_type r = TypeA then 4 else 16) \<and>
      (is_subdomain_or_equal (rr_name r) owner \<or> synth_name (rr_rdata r) = Inr (rr_name r)))"

section \<open>Lemmas\<close>

declare decode_loop.simps [simp del] base32_emit.simps [simp del]

lemma push_record_Inr [simp]:
  "push_record rs r = Inr rs' \<longleftrightarrow> length rs < 128 \<and> rs' = rs @ [r]"
  by (auto simp: push_record_def MAX_HANDSHAKE_RESOURCE_RECORDS_def)

lemma hs_record_simps [simp]:
  "rr_name (hs_record n ty ttl d) = n" "rr_type (hs_record n ty ttl d) = ty"
  "rr_class (hs_record n ty ttl d) = 1" "rr_ttl (hs_record n ty ttl d) = ttl"
  "rr_rdata (hs_record n ty ttl d) = d"
  by (simp_all add: hs_record_def)

lemma rc_read_array_length: "rc_read_array n c = Inr (bs, d) \<Longrightarrow> length bs = n"
  by (auto simp: rc_read_array_def rc_read_bytes_def and_then_Inr)

definition decode_step_ok :: "dns_name \<Rightarrow> u32 \<Rightarrow> resource_record list \<Rightarrow> resource_record list \<Rightarrow> bool" where
  "decode_step_ok owner ttl rs rs' \<longleftrightarrow>
     (length rs' \<le> 128) \<and> (\<exists>new. rs' = rs @ new \<and> (\<forall>r \<in> set new. record_allowed owner ttl r))"

lemma decode_record_ok:
  assumes "decode_record owner ttl ty rs c = Inr (rs', d)"
  shows "decode_step_ok owner ttl rs rs'"
proof -
  consider "decode_ds owner ttl rs c = Inr (rs', d)" | "decode_ns owner ttl rs c = Inr (rs', d)"
    | n t where "decode_glue n t owner ttl rs c = Inr (rs', d)" "(n, t) = (4, TypeA) \<or> (n, t) = (16, TypeAaaa)"
    | n t where "decode_synth n t owner ttl rs c = Inr (rs', d)" "(n, t) = (4, TypeA) \<or> (n, t) = (16, TypeAaaa)"
    | "decode_txt owner ttl rs c = Inr (rs', d)"
    using assms by (auto simp: decode_record_def split: if_splits)
  then show ?thesis
  proof cases
    case 1
    then show ?thesis
      by (auto simp: decode_ds_def and_then_Inr decode_step_ok_def record_allowed_def)
  next
    case 2
    then show ?thesis
      by (auto simp: decode_ns_def push_ns_def and_then_Inr decode_step_ok_def record_allowed_def)
  next
    case 3
    then show ?thesis
      by (auto simp: decode_glue_def push_ns_def and_then_Inr decode_step_ok_def record_allowed_def
          dest: rc_read_array_length split: if_splits)
  next
    case 4
    then show ?thesis
      by (auto simp: decode_synth_def push_ns_def and_then_Inr decode_step_ok_def record_allowed_def
          dest: rc_read_array_length split: if_splits)
  next
    case 5
    then show ?thesis
      by (auto simp: decode_txt_def and_then_Inr decode_step_ok_def record_allowed_def split: if_splits)
  qed
qed

lemma decode_loop_ok:
  "\<lbrakk>decode_loop owner ttl rs c = Inr out; length rs \<le> 128; \<forall>r \<in> set rs. record_allowed owner ttl r\<rbrakk> \<Longrightarrow>
     length out \<le> 128 \<and> (\<forall>r \<in> set out. record_allowed owner ttl r)"
proof (induction owner ttl rs c rule: decode_loop.induct)
  case (1 owner ttl rs c)
  show ?case
  proof (cases "rc_remaining c > 0")
    case True
    with 1(2) obtain ty d rs' e where "rc_read_u8 c = Inr (ty, d)"
      "decode_record owner ttl ty rs d = Inr (rs', e)" "decode_loop owner ttl rs' e = Inr out"
      by (subst (asm) decode_loop.simps) (auto simp: and_then_Inr)
    with 1 True decode_record_ok [of owner ttl ty rs d rs' e] show ?thesis
      by (fastforce simp: decode_step_ok_def)
  next
    case False
    with 1 show ?thesis by (subst (asm) decode_loop.simps) simp
  qed
qed

subsection \<open>Base 32\<close>

lemma length_alphabet [simp]: "length base32hex_alphabet = 32"
  by (simp add: base32hex_alphabet_def)

lemma alphabet_index: "base32hex_alphabet ! unat ((w :: u32) AND 0x1f) \<in> set base32hex_alphabet"
proof -
  have "unat (w AND mask 5) < 32" by (simp only: and_mask_mod) simp
  then show ?thesis by (simp add: mask_numeral)
qed

lemma base32_emit_props:
  "fst (base32_emit buf n) = map (\<lambda>k. base32hex_alphabet ! unat (drop_bit (n - 5 * (k + 1)) buf AND 0x1f)) [0..<n div 5]
   \<and> snd (base32_emit buf n) = n mod 5"
proof (induction buf n rule: base32_emit.induct)
  case (1 buf n)
  show ?case
  proof (cases "n \<ge> 5")
    case True
    then have "n div 5 = Suc ((n - 5) div 5)" "n mod 5 = (n - 5) mod 5"
      by (simp_all add: le_div_geq le_mod_geq)
    moreover have "n - 5 - (5 + k * 5) = n - (10 + k * 5)" for k by simp
    ultimately show ?thesis using 1 True
      by (subst (1 2) base32_emit.simps)
        (simp add: Let_def split_beta upt_conv_Cons map_Suc_upt [symmetric] del: upt_Suc)
  next
    case False
    then show ?thesis by (simp add: base32_emit.simps)
  qed
qed

lemma base32_emit_eq:
  "base32_emit buf n =
     (map (\<lambda>k. base32hex_alphabet ! unat (drop_bit (n - 5 * (k + 1)) buf AND 0x1f)) [0..<n div 5], n mod 5)"
  using base32_emit_props [of buf n] by (simp add: prod_eq_iff)

lemma base32_loop_chars: "set (base32_loop buf bits bs) \<subseteq> set base32hex_alphabet"
proof (induction buf bits bs rule: base32_loop.induct)
  case (2 buf bits b bs)
  show ?case
    using 2 [OF refl] alphabet_index by (auto simp: base32_emit_eq Let_def)
qed (use alphabet_index in auto)

lemma length_base32_loop:
  "bits < 5 \<Longrightarrow> length (base32_loop buf bits bs) = (bits + 8 * length bs + 4) div 5"
proof (induction buf bits bs rule: base32_loop.induct)
  case (2 buf bits b bs)
  have "length (base32_loop buf bits (b # bs)) =
      (bits + 8) div 5 + ((bits + 8) mod 5 + 8 * length bs + 4) div 5"
    using 2(1) [OF refl refl base32_emit_eq [symmetric]] by (simp add: base32_emit_eq Let_def)
  also have "\<dots> = (5 * ((bits + 8) div 5) + ((bits + 8) mod 5 + 8 * length bs + 4)) div 5"
    by (simp only: div_mult_self4 [of 5] zero_neq_numeral not_False_eq_True add.commute)
  also have "5 * ((bits + 8) div 5) + ((bits + 8) mod 5 + 8 * length bs + 4) = bits + 8 * length (b # bs) + 4"
    using mult_div_mod_eq [of 5 "bits + 8"] by simp
  finally show ?case .
next
  case (1 buf bits)
  then show ?case by simp presburger
qed

lemma length_base32hex: "length (base32hex_nopad bs) = (8 * length bs + 4) div 5"
  using length_base32_loop [of 0 0 bs] by (simp add: base32hex_nopad_def)

lemma alphabet_label: "b \<in> set base32hex_alphabet \<Longrightarrow>
    (is_ascii_digit b \<or> is_ascii_lower b) \<and> to_ascii_lower_byte b = b"
  by (auto simp: base32hex_alphabet_def ascii_def is_ascii_digit_def is_ascii_lower_def
      to_ascii_lower_byte_def is_ascii_upper_def)

lemma synth_name_total:
  assumes "length addr \<le> 16"
  shows "synth_name addr = Inr [ascii ''_'' @ base32hex_nopad addr, ascii ''_synth'']"
proof -
  define l where "l = ascii ''_'' @ base32hex_nopad addr"
  have chars: "\<forall>b \<in> set (base32hex_nopad addr). (is_ascii_digit b \<or> is_ascii_lower b) \<and> to_ascii_lower_byte b = b"
    using base32_loop_chars alphabet_label unfolding base32hex_nopad_def by blast
  have "length (base32hex_nopad addr) \<le> 26" using assms by (simp add: length_base32hex)
  then have "wf_label l"
    using chars by (auto simp: l_def wf_label_def is_valid_dns_label_def list_all_iff ascii_def
        is_ascii_alphanumeric_def to_ascii_lowercase_def to_ascii_lower_byte_def [of 95] is_ascii_upper_def [of 95]
        intro!: map_idI)
  moreover have "wf_label (ascii ''_synth'')"
    by (simp add: wf_label_def is_valid_dns_label_def ascii_def is_ascii_alphanumeric_def is_ascii_digit_def
        is_ascii_lower_def is_ascii_upper_def to_ascii_lowercase_def to_ascii_lower_byte_def)
  ultimately have "wf_name [l, ascii ''_synth'']"
    using \<open>length (base32hex_nopad addr) \<le> 26\<close> by (simp add: wf_name_def l_def)
  from from_ascii_display [OF this] show ?thesis
    by (simp add: synth_name_def dns_name_display_def l_def ascii_def)
qed

section \<open>Properties\<close>

text \<open>
  C17.  A decoded resource is confined to its owner: at most 128 records, all of class IN with the
  given TTL; DS, NS and TXT records belong to the owner; and an address record belongs either to a
  name below the owner or to the name synthesized from exactly that address, so a resource cannot
  plant addresses for foreign names.
\<close>

theorem resource_records_confined:
  assumes "decode_handshake_resource_records_with_ttl owner data ttl = Inr records"
  shows "length records \<le> 128 \<and> (\<forall>r \<in> set records. record_allowed owner ttl r)"
  using assms decode_loop_ok [of owner ttl "[]" _ records]
  by (auto simp: decode_handshake_resource_records_with_ttl_def and_then_Inr split: if_splits)

theorem resource_records_confined_witness:
  "\<exists>r. decode_handshake_resource_records_with_ttl [ascii ''a''] [0, 0, 1, 2, 8, 2, 1, 9] 60 = Inr [r] \<and>
     record_allowed [ascii ''a''] 60 r"
proof -
  define r where "r = hs_record [ascii ''a''] TypeDs 60 (u16_to_be (u16_of_be [1, 2]) @ [8] @ [2] @ [9])"
  have "decode_handshake_resource_records_with_ttl [ascii ''a''] [0, 0, 1, 2, 8, 2, 1, 9] 60 = Inr [r]"
    unfolding decode_handshake_resource_records_with_ttl_def rc_new_def rc_read_u8_def
    by (simp add: get_byte_def RESOURCE_VERSION_def, subst decode_loop.simps,
        simp add: rc_read_u8_def get_byte_def rc_remaining_def decode_record_def HS_TYPE_DS_def decode_ds_def
          rc_read_u16_be_def rc_read_array_def rc_read_bytes_def checked_add_usize_def get_range_def slice_def
          rc_read_len_u8_bytes_def push_record_def MAX_HANDSHAKE_RESOURCE_RECORDS_def,
        subst decode_loop.simps, simp add: rc_remaining_def r_def)
  with resource_records_confined [OF this] show ?thesis by auto
qed

text \<open>
  Synthesized name servers always exist: for every address of at most sixteen bytes the name is
  the underscore-prefixed base-32 form of the address under \<open>_synth\<close>, a well-formed name, and
  \<open>synth_name\<close> cannot fail.
\<close>

theorem synth_name_exact:
  assumes "length addr \<le> 16"
  shows "synth_name addr = Inr [ascii ''_'' @ base32hex_nopad addr, ascii ''_synth''] \<and>
    length (base32hex_nopad addr) = (8 * length addr + 4) div 5"
  using synth_name_total [OF assms] length_base32hex by blast

theorem synth_name_exact_witness:
  "synth_name [10, 0, 0, 1] = Inr [ascii ''_'' @ base32hex_nopad [10, 0, 0, 1], ascii ''_synth''] \<and>
   length (base32hex_nopad [10, 0, 0, 1]) = (8 * length [10 :: u8, 0, 0, 1] + 4) div 5"
  by (rule synth_name_exact) simp

end
