(* ===== verification/Dnssec_Records.thy ===== *)
theory Dnssec_Records
  imports Hashing Resource Svcb
begin

text \<open>
  The record types of \<open>hns-dnssec/src/lib.rs\<close>: DNSKEY, DS, RRSIG, NSEC and NSEC3 record data, the
  key tag, NSEC type bitmaps and the base32hex decoder of NSEC3 owner labels.  Times are the \<open>u64\<close>
  seconds of \<open>DnssecTime\<close>.  Every function returns a \<open>Result\<close>; the one place that indexes a slice
  without a check of its own (the bitmap lookup) can panic in the model too, and it is shown not to.
\<close>

section \<open>Definitions\<close>

definition DNSSEC_PROTOCOL :: u8 where "DNSSEC_PROTOCOL = 3"
definition DNSKEY_ZONE_FLAG :: u16 where "DNSKEY_ZONE_FLAG = 0x0100"
definition NSEC3_HASH_SHA1 :: u8 where "NSEC3_HASH_SHA1 = 1"
definition NSEC3_OPT_OUT_FLAG :: u8 where "NSEC3_OPT_OUT_FLAG = 1"

datatype dnssec_status = Secure | InsecureDelegation | Bogus

datatype dnssec_error =
    UnsupportedValidator | InvalidDnskey | InvalidDs | UnsupportedDigest | NameEncoding
  | InvalidRrsig | InvalidNsec | InvalidNsec3 | InvalidRrset | UnsupportedCanonicalRdata
  | SignatureOutsideValidity | UnsupportedAlgorithm | InvalidSignature

type_synonym 'a dnssec_result = "dnssec_error fault + 'a"

abbreviation fails :: "dnssec_error \<Rightarrow> 'a dnssec_result" where
  "fails e \<equiv> Inl (Err e)"

record dnskey_record =
  dk_flags :: u16
  dk_protocol :: u8
  dk_algorithm :: u8
  dk_public_key :: bytes
  dk_rdata :: bytes

record ds_record =
  ds_key_tag :: u16
  ds_algorithm :: u8
  ds_digest_type :: u8
  ds_digest_bytes :: bytes

record rrsig_record =
  sig_type_covered :: record_type
  sig_algorithm :: u8
  sig_labels :: u8
  sig_original_ttl :: u32
  sig_expiration :: u64
  sig_inception :: u64
  sig_key_tag :: u16
  sig_signer_name :: dns_name
  sig_signature :: bytes
  sig_signed_rdata :: bytes

record nsec_record =
  nsec_next_domain_name :: dns_name
  nsec_type_bit_maps :: bytes

record nsec3_record =
  n3_hash_algorithm :: u8
  n3_flags :: u8
  n3_iterations :: u16
  n3_salt :: bytes
  n3_next_hashed_owner_name :: bytes
  n3_type_bit_maps :: bytes

subsection \<open>Type bitmaps\<close>

text \<open>Both loops run over the unread suffix of the bitmap.\<close>

fun bit_maps_loop :: "u8 option \<Rightarrow> bytes \<Rightarrow> unit dnssec_result" where
  "bit_maps_loop previous [] = Inr ()"
| "bit_maps_loop previous [window] = fails InvalidNsec"
| "bit_maps_loop previous (window # len # tail) =
     (if unat len = 0 \<or> unat len > 32 \<or> unat len > length tail then fails InvalidNsec
      else if (case previous of None \<Rightarrow> False | Some p \<Rightarrow> window \<le> p) then fails InvalidNsec
      else bit_maps_loop (Some window) (drop (unat len) tail))"

definition validate_nsec_type_bit_maps :: "bytes \<Rightarrow> unit dnssec_result" where
  "validate_nsec_type_bit_maps maps = bit_maps_loop None maps"

fun contain_loop :: "u8 \<Rightarrow> nat \<Rightarrow> bytes \<Rightarrow> bool dnssec_result" where
  "contain_loop target_window target_bit [] = Inr False"
| "contain_loop target_window target_bit [window] = Inl Panic"
| "contain_loop target_window target_bit (window # len # tail) =
     (if window = target_window then
        let byte_index = target_bit div 8 in
        if byte_index \<ge> unat len then Inr False
        else and_then (ok_or Panic (get_byte tail byte_index)) (\<lambda>b.
          Inr (b AND push_bit (7 - target_bit mod 8) 1 \<noteq> 0))
      else contain_loop target_window target_bit (drop (unat len) tail))"

definition nsec_type_bit_maps_contain :: "bytes \<Rightarrow> record_type \<Rightarrow> bool dnssec_result" where
  "nsec_type_bit_maps_contain maps ty =
     and_then (validate_nsec_type_bit_maps maps) (\<lambda>_.
       let code = record_type_code ty in
       contain_loop (ucast (drop_bit 8 code)) (unat (code AND 0x00ff)) maps)"

subsection \<open>Keys\<close>

fun key_tag_loop :: "bool \<Rightarrow> u32 \<Rightarrow> bytes \<Rightarrow> u32" where
  "key_tag_loop even_index acc [] = acc"
| "key_tag_loop even_index acc (byte # bs) =
     key_tag_loop (\<not> even_index) (acc + (if even_index then push_bit 8 (ucast byte) else ucast byte)) bs"

definition key_tag :: "bytes \<Rightarrow> u16" where
  "key_tag rdata =
     (let acc = key_tag_loop True 0 rdata;
          acc = acc + (drop_bit 16 acc AND 0xffff)
      in ucast (acc AND 0xffff))"

definition dnskey_parse_rdata :: "bytes \<Rightarrow> dnskey_record dnssec_result" where
  "dnskey_parse_rdata rdata =
     (if length rdata < 4 then fails InvalidDnskey
      else if rdata ! 2 \<noteq> DNSSEC_PROTOCOL then fails InvalidDnskey
      else Inr \<lparr>dk_flags = u16_of_be [rdata ! 0, rdata ! 1], dk_protocol = rdata ! 2,
        dk_algorithm = rdata ! 3, dk_public_key = drop 4 rdata, dk_rdata = rdata\<rparr>)"

definition dnskey_from_record :: "resource_record \<Rightarrow> dnskey_record dnssec_result" where
  "dnskey_from_record r =
     (if rr_type r \<noteq> TypeDnskey then fails InvalidDnskey else dnskey_parse_rdata (rr_rdata r))"

definition dnskey_key_tag :: "dnskey_record \<Rightarrow> u16" where
  "dnskey_key_tag k = key_tag (dk_rdata k)"

definition ds_parse_rdata :: "bytes \<Rightarrow> ds_record dnssec_result" where
  "ds_parse_rdata rdata =
     (if length rdata < 5 then fails InvalidDs
      else Inr \<lparr>ds_key_tag = u16_of_be [rdata ! 0, rdata ! 1], ds_algorithm = rdata ! 2,
        ds_digest_type = rdata ! 3, ds_digest_bytes = drop 4 rdata\<rparr>)"

definition ds_from_record :: "resource_record \<Rightarrow> ds_record dnssec_result" where
  "ds_from_record r = (if rr_type r \<noteq> TypeDs then fails InvalidDs else ds_parse_rdata (rr_rdata r))"

subsection \<open>Signatures\<close>

definition rrsig_parse_rdata :: "bytes \<Rightarrow> rrsig_record dnssec_result" where
  "rrsig_parse_rdata rdata =
     (if length rdata < 19 then fails InvalidRrsig else
      and_then (map_err (\<lambda>_. Err InvalidRrsig) (parse_wire rdata 18)) (\<lambda>(signer_name, signer_end).
      if signer_end \<ge> length rdata then fails InvalidRrsig else
      and_then (map_err (\<lambda>_. Err NameEncoding) (encode_wire signer_name (take 18 rdata))) (\<lambda>signed_rdata.
      Inr \<lparr>sig_type_covered = from_code (u16_of_be (slice rdata 0 2)), sig_algorithm = rdata ! 2,
        sig_labels = rdata ! 3, sig_original_ttl = u32_of_be (slice rdata 4 8),
        sig_expiration = ucast (u32_of_be (slice rdata 8 12)),
        sig_inception = ucast (u32_of_be (slice rdata 12 16)),
        sig_key_tag = u16_of_be (slice rdata 16 18), sig_signer_name = signer_name,
        sig_signature = drop signer_end rdata, sig_signed_rdata = signed_rdata\<rparr>)))"

definition rrsig_from_record :: "resource_record \<Rightarrow> rrsig_record dnssec_result" where
  "rrsig_from_record r =
     (if rr_type r \<noteq> TypeRrsig then fails InvalidRrsig else rrsig_parse_rdata (rr_rdata r))"

definition is_valid_at :: "rrsig_record \<Rightarrow> u64 \<Rightarrow> bool" where
  "is_valid_at s now \<longleftrightarrow> sig_inception s \<le> now \<and> now \<le> sig_expiration s"

subsection \<open>Denial of existence\<close>

definition nsec_parse_rdata :: "bytes \<Rightarrow> nsec_record dnssec_result" where
  "nsec_parse_rdata rdata =
     and_then (map_err (\<lambda>_. Err InvalidNsec) (parse_wire rdata 0)) (\<lambda>(next_name, cursor).
     if cursor \<ge> length rdata then fails InvalidNsec else
     and_then (validate_nsec_type_bit_maps (drop cursor rdata)) (\<lambda>_.
     Inr \<lparr>nsec_next_domain_name = next_name, nsec_type_bit_maps = drop cursor rdata\<rparr>))"

definition nsec_from_record :: "resource_record \<Rightarrow> nsec_record dnssec_result" where
  "nsec_from_record r =
     (if rr_type r \<noteq> TypeNsec then fails InvalidNsec else nsec_parse_rdata (rr_rdata r))"

definition nsec_has_type :: "nsec_record \<Rightarrow> record_type \<Rightarrow> bool dnssec_result" where
  "nsec_has_type n ty = nsec_type_bit_maps_contain (nsec_type_bit_maps n) ty"

text \<open>\<open>map_err(|_| InvalidNsec3)\<close> replaces an error and lets a panic through.\<close>

definition as_nsec3_error :: "'a dnssec_result \<Rightarrow> 'a dnssec_result" where
  "as_nsec3_error m = map_err (\<lambda>f. case f of Err _ \<Rightarrow> Err InvalidNsec3 | Panic \<Rightarrow> Panic) m"

definition nsec3_parse_rdata :: "bytes \<Rightarrow> nsec3_record dnssec_result" where
  "nsec3_parse_rdata rdata =
     (if length rdata < 6 then fails InvalidNsec3 else
      and_then (ok_or (Err InvalidNsec3) (checked_add_usize 5 (unat (rdata ! 4)))) (\<lambda>salt_end.
      if salt_end \<ge> length rdata then fails InvalidNsec3 else
      let hash_len = unat (rdata ! salt_end) in
      if hash_len = 0 then fails InvalidNsec3 else
      let hash_start = salt_end + 1 in
      and_then (ok_or (Err InvalidNsec3) (checked_add_usize hash_start hash_len)) (\<lambda>hash_end.
      if hash_end > length rdata then fails InvalidNsec3 else
      and_then (as_nsec3_error (validate_nsec_type_bit_maps (drop hash_end rdata))) (\<lambda>_.
      Inr \<lparr>n3_hash_algorithm = rdata ! 0, n3_flags = rdata ! 1,
        n3_iterations = u16_of_be [rdata ! 2, rdata ! 3], n3_salt = slice rdata 5 salt_end,
        n3_next_hashed_owner_name = slice rdata hash_start hash_end,
        n3_type_bit_maps = drop hash_end rdata\<rparr>))))"

definition nsec3_from_record :: "resource_record \<Rightarrow> nsec3_record dnssec_result" where
  "nsec3_from_record r =
     (if rr_type r \<noteq> TypeNsec3 then fails InvalidNsec3 else nsec3_parse_rdata (rr_rdata r))"

definition nsec3_has_type :: "nsec3_record \<Rightarrow> record_type \<Rightarrow> bool dnssec_result" where
  "nsec3_has_type n ty = as_nsec3_error (nsec_type_bit_maps_contain (n3_type_bit_maps n) ty)"

definition is_opt_out :: "nsec3_record \<Rightarrow> bool" where
  "is_opt_out n \<longleftrightarrow> n3_flags n AND NSEC3_OPT_OUT_FLAG \<noteq> 0"

definition is_usable :: "nsec3_record \<Rightarrow> bool" where
  "is_usable n \<longleftrightarrow> n3_hash_algorithm n = NSEC3_HASH_SHA1 \<and> n3_flags n AND NOT NSEC3_OPT_OUT_FLAG = 0"

subsection \<open>Base32hex\<close>

definition base32hex_digit :: "u8 \<Rightarrow> u8 option" where
  "base32hex_digit byte =
     (if 48 \<le> byte \<and> byte \<le> 57 then Some (byte - 48)
      else if 97 \<le> byte \<and> byte \<le> 118 then Some (byte - 97 + 10)
      else if 65 \<le> byte \<and> byte \<le> 86 then Some (byte - 65 + 10)
      else None)"

fun decode_base32_loop :: "u32 \<Rightarrow> nat \<Rightarrow> bytes \<Rightarrow> rust_str \<Rightarrow> unit + bytes" where
  "decode_base32_loop buffer bits out [] =
     (if bits > 0 \<and> buffer AND (push_bit bits 1 - 1) \<noteq> 0 then Inl () else Inr out)"
| "decode_base32_loop buffer bits out (byte # bs) =
     (case base32hex_digit byte of
        None \<Rightarrow> Inl ()
      | Some v \<Rightarrow>
          (let buffer = push_bit 5 buffer OR ucast v; bits = bits + 5 in
           if bits \<ge> 8
           then decode_base32_loop buffer (bits - 8) (out @ [ucast (drop_bit (bits - 8) buffer AND 0xff)]) bs
           else decode_base32_loop buffer bits out bs))"

definition decode_base32hex_nopad :: "rust_str \<Rightarrow> unit + bytes" where
  "decode_base32hex_nopad input = decode_base32_loop 0 0 [] input"

subsection \<open>Reference definitions\<close>

text \<open>The windows of a bitmap and the types it lists.\<close>

fun bitmap_blocks :: "bytes \<Rightarrow> (u8 \<times> bytes) list" where
  "bitmap_blocks (window # len # tail) =
     (window, take (unat len) tail) # bitmap_blocks (drop (unat len) tail)"
| "bitmap_blocks _ = []"

definition bitmap_lists :: "bytes \<Rightarrow> u16 \<Rightarrow> bool" where
  "bitmap_lists maps code \<longleftrightarrow>
     (\<exists>(window, bits) \<in> set (bitmap_blocks maps).
        window = ucast (drop_bit 8 code) \<and> unat code mod 256 div 8 < length bits \<and>
        bit (bits ! (unat code mod 256 div 8)) (7 - unat code mod 8))"

text \<open>The 16-bit big-endian words of a byte string, the last one padded with a zero byte, summed.\<close>

fun word_sum :: "bytes \<Rightarrow> nat" where
  "word_sum [] = 0"
| "word_sum [a] = 256 * unat a"
| "word_sum (a # b # bs) = 256 * unat a + unat b + word_sum bs"

section \<open>Lemmas\<close>

subsection \<open>Type bitmaps\<close>

definition block_lists :: "u8 \<Rightarrow> nat \<Rightarrow> u8 \<times> bytes \<Rightarrow> bool" where
  "block_lists window t = (\<lambda>(w, bits). w = window \<and> t div 8 < length bits \<and> bit (bits ! (t div 8)) (7 - t mod 8))"

lemma bit_maps_windows:
  "\<lbrakk>bit_maps_loop (Some p) maps = Inr (); (w, bits) \<in> set (bitmap_blocks maps)\<rbrakk> \<Longrightarrow> p < w"
proof (induction "Some p" maps arbitrary: p rule: bit_maps_loop.induct)
  case (3 window len tail)
  have step: "bit_maps_loop (Some window) (drop (unat len) tail) = Inr ()" "p < window"
    using "3.prems"(1) by (auto split: if_splits)
  show ?case
  proof (cases "w = window")
    case False
    then have "(w, bits) \<in> set (bitmap_blocks (drop (unat len) tail))" using "3.prems"(2) by auto
    with "3.hyps" [OF _ _ step(1)] "3.prems"(1) step(2) show ?thesis
      by (auto split: if_splits intro: less_trans)
  qed (use step in simp)
qed auto

lemma contain_loop_exact:
  "bit_maps_loop previous maps = Inr () \<Longrightarrow>
     contain_loop window t maps = Inr (\<exists>blk \<in> set (bitmap_blocks maps). block_lists window t blk)"
proof (induction previous maps rule: bit_maps_loop.induct)
  case (3 previous w len tail)
  have step: "bit_maps_loop (Some w) (drop (unat len) tail) = Inr ()" "unat len \<le> length tail"
    using "3.prems" by (auto split: if_splits)
  have IH: "contain_loop window t (drop (unat len) tail) =
      Inr (\<exists>blk \<in> set (bitmap_blocks (drop (unat len) tail)). block_lists window t blk)"
    using 3 by (auto split: if_splits)
  show ?case
  proof (cases "w = window")
    case True
    then have "\<not> block_lists window t blk" if "blk \<in> set (bitmap_blocks (drop (unat len) tail))" for blk
      using bit_maps_windows [OF step(1)] that by (auto simp: block_lists_def split: prod.splits)
    with True step(2) show ?thesis
      by (auto simp: block_lists_def Let_def get_byte_def ok_or_def and_exp_eq_0_iff_not_bit)
  qed (use IH in \<open>auto simp: block_lists_def\<close>)
qed auto

lemma bit_maps_contain_exact:
  assumes "validate_nsec_type_bit_maps maps = Inr ()"
  shows "nsec_type_bit_maps_contain maps ty = Inr (bitmap_lists maps (record_type_code ty))"
proof -
  have "unat (c AND 0xff) = unat c mod 256" for c :: u16
    using and_mask_mod [of c 8] by (simp add: mask_numeral)
  moreover have "unat c mod 256 mod 8 = unat c mod 8" for c :: u16 by (simp add: mod_mod_cancel)
  ultimately show ?thesis
    using assms contain_loop_exact [of None maps]
    by (simp add: nsec_type_bit_maps_contain_def validate_nsec_type_bit_maps_def Let_def
        bitmap_lists_def block_lists_def)
qed

lemma validate_bit_maps_no_panic: "bit_maps_loop previous maps \<noteq> Inl Panic"
  by (induction previous maps rule: bit_maps_loop.induct) auto

lemma validate_nsec_no_panic [simp]: "validate_nsec_type_bit_maps maps \<noteq> Inl Panic"
  by (simp add: validate_nsec_type_bit_maps_def validate_bit_maps_no_panic)

subsection \<open>Key tags\<close>

lemma word_sum_bound: "word_sum bs \<le> 65535 * ((length bs + 1) div 2)"
proof (induction bs rule: word_sum.induct)
  case (3 a b bs)
  have "unat a \<le> 255" "unat b \<le> 255" using unat_u8_less [of a] unat_u8_less [of b] by linarith+
  with 3 show ?case by simp
next
  case (2 a)
  have "unat a \<le> 255" using unat_u8_less [of a] by linarith
  then show ?case by simp
qed simp

lemma unat_octet:
  "unat (ucast (b :: u8) :: u32) = unat b" "unat (push_bit 8 (ucast b) :: u32) = 256 * unat b"
proof -
  have b: "unat b \<le> 255" using unat_u8_less [of b] by linarith
  then show u: "unat (ucast b :: u32) = unat b" by (simp add: unsigned_ucast_eq take_bit_nat_eq_self)
  show "unat (push_bit 8 (ucast b) :: u32) = 256 * unat b"
    using b by (simp add: push_bit_eq_mult unat_word_ariths u)
qed

lemma key_tag_loop_sum:
  "unat acc + word_sum bs < 2 ^ 32 \<Longrightarrow> unat (key_tag_loop True acc bs) = unat acc + word_sum bs"
proof (induction bs arbitrary: acc rule: word_sum.induct)
  case (2 a)
  have "unat (push_bit 8 (ucast a) :: u32) = 256 * unat a" by (simp add: unat_octet)
  with 2 show ?case by (simp add: unat_word_ariths)
next
  case (3 a b bs)
  have "unat a \<le> 255" "unat b \<le> 255" using unat_u8_less [of a] unat_u8_less [of b] by linarith+
  then have "unat (push_bit 8 (ucast a) + ucast b :: u32) = 256 * unat a + unat b"
    unfolding unat_word_ariths unat_octet by simp
  then have "unat (acc + (push_bit 8 (ucast a) + ucast b)) = unat acc + (256 * unat a + unat b)"
    using "3.prems" by (simp add: unat_word_ariths)
  with 3 show ?case by (simp add: ac_simps)
qed simp

subsection \<open>Base32hex\<close>

lemma bit_low_masks: "bit (0x1f :: int) n \<longleftrightarrow> n < 5" "bit (0xff :: int) n \<longleftrightarrow> n < 8"
  using bit_mask_iff [of 5 n, where ?'a = int] bit_mask_iff [of 8 n, where ?'a = int]
  by (simp_all add: mask_numeral)

lemma base32hex_digit_alphabet:
  "base32hex_digit (base32hex_alphabet ! unat ((w :: u32) AND 0x1f)) = Some (ucast (w AND 0x1f))"
proof -
  have all: "list_all (\<lambda>i. base32hex_digit (base32hex_alphabet ! i) = Some (word_of_nat i)) [0..<32]"
    by code_simp
  have "unat (w AND mask 5) < 32" by (simp only: and_mask_mod) simp
  then have "unat (w AND 0x1f) < 32" by (simp add: mask_numeral)
  with all have "base32hex_digit (base32hex_alphabet ! unat (w AND 0x1f)) = Some (word_of_nat (unat (w AND 0x1f)))"
    by (simp add: list_all_iff)
  then show ?thesis by simp
qed

text \<open>
  The decoder lags behind the encoder by the byte in progress: with \<open>b\<close> bits of \<open>x\<close> still to be
  written, the decoder holds the other \<open>8 - b\<close>.
\<close>

definition in_step :: "u8 \<Rightarrow> nat \<Rightarrow> u32 \<Rightarrow> u32 \<Rightarrow> bool" where
  "in_step x b E D \<longleftrightarrow> (\<forall>i < b. bit E i = bit x i) \<and> (\<forall>i < 8 - b. bit D i = bit x (i + b))"

lemma decode_char:
  "decode_base32_loop D n out (base32hex_alphabet ! unat (w AND 0x1f) # cs) =
     (let D' = push_bit 5 D OR (w AND 0x1f); m = n + 5 in
      if m \<ge> 8 then decode_base32_loop D' (m - 8) (out @ [ucast (drop_bit (m - 8) D' AND 0xff)]) cs
      else decode_base32_loop D' m out cs)"
proof -
  have "ucast (ucast (w AND 0x1f) :: u8) = w AND 0x1f"
  proof (rule bit_word_eqI)
    fix n assume "n < LENGTH(32)"
    then show "bit (ucast (ucast (w AND 0x1f) :: u8) :: u32) n = bit (w AND 0x1f) n"
      by (auto simp: bit_simps bit_low_masks)
  qed
  then show ?thesis by (simp add: base32hex_digit_alphabet Let_def)
qed

lemma decode_base32_done:
  assumes "in_step x b E D" "0 < b" "b < 5"
  shows "decode_base32_loop D (8 - b) out (base32_loop E b []) = Inr (out @ [x])"
proof -
  define D' where "D' = push_bit 5 D OR (push_bit (5 - b) E AND 0x1f)"
  have bits: "bit D' i \<longleftrightarrow> i < 32 \<and> (if i < 5 then 5 - b \<le> i \<and> bit E (i - (5 - b)) else bit D (i - 5))" for i
    by (auto simp: D'_def bit_simps bit_low_masks)
  have "ucast (drop_bit (5 - b) D' AND 0xff) = x"
    using assms by (intro bit_word_eqI) (auto simp: bit_simps bit_low_masks bits in_step_def)
  moreover have "D' AND (push_bit (5 - b) 1 - 1) = 0"
  proof -
    have "push_bit (5 - b) 1 - 1 = (mask (5 - b) :: u32)" by (simp add: mask_eq_exp_minus_1)
    then show ?thesis by (auto intro!: bit_word_eqI simp: bit_simps bits split: if_splits)
  qed
  moreover have "8 - b + 5 - 8 = 5 - b" "8 \<le> 8 - b + 5" using assms(3) by simp_all
  ultimately show ?thesis
    using assms(2) by (simp add: decode_char Let_def del: decode_base32_loop.simps(2) flip: D'_def)
qed

text \<open>One byte of input: one or two characters, depending on the bits left over from the last byte.\<close>

definition push_char :: "u32 \<Rightarrow> u32 \<Rightarrow> u32" where
  "push_char D w = push_bit 5 D OR (w AND 0x1f)"

lemma bit_push_char: "bit (push_char D w) i \<longleftrightarrow> i < 32 \<and> (if i < 5 then bit w i else bit D (i - 5))"
  by (auto simp: push_char_def bit_simps bit_low_masks dest: bit_imp_possible_bit)

lemma bit_push_byte:
  "bit (push_bit 8 E OR ucast (y :: u8) :: u32) i \<longleftrightarrow> i < 32 \<and> (if i < 8 then bit y i else bit E (i - 8))"
  by (auto simp: bit_simps dest: bit_imp_possible_bit)

lemma base32_loop_step:
  assumes "E' = push_bit 8 E OR ucast y"
  shows
    "base32_loop E 0 (y # ys) = base32hex_alphabet ! unat (drop_bit 3 E' AND 0x1f) # base32_loop E' 3 ys"
    "base32_loop E 1 (y # ys) = base32hex_alphabet ! unat (drop_bit 4 E' AND 0x1f) # base32_loop E' 4 ys"
    "base32_loop E 2 (y # ys) = base32hex_alphabet ! unat (drop_bit 5 E' AND 0x1f) #
       base32hex_alphabet ! unat (drop_bit 0 E' AND 0x1f) # base32_loop E' 0 ys"
    "base32_loop E 3 (y # ys) = base32hex_alphabet ! unat (drop_bit 6 E' AND 0x1f) #
       base32hex_alphabet ! unat (drop_bit 1 E' AND 0x1f) # base32_loop E' 1 ys"
    "base32_loop E 4 (y # ys) = base32hex_alphabet ! unat (drop_bit 7 E' AND 0x1f) #
       base32hex_alphabet ! unat (drop_bit 2 E' AND 0x1f) # base32_loop E' 2 ys"
  using assms by (simp_all add: base32_emit.simps Let_def)

lemma emitted_byte:
  "(\<And>i. i < 8 \<Longrightarrow> i + n < 32 \<Longrightarrow> bit D (i + n) = bit (x :: u8) i) \<Longrightarrow> n \<le> 24 \<Longrightarrow>
     ucast (drop_bit n (D :: u32) AND 0xff) = x"
  by (intro bit_word_eqI) (auto simp: bit_simps bit_low_masks add.commute)

lemma decode_base32_step:
  assumes "\<And>E D out x. in_step x 1 E D \<Longrightarrow> decode_base32_loop D 7 out (base32_loop E 1 ys) = Inr (out @ x # ys)"
    and "\<And>E D out x. in_step x 2 E D \<Longrightarrow> decode_base32_loop D 6 out (base32_loop E 2 ys) = Inr (out @ x # ys)"
    and "\<And>E D out x. in_step x 3 E D \<Longrightarrow> decode_base32_loop D 5 out (base32_loop E 3 ys) = Inr (out @ x # ys)"
    and "\<And>E D out x. in_step x 4 E D \<Longrightarrow> decode_base32_loop D 4 out (base32_loop E 4 ys) = Inr (out @ x # ys)"
    and "\<And>E D out. decode_base32_loop D 0 out (base32_loop E 0 ys) = Inr (out @ ys)"
  shows "decode_base32_loop D 0 out (base32_loop E 0 (y # ys)) = Inr (out @ y # ys)"
    and "in_step x 1 E D \<Longrightarrow> decode_base32_loop D 7 out (base32_loop E 1 (y # ys)) = Inr (out @ x # y # ys)"
    and "in_step x 2 E D \<Longrightarrow> decode_base32_loop D 6 out (base32_loop E 2 (y # ys)) = Inr (out @ x # y # ys)"
    and "in_step x 3 E D \<Longrightarrow> decode_base32_loop D 5 out (base32_loop E 3 (y # ys)) = Inr (out @ x # y # ys)"
    and "in_step x 4 E D \<Longrightarrow> decode_base32_loop D 4 out (base32_loop E 4 (y # ys)) = Inr (out @ x # y # ys)"
proof -
  define E' where "E' = push_bit 8 E OR ucast y"
  note step = base32_loop_step [OF E'_def] and chars = decode_char [folded push_char_def] Let_def
  have E': "bit E' i \<longleftrightarrow> i < 32 \<and> (if i < 8 then bit y i else bit E (i - 8))" for i
    by (simp add: E'_def bit_push_byte)
  have "\<not> i < Suc (Suc 0) \<Longrightarrow> Suc (Suc (i - Suc (Suc 0))) = i"  for i :: nat by simp
  note bits = this in_step_def bit_push_char bit_drop_bit_eq E' add.commute
  have "in_step y 3 E' (push_char D (drop_bit 3 E'))" by (auto simp: bits)
  then show "decode_base32_loop D 0 out (base32_loop E 0 (y # ys)) = Inr (out @ y # ys)"
    by (simp add: step chars del: decode_base32_loop.simps base32_loop.simps One_nat_def add: assms(3))
  show "decode_base32_loop D 7 out (base32_loop E 1 (y # ys)) = Inr (out @ x # y # ys)" if "in_step x 1 E D"
  proof -
    have "ucast (drop_bit 4 (push_char D (drop_bit 4 E')) AND 0xff) = x"
      using that by (intro emitted_byte) (auto simp: bits)
    moreover have "in_step y 4 E' (push_char D (drop_bit 4 E'))" by (auto simp: bits)
    ultimately show ?thesis by (simp add: step chars del: decode_base32_loop.simps base32_loop.simps One_nat_def add: assms(4))
  qed
  show "decode_base32_loop D 6 out (base32_loop E 2 (y # ys)) = Inr (out @ x # y # ys)" if "in_step x 2 E D"
  proof -
    have "ucast (drop_bit 3 (push_char D (drop_bit 5 E')) AND 0xff) = x"
      using that by (intro emitted_byte) (auto simp: bits)
    moreover have "ucast (drop_bit 0 (push_char (push_char D (drop_bit 5 E')) (drop_bit 0 E')) AND 0xff) = y"
      by (intro emitted_byte) (auto simp: bits)
    ultimately show ?thesis by (simp add: step chars del: decode_base32_loop.simps base32_loop.simps One_nat_def add: assms(5))
  qed
  show "decode_base32_loop D 5 out (base32_loop E 3 (y # ys)) = Inr (out @ x # y # ys)" if "in_step x 3 E D"
  proof -
    have "ucast (drop_bit 2 (push_char D (drop_bit 6 E')) AND 0xff) = x"
      using that by (intro emitted_byte) (auto simp: bits)
    moreover have "in_step y 1 E' (push_char (push_char D (drop_bit 6 E')) (drop_bit 1 E'))"
      by (auto simp: bits)
    ultimately show ?thesis by (simp add: step chars del: decode_base32_loop.simps base32_loop.simps One_nat_def add: assms(1))
  qed
  show "decode_base32_loop D 4 out (base32_loop E 4 (y # ys)) = Inr (out @ x # y # ys)" if "in_step x 4 E D"
  proof -
    have "ucast (drop_bit (Suc 0) (push_char D (drop_bit 7 E')) AND 0xff) = x"
      using that by (intro emitted_byte) (auto simp: bits)
    moreover have "i < 6 \<longleftrightarrow> i < 5 \<or> i = 5" for i :: nat by auto
    then have "in_step y 2 E' (push_char (push_char D (drop_bit 7 E')) (drop_bit 2 E'))"
      by (auto simp: bits)
    ultimately show ?thesis by (simp add: step chars del: decode_base32_loop.simps base32_loop.simps One_nat_def add: assms(2))
  qed
qed

lemma decode_base32_encoded:
  "decode_base32_loop D 0 out (base32_loop E 0 ys) = Inr (out @ ys)"
  "in_step x 1 E D \<Longrightarrow> decode_base32_loop D 7 out (base32_loop E 1 ys) = Inr (out @ x # ys)"
  "in_step x 2 E D \<Longrightarrow> decode_base32_loop D 6 out (base32_loop E 2 ys) = Inr (out @ x # ys)"
  "in_step x 3 E D \<Longrightarrow> decode_base32_loop D 5 out (base32_loop E 3 ys) = Inr (out @ x # ys)"
  "in_step x 4 E D \<Longrightarrow> decode_base32_loop D 4 out (base32_loop E 4 ys) = Inr (out @ x # ys)"
proof (induction ys arbitrary: E D out x)
  case Nil
  { case 1 show ?case by simp }
  { case 2 from decode_base32_done [OF this, of out] show ?case by (simp del: base32_loop.simps One_nat_def) }
  { case 3 from decode_base32_done [OF this, of out] show ?case by (simp del: base32_loop.simps One_nat_def) }
  { case 4 from decode_base32_done [OF this, of out] show ?case by (simp del: base32_loop.simps One_nat_def) }
  { case 5 from decode_base32_done [OF this, of out] show ?case by (simp del: base32_loop.simps One_nat_def) }
next
  case (Cons y ys)
  { case 1 show ?case by (rule decode_base32_step(1)) (rule Cons, assumption?)+ }
  { case 2 show ?case by (rule decode_base32_step(2)) (rule Cons 2, assumption?)+ }
  { case 3 show ?case by (rule decode_base32_step(3)) (rule Cons 3, assumption?)+ }
  { case 4 show ?case by (rule decode_base32_step(4)) (rule Cons 4, assumption?)+ }
  { case 5 show ?case by (rule decode_base32_step(5)) (rule Cons 5, assumption?)+ }
qed

lemma decode_base32hex: "decode_base32hex_nopad (base32hex_nopad ys) = Inr ys"
  using decode_base32_encoded(1) [of 0 "[]" 0 ys]
  by (simp add: decode_base32hex_nopad_def base32hex_nopad_def)

lemma nsec_parse_bit_maps:
  "nsec_parse_rdata rdata = Inr n \<Longrightarrow> validate_nsec_type_bit_maps (nsec_type_bit_maps n) = Inr ()"
  by (auto simp: nsec_parse_rdata_def result_defs split: prod.splits if_splits)

lemma nsec3_parse_bit_maps:
  "nsec3_parse_rdata rdata = Inr n \<Longrightarrow> validate_nsec_type_bit_maps (n3_type_bit_maps n) = Inr ()"
  by (auto simp: nsec3_parse_rdata_def as_nsec3_error_def result_defs Let_def split: if_splits)

lemma nsec_has_type_exact:
  "nsec_from_record r = Inr n \<Longrightarrow>
     nsec_has_type n ty = Inr (bitmap_lists (nsec_type_bit_maps n) (record_type_code ty))"
  by (simp add: nsec_from_record_def nsec_has_type_def bit_maps_contain_exact nsec_parse_bit_maps
      split: if_splits)

lemma nsec3_has_type_exact:
  "nsec3_from_record r = Inr n \<Longrightarrow>
     nsec3_has_type n ty = Inr (bitmap_lists (n3_type_bit_maps n) (record_type_code ty))"
  by (simp add: nsec3_from_record_def nsec3_has_type_def as_nsec3_error_def bit_maps_contain_exact
      nsec3_parse_bit_maps split: if_splits)

section \<open>Properties\<close>

text \<open>
  Denial records answer type queries exactly: on every NSEC or NSEC3 record that parses, asking
  for a type neither fails nor panics, and the answer is yes exactly when the record's bitmap has a
  window for the type with its bit set.
\<close>

theorem denial_types_exact:
  "(nsec_from_record r = Inr n \<longrightarrow>
     nsec_has_type n ty = Inr (bitmap_lists (nsec_type_bit_maps n) (record_type_code ty))) \<and>
   (nsec3_from_record r' = Inr m \<longrightarrow>
     nsec3_has_type m ty' = Inr (bitmap_lists (n3_type_bit_maps m) (record_type_code ty')))"
  using nsec_has_type_exact nsec3_has_type_exact by blast

definition sample_nsec :: resource_record where
  "sample_nsec = \<lparr>rr_name = [], rr_type = TypeNsec, rr_class = 1, rr_ttl = 0,
     rr_rdata = [0, 0, 1, 0x40]\<rparr>"

definition sample_nsec3 :: resource_record where
  "sample_nsec3 = \<lparr>rr_name = [], rr_type = TypeNsec3, rr_class = 1, rr_ttl = 0,
     rr_rdata = [1, 0, 0, 0, 0, 1, 7, 0, 1, 0x40]\<rparr>"

theorem denial_types_exact_witness:
  "nsec_has_type \<lparr>nsec_next_domain_name = [], nsec_type_bit_maps = [0, 1, 0x40]\<rparr> TypeA = Inr True \<and>
   nsec3_has_type \<lparr>n3_hash_algorithm = 1, n3_flags = 0, n3_iterations = 0, n3_salt = [],
     n3_next_hashed_owner_name = [7], n3_type_bit_maps = [0, 1, 0x40]\<rparr> TypeNs = Inr False"
proof -
  have p: "nsec_from_record sample_nsec = Inr \<lparr>nsec_next_domain_name = [], nsec_type_bit_maps = [0, 1, 0x40]\<rparr>"
    by (simp add: sample_nsec_def nsec_from_record_def nsec_parse_rdata_def parse_wire_def
        parse_wire_loop.simps get_byte_def validate_nsec_type_bit_maps_def)
  have q: "nsec3_from_record sample_nsec3 = Inr \<lparr>n3_hash_algorithm = 1, n3_flags = 0, n3_iterations = 0,
      n3_salt = [], n3_next_hashed_owner_name = [7], n3_type_bit_maps = [0, 1, 0x40]\<rparr>"
    by (simp add: sample_nsec3_def nsec3_from_record_def nsec3_parse_rdata_def checked_add_usize_def
        Let_def slice_def u16_of_be_def be_nat_def as_nsec3_error_def validate_nsec_type_bit_maps_def)
  have "bitmap_lists [0, 1, 0x40] (record_type_code TypeA)" "\<not> bitmap_lists [0, 1, 0x40] (record_type_code TypeNs)"
    by (simp_all add: bitmap_lists_def bit_numeral_rec)
  with p q denial_types_exact [of sample_nsec _ TypeA sample_nsec3 _ TypeNs] show ?thesis
    by (metis nsec_record.select_convs(2) nsec3_record.select_convs(6))
qed

text \<open>
  The key tag is the ones-complement style checksum of RFC 4034, appendix B: on key data of
  at most 65535 bytes the accumulator does not overflow, and the tag is the sum of the 16-bit
  big-endian words (an odd last byte padded on the right) plus that sum's high half, modulo 65536.
\<close>

theorem key_tag_exact:
  assumes "length rdata \<le> 65535"
  shows "unat (key_tag rdata) = (word_sum rdata + word_sum rdata div 65536) mod 65536"
proof -
  define S where "S = word_sum rdata"
  define acc where "acc = key_tag_loop True 0 rdata"
  have "S \<le> 65535 * 32768"
    using assms by (simp only: S_def) (rule le_trans [OF word_sum_bound], simp)
  moreover from this have acc: "unat acc = S"
    using key_tag_loop_sum [of 0 rdata] by (simp add: acc_def S_def)
  moreover have "unat (drop_bit 16 acc AND mask 16) = S div 65536 mod 65536"
    by (simp only: and_mask_mod unat_drop_bit_div acc) simp
  ultimately have "unat (acc + (drop_bit 16 acc AND mask 16)) = S + S div 65536 mod 65536"
    by (simp add: unat_word_ariths)
  moreover have "S div 65536 mod 65536 = S div 65536" using \<open>S \<le> 65535 * 32768\<close> by simp
  moreover have "key_tag rdata = ucast ((acc + (drop_bit 16 acc AND mask 16)) AND mask 16)"
    by (simp add: key_tag_def acc_def Let_def mask_numeral)
  moreover have "unat (ucast (w AND mask 16 :: u32) :: u16) = unat w mod 65536" for w
    by (simp add: unsigned_ucast_eq take_bit_eq_mod and_mask_mod)
  ultimately show ?thesis by (simp add: S_def)
qed

theorem key_tag_exact_witness: "unat (key_tag [1, 1, 3, 8, 255]) = 778"
  using key_tag_exact [of "[1, 1, 3, 8, 255]"] by simp

text \<open>
  The two base-32 routines of the program agree: what the encoder of synthesized names writes,
  the decoder of NSEC3 owner labels reads back, for byte strings of every length.
\<close>

theorem base32hex_round_trip: "decode_base32hex_nopad (base32hex_nopad ys) = Inr ys"
  by (rule decode_base32hex)

end
