(* ===== verification/Dnssec_Canonical.thy ===== *)
theory Dnssec_Canonical
  imports Dnssec_Records "HOL-Library.List_Lexorder" "HOL-Library.Multiset"
begin

text \<open>
  The canonical form of \<open>hns-dnssec/src/lib.rs\<close>: what bytes a signature over a record set covers.
  Record data is ordered as byte strings (the lexicographic order of \<open>Vec<u8>\<close>), the owner is lower
  case with the labels beyond the signature's label count replaced by an asterisk.
\<close>

section \<open>Definitions\<close>

record canonical_record =
  cr_rdata :: bytes
  cr_wire :: bytes

definition encode_label :: "bytes \<Rightarrow> rust_str \<Rightarrow> bytes dnssec_result" where
  "encode_label out label =
     (if length label > 63 then fails NameEncoding
      else Inr (out @ [word_of_nat (length label)] @ to_ascii_lowercase label))"

fun encode_label_list :: "bytes \<Rightarrow> dns_name \<Rightarrow> bytes dnssec_result" where
  "encode_label_list out [] = Inr out"
| "encode_label_list out (label # ls) =
     and_then (encode_label out label) (\<lambda>out. encode_label_list out ls)"

definition canonical_owner :: "dns_name \<Rightarrow> u8 \<Rightarrow> bytes dnssec_result" where
  "canonical_owner owner labels =
     (if unat labels > length owner then fails InvalidRrset
      else and_then
        (if unat labels < length owner
         then and_then (encode_label [] (ascii ''*'')) (\<lambda>out.
           encode_label_list out (drop (length owner - unat labels) owner))
         else encode_label_list [] owner) (\<lambda>out. Inr (out @ [0])))"

definition encode_canonical_name :: "dns_name \<Rightarrow> bytes dnssec_result" where
  "encode_canonical_name n = map_err (\<lambda>_. Err NameEncoding) (encode_wire n [])"

definition canonical_single_name_rdata :: "resource_record \<Rightarrow> bytes dnssec_result" where
  "canonical_single_name_rdata r =
     and_then (map_err (\<lambda>_. Err InvalidRrset) (parse_wire (rr_rdata r) 0)) (\<lambda>(name, fin).
     if fin \<noteq> length (rr_rdata r) then fails InvalidRrset else encode_canonical_name name)"

definition canonical_soa_rdata :: "resource_record \<Rightarrow> bytes dnssec_result" where
  "canonical_soa_rdata r =
     and_then (map_err (\<lambda>_. Err InvalidRrset) (parse_wire (rr_rdata r) 0)) (\<lambda>(mname, cursor).
     and_then (map_err (\<lambda>_. Err InvalidRrset) (parse_wire (rr_rdata r) cursor)) (\<lambda>(rname, cursor).
     and_then (ok_or (Err InvalidRrset) (checked_add_usize cursor 20)) (\<lambda>fin.
     and_then (ok_or (Err InvalidRrset) (get_range (rr_rdata r) cursor fin)) (\<lambda>timers.
     if cursor + 20 \<noteq> length (rr_rdata r) then fails InvalidRrset else
     and_then (encode_canonical_name mname) (\<lambda>m.
     and_then (encode_canonical_name rname) (\<lambda>n. Inr (m @ n @ timers)))))))"

definition canonical_srv_rdata :: "resource_record \<Rightarrow> bytes dnssec_result" where
  "canonical_srv_rdata r =
     and_then (ok_or (Err InvalidRrset) (get_range (rr_rdata r) 0 6)) (\<lambda>fixed.
     and_then (map_err (\<lambda>_. Err InvalidRrset) (parse_wire (rr_rdata r) 6)) (\<lambda>(target, fin).
     if fin \<noteq> length (rr_rdata r) then fails InvalidRrset else
     and_then (encode_canonical_name target) (\<lambda>t. Inr (fixed @ t))))"

definition canonical_svcb_rdata :: "resource_record \<Rightarrow> bytes dnssec_result" where
  "canonical_svcb_rdata r =
     and_then (map_err (\<lambda>_. Err InvalidRrset) (svcb_from_record r)) (\<lambda>svcb.
     and_then (map_err (\<lambda>_. Err NameEncoding)
         (encode_wire (target_name svcb) (u16_to_be (svc_priority svcb)))) (\<lambda>out.
     Inr (out @ concat (map (\<lambda>p. u16_to_be (sp_key p) @ u16_to_be (word_of_nat (length (sp_value p))) @ sp_value p)
       (svc_params svcb)))))"

definition canonical_nsec_rdata :: "resource_record \<Rightarrow> bytes dnssec_result" where
  "canonical_nsec_rdata r =
     and_then (nsec_from_record r) (\<lambda>nsec.
     and_then (map_err (\<lambda>_. Err NameEncoding) (encode_wire (nsec_next_domain_name nsec) [])) (\<lambda>out.
     Inr (out @ nsec_type_bit_maps nsec)))"

definition canonical_nsec3_rdata :: "resource_record \<Rightarrow> bytes dnssec_result" where
  "canonical_nsec3_rdata r = and_then (nsec3_from_record r) (\<lambda>_. Inr (rr_rdata r))"

definition canonical_rdata :: "resource_record \<Rightarrow> bytes dnssec_result" where
  "canonical_rdata r =
     (case rr_type r of
        TypeA \<Rightarrow> Inr (rr_rdata r)
      | TypeAaaa \<Rightarrow> Inr (rr_rdata r)
      | TypeDs \<Rightarrow> Inr (rr_rdata r)
      | TypeDnskey \<Rightarrow> Inr (rr_rdata r)
      | TypeTlsa \<Rightarrow> Inr (rr_rdata r)
      | TypeTxt \<Rightarrow> Inr (rr_rdata r)
      | TypeUnknown _ \<Rightarrow> Inr (rr_rdata r)
      | TypeNs \<Rightarrow> canonical_single_name_rdata r
      | TypeCname \<Rightarrow> canonical_single_name_rdata r
      | TypeSoa \<Rightarrow> canonical_soa_rdata r
      | TypeSrv \<Rightarrow> canonical_srv_rdata r
      | TypeNsec \<Rightarrow> canonical_nsec_rdata r
      | TypeNsec3 \<Rightarrow> canonical_nsec3_rdata r
      | TypeSvcb \<Rightarrow> canonical_svcb_rdata r
      | TypeHttps \<Rightarrow> canonical_svcb_rdata r
      | TypeRrsig \<Rightarrow> fails UnsupportedCanonicalRdata)"

text \<open>The closure \<open>canonical_rrset\<close> maps over the records, with the first record's type, class and owner.\<close>

definition canonical_one ::
  "rrsig_record \<Rightarrow> record_type \<Rightarrow> u16 \<Rightarrow> bytes \<Rightarrow> resource_record \<Rightarrow> canonical_record dnssec_result" where
  "canonical_one rrsig ty cls owner r =
     (if rr_type r \<noteq> ty \<or> rr_class r \<noteq> cls then fails InvalidRrset else
      and_then (canonical_owner (rr_name r) (sig_labels rrsig)) (\<lambda>this_owner.
      if this_owner \<noteq> owner then fails InvalidRrset else
      and_then (canonical_rdata r) (\<lambda>rdata.
      if length rdata > 65535 then fails InvalidRrset
      else Inr \<lparr>cr_rdata = rdata,
        cr_wire = owner @ u16_to_be (record_type_code (rr_type r)) @ u16_to_be (rr_class r) @
          u32_to_be (sig_original_ttl rrsig) @ u16_to_be (word_of_nat (length rdata)) @ rdata\<rparr>)))"

definition canonical_rrset :: "resource_record list \<Rightarrow> rrsig_record \<Rightarrow> canonical_record list dnssec_result" where
  "canonical_rrset rrset rrsig =
     (case rrset of
        [] \<Rightarrow> fails InvalidRrset
      | first # _ \<Rightarrow>
          (if rr_type first \<noteq> sig_type_covered rrsig then fails InvalidRrset else
           and_then (canonical_owner (rr_name first) (sig_labels rrsig)) (\<lambda>owner.
           collect_results (canonical_one rrsig (rr_type first) (rr_class first) owner) rrset)))"

text \<open>\<open>windows(2)\<close> with equal neighbours.\<close>

fun has_equal_neighbours :: "canonical_record list \<Rightarrow> bool" where
  "has_equal_neighbours (a # b # cs) \<longleftrightarrow> cr_rdata a = cr_rdata b \<or> has_equal_neighbours (b # cs)"
| "has_equal_neighbours _ \<longleftrightarrow> False"

definition signed_data :: "resource_record list \<Rightarrow> rrsig_record \<Rightarrow> u64 \<Rightarrow> bytes dnssec_result" where
  "signed_data rrset rrsig now =
     (if \<not> is_valid_at rrsig now then fails SignatureOutsideValidity else
      and_then (canonical_rrset rrset rrsig) (\<lambda>records.
      let records = sort_key cr_rdata records in
      if has_equal_neighbours records then fails InvalidRrset
      else Inr (sig_signed_rdata rrsig @ concat (map cr_wire records))))"

subsection \<open>Reference definitions\<close>

text \<open>The owner a signature with a given label count speaks of, and the content it covers.\<close>

definition signed_owner :: "dns_name \<Rightarrow> u8 \<Rightarrow> dns_name" where
  "signed_owner owner labels =
     (if unat labels < length owner then ascii ''*'' # drop (length owner - unat labels) owner else owner)"

definition signed_content :: "resource_record list \<Rightarrow> rrsig_record \<Rightarrow> dns_name \<times> u16 \<times> bytes set" where
  "signed_content rrset rrsig =
     (signed_owner (rr_name (hd rrset)) (sig_labels rrsig), rr_class (hd rrset),
      {rdata. \<exists>r \<in> set rrset. canonical_rdata r = Inr rdata})"

section \<open>Lemmas\<close>

subsection \<open>Owners\<close>

lemma encode_label_list_closed:
  "\<forall>l \<in> set ls. length l \<le> 63 \<and> to_ascii_lowercase l = l \<Longrightarrow>
     encode_label_list out ls = Inr (out @ concat (map (\<lambda>l. word_of_nat (length l) # l) ls))"
  by (induction ls arbitrary: out) (auto simp: encode_label_def)

lemma canonical_owner_closed:
  assumes "wf_name owner"
  shows "canonical_owner owner labels =
    (if unat labels > length owner then fails InvalidRrset else Inr (wire (signed_owner owner labels)))"
proof -
  have wf: "\<forall>l \<in> set owner. length l \<le> 63 \<and> to_ascii_lowercase l = l"
    using assms by (auto simp: wf_name_def wf_label_def list_all_iff)
  then have d: "\<forall>l \<in> set (drop k owner). length l \<le> 63 \<and> to_ascii_lowercase l = l" for k
    by (meson in_set_dropD)
  have star: "encode_label [] (ascii ''*'') = Inr (word_of_nat (length (ascii ''*'')) # ascii ''*'')"
    by (simp add: encode_label_def ascii_def to_ascii_lowercase_def to_ascii_lower_byte_def is_ascii_upper_def)
  show ?thesis
    by (simp add: canonical_owner_def signed_owner_def wire_def encode_label_list_closed [OF wf]
        encode_label_list_closed [OF d] star)
qed

lemma length_octet_zero: "\<lbrakk>l \<noteq> []; length l \<le> 63\<rbrakk> \<Longrightarrow> word_of_nat (length l) \<noteq> (0 :: u8)"
  using length_byte [of "length l"] by auto

lemma wire_Cons: "wire (l # ls) @ r = word_of_nat (length l) # l @ (wire ls @ r)"
  by (simp add: wire_def)

lemma wire_prefix_free:
  "\<lbrakk>\<forall>l \<in> set n. l \<noteq> [] \<and> length l \<le> 63; \<forall>l \<in> set m. l \<noteq> [] \<and> length l \<le> 63;
    wire n @ r = wire m @ s\<rbrakk> \<Longrightarrow> n = m \<and> r = s"
proof (induction n m rule: list_induct2')
  case (2 l ls)
  then show ?case using length_octet_zero [of l] by (simp add: wire_def)
next
  case (3 k ks)
  then have "word_of_nat (length k) = (0 :: u8)" by (simp add: wire_def)
  with 3 show ?case using length_octet_zero [of k] by simp
next
  case (4 l ls k ks)
  have eq: "(word_of_nat (length l) :: u8) = word_of_nat (length k)" "l @ (wire ls @ r) = k @ (wire ks @ s)"
    using 4(4) unfolding wire_Cons by (simp_all only: list.inject)
  have "length l = length k"
    using length_byte [of "length l"] length_byte [of "length k"] 4(2,3) eq(1) by (metis list.set_intros(1))
  then have "l = k \<and> wire ls @ r = wire ks @ s" using eq(2) append_eq_append_conv by blast
  with 4 show ?case by (metis list.set_intros(2))
qed (simp add: wire_def)

lemma signed_owner_labels:
  "wf_name owner \<Longrightarrow> \<forall>l \<in> set (signed_owner owner labels). l \<noteq> [] \<and> length l \<le> 63"
  by (auto simp: signed_owner_def wf_name_def wf_label_def list_all_iff ascii_def dest: in_set_dropD)

subsection \<open>Record sets\<close>

lemma collect_results_perm:
  assumes "collect_results f xs = Inr ys" "mset xs = mset xs'"
  shows "\<exists>ys'. collect_results f xs' = Inr ys' \<and> mset ys' = mset ys"
proof -
  have ok: "f x = Inr (projr (f x))" if "x \<in> set xs" for x
  proof -
    have "\<exists>y. f x = Inr y"
      using assms(1) that by (auto simp: collect_results_list_all2 list_all2_conv_all_nth in_set_conv_nth)
    then show ?thesis by auto
  qed
  have "\<forall>x \<in> set zs. f x = Inr (projr (f x)) \<Longrightarrow> collect_results f zs = Inr (map (projr \<circ> f) zs)" for zs
    by (induction zs) (auto split: sum.splits)
  moreover have "set xs' = set xs" using assms(2) by (metis set_mset_mset)
  ultimately have "collect_results f xs = Inr (map (projr \<circ> f) xs)"
    "collect_results f xs' = Inr (map (projr \<circ> f) xs')" using ok by auto
  with assms show ?thesis by (metis mset_map sum.inject(2))
qed

lemma canonical_one_Inr:
  assumes "canonical_one rrsig ty cls owner r = Inr c"
  shows "rr_type r = ty" "rr_class r = cls" "canonical_owner (rr_name r) (sig_labels rrsig) = Inr owner"
    "canonical_rdata r = Inr (cr_rdata c)" "length (cr_rdata c) \<le> 65535"
    "cr_wire c = owner @ u16_to_be (record_type_code ty) @ u16_to_be cls @
       u32_to_be (sig_original_ttl rrsig) @ u16_to_be (word_of_nat (length (cr_rdata c))) @ cr_rdata c"
  using assms by (auto simp: canonical_one_def result_defs split: if_splits)

text \<open>A record set in canonical form: uniform in type, class and owner, one canonical record each.\<close>

lemma canonical_rrset_iff:
  "canonical_rrset rs rrsig = Inr cs \<longleftrightarrow>
     rs \<noteq> [] \<and> (\<exists>owner. canonical_owner (rr_name (hd rs)) (sig_labels rrsig) = Inr owner \<and>
       rr_type (hd rs) = sig_type_covered rrsig \<and>
       collect_results (canonical_one rrsig (sig_type_covered rrsig) (rr_class (hd rs)) owner) rs = Inr cs)"
  by (cases rs) (auto simp: canonical_rrset_def result_defs)

lemma canonical_rrset_uniform:
  assumes "canonical_rrset rs rrsig = Inr cs" "r \<in> set rs"
  shows "rr_type r = sig_type_covered rrsig" "rr_class r = rr_class (hd rs)"
    "canonical_owner (rr_name r) (sig_labels rrsig) = canonical_owner (rr_name (hd rs)) (sig_labels rrsig)"
proof -
  obtain owner where o: "canonical_owner (rr_name (hd rs)) (sig_labels rrsig) = Inr owner"
    "list_all2 (\<lambda>r c. canonical_one rrsig (sig_type_covered rrsig) (rr_class (hd rs)) owner r = Inr c) rs cs"
    using assms(1) by (auto simp: canonical_rrset_iff collect_results_list_all2)
  then obtain c where "canonical_one rrsig (sig_type_covered rrsig) (rr_class (hd rs)) owner r = Inr c"
    using assms(2) by (auto simp: list_all2_conv_all_nth in_set_conv_nth)
  from canonical_one_Inr [OF this] o(1)
  show "rr_type r = sig_type_covered rrsig" "rr_class r = rr_class (hd rs)"
    "canonical_owner (rr_name r) (sig_labels rrsig) = canonical_owner (rr_name (hd rs)) (sig_labels rrsig)"
    by simp_all
qed

lemma canonical_rrset_perm:
  assumes "canonical_rrset rs rrsig = Inr cs" "mset rs = mset rs'"
  shows "\<exists>cs'. canonical_rrset rs' rrsig = Inr cs' \<and> mset cs' = mset cs"
proof -
  have "rs' \<noteq> []" using assms by (auto simp: canonical_rrset_iff)
  then have "hd rs' \<in> set rs" using assms(2) by (metis list.set_sel(1) set_mset_mset)
  from canonical_rrset_uniform [OF assms(1) this] assms collect_results_perm \<open>rs' \<noteq> []\<close>
  show ?thesis unfolding canonical_rrset_iff by (metis (no_types, lifting))
qed

subsection \<open>Sorting\<close>

lemma no_equal_neighbours:
  "\<lbrakk>sorted (map cr_rdata cs); \<not> has_equal_neighbours cs\<rbrakk> \<Longrightarrow> distinct (map cr_rdata cs)"
proof (induction cs rule: has_equal_neighbours.induct)
  case (1 a b cs)
  then have "cr_rdata a < cr_rdata b" by (simp add: order.strict_iff_order)
  moreover have "\<forall>c \<in> set cs. cr_rdata b \<le> cr_rdata c" using 1 by simp
  ultimately have "cr_rdata a \<notin> cr_rdata ` set (b # cs)" by (auto dest: leD)
  with 1 show ?case by simp
qed auto

lemma signed_data_Inr:
  assumes "signed_data rs rrsig now = Inr d"
  obtains cs where "canonical_rrset rs rrsig = Inr cs" "distinct (map cr_rdata cs)"
    "d = sig_signed_rdata rrsig @ concat (map cr_wire (sort_key cr_rdata cs))"
    "is_valid_at rrsig now" "\<not> has_equal_neighbours (sort_key cr_rdata cs)"
proof -
  obtain cs where cs: "canonical_rrset rs rrsig = Inr cs" "\<not> has_equal_neighbours (sort_key cr_rdata cs)"
    "d = sig_signed_rdata rrsig @ concat (map cr_wire (sort_key cr_rdata cs))" "is_valid_at rrsig now"
    using assms by (auto simp: signed_data_def result_defs Let_def split: if_splits)
  have "distinct (map cr_rdata (sort_key cr_rdata cs))"
    using cs(2) by (intro no_equal_neighbours) simp_all
  then have "distinct (map cr_rdata cs)"
    by (metis mset_eq_imp_distinct_iff mset_map mset_sort)
  with cs that show ?thesis by blast
qed

lemma sort_key_perm:
  "\<lbrakk>mset xs = mset ys; distinct (map f xs)\<rbrakk> \<Longrightarrow> sort_key f xs = sort_key f ys"
  by (intro sort_key_inj_key_eq) (auto simp: distinct_map)

lemma wires_injective:
  assumes "\<forall>c \<in> set C. cr_wire c = wire o1 @ h1 @ u16_to_be (word_of_nat (length (cr_rdata c))) @ cr_rdata c
      \<and> length (cr_rdata c) \<le> 65535"
    and "\<forall>c \<in> set C'. cr_wire c = wire o2 @ h2 @ u16_to_be (word_of_nat (length (cr_rdata c))) @ cr_rdata c
      \<and> length (cr_rdata c) \<le> 65535"
    and "\<forall>l \<in> set o1. l \<noteq> [] \<and> length l \<le> 63" "\<forall>l \<in> set o2. l \<noteq> [] \<and> length l \<le> 63"
    and "length h1 = length h2" "concat (map cr_wire C) = concat (map cr_wire C')"
  shows "map cr_rdata C = map cr_rdata C' \<and> (C \<noteq> [] \<longrightarrow> o1 = o2 \<and> h1 = h2)"
  using assms
proof (induction C C' rule: list_induct2')
  case (4 c cs d ds)
  have w: "cr_wire c = wire o1 @ h1 @ u16_to_be (word_of_nat (length (cr_rdata c))) @ cr_rdata c"
    "cr_wire d = wire o2 @ h2 @ u16_to_be (word_of_nat (length (cr_rdata d))) @ cr_rdata d"
    "length (cr_rdata c) \<le> 65535" "length (cr_rdata d) \<le> 65535"
    using "4.prems"(1,2) by simp_all
  have "wire o1 @ (h1 @ u16_to_be (word_of_nat (length (cr_rdata c))) @ cr_rdata c @ concat (map cr_wire cs)) =
      wire o2 @ (h2 @ u16_to_be (word_of_nat (length (cr_rdata d))) @ cr_rdata d @ concat (map cr_wire ds))"
    using "4.prems"(6) by (simp add: w)
  from wire_prefix_free [OF "4.prems"(3,4) this] "4.prems"(5)
  have eq: "o1 = o2" "h1 = h2" "u16_to_be (word_of_nat (length (cr_rdata c))) = u16_to_be (word_of_nat (length (cr_rdata d)))"
    "cr_rdata c @ concat (map cr_wire cs) = cr_rdata d @ concat (map cr_wire ds)"
    by simp_all
  have "(word_of_nat (length (cr_rdata c)) :: u16) = word_of_nat (length (cr_rdata d))"
    using eq(3) by (metis word_bytes_round_trip(1))
  then have "length (cr_rdata c) = length (cr_rdata d)"
    using w(3,4) by (simp add: word_of_nat_eq_iff take_bit_nat_eq_self)
  with eq(4) have tails: "cr_rdata c = cr_rdata d" "concat (map cr_wire cs) = concat (map cr_wire ds)"
    by simp_all
  have "map cr_rdata cs = map cr_rdata ds"
    using "4.IH" [OF _ _ "4.prems"(3-5) tails(2)] "4.prems"(1,2) by simp
  with tails eq show ?case by simp
qed (auto simp: wire_def)

lemma canonical_rrset_members:
  assumes "canonical_rrset rs rrsig = Inr cs"
  shows "\<exists>owner. canonical_owner (rr_name (hd rs)) (sig_labels rrsig) = Inr owner \<and>
    (\<forall>c \<in> set cs. cr_wire c = owner @ (u16_to_be (record_type_code (sig_type_covered rrsig)) @
        u16_to_be (rr_class (hd rs)) @ u32_to_be (sig_original_ttl rrsig)) @
        u16_to_be (word_of_nat (length (cr_rdata c))) @ cr_rdata c \<and> length (cr_rdata c) \<le> 65535)"
    "set (map cr_rdata cs) = {rdata. \<exists>r \<in> set rs. canonical_rdata r = Inr rdata}" "cs \<noteq> []"
proof -
  obtain owner where o: "rs \<noteq> []" "canonical_owner (rr_name (hd rs)) (sig_labels rrsig) = Inr owner"
    and c: "collect_results (canonical_one rrsig (sig_type_covered rrsig) (rr_class (hd rs)) owner) rs = Inr cs"
    using assms by (auto simp: canonical_rrset_iff)
  note one = canonical_one_Inr [of rrsig "sig_type_covered rrsig" "rr_class (hd rs)" owner]
  show "cs \<noteq> []" using collect_results_length [OF c] o(1) by auto
  show "\<exists>owner. canonical_owner (rr_name (hd rs)) (sig_labels rrsig) = Inr owner \<and>
    (\<forall>c \<in> set cs. cr_wire c = owner @ (u16_to_be (record_type_code (sig_type_covered rrsig)) @
        u16_to_be (rr_class (hd rs)) @ u32_to_be (sig_original_ttl rrsig)) @
        u16_to_be (word_of_nat (length (cr_rdata c))) @ cr_rdata c \<and> length (cr_rdata c) \<le> 65535)"
    using o(2) collect_results_set [OF c] one(5,6) by fastforce
  have l: "list_all2 (\<lambda>r c. canonical_rdata r = Inr (cr_rdata c)) rs cs"
    using c one(4) unfolding collect_results_list_all2 by (rule list_all2_mono)
  then show "set (map cr_rdata cs) = {rdata. \<exists>r \<in> set rs. canonical_rdata r = Inr rdata}"
    by (induction rs cs rule: list_all2_induct) auto
qed

lemma signed_data_perm:
  assumes "signed_data rs rrsig now = Inr d" "mset rs = mset rs'"
  shows "signed_data rs' rrsig now = Inr d"
proof -
  obtain cs where cs: "canonical_rrset rs rrsig = Inr cs" "distinct (map cr_rdata cs)"
    "d = sig_signed_rdata rrsig @ concat (map cr_wire (sort_key cr_rdata cs))"
    "is_valid_at rrsig now" "\<not> has_equal_neighbours (sort_key cr_rdata cs)"
    using signed_data_Inr [OF assms(1)] .
  obtain cs' where cs': "canonical_rrset rs' rrsig = Inr cs'" "mset cs' = mset cs"
    using canonical_rrset_perm [OF cs(1) assms(2)] by blast
  have "sort_key cr_rdata cs' = sort_key cr_rdata cs"
    using sort_key_perm [OF cs'(2) [symmetric] cs(2)] by simp
  with cs cs' show ?thesis by (simp add: signed_data_def Let_def)
qed

text \<open>
  The normal form behind signed data: records in strictly ascending order of their data, each
  written with the same owner and the same header (type, class and time to live).
\<close>

definition signed_header :: "rrsig_record \<Rightarrow> resource_record \<Rightarrow> bytes" where
  "signed_header rrsig r = u16_to_be (record_type_code (sig_type_covered rrsig)) @
     u16_to_be (rr_class r) @ u32_to_be (sig_original_ttl rrsig)"

definition normal_records :: "dns_name \<Rightarrow> bytes \<Rightarrow> canonical_record list \<Rightarrow> bool" where
  "normal_records owner hdr cs \<longleftrightarrow>
     cs \<noteq> [] \<and> sorted (map cr_rdata cs) \<and> distinct (map cr_rdata cs) \<and>
     (\<forall>c \<in> set cs. cr_wire c = wire owner @ hdr @ u16_to_be (word_of_nat (length (cr_rdata c))) @ cr_rdata c
        \<and> length (cr_rdata c) \<le> 65535)"

lemma signed_header_class:
  "signed_header rrsig r = signed_header rrsig r' \<longleftrightarrow> rr_class r = rr_class r'"
  by (auto simp: signed_header_def) (metis word_bytes_round_trip(1))

lemma signed_data_normal:
  assumes "signed_data rs rrsig now = Inr d" "wf_name (rr_name (hd rs))"
  shows "\<exists>cs. d = sig_signed_rdata rrsig @ concat (map cr_wire cs) \<and>
    normal_records (signed_owner (rr_name (hd rs)) (sig_labels rrsig)) (signed_header rrsig (hd rs)) cs \<and>
    set (map cr_rdata cs) = {rdata. \<exists>r \<in> set rs. canonical_rdata r = Inr rdata}"
proof -
  obtain cs where cs: "canonical_rrset rs rrsig = Inr cs" "distinct (map cr_rdata cs)"
    "d = sig_signed_rdata rrsig @ concat (map cr_wire (sort_key cr_rdata cs))"
    using signed_data_Inr [OF assms(1)] by metis
  define ss where "ss = sort_key cr_rdata cs"
  have sorted: "set ss = set cs" "sorted (map cr_rdata ss)" by (simp_all add: ss_def)
  have dist: "distinct (map cr_rdata ss)"
    unfolding ss_def using cs(2) by (metis mset_eq_imp_distinct_iff mset_map mset_sort)
  have ne: "ss \<noteq> []" using canonical_rrset_members(3) [OF cs(1)] sorted(1) by auto
  have "\<forall>c \<in> set cs. cr_wire c = wire (signed_owner (rr_name (hd rs)) (sig_labels rrsig)) @
      signed_header rrsig (hd rs) @ u16_to_be (word_of_nat (length (cr_rdata c))) @ cr_rdata c
      \<and> length (cr_rdata c) \<le> 65535"
    using canonical_rrset_members(1) [OF cs(1)] assms(2)
    by (simp add: canonical_owner_closed signed_header_def split: if_splits)
  then have "normal_records (signed_owner (rr_name (hd rs)) (sig_labels rrsig)) (signed_header rrsig (hd rs)) ss"
    using sorted dist ne by (simp add: normal_records_def)
  moreover have "d = sig_signed_rdata rrsig @ concat (map cr_wire ss)" using cs(3) by (simp add: ss_def)
  moreover have "set (map cr_rdata ss) = {rdata. \<exists>r \<in> set rs. canonical_rdata r = Inr rdata}"
    using canonical_rrset_members(2) [OF cs(1)] sorted(1) by simp
  ultimately show ?thesis by blast
qed

lemma normal_records_unique:
  assumes n: "normal_records o1 h1 cs" "normal_records o2 h2 cs'"
    and l: "\<forall>l \<in> set o1. l \<noteq> [] \<and> length l \<le> 63" "\<forall>l \<in> set o2. l \<noteq> [] \<and> length l \<le> 63" "length h1 = length h2"
  shows "concat (map cr_wire cs) = concat (map cr_wire cs') \<longleftrightarrow>
    o1 = o2 \<and> h1 = h2 \<and> set (map cr_rdata cs) = set (map cr_rdata cs')"
proof
  assume "concat (map cr_wire cs) = concat (map cr_wire cs')"
  then have "map cr_rdata cs = map cr_rdata cs' \<and> (cs \<noteq> [] \<longrightarrow> o1 = o2 \<and> h1 = h2)"
    using n l by (intro wires_injective) (simp_all add: normal_records_def)
  then show "o1 = o2 \<and> h1 = h2 \<and> set (map cr_rdata cs) = set (map cr_rdata cs')"
    using n(1) by (simp add: normal_records_def)
next
  assume eq: "o1 = o2 \<and> h1 = h2 \<and> set (map cr_rdata cs) = set (map cr_rdata cs')"
  define put where "put b = wire o1 @ h1 @ u16_to_be (word_of_nat (length b)) @ b" for b :: bytes
  have "map cr_rdata cs = map cr_rdata cs'"
    using n eq by (intro sorted_distinct_set_unique) (simp_all add: normal_records_def)
  moreover have "map cr_wire cs = map put (map cr_rdata cs)" "map cr_wire cs' = map put (map cr_rdata cs')"
    using n eq by (simp_all add: normal_records_def put_def)
  ultimately show "concat (map cr_wire cs) = concat (map cr_wire cs')" by metis
qed

section \<open>Properties\<close>

text \<open>
  Signatures cover record sets, not lists: if the signed data of a list of records exists, every
  rearrangement of the list has the same signed data.  The order in which a server sends the
  records cannot change what is verified.
\<close>

theorem signed_data_order_independent:
  assumes "signed_data rs rrsig now = Inr d" "mset rs = mset rs'"
  shows "signed_data rs' rrsig now = Inr d"
  by (rule signed_data_perm [OF assms])

text \<open>
  Signed data is unambiguous: under one signature record, two record sets with well-formed owners
  have the same signed data exactly when they agree in the owner the signature speaks of (wildcard
  included), in the class and in the set of canonical record data.  A signature over one content
  cannot be replayed for another.
\<close>

theorem signed_data_unambiguous:
  assumes "signed_data rs rrsig now = Inr d" "signed_data rs' rrsig now' = Inr d'"
    and "\<forall>r \<in> set rs \<union> set rs'. wf_name (rr_name r)"
  shows "d = d' \<longleftrightarrow> signed_content rs rrsig = signed_content rs' rrsig"
proof -
  have "rs \<noteq> []" "rs' \<noteq> []"
    using signed_data_Inr [OF assms(1)] signed_data_Inr [OF assms(2)] by (metis canonical_rrset_iff)+
  then have wf: "wf_name (rr_name (hd rs))" "wf_name (rr_name (hd rs'))" using assms(3) by auto
  obtain cs where c:
    "d = sig_signed_rdata rrsig @ concat (map cr_wire cs)"
    "normal_records (signed_owner (rr_name (hd rs)) (sig_labels rrsig)) (signed_header rrsig (hd rs)) cs"
    "set (map cr_rdata cs) = {rdata. \<exists>r \<in> set rs. canonical_rdata r = Inr rdata}"
    using signed_data_normal [OF assms(1) wf(1)] by blast
  obtain cs' where c':
    "d' = sig_signed_rdata rrsig @ concat (map cr_wire cs')"
    "normal_records (signed_owner (rr_name (hd rs')) (sig_labels rrsig)) (signed_header rrsig (hd rs')) cs'"
    "set (map cr_rdata cs') = {rdata. \<exists>r \<in> set rs'. canonical_rdata r = Inr rdata}"
    using signed_data_normal [OF assms(2) wf(2)] by blast
  have "length (signed_header rrsig (hd rs)) = length (signed_header rrsig (hd rs'))"
    by (simp add: signed_header_def)
  from normal_records_unique [OF c(2) c'(2) signed_owner_labels [OF wf(1)] signed_owner_labels [OF wf(2)] this] c c'
  show ?thesis by (simp add: signed_content_def signed_header_class)
qed

definition sample_rrsig :: rrsig_record where
  "sample_rrsig = \<lparr>sig_type_covered = TypeA, sig_algorithm = 15, sig_labels = 0, sig_original_ttl = 60,
     sig_expiration = 100, sig_inception = 10, sig_key_tag = 7, sig_signer_name = [],
     sig_signature = [], sig_signed_rdata = [9]\<rparr>"

definition sample_address :: "u8 \<Rightarrow> resource_record" where
  "sample_address b = \<lparr>rr_name = [], rr_type = TypeA, rr_class = 1, rr_ttl = 60, rr_rdata = [10, 0, 0, b]\<rparr>"

lemma sample_signed_data:
  "\<exists>d. signed_data [sample_address 2, sample_address 1] sample_rrsig 50 = Inr d"
  by (simp add: signed_data_def is_valid_at_def sample_rrsig_def sample_address_def canonical_rrset_def
      canonical_owner_def canonical_one_def canonical_rdata_def Let_def word_le_nat_alt)

theorem signed_data_order_independent_witness:
  "\<exists>d. signed_data [sample_address 2, sample_address 1] sample_rrsig 50 = Inr d \<and>
       signed_data [sample_address 1, sample_address 2] sample_rrsig 50 = Inr d"
proof -
  obtain d where d: "signed_data [sample_address 2, sample_address 1] sample_rrsig 50 = Inr d"
    using sample_signed_data by blast
  have "mset [sample_address 2, sample_address 1] = mset [sample_address 1, sample_address 2]" by simp
  from signed_data_order_independent [OF d this] d show ?thesis by blast
qed

theorem signed_data_unambiguous_witness:
  "\<exists>d. signed_data [sample_address 2, sample_address 1] sample_rrsig 50 = Inr d \<and>
       (d = d \<longleftrightarrow> signed_content [sample_address 2, sample_address 1] sample_rrsig =
         signed_content [sample_address 2, sample_address 1] sample_rrsig)"
proof -
  obtain d where d: "signed_data [sample_address 2, sample_address 1] sample_rrsig 50 = Inr d"
    using sample_signed_data by blast
  have "\<forall>r \<in> set [sample_address 2, sample_address 1] \<union> set [sample_address 2, sample_address 1].
      wf_name (rr_name r)"
    by (simp add: sample_address_def wf_name_def)
  from signed_data_unambiguous [OF d d this] d show ?thesis by blast
qed

end
