(* ===== verification/Dnssec.thy ===== *)
theory Dnssec
  imports Dnssec_Canonical Pow
begin

text \<open>
  Signature and delegation checks of \<open>hns-dnssec/src/lib.rs\<close>: DS digests, the seven signature
  algorithms, and the validators for a signed record set and for a chain of delegations.  The
  digests and the signature primitives come from the crates \<open>sha1\<close>, \<open>sha2\<close>, \<open>p256\<close> and \<open>ring\<close>; they
  are the fields of the record \<open>crypto\<close>, an argument of every definition that uses them.  RSA with
  SHA-1 is checked by the program itself, over \<open>BigUint\<close>, whose values are natural numbers.
\<close>

section \<open>Definitions\<close>

datatype rsa_hash = RsaSha1 | RsaSha256 | RsaSha512

record crypto =
  digests :: digest_fns
  rsa_verify :: "rsa_hash \<Rightarrow> bytes \<Rightarrow> bytes \<Rightarrow> bytes \<Rightarrow> bytes \<Rightarrow> bool"
  p256_from_sec1_bytes :: "bytes \<Rightarrow> bool"
  p256_signature_from_slice :: "bytes \<Rightarrow> bool"
  p256_verify :: "bytes \<Rightarrow> bytes \<Rightarrow> bytes \<Rightarrow> bool"
  p384_verify :: "bytes \<Rightarrow> bytes \<Rightarrow> bytes \<Rightarrow> bool"
  ed25519_verify :: "bytes \<Rightarrow> bytes \<Rightarrow> bytes \<Rightarrow> bool"

definition DNSSEC_ALGORITHM_RSASHA1 :: u8 where "DNSSEC_ALGORITHM_RSASHA1 = 5"
definition DNSSEC_ALGORITHM_RSASHA1_NSEC3_SHA1 :: u8 where "DNSSEC_ALGORITHM_RSASHA1_NSEC3_SHA1 = 7"
definition DNSSEC_ALGORITHM_RSASHA256 :: u8 where "DNSSEC_ALGORITHM_RSASHA256 = 8"
definition DNSSEC_ALGORITHM_RSASHA512 :: u8 where "DNSSEC_ALGORITHM_RSASHA512 = 10"
definition DNSSEC_ALGORITHM_ECDSAP256SHA256 :: u8 where "DNSSEC_ALGORITHM_ECDSAP256SHA256 = 13"
definition DNSSEC_ALGORITHM_ECDSAP384SHA384 :: u8 where "DNSSEC_ALGORITHM_ECDSAP384SHA384 = 14"
definition DNSSEC_ALGORITHM_ED25519 :: u8 where "DNSSEC_ALGORITHM_ED25519 = 15"
definition DS_DIGEST_SHA1 :: u8 where "DS_DIGEST_SHA1 = 1"
definition DS_DIGEST_SHA256 :: u8 where "DS_DIGEST_SHA256 = 2"
definition DS_DIGEST_SHA384 :: u8 where "DS_DIGEST_SHA384 = 4"
definition RSA_PKCS1_V1_5_MIN_PADDING_LEN :: nat where "RSA_PKCS1_V1_5_MIN_PADDING_LEN = 8"

definition SHA1_DIGEST_INFO_PREFIX :: bytes where
  "SHA1_DIGEST_INFO_PREFIX =
     [0x30, 33, 0x30, 9] @ [6, 5, 0x2b, 0x0e, 3, 2, 0x1a] @ [5, 0] @ [4, 20]"

lemmas dnssec_algorithms =
  DNSSEC_ALGORITHM_RSASHA1_def DNSSEC_ALGORITHM_RSASHA1_NSEC3_SHA1_def DNSSEC_ALGORITHM_RSASHA256_def
  DNSSEC_ALGORITHM_RSASHA512_def DNSSEC_ALGORITHM_ECDSAP256SHA256_def
  DNSSEC_ALGORITHM_ECDSAP384SHA384_def DNSSEC_ALGORITHM_ED25519_def

subsection \<open>Delegation signer digests\<close>

definition ds_digest :: "crypto \<Rightarrow> dns_name \<Rightarrow> dnskey_record \<Rightarrow> u8 \<Rightarrow> bytes dnssec_result" where
  "ds_digest K owner dnskey digest_type =
     and_then (map_err (\<lambda>_. Err NameEncoding) (encode_wire owner [])) (\<lambda>canonical.
     let canonical = canonical @ dk_rdata dnskey in
     if digest_type = DS_DIGEST_SHA1 then Inr (sha1_digest (digests K) canonical)
     else if digest_type = DS_DIGEST_SHA256 then Inr (sha256_digest (digests K) canonical)
     else if digest_type = DS_DIGEST_SHA384 then Inr (sha384_digest (digests K) canonical)
     else fails UnsupportedDigest)"

definition verify_ds_digest :: "crypto \<Rightarrow> dns_name \<Rightarrow> dnskey_record \<Rightarrow> ds_record \<Rightarrow> bool dnssec_result" where
  "verify_ds_digest K owner dnskey ds =
     (if dk_flags dnskey AND DNSKEY_ZONE_FLAG = 0 then Inr False
      else if dk_algorithm dnskey \<noteq> ds_algorithm ds \<or> dnskey_key_tag dnskey \<noteq> ds_key_tag ds then Inr False
      else and_then (ds_digest K owner dnskey (ds_digest_type ds)) (\<lambda>d. Inr (d = ds_digest_bytes ds)))"

text \<open>The two nested loops over keys and DS records, as one list of pairs.\<close>

fun any_ds_match :: "crypto \<Rightarrow> dns_name \<Rightarrow> (dnskey_record \<times> ds_record) list \<Rightarrow> bool dnssec_result" where
  "any_ds_match K owner [] = Inr False"
| "any_ds_match K owner ((dnskey, ds) # ps) =
     and_then (verify_ds_digest K owner dnskey ds) (\<lambda>ok.
       if ok then Inr True else any_ds_match K owner ps)"

definition dnskeys_of :: "resource_record list \<Rightarrow> dnskey_record list dnssec_result" where
  "dnskeys_of rrset = collect_results dnskey_from_record (filter (\<lambda>r. rr_type r = TypeDnskey) rrset)"

definition validate_delegation_link ::
  "crypto \<Rightarrow> dns_name \<Rightarrow> resource_record list \<Rightarrow> resource_record list \<Rightarrow> dnssec_status dnssec_result" where
  "validate_delegation_link K owner ds_rrset dnskey_rrset =
     and_then (collect_results ds_from_record (filter (\<lambda>r. rr_type r = TypeDs) ds_rrset)) (\<lambda>ds_records.
     if ds_records = [] then Inr InsecureDelegation else
     and_then (dnskeys_of dnskey_rrset) (\<lambda>dnskeys.
     and_then (any_ds_match K owner (List.product dnskeys ds_records)) (\<lambda>ok.
     Inr (if ok then Secure else Bogus))))"

subsection \<open>Signature algorithms\<close>

definition rsa_sha1_digest_info :: "crypto \<Rightarrow> bytes \<Rightarrow> bytes" where
  "rsa_sha1_digest_info K data = SHA1_DIGEST_INFO_PREFIX @ sha1_digest (digests K) data"

definition verify_rsa_sha1_pkcs1_v15 :: "crypto \<Rightarrow> bytes \<Rightarrow> bytes \<Rightarrow> bytes \<Rightarrow> bytes \<Rightarrow> bool" where
  "verify_rsa_sha1_pkcs1_v15 K exponent modulus data signature =
     (if exponent = [] \<or> modulus = [] \<or> length signature \<noteq> length modulus then False else
      let n = be_nat modulus; e = be_nat exponent; s = be_nat signature in
      if n = 0 \<or> e = 0 \<or> s \<ge> n then False else
      let recovered_bytes = big_to_bytes_be (s ^ e mod n) in
      if length recovered_bytes > length modulus then False else
      let encoded = replicate (length modulus - length recovered_bytes) 0 @ recovered_bytes;
          expected_suffix = rsa_sha1_digest_info K data
      in
      if length encoded < 3 + RSA_PKCS1_V1_5_MIN_PADDING_LEN + length expected_suffix
         \<or> encoded ! 0 \<noteq> 0 \<or> encoded ! 1 \<noteq> 1 then False else
      let separator = length encoded - length expected_suffix - 1 in
      separator \<ge> 2 + RSA_PKCS1_V1_5_MIN_PADDING_LEN
      \<and> list_all (\<lambda>b. b = 0xff) (slice encoded 2 separator)
      \<and> encoded ! separator = 0
      \<and> drop (separator + 1) encoded = expected_suffix)"

definition parse_rsa_public_key :: "bytes \<Rightarrow> (bytes \<times> bytes) dnssec_result" where
  "parse_rsa_public_key public_key =
     and_then
       (case public_key of
          [] \<Rightarrow> fails InvalidDnskey
        | b # _ \<Rightarrow>
            (if b = 0 then
               (if length public_key < 3 then fails InvalidDnskey
                else Inr (unat (u16_of_be [public_key ! 1, public_key ! 2]), 3))
             else Inr (unat b, 1)))
       (\<lambda>(exponent_len, cursor).
     if exponent_len = 0 then fails InvalidDnskey else
     and_then (ok_or (Err InvalidDnskey) (checked_add_usize cursor exponent_len)) (\<lambda>exponent_end.
     if exponent_end \<ge> length public_key then fails InvalidDnskey
     else Inr (slice public_key cursor exponent_end, drop exponent_end public_key)))"

definition verify_rsa ::
  "crypto \<Rightarrow> resource_record list \<Rightarrow> rrsig_record \<Rightarrow> dnskey_record \<Rightarrow> u64 \<Rightarrow> rsa_hash \<Rightarrow> bool dnssec_result" where
  "verify_rsa K rrset rrsig dnskey now hash =
     and_then (parse_rsa_public_key (dk_public_key dnskey)) (\<lambda>(exponent, modulus).
     and_then (signed_data rrset rrsig now) (\<lambda>data.
     case hash of
       RsaSha1 \<Rightarrow> Inr (verify_rsa_sha1_pkcs1_v15 K exponent modulus data (sig_signature rrsig))
     | RsaSha256 \<Rightarrow> Inr (rsa_verify K RsaSha256 modulus exponent data (sig_signature rrsig))
     | RsaSha512 \<Rightarrow> Inr (rsa_verify K RsaSha512 modulus exponent data (sig_signature rrsig))))"

definition verify_ecdsa_p256_sha256 ::
  "crypto \<Rightarrow> resource_record list \<Rightarrow> rrsig_record \<Rightarrow> dnskey_record \<Rightarrow> u64 \<Rightarrow> bool dnssec_result" where
  "verify_ecdsa_p256_sha256 K rrset rrsig dnskey now =
     (if length (dk_public_key dnskey) \<noteq> 64 then fails InvalidDnskey
      else if length (sig_signature rrsig) \<noteq> 64 then fails InvalidSignature else
      let sec1_public_key = 0x04 # dk_public_key dnskey in
      if \<not> p256_from_sec1_bytes K sec1_public_key then fails InvalidDnskey
      else if \<not> p256_signature_from_slice K (sig_signature rrsig) then fails InvalidSignature else
      and_then (signed_data rrset rrsig now) (\<lambda>data.
      Inr (p256_verify K sec1_public_key data (sig_signature rrsig))))"

definition verify_ecdsa_p384_sha384 ::
  "crypto \<Rightarrow> resource_record list \<Rightarrow> rrsig_record \<Rightarrow> dnskey_record \<Rightarrow> u64 \<Rightarrow> bool dnssec_result" where
  "verify_ecdsa_p384_sha384 K rrset rrsig dnskey now =
     (if length (dk_public_key dnskey) \<noteq> 96 then fails InvalidDnskey
      else if length (sig_signature rrsig) \<noteq> 96 then fails InvalidSignature else
      let sec1_public_key = 0x04 # dk_public_key dnskey in
      and_then (signed_data rrset rrsig now) (\<lambda>data.
      Inr (p384_verify K sec1_public_key data (sig_signature rrsig))))"

definition verify_ed25519 ::
  "crypto \<Rightarrow> resource_record list \<Rightarrow> rrsig_record \<Rightarrow> dnskey_record \<Rightarrow> u64 \<Rightarrow> bool dnssec_result" where
  "verify_ed25519 K rrset rrsig dnskey now =
     (if length (dk_public_key dnskey) \<noteq> 32 then fails InvalidDnskey
      else if length (sig_signature rrsig) \<noteq> 64 then fails InvalidSignature else
      and_then (signed_data rrset rrsig now) (\<lambda>data.
      Inr (ed25519_verify K (dk_public_key dnskey) data (sig_signature rrsig))))"

definition verify_rrsig ::
  "crypto \<Rightarrow> resource_record list \<Rightarrow> rrsig_record \<Rightarrow> dnskey_record \<Rightarrow> u64 \<Rightarrow> bool dnssec_result" where
  "verify_rrsig K rrset rrsig dnskey now =
     (if dk_flags dnskey AND DNSKEY_ZONE_FLAG = 0 then Inr False
      else if sig_algorithm rrsig \<noteq> dk_algorithm dnskey \<or> sig_key_tag rrsig \<noteq> dnskey_key_tag dnskey then Inr False
      else if sig_algorithm rrsig = DNSSEC_ALGORITHM_RSASHA1
           \<or> sig_algorithm rrsig = DNSSEC_ALGORITHM_RSASHA1_NSEC3_SHA1
        then verify_rsa K rrset rrsig dnskey now RsaSha1
      else if sig_algorithm rrsig = DNSSEC_ALGORITHM_RSASHA256 then verify_rsa K rrset rrsig dnskey now RsaSha256
      else if sig_algorithm rrsig = DNSSEC_ALGORITHM_RSASHA512 then verify_rsa K rrset rrsig dnskey now RsaSha512
      else if sig_algorithm rrsig = DNSSEC_ALGORITHM_ECDSAP256SHA256 then verify_ecdsa_p256_sha256 K rrset rrsig dnskey now
      else if sig_algorithm rrsig = DNSSEC_ALGORITHM_ECDSAP384SHA384 then verify_ecdsa_p384_sha384 K rrset rrsig dnskey now
      else if sig_algorithm rrsig = DNSSEC_ALGORITHM_ED25519 then verify_ed25519 K rrset rrsig dnskey now
      else fails UnsupportedAlgorithm)"

subsection \<open>Validators\<close>

text \<open>
  The loop over signatures and keys: the first success wins, the first error is kept for the end.
\<close>

fun try_signatures ::
  "crypto \<Rightarrow> resource_record list \<Rightarrow> u64 \<Rightarrow> dnssec_error option \<Rightarrow> (rrsig_record \<times> dnskey_record) list
     \<Rightarrow> dnssec_status dnssec_result" where
  "try_signatures K rrset now deferred [] =
     (case deferred of Some e \<Rightarrow> fails e | None \<Rightarrow> Inr Bogus)"
| "try_signatures K rrset now deferred ((rrsig, dnskey) # ps) =
     (case verify_rrsig K rrset rrsig dnskey now of
        Inr True \<Rightarrow> Inr Secure
      | Inr False \<Rightarrow> try_signatures K rrset now deferred ps
      | Inl (Err e) \<Rightarrow>
          try_signatures K rrset now (case deferred of None \<Rightarrow> Some e | Some d \<Rightarrow> Some d) ps
      | Inl Panic \<Rightarrow> Inl Panic)"

definition candidate_pairs ::
  "rrsig_record list \<Rightarrow> dnskey_record list \<Rightarrow> (rrsig_record \<times> dnskey_record) list" where
  "candidate_pairs rrsigs dnskeys =
     concat (map (\<lambda>rrsig. map (Pair rrsig)
       (filter (\<lambda>dnskey. dk_algorithm dnskey = sig_algorithm rrsig \<and> dnskey_key_tag dnskey = sig_key_tag rrsig)
         dnskeys)) rrsigs)"

definition validate_rrset_signature ::
  "crypto \<Rightarrow> dns_name \<Rightarrow> resource_record list \<Rightarrow> resource_record list \<Rightarrow> resource_record list \<Rightarrow> u64
     \<Rightarrow> dnssec_status dnssec_result" where
  "validate_rrset_signature K dnskey_owner dnskey_rrset rrset rrsig_rrset now =
     (case rrset of
        [] \<Rightarrow> fails InvalidRrset
      | first # _ \<Rightarrow>
          and_then (dnskeys_of dnskey_rrset) (\<lambda>dnskeys.
          and_then (collect_results rrsig_from_record
              (filter (\<lambda>r. rr_type r = TypeRrsig \<and> rr_name r = rr_name first \<and> rr_class r = rr_class first)
                rrsig_rrset)) (\<lambda>rrsigs.
          try_signatures K rrset now None
            (candidate_pairs
              (filter (\<lambda>s. sig_type_covered s = rr_type first \<and> sig_signer_name s = dnskey_owner) rrsigs)
              dnskeys))))"

definition validate_dnskey_rrset ::
  "crypto \<Rightarrow> dns_name \<Rightarrow> resource_record list \<Rightarrow> resource_record list \<Rightarrow> u64 \<Rightarrow> dnssec_status dnssec_result" where
  "validate_dnskey_rrset K dnskey_owner dnskey_rrset dnskey_rrsig_rrset now =
     validate_rrset_signature K dnskey_owner dnskey_rrset dnskey_rrset dnskey_rrsig_rrset now"

record signed_rrset_input =
  si_dnskey_owner :: dns_name
  si_ds_rrset :: "resource_record list"
  si_dnskey_rrset :: "resource_record list"
  si_dnskey_rrsig_rrset :: "resource_record list"
  si_rrset :: "resource_record list"
  si_rrsig_rrset :: "resource_record list"
  si_now :: u64

text \<open>Early return of a status that is not \<open>Secure\<close>.\<close>

definition when_secure :: "dnssec_status dnssec_result \<Rightarrow> dnssec_status dnssec_result \<Rightarrow> dnssec_status dnssec_result" where
  "when_secure m k = and_then m (\<lambda>status. if status \<noteq> Secure then Inr status else k)"

definition validate_signed_rrset :: "crypto \<Rightarrow> signed_rrset_input \<Rightarrow> dnssec_status dnssec_result" where
  "validate_signed_rrset K input =
     when_secure (validate_delegation_link K (si_dnskey_owner input) (si_ds_rrset input) (si_dnskey_rrset input))
     (when_secure (validate_dnskey_rrset K (si_dnskey_owner input) (si_dnskey_rrset input)
         (si_dnskey_rrsig_rrset input) (si_now input))
     (validate_rrset_signature K (si_dnskey_owner input) (si_dnskey_rrset input) (si_rrset input)
         (si_rrsig_rrset input) (si_now input)))"

record dnssec_chain_link =
  cl_child_dnskey_owner :: dns_name
  cl_ds_rrset :: "resource_record list"
  cl_ds_rrsig_rrset :: "resource_record list"
  cl_child_dnskey_rrset :: "resource_record list"
  cl_child_dnskey_rrsig_rrset :: "resource_record list"

record dnssec_chain_input =
  ci_initial_dnskey_owner :: dns_name
  ci_initial_ds_rrset :: "resource_record list"
  ci_initial_dnskey_rrset :: "resource_record list"
  ci_initial_dnskey_rrsig_rrset :: "resource_record list"
  ci_delegation_links :: "dnssec_chain_link list"
  ci_target_rrset :: "resource_record list"
  ci_target_rrsig_rrset :: "resource_record list"
  ci_now :: u64

fun chain_loop ::
  "crypto \<Rightarrow> dnssec_chain_input \<Rightarrow> dns_name \<Rightarrow> resource_record list \<Rightarrow> dnssec_chain_link list
     \<Rightarrow> dnssec_status dnssec_result" where
  "chain_loop K input current_owner current_keys [] =
     validate_rrset_signature K current_owner current_keys (ci_target_rrset input)
       (ci_target_rrsig_rrset input) (ci_now input)"
| "chain_loop K input current_owner current_keys (link # links) =
     when_secure (validate_delegation_link K (cl_child_dnskey_owner link) (cl_ds_rrset link) (cl_child_dnskey_rrset link))
     (when_secure (validate_rrset_signature K current_owner current_keys (cl_ds_rrset link)
         (cl_ds_rrsig_rrset link) (ci_now input))
     (when_secure (validate_dnskey_rrset K (cl_child_dnskey_owner link) (cl_child_dnskey_rrset link)
         (cl_child_dnskey_rrsig_rrset link) (ci_now input))
     (chain_loop K input (cl_child_dnskey_owner link) (cl_child_dnskey_rrset link) links)))"

definition validate_dnssec_chain :: "crypto \<Rightarrow> dnssec_chain_input \<Rightarrow> dnssec_status dnssec_result" where
  "validate_dnssec_chain K input =
     when_secure (validate_delegation_link K (ci_initial_dnskey_owner input) (ci_initial_ds_rrset input)
         (ci_initial_dnskey_rrset input))
     (when_secure (validate_dnskey_rrset K (ci_initial_dnskey_owner input) (ci_initial_dnskey_rrset input)
         (ci_initial_dnskey_rrsig_rrset input) (ci_now input))
     (chain_loop K input (ci_initial_dnskey_owner input) (ci_initial_dnskey_rrset input)
       (ci_delegation_links input)))"

record dnssec_input =
  di_rrsets :: "resource_record list"
  di_now_unix :: u64

definition fail_closed_dnssec_validate :: "dnssec_input \<Rightarrow> dnssec_status dnssec_result" where
  "fail_closed_dnssec_validate input = fails UnsupportedValidator"

subsection \<open>Reference definitions\<close>

text \<open>The padded message of RSASSA-PKCS1-v1.5 with SHA-1, for a modulus of \<open>k\<close> bytes.\<close>

definition emsa_pkcs1_sha1 :: "crypto \<Rightarrow> nat \<Rightarrow> bytes \<Rightarrow> bytes" where
  "emsa_pkcs1_sha1 K k data =
     [0, 1] @ replicate (k - length (rsa_sha1_digest_info K data) - 3) 0xff @ [0] @ rsa_sha1_digest_info K data"

text \<open>What it means that a signature verifies under a key, per algorithm.\<close>

definition raw_signature_ok :: "crypto \<Rightarrow> u8 \<Rightarrow> bytes \<Rightarrow> bytes \<Rightarrow> bytes \<Rightarrow> bool" where
  "raw_signature_ok K alg key data signature \<longleftrightarrow>
     (alg \<in> {5, 7} \<and> (\<exists>e n. parse_rsa_public_key key = Inr (e, n) \<and> verify_rsa_sha1_pkcs1_v15 K e n data signature)) \<or>
     (alg = 8 \<and> (\<exists>e n. parse_rsa_public_key key = Inr (e, n) \<and> rsa_verify K RsaSha256 n e data signature)) \<or>
     (alg = 10 \<and> (\<exists>e n. parse_rsa_public_key key = Inr (e, n) \<and> rsa_verify K RsaSha512 n e data signature)) \<or>
     (alg = 13 \<and> length key = 64 \<and> length signature = 64 \<and> p256_from_sec1_bytes K (4 # key) \<and>
        p256_signature_from_slice K signature \<and> p256_verify K (4 # key) data signature) \<or>
     (alg = 14 \<and> length key = 96 \<and> length signature = 96 \<and> p384_verify K (4 # key) data signature) \<or>
     (alg = 15 \<and> length key = 32 \<and> length signature = 64 \<and> ed25519_verify K key data signature)"

definition zone_key :: "dnskey_record \<Rightarrow> bool" where
  "zone_key k \<longleftrightarrow> dk_flags k AND DNSKEY_ZONE_FLAG \<noteq> 0"

text \<open>A signature record that vouches for a record set under a key, at a time.\<close>

definition signs :: "crypto \<Rightarrow> dnskey_record \<Rightarrow> rrsig_record \<Rightarrow> resource_record list \<Rightarrow> u64 \<Rightarrow> bool" where
  "signs K k s rrset now \<longleftrightarrow>
     zone_key k \<and> dk_algorithm k = sig_algorithm s \<and> dnskey_key_tag k = sig_key_tag s \<and> is_valid_at s now \<and>
     (\<exists>d. signed_data rrset s now = Inr d \<and> raw_signature_ok K (sig_algorithm s) (dk_public_key k) d (sig_signature s))"

definition signed_by ::
  "crypto \<Rightarrow> dns_name \<Rightarrow> resource_record list \<Rightarrow> resource_record list \<Rightarrow> resource_record list \<Rightarrow> u64 \<Rightarrow> bool" where
  "signed_by K owner keys rrset sigs now \<longleftrightarrow>
     rrset \<noteq> [] \<and> (\<exists>kr \<in> set keys. \<exists>sr \<in> set sigs. \<exists>k s.
       dnskey_from_record kr = Inr k \<and> rrsig_from_record sr = Inr s \<and>
       rr_name sr = rr_name (hd rrset) \<and> rr_class sr = rr_class (hd rrset) \<and>
       sig_type_covered s = rr_type (hd rrset) \<and> sig_signer_name s = owner \<and> signs K k s rrset now)"

definition anchored :: "crypto \<Rightarrow> dns_name \<Rightarrow> resource_record list \<Rightarrow> resource_record list \<Rightarrow> bool" where
  "anchored K owner ds_rrset keys \<longleftrightarrow>
     (\<exists>dr \<in> set ds_rrset. \<exists>kr \<in> set keys. \<exists>d k. ds_from_record dr = Inr d \<and> dnskey_from_record kr = Inr k \<and>
        zone_key k \<and> dk_algorithm k = ds_algorithm d \<and> dnskey_key_tag k = ds_key_tag d \<and>
        ds_digest K owner k (ds_digest_type d) = Inr (ds_digest_bytes d))"

section \<open>Lemmas\<close>

subsection \<open>RSA with SHA-1\<close>

lemma be_bytes_unique: "\<lbrakk>length bs = k; be_nat bs = n\<rbrakk> \<Longrightarrow> bs = be_bytes k n"
  using be_bytes_be_nat [of bs] by simp

lemma padded_bytes:
  assumes "n < 256 ^ k" "0 < k"
  shows "length (big_to_bytes_be n) \<le> k"
    "replicate (k - length (big_to_bytes_be n)) 0 @ big_to_bytes_be n = be_bytes k n"
proof -
  have zero: "replicate (k - 1) 0 @ [0] = be_bytes k 0"
    using assms(2) by (simp add: be_bytes_def replicate_append_same flip: replicate_Suc)
  show "length (big_to_bytes_be n) \<le> k"
    using assms byte_len_le length_big_to_bytes_be by (cases "n = 0") (auto simp: big_to_bytes_be_def)
  show "replicate (k - length (big_to_bytes_be n)) 0 @ big_to_bytes_be n = be_bytes k n"
    using zero be_bytes_pad [OF byte_len_upper byte_len_le [OF assms(1)]]
    by (cases "n = 0") (simp_all add: big_to_bytes_be_def byte_len_def)
qed

lemma padding_shape:
  assumes "length enc = k" "k \<ge> 11 + length suf" "sep = k - length suf - 1"
  shows "enc ! 0 = 0 \<and> enc ! 1 = 1 \<and> list_all (\<lambda>b. b = 0xff) (slice enc 2 sep) \<and> enc ! sep = 0 \<and>
      drop (sep + 1) enc = suf \<longleftrightarrow> enc = [0, 1] @ replicate (k - length suf - 3) (0xff :: u8) @ [0] @ suf"
proof -
  obtain a b r where enc: "enc = a # b # r" using assms by (cases enc; cases "tl enc") auto
  define m where "m = k - length suf - 3"
  have sep: "sep = m + 2" and r: "length r = m + 1 + length suf" using assms enc by (simp_all add: m_def)
  have split: "r = take m r @ r ! m # drop (Suc m) r" using r by (simp add: id_take_nth_drop)
  have "r = replicate m 0xff @ [0] @ suf \<longleftrightarrow>
      list_all (\<lambda>b. b = 0xff) (take m r) \<and> r ! m = 0 \<and> drop (Suc m) r = suf"
  proof
    assume "list_all (\<lambda>b. b = 0xff) (take m r) \<and> r ! m = 0 \<and> drop (Suc m) r = suf"
    moreover from this have "take m r = replicate m 0xff"
      using r by (intro replicate_eqI) (auto simp: list_all_iff)
    ultimately show "r = replicate m 0xff @ [0] @ suf" using split by simp
  qed (auto simp: list_all_iff nth_append)
  moreover have "k - length suf - 3 = m" by (simp add: m_def)
  ultimately show ?thesis unfolding enc sep by (auto simp: slice_def simp del: diff_diff_left)
qed

lemma rsa_sha1_exact:
  "verify_rsa_sha1_pkcs1_v15 K exponent modulus data signature \<longleftrightarrow>
     length signature = length modulus \<and> 0 < be_nat exponent \<and> be_nat signature < be_nat modulus \<and>
     11 + length (rsa_sha1_digest_info K data) \<le> length modulus \<and>
     be_nat signature ^ be_nat exponent mod be_nat modulus =
       be_nat (emsa_pkcs1_sha1 K (length modulus) data)"
proof (cases "length signature = length modulus \<and> 0 < be_nat exponent \<and> be_nat signature < be_nat modulus")
  case True
  define k suf where "k = length modulus" and "suf = rsa_sha1_digest_info K data"
  define r where "r = be_nat signature ^ be_nat exponent mod be_nat modulus"
  have ne: "exponent \<noteq> []" "modulus \<noteq> []" using True by (auto simp: be_nat_def)
  have "r < be_nat modulus" using True by (simp add: r_def)
  then have rk: "r < 256 ^ k" "0 < k" using be_nat_less [of modulus] ne by (simp_all add: k_def)
  note pad = padded_bytes [OF rk]
  have "verify_rsa_sha1_pkcs1_v15 K exponent modulus data signature \<longleftrightarrow>
      11 + length suf \<le> k \<and> be_bytes k r ! 0 = 0 \<and> be_bytes k r ! 1 = 1 \<and>
      list_all (\<lambda>b. b = 0xff) (slice (be_bytes k r) 2 (k - length suf - 1)) \<and>
      be_bytes k r ! (k - length suf - 1) = 0 \<and> drop (k - length suf - 1 + 1) (be_bytes k r) = suf"
    using True ne pad
    by (auto simp: verify_rsa_sha1_pkcs1_v15_def Let_def RSA_PKCS1_V1_5_MIN_PADDING_LEN_def
        simp flip: k_def r_def suf_def)
  also have "\<dots> \<longleftrightarrow> 11 + length suf \<le> k \<and> be_bytes k r = emsa_pkcs1_sha1 K k data"
    using padding_shape [of "be_bytes k r" k suf "k - length suf - 1"]
    by (auto simp: emsa_pkcs1_sha1_def simp flip: suf_def)
  also have "\<dots> \<longleftrightarrow> 11 + length suf \<le> k \<and> r = be_nat (emsa_pkcs1_sha1 K k data)"
  proof -
    have "11 + length suf \<le> k \<Longrightarrow> length (emsa_pkcs1_sha1 K k data) = k"
      by (simp add: emsa_pkcs1_sha1_def flip: suf_def)
    moreover have "be_nat (be_bytes k r) = r" using rk by (simp add: be_nat_be_bytes)
    ultimately show ?thesis using be_bytes_unique [of "emsa_pkcs1_sha1 K k data" k r] by auto
  qed
  finally show ?thesis using True by (simp add: k_def suf_def r_def)
qed (auto simp: verify_rsa_sha1_pkcs1_v15_def Let_def)

subsection \<open>Absence of panics\<close>

lemma collect_results_Inl: "collect_results f xs = Inl e \<Longrightarrow> \<exists>x \<in> set xs. f x = Inl e"
  by (induction xs) (auto split: sum.splits)

lemma from_record_no_panic [simp]:
  "dnskey_from_record r \<noteq> Inl Panic" "ds_from_record r \<noteq> Inl Panic" "rrsig_from_record r \<noteq> Inl Panic"
  "nsec_from_record r \<noteq> Inl Panic" "nsec3_from_record r \<noteq> Inl Panic"
  by (auto simp: dnskey_from_record_def dnskey_parse_rdata_def ds_from_record_def ds_parse_rdata_def
      rrsig_from_record_def rrsig_parse_rdata_def nsec_from_record_def nsec_parse_rdata_def
      nsec3_from_record_def nsec3_parse_rdata_def as_nsec3_error_def result_defs Let_def
      split: if_splits prod.splits fault.splits)

lemma encode_label_list_no_panic: "encode_label_list out ls \<noteq> Inl Panic"
  by (induction ls arbitrary: out) (auto simp: encode_label_def result_defs)

lemma canonical_owner_no_panic [simp]: "canonical_owner owner labels \<noteq> Inl Panic"
  using encode_label_list_no_panic
  by (auto simp: canonical_owner_def encode_label_def result_defs split: if_splits)

lemma canonical_rdata_no_panic [simp]: "canonical_rdata r \<noteq> Inl Panic"
proof -
  have name: "encode_canonical_name n \<noteq> Inl Panic" for n by (simp add: encode_canonical_name_def)
  show ?thesis
    using name
    by (auto simp: canonical_rdata_def canonical_single_name_rdata_def canonical_soa_rdata_def
        canonical_srv_rdata_def canonical_svcb_rdata_def canonical_nsec_rdata_def canonical_nsec3_rdata_def
        result_defs split: record_type.splits if_splits prod.splits)
qed

lemma canonical_one_no_panic: "canonical_one rrsig ty cls owner r \<noteq> Inl Panic"
  by (auto simp: canonical_one_def result_defs split: if_splits)

lemma canonical_rrset_no_panic: "canonical_rrset rs rrsig \<noteq> Inl Panic"
  using canonical_one_no_panic
  by (auto simp: canonical_rrset_def result_defs split: list.splits if_splits dest!: collect_results_Inl)

lemma signed_data_no_panic [simp]: "signed_data rs rrsig now \<noteq> Inl Panic"
  using canonical_rrset_no_panic
  by (auto simp: signed_data_def result_defs Let_def split: if_splits)

lemma parse_rsa_no_panic [simp]: "parse_rsa_public_key k \<noteq> Inl Panic"
  by (auto simp: parse_rsa_public_key_def result_defs split: list.splits if_splits prod.splits)

lemma verify_rrsig_no_panic [simp]: "verify_rrsig K rrset rrsig dnskey now \<noteq> Inl Panic"
proof -
  have "verify_rsa K rrset rrsig dnskey now h \<noteq> Inl Panic" for h
    by (cases h) (auto simp: verify_rsa_def result_defs split: prod.splits)
  then show ?thesis
    by (auto simp: verify_rrsig_def verify_ecdsa_p256_sha256_def verify_ecdsa_p384_sha384_def
        verify_ed25519_def result_defs Let_def split: if_splits)
qed

subsection \<open>Signatures\<close>

lemma verify_rsa_True:
  "verify_rsa K rrset s k now h = Inr True \<longleftrightarrow>
     (\<exists>e n d. parse_rsa_public_key (dk_public_key k) = Inr (e, n) \<and> signed_data rrset s now = Inr d \<and>
        (case h of RsaSha1 \<Rightarrow> verify_rsa_sha1_pkcs1_v15 K e n d (sig_signature s)
         | _ \<Rightarrow> rsa_verify K h n e d (sig_signature s)))"
  by (cases h) (auto simp: verify_rsa_def result_defs split: prod.splits)

lemma verify_ecdsa_True:
  "verify_ecdsa_p256_sha256 K rrset s k now = Inr True \<longleftrightarrow>
     length (dk_public_key k) = 64 \<and> length (sig_signature s) = 64 \<and> p256_from_sec1_bytes K (4 # dk_public_key k) \<and>
     p256_signature_from_slice K (sig_signature s) \<and>
     (\<exists>d. signed_data rrset s now = Inr d \<and> p256_verify K (4 # dk_public_key k) d (sig_signature s))"
  "verify_ecdsa_p384_sha384 K rrset s k now = Inr True \<longleftrightarrow>
     length (dk_public_key k) = 96 \<and> length (sig_signature s) = 96 \<and>
     (\<exists>d. signed_data rrset s now = Inr d \<and> p384_verify K (4 # dk_public_key k) d (sig_signature s))"
  "verify_ed25519 K rrset s k now = Inr True \<longleftrightarrow>
     length (dk_public_key k) = 32 \<and> length (sig_signature s) = 64 \<and>
     (\<exists>d. signed_data rrset s now = Inr d \<and> ed25519_verify K (dk_public_key k) d (sig_signature s))"
  by (auto simp: verify_ecdsa_p256_sha256_def verify_ecdsa_p384_sha384_def verify_ed25519_def and_then_Inr Let_def)

lemmas verify_algorithms_True = verify_rsa_True verify_ecdsa_True

lemma raw_ok_algorithms:
  "raw_signature_ok K 5 key data sg \<longleftrightarrow>
     (\<exists>e n. parse_rsa_public_key key = Inr (e, n) \<and> verify_rsa_sha1_pkcs1_v15 K e n data sg)"
  "raw_signature_ok K 7 key data sg \<longleftrightarrow>
     (\<exists>e n. parse_rsa_public_key key = Inr (e, n) \<and> verify_rsa_sha1_pkcs1_v15 K e n data sg)"
  "raw_signature_ok K 8 key data sg \<longleftrightarrow>
     (\<exists>e n. parse_rsa_public_key key = Inr (e, n) \<and> rsa_verify K RsaSha256 n e data sg)"
  "raw_signature_ok K 10 key data sg \<longleftrightarrow>
     (\<exists>e n. parse_rsa_public_key key = Inr (e, n) \<and> rsa_verify K RsaSha512 n e data sg)"
  "raw_signature_ok K 13 key data sg \<longleftrightarrow> length key = 64 \<and> length sg = 64 \<and>
     p256_from_sec1_bytes K (4 # key) \<and> p256_signature_from_slice K sg \<and> p256_verify K (4 # key) data sg"
  "raw_signature_ok K 14 key data sg \<longleftrightarrow> length key = 96 \<and> length sg = 96 \<and> p384_verify K (4 # key) data sg"
  "raw_signature_ok K 15 key data sg \<longleftrightarrow> length key = 32 \<and> length sg = 64 \<and> ed25519_verify K key data sg"
  "alg \<notin> {5, 7, 8, 10, 13, 14, 15} \<Longrightarrow> \<not> raw_signature_ok K alg key data sg"
  by (simp_all add: raw_signature_ok_def)

lemma signed_data_valid: "signed_data rrset s now = Inr d \<Longrightarrow> is_valid_at s now"
  by (auto simp: signed_data_def split: if_splits)

lemma signs_matches: "signs K k s rrset now \<Longrightarrow> dk_algorithm k = sig_algorithm s \<and> dnskey_key_tag k = sig_key_tag s"
  by (simp add: signs_def)

lemma verify_rrsig_True: "verify_rrsig K rrset s k now = Inr True \<longleftrightarrow> signs K k s rrset now"
proof (cases "zone_key k \<and> dk_algorithm k = sig_algorithm s \<and> dnskey_key_tag k = sig_key_tag s")
  case True
  then have m: "dk_flags k AND DNSKEY_ZONE_FLAG \<noteq> 0" "dk_algorithm k = sig_algorithm s" "dnskey_key_tag k = sig_key_tag s"
    by (simp_all add: zone_key_def)
  have "verify_rrsig K rrset s k now = Inr True \<longleftrightarrow> (\<exists>d. signed_data rrset s now = Inr d \<and>
      raw_signature_ok K (sig_algorithm s) (dk_public_key k) d (sig_signature s))"
  proof -
    consider "sig_algorithm s = 5 \<or> sig_algorithm s = 7" | "sig_algorithm s = 8" | "sig_algorithm s = 10"
      | "sig_algorithm s = 13" | "sig_algorithm s = 14" | "sig_algorithm s = 15"
      | "sig_algorithm s \<notin> {5, 7, 8, 10, 13, 14, 15}"
      by (metis insertE emptyE)
    then show ?thesis
      by cases (auto simp: verify_rrsig_def m dnssec_algorithms raw_ok_algorithms verify_algorithms_True)
  qed
  with True show ?thesis using signed_data_valid by (auto simp: signs_def)
next
  case False
  then consider "dk_flags k AND DNSKEY_ZONE_FLAG = 0" | "sig_algorithm s \<noteq> dk_algorithm k \<or> sig_key_tag s \<noteq> dnskey_key_tag k"
    by (auto simp: zone_key_def)
  then have "verify_rrsig K rrset s k now = Inr False"
    unfolding verify_rrsig_def by cases (simp_all only: if_True simp_thms split: if_split)
  with False show ?thesis by (auto simp: signs_def)
qed

lemma try_signatures_Secure:
  "try_signatures K rrset now deferred ps = Inr Secure \<longleftrightarrow> (\<exists>(s, k) \<in> set ps. signs K k s rrset now)"
proof (induction ps arbitrary: deferred)
  case (Cons p ps)
  obtain s k where p: "p = (s, k)" by (cases p)
  show ?case
  proof (cases "verify_rrsig K rrset s k now")
    case (Inl f)
    then have "\<not> signs K k s rrset now" using verify_rrsig_True [of K rrset s k now] by simp
    moreover obtain e where "f = Err e" using Inl by (cases f) simp_all
    ultimately show ?thesis using Cons Inl by (simp add: p)
  next
    case (Inr b)
    then have "signs K k s rrset now \<longleftrightarrow> b" using verify_rrsig_True [of K rrset s k now] by simp
    then show ?thesis using Cons Inr by (cases b) (simp_all add: p)
  qed
qed (simp split: option.splits)

lemma candidate_pairs_set:
  "(s, k) \<in> set (candidate_pairs sigs keys) \<longleftrightarrow>
     s \<in> set sigs \<and> k \<in> set keys \<and> dk_algorithm k = sig_algorithm s \<and> dnskey_key_tag k = sig_key_tag s"
  by (auto simp: candidate_pairs_def)

lemma collect_results_member:
  "collect_results f xs = Inr ys \<Longrightarrow> y \<in> set ys \<longleftrightarrow> (\<exists>x \<in> set xs. f x = Inr y)"
  by (induction xs arbitrary: ys) (auto split: sum.splits)

lemma collect_results_ok: "(\<exists>ys. collect_results f xs = Inr ys) \<longleftrightarrow> (\<forall>x \<in> set xs. \<exists>y. f x = Inr y)"
  by (induction xs) (auto split: sum.splits)

text \<open>The validator's verdict: all relevant records parse and one of the signatures verifies.\<close>

definition parses :: "('a \<Rightarrow> 'b dnssec_result) \<Rightarrow> 'a list \<Rightarrow> bool" where
  "parses f xs \<longleftrightarrow> (\<forall>x \<in> set xs. \<exists>y. f x = Inr y)"

lemma validate_rrset_signature_Secure:
  "validate_rrset_signature K owner keys rrset sigs now = Inr Secure \<longleftrightarrow>
     parses dnskey_from_record (filter (\<lambda>r. rr_type r = TypeDnskey) keys) \<and>
     parses rrsig_from_record (filter (\<lambda>r. rr_type r = TypeRrsig \<and> rr_name r = rr_name (hd rrset) \<and>
       rr_class r = rr_class (hd rrset)) sigs) \<and>
     signed_by K owner keys rrset sigs now"
proof (cases rrset)
  case (Cons first rs)
  define ks where "ks = filter (\<lambda>r. rr_type r = TypeDnskey) keys"
  define ss where "ss = filter (\<lambda>r. rr_type r = TypeRrsig \<and> rr_name r = rr_name first \<and> rr_class r = rr_class first) sigs"
  have kt: "\<exists>k. dnskey_from_record r = Inr k \<Longrightarrow> rr_type r = TypeDnskey"
    and st: "\<exists>s. rrsig_from_record r = Inr s \<Longrightarrow> rr_type r = TypeRrsig" for r
    by (auto simp: dnskey_from_record_def rrsig_from_record_def split: if_splits)
  show ?thesis
  proof (cases "parses dnskey_from_record ks \<and> parses rrsig_from_record ss")
    case True
    then obtain K' S' where c: "collect_results dnskey_from_record ks = Inr K'"
      "collect_results rrsig_from_record ss = Inr S'"
      unfolding parses_def by (metis collect_results_ok)
    have "validate_rrset_signature K owner keys rrset sigs now =
        try_signatures K rrset now None (candidate_pairs
          (filter (\<lambda>s. sig_type_covered s = rr_type first \<and> sig_signer_name s = owner) S') K')"
      using c by (simp add: validate_rrset_signature_def dnskeys_of_def Cons ks_def ss_def)
    also have "\<dots> = Inr Secure \<longleftrightarrow> (\<exists>k \<in> set K'. \<exists>s \<in> set S'. sig_type_covered s = rr_type first \<and>
        sig_signer_name s = owner \<and> signs K k s rrset now)"
      using signs_matches by (fastforce simp: try_signatures_Secure candidate_pairs_set)
    also have "\<dots> \<longleftrightarrow> signed_by K owner keys rrset sigs now"
    proof -
      have "k \<in> set K' \<longleftrightarrow> (\<exists>kr \<in> set keys. dnskey_from_record kr = Inr k)" for k
        using kt by (auto simp: collect_results_member [OF c(1)] ks_def)
      moreover have "s \<in> set S' \<longleftrightarrow> (\<exists>sr \<in> set sigs. rrsig_from_record sr = Inr s \<and>
          rr_name sr = rr_name first \<and> rr_class sr = rr_class first)" for s
        using st by (auto simp: collect_results_member [OF c(2)] ss_def)
      ultimately show ?thesis unfolding signed_by_def Cons list.sel by blast
    qed
    finally show ?thesis using True by (simp add: Cons ks_def ss_def)
  next
    case False
    then have "validate_rrset_signature K owner keys rrset sigs now \<noteq> Inr Secure"
      using collect_results_ok [of dnskey_from_record ks] collect_results_ok [of rrsig_from_record ss]
      by (auto simp: validate_rrset_signature_def dnskeys_of_def Cons parses_def result_defs
          simp flip: ks_def ss_def)
    with False show ?thesis by (auto simp: Cons ks_def ss_def)
  qed
qed (simp add: validate_rrset_signature_def signed_by_def)

subsection \<open>Delegations and chains\<close>

lemma when_secure_Secure: "when_secure m k = Inr Secure \<longleftrightarrow> m = Inr Secure \<and> k = Inr Secure"
  by (auto simp: when_secure_def and_then_Inr)

lemma verify_ds_digest_True:
  "verify_ds_digest K owner k d = Inr True \<longleftrightarrow>
     zone_key k \<and> dk_algorithm k = ds_algorithm d \<and> dnskey_key_tag k = ds_key_tag d \<and>
     ds_digest K owner k (ds_digest_type d) = Inr (ds_digest_bytes d)"
  by (auto simp: verify_ds_digest_def zone_key_def and_then_Inr)

lemma any_ds_match_True:
  "any_ds_match K owner ps = Inr True \<Longrightarrow> \<exists>(k, d) \<in> set ps. verify_ds_digest K owner k d = Inr True"
  by (induction ps) (auto simp: and_then_Inr split: if_splits)

lemma validate_delegation_Secure:
  assumes "validate_delegation_link K owner ds_rrset keys = Inr Secure"
  shows "anchored K owner ds_rrset keys"
proof -
  obtain ds ks where p: "collect_results ds_from_record (filter (\<lambda>r. rr_type r = TypeDs) ds_rrset) = Inr ds"
    "collect_results dnskey_from_record (filter (\<lambda>r. rr_type r = TypeDnskey) keys) = Inr ks"
    "any_ds_match K owner (List.product ks ds) = Inr True"
    using assms by (auto simp: validate_delegation_link_def dnskeys_of_def and_then_Inr split: if_splits)
  then obtain k d where "k \<in> set ks" "d \<in> set ds" "verify_ds_digest K owner k d = Inr True"
    using any_ds_match_True by fastforce
  then show ?thesis
    using collect_results_set [OF p(1)] collect_results_set [OF p(2)]
    unfolding anchored_def verify_ds_digest_True by fastforce
qed

text \<open>Zones reached from the trust anchor by verified delegations, with the keys used for them.\<close>

inductive trusted_zone :: "crypto \<Rightarrow> dnssec_chain_input \<Rightarrow> dnssec_chain_link list \<Rightarrow> dns_name \<Rightarrow> resource_record list \<Rightarrow> bool"
  for K input where
  anchor: "\<lbrakk>anchored K (ci_initial_dnskey_owner input) (ci_initial_ds_rrset input) (ci_initial_dnskey_rrset input);
     signed_by K (ci_initial_dnskey_owner input) (ci_initial_dnskey_rrset input) (ci_initial_dnskey_rrset input)
       (ci_initial_dnskey_rrsig_rrset input) (ci_now input)\<rbrakk>
   \<Longrightarrow> trusted_zone K input [] (ci_initial_dnskey_owner input) (ci_initial_dnskey_rrset input)"
| delegate: "\<lbrakk>trusted_zone K input links owner keys;
     anchored K (cl_child_dnskey_owner link) (cl_ds_rrset link) (cl_child_dnskey_rrset link);
     signed_by K owner keys (cl_ds_rrset link) (cl_ds_rrsig_rrset link) (ci_now input);
     signed_by K (cl_child_dnskey_owner link) (cl_child_dnskey_rrset link) (cl_child_dnskey_rrset link)
       (cl_child_dnskey_rrsig_rrset link) (ci_now input)\<rbrakk>
   \<Longrightarrow> trusted_zone K input (links @ [link]) (cl_child_dnskey_owner link) (cl_child_dnskey_rrset link)"

lemma validate_signed_rrset_Secure:
  "validate_signed_rrset K input = Inr Secure \<Longrightarrow>
     anchored K (si_dnskey_owner input) (si_ds_rrset input) (si_dnskey_rrset input) \<and>
     signed_by K (si_dnskey_owner input) (si_dnskey_rrset input) (si_dnskey_rrset input)
       (si_dnskey_rrsig_rrset input) (si_now input) \<and>
     signed_by K (si_dnskey_owner input) (si_dnskey_rrset input) (si_rrset input) (si_rrsig_rrset input) (si_now input)"
  by (auto simp: validate_signed_rrset_def when_secure_Secure validate_dnskey_rrset_def
      validate_rrset_signature_Secure validate_delegation_Secure)

lemma chain_loop_Secure:
  "\<lbrakk>trusted_zone K input done_links owner keys; chain_loop K input owner keys links = Inr Secure\<rbrakk> \<Longrightarrow>
     \<exists>owner' keys'. trusted_zone K input (done_links @ links) owner' keys' \<and>
       signed_by K owner' keys' (ci_target_rrset input) (ci_target_rrsig_rrset input) (ci_now input)"
proof (induction links arbitrary: done_links owner keys)
  case (Cons link links)
  have "trusted_zone K input (done_links @ [link]) (cl_child_dnskey_owner link) (cl_child_dnskey_rrset link)"
    using Cons.prems validate_delegation_Secure
    by (intro trusted_zone.delegate)
      (auto simp: when_secure_Secure validate_rrset_signature_Secure validate_dnskey_rrset_def)
  from Cons.IH [OF this] Cons.prems show ?case by (auto simp: when_secure_Secure)
qed (auto simp: validate_rrset_signature_Secure)

subsection \<open>Exhibiting signed data\<close>

lemma distinct_no_equal_neighbours: "distinct (map cr_rdata cs) \<Longrightarrow> \<not> has_equal_neighbours cs"
  by (induction cs rule: has_equal_neighbours.induct) auto

lemma signed_data_exists:
  assumes "canonical_rrset rs s = Inr cs" "distinct (map cr_rdata cs)" "is_valid_at s now"
  shows "\<exists>d. signed_data rs s now = Inr d"
proof -
  have "distinct (map cr_rdata (sort_key cr_rdata cs))"
    using assms(2) by (metis mset_eq_imp_distinct_iff mset_map mset_sort)
  then show ?thesis
    using assms distinct_no_equal_neighbours by (simp add: signed_data_def Let_def)
qed

section \<open>Properties\<close>

text \<open>
  C18.  The verdict on one record set is exact: it is \<open>Secure\<close> precisely when the key records and the
  signature records for that owner all parse and some signature record of the owner, of the right
  type and signer and inside its validity window, verifies over the canonical data under a zone
  key with its algorithm and key tag.  Other keys and signatures, failing ones included, do not
  change the verdict.
\<close>

theorem rrset_signature_exact:
  "validate_rrset_signature K owner keys rrset sigs now = Inr Secure \<longleftrightarrow>
     parses dnskey_from_record (filter (\<lambda>r. rr_type r = TypeDnskey) keys) \<and>
     parses rrsig_from_record (filter (\<lambda>r. rr_type r = TypeRrsig \<and> rr_name r = rr_name (hd rrset) \<and>
       rr_class r = rr_class (hd rrset)) sigs) \<and>
     signed_by K owner keys rrset sigs now"
  by (rule validate_rrset_signature_Secure)

text \<open>
  C19.  A chain verdict of \<open>Secure\<close> rests on the trust anchor: every zone of the chain is reached from
  the initial DS set by delegations whose DS set matches a key of the child and is signed by the
  parent's keys, every key set is signed by a key of its own, and the target is signed by the keys
  of the last zone.
\<close>

theorem dnssec_chain_secure:
  assumes "validate_dnssec_chain K input = Inr Secure"
  shows "\<exists>owner keys. trusted_zone K input (ci_delegation_links input) owner keys \<and>
    signed_by K owner keys (ci_target_rrset input) (ci_target_rrsig_rrset input) (ci_now input)"
proof -
  have "trusted_zone K input [] (ci_initial_dnskey_owner input) (ci_initial_dnskey_rrset input)"
    using assms validate_delegation_Secure
    by (intro trusted_zone.anchor)
      (auto simp: validate_dnssec_chain_def when_secure_Secure validate_dnskey_rrset_def validate_rrset_signature_Secure)
  moreover have "chain_loop K input (ci_initial_dnskey_owner input) (ci_initial_dnskey_rrset input)
      (ci_delegation_links input) = Inr Secure"
    using assms by (simp add: validate_dnssec_chain_def when_secure_Secure)
  ultimately show ?thesis using chain_loop_Secure by fastforce
qed

text \<open>
  C28.  The anchor does not reach the signatures: given a DS set that matches the genuine key \<open>kr\<close>, and
  any other zone key \<open>ar\<close> that signs the key set \<open>[kr, ar]\<close> and the target, the validator answers
  \<open>Secure\<close> although nothing is signed by the key the DS set vouches for.  (RFC 4035, section 5.2,
  asks for a signature over the key set by a key that matches the DS set.)
\<close>

theorem unanchored_key_accepted:
  assumes "validate_delegation_link K owner [dsr] [kr] = Inr Secure"
    and "dnskey_from_record ar = Inr a"
    and "signed_by K owner [ar] [kr, ar] [s1r] now" "signed_by K owner [ar] rrset [s2r] now"
  shows "validate_signed_rrset K \<lparr>si_dnskey_owner = owner, si_ds_rrset = [dsr], si_dnskey_rrset = [kr, ar],
    si_dnskey_rrsig_rrset = [s1r], si_rrset = rrset, si_rrsig_rrset = [s2r], si_now = now\<rparr> = Inr Secure"
proof -
  obtain k d where d: "rr_type dsr = TypeDs" "ds_from_record dsr = Inr d" "rr_type kr = TypeDnskey"
    "dnskey_from_record kr = Inr k" "verify_ds_digest K owner k d = Inr True"
    using assms(1)
    by (auto simp: validate_delegation_link_def dnskeys_of_def and_then_Inr split: if_splits sum.splits)
  have ar: "rr_type ar = TypeDnskey" using assms(2) by (auto simp: dnskey_from_record_def split: if_splits)
  have link: "validate_delegation_link K owner [dsr] [kr, ar] = Inr Secure"
    using d ar assms(2) by (simp add: validate_delegation_link_def dnskeys_of_def)
  have keys: "parses dnskey_from_record (filter (\<lambda>r. rr_type r = TypeDnskey) [kr, ar])"
    using d assms(2) by (auto simp: parses_def)
  have more: "validate_rrset_signature K owner [kr, ar] rs [sr] now = Inr Secure"
    if "signed_by K owner [ar] rs [sr] now" for rs sr
    using keys that unfolding validate_rrset_signature_Secure by (auto simp: signed_by_def parses_def)
  show ?thesis
    using link more [OF assms(3)] more [OF assms(4)]
    by (simp add: validate_signed_rrset_def validate_dnskey_rrset_def when_secure_Secure)
qed

subsection \<open>A sample zone\<close>

text \<open>
  The root zone with two Ed25519 keys, \<open>sample_key 5\<close>, for which there is a DS record, and
  \<open>sample_key 7\<close>, the only key under which anything verifies with \<open>sample_crypto\<close>.
\<close>

definition sample_crypto :: crypto where
  "sample_crypto = \<lparr>digests = \<lparr>blake2b_var = \<lambda>n _. replicate n 0, sha3_256_digest = \<lambda>_. replicate 32 0,
       sha1_digest = \<lambda>_. replicate 20 0, sha256_digest = \<lambda>_. replicate 32 1, sha384_digest = \<lambda>_. replicate 48 0,
       sha512_digest = \<lambda>_. replicate 64 0\<rparr>,
     rsa_verify = \<lambda>_ _ _ _ _. False, p256_from_sec1_bytes = \<lambda>_. False, p256_signature_from_slice = \<lambda>_. False,
     p256_verify = \<lambda>_ _ _. False, p384_verify = \<lambda>_ _ _. False,
     ed25519_verify = \<lambda>key _ _. key = replicate 32 7\<rparr>"

definition sample_dnskey :: "u8 \<Rightarrow> dnskey_record" where
  "sample_dnskey b = \<lparr>dk_flags = 257, dk_protocol = 3, dk_algorithm = 15, dk_public_key = replicate 32 b,
     dk_rdata = [1, 1, 3, 15] @ replicate 32 b\<rparr>"

definition sample_key :: "u8 \<Rightarrow> resource_record" where
  "sample_key b = \<lparr>rr_name = [], rr_type = TypeDnskey, rr_class = 1, rr_ttl = 60,
     rr_rdata = [1, 1, 3, 15] @ replicate 32 b\<rparr>"

definition sample_ds :: resource_record where
  "sample_ds = \<lparr>rr_name = [], rr_type = TypeDs, rr_class = 1, rr_ttl = 60,
     rr_rdata = u16_to_be (dnskey_key_tag (sample_dnskey 5)) @ [15, 2] @ replicate 32 1\<rparr>"

definition sample_sig_rdata :: "u16 \<Rightarrow> bytes" where
  "sample_sig_rdata ty = u16_to_be ty @ [15, 0] @ [0, 0, 0, 60] @ [0, 0, 0, 100] @ [0, 0, 0, 10] @
     u16_to_be (dnskey_key_tag (sample_dnskey 7))"

definition sample_sig :: "u16 \<Rightarrow> resource_record" where
  "sample_sig ty = \<lparr>rr_name = [], rr_type = TypeRrsig, rr_class = 1, rr_ttl = 60,
     rr_rdata = sample_sig_rdata ty @ [0] @ replicate 64 9\<rparr>"

definition sample_signature :: "u16 \<Rightarrow> rrsig_record" where
  "sample_signature ty = \<lparr>sig_type_covered = from_code ty, sig_algorithm = 15, sig_labels = 0, sig_original_ttl = 60,
     sig_expiration = 100, sig_inception = 10, sig_key_tag = dnskey_key_tag (sample_dnskey 7),
     sig_signer_name = [], sig_signature = replicate 64 9, sig_signed_rdata = sample_sig_rdata ty @ [0]\<rparr>"

lemma sample_key_parses: "dnskey_from_record (sample_key b) = Inr (sample_dnskey b)"
  by (simp add: dnskey_from_record_def sample_key_def dnskey_parse_rdata_def sample_dnskey_def DNSSEC_PROTOCOL_def
      u16_of_be_def be_nat_def)

lemma u16_two_bytes: obtains x y where "u16_to_be w = [x, y]"
proof -
  have "length (u16_to_be w) = Suc (Suc 0)" by simp
  then show ?thesis using that by (auto simp only: length_Suc_conv length_0_conv)
qed

lemma sample_ds_parses:
  "ds_from_record sample_ds = Inr \<lparr>ds_key_tag = dnskey_key_tag (sample_dnskey 5), ds_algorithm = 15,
     ds_digest_type = 2, ds_digest_bytes = replicate 32 1\<rparr>"
proof -
  obtain x y where xy: "u16_to_be (dnskey_key_tag (sample_dnskey 5)) = [x, y]"
    by (rule u16_two_bytes)
  then have "u16_of_be [x, y] = dnskey_key_tag (sample_dnskey 5)" by (metis word_bytes_round_trip(1))
  then show ?thesis by (simp add: ds_from_record_def sample_ds_def ds_parse_rdata_def xy)
qed

lemma sample_delegation: "validate_delegation_link sample_crypto [] [sample_ds] [sample_key 5] = Inr Secure"
proof -
  have "zone_key (sample_dnskey 5)" by (simp add: zone_key_def sample_dnskey_def DNSKEY_ZONE_FLAG_def)
  then have "verify_ds_digest sample_crypto [] (sample_dnskey 5) \<lparr>ds_key_tag = dnskey_key_tag (sample_dnskey 5),
      ds_algorithm = 15, ds_digest_type = 2, ds_digest_bytes = replicate 32 1\<rparr> = Inr True"
    by (simp add: verify_ds_digest_True ds_digest_def encode_wire_def sample_crypto_def Let_def
        DS_DIGEST_SHA1_def DS_DIGEST_SHA256_def sample_dnskey_def)
  moreover have "rr_type sample_ds = TypeDs" "rr_type (sample_key 5) = TypeDnskey"
    by (simp_all add: sample_ds_def sample_key_def)
  ultimately show ?thesis
    by (simp add: validate_delegation_link_def dnskeys_of_def sample_ds_parses sample_key_parses)
qed

lemma sample_sig_parses: "rrsig_from_record (sample_sig ty) = Inr (sample_signature ty)"
proof -
  obtain x y where xy: "u16_to_be ty = [x, y]"
    by (rule u16_two_bytes)
  obtain u v where uv: "u16_to_be (dnskey_key_tag (sample_dnskey 7)) = [u, v]"
    by (rule u16_two_bytes)
  have w: "u16_of_be [x, y] = ty" "u16_of_be [u, v] = dnskey_key_tag (sample_dnskey 7)"
    using xy uv by (metis word_bytes_round_trip(1))+
  have "parse_wire (sample_sig_rdata ty @ [0] @ replicate 64 9) 18 = Inr ([], 19)"
    by (simp add: parse_wire_def parse_wire_loop.simps get_byte_def sample_sig_rdata_def xy uv)
  then show ?thesis
    by (simp add: rrsig_from_record_def sample_sig_def rrsig_parse_rdata_def sample_signature_def encode_wire_def
        slice_def w sample_sig_rdata_def xy uv u32_of_be_def be_nat_def)
qed

lemma sample_signs:
  assumes "canonical_rrset rrset (sample_signature ty) = Inr cs" "distinct (map cr_rdata cs)"
    and "ed25519_verify K = ed25519_verify sample_crypto"
  shows "signs K (sample_dnskey 7) (sample_signature ty) rrset 50"
proof -
  have v: "is_valid_at (sample_signature ty) 50"
    by (simp add: is_valid_at_def sample_signature_def word_le_nat_alt)
  with signed_data_exists [OF assms(1,2) v] show ?thesis
    by (simp add: signs_def raw_ok_algorithms zone_key_def sample_dnskey_def sample_signature_def assms(3)
        DNSKEY_ZONE_FLAG_def sample_crypto_def)
qed

lemma sample_signed_by:
  assumes "canonical_rrset rrset (sample_signature ty) = Inr cs" "distinct (map cr_rdata cs)"
    and "ed25519_verify K = ed25519_verify sample_crypto"
    and "rr_name (hd rrset) = nm" "rr_class (hd rrset) = 1" "rr_type (hd rrset) = from_code ty"
  shows "signed_by K [] [sample_key 7] rrset [(sample_sig ty)\<lparr>rr_name := nm\<rparr>] 50"
proof -
  have "rr_class (sample_sig ty) = 1" "rrsig_from_record ((sample_sig ty)\<lparr>rr_name := nm\<rparr>) = Inr (sample_signature ty)"
    "sig_type_covered (sample_signature ty) = from_code ty" "sig_signer_name (sample_signature ty) = []"
    using sample_sig_parses [of ty] by (simp_all add: sample_sig_def sample_signature_def rrsig_from_record_def)
  moreover have "rrset \<noteq> []" using assms(1) by (simp add: canonical_rrset_iff)
  ultimately show ?thesis
    using sample_signs [OF assms(1-3)] assms(4-6)
    by (simp add: signed_by_def sample_key_parses)
qed

lemma sample_canonical:
  "\<exists>cs. canonical_rrset [sample_key 5, sample_key 7] (sample_signature 48) = Inr cs \<and> distinct (map cr_rdata cs)"
  "\<exists>cs. canonical_rrset [sample_address 1] (sample_signature 1) = Inr cs \<and> distinct (map cr_rdata cs)"
  by (simp_all add: canonical_rrset_def sample_key_def sample_signature_def from_code_def canonical_owner_def
      canonical_one_def canonical_rdata_def sample_address_def)

lemma sample_set_signed:
  "signed_by sample_crypto [] [sample_key 7] [sample_key 5, sample_key 7] [sample_sig 48] 50"
  "signed_by sample_crypto [] [sample_key 7] [sample_address 1] [sample_sig 1] 50"
proof -
  have "(sample_sig ty)\<lparr>rr_name := []\<rparr> = sample_sig ty" for ty by (simp add: sample_sig_def)
  with sample_canonical sample_signed_by [where nm = "[]" and K = sample_crypto]
  show "signed_by sample_crypto [] [sample_key 7] [sample_key 5, sample_key 7] [sample_sig 48] 50"
    "signed_by sample_crypto [] [sample_key 7] [sample_address 1] [sample_sig 1] 50"
    by (auto simp: sample_key_def sample_address_def from_code_def)
qed

lemma sample_key_signs_nothing: "\<not> signs sample_crypto (sample_dnskey 5) s rrset now"
  by (auto simp: signs_def raw_signature_ok_def sample_crypto_def sample_dnskey_def verify_rsa_sha1_pkcs1_v15_def)


theorem unanchored_key_accepted_witness:
  "validate_signed_rrset sample_crypto \<lparr>si_dnskey_owner = [], si_ds_rrset = [sample_ds],
     si_dnskey_rrset = [sample_key 5, sample_key 7], si_dnskey_rrsig_rrset = [sample_sig 48],
     si_rrset = [sample_address 1], si_rrsig_rrset = [sample_sig 1], si_now = 50\<rparr> = Inr Secure \<and>
   (\<forall>s rrset now. \<not> signs sample_crypto (sample_dnskey 5) s rrset now)"
  using unanchored_key_accepted [OF sample_delegation sample_key_parses sample_set_signed]
    sample_key_signs_nothing by blast

lemma sample_full_set_signed:
  "signed_by sample_crypto [] [sample_key 5, sample_key 7] [sample_key 5, sample_key 7] [sample_sig 48] 50"
  "signed_by sample_crypto [] [sample_key 5, sample_key 7] [sample_address 1] [sample_sig 1] 50"
  using sample_set_signed by (auto simp: signed_by_def)

lemma sample_validates:
  "validate_delegation_link sample_crypto [] [sample_ds] [sample_key 5, sample_key 7] = Inr Secure"
  "validate_rrset_signature sample_crypto [] [sample_key 5, sample_key 7] [sample_key 5, sample_key 7]
     [sample_sig 48] 50 = Inr Secure"
  "validate_rrset_signature sample_crypto [] [sample_key 5, sample_key 7] [sample_address 1]
     [sample_sig 1] 50 = Inr Secure"
proof -
  have t: "rr_type sample_ds = TypeDs" "rr_type (sample_key b) = TypeDnskey" for b
    by (simp_all add: sample_ds_def sample_key_def)
  show "validate_delegation_link sample_crypto [] [sample_ds] [sample_key 5, sample_key 7] = Inr Secure"
    using sample_delegation
    by (auto simp: validate_delegation_link_def dnskeys_of_def t sample_ds_parses sample_key_parses and_then_Inr
        split: if_splits)
  have p: "parses dnskey_from_record (filter (\<lambda>r. rr_type r = TypeDnskey) [sample_key 5, sample_key 7])"
    "parses rrsig_from_record (filter P [sample_sig ty])" for P ty
    by (auto simp: parses_def sample_key_parses sample_sig_parses)
  then show "validate_rrset_signature sample_crypto [] [sample_key 5, sample_key 7] [sample_key 5, sample_key 7]
     [sample_sig 48] 50 = Inr Secure"
    "validate_rrset_signature sample_crypto [] [sample_key 5, sample_key 7] [sample_address 1]
     [sample_sig 1] 50 = Inr Secure"
    unfolding validate_rrset_signature_Secure using sample_full_set_signed by blast+
qed

theorem dnssec_chain_secure_witness:
  "let input = \<lparr>ci_initial_dnskey_owner = [], ci_initial_ds_rrset = [sample_ds],
     ci_initial_dnskey_rrset = [sample_key 5, sample_key 7], ci_initial_dnskey_rrsig_rrset = [sample_sig 48],
     ci_delegation_links = [], ci_target_rrset = [sample_address 1], ci_target_rrsig_rrset = [sample_sig 1], ci_now = 50\<rparr>
   in \<exists>owner keys. trusted_zone sample_crypto input (ci_delegation_links input) owner keys \<and>
     signed_by sample_crypto owner keys (ci_target_rrset input) (ci_target_rrsig_rrset input) (ci_now input)"
  unfolding Let_def
  by (intro dnssec_chain_secure)
    (simp add: validate_dnssec_chain_def when_secure_Secure validate_dnskey_rrset_def sample_validates)

text \<open>
  Legacy RSA signatures are checked strictly: a signature with SHA-1 verifies exactly when it has the
  length of the modulus, represents a number below it, and its power by the public exponent is the
  one padded message of PKCS 1 v1.5, with at least eight bytes of padding that fill the modulus;
  there is no room for trailing or shortened padding.
\<close>

theorem rsa_sha1_verifies_exactly:
  "verify_rsa_sha1_pkcs1_v15 K exponent modulus data signature \<longleftrightarrow>
     length signature = length modulus \<and> 0 < be_nat exponent \<and> be_nat signature < be_nat modulus \<and>
     11 + length (rsa_sha1_digest_info K data) \<le> length modulus \<and>
     be_nat signature ^ be_nat exponent mod be_nat modulus =
       be_nat (emsa_pkcs1_sha1 K (length modulus) data)"
  by (rule rsa_sha1_exact)

end
