(* ===== verification/Denial.thy ===== *)
theory Denial
  imports Dnssec
begin

text \<open>
  Denial of existence in \<open>hns-dnssec/src/lib.rs\<close>: NSEC and NSEC3 proofs that a name or a type does not
  exist, over the signature checks of theory \<open>Dnssec\<close>.  \<open>SHA-1\<close> is the parameter of the record
  \<open>crypto\<close>.
\<close>

section \<open>Definitions\<close>

definition NSEC3_MAX_ITERATIONS :: u16 where "NSEC3_MAX_ITERATIONS = 2500"

subsection \<open>Names\<close>

datatype cmp_ordering = Less | Equal | Greater

definition bytes_cmp :: "bytes \<Rightarrow> bytes \<Rightarrow> cmp_ordering" where
  "bytes_cmp a b = (if a < b then Less else if a = b then Equal else Greater)"

fun labels_cmp :: "dns_name \<Rightarrow> dns_name \<Rightarrow> cmp_ordering" where
  "labels_cmp (l # ls) (r # rs) =
     (case bytes_cmp l r of Equal \<Rightarrow> labels_cmp ls rs | c \<Rightarrow> c)"
| "labels_cmp [] (r # rs) = Less"
| "labels_cmp (l # ls) [] = Greater"
| "labels_cmp [] [] = Equal"

definition canonical_name_cmp :: "dns_name \<Rightarrow> dns_name \<Rightarrow> cmp_ordering" where
  "canonical_name_cmp left right = labels_cmp (rev left) (rev right)"

definition nsec_covers_name :: "dns_name \<Rightarrow> dns_name \<Rightarrow> dns_name \<Rightarrow> bool" where
  "nsec_covers_name owner next_name query_name =
     (if query_name = owner then False else
      case canonical_name_cmp owner next_name of
        Less \<Rightarrow> canonical_name_cmp owner query_name = Less \<and> canonical_name_cmp query_name next_name = Less
      | Greater \<Rightarrow> canonical_name_cmp owner query_name = Less \<or> canonical_name_cmp query_name next_name = Less
      | Equal \<Rightarrow> True)"

definition ends_with :: "dns_name \<Rightarrow> dns_name \<Rightarrow> bool" where
  "ends_with name suffix \<longleftrightarrow> length suffix \<le> length name \<and> drop (length name - length suffix) name = suffix"

definition is_strict_subdomain :: "dns_name \<Rightarrow> dns_name \<Rightarrow> bool" where
  "is_strict_subdomain name parent \<longleftrightarrow> length name > length parent \<and> ends_with name parent"

definition wildcard_child :: "dns_name \<Rightarrow> dns_name dnssec_result" where
  "wildcard_child closest_encloser =
     map_err (\<lambda>_. Err NameEncoding)
       (from_ascii (if closest_encloser = [] then ascii ''*''
                    else ascii ''*.'' @ dns_name_display closest_encloser))"

definition next_closer_name :: "dns_name \<Rightarrow> dns_name \<Rightarrow> dns_name dnssec_result" where
  "next_closer_name query_name closest_encloser =
     (if \<not> is_strict_subdomain query_name closest_encloser then fails NameEncoding
      else if length closest_encloser + 1 > length query_name then fails NameEncoding
      else map_err (\<lambda>_. Err NameEncoding)
        (from_ascii (str_join [46] (drop (length query_name - (length closest_encloser + 1)) query_name))))"

subsection \<open>NSEC\<close>

record nsec_no_data_input =
  nd_signer_name :: dns_name
  nd_dnskey_rrset :: "resource_record list"
  nd_query_name :: dns_name
  nd_query_type :: record_type
  nd_nsec_rrset :: "resource_record list"
  nd_nsec_rrsig_rrset :: "resource_record list"
  nd_now :: u64

fun nsec_no_data_loop :: "record_type \<Rightarrow> resource_record list \<Rightarrow> dnssec_status dnssec_result" where
  "nsec_no_data_loop query_type [] = Inr Bogus"
| "nsec_no_data_loop query_type (r # rs) =
     and_then (nsec_from_record r) (\<lambda>nsec.
     and_then (nsec_has_type nsec query_type) (\<lambda>has.
     if has then nsec_no_data_loop query_type rs else
     and_then (nsec_has_type nsec TypeCname) (\<lambda>cname.
     if cname then nsec_no_data_loop query_type rs else Inr Secure)))"

definition validate_nsec_no_data :: "crypto \<Rightarrow> nsec_no_data_input \<Rightarrow> dnssec_status dnssec_result" where
  "validate_nsec_no_data K input =
     when_secure (validate_rrset_signature K (nd_signer_name input) (nd_dnskey_rrset input)
         (nd_nsec_rrset input) (nd_nsec_rrsig_rrset input) (nd_now input))
     (nsec_no_data_loop (nd_query_type input)
       (filter (\<lambda>r. rr_type r = TypeNsec \<and> rr_name r = nd_query_name input) (nd_nsec_rrset input)))"

record nsec_name_range_input =
  nr_signer_name :: dns_name
  nr_dnskey_rrset :: "resource_record list"
  nr_query_name :: dns_name
  nr_nsec_rrset :: "resource_record list"
  nr_nsec_rrsig_rrset :: "resource_record list"
  nr_now :: u64

fun nsec_range_loop :: "dns_name \<Rightarrow> resource_record list \<Rightarrow> dnssec_status dnssec_result" where
  "nsec_range_loop query_name [] = Inr Bogus"
| "nsec_range_loop query_name (r # rs) =
     and_then (nsec_from_record r) (\<lambda>nsec.
     if nsec_covers_name (rr_name r) (nsec_next_domain_name nsec) query_name then Inr Secure
     else nsec_range_loop query_name rs)"

definition validate_nsec_name_range :: "crypto \<Rightarrow> nsec_name_range_input \<Rightarrow> dnssec_status dnssec_result" where
  "validate_nsec_name_range K input =
     when_secure (validate_rrset_signature K (nr_signer_name input) (nr_dnskey_rrset input)
         (nr_nsec_rrset input) (nr_nsec_rrsig_rrset input) (nr_now input))
     (nsec_range_loop (nr_query_name input) (filter (\<lambda>r. rr_type r = TypeNsec) (nr_nsec_rrset input)))"

record nsec_name_error_input =
  ne_signer_name :: dns_name
  ne_dnskey_rrset :: "resource_record list"
  ne_query_name :: dns_name
  ne_closest_encloser :: dns_name
  ne_covering_nsec_rrset :: "resource_record list"
  ne_covering_nsec_rrsig_rrset :: "resource_record list"
  ne_wildcard_nsec_rrset :: "resource_record list"
  ne_wildcard_nsec_rrsig_rrset :: "resource_record list"
  ne_now :: u64

definition validate_nsec_name_error :: "crypto \<Rightarrow> nsec_name_error_input \<Rightarrow> dnssec_status dnssec_result" where
  "validate_nsec_name_error K input =
     (if \<not> is_strict_subdomain (ne_query_name input) (ne_closest_encloser input) then Inr Bogus
      else if ne_covering_nsec_rrset input = [] \<or> ne_wildcard_nsec_rrset input = [] then Inr Bogus
      else when_secure (validate_nsec_name_range K \<lparr>nr_signer_name = ne_signer_name input,
          nr_dnskey_rrset = ne_dnskey_rrset input, nr_query_name = ne_query_name input,
          nr_nsec_rrset = ne_covering_nsec_rrset input, nr_nsec_rrsig_rrset = ne_covering_nsec_rrsig_rrset input,
          nr_now = ne_now input\<rparr>)
        (and_then (wildcard_child (ne_closest_encloser input)) (\<lambda>wildcard_name.
         when_secure (validate_nsec_name_range K \<lparr>nr_signer_name = ne_signer_name input,
            nr_dnskey_rrset = ne_dnskey_rrset input, nr_query_name = wildcard_name,
            nr_nsec_rrset = ne_wildcard_nsec_rrset input, nr_nsec_rrsig_rrset = ne_wildcard_nsec_rrsig_rrset input,
            nr_now = ne_now input\<rparr>)
           (Inr Secure))))"

subsection \<open>NSEC3 hashes\<close>

fun nsec3_iterate :: "crypto \<Rightarrow> bytes \<Rightarrow> nat \<Rightarrow> bytes \<Rightarrow> bytes" where
  "nsec3_iterate K salt 0 h = h"
| "nsec3_iterate K salt (Suc n) h = nsec3_iterate K salt n (sha1_digest (digests K) (h @ salt))"

definition nsec3_hash :: "crypto \<Rightarrow> dns_name \<Rightarrow> u8 \<Rightarrow> u16 \<Rightarrow> bytes \<Rightarrow> bytes dnssec_result" where
  "nsec3_hash K name hash_algorithm iterations salt =
     (if hash_algorithm \<noteq> NSEC3_HASH_SHA1 then fails UnsupportedDigest
      else if iterations > NSEC3_MAX_ITERATIONS then fails InvalidNsec3
      else and_then (map_err (\<lambda>_. Err NameEncoding) (encode_wire name [])) (\<lambda>canonical_name.
        Inr (nsec3_iterate K salt (unat iterations) (sha1_digest (digests K) (canonical_name @ salt)))))"

definition nsec3_covers_hash :: "bytes \<Rightarrow> bytes \<Rightarrow> bytes \<Rightarrow> bool" where
  "nsec3_covers_hash owner_hash next_hash query_hash =
     (if query_hash = owner_hash \<or> length owner_hash \<noteq> length next_hash \<or> length owner_hash \<noteq> length query_hash
      then False else
      case bytes_cmp owner_hash next_hash of
        Less \<Rightarrow> owner_hash < query_hash \<and> query_hash < next_hash
      | Greater \<Rightarrow> owner_hash < query_hash \<or> query_hash < next_hash
      | Equal \<Rightarrow> True)"

definition nsec3_owner_hash :: "dns_name \<Rightarrow> dns_name \<Rightarrow> bytes dnssec_result" where
  "nsec3_owner_hash owner zone_name =
     (case owner of
        [] \<Rightarrow> fails InvalidNsec3
      | first # labels \<Rightarrow>
          (if labels \<noteq> zone_name then fails InvalidNsec3
           else map_err (\<lambda>_. Err InvalidNsec3) (decode_base32hex_nopad first)))"

definition same_nsec3_params :: "nsec3_record \<Rightarrow> nsec3_record \<Rightarrow> bool" where
  "same_nsec3_params left right \<longleftrightarrow>
     n3_hash_algorithm left = n3_hash_algorithm right \<and> n3_iterations left = n3_iterations right \<and>
     n3_salt left = n3_salt right"

definition closest_nsec3_is_authoritative :: "nsec3_record \<Rightarrow> bool dnssec_result" where
  "closest_nsec3_is_authoritative nsec3 =
     and_then (nsec3_has_type nsec3 (TypeUnknown 39)) (\<lambda>dname.
     if dname then Inr False else
     and_then (nsec3_has_type nsec3 TypeNs) (\<lambda>ns.
     if ns then and_then (nsec3_has_type nsec3 TypeSoa) (\<lambda>soa. Inr soa) else Inr True))"

definition nsec3_matches_name :: "crypto \<Rightarrow> nsec3_record \<Rightarrow> bytes \<Rightarrow> dns_name \<Rightarrow> bool dnssec_result" where
  "nsec3_matches_name K nsec3 owner_hash name =
     (if \<not> is_usable nsec3 then Inr False
      else and_then (nsec3_hash K name (n3_hash_algorithm nsec3) (n3_iterations nsec3) (n3_salt nsec3)) (\<lambda>h.
        Inr (owner_hash = h)))"

definition nsec3_covers_name :: "crypto \<Rightarrow> nsec3_record \<Rightarrow> bytes \<Rightarrow> dns_name \<Rightarrow> bool dnssec_result" where
  "nsec3_covers_name K nsec3 owner_hash name =
     (if \<not> is_usable nsec3 then Inr False
      else and_then (nsec3_hash K name (n3_hash_algorithm nsec3) (n3_iterations nsec3) (n3_salt nsec3)) (\<lambda>h.
        Inr (nsec3_covers_hash owner_hash (n3_next_hashed_owner_name nsec3) h)))"

subsection \<open>NSEC3 proofs\<close>

record nsec3_proof_record =
  pf_nsec3 :: nsec3_record
  pf_owner_hash :: bytes

record nsec3_closest_encloser_proof =
  cp_closest :: nsec3_proof_record
  cp_next_closer :: nsec3_proof_record

datatype nsec3_proof_validation = Valid nsec3_closest_encloser_proof | Status dnssec_status

definition validate_nsec3_rrset_signature ::
  "crypto \<Rightarrow> dns_name \<Rightarrow> resource_record list \<Rightarrow> resource_record list \<Rightarrow> resource_record list \<Rightarrow> u64
     \<Rightarrow> dnssec_status dnssec_result" where
  "validate_nsec3_rrset_signature K signer_name dnskey_rrset nsec3_rrset nsec3_rrsig_rrset now =
     (if nsec3_rrset = [] then Inr Bogus
      else validate_rrset_signature K signer_name dnskey_rrset nsec3_rrset nsec3_rrsig_rrset now)"

fun parse_nsec3_loop :: "dns_name \<Rightarrow> resource_record list \<Rightarrow> nsec3_proof_record list dnssec_result" where
  "parse_nsec3_loop zone_name [] = Inr []"
| "parse_nsec3_loop zone_name (r # rs) =
     and_then (nsec3_from_record r) (\<lambda>nsec3.
     if \<not> is_usable nsec3 then parse_nsec3_loop zone_name rs else
     and_then (nsec3_owner_hash (rr_name r) zone_name) (\<lambda>owner_hash.
     if length owner_hash \<noteq> length (n3_next_hashed_owner_name nsec3) then parse_nsec3_loop zone_name rs else
     and_then (parse_nsec3_loop zone_name rs) (\<lambda>proofs.
     Inr (\<lparr>pf_nsec3 = nsec3, pf_owner_hash = owner_hash\<rparr> # proofs))))"

definition parse_nsec3_proofs :: "resource_record list \<Rightarrow> dns_name \<Rightarrow> nsec3_proof_record list dnssec_result" where
  "parse_nsec3_proofs nsec3_rrset zone_name =
     parse_nsec3_loop zone_name (filter (\<lambda>r. rr_type r = TypeNsec3) nsec3_rrset)"

definition wrong_params :: "nsec3_record option \<Rightarrow> nsec3_record \<Rightarrow> bool" where
  "wrong_params expected nsec3 =
     (case expected of None \<Rightarrow> False | Some e \<Rightarrow> \<not> same_nsec3_params e nsec3)"

fun find_nsec3_matching_proof ::
  "crypto \<Rightarrow> nsec3_proof_record list \<Rightarrow> dns_name \<Rightarrow> nsec3_record option \<Rightarrow> nsec3_proof_record option dnssec_result" where
  "find_nsec3_matching_proof K [] name expected = Inr None"
| "find_nsec3_matching_proof K (proof # ps) name expected =
     (if wrong_params expected (pf_nsec3 proof) then find_nsec3_matching_proof K ps name expected else
      and_then (nsec3_matches_name K (pf_nsec3 proof) (pf_owner_hash proof) name) (\<lambda>ok.
      if ok then Inr (Some proof) else find_nsec3_matching_proof K ps name expected))"

fun find_nsec3_covering_proof ::
  "crypto \<Rightarrow> nsec3_proof_record list \<Rightarrow> dns_name \<Rightarrow> nsec3_record option \<Rightarrow> nsec3_proof_record option dnssec_result" where
  "find_nsec3_covering_proof K [] name expected = Inr None"
| "find_nsec3_covering_proof K (proof # ps) name expected =
     (if wrong_params expected (pf_nsec3 proof) then find_nsec3_covering_proof K ps name expected else
      and_then (nsec3_covers_name K (pf_nsec3 proof) (pf_owner_hash proof) name) (\<lambda>ok.
      if ok then Inr (Some proof) else find_nsec3_covering_proof K ps name expected))"

record nsec3_closest_encloser_input =
  ce_signer_name :: dns_name
  ce_dnskey_rrset :: "resource_record list"
  ce_query_name :: dns_name
  ce_closest_encloser :: dns_name
  ce_closest_encloser_nsec3_rrset :: "resource_record list"
  ce_closest_encloser_nsec3_rrsig_rrset :: "resource_record list"
  ce_next_closer_nsec3_rrset :: "resource_record list"
  ce_next_closer_nsec3_rrsig_rrset :: "resource_record list"
  ce_now :: u64

text \<open>Returning early with a status that is not \<open>Secure\<close>, inside the closest-encloser proof.\<close>

definition proof_when_secure ::
  "dnssec_status dnssec_result \<Rightarrow> nsec3_proof_validation dnssec_result \<Rightarrow> nsec3_proof_validation dnssec_result" where
  "proof_when_secure m k = and_then m (\<lambda>status. if status \<noteq> Secure then Inr (Status status) else k)"

definition validate_nsec3_closest_encloser_proof ::
  "crypto \<Rightarrow> nsec3_closest_encloser_input \<Rightarrow> nsec3_proof_validation dnssec_result" where
  "validate_nsec3_closest_encloser_proof K input =
     (if \<not> is_strict_subdomain (ce_query_name input) (ce_closest_encloser input) then Inr (Status Bogus) else
      proof_when_secure (validate_nsec3_rrset_signature K (ce_signer_name input) (ce_dnskey_rrset input)
          (ce_closest_encloser_nsec3_rrset input) (ce_closest_encloser_nsec3_rrsig_rrset input) (ce_now input))
      (and_then (parse_nsec3_proofs (ce_closest_encloser_nsec3_rrset input) (ce_signer_name input)) (\<lambda>closest_proofs.
       and_then (find_nsec3_matching_proof K closest_proofs (ce_closest_encloser input) None) (\<lambda>found.
       case found of
         None \<Rightarrow> Inr (Status Bogus)
       | Some closest \<Rightarrow>
           and_then (closest_nsec3_is_authoritative (pf_nsec3 closest)) (\<lambda>auth.
           if \<not> auth then Inr (Status Bogus) else
           and_then (next_closer_name (ce_query_name input) (ce_closest_encloser input)) (\<lambda>candidate.
           proof_when_secure (validate_nsec3_rrset_signature K (ce_signer_name input) (ce_dnskey_rrset input)
               (ce_next_closer_nsec3_rrset input) (ce_next_closer_nsec3_rrsig_rrset input) (ce_now input))
           (and_then (parse_nsec3_proofs (ce_next_closer_nsec3_rrset input) (ce_signer_name input)) (\<lambda>next_proofs.
            and_then (find_nsec3_covering_proof K next_proofs candidate (Some (pf_nsec3 closest))) (\<lambda>found.
            case found of
              None \<Rightarrow> Inr (Status Bogus)
            | Some next_closer \<Rightarrow>
                Inr (Valid \<lparr>cp_closest = closest, cp_next_closer = next_closer\<rparr>)))))))))) "

subsection \<open>NSEC3 validators\<close>

record nsec3_no_data_input =
  n3nd_signer_name :: dns_name
  n3nd_dnskey_rrset :: "resource_record list"
  n3nd_query_name :: dns_name
  n3nd_query_type :: record_type
  n3nd_nsec3_rrset :: "resource_record list"
  n3nd_nsec3_rrsig_rrset :: "resource_record list"
  n3nd_now :: u64

text \<open>\<open>!has_type(t)? && !has_type(Cname)?\<close>: the second lookup only after the first.\<close>

definition lists_neither :: "nsec3_record \<Rightarrow> record_type \<Rightarrow> bool dnssec_result" where
  "lists_neither nsec3 ty =
     and_then (nsec3_has_type nsec3 ty) (\<lambda>has.
     if has then Inr False else and_then (nsec3_has_type nsec3 TypeCname) (\<lambda>cname. Inr (\<not> cname)))"

fun nsec3_no_data_loop ::
  "crypto \<Rightarrow> dns_name \<Rightarrow> record_type \<Rightarrow> nsec3_proof_record list \<Rightarrow> dnssec_status dnssec_result" where
  "nsec3_no_data_loop K query_name query_type [] = Inr Bogus"
| "nsec3_no_data_loop K query_name query_type (proof # ps) =
     and_then (nsec3_matches_name K (pf_nsec3 proof) (pf_owner_hash proof) query_name) (\<lambda>ok.
     if \<not> ok then nsec3_no_data_loop K query_name query_type ps else
     and_then (lists_neither (pf_nsec3 proof) query_type) (\<lambda>none.
     if none then Inr Secure else nsec3_no_data_loop K query_name query_type ps))"

definition validate_nsec3_no_data :: "crypto \<Rightarrow> nsec3_no_data_input \<Rightarrow> dnssec_status dnssec_result" where
  "validate_nsec3_no_data K input =
     when_secure (validate_nsec3_rrset_signature K (n3nd_signer_name input) (n3nd_dnskey_rrset input)
         (n3nd_nsec3_rrset input) (n3nd_nsec3_rrsig_rrset input) (n3nd_now input))
     (and_then (parse_nsec3_proofs (n3nd_nsec3_rrset input) (n3nd_signer_name input)) (\<lambda>proofs.
      nsec3_no_data_loop K (n3nd_query_name input) (n3nd_query_type input) proofs))"

text \<open>
  Every validator below that proves a closest encloser starts with the same match: a status is returned, a
  proof goes on.
\<close>

definition with_closest_proof ::
  "nsec3_proof_validation dnssec_result \<Rightarrow> (nsec3_closest_encloser_proof \<Rightarrow> dnssec_status dnssec_result)
     \<Rightarrow> dnssec_status dnssec_result" where
  "with_closest_proof m k =
     and_then m (\<lambda>v. case v of Valid proof \<Rightarrow> k proof | Status status \<Rightarrow> Inr status)"

record nsec3_name_error_input = nsec3_closest_encloser_input +
  n3ne_wildcard_nsec3_rrset :: "resource_record list"
  n3ne_wildcard_nsec3_rrsig_rrset :: "resource_record list"

definition validate_nsec3_name_error :: "crypto \<Rightarrow> nsec3_name_error_input \<Rightarrow> dnssec_status dnssec_result" where
  "validate_nsec3_name_error K input =
     with_closest_proof
       (validate_nsec3_closest_encloser_proof K (nsec3_closest_encloser_input.truncate input)) (\<lambda>closest_proof.
     if is_opt_out (pf_nsec3 (cp_next_closer closest_proof)) then Inr InsecureDelegation else
     and_then (wildcard_child (ce_closest_encloser input)) (\<lambda>wildcard_name.
     when_secure (validate_nsec3_rrset_signature K (ce_signer_name input) (ce_dnskey_rrset input)
         (n3ne_wildcard_nsec3_rrset input) (n3ne_wildcard_nsec3_rrsig_rrset input) (ce_now input))
     (and_then (parse_nsec3_proofs (n3ne_wildcard_nsec3_rrset input) (ce_signer_name input)) (\<lambda>wildcard_proofs.
      and_then (find_nsec3_covering_proof K wildcard_proofs wildcard_name
          (Some (pf_nsec3 (cp_closest closest_proof)))) (\<lambda>found.
      case found of
        None \<Rightarrow> Inr Bogus
      | Some wildcard_proof \<Rightarrow>
          (if is_opt_out (pf_nsec3 wildcard_proof) then Inr InsecureDelegation else Inr Secure))))))"

record nsec3_matching_input = nsec3_closest_encloser_input +
  n3m_matching_nsec3_rrset :: "resource_record list"
  n3m_matching_nsec3_rrsig_rrset :: "resource_record list"

text \<open>The closest-encloser part that ends the DS and the referral check.\<close>

definition opt_out_or_bogus :: "crypto \<Rightarrow> nsec3_closest_encloser_input \<Rightarrow> dnssec_status dnssec_result" where
  "opt_out_or_bogus K input =
     with_closest_proof (validate_nsec3_closest_encloser_proof K input) (\<lambda>closest_proof.
     if is_opt_out (pf_nsec3 (cp_next_closer closest_proof)) then Inr InsecureDelegation else Inr Bogus)"

definition validate_nsec3_ds_no_data :: "crypto \<Rightarrow> nsec3_matching_input \<Rightarrow> dnssec_status dnssec_result" where
  "validate_nsec3_ds_no_data K input =
     (if n3m_matching_nsec3_rrset input \<noteq> [] then
        when_secure (validate_nsec3_rrset_signature K (ce_signer_name input) (ce_dnskey_rrset input)
            (n3m_matching_nsec3_rrset input) (n3m_matching_nsec3_rrsig_rrset input) (ce_now input))
        (and_then (parse_nsec3_proofs (n3m_matching_nsec3_rrset input) (ce_signer_name input)) (\<lambda>proofs.
         and_then (find_nsec3_matching_proof K proofs (ce_query_name input) None) (\<lambda>found.
         case found of
           None \<Rightarrow> Inr Bogus
         | Some proof \<Rightarrow>
             and_then (lists_neither (pf_nsec3 proof) TypeDs) (\<lambda>none. Inr (if none then Secure else Bogus)))))
      else opt_out_or_bogus K (nsec3_closest_encloser_input.truncate input))"

definition validate_nsec3_unsigned_referral :: "crypto \<Rightarrow> nsec3_matching_input \<Rightarrow> dnssec_status dnssec_result" where
  "validate_nsec3_unsigned_referral K input =
     (if n3m_matching_nsec3_rrset input \<noteq> [] then
        when_secure (validate_nsec3_rrset_signature K (ce_signer_name input) (ce_dnskey_rrset input)
            (n3m_matching_nsec3_rrset input) (n3m_matching_nsec3_rrsig_rrset input) (ce_now input))
        (and_then (parse_nsec3_proofs (n3m_matching_nsec3_rrset input) (ce_signer_name input)) (\<lambda>proofs.
         and_then (find_nsec3_matching_proof K proofs (ce_query_name input) None) (\<lambda>found.
         case found of
           None \<Rightarrow> Inr Bogus
         | Some proof \<Rightarrow>
             and_then (nsec3_has_type (pf_nsec3 proof) TypeNs) (\<lambda>ns.
             if \<not> ns then Inr Bogus else
             and_then (nsec3_has_type (pf_nsec3 proof) TypeDs) (\<lambda>ds.
             if ds then Inr Bogus else
             and_then (nsec3_has_type (pf_nsec3 proof) TypeSoa) (\<lambda>soa.
             Inr (if soa then Bogus else InsecureDelegation)))))))
      else opt_out_or_bogus K (nsec3_closest_encloser_input.truncate input))"

record nsec3_wildcard_no_data_input = nsec3_name_error_input +
  n3wn_query_type :: record_type

definition validate_nsec3_wildcard_no_data ::
  "crypto \<Rightarrow> nsec3_wildcard_no_data_input \<Rightarrow> dnssec_status dnssec_result" where
  "validate_nsec3_wildcard_no_data K input =
     with_closest_proof
       (validate_nsec3_closest_encloser_proof K (nsec3_closest_encloser_input.truncate input)) (\<lambda>closest_proof.
     if is_opt_out (pf_nsec3 (cp_next_closer closest_proof)) then Inr InsecureDelegation else
     and_then (wildcard_child (ce_closest_encloser input)) (\<lambda>wildcard_name.
     when_secure (validate_nsec3_rrset_signature K (ce_signer_name input) (ce_dnskey_rrset input)
         (n3ne_wildcard_nsec3_rrset input) (n3ne_wildcard_nsec3_rrsig_rrset input) (ce_now input))
     (and_then (parse_nsec3_proofs (n3ne_wildcard_nsec3_rrset input) (ce_signer_name input)) (\<lambda>wildcard_proofs.
      and_then (find_nsec3_matching_proof K wildcard_proofs wildcard_name
          (Some (pf_nsec3 (cp_closest closest_proof)))) (\<lambda>found.
      case found of
        None \<Rightarrow> Inr Bogus
      | Some wildcard_proof \<Rightarrow>
          and_then (lists_neither (pf_nsec3 wildcard_proof) (n3wn_query_type input)) (\<lambda>none.
          Inr (if none then Secure else Bogus)))))))"

record nsec3_wildcard_answer_input =
  wa_signer_name :: dns_name
  wa_dnskey_rrset :: "resource_record list"
  wa_query_name :: dns_name
  wa_closest_encloser :: dns_name
  wa_next_closer_nsec3_rrset :: "resource_record list"
  wa_next_closer_nsec3_rrsig_rrset :: "resource_record list"
  wa_now :: u64

definition validate_nsec3_wildcard_answer ::
  "crypto \<Rightarrow> nsec3_wildcard_answer_input \<Rightarrow> dnssec_status dnssec_result" where
  "validate_nsec3_wildcard_answer K input =
     (if \<not> is_strict_subdomain (wa_query_name input) (wa_closest_encloser input) then Inr Bogus else
      and_then (next_closer_name (wa_query_name input) (wa_closest_encloser input)) (\<lambda>next_closer.
      when_secure (validate_nsec3_rrset_signature K (wa_signer_name input) (wa_dnskey_rrset input)
          (wa_next_closer_nsec3_rrset input) (wa_next_closer_nsec3_rrsig_rrset input) (wa_now input))
      (and_then (parse_nsec3_proofs (wa_next_closer_nsec3_rrset input) (wa_signer_name input)) (\<lambda>next_proofs.
       and_then (find_nsec3_covering_proof K next_proofs next_closer None) (\<lambda>found.
       case found of
         None \<Rightarrow> Inr Bogus
       | Some next_proof \<Rightarrow>
           (if is_opt_out (pf_nsec3 next_proof) then Inr InsecureDelegation else Inr Secure))))))"

subsection \<open>Reference definitions\<close>

text \<open>The half-open gap from \<open>a\<close> to the next element \<open>b\<close> of a cyclically ordered set.\<close>

definition in_gap :: "'a :: linorder \<Rightarrow> 'a \<Rightarrow> 'a \<Rightarrow> bool" where
  "in_gap a b q \<longleftrightarrow> q \<noteq> a \<and> (if a < b then a < q \<and> q < b else if b < a then a < q \<or> q < b else True)"

section \<open>Lemmas\<close>

subsection \<open>Canonical order\<close>

lemma bytes_cmp_iff:
  "bytes_cmp a b = Less \<longleftrightarrow> a < b" "bytes_cmp a b = Equal \<longleftrightarrow> a = b" "bytes_cmp a b = Greater \<longleftrightarrow> b < a"
  by (auto simp: bytes_cmp_def)

lemma labels_cmp_iff:
  "(labels_cmp a b = Less \<longleftrightarrow> a < b) \<and> (labels_cmp a b = Equal \<longleftrightarrow> a = b) \<and> (labels_cmp a b = Greater \<longleftrightarrow> b < a)"
proof (induction a b rule: labels_cmp.induct)
  case (1 l ls r rs)
  consider "l < r" | "l = r" | "r < l" by (rule linorder_cases)
  then show ?case
  proof cases
    case 2
    then have "bytes_cmp l r = Equal" by (simp add: bytes_cmp_iff)
    with 1 2 show ?thesis by auto
  qed (auto simp: bytes_cmp_def)
qed auto

lemma canonical_name_cmp_iff:
  "canonical_name_cmp a b = Less \<longleftrightarrow> rev a < rev b" "canonical_name_cmp a b = Equal \<longleftrightarrow> a = b"
  "canonical_name_cmp a b = Greater \<longleftrightarrow> rev b < rev a"
  using labels_cmp_iff [of "rev a" "rev b"] by (simp_all add: canonical_name_cmp_def)

lemma nsec_covers_name_gap: "nsec_covers_name a b q \<longleftrightarrow> in_gap (rev a) (rev b) (rev q)"
proof -
  consider "rev a < rev b" | "rev b < rev a" | "a = b" by (metis less_linear rev_rev_ident)
  then show ?thesis
    by cases (auto simp: nsec_covers_name_def in_gap_def canonical_name_cmp_iff split: cmp_ordering.splits)
qed

lemma nsec3_covers_hash_gap:
  "nsec3_covers_hash a b q \<longleftrightarrow> length a = length b \<and> length a = length q \<and> in_gap a b q"
  by (auto simp: nsec3_covers_hash_def in_gap_def bytes_cmp_iff split: cmp_ordering.splits)

text \<open>The gaps of a sorted cycle partition everything outside it.\<close>

lemma below_count:
  fixes q :: "'a :: linorder"
  assumes "sorted_wrt (<) ns" "q \<notin> set ns" "k < length ns"
  shows "ns ! k < q \<longleftrightarrow> k < length (takeWhile (\<lambda>x. x < q) ns)"
proof
  assume "k < length (takeWhile (\<lambda>x. x < q) ns)"
  then show "ns ! k < q" by (metis nth_mem set_takeWhileD takeWhile_nth)
next
  assume below: "ns ! k < q"
  show "k < length (takeWhile (\<lambda>x. x < q) ns)"
  proof (rule ccontr)
    assume "\<not> k < length (takeWhile (\<lambda>x. x < q) ns)"
    moreover define t where "t = length (takeWhile (\<lambda>x. x < q) ns)"
    ultimately have t: "t \<le> k" "t < length ns" using assms(3) by auto
    then have "\<not> ns ! t < q" using nth_length_takeWhile [of "\<lambda>x. x < q" ns] by (simp add: t_def)
    moreover have "ns ! t \<le> ns ! k"
      using sorted_wrt_nth_less [OF assms(1) _ assms(3), of t] t by (cases "t = k") auto
    ultimately show False using below by order
  qed
qed

lemma gap_exact:
  assumes "sorted_wrt (<) ns" "q \<notin> set ns" "i < length ns"
  shows "in_gap (ns ! i) (ns ! (Suc i mod length ns)) q \<longleftrightarrow>
    Suc i mod length ns = length (takeWhile (\<lambda>x. x < q) ns) mod length ns"
proof -
  define t where "t = length (takeWhile (\<lambda>x. x < q) ns)"
  have tl: "t \<le> length ns" by (simp add: t_def length_takeWhile_le)
  have below: "ns ! k < q \<longleftrightarrow> k < t" "q < ns ! k \<longleftrightarrow> t \<le> k" "ns ! k \<noteq> q" if "k < length ns" for k
  proof -
    have "ns ! k \<noteq> q" using assms(2) that by (metis nth_mem)
    then show "ns ! k < q \<longleftrightarrow> k < t" "q < ns ! k \<longleftrightarrow> t \<le> k" "ns ! k \<noteq> q"
      using below_count [OF assms(1,2) that] by (auto simp: t_def not_less order_less_le)
  qed
  have mono: "ns ! k < ns ! l \<longleftrightarrow> k < l" if "k < length ns" "l < length ns" for k l
    using assms(1) that by (metis sorted_wrt_nth_less linorder_neqE_nat order_less_asym)
  show ?thesis
  proof (cases "Suc i = length ns")
    case True
    have "0 < length ns" using assms(3) by linarith
    then have "in_gap (ns ! i) (ns ! 0) q \<longleftrightarrow> t = 0 \<or> t = length ns"
      using True tl below(1) [of i] below(2) [of 0] below(3) [of i] mono [of i 0] mono [of 0 i] assms(3)
      by (cases "i = 0") (auto simp: in_gap_def)
    with True tl show ?thesis by (auto simp: t_def [symmetric] dvd_imp_le mod_eq_0_iff_dvd dest: dvd_imp_le)
  next
    case False
    then have "in_gap (ns ! i) (ns ! Suc i) q \<longleftrightarrow> t = Suc i"
      using below(1) [of i] below(2) [of "Suc i"] below(3) [of i] mono [of i "Suc i"] assms(3)
      by (auto simp: in_gap_def)
    moreover have "Suc i = t mod length ns \<longleftrightarrow> t = Suc i"
      using False assms(3) tl by (cases "t = length ns") auto
    ultimately show ?thesis using False assms(3) by (simp add: t_def [symmetric])
  qed
qed

lemma gap_member:
  assumes "sorted_wrt (<) ns" "q \<in> set ns" "i < length ns"
  shows "\<not> in_gap (ns ! i) (ns ! (Suc i mod length ns)) q"
proof -
  obtain j where j: "q = ns ! j" "j < length ns" using assms(2) by (metis in_set_conv_nth)
  have mono: "ns ! k < ns ! l \<longleftrightarrow> k < l" if "k < length ns" "l < length ns" for k l
    using assms(1) that by (metis sorted_wrt_nth_less linorder_neqE_nat order_less_asym)
  show ?thesis
  proof (cases "Suc i = length ns")
    case True
    have "0 < length ns" using assms(3) by linarith
    then show ?thesis
      using True j mono [of 0 j] mono [of j 0] mono [of i j] mono [of 0 i] mono [of i 0] assms(3)
      by (cases "i = 0") (auto simp: in_gap_def)
  next
    case False
    then show ?thesis using j assms(3) mono [of i j] mono [of j "Suc i"] mono [of i "Suc i"]
      by (auto simp: in_gap_def)
  qed
qed

lemma gaps_partition:
  assumes "sorted_wrt (<) ns" "ns \<noteq> []" "q \<notin> set ns"
  shows "\<exists>!i. i < length ns \<and> in_gap (ns ! i) (ns ! (Suc i mod length ns)) q"
proof -
  define n t where "n = length ns" and "t = length (takeWhile (\<lambda>x. x < q) ns)"
  have t: "t \<le> n" "0 < n" using assms(2) by (simp_all add: n_def t_def length_takeWhile_le)
  have "in_gap (ns ! i) (ns ! (Suc i mod length ns)) q \<longleftrightarrow> i = (if t = 0 then n - 1 else t - 1)"
    if "i < length ns" for i
  proof -
    have "Suc i mod n = t mod n \<longleftrightarrow> i = (if t = 0 then n - 1 else t - 1)"
      using t that unfolding n_def [symmetric]
      by (cases "Suc i = n"; cases "t = n") (auto simp: n_def)
    then show ?thesis using gap_exact [OF assms(1,3) that] by (simp add: n_def t_def)
  qed
  moreover have "(if t = 0 then n - 1 else t - 1) < length ns" using t unfolding n_def by auto
  ultimately show ?thesis by blast
qed

subsection \<open>Derived names\<close>

lemma wf_name_drop: "wf_name n \<Longrightarrow> wf_name (drop k n)"
proof (induction n arbitrary: k)
  case (Cons l n)
  then show ?case by (cases k) (auto simp: wf_name_def)
qed simp

lemma next_closer_exact:
  assumes "wf_name query" "is_strict_subdomain query ce"
  shows "next_closer_name query ce = Inr (drop (length query - (length ce + 1)) query)"
proof -
  define n where "n = drop (length query - (length ce + 1)) query"
  have len: "length ce + 1 \<le> length query" using assms(2) by (simp add: is_strict_subdomain_def)
  then have "n \<noteq> []" by (auto simp: n_def)
  then have "dns_name_display n = str_join [46] n" by (simp add: dns_name_display_def)
  with from_ascii_display [of n] wf_name_drop [OF assms(1)] have "from_ascii (str_join [46] n) = Inr n"
    by (simp add: n_def)
  then show ?thesis using len assms(2) by (simp add: next_closer_name_def n_def)
qed

lemma wildcard_child_exact:
  assumes "wf_name (ascii ''*'' # ce)"
  shows "wildcard_child ce = Inr (ascii ''*'' # ce)"
proof -
  have "dns_name_display (ascii ''*'' # ce) =
      (if ce = [] then ascii ''*'' else ascii ''*.'' @ dns_name_display ce)"
    by (cases ce) (simp_all add: dns_name_display_def ascii_def)
  then show ?thesis using from_ascii_display [OF assms] by (simp add: wildcard_child_def)
qed

subsection \<open>What the validators establish\<close>

text \<open>A usable NSEC3 record of a set, with the hash its owner stands for.\<close>

definition proof_of :: "dns_name \<Rightarrow> resource_record list \<Rightarrow> nsec3_proof_record \<Rightarrow> bool" where
  "proof_of zone rrset p \<longleftrightarrow>
     is_usable (pf_nsec3 p) \<and> length (pf_owner_hash p) = length (n3_next_hashed_owner_name (pf_nsec3 p)) \<and>
     (\<exists>r \<in> set rrset. nsec3_from_record r = Inr (pf_nsec3 p) \<and> nsec3_owner_hash (rr_name r) zone = Inr (pf_owner_hash p))"

text \<open>The hash of a name under a record's parameters is the owner's, or lies in the gap after it.\<close>

definition proof_matches :: "crypto \<Rightarrow> nsec3_proof_record \<Rightarrow> dns_name \<Rightarrow> bool" where
  "proof_matches K p name \<longleftrightarrow>
     nsec3_hash K name (n3_hash_algorithm (pf_nsec3 p)) (n3_iterations (pf_nsec3 p)) (n3_salt (pf_nsec3 p)) =
       Inr (pf_owner_hash p)"

definition proof_covers :: "crypto \<Rightarrow> nsec3_proof_record \<Rightarrow> dns_name \<Rightarrow> bool" where
  "proof_covers K p name \<longleftrightarrow>
     (\<exists>h. nsec3_hash K name (n3_hash_algorithm (pf_nsec3 p)) (n3_iterations (pf_nsec3 p)) (n3_salt (pf_nsec3 p)) = Inr h
        \<and> length h = length (pf_owner_hash p)
        \<and> in_gap (pf_owner_hash p) (n3_next_hashed_owner_name (pf_nsec3 p)) h)"

lemma parse_nsec3_loop_proofs:
  "\<lbrakk>parse_nsec3_loop zone rs = Inr ps; p \<in> set ps\<rbrakk> \<Longrightarrow> proof_of zone rs p"
proof (induction rs arbitrary: ps)
  case (Cons r rs)
  then show ?case by (fastforce simp: and_then_Inr proof_of_def split: if_splits)
qed simp

lemma parse_nsec3_proofs_of: "\<lbrakk>parse_nsec3_proofs rrset zone = Inr ps; p \<in> set ps\<rbrakk> \<Longrightarrow> proof_of zone rrset p"
  using parse_nsec3_loop_proofs [of zone "filter (\<lambda>r. rr_type r = TypeNsec3) rrset" ps p]
  by (auto simp: parse_nsec3_proofs_def proof_of_def)

lemma find_matching_Some:
  "find_nsec3_matching_proof K ps name expected = Inr (Some p) \<Longrightarrow>
     p \<in> set ps \<and> \<not> wrong_params expected (pf_nsec3 p) \<and> proof_matches K p name"
  by (induction ps) (auto simp: and_then_Inr nsec3_matches_name_def proof_matches_def split: if_splits)

lemma find_covering_Some:
  "find_nsec3_covering_proof K ps name expected = Inr (Some p) \<Longrightarrow>
     p \<in> set ps \<and> \<not> wrong_params expected (pf_nsec3 p) \<and> proof_covers K p name"
  by (induction ps)
    (auto simp: and_then_Inr nsec3_covers_name_def proof_covers_def nsec3_covers_hash_gap split: if_splits)

lemma nsec3_signature_Secure:
  "validate_nsec3_rrset_signature K signer keys rrset sigs now = Inr Secure \<Longrightarrow> signed_by K signer keys rrset sigs now"
  by (auto simp: validate_nsec3_rrset_signature_def validate_rrset_signature_Secure split: if_splits)

lemma closest_encloser_Valid:
  assumes "validate_nsec3_closest_encloser_proof K input = Inr (Valid p)" "wf_name (ce_query_name input)"
  shows "is_strict_subdomain (ce_query_name input) (ce_closest_encloser input)"
    and "signed_by K (ce_signer_name input) (ce_dnskey_rrset input) (ce_closest_encloser_nsec3_rrset input)
      (ce_closest_encloser_nsec3_rrsig_rrset input) (ce_now input)"
    and "signed_by K (ce_signer_name input) (ce_dnskey_rrset input) (ce_next_closer_nsec3_rrset input)
      (ce_next_closer_nsec3_rrsig_rrset input) (ce_now input)"
    and "proof_of (ce_signer_name input) (ce_closest_encloser_nsec3_rrset input) (cp_closest p)"
    and "proof_matches K (cp_closest p) (ce_closest_encloser input)"
    and "proof_of (ce_signer_name input) (ce_next_closer_nsec3_rrset input) (cp_next_closer p)"
    and "proof_covers K (cp_next_closer p)
      (drop (length (ce_query_name input) - (length (ce_closest_encloser input) + 1)) (ce_query_name input))"
    and "same_nsec3_params (pf_nsec3 (cp_closest p)) (pf_nsec3 (cp_next_closer p))"
    and "closest_nsec3_is_authoritative (pf_nsec3 (cp_closest p)) = Inr True"
proof -
  obtain ps qs c d where s:
    "is_strict_subdomain (ce_query_name input) (ce_closest_encloser input)"
    "validate_nsec3_rrset_signature K (ce_signer_name input) (ce_dnskey_rrset input) (ce_closest_encloser_nsec3_rrset input)
      (ce_closest_encloser_nsec3_rrsig_rrset input) (ce_now input) = Inr Secure"
    "parse_nsec3_proofs (ce_closest_encloser_nsec3_rrset input) (ce_signer_name input) = Inr ps"
    "find_nsec3_matching_proof K ps (ce_closest_encloser input) None = Inr (Some c)"
    "closest_nsec3_is_authoritative (pf_nsec3 c) = Inr True"
    "validate_nsec3_rrset_signature K (ce_signer_name input) (ce_dnskey_rrset input) (ce_next_closer_nsec3_rrset input)
      (ce_next_closer_nsec3_rrsig_rrset input) (ce_now input) = Inr Secure"
    "parse_nsec3_proofs (ce_next_closer_nsec3_rrset input) (ce_signer_name input) = Inr qs"
    "find_nsec3_covering_proof K qs (drop (length (ce_query_name input) - (length (ce_closest_encloser input) + 1))
      (ce_query_name input)) (Some (pf_nsec3 c)) = Inr (Some d)"
    "p = \<lparr>cp_closest = c, cp_next_closer = d\<rparr>"
    using assms(1) next_closer_exact [OF assms(2)]
    by (auto simp: validate_nsec3_closest_encloser_proof_def proof_when_secure_def and_then_Inr
        split: if_splits option.splits)
  note m = find_matching_Some [OF s(4)] find_covering_Some [OF s(8)]
  show "is_strict_subdomain (ce_query_name input) (ce_closest_encloser input)" by (rule s)
  show "signed_by K (ce_signer_name input) (ce_dnskey_rrset input) (ce_closest_encloser_nsec3_rrset input)
      (ce_closest_encloser_nsec3_rrsig_rrset input) (ce_now input)"
    "signed_by K (ce_signer_name input) (ce_dnskey_rrset input) (ce_next_closer_nsec3_rrset input)
      (ce_next_closer_nsec3_rrsig_rrset input) (ce_now input)"
    using nsec3_signature_Secure s(2,6) by blast+
  show "proof_of (ce_signer_name input) (ce_closest_encloser_nsec3_rrset input) (cp_closest p)"
    "proof_of (ce_signer_name input) (ce_next_closer_nsec3_rrset input) (cp_next_closer p)"
    using parse_nsec3_proofs_of s(3,7,9) m by simp_all
  show "proof_matches K (cp_closest p) (ce_closest_encloser input)"
    "proof_covers K (cp_next_closer p)
      (drop (length (ce_query_name input) - (length (ce_closest_encloser input) + 1)) (ce_query_name input))"
    "same_nsec3_params (pf_nsec3 (cp_closest p)) (pf_nsec3 (cp_next_closer p))"
    "closest_nsec3_is_authoritative (pf_nsec3 (cp_closest p)) = Inr True"
    using m s(5,9) by (simp_all add: wrong_params_def)
qed

lemma closest_encloser_status:
  "validate_nsec3_closest_encloser_proof K input \<noteq> Inr (Status Secure)"
  by (auto simp: validate_nsec3_closest_encloser_proof_def proof_when_secure_def and_then_Inr
      split: if_splits option.splits)

lemma with_closest_Secure:
  "with_closest_proof (validate_nsec3_closest_encloser_proof K input) k = Inr Secure \<longleftrightarrow>
     (\<exists>p. validate_nsec3_closest_encloser_proof K input = Inr (Valid p) \<and> k p = Inr Secure)"
proof (cases "validate_nsec3_closest_encloser_proof K input")
  case (Inr v)
  with closest_encloser_status [of K input] show ?thesis by (cases v) (auto simp: with_closest_proof_def)
qed (simp add: with_closest_proof_def)

lemma nsec_no_data_loop_Secure:
  "nsec_no_data_loop ty rs = Inr Secure \<Longrightarrow>
     \<exists>r \<in> set rs. \<exists>n. nsec_from_record r = Inr n \<and> \<not> bitmap_lists (nsec_type_bit_maps n) (record_type_code ty) \<and>
       \<not> bitmap_lists (nsec_type_bit_maps n) (record_type_code TypeCname)"
  by (induction rs) (auto simp: and_then_Inr nsec_has_type_exact split: if_splits)

lemma lists_neither_True:
  "\<lbrakk>nsec3_from_record r = Inr n; lists_neither n ty = Inr True\<rbrakk> \<Longrightarrow>
     \<not> bitmap_lists (n3_type_bit_maps n) (record_type_code ty) \<and>
     \<not> bitmap_lists (n3_type_bit_maps n) (record_type_code TypeCname)"
  by (auto simp: lists_neither_def and_then_Inr nsec3_has_type_exact split: if_splits)

lemma nsec3_no_data_loop_Secure:
  "nsec3_no_data_loop K name ty ps = Inr Secure \<Longrightarrow>
     \<exists>p \<in> set ps. proof_matches K p name \<and> lists_neither (pf_nsec3 p) ty = Inr True"
  by (induction ps) (auto simp: and_then_Inr nsec3_matches_name_def proof_matches_def split: if_splits)

section \<open>Properties\<close>

text \<open>
  C34.  Gaps are exact: for the names of a zone in canonical order, closed into a cycle, the NSEC records
  cover no existing name, and every other name is covered by exactly one of them; likewise for the
  hashes of an NSEC3 chain.  Neither an existing name can be denied nor a missing one escape.
\<close>

theorem denial_gaps_partition:
  "(sorted_wrt (\<lambda>a b. canonical_name_cmp a b = Less) ns \<and> ns \<noteq> [] \<longrightarrow>
     (if q \<in> set ns then \<forall>i < length ns. \<not> nsec_covers_name (ns ! i) (ns ! (Suc i mod length ns)) q
      else \<exists>!i. i < length ns \<and> nsec_covers_name (ns ! i) (ns ! (Suc i mod length ns)) q)) \<and>
   (sorted_wrt (<) hs \<and> hs \<noteq> [] \<and> (\<forall>h \<in> set hs. length h = length x) \<longrightarrow>
     (if x \<in> set hs then \<forall>i < length hs. \<not> nsec3_covers_hash (hs ! i) (hs ! (Suc i mod length hs)) x
      else \<exists>!i. i < length hs \<and> nsec3_covers_hash (hs ! i) (hs ! (Suc i mod length hs)) x))"
proof (intro conjI impI)
  assume "sorted_wrt (\<lambda>a b. canonical_name_cmp a b = Less) ns \<and> ns \<noteq> []"
  then have s: "sorted_wrt (<) (map rev ns)" "map rev ns \<noteq> []"
    by (simp_all add: sorted_wrt_map canonical_name_cmp_iff)
  have gap: "nsec_covers_name (ns ! i) (ns ! (Suc i mod length ns)) q \<longleftrightarrow>
      in_gap (map rev ns ! i) (map rev ns ! (Suc i mod length (map rev ns))) (rev q)" if "i < length ns" for i
  proof -
    have "Suc i mod length ns < length ns" using that by (intro mod_less_divisor) linarith
    then show ?thesis using that by (simp add: nsec_covers_name_gap)
  qed
  have mem: "rev q \<in> set (map rev ns) \<longleftrightarrow> q \<in> set ns" by auto
  show "if q \<in> set ns then \<forall>i < length ns. \<not> nsec_covers_name (ns ! i) (ns ! (Suc i mod length ns)) q
      else \<exists>!i. i < length ns \<and> nsec_covers_name (ns ! i) (ns ! (Suc i mod length ns)) q"
    using gap_member [OF s(1), of "rev q"] gaps_partition [OF s, of "rev q"] gap mem
    by (simp cong: conj_cong)
next
  assume h: "sorted_wrt (<) hs \<and> hs \<noteq> [] \<and> (\<forall>h \<in> set hs. length h = length x)"
  then have gap: "nsec3_covers_hash (hs ! i) (hs ! (Suc i mod length hs)) x \<longleftrightarrow>
      in_gap (hs ! i) (hs ! (Suc i mod length hs)) x" if "i < length hs" for i
  proof -
    have "Suc i mod length hs < length hs" using that by (intro mod_less_divisor) linarith
    then show ?thesis using that h by (simp add: nsec3_covers_hash_gap)
  qed
  show "if x \<in> set hs then \<forall>i < length hs. \<not> nsec3_covers_hash (hs ! i) (hs ! (Suc i mod length hs)) x
      else \<exists>!i. i < length hs \<and> nsec3_covers_hash (hs ! i) (hs ! (Suc i mod length hs)) x"
    using gap_member [of hs x] gaps_partition [of hs x] gap h by (simp cong: conj_cong)
qed

theorem denial_gaps_partition_witness:
  "nsec_covers_name [ascii ''z''] [ascii ''a''] [ascii ''zz''] \<and>
   \<not> nsec_covers_name [ascii ''a''] [ascii ''z''] [ascii ''a''] \<and>
   (\<exists>!i. i < length [[1 :: u8], [5]] \<and> nsec3_covers_hash ([[1], [5]] ! i) ([[1], [5]] ! (Suc i mod length [[1 :: u8], [5]])) [3])"
proof -
  let ?ns = "[[ascii ''a''], [ascii ''z'']]"
  have s: "sorted_wrt (\<lambda>a b. canonical_name_cmp a b = Less) ?ns \<and> ?ns \<noteq> []"
    by (simp add: canonical_name_cmp_iff ascii_def)
  have h: "sorted_wrt (<) [[1 :: u8], [5]] \<and> [[1 :: u8], [5]] \<noteq> [] \<and>
      (\<forall>h \<in> set [[1 :: u8], [5]]. length h = length [3 :: u8])" by simp
  have "\<forall>i < length ?ns. \<not> nsec_covers_name (?ns ! i) (?ns ! (Suc i mod length ?ns)) [ascii ''a'']"
    using denial_gaps_partition [of ?ns "[ascii ''a'']" "[]" "[]"] s by simp
  from this [rule_format, of 0] have "\<not> nsec_covers_name [ascii ''a''] [ascii ''z''] [ascii ''a'']" by simp
  moreover have "\<exists>!i. i < length [[1 :: u8], [5]] \<and>
      nsec3_covers_hash ([[1], [5]] ! i) ([[1], [5]] ! (Suc i mod length [[1 :: u8], [5]])) [3]"
    using denial_gaps_partition [of "[]" "[]" "[[1], [5]]" "[3]"] h by simp
  moreover have "nsec_covers_name [ascii ''z''] [ascii ''a''] [ascii ''zz'']"
    by (simp add: nsec_covers_name_gap in_gap_def ascii_def)
  ultimately show ?thesis by simp
qed

text \<open>
  C35.  An NSEC3 name error rests on the full closest-encloser proof: if the validator answers \<open>Secure\<close>,
  then signed NSEC3 records with one set of hash parameters match the closest encloser (which is
  authoritative for its subtree), cover the next closer name, and cover the wildcard below the
  encloser, and neither covering record opts out.
\<close>

theorem nsec3_name_error_sound:
  assumes "validate_nsec3_name_error K input = Inr Secure"
    and "wf_name (ce_query_name input)" "wf_name (ascii ''*'' # ce_closest_encloser input)"
  shows "\<exists>closest next_closer wildcard.
    is_strict_subdomain (ce_query_name input) (ce_closest_encloser input) \<and>
    proof_of (ce_signer_name input) (ce_closest_encloser_nsec3_rrset input) closest \<and>
    proof_of (ce_signer_name input) (ce_next_closer_nsec3_rrset input) next_closer \<and>
    proof_of (ce_signer_name input) (n3ne_wildcard_nsec3_rrset input) wildcard \<and>
    signed_by K (ce_signer_name input) (ce_dnskey_rrset input) (ce_closest_encloser_nsec3_rrset input)
      (ce_closest_encloser_nsec3_rrsig_rrset input) (ce_now input) \<and>
    signed_by K (ce_signer_name input) (ce_dnskey_rrset input) (ce_next_closer_nsec3_rrset input)
      (ce_next_closer_nsec3_rrsig_rrset input) (ce_now input) \<and>
    signed_by K (ce_signer_name input) (ce_dnskey_rrset input) (n3ne_wildcard_nsec3_rrset input)
      (n3ne_wildcard_nsec3_rrsig_rrset input) (ce_now input) \<and>
    same_nsec3_params (pf_nsec3 closest) (pf_nsec3 next_closer) \<and>
    same_nsec3_params (pf_nsec3 closest) (pf_nsec3 wildcard) \<and>
    closest_nsec3_is_authoritative (pf_nsec3 closest) = Inr True \<and>
    proof_matches K closest (ce_closest_encloser input) \<and>
    proof_covers K next_closer
      (drop (length (ce_query_name input) - (length (ce_closest_encloser input) + 1)) (ce_query_name input)) \<and>
    proof_covers K wildcard (ascii ''*'' # ce_closest_encloser input) \<and>
    \<not> is_opt_out (pf_nsec3 next_closer) \<and> \<not> is_opt_out (pf_nsec3 wildcard)"
proof -
  define ce where "ce = nsec3_closest_encloser_input.truncate input"
  have f: "ce_query_name ce = ce_query_name input" "ce_closest_encloser ce = ce_closest_encloser input"
    "ce_signer_name ce = ce_signer_name input" "ce_dnskey_rrset ce = ce_dnskey_rrset input"
    "ce_closest_encloser_nsec3_rrset ce = ce_closest_encloser_nsec3_rrset input"
    "ce_closest_encloser_nsec3_rrsig_rrset ce = ce_closest_encloser_nsec3_rrsig_rrset input"
    "ce_next_closer_nsec3_rrset ce = ce_next_closer_nsec3_rrset input"
    "ce_next_closer_nsec3_rrsig_rrset ce = ce_next_closer_nsec3_rrsig_rrset input" "ce_now ce = ce_now input"
    by (simp_all add: ce_def nsec3_closest_encloser_input.defs)
  obtain p ws w where s: "validate_nsec3_closest_encloser_proof K ce = Inr (Valid p)"
    "\<not> is_opt_out (pf_nsec3 (cp_next_closer p))"
    "validate_nsec3_rrset_signature K (ce_signer_name input) (ce_dnskey_rrset input)
      (n3ne_wildcard_nsec3_rrset input) (n3ne_wildcard_nsec3_rrsig_rrset input) (ce_now input) = Inr Secure"
    "parse_nsec3_proofs (n3ne_wildcard_nsec3_rrset input) (ce_signer_name input) = Inr ws"
    "find_nsec3_covering_proof K ws (ascii ''*'' # ce_closest_encloser input) (Some (pf_nsec3 (cp_closest p))) = Inr (Some w)"
    "\<not> is_opt_out (pf_nsec3 w)"
    using assms(1) wildcard_child_exact [OF assms(3)]
    by (auto simp: validate_nsec3_name_error_def with_closest_Secure and_then_Inr when_secure_Secure
        simp flip: ce_def split: if_splits option.splits)
  have "wf_name (ce_query_name ce)" using assms(2) f by simp
  from closest_encloser_Valid [OF s(1) this, unfolded f] find_covering_Some [OF s(5)]
    parse_nsec3_proofs_of [OF s(4)] nsec3_signature_Secure [OF s(3)] s(2,6)
  show ?thesis
    by (intro exI [of _ "cp_closest p"] exI [of _ "cp_next_closer p"] exI [of _ w]) (simp add: wrong_params_def)
qed

text \<open>
  Missing types are denied only by signed records of the very name: a \<open>Secure\<close> answer to a no-data
  question rests on a signed NSEC record owned by the query name, or on a usable signed NSEC3
  record whose owner is the hash of the query name, that lists neither the type asked for nor CNAME.
\<close>

theorem no_data_sound:
  "(validate_nsec_no_data K a = Inr Secure \<longrightarrow>
     signed_by K (nd_signer_name a) (nd_dnskey_rrset a) (nd_nsec_rrset a) (nd_nsec_rrsig_rrset a) (nd_now a) \<and>
     (\<exists>r \<in> set (nd_nsec_rrset a). \<exists>n. rr_name r = nd_query_name a \<and> nsec_from_record r = Inr n \<and>
        \<not> bitmap_lists (nsec_type_bit_maps n) (record_type_code (nd_query_type a)) \<and>
        \<not> bitmap_lists (nsec_type_bit_maps n) (record_type_code TypeCname))) \<and>
   (validate_nsec3_no_data K b = Inr Secure \<longrightarrow>
     signed_by K (n3nd_signer_name b) (n3nd_dnskey_rrset b) (n3nd_nsec3_rrset b) (n3nd_nsec3_rrsig_rrset b) (n3nd_now b) \<and>
     (\<exists>p. proof_of (n3nd_signer_name b) (n3nd_nsec3_rrset b) p \<and> proof_matches K p (n3nd_query_name b) \<and>
        \<not> bitmap_lists (n3_type_bit_maps (pf_nsec3 p)) (record_type_code (n3nd_query_type b)) \<and>
        \<not> bitmap_lists (n3_type_bit_maps (pf_nsec3 p)) (record_type_code TypeCname)))"
proof (intro conjI impI)
  assume "validate_nsec_no_data K a = Inr Secure"
  then have v: "validate_rrset_signature K (nd_signer_name a) (nd_dnskey_rrset a) (nd_nsec_rrset a)
      (nd_nsec_rrsig_rrset a) (nd_now a) = Inr Secure"
    "nsec_no_data_loop (nd_query_type a) (filter (\<lambda>r. rr_type r = TypeNsec \<and> rr_name r = nd_query_name a) (nd_nsec_rrset a)) = Inr Secure"
    by (simp_all add: validate_nsec_no_data_def when_secure_Secure)
  show "signed_by K (nd_signer_name a) (nd_dnskey_rrset a) (nd_nsec_rrset a) (nd_nsec_rrsig_rrset a) (nd_now a)"
    using v(1) by (simp add: validate_rrset_signature_Secure)
  show "\<exists>r \<in> set (nd_nsec_rrset a). \<exists>n. rr_name r = nd_query_name a \<and> nsec_from_record r = Inr n \<and>
        \<not> bitmap_lists (nsec_type_bit_maps n) (record_type_code (nd_query_type a)) \<and>
        \<not> bitmap_lists (nsec_type_bit_maps n) (record_type_code TypeCname)"
    using nsec_no_data_loop_Secure [OF v(2)] by auto
next
  assume "validate_nsec3_no_data K b = Inr Secure"
  then obtain ps where v: "validate_nsec3_rrset_signature K (n3nd_signer_name b) (n3nd_dnskey_rrset b) (n3nd_nsec3_rrset b)
      (n3nd_nsec3_rrsig_rrset b) (n3nd_now b) = Inr Secure"
    "parse_nsec3_proofs (n3nd_nsec3_rrset b) (n3nd_signer_name b) = Inr ps"
    "nsec3_no_data_loop K (n3nd_query_name b) (n3nd_query_type b) ps = Inr Secure"
    by (auto simp: validate_nsec3_no_data_def when_secure_Secure and_then_Inr)
  show "signed_by K (n3nd_signer_name b) (n3nd_dnskey_rrset b) (n3nd_nsec3_rrset b) (n3nd_nsec3_rrsig_rrset b) (n3nd_now b)"
    by (rule nsec3_signature_Secure [OF v(1)])
  obtain p where p: "p \<in> set ps" "proof_matches K p (n3nd_query_name b)" "lists_neither (pf_nsec3 p) (n3nd_query_type b) = Inr True"
    using nsec3_no_data_loop_Secure [OF v(3)] by blast
  from parse_nsec3_proofs_of [OF v(2) p(1)] p lists_neither_True
  show "\<exists>p. proof_of (n3nd_signer_name b) (n3nd_nsec3_rrset b) p \<and> proof_matches K p (n3nd_query_name b) \<and>
        \<not> bitmap_lists (n3_type_bit_maps (pf_nsec3 p)) (record_type_code (n3nd_query_type b)) \<and>
        \<not> bitmap_lists (n3_type_bit_maps (pf_nsec3 p)) (record_type_code TypeCname)"
    unfolding proof_of_def by blast
qed

subsection \<open>A sample zone\<close>

text \<open>
  A digest that only depends on the length of its input, and one NSEC3 record whose gap runs from the
  hash of the root to a hash above those of all names of one letter.
\<close>

definition length_hash :: "u8 \<Rightarrow> bytes" where
  "length_hash n = replicate 19 0 @ [n]"

definition denial_crypto :: crypto where
  "denial_crypto = sample_crypto\<lparr>digests := (digests sample_crypto)\<lparr>sha1_digest := \<lambda>m. length_hash (word_of_nat (length m))\<rparr>\<rparr>"

definition gap_record :: resource_record where
  "gap_record = \<lparr>rr_name = [base32hex_nopad (length_hash 1)], rr_type = TypeNsec3, rr_class = 1, rr_ttl = 60,
     rr_rdata = [1, 0, 0, 0, 0, 20] @ length_hash 9\<rparr>"

definition gap_sig :: resource_record where
  "gap_sig = (sample_sig 50)\<lparr>rr_name := rr_name gap_record\<rparr>"

definition gap_nsec3 :: nsec3_record where
  "gap_nsec3 = \<lparr>n3_hash_algorithm = 1, n3_flags = 0, n3_iterations = 0, n3_salt = [],
     n3_next_hashed_owner_name = length_hash 9, n3_type_bit_maps = []\<rparr>"

definition gap_proof :: nsec3_proof_record where
  "gap_proof = \<lparr>pf_nsec3 = gap_nsec3, pf_owner_hash = length_hash 1\<rparr>"

lemma gap_record_parses: "nsec3_from_record gap_record = Inr gap_nsec3"
  by (simp add: nsec3_from_record_def gap_record_def nsec3_parse_rdata_def gap_nsec3_def checked_add_usize_def
      Let_def slice_def u16_of_be_def be_nat_def as_nsec3_error_def validate_nsec_type_bit_maps_def length_hash_def)

lemma gap_has_no_type: "nsec3_has_type gap_nsec3 ty = Inr False"
proof -
  have "n3_type_bit_maps gap_nsec3 = []" by (simp add: gap_nsec3_def)
  then show ?thesis using nsec3_has_type_exact [OF gap_record_parses] by (simp add: bitmap_lists_def)
qed

lemma gap_proofs: "parse_nsec3_proofs [gap_record] [] = Inr [gap_proof]"
proof -
  have "is_usable gap_nsec3" by (simp add: is_usable_def gap_nsec3_def NSEC3_HASH_SHA1_def)
  moreover have "nsec3_owner_hash (rr_name gap_record) [] = Inr (length_hash 1)"
    by (simp add: nsec3_owner_hash_def gap_record_def decode_base32hex)
  moreover have "rr_type gap_record = TypeNsec3" by (simp add: gap_record_def)
  ultimately show ?thesis
    by (simp add: parse_nsec3_proofs_def gap_record_parses gap_proof_def gap_nsec3_def length_hash_def)
qed

lemma gap_hash:
  "encode_wire name [] = Inr w \<Longrightarrow> nsec3_hash denial_crypto name 1 0 [] = Inr (length_hash (word_of_nat (length w)))"
  by (simp add: nsec3_hash_def NSEC3_HASH_SHA1_def NSEC3_MAX_ITERATIONS_def denial_crypto_def)

lemma gap_matches:
  "nsec3_matches_name denial_crypto gap_nsec3 (length_hash 1) [] = Inr True"
  "length l = 1 \<Longrightarrow> nsec3_covers_name denial_crypto gap_nsec3 (length_hash 1) [l] = Inr True"
proof -
  have u: "is_usable gap_nsec3" "n3_hash_algorithm gap_nsec3 = 1" "n3_iterations gap_nsec3 = 0" "n3_salt gap_nsec3 = []"
    "n3_next_hashed_owner_name gap_nsec3 = length_hash 9"
    by (simp_all add: is_usable_def gap_nsec3_def NSEC3_HASH_SHA1_def)
  have "encode_wire [] [] = Inr [0]" by (simp add: encode_wire_def)
  from gap_hash [OF this] u show "nsec3_matches_name denial_crypto gap_nsec3 (length_hash 1) [] = Inr True"
    by (simp add: nsec3_matches_name_def)
  assume "length l = 1"
  then have "encode_wire [l] [] = Inr (1 # l @ [0])" by (simp add: encode_wire_def MAX_DNS_LABEL_LEN_def)
  from gap_hash [OF this] have "nsec3_hash denial_crypto [l] 1 0 [] = Inr (length_hash 3)"
    using \<open>length l = 1\<close> by simp
  moreover have "nsec3_covers_hash (length_hash 1) (length_hash 9) (length_hash 3)"
    by (simp add: nsec3_covers_hash_def length_hash_def bytes_cmp_def list_less_def lexord_append_leftI)
  ultimately show "nsec3_covers_name denial_crypto gap_nsec3 (length_hash 1) [l] = Inr True"
    using u by (simp add: nsec3_covers_name_def)
qed

lemma gap_set_signed: "signed_by denial_crypto [] [sample_key 7] [gap_record] [gap_sig] 50"
proof -
  have c: "\<exists>cs. canonical_rrset [gap_record] (sample_signature 50) = Inr cs \<and> distinct (map cr_rdata cs)"
    using gap_record_parses
    by (simp add: canonical_rrset_def canonical_owner_def encode_label_def ascii_def canonical_one_def
        canonical_rdata_def canonical_nsec3_rdata_def sample_signature_def from_code_def gap_record_def length_hash_def)
  have "ed25519_verify denial_crypto = ed25519_verify sample_crypto" by (simp add: denial_crypto_def)
  moreover have "rr_name (hd [gap_record]) = rr_name gap_record" "rr_class (hd [gap_record]) = 1"
    "rr_type (hd [gap_record]) = from_code 50"
    by (simp_all add: gap_record_def from_code_def)
  ultimately show ?thesis unfolding gap_sig_def using c sample_signed_by by blast
qed

lemma gap_set_validates:
  "validate_nsec3_rrset_signature denial_crypto [] [sample_key 7] [gap_record] [gap_sig] 50 = Inr Secure"
proof -
  have "rrsig_from_record gap_sig = Inr (sample_signature 50)"
    using sample_sig_parses [of 50] by (simp add: gap_sig_def sample_sig_def rrsig_from_record_def)
  then show ?thesis
    using gap_set_signed
    by (simp add: validate_nsec3_rrset_signature_def validate_rrset_signature_Secure parses_def sample_key_parses)
qed

definition gap_input :: nsec3_name_error_input where
  "gap_input = \<lparr>ce_signer_name = [], ce_dnskey_rrset = [sample_key 7], ce_query_name = [ascii ''a''],
     ce_closest_encloser = [], ce_closest_encloser_nsec3_rrset = [gap_record],
     ce_closest_encloser_nsec3_rrsig_rrset = [gap_sig], ce_next_closer_nsec3_rrset = [gap_record],
     ce_next_closer_nsec3_rrsig_rrset = [gap_sig], ce_now = 50, n3ne_wildcard_nsec3_rrset = [gap_record],
     n3ne_wildcard_nsec3_rrsig_rrset = [gap_sig]\<rparr>"

lemma gap_names: "wf_name [ascii ''a'']" "wf_name [ascii ''*'']"
  by (simp_all add: wf_name_def wf_label_def is_valid_dns_label_def ascii_def is_ascii_alphanumeric_def
      is_ascii_lower_def to_ascii_lowercase_def to_ascii_lower_byte_def is_ascii_upper_def)

lemma gap_name_error: "validate_nsec3_name_error denial_crypto gap_input = Inr Secure"
proof -
  have p: "pf_nsec3 gap_proof = gap_nsec3" "pf_owner_hash gap_proof = length_hash 1" by (simp_all add: gap_proof_def)
  have auth: "closest_nsec3_is_authoritative gap_nsec3 = Inr True"
    by (simp add: closest_nsec3_is_authoritative_def gap_has_no_type)
  have sub: "is_strict_subdomain [ascii ''a''] []" by (simp add: is_strict_subdomain_def ends_with_def)
  have nc: "next_closer_name [ascii ''a''] [] = Inr [ascii ''a'']"
    using next_closer_exact [OF gap_names(1) sub] by simp
  have same: "\<not> wrong_params (Some gap_nsec3) gap_nsec3" "\<not> wrong_params None gap_nsec3" "\<not> is_opt_out gap_nsec3"
    by (simp_all add: wrong_params_def same_nsec3_params_def is_opt_out_def gap_nsec3_def)
  have closest: "validate_nsec3_closest_encloser_proof denial_crypto (nsec3_closest_encloser_input.truncate gap_input) =
      Inr (Valid \<lparr>cp_closest = gap_proof, cp_next_closer = gap_proof\<rparr>)"
    by (simp add: validate_nsec3_closest_encloser_proof_def proof_when_secure_def gap_input_def
        nsec3_closest_encloser_input.defs gap_set_validates gap_proofs sub nc p same auth gap_matches)
  have fields: "ce_signer_name gap_input = []" "ce_dnskey_rrset gap_input = [sample_key 7]" "ce_now gap_input = 50"
    "ce_closest_encloser gap_input = []" "n3ne_wildcard_nsec3_rrset gap_input = [gap_record]"
    "n3ne_wildcard_nsec3_rrsig_rrset gap_input = [gap_sig]"
    by (simp_all add: gap_input_def)
  show ?thesis
    by (simp add: validate_nsec3_name_error_def with_closest_proof_def when_secure_Secure closest fields p same
        wildcard_child_exact [OF gap_names(2)] gap_set_validates gap_proofs gap_matches)
qed

theorem nsec3_name_error_sound_witness:
  "\<exists>wildcard. proof_of [] [gap_record] wildcard \<and> proof_covers denial_crypto wildcard [ascii ''*''] \<and>
     \<not> is_opt_out (pf_nsec3 wildcard)"
proof -
  have "wf_name (ce_query_name gap_input)" "wf_name (ascii ''*'' # ce_closest_encloser gap_input)"
    using gap_names by (simp_all add: gap_input_def)
  from nsec3_name_error_sound [OF gap_name_error this] show ?thesis by (auto simp: gap_input_def)
qed

theorem no_data_sound_witness:
  "signed_by denial_crypto [] [sample_key 7] [gap_record] [gap_sig] 50 \<and>
   (\<exists>p. proof_of [] [gap_record] p \<and> proof_matches denial_crypto p [])"
proof -
  define b where "b = \<lparr>n3nd_signer_name = [], n3nd_dnskey_rrset = [sample_key 7], n3nd_query_name = [],
    n3nd_query_type = TypeTlsa, n3nd_nsec3_rrset = [gap_record], n3nd_nsec3_rrsig_rrset = [gap_sig], n3nd_now = 50\<rparr>"
  have "lists_neither gap_nsec3 TypeTlsa = Inr True"
    by (simp add: lists_neither_def gap_has_no_type)
  then have "validate_nsec3_no_data denial_crypto b = Inr Secure"
    by (simp add: validate_nsec3_no_data_def when_secure_Secure b_def gap_set_validates gap_proofs gap_proof_def gap_matches)
  moreover define a where "a = \<lparr>nd_signer_name = [], nd_dnskey_rrset = [sample_key 7], nd_query_name = [],
    nd_query_type = TypeTlsa, nd_nsec_rrset = [], nd_nsec_rrsig_rrset = [], nd_now = 50\<rparr>"
  ultimately show ?thesis using no_data_sound [of denial_crypto a b] by (auto simp: b_def)
qed

end
