(* ===== verification/Der.thy ===== *)
theory Der
  imports Pow
begin

text \<open>
  The DER reader of \<open>hns-dane/src/lib.rs\<close>: tag-length-value elements read at a cursor below a limit, the
  subject public key of a certificate, and the values of its extensions.  A cursor passed as
  \<open>&mut usize\<close> is an argument and part of the result (every caller propagates errors, so the
  cursor after an error is never seen).  Indexing a slice out of range is \<open>Panic\<close>.
\<close>

section \<open>Definitions\<close>

datatype dane_error =
    ShortRecord
  | UnsupportedUsage
  | UnsupportedSelector
  | UnsupportedMatching
  | InsecureTlsa
  | MissingRequiredTlsa
  | WebPkiFailed
  | MalformedCertificate
  | MissingSubjectPublicKeyInfo
  | MalformedCertificateEvidence
  | UnsupportedCertificateEvidence
  | InvalidCertificateEvidence
  | MissingCertificateTlsa
  | InvalidCertificateDnssec

type_synonym 'a dane_result = "dane_error fault + 'a"

abbreviation malformed :: "'a dane_result" where
  "malformed \<equiv> Inl (Err MalformedCertificate)"

text \<open>\<open>data[i]\<close> and \<open>data[a..b]\<close>.\<close>

definition index_byte :: "bytes \<Rightarrow> nat \<Rightarrow> 'e fault + u8" where
  "index_byte data i = ok_or Panic (get_byte data i)"

definition index_range :: "bytes \<Rightarrow> nat \<Rightarrow> nat \<Rightarrow> 'e fault + bytes" where
  "index_range data a b = ok_or Panic (get_range data a b)"

definition checked_mul_usize :: "nat \<Rightarrow> nat \<Rightarrow> nat option" where
  "checked_mul_usize a b = (if a * b < usize_limit then Some (a * b) else None)"

definition checked_mul_u32 :: "u32 \<Rightarrow> u32 \<Rightarrow> u32 option" where
  "checked_mul_u32 a b = (if unat a * unat b < 2 ^ 32 then Some (a * b) else None)"

definition checked_add_u32_opt :: "u32 \<Rightarrow> u32 \<Rightarrow> u32 option" where
  "checked_add_u32_opt a b = (if unat a + unat b < 2 ^ 32 then Some (a + b) else None)"

text \<open>\<open>cursor.checked_add(n).is_none_or(|end| end > limit)\<close>.\<close>

definition beyond :: "nat \<Rightarrow> nat \<Rightarrow> nat \<Rightarrow> bool" where
  "beyond cursor n limit = (case checked_add_usize cursor n of None \<Rightarrow> True | Some fin \<Rightarrow> fin > limit)"

definition TAG_SEQUENCE :: u8 where "TAG_SEQUENCE = 0x30"
definition TAG_EXPLICIT_VERSION :: u8 where "TAG_EXPLICIT_VERSION = 0xa0"
definition TAG_BOOLEAN :: u8 where "TAG_BOOLEAN = 0x01"
definition TAG_OBJECT_IDENTIFIER :: u8 where "TAG_OBJECT_IDENTIFIER = 0x06"
definition TAG_OCTET_STRING :: u8 where "TAG_OCTET_STRING = 0x04"
definition TAG_EXPLICIT_EXTENSIONS :: u8 where "TAG_EXPLICIT_EXTENSIONS = 0xa3"

record der_element =
  de_tag :: u8
  de_start :: nat
  de_value_start :: nat
  de_end :: nat

fun der_length_loop :: "bytes \<Rightarrow> nat \<Rightarrow> nat \<Rightarrow> nat \<Rightarrow> (nat \<times> nat) dane_result" where
  "der_length_loop data 0 len cursor = Inr (len, cursor)"
| "der_length_loop data (Suc n) len cursor =
     and_then (ok_or (Err MalformedCertificate) (checked_mul_usize len 256)) (\<lambda>scaled.
     and_then (index_byte data cursor) (\<lambda>b.
     and_then (ok_or (Err MalformedCertificate) (checked_add_usize scaled (unat b))) (\<lambda>len.
     der_length_loop data n len (cursor + 1))))"

definition read_der_length :: "bytes \<Rightarrow> nat \<Rightarrow> nat \<Rightarrow> (nat \<times> nat) dane_result" where
  "read_der_length data cursor limit =
     and_then (ok_or (Err MalformedCertificate) (get_byte data cursor)) (\<lambda>first.
     let cursor = cursor + 1 in
     if first AND 0x80 = 0 then Inr (unat first, cursor) else
     let length_octets = unat (first AND 0x7f) in
     if length_octets = 0 \<or> length_octets > 8 then malformed
     else if beyond cursor length_octets limit then malformed
     else and_then (index_byte data cursor) (\<lambda>b.
     if b = 0 then malformed else
     and_then (der_length_loop data length_octets 0 cursor) (\<lambda>(len, cursor).
     if len < 128 then malformed else Inr (len, cursor))))"

definition read_der_element_with_limit :: "bytes \<Rightarrow> nat \<Rightarrow> nat \<Rightarrow> (der_element \<times> nat) dane_result" where
  "read_der_element_with_limit data cursor limit =
     (let start = cursor in
      if beyond start 2 limit then malformed else
      and_then (index_byte data start) (\<lambda>tag.
      and_then (read_der_length data (start + 1) limit) (\<lambda>(len, value_start).
      and_then (ok_or (Err MalformedCertificate) (checked_add_usize value_start len)) (\<lambda>fin.
      if fin > limit then malformed
      else Inr (\<lparr>de_tag = tag, de_start = start, de_value_start = value_start, de_end = fin\<rparr>, fin)))))"

definition read_der_element :: "bytes \<Rightarrow> nat \<Rightarrow> (der_element \<times> nat) dane_result" where
  "read_der_element data cursor = read_der_element_with_limit data cursor (length data)"

definition skip_der_element :: "bytes \<Rightarrow> nat \<Rightarrow> nat \<Rightarrow> nat dane_result" where
  "skip_der_element data cursor limit =
     and_then (read_der_element_with_limit data cursor limit) (\<lambda>(_, cursor). Inr cursor)"

definition peek_der_tag :: "bytes \<Rightarrow> nat \<Rightarrow> nat \<Rightarrow> u8 option dane_result" where
  "peek_der_tag data cursor limit =
     (if cursor = limit then Inr None
      else if cursor < limit then and_then (index_byte data cursor) (\<lambda>tag. Inr (Some tag))
      else malformed)"

text \<open>\<open>for _ in 0..n \{ skip_der_element(...)?; \}\<close> and the skip of an optional element.\<close>

fun skip_elements :: "bytes \<Rightarrow> nat \<Rightarrow> nat \<Rightarrow> nat \<Rightarrow> nat dane_result" where
  "skip_elements data 0 cursor limit = Inr cursor"
| "skip_elements data (Suc n) cursor limit =
     and_then (skip_der_element data cursor limit) (\<lambda>cursor. skip_elements data n cursor limit)"

definition skip_optional :: "bytes \<Rightarrow> u8 \<Rightarrow> nat \<Rightarrow> nat \<Rightarrow> nat dane_result" where
  "skip_optional data tag cursor limit =
     and_then (peek_der_tag data cursor limit) (\<lambda>peeked.
     if peeked = Some tag then skip_der_element data cursor limit else Inr cursor)"

text \<open>The prefix the two certificate walks share: the outer sequence and the signed part in it.\<close>

definition read_tbs_certificate :: "bytes \<Rightarrow> der_element dane_result" where
  "read_tbs_certificate cert_der =
     and_then (read_der_element cert_der 0) (\<lambda>(certificate, cursor).
     if de_tag certificate \<noteq> TAG_SEQUENCE \<or> cursor \<noteq> length cert_der then malformed else
     and_then (read_der_element cert_der (de_value_start certificate)) (\<lambda>(tbs_certificate, _).
     if de_tag tbs_certificate \<noteq> TAG_SEQUENCE \<or> de_end tbs_certificate > de_end certificate then malformed
     else Inr tbs_certificate))"

text \<open>The version and the fields both walks skip, and the element \<open>extract_spki_der\<close> ends on.\<close>

definition skip_fields :: "bytes \<Rightarrow> nat \<Rightarrow> nat \<Rightarrow> nat \<Rightarrow> nat dane_result" where
  "skip_fields data n cursor limit =
     and_then (skip_optional data TAG_EXPLICIT_VERSION cursor limit) (\<lambda>cursor. skip_elements data n cursor limit)"

definition read_spki :: "bytes \<Rightarrow> nat \<Rightarrow> nat \<Rightarrow> bytes dane_result" where
  "read_spki cert_der tbs_cursor limit =
     (if tbs_cursor \<ge> limit then Inl (Err MissingSubjectPublicKeyInfo) else
      and_then (read_der_element_with_limit cert_der tbs_cursor limit) (\<lambda>(spki, _).
      if de_tag spki \<noteq> TAG_SEQUENCE then Inl (Err MissingSubjectPublicKeyInfo)
      else index_range cert_der (de_start spki) (de_end spki)))"

definition extract_spki_der :: "bytes \<Rightarrow> bytes dane_result" where
  "extract_spki_der cert_der =
     and_then (read_tbs_certificate cert_der) (\<lambda>tbs_certificate.
     and_then (skip_fields cert_der 5 (de_value_start tbs_certificate) (de_end tbs_certificate)) (\<lambda>tbs_cursor.
     read_spki cert_der tbs_cursor (de_end tbs_certificate)))"

subsection \<open>Object identifiers\<close>

fun dec_digits :: "nat \<Rightarrow> bytes" where
  "dec_digits n = (if n < 10 then [word_of_nat (48 + n)] else dec_digits (n div 10) @ [word_of_nat (48 + n mod 10)])"

declare dec_digits.simps [simp del]

fun oid_loop :: "bytes \<Rightarrow> u32 \<Rightarrow> bool \<Rightarrow> rust_str list \<Rightarrow> rust_str list dane_result" where
  "oid_loop [] v saw_byte parts = (if saw_byte then malformed else Inr parts)"
| "oid_loop (byte # bs) v saw_byte parts =
     and_then (ok_or (Err MalformedCertificate)
       (Option.bind (checked_mul_u32 v 128) (\<lambda>v. checked_add_u32_opt v (ucast (byte AND 0x7f))))) (\<lambda>v.
     if byte AND 0x80 = 0 then oid_loop bs 0 False (parts @ [dec_digits (unat v)])
     else oid_loop bs v True parts)"

definition oid_to_string :: "bytes \<Rightarrow> rust_str dane_result" where
  "oid_to_string input =
     and_then (ok_or (Err MalformedCertificate) (get_byte input 0)) (\<lambda>first.
     and_then (oid_loop (drop 1 input) 0 False [dec_digits (unat first div 40), dec_digits (unat first mod 40)]) (\<lambda>parts.
     Inr (str_join [46] parts)))"

subsection \<open>Extensions\<close>

text \<open>One turn of the loop over the extensions: the identifier's text, the value's element and the next cursor.\<close>

definition parse_extension :: "bytes \<Rightarrow> nat \<Rightarrow> nat \<Rightarrow> (rust_str \<times> der_element \<times> nat) dane_result" where
  "parse_extension cert_der cursor limit =
     and_then (read_der_element_with_limit cert_der cursor limit) (\<lambda>(extension, cursor).
     if de_tag extension \<noteq> TAG_SEQUENCE then malformed else
     and_then (read_der_element_with_limit cert_der (de_value_start extension) (de_end extension)) (\<lambda>(oid, ext_cursor).
     if de_tag oid \<noteq> TAG_OBJECT_IDENTIFIER then malformed else
     and_then (index_range cert_der (de_value_start oid) (de_end oid)) (\<lambda>oid_bytes.
     and_then (oid_to_string oid_bytes) (\<lambda>oid_text.
     and_then (skip_optional cert_der TAG_BOOLEAN ext_cursor (de_end extension)) (\<lambda>ext_cursor.
     and_then (read_der_element_with_limit cert_der ext_cursor (de_end extension)) (\<lambda>(v, ext_cursor).
     if de_tag v \<noteq> TAG_OCTET_STRING \<or> ext_cursor \<noteq> de_end extension then malformed
     else Inr (oid_text, v, cursor)))))))"

lemma read_der_length_forward: "read_der_length data c limit = Inr (n, c') \<Longrightarrow> c < c'"
proof -
  have loop: "der_length_loop data k len c = Inr (n, c') \<Longrightarrow> c \<le> c'" for k len c
    by (induction k arbitrary: len c) (auto simp: and_then_Inr, fastforce)
  show "read_der_length data c limit = Inr (n, c') \<Longrightarrow> c < c'"
    by (auto simp: read_der_length_def and_then_Inr Let_def split: if_splits dest!: loop)
qed

lemma read_der_element_forward:
  "read_der_element_with_limit data c limit = Inr (el, c') \<Longrightarrow> c < c' \<and> c' \<le> limit"
  by (auto simp: read_der_element_with_limit_def and_then_Inr Let_def split: if_splits
      dest!: read_der_length_forward)

function extensions_loop :: "bytes \<Rightarrow> nat \<Rightarrow> nat \<Rightarrow> rust_str \<Rightarrow> bytes list \<Rightarrow> bytes list dane_result" where
  "extensions_loop cert_der cursor limit target_oid values =
     (if cursor < limit then
        and_then (parse_extension cert_der cursor limit) (\<lambda>(oid_text, v, cursor).
        and_then (if oid_text = target_oid
                  then and_then (index_range cert_der (de_value_start v) (de_end v)) (\<lambda>bs. Inr (values @ [bs]))
                  else Inr values) (\<lambda>values.
        extensions_loop cert_der cursor limit target_oid values))
      else Inr values)"
  by pat_completeness auto
termination
  by (relation "measure (\<lambda>(_, c, l, _, _). l - c)")
    (auto simp: parse_extension_def and_then_Inr split: if_splits dest!: read_der_element_forward)

definition parse_extensions_element :: "bytes \<Rightarrow> der_element \<Rightarrow> rust_str \<Rightarrow> bytes list dane_result" where
  "parse_extensions_element cert_der wrapper target_oid =
     and_then (read_der_element_with_limit cert_der (de_value_start wrapper) (de_end wrapper))
       (\<lambda>(extensions, wrapper_cursor).
     if de_tag extensions \<noteq> TAG_SEQUENCE \<or> wrapper_cursor \<noteq> de_end wrapper then malformed
     else extensions_loop cert_der (de_value_start extensions) (de_end extensions) target_oid [])"

function find_extensions :: "bytes \<Rightarrow> nat \<Rightarrow> nat \<Rightarrow> rust_str \<Rightarrow> bytes list dane_result" where
  "find_extensions cert_der tbs_cursor limit target_oid =
     (if tbs_cursor < limit then
        and_then (peek_der_tag cert_der tbs_cursor limit) (\<lambda>peeked.
        and_then (ok_or (Err MalformedCertificate) peeked) (\<lambda>tag.
        and_then (read_der_element_with_limit cert_der tbs_cursor limit) (\<lambda>(element, tbs_cursor).
        if tag = TAG_EXPLICIT_EXTENSIONS then parse_extensions_element cert_der element target_oid
        else find_extensions cert_der tbs_cursor limit target_oid)))
      else Inr [])"
  by pat_completeness auto
termination
  by (relation "measure (\<lambda>(_, c, l, _). l - c)") (auto dest!: read_der_element_forward)

declare extensions_loop.simps [simp del] find_extensions.simps [simp del]

definition certificate_extension_values :: "bytes \<Rightarrow> rust_str \<Rightarrow> bytes list dane_result" where
  "certificate_extension_values cert_der target_oid =
     and_then (read_tbs_certificate cert_der) (\<lambda>tbs_certificate.
     and_then (skip_fields cert_der 6 (de_value_start tbs_certificate) (de_end tbs_certificate)) (\<lambda>tbs_cursor.
     find_extensions cert_der tbs_cursor (de_end tbs_certificate) target_oid))"

definition cert_der_checked :: "bytes \<Rightarrow> bytes dane_result" where
  "cert_der_checked cert_der =
     and_then (read_der_element cert_der 0) (\<lambda>(certificate, cursor).
     if de_tag certificate = TAG_SEQUENCE \<and> cursor = length cert_der then Inr cert_der else malformed)"

section \<open>Lemmas\<close>

subsection \<open>Lengths\<close>

text \<open>The distinguished encoding of a length and of an element: the shortest form, and no other.\<close>

definition der_length :: "nat \<Rightarrow> bytes" where
  "der_length n =
     (if n < 128 then [word_of_nat n] else word_of_nat (128 + byte_len n) # be_bytes (byte_len n) n)"

definition tlv :: "u8 \<Rightarrow> bytes \<Rightarrow> bytes" where
  "tlv tag content = tag # der_length (length content) @ content"

lemma index_byte_simps [simp]:
  "index_byte data i = Inr b \<longleftrightarrow> i < length data \<and> b = data ! i"
  "index_byte data i = Inl e \<longleftrightarrow> length data \<le> i \<and> e = Panic"
  by (auto simp: index_byte_def)

lemma index_range_simps [simp]:
  "index_range data a b = Inr bs \<longleftrightarrow> a \<le> b \<and> b \<le> length data \<and> bs = slice data a b"
  "index_range data a b = Inl e \<longleftrightarrow> \<not> (a \<le> b \<and> b \<le> length data) \<and> e = Panic"
  by (auto simp: index_range_def)

lemma beyond_iff: "beyond c n limit \<longleftrightarrow> \<not> (c + n < usize_limit \<and> c + n \<le> limit)"
  by (auto simp: beyond_def split: option.splits)

lemma slice_Cons: "\<lbrakk>a < b; a < length xs\<rbrakk> \<Longrightarrow> slice xs a b = xs ! a # slice xs (Suc a) b"
  by (simp add: slice_def Cons_nth_drop_Suc [symmetric] Suc_diff_Suc [symmetric] del: Suc_diff_Suc)

lemma slice_same [simp]: "slice xs a a = []"
  by (simp add: slice_def)

lemma slice_after: "slice xs a b = p @ q \<Longrightarrow> slice xs (a + length p) b = q"
proof -
  assume s: "slice xs a b = p @ q"
  have "slice xs (a + length p) b = drop (length p) (slice xs a b)"
    by (simp add: slice_def drop_take add.commute diff_diff_eq)
  with s show ?thesis by simp
qed

lemma slice_before: "slice xs a b = p @ q \<Longrightarrow> slice xs a (a + length p) = p"
proof -
  assume s: "slice xs a b = p @ q"
  then have "length p \<le> b - a" by (metis length_append length_slice min.bounded_iff le_add1)
  then have "slice xs a (a + length p) = take (length p) (slice xs a b)"
    by (simp add: slice_def min_def)
  with s show ?thesis by simp
qed

lemma slice_fits: "\<lbrakk>slice xs a b = p @ q; a \<le> b\<rbrakk> \<Longrightarrow> a + length p \<le> b"
  by (metis le_add1 le_diff_conv2 le_trans length_append length_slice min.bounded_iff add.commute)

lemma der_length_loop_exact:
  assumes "c + k \<le> length data" "(acc + 1) * 256 ^ k \<le> usize_limit"
  shows "der_length_loop data k acc c = Inr (acc * 256 ^ k + be_nat (slice data c (c + k)), c + k)"
  using assms
proof (induction k arbitrary: acc c)
  case 0
  then show ?case by (simp add: be_nat_def)
next
  case (Suc k)
  have b: "unat (data ! c) \<le> 255" using unat_u8_less [of "data ! c"] by linarith
  have "(acc + 1) * 256 \<le> (acc + 1) * 256 ^ Suc k"
    by (intro mult_le_mono2) (simp add: Suc_leI)
  from le_trans [OF this Suc.prems(2)] have lim: "acc * 256 + 256 \<le> usize_limit" by simp
  have step: "(acc * 256 + unat (data ! c) + 1) * 256 ^ k \<le> (acc * 256 + 256) * 256 ^ k"
    using b by (intro mult_le_mono1) simp
  also have "\<dots> = (acc + 1) * 256 ^ Suc k" by (simp add: algebra_simps)
  also have "\<dots> \<le> usize_limit" by (rule Suc.prems(2))
  finally have le: "(acc * 256 + unat (data ! c) + 1) * 256 ^ k \<le> usize_limit" .
  have c: "c < length data" using Suc.prems by simp
  have mul: "checked_mul_usize acc 256 = Some (acc * 256)"
    using lim by (simp add: checked_mul_usize_def)
  have add: "checked_add_usize (acc * 256) (unat (data ! c)) = Some (acc * 256 + unat (data ! c))"
    using lim b by simp
  have ix: "index_byte data c = Inr (data ! c)" using c by simp
  have "be_nat (slice data c (c + Suc k)) = unat (data ! c) * 256 ^ k + be_nat (slice data (c + 1) (c + 1 + k))"
    using Suc.prems(1) by (simp add: slice_Cons be_nat_Cons)
  then show ?case
    using Suc.IH [OF _ le, of "c + 1"] Suc.prems(1) by (simp add: mul add ix algebra_simps)
qed

lemma high_bit: "(b :: u8) AND 0x80 = 0 \<longleftrightarrow> unat b < 128"
proof -
  have "unat b \<le> 255" using unat_u8_less [of b] by linarith
  then have "even (unat b div 128) \<longleftrightarrow> unat b < 128"
  proof (cases "unat b < 128")
    case False
    then have "unat b div 128 = 1" using \<open>unat b \<le> 255\<close> by (intro div_nat_eqI) auto
    then show ?thesis using False by simp
  qed simp
  then show ?thesis using and_exp_zero [of b 7] by simp
qed

lemma low_bits: "unat ((b :: u8) AND 0x7f) = unat b mod 128"
  using and_mask_mod [of b 7] by (simp add: mask_eq_exp_minus_1)

lemma leading_byte:
  assumes "bs \<noteq> []" "bs ! 0 \<noteq> 0"
  shows "byte_len (be_nat bs) = length bs"
proof -
  obtain b r where bs: "bs = b # r" using assms(1) by (cases bs) auto
  have "unat b \<ge> 1" using assms(2) bs by (metis One_nat_def Suc_leI nth_Cons_0 unat_gt_0)
  then have "1 * 256 ^ length r \<le> unat b * 256 ^ length r" by (rule mult_le_mono1)
  then have lower: "256 ^ (length bs - 1) \<le> be_nat bs"
  proof -
    have "length bs - 1 = length r" using bs by simp
    moreover have "256 ^ length r \<le> be_nat bs"
      using \<open>1 * 256 ^ length r \<le> unat b * 256 ^ length r\<close> unfolding bs be_nat_Cons by linarith
    ultimately show ?thesis by simp
  qed
  have "byte_len (be_nat bs) \<le> length bs" by (rule byte_len_le [OF be_nat_less])
  moreover have "length bs - 1 < byte_len (be_nat bs)"
  proof (rule ccontr)
    assume "\<not> ?thesis"
    then have "(256 :: nat) ^ byte_len (be_nat bs) \<le> 256 ^ (length bs - 1)" by (intro power_increasing) auto
    with lower byte_len_upper [of "be_nat bs"] show False by linarith
  qed
  ultimately show ?thesis using bs by simp
qed

lemma leading_byte_nonzero:
  assumes "n \<noteq> 0"
  shows "be_bytes (byte_len n) n ! 0 \<noteq> 0"
proof
  assume z: "be_bytes (byte_len n) n ! 0 = 0"
  obtain k where k: "byte_len n = Suc k" using byte_len_pos [OF assms] by (cases "byte_len n") auto
  then obtain b r where bs: "be_bytes (byte_len n) n = b # r" "length r = k"
    by (metis Suc_length_conv length_be_bytes)
  have "n = be_nat (be_bytes (byte_len n) n)" using byte_len_upper [of n] by (simp add: be_nat_be_bytes)
  also have "\<dots> < 256 ^ k" using z bs be_nat_less [of r] by (simp add: be_nat_Cons)
  finally show False using byte_len_lower [OF assms] k by simp
qed

lemma length_der_length: "length (der_length n) = (if n < 128 then 1 else 1 + byte_len n)"
  by (simp add: der_length_def)

lemma byte_len_usize: "n < usize_limit \<Longrightarrow> byte_len n \<le> 8"
  by (rule byte_len_le) simp

lemma long_form_byte:
  assumes "k \<le> 8"
  shows "unat (word_of_nat (128 + k) :: u8) = 128 + k"
proof -
  have "unat (word_of_nat (128 + k) :: u8) = (128 + k) mod 256" by (simp only: unat_of_nat) simp
  with assms show ?thesis by simp
qed

lemma read_der_length_closed:
  fixes data :: bytes
  assumes "c < length data" "limit \<le> length data" "length data < usize_limit div 2"
  defines "k \<equiv> unat (data ! c) - 128"
  shows "read_der_length data c limit =
    (if unat (data ! c) < 128 then Inr (unat (data ! c), c + 1)
     else if 0 < k \<and> k \<le> 8 \<and> c + 1 + k \<le> limit \<and> data ! (c + 1) \<noteq> 0 \<and>
             128 \<le> be_nat (slice data (c + 1) (c + 1 + k))
       then Inr (be_nat (slice data (c + 1) (c + 1 + k)), c + 1 + k) else malformed)"
proof (cases "unat (data ! c) < 128")
  case True
  with assms show ?thesis by (simp add: read_der_length_def high_bit get_byte_def)
next
  case False
  have "unat (data ! c) \<le> 255" using unat_u8_less [of "data ! c"] by linarith
  then have "unat (data ! c) mod 128 = k"
    using False mod_nat_eqI [of k 128 "unat (data ! c)"] by (simp add: k_def)
  then have read: "read_der_length data c limit =
      (if k = 0 \<or> k > 8 then malformed else if beyond (c + 1) k limit then malformed
       else and_then (index_byte data (c + 1)) (\<lambda>b. if b = 0 then malformed else
         and_then (der_length_loop data k 0 (c + 1)) (\<lambda>(len, cursor).
           if len < 128 then malformed else Inr (len, cursor))))"
    using False assms(1) by (simp add: read_der_length_def high_bit low_bits get_byte_def cong: if_cong)
  show ?thesis
  proof (cases "0 < k \<and> k \<le> 8 \<and> c + 1 + k \<le> limit")
    case True
    then have fits: "c + 1 + k \<le> length data" using assms(2) by linarith
    have small: "\<not> beyond (c + 1) k limit" using True assms(2,3) by (auto simp: beyond_iff)
    have "(256 :: nat) ^ k \<le> 256 ^ 8" using True by (intro power_increasing) auto
    then have "(0 + 1) * 256 ^ k \<le> usize_limit" by simp
    from der_length_loop_exact [OF fits this]
    have loop: "der_length_loop data k 0 (Suc c) = Inr (be_nat (slice data (Suc c) (Suc (c + k))), Suc (c + k))" by simp
    have ix: "index_byte data (Suc c) = Inr (data ! Suc c)" using fits True by simp
    show ?thesis using True False small by (simp add: read loop ix cong: if_cong)
  next
    case no: False
    then have "k = 0 \<or> k > 8 \<or> beyond (c + 1) k limit" by (auto simp: beyond_iff)
    then show ?thesis using no False by (auto simp: read)
  qed
qed

lemma der_length_slice:
  assumes "c < length data" "n < usize_limit" "slice data c (c + length (der_length n)) = der_length n"
  shows "if n < 128 then unat (data ! c) = n
    else unat (data ! c) = 128 + byte_len n \<and> slice data (c + 1) (c + 1 + byte_len n) = be_bytes (byte_len n) n"
proof (cases "n < 128")
  case True
  then have "[data ! c] = [word_of_nat n]"
    using assms(1,3) slice_Cons [of c "Suc c" data] by (simp add: der_length_def)
  then show ?thesis using True by (simp add: unat_of_nat)
next
  case False
  then have "data ! c # slice data (c + 1) (c + 1 + byte_len n) = word_of_nat (128 + byte_len n) # be_bytes (byte_len n) n"
    using assms(1,3) slice_Cons [of c "c + 1 + byte_len n" data] by (simp add: der_length_def)
  then show ?thesis using False long_form_byte [OF byte_len_usize [OF assms(2)]] by auto
qed

lemma read_der_length_iff:
  assumes "c < length data" "limit \<le> length data" "length data < usize_limit div 2"
  shows "read_der_length data c limit = Inr (n, c') \<longleftrightarrow>
    n < usize_limit \<and> c' = c + length (der_length n) \<and> (n < 128 \<or> c' \<le> limit) \<and> slice data c c' = der_length n"
    (is "?read \<longleftrightarrow> ?spec")
proof
  assume ?read
  show ?spec
  proof (cases "unat (data ! c) < 128")
    case True
    with \<open>?read\<close> have "n = unat (data ! c)" "c' = c + 1" by (simp_all add: read_der_length_closed [OF assms])
    then show ?thesis using True assms(1) slice_Cons [of c "Suc c" data] by (simp add: der_length_def)
  next
    case False
    define k where "k = unat (data ! c) - 128"
    have r: "0 < k" "k \<le> 8" "c + 1 + k \<le> limit" "data ! (c + 1) \<noteq> 0" "128 \<le> n"
      "n = be_nat (slice data (c + 1) (c + 1 + k))" "c' = c + 1 + k"
      using \<open>?read\<close> False by (auto simp: read_der_length_closed [OF assms, folded k_def] split: if_splits)
    define bs where "bs = slice data (c + 1) (c + 1 + k)"
    have bs: "length bs = k" "bs ! 0 \<noteq> 0" "bs \<noteq> []" "n = be_nat bs"
      using r assms(2) by (auto simp: bs_def simp flip: length_0_conv)
    have k: "byte_len n = k" using leading_byte [OF bs(3,2)] bs by simp
    have "n < 256 ^ k" using be_nat_less [of bs] bs by simp
    also have "(256 :: nat) ^ k \<le> 256 ^ 8" using r by (intro power_increasing) auto
    finally have n: "n < usize_limit" by simp
    have "word_of_nat (128 + k) = data ! c" using False by (simp add: k_def)
    then have "slice data c c' = der_length n"
      using r k bs assms(1) slice_Cons [of c c' data] be_bytes_be_nat [of bs] by (simp add: der_length_def bs_def)
    then show ?thesis using r k n by (simp add: length_der_length)
  qed
next
  assume s: ?spec
  then have "slice data c (c + length (der_length n)) = der_length n" "n < usize_limit" by auto
  from der_length_slice [OF assms(1) this(2,1)]
  have l: "if n < 128 then unat (data ! c) = n
    else unat (data ! c) = 128 + byte_len n \<and> slice data (c + 1) (c + 1 + byte_len n) = be_bytes (byte_len n) n" .
  show ?read
  proof (cases "n < 128")
    case True
    then show ?thesis using l s by (simp add: read_der_length_closed [OF assms] length_der_length)
  next
    case False
    then have f: "unat (data ! c) = 128 + byte_len n" "slice data (c + 1) (c + 1 + byte_len n) = be_bytes (byte_len n) n"
      "c' = c + 1 + byte_len n" "c' \<le> limit"
      using l s by (simp_all add: length_der_length)
    have pos: "0 < byte_len n" "byte_len n \<le> 8" using False s byte_len_pos [of n] byte_len_usize [of n] by simp_all
    have "data ! (c + 1) = be_bytes (byte_len n) n ! 0"
      using f(3,4) pos assms(2) slice_nth [of 0 "c + 1 + byte_len n" "c + 1" data, unfolded f(2)] by simp
    then have "data ! (c + 1) \<noteq> 0" using leading_byte_nonzero [of n] False by simp
    moreover have "be_nat (be_bytes (byte_len n) n) = n"
      using byte_len_upper [of n] by (simp add: be_nat_be_bytes)
    ultimately show ?thesis using f pos False by (simp add: read_der_length_closed [OF assms])
  qed
qed

lemma read_der_length_error:
  assumes "c < length data" "limit \<le> length data" "length data < usize_limit div 2"
  shows "read_der_length data c limit = Inl e \<Longrightarrow> e = Err MalformedCertificate"
  by (auto simp: read_der_length_closed [OF assms] split: if_splits)

subsection \<open>Elements\<close>

definition element_at :: "nat \<Rightarrow> u8 \<Rightarrow> bytes \<Rightarrow> der_element" where
  "element_at c t v =
     \<lparr>de_tag = t, de_start = c, de_value_start = c + 1 + length (der_length (length v)), de_end = c + length (tlv t v)\<rparr>"

lemma element_at_simps [simp]:
  "de_tag (element_at c t v) = t" "de_start (element_at c t v) = c"
  "de_value_start (element_at c t v) = c + 1 + length (der_length (length v))"
  "de_end (element_at c t v) = c + length (tlv t v)"
  by (simp_all add: element_at_def)

lemma length_tlv: "length (tlv t v) = 1 + length (der_length (length v)) + length v"
  by (simp add: tlv_def)

lemma tlv_not_Nil [simp]: "tlv t v \<noteq> []" "hd (tlv t v) = t"
  by (simp_all add: tlv_def)

lemma read_element_at:
  assumes "slice data c limit = tlv t v @ r" "limit \<le> length data" "length data < usize_limit div 2" "c \<le> limit"
  shows "read_der_element_with_limit data c limit = Inr (element_at c t v, c + length (tlv t v))"
proof -
  define n where "n = length v"
  have sl: "slice data c limit = [t] @ der_length n @ v @ r" using assms(1) by (simp add: tlv_def n_def)
  have pos: "0 < length (der_length n)" by (simp add: length_der_length)
  have fits: "c + length (tlv t v) \<le> limit" using slice_fits [OF assms(1,4)] .
  then have c: "c + 1 + length (der_length n) + n \<le> limit" by (simp add: length_tlv n_def)
  then have lt: "c < limit" "c < length data" "c + 1 < length data" using pos assms(2) by linarith+
  have t: "data ! c = t" using sl lt slice_Cons [of c limit data] by simp
  have "slice data (c + 1) limit = der_length n @ v @ r" using slice_after [OF sl] by simp
  then have "slice data (c + 1) (c + 1 + length (der_length n)) = der_length n" by (rule slice_before)
  moreover have "n < usize_limit" using c assms(2,3) by linarith
  ultimately have len: "read_der_length data (c + 1) limit = Inr (n, c + 1 + length (der_length n))"
    using read_der_length_iff [OF lt(3) assms(2,3)] c by simp
  have "c + 2 \<le> limit" using c pos by linarith
  then have b: "\<not> beyond c 2 limit" using assms(2,3) by (simp add: beyond_iff)
  have ix: "index_byte data c = Inr t" using lt t by simp
  have "c + 1 + length (der_length n) + n < usize_limit" using c assms(2,3) by linarith
  then show ?thesis
    using b c by (simp add: read_der_element_with_limit_def ix len [simplified] checked_add_usize_def element_at_def
        length_tlv n_def)
qed

lemma read_element_iff:
  assumes "limit \<le> length data" "length data < usize_limit div 2" "c \<le> limit"
  shows "read_der_element_with_limit data c limit = Inr (el, c') \<longleftrightarrow>
    (\<exists>t v r. slice data c limit = tlv t v @ r \<and> el = element_at c t v \<and> c' = c + length (tlv t v))"
proof
  assume r: "read_der_element_with_limit data c limit = Inr (el, c')"
  then obtain n vs where b: "\<not> beyond c 2 limit" and len: "read_der_length data (c + 1) limit = Inr (n, vs)"
    and fin: "vs + n \<le> limit" "c' = vs + n"
    and el: "el = \<lparr>de_tag = data ! c, de_start = c, de_value_start = vs, de_end = vs + n\<rparr>"
    by (auto simp: read_der_element_with_limit_def and_then_Inr Let_def split: if_splits)
  have lt: "c < limit" "c < length data" "c + 1 < length data" using b assms(1) by (auto simp: beyond_iff)
  have l: "vs = c + 1 + length (der_length n)" "slice data (c + 1) vs = der_length n"
    using len read_der_length_iff [OF lt(3) assms(1,2)] by auto
  define v where "v = slice data vs (vs + n)"
  have v: "length v = n" using fin assms(1) by (simp add: v_def)
  have "slice data c limit = data ! c # slice data (c + 1) limit" using lt slice_Cons [of c limit data] by simp
  also have "slice data (c + 1) limit = slice data (c + 1) vs @ slice data vs limit"
    using l fin by (intro slice_split) auto
  also have "slice data vs limit = v @ slice data (vs + n) limit"
    using fin unfolding v_def by (intro slice_split) auto
  finally have "slice data c limit = tlv (data ! c) v @ slice data (vs + n) limit"
    using l v by (simp add: tlv_def)
  moreover have "el = element_at c (data ! c) v" "c' = c + length (tlv (data ! c) v)"
    using el fin l v by (simp_all add: element_at_def length_tlv)
  ultimately show "\<exists>t v r. slice data c limit = tlv t v @ r \<and> el = element_at c t v \<and> c' = c + length (tlv t v)"
    by blast
qed (use read_element_at [OF _ assms] in blast)

lemma read_element_error:
  assumes "limit \<le> length data" "length data < usize_limit div 2"
  shows "read_der_element_with_limit data c limit = Inl e \<Longrightarrow> e = Err MalformedCertificate"
  using read_der_length_error [OF _ assms, of "c + 1"] assms
  by (auto simp: read_der_element_with_limit_def and_then_Inl Let_def beyond_iff split: if_splits)

subsection \<open>Walking a certificate\<close>

text \<open>
  Data short enough that no offset can wrap, and a cursor below a limit inside it: the state every reader
  is called in.
\<close>

definition window :: "bytes \<Rightarrow> nat \<Rightarrow> nat \<Rightarrow> bool" where
  "window data c limit \<longleftrightarrow> c \<le> limit \<and> limit \<le> length data \<and> length data < usize_limit div 2"

lemma window_after: "\<lbrakk>window data c limit; slice data c limit = x @ r\<rbrakk> \<Longrightarrow>
    window data (c + length x) limit \<and> slice data (c + length x) limit = r"
  using slice_after [of data c limit x r] slice_fits [of data c limit x r] by (auto simp: window_def)

lemma window_content:
  assumes "window data c limit" "slice data c limit = tlv t v @ r"
  shows "window data (c + 1 + length (der_length (length v))) (c + length (tlv t v))"
    "slice data (c + 1 + length (der_length (length v))) (c + length (tlv t v)) = v"
    "c + length (tlv t v) \<le> limit"
proof -
  have sl: "slice data c limit = (t # der_length (length v)) @ v @ r" using assms(2) by (simp add: tlv_def)
  from slice_before [OF slice_after [OF sl]]
  show "slice data (c + 1 + length (der_length (length v))) (c + length (tlv t v)) = v"
    by (simp add: length_tlv add.assoc)
  show fits: "c + length (tlv t v) \<le> limit" using slice_fits [OF assms(2)] assms(1) by (simp add: window_def)
  then show "window data (c + 1 + length (der_length (length v))) (c + length (tlv t v))"
    using assms(1) by (simp add: window_def length_tlv)
qed

lemma window_element: "window data c limit \<Longrightarrow> slice data c limit = x @ r \<Longrightarrow> slice data c (c + length x) = x"
  by (rule slice_before)

lemma read_element_window:
  "window data c limit \<Longrightarrow> read_der_element_with_limit data c limit = Inr (el, c') \<longleftrightarrow>
    (\<exists>t v r. slice data c limit = tlv t v @ r \<and> el = element_at c t v \<and> c' = c + length (tlv t v))"
  unfolding window_def by (intro read_element_iff) auto

lemma read_element_window_error:
  "window data c limit \<Longrightarrow> read_der_element_with_limit data c limit = Inl e \<Longrightarrow> e = Err MalformedCertificate"
  using read_element_error [of limit data] by (simp add: window_def)

lemma skip_element_window:
  "window data c limit \<Longrightarrow> skip_der_element data c limit = Inr c' \<longleftrightarrow>
    (\<exists>t v r. slice data c limit = tlv t v @ r \<and> c' = c + length (tlv t v))"
  by (auto simp: skip_der_element_def and_then_Inr read_element_window)

lemma skip_element_error:
  "window data c limit \<Longrightarrow> skip_der_element data c limit = Inl e \<Longrightarrow> e = Err MalformedCertificate"
  by (auto simp: skip_der_element_def and_then_Inl dest: read_element_window_error)

definition is_element :: "bytes \<Rightarrow> bool" where
  "is_element x \<longleftrightarrow> (\<exists>t v. x = tlv t v)"

lemma skip_elements_window:
  "window data c limit \<Longrightarrow> skip_elements data n c limit = Inr c' \<longleftrightarrow>
    (\<exists>fs r. length fs = n \<and> (\<forall>f \<in> set fs. is_element f) \<and> slice data c limit = concat fs @ r \<and> c' = c + length (concat fs))"
proof (induction n arbitrary: c)
  case 0
  then show ?case by auto
next
  case (Suc n)
  have "skip_elements data (Suc n) c limit = Inr c' \<longleftrightarrow>
      (\<exists>t v r. slice data c limit = tlv t v @ r \<and> skip_elements data n (c + length (tlv t v)) limit = Inr c')"
    using Suc.prems by (auto simp: and_then_Inr skip_element_window)
  also have "\<dots> \<longleftrightarrow> (\<exists>t v fs r. slice data c limit = tlv t v @ concat fs @ r \<and> length fs = n \<and>
      (\<forall>f \<in> set fs. is_element f) \<and> c' = c + length (tlv t v) + length (concat fs))" (is "?l \<longleftrightarrow> ?r")
  proof
    assume ?l
    then obtain t v r where s: "slice data c limit = tlv t v @ r"
      "skip_elements data n (c + length (tlv t v)) limit = Inr c'" by blast
    note w = window_after [OF Suc.prems s(1)]
    from iffD1 [OF Suc.IH [OF conjunct1 [OF w]] s(2)] obtain fs r' where "length fs = n" "\<forall>f \<in> set fs. is_element f"
      "r = concat fs @ r'" "c' = c + length (tlv t v) + length (concat fs)" using w by auto
    with s(1) show ?r by blast
  next
    assume ?r
    then obtain t v fs r where s: "slice data c limit = tlv t v @ concat fs @ r" "length fs = n"
      "\<forall>f \<in> set fs. is_element f" "c' = c + length (tlv t v) + length (concat fs)" by blast
    note w = window_after [OF Suc.prems s(1)]
    have "skip_elements data n (c + length (tlv t v)) limit = Inr c'"
      using iffD2 [OF Suc.IH [OF conjunct1 [OF w]]] s w by blast
    with s(1) show ?l by blast
  qed
  also have "\<dots> \<longleftrightarrow> (\<exists>fs r. length fs = Suc n \<and> (\<forall>f \<in> set fs. is_element f) \<and>
      slice data c limit = concat fs @ r \<and> c' = c + length (concat fs))" (is "?l \<longleftrightarrow> ?r")
  proof
    assume ?l
    then obtain t v fs r where s: "slice data c limit = tlv t v @ concat fs @ r" "length fs = n"
      "\<forall>f \<in> set fs. is_element f" "c' = c + length (tlv t v) + length (concat fs)" by blast
    then show ?r by (intro exI [of _ "tlv t v # fs"] exI [of _ r]) (auto simp: is_element_def)
  next
    assume ?r
    then obtain f fs r where "length fs = n" "is_element f" "\<forall>f \<in> set fs. is_element f"
      "slice data c limit = f @ concat fs @ r" "c' = c + length f + length (concat fs)"
      by (auto simp: length_Suc_conv)
    then show ?l unfolding is_element_def by blast
  qed
  finally show ?case .
qed

lemma skip_elements_error:
  "window data c limit \<Longrightarrow> skip_elements data n c limit = Inl e \<Longrightarrow> e = Err MalformedCertificate"
proof (induction n arbitrary: c)
  case (Suc n)
  then consider "skip_der_element data c limit = Inl e"
    | d where "skip_der_element data c limit = Inr d" "skip_elements data n d limit = Inl e"
    by (auto simp: and_then_Inl)
  then show ?case
  proof cases
    case 2
    then obtain t v r where "slice data c limit = tlv t v @ r" "d = c + length (tlv t v)"
      using Suc.prems(1) by (auto simp: skip_element_window)
    with window_after [OF Suc.prems(1)] Suc.IH 2 show ?thesis by blast
  qed (use skip_element_error [OF Suc.prems(1)] in blast)
qed simp

definition optional_element :: "u8 \<Rightarrow> bytes \<Rightarrow> bytes \<Rightarrow> bool" where
  "optional_element tag x r \<longleftrightarrow> x = [] \<and> (r = [] \<or> hd r \<noteq> tag) \<or> (\<exists>v. x = tlv tag v)"

lemma peek_window:
  assumes "window data c limit"
  shows "peek_der_tag data c limit = Inr (case slice data c limit of [] \<Rightarrow> None | t # _ \<Rightarrow> Some t)"
proof (cases "c = limit")
  case False
  with assms have "c < limit" "c < length data" by (auto simp: window_def)
  then show ?thesis by (simp add: peek_der_tag_def slice_Cons index_byte_def get_byte_def)
qed (simp add: peek_der_tag_def)

lemma skip_optional_window:
  assumes "window data c limit"
  shows "skip_optional data tag c limit = Inr c' \<longleftrightarrow>
    (\<exists>x r. slice data c limit = x @ r \<and> optional_element tag x r \<and> c' = c + length x)"
proof (cases "slice data c limit \<noteq> [] \<and> hd (slice data c limit) = tag")
  case True
  then obtain r where r: "slice data c limit = tag # r" by (cases "slice data c limit") auto
  have "skip_optional data tag c limit = skip_der_element data c limit"
    using r by (simp add: skip_optional_def peek_window [OF assms])
  then have "skip_optional data tag c limit = Inr c' \<longleftrightarrow>
      (\<exists>t v r. slice data c limit = tlv t v @ r \<and> c' = c + length (tlv t v))"
    using skip_element_window [OF assms] by simp
  also have "\<dots> \<longleftrightarrow> (\<exists>v r. slice data c limit = tlv tag v @ r \<and> c' = c + length (tlv tag v))"
    using r by (auto simp: tlv_def)
  also have "\<dots> \<longleftrightarrow> (\<exists>x r. slice data c limit = x @ r \<and> optional_element tag x r \<and> c' = c + length x)"
    using True by (auto simp: optional_element_def)
  finally show ?thesis .
next
  case False
  then have "skip_optional data tag c limit = Inr c"
    by (auto simp: skip_optional_def peek_window [OF assms] split: list.splits)
  then have "skip_optional data tag c limit = Inr c' \<longleftrightarrow> c' = c" by auto
  moreover have "optional_element tag [] (slice data c limit)" using False by (auto simp: optional_element_def)
  moreover have "x = []" if "slice data c limit = x @ r" "optional_element tag x r" for x r
    using that False by (auto simp: optional_element_def)
  ultimately show ?thesis by (metis append_Nil list.size(3) add_0_right)
qed

lemma skip_optional_error:
  "window data c limit \<Longrightarrow> skip_optional data tag c limit = Inl e \<Longrightarrow> e = Err MalformedCertificate"
  by (auto simp: skip_optional_def peek_window and_then_Inl dest: skip_element_error split: if_splits)

lemma read_tbs_iff:
  assumes "length cert < usize_limit div 2"
  shows "read_tbs_certificate cert = Inr el \<longleftrightarrow>
    (\<exists>body sigs. cert = tlv TAG_SEQUENCE (tlv TAG_SEQUENCE body @ sigs) \<and>
       el = element_at (1 + length (der_length (length (tlv TAG_SEQUENCE body @ sigs)))) TAG_SEQUENCE body)"
    (is "_ \<longleftrightarrow> ?spec")
proof -
  have w: "window cert 0 (length cert)" using assms by (simp add: window_def)
  have outer: "read_der_element cert 0 = Inr (certificate, c) \<and> c = length cert \<longleftrightarrow>
      (\<exists>t v. cert = tlv t v \<and> certificate = element_at 0 t v \<and> c = length cert)" for certificate c
  proof -
    have "read_der_element cert 0 = Inr (certificate, c) \<longleftrightarrow>
        (\<exists>t v r. cert = tlv t v @ r \<and> certificate = element_at 0 t v \<and> c = length (tlv t v))"
      unfolding read_der_element_def read_element_window [OF w] by simp
    moreover have "cert = tlv t v @ r \<and> length (tlv t v) = length cert \<longleftrightarrow> cert = tlv t v \<and> r = []" for t v r
      by auto
    ultimately show ?thesis by metis
  qed
  have inner: "read_der_element cert (1 + length (der_length (length v))) = Inr (tbs, c) \<longleftrightarrow>
      (\<exists>t b r. v = tlv t b @ r \<and> tbs = element_at (1 + length (der_length (length v))) t b \<and>
         c = 1 + length (der_length (length v)) + length (tlv t b))" if "cert = tlv s v" for s v tbs c
    using window_content [OF w, of s v "[]"] read_element_window [of cert "1 + length (der_length (length v))" "length cert" tbs c] that
    by (simp add: read_der_element_def)
  have fits: "1 + length (der_length (length (tlv t b @ r))) + length (tlv t b) \<le> length (tlv s (tlv t b @ r))" for s t b r
    by (simp add: length_tlv [of s])
  have "read_tbs_certificate cert = Inr el \<longleftrightarrow>
      (\<exists>certificate c. (read_der_element cert 0 = Inr (certificate, c) \<and> c = length cert) \<and>
         de_tag certificate = TAG_SEQUENCE \<and> (\<exists>d. read_der_element cert (de_value_start certificate) = Inr (el, d)) \<and>
         de_tag el = TAG_SEQUENCE \<and> de_end el \<le> de_end certificate)"
    by (auto simp: read_tbs_certificate_def and_then_Inr not_less split: if_splits)
  also have "\<dots> \<longleftrightarrow>
      (\<exists>v. cert = tlv TAG_SEQUENCE v \<and> (\<exists>c. read_der_element cert (1 + length (der_length (length v))) = Inr (el, c)) \<and>
         de_tag el = TAG_SEQUENCE \<and> de_end el \<le> length cert)" (is "_ \<longleftrightarrow> ?inner")
    unfolding outer
  proof
    assume ?inner
    then obtain v where "cert = tlv TAG_SEQUENCE v"
      "\<exists>c. read_der_element cert (1 + length (der_length (length v))) = Inr (el, c)"
      "de_tag el = TAG_SEQUENCE" "de_end el \<le> length cert" by blast
    then show "\<exists>certificate c. (\<exists>t v. cert = tlv t v \<and> certificate = element_at 0 t v \<and> c = length cert) \<and>
        de_tag certificate = TAG_SEQUENCE \<and> (\<exists>d. read_der_element cert (de_value_start certificate) = Inr (el, d)) \<and>
        de_tag el = TAG_SEQUENCE \<and> de_end el \<le> de_end certificate"
      by (intro exI [of _ "element_at 0 TAG_SEQUENCE v"] exI [of _ "length cert"]) auto
  qed auto
  also have "?inner \<longleftrightarrow> ?spec"
  proof
    assume ?inner
    then obtain v c where v: "cert = tlv TAG_SEQUENCE v"
      "read_der_element cert (1 + length (der_length (length v))) = Inr (el, c)" "de_tag el = TAG_SEQUENCE" by blast
    from iffD1 [OF inner [OF v(1)] v(2)] obtain t b r where "v = tlv t b @ r"
      "el = element_at (1 + length (der_length (length v))) t b" by blast
    with v show ?spec by auto
  next
    assume ?spec
    then obtain b r where c: "cert = tlv TAG_SEQUENCE (tlv TAG_SEQUENCE b @ r)"
      and el: "el = element_at (1 + length (der_length (length (tlv TAG_SEQUENCE b @ r)))) TAG_SEQUENCE b" by blast
    have "\<exists>d. read_der_element cert (1 + length (der_length (length (tlv TAG_SEQUENCE b @ r)))) = Inr (el, d)"
      using inner [OF c] el by blast
    moreover have "de_end el \<le> length cert" "de_tag el = TAG_SEQUENCE"
      using fits [of TAG_SEQUENCE b r TAG_SEQUENCE] c el by simp_all
    ultimately show ?inner using c by blast
  qed
  finally show ?thesis .
qed

lemma read_tbs_error:
  assumes "length cert < usize_limit div 2"
  shows "read_tbs_certificate cert = Inl e \<Longrightarrow> e = Err MalformedCertificate"
  using read_element_error [OF order_refl assms]
  by (auto simp: read_tbs_certificate_def read_der_element_def and_then_Inl split: if_splits)

text \<open>The signed part of a certificate, as far as the walk goes: version, \<open>n\<close> fields, the rest.\<close>

definition tbs_fields :: "nat \<Rightarrow> bytes \<Rightarrow> bytes \<Rightarrow> bytes list \<Rightarrow> bytes \<Rightarrow> bool" where
  "tbs_fields n body version fs r \<longleftrightarrow>
     body = version @ concat fs @ r \<and> optional_element TAG_EXPLICIT_VERSION version (concat fs @ r) \<and>
     length fs = n \<and> (\<forall>f \<in> set fs. is_element f)"

lemma skip_fields_window:
  assumes "window data c limit"
  shows "skip_fields data n c limit = Inr c' \<longleftrightarrow>
    (\<exists>version fs r. tbs_fields n (slice data c limit) version fs r \<and>
       c' = c + length version + length (concat fs) \<and> window data c' limit \<and> slice data c' limit = r)"
    (is "?l \<longleftrightarrow> ?r")
proof
  assume ?l
  then obtain d where d: "skip_optional data TAG_EXPLICIT_VERSION c limit = Inr d" "skip_elements data n d limit = Inr c'"
    by (auto simp: skip_fields_def and_then_Inr)
  then obtain version r where v: "slice data c limit = version @ r" "optional_element TAG_EXPLICIT_VERSION version r"
    "d = c + length version" using skip_optional_window [OF assms] by blast
  note w = window_after [OF assms v(1)]
  then obtain fs r' where f: "length fs = n" "\<forall>f \<in> set fs. is_element f" "r = concat fs @ r'"
    "c' = d + length (concat fs)" using d(2) v(3) skip_elements_window [of data d limit n c'] by auto
  with w window_after [of data d limit "concat fs" r'] v show ?r by (auto simp: tbs_fields_def)
next
  assume ?r
  then obtain version fs r where s: "slice data c limit = version @ concat fs @ r"
    "optional_element TAG_EXPLICIT_VERSION version (concat fs @ r)" "length fs = n" "\<forall>f \<in> set fs. is_element f"
    "c' = c + length version + length (concat fs)" by (auto simp: tbs_fields_def)
  then have "skip_optional data TAG_EXPLICIT_VERSION c limit = Inr (c + length version)"
    using skip_optional_window [OF assms] by blast
  moreover note w = window_after [OF assms s(1)]
  then have "skip_elements data n (c + length version) limit = Inr c'"
    using s skip_elements_window [of data "c + length version" limit n c'] by blast
  ultimately show ?l by (simp add: skip_fields_def)
qed

lemma skip_fields_error:
  assumes "window data c limit" "skip_fields data n c limit = Inl e"
  shows "e = Err MalformedCertificate"
  using assms window_after [OF assms(1)]
  by (auto simp: skip_fields_def and_then_Inl skip_optional_window dest: skip_optional_error intro: skip_elements_error)

lemma fields_after:
  assumes "window data c limit" "tbs_fields n (slice data c limit) version fs r"
  obtains c' where "skip_fields data n c limit = Inr c'" "window data c' limit" "slice data c' limit = r"
proof -
  define c' where "c' = c + length version + length (concat fs)"
  have "window data (c + length version) limit" "slice data (c + length version) limit = concat fs @ r"
    using window_after [OF assms(1), of version] assms(2) by (simp_all add: tbs_fields_def)
  from window_after [OF this] have w: "window data c' limit" "slice data c' limit = r" by (simp_all add: c'_def)
  have "skip_fields data n c limit = Inr c'" using skip_fields_window [OF assms(1)] assms(2) w c'_def by blast
  then show ?thesis using that w by blast
qed

lemma tbs_at:
  assumes "length cert < usize_limit div 2" "cert = tlv TAG_SEQUENCE (tlv TAG_SEQUENCE body @ sigs)"
    and "el = element_at (1 + length (der_length (length (tlv TAG_SEQUENCE body @ sigs)))) TAG_SEQUENCE body"
  shows "read_tbs_certificate cert = Inr el" "window cert (de_value_start el) (de_end el)"
    "slice cert (de_value_start el) (de_end el) = body"
proof -
  show "read_tbs_certificate cert = Inr el" using assms read_tbs_iff by blast
  have w: "window cert 0 (length cert)" using assms(1) by (simp add: window_def)
  have "slice cert 0 (length cert) = tlv TAG_SEQUENCE (tlv TAG_SEQUENCE body @ sigs) @ []" using assms(2) by simp
  note o = window_content [OF w this]
  have "length cert = 0 + length (tlv TAG_SEQUENCE (tlv TAG_SEQUENCE body @ sigs))" using assms(2) by simp
  with o have "window cert (1 + length (der_length (length (tlv TAG_SEQUENCE body @ sigs)))) (length cert)"
    "slice cert (1 + length (der_length (length (tlv TAG_SEQUENCE body @ sigs)))) (length cert) = tlv TAG_SEQUENCE body @ sigs"
    by simp_all
  from window_content [OF this] show "window cert (de_value_start el) (de_end el)"
    "slice cert (de_value_start el) (de_end el) = body"
    using assms(3) by simp_all
qed

lemma tbs_window:
  assumes "length cert < usize_limit div 2" "read_tbs_certificate cert = Inr el"
  obtains body sigs where "cert = tlv TAG_SEQUENCE (tlv TAG_SEQUENCE body @ sigs)"
    "window cert (de_value_start el) (de_end el)" "slice cert (de_value_start el) (de_end el) = body"
proof -
  from iffD1 [OF read_tbs_iff [OF assms(1)] assms(2)] obtain body sigs where
    c: "cert = tlv TAG_SEQUENCE (tlv TAG_SEQUENCE body @ sigs)"
    and el: "el = element_at (1 + length (der_length (length (tlv TAG_SEQUENCE body @ sigs)))) TAG_SEQUENCE body" by blast
  show ?thesis by (rule that [OF c tbs_at(2,3) [OF assms(1) c el]])
qed

lemma read_spki_window:
  assumes "window data c limit"
  shows "read_spki data c limit = Inr k \<longleftrightarrow>
    (\<exists>v r. slice data c limit = tlv TAG_SEQUENCE v @ r \<and> k = tlv TAG_SEQUENCE v)" (is "?l \<longleftrightarrow> ?r")
proof
  assume ?l
  then obtain el d where el: "read_der_element_with_limit data c limit = Inr (el, d)" "de_tag el = TAG_SEQUENCE"
    "k = slice data (de_start el) (de_end el)" by (auto simp: read_spki_def and_then_Inr split: if_splits)
  from iffD1 [OF read_element_window [OF assms] el(1)] obtain t v r where
    v: "slice data c limit = tlv t v @ r" "el = element_at c t v" by blast
  then have "k = tlv t v" using el(3) slice_before [OF v(1)] by simp
  then show ?r using v el(2) by auto
next
  assume ?r
  then obtain v r where v: "slice data c limit = tlv TAG_SEQUENCE v @ r" "k = tlv TAG_SEQUENCE v" by blast
  have "read_der_element_with_limit data c limit = Inr (element_at c TAG_SEQUENCE v, c + length (tlv TAG_SEQUENCE v))"
    using read_element_window [OF assms] v(1) by blast
  moreover have "c + length (tlv TAG_SEQUENCE v) \<le> limit" using window_content [OF assms v(1)] by blast
  moreover have "slice data c (c + length (tlv TAG_SEQUENCE v)) = k" using v slice_before by blast
  moreover have "c < limit" using calculation(2) by (simp add: length_tlv)
  moreover have "limit \<le> length data" using assms by (simp add: window_def)
  ultimately show ?l by (simp add: read_spki_def index_range_def get_range_def)
qed

lemma read_spki_no_panic:
  assumes "window data c limit"
  shows "read_spki data c limit \<noteq> Inl Panic"
proof
  assume "read_spki data c limit = Inl Panic"
  then obtain s d where s: "read_der_element_with_limit data c limit = Inr (s, d)"
    "\<not> (de_start s \<le> de_end s \<and> de_end s \<le> length data)"
    using read_element_window_error [OF assms, of Panic] by (auto simp: read_spki_def and_then_Inl split: if_splits)
  then show False using read_element_window [OF assms, of s d] window_content [OF assms] assms
    by (auto simp: window_def)
qed

lemma extract_spki_iff:
  assumes "length cert < usize_limit div 2"
  shows "extract_spki_der cert = Inr k \<longleftrightarrow>
    (\<exists>body sigs version fs v r. cert = tlv TAG_SEQUENCE (tlv TAG_SEQUENCE body @ sigs) \<and>
       tbs_fields 5 body version fs (tlv TAG_SEQUENCE v @ r) \<and> k = tlv TAG_SEQUENCE v)" (is "?l \<longleftrightarrow> ?r")
proof
  assume ?l
  then obtain el c where el: "read_tbs_certificate cert = Inr el"
    and c: "skip_fields cert 5 (de_value_start el) (de_end el) = Inr c" and k: "read_spki cert c (de_end el) = Inr k"
    by (auto simp: extract_spki_der_def and_then_Inr)
  from tbs_window [OF assms el] obtain body sigs where b: "cert = tlv TAG_SEQUENCE (tlv TAG_SEQUENCE body @ sigs)"
    "window cert (de_value_start el) (de_end el)" "slice cert (de_value_start el) (de_end el) = body" .
  from iffD1 [OF skip_fields_window [OF b(2)] c] obtain version fs r where
    f: "tbs_fields 5 body version fs r" "window cert c (de_end el)" "slice cert c (de_end el) = r" using b(3) by blast
  from iffD1 [OF read_spki_window [OF f(2)] k] obtain v r' where "r = tlv TAG_SEQUENCE v @ r'" "k = tlv TAG_SEQUENCE v"
    using f(3) by auto
  with f(1) b(1) show ?r by blast
next
  assume ?r
  then obtain body sigs version fs v r where b: "cert = tlv TAG_SEQUENCE (tlv TAG_SEQUENCE body @ sigs)"
    and f: "tbs_fields 5 body version fs (tlv TAG_SEQUENCE v @ r)" and k: "k = tlv TAG_SEQUENCE v" by blast
  define el where "el = element_at (1 + length (der_length (length (tlv TAG_SEQUENCE body @ sigs)))) TAG_SEQUENCE body"
  note t = tbs_at [OF assms b el_def]
  from fields_after [OF t(2), of 5 version fs] f t(3) obtain c where
    c: "skip_fields cert 5 (de_value_start el) (de_end el) = Inr c" and
    w: "window cert c (de_end el)" "slice cert c (de_end el) = tlv TAG_SEQUENCE v @ r" by blast
  have "read_spki cert c (de_end el) = Inr k" using read_spki_window [OF w(1)] w(2) k by blast
  then show ?l using t(1) c by (simp add: extract_spki_der_def)
qed

lemma extract_spki_no_panic:
  assumes "length cert < usize_limit div 2"
  shows "extract_spki_der cert \<noteq> Inl Panic"
proof
  assume p: "extract_spki_der cert = Inl Panic"
  then obtain el where el: "read_tbs_certificate cert = Inr el"
    using read_tbs_error [OF assms] by (auto simp: extract_spki_der_def and_then_Inl)
  from tbs_window [OF assms el] have w: "window cert (de_value_start el) (de_end el)" by blast
  obtain c where c: "skip_fields cert 5 (de_value_start el) (de_end el) = Inr c" and "read_spki cert c (de_end el) = Inl Panic"
    using p el skip_fields_error [OF w, of 5 Panic] by (auto simp: extract_spki_der_def and_then_Inl)
  moreover have "window cert c (de_end el)" using skip_fields_window [OF w] c by blast
  ultimately show False using read_spki_no_panic by blast
qed

subsection \<open>Extensions\<close>

type_synonym extension = "bytes \<times> bytes \<times> bytes"

fun extension_der :: "extension \<Rightarrow> bytes" where
  "extension_der (oid, critical, v) =
     tlv TAG_SEQUENCE (tlv TAG_OBJECT_IDENTIFIER oid @ critical @ tlv TAG_OCTET_STRING v)"

fun wf_extension :: "extension \<Rightarrow> bool" where
  "wf_extension (oid, critical, v) \<longleftrightarrow>
     (\<exists>nm. oid_to_string oid = Inr nm) \<and> (critical = [] \<or> (\<exists>b. critical = tlv TAG_BOOLEAN b))"

fun extension_value :: "rust_str \<Rightarrow> extension \<Rightarrow> bytes list" where
  "extension_value target (oid, critical, v) = (if oid_to_string oid = Inr target then [v] else [])"

lemma octet_optional: "optional_element TAG_BOOLEAN x (tlv TAG_OCTET_STRING v @ r) \<longleftrightarrow> x = [] \<or> (\<exists>b. x = tlv TAG_BOOLEAN b)"
  by (simp add: optional_element_def tlv_def TAG_BOOLEAN_def TAG_OCTET_STRING_def)

lemma parse_extension_Inr:
  assumes "window data c limit" "parse_extension data c limit = Inr (nm, el, c')"
  obtains oid critical v r where "slice data c limit = extension_der (oid, critical, v) @ r"
    "oid_to_string oid = Inr nm" "wf_extension (oid, critical, v)" "c' = c + length (extension_der (oid, critical, v))"
    "index_range data (de_value_start el) (de_end el) = (Inr v :: bytes dane_result)"
proof -
  obtain extension oid_el e1 e2 e3 oid where
    r1: "read_der_element_with_limit data c limit = Inr (extension, c')" "de_tag extension = TAG_SEQUENCE" and
    r2: "read_der_element_with_limit data (de_value_start extension) (de_end extension) = Inr (oid_el, e1)"
      "de_tag oid_el = TAG_OBJECT_IDENTIFIER" "oid = slice data (de_value_start oid_el) (de_end oid_el)"
      "oid_to_string oid = Inr nm" and
    r3: "skip_optional data TAG_BOOLEAN e1 (de_end extension) = Inr e2" and
    r4: "read_der_element_with_limit data e2 (de_end extension) = Inr (el, e3)" "de_tag el = TAG_OCTET_STRING"
      "e3 = de_end extension"
    using assms(2) by (auto simp: parse_extension_def and_then_Inr split: if_splits)
  from iffD1 [OF read_element_window [OF assms(1)] r1(1)] r1(2) obtain b r where
    b: "slice data c limit = tlv TAG_SEQUENCE b @ r" "extension = element_at c TAG_SEQUENCE b"
      "c' = c + length (tlv TAG_SEQUENCE b)" by auto
  note wb = window_content [OF assms(1) b(1)]
  have w1: "window data (de_value_start extension) (de_end extension)"
    "slice data (de_value_start extension) (de_end extension) = b" using wb b(2) by simp_all
  from iffD1 [OF read_element_window [OF w1(1)] r2(1)] r2(2) w1(2) obtain ob q where
    q: "b = tlv TAG_OBJECT_IDENTIFIER ob @ q" "oid_el = element_at (de_value_start extension) TAG_OBJECT_IDENTIFIER ob"
      "e1 = de_value_start extension + length (tlv TAG_OBJECT_IDENTIFIER ob)" by auto
  have ob: "oid = ob" using window_content(2) [OF w1(1), of TAG_OBJECT_IDENTIFIER ob q] w1(2) q r2(3) by simp
  have w2: "window data e1 (de_end extension)" "slice data e1 (de_end extension) = q"
    using window_after [OF w1(1)] w1(2) q by simp_all
  from iffD1 [OF skip_optional_window [OF w2(1)] r3] w2(2) obtain critical q' where
    x: "q = critical @ q'" "optional_element TAG_BOOLEAN critical q'" "e2 = e1 + length critical" by blast
  have w3: "window data e2 (de_end extension)" "slice data e2 (de_end extension) = q'"
    using window_after [OF w2(1)] w2(2) x by simp_all
  from iffD1 [OF read_element_window [OF w3(1)] r4(1)] r4(2) w3(2) obtain v z where
    v: "q' = tlv TAG_OCTET_STRING v @ z" "el = element_at e2 TAG_OCTET_STRING v"
      "e3 = e2 + length (tlv TAG_OCTET_STRING v)" by auto
  have "z = []" using window_after [OF w3(1), of "tlv TAG_OCTET_STRING v" z] w3(2) v r4(3) by simp
  then have enc: "b = tlv TAG_OBJECT_IDENTIFIER oid @ critical @ tlv TAG_OCTET_STRING v" using q x v ob by simp
  have wf: "wf_extension (oid, critical, v)" using r2(4) x(2) v(1) by (auto simp: octet_optional)
  have "slice data e2 (de_end extension) = tlv TAG_OCTET_STRING v @ z" using w3(2) v(1) by simp
  from window_content [OF w3(1) this]
  have "index_range data (de_value_start el) (de_end el) = (Inr v :: bytes dane_result)"
    using v(2) by (simp add: window_def)
  then show ?thesis using that [of oid critical v r] b enc r2(4) wf by simp
qed

lemma parse_extension_at:
  assumes "window data c limit" "slice data c limit = extension_der (oid, critical, v) @ r"
    and "oid_to_string oid = Inr nm" "wf_extension (oid, critical, v)"
  shows "\<exists>el. parse_extension data c limit = Inr (nm, el, c + length (extension_der (oid, critical, v))) \<and>
    index_range data (de_value_start el) (de_end el) = (Inr v :: bytes dane_result)"
proof -
  define b where "b = tlv TAG_OBJECT_IDENTIFIER oid @ critical @ tlv TAG_OCTET_STRING v"
  have sl: "slice data c limit = tlv TAG_SEQUENCE b @ r" using assms(2) by (simp add: b_def)
  define ext where "ext = element_at c TAG_SEQUENCE b"
  have r1: "read_der_element_with_limit data c limit = Inr (ext, c + length (tlv TAG_SEQUENCE b))"
    using read_element_window [OF assms(1)] sl ext_def by blast
  have w1: "window data (de_value_start ext) (de_end ext)" "slice data (de_value_start ext) (de_end ext) = b"
    using window_content [OF assms(1) sl] by (simp_all add: ext_def)
  define e1 where "e1 = de_value_start ext + length (tlv TAG_OBJECT_IDENTIFIER oid)"
  define ol where "ol = element_at (de_value_start ext) TAG_OBJECT_IDENTIFIER oid"
  have r2: "read_der_element_with_limit data (de_value_start ext) (de_end ext) = Inr (ol, e1)"
    using read_element_window [OF w1(1)] w1(2) b_def ol_def e1_def by blast
  have ix: "index_range data (de_value_start ol) (de_end ol) = (Inr oid :: bytes dane_result)"
    using window_content [OF w1(1), of TAG_OBJECT_IDENTIFIER oid] w1(2) by (simp add: b_def ol_def window_def)
  have w2: "window data e1 (de_end ext)" "slice data e1 (de_end ext) = critical @ tlv TAG_OCTET_STRING v"
    using window_after [OF w1(1)] w1(2) by (simp_all add: b_def e1_def)
  define e2 where "e2 = e1 + length critical"
  have "optional_element TAG_BOOLEAN critical (tlv TAG_OCTET_STRING v)"
    using assms(4) octet_optional [of critical v "[]"] by simp
  then have r3: "skip_optional data TAG_BOOLEAN e1 (de_end ext) = Inr e2"
    using skip_optional_window [OF w2(1)] w2(2) e2_def by blast
  have w3: "window data e2 (de_end ext)" "slice data e2 (de_end ext) = tlv TAG_OCTET_STRING v @ []"
    using window_after [OF w2] by (simp_all add: e2_def)
  have r4: "read_der_element_with_limit data e2 (de_end ext) =
      Inr (element_at e2 TAG_OCTET_STRING v, e2 + length (tlv TAG_OCTET_STRING v))"
    using read_element_window [OF w3(1)] w3(2) by blast
  have "e2 + length (tlv TAG_OCTET_STRING v) = de_end ext"
    by (simp add: e2_def e1_def ext_def length_tlv [of TAG_SEQUENCE] b_def)
  moreover have "de_tag ext = TAG_SEQUENCE" "de_tag ol = TAG_OBJECT_IDENTIFIER" by (simp_all add: ext_def ol_def)
  ultimately have "parse_extension data c limit = Inr (nm, element_at e2 TAG_OCTET_STRING v, c + length (tlv TAG_SEQUENCE b))"
    by (simp add: parse_extension_def r1 r2 ix r3 r4 assms(3))
  moreover have "index_range data (de_value_start (element_at e2 TAG_OCTET_STRING v))
      (de_end (element_at e2 TAG_OCTET_STRING v)) = (Inr v :: bytes dane_result)"
    using window_content [OF w3] by (simp add: window_def)
  ultimately show ?thesis unfolding b_def extension_der.simps by blast
qed

lemma extension_der_not_Nil [simp]: "extension_der x \<noteq> []"
  by (cases x) simp

lemma extensions_loop_iff:
  "window data c limit \<Longrightarrow> extensions_loop data c limit target acc = Inr out \<longleftrightarrow>
    (\<exists>exts. slice data c limit = concat (map extension_der exts) \<and> (\<forall>x \<in> set exts. wf_extension x) \<and>
       out = acc @ concat (map (extension_value target) exts))"
proof (induction data c limit target acc rule: extensions_loop.induct)
  case (1 data c limit target acc)
  show ?case
  proof (cases "c < limit")
    case False
    then have sl: "slice data c limit = []" by (simp add: slice_def)
    have "extensions_loop data c limit target acc = Inr acc" using False by (subst extensions_loop.simps) simp
    then show ?thesis using sl by (auto intro: exI [of _ "[]"])
  next
    case True
    show ?thesis (is "?l \<longleftrightarrow> ?r")
    proof
      assume ?l
      then obtain nm el d acc' where p: "parse_extension data c limit = Inr (nm, el, d)"
        and v': "(if nm = target
                  then and_then (index_range data (de_value_start el) (de_end el)) (\<lambda>bs. Inr (acc @ [bs]))
                  else Inr acc) = (Inr acc' :: bytes list dane_result)"
        and l: "extensions_loop data d limit target acc' = Inr out"
        using True by (subst (asm) extensions_loop.simps) (auto simp: and_then_Inr)
      obtain oid critical v r where e: "slice data c limit = extension_der (oid, critical, v) @ r"
        "oid_to_string oid = Inr nm" "wf_extension (oid, critical, v)" "d = c + length (extension_der (oid, critical, v))"
        "index_range data (de_value_start el) (de_end el) = (Inr v :: bytes dane_result)"
        using parse_extension_Inr [OF "1.prems" p] .
      have val: "acc' = acc @ extension_value target (oid, critical, v)"
        using v' e(2) by (simp add: e(5) split: if_splits)
      note w = window_after [OF "1.prems" e(1), folded e(4)]
      from 1(1) [OF True p refl refl v'] w l obtain exts where "r = concat (map extension_der exts)"
        "\<forall>x \<in> set exts. wf_extension x" "out = acc' @ concat (map (extension_value target) exts)" by auto
      then show ?r using e val by (intro exI [of _ "(oid, critical, v) # exts"]) auto
    next
      assume ?r
      then obtain exts where x: "slice data c limit = concat (map extension_der exts)" "\<forall>x \<in> set exts. wf_extension x"
        "out = acc @ concat (map (extension_value target) exts)" by blast
      have "slice data c limit \<noteq> []" using True "1.prems" by (auto simp: window_def simp flip: length_0_conv)
      then obtain oid critical v exts' where y: "exts = (oid, critical, v) # exts'"
        using x(1) by (cases exts) auto
      obtain nm where nm: "oid_to_string oid = Inr nm" using x(2) y by auto
      define d where "d = c + length (extension_der (oid, critical, v))"
      have sl: "slice data c limit = extension_der (oid, critical, v) @ concat (map extension_der exts')"
        using x(1) y by simp
      obtain el where p: "parse_extension data c limit = Inr (nm, el, d)"
        and ix: "index_range data (de_value_start el) (de_end el) = (Inr v :: bytes dane_result)"
        using parse_extension_at [OF "1.prems" sl nm] x(2) y d_def by auto
      define acc' where "acc' = acc @ extension_value target (oid, critical, v)"
      have v': "(if nm = target
          then and_then (index_range data (de_value_start el) (de_end el)) (\<lambda>bs. Inr (acc @ [bs]))
          else Inr acc) = (Inr acc' :: bytes list dane_result)"
        using nm by (simp add: ix acc'_def)
      note w = window_after [OF "1.prems" sl, folded d_def]
      have "extensions_loop data d limit target acc' = Inr out"
        using 1(1) [OF True p refl refl v'] w x(2,3) y acc'_def by auto
      then show ?l using True v' by (subst extensions_loop.simps) (simp add: p)
    qed
  qed
qed

lemma parse_extensions_iff:
  assumes "window data c limit" "slice data c limit = tlv t v @ r"
  shows "parse_extensions_element data (element_at c t v) target = Inr out \<longleftrightarrow>
    (\<exists>exts. v = tlv TAG_SEQUENCE (concat (map extension_der exts)) \<and> (\<forall>x \<in> set exts. wf_extension x) \<and>
       out = concat (map (extension_value target) exts))" (is "?l \<longleftrightarrow> ?r")
proof -
  define a b where "a = de_value_start (element_at c t v)" and "b = de_end (element_at c t v)"
  have w: "window data a b" "slice data a b = v" using window_content [OF assms] by (simp_all add: a_def b_def)
  have loop: "extensions_loop data (de_value_start (element_at a TAG_SEQUENCE u)) (de_end (element_at a TAG_SEQUENCE u)) target [] = Inr out
      \<longleftrightarrow> (\<exists>exts. u = concat (map extension_der exts) \<and> (\<forall>x \<in> set exts. wf_extension x) \<and>
             out = concat (map (extension_value target) exts))" if "v = tlv TAG_SEQUENCE u" for u
    using window_content [OF w(1), of TAG_SEQUENCE u "[]"] extensions_loop_iff w(2) that by simp
  show ?thesis
  proof
    assume ?l
    then obtain el d where r: "read_der_element_with_limit data a b = Inr (el, d)" "de_tag el = TAG_SEQUENCE" "d = b"
      "extensions_loop data (de_value_start el) (de_end el) target [] = Inr out"
      by (auto simp: parse_extensions_element_def and_then_Inr a_def b_def split: if_splits)
    from iffD1 [OF read_element_window [OF w(1)] r(1)] r(2) w(2) obtain u z where
      u: "v = tlv TAG_SEQUENCE u @ z" "el = element_at a TAG_SEQUENCE u" "d = a + length (tlv TAG_SEQUENCE u)" by auto
    have "z = []" using window_after [OF w(1), of "tlv TAG_SEQUENCE u" z] w(2) u r(3) by simp
    then show ?r using loop [of u] u r(4) by auto
  next
    assume ?r
    then obtain exts where e: "v = tlv TAG_SEQUENCE (concat (map extension_der exts))" "\<forall>x \<in> set exts. wf_extension x"
       "out = concat (map (extension_value target) exts)" by blast
    define u where "u = concat (map extension_der exts)"
    have rd: "read_der_element_with_limit data a b = Inr (element_at a TAG_SEQUENCE u, a + length (tlv TAG_SEQUENCE u))"
      using read_element_window [OF w(1)] w(2) e(1) u_def by (metis append_Nil2)
    moreover have "a + length (tlv TAG_SEQUENCE u) = b" using e(1) by (simp add: a_def b_def u_def length_tlv [of t])
    moreover have "extensions_loop data (de_value_start (element_at a TAG_SEQUENCE u)) (de_end (element_at a TAG_SEQUENCE u)) target [] = Inr out"
      using loop [of u] e u_def by blast
    ultimately show ?l
      unfolding parse_extensions_element_def a_def [symmetric] b_def [symmetric] by simp
  qed
qed

text \<open>
  The rest of the signed part after the public key: elements that are not the extensions, and then the extensions,
  if there are any.
\<close>

inductive extensions_of :: "bytes \<Rightarrow> extension list \<Rightarrow> bool" where
  no_extensions: "extensions_of [] []"
| other_element: "\<lbrakk>t \<noteq> TAG_EXPLICIT_EXTENSIONS; extensions_of r exts\<rbrakk> \<Longrightarrow> extensions_of (tlv t v @ r) exts"
| the_extensions: "\<forall>x \<in> set exts. wf_extension x \<Longrightarrow>
    extensions_of (tlv TAG_EXPLICIT_EXTENSIONS (tlv TAG_SEQUENCE (concat (map extension_der exts))) @ z) exts"

inductive_cases extensions_of_cases: "extensions_of r exts"

lemma find_extensions_step:
  assumes "window data c limit" "slice data c limit = tlv t v @ r"
  shows "find_extensions data c limit target =
    (if t = TAG_EXPLICIT_EXTENSIONS then parse_extensions_element data (element_at c t v) target
     else find_extensions data (c + length (tlv t v)) limit target)"
proof -
  have "read_der_element_with_limit data c limit = Inr (element_at c t v, c + length (tlv t v))"
    using read_element_window [OF assms(1)] assms(2) by blast
  moreover have "peek_der_tag data c limit = Inr (Some t)"
    using peek_window [OF assms(1)] assms(2) by (simp add: tlv_def)
  moreover have "c < limit" using window_content(3) [OF assms] by (simp add: length_tlv)
  ultimately show ?thesis by (subst find_extensions.simps) simp
qed

lemma find_extensions_complete:
  assumes "extensions_of r exts"
  shows "\<lbrakk>window data c limit; slice data c limit = r\<rbrakk> \<Longrightarrow>
    find_extensions data c limit target = Inr (concat (map (extension_value target) exts))"
  using assms
proof (induction arbitrary: c)
  case no_extensions
  then have "\<not> c < limit" by (auto simp: window_def simp flip: length_0_conv)
  then show ?case by (subst find_extensions.simps) simp
next
  case (other_element t r exts v)
  then show ?case using window_after [OF other_element.prems] by (simp add: find_extensions_step)
next
  case (the_extensions exts z)
  then show ?case by (subst find_extensions_step) (auto simp: parse_extensions_iff)
qed

lemma find_extensions_sound:
  "\<lbrakk>window data c limit; find_extensions data c limit target = Inr out\<rbrakk> \<Longrightarrow>
    \<exists>exts. extensions_of (slice data c limit) exts \<and> out = concat (map (extension_value target) exts)"
proof (induction data c limit target rule: find_extensions.induct)
  case (1 data c limit target)
  show ?case
  proof (cases "c < limit")
    case False
    then have "slice data c limit = []" "out = []"
      using "1.prems"(2) by (simp_all add: slice_def find_extensions.simps)
    then show ?thesis using no_extensions by fastforce
  next
    case True
    then obtain tag el d where p: "peek_der_tag data c limit = Inr (Some tag)"
      and rd: "read_der_element_with_limit data c limit = Inr (el, d)"
      using "1.prems"(2) by (subst (asm) find_extensions.simps) (auto simp: and_then_Inr)
    from iffD1 [OF read_element_window [OF "1.prems"(1)] rd] obtain t v r where
      sl: "slice data c limit = tlv t v @ r" "el = element_at c t v" "d = c + length (tlv t v)" by blast
    have tag: "tag = t" using p peek_window [OF "1.prems"(1)] sl(1) by (simp add: tlv_def)
    note step = find_extensions_step [OF "1.prems"(1) sl(1), of target]
    note w = window_after [OF "1.prems"(1) sl(1), folded sl(3)]
    show ?thesis
    proof (cases "t = TAG_EXPLICIT_EXTENSIONS")
      case True
      then have "parse_extensions_element data (element_at c t v) target = Inr out" using step "1.prems"(2) by simp
      then obtain exts where "v = tlv TAG_SEQUENCE (concat (map extension_der exts))" "\<forall>x \<in> set exts. wf_extension x"
        "out = concat (map (extension_value target) exts)"
        using parse_extensions_iff [OF "1.prems"(1) sl(1)] by blast
      then show ?thesis using True sl(1) the_extensions by auto
    next
      case False
      have "find_extensions data d limit target = Inr out" using False step "1.prems"(2) sl(3) by simp
      from "1.IH" [OF True p _ rd refl _ _ this] False tag w
      obtain exts where "extensions_of r exts" "out = concat (map (extension_value target) exts)" by auto
      then show ?thesis using other_element [OF False] sl(1) by auto
    qed
  qed
qed

lemma extension_values_iff:
  assumes "length cert < usize_limit div 2"
  shows "certificate_extension_values cert target = Inr out \<longleftrightarrow>
    (\<exists>body sigs version fs r exts. cert = tlv TAG_SEQUENCE (tlv TAG_SEQUENCE body @ sigs) \<and>
       tbs_fields 6 body version fs r \<and> extensions_of r exts \<and> out = concat (map (extension_value target) exts))"
    (is "?l \<longleftrightarrow> ?r")
proof
  assume ?l
  then obtain el c where el: "read_tbs_certificate cert = Inr el"
    and c: "skip_fields cert 6 (de_value_start el) (de_end el) = Inr c"
    and k: "find_extensions cert c (de_end el) target = Inr out"
    by (auto simp: certificate_extension_values_def and_then_Inr)
  from tbs_window [OF assms el] obtain body sigs where b: "cert = tlv TAG_SEQUENCE (tlv TAG_SEQUENCE body @ sigs)"
    "window cert (de_value_start el) (de_end el)" "slice cert (de_value_start el) (de_end el) = body" .
  from iffD1 [OF skip_fields_window [OF b(2)] c] obtain version fs r where
    f: "tbs_fields 6 body version fs r" "window cert c (de_end el)" "slice cert c (de_end el) = r" using b(3) by blast
  from find_extensions_sound [OF f(2) k] f(3) obtain exts where "extensions_of r exts"
    "out = concat (map (extension_value target) exts)" by blast
  with f(1) b(1) show ?r by blast
next
  assume ?r
  then obtain body sigs version fs r exts where b: "cert = tlv TAG_SEQUENCE (tlv TAG_SEQUENCE body @ sigs)"
    and f: "tbs_fields 6 body version fs r" and e: "extensions_of r exts" "out = concat (map (extension_value target) exts)"
    by blast
  define el where "el = element_at (1 + length (der_length (length (tlv TAG_SEQUENCE body @ sigs)))) TAG_SEQUENCE body"
  note t = tbs_at [OF assms b el_def]
  from fields_after [OF t(2), of 6 version fs] f t(3) obtain c where
    c: "skip_fields cert 6 (de_value_start el) (de_end el) = Inr c" and
    w: "window cert c (de_end el)" "slice cert c (de_end el) = r" by blast
  then show ?l
    using find_extensions_complete [OF e(1) w] t(1) e(2) by (simp add: certificate_extension_values_def)
qed

subsection \<open>No panics\<close>

lemma oid_to_string_no_panic: "oid_to_string bs \<noteq> Inl Panic"
proof -
  have "oid_loop bs v saw parts \<noteq> Inl Panic" for bs v saw parts
    by (induction bs v saw parts rule: oid_loop.induct) (auto simp: and_then_Inl split: if_splits)
  then show ?thesis by (auto simp: oid_to_string_def and_then_Inl)
qed

lemma parse_extension_no_panic:
  assumes "window data c limit"
  shows "parse_extension data c limit \<noteq> Inl Panic"
proof
  assume p: "parse_extension data c limit = Inl Panic"
  then obtain ext c' where r1: "read_der_element_with_limit data c limit = Inr (ext, c')"
    using read_element_window_error [OF assms, of Panic] by (auto simp: parse_extension_def and_then_Inl)
  then obtain t b r where b: "slice data c limit = tlv t b @ r" "ext = element_at c t b"
    using read_element_window [OF assms] by blast
  have w1: "window data (de_value_start ext) (de_end ext)" using window_content [OF assms b(1)] b(2) by simp
  obtain ol e1 where r2: "read_der_element_with_limit data (de_value_start ext) (de_end ext) = Inr (ol, e1)"
    using p read_element_window_error [OF w1, of Panic] by (auto simp: parse_extension_def and_then_Inl r1 split: if_splits)
  then obtain t' v' r' where o: "slice data (de_value_start ext) (de_end ext) = tlv t' v' @ r'"
    "ol = element_at (de_value_start ext) t' v'" "e1 = de_value_start ext + length (tlv t' v')"
    using read_element_window [OF w1] by blast
  have w2: "window data e1 (de_end ext)" using window_after [OF w1 o(1)] o(3) by simp
  have ix: "index_range data (de_value_start ol) (de_end ol) = (Inr v' :: bytes dane_result)"
    using window_content [OF w1 o(1)] o(2) by (simp add: window_def)
  obtain e2 where r3: "skip_optional data TAG_BOOLEAN e1 (de_end ext) = Inr e2"
    using p skip_optional_error [OF w2, of TAG_BOOLEAN Panic] oid_to_string_no_panic
    by (auto simp: parse_extension_def and_then_Inl r1 r2 ix simp del: index_range_simps split: if_splits)
  have w3: "window data e2 (de_end ext)"
    using iffD1 [OF skip_optional_window [OF w2] r3] window_after [OF w2] by blast
  show False
    using p read_element_window_error [OF w3, of Panic] oid_to_string_no_panic
    by (auto simp: parse_extension_def and_then_Inl r1 r2 ix r3 simp del: index_range_simps split: if_splits)
qed

lemma extensions_loop_no_panic:
  "window data c limit \<Longrightarrow> extensions_loop data c limit target acc \<noteq> Inl Panic"
proof (induction data c limit target acc rule: extensions_loop.induct)
  case (1 data c limit target acc)
  show ?case
  proof (cases "parse_extension data c limit")
    case (Inl e)
    then show ?thesis using parse_extension_no_panic [OF "1.prems"] by (subst extensions_loop.simps) auto
  next
    case (Inr x)
    obtain nm el d where x: "x = (nm, el, d)" by (cases x)
    then have p: "parse_extension data c limit = Inr (nm, el, d)" using Inr by simp
    obtain oid critical v r where e: "slice data c limit = extension_der (oid, critical, v) @ r"
      "d = c + length (extension_der (oid, critical, v))"
      "index_range data (de_value_start el) (de_end el) = (Inr v :: bytes dane_result)"
      using parse_extension_Inr [OF "1.prems" p] .
    define acc' where "acc' = (if nm = target then acc @ [v] else acc)"
    have a: "(if nm = target
        then and_then (index_range data (de_value_start el) (de_end el)) (\<lambda>bs. Inr (acc @ [bs]))
        else Inr acc) = (Inr acc' :: bytes list dane_result)"
      by (simp add: e(3) acc'_def del: index_range_simps)
    have "c < limit \<Longrightarrow> extensions_loop data d limit target acc' \<noteq> Inl Panic"
      using "1.IH" [OF _ p refl refl a] window_after [OF "1.prems" e(1)] e(2) by blast
    then show ?thesis by (subst extensions_loop.simps) (simp add: p a)
  qed
qed

lemma parse_extensions_no_panic:
  assumes "window data c limit" "slice data c limit = tlv t v @ r"
  shows "parse_extensions_element data (element_at c t v) target \<noteq> Inl Panic"
proof
  assume p: "parse_extensions_element data (element_at c t v) target = Inl Panic"
  define a b where "a = de_value_start (element_at c t v)" and "b = de_end (element_at c t v)"
  have w: "window data a b" using window_content [OF assms] by (simp add: a_def b_def)
  obtain el d where rd: "read_der_element_with_limit data a b = Inr (el, d)"
    "extensions_loop data (de_value_start el) (de_end el) target [] = Inl Panic"
    using p read_element_window_error [OF w, of Panic]
    by (auto simp: parse_extensions_element_def and_then_Inl a_def b_def split: if_splits)
  moreover obtain t' v' r' where "slice data a b = tlv t' v' @ r'" "el = element_at a t' v'"
    using read_element_window [OF w] rd(1) by blast
  then have "window data (de_value_start el) (de_end el)" using window_content [OF w] by simp
  ultimately show False using extensions_loop_no_panic by blast
qed

lemma find_extensions_no_panic:
  "window data c limit \<Longrightarrow> find_extensions data c limit target \<noteq> Inl Panic"
proof (induction "limit - c" arbitrary: c rule: less_induct)
  case less
  consider (finished) "\<not> c < limit" | (bad) e where "c < limit" "read_der_element_with_limit data c limit = Inl e"
    | (element) x where "c < limit" "read_der_element_with_limit data c limit = Inr x"
    by (cases "read_der_element_with_limit data c limit") auto
  then show ?case
  proof cases
    case bad
    then show ?thesis
      using read_element_window_error [OF less.prems, of e] peek_window [OF less.prems]
      by (subst find_extensions.simps) (auto split: list.splits)
  next
    case element
    obtain el d where "x = (el, d)" by (cases x)
    with element obtain t v r where sl: "slice data c limit = tlv t v @ r" "el = element_at c t v"
      using read_element_window [OF less.prems, of el d] by auto
    have "limit - (c + length (tlv t v)) < limit - c" using element(1) by (simp add: length_tlv)
    with less.hyps [OF this] window_after [OF less.prems sl(1)]
    show ?thesis
      using find_extensions_step [OF less.prems sl(1), of target] parse_extensions_no_panic [OF less.prems sl(1), of target]
      by auto
  qed (simp add: find_extensions.simps)
qed

lemma extension_values_no_panic:
  assumes "length cert < usize_limit div 2"
  shows "certificate_extension_values cert target \<noteq> Inl Panic"
proof
  assume p: "certificate_extension_values cert target = Inl Panic"
  then obtain el where el: "read_tbs_certificate cert = Inr el"
    using read_tbs_error [OF assms] by (auto simp: certificate_extension_values_def and_then_Inl)
  from tbs_window [OF assms el] have w: "window cert (de_value_start el) (de_end el)" by blast
  obtain c where c: "skip_fields cert 6 (de_value_start el) (de_end el) = Inr c"
    and f: "find_extensions cert c (de_end el) target = Inl Panic"
    using p el skip_fields_error [OF w, of 6 Panic] by (auto simp: certificate_extension_values_def and_then_Inl)
  moreover have "window cert c (de_end el)" using skip_fields_window [OF w] c by blast
  ultimately show False using find_extensions_no_panic by blast
qed

section \<open>Properties\<close>

text \<open>
  C33.  The subject public key is found exactly where X.509 puts it: on a certificate of any size a slice can
  have, the extraction does not panic, and it returns \<open>k\<close> exactly when the certificate is one DER
  sequence of minimal lengths with the signed part first, whose version is present or absent and is followed
  by five elements and then the sequence \<open>k\<close>, returned with its header, byte for byte.
\<close>

theorem extract_spki_exact:
  "length cert < usize_limit div 2 \<Longrightarrow>
     extract_spki_der cert \<noteq> Inl Panic \<and>
     (extract_spki_der cert = Inr k \<longleftrightarrow>
       (\<exists>body sigs version fs v r. cert = tlv TAG_SEQUENCE (tlv TAG_SEQUENCE body @ sigs) \<and>
          tbs_fields 5 body version fs (tlv TAG_SEQUENCE v @ r) \<and> k = tlv TAG_SEQUENCE v))"
  by (intro conjI extract_spki_no_panic extract_spki_iff)

definition sample_fields :: "bytes list" where
  "sample_fields = [tlv 2 [1], tlv 2 [2], tlv 2 [3], tlv 2 [4], tlv 2 [5]]"

definition sample_spki :: bytes where
  "sample_spki = tlv TAG_SEQUENCE [5, 0]"

lemma sample_tbs_fields:
  "optional_element TAG_EXPLICIT_VERSION [] (concat sample_fields @ r)" "length sample_fields = 5"
  "\<forall>f \<in> set sample_fields. is_element f"
proof -
  show "optional_element TAG_EXPLICIT_VERSION [] (concat sample_fields @ r)"
    by (simp add: optional_element_def sample_fields_def tlv_def TAG_EXPLICIT_VERSION_def)
  show "length sample_fields = 5" by (simp add: sample_fields_def)
  show "\<forall>f \<in> set sample_fields. is_element f" unfolding sample_fields_def is_element_def by auto
qed

definition sample_plain_certificate :: bytes where
  "sample_plain_certificate = tlv TAG_SEQUENCE (tlv TAG_SEQUENCE (concat sample_fields @ sample_spki) @ [5, 0])"

lemma sample_plain_shape:
  "length sample_plain_certificate < usize_limit div 2"
  "\<exists>body sigs version fs v r. sample_plain_certificate = tlv TAG_SEQUENCE (tlv TAG_SEQUENCE body @ sigs) \<and>
     tbs_fields 5 body version fs (tlv TAG_SEQUENCE v @ r) \<and> sample_spki = tlv TAG_SEQUENCE v"
proof -
  define body where "body = concat sample_fields @ sample_spki"
  have c: "sample_plain_certificate = tlv TAG_SEQUENCE (tlv TAG_SEQUENCE body @ [5, 0])"
    by (simp only: sample_plain_certificate_def body_def)
  have "length body = 19" by (simp add: body_def sample_fields_def sample_spki_def tlv_def der_length_def)
  then have "length (tlv TAG_SEQUENCE (tlv TAG_SEQUENCE body @ [5, 0])) < usize_limit div 2"
    by (simp add: length_tlv length_der_length)
  then show "length sample_plain_certificate < usize_limit div 2" by (simp only: c)
  have "tbs_fields 5 body [] sample_fields (tlv TAG_SEQUENCE [5, 0] @ [])"
    using sample_tbs_fields by (simp add: tbs_fields_def body_def sample_spki_def)
  with c show "\<exists>body sigs version fs v r. sample_plain_certificate = tlv TAG_SEQUENCE (tlv TAG_SEQUENCE body @ sigs) \<and>
     tbs_fields 5 body version fs (tlv TAG_SEQUENCE v @ r) \<and> sample_spki = tlv TAG_SEQUENCE v"
    unfolding sample_spki_def by blast
qed

lemma sample_spki_extracted: "extract_spki_der sample_plain_certificate = Inr sample_spki"
  using extract_spki_iff [OF sample_plain_shape(1)] sample_plain_shape(2) by blast

theorem extract_spki_exact_witness:
  "extract_spki_der sample_plain_certificate \<noteq> Inl Panic \<and> extract_spki_der sample_plain_certificate = Inr sample_spki"
  using extract_spki_exact [OF sample_plain_shape(1), of sample_spki] sample_plain_shape(2) by blast

text \<open>
  Extension values are read exactly: on a certificate of any size a slice can have the search does not
  panic, and it returns the values of all extensions with the target identifier, in order, exactly when the
  certificate is well formed up to its extensions: six elements after the optional version, further
  elements, and then either the end or the extension list, whose entries are an identifier, an optional
  flag and an octet string with nothing left over.
\<close>

theorem extension_values_exact:
  "length cert < usize_limit div 2 \<Longrightarrow>
     certificate_extension_values cert target \<noteq> Inl Panic \<and>
     (certificate_extension_values cert target = Inr out \<longleftrightarrow>
       (\<exists>body sigs version fs r exts. cert = tlv TAG_SEQUENCE (tlv TAG_SEQUENCE body @ sigs) \<and>
          tbs_fields 6 body version fs r \<and> extensions_of r exts \<and> out = concat (map (extension_value target) exts)))"
  by (intro conjI extension_values_no_panic extension_values_iff)

definition sample_extensions :: "extension list" where
  "sample_extensions = [([43, 6, 1], [], [7, 7]), ([43, 6, 2], tlv TAG_BOOLEAN [255], [8]), ([43, 6, 1], [], [9])]"

definition sample_certificate :: bytes where
  "sample_certificate = tlv TAG_SEQUENCE (tlv TAG_SEQUENCE (concat sample_fields @ sample_spki @
     tlv TAG_EXPLICIT_EXTENSIONS (tlv TAG_SEQUENCE (concat (map extension_der sample_extensions)))) @ [5, 0])"

lemma sample_oids:
  "oid_to_string [43, 6, 1] = Inr (ascii ''1.3.6.1'')" "oid_to_string [43, 6, 2] = Inr (ascii ''1.3.6.2'')"
  by (simp_all add: oid_to_string_def get_byte_def dec_digits.simps checked_mul_u32_def checked_add_u32_opt_def ascii_def)

theorem extension_values_exact_witness:
  "certificate_extension_values sample_certificate (ascii ''1.3.6.1'') = Inr [[7, 7], [9]]"
proof -
  define body where "body = concat sample_fields @ sample_spki @
     tlv TAG_EXPLICIT_EXTENSIONS (tlv TAG_SEQUENCE (concat (map extension_der sample_extensions)))"
  have "length body = 57"
    by (simp add: body_def sample_fields_def sample_spki_def sample_extensions_def tlv_def der_length_def)
  then have "length (tlv TAG_SEQUENCE (tlv TAG_SEQUENCE body @ [5, 0])) < usize_limit div 2"
    by (simp add: length_tlv length_der_length)
  moreover have c: "sample_certificate = tlv TAG_SEQUENCE (tlv TAG_SEQUENCE body @ [5, 0])"
    by (simp only: sample_certificate_def body_def)
  ultimately have "length sample_certificate < usize_limit div 2" by (simp only:)
  moreover have "tbs_fields 6 body [] (sample_fields @ [sample_spki])
     (tlv TAG_EXPLICIT_EXTENSIONS (tlv TAG_SEQUENCE (concat (map extension_der sample_extensions))) @ [])"
    using sample_tbs_fields by (auto simp: tbs_fields_def body_def sample_spki_def is_element_def)
  moreover have "extensions_of (tlv TAG_EXPLICIT_EXTENSIONS (tlv TAG_SEQUENCE (concat (map extension_der sample_extensions))) @ [])
      sample_extensions"
    by (rule the_extensions) (auto simp: sample_extensions_def sample_oids)
  moreover have "concat (map (extension_value (ascii ''1.3.6.1'')) sample_extensions) = [[7, 7], [9]]"
    by (simp add: sample_extensions_def sample_oids ascii_def)
  ultimately show ?thesis
    using c extension_values_exact [of sample_certificate "ascii ''1.3.6.1''" "[[7, 7], [9]]"] by metis
qed

end
