(* ===== verification/Urkel.thy ===== *)
theory Urkel
  imports Hashing
begin

text \<open>
  \<open>hns-urkel/src/lib.rs\<close>: decoding and verification of Urkel tree proofs, the authenticated
  lookups of names.  The specification is a tree of which only the parts a proof reveals are
  known; a verified proof is such a tree with the expected root hash, and two trees with the same
  root hash cannot answer a lookup differently unless the messages hashed on the way exhibit a
  collision of the hash function or a preimage of the all-zero hash.
\<close>

section \<open>Definitions\<close>

definition MAX_PROOF_SIZE :: nat where
  "MAX_PROOF_SIZE = 256 * 1024"

definition URKEL_BITS :: nat where
  "URKEL_BITS = 256"

definition URKEL_HASH_SIZE :: nat where
  "URKEL_HASH_SIZE = 32"

definition TYPE_DEADEND :: u8 where "TYPE_DEADEND = 0"
definition TYPE_SHORT :: u8 where "TYPE_SHORT = 1"
definition TYPE_COLLISION :: u8 where "TYPE_COLLISION = 2"
definition TYPE_EXISTS :: u8 where "TYPE_EXISTS = 3"

definition INTERNAL_PREFIX :: bytes where "INTERNAL_PREFIX = [1]"
definition SKIP_PREFIX :: bytes where "SKIP_PREFIX = [2]"
definition LEAF_PREFIX :: bytes where "LEAF_PREFIX = [0]"

datatype proof_kind = Inclusion | NonInclusion

record bit_prefix =
  bp_size :: nat
  bp_data :: bytes

record urkel_proof_node =
  node_prefix :: bit_prefix
  node_hash :: hash

datatype proof_body =
    Deadend
  | Short bit_prefix hash hash
  | Collision hash hash
  | Exists bytes

record urkel_proof =
  proof_type :: u8
  proof_depth :: nat
  proof_nodes :: "urkel_proof_node list"
  proof_body :: proof_body

record parsed_proof =
  pp_kind :: proof_kind
  pp_root :: hash
  pp_name_hash :: hash
  pp_payload :: bytes
  pp_proof :: urkel_proof

datatype proof_error = TooLarge | Malformed | UnsupportedVerifier

subsection \<open>The cursor\<close>

record cursor =
  cur_data :: bytes
  cur_offset :: nat

definition cursor_new :: "bytes \<Rightarrow> cursor" where
  "cursor_new data = \<lparr>cur_data = data, cur_offset = 0\<rparr>"

definition cursor_read_bytes :: "nat \<Rightarrow> cursor \<Rightarrow> proof_error + (bytes \<times> cursor)" where
  "cursor_read_bytes len c =
     and_then (ok_or Malformed (checked_add_usize (cur_offset c) len)) (\<lambda>fin.
     and_then (ok_or Malformed (get_range (cur_data c) (cur_offset c) fin)) (\<lambda>bs.
     Inr (bs, c\<lparr>cur_offset := fin\<rparr>)))"

definition cursor_read_u16_le :: "cursor \<Rightarrow> proof_error + (u16 \<times> cursor)" where
  "cursor_read_u16_le c =
     and_then (cursor_read_bytes 2 c) (\<lambda>(bs, c). Inr (u16_of_le [bs ! 0, bs ! 1], c))"

definition cursor_read_hash :: "cursor \<Rightarrow> proof_error + (hash \<times> cursor)" where
  "cursor_read_hash c =
     and_then (cursor_read_bytes URKEL_HASH_SIZE c) (\<lambda>(bs, c).
     and_then (map_err (\<lambda>_. Malformed) (hash_from_slice bs)) (\<lambda>h. Inr (h, c)))"

definition encoded_len :: "bit_prefix \<Rightarrow> nat" where
  "encoded_len p = (if bp_size p \<ge> 0x80 then 2 else 1) + length (bp_data p)"

definition cursor_next_byte :: "cursor \<Rightarrow> proof_error + (u8 \<times> cursor)" where
  "cursor_next_byte c =
     and_then (ok_or Malformed (get_byte (cur_data c) (cur_offset c))) (\<lambda>b.
     Inr (b, c\<lparr>cur_offset := cur_offset c + 1\<rparr>))"

definition cursor_read_prefix :: "cursor \<Rightarrow> proof_error + (bit_prefix \<times> cursor)" where
  "cursor_read_prefix c0 =
     and_then (cursor_next_byte c0) (\<lambda>(first, c).
     and_then
       (if first AND 0x80 \<noteq> 0 then
          and_then (cursor_next_byte c) (\<lambda>(second, c).
            Inr (push_bit 8 (unat first - 0x80) OR unat second, c))
        else Inr (unat first, c)) (\<lambda>(size, c).
     and_then (cursor_read_bytes (div_ceil size 8) c) (\<lambda>(data, c).
     let prefix = \<lparr>bp_size = size, bp_data = data\<rparr> in
     if cur_offset c - cur_offset c0 \<noteq> encoded_len prefix then Inl Malformed
     else Inr (prefix, c))))"

definition is_finished :: "cursor \<Rightarrow> bool" where
  "is_finished c \<longleftrightarrow> cur_offset c = length (cur_data c)"

subsection \<open>Bits and prefixes\<close>

definition has_bit :: "bytes \<Rightarrow> nat \<Rightarrow> bool" where
  "has_bit key index =
     (let byte = (case get_byte key (index div 8) of Some b \<Rightarrow> b | None \<Rightarrow> 0);
          bit = index mod 8
      in drop_bit (7 - bit) byte AND 1 \<noteq> 0)"

definition prefix_empty :: bit_prefix where
  "prefix_empty = \<lparr>bp_size = 0, bp_data = []\<rparr>"

fun count_loop :: "bytes \<Rightarrow> bytes \<Rightarrow> nat \<Rightarrow> nat list \<Rightarrow> nat \<Rightarrow> nat" where
  "count_loop data key depth [] matched = matched"
| "count_loop data key depth (index # rest) matched =
     (if has_bit data index \<noteq> has_bit key (depth + index) then matched
      else count_loop data key depth rest (matched + 1))"

definition prefix_count :: "bit_prefix \<Rightarrow> bytes \<Rightarrow> nat \<Rightarrow> nat" where
  "prefix_count p key depth =
     (let key_bits = length key * 8 in
      if depth \<ge> key_bits then 0
      else count_loop (bp_data p) key depth [0..<min (bp_size p) (key_bits - depth)] 0)"

definition prefix_has :: "bit_prefix \<Rightarrow> bytes \<Rightarrow> nat \<Rightarrow> bool" where
  "prefix_has p key depth \<longleftrightarrow> prefix_count p key depth = bp_size p"

subsection \<open>Hashing of tree nodes\<close>

definition hash_internal :: "digest_fns \<Rightarrow> bit_prefix \<Rightarrow> hash \<Rightarrow> hash \<Rightarrow> hash" where
  "hash_internal D prefix left right =
     (if bp_size prefix = 0 then blake2b_256 D [INTERNAL_PREFIX, left, right]
      else blake2b_256 D
        [SKIP_PREFIX, u16_to_le (word_of_nat (bp_size prefix)), bp_data prefix, left, right])"

definition hash_leaf :: "digest_fns \<Rightarrow> hash \<Rightarrow> hash \<Rightarrow> hash" where
  "hash_leaf D key value_hash = blake2b_256 D [LEAF_PREFIX, key, value_hash]"

definition hash_value :: "digest_fns \<Rightarrow> hash \<Rightarrow> bytes \<Rightarrow> hash" where
  "hash_value D key v = hash_leaf D key (blake2b_256 D [v])"

subsection \<open>Proofs\<close>

definition is_sane :: "urkel_proof \<Rightarrow> bool" where
  "is_sane p \<longleftrightarrow>
     proof_depth p \<le> URKEL_BITS \<and> length (proof_nodes p) \<le> URKEL_BITS \<and>
     \<not> (\<exists>n \<in> set (proof_nodes p). bp_size (node_prefix n) > URKEL_BITS) \<and>
     (case proof_body p of
        Deadend \<Rightarrow> proof_type p = TYPE_DEADEND
      | Short prefix _ _ \<Rightarrow>
          proof_type p = TYPE_SHORT \<and> bp_size prefix > 0 \<and> bp_size prefix \<le> URKEL_BITS
      | Collision _ _ \<Rightarrow> proof_type p = TYPE_COLLISION
      | Exists v \<Rightarrow> proof_type p = TYPE_EXISTS \<and> length v \<le> 0xffff)"

fun decode_nodes ::
  "bytes \<Rightarrow> nat list \<Rightarrow> cursor \<Rightarrow> proof_error + (urkel_proof_node list \<times> cursor)" where
  "decode_nodes bitmap [] c = Inr ([], c)"
| "decode_nodes bitmap (index # rest) c =
     and_then
       (if has_bit bitmap index then
          and_then (cursor_read_prefix c) (\<lambda>(prefix, c).
            if bp_size prefix = 0 \<or> bp_size prefix > URKEL_BITS then Inl Malformed
            else Inr (prefix, c))
        else Inr (prefix_empty, c)) (\<lambda>(prefix, c).
     and_then (cursor_read_hash c) (\<lambda>(h, c).
     and_then (decode_nodes bitmap rest c) (\<lambda>(nodes, c).
     Inr (\<lparr>node_prefix = prefix, node_hash = h\<rparr> # nodes, c))))"

definition decode_body :: "u8 \<Rightarrow> cursor \<Rightarrow> proof_error + (proof_body \<times> cursor)" where
  "decode_body ty c =
     (if ty = TYPE_DEADEND then Inr (Deadend, c)
      else if ty = TYPE_SHORT then
        and_then (cursor_read_prefix c) (\<lambda>(prefix, c).
        if bp_size prefix = 0 \<or> bp_size prefix > URKEL_BITS then Inl Malformed else
        and_then (cursor_read_hash c) (\<lambda>(left, c).
        and_then (cursor_read_hash c) (\<lambda>(right, c).
        Inr (Short prefix left right, c))))
      else if ty = TYPE_COLLISION then
        and_then (cursor_read_hash c) (\<lambda>(key, c).
        and_then (cursor_read_hash c) (\<lambda>(value_hash, c).
        Inr (Collision key value_hash, c)))
      else if ty = TYPE_EXISTS then
        and_then (cursor_read_u16_le c) (\<lambda>(size, c).
        and_then (cursor_read_bytes (unat size) c) (\<lambda>(v, c).
        Inr (Exists v, c)))
      else Inl Malformed)"

definition urkel_decode :: "bytes \<Rightarrow> proof_error + urkel_proof" where
  "urkel_decode bs =
     (if length bs > MAX_PROOF_SIZE then Inl TooLarge else
      and_then (cursor_read_u16_le (cursor_new bs)) (\<lambda>(field, c).
      let ty = ucast (drop_bit 14 field);
          depth = unat (field AND NOT (push_bit 14 3))
      in if depth > URKEL_BITS then Inl Malformed else
      and_then (cursor_read_u16_le c) (\<lambda>(count16, c).
      let count = unat count16 in
      if count > URKEL_BITS then Inl Malformed else
      and_then (cursor_read_bytes (div_ceil count 8) c) (\<lambda>(bitmap, c).
      and_then (decode_nodes bitmap [0..<count] c) (\<lambda>(nodes, c).
      and_then (decode_body ty c) (\<lambda>(body, c).
      if \<not> is_finished c then Inl Malformed else
      let p = \<lparr>proof_type = ty, proof_depth = depth, proof_nodes = nodes, proof_body = body\<rparr>
      in if \<not> is_sane p then Inl Malformed else Inr p))))))"

definition urkel_kind :: "urkel_proof \<Rightarrow> proof_kind" where
  "urkel_kind p = (if proof_type p = TYPE_EXISTS then Inclusion else NonInclusion)"

definition urkel_value :: "urkel_proof \<Rightarrow> bytes option" where
  "urkel_value p = (case proof_body p of Exists v \<Rightarrow> Some v | _ \<Rightarrow> None)"

text \<open>The starting hash of the climb; \<open>None\<close> is the early \<open>return false\<close>.\<close>

definition leaf_hash :: "digest_fns \<Rightarrow> urkel_proof \<Rightarrow> hash \<Rightarrow> hash option" where
  "leaf_hash D p key =
     (case proof_body p of
        Deadend \<Rightarrow> Some hash_ZERO
      | Short prefix left right \<Rightarrow>
          (if prefix_has prefix key (proof_depth p) then None
           else Some (hash_internal D prefix left right))
      | Collision other value_hash \<Rightarrow>
          (if other = key then None else Some (hash_leaf D other value_hash))
      | Exists v \<Rightarrow> Some (hash_value D key v))"

text \<open>The loop over the nodes from the leaf to the root; \<open>None\<close> is a \<open>return false\<close> inside it.\<close>

fun climb ::
  "digest_fns \<Rightarrow> hash \<Rightarrow> urkel_proof_node list \<Rightarrow> hash \<times> nat \<Rightarrow> (hash \<times> nat) option" where
  "climb D key [] (next, depth) = Some (next, depth)"
| "climb D key (node # rest) (next, depth) =
     (if depth < bp_size (node_prefix node) + 1 then None else
      let depth = depth - 1;
          next = (if has_bit key depth
                  then hash_internal D (node_prefix node) (node_hash node) next
                  else hash_internal D (node_prefix node) next (node_hash node));
          depth = depth - bp_size (node_prefix node)
      in if \<not> prefix_has (node_prefix node) key depth then None
         else climb D key rest (next, depth))"

definition urkel_verify :: "digest_fns \<Rightarrow> urkel_proof \<Rightarrow> hash \<Rightarrow> hash \<Rightarrow> bool" where
  "urkel_verify D p root key =
     (if \<not> is_sane p then False else
      case leaf_hash D p key of
        None \<Rightarrow> False
      | Some leaf \<Rightarrow>
          (case climb D key (rev (proof_nodes p)) (leaf, proof_depth p) of
             None \<Rightarrow> False
           | Some (next, depth) \<Rightarrow> depth = 0 \<and> next = root))"

definition parse_for_key :: "bytes \<Rightarrow> hash \<Rightarrow> hash \<Rightarrow> proof_error + parsed_proof" where
  "parse_for_key bs root name_hash =
     (if length bs > MAX_PROOF_SIZE then Inl TooLarge else
      and_then (urkel_decode bs) (\<lambda>p.
      Inr \<lparr>pp_kind = urkel_kind p, pp_root = root, pp_name_hash = name_hash, pp_payload = bs,
           pp_proof = p\<rparr>))"

definition parsed_proof_parse :: "bytes \<Rightarrow> proof_error + parsed_proof" where
  "parsed_proof_parse bs = parse_for_key bs hash_ZERO hash_ZERO"

definition parsed_proof_value :: "parsed_proof \<Rightarrow> bytes option" where
  "parsed_proof_value p = urkel_value (pp_proof p)"

text \<open>The two implementations of the trait \<open>ProofVerifier\<close>.\<close>

definition fail_closed_verify :: "parsed_proof \<Rightarrow> hash \<Rightarrow> proof_error + bool" where
  "fail_closed_verify p expected_root = Inl UnsupportedVerifier"

definition urkel_verifier_verify ::
  "digest_fns \<Rightarrow> parsed_proof \<Rightarrow> hash \<Rightarrow> proof_error + bool" where
  "urkel_verifier_verify D p expected_root =
     (if pp_root p \<noteq> expected_root then Inr False
      else Inr (urkel_verify D (pp_proof p) expected_root (pp_name_hash p)))"

subsection \<open>Specification: partially known trees\<close>

text \<open>
  An Urkel tree as far as it is known: an empty subtree, a subtree of which only the hash is known,
  a leaf with its value, a leaf with only the hash of its value, and an inner node with the bits
  all its keys share below the path.
\<close>

datatype known_tree =
    TEmpty
  | TStub hash
  | TLeaf hash bytes
  | TLeafHash hash hash
  | TNode bit_prefix known_tree known_tree

fun tree_hash :: "digest_fns \<Rightarrow> known_tree \<Rightarrow> hash" where
  "tree_hash D TEmpty = hash_ZERO"
| "tree_hash D (TStub h) = h"
| "tree_hash D (TLeaf k v) = hash_value D k v"
| "tree_hash D (TLeafHash k vh) = hash_leaf D k vh"
| "tree_hash D (TNode p l r) = hash_internal D p (tree_hash D l) (tree_hash D r)"

text \<open>
  The lookup of a key: \<open>None\<close> when the known part does not settle it, otherwise the value or its
  absence.
\<close>

fun tree_lookup :: "hash \<Rightarrow> nat \<Rightarrow> known_tree \<Rightarrow> bytes option option" where
  "tree_lookup key d TEmpty = Some None"
| "tree_lookup key d (TStub h) = None"
| "tree_lookup key d (TLeaf k v) = Some (if k = key then Some v else None)"
| "tree_lookup key d (TLeafHash k vh) = (if k = key then None else Some None)"
| "tree_lookup key d (TNode p l r) =
     (if prefix_has p key d
      then tree_lookup key (d + bp_size p + 1) (if has_bit key (d + bp_size p) then r else l)
      else Some None)"

definition internal_msg :: "bit_prefix \<Rightarrow> hash \<Rightarrow> hash \<Rightarrow> bytes" where
  "internal_msg p l r =
     (if bp_size p = 0 then 1 # l @ r
      else 2 # u16_to_le (word_of_nat (bp_size p)) @ bp_data p @ l @ r)"

definition leaf_msg :: "hash \<Rightarrow> hash \<Rightarrow> bytes" where
  "leaf_msg k vh = 0 # k @ vh"

text \<open>The messages hashed to compute the hash of a known tree.\<close>

fun tree_msgs :: "digest_fns \<Rightarrow> known_tree \<Rightarrow> bytes list" where
  "tree_msgs D TEmpty = []"
| "tree_msgs D (TStub h) = []"
| "tree_msgs D (TLeaf k v) = [leaf_msg k (blake2b_256 D [v]), v]"
| "tree_msgs D (TLeafHash k vh) = [leaf_msg k vh]"
| "tree_msgs D (TNode p l r) =
     internal_msg p (tree_hash D l) (tree_hash D r) # tree_msgs D l @ tree_msgs D r"

definition wf_prefix :: "bit_prefix \<Rightarrow> bool" where
  "wf_prefix p \<longleftrightarrow> length (bp_data p) = div_ceil (bp_size p) 8 \<and> bp_size p \<le> URKEL_BITS"

fun wf_tree :: "known_tree \<Rightarrow> bool" where
  "wf_tree TEmpty = True"
| "wf_tree (TStub h) \<longleftrightarrow> length h = 32"
| "wf_tree (TLeaf k v) \<longleftrightarrow> length k = 32"
| "wf_tree (TLeafHash k vh) \<longleftrightarrow> length k = 32 \<and> length vh = 32"
| "wf_tree (TNode p l r) \<longleftrightarrow> wf_prefix p \<and> wf_tree l \<and> wf_tree r"

fun fully_known :: "known_tree \<Rightarrow> bool" where
  "fully_known TEmpty = True"
| "fully_known (TStub h) = False"
| "fully_known (TLeaf k v) = True"
| "fully_known (TLeafHash k vh) = False"
| "fully_known (TNode p l r) \<longleftrightarrow> fully_known l \<and> fully_known r"

text \<open>The tree a proof for a key reveals.\<close>

fun path_tree :: "hash \<Rightarrow> nat \<Rightarrow> urkel_proof_node list \<Rightarrow> known_tree \<Rightarrow> known_tree" where
  "path_tree key d [] t = t"
| "path_tree key d (n # ns) t =
     (let child = path_tree key (d + bp_size (node_prefix n) + 1) ns t in
      if has_bit key (d + bp_size (node_prefix n))
      then TNode (node_prefix n) (TStub (node_hash n)) child
      else TNode (node_prefix n) child (TStub (node_hash n)))"

definition body_tree :: "hash \<Rightarrow> proof_body \<Rightarrow> known_tree" where
  "body_tree key b =
     (case b of
        Deadend \<Rightarrow> TEmpty
      | Short p l r \<Rightarrow> TNode p (TStub l) (TStub r)
      | Collision k vh \<Rightarrow> TLeafHash k vh
      | Exists v \<Rightarrow> TLeaf key v)"

definition proof_tree :: "hash \<Rightarrow> urkel_proof \<Rightarrow> known_tree" where
  "proof_tree key p = path_tree key 0 (proof_nodes p) (body_tree key (proof_body p))"

fun path_len :: "urkel_proof_node list \<Rightarrow> nat" where
  "path_len [] = 0"
| "path_len (n # ns) = bp_size (node_prefix n) + 1 + path_len ns"

fun path_match :: "hash \<Rightarrow> nat \<Rightarrow> urkel_proof_node list \<Rightarrow> bool" where
  "path_match key d [] = True"
| "path_match key d (n # ns) \<longleftrightarrow>
     prefix_has (node_prefix n) key d \<and> path_match key (d + bp_size (node_prefix n) + 1) ns"

text \<open>The message whose hash is the hash of a tree, when its root is known.\<close>

fun top_msg :: "digest_fns \<Rightarrow> known_tree \<Rightarrow> bytes option" where
  "top_msg D (TLeaf k v) = Some (leaf_msg k (blake2b_256 D [v]))"
| "top_msg D (TLeafHash k vh) = Some (leaf_msg k vh)"
| "top_msg D (TNode p l r) = Some (internal_msg p (tree_hash D l) (tree_hash D r))"
| "top_msg D _ = None"

text \<open>The prover's side: the proof a fully known tree gives for a key.\<close>

fun prove_path :: "digest_fns \<Rightarrow> hash \<Rightarrow> nat \<Rightarrow> known_tree \<Rightarrow> urkel_proof_node list \<times> proof_body" where
  "prove_path D key d TEmpty = ([], Deadend)"
| "prove_path D key d (TStub h) = ([], Deadend)"
| "prove_path D key d (TLeaf k v) =
     ([], if k = key then Exists v else Collision k (blake2b_256 D [v]))"
| "prove_path D key d (TLeafHash k vh) = ([], Collision k vh)"
| "prove_path D key d (TNode p l r) =
     (if prefix_has p key d then
        (if has_bit key (d + bp_size p) then
           (let (ns, b) = prove_path D key (d + bp_size p + 1) r
            in (\<lparr>node_prefix = p, node_hash = tree_hash D l\<rparr> # ns, b))
         else
           (let (ns, b) = prove_path D key (d + bp_size p + 1) l
            in (\<lparr>node_prefix = p, node_hash = tree_hash D r\<rparr> # ns, b)))
      else ([], Short p (tree_hash D l) (tree_hash D r)))"

definition body_type :: "proof_body \<Rightarrow> u8" where
  "body_type b =
     (case b of Deadend \<Rightarrow> TYPE_DEADEND | Short _ _ _ \<Rightarrow> TYPE_SHORT
      | Collision _ _ \<Rightarrow> TYPE_COLLISION | Exists _ \<Rightarrow> TYPE_EXISTS)"

definition tree_prove :: "digest_fns \<Rightarrow> hash \<Rightarrow> known_tree \<Rightarrow> urkel_proof" where
  "tree_prove D key t =
     (let (ns, b) = prove_path D key 0 t in
      \<lparr>proof_type = body_type b, proof_depth = path_len ns, proof_nodes = ns, proof_body = b\<rparr>)"

text \<open>A proof body that settles the lookup of a key below a path of \<open>d\<close> bits.\<close>

definition body_settles :: "hash \<Rightarrow> nat \<Rightarrow> proof_body \<Rightarrow> bool" where
  "body_settles key d b =
     (case b of
        Deadend \<Rightarrow> True
      | Short p l r \<Rightarrow> 0 < bp_size p \<and> bp_size p \<le> URKEL_BITS \<and> \<not> prefix_has p key d
      | Collision k vh \<Rightarrow> k \<noteq> key
      | Exists v \<Rightarrow> length v \<le> 0xffff)"

text \<open>The trees that occur: values of at most 65535 bytes and at most 256 bits of path.\<close>

fun tree_fits :: "nat \<Rightarrow> known_tree \<Rightarrow> bool" where
  "tree_fits d (TLeaf k v) \<longleftrightarrow> d \<le> URKEL_BITS \<and> length v \<le> 0xffff"
| "tree_fits d (TNode p l r) \<longleftrightarrow>
     d + bp_size p + 1 \<le> URKEL_BITS \<and> tree_fits (d + bp_size p + 1) l \<and> tree_fits (d + bp_size p + 1) r"
| "tree_fits d _ \<longleftrightarrow> d \<le> URKEL_BITS"

text \<open>
  What a cheating prover would have to find: two different messages among those hashed with the
  same hash, or one whose hash is the all-zero hash of an empty subtree.
\<close>

definition hash_broken :: "digest_fns \<Rightarrow> bytes set \<Rightarrow> bool" where
  "hash_broken D M \<longleftrightarrow>
     (\<exists>m \<in> M. \<exists>n \<in> M. m \<noteq> n \<and> blake2b_256 D [m] = blake2b_256 D [n]) \<or>
     (\<exists>m \<in> M. blake2b_256 D [m] = hash_ZERO)"

definition wf_node :: "urkel_proof_node \<Rightarrow> bool" where
  "wf_node n \<longleftrightarrow> wf_prefix (node_prefix n) \<and> length (node_hash n) = 32"

definition wf_body :: "proof_body \<Rightarrow> bool" where
  "wf_body b =
     (case b of
        Deadend \<Rightarrow> True
      | Short p l r \<Rightarrow> wf_prefix p \<and> 0 < bp_size p \<and> length l = 32 \<and> length r = 32
      | Collision k vh \<Rightarrow> length k = 32 \<and> length vh = 32
      | Exists v \<Rightarrow> length v \<le> 0xffff)"

definition wf_proof :: "urkel_proof \<Rightarrow> bool" where
  "wf_proof p \<longleftrightarrow> list_all wf_node (proof_nodes p) \<and> wf_body (proof_body p) \<and> is_sane p"

section \<open>Lemmas\<close>

subsection \<open>Decoding\<close>

lemma cursor_read_bytes_length:
  "cursor_read_bytes n c = Inr (bs, c') \<Longrightarrow> length bs = n"
  by (auto simp: cursor_read_bytes_def and_then_Inr)

lemma cursor_read_hash_length: "cursor_read_hash c = Inr (h, c') \<Longrightarrow> length h = 32"
  by (auto simp: cursor_read_hash_def and_then_Inr)

lemma cursor_read_prefix_length:
  "cursor_read_prefix c = Inr (p, c') \<Longrightarrow> length (bp_data p) = div_ceil (bp_size p) 8"
  by (auto simp: cursor_read_prefix_def and_then_Inr Let_def dest!: cursor_read_bytes_length
      split: if_splits)

lemma wf_prefix_empty [simp]: "wf_prefix prefix_empty"
  by (simp add: wf_prefix_def prefix_empty_def div_ceil_def)

lemma decode_nodes_wf:
  "decode_nodes bm is c = Inr (ns, c') \<Longrightarrow> list_all wf_node ns \<and> length ns = length is"
proof (induction bm "is" c arbitrary: ns c' rule: decode_nodes.induct)
  case (2 bm i rest c)
  then obtain px h ms d1 d2 where px: "(if has_bit bm i then
        and_then (cursor_read_prefix c) (\<lambda>(prefix, c).
          if bp_size prefix = 0 \<or> bp_size prefix > URKEL_BITS then Inl Malformed
          else Inr (prefix, c))
      else Inr (prefix_empty, c)) = Inr (px, d1)"
    and h: "cursor_read_hash d1 = Inr (h, d2)" and ms: "decode_nodes bm rest d2 = Inr (ms, c')"
    and ns: "ns = \<lparr>node_prefix = px, node_hash = h\<rparr> # ms"
    by (simp add: and_then_Inr split: prod.splits) blast
  have "wf_prefix px"
    using px cursor_read_prefix_length
    by (auto simp: and_then_Inr wf_prefix_def [of px] split: if_splits)
      (auto simp: prefix_empty_def div_ceil_def)
  then show ?case
    using 2(1) [OF px _ h _ ms] cursor_read_hash_length [OF h] by (simp add: ns wf_node_def)
qed simp

lemma decode_body_wf:
  assumes "decode_body ty c = Inr (b, c')"
  shows "wf_body b"
proof -
  have v: "length v \<le> 0xffff" if "cursor_read_bytes (unat (s :: u16)) d = Inr (v, d')" for s v d d'
    using cursor_read_bytes_length [OF that] unsigned_less [of s, where 'a = nat] by simp
  show ?thesis
    using assms
    by (auto simp: decode_body_def and_then_Inr wf_body_def wf_prefix_def
        dest: cursor_read_hash_length cursor_read_prefix_length v split: if_splits)
qed

lemma urkel_decode_wf:
  assumes "urkel_decode bs = Inr p"
  shows "wf_proof p"
proof -
  obtain bm "is" c c' ty where "decode_nodes bm is c = Inr (proof_nodes p, c')"
    and "\<exists>d. decode_body ty c' = Inr (proof_body p, d)" and "is_sane p"
    using assms by (fastforce simp: urkel_decode_def and_then_Inr Let_def split: if_splits)
  then show ?thesis using decode_nodes_wf decode_body_wf by (auto simp: wf_proof_def)
qed

subsection \<open>Messages determine nodes\<close>

lemma hash_internal_msg: "hash_internal D p l r = blake2b_256 D [internal_msg p l r]"
  by (simp add: hash_internal_def internal_msg_def blake2b_256_def INTERNAL_PREFIX_def SKIP_PREFIX_def)

lemma hash_leaf_msg: "hash_leaf D k vh = blake2b_256 D [leaf_msg k vh]"
  by (simp add: hash_leaf_def leaf_msg_def blake2b_256_def LEAF_PREFIX_def)

lemmas node_hash_msgs = hash_value_def hash_leaf_msg hash_internal_msg

lemma leaf_msg_inj: "leaf_msg k vh = leaf_msg k' vh' \<Longrightarrow> length k = length k' \<Longrightarrow> k = k' \<and> vh = vh'"
  by (simp add: leaf_msg_def)

lemma leaf_not_internal [simp]:
  "leaf_msg k vh \<noteq> internal_msg p l r" "internal_msg p l r \<noteq> leaf_msg k vh"
  by (simp_all add: leaf_msg_def internal_msg_def)

lemma internal_msg_inj:
  assumes eq: "internal_msg p l r = internal_msg p' l' r'"
    and wf: "wf_prefix p" "wf_prefix p'"
    and len: "length l = 32" "length l' = 32" "length r = 32" "length r' = 32"
  shows "p = p' \<and> l = l' \<and> r = r'"
proof (cases "bp_size p = 0")
  case True
  then have "bp_size p' = 0" using eq by (simp add: internal_msg_def split: if_splits)
  with True eq wf len show ?thesis
    by (simp add: internal_msg_def wf_prefix_def div_ceil_def)
next
  case False
  then have "bp_size p' \<noteq> 0" using eq by (auto simp: internal_msg_def split: if_splits)
  with False eq have msg: "u16_to_le (word_of_nat (bp_size p)) @ bp_data p @ l @ r =
      u16_to_le (word_of_nat (bp_size p')) @ bp_data p' @ l' @ r'"
    by (simp add: internal_msg_def)
  then have "u16_to_le (word_of_nat (bp_size p)) = u16_to_le (word_of_nat (bp_size p'))" by simp
  then have "(word_of_nat (bp_size p) :: u16) = word_of_nat (bp_size p')"
    by (metis word_bytes_round_trip(3))
  then have "bp_size p = bp_size p'"
    using wf by (simp add: word_of_nat_eq_iff wf_prefix_def URKEL_BITS_def take_bit_nat_eq_self_iff
        take_bit_nat_eq_self)
  with msg wf len show ?thesis by (simp add: wf_prefix_def)
qed

lemma length_tree_hash: "\<lbrakk>digest_laws D; wf_tree t\<rbrakk> \<Longrightarrow> length (tree_hash D t) = 32"
  by (cases t) (simp_all add: node_hash_msgs length_blake2b_256)

subsection \<open>Trees with the same hash agree\<close>

lemma hash_broken_mono: "\<lbrakk>hash_broken D M; M \<subseteq> N\<rbrakk> \<Longrightarrow> hash_broken D N"
  by (auto simp: hash_broken_def)

lemma not_brokenD:
  assumes "\<not> hash_broken D M" "m \<in> M"
  shows "blake2b_256 D [m] \<noteq> hash_ZERO"
    and "\<lbrakk>n \<in> M; blake2b_256 D [m] = blake2b_256 D [n]\<rbrakk> \<Longrightarrow> m = n"
  using assms by (auto simp: hash_broken_def)

lemma top_msg_in: "top_msg D t = Some m \<Longrightarrow> m \<in> set (tree_msgs D t) \<and> tree_hash D t = blake2b_256 D [m]"
  by (cases t) (auto simp: node_hash_msgs)

lemma top_msg_same:
  assumes "tree_hash D t = tree_hash D u" "\<not> hash_broken D (set (tree_msgs D t) \<union> set (tree_msgs D u))"
    and "\<not> (\<exists>h. t = TStub h)" "\<not> (\<exists>h. u = TStub h)"
  shows "top_msg D t = top_msg D u"
proof -
  note nb = not_brokenD [OF assms(2)]
  have zero: "top_msg D x = None \<Longrightarrow> \<not> (\<exists>h. x = TStub h) \<Longrightarrow> tree_hash D x = hash_ZERO" for x
    by (cases x) auto
  show ?thesis
  proof (cases "top_msg D t"; cases "top_msg D u")
    fix m n
    assume mn: "top_msg D t = Some m" "top_msg D u = Some n"
    then have "m = n" using top_msg_in [OF mn(1)] top_msg_in [OF mn(2)] nb(2) assms(1) by auto
    with mn show ?thesis by simp
  qed (use zero nb(1) top_msg_in assms in fastforce)+
qed

lemma same_hash_same_lookup:
  assumes "digest_laws D" "tree_hash D t = tree_hash D u" "wf_tree t" "wf_tree u"
    and "tree_lookup key d t = Some a" "tree_lookup key d u = Some b"
    and "\<not> hash_broken D (set (tree_msgs D t) \<union> set (tree_msgs D u))"
  shows "a = b"
  using assms(2-)
proof (induction t arbitrary: u d)
  case (TNode p l r)
  have same: "top_msg D (TNode p l r) = top_msg D u"
    by (rule top_msg_same) (use TNode.prems in auto)
  then obtain p' l' r' where u: "u = TNode p' l' r'"
    by (cases u) auto
  have eq: "p' = p" "tree_hash D l' = tree_hash D l" "tree_hash D r' = tree_hash D r"
    using internal_msg_inj [of p "tree_hash D l" "tree_hash D r" p' "tree_hash D l'" "tree_hash D r'"]
      same TNode.prems(2,3) by (simp_all add: u length_tree_hash [OF assms(1)])
  have sub: "\<not> hash_broken D (set (tree_msgs D x) \<union> set (tree_msgs D y))"
    if "set (tree_msgs D x) \<subseteq> set (tree_msgs D (TNode p l r))"
      and "set (tree_msgs D y) \<subseteq> set (tree_msgs D u)" for x y
    by (rule contrapos_nn [OF TNode.prems(6)], erule hash_broken_mono) (rule Un_mono [OF that])
  consider "\<not> prefix_has p key d" | "prefix_has p key d" "has_bit key (d + bp_size p)"
    | "prefix_has p key d" "\<not> has_bit key (d + bp_size p)" by blast
  then show ?case
  proof cases
    case 1
    with TNode.prems(4,5) show ?thesis by (simp add: u eq)
  next
    case 2
    show ?thesis
      by (rule TNode.IH(2) [of r' "d + bp_size p + 1"]; (rule sub)?)
        (use 2 TNode.prems in \<open>auto simp: u eq\<close>)
  next
    case 3
    show ?thesis
      by (rule TNode.IH(1) [of l' "d + bp_size p + 1"]; (rule sub)?)
        (use 3 TNode.prems in \<open>auto simp: u eq\<close>)
  qed
next
  case (TLeaf k v)
  have same: "top_msg D (TLeaf k v) = top_msg D u"
    by (rule top_msg_same) (use TLeaf.prems in auto)
  show ?case
  proof (cases u)
    case (TLeaf k' v')
    then have "k = k'" "blake2b_256 D [v] = blake2b_256 D [v']"
      using same TLeaf.prems(2,3) leaf_msg_inj [of k _ k'] by simp_all
    moreover from this have "v = v'"
      using not_brokenD(2) [OF TLeaf.prems(6), of v v'] TLeaf by simp
    ultimately show ?thesis using TLeaf TLeaf.prems(4,5) by simp
  next
    case (TLeafHash k' vh')
    then have "k = k'" using same TLeaf.prems(2,3) leaf_msg_inj [of k _ k'] by simp
    with TLeafHash TLeaf.prems(4,5) show ?thesis by (simp split: if_splits)
  qed (use same TLeaf.prems(5) in auto)
next
  case (TLeafHash k vh)
  have same: "top_msg D (TLeafHash k vh) = top_msg D u"
    by (rule top_msg_same) (use TLeafHash.prems in auto)
  then show ?case
    using TLeafHash.prems(2-5) leaf_msg_inj [of k vh] by (cases u) (simp_all split: if_splits)
next
  case TEmpty
  have "top_msg D TEmpty = top_msg D u"
    by (rule top_msg_same) (use TEmpty.prems in auto)
  with TEmpty show ?case by (cases u) auto
qed simp

subsection \<open>A verified proof is a known tree\<close>

lemma climb_append:
  "climb D key (xs @ ys) s = Option.bind (climb D key xs s) (climb D key ys)"
  by (induction D key xs s rule: climb.induct) (auto simp: Let_def)

lemma climb_path:
  "climb D key (rev ns) (tree_hash D t, depth) = Some (h, d) \<longleftrightarrow>
     depth = d + path_len ns \<and> path_match key d ns \<and> h = tree_hash D (path_tree key d ns t)"
proof (induction ns arbitrary: h d)
  case (Cons n ns)
  define e where "e = d + bp_size (node_prefix n) + 1"
  have step: "climb D key [n] (h', d') = Some (h, d) \<longleftrightarrow>
      d' = e \<and> prefix_has (node_prefix n) key d \<and>
      h = (if has_bit key (d + bp_size (node_prefix n))
        then hash_internal D (node_prefix n) (node_hash n) h'
        else hash_internal D (node_prefix n) h' (node_hash n))" for h' d'
    by (auto simp: Let_def e_def split: if_splits)
  have "climb D key (rev (n # ns)) (tree_hash D t, depth) = Some (h, d) \<longleftrightarrow>
      (\<exists>h' d'. climb D key (rev ns) (tree_hash D t, depth) = Some (h', d') \<and>
        climb D key [n] (h', d') = Some (h, d))"
    by (simp add: climb_append bind_eq_Some_conv)
  also have "\<dots> \<longleftrightarrow> depth = d + path_len (n # ns) \<and> path_match key d (n # ns) \<and>
      h = tree_hash D (path_tree key d (n # ns) t)"
    unfolding step Cons.IH by (auto simp: e_def Let_def)
  finally show ?case .
qed auto

lemma wf_path_tree:
  "\<lbrakk>list_all wf_node ns; wf_tree t\<rbrakk> \<Longrightarrow> wf_tree (path_tree key d ns t)"
  by (induction ns arbitrary: d) (auto simp: wf_node_def Let_def)

lemma lookup_path_tree:
  "path_match key d ns \<Longrightarrow>
     tree_lookup key d (path_tree key d ns t) = tree_lookup key (d + path_len ns) t"
  by (induction ns arbitrary: d) (auto simp: Let_def ac_simps)

lemma urkel_verify_tree:
  assumes "urkel_verify D p root key" "wf_proof p" "length key = 32"
  shows "wf_tree (proof_tree key p) \<and> tree_hash D (proof_tree key p) = root \<and>
    tree_lookup key 0 (proof_tree key p) = Some (urkel_value p)"
proof -
  define t where "t = body_tree key (proof_body p)"
  have leaf: "leaf_hash D p key = Some (tree_hash D t)"
    and look: "tree_lookup key (proof_depth p) t = Some (urkel_value p)"
    using assms(1) by (auto simp: urkel_verify_def leaf_hash_def body_tree_def t_def urkel_value_def
        split: proof_body.splits if_splits option.splits)
  with assms(1) have "climb D key (rev (proof_nodes p)) (tree_hash D t, proof_depth p) = Some (root, 0)"
    by (auto simp: urkel_verify_def split: if_splits option.splits)
  from this [unfolded climb_path] have c: "proof_depth p = path_len (proof_nodes p)"
    "path_match key 0 (proof_nodes p)" "root = tree_hash D (path_tree key 0 (proof_nodes p) t)"
    by simp_all
  have "wf_tree t"
    using assms(2,3) by (auto simp: t_def body_tree_def wf_proof_def wf_body_def
        split: proof_body.splits)
  with c look assms(2) wf_path_tree lookup_path_tree show ?thesis
    by (simp add: proof_tree_def wf_proof_def flip: t_def)
qed

lemma lookup_fully_known: "fully_known t \<Longrightarrow> \<exists>a. tree_lookup key d t = Some a"
  by (induction t arbitrary: d) auto

subsection \<open>A fully known tree proves every lookup\<close>

lemma prefix_has_empty: "bp_size p = 0 \<Longrightarrow> prefix_has p key d"
  by (simp add: prefix_has_def prefix_count_def Let_def)

lemma prove_path_correct:
  assumes "prove_path D key d t = (ns, b)" "fully_known t" "wf_tree t" "tree_fits d t"
  shows "path_match key d ns \<and> tree_hash D (path_tree key d ns (body_tree key b)) = tree_hash D t \<and>
    d + path_len ns \<le> URKEL_BITS \<and> (\<forall>n \<in> set ns. bp_size (node_prefix n) \<le> URKEL_BITS) \<and>
    tree_lookup key (d + path_len ns) (body_tree key b) = tree_lookup key d t \<and>
    body_settles key (d + path_len ns) b"
  using assms
proof (induction t arbitrary: d ns b)
  case (TNode p l r)
  define e where "e = d + bp_size p + 1"
  have wf: "bp_size p \<le> URKEL_BITS" using TNode.prems by (simp add: wf_prefix_def)
  consider "\<not> prefix_has p key d" | "prefix_has p key d" "has_bit key (d + bp_size p)"
    | "prefix_has p key d" "\<not> has_bit key (d + bp_size p)" by blast
  then show ?case
  proof cases
    case 1
    moreover from this have "0 < bp_size p" using prefix_has_empty by blast
    ultimately show ?thesis using TNode.prems wf by (auto simp: body_tree_def body_settles_def)
  next
    case 2
    then obtain ms where ns: "ns = \<lparr>node_prefix = p, node_hash = tree_hash D l\<rparr> # ms"
      and r: "prove_path D key e r = (ms, b)"
      using TNode.prems(1) by (auto simp: e_def split: prod.splits)
    show ?thesis using TNode.IH(2) [OF r] TNode.prems 2 wf
      by (auto simp: ns e_def Let_def add.assoc)
  next
    case 3
    then obtain ms where ns: "ns = \<lparr>node_prefix = p, node_hash = tree_hash D r\<rparr> # ms"
      and l: "prove_path D key e l = (ms, b)"
      using TNode.prems(1) by (auto simp: e_def split: prod.splits)
    show ?thesis using TNode.IH(1) [OF l] TNode.prems 3 wf
      by (auto simp: ns e_def Let_def add.assoc)
  qed
qed (auto simp: body_tree_def body_settles_def hash_value_def split: if_splits)

lemma length_le_path_len: "length ns \<le> path_len ns"
  by (induction ns) auto

subsection \<open>The interface of a proof verifier\<close>

text \<open>
  What a client of the trait \<open>ProofVerifier\<close> may rely on: an accepted proof was parsed for the
  expected root, and its path leads from its body to that root.
\<close>

locale proof_verifier =
  fixes D :: digest_fns
    and verify :: "parsed_proof \<Rightarrow> hash \<Rightarrow> proof_error + bool"
  assumes accepted: "verify p root = Inr True \<Longrightarrow>
    pp_root p = root \<and> urkel_verify D (pp_proof p) root (pp_name_hash p)"
begin

lemma accepted_tree:
  assumes "parse_for_key bs root' key = Inr p" "length key = 32" "verify p root = Inr True"
  shows "wf_tree (proof_tree key (pp_proof p)) \<and> tree_hash D (proof_tree key (pp_proof p)) = root \<and>
    tree_lookup key 0 (proof_tree key (pp_proof p)) = Some (parsed_proof_value p)"
proof -
  have "pp_name_hash p = key" "wf_proof (pp_proof p)"
    using assms(1) urkel_decode_wf by (auto simp: parse_for_key_def and_then_Inr split: if_splits)
  with accepted [OF assms(3)] urkel_verify_tree [of D "pp_proof p" root key] assms(2) show ?thesis
    by (simp add: parsed_proof_value_def)
qed

lemma accepted_agree:
  assumes "digest_laws D" "length key = 32"
    and "parse_for_key bs1 root1 key = Inr p1" "verify p1 root = Inr True"
    and "parse_for_key bs2 root2 key = Inr p2" "verify p2 root = Inr True"
  shows "parsed_proof_value p1 = parsed_proof_value p2 \<or>
    hash_broken D (set (tree_msgs D (proof_tree key (pp_proof p1))) \<union>
      set (tree_msgs D (proof_tree key (pp_proof p2))))"
  using same_hash_same_lookup [OF assms(1)] accepted_tree [OF assms(3,2,4)]
    accepted_tree [OF assms(5,2,6)] by metis

lemma accepted_sound:
  assumes "digest_laws D" "length key = 32" "parse_for_key bs root' key = Inr p"
    and "verify p (tree_hash D t) = Inr True" "wf_tree t" "fully_known t"
  shows "tree_lookup key 0 t = Some (parsed_proof_value p) \<or>
    hash_broken D (set (tree_msgs D t) \<union> set (tree_msgs D (proof_tree key (pp_proof p))))"
  using same_hash_same_lookup [OF assms(1)] accepted_tree [OF assms(3,2,4)] assms(5)
    lookup_fully_known [OF assms(6), of key 0] by metis

end

interpretation uv: proof_verifier D "urkel_verifier_verify D" for D
  by unfold_locales (auto simp: urkel_verifier_verify_def split: if_splits)

interpretation fcv: proof_verifier D fail_closed_verify for D
  by unfold_locales (simp add: fail_closed_verify_def)

lemma sample_decode:
  "urkel_decode [0x00, 0xC0, 0, 0, 1, 0, 7] =
     Inr \<lparr>proof_type = 3, proof_depth = 0, proof_nodes = [], proof_body = Exists [7]\<rparr>"
  by (simp add: urkel_decode_def MAX_PROOF_SIZE_def URKEL_BITS_def cursor_read_u16_le_def
      cursor_read_bytes_def cursor_new_def checked_add_usize_def get_range_def slice_def
      u16_of_le_def div_ceil_def decode_body_def TYPE_DEADEND_def TYPE_SHORT_def TYPE_COLLISION_def
      TYPE_EXISTS_def is_finished_def is_sane_def Let_def)

section \<open>Properties\<close>

text \<open>
  C11.  Verified proofs are binding: two byte strings that parse and verify against the same root
  for the same name hash give the same answer, be it a value or its absence, unless the messages
  the two verifications hash contain a BLAKE2b collision or a preimage of the all-zero hash.
\<close>

theorem urkel_proofs_binding:
  assumes "digest_laws D" "length key = 32"
    and "parse_for_key bs1 root key = Inr p1" "urkel_verifier_verify D p1 root = Inr True"
    and "parse_for_key bs2 root key = Inr p2" "urkel_verifier_verify D p2 root = Inr True"
  shows "parsed_proof_value p1 = parsed_proof_value p2 \<or>
    hash_broken D (set (tree_msgs D (proof_tree key (pp_proof p1))) \<union>
      set (tree_msgs D (proof_tree key (pp_proof p2))))"
  using assms by (rule uv.accepted_agree)

theorem urkel_proofs_binding_witness:
  "let key = replicate 32 5; D = sample_digests; root = hash_value D key [7];
       bs = [0x00, 0xC0, 0, 0, 1, 0, 7]
   in \<exists>p. parse_for_key bs root key = Inr p \<and> urkel_verifier_verify D p root = Inr True \<and>
     (parsed_proof_value p = parsed_proof_value p \<or>
      hash_broken D (set (tree_msgs D (proof_tree key (pp_proof p))) \<union>
        set (tree_msgs D (proof_tree key (pp_proof p)))))"
proof -
  define key root where "key = (replicate 32 5 :: hash)"
    and "root = hash_value sample_digests key [7]"
  obtain p where p: "parse_for_key [0x00, 0xC0, 0, 0, 1, 0, 7] root key = Inr p"
    "pp_root p = root" "pp_name_hash p = key"
    "pp_proof p = \<lparr>proof_type = 3, proof_depth = 0, proof_nodes = [], proof_body = Exists [7]\<rparr>"
    using sample_decode by (simp add: parse_for_key_def MAX_PROOF_SIZE_def)
  then have "urkel_verifier_verify sample_digests p root = Inr True"
    by (simp add: urkel_verifier_verify_def urkel_verify_def is_sane_def leaf_hash_def TYPE_EXISTS_def
        root_def)
  with p(1) urkel_proofs_binding [OF sample_digests_laws _ p(1) this p(1) this] show ?thesis
    by (simp add: key_def root_def Let_def)
qed

text \<open>
  Verified proofs are sound for the tree behind the root: if the expected root is the hash of
  a tree, an accepted proof for a key carries exactly the value the tree holds for that key, or
  none when it holds none, unless the hash function is broken on the messages involved.
\<close>

theorem urkel_verify_sound:
  assumes "digest_laws D" "length key = 32" "wf_tree t" "fully_known t"
    and "parse_for_key bs (tree_hash D t) key = Inr p"
    and "urkel_verifier_verify D p (tree_hash D t) = Inr True"
  shows "tree_lookup key 0 t = Some (parsed_proof_value p) \<or>
    hash_broken D (set (tree_msgs D t) \<union> set (tree_msgs D (proof_tree key (pp_proof p))))"
  by (rule uv.accepted_sound [OF assms(1,2,5,6,3,4)])

theorem urkel_verify_sound_witness:
  "let key = replicate 32 5; D = sample_digests; t = TLeaf key [7];
       bs = [0x00, 0xC0, 0, 0, 1, 0, 7]
   in \<exists>p. parse_for_key bs (tree_hash D t) key = Inr p \<and>
     urkel_verifier_verify D p (tree_hash D t) = Inr True \<and>
     (tree_lookup key 0 t = Some (parsed_proof_value p) \<or>
      hash_broken D (set (tree_msgs D t) \<union> set (tree_msgs D (proof_tree key (pp_proof p)))))"
proof -
  define key t where "key = (replicate 32 5 :: hash)" and "t = TLeaf key [7]"
  obtain p where p: "parse_for_key [0x00, 0xC0, 0, 0, 1, 0, 7] (tree_hash sample_digests t) key = Inr p"
    "pp_root p = tree_hash sample_digests t" "pp_name_hash p = key"
    "pp_proof p = \<lparr>proof_type = 3, proof_depth = 0, proof_nodes = [], proof_body = Exists [7]\<rparr>"
    using sample_decode by (simp add: parse_for_key_def MAX_PROOF_SIZE_def)
  then have "urkel_verifier_verify sample_digests p (tree_hash sample_digests t) = Inr True"
    by (simp add: urkel_verifier_verify_def urkel_verify_def is_sane_def leaf_hash_def TYPE_EXISTS_def
        t_def)
  with p(1) urkel_verify_sound [OF sample_digests_laws _ _ _ p(1) this] show ?thesis
    by (simp add: key_def t_def Let_def)
qed

text \<open>
  C12.  Verification is complete: for every key, the proof read off a tree that fits the format's
  limits is accepted against the hash of the tree and carries the tree's answer.
\<close>

theorem urkel_verify_complete:
  assumes "fully_known t" "wf_tree t" "tree_fits 0 t"
  shows "urkel_verify D (tree_prove D key t) (tree_hash D t) key \<and>
    tree_lookup key 0 t = Some (urkel_value (tree_prove D key t))"
proof -
  obtain ns b where nb: "prove_path D key 0 t = (ns, b)" by fastforce
  note c = prove_path_correct [OF nb assms]
  define p where "p = tree_prove D key t"
  have p: "p = \<lparr>proof_type = body_type b, proof_depth = path_len ns, proof_nodes = ns, proof_body = b\<rparr>"
    by (simp add: p_def tree_prove_def nb)
  have sane: "is_sane p"
    using c length_le_path_len [of ns] unfolding p
    by (auto simp: is_sane_def body_type_def body_settles_def split: proof_body.splits)
  have leaf: "leaf_hash D p key = Some (tree_hash D (body_tree key b))"
    and look: "tree_lookup key (path_len ns) (body_tree key b) = Some (urkel_value p)"
    using c unfolding p
    by (auto simp: leaf_hash_def urkel_value_def body_tree_def body_settles_def split: proof_body.splits)
  have "climb D key (rev (proof_nodes p)) (tree_hash D (body_tree key b), proof_depth p) =
      Some (tree_hash D t, 0)"
    using c by (simp add: climb_path p)
  with sane leaf look c show ?thesis by (simp add: urkel_verify_def flip: p_def)
qed

theorem urkel_verify_complete_witness:
  "let t = TNode prefix_empty (TLeaf (replicate 32 5) [7]) (TLeaf (replicate 32 200) [8]) in
   \<forall>key. urkel_verify sample_digests (tree_prove sample_digests key t) (tree_hash sample_digests t) key \<and>
     tree_lookup key 0 t = Some (urkel_value (tree_prove sample_digests key t))"
  using urkel_verify_complete
    [of "TNode prefix_empty (TLeaf (replicate 32 5) [7]) (TLeaf (replicate 32 200) [8])"]
  by (simp add: URKEL_BITS_def prefix_empty_def wf_prefix_def div_ceil_def Let_def)

end
