(* ===== verification/Dane.thy ===== *)
theory Dane
  imports Der Dnssec Urkel Resource
begin

text \<open>
  \<open>hns-dane/src/lib.rs\<close>: TLSA records, the policy that decides whether a presented certificate chain is
  accepted, and stateless DANE evidence, where a certificate carries an Urkel proof and a DNSSEC
  chain for its own TLSA records.  The DER reader is theory \<open>Der\<close>.
\<close>

section \<open>Definitions\<close>

subsection \<open>Records and inputs\<close>

datatype tlsa_usage = PkixTa | PkixEe | DaneTa | DaneEe
datatype tlsa_selector = FullCertificate | SubjectPublicKeyInfo
datatype tlsa_matching = Exact | Sha256 | Sha512

record tlsa_record =
  tr_usage :: tlsa_usage
  tr_selector :: tlsa_selector
  tr_matching :: tlsa_matching
  tr_association_data :: bytes

datatype domain_trust_mode = HnsStrict | HnsCompatibility | IcannWebPki
datatype webpki_status = Valid | Invalid | NotEvaluated

record dane_validation_input =
  dv_mode :: domain_trust_mode
  dv_dnssec_secure :: bool
  dv_tlsa_records :: "tlsa_record list"
  dv_cert_der :: bytes
  dv_spki_der :: bytes
  dv_webpki_status :: webpki_status

record dane_certificate_validation_input =
  dc_mode :: domain_trust_mode
  dc_dnssec_secure :: bool
  dc_tlsa_records :: "tlsa_record list"
  dc_cert_der :: bytes
  dc_webpki_status :: webpki_status

record dane_chain_validation_input =
  ch_mode :: domain_trust_mode
  ch_dnssec_secure :: bool
  ch_tlsa_records :: "tlsa_record list"
  ch_end_entity_der :: bytes
  ch_intermediate_der :: "bytes list"
  ch_webpki_status :: webpki_status

record certificate_chain_input =
  cc_end_entity_der :: bytes
  cc_end_entity_spki_der :: bytes
  cc_intermediate_der :: "bytes list"

datatype dane_decision =
    NoTlsa
  | Matched tlsa_usage
  | StatelessMatched tlsa_usage
  | WebPkiFallback
  | Failed

definition tlsa_parse_rdata :: "bytes \<Rightarrow> tlsa_record dane_result" where
  "tlsa_parse_rdata rdata =
     (if length rdata < 3 then Inl (Err ShortRecord) else
      and_then (if rdata ! 0 = 0 then Inr PkixTa else if rdata ! 0 = 1 then Inr PkixEe
                else if rdata ! 0 = 2 then Inr DaneTa else if rdata ! 0 = 3 then Inr DaneEe
                else Inl (Err UnsupportedUsage)) (\<lambda>usage.
      and_then (if rdata ! 1 = 0 then Inr FullCertificate else if rdata ! 1 = 1 then Inr SubjectPublicKeyInfo
                else Inl (Err UnsupportedSelector)) (\<lambda>selector.
      and_then (if rdata ! 2 = 0 then Inr Exact else if rdata ! 2 = 1 then Inr Sha256
                else if rdata ! 2 = 2 then Inr Sha512 else Inl (Err UnsupportedMatching)) (\<lambda>matching.
      Inr \<lparr>tr_usage = usage, tr_selector = selector, tr_matching = matching, tr_association_data = drop 3 rdata\<rparr>))))"

definition matches_der :: "digest_fns \<Rightarrow> tlsa_record \<Rightarrow> bytes \<Rightarrow> bytes \<Rightarrow> bool" where
  "matches_der D r cert_der spki_der =
     (let selected = (case tr_selector r of FullCertificate \<Rightarrow> cert_der | SubjectPublicKeyInfo \<Rightarrow> spki_der) in
      case tr_matching r of
        Exact \<Rightarrow> selected = tr_association_data r
      | Sha256 \<Rightarrow> sha256_digest D selected = tr_association_data r
      | Sha512 \<Rightarrow> sha512_digest D selected = tr_association_data r)"

definition is_ee_usage :: "tlsa_record \<Rightarrow> bool" where
  "is_ee_usage r \<longleftrightarrow> tr_usage r = PkixEe \<or> tr_usage r = DaneEe"

definition is_pkix_usage :: "tlsa_record \<Rightarrow> bool" where
  "is_pkix_usage r \<longleftrightarrow> tr_usage r = PkixTa \<or> tr_usage r = PkixEe"

definition evaluate_tlsa :: "digest_fns \<Rightarrow> tlsa_record list \<Rightarrow> bytes \<Rightarrow> bytes \<Rightarrow> dane_decision" where
  "evaluate_tlsa D records cert_der spki_der =
     (if records = [] then NoTlsa else
      case find (\<lambda>r. matches_der D r cert_der spki_der) records of
        Some r \<Rightarrow> Matched (tr_usage r)
      | None \<Rightarrow> Failed)"

subsection \<open>Policy\<close>

definition record_matches_certificate :: "digest_fns \<Rightarrow> tlsa_record \<Rightarrow> bytes \<Rightarrow> bool dane_result" where
  "record_matches_certificate D r cert_der =
     (case tr_selector r of
        FullCertificate \<Rightarrow> Inr (matches_der D r cert_der [])
      | SubjectPublicKeyInfo \<Rightarrow>
          and_then (extract_spki_der cert_der) (\<lambda>spki_der. Inr (matches_der D r cert_der spki_der)))"

fun any_certificate_matches :: "digest_fns \<Rightarrow> tlsa_record \<Rightarrow> bytes list \<Rightarrow> bool dane_result" where
  "any_certificate_matches D r [] = Inr False"
| "any_certificate_matches D r (cert_der # cs) =
     and_then (record_matches_certificate D r cert_der) (\<lambda>ok.
     if ok then Inr True else any_certificate_matches D r cs)"

definition record_matches_chain :: "digest_fns \<Rightarrow> tlsa_record \<Rightarrow> certificate_chain_input \<Rightarrow> bool dane_result" where
  "record_matches_chain D r chain =
     (case tr_usage r of
        PkixEe \<Rightarrow> Inr (matches_der D r (cc_end_entity_der chain) (cc_end_entity_spki_der chain))
      | DaneEe \<Rightarrow> Inr (matches_der D r (cc_end_entity_der chain) (cc_end_entity_spki_der chain))
      | PkixTa \<Rightarrow> any_certificate_matches D r (cc_intermediate_der chain)
      | DaneTa \<Rightarrow> any_certificate_matches D r (cc_intermediate_der chain))"

fun tlsa_chain_loop ::
  "digest_fns \<Rightarrow> certificate_chain_input \<Rightarrow> webpki_status \<Rightarrow> bool \<Rightarrow> tlsa_record list \<Rightarrow> dane_decision dane_result" where
  "tlsa_chain_loop D chain webpki rejected [] = (if rejected then Inl (Err WebPkiFailed) else Inr Failed)"
| "tlsa_chain_loop D chain webpki rejected (r # rs) =
     and_then (record_matches_chain D r chain) (\<lambda>ok.
     if \<not> ok then tlsa_chain_loop D chain webpki rejected rs
     else if is_pkix_usage r \<and> webpki \<noteq> Valid then tlsa_chain_loop D chain webpki True rs
     else Inr (Matched (tr_usage r)))"

definition evaluate_tlsa_for_chain ::
  "digest_fns \<Rightarrow> tlsa_record list \<Rightarrow> certificate_chain_input \<Rightarrow> webpki_status \<Rightarrow> dane_decision dane_result" where
  "evaluate_tlsa_for_chain D records chain webpki = tlsa_chain_loop D chain webpki False records"

definition evaluate_no_tlsa_policy :: "domain_trust_mode \<Rightarrow> webpki_status \<Rightarrow> dane_decision dane_result" where
  "evaluate_no_tlsa_policy mode webpki =
     (case mode of
        HnsStrict \<Rightarrow> Inl (Err MissingRequiredTlsa)
      | _ \<Rightarrow> (case webpki of
                Valid \<Rightarrow> Inr WebPkiFallback
              | Invalid \<Rightarrow> Inl (Err WebPkiFailed)
              | NotEvaluated \<Rightarrow> Inr NoTlsa))"

definition evaluate_policy :: "digest_fns \<Rightarrow> dane_validation_input \<Rightarrow> dane_decision dane_result" where
  "evaluate_policy D input =
     (if dv_tlsa_records input \<noteq> [] then
        (if \<not> dv_dnssec_secure input then Inl (Err InsecureTlsa)
         else evaluate_tlsa_for_chain D (dv_tlsa_records input)
           \<lparr>cc_end_entity_der = dv_cert_der input, cc_end_entity_spki_der = dv_spki_der input, cc_intermediate_der = []\<rparr>
           (dv_webpki_status input))
      else evaluate_no_tlsa_policy (dv_mode input) (dv_webpki_status input))"

definition evaluate_policy_with_certificate_chain ::
  "digest_fns \<Rightarrow> dane_chain_validation_input \<Rightarrow> dane_decision dane_result" where
  "evaluate_policy_with_certificate_chain D input =
     and_then
       (if \<exists>r \<in> set (ch_tlsa_records input). tr_selector r = SubjectPublicKeyInfo \<and> is_ee_usage r
        then extract_spki_der (ch_end_entity_der input) else Inr []) (\<lambda>spki_der.
     if ch_tlsa_records input \<noteq> [] then
       (if \<not> ch_dnssec_secure input then Inl (Err InsecureTlsa)
        else evaluate_tlsa_for_chain D (ch_tlsa_records input)
          \<lparr>cc_end_entity_der = ch_end_entity_der input, cc_end_entity_spki_der = spki_der,
           cc_intermediate_der = ch_intermediate_der input\<rparr> (ch_webpki_status input))
     else evaluate_no_tlsa_policy (ch_mode input) (ch_webpki_status input))"

definition evaluate_policy_with_certificate ::
  "digest_fns \<Rightarrow> dane_certificate_validation_input \<Rightarrow> dane_decision dane_result" where
  "evaluate_policy_with_certificate D input =
     evaluate_policy_with_certificate_chain D
       \<lparr>ch_mode = dc_mode input, ch_dnssec_secure = dc_dnssec_secure input, ch_tlsa_records = dc_tlsa_records input,
        ch_end_entity_der = dc_cert_der input, ch_intermediate_der = [], ch_webpki_status = dc_webpki_status input\<rparr>"

subsection \<open>Stateless evidence: containers\<close>

definition MAX_STATELESS_DANE_ROOTS :: nat where "MAX_STATELESS_DANE_ROOTS = 40"
definition MAX_STATELESS_DANE_PROOFS :: nat where "MAX_STATELESS_DANE_PROOFS = 2"
definition MAX_STATELESS_DANE_DNSSEC_CHAIN_BYTES :: nat where "MAX_STATELESS_DANE_DNSSEC_CHAIN_BYTES = 64 * 1024"
definition MAX_HSD_NAME_STATE_NAME_BYTES :: nat where "MAX_HSD_NAME_STATE_NAME_BYTES = 63"
definition MAX_HSD_NAME_STATE_DATA_BYTES :: nat where "MAX_HSD_NAME_STATE_DATA_BYTES = 512"
definition HSD_NAME_STATE_FIXED_TAIL_BYTES :: nat where "HSD_NAME_STATE_FIXED_TAIL_BYTES = 10"

definition EXPERIMENTAL_HIP17_URKEL_PROOF_OID :: rust_str where
  "EXPERIMENTAL_HIP17_URKEL_PROOF_OID = ascii ''1.3.6.1.4.1.55555.17.1''"

definition EXPERIMENTAL_HIP17_DNSSEC_CHAIN_OID :: rust_str where
  "EXPERIMENTAL_HIP17_DNSSEC_CHAIN_OID = ascii ''1.3.6.1.4.1.55555.17.2''"

abbreviation bad_evidence :: "'a dane_result" where
  "bad_evidence \<equiv> Inl (Err MalformedCertificateEvidence)"

record raw_cursor =
  raw_data :: bytes
  raw_offset :: nat

definition raw_new :: "bytes \<Rightarrow> raw_cursor" where
  "raw_new data = \<lparr>raw_data = data, raw_offset = 0\<rparr>"

definition raw_read_u8 :: "raw_cursor \<Rightarrow> (u8 \<times> raw_cursor) dane_result" where
  "raw_read_u8 c =
     and_then (ok_or (Err MalformedCertificateEvidence) (get_byte (raw_data c) (raw_offset c))) (\<lambda>byte.
     Inr (byte, c\<lparr>raw_offset := raw_offset c + 1\<rparr>))"

definition raw_read_bytes :: "nat \<Rightarrow> raw_cursor \<Rightarrow> (bytes \<times> raw_cursor) dane_result" where
  "raw_read_bytes len c =
     and_then (ok_or (Err MalformedCertificateEvidence) (checked_add_usize (raw_offset c) len)) (\<lambda>fin.
     and_then (ok_or (Err MalformedCertificateEvidence) (get_range (raw_data c) (raw_offset c) fin)) (\<lambda>bs.
     Inr (bs, c\<lparr>raw_offset := fin\<rparr>)))"

definition raw_read_u16_be :: "raw_cursor \<Rightarrow> (u16 \<times> raw_cursor) dane_result" where
  "raw_read_u16_be c =
     and_then (raw_read_bytes 2 c) (\<lambda>(bs, c). Inr (u16_of_be [bs ! 0, bs ! 1], c))"

definition raw_is_finished :: "raw_cursor \<Rightarrow> bool" where
  "raw_is_finished c \<longleftrightarrow> raw_offset c = length (raw_data c)"

record stateless_urkel_proof =
  su_root :: hash
  su_proof :: bytes

fun stateless_proofs_loop ::
  "nat \<Rightarrow> stateless_urkel_proof list \<Rightarrow> raw_cursor \<Rightarrow> (stateless_urkel_proof list \<times> raw_cursor) dane_result" where
  "stateless_proofs_loop 0 proofs c = Inr (proofs, c)"
| "stateless_proofs_loop (Suc n) proofs c =
     and_then (raw_read_bytes 32 c) (\<lambda>(root_bytes, c).
     and_then (map_err (\<lambda>_. Err MalformedCertificateEvidence) (hash_from_slice root_bytes)) (\<lambda>root.
     and_then (raw_read_u16_be c) (\<lambda>(proof_len, c).
     and_then (raw_read_bytes (unat proof_len) c) (\<lambda>(proof, c).
     stateless_proofs_loop n (proofs @ [\<lparr>su_root = root, su_proof = proof\<rparr>]) c))))"

definition parse_stateless_urkel_proofs :: "bytes \<Rightarrow> stateless_urkel_proof list dane_result" where
  "parse_stateless_urkel_proofs input =
     and_then (raw_read_u8 (raw_new input)) (\<lambda>(count, c).
     if unat count = 0 \<or> unat count > MAX_STATELESS_DANE_PROOFS then bad_evidence else
     and_then (stateless_proofs_loop (unat count) [] c) (\<lambda>(proofs, c).
     if \<not> raw_is_finished c then bad_evidence else Inr proofs))"

function authentication_chain_loop :: "bytes \<Rightarrow> nat \<Rightarrow> resource_record list \<Rightarrow> resource_record list dane_result" where
  "authentication_chain_loop input cursor records =
     (if cursor < length input then
        and_then (map_err (\<lambda>_. Err MalformedCertificateEvidence) (resource_record_parse input cursor)) (\<lambda>(record, next_cursor).
        if next_cursor \<le> cursor then bad_evidence
        else authentication_chain_loop input next_cursor (records @ [record]))
      else Inr records)"
  by pat_completeness auto
termination by (relation "measure (\<lambda>(input, cursor, _). length input - cursor)") auto

declare authentication_chain_loop.simps [simp del]

definition parse_rfc9102_authentication_chain :: "bytes \<Rightarrow> resource_record list dane_result" where
  "parse_rfc9102_authentication_chain input =
     (if length input > MAX_STATELESS_DANE_DNSSEC_CHAIN_BYTES \<or> length input < 3 then bad_evidence
      else authentication_chain_loop input 2 [])"

definition extract_name_state_resource_value :: "rust_str \<Rightarrow> bytes \<Rightarrow> bytes dane_result" where
  "extract_name_state_resource_value root_name v =
     and_then (ok_or (Err MalformedCertificateEvidence) (get_byte v 0)) (\<lambda>first.
     let name_len = unat first in
     if name_len > MAX_HSD_NAME_STATE_NAME_BYTES then bad_evidence else
     let name_start = 1 in
     and_then (ok_or (Err MalformedCertificateEvidence) (checked_add_usize name_start name_len)) (\<lambda>name_end.
     let data_len_start = name_end in
     and_then (ok_or (Err MalformedCertificateEvidence) (checked_add_usize data_len_start 2)) (\<lambda>data_len_end.
     if length v < data_len_end then Inl (Err InvalidCertificateEvidence) else
     and_then (index_range v name_start name_end) (\<lambda>name.
     if name \<noteq> root_name then Inl (Err InvalidCertificateEvidence) else
     and_then (index_byte v data_len_start) (\<lambda>low.
     and_then (index_byte v (data_len_start + 1)) (\<lambda>high.
     let data_len = unat (u16_of_le [low, high]) in
     if data_len > MAX_HSD_NAME_STATE_DATA_BYTES then bad_evidence else
     let data_start = data_len_end in
     and_then (ok_or (Err MalformedCertificateEvidence) (checked_add_usize data_start data_len)) (\<lambda>data_end.
     and_then (ok_or (Err MalformedCertificateEvidence) (checked_add_usize data_end HSD_NAME_STATE_FIXED_TAIL_BYTES)) (\<lambda>min_end.
     if length v < min_end then bad_evidence
     else index_range v data_start data_end))))))))"

subsection \<open>Stateless evidence: names and records\<close>

definition records_for :: "resource_record list \<Rightarrow> dns_name \<Rightarrow> record_type \<Rightarrow> resource_record list" where
  "records_for records owner record_type = filter (\<lambda>r. rr_name r = owner \<and> rr_type r = record_type) records"

text \<open>\<open>RrsigRecord::from_record\<close> does not panic (\<open>from_record_no_panic\<close>), so \<open>unwrap_or(false)\<close> covers every other case.\<close>

definition rrsig_covers :: "record_type \<Rightarrow> resource_record \<Rightarrow> bool" where
  "rrsig_covers covered r = (case rrsig_from_record r of Inr rrsig \<Rightarrow> sig_type_covered rrsig = covered | Inl _ \<Rightarrow> False)"

definition rrsig_records_for :: "resource_record list \<Rightarrow> dns_name \<Rightarrow> record_type \<Rightarrow> resource_record list" where
  "rrsig_records_for records owner covered =
     filter (rrsig_covers covered) (filter (\<lambda>r. rr_name r = owner \<and> rr_type r = TypeRrsig) records)"

definition normalize_host :: "rust_str \<Rightarrow> rust_str" where
  "normalize_host host = to_ascii_lowercase (trim_end_matches 46 (str_trim host))"

definition hns_root_label :: "rust_str \<Rightarrow> rust_str option" where
  "hns_root_label host =
     (case find (\<lambda>label. label \<noteq> []) (rev (str_split 46 host)) of
        None \<Rightarrow> None
      | Some root \<Rightarrow> if root \<noteq> [] then Some root else None)"

definition service_name :: "u16 \<Rightarrow> rust_str \<Rightarrow> rust_str \<Rightarrow> rust_str" where
  "service_name port transport host =
     ascii ''_'' @ dec_digits (unat port) @ ascii ''._'' @ to_ascii_lowercase transport @ ascii ''.'' @ trim_end_matches 46 host"

subsection \<open>Stateless evidence: validation\<close>

definition validate_direct_dnssec_tlsa_chain ::
  "crypto \<Rightarrow> dns_name \<Rightarrow> dns_name \<Rightarrow> resource_record list \<Rightarrow> resource_record list \<Rightarrow> resource_record list \<Rightarrow> u64
     \<Rightarrow> unit dane_result" where
  "validate_direct_dnssec_tlsa_chain K root_owner service_owner ds_rrset dnssec_records tlsa_rrset now_unix =
     (let dnskey_rrset = records_for dnssec_records root_owner TypeDnskey;
          dnskey_rrsig_rrset = rrsig_records_for dnssec_records root_owner TypeDnskey;
          tlsa_rrsig_rrset = rrsig_records_for dnssec_records service_owner TypeTlsa
      in if dnskey_rrset = [] \<or> dnskey_rrsig_rrset = [] \<or> tlsa_rrsig_rrset = [] then Inl (Err InvalidCertificateDnssec)
      else and_then (map_err (\<lambda>f. case f of Err _ \<Rightarrow> Err InvalidCertificateDnssec | Panic \<Rightarrow> Panic)
          (validate_signed_rrset K \<lparr>si_dnskey_owner = root_owner, si_ds_rrset = ds_rrset, si_dnskey_rrset = dnskey_rrset,
             si_dnskey_rrsig_rrset = dnskey_rrsig_rrset, si_rrset = tlsa_rrset, si_rrsig_rrset = tlsa_rrsig_rrset,
             si_now = now_unix\<rparr>)) (\<lambda>status.
        if status = Secure then Inr () else Inl (Err InvalidCertificateDnssec)))"

record stateless_dane_config =
  sc_enabled :: bool
  sc_accepted_tree_roots :: "hash list"

record stateless_dane_input =
  sd_cert_der :: bytes
  sd_host :: rust_str
  sd_port :: u16
  sd_accepted_tree_roots :: "hash list"
  sd_now_unix :: u64

text \<open>The field \<open>proof_height\<close> is always \<open>None\<close>.\<close>

datatype stateless_dane_evidence = Missing | Tlsa "tlsa_record list" hash "u32 option"

record stateless_names =
  sn_root_name :: rust_str
  sn_name_hash :: hash
  sn_owner :: dns_name
  sn_service_owner :: dns_name

definition stateless_names_of :: "digest_fns \<Rightarrow> rust_str \<Rightarrow> u16 \<Rightarrow> stateless_names dane_result" where
  "stateless_names_of D host port =
     (let host = normalize_host host in
      and_then (ok_or (Err InvalidCertificateEvidence) (hns_root_label host)) (\<lambda>root_name.
      and_then (map_err (\<lambda>_. Err InvalidCertificateEvidence) (name_hash_from_name D root_name)) (\<lambda>name_hash.
      and_then (map_err (\<lambda>_. Err InvalidCertificateEvidence) (from_ascii root_name)) (\<lambda>owner.
      and_then (map_err (\<lambda>_. Err InvalidCertificateEvidence) (from_ascii (service_name port (ascii ''tcp'') host))) (\<lambda>service_owner.
      Inr \<lparr>sn_root_name = root_name, sn_name_hash = name_hash, sn_owner = owner, sn_service_owner = service_owner\<rparr>)))))"

fun stateless_loop ::
  "crypto \<Rightarrow> stateless_dane_input \<Rightarrow> stateless_names \<Rightarrow> resource_record list \<Rightarrow> resource_record list
     \<Rightarrow> stateless_urkel_proof list \<Rightarrow> stateless_dane_evidence dane_result" where
  "stateless_loop K input names records tlsa_rrset [] = Inl (Err InvalidCertificateEvidence)"
| "stateless_loop K input names records tlsa_rrset (proof # proofs) =
     (if su_root proof \<notin> set (sd_accepted_tree_roots input) then stateless_loop K input names records tlsa_rrset proofs else
      and_then (map_err (\<lambda>_. Err MalformedCertificateEvidence)
        (parse_for_key (su_proof proof) (su_root proof) (sn_name_hash names))) (\<lambda>parsed.
      if pp_kind parsed \<noteq> Inclusion \<or> pp_name_hash parsed \<noteq> sn_name_hash names
         \<or> \<not> urkel_verify (digests K) (pp_proof parsed) (su_root proof) (sn_name_hash names)
      then stateless_loop K input names records tlsa_rrset proofs else
      and_then (ok_or (Err InvalidCertificateEvidence) (parsed_proof_value parsed)) (\<lambda>v.
      and_then (extract_name_state_resource_value (sn_root_name names) v) (\<lambda>resource_value.
      and_then (map_err (\<lambda>_. Err InvalidCertificateEvidence)
        (decode_handshake_resource_records (sn_owner names) resource_value)) (\<lambda>hns_records.
      let ds_rrset = records_for hns_records (sn_owner names) TypeDs in
      if ds_rrset = [] then Inl (Err UnsupportedCertificateEvidence) else
      and_then (validate_direct_dnssec_tlsa_chain K (sn_owner names) (sn_service_owner names) ds_rrset records tlsa_rrset
        (sd_now_unix input)) (\<lambda>_.
      and_then (collect_results (\<lambda>r. tlsa_parse_rdata (rr_rdata r)) tlsa_rrset) (\<lambda>tlsa_records.
      Inr (Tlsa tlsa_records (su_root proof) None))))))))"

definition evaluate_stateless_dane_certificate ::
  "crypto \<Rightarrow> stateless_dane_input \<Rightarrow> stateless_dane_evidence dane_result" where
  "evaluate_stateless_dane_certificate K input =
     and_then (cert_der_checked (sd_cert_der input)) (\<lambda>cert_der.
     and_then (certificate_extension_values cert_der EXPERIMENTAL_HIP17_URKEL_PROOF_OID) (\<lambda>proof_values.
     and_then (certificate_extension_values (sd_cert_der input) EXPERIMENTAL_HIP17_DNSSEC_CHAIN_OID) (\<lambda>chain_values.
     if proof_values = [] \<and> chain_values = [] then Inr Missing
     else if length proof_values \<noteq> 1 \<or> length chain_values \<noteq> 1 then bad_evidence
     else if sd_accepted_tree_roots input = [] \<or> length (sd_accepted_tree_roots input) > MAX_STATELESS_DANE_ROOTS
       then Inl (Err InvalidCertificateEvidence)
     else
     and_then (stateless_names_of (digests K) (sd_host input) (sd_port input)) (\<lambda>names.
     and_then (parse_stateless_urkel_proofs (proof_values ! 0)) (\<lambda>proofs.
     and_then (parse_rfc9102_authentication_chain (chain_values ! 0)) (\<lambda>records.
     let tlsa_rrset = records_for records (sn_service_owner names) TypeTlsa in
     if tlsa_rrset = [] then Inl (Err MissingCertificateTlsa)
     else stateless_loop K input names records tlsa_rrset proofs))))))"

section \<open>Lemmas\<close>

subsection \<open>Record matching\<close>

text \<open>What a record selects of a certificate, and what it says about it.\<close>

definition selects :: "tlsa_record \<Rightarrow> bytes \<Rightarrow> bytes \<Rightarrow> bool" where
  "selects r cert_der data \<longleftrightarrow>
     (case tr_selector r of FullCertificate \<Rightarrow> data = cert_der | SubjectPublicKeyInfo \<Rightarrow> extract_spki_der cert_der = Inr data)"

definition associated :: "digest_fns \<Rightarrow> tlsa_record \<Rightarrow> bytes \<Rightarrow> bool" where
  "associated D r data \<longleftrightarrow>
     tr_association_data r =
       (case tr_matching r of Exact \<Rightarrow> data | Sha256 \<Rightarrow> sha256_digest D data | Sha512 \<Rightarrow> sha512_digest D data)"

definition vouches_for :: "digest_fns \<Rightarrow> tlsa_record \<Rightarrow> bytes \<Rightarrow> bool" where
  "vouches_for D r cert_der \<longleftrightarrow> (\<exists>data. selects r cert_der data \<and> associated D r data)"

text \<open>The certificates of the presented chain that a record of each usage is about.\<close>

definition usage_certificates :: "tlsa_record \<Rightarrow> bytes \<Rightarrow> bytes list \<Rightarrow> bytes set" where
  "usage_certificates r end_entity intermediates = (if is_ee_usage r then {end_entity} else set intermediates)"

lemma matches_der_iff:
  "matches_der D r cert spki \<longleftrightarrow>
     associated D r (case tr_selector r of FullCertificate \<Rightarrow> cert | SubjectPublicKeyInfo \<Rightarrow> spki)"
  by (auto simp: matches_der_def associated_def Let_def split: tlsa_matching.splits)

lemma record_matches_certificate_True:
  "record_matches_certificate D r cert = Inr True \<longleftrightarrow> vouches_for D r cert"
  by (auto simp: record_matches_certificate_def matches_der_iff vouches_for_def selects_def and_then_Inr
      split: tlsa_selector.splits)

lemma any_certificate_True:
  "any_certificate_matches D r cs = Inr True \<Longrightarrow> \<exists>c \<in> set cs. vouches_for D r c"
  by (induction cs) (auto simp: and_then_Inr record_matches_certificate_True split: if_splits)

lemma any_certificate_first:
  assumes "\<forall>x \<in> set pre. record_matches_certificate D r x = Inr False" "vouches_for D r c"
  shows "any_certificate_matches D r (pre @ c # post) = Inr True"
  using assms by (induction pre) (auto simp flip: record_matches_certificate_True)

lemma tlsa_chain_loop_Matched:
  "tlsa_chain_loop D chain webpki rejected rs = Inr d \<Longrightarrow>
     d = Failed \<or>
     (\<exists>r \<in> set rs. d = Matched (tr_usage r) \<and> record_matches_chain D r chain = Inr True \<and> (is_pkix_usage r \<longrightarrow> webpki = Valid))"
  by (induction rs arbitrary: rejected) (auto simp: and_then_Inr split: if_splits)

lemma tlsa_chain_loop_first:
  assumes "\<forall>x \<in> set pre. record_matches_chain D x chain = Inr False" "record_matches_chain D r chain = Inr True"
    and "is_pkix_usage r \<longrightarrow> webpki = Valid"
  shows "tlsa_chain_loop D chain webpki rejected (pre @ r # post) = Inr (Matched (tr_usage r))"
  using assms by (induction pre arbitrary: rejected) auto

lemma record_matches_chain_True:
  assumes "record_matches_chain D r chain = Inr True"
    and "tr_selector r = SubjectPublicKeyInfo \<and> is_ee_usage r \<Longrightarrow>
      extract_spki_der (cc_end_entity_der chain) = Inr (cc_end_entity_spki_der chain)"
  shows "\<exists>c \<in> usage_certificates r (cc_end_entity_der chain) (cc_intermediate_der chain). vouches_for D r c"
proof (cases "is_ee_usage r")
  case True
  then have "matches_der D r (cc_end_entity_der chain) (cc_end_entity_spki_der chain)"
    using assms(1) by (auto simp: record_matches_chain_def is_ee_usage_def)
  then show ?thesis
    using True assms(2) by (auto simp: usage_certificates_def matches_der_iff vouches_for_def selects_def
        split: tlsa_selector.splits)
next
  case False
  then have "any_certificate_matches D r (cc_intermediate_der chain) = Inr True"
    using assms(1) by (auto simp: record_matches_chain_def is_ee_usage_def split: tlsa_usage.splits)
  then show ?thesis using False any_certificate_True by (simp add: usage_certificates_def)
qed

text \<open>Every decision of the policy, by cases on the records it was given.\<close>

lemma policy_decision:
  assumes "evaluate_policy_with_certificate_chain D input = Inr d"
  shows "if ch_tlsa_records input = [] then
      ch_mode input \<noteq> HnsStrict \<and>
      (d = WebPkiFallback \<and> ch_webpki_status input = Valid \<or> d = NoTlsa \<and> ch_webpki_status input = NotEvaluated)
    else ch_dnssec_secure input \<and>
      (d = Failed \<or>
       (\<exists>r \<in> set (ch_tlsa_records input). d = Matched (tr_usage r) \<and> (is_pkix_usage r \<longrightarrow> ch_webpki_status input = Valid) \<and>
          (\<exists>c \<in> usage_certificates r (ch_end_entity_der input) (ch_intermediate_der input). vouches_for D r c)))"
proof (cases "ch_tlsa_records input = []")
  case True
  then show ?thesis
    using assms
    by (auto simp: evaluate_policy_with_certificate_chain_def evaluate_no_tlsa_policy_def
        split: domain_trust_mode.splits webpki_status.splits)
next
  case False
  then obtain spki where spki: "(if \<exists>r \<in> set (ch_tlsa_records input). tr_selector r = SubjectPublicKeyInfo \<and> is_ee_usage r
        then extract_spki_der (ch_end_entity_der input) else Inr []) = Inr spki"
    and sec: "ch_dnssec_secure input"
    and l: "tlsa_chain_loop D \<lparr>cc_end_entity_der = ch_end_entity_der input, cc_end_entity_spki_der = spki,
        cc_intermediate_der = ch_intermediate_der input\<rparr> (ch_webpki_status input) False (ch_tlsa_records input) = Inr d"
    using assms unfolding evaluate_policy_with_certificate_chain_def evaluate_tlsa_for_chain_def and_then_Inr
    by (auto split: if_splits)
  show ?thesis
    using tlsa_chain_loop_Matched [OF l] False sec record_matches_chain_True spki
    by (auto split: if_splits) (metis certificate_chain_input.simps(1-3))+
qed

subsection \<open>Name states\<close>

text \<open>The layout of a name state: the name, the length-prefixed resource data, at least ten bytes of further state.\<close>

definition name_state :: "rust_str \<Rightarrow> bytes \<Rightarrow> bytes \<Rightarrow> bytes" where
  "name_state name data tail = word_of_nat (length name) # name @ u16_to_le (word_of_nat (length data)) @ data @ tail"

definition wf_name_state :: "rust_str \<Rightarrow> bytes \<Rightarrow> bytes \<Rightarrow> bool" where
  "wf_name_state name data tail \<longleftrightarrow> length name \<le> 63 \<and> length data \<le> 512 \<and> 10 \<le> length tail"

lemmas name_state_limits = MAX_HSD_NAME_STATE_NAME_BYTES_def MAX_HSD_NAME_STATE_DATA_BYTES_def
  HSD_NAME_STATE_FIXED_TAIL_BYTES_def

lemma u16_le_bytes: obtains x y where "u16_to_le w = [x, y]"
proof -
  have "length (u16_to_le w) = Suc (Suc 0)" by simp
  then show ?thesis using that by (auto simp only: length_Suc_conv length_0_conv)
qed

lemma extract_name_state_complete:
  assumes "wf_name_state name data tail"
  shows "extract_name_state_resource_value name (name_state name data tail) = Inr data"
proof -
  have n: "unat (word_of_nat (length name) :: u8) = length name"
    using assms by (simp add: wf_name_state_def unat_of_nat)
  define v where "v = name_state name data tail"
  obtain l h where lh: "u16_to_le (word_of_nat (length data)) = [l, h]"
    by (rule u16_le_bytes)
  have d: "unat (u16_of_le [l, h]) = length data"
    using assms word_bytes_round_trip(3) [of "word_of_nat (length data)"] by (simp add: lh wf_name_state_def unat_of_nat)
  have v: "v = word_of_nat (length name) # name @ [l, h] @ data @ tail" by (simp add: v_def name_state_def lh)
  have len: "length v = 3 + length name + length data + length tail" by (simp add: v)
  have name: "index_range v 1 (1 + length name) = (Inr name :: bytes dane_result)"
    unfolding v by (simp add: slice_def)
  have low: "index_byte v (1 + length name) = (Inr l :: u8 dane_result)"
    "index_byte v (1 + length name + 1) = (Inr h :: u8 dane_result)"
    unfolding v by (simp_all add: nth_append)
  have data: "index_range v (1 + length name + 2) (1 + length name + 2 + length data) = (Inr data :: bytes dane_result)"
    unfolding v by (simp add: slice_def)
  have first: "get_byte v 0 = Some (word_of_nat (length name))" by (simp add: v)
  have add: "checked_add_usize 1 (length name) = Some (1 + length name)"
    "checked_add_usize (1 + length name) 2 = Some (1 + length name + 2)"
    "checked_add_usize (1 + length name + 2) (length data) = Some (1 + length name + 2 + length data)"
    "checked_add_usize (1 + length name + 2 + length data) 10 = Some (1 + length name + 2 + length data + 10)"
    using assms by (simp_all add: wf_name_state_def)
  have conds: "(length name > 63) = False" "(length v < 1 + length name + 2) = False" "(length data > 512) = False"
    "(length v < 1 + length name + 2 + length data + 10) = False"
    using assms len by (simp_all add: wf_name_state_def)
  show ?thesis
    unfolding v_def [symmetric]
    by (simp only: extract_name_state_resource_value_def Let_def name_state_limits first ok_or_simps and_then_simps
        n add conds name low data d if_False simp_thms)
qed

lemma slice_from: "\<lbrakk>a \<le> b; b \<le> length xs\<rbrakk> \<Longrightarrow> drop a xs = slice xs a b @ drop b xs"
  by (metis append_take_drop_id drop_drop le_add_diff_inverse2 slice_def)

lemma extract_name_state_sound:
  assumes "extract_name_state_resource_value name v = Inr data"
  shows "\<exists>tail. wf_name_state name data tail \<and> v = name_state name data tail"
proof -
  define n where "n = unat (v ! 0)"
  define e where "e = 1 + n"
  define m where "m = unat (u16_of_le [v ! e, v ! (e + 1)])"
  have r: "v \<noteq> []" "n \<le> 63" "e + 2 \<le> length v" "slice v 1 e = name" "m \<le> 512" "e + 2 + m + 10 \<le> length v"
    "slice v (e + 2) (e + 2 + m) = data"
    using assms unfolding n_def e_def m_def
    by (auto simp: extract_name_state_resource_value_def and_then_Inr Let_def name_state_limits not_less split: if_splits)
  have "v = v ! 0 # drop 1 v" using r(1) by (cases v) auto
  also have "drop 1 v = name @ drop e v" using r by (subst slice_from [of 1 e]) (auto simp: e_def)
  also have "drop e v = slice v e (e + 2) @ drop (e + 2) v" using r by (intro slice_from) auto
  also have "drop (e + 2) v = data @ drop (e + 2 + m) v" using r by (subst slice_from [of "e + 2" "e + 2 + m"]) auto
  also have "slice v e (e + 2) = [v ! e, v ! (e + 1)]" using r(3) by (simp add: slice_Cons)
  finally have v: "v = v ! 0 # name @ [v ! e, v ! (e + 1)] @ data @ drop (e + 2 + m) v" by simp
  have len: "length name = n" "length data = m" using r by (auto simp: e_def)
  have "word_of_nat (length name) = v ! 0" by (simp add: len n_def)
  moreover have "u16_to_le (word_of_nat (length data)) = [v ! e, v ! (e + 1)]"
    by (simp add: len m_def u16_to_le_of_le)
  ultimately have "v = name_state name data (drop (e + 2 + m) v)" unfolding name_state_def using v by simp
  then show ?thesis using r len by (intro exI [of _ "drop (e + 2 + m) v"]) (auto simp: wf_name_state_def)
qed

subsection \<open>Stateless evidence\<close>

lemma direct_chain_Inr:
  assumes "validate_direct_dnssec_tlsa_chain K owner service ds records tlsa now = Inr u"
  shows "\<exists>keys key_sigs tlsa_sigs. set keys \<subseteq> set records \<and> (\<forall>r \<in> set keys. rr_name r = owner) \<and> anchored K owner ds keys \<and>
    signed_by K owner keys keys key_sigs now \<and> signed_by K owner keys tlsa tlsa_sigs now"
proof -
  define keys where "keys = records_for records owner TypeDnskey"
  have "validate_signed_rrset K \<lparr>si_dnskey_owner = owner, si_ds_rrset = ds, si_dnskey_rrset = keys,
      si_dnskey_rrsig_rrset = rrsig_records_for records owner TypeDnskey, si_rrset = tlsa,
      si_rrsig_rrset = rrsig_records_for records service TypeTlsa, si_now = now\<rparr> = Inr Secure"
    using assms by (auto simp: validate_direct_dnssec_tlsa_chain_def Let_def and_then_Inr keys_def split: if_splits)
  from validate_signed_rrset_Secure [OF this] have "anchored K owner ds keys"
    "signed_by K owner keys keys (rrsig_records_for records owner TypeDnskey) now"
    "signed_by K owner keys tlsa (rrsig_records_for records service TypeTlsa) now" by simp_all
  moreover have "set keys \<subseteq> set records" "\<forall>r \<in> set keys. rr_name r = owner" by (auto simp: keys_def records_for_def)
  ultimately show ?thesis by blast
qed

text \<open>What stands behind the evidence of one proof: a name state under an accepted root and signatures from its DS set.\<close>

definition evidence_grounds ::
  "crypto \<Rightarrow> stateless_names \<Rightarrow> u64 \<Rightarrow> resource_record list \<Rightarrow> hash \<Rightarrow> parsed_proof \<Rightarrow> bytes \<Rightarrow> resource_record list \<Rightarrow> bool" where
  "evidence_grounds K names now tlsa_rrset root parsed v keys \<longleftrightarrow>
     (\<exists>bs. parse_for_key bs root (sn_name_hash names) = Inr parsed) \<and>
     urkel_verifier_verify (digests K) parsed root = Inr True \<and> parsed_proof_value parsed = Some v \<and>
     (\<exists>data tail hns_records key_sigs tlsa_sigs.
        wf_name_state (sn_root_name names) data tail \<and> v = name_state (sn_root_name names) data tail \<and>
        decode_handshake_resource_records (sn_owner names) data = Inr hns_records \<and>
        anchored K (sn_owner names) (records_for hns_records (sn_owner names) TypeDs) keys \<and>
        signed_by K (sn_owner names) keys keys key_sigs now \<and> signed_by K (sn_owner names) keys tlsa_rrset tlsa_sigs now)"

lemma stateless_loop_Tlsa:
  assumes "stateless_loop K input names records rrset proofs = Inr (Tlsa recs root h)"
  shows "root \<in> set (sd_accepted_tree_roots input) \<and>
    list_all2 (\<lambda>r t. tlsa_parse_rdata (rr_rdata r) = Inr t) rrset recs \<and>
    (\<exists>parsed v keys. evidence_grounds K names (sd_now_unix input) rrset root parsed v keys)"
  using assms
proof (induction proofs)
  case (Cons su proofs)
  define go where "go \<longleftrightarrow> (\<exists>parsed. su_root su \<in> set (sd_accepted_tree_roots input) \<and>
    parse_for_key (su_proof su) (su_root su) (sn_name_hash names) = Inr parsed \<and>
    pp_kind parsed = Inclusion \<and> pp_name_hash parsed = sn_name_hash names \<and>
    urkel_verify (digests K) (pp_proof parsed) (su_root su) (sn_name_hash names))"
  show ?case
  proof (cases go)
    case False
    then have "stateless_loop K input names records rrset proofs = Inr (Tlsa recs root h)"
      using Cons.prems by (auto simp: go_def and_then_Inr split: if_splits)
    then show ?thesis by (rule Cons.IH)
  next
    case True
    then obtain parsed where p: "su_root su \<in> set (sd_accepted_tree_roots input)"
      "parse_for_key (su_proof su) (su_root su) (sn_name_hash names) = Inr parsed"
      "pp_kind parsed = Inclusion" "pp_name_hash parsed = sn_name_hash names"
      "urkel_verify (digests K) (pp_proof parsed) (su_root su) (sn_name_hash names)" unfolding go_def by blast
    then obtain v data hns_records u where r: "parsed_proof_value parsed = Some v"
      "extract_name_state_resource_value (sn_root_name names) v = Inr data"
      "decode_handshake_resource_records (sn_owner names) data = Inr hns_records"
      "validate_direct_dnssec_tlsa_chain K (sn_owner names) (sn_service_owner names)
         (records_for hns_records (sn_owner names) TypeDs) records rrset (sd_now_unix input) = Inr u"
      "collect_results (\<lambda>r. tlsa_parse_rdata (rr_rdata r)) rrset = Inr recs" "root = su_root su"
      using Cons.prems by (auto simp: and_then_Inr Let_def split: if_splits)
    have "pp_root parsed = root" using p(2) r(6) by (auto simp: parse_for_key_def and_then_Inr split: if_splits)
    then have "urkel_verifier_verify (digests K) parsed root = Inr True"
      using p(4,5) r(6) by (simp add: urkel_verifier_verify_def)
    then have "\<exists>keys. evidence_grounds K names (sd_now_unix input) rrset root parsed v keys"
      unfolding evidence_grounds_def
      using p(2) r(1,3,6) extract_name_state_sound [OF r(2)] direct_chain_Inr [OF r(4)] by blast
    then show ?thesis using p(1) r(5,6) by (auto simp: collect_results_list_all2)
  qed
qed simp

lemma stateless_evidence_Tlsa:
  assumes "evaluate_stateless_dane_certificate K input = Inr (Tlsa recs root h)"
  shows "root \<in> set (sd_accepted_tree_roots input) \<and>
    (\<exists>names tlsa_rrset parsed v keys.
       stateless_names_of (digests K) (sd_host input) (sd_port input) = Inr names \<and>
       tlsa_rrset \<noteq> [] \<and> (\<forall>r \<in> set tlsa_rrset. rr_name r = sn_service_owner names \<and> rr_type r = TypeTlsa) \<and>
       list_all2 (\<lambda>r t. tlsa_parse_rdata (rr_rdata r) = Inr t) tlsa_rrset recs \<and>
       evidence_grounds K names (sd_now_unix input) tlsa_rrset root parsed v keys)"
proof -
  obtain names records proofs where n: "stateless_names_of (digests K) (sd_host input) (sd_port input) = Inr names"
    and ne: "records_for records (sn_service_owner names) TypeTlsa \<noteq> []"
    and l: "stateless_loop K input names records (records_for records (sn_service_owner names) TypeTlsa) proofs = Inr (Tlsa recs root h)"
    using assms by (auto simp: evaluate_stateless_dane_certificate_def and_then_Inr Let_def split: if_splits)
  have "\<forall>r \<in> set (records_for records (sn_service_owner names) TypeTlsa). rr_name r = sn_service_owner names \<and> rr_type r = TypeTlsa"
    by (simp add: records_for_def)
  with stateless_loop_Tlsa [OF l] n ne show ?thesis by blast
qed

end
