(* ===== verification/Origin_Tls.thy ===== *)
theory Origin_Tls
  imports Dane "HOL-Library.AList"
begin

text \<open>
  The certificate verifier of \<open>hns-transport/src/lib.rs\<close>: rustls calls \<open>verify_server_cert\<close> during a
  handshake; the verifier decides by TLSA records, by evidence in the certificate, or by WebPKI, and keeps
  the decision for the request that started the handshake and for later handshakes that resume the session and
  verify nothing.  The WebPKI verifier is third-party code: its result is an argument.  The
  mutexes are not poisoned.  A \<open>HashMap\<close> is an association list; which entry \<open>keys().next()\<close> yields is
  the parameter \<open>pick\<close>.
\<close>

section \<open>Definitions\<close>

datatype tlsa_record_source = NativeTlsa | HnsProofTxt

record tls_validation =
  tv_mode :: domain_trust_mode
  tv_dnssec_secure :: bool
  tv_tlsa_records :: "tlsa_record list"
  tv_tlsa_source :: "tlsa_record_source option"
  tv_service_port :: u16
  tv_stateless_dane :: stateless_dane_config

definition tls_hns_strict :: "bool \<Rightarrow> tlsa_record list \<Rightarrow> tls_validation" where
  "tls_hns_strict dnssec_secure records =
     \<lparr>tv_mode = HnsStrict, tv_dnssec_secure = dnssec_secure, tv_tlsa_records = records, tv_tlsa_source = None,
      tv_service_port = 443, tv_stateless_dane = \<lparr>sc_enabled = False, sc_accepted_tree_roots = []\<rparr>\<rparr>"

definition tls_hns_compatibility :: "bool \<Rightarrow> tlsa_record list \<Rightarrow> tls_validation" where
  "tls_hns_compatibility dnssec_secure records =
     \<lparr>tv_mode = HnsCompatibility, tv_dnssec_secure = dnssec_secure, tv_tlsa_records = records, tv_tlsa_source = None,
      tv_service_port = 443, tv_stateless_dane = \<lparr>sc_enabled = False, sc_accepted_tree_roots = []\<rparr>\<rparr>"

record tls_inspection =
  ti_end_entity_der :: bytes
  ti_end_entity_spki_der :: bytes
  ti_intermediate_der :: "bytes list"
  ti_webpki_status :: webpki_status

text \<open>The messages of \<open>RustlsError::General\<close> by their cause, and the error of the WebPKI verifier.\<close>

datatype 'w rustls_error =
    StatelessRejected dane_error
  | AssociationMismatch
  | PolicyRejected dane_error
  | InspectionFailed dane_error
  | WebPki 'w

definition lift_dane :: "(dane_error \<Rightarrow> 'w rustls_error) \<Rightarrow> 'a dane_result \<Rightarrow> 'w rustls_error fault + 'a" where
  "lift_dane g m = map_err (\<lambda>f. case f of Err e \<Rightarrow> Err (g e) | Panic \<Rightarrow> Panic) m"

definition tls_certificate_inspection ::
  "bytes \<Rightarrow> bytes list \<Rightarrow> webpki_status \<Rightarrow> 'w rustls_error fault + tls_inspection" where
  "tls_certificate_inspection end_entity intermediates webpki =
     and_then (lift_dane InspectionFailed (extract_spki_der end_entity)) (\<lambda>spki.
     Inr \<lparr>ti_end_entity_der = end_entity, ti_end_entity_spki_der = spki, ti_intermediate_der = intermediates,
          ti_webpki_status = webpki\<rparr>)"

definition with_stateless_dane_provenance ::
  "dane_decision \<Rightarrow> stateless_dane_evidence option \<Rightarrow> dane_decision" where
  "with_stateless_dane_provenance decision evidence =
     (case (decision, evidence) of
        (Matched usage, Some (Tlsa _ _ _)) \<Rightarrow> StatelessMatched usage
      | _ \<Rightarrow> decision)"

subsection \<open>The captured decisions\<close>

definition MAX_TLS_CAPTURE_ENTRIES :: nat where "MAX_TLS_CAPTURE_ENTRIES = 256"

record handshake_capture =
  hc_server_name :: rust_str
  hc_decision :: "dane_decision option"
  hc_inspection :: "tls_inspection option"

record dane_verifier =
  dv_tls :: tls_validation
  dv_handshakes :: "(nat \<times> handshake_capture) list"
  dv_last_success :: "(rust_str \<times> handshake_capture) list"

record pickers =
  pick_thread :: "(nat \<times> handshake_capture) list \<Rightarrow> nat option"
  pick_name :: "(rust_str \<times> handshake_capture) list \<Rightarrow> rust_str option"

definition verifier_new :: "tls_validation \<Rightarrow> dane_verifier" where
  "verifier_new tls = \<lparr>dv_tls = tls, dv_handshakes = [], dv_last_success = []\<rparr>"

definition evict_one_if_at_capacity ::
  "(('k \<times> 'v) list \<Rightarrow> 'k option) \<Rightarrow> nat \<Rightarrow> ('k \<times> 'v) list \<Rightarrow> ('k \<times> 'v) list" where
  "evict_one_if_at_capacity pick capacity m =
     (if length m < capacity then m
      else case pick m of None \<Rightarrow> m | Some key \<Rightarrow> AList.delete key m)"

definition insert_bounded ::
  "(('k \<times> 'v) list \<Rightarrow> 'k option) \<Rightarrow> 'k \<Rightarrow> 'v \<Rightarrow> ('k \<times> 'v) list \<Rightarrow> ('k \<times> 'v) list" where
  "insert_bounded pick key v m =
     (let m = (if map_of m key = None then evict_one_if_at_capacity pick MAX_TLS_CAPTURE_ENTRIES m else m)
      in AList.update key v m)"

definition begin_handshake :: "pickers \<Rightarrow> nat \<Rightarrow> rust_str \<Rightarrow> dane_verifier \<Rightarrow> dane_verifier" where
  "begin_handshake P thread server_name v =
     v\<lparr>dv_handshakes := insert_bounded (pick_thread P) thread
         \<lparr>hc_server_name = to_ascii_lowercase server_name, hc_decision = None, hc_inspection = None\<rparr> (dv_handshakes v)\<rparr>"

text \<open>\<open>None\<close> is the error that no certificate policy was evaluated.\<close>

definition finish_handshake ::
  "nat \<Rightarrow> rust_str \<Rightarrow> dane_verifier \<Rightarrow> (dane_decision \<times> tls_inspection option) option \<times> dane_verifier" where
  "finish_handshake thread server_name v =
     (let capture = map_of (dv_handshakes v) thread;
          v = v\<lparr>dv_handshakes := AList.delete thread (dv_handshakes v)\<rparr>;
          cached = (case map_of (dv_last_success v) (to_ascii_lowercase server_name) of
              None \<Rightarrow> None
            | Some c \<Rightarrow> (case hc_decision c of None \<Rightarrow> None | Some d \<Rightarrow> Some (d, hc_inspection c)))
      in case capture of
           None \<Rightarrow> (cached, v)
         | Some c \<Rightarrow> (case hc_decision c of Some d \<Rightarrow> (Some (d, hc_inspection c), v) | None \<Rightarrow> (cached, v)))"

definition store_capture ::
  "pickers \<Rightarrow> nat \<Rightarrow> dane_decision \<Rightarrow> tls_inspection \<Rightarrow> dane_verifier \<Rightarrow> dane_verifier" where
  "store_capture P thread decision inspection v =
     (let capture = (case map_of (dv_handshakes v) thread of
            Some c \<Rightarrow> c | None \<Rightarrow> \<lparr>hc_server_name = [], hc_decision = None, hc_inspection = None\<rparr>);
          capture = capture\<lparr>hc_decision := Some decision, hc_inspection := Some inspection\<rparr>;
          v = v\<lparr>dv_handshakes := AList.update thread capture (dv_handshakes v)\<rparr>
      in if hc_server_name capture \<noteq> []
         then v\<lparr>dv_last_success := insert_bounded (pick_name P) (hc_server_name capture) capture (dv_last_success v)\<rparr>
         else v)"

subsection \<open>Verification\<close>

text \<open>The part of \<open>verify_server_cert\<close> before the decision is stored.\<close>

definition stateless_evidence ::
  "crypto \<Rightarrow> tls_validation \<Rightarrow> bytes \<Rightarrow> rust_str \<Rightarrow> u64 \<Rightarrow> 'w rustls_error fault + stateless_dane_evidence option" where
  "stateless_evidence K tls end_entity server_name now =
     (if sc_enabled (tv_stateless_dane tls) \<and> tv_mode tls \<noteq> IcannWebPki \<and> tv_tlsa_records tls = []
      then and_then (lift_dane StatelessRejected (evaluate_stateless_dane_certificate K
          \<lparr>sd_cert_der = end_entity, sd_host = server_name, sd_port = tv_service_port tls,
           sd_accepted_tree_roots = sc_accepted_tree_roots (tv_stateless_dane tls), sd_now_unix = now\<rparr>)) (\<lambda>evidence.
        Inr (Some evidence))
      else Inr None)"

definition effective_records :: "tls_validation \<Rightarrow> stateless_dane_evidence option \<Rightarrow> tlsa_record list" where
  "effective_records tls evidence =
     (case evidence of Some (Tlsa records _ _) \<Rightarrow> records | _ \<Rightarrow> tv_tlsa_records tls)"

definition effective_secure :: "tls_validation \<Rightarrow> stateless_dane_evidence option \<Rightarrow> bool" where
  "effective_secure tls evidence =
     (case evidence of Some (Tlsa _ _ _) \<Rightarrow> True | _ \<Rightarrow> tv_dnssec_secure tls)"

text \<open>The outcome of the policy: \<open>None\<close> is the return of the WebPKI result itself.\<close>

definition server_decision ::
  "crypto \<Rightarrow> tls_validation \<Rightarrow> 'w + unit \<Rightarrow> bytes \<Rightarrow> bytes list \<Rightarrow> rust_str \<Rightarrow> u64
     \<Rightarrow> 'w rustls_error fault + (dane_decision \<times> tls_inspection) option" where
  "server_decision K tls webpki_result end_entity intermediates server_name now =
     (let webpki_status = (case webpki_result of Inr _ \<Rightarrow> Valid | Inl _ \<Rightarrow> Invalid) in
      and_then (stateless_evidence K tls end_entity server_name now) (\<lambda>evidence.
      case and_then (evaluate_policy_with_certificate_chain (digests K)
              \<lparr>ch_mode = tv_mode tls, ch_dnssec_secure = effective_secure tls evidence,
               ch_tlsa_records = effective_records tls evidence, ch_end_entity_der = end_entity,
               ch_intermediate_der = intermediates, ch_webpki_status = webpki_status\<rparr>)
             (\<lambda>decision. Inr (with_stateless_dane_provenance decision evidence)) of
        Inr decision \<Rightarrow>
          (if decision = Failed then Inl (Err AssociationMismatch) else
           and_then (tls_certificate_inspection end_entity intermediates webpki_status) (\<lambda>inspection.
           Inr (Some (decision, inspection))))
      | Inl (Err e) \<Rightarrow>
          (if e = WebPkiFailed then and_then (map_err (\<lambda>w. Err (WebPki w)) webpki_result) (\<lambda>_. Inr None)
           else Inl (Err (PolicyRejected e)))
      | Inl Panic \<Rightarrow> Inl Panic))"

definition verify_server_cert ::
  "crypto \<Rightarrow> pickers \<Rightarrow> 'w + unit \<Rightarrow> nat \<Rightarrow> bytes \<Rightarrow> bytes list \<Rightarrow> rust_str \<Rightarrow> u64 \<Rightarrow> dane_verifier
     \<Rightarrow> ('w rustls_error fault + unit) \<times> dane_verifier" where
  "verify_server_cert K P webpki_result thread end_entity intermediates server_name now v =
     (case server_decision K (dv_tls v) webpki_result end_entity intermediates server_name now of
        Inl e \<Rightarrow> (Inl e, v)
      | Inr None \<Rightarrow> (Inr (), v)
      | Inr (Some (decision, inspection)) \<Rightarrow> (Inr (), store_capture P thread decision inspection v))"

section \<open>Lemmas\<close>

subsection \<open>Decisions\<close>

lemma extract_spki_errors:
  "extract_spki_der c = Inl e \<Longrightarrow> e \<in> {Panic, Err MalformedCertificate, Err MissingSubjectPublicKeyInfo}"
proof -
  have loop: "der_length_loop d n l c = Inl e \<Longrightarrow> e \<in> {Panic, Err MalformedCertificate}" for d n l c e
    by (induction d n l c rule: der_length_loop.induct) (auto simp: and_then_Inl)
  have len: "read_der_length d c l = Inl e \<Longrightarrow> e \<in> {Panic, Err MalformedCertificate}" for d c l e
    by (auto simp: read_der_length_def and_then_Inl Let_def split: if_splits dest: loop)
  have el: "read_der_element_with_limit d c l = Inl e \<Longrightarrow> e \<in> {Panic, Err MalformedCertificate}" for d c l e
    by (auto simp: read_der_element_with_limit_def and_then_Inl Let_def split: if_splits dest: len)
  have skip: "skip_der_element d c l = Inl e \<Longrightarrow> e \<in> {Panic, Err MalformedCertificate}" for d c l e
    by (auto simp: skip_der_element_def and_then_Inl dest: el)
  have skips: "skip_elements d n c l = Inl e \<Longrightarrow> e \<in> {Panic, Err MalformedCertificate}" for d n c l e
    by (induction d n c l rule: skip_elements.induct) (auto simp: and_then_Inl dest: skip)
  have opt: "skip_optional d t c l = Inl e \<Longrightarrow> e \<in> {Panic, Err MalformedCertificate}" for d t c l e
    by (auto simp: skip_optional_def peek_der_tag_def and_then_Inl split: if_splits dest: skip)
  show "extract_spki_der c = Inl e \<Longrightarrow> ?thesis"
    by (auto simp: extract_spki_der_def read_tbs_certificate_def read_der_element_def skip_fields_def read_spki_def
        and_then_Inl split: if_splits dest: el skips opt)
qed

lemma record_matches_chain_error:
  "record_matches_chain D r chain = Inl e \<Longrightarrow> e \<noteq> Err WebPkiFailed"
proof -
  have c: "record_matches_certificate D r c = Inl e \<Longrightarrow> e \<noteq> Err WebPkiFailed" for c e
    by (auto simp: record_matches_certificate_def and_then_Inl split: tlsa_selector.splits dest: extract_spki_errors)
  have "any_certificate_matches D r cs = Inl e \<Longrightarrow> e \<noteq> Err WebPkiFailed" for cs e
    by (induction cs) (auto simp: and_then_Inl split: if_splits dest: c)
  then show "record_matches_chain D r chain = Inl e \<Longrightarrow> ?thesis"
    by (auto simp: record_matches_chain_def split: tlsa_usage.splits)
qed

lemma tlsa_chain_loop_webpki:
  "tlsa_chain_loop D chain webpki rejected rs = Inl (Err WebPkiFailed) \<Longrightarrow> rejected \<or> webpki \<noteq> Valid"
  by (induction rs arbitrary: rejected) (auto simp: and_then_Inl split: if_splits dest: record_matches_chain_error)

lemma policy_webpki_failed:
  "evaluate_policy_with_certificate_chain D input = Inl (Err WebPkiFailed) \<Longrightarrow> ch_webpki_status input \<noteq> Valid"
  by (auto simp: evaluate_policy_with_certificate_chain_def evaluate_tlsa_for_chain_def evaluate_no_tlsa_policy_def
      and_then_Inl split: if_splits domain_trust_mode.splits webpki_status.splits
      dest!: extract_spki_errors tlsa_chain_loop_webpki)

lemma server_decision_Inr:
  fixes webpki :: "'w + unit"
  assumes "server_decision K tls webpki ee ints name now = Inr out"
  obtains evidence d inspection where
    "stateless_evidence K tls ee name now = (Inr evidence :: 'w rustls_error fault + stateless_dane_evidence option)"
    "evaluate_policy_with_certificate_chain (digests K)
       \<lparr>ch_mode = tv_mode tls, ch_dnssec_secure = effective_secure tls evidence,
        ch_tlsa_records = effective_records tls evidence, ch_end_entity_der = ee,
        ch_intermediate_der = ints, ch_webpki_status = (case webpki of Inr _ \<Rightarrow> Valid | Inl _ \<Rightarrow> Invalid)\<rparr> = Inr d"
    "with_stateless_dane_provenance d evidence \<noteq> Failed"
    "out = Some (with_stateless_dane_provenance d evidence, inspection)"
    "ti_end_entity_der inspection = ee" "ti_intermediate_der inspection = ints"
proof -
  define pol where "pol = (\<lambda>evidence. evaluate_policy_with_certificate_chain (digests K)
       \<lparr>ch_mode = tv_mode tls, ch_dnssec_secure = effective_secure tls evidence,
        ch_tlsa_records = effective_records tls evidence, ch_end_entity_der = ee,
        ch_intermediate_der = ints, ch_webpki_status = (case webpki of Inr _ \<Rightarrow> Valid | Inl _ \<Rightarrow> Invalid)\<rparr>)"
  obtain evidence where
    ev: "stateless_evidence K tls ee name now = (Inr evidence :: 'w rustls_error fault + stateless_dane_evidence option)"
    using assms by (cases "stateless_evidence K tls ee name now :: 'w rustls_error fault + stateless_dane_evidence option") (auto simp: server_decision_def Let_def)
  have "webpki = Inr () \<Longrightarrow> pol evidence \<noteq> Inl (Err WebPkiFailed)"
    using policy_webpki_failed unfolding pol_def by fastforce
  moreover have main: "(case and_then (pol evidence) (\<lambda>decision. Inr (with_stateless_dane_provenance decision evidence)) of
        Inr decision \<Rightarrow>
          (if decision = Failed then Inl (Err AssociationMismatch) else
           and_then (tls_certificate_inspection ee ints (case webpki of Inr _ \<Rightarrow> Valid | Inl _ \<Rightarrow> Invalid)) (\<lambda>inspection.
           Inr (Some (decision, inspection))))
      | Inl (Err e) \<Rightarrow>
          (if e = WebPkiFailed then and_then (map_err (\<lambda>w. Err (WebPki w)) webpki) (\<lambda>_. Inr None)
           else Inl (Err (PolicyRejected e)))
      | Inl Panic \<Rightarrow> Inl Panic) = Inr out"
    using assms by (simp add: server_decision_def pol_def ev Let_def)
  ultimately obtain d where d: "pol evidence = Inr d"
    by (cases "pol evidence"; cases webpki) (auto split: fault.splits if_splits)
  have s: "(if with_stateless_dane_provenance d evidence = Failed then Inl (Err AssociationMismatch) else
     and_then (tls_certificate_inspection ee ints (case webpki of Inr _ \<Rightarrow> Valid | Inl _ \<Rightarrow> Invalid)) (\<lambda>inspection.
       Inr (Some (with_stateless_dane_provenance d evidence, inspection)))) =
     (Inr out :: 'w rustls_error fault + (dane_decision \<times> tls_inspection) option)"
    using main d by (simp split del: if_split)
  show ?thesis
    using s that [OF ev d [unfolded pol_def]]
    by (auto simp: and_then_Inr tls_certificate_inspection_def split: if_splits)
qed

text \<open>What an accepted certificate rests on.\<close>

definition vouched :: "crypto \<Rightarrow> tls_validation \<Rightarrow> bool \<Rightarrow> bytes \<Rightarrow> bytes list \<Rightarrow> tlsa_record list \<Rightarrow> bool" where
  "vouched K tls webpki_ok ee ints records \<longleftrightarrow>
     (\<exists>r \<in> set records. (is_pkix_usage r \<longrightarrow> webpki_ok) \<and>
        (\<exists>c \<in> usage_certificates r ee ints. vouches_for (digests K) r c))"

definition server_accepted :: "crypto \<Rightarrow> tls_validation \<Rightarrow> bool \<Rightarrow> bytes \<Rightarrow> bytes list \<Rightarrow> rust_str \<Rightarrow> u64 \<Rightarrow> bool" where
  "server_accepted K tls webpki_ok ee ints server_name now \<longleftrightarrow>
     (if tv_tlsa_records tls \<noteq> [] then tv_dnssec_secure tls \<and> vouched K tls webpki_ok ee ints (tv_tlsa_records tls)
      else tv_mode tls \<noteq> HnsStrict \<and> webpki_ok \<or>
        (\<exists>records root h. sc_enabled (tv_stateless_dane tls) \<and> tv_mode tls \<noteq> IcannWebPki \<and>
           evaluate_stateless_dane_certificate K
             \<lparr>sd_cert_der = ee, sd_host = server_name, sd_port = tv_service_port tls,
              sd_accepted_tree_roots = sc_accepted_tree_roots (tv_stateless_dane tls), sd_now_unix = now\<rparr>
             = Inr (Tlsa records root h) \<and>
           vouched K tls webpki_ok ee ints records))"

lemma lift_dane_Inr [simp]: "lift_dane g m = Inr x \<longleftrightarrow> m = Inr x"
  by (simp add: lift_dane_def)

lemma stateless_records_nonempty:
  "evaluate_stateless_dane_certificate K input = Inr (Tlsa records root h) \<Longrightarrow> records \<noteq> []"
  by (auto dest: stateless_evidence_Tlsa)

lemma server_decision_accepted:
  fixes webpki :: "'w + unit"
  assumes "server_decision K tls webpki ee ints name now = Inr out"
  shows "server_accepted K tls (webpki = Inr ()) ee ints name now"
proof -
  obtain evidence d where
    ev: "stateless_evidence K tls ee name now = (Inr evidence :: 'w rustls_error fault + stateless_dane_evidence option)"
    and pol: "evaluate_policy_with_certificate_chain (digests K)
       \<lparr>ch_mode = tv_mode tls, ch_dnssec_secure = effective_secure tls evidence,
        ch_tlsa_records = effective_records tls evidence, ch_end_entity_der = ee,
        ch_intermediate_der = ints, ch_webpki_status = (case webpki of Inr _ \<Rightarrow> Valid | Inl _ \<Rightarrow> Invalid)\<rparr> = Inr d"
    and nf: "with_stateless_dane_provenance d evidence \<noteq> Failed"
    using server_decision_Inr [OF assms] by metis
  have st: "(case webpki of Inr _ \<Rightarrow> Valid | Inl _ \<Rightarrow> Invalid) = Valid \<longleftrightarrow> webpki = Inr ()"
    "(case webpki of Inr _ \<Rightarrow> Valid | Inl _ \<Rightarrow> Invalid) \<noteq> NotEvaluated"
    by (auto split: sum.splits)
  have d: "d \<noteq> Failed" using nf by (auto simp: with_stateless_dane_provenance_def split: option.splits stateless_dane_evidence.splits)
  note p = policy_decision [OF pol, simplified]
  show ?thesis
  proof (cases "\<exists>records root h. evidence = Some (Tlsa records root h)")
    case True
    then obtain records root h where e: "evidence = Some (Tlsa records root h)" by blast
    then have s: "tv_tlsa_records tls = []" "sc_enabled (tv_stateless_dane tls)" "tv_mode tls \<noteq> IcannWebPki"
      "evaluate_stateless_dane_certificate K
         \<lparr>sd_cert_der = ee, sd_host = name, sd_port = tv_service_port tls,
          sd_accepted_tree_roots = sc_accepted_tree_roots (tv_stateless_dane tls), sd_now_unix = now\<rparr>
         = Inr (Tlsa records root h)"
      using ev by (auto simp: stateless_evidence_def and_then_Inr split: if_splits)
    have "vouched K tls (webpki = Inr ()) ee ints records"
      using p d stateless_records_nonempty [OF s(4)] by (auto simp: vouched_def e effective_records_def st(1))
    then show ?thesis using s by (auto simp: server_accepted_def)
  next
    case False
    then have e: "effective_records tls evidence = tv_tlsa_records tls" "effective_secure tls evidence = tv_dnssec_secure tls"
      by (auto simp: effective_records_def effective_secure_def split: option.splits stateless_dane_evidence.splits)
    show ?thesis using p d st(2) by (auto simp: server_accepted_def vouched_def e st(1) split: if_splits)
  qed
qed

section \<open>Properties of the decision\<close>

text \<open>
  C30.  No certificate is accepted on trust alone: if rustls is told that the server's certificate is good, then
  either secure TLSA records are configured and one of them vouches for a certificate of the presented chain, or
  there are none and, outside strict mode, the WebPKI verifier accepted the chain, or the certificate
  itself carried validated stateless evidence with a record that vouches.  TLSA records never fall back to
  WebPKI, and a PKIX usage counts only beside a valid WebPKI chain.
\<close>

theorem server_certificate_vouched:
  "verify_server_cert K P webpki thread ee ints name now v = (Inr (), v') \<Longrightarrow>
     server_accepted K (dv_tls v) (webpki = Inr ()) ee ints name now"
  by (auto simp: verify_server_cert_def intro: server_decision_accepted split: sum.splits option.splits)

definition sample_tlsa :: "tlsa_usage \<Rightarrow> bytes \<Rightarrow> tlsa_record" where
  "sample_tlsa usage data =
     \<lparr>tr_usage = usage, tr_selector = FullCertificate, tr_matching = Exact, tr_association_data = data\<rparr>"

definition sample_pickers :: pickers where
  "sample_pickers = \<lparr>pick_thread = \<lambda>m. map_option fst (find (\<lambda>_. True) m), pick_name = \<lambda>m. map_option fst (find (\<lambda>_. True) m)\<rparr>"

lemma sample_decision:
  "server_decision sample_crypto (tls_hns_strict True [sample_tlsa DaneEe sample_plain_certificate]) (Inl w)
     sample_plain_certificate [] server_name 50 =
   Inr (Some (Matched DaneEe, \<lparr>ti_end_entity_der = sample_plain_certificate, ti_end_entity_spki_der = sample_spki,
     ti_intermediate_der = [], ti_webpki_status = Invalid\<rparr>))"
  by (simp add: server_decision_def stateless_evidence_def tls_hns_strict_def effective_records_def effective_secure_def
      with_stateless_dane_provenance_def tls_certificate_inspection_def lift_dane_def sample_spki_extracted
      evaluate_policy_with_certificate_chain_def evaluate_tlsa_for_chain_def is_ee_usage_def is_pkix_usage_def
      record_matches_chain_def matches_der_def sample_tlsa_def)

theorem server_certificate_vouched_witness:
  "server_accepted sample_crypto (tls_hns_strict True [sample_tlsa DaneEe sample_plain_certificate]) False
     sample_plain_certificate [] (ascii ''a'') 50"
proof -
  define v where "v = verifier_new (tls_hns_strict True [sample_tlsa DaneEe sample_plain_certificate])"
  obtain v' where "verify_server_cert sample_crypto sample_pickers (Inl ()) 1 sample_plain_certificate [] (ascii ''a'') 50 v = (Inr (), v')"
    by (simp add: verify_server_cert_def v_def verifier_new_def sample_decision)
  from server_certificate_vouched [OF this] show ?thesis by (simp add: v_def verifier_new_def)
qed

text \<open>
  C32.  A trust-anchor record binds nothing but the chain's extra certificates: under a secure DANE-TA record that
  matches some certificate \<open>ta\<close>, every end-entity certificate from which a public key can be read is accepted
  as soon as \<open>ta\<close> is sent beside it, for every server name and at every time, although WebPKI rejected the
  chain.  Nothing relates the end-entity certificate to \<open>ta\<close> by a signature, a name or a date.
\<close>

theorem trust_anchor_unlinked:
  assumes "tr_usage r = DaneTa" "vouches_for (digests K) r ta" "extract_spki_der ee = Inr spki"
    and "dv_tls v = tls_hns_strict True [r]"
  shows "\<exists>v'. verify_server_cert K P (Inl w) thread ee [ta] name now v = (Inr (), v')"
proof -
  have "record_matches_certificate (digests K) r ta = Inr True" using assms(2) by (simp add: record_matches_certificate_True)
  then have "evaluate_policy_with_certificate_chain (digests K)
       \<lparr>ch_mode = HnsStrict, ch_dnssec_secure = True, ch_tlsa_records = [r], ch_end_entity_der = ee,
        ch_intermediate_der = [ta], ch_webpki_status = Invalid\<rparr> = Inr (Matched DaneTa)"
    using assms(1)
    by (simp add: evaluate_policy_with_certificate_chain_def evaluate_tlsa_for_chain_def is_ee_usage_def is_pkix_usage_def
        record_matches_chain_def)
  then have "server_decision K (tls_hns_strict True [r]) (Inl w) ee [ta] name now \<noteq> Inl e \<and>
      server_decision K (tls_hns_strict True [r]) (Inl w) ee [ta] name now \<noteq> Inr None" for e
    by (simp add: server_decision_def stateless_evidence_def tls_hns_strict_def effective_records_def effective_secure_def
        with_stateless_dane_provenance_def tls_certificate_inspection_def lift_dane_def assms(3))
  then show ?thesis
    by (auto simp: verify_server_cert_def assms(4) split: sum.splits option.splits)
qed

theorem trust_anchor_unlinked_witness:
  "\<exists>v'. verify_server_cert sample_crypto sample_pickers (Inl ()) 1 sample_plain_certificate [[1, 2, 3]] (ascii ''bank'') 50
     (verifier_new (tls_hns_strict True [sample_tlsa DaneTa [1, 2, 3]])) = (Inr (), v')"
  by (rule trust_anchor_unlinked [OF _ _ sample_spki_extracted])
    (simp_all add: sample_tlsa_def vouches_for_def selects_def associated_def verifier_new_def)

section \<open>Handshakes\<close>

text \<open>
  The runs of one verifier: threads begin handshakes, rustls asks for verdicts on them, and threads finish them.
  The log holds, for every positive verdict, the server name under which the thread had begun.
\<close>

definition current_name :: "dane_verifier \<Rightarrow> nat \<Rightarrow> rust_str" where
  "current_name v thread = (case map_of (dv_handshakes v) thread of Some c \<Rightarrow> hc_server_name c | None \<Rightarrow> [])"

type_synonym verdict_log = "(rust_str \<times> dane_decision \<times> tls_inspection) list"

inductive verifier_run :: "crypto \<Rightarrow> pickers \<Rightarrow> tls_validation \<Rightarrow> verdict_log \<Rightarrow> dane_verifier \<Rightarrow> bool"
  for K P tls where
  run_new: "verifier_run K P tls [] (verifier_new tls)"
| run_begin: "verifier_run K P tls log v \<Longrightarrow> verifier_run K P tls log (begin_handshake P thread server_name v)"
| run_accepted: "\<lbrakk>verifier_run K P tls log v;
    server_decision K (dv_tls v) (webpki :: rust_str + unit) ee ints server_name now = Inr (Some (d, i));
    verify_server_cert K P webpki thread ee ints server_name now v = (result, v')\<rbrakk> \<Longrightarrow>
    verifier_run K P tls ((current_name v thread, d, i) # log) v'"
| run_not_accepted: "\<lbrakk>verifier_run K P tls log v;
    \<forall>d i. server_decision K (dv_tls v) (webpki :: rust_str + unit) ee ints server_name now \<noteq> Inr (Some (d, i));
    verify_server_cert K P webpki thread ee ints server_name now v = (result, v')\<rbrakk> \<Longrightarrow>
    verifier_run K P tls log v'"
| run_finish: "\<lbrakk>verifier_run K P tls log v; finish_handshake thread server_name v = (answer, v')\<rbrakk> \<Longrightarrow>
    verifier_run K P tls log v'"

definition capture_logged :: "verdict_log \<Rightarrow> handshake_capture \<Rightarrow> bool" where
  "capture_logged log c \<longleftrightarrow>
     (\<forall>d. hc_decision c = Some d \<longrightarrow> (\<exists>i. hc_inspection c = Some i \<and> (hc_server_name c, d, i) \<in> set log))"

definition verdict_sound :: "crypto \<Rightarrow> tls_validation \<Rightarrow> dane_decision \<Rightarrow> tls_inspection \<Rightarrow> bool" where
  "verdict_sound K tls d i \<longleftrightarrow> d \<noteq> Failed \<and>
     (\<exists>webpki_ok server_name now. server_accepted K tls webpki_ok (ti_end_entity_der i) (ti_intermediate_der i) server_name now)"

definition verifier_inv :: "crypto \<Rightarrow> tls_validation \<Rightarrow> verdict_log \<Rightarrow> dane_verifier \<Rightarrow> bool" where
  "verifier_inv K tls log v \<longleftrightarrow> dv_tls v = tls \<and>
     (\<forall>t c. (t, c) \<in> set (dv_handshakes v) \<longrightarrow> capture_logged log c) \<and>
     (\<forall>n c. (n, c) \<in> set (dv_last_success v) \<longrightarrow> hc_server_name c = n \<and> capture_logged log c) \<and>
     (\<forall>(n, d, i) \<in> set log. verdict_sound K tls d i)"

lemma set_alist_update: "set (AList.update k v m) \<subseteq> insert (k, v) (set m)"
  by (induction m) auto

lemma set_alist_delete: "set (AList.delete k m) \<subseteq> set m"
  by (auto simp: AList.delete_eq)

lemma set_insert_bounded: "set (insert_bounded pick k v m) \<subseteq> insert (k, v) (set m)"
proof -
  have "set (evict_one_if_at_capacity pick n m) \<subseteq> set m" for n
    using set_alist_delete [of _ m] by (auto simp: evict_one_if_at_capacity_def split: option.splits)
  then show ?thesis
    using set_alist_update [of k v m] set_alist_update [of k v "evict_one_if_at_capacity pick MAX_TLS_CAPTURE_ENTRIES m"]
    by (auto simp: insert_bounded_def Let_def split: if_splits)
qed

lemma capture_logged_mono: "capture_logged log c \<Longrightarrow> capture_logged (x # log) c"
  by (auto simp: capture_logged_def)

lemma accepted_inspection:
  fixes webpki :: "'w + unit"
  assumes "server_decision K tls webpki ee ints name now = Inr (Some (d, i))"
  shows "verdict_sound K tls d i"
proof -
  from server_decision_Inr [OF assms] have "d \<noteq> Failed \<and> ti_end_entity_der i = ee \<and> ti_intermediate_der i = ints"
    by (metis option.inject prod.inject)
  then show ?thesis using server_decision_accepted [OF assms] by (auto simp: verdict_sound_def)
qed

lemma verifier_inv_store:
  assumes "verifier_inv K tls log v" "verdict_sound K tls d i"
  shows "verifier_inv K tls ((current_name v thread, d, i) # log) (store_capture P thread d i v)"
proof -
  define c where "c = (case map_of (dv_handshakes v) thread of
      Some c \<Rightarrow> c | None \<Rightarrow> \<lparr>hc_server_name = [], hc_decision = None, hc_inspection = None\<rparr>)\<lparr>hc_decision := Some d, hc_inspection := Some i\<rparr>"
  have name: "hc_server_name c = current_name v thread" by (simp add: c_def current_name_def split: option.splits)
  then have logged: "capture_logged ((current_name v thread, d, i) # log) c" by (simp add: capture_logged_def c_def)
  have old: "\<forall>t c. (t, c) \<in> set (dv_handshakes v) \<longrightarrow> capture_logged ((current_name v thread, d, i) # log) c"
    "\<forall>n c. (n, c) \<in> set (dv_last_success v) \<longrightarrow> hc_server_name c = n \<and> capture_logged ((current_name v thread, d, i) # log) c"
    using assms(1) by (auto simp: verifier_inv_def intro: capture_logged_mono)
  have hs: "dv_handshakes (store_capture P thread d i v) = AList.update thread c (dv_handshakes v)"
    and ls: "dv_last_success (store_capture P thread d i v) =
      (if hc_server_name c \<noteq> [] then insert_bounded (pick_name P) (hc_server_name c) c (dv_last_success v) else dv_last_success v)"
    and tls: "dv_tls (store_capture P thread d i v) = dv_tls v"
    by (simp_all add: store_capture_def Let_def c_def)
  define v' where "v' = store_capture P thread d i v"
  have "t = thread \<and> x = c \<or> (t, x) \<in> set (dv_handshakes v)" if "(t, x) \<in> set (dv_handshakes v')" for t x
    using that set_alist_update [of thread c "dv_handshakes v"] unfolding hs v'_def by blast
  then have 1: "\<forall>t x. (t, x) \<in> set (dv_handshakes v') \<longrightarrow> capture_logged ((current_name v thread, d, i) # log) x"
    using old(1) logged by blast
  have "n = hc_server_name c \<and> x = c \<or> (n, x) \<in> set (dv_last_success v)" if "(n, x) \<in> set (dv_last_success v')" for n x
    using that set_insert_bounded [of "pick_name P" "hc_server_name c" c "dv_last_success v"] unfolding ls v'_def
    by (auto split: if_splits)
  then have 2: "\<forall>n x. (n, x) \<in> set (dv_last_success v') \<longrightarrow>
      hc_server_name x = n \<and> capture_logged ((current_name v thread, d, i) # log) x"
    using old(2) logged by blast
  have "dv_tls v' = tls" "\<forall>(n, d, i) \<in> set log. verdict_sound K tls d i"
    using assms(1) tls by (simp_all add: verifier_inv_def v'_def)
  then show ?thesis unfolding verifier_inv_def v'_def [symmetric] using assms(2) 1 2 by simp
qed

lemma verifier_run_inv: "verifier_run K P tls log v \<Longrightarrow> verifier_inv K tls log v"
proof (induction rule: verifier_run.induct)
  case run_new
  then show ?case by (simp add: verifier_inv_def verifier_new_def)
next
  case (run_begin log v thread server_name)
  define c where "c = \<lparr>hc_server_name = to_ascii_lowercase server_name, hc_decision = None, hc_inspection = None\<rparr>"
  have "capture_logged log c" by (simp add: capture_logged_def c_def)
  then show ?case
    using run_begin.IH set_insert_bounded [of "pick_thread P" thread c "dv_handshakes v"]
    by (fastforce simp: verifier_inv_def begin_handshake_def c_def)
next
  case (run_accepted log v webpki ee ints server_name now d i thread result v')
  then have "v' = store_capture P thread d i v" by (simp add: verify_server_cert_def)
  moreover have "dv_tls v = tls" using run_accepted.IH by (simp add: verifier_inv_def)
  ultimately show ?case
    using verifier_inv_store [OF run_accepted.IH] accepted_inspection run_accepted.hyps(2) by blast
next
  case (run_not_accepted log v webpki ee ints server_name now thread result v')
  then have "v' = v" by (auto simp: verify_server_cert_def split: sum.splits option.splits)
  then show ?case using run_not_accepted.IH by simp
next
  case (run_finish log v thread server_name answer v')
  then have "dv_tls v' = dv_tls v" "dv_last_success v' = dv_last_success v"
    "dv_handshakes v' = AList.delete thread (dv_handshakes v)"
    by (auto simp: finish_handshake_def Let_def split: option.splits)
  then show ?case using run_finish.IH set_alist_delete [of thread "dv_handshakes v"] by (fastforce simp: verifier_inv_def)
qed



end
