(* ===== verification/Stateless.thy ===== *)
theory Stateless
  imports Dane
begin

text \<open>
  Stateless DANE end to end: what evidence in a certificate means for a client that trusts nothing but a
  list of tree roots.  The theory joins the certificate reader, the Urkel verifier, the resource
  decoder and the DNSSEC validator, and builds one certificate that passes them all.
\<close>

section \<open>A sample certificate\<close>

text \<open>
  Names below \<open>a\<close>; a zone whose DS record is for \<open>sample_key 5\<close>, a key that signs nothing, and
  whose key set and TLSA record are signed by \<open>sample_key 7\<close>.
\<close>

definition zone_a :: dns_name where "zone_a = [ascii ''a'']"
definition service_a :: dns_name where "service_a = [ascii ''_443'', ascii ''_tcp'', ascii ''a'']"

definition zone_key_record :: "u8 \<Rightarrow> resource_record" where
  "zone_key_record b = (sample_key b)\<lparr>rr_name := zone_a\<rparr>"

definition zone_sig_rdata :: "u16 \<Rightarrow> u8 \<Rightarrow> bytes" where
  "zone_sig_rdata ty labels = u16_to_be ty @ [15, labels] @ [0, 0, 0, 60] @ [0, 0, 0, 100] @ [0, 0, 0, 10] @
     u16_to_be (dnskey_key_tag (sample_dnskey 7))"

definition zone_sig :: "dns_name \<Rightarrow> u16 \<Rightarrow> u8 \<Rightarrow> resource_record" where
  "zone_sig owner ty labels = \<lparr>rr_name = owner, rr_type = TypeRrsig, rr_class = 1, rr_ttl = 60,
     rr_rdata = zone_sig_rdata ty labels @ wire zone_a @ replicate 64 9\<rparr>"

definition zone_signature :: "u16 \<Rightarrow> u8 \<Rightarrow> rrsig_record" where
  "zone_signature ty labels = \<lparr>sig_type_covered = from_code ty, sig_algorithm = 15, sig_labels = labels, sig_original_ttl = 60,
     sig_expiration = 100, sig_inception = 10, sig_key_tag = dnskey_key_tag (sample_dnskey 7),
     sig_signer_name = zone_a, sig_signature = replicate 64 9, sig_signed_rdata = zone_sig_rdata ty labels @ wire zone_a\<rparr>"

definition tlsa_rr :: resource_record where
  "tlsa_rr = \<lparr>rr_name = service_a, rr_type = TypeTlsa, rr_class = 1, rr_ttl = 60, rr_rdata = [3, 0, 0, 1, 2, 3]\<rparr>"

definition chain_records :: "resource_record list" where
  "chain_records = [zone_key_record 5, zone_key_record 7, zone_sig zone_a 48 1, tlsa_rr, zone_sig service_a 52 3]"

definition ds_rdata :: bytes where
  "ds_rdata = u16_to_be (dnskey_key_tag (sample_dnskey 5)) @ [15, 2] @ replicate 32 1"

definition resource_data :: bytes where
  "resource_data = [0, 0] @ u16_to_be (dnskey_key_tag (sample_dnskey 5)) @ [15, 2, 32] @ replicate 32 1"

definition name_state_a :: bytes where
  "name_state_a = name_state (ascii ''a'') resource_data (replicate 10 0)"

definition proof_a :: bytes where
  "proof_a = [0x00, 0xC0, 0, 0, 53, 0] @ name_state_a"

definition root_a :: hash where "root_a = replicate 32 0"

definition proofs_value :: bytes where
  "proofs_value = [1] @ root_a @ u16_to_be 59 @ proof_a"

definition chain_value :: bytes where
  "chain_value = [0, 0] @ concat (map record_bytes chain_records)"

definition evidence_extensions :: "extension list" where
  "evidence_extensions =
     [([43, 6, 1, 4, 1, 0x83, 0xB2, 3, 17, 1], [], proofs_value), ([43, 6, 1, 4, 1, 0x83, 0xB2, 3, 17, 2], [], chain_value)]"

definition evidence_certificate :: bytes where
  "evidence_certificate = tlv TAG_SEQUENCE (tlv TAG_SEQUENCE (concat sample_fields @ sample_spki @
     tlv TAG_EXPLICIT_EXTENSIONS (tlv TAG_SEQUENCE (concat (map extension_der evidence_extensions)))) @ [5, 0])"

definition evidence_input :: stateless_dane_input where
  "evidence_input = \<lparr>sd_cert_der = evidence_certificate, sd_host = ascii ''a'', sd_port = 443,
     sd_accepted_tree_roots = [root_a], sd_now_unix = 50\<rparr>"

subsection \<open>The zone\<close>

lemma wire_zone_a: "wire zone_a = [1, 97, 0]"
  by (simp add: wire_def zone_a_def ascii_def)

lemma wf_names: "wf_name zone_a" "wf_name service_a"
  by (simp_all add: wf_name_def wf_label_def is_valid_dns_label_def ascii_def is_ascii_alphanumeric_def is_ascii_digit_def
      is_ascii_lower_def to_ascii_lowercase_def to_ascii_lower_byte_def is_ascii_upper_def zone_a_def service_a_def
      labels_size_def)

lemma zone_key_parses: "dnskey_from_record (zone_key_record b) = Inr (sample_dnskey b)"
  using sample_key_parses [of b] by (simp add: zone_key_record_def dnskey_from_record_def sample_key_def)

lemma zone_sig_parses: "rrsig_from_record (zone_sig owner ty labels) = Inr (zone_signature ty labels)"
proof -
  obtain x y where xy: "u16_to_be ty = [x, y]" by (rule u16_two_bytes)
  obtain u v where uv: "u16_to_be (dnskey_key_tag (sample_dnskey 7)) = [u, v]" by (rule u16_two_bytes)
  have w: "u16_of_be [x, y] = ty" "u16_of_be [u, v] = dnskey_key_tag (sample_dnskey 7)"
    using xy uv by (metis word_bytes_round_trip(1))+
  have "parse_wire (zone_sig_rdata ty labels @ wire zone_a @ replicate 64 9) 18 = Inr (zone_a, 18 + length (wire zone_a))"
    by (rule parse_wire_at [OF wf_names(1) refl]) (simp_all add: zone_sig_rdata_def xy uv wire_zone_a)
  moreover have "encode_wire zone_a out = Inr (out @ [1, 97, 0])" for out
    by (simp add: encode_wire_def zone_a_def ascii_def MAX_DNS_LABEL_LEN_def)
  ultimately show ?thesis
    by (simp add: rrsig_from_record_def zone_sig_def rrsig_parse_rdata_def zone_signature_def wire_zone_a
        slice_def w zone_sig_rdata_def xy uv u32_of_be_def be_nat_def)
qed

lemma zone_signs:
  assumes "canonical_rrset rrset (zone_signature ty labels) = Inr cs" "distinct (map cr_rdata cs)"
  shows "signs sample_crypto (sample_dnskey 7) (zone_signature ty labels) rrset 50"
proof -
  have v: "is_valid_at (zone_signature ty labels) 50"
    by (simp add: is_valid_at_def zone_signature_def word_le_nat_alt)
  with signed_data_exists [OF assms v] show ?thesis
    by (simp add: signs_def raw_ok_algorithms zone_key_def sample_dnskey_def zone_signature_def
        DNSKEY_ZONE_FLAG_def sample_crypto_def)
qed

lemma zone_canonical:
  "\<exists>cs. canonical_rrset [zone_key_record 5, zone_key_record 7] (zone_signature 48 1) = Inr cs \<and> distinct (map cr_rdata cs)"
  "\<exists>cs. canonical_rrset [tlsa_rr] (zone_signature 52 3) = Inr cs \<and> distinct (map cr_rdata cs)"
  by (simp_all add: canonical_rrset_def zone_key_record_def sample_key_def zone_signature_def from_code_def canonical_owner_def
      canonical_one_def canonical_rdata_def tlsa_rr_def zone_a_def service_a_def encode_label_def ascii_def)

lemma zone_signed_by:
  "signed_by sample_crypto zone_a [zone_key_record 5, zone_key_record 7] [zone_key_record 5, zone_key_record 7] [zone_sig zone_a 48 1] 50"
  "signed_by sample_crypto zone_a [zone_key_record 5, zone_key_record 7] [tlsa_rr] [zone_sig service_a 52 3] 50"
proof -
  obtain cs where "canonical_rrset [zone_key_record 5, zone_key_record 7] (zone_signature 48 1) = Inr cs"
    "distinct (map cr_rdata cs)" using zone_canonical(1) by blast
  note k = zone_signs [OF this]
  obtain cs where "canonical_rrset [tlsa_rr] (zone_signature 52 3) = Inr cs" "distinct (map cr_rdata cs)"
    using zone_canonical(2) by blast
  note t = zone_signs [OF this]
  have f: "rr_name (zone_sig n ty l) = n" "rr_class (zone_sig n ty l) = 1" "sig_type_covered (zone_signature ty l) = from_code ty"
    "sig_signer_name (zone_signature ty l) = zone_a" for n ty l
    by (simp_all add: zone_sig_def zone_signature_def)
  have h: "rr_name (zone_key_record b) = zone_a" "rr_class (zone_key_record b) = 1" "rr_type (zone_key_record b) = from_code 48"
    "rr_name tlsa_rr = service_a" "rr_class tlsa_rr = 1" "rr_type tlsa_rr = from_code 52" for b
    by (simp_all add: zone_key_record_def sample_key_def tlsa_rr_def from_code_def)
  show "signed_by sample_crypto zone_a [zone_key_record 5, zone_key_record 7] [zone_key_record 5, zone_key_record 7] [zone_sig zone_a 48 1] 50"
    "signed_by sample_crypto zone_a [zone_key_record 5, zone_key_record 7] [tlsa_rr] [zone_sig service_a 52 3] 50"
    using k t by (simp_all add: signed_by_def f h zone_key_parses zone_sig_parses)
qed

definition zone_ds :: resource_record where
  "zone_ds = hs_record zone_a TypeDs DEFAULT_HANDSHAKE_RESOURCE_TTL ds_rdata"

lemma zone_ds_parses:
  "ds_from_record zone_ds = Inr \<lparr>ds_key_tag = dnskey_key_tag (sample_dnskey 5), ds_algorithm = 15,
     ds_digest_type = 2, ds_digest_bytes = replicate 32 1\<rparr>"
proof -
  obtain x y where xy: "u16_to_be (dnskey_key_tag (sample_dnskey 5)) = [x, y]" by (rule u16_two_bytes)
  then have "u16_of_be [x, y] = dnskey_key_tag (sample_dnskey 5)" by (metis word_bytes_round_trip(1))
  then show ?thesis by (simp add: ds_from_record_def zone_ds_def hs_record_def ds_rdata_def ds_parse_rdata_def xy)
qed

lemma zone_delegation:
  "validate_delegation_link sample_crypto zone_a [zone_ds] [zone_key_record 5, zone_key_record 7] = Inr Secure"
proof -
  have "zone_key (sample_dnskey 5)" by (simp add: zone_key_def sample_dnskey_def DNSKEY_ZONE_FLAG_def)
  moreover have "encode_wire zone_a [] = Inr [1, 97, 0]"
    by (simp add: encode_wire_def zone_a_def ascii_def MAX_DNS_LABEL_LEN_def)
  ultimately have "verify_ds_digest sample_crypto zone_a (sample_dnskey 5) \<lparr>ds_key_tag = dnskey_key_tag (sample_dnskey 5),
      ds_algorithm = 15, ds_digest_type = 2, ds_digest_bytes = replicate 32 1\<rparr> = Inr True"
    by (simp add: verify_ds_digest_True ds_digest_def sample_crypto_def Let_def
        DS_DIGEST_SHA1_def DS_DIGEST_SHA256_def sample_dnskey_def)
  moreover have "rr_type zone_ds = TypeDs" "rr_type (zone_key_record b) = TypeDnskey" for b
    by (simp_all add: zone_ds_def hs_record_def zone_key_record_def sample_key_def)
  ultimately show ?thesis
    by (simp add: validate_delegation_link_def dnskeys_of_def zone_ds_parses zone_key_parses)
qed

lemma zone_selection:
  "records_for chain_records zone_a TypeDnskey = [zone_key_record 5, zone_key_record 7]"
  "rrsig_records_for chain_records zone_a TypeDnskey = [zone_sig zone_a 48 1]"
  "records_for chain_records service_a TypeTlsa = [tlsa_rr]"
  "rrsig_records_for chain_records service_a TypeTlsa = [zone_sig service_a 52 3]"
proof -
  have f: "rr_name (zone_key_record b) = zone_a" "rr_type (zone_key_record b) = TypeDnskey" "rr_name tlsa_rr = service_a"
    "rr_type tlsa_rr = TypeTlsa" "rr_name (zone_sig n ty l) = n" "rr_type (zone_sig n ty l) = TypeRrsig" for b n ty l
    by (simp_all add: zone_key_record_def sample_key_def tlsa_rr_def zone_sig_def)
  have "zone_a \<noteq> service_a" by (simp add: zone_a_def service_a_def)
  moreover have "rrsig_covers TypeDnskey (zone_sig n 48 l)" "rrsig_covers TypeTlsa (zone_sig n 52 l)" for n l
    by (simp_all add: rrsig_covers_def zone_sig_parses zone_signature_def from_code_def)
  ultimately show
    "records_for chain_records zone_a TypeDnskey = [zone_key_record 5, zone_key_record 7]"
    "rrsig_records_for chain_records zone_a TypeDnskey = [zone_sig zone_a 48 1]"
    "records_for chain_records service_a TypeTlsa = [tlsa_rr]"
    "rrsig_records_for chain_records service_a TypeTlsa = [zone_sig service_a 52 3]"
    by (auto simp: records_for_def rrsig_records_for_def chain_records_def f)
qed

lemma zone_chain_valid:
  "validate_direct_dnssec_tlsa_chain sample_crypto zone_a service_a [zone_ds] chain_records [tlsa_rr] 50 = Inr ()"
proof -
  have p: "parses dnskey_from_record (filter P [zone_key_record 5, zone_key_record 7])"
    "parses rrsig_from_record (filter P [zone_sig n ty l])" for P n ty l
    by (auto simp: parses_def zone_key_parses zone_sig_parses)
  then have "validate_rrset_signature sample_crypto zone_a [zone_key_record 5, zone_key_record 7]
      [zone_key_record 5, zone_key_record 7] [zone_sig zone_a 48 1] 50 = Inr Secure"
    "validate_rrset_signature sample_crypto zone_a [zone_key_record 5, zone_key_record 7] [tlsa_rr] [zone_sig service_a 52 3] 50
      = Inr Secure"
    unfolding validate_rrset_signature_Secure using zone_signed_by by blast+
  then have "validate_signed_rrset sample_crypto \<lparr>si_dnskey_owner = zone_a, si_ds_rrset = [zone_ds],
      si_dnskey_rrset = [zone_key_record 5, zone_key_record 7], si_dnskey_rrsig_rrset = [zone_sig zone_a 48 1],
      si_rrset = [tlsa_rr], si_rrsig_rrset = [zone_sig service_a 52 3], si_now = 50\<rparr> = Inr Secure"
    using zone_delegation by (simp add: validate_signed_rrset_def when_secure_Secure validate_dnskey_rrset_def)
  then show ?thesis by (simp add: validate_direct_dnssec_tlsa_chain_def Let_def zone_selection)
qed

subsection \<open>The proof\<close>

lemma resource_data_decodes: "decode_handshake_resource_records zone_a resource_data = Inr [zone_ds]"
proof -
  obtain x y where xy: "u16_to_be (dnskey_key_tag (sample_dnskey 5)) = [x, y]" by (rule u16_two_bytes)
  then have w: "u16_to_be (u16_of_be [x, y]) = [x, y]" by (metis word_bytes_round_trip(1))
  have len: "length resource_data = 39" by (simp add: resource_data_def xy)
  show ?thesis
    unfolding decode_handshake_resource_records_def decode_handshake_resource_records_with_ttl_def rc_new_def rc_read_u8_def
      resource_data_def xy
    by (simp add: get_byte_def RESOURCE_VERSION_def, subst decode_loop.simps,
        simp add: rc_read_u8_def get_byte_def rc_remaining_def decode_record_def HS_TYPE_DS_def decode_ds_def
          rc_read_u16_be_def rc_read_array_def rc_read_bytes_def checked_add_usize_def get_range_def slice_def
          rc_read_len_u8_bytes_def push_record_def MAX_HANDSHAKE_RESOURCE_RECORDS_def w,
        subst decode_loop.simps, simp add: rc_remaining_def zone_ds_def ds_rdata_def xy)
qed

lemma name_state_a_wf: "wf_name_state (ascii ''a'') resource_data (replicate 10 0)" "length name_state_a = 53"
proof -
  have "length resource_data = 39" by (simp add: resource_data_def)
  then show "wf_name_state (ascii ''a'') resource_data (replicate 10 0)" "length name_state_a = 53"
    by (simp_all add: wf_name_state_def name_state_a_def name_state_def)
qed

lemma proof_a_decodes:
  "urkel_decode proof_a = Inr \<lparr>proof_type = 3, proof_depth = 0, proof_nodes = [], proof_body = Exists name_state_a\<rparr>"
proof -
  have len: "length name_state_a = 53" by (rule name_state_a_wf)
  then show ?thesis
    by (simp add: proof_a_def urkel_decode_def MAX_PROOF_SIZE_def URKEL_BITS_def cursor_read_u16_le_def
        cursor_read_bytes_def cursor_new_def checked_add_usize_def get_range_def slice_def
        u16_of_le_def div_ceil_def decode_body_def TYPE_DEADEND_def TYPE_SHORT_def TYPE_COLLISION_def
        TYPE_EXISTS_def is_finished_def is_sane_def Let_def)
qed

lemma raw_read_at:
  assumes "length pre = k" "length mid = n" "checked_add_usize k n = Some (k + n)"
  shows "raw_read_bytes n \<lparr>raw_data = pre @ mid @ post, raw_offset = k\<rparr> =
    Inr (mid, \<lparr>raw_data = pre @ mid @ post, raw_offset = k + n\<rparr>)"
proof -
  have "slice (pre @ mid @ post) k (k + n) = mid" using assms(1,2) by (simp add: slice_def)
  then show ?thesis unfolding raw_read_bytes_def using assms(1,2) by (simp add: assms(3) get_range_def del: checked_add_usize_def)
qed

lemma proofs_value_parses:
  "parse_stateless_urkel_proofs proofs_value = Inr [\<lparr>su_root = root_a, su_proof = proof_a\<rparr>]"
proof -
  obtain x y where xy: "u16_to_be 59 = [x, y]" by (rule u16_two_bytes)
  then have w: "u16_of_be [x, y] = 59" by (metis word_bytes_round_trip(1))
  have len: "length proof_a = 59" "length root_a = 32" using name_state_a_wf(2) by (simp_all add: proof_a_def root_a_def)
  define d where "d = proofs_value"
  have d: "d = [1] @ root_a @ ([x, y] @ proof_a)" "d = ([1] @ root_a) @ [x, y] @ proof_a"
    "d = ([1] @ root_a @ [x, y]) @ proof_a @ []"
    by (simp_all add: d_def proofs_value_def xy)
  have first: "raw_read_u8 (raw_new d) = Inr (1, \<lparr>raw_data = d, raw_offset = 1\<rparr>)"
    by (simp add: raw_read_u8_def raw_new_def d(1) get_byte_def)
  have root: "raw_read_bytes 32 \<lparr>raw_data = d, raw_offset = 1\<rparr> = Inr (root_a, \<lparr>raw_data = d, raw_offset = 33\<rparr>)"
    using raw_read_at [of "[1]" 1 root_a 32 "[x, y] @ proof_a"] len by (simp add: d(1) checked_add_usize_def)
  have size: "raw_read_bytes 2 \<lparr>raw_data = d, raw_offset = 33\<rparr> = Inr ([x, y], \<lparr>raw_data = d, raw_offset = 35\<rparr>)"
    using raw_read_at [of "[1] @ root_a" 33 "[x, y]" 2 proof_a] len by (simp add: d(1) checked_add_usize_def)
  have pr: "raw_read_bytes 59 \<lparr>raw_data = d, raw_offset = 35\<rparr> = Inr (proof_a, \<lparr>raw_data = d, raw_offset = 94\<rparr>)"
    using raw_read_at [of "[1] @ root_a @ [x, y]" 35 proof_a 59 "[]"] len by (simp add: d(1) checked_add_usize_def)
  have loop: "stateless_proofs_loop (Suc 0) [] \<lparr>raw_data = d, raw_offset = 1\<rparr> =
      Inr ([\<lparr>su_root = root_a, su_proof = proof_a\<rparr>], \<lparr>raw_data = d, raw_offset = 94\<rparr>)"
    using len by (simp add: root [unfolded One_nat_def] raw_read_u16_be_def size w pr hash_from_slice_def)
  have "length d = 94" using len by (simp add: d(1))
  with loop show ?thesis
    unfolding d_def [symmetric] parse_stateless_urkel_proofs_def first
    by (simp add: MAX_STATELESS_DANE_PROOFS_def raw_is_finished_def)
qed

definition names_a :: stateless_names where
  "names_a = \<lparr>sn_root_name = ascii ''a'', sn_name_hash = root_a, sn_owner = zone_a, sn_service_owner = service_a\<rparr>"

lemma names_a_of: "stateless_names_of (digests sample_crypto) (ascii ''a'') 443 = Inr names_a"
proof -
  have h: "ascii ''a'' = [97]" "\<not> is_space1 97" by (simp_all add: ascii_def is_space1_def)
  have "str_trim [97] = [97]" using h(2) by (simp add: str_trim_def trim_start_ascii trim_end_ascii)
  then have host: "normalize_host (ascii ''a'') = ascii ''a''"
    by (simp add: normalize_host_def h(1) trim_end_matches_def to_ascii_lowercase_def to_ascii_lower_byte_def is_ascii_upper_def)
  have label: "hns_root_label (ascii ''a'') = Some (ascii ''a'')"
    by (simp add: hns_root_label_def h(1))
  have "handshake_name_ok (ascii ''a'')"
    by (simp add: handshake_name_ok_def ascii_def name_blacklist_def name_char_def name_edge_char_def is_ascii_lower_def)
  then have key: "name_hash_from_name (digests sample_crypto) (ascii ''a'') = Inr root_a"
    by (simp add: name_hash_from_name_def sha3_256_def sample_crypto_def root_a_def flip: handshake_name_exact)
  have "dns_name_display zone_a = ascii ''a''" by (simp add: dns_name_display_def zone_a_def dns_root_def)
  then have owner: "from_ascii (ascii ''a'') = Inr zone_a" using from_ascii_display [OF wf_names(1)] by simp
  have "dns_name_display service_a = service_name 443 (ascii ''tcp'') (ascii ''a'')"
    by (simp add: dns_name_display_def service_a_def dns_root_def service_name_def ascii_def dec_digits.simps
        to_ascii_lowercase_def to_ascii_lower_byte_def is_ascii_upper_def trim_end_matches_def)
  then have service: "from_ascii (service_name 443 (ascii ''tcp'') (ascii ''a'')) = Inr service_a"
    using from_ascii_display [OF wf_names(2)] by simp
  show ?thesis
    unfolding stateless_names_of_def Let_def host label ok_or_simps and_then_simps key owner service
    by (simp add: names_a_def owner service)
qed

lemma proof_a_accepted:
  obtains parsed where "parse_for_key proof_a root_a root_a = Inr parsed" "pp_kind parsed = Inclusion"
    "pp_name_hash parsed = root_a" "urkel_verify (digests sample_crypto) (pp_proof parsed) root_a root_a"
    "parsed_proof_value parsed = Some name_state_a"
proof -
  define p where "p = \<lparr>proof_type = 3, proof_depth = 0, proof_nodes = [], proof_body = Exists name_state_a\<rparr>"
  have "length proof_a = 59" using name_state_a_wf(2) by (simp add: proof_a_def)
  then have "parse_for_key proof_a root_a root_a = Inr \<lparr>pp_kind = Inclusion, pp_root = root_a, pp_name_hash = root_a,
      pp_payload = proof_a, pp_proof = p\<rparr>"
    by (simp add: parse_for_key_def proof_a_decodes MAX_PROOF_SIZE_def urkel_kind_def TYPE_EXISTS_def p_def)
  moreover have "urkel_verify (digests sample_crypto) p root_a root_a"
    using name_state_a_wf(2)
    by (simp add: p_def urkel_verify_def is_sane_def leaf_hash_def hash_value_def hash_leaf_def blake2b_256_def
        sample_crypto_def URKEL_BITS_def root_a_def TYPE_EXISTS_def)
  ultimately show ?thesis by (intro that) (auto simp: parsed_proof_value_def urkel_value_def p_def)
qed

subsection \<open>The chain\<close>

lemma chain_records_wf: "\<forall>r \<in> set chain_records. wf_record r \<and> length (rr_rdata r) \<le> 100"
proof -
  obtain x y where xy: "u16_to_be (dnskey_key_tag (sample_dnskey 7)) = [x, y]" by (rule u16_two_bytes)
  obtain u v where uv: "u16_to_be 48 = [u, v]" by (rule u16_two_bytes)
  obtain u' v' where uv': "u16_to_be 52 = [u', v']" by (rule u16_two_bytes)
  have t: "TypeDnskey = from_code 48" "TypeRrsig = from_code 46" "TypeTlsa = from_code 52"
    by (simp_all add: from_code_def)
  have "wf_record_type TypeDnskey" "wf_record_type TypeRrsig" "wf_record_type TypeTlsa" unfolding t by (rule wf_from_code)+
  then show ?thesis
    using wf_names
    by (simp add: chain_records_def zone_key_record_def sample_key_def zone_sig_def tlsa_rr_def wf_record_def wf_rdata_def
        zone_sig_rdata_def wire_zone_a xy uv uv')
qed

lemma authentication_chain_image:
  assumes "\<forall>r \<in> set rs. wf_record r \<and> length (rr_rdata r) \<le> 65535"
    and "m = pre @ concat (map record_bytes rs)" "length m < usize_limit div 2"
  shows "authentication_chain_loop m (length pre) out = Inr (out @ rs)"
  using assms
proof (induction rs arbitrary: pre out)
  case Nil
  then show ?case by (simp add: authentication_chain_loop.simps)
next
  case (Cons r rs)
  have m: "m = pre @ record_bytes r @ concat (map record_bytes rs)" using Cons.prems(2) by simp
  have p: "resource_record_parse m (length pre) = Inr (r, length pre + length (record_bytes r))"
    using record_parse_image [OF _ _ m Cons.prems(3)] Cons.prems(1) by simp
  have len: "0 < length (record_bytes r)" by (simp add: record_bytes_def)
  have "authentication_chain_loop m (length (pre @ record_bytes r)) (out @ [r]) = Inr ((out @ [r]) @ rs)"
    by (rule Cons.IH) (use Cons.prems m in auto)
  then show ?case
    using len by (subst authentication_chain_loop.simps) (simp add: p m [symmetric], simp add: m)
qed

lemma length_record_bytes:
  "wf_record r \<Longrightarrow> 11 \<le> length (record_bytes r) \<and> length (record_bytes r) \<le> 265 + length (rr_rdata r)"
  by (auto simp: record_bytes_def wf_record_def wf_name_def length_wire)

lemma length_chain_value: "3 \<le> length chain_value" "length chain_value \<le> 2000"
proof -
  have b: "\<forall>r \<in> set chain_records. 11 \<le> length (record_bytes r) \<and> length (record_bytes r) \<le> 365"
    using chain_records_wf length_record_bytes by fastforce
  have len: "length chain_value = 2 + (\<Sum>r \<leftarrow> chain_records. length (record_bytes r))"
    by (simp add: chain_value_def length_concat comp_def)
  have "(\<Sum>r \<leftarrow> chain_records. length (record_bytes r)) \<le> (\<Sum>r \<leftarrow> chain_records. 365)"
    using b by (intro sum_list_mono) blast
  moreover have "(\<Sum>r \<leftarrow> chain_records. 11) \<le> (\<Sum>r \<leftarrow> chain_records. length (record_bytes r))"
    using b by (intro sum_list_mono) blast
  moreover have "length chain_records = 5" by (simp add: chain_records_def)
  ultimately show "3 \<le> length chain_value" "length chain_value \<le> 2000"
    by (simp_all add: len sum_list_triv)
qed

lemma chain_value_parses: "parse_rfc9102_authentication_chain chain_value = Inr chain_records"
proof -
  have "authentication_chain_loop chain_value (length [0 :: u8, 0]) [] = Inr ([] @ chain_records)"
  proof (rule authentication_chain_image)
    show "\<forall>r \<in> set chain_records. wf_record r \<and> length (rr_rdata r) \<le> 65535" using chain_records_wf by fastforce
    show "length chain_value < usize_limit div 2" using length_chain_value by simp
  qed (simp add: chain_value_def)
  then show ?thesis
    using length_chain_value by (simp add: parse_rfc9102_authentication_chain_def MAX_STATELESS_DANE_DNSSEC_CHAIN_BYTES_def numeral_2_eq_2)
qed

subsection \<open>The certificate\<close>

lemma evidence_oids:
  "oid_to_string [43, 6, 1, 4, 1, 0x83, 0xB2, 3, 17, 1] = Inr EXPERIMENTAL_HIP17_URKEL_PROOF_OID"
  "oid_to_string [43, 6, 1, 4, 1, 0x83, 0xB2, 3, 17, 2] = Inr EXPERIMENTAL_HIP17_DNSSEC_CHAIN_OID"
  by (simp_all add: oid_to_string_def get_byte_def dec_digits.simps checked_mul_u32_def checked_add_u32_opt_def ascii_def
     EXPERIMENTAL_HIP17_URKEL_PROOF_OID_def EXPERIMENTAL_HIP17_DNSSEC_CHAIN_OID_def)

lemma evidence_certificate_values:
  "certificate_extension_values evidence_certificate EXPERIMENTAL_HIP17_URKEL_PROOF_OID = Inr [proofs_value]"
  "certificate_extension_values evidence_certificate EXPERIMENTAL_HIP17_DNSSEC_CHAIN_OID = Inr [chain_value]"
  "cert_der_checked evidence_certificate = Inr evidence_certificate"
proof -
  define body where "body = concat sample_fields @ sample_spki @
     tlv TAG_EXPLICIT_EXTENSIONS (tlv TAG_SEQUENCE (concat (map extension_der evidence_extensions)))"
  have c: "evidence_certificate = tlv TAG_SEQUENCE (tlv TAG_SEQUENCE body @ [5, 0])"
    by (simp only: evidence_certificate_def body_def)
  have tlv_le: "length (tlv t v) \<le> n + 10" if "length v \<le> n" "n \<le> 5000" for t v n
    using that byte_len_usize [of "length v"] by (simp add: length_tlv length_der_length)
  have ext: "length (extension_der (oid, [], v)) \<le> 2040" if "length oid = 10" "length v \<le> 2000" for oid v
  proof -
    have "length (tlv TAG_OBJECT_IDENTIFIER oid) \<le> 10 + 10" by (rule tlv_le) (simp_all add: that)
    moreover have "length (tlv TAG_OCTET_STRING v) \<le> 2000 + 10" by (rule tlv_le) (simp_all add: that)
    ultimately have "length (tlv TAG_OBJECT_IDENTIFIER oid @ [] @ tlv TAG_OCTET_STRING v) \<le> 2030" by simp
    from tlv_le [OF this, of TAG_SEQUENCE] show ?thesis by simp
  qed
  have "length proofs_value \<le> 2000"
    using name_state_a_wf(2) by (simp add: proofs_value_def proof_a_def root_a_def)
  then have "length (extension_der ([43, 6, 1, 4, 1, 0x83, 0xB2, 3, 17, 1], [], proofs_value)) \<le> 2040"
    "length (extension_der ([43, 6, 1, 4, 1, 0x83, 0xB2, 3, 17, 2], [], chain_value)) \<le> 2040"
    using ext length_chain_value(2) by simp_all
  then have e1: "length (concat (map extension_der evidence_extensions)) \<le> 4080"
    unfolding evidence_extensions_def by (simp del: extension_der.simps)
  have e2: "length (tlv TAG_SEQUENCE (concat (map extension_der evidence_extensions))) \<le> 4080 + 10"
    by (rule tlv_le [OF e1]) simp
  have "length (tlv TAG_EXPLICIT_EXTENSIONS (tlv TAG_SEQUENCE (concat (map extension_der evidence_extensions)))) \<le> 4080 + 10 + 10"
    by (rule tlv_le [OF e2]) simp
  moreover have "length (concat sample_fields @ sample_spki) = 19"
    by (simp add: sample_fields_def sample_spki_def tlv_def der_length_def)
  ultimately have b1: "length body \<le> 4119" unfolding body_def length_append by linarith
  have "length (tlv TAG_SEQUENCE body) \<le> 4119 + 10" by (rule tlv_le [OF b1]) simp
  then have b2: "length (tlv TAG_SEQUENCE body @ [5, 0]) \<le> 4131" by simp
  have "length evidence_certificate \<le> 4131 + 10" unfolding c by (rule tlv_le [OF b2]) simp
  then have len: "length evidence_certificate < usize_limit div 2" by simp
  have t: "tbs_fields 6 body [] (sample_fields @ [sample_spki])
     (tlv TAG_EXPLICIT_EXTENSIONS (tlv TAG_SEQUENCE (concat (map extension_der evidence_extensions))) @ [])"
    using sample_tbs_fields by (auto simp: tbs_fields_def body_def sample_spki_def is_element_def)
  have e: "extensions_of (tlv TAG_EXPLICIT_EXTENSIONS (tlv TAG_SEQUENCE (concat (map extension_der evidence_extensions))) @ [])
      evidence_extensions"
    by (rule the_extensions) (auto simp: evidence_extensions_def evidence_oids)
  have v: "certificate_extension_values evidence_certificate target =
      Inr (concat (map (extension_value target) evidence_extensions))" for target
    unfolding extension_values_iff [OF len] using c t e by blast
  have "EXPERIMENTAL_HIP17_URKEL_PROOF_OID \<noteq> EXPERIMENTAL_HIP17_DNSSEC_CHAIN_OID"
    by (simp add: EXPERIMENTAL_HIP17_URKEL_PROOF_OID_def EXPERIMENTAL_HIP17_DNSSEC_CHAIN_OID_def ascii_def)
  then show "certificate_extension_values evidence_certificate EXPERIMENTAL_HIP17_URKEL_PROOF_OID = Inr [proofs_value]"
    "certificate_extension_values evidence_certificate EXPERIMENTAL_HIP17_DNSSEC_CHAIN_OID = Inr [chain_value]"
    unfolding v by (simp_all add: evidence_extensions_def evidence_oids)
  have w: "window evidence_certificate 0 (length evidence_certificate)" using len by (simp add: window_def)
  have "read_der_element_with_limit evidence_certificate 0 (length evidence_certificate) =
      Inr (element_at 0 TAG_SEQUENCE (tlv TAG_SEQUENCE body @ [5, 0]), 0 + length evidence_certificate)"
    unfolding read_element_window [OF w] using c by (simp add: slice_def) (metis append_Nil2)
  then show "cert_der_checked evidence_certificate = Inr evidence_certificate"
    by (simp add: cert_der_checked_def read_der_element_def element_at_def)
qed

subsection \<open>The verdict\<close>

definition tlsa_a :: tlsa_record where
  "tlsa_a = \<lparr>tr_usage = DaneEe, tr_selector = FullCertificate, tr_matching = Exact, tr_association_data = [1, 2, 3]\<rparr>"

lemma evidence_accepted: "evaluate_stateless_dane_certificate sample_crypto evidence_input = Inr (Tlsa [tlsa_a] root_a None)"
proof -
  obtain parsed where p: "parse_for_key proof_a root_a root_a = Inr parsed" "pp_kind parsed = Inclusion"
    "pp_name_hash parsed = root_a" "urkel_verify (digests sample_crypto) (pp_proof parsed) root_a root_a"
    "parsed_proof_value parsed = Some name_state_a" by (rule proof_a_accepted)
  have d: "extract_name_state_resource_value (ascii ''a'') name_state_a = Inr resource_data"
    unfolding name_state_a_def by (rule extract_name_state_complete [OF name_state_a_wf(1)])
  have ds: "records_for [zone_ds] zone_a TypeDs = [zone_ds]" by (simp add: records_for_def zone_ds_def hs_record_def)
  have r: "collect_results (\<lambda>r. tlsa_parse_rdata (rr_rdata r)) [tlsa_rr] = Inr [tlsa_a]"
    by (simp add: tlsa_rr_def tlsa_parse_rdata_def tlsa_a_def)
  have "stateless_loop sample_crypto evidence_input names_a chain_records [tlsa_rr]
      [\<lparr>su_root = root_a, su_proof = proof_a\<rparr>] = Inr (Tlsa [tlsa_a] root_a None)"
    using p by (simp add: evidence_input_def names_a_def d resource_data_decodes ds zone_chain_valid r Let_def
        del: collect_results.simps)
  then show ?thesis
    by (simp add: evaluate_stateless_dane_certificate_def evidence_certificate_values evidence_input_def names_a_of
        proofs_value_parses chain_value_parses MAX_STATELESS_DANE_ROOTS_def Let_def zone_selection names_a_def)
qed

lemma sample_crypto_laws: "digest_laws (digests sample_crypto)"
  by (simp add: digest_laws_def sample_crypto_def)

lemma length_name_hash:
  assumes "digest_laws D" "name_hash_from_name D name = Inr k"
  shows "length k = 32"
  using assms by (cases "validate_handshake_name name") (auto simp: name_hash_from_name_def length_sha3_256)

section \<open>Properties\<close>

text \<open>
  C29.  Stateless DANE trusts only the tree: whenever a certificate's own evidence yields TLSA records, the
  reported root is one the caller accepts; the records are, in order, the parsed TLSA records of the service
  name in the certificate's chain; they are signed for the time of the check by keys of the name's zone,
  whose key set contains a key with the digest of a DS record; and those DS records are in the resource that
  the tree behind the root, whatever that tree is, holds for the name, unless the hash function is broken.
\<close>

theorem stateless_evidence_sound:
  assumes "evaluate_stateless_dane_certificate K input = Inr (Tlsa recs root h)"
    and "digest_laws (digests K)" "wf_tree t" "fully_known t" "tree_hash (digests K) t = root"
  shows "root \<in> set (sd_accepted_tree_roots input) \<and>
    (\<exists>names tlsa_rrset parsed v keys.
       stateless_names_of (digests K) (sd_host input) (sd_port input) = Inr names \<and>
       tlsa_rrset \<noteq> [] \<and> (\<forall>r \<in> set tlsa_rrset. rr_name r = sn_service_owner names \<and> rr_type r = TypeTlsa) \<and>
       list_all2 (\<lambda>r t. tlsa_parse_rdata (rr_rdata r) = Inr t) tlsa_rrset recs \<and>
       evidence_grounds K names (sd_now_unix input) tlsa_rrset root parsed v keys \<and>
       (tree_lookup (sn_name_hash names) 0 t = Some (Some v) \<or>
        hash_broken (digests K) (set (tree_msgs (digests K) t) \<union>
          set (tree_msgs (digests K) (proof_tree (sn_name_hash names) (pp_proof parsed))))))"
proof -
  obtain names tlsa_rrset parsed v keys where n: "root \<in> set (sd_accepted_tree_roots input)"
    "stateless_names_of (digests K) (sd_host input) (sd_port input) = Inr names" "tlsa_rrset \<noteq> []"
    "\<forall>r \<in> set tlsa_rrset. rr_name r = sn_service_owner names \<and> rr_type r = TypeTlsa"
    "list_all2 (\<lambda>r t. tlsa_parse_rdata (rr_rdata r) = Inr t) tlsa_rrset recs"
    "evidence_grounds K names (sd_now_unix input) tlsa_rrset root parsed v keys"
    using stateless_evidence_Tlsa [OF assms(1)] by blast
  then obtain bs where p: "parse_for_key bs root (sn_name_hash names) = Inr parsed"
    "urkel_verifier_verify (digests K) parsed (tree_hash (digests K) t) = Inr True" "parsed_proof_value parsed = Some v"
    using assms(5) by (auto simp: evidence_grounds_def)
  have "length (sn_name_hash names) = 32"
    using n(2) length_name_hash [OF assms(2)] by (auto simp: stateless_names_of_def and_then_Inr Let_def)
  from uv.accepted_sound [OF assms(2) this p(1,2) assms(3,4)] n p(3) show ?thesis by metis
qed

text \<open>
  The sample certificate.  Its evidence is accepted although the only key the DS record anchors signs
  nothing: the signatures are by a second key of the set.
\<close>

theorem stateless_evidence_sound_witness:
  "evaluate_stateless_dane_certificate sample_crypto evidence_input = Inr (Tlsa [tlsa_a] root_a None) \<and>
   root_a \<in> set (sd_accepted_tree_roots evidence_input) \<and>
   (\<forall>s rrset now. \<not> signs sample_crypto (sample_dnskey 5) s rrset now)"
proof -
  have "tree_hash (digests sample_crypto) (TLeaf root_a name_state_a) = root_a"
    by (simp add: hash_value_def hash_leaf_def blake2b_256_def sample_crypto_def root_a_def)
  moreover have "wf_tree (TLeaf root_a name_state_a)" "fully_known (TLeaf root_a name_state_a)"
    by (simp_all add: root_a_def)
  ultimately show ?thesis
    using stateless_evidence_sound [OF evidence_accepted sample_crypto_laws] evidence_accepted sample_key_signs_nothing
    by blast
qed

end
