(* ===== verification/P2p_Wire.thy ===== *)
theory P2p_Wire
  imports Header Network_Policy
begin

text \<open>
  \<open>hns-p2p/src/lib.rs\<close> and the packet types of \<open>hns-p2p/src/dns_relay.rs\<close>: the packets peers exchange, their
  payloads, frames, and the decoder that cuts a byte stream into frames.
\<close>

section \<open>Definitions\<close>

definition PROTOCOL_VERSION :: u32 where "PROTOCOL_VERSION = 3"
definition SERVICE_NETWORK :: u64 where "SERVICE_NETWORK = 1"
definition MAX_INV :: nat where "MAX_INV = 50000"
definition MAX_ADDR :: nat where "MAX_ADDR = 1000"
definition MAX_HEADERS :: nat where "MAX_HEADERS = 2000"
definition MAX_AGENT_LEN :: nat where "MAX_AGENT_LEN = 255"
definition FRAME_HEADER_SIZE :: nat where "FRAME_HEADER_SIZE = 9"
definition MAX_MESSAGE :: nat where "MAX_MESSAGE = 8 * 1000 * 1000"
definition EXPERIMENTAL_DNS_RELAY_SERVICE :: u64 where "EXPERIMENTAL_DNS_RELAY_SERVICE = 0x40000000"
definition EXPERIMENTAL_GET_DNS_RELAY :: u8 where "EXPERIMENTAL_GET_DNS_RELAY = 0xf0"
definition EXPERIMENTAL_DNS_RELAY :: u8 where "EXPERIMENTAL_DNS_RELAY = 0xf1"
definition MAX_DNS_RELAY_QUERY_SIZE :: nat where "MAX_DNS_RELAY_QUERY_SIZE = 4 * 1024"
definition MAX_DNS_RELAY_RESPONSE_SIZE :: nat where "MAX_DNS_RELAY_RESPONSE_SIZE = 65535"
definition MAX_DNS_RELAY_REQUEST_PAYLOAD_SIZE :: nat where
  "MAX_DNS_RELAY_REQUEST_PAYLOAD_SIZE = 8 + 2 + MAX_DNS_RELAY_QUERY_SIZE"
definition MAX_DNS_RELAY_RESPONSE_PAYLOAD_SIZE :: nat where
  "MAX_DNS_RELAY_RESPONSE_PAYLOAD_SIZE = 8 + 1 + 2 + MAX_DNS_RELAY_RESPONSE_SIZE"

lemmas relay_limits = MAX_DNS_RELAY_QUERY_SIZE_def MAX_DNS_RELAY_RESPONSE_SIZE_def
  MAX_DNS_RELAY_REQUEST_PAYLOAD_SIZE_def MAX_DNS_RELAY_RESPONSE_PAYLOAD_SIZE_def

text \<open>The kinds of \<open>std::io::Error\<close> the code distinguishes.\<close>

datatype io_kind = TimedOut | WouldBlock | WriteZero | OtherKind nat

datatype p2p_error =
    PeerParse parse_error
  | NonCanonicalVarint
  | CountLimit
  | AgentTooLong
  | PeerTrailingBytes
  | InvalidMagic
  | MessageTooLarge
  | InvalidDnsRelayRequestId
  | DnsRelayQueryTooLarge
  | DnsRelayResponseTooLarge
  | InvalidDnsRelayStatus
  | InvalidDnsRelayPacket rust_str
  | PeerIo io_kind
  | ConnectionClosed
  | SessionDisconnected rust_str
  | UnexpectedAction
  | HandshakePacketLimit

subsection \<open>Packets\<close>

record net_address =
  na_time :: u64
  na_services :: u64
  na_address :: ip_addr
  na_port :: u16

record version_packet =
  vp_version :: u32
  vp_services :: u64
  vp_time :: u64
  vp_remote :: net_address
  vp_nonce :: bytes
  vp_agent :: rust_str
  vp_height :: u32
  vp_no_relay :: bool

record locator_packet =
  lp_locator :: "hash list"
  lp_stop :: hash

record proof_request =
  pr_root :: hash
  pr_key :: hash

record proof_packet =
  pk_root :: hash
  pk_key :: hash
  pk_proof :: bytes

record get_dns_relay_packet =
  gr_request_id :: u64
  gr_query :: bytes

datatype dns_relay_status =
  RelayOk | Refused | Unsupported | Busy | InvalidQuery | ResolverUnavailable | RelayTimeout | InternalError

record dns_relay_packet =
  dr_request_id :: u64
  dr_status :: dns_relay_status
  dr_response :: bytes

datatype packet =
    PktVersion version_packet
  | PktVerack
  | PktPing bytes
  | PktPong bytes
  | PktGetAddr
  | PktAddr "net_address list"
  | PktGetHeaders locator_packet
  | PktHeaders "block_header list"
  | PktSendHeaders
  | PktGetProof proof_request
  | PktProof proof_packet
  | PktGetDnsRelay get_dns_relay_packet
  | PktDnsRelay dns_relay_packet
  | PktUnknown u8 bytes

text \<open>\<open>packet_type() as u8\<close>: the discriminants of the enumeration \<open>PacketType\<close>.\<close>

fun raw_packet_type :: "packet \<Rightarrow> u8" where
  "raw_packet_type (PktVersion _) = 0"
| "raw_packet_type PktVerack = 1"
| "raw_packet_type (PktPing _) = 2"
| "raw_packet_type (PktPong _) = 3"
| "raw_packet_type PktGetAddr = 4"
| "raw_packet_type (PktAddr _) = 5"
| "raw_packet_type (PktGetHeaders _) = 10"
| "raw_packet_type (PktHeaders _) = 11"
| "raw_packet_type PktSendHeaders = 12"
| "raw_packet_type (PktGetProof _) = 26"
| "raw_packet_type (PktProof _) = 27"
| "raw_packet_type (PktGetDnsRelay _) = EXPERIMENTAL_GET_DNS_RELAY"
| "raw_packet_type (PktDnsRelay _) = EXPERIMENTAL_DNS_RELAY"
| "raw_packet_type (PktUnknown ty _) = ty"

subsection \<open>Numbers\<close>

abbreviation p2p :: "parse_error + 'a \<Rightarrow> p2p_error + 'a" where
  "p2p m \<equiv> map_err PeerParse m"

definition swap_bytes :: "u16 \<Rightarrow> u16" where
  "swap_bytes w = u16_of_le (u16_to_be w)"

definition read_varint :: "reader \<Rightarrow> p2p_error + (u64 \<times> reader)" where
  "read_varint r =
     and_then (p2p (read_u8 r)) (\<lambda>(first, r).
     if first \<le> 0xfc then Inr (ucast first, r)
     else if first = 0xfd then
       and_then (p2p (read_u16_be r)) (\<lambda>(w, r).
       let v = ucast (swap_bytes w) in
       if v < 0xfd then Inl NonCanonicalVarint else Inr (v, r))
     else if first = 0xfe then
       and_then (p2p (read_u32_le r)) (\<lambda>(w, r).
       let v = ucast w in
       if v \<le> 0xffff then Inl NonCanonicalVarint else Inr (v, r))
     else
       and_then (p2p (read_u64_le r)) (\<lambda>(v, r).
       if v \<le> 0xffffffff then Inl NonCanonicalVarint else Inr (v, r)))"

definition write_varint :: "u64 \<Rightarrow> bytes \<Rightarrow> bytes" where
  "write_varint v out =
     (if v \<le> 0xfc then out @ [ucast v]
      else if v \<le> 0xffff then out @ [0xfd] @ u16_to_le (ucast v)
      else if v \<le> 0xffffffff then out @ [0xfe] @ u32_to_le (ucast v)
      else out @ [0xff] @ u64_to_le v)"

definition write_u64_service :: "u64 \<Rightarrow> bytes \<Rightarrow> bytes" where
  "write_u64_service v out =
     (let low = ucast v; high = ucast (drop_bit 32 v) in out @ u32_to_le low @ u32_to_le high)"

definition read_u64_service :: "reader \<Rightarrow> parse_error + (u64 \<times> reader)" where
  "read_u64_service r =
     and_then (read_u32_le r) (\<lambda>(low, r).
     and_then (read_u32_le r) (\<lambda>(high, r).
     Inr (ucast low OR push_bit 32 (ucast high), r)))"

text \<open>\<open>for _ in 0..count \{ items.push(decode(reader)?) \}\<close>.\<close>

fun decode_times :: "(reader \<Rightarrow> 'e + ('a \<times> reader)) \<Rightarrow> nat \<Rightarrow> reader \<Rightarrow> 'e + ('a list \<times> reader)" where
  "decode_times dec 0 r = Inr ([], r)"
| "decode_times dec (Suc n) r =
     and_then (dec r) (\<lambda>(x, r).
     and_then (decode_times dec n r) (\<lambda>(xs, r). Inr (x # xs, r)))"

subsection \<open>Addresses\<close>

definition ipv6_octets :: "ipv6_addr \<Rightarrow> bytes" where
  "ipv6_octets s = concat (map u16_to_be s)"

definition ipv6_of_octets :: "bytes \<Rightarrow> ipv6_addr" where
  "ipv6_of_octets bs = map (\<lambda>i. u16_of_be [bs ! (2 * i), bs ! (2 * i + 1)]) [0..<8]"

definition V4_MAPPED_PREFIX :: bytes where
  "V4_MAPPED_PREFIX = [0, 0, 0, 0, 0, 0, 0, 0, 0, 0, 0xff, 0xff]"

fun ip_bytes :: "ip_addr \<Rightarrow> bytes" where
  "ip_bytes (V4 (a, b, c, d)) = replicate 10 0 @ [0xff, 0xff] @ [a, b, c, d]"
| "ip_bytes (V6 s) = ipv6_octets s"

definition net_address_encode :: "net_address \<Rightarrow> bytes \<Rightarrow> bytes" where
  "net_address_encode a out =
     write_u64_service (na_services a) (out @ u64_to_le (na_time a)) @ [0] @ ip_bytes (na_address a) @
       replicate 20 0 @ u16_to_le (na_port a) @ replicate 33 0"

definition net_address_decode :: "reader \<Rightarrow> p2p_error + (net_address \<times> reader)" where
  "net_address_decode r =
     and_then (p2p (read_u64_le r)) (\<lambda>(time_v, r).
     and_then (p2p (read_u64_service r)) (\<lambda>(services, r).
     and_then (p2p (read_u8 r)) (\<lambda>(family, r).
     and_then
       (if family = 0 then
          and_then (p2p (read_array 16 r)) (\<lambda>(raw_address, r).
          and_then (p2p (read_bytes 20 r)) (\<lambda>(_, r). Inr (raw_address, r)))
        else and_then (p2p (read_bytes 36 r)) (\<lambda>(_, r). Inr (replicate 16 0, r))) (\<lambda>(raw_address, r).
     and_then (p2p (read_array 2 r)) (\<lambda>(port_bytes, r).
     and_then (p2p (read_bytes 33 r)) (\<lambda>(_, r).
     let address = (if take 12 raw_address = V4_MAPPED_PREFIX
                    then V4 (raw_address ! 12, raw_address ! 13, raw_address ! 14, raw_address ! 15)
                    else V6 (ipv6_of_octets raw_address))
     in Inr (\<lparr>na_time = time_v, na_services = services, na_address = address, na_port = u16_of_le port_bytes\<rparr>, r)))))))"

subsection \<open>Payloads\<close>

definition version_encode :: "version_packet \<Rightarrow> bytes \<Rightarrow> p2p_error + bytes" where
  "version_encode p out =
     (let agent = vp_agent p in
      if length agent > MAX_AGENT_LEN then Inl AgentTooLong else
      let out = out @ u32_to_le (vp_version p);
          out = write_u64_service (vp_services p) out;
          out = out @ u64_to_le (vp_time p);
          out = net_address_encode (vp_remote p) out
      in Inr (out @ vp_nonce p @ [word_of_nat (length agent)] @ agent @ u32_to_le (vp_height p) @
              [if vp_no_relay p then 1 else 0]))"

definition version_decode :: "reader \<Rightarrow> p2p_error + (version_packet \<times> reader)" where
  "version_decode r =
     and_then (p2p (read_u32_le r)) (\<lambda>(version_v, r).
     and_then (p2p (read_u64_service r)) (\<lambda>(services, r).
     and_then (p2p (read_u64_le r)) (\<lambda>(time_v, r).
     and_then (net_address_decode r) (\<lambda>(remote, r).
     and_then (p2p (read_array 8 r)) (\<lambda>(nonce_v, r).
     and_then (p2p (read_u8 r)) (\<lambda>(agent_len, r).
     if unat agent_len > MAX_AGENT_LEN then Inl AgentTooLong else
     and_then (p2p (read_bytes (unat agent_len) r)) (\<lambda>(agent_bytes, r).
     and_then (ok_or (PeerParse InvalidDnsLabel) (str_from_utf8 agent_bytes)) (\<lambda>agent.
     and_then (p2p (read_u32_le r)) (\<lambda>(height, r).
     and_then (p2p (read_u8 r)) (\<lambda>(relay, r).
     Inr (\<lparr>vp_version = version_v, vp_services = services, vp_time = time_v, vp_remote = remote,
           vp_nonce = nonce_v, vp_agent = agent, vp_height = height, vp_no_relay = (relay = 1)\<rparr>, r)))))))))))"

definition addr_encode :: "net_address list \<Rightarrow> bytes \<Rightarrow> p2p_error + bytes" where
  "addr_encode items out =
     (if length items > MAX_ADDR then Inl CountLimit
      else Inr (fold net_address_encode items (write_varint (word_of_nat (length items)) out)))"

definition addr_decode :: "reader \<Rightarrow> p2p_error + (net_address list \<times> reader)" where
  "addr_decode r =
     and_then (read_varint r) (\<lambda>(count, r).
     if unat count > MAX_ADDR then Inl CountLimit
     else decode_times net_address_decode (unat count) r)"

definition hash_decode :: "reader \<Rightarrow> p2p_error + (hash \<times> reader)" where
  "hash_decode r = p2p (read_array 32 r)"

definition locator_encode :: "locator_packet \<Rightarrow> bytes \<Rightarrow> p2p_error + bytes" where
  "locator_encode p out =
     (if length (lp_locator p) > MAX_INV then Inl CountLimit
      else Inr (fold (\<lambda>h out. out @ h) (lp_locator p) (write_varint (word_of_nat (length (lp_locator p))) out) @ lp_stop p))"

definition locator_decode :: "reader \<Rightarrow> p2p_error + (locator_packet \<times> reader)" where
  "locator_decode r =
     and_then (read_varint r) (\<lambda>(count, r).
     if unat count > MAX_INV then Inl CountLimit else
     and_then (decode_times hash_decode (unat count) r) (\<lambda>(locator, r).
     and_then (hash_decode r) (\<lambda>(stop, r).
     Inr (\<lparr>lp_locator = locator, lp_stop = stop\<rparr>, r))))"

definition headers_encode :: "block_header list \<Rightarrow> bytes \<Rightarrow> p2p_error + bytes" where
  "headers_encode items out =
     (if length items > MAX_HEADERS then Inl CountLimit
      else Inr (fold (\<lambda>h out. out @ header_serialize h) items (write_varint (word_of_nat (length items)) out)))"

definition header_decode :: "reader \<Rightarrow> p2p_error + (block_header \<times> reader)" where
  "header_decode r =
     and_then (p2p (read_bytes HEADER_SIZE r)) (\<lambda>(bs, r).
     and_then (p2p (header_parse bs)) (\<lambda>h. Inr (h, r)))"

definition headers_decode :: "reader \<Rightarrow> p2p_error + (block_header list \<times> reader)" where
  "headers_decode r =
     and_then (read_varint r) (\<lambda>(count, r).
     if unat count > MAX_HEADERS then Inl CountLimit
     else decode_times header_decode (unat count) r)"

subsection \<open>Relay packets\<close>

text \<open>The texts of \<open>InvalidDnsRelayPacket\<close>.\<close>

definition QUERY_EMPTY :: rust_str where "QUERY_EMPTY = ascii ''DNS-relay query is empty''"
definition OK_EMPTY :: rust_str where "OK_EMPTY = ascii ''OK DNS-relay response is empty''"
definition ERROR_BODY :: rust_str where "ERROR_BODY = ascii ''error DNS-relay response has a DNS body''"

fun relay_status_code :: "dns_relay_status \<Rightarrow> u8" where
  "relay_status_code RelayOk = 0"
| "relay_status_code Refused = 1"
| "relay_status_code Unsupported = 2"
| "relay_status_code Busy = 3"
| "relay_status_code InvalidQuery = 4"
| "relay_status_code ResolverUnavailable = 5"
| "relay_status_code RelayTimeout = 6"
| "relay_status_code InternalError = 7"

definition relay_status_try_from :: "u8 \<Rightarrow> p2p_error + dns_relay_status" where
  "relay_status_try_from v =
     (if v = 0 then Inr RelayOk else if v = 1 then Inr Refused else if v = 2 then Inr Unsupported
      else if v = 3 then Inr Busy else if v = 4 then Inr InvalidQuery else if v = 5 then Inr ResolverUnavailable
      else if v = 6 then Inr RelayTimeout else if v = 7 then Inr InternalError
      else Inl InvalidDnsRelayStatus)"

definition get_relay_validate :: "get_dns_relay_packet \<Rightarrow> p2p_error + unit" where
  "get_relay_validate p =
     (if gr_request_id p = 0 then Inl InvalidDnsRelayRequestId
      else if gr_query p = [] then Inl (InvalidDnsRelayPacket QUERY_EMPTY)
      else if length (gr_query p) > MAX_DNS_RELAY_QUERY_SIZE then Inl DnsRelayQueryTooLarge
      else Inr ())"

definition get_relay_new :: "u64 \<Rightarrow> bytes \<Rightarrow> p2p_error + get_dns_relay_packet" where
  "get_relay_new request_id query =
     (let packet = \<lparr>gr_request_id = request_id, gr_query = query\<rparr>
      in and_then (get_relay_validate packet) (\<lambda>_. Inr packet))"

definition get_relay_encode :: "get_dns_relay_packet \<Rightarrow> p2p_error + bytes" where
  "get_relay_encode p =
     and_then (get_relay_validate p) (\<lambda>_.
     Inr (u64_to_le (gr_request_id p) @ u16_to_le (word_of_nat (length (gr_query p))) @ gr_query p))"

definition get_relay_decode :: "bytes \<Rightarrow> p2p_error + get_dns_relay_packet" where
  "get_relay_decode payload =
     (if length payload < 10 then Inl (PeerParse UnexpectedEof) else
      let request_id = u64_of_le (slice payload 0 8) in
      if request_id = 0 then Inl InvalidDnsRelayRequestId else
      let query_len = unat (u16_of_le (slice payload 8 10)) in
      if query_len > MAX_DNS_RELAY_QUERY_SIZE then Inl DnsRelayQueryTooLarge else
      and_then (ok_or DnsRelayQueryTooLarge (checked_add_usize 10 query_len)) (\<lambda>expected.
      if length payload < expected then Inl (PeerParse UnexpectedEof)
      else if length payload > expected then Inl PeerTrailingBytes
      else get_relay_new request_id (slice payload 10 expected)))"

definition relay_validate :: "dns_relay_packet \<Rightarrow> p2p_error + unit" where
  "relay_validate p =
     (if dr_request_id p = 0 then Inl InvalidDnsRelayRequestId
      else if length (dr_response p) > MAX_DNS_RELAY_RESPONSE_SIZE then Inl DnsRelayResponseTooLarge
      else if dr_status p = RelayOk \<and> dr_response p = [] then Inl (InvalidDnsRelayPacket OK_EMPTY)
      else if dr_status p = RelayOk \<or> dr_response p = [] then Inr ()
      else Inl (InvalidDnsRelayPacket ERROR_BODY))"

definition relay_new :: "u64 \<Rightarrow> dns_relay_status \<Rightarrow> bytes \<Rightarrow> p2p_error + dns_relay_packet" where
  "relay_new request_id status response =
     (let packet = \<lparr>dr_request_id = request_id, dr_status = status, dr_response = response\<rparr>
      in and_then (relay_validate packet) (\<lambda>_. Inr packet))"

definition relay_encode :: "dns_relay_packet \<Rightarrow> p2p_error + bytes" where
  "relay_encode p =
     and_then (relay_validate p) (\<lambda>_.
     Inr (u64_to_le (dr_request_id p) @ [relay_status_code (dr_status p)] @
          u16_to_le (word_of_nat (length (dr_response p))) @ dr_response p))"

definition relay_decode :: "bytes \<Rightarrow> p2p_error + dns_relay_packet" where
  "relay_decode payload =
     (if length payload < 11 then Inl (PeerParse UnexpectedEof) else
      let request_id = u64_of_le (slice payload 0 8) in
      if request_id = 0 then Inl InvalidDnsRelayRequestId else
      and_then (relay_status_try_from (payload ! 8)) (\<lambda>status.
      let response_len = unat (u16_of_le (slice payload 9 11)) in
      if response_len > MAX_DNS_RELAY_RESPONSE_SIZE then Inl DnsRelayResponseTooLarge else
      and_then (ok_or DnsRelayResponseTooLarge (checked_add_usize 11 response_len)) (\<lambda>expected.
      if length payload < expected then Inl (PeerParse UnexpectedEof)
      else if length payload > expected then Inl PeerTrailingBytes
      else relay_new request_id status (slice payload 11 expected))))"

subsection \<open>Packets and frames\<close>

fun encode_payload :: "packet \<Rightarrow> p2p_error + bytes" where
  "encode_payload (PktVersion p) = version_encode p []"
| "encode_payload PktVerack = Inr []"
| "encode_payload PktGetAddr = Inr []"
| "encode_payload PktSendHeaders = Inr []"
| "encode_payload (PktPing n) = Inr n"
| "encode_payload (PktPong n) = Inr n"
| "encode_payload (PktAddr items) = addr_encode items []"
| "encode_payload (PktGetHeaders p) = locator_encode p []"
| "encode_payload (PktHeaders items) = headers_encode items []"
| "encode_payload (PktGetProof p) = Inr (pr_root p @ pr_key p)"
| "encode_payload (PktProof p) = Inr (pk_root p @ pk_key p @ pk_proof p)"
| "encode_payload (PktGetDnsRelay p) = get_relay_encode p"
| "encode_payload (PktDnsRelay p) = relay_encode p"
| "encode_payload (PktUnknown ty payload) = Inr payload"

text \<open>The check for trailing bytes after a known packet.\<close>

definition finished :: "p2p_error + (packet \<times> reader) \<Rightarrow> p2p_error + packet" where
  "finished m = and_then m (\<lambda>(packet, r). if remaining r \<noteq> 0 then Inl PeerTrailingBytes else Inr packet)"

definition decode_payload :: "u8 \<Rightarrow> bytes \<Rightarrow> p2p_error + packet" where
  "decode_payload ty payload =
     (let r = reader_new payload in
      if ty = 0 then finished (and_then (version_decode r) (\<lambda>(p, r). Inr (PktVersion p, r)))
      else if ty = 1 then finished (Inr (PktVerack, r))
      else if ty = 2 then finished (and_then (p2p (read_array 8 r)) (\<lambda>(n, r). Inr (PktPing n, r)))
      else if ty = 3 then finished (and_then (p2p (read_array 8 r)) (\<lambda>(n, r). Inr (PktPong n, r)))
      else if ty = 4 then finished (Inr (PktGetAddr, r))
      else if ty = 5 then finished (and_then (addr_decode r) (\<lambda>(p, r). Inr (PktAddr p, r)))
      else if ty = 10 then finished (and_then (locator_decode r) (\<lambda>(p, r). Inr (PktGetHeaders p, r)))
      else if ty = 11 then finished (and_then (headers_decode r) (\<lambda>(p, r). Inr (PktHeaders p, r)))
      else if ty = 12 then finished (Inr (PktSendHeaders, r))
      else if ty = 26 then finished
        (and_then (hash_decode r) (\<lambda>(root, r).
         and_then (hash_decode r) (\<lambda>(key, r). Inr (PktGetProof \<lparr>pr_root = root, pr_key = key\<rparr>, r))))
      else if ty = 27 then finished
        (and_then (hash_decode r) (\<lambda>(root, r).
         and_then (hash_decode r) (\<lambda>(key, r).
         and_then (p2p (read_bytes (remaining r) r)) (\<lambda>(proof_v, r).
         Inr (PktProof \<lparr>pk_root = root, pk_key = key, pk_proof = proof_v\<rparr>, r)))))
      else if ty = EXPERIMENTAL_GET_DNS_RELAY then and_then (get_relay_decode payload) (\<lambda>p. Inr (PktGetDnsRelay p))
      else if ty = EXPERIMENTAL_DNS_RELAY then and_then (relay_decode payload) (\<lambda>p. Inr (PktDnsRelay p))
      else Inr (PktUnknown ty payload))"

record frame_header =
  fh_magic :: u32
  fh_packet_type :: u8
  fh_payload_len :: u32

definition frame_header_encode :: "frame_header \<Rightarrow> bytes \<Rightarrow> bytes" where
  "frame_header_encode h out = out @ u32_to_le (fh_magic h) @ [fh_packet_type h] @ u32_to_le (fh_payload_len h)"

definition frame_header_parse :: "bytes \<Rightarrow> p2p_error + frame_header" where
  "frame_header_parse data =
     (if length data < FRAME_HEADER_SIZE then Inl (PeerParse UnexpectedEof)
      else Inr \<lparr>fh_magic = u32_of_le (slice data 0 4), fh_packet_type = data ! 4,
                fh_payload_len = u32_of_le (slice data 5 9)\<rparr>)"

definition encode_frame :: "network \<Rightarrow> packet \<Rightarrow> p2p_error + bytes" where
  "encode_frame network packet =
     and_then (encode_payload packet) (\<lambda>payload.
     if length payload > MAX_MESSAGE then Inl MessageTooLarge else
     Inr (frame_header_encode \<lparr>fh_magic = net_magic network, fh_packet_type = raw_packet_type packet,
            fh_payload_len = word_of_nat (length payload)\<rparr> [] @ payload))"

definition decode_frame :: "network \<Rightarrow> bytes \<Rightarrow> p2p_error + (packet \<times> nat) option" where
  "decode_frame network data =
     (if length data < FRAME_HEADER_SIZE then Inr None else
      and_then (frame_header_parse data) (\<lambda>header.
      if fh_magic header \<noteq> net_magic network then Inl InvalidMagic else
      let payload_len = unat (fh_payload_len header) in
      if payload_len > MAX_MESSAGE then Inl MessageTooLarge
      else if fh_packet_type header = EXPERIMENTAL_GET_DNS_RELAY \<and> payload_len > MAX_DNS_RELAY_REQUEST_PAYLOAD_SIZE
        then Inl DnsRelayQueryTooLarge
      else if fh_packet_type header = EXPERIMENTAL_DNS_RELAY \<and> payload_len > MAX_DNS_RELAY_RESPONSE_PAYLOAD_SIZE
        then Inl DnsRelayResponseTooLarge
      else
      and_then (ok_or MessageTooLarge (checked_add_usize FRAME_HEADER_SIZE payload_len)) (\<lambda>frame_len.
      if length data < frame_len then Inr None else
      and_then (decode_payload (fh_packet_type header) (slice data FRAME_HEADER_SIZE frame_len)) (\<lambda>packet.
      Inr (Some (packet, frame_len))))))"

record frame_decoder =
  fd_buffer :: bytes
  fd_network :: network

definition frame_decoder_new :: "network \<Rightarrow> frame_decoder" where
  "frame_decoder_new network = \<lparr>fd_buffer = [], fd_network = network\<rparr>"

lemma decode_frame_used:
  "decode_frame network data = Inr (Some (packet, used)) \<Longrightarrow> 9 \<le> used \<and> used \<le> length data"
  by (auto simp: decode_frame_def and_then_Inr Let_def FRAME_HEADER_SIZE_def split: if_splits)

text \<open>The loop of \<open>feed\<close>: the decoded packets and how many bytes they took.\<close>

function feed_loop :: "network \<Rightarrow> bytes \<Rightarrow> nat \<Rightarrow> packet list \<Rightarrow> p2p_error + (packet list \<times> nat)" where
  "feed_loop network buffer consumed packets =
     and_then (decode_frame network (drop consumed buffer)) (\<lambda>decoded.
     case decoded of
       None \<Rightarrow> Inr (packets, consumed)
     | Some (packet, used) \<Rightarrow>
         (if consumed + used = length buffer then Inr (packets @ [packet], consumed + used)
          else feed_loop network buffer (consumed + used) (packets @ [packet])))"
  by pat_completeness auto
termination
  by (relation "measure (\<lambda>(_, b, c, _). length b - c)") (auto dest!: decode_frame_used)

declare feed_loop.simps [simp del]

definition feed :: "bytes \<Rightarrow> frame_decoder \<Rightarrow> (p2p_error + packet list) \<times> frame_decoder" where
  "feed data d =
     (if min (length (fd_buffer d) + length data) (usize_limit - 1) > MAX_MESSAGE + FRAME_HEADER_SIZE
      then (Inl MessageTooLarge, d) else
      let d = d\<lparr>fd_buffer := fd_buffer d @ data\<rparr> in
      case feed_loop (fd_network d) (fd_buffer d) 0 [] of
        Inl e \<Rightarrow> (Inl e, d)
      | Inr (packets, consumed) \<Rightarrow> (Inr packets, d\<lparr>fd_buffer := drop consumed (fd_buffer d)\<rparr>))"

section \<open>Lemmas\<close>

subsection \<open>Numbers\<close>

lemma advance_advance [simp]: "advance m (advance n r) = advance (n + m) r"
  by (simp add: advance_def add.assoc)

lemma advance_0 [simp]: "advance 0 r = r"
  by (simp add: advance_def)

lemma unat_ucast_up:
  assumes "LENGTH('a) \<le> LENGTH('b)"
  shows "unat (ucast (w :: 'a :: len word) :: 'b :: len word) = unat w"
proof -
  have "unat w < 2 ^ LENGTH('a)" by (rule unsigned_less)
  also have "\<dots> \<le> 2 ^ LENGTH('b)" using assms by (intro power_increasing) auto
  finally show ?thesis by (simp add: unsigned_ucast_eq take_bit_nat_eq_self)
qed

lemma word_eqI_unat: "unat (v :: 'a :: len word) = unat w \<Longrightarrow> v = w"
  by (simp add: unsigned_word_eqI)

lemma word64_halves:
  fixes low high :: u32
  shows "unat ((ucast low :: u64) OR push_bit 32 (ucast high)) = unat low + 2 ^ 32 * unat high"
proof -
  have "(ucast low :: u64) OR push_bit 32 (ucast high) = ucast low + push_bit 32 (ucast high)"
    by (rule disjunctive_add_eq_or [symmetric]) (auto simp: bit_eq_iff bit_simps dest: bit_imp_le_length)
  moreover have "unat low < 2 ^ 32" "unat high < 2 ^ 32"
    using unsigned_less [of low, where 'a = nat] unsigned_less [of high, where 'a = nat] by simp_all
  ultimately show ?thesis
    by (simp add: unat_word_ariths unat_ucast_up push_bit_eq_mult unsigned_push_bit_eq take_bit_eq_mod)
qed

lemma service_bytes: "write_u64_service v out = out @ u64_to_le v"
proof -
  define low high where "low = (ucast v :: u32)" and "high = (ucast (drop_bit 32 v) :: u32)"
  have "unat v = unat low + 2 ^ 32 * unat high"
    using unsigned_less [of v, where 'a = nat]
    by (simp add: low_def high_def unsigned_ucast_eq take_bit_eq_mod unat_drop_bit_div)
  moreover have "unat low < 256 ^ 4" "unat high < 256 ^ 4"
    using unsigned_less [of low, where 'a = nat] unsigned_less [of high, where 'a = nat] by simp_all
  ultimately have "unat v = le_nat (u32_to_le low @ u32_to_le high)"
    by (simp add: le_nat_append u32_to_le_def le_nat_le_bytes)
  then have "u64_to_le v = u32_to_le low @ u32_to_le high"
    using le_bytes_le_nat [of "u32_to_le low @ u32_to_le high"] by (simp add: u64_to_le_def)
  then show ?thesis by (simp add: write_u64_service_def low_def high_def)
qed

lemma read_service_closed:
  assumes "reader_ok r"
  shows "read_u64_service r =
    (if 8 \<le> length (rest r) then Inr (u64_of_le (take 8 (rest r)), advance 8 r) else Inl UnexpectedEof)"
proof (cases "8 \<le> length (rest r)")
  case True
  define a b where "a = take 4 (rest r)" and "b = take 4 (drop 4 (rest r))"
  have len: "length a = 4" "length b = 4" using True by (simp_all add: a_def b_def)
  have ab: "take 8 (rest r) = a @ b" using take_add [of 4 4 "rest r"] by (simp add: a_def b_def)
  have "unat ((ucast (u32_of_le a) :: u64) OR push_bit 32 (ucast (u32_of_le b))) = le_nat (a @ b)"
    by (simp add: word64_halves unat_u32_of_le len le_nat_append)
  then have "(ucast (u32_of_le a) :: u64) OR push_bit 32 (ucast (u32_of_le b)) = u64_of_le (a @ b)"
    using unat_u64_of_le [of "a @ b"] len by (intro word_eqI_unat) simp
  with True assms show ?thesis by (simp add: read_u64_service_def reads_closed ab a_def b_def)
next
  case False
  with assms show ?thesis by (auto simp: read_u64_service_def reads_closed)
qed

subsection \<open>Item codecs\<close>

text \<open>
  The contract of an item that is read from a reader: its image is read back wherever it stands, and
  what is read is well-formed and taken from the unread bytes.  Counted lists of such items inherit it.
\<close>

locale item_codec =
  fixes image :: "'a \<Rightarrow> bytes"
    and decode :: "reader \<Rightarrow> p2p_error + ('a \<times> reader)"
    and wf :: "'a \<Rightarrow> bool"
  assumes decode_image: "\<lbrakk>reader_ok r; wf x; rest r = image x @ t\<rbrakk> \<Longrightarrow> decode r = Inr (x, advance (length (image x)) r)"
    and decode_wf: "\<lbrakk>reader_ok r; decode r = Inr (x, r')\<rbrakk> \<Longrightarrow>
    wf x \<and> length (image x) \<le> length (rest r) \<and> r' = advance (length (image x)) r"
begin

lemma decode_times_image:
  assumes "reader_ok r" "list_all wf xs" "rest r = concat (map image xs) @ t"
  shows "decode_times decode (length xs) r = Inr (xs, advance (length (concat (map image xs))) r)"
  using assms
proof (induction xs arbitrary: r)
  case (Cons x xs)
  then have d: "decode r = Inr (x, advance (length (image x)) r)"
    by (intro decode_image [where t = "concat (map image xs) @ t"]) simp_all
  have "decode_times decode (length xs) (advance (length (image x)) r) =
      Inr (xs, advance (length (concat (map image xs))) (advance (length (image x)) r))"
    using Cons.prems by (intro Cons.IH) simp_all
  with d show ?case by simp
qed simp

lemma decode_times_wf:
  assumes "reader_ok r" "decode_times decode n r = Inr (xs, r')"
  shows "list_all wf xs \<and> length xs = n \<and> length (concat (map image xs)) \<le> length (rest r) \<and>
    r' = advance (length (concat (map image xs))) r"
  using assms
proof (induction n arbitrary: r xs)
  case (Suc n)
  then obtain x r1 ys where s: "decode r = Inr (x, r1)" "decode_times decode n r1 = Inr (ys, r')" "xs = x # ys"
    by (auto simp: and_then_Inr)
  from decode_wf [OF Suc.prems(1) s(1)] have k: "wf x" "length (image x) \<le> length (rest r)" "r1 = advance (length (image x)) r"
    by blast+
  then have "reader_ok r1" using Suc.prems(1) by simp
  from Suc.IH [OF this s(2)] k s(3) show ?case by auto
qed simp

end

interpretation hc: item_codec "\<lambda>h. h" hash_decode "\<lambda>h. length h = 32"
proof
  show "hash_decode r = Inr (x, advance (length x) r)" if "reader_ok r" "length x = 32" "rest r = x @ t" for r x t
    using that by (simp add: hash_decode_def read_array_closed)
  show "length x = 32 \<and> length x \<le> length (rest r) \<and> r' = advance (length x) r"
    if "reader_ok r" "hash_decode r = Inr (x, r')" for r x r'
    using that by (auto simp: hash_decode_def read_array_closed split: if_splits)
qed

interpretation bc: item_codec header_serialize header_decode wf_header
proof
  fix r :: reader
  assume ok: "reader_ok r"
  have closed: "header_decode r = (if 236 \<le> length (rest r) then
      and_then (p2p (header_parse (take 236 (rest r)))) (\<lambda>h. Inr (h, advance 236 r)) else Inl (PeerParse UnexpectedEof))"
    using read_array_closed [OF ok, of 236] by (simp add: header_decode_def HEADER_SIZE_def read_array_def)
  show "header_decode r = Inr (x, advance (length (header_serialize x)) r)"
    if "wf_header x" "rest r = header_serialize x @ t" for x t
    using that length_header_serialize [OF that(1)] by (simp add: closed HEADER_SIZE_def header_parse_serialize)
  show "wf_header x \<and> length (header_serialize x) \<le> length (rest r) \<and> r' = advance (length (header_serialize x)) r"
    if "header_decode r = Inr (x, r')" for x r'
    using that header_serialize_parse length_header_serialize by (auto simp: closed and_then_Inr HEADER_SIZE_def split: if_splits)
qed

subsection \<open>Variable-length integers\<close>

definition varint_bytes :: "u64 \<Rightarrow> bytes" where
  "varint_bytes v = write_varint v []"

lemma write_varint_bytes: "write_varint v out = out @ varint_bytes v"
  by (simp add: varint_bytes_def write_varint_def)

lemma varint_narrow:
  fixes v :: u64
  shows "v \<le> 0xffff \<Longrightarrow> ucast (ucast v :: u16) = v" "v \<le> 0xffffffff \<Longrightarrow> ucast (ucast v :: u32) = v"
    "v \<le> 0xfc \<Longrightarrow> ucast (ucast v :: u8) = v"
  by (rule word_eqI_unat, simp add: unat_ucast_up, simp add: unsigned_ucast_eq take_bit_nat_eq_self word_le_nat_alt)+

lemma swap_bytes_of_be: "length bs = 2 \<Longrightarrow> swap_bytes (u16_of_be bs) = u16_of_le bs"
  by (simp add: swap_bytes_def u16_to_be_of_be)

interpretation vc: item_codec varint_bytes read_varint "\<lambda>_. True"
proof
  fix r :: reader
  assume ok: "reader_ok r"
  show "read_varint r = Inr (v, advance (length (varint_bytes v)) r)" if "rest r = varint_bytes v @ t" for v t
  proof -
    consider "v \<le> 0xfc" | "\<not> v \<le> 0xfc" "v \<le> 0xffff" | "\<not> v \<le> 0xffff" "v \<le> 0xffffffff" | "\<not> v \<le> 0xffffffff"
      by blast
    then show ?thesis
    proof cases
      case 1
      then have "(ucast v :: u8) \<le> 0xfc"
        by (simp add: word_le_nat_alt unsigned_ucast_eq take_bit_eq_mod)
      with 1 that ok show ?thesis
        by (simp add: varint_bytes_def write_varint_def read_varint_def reads_closed varint_narrow)
    next
      case 2
      then have "\<not> v < 0xfd" by (simp add: word_less_nat_alt word_le_nat_alt)
      with 2 that ok show ?thesis
        by (simp add: varint_bytes_def write_varint_def read_varint_def reads_closed varint_narrow swap_bytes_of_be
            numeral_3_eq_3)
    next
      case 3
      then have "\<not> v \<le> 0xfc" by (simp add: word_le_nat_alt)
      with 3 that ok show ?thesis
        by (simp add: varint_bytes_def write_varint_def read_varint_def reads_closed varint_narrow)
    next
      case 4
      then have "\<not> v \<le> 0xfc" "\<not> v \<le> 0xffff" by (simp_all add: word_le_nat_alt)
      with 4 that ok show ?thesis
        by (simp add: varint_bytes_def write_varint_def read_varint_def reads_closed)
    qed
  qed
  show "True \<and> length (varint_bytes v) \<le> length (rest r) \<and> r' = advance (length (varint_bytes v)) r"
    if "read_varint r = Inr (v, r')" for v r'
  proof -
    have "unat (x :: u16) \<le> 65535" "unat (x :: u16) \<le> 4294967295" "unat (y :: u32) \<le> 4294967295" for x y
      using unsigned_less [of x, where 'a = nat] unsigned_less [of y, where 'a = nat] by simp_all
    then show ?thesis
      using that ok
      by (auto simp: read_varint_def reads_closed and_then_Inr Let_def varint_bytes_def write_varint_def word_le_nat_alt
          word_less_nat_alt unat_ucast_up numeral_3_eq_3 split: if_splits)
  qed
qed

subsection \<open>Addresses and versions\<close>

fun wf_ip :: "ip_addr \<Rightarrow> bool" where
  "wf_ip (V4 a) = True"
| "wf_ip (V6 s) \<longleftrightarrow> length s = 8 \<and> take 12 (ipv6_octets s) \<noteq> V4_MAPPED_PREFIX"

lemma length_ipv6_octets: "length (ipv6_octets s) = 2 * length s"
  by (induction s) (simp_all add: ipv6_octets_def)

lemma ipv6_octets_of: "length bs = 16 \<Longrightarrow> ipv6_octets (ipv6_of_octets bs) = bs"
proof -
  assume len: "length bs = 16"
  have "ipv6_octets (ipv6_of_octets bs) = concat (map (\<lambda>i. [bs ! (2 * i), bs ! (2 * i + 1)]) [0..<8])"
    by (simp add: ipv6_octets_def ipv6_of_octets_def comp_def u16_to_be_of_be)
  also have "\<dots> = map ((!) bs) [0..<16]" by (simp add: upt_rec numeral_eq_Suc)
  finally show ?thesis using map_nth [of bs] len by simp
qed

lemma ipv6_of_octets_nth: "i < 8 \<Longrightarrow> ipv6_of_octets bs ! i = u16_of_be [bs ! (2 * i), bs ! (2 * i + 1)]"
  by (simp add: ipv6_of_octets_def)

lemma be16_pair: "u16_of_be [u16_to_be x ! 0, u16_to_be x ! 1] = x"
proof -
  have "u16_to_be x = [u16_to_be x ! 0, u16_to_be x ! 1]"
    by (rule nth_equalityI) (auto simp: less_Suc_eq numeral_2_eq_2)
  then show ?thesis by (metis word_bytes_round_trip(1))
qed

lemma ipv6_octets_nth: "i < length s \<Longrightarrow> k < 2 \<Longrightarrow> ipv6_octets s ! (2 * i + k) = u16_to_be (s ! i) ! k"
proof (induction s arbitrary: i)
  case (Cons x s)
  then show ?case by (cases i) (auto simp: ipv6_octets_def nth_append)
qed simp

lemma ipv6_of_octets: "length s = 8 \<Longrightarrow> ipv6_of_octets (ipv6_octets s) = s"
proof (rule nth_equalityI)
  show "length s = 8 \<Longrightarrow> length (ipv6_of_octets (ipv6_octets s)) = length s" by (simp add: ipv6_of_octets_def)
  show "ipv6_of_octets (ipv6_octets s) ! i = s ! i"
    if "length s = 8" "i < length (ipv6_of_octets (ipv6_octets s))" for i
    using that ipv6_octets_nth [of i s 0] ipv6_octets_nth [of i s 1]
    by (simp add: ipv6_of_octets_nth be16_pair [unfolded One_nat_def] ipv6_of_octets_def)
qed

definition net_address_bytes :: "net_address \<Rightarrow> bytes" where
  "net_address_bytes a =
     u64_to_le (na_time a) @ u64_to_le (na_services a) @ [0] @ ip_bytes (na_address a) @ replicate 20 0 @
     u16_to_le (na_port a) @ replicate 33 0"

lemma net_address_encode_bytes: "net_address_encode a out = out @ net_address_bytes a"
  by (simp add: net_address_encode_def net_address_bytes_def service_bytes)

lemma length_ip_bytes: "wf_ip a \<Longrightarrow> length (ip_bytes a) = 16"
  by (cases a) (auto simp: length_ipv6_octets)

lemma length_net_address_bytes: "wf_ip (na_address a) \<Longrightarrow> length (net_address_bytes a) = 88"
  by (simp add: net_address_bytes_def length_ip_bytes)

definition ip_of_bytes :: "bytes \<Rightarrow> ip_addr" where
  "ip_of_bytes raw = (if take 12 raw = V4_MAPPED_PREFIX then V4 (raw ! 12, raw ! 13, raw ! 14, raw ! 15)
     else V6 (ipv6_of_octets raw))"

lemma ip_of_ip_bytes: "wf_ip a \<Longrightarrow> ip_of_bytes (ip_bytes a) = a"
proof (cases a)
  case (V4 q)
  then show ?thesis by (cases q) (simp add: ip_of_bytes_def V4_MAPPED_PREFIX_def numeral_eq_Suc)
qed (auto simp: ip_of_bytes_def ipv6_of_octets)

lemma wf_ip_of_bytes: "length raw = 16 \<Longrightarrow> wf_ip (ip_of_bytes raw)"
  by (simp add: ip_of_bytes_def ipv6_octets_of) (simp add: ipv6_of_octets_def)

lemma net_address_decode_closed:
  assumes "reader_ok r"
  shows "net_address_decode r =
    (if 88 \<le> length (rest r)
     then Inr (\<lparr>na_time = u64_of_le (take 8 (rest r)), na_services = u64_of_le (take 8 (drop 8 (rest r))),
       na_address = (if rest r ! 16 = 0 then ip_of_bytes (take 16 (drop 17 (rest r))) else ip_of_bytes (replicate 16 0)),
       na_port = u16_of_le (take 2 (drop 53 (rest r)))\<rparr>, advance 88 r)
     else Inl (PeerParse UnexpectedEof))"
proof (cases "88 \<le> length (rest r)")
  case True
  then show ?thesis
    using assms
    by (simp add: net_address_decode_def reads_closed read_service_closed read_array_closed ip_of_bytes_def Let_def
        read_array_def [symmetric] V4_MAPPED_PREFIX_def) auto
next
  case False
  then show ?thesis
    using assms
    by (auto simp: net_address_decode_def reads_closed read_service_closed read_array_closed Let_def
        read_array_def [symmetric])
qed

interpretation ac: item_codec net_address_bytes net_address_decode "\<lambda>a. wf_ip (na_address a)"
proof
  fix r :: reader
  assume ok: "reader_ok r"
  show "net_address_decode r = Inr (x, advance (length (net_address_bytes x)) r)"
    if "wf_ip (na_address x)" "rest r = net_address_bytes x @ t" for x t
    using ok that length_net_address_bytes [OF that(1)] length_ip_bytes [OF that(1)] ip_of_ip_bytes [OF that(1)]
    by (simp add: net_address_decode_closed) (simp add: net_address_bytes_def nth_append)
  show "wf_ip (na_address x) \<and> length (net_address_bytes x) \<le> length (rest r) \<and> r' = advance (length (net_address_bytes x)) r"
    if "net_address_decode r = Inr (x, r')" for x r'
  proof -
    have "wf_ip (na_address x)" using that wf_ip_of_bytes by (auto simp: net_address_decode_closed [OF ok] split: if_splits)
    with length_net_address_bytes [OF this] that show ?thesis by (auto simp: net_address_decode_closed [OF ok] split: if_splits)
  qed
qed

definition version_bytes :: "version_packet \<Rightarrow> bytes" where
  "version_bytes p =
     u32_to_le (vp_version p) @ u64_to_le (vp_services p) @ u64_to_le (vp_time p) @ net_address_bytes (vp_remote p) @
     vp_nonce p @ [word_of_nat (length (vp_agent p))] @ vp_agent p @ u32_to_le (vp_height p) @
     [if vp_no_relay p then 1 else 0]"

definition wf_version :: "version_packet \<Rightarrow> bool" where
  "wf_version p \<longleftrightarrow> wf_ip (na_address (vp_remote p)) \<and> length (vp_nonce p) = 8 \<and> length (vp_agent p) \<le> 255 \<and>
     utf8_valid (vp_agent p)"

lemma version_encode_bytes:
  "wf_version p \<Longrightarrow> version_encode p out = Inr (out @ version_bytes p)"
  by (simp add: version_encode_def MAX_AGENT_LEN_def wf_version_def version_bytes_def service_bytes
      net_address_encode_bytes Let_def)

interpretation ec: item_codec version_bytes version_decode wf_version
proof
  fix r :: reader
  assume ok: "reader_ok r"
  show "version_decode r = Inr (p, advance (length (version_bytes p)) r)" if wf: "wf_version p" and r: "rest r = version_bytes p @ t" for p t
  proof -
    have ip: "wf_ip (na_address (vp_remote p))" and n: "length (vp_nonce p) = 8" and a: "length (vp_agent p) \<le> 255"
      using wf by (simp_all add: wf_version_def)
    have len: "length (net_address_bytes (vp_remote p)) = 88" by (rule length_net_address_bytes [OF ip])
    have u: "unat (word_of_nat (length (vp_agent p)) :: u8) = length (vp_agent p)" using a by (simp add: unat_of_nat)
    have "20 \<le> length (rest r)" by (simp add: r version_bytes_def)
    then have "net_address_decode (advance 20 r) = Inr (vp_remote p, advance (length (net_address_bytes (vp_remote p))) (advance 20 r))"
      using ok r
      by (intro ac.decode_image [OF _ ip, where t = "drop 88 (drop 20 (version_bytes p)) @ t"])
        (simp_all add: version_bytes_def len)
    then show ?thesis
      using ok r wf
      by (simp add: version_decode_def reads_closed read_service_closed read_array_closed version_bytes_def len n u
          MAX_AGENT_LEN_def read_array_def [symmetric] nth_append str_from_utf8_def wf_version_def)
  qed
  show "wf_version p \<and> length (version_bytes p) \<le> length (rest r) \<and> r' = advance (length (version_bytes p)) r"
    if d: "version_decode r = Inr (p, r')" for p r'
  proof -
    obtain ver sv tm r3 where h: "r3 = advance 20 r" "20 \<le> length (rest r)"
      and d3: "and_then (net_address_decode r3) (\<lambda>(remote, r).
         and_then (p2p (read_array 8 r)) (\<lambda>(nonce_v, r).
         and_then (p2p (read_u8 r)) (\<lambda>(agent_len, r).
         if unat agent_len > MAX_AGENT_LEN then Inl AgentTooLong else
         and_then (p2p (read_bytes (unat agent_len) r)) (\<lambda>(agent_bytes, r).
         and_then (ok_or (PeerParse InvalidDnsLabel) (str_from_utf8 agent_bytes)) (\<lambda>agent.
         and_then (p2p (read_u32_le r)) (\<lambda>(height, r).
         and_then (p2p (read_u8 r)) (\<lambda>(relay, r).
         Inr (\<lparr>vp_version = ver, vp_services = sv, vp_time = tm, vp_remote = remote,
           vp_nonce = nonce_v, vp_agent = agent, vp_height = height, vp_no_relay = (relay = 1)\<rparr>, r)))))))) = Inr (p, r')"
      using d ok by (auto simp: version_decode_def reads_closed read_service_closed and_then_Inr split: if_splits)
    then obtain remote r4 where na1: "net_address_decode r3 = Inr (remote, r4)" by (auto simp: and_then_Inr)
    have ok3: "reader_ok r3" using ok h by simp
    from ac.decode_wf [OF this na1] have wf: "wf_ip (na_address remote)" by blast
    with ac.decode_wf [OF ok3 na1] length_net_address_bytes [OF wf]
    have na: "net_address_decode r3 = Inr (remote, advance 88 r3)" "88 \<le> length (rest r3)" "wf_ip (na_address remote)"
      using na1 by simp_all
    define r4 q where "r4 = advance 88 r3" and "q = rest r4"
    have ok4: "reader_ok r4" using ok h na(2) by (simp add: r4_def)
    define al where "al = unat (q ! 8)"
    have al: "al < 256" by (simp add: al_def)
    have d4: "and_then (p2p (read_array 8 r4)) (\<lambda>(nonce_v, r).
         and_then (p2p (read_u8 r)) (\<lambda>(agent_len, r).
         if unat agent_len > MAX_AGENT_LEN then Inl AgentTooLong else
         and_then (p2p (read_bytes (unat agent_len) r)) (\<lambda>(agent_bytes, r).
         and_then (ok_or (PeerParse InvalidDnsLabel) (str_from_utf8 agent_bytes)) (\<lambda>agent.
         and_then (p2p (read_u32_le r)) (\<lambda>(height, r).
         and_then (p2p (read_u8 r)) (\<lambda>(relay, r).
         Inr (\<lparr>vp_version = ver, vp_services = sv, vp_time = tm, vp_remote = remote,
           vp_nonce = nonce_v, vp_agent = agent, vp_height = height, vp_no_relay = (relay = 1)\<rparr>, r))))))) = Inr (p, r')"
      using d3 by (simp only: na(1) and_then_simps prod.case r4_def)
    have "14 + al \<le> length q \<and> utf8_valid (take al (drop 9 q)) \<and> r' = advance (14 + al) r4 \<and>
        vp_remote p = remote \<and> vp_nonce p = take 8 q \<and> vp_agent p = take al (drop 9 q)"
      using d4 ok4 al
      by (auto simp: reads_closed read_array_closed and_then_Inr MAX_AGENT_LEN_def read_array_def [symmetric]
          str_from_utf8_def q_def al_def split: if_splits)
    moreover have "length q = length (rest r) - 108" using h by (simp add: q_def r4_def)
    ultimately show ?thesis
      using na h al length_net_address_bytes [OF na(3)]
      by (simp add: wf_version_def version_bytes_def r4_def min_def) auto
  qed
qed

subsection \<open>Payloads\<close>

lemma encode_lists:
  "addr_encode items out = (if length items > MAX_ADDR then Inl CountLimit
     else Inr (out @ varint_bytes (word_of_nat (length items)) @ concat (map net_address_bytes items)))"
  "locator_encode p out = (if length (lp_locator p) > MAX_INV then Inl CountLimit
     else Inr (out @ varint_bytes (word_of_nat (length (lp_locator p))) @ concat (lp_locator p) @ lp_stop p))"
  "headers_encode hs out = (if length hs > MAX_HEADERS then Inl CountLimit
     else Inr (out @ varint_bytes (word_of_nat (length hs)) @ concat (map header_serialize hs)))"
proof -
  have f: "fold (\<lambda>x out. out @ g x) xs out = out @ concat (map g xs)" for g :: "'a \<Rightarrow> bytes" and xs out
    by (induction xs arbitrary: out) auto
  have g: "fold net_address_encode xs out = out @ concat (map net_address_bytes xs)" for xs out
    by (induction xs arbitrary: out) (auto simp: net_address_encode_bytes)
  show "addr_encode items out = (if length items > MAX_ADDR then Inl CountLimit
     else Inr (out @ varint_bytes (word_of_nat (length items)) @ concat (map net_address_bytes items)))"
   "locator_encode p out = (if length (lp_locator p) > MAX_INV then Inl CountLimit
     else Inr (out @ varint_bytes (word_of_nat (length (lp_locator p))) @ concat (lp_locator p) @ lp_stop p))"
   "headers_encode hs out = (if length hs > MAX_HEADERS then Inl CountLimit
     else Inr (out @ varint_bytes (word_of_nat (length hs)) @ concat (map header_serialize hs)))"
    using f [of "\<lambda>x. x"]
    by (simp_all add: addr_encode_def locator_encode_def headers_encode_def g f write_varint_bytes)
qed

text \<open>The packets the types of the program admit and the encoder accepts.\<close>

definition known_types :: "u8 set" where
  "known_types = {0, 1, 2, 3, 4, 5, 10, 11, 12, 26, 27, EXPERIMENTAL_GET_DNS_RELAY, EXPERIMENTAL_DNS_RELAY}"

fun wf_packet :: "packet \<Rightarrow> bool" where
  "wf_packet (PktVersion p) \<longleftrightarrow> wf_version p"
| "wf_packet (PktPing n) \<longleftrightarrow> length n = 8"
| "wf_packet (PktPong n) \<longleftrightarrow> length n = 8"
| "wf_packet (PktAddr items) \<longleftrightarrow> length items \<le> 1000 \<and> list_all (\<lambda>a. wf_ip (na_address a)) items"
| "wf_packet (PktGetHeaders p) \<longleftrightarrow>
     length (lp_locator p) \<le> 50000 \<and> list_all (\<lambda>h. length h = 32) (lp_locator p) \<and> length (lp_stop p) = 32"
| "wf_packet (PktHeaders hs) \<longleftrightarrow> length hs \<le> 2000 \<and> list_all wf_header hs"
| "wf_packet (PktGetProof p) \<longleftrightarrow> length (pr_root p) = 32 \<and> length (pr_key p) = 32"
| "wf_packet (PktProof p) \<longleftrightarrow> length (pk_root p) = 32 \<and> length (pk_key p) = 32"
| "wf_packet (PktGetDnsRelay p) \<longleftrightarrow> get_relay_validate p = Inr ()"
| "wf_packet (PktDnsRelay p) \<longleftrightarrow> relay_validate p = Inr ()"
| "wf_packet (PktUnknown ty payload) \<longleftrightarrow> ty \<notin> known_types"
| "wf_packet _ \<longleftrightarrow> True"

fun payload_bytes :: "packet \<Rightarrow> bytes" where
  "payload_bytes (PktVersion p) = version_bytes p"
| "payload_bytes (PktPing n) = n"
| "payload_bytes (PktPong n) = n"
| "payload_bytes (PktAddr items) = varint_bytes (word_of_nat (length items)) @ concat (map net_address_bytes items)"
| "payload_bytes (PktGetHeaders p) =
     varint_bytes (word_of_nat (length (lp_locator p))) @ concat (lp_locator p) @ lp_stop p"
| "payload_bytes (PktHeaders hs) = varint_bytes (word_of_nat (length hs)) @ concat (map header_serialize hs)"
| "payload_bytes (PktGetProof p) = pr_root p @ pr_key p"
| "payload_bytes (PktProof p) = pk_root p @ pk_key p @ pk_proof p"
| "payload_bytes (PktGetDnsRelay p) =
     u64_to_le (gr_request_id p) @ u16_to_le (word_of_nat (length (gr_query p))) @ gr_query p"
| "payload_bytes (PktDnsRelay p) =
     u64_to_le (dr_request_id p) @ [relay_status_code (dr_status p)] @
     u16_to_le (word_of_nat (length (dr_response p))) @ dr_response p"
| "payload_bytes (PktUnknown ty payload) = payload"
| "payload_bytes _ = []"

lemma encode_payload_bytes: "wf_packet p \<Longrightarrow> encode_payload p = Inr (payload_bytes p)"
  by (cases p)
    (simp_all add: version_encode_bytes encode_lists MAX_ADDR_def MAX_INV_def MAX_HEADERS_def get_relay_encode_def
      relay_encode_def)

lemma finished_image:
  assumes "reader_ok r" "rest r = []"
  shows "finished (Inr (p, r)) = Inr p"
  using assms by (simp add: finished_def remaining_def rest_def)

lemma finished_Inr:
  assumes "finished m = Inr p"
  shows "\<exists>r. m = Inr (p, r) \<and> remaining r = 0"
  using assms by (auto simp: finished_def and_then_Inr split: if_splits)

lemma count_fits: "n \<le> 50000 \<Longrightarrow> unat (word_of_nat n :: u64) = n"
  by (simp add: unat_of_nat)

lemma relay_status_round: "relay_status_try_from (relay_status_code s) = Inr s"
  by (cases s) (simp_all add: relay_status_try_from_def)

lemma relay_status_back: "relay_status_try_from b = Inr s \<Longrightarrow> relay_status_code s = b"
  by (auto simp: relay_status_try_from_def split: if_splits)

context item_codec
begin

definition counted_decode :: "nat \<Rightarrow> reader \<Rightarrow> p2p_error + ('a list \<times> reader)" where
  "counted_decode limit r =
     and_then (read_varint r) (\<lambda>(count, r). if unat count > limit then Inl CountLimit else decode_times decode (unat count) r)"

lemma counted_image:
  assumes "list_all wf xs" "length xs \<le> limit" "limit \<le> 50000"
    and "reader_ok r" "rest r = varint_bytes (word_of_nat (length xs)) @ concat (map image xs) @ t"
  shows "counted_decode limit r =
    Inr (xs, advance (length (varint_bytes (word_of_nat (length xs)) @ concat (map image xs))) r)"
proof -
  define v where "v = (word_of_nat (length xs) :: u64)"
  have u: "unat v = length xs" using assms by (simp add: v_def count_fits)
  have "read_varint r = Inr (v, advance (length (varint_bytes v)) r)"
    using vc.decode_image [OF assms(4) TrueI] assms(5) by (simp add: v_def)
  moreover have "decode_times decode (length xs) (advance (length (varint_bytes v)) r) =
      Inr (xs, advance (length (concat (map image xs))) (advance (length (varint_bytes v)) r))"
    using assms by (intro decode_times_image) (simp_all add: v_def)
  ultimately show ?thesis using assms(2) u by (simp add: counted_decode_def v_def [symmetric])
qed

lemma counted_wf:
  assumes "limit \<le> 50000" "reader_ok r" "counted_decode limit r = Inr (xs, r')"
  shows "list_all wf xs \<and> length xs \<le> limit \<and>
    length (varint_bytes (word_of_nat (length xs)) @ concat (map image xs)) \<le> length (rest r) \<and>
    r' = advance (length (varint_bytes (word_of_nat (length xs)) @ concat (map image xs))) r"
proof -
  obtain v r1 where s: "read_varint r = Inr (v, r1)" "unat v \<le> limit" "decode_times decode (unat v) r1 = Inr (xs, r')"
    using assms(3) by (auto simp: counted_decode_def and_then_Inr split: if_splits)
  from vc.decode_wf [OF assms(2) s(1)] have r1: "length (varint_bytes v) \<le> length (rest r)" "r1 = advance (length (varint_bytes v)) r"
    by blast+
  then have "reader_ok r1" using assms(2) by simp
  from decode_times_wf [OF this s(3)] r1 s(2) show ?thesis by auto
qed

end

lemma list_decodes:
  "addr_decode r = ac.counted_decode MAX_ADDR r"
  "headers_decode r = bc.counted_decode MAX_HEADERS r"
  "locator_decode r = and_then (hc.counted_decode MAX_INV r) (\<lambda>(locator, r).
     and_then (hash_decode r) (\<lambda>(stop, r). Inr (\<lparr>lp_locator = locator, lp_stop = stop\<rparr>, r)))"
proof -
  show "addr_decode r = ac.counted_decode MAX_ADDR r" "headers_decode r = bc.counted_decode MAX_HEADERS r"
    by (simp_all add: addr_decode_def headers_decode_def ac.counted_decode_def bc.counted_decode_def)
  show "locator_decode r = and_then (hc.counted_decode MAX_INV r) (\<lambda>(locator, r).
     and_then (hash_decode r) (\<lambda>(stop, r). Inr (\<lparr>lp_locator = locator, lp_stop = stop\<rparr>, r)))"
    by (cases "read_varint r") (auto simp: locator_decode_def hc.counted_decode_def)
qed

lemmas relay_types = EXPERIMENTAL_GET_DNS_RELAY_def EXPERIMENTAL_DNS_RELAY_def

lemma remaining_rest: "remaining r = length (rest r)"
  by (simp add: remaining_def rest_def)

lemma decode_payload_image:
  assumes "wf_packet p" "length (payload_bytes p) < usize_limit div 2"
  shows "decode_payload (raw_packet_type p) (payload_bytes p) = Inr p"
proof -
  define bs where "bs = payload_bytes p"
  define r where "r = reader_new bs"
  have ok: "reader_ok r" and rest: "rest r = bs" using assms(2) by (simp_all add: r_def bs_def)
  have fin: "finished (Inr (q, advance n r)) = Inr q" if "n = length bs" for n q
    using that ok rest by (intro finished_image) simp_all
  show ?thesis
  proof (cases p)
    case (PktVersion v)
    with assms(1) have "version_decode r = Inr (v, advance (length bs) r)"
      using ec.decode_image [OF ok, of v "[]"] by (simp add: rest bs_def)
    with fin PktVersion show ?thesis by (simp add: decode_payload_def bs_def r_def Let_def)
  next
    case (PktAddr items)
    with assms(1) have "addr_decode r = Inr (items, advance (length bs) r)"
      using ac.counted_image [OF _ _ _ ok, of items MAX_ADDR "[]"] by (simp add: rest bs_def list_decodes MAX_ADDR_def)
    with fin PktAddr show ?thesis by (simp add: decode_payload_def bs_def r_def Let_def)
  next
    case (PktHeaders hs)
    with assms(1) have "headers_decode r = Inr (hs, advance (length bs) r)"
      using bc.counted_image [OF _ _ _ ok, of hs MAX_HEADERS "[]"] by (simp add: rest bs_def list_decodes MAX_HEADERS_def)
    with fin PktHeaders show ?thesis by (simp add: decode_payload_def bs_def r_def Let_def)
  next
    case (PktGetHeaders l)
    with assms(1) have "hc.counted_decode MAX_INV r = Inr (lp_locator l,
        advance (length (varint_bytes (word_of_nat (length (lp_locator l))) @ concat (lp_locator l))) r)"
      using hc.counted_image [OF _ _ _ ok, of "lp_locator l" MAX_INV "lp_stop l"] by (simp add: rest bs_def MAX_INV_def)
    moreover have "hash_decode (advance (length (varint_bytes (word_of_nat (length (lp_locator l))) @ concat (lp_locator l))) r) =
        Inr (lp_stop l, advance (length bs) r)"
      using assms(1) PktGetHeaders ok
      by (subst hc.decode_image [where x = "lp_stop l" and t = "[]"]) (simp_all add: rest bs_def add.assoc)
    ultimately have "locator_decode r = Inr (l, advance (length bs) r)" by (simp add: list_decodes)
    with fin PktGetHeaders show ?thesis by (simp add: decode_payload_def bs_def r_def Let_def)
  next
    case (PktGetDnsRelay g)
    have q: "unat (word_of_nat (length (gr_query g)) :: u16) = length (gr_query g)"
      using assms(1) PktGetDnsRelay by (simp add: get_relay_validate_def relay_limits unat_of_nat split: if_splits)
    show ?thesis
      using assms(1) PktGetDnsRelay q
      by (simp add: decode_payload_def relay_types get_relay_decode_def Let_def slice_def get_relay_validate_def
          relay_limits get_relay_new_def checked_add_usize_eq split: if_splits)
  next
    case (PktDnsRelay g)
    have q: "unat (word_of_nat (length (dr_response g)) :: u16) = length (dr_response g)"
      using assms(1) PktDnsRelay by (simp add: relay_validate_def relay_limits unat_of_nat split: if_splits)
    have v: "dr_request_id g \<noteq> 0" "length (dr_response g) \<le> 65535"
      using assms(1) PktDnsRelay by (auto simp: relay_validate_def relay_limits split: if_splits)
    have eta: "\<lparr>dr_request_id = dr_request_id g, dr_status = dr_status g, dr_response = dr_response g\<rparr> = g" by simp
    show ?thesis
      using assms(1) PktDnsRelay q v
      by (simp add: decode_payload_def relay_types relay_decode_def Let_def slice_def relay_status_round
          relay_limits relay_new_def nth_append checked_add_usize_eq eta)
  next
    case (PktUnknown ty payload)
    then show ?thesis using assms(1) by (simp add: decode_payload_def known_types_def)
  qed (use assms fin ok rest in \<open>simp_all add: decode_payload_def Let_def read_array_closed hash_decode_def bs_def r_def
      remaining_rest read_array_def [symmetric]\<close>)
qed

lemma decode_payload_wf:
  assumes "decode_payload ty payload = Inr p" "length payload < usize_limit div 2"
  shows "wf_packet p \<and> raw_packet_type p = ty \<and> length (payload_bytes p) = length payload"
proof -
  define r where "r = reader_new payload"
  have ok: "reader_ok r" and rest: "rest r = payload" using assms(2) by (simp_all add: r_def)
  have all: "n = length payload" if "finished m = Inr q" "m = Inr (q, advance n r)" "n \<le> length payload" for m q n
    using finished_Inr [OF that(1)] that(2,3) rest by (auto simp: remaining_def rest_def advance_def)
  note d = assms(1) [unfolded decode_payload_def, folded r_def]
  consider "ty = 0" | "ty = 5" | "ty = 10" | "ty = 11" | "ty = EXPERIMENTAL_GET_DNS_RELAY" | "ty = EXPERIMENTAL_DNS_RELAY"
    | "ty \<in> {1, 2, 3, 4, 12, 26, 27}" | "ty \<notin> known_types"
    by (auto simp: known_types_def)
  then show ?thesis
  proof cases
    case 1
    with d have f: "finished (and_then (version_decode r) (\<lambda>(v, r). Inr (PktVersion v, r))) = Inr p" by simp
    from finished_Inr [OF this] obtain v r' where v: "version_decode r = Inr (v, r')" "p = PktVersion v"
      by (auto simp: and_then_Inr)
    from ec.decode_wf [OF ok v(1)] have "wf_version v" "length (version_bytes v) \<le> length payload"
      "r' = advance (length (version_bytes v)) r" using rest by simp_all
    with all [OF f, of "length (version_bytes v)"] v 1 show ?thesis by simp
  next
    case 2
    with d have f: "finished (and_then (addr_decode r) (\<lambda>(v, r). Inr (PktAddr v, r))) = Inr p" by simp
    from finished_Inr [OF this] obtain v r' where v: "addr_decode r = Inr (v, r')" "p = PktAddr v"
      by (auto simp: and_then_Inr)
    from ac.counted_wf [OF _ ok v(1) [unfolded list_decodes]] rest
    have "list_all (\<lambda>a. wf_ip (na_address a)) v" "length v \<le> 1000" "length (payload_bytes p) \<le> length payload"
      "r' = advance (length (payload_bytes p)) r" by (simp_all add: MAX_ADDR_def v(2))
    with all [OF f, of "length (payload_bytes p)"] v 2 show ?thesis by simp
  next
    case 3
    with d have f: "finished (and_then (locator_decode r) (\<lambda>(v, r). Inr (PktGetHeaders v, r))) = Inr p" by simp
    from finished_Inr [OF this] obtain v r' where v: "locator_decode r = Inr (v, r')" "p = PktGetHeaders v"
      by (auto simp: and_then_Inr)
    then obtain hs r1 st where c: "hc.counted_decode MAX_INV r = Inr (hs, r1)" "hash_decode r1 = Inr (st, r')"
      "v = \<lparr>lp_locator = hs, lp_stop = st\<rparr>" by (auto simp: list_decodes and_then_Inr)
    define n where "n = length (varint_bytes (word_of_nat (length hs)) @ concat hs)"
    from hc.counted_wf [OF _ ok c(1)] rest have w: "list_all (\<lambda>h. length h = 32) hs" "length hs \<le> 50000"
      "n \<le> length payload" "r1 = advance n r" by (simp_all add: MAX_INV_def n_def)
    then have "reader_ok r1" using ok rest by simp
    from hc.decode_wf [OF this c(2)] w rest have "length st = 32" "n + 32 \<le> length payload" "r' = advance (n + 32) r" by auto
    with all [OF f, of "n + 32"] v 3 w c show ?thesis by (simp add: n_def)
  next
    case 4
    with d have f: "finished (and_then (headers_decode r) (\<lambda>(v, r). Inr (PktHeaders v, r))) = Inr p" by simp
    from finished_Inr [OF this] obtain v r' where v: "headers_decode r = Inr (v, r')" "p = PktHeaders v"
      by (auto simp: and_then_Inr)
    from bc.counted_wf [OF _ ok v(1) [unfolded list_decodes]] rest
    have "list_all wf_header v" "length v \<le> 2000" "length (payload_bytes p) \<le> length payload"
      "r' = advance (length (payload_bytes p)) r" by (simp_all add: MAX_HEADERS_def v(2))
    with all [OF f, of "length (payload_bytes p)"] v 4 show ?thesis by simp
  next
    case 5
    with d obtain g where g: "get_relay_decode payload = Inr g" "p = PktGetDnsRelay g"
      by (auto simp: relay_types and_then_Inr)
    then show ?thesis
      using 5 by (auto simp: get_relay_decode_def Let_def and_then_Inr get_relay_new_def split: if_splits)
  next
    case 6
    with d obtain g where g: "relay_decode payload = Inr g" "p = PktDnsRelay g"
      by (auto simp: relay_types and_then_Inr)
    then show ?thesis
      using 6 by (auto simp: relay_decode_def Let_def and_then_Inr relay_new_def split: if_splits)
  next
    case 7
    moreover have "length (rest r) < usize_limit div 2" using assms(2) rest by simp
    ultimately show ?thesis
      using d ok rest
      by (auto simp: read_array_closed hash_decode_def finished_def remaining_rest and_then_Inr
          read_array_def [symmetric] split: if_splits)
  next
    case 8
    with d show ?thesis by (auto simp: known_types_def)
  qed
qed

end
