(* ===== verification/P2p_Frames.thy ===== *)
theory P2p_Frames
  imports P2p_Wire
begin

text \<open>Frames on a byte stream (\<open>hns-p2p/src/lib.rs\<close>, \<open>encode_frame\<close>, \<open>decode_frame\<close>,
  \<open>FrameDecoder\<close>): what a frame is byte for byte, that a whole frame decodes to its packet and a partial one asks
  for more input, and that an incremental decoder fed in chunks yields the packets of the stream.\<close>

subsection \<open>Frames\<close>

definition frame_bytes :: "network \<Rightarrow> packet \<Rightarrow> bytes" where
  "frame_bytes N p = u32_to_le (net_magic N) @ [raw_packet_type p] @ u32_to_le (word_of_nat (length (payload_bytes p))) @
     payload_bytes p"

definition sendable :: "packet \<Rightarrow> bool" where
  "sendable p \<longleftrightarrow> wf_packet p \<and> length (payload_bytes p) \<le> MAX_MESSAGE"

lemma length_frame_bytes: "length (frame_bytes N p) = 9 + length (payload_bytes p)"
  by (simp add: frame_bytes_def)

lemma encode_frame_bytes: "sendable p \<Longrightarrow> encode_frame N p = Inr (frame_bytes N p)"
  by (simp add: encode_frame_def encode_payload_bytes sendable_def frame_header_encode_def frame_bytes_def)

lemma relay_payload_bound:
  assumes "wf_packet p"
  shows "raw_packet_type p = EXPERIMENTAL_GET_DNS_RELAY \<Longrightarrow> length (payload_bytes p) \<le> MAX_DNS_RELAY_REQUEST_PAYLOAD_SIZE"
    "raw_packet_type p = EXPERIMENTAL_DNS_RELAY \<Longrightarrow> length (payload_bytes p) \<le> MAX_DNS_RELAY_RESPONSE_PAYLOAD_SIZE"
proof -
  have g: "length (gr_query q) \<le> 4096" if "get_relay_validate q = Inr ()" for q
    using that by (auto simp: get_relay_validate_def relay_limits split: if_splits)
  have r: "length (dr_response q) \<le> 65535" if "relay_validate q = Inr ()" for q
    using that by (auto simp: relay_validate_def relay_limits split: if_splits)
  have "\<exists>q. p = PktGetDnsRelay q" if "raw_packet_type p = EXPERIMENTAL_GET_DNS_RELAY"
    using assms that by (cases p) (simp_all add: relay_types known_types_def)
  then show "raw_packet_type p = EXPERIMENTAL_GET_DNS_RELAY \<Longrightarrow>
      length (payload_bytes p) \<le> MAX_DNS_RELAY_REQUEST_PAYLOAD_SIZE"
    using assms g by (fastforce simp: relay_limits)
  have "\<exists>q. p = PktDnsRelay q" if "raw_packet_type p = EXPERIMENTAL_DNS_RELAY"
    using assms that by (cases p) (simp_all add: relay_types known_types_def)
  then show "raw_packet_type p = EXPERIMENTAL_DNS_RELAY \<Longrightarrow>
      length (payload_bytes p) \<le> MAX_DNS_RELAY_RESPONSE_PAYLOAD_SIZE"
    using assms r by (fastforce simp: relay_limits)
qed

lemma payload_len_fits: "n \<le> MAX_MESSAGE \<Longrightarrow> unat (word_of_nat n :: u32) = n"
proof -
  assume "n \<le> MAX_MESSAGE"
  then have "n < 2 ^ LENGTH(32)" by (simp add: MAX_MESSAGE_def)
  then show ?thesis by (simp only: unat_of_nat mod_less)
qed

text \<open>The decision of the decoder on the first nine bytes, before any payload is there.\<close>

definition frame_size :: "network \<Rightarrow> bytes \<Rightarrow> p2p_error + nat" where
  "frame_size N header =
     (let ty = header ! 4; n = unat (u32_of_le (slice header 5 9)) in
      if u32_of_le (slice header 0 4) \<noteq> net_magic N then Inl InvalidMagic
      else if n > MAX_MESSAGE then Inl MessageTooLarge
      else if ty = EXPERIMENTAL_GET_DNS_RELAY \<and> n > MAX_DNS_RELAY_REQUEST_PAYLOAD_SIZE then Inl DnsRelayQueryTooLarge
      else if ty = EXPERIMENTAL_DNS_RELAY \<and> n > MAX_DNS_RELAY_RESPONSE_PAYLOAD_SIZE then Inl DnsRelayResponseTooLarge
      else Inr (9 + n))"

lemma decode_frame_closed:
  "decode_frame N data =
     (if length data < 9 then Inr None else
      and_then (frame_size N (take 9 data)) (\<lambda>len.
      if length data < len then Inr None else
      and_then (decode_payload (data ! 4) (slice data 9 len)) (\<lambda>p. Inr (Some (p, len)))))"
proof (cases "length data < 9")
  case False
  have s: "slice (take 9 data) 0 4 = slice data 0 4" "slice (take 9 data) 5 9 = slice data 5 9" "take 9 data ! 4 = data ! 4"
    using False by (simp_all add: slice_def drop_take)
  define n m ty where "n = unat (u32_of_le (slice data 5 9))" and "m = u32_of_le (slice data 0 4)" and "ty = data ! 4"
  have c: "and_then (ok_or MessageTooLarge (checked_add_usize 9 n)) F = F (9 + n)"
    if "n \<le> MAX_MESSAGE" for F :: "nat \<Rightarrow> p2p_error + (packet \<times> nat) option"
  proof -
    have "9 + n < usize_limit" using that by (simp add: MAX_MESSAGE_def)
    then show ?thesis by (simp add: checked_add_usize_eq ok_or_def)
  qed
  have "frame_size N (take 9 data) =
     (if m \<noteq> net_magic N then Inl InvalidMagic
      else if n > MAX_MESSAGE then Inl MessageTooLarge
      else if ty = EXPERIMENTAL_GET_DNS_RELAY \<and> n > MAX_DNS_RELAY_REQUEST_PAYLOAD_SIZE then Inl DnsRelayQueryTooLarge
      else if ty = EXPERIMENTAL_DNS_RELAY \<and> n > MAX_DNS_RELAY_RESPONSE_PAYLOAD_SIZE then Inl DnsRelayResponseTooLarge
      else Inr (9 + n))"
    unfolding frame_size_def s Let_def n_def m_def ty_def by (rule refl)
  moreover have "decode_frame N data =
     (if m \<noteq> net_magic N then Inl InvalidMagic
      else if n > MAX_MESSAGE then Inl MessageTooLarge
      else if ty = EXPERIMENTAL_GET_DNS_RELAY \<and> n > MAX_DNS_RELAY_REQUEST_PAYLOAD_SIZE then Inl DnsRelayQueryTooLarge
      else if ty = EXPERIMENTAL_DNS_RELAY \<and> n > MAX_DNS_RELAY_RESPONSE_PAYLOAD_SIZE then Inl DnsRelayResponseTooLarge
      else and_then (ok_or MessageTooLarge (checked_add_usize 9 n)) (\<lambda>len.
        if length data < len then Inr None else
        and_then (decode_payload ty (slice data 9 len)) (\<lambda>p. Inr (Some (p, len)))))"
    using False
    by (simp only: decode_frame_def frame_header_parse_def FRAME_HEADER_SIZE_def if_False and_then_simps
        frame_header.select_convs Let_def n_def m_def ty_def)
  ultimately show ?thesis using False by (auto simp: c ty_def [symmetric])
qed (simp add: decode_frame_def FRAME_HEADER_SIZE_def)

lemma frame_size_bound: "frame_size N h = Inr len \<Longrightarrow> 9 \<le> len \<and> len \<le> 9 + MAX_MESSAGE"
  by (auto simp: frame_size_def Let_def split: if_splits)

text \<open>More input never changes a frame that was decoded, nor an error.\<close>

lemma decode_frame_more:
  assumes "decode_frame N data = r" "r \<noteq> Inr None"
  shows "decode_frame N (data @ extra) = r"
proof -
  have len: "9 \<le> length data" using assms by (auto simp: decode_frame_closed split: if_splits)
  show ?thesis
  proof (cases "frame_size N (take 9 data)")
    case (Inl e)
    then show ?thesis using assms len by (simp add: decode_frame_closed)
  next
    case (Inr n)
    then have "n \<le> length data" using assms len by (auto simp: decode_frame_closed split: if_splits)
    moreover have "slice (data @ extra) 9 n = slice data 9 n" using calculation by (simp add: slice_def)
    ultimately show ?thesis using assms len Inr by (simp add: decode_frame_closed nth_append)
  qed
qed

lemma frame_size_frame:
  assumes "sendable p" "frame_bytes N p = pre @ post" "9 \<le> length pre"
  shows "frame_size N (take 9 pre) = Inr (9 + length (payload_bytes p))" "pre ! 4 = raw_packet_type p"
proof -
  have t: "take 9 pre = u32_to_le (net_magic N) @ [raw_packet_type p] @ u32_to_le (word_of_nat (length (payload_bytes p)))"
  proof -
    have "take 9 pre = take 9 (frame_bytes N p)" using assms(2,3) by simp
    then show ?thesis by (simp add: frame_bytes_def)
  qed
  have "length (payload_bytes p) \<le> MAX_MESSAGE" "wf_packet p" using assms(1) by (simp_all add: sendable_def)
  then show "frame_size N (take 9 pre) = Inr (9 + length (payload_bytes p))"
    unfolding t using relay_payload_bound [of p]
    by (auto simp: frame_size_def Let_def slice_def payload_len_fits nth_append)
  have "pre ! 4 = take 9 pre ! 4" by simp
  then show "pre ! 4 = raw_packet_type p" unfolding t by (simp add: nth_append)
qed

lemma decode_whole_frame:
  assumes "sendable p"
  shows "decode_frame N (frame_bytes N p @ extra) = Inr (Some (p, length (frame_bytes N p)))"
proof -
  have "length (payload_bytes p) < usize_limit div 2" using assms by (simp add: sendable_def MAX_MESSAGE_def)
  then have "decode_payload (raw_packet_type p) (payload_bytes p) = Inr p"
    using assms decode_payload_image by (simp add: sendable_def)
  moreover have "slice (frame_bytes N p) 9 (9 + length (payload_bytes p)) = payload_bytes p"
    by (simp add: frame_bytes_def slice_def)
  moreover note frame_size_frame [OF assms, of N "frame_bytes N p" "[]"]
  ultimately have "decode_frame N (frame_bytes N p) = Inr (Some (p, length (frame_bytes N p)))"
    by (simp add: decode_frame_closed length_frame_bytes)
  then show ?thesis by (intro decode_frame_more) simp_all
qed

lemma decode_partial_frame:
  assumes "sendable p" "frame_bytes N p = pre @ post" "post \<noteq> []"
  shows "decode_frame N pre = Inr None"
proof (cases "length pre < 9")
  case False
  have "length pre < 9 + length (payload_bytes p)"
    using assms(2,3) by (metis length_frame_bytes length_append length_greater_0_conv less_add_same_cancel1)
  with False frame_size_frame [OF assms(1,2)] show ?thesis by (simp add: decode_frame_closed)
qed (simp add: decode_frame_closed)

lemma decode_frame_sendable:
  assumes "decode_frame N data = Inr (Some (p, n))"
  shows "sendable p \<and> n = length (frame_bytes N p) \<and> n \<le> length data"
proof -
  from assms have len: "9 \<le> length data" and s: "frame_size N (take 9 data) = Inr n" "n \<le> length data"
    and d: "decode_payload (data ! 4) (slice data 9 n) = Inr p"
    by (auto simp: decode_frame_closed and_then_Inr split: if_splits)
  have n: "9 \<le> n" "n \<le> 9 + MAX_MESSAGE" using frame_size_bound [OF s(1)] by simp_all
  then have l: "length (slice data 9 n) = n - 9" "n - 9 \<le> MAX_MESSAGE" using s(2) by (simp_all add: min_def)
  then have "length (slice data 9 n) < usize_limit div 2" by (simp add: MAX_MESSAGE_def)
  from decode_payload_wf [OF d this] l n s(2) show ?thesis by (simp add: sendable_def length_frame_bytes)
qed

subsection \<open>Streams\<close>

definition stream_bytes :: "network \<Rightarrow> packet list \<Rightarrow> bytes" where
  "stream_bytes N ps = concat (map (frame_bytes N) ps)"

lemma stream_bytes_simps [simp]:
  "stream_bytes N [] = []" "stream_bytes N (p # ps) = frame_bytes N p @ stream_bytes N ps"
  by (simp_all add: stream_bytes_def)

lemma decode_frame_empty [simp]: "decode_frame N [] = Inr None"
  by (simp add: decode_frame_closed)

text \<open>Chunks fed one after another; the first error ends the session.\<close>

fun feed_all :: "bytes list \<Rightarrow> frame_decoder \<Rightarrow> (p2p_error + packet list) \<times> frame_decoder" where
  "feed_all [] d = (Inr [], d)"
| "feed_all (c # cs) d =
     (case feed c d of
        (Inl e, d) \<Rightarrow> (Inl e, d)
      | (Inr ps, d) \<Rightarrow> (case feed_all cs d of (Inl e, d) \<Rightarrow> (Inl e, d) | (Inr qs, d) \<Rightarrow> (Inr (ps @ qs), d)))"

lemma feed_loop_stream:
  assumes "list_all sendable ps" "decode_frame N post = Inr None"
    "consumed \<le> length buffer" "drop consumed buffer = stream_bytes N ps @ post"
  shows "feed_loop N buffer consumed acc = Inr (acc @ ps, length buffer - length post)"
  using assms
proof (induction ps arbitrary: consumed acc)
  case Nil
  then have "length buffer - length post = consumed" by (metis append_Nil diff_diff_cancel length_drop stream_bytes_simps(1))
  with Nil show ?case by (simp add: feed_loop.simps)
next
  case (Cons p ps)
  let ?n = "length (frame_bytes N p)"
  have d: "decode_frame N (drop consumed buffer) = Inr (Some (p, ?n))"
    using Cons.prems decode_whole_frame by simp
  have l: "length buffer - consumed = ?n + length (stream_bytes N ps) + length post"
    using arg_cong [OF Cons.prems(4), of length] by simp
  have t: "drop (consumed + ?n) buffer = stream_bytes N ps @ post"
    using arg_cong [OF Cons.prems(4), of "drop ?n"] by (simp add: add.commute)
  show ?case
  proof (cases "consumed + ?n = length buffer")
    case True
    then have "length (stream_bytes N ps) + length post = 0" using l by linarith
    then have "stream_bytes N ps = []" "post = []" by simp_all
    moreover from this(1) have "ps = []" by (cases ps) (simp_all add: frame_bytes_def)
    ultimately show ?thesis using True d by (simp add: feed_loop.simps)
  next
    case False
    have "consumed + ?n \<le> length buffer" using l Cons.prems(3) by linarith
    from Cons.IH [OF _ _ this t] Cons.prems False d show ?thesis by (simp add: feed_loop.simps [of N buffer consumed])
  qed
qed

lemma stream_prefix:
  assumes "list_all sendable ps" "stream_bytes N ps = a @ b"
  obtains k post where "a = stream_bytes N (take k ps) @ post" "decode_frame N post = Inr None"
    "stream_bytes N (drop k ps) = post @ b"
proof -
  have "\<exists>k post. a = stream_bytes N (take k ps) @ post \<and> decode_frame N post = Inr None \<and>
      stream_bytes N (drop k ps) = post @ b"
    using assms
  proof (induction ps arbitrary: a)
    case (Cons p ps)
    show ?case
    proof (cases "length (frame_bytes N p) \<le> length a")
      case True
      with Cons.prems(2) obtain a' where a': "a = frame_bytes N p @ a'" "stream_bytes N ps = a' @ b"
        by (auto simp: append_eq_append_conv_if intro: that [of "drop (length (frame_bytes N p)) a"]) (metis append_take_drop_id)+
      with Cons.IH Cons.prems(1) obtain k post where "a' = stream_bytes N (take k ps) @ post"
        "decode_frame N post = Inr None" "stream_bytes N (drop k ps) = post @ b" by auto
      with a' show ?thesis by (intro exI [of _ "Suc k"] exI [of _ post]) simp
    next
      case False
      with Cons.prems(2) obtain post where "frame_bytes N p = a @ post" "post \<noteq> []"
        by (auto simp: append_eq_append_conv_if split: if_splits) (metis append_take_drop_id drop_eq_Nil linorder_not_le)
      moreover from this have "decode_frame N a = Inr None" using Cons.prems(1) decode_partial_frame by fastforce
      ultimately show ?thesis using Cons.prems(2) by (intro exI [of _ 0] exI [of _ a]) simp
    qed
  qed simp
  with that show thesis by blast
qed

lemma partial_frame_length:
  assumes "list_all sendable ps" "stream_bytes N ps = a @ b" "decode_frame N a = Inr None"
    and "\<forall>p\<in>set ps. length (payload_bytes p) \<le> m"
  shows "length a \<le> 8 + m"
proof (cases ps)
  case (Cons p qs)
  have "length a < length (frame_bytes N p)"
  proof (rule ccontr)
    assume "\<not> length a < length (frame_bytes N p)"
    then have "take (length (frame_bytes N p)) a = frame_bytes N p"
      using assms(2) Cons by (metis append_eq_conv_conj linorder_not_less stream_bytes_simps(2) take_all_iff take_append
          diff_is_0_eq take_0 append_Nil2)
    then obtain e where "a = frame_bytes N p @ e" by (metis append_take_drop_id)
    with decode_whole_frame [of p N e] assms(1,3) Cons show False by simp
  qed
  with assms(4) Cons show ?thesis by (simp add: length_frame_bytes)
qed (use assms in simp)

text \<open>One read of a stream: the decoder returns the packets completed by it and keeps a partial frame.\<close>

lemma feed_step:
  assumes "list_all sendable ps" "stream_bytes N ps = fd_buffer d @ c @ later" "fd_network d = N"
    "decode_frame N (fd_buffer d) = Inr None" "length c \<le> n"
    "\<forall>p\<in>set ps. length (payload_bytes p) + n \<le> MAX_MESSAGE + 1" "n \<le> MAX_MESSAGE"
  obtains k post where "feed c d = (Inr (take k ps), d\<lparr>fd_buffer := post\<rparr>)" "decode_frame N post = Inr None"
    "stream_bytes N (drop k ps) = post @ later"
proof -
  have "length (fd_buffer d) \<le> 8 + (MAX_MESSAGE + 1 - n)"
    using partial_frame_length [OF assms(1,2,4), of "MAX_MESSAGE + 1 - n"] assms(6) by fastforce
  then have fits: "length (fd_buffer d) + length c \<le> MAX_MESSAGE + 9" using assms(5,7) by auto
  have lim: "MAX_MESSAGE + 9 < usize_limit" by (simp add: MAX_MESSAGE_def)
  from assms(2) have "stream_bytes N ps = (fd_buffer d @ c) @ later" by simp
  from stream_prefix [OF assms(1) this] obtain k post where
    k: "fd_buffer d @ c = stream_bytes N (take k ps) @ post" "decode_frame N post = Inr None"
      "stream_bytes N (drop k ps) = post @ later" .
  have sub: "list_all sendable (take k ps)" using assms(1) by (auto simp: list_all_iff dest: in_set_takeD)
  have "feed_loop N (fd_buffer d @ c) 0 [] = Inr ([] @ take k ps, length (fd_buffer d @ c) - length post)"
    by (rule feed_loop_stream [OF sub k(2)]) (simp_all add: k(1))
  moreover have "drop (length (fd_buffer d @ c) - length post) (fd_buffer d @ c) = post" unfolding k(1) by simp
  ultimately have "feed c d = (Inr (take k ps), d\<lparr>fd_buffer := post\<rparr>)"
    using fits lim assms(3) by (simp add: feed_def FRAME_HEADER_SIZE_def Let_def min_def)
  with k that show thesis by blast
qed

lemma feed_all_stream:
  assumes "list_all sendable ps" "stream_bytes N ps = fd_buffer d @ concat chunks" "fd_network d = N"
    "decode_frame N (fd_buffer d) = Inr None"
    "\<forall>c\<in>set chunks. length c \<le> n" "\<forall>p\<in>set ps. length (payload_bytes p) + n \<le> MAX_MESSAGE + 1" "n \<le> MAX_MESSAGE"
  shows "feed_all chunks d = (Inr ps, d\<lparr>fd_buffer := []\<rparr>)"
  using assms
proof (induction chunks arbitrary: ps d)
  case Nil
  then have "ps = []"
  proof (cases ps)
    case (Cons p qs)
    with Nil decode_whole_frame [of p N "stream_bytes N qs"] show ?thesis by auto
  qed
  with Nil show ?case by (simp add: stream_bytes_def)
next
  case (Cons c cs)
  have s: "stream_bytes N ps = fd_buffer d @ c @ concat cs" and n: "length c \<le> n" using Cons.prems(2,5) by simp_all
  from feed_step [OF Cons.prems(1) s Cons.prems(3,4) n Cons.prems(6,7)] obtain k post where
    k: "feed c d = (Inr (take k ps), d\<lparr>fd_buffer := post\<rparr>)" "decode_frame N post = Inr None"
      "stream_bytes N (drop k ps) = post @ concat cs" .
  have sub: "list_all sendable (drop k ps)" using Cons.prems(1) by (auto simp: list_all_iff dest: in_set_dropD)
  have "feed_all cs (d\<lparr>fd_buffer := post\<rparr>) = (Inr (drop k ps), d\<lparr>fd_buffer := []\<rparr>)"
    using Cons.IH [OF sub, of "d\<lparr>fd_buffer := post\<rparr>"] k Cons.prems
    by (auto dest: in_set_dropD)
  with k show ?case by simp
qed

section \<open>Properties\<close>


text \<open>Every frame the decoder accepts re-encodes to a frame of the same length, and that frame decodes to the same
  packet whatever follows it on the wire.\<close>

theorem accepted_frame_reencodes:
  assumes "decode_frame N data = Inr (Some (p, n))"
  shows "\<exists>bs. encode_frame N p = Inr bs \<and> length bs = n \<and> n \<le> length data \<and>
    (\<forall>extra. decode_frame N (bs @ extra) = Inr (Some (p, n)))"
  using decode_frame_sendable [OF assms] decode_whole_frame [of p N]
  by (intro exI [of _ "frame_bytes N p"]) (simp add: encode_frame_bytes)

definition sample_packets :: "packet list" where
  "sample_packets = [PktVerack, PktPing [1, 2, 3, 4, 5, 6, 7, 8]]"


theorem accepted_frame_reencodes_witness:
  "\<exists>bs. encode_frame mainnet PktVerack = Inr bs \<and> length bs = 9 \<and>
     9 \<le> length (frame_bytes mainnet PktVerack) \<and> (\<forall>extra. decode_frame mainnet (bs @ extra) = Inr (Some (PktVerack, 9)))"
proof (rule accepted_frame_reencodes)
  show "decode_frame mainnet (frame_bytes mainnet PktVerack) = Inr (Some (PktVerack, 9))"
    using decode_whole_frame [of PktVerack mainnet "[]"] by (simp add: sendable_def length_frame_bytes)
qed

end
