(* ===== verification/P2p_Session.thy ===== *)
theory P2p_Session
  imports P2p_Frames
begin

text \<open>
  The header-sync session of \<open>hns-p2p/src/lib.rs\<close> (\<open>HeaderSyncSession\<close>) and the connection that drives it
  (\<open>PeerConnection\<close>). A transport is a script: the outcomes of the reads and writes to come, and what was written
  so far; after the scripted reads the peer has closed. Every finite run of a real transport is one such script.
\<close>

section \<open>Definitions\<close>

definition PACKET_READ_SIZE :: nat where "PACKET_READ_SIZE = 8192"

datatype header_sync_state =
  AwaitingVersion | AwaitingVerack | SyncReady | HeadersRequested | ProofRequested | SyncClosed

datatype header_sync_action =
    ActSend packet
  | ActReady
  | ActHeaders "block_header list"
  | ActProof proof_packet
  | ActDisconnect rust_str

record header_sync_session =
  hs_state :: header_sync_state
  hs_local_version :: version_packet
  hs_remote_version :: "version_packet option"
  hs_ack_received :: bool

definition session_new :: "version_packet \<Rightarrow> header_sync_session" where
  "session_new local_version =
     \<lparr>hs_state = AwaitingVersion, hs_local_version = local_version, hs_remote_version = None, hs_ack_received = False\<rparr>"

definition session_start :: "header_sync_session \<Rightarrow> header_sync_action" where
  "session_start s = ActSend (PktVersion (hs_local_version s))"

definition on_version :: "version_packet \<Rightarrow> header_sync_session \<Rightarrow> header_sync_action list \<times> header_sync_session" where
  "on_version v s =
     (if vp_version v < 1 \<or> vp_services v AND SERVICE_NETWORK = 0
      then ([ActDisconnect (ascii ''peer lacks required network service'')], s\<lparr>hs_state := SyncClosed\<rparr>) else
      let s = s\<lparr>hs_remote_version := Some v\<rparr> in
      if hs_ack_received s then ([ActSend PktVerack, ActReady], s\<lparr>hs_state := SyncReady\<rparr>)
      else ([ActSend PktVerack], s\<lparr>hs_state := AwaitingVerack\<rparr>))"

text \<open>The arms of \<open>on_packet\<close> that do not name a state, in the order of the source.\<close>

definition on_other_packet :: "header_sync_state \<Rightarrow> packet \<Rightarrow> header_sync_action list" where
  "on_other_packet st packet =
     (if st = SyncClosed then [ActDisconnect (ascii ''session is closed'')] else
      case packet of
        PktGetAddr \<Rightarrow> []
      | PktAddr _ \<Rightarrow> []
      | PktSendHeaders \<Rightarrow> []
      | PktUnknown _ _ \<Rightarrow> []
      | PktPing n \<Rightarrow> [ActSend (PktPong n)]
      | PktPong _ \<Rightarrow> []
      | _ \<Rightarrow> [ActDisconnect (ascii ''unexpected packet for sync state'')])"

definition on_packet :: "packet \<Rightarrow> header_sync_session \<Rightarrow> header_sync_action list \<times> header_sync_session" where
  "on_packet packet s =
     (case (hs_state s, packet) of
        (AwaitingVersion, PktVersion v) \<Rightarrow> on_version v s
      | (AwaitingVersion, PktVerack) \<Rightarrow> ([], s\<lparr>hs_ack_received := True\<rparr>)
      | (AwaitingVerack, PktVerack) \<Rightarrow> ([ActReady], s\<lparr>hs_ack_received := True, hs_state := SyncReady\<rparr>)
      | (HeadersRequested, PktHeaders items) \<Rightarrow> ([ActHeaders items], s\<lparr>hs_state := SyncReady\<rparr>)
      | (ProofRequested, PktProof pk) \<Rightarrow> ([ActProof pk], s\<lparr>hs_state := SyncReady\<rparr>)
      | (st, p) \<Rightarrow> (on_other_packet st p, s))"

definition session_request_headers ::
  "hash list \<Rightarrow> hash \<Rightarrow> header_sync_session \<Rightarrow> (p2p_error + header_sync_action) \<times> header_sync_session"
where
  "session_request_headers locator stop s =
     (if hs_state s \<noteq> SyncReady then (Inr (ActDisconnect (ascii ''headers requested before peer ready'')), s)
      else if length locator > MAX_INV then (Inl CountLimit, s)
      else (Inr (ActSend (PktGetHeaders \<lparr>lp_locator = locator, lp_stop = stop\<rparr>)), s\<lparr>hs_state := HeadersRequested\<rparr>))"

definition session_request_proof :: "hash \<Rightarrow> hash \<Rightarrow> header_sync_session \<Rightarrow> header_sync_action \<times> header_sync_session"
where
  "session_request_proof root key s =
     (if hs_state s \<noteq> SyncReady then (ActDisconnect (ascii ''proof requested before peer ready''), s)
      else (ActSend (PktGetProof \<lparr>pr_root = root, pr_key = key\<rparr>), s\<lparr>hs_state := ProofRequested\<rparr>))"

text \<open>\<open>IpAddr::is_unspecified\<close>.\<close>

fun ip_is_unspecified :: "ip_addr \<Rightarrow> bool" where
  "ip_is_unspecified (V4 a) = (a = (0, 0, 0, 0))"
| "ip_is_unspecified (V6 segments) = (segments = replicate 8 0)"

definition service_sockets :: "u64 \<Rightarrow> net_address list \<Rightarrow> (ip_addr \<times> u16) list" where
  "service_sockets required items =
     fold (\<lambda>item sockets.
       if na_services item AND required \<noteq> required \<or> na_port item = 0 \<or> ip_is_unspecified (na_address item) then sockets
       else let socket = (na_address item, na_port item) in
         if socket \<in> set sockets then sockets else sockets @ [socket]) items []"

subsection \<open>The connection\<close>

record transport =
  tr_reads :: "(io_kind + bytes) list"
  tr_writes :: "(io_kind + unit) list"
  tr_sent :: bytes

text \<open>\<open>Read::read\<close> into a buffer of \<open>n\<close> bytes: at most that many bytes of the next scripted chunk.\<close>

definition transport_read :: "nat \<Rightarrow> transport \<Rightarrow> (io_kind + bytes) \<times> transport" where
  "transport_read n t =
     (case tr_reads t of
        [] \<Rightarrow> (Inr [], t)
      | Inl e # later \<Rightarrow> (Inl e, t\<lparr>tr_reads := later\<rparr>)
      | Inr chunk # later \<Rightarrow>
          (Inr (take n chunk), t\<lparr>tr_reads := (if length chunk \<le> n then later else Inr (drop n chunk) # later)\<rparr>))"

text \<open>\<open>write_all\<close> and \<open>flush\<close>: the next scripted outcome, success when the script says nothing.\<close>

definition transport_write :: "bytes \<Rightarrow> transport \<Rightarrow> (io_kind + unit) \<times> transport" where
  "transport_write data t =
     (case tr_writes t of
        Inl e # later \<Rightarrow> (Inl e, t\<lparr>tr_writes := later\<rparr>)
      | _ \<Rightarrow> (Inr (), t\<lparr>tr_writes := tl (tr_writes t), tr_sent := tr_sent t @ data\<rparr>))"

record peer_connection =
  pc_transport :: transport
  pc_network :: network
  pc_decoder :: frame_decoder
  pc_pending :: "packet list"

definition connection_new :: "transport \<Rightarrow> network \<Rightarrow> peer_connection" where
  "connection_new t network =
     \<lparr>pc_transport = t, pc_network = network, pc_decoder = frame_decoder_new network, pc_pending = []\<rparr>"

definition send_packet :: "packet \<Rightarrow> peer_connection \<Rightarrow> (p2p_error + unit) \<times> peer_connection" where
  "send_packet packet c =
     (case encode_frame (pc_network c) packet of
        Inl e \<Rightarrow> (Inl e, c)
      | Inr frame \<Rightarrow>
          (case transport_write frame (pc_transport c) of
             (Inl e, t) \<Rightarrow> (Inl (PeerIo e), c\<lparr>pc_transport := t\<rparr>)
           | (Inr _, t) \<Rightarrow>
               (case transport_write [] t of
                  (Inl e, t) \<Rightarrow> (Inl (PeerIo e), c\<lparr>pc_transport := t\<rparr>)
                | (Inr _, t) \<Rightarrow> (Inr (), c\<lparr>pc_transport := t\<rparr>))))"

definition read_left :: "peer_connection \<Rightarrow> nat" where
  "read_left c = (\<Sum>r\<leftarrow>tr_reads (pc_transport c). case r of Inl _ \<Rightarrow> 1 | Inr chunk \<Rightarrow> Suc (length chunk))"

lemma read_left_decreases:
  assumes "transport_read PACKET_READ_SIZE (pc_transport c) = (Inr data, t)" "data \<noteq> []"
  shows "read_left (c\<lparr>pc_transport := t, pc_decoder := d, pc_pending := ps\<rparr>) + length data \<le> read_left c \<and>
    read_left (c\<lparr>pc_transport := t, pc_decoder := d, pc_pending := ps\<rparr>) < read_left c"
  using assms
  by (auto simp: transport_read_def read_left_def PACKET_READ_SIZE_def split: list.splits sum.splits if_splits)

text \<open>The reading loop of \<open>receive_packet\<close>, entered with no packet pending.\<close>

function receive_loop :: "peer_connection \<Rightarrow> (p2p_error + packet) \<times> peer_connection" where
  "receive_loop c =
     (case transport_read PACKET_READ_SIZE (pc_transport c) of
        (Inl e, t) \<Rightarrow> (Inl (PeerIo e), c\<lparr>pc_transport := t\<rparr>)
      | (Inr data, t) \<Rightarrow>
          if data = [] then (Inl ConnectionClosed, c\<lparr>pc_transport := t\<rparr>) else
          (case feed data (pc_decoder c) of
             (Inl e, d) \<Rightarrow> (Inl e, c\<lparr>pc_transport := t, pc_decoder := d\<rparr>)
           | (Inr packets, d) \<Rightarrow>
               (case pc_pending c @ packets of
                  packet # later \<Rightarrow> (Inr packet, c\<lparr>pc_transport := t, pc_decoder := d, pc_pending := later\<rparr>)
                | [] \<Rightarrow> receive_loop (c\<lparr>pc_transport := t, pc_decoder := d, pc_pending := []\<rparr>))))"
  by pat_completeness auto
termination
  by (relation "measure read_left") (auto dest: read_left_decreases [OF sym])

declare receive_loop.simps [simp del]

definition receive_packet :: "peer_connection \<Rightarrow> (p2p_error + packet) \<times> peer_connection" where
  "receive_packet c =
     (case pc_pending c of
        packet # later \<Rightarrow> (Inr packet, c\<lparr>pc_pending := later\<rparr>)
      | [] \<Rightarrow> receive_loop c)"

text \<open>What one arm of a driving loop does with an action.\<close>

datatype 'a arm = Return 'a | Reply packet | Fail p2p_error

definition apply_action :: "header_sync_action \<Rightarrow> peer_connection \<Rightarrow> (p2p_error + unit) \<times> peer_connection" where
  "apply_action action c =
     (case action of
        ActSend packet \<Rightarrow> send_packet packet c
      | ActDisconnect reason \<Rightarrow> (Inl (SessionDisconnected reason), c)
      | _ \<Rightarrow> (Inl UnexpectedAction, c))"

fun run_actions ::
  "(header_sync_action \<Rightarrow> 'a arm) \<Rightarrow> header_sync_action list \<Rightarrow> peer_connection \<Rightarrow> (p2p_error + 'a option) \<times> peer_connection"
where
  "run_actions arm [] c = (Inr None, c)"
| "run_actions arm (action # later) c =
     (case arm action of
        Return x \<Rightarrow> (Inr (Some x), c)
      | Fail e \<Rightarrow> (Inl e, c)
      | Reply packet \<Rightarrow>
          (case send_packet packet c of
             (Inl e, c) \<Rightarrow> (Inl e, c)
           | (Inr _, c) \<Rightarrow> run_actions arm later c))"

definition input_left :: "peer_connection \<Rightarrow> nat" where
  "input_left c = length (pc_pending c) + length (fd_buffer (pc_decoder c)) + read_left c"

lemma send_packet_keeps:
  assumes "send_packet p c = (r, c')"
  shows "pc_pending c' = pc_pending c" "pc_decoder c' = pc_decoder c" "pc_network c' = pc_network c"
    "tr_reads (pc_transport c') = tr_reads (pc_transport c)"
  using assms by (auto simp: send_packet_def transport_write_def split: sum.splits list.splits)

lemma run_actions_keeps:
  assumes "run_actions arm acts c = (r, c')"
  shows "pc_pending c' = pc_pending c \<and> pc_decoder c' = pc_decoder c \<and> pc_network c' = pc_network c \<and>
    tr_reads (pc_transport c') = tr_reads (pc_transport c)"
  using assms
proof (induction acts arbitrary: c)
  case (Cons a acts)
  show ?case
  proof (cases "arm a")
    case (Reply p)
    obtain r1 c1 where s: "send_packet p c = (r1, c1)" by force
    show ?thesis
    proof (cases r1)
      case (Inr u)
      then have "run_actions arm acts c1 = (r, c')" using Cons.prems Reply s by simp
      from Cons.IH [OF this] send_packet_keeps [OF s] show ?thesis by simp
    qed (use Cons.prems Reply s send_packet_keeps [OF s] in auto)
  qed (use Cons.prems in auto)
qed simp

lemma feed_loop_work:
  assumes "feed_loop N buf n acc = Inr (ps, m)" "n \<le> length buf"
  shows "length ps + n \<le> length acc + m \<and> m \<le> length buf"
  using assms
proof (induction N buf n acc rule: feed_loop.induct)
  case (1 N buf n acc)
  show ?case
  proof (cases "decode_frame N (drop n buf)")
    case (Inr d)
    show ?thesis
    proof (cases d)
      case (Some pu)
      obtain p used where pu: "pu = (p, used)" by force
      have u: "9 \<le> used" "used \<le> length (drop n buf)"
        using decode_frame_sendable [of N "drop n buf" p used] Inr Some pu by (simp_all add: length_frame_bytes)
      show ?thesis
      proof (cases "n + used = length buf")
        case True
        with 1(2) Inr Some pu u show ?thesis by (auto simp: feed_loop.simps [of N buf n])
      next
        case False
        with 1(2) Inr Some pu have "feed_loop N buf (n + used) (acc @ [p]) = Inr (ps, m)"
          by (simp add: feed_loop.simps [of N buf n])
        from 1(1) [OF Inr Some pu [symmetric] False this] u 1(3) show ?thesis by (simp add: le_diff_conv2)
      qed
    qed (use 1 Inr in \<open>simp add: feed_loop.simps\<close>)
  qed (use 1 in \<open>simp add: feed_loop.simps\<close>)
qed

lemma feed_work:
  assumes "feed data d = (Inr ps, d')"
  shows "length ps + length (fd_buffer d') \<le> length (fd_buffer d) + length data"
proof -
  obtain n where "feed_loop (fd_network d) (fd_buffer d @ data) 0 [] = Inr (ps, n)"
    "length (fd_buffer d') = length (fd_buffer d @ data) - n"
    using assms by (auto simp: feed_def Let_def split: if_splits sum.splits)
  moreover from feed_loop_work [OF this(1)] have "length ps \<le> n" "n \<le> length (fd_buffer d @ data)" by simp_all
  ultimately show ?thesis by (simp only: length_append)
qed

lemma receive_loop_work:
  assumes "receive_loop c = (Inr p, c')"
  shows "input_left c' < input_left c"
  using assms
proof (induction c rule: receive_loop.induct)
  case (1 c)
  from 1(2) obtain data t ps d where s: "transport_read PACKET_READ_SIZE (pc_transport c) = (Inr data, t)" "data \<noteq> []"
    "feed data (pc_decoder c) = (Inr ps, d)"
    by (subst (asm) receive_loop.simps) (auto split: prod.splits sum.splits if_splits)
  note w = feed_work [OF s(3)]
  show ?case
  proof (cases "pc_pending c @ ps")
    case Nil
    have "receive_loop (c\<lparr>pc_transport := t, pc_decoder := d, pc_pending := []\<rparr>) = (Inr p, c')"
      using 1(2) s Nil by (subst (asm) receive_loop.simps) simp
    from 1(1) [OF s(1) [symmetric] refl s(2) s(3) [symmetric] refl Nil this]
    have "input_left c' < input_left (c\<lparr>pc_transport := t, pc_decoder := d, pc_pending := []\<rparr>)" .
    also have "\<dots> \<le> input_left c"
      using w read_left_decreases [OF s(1,2), where d = d and ps = "[]"] by (simp add: input_left_def)
    finally show ?thesis .
  next
    case (Cons q qs)
    then have c': "c' = c\<lparr>pc_transport := t, pc_decoder := d, pc_pending := qs\<rparr>"
      using 1(2) s by (subst (asm) receive_loop.simps) auto
    moreover have "Suc (length qs) = length (pc_pending c) + length ps" using arg_cong [OF Cons, of length] by simp
    ultimately show ?thesis
      using w read_left_decreases [OF s(1,2), where d = d and ps = qs] by (simp add: input_left_def)
  qed
qed

lemma receive_packet_work:
  assumes "receive_packet c = (Inr p, c')"
  shows "input_left c' < input_left c"
proof (cases "pc_pending c")
  case (Cons q qs)
  with assms show ?thesis by (auto simp: receive_packet_def input_left_def read_left_def)
qed (use assms in \<open>simp add: receive_packet_def receive_loop_work\<close>)

lemma input_left_cong:
  assumes "pc_pending c' = pc_pending c \<and> pc_decoder c' = pc_decoder c \<and> pc_network c' = pc_network c \<and>
    tr_reads (pc_transport c') = tr_reads (pc_transport c)"
  shows "input_left c' = input_left c"
  using assms by (simp add: input_left_def read_left_def)

text \<open>The loop the three driving functions share: each packet is handed to the session, and the arm of the function
  decides about each action in turn.\<close>

function session_loop ::
  "(header_sync_session \<Rightarrow> header_sync_action \<Rightarrow> 'a arm) \<Rightarrow> header_sync_session \<Rightarrow> peer_connection \<Rightarrow>
   (p2p_error + 'a) \<times> header_sync_session \<times> peer_connection"
where
  "session_loop arm s c =
     (case receive_packet c of
        (Inl e, c) \<Rightarrow> (Inl e, s, c)
      | (Inr packet, c) \<Rightarrow>
          (let (actions, s) = on_packet packet s in
           case run_actions (arm s) actions c of
             (Inl e, c) \<Rightarrow> (Inl e, s, c)
           | (Inr (Some x), c) \<Rightarrow> (Inr x, s, c)
           | (Inr None, c) \<Rightarrow> session_loop arm s c))"
  by pat_completeness auto
termination
  by (relation "measure (\<lambda>(_, _, c). input_left c)")
    (auto dest!: receive_packet_work [OF sym] run_actions_keeps [OF sym, THEN input_left_cong])

declare session_loop.simps [simp del]

definition handshake_arm :: "header_sync_session \<Rightarrow> header_sync_action \<Rightarrow> version_packet arm" where
  "handshake_arm s action =
     (case action of
        ActReady \<Rightarrow> (case hs_remote_version s of Some v \<Rightarrow> Return v | None \<Rightarrow> Fail UnexpectedAction)
      | ActSend packet \<Rightarrow> Reply packet
      | ActDisconnect reason \<Rightarrow> Fail (SessionDisconnected reason)
      | _ \<Rightarrow> Fail UnexpectedAction)"

definition handshake ::
  "header_sync_session \<Rightarrow> peer_connection \<Rightarrow> (p2p_error + version_packet) \<times> header_sync_session \<times> peer_connection"
where
  "handshake s c =
     (case apply_action (session_start s) c of
        (Inl e, c) \<Rightarrow> (Inl e, s, c)
      | (Inr _, c) \<Rightarrow> session_loop handshake_arm s c)"

definition headers_arm :: "header_sync_session \<Rightarrow> header_sync_action \<Rightarrow> block_header list arm" where
  "headers_arm s action =
     (case action of
        ActHeaders items \<Rightarrow> Return items
      | ActSend packet \<Rightarrow> Reply packet
      | ActDisconnect reason \<Rightarrow> Fail (SessionDisconnected reason)
      | _ \<Rightarrow> Fail UnexpectedAction)"

definition request_headers ::
  "hash list \<Rightarrow> hash \<Rightarrow> header_sync_session \<Rightarrow> peer_connection \<Rightarrow>
   (p2p_error + block_header list) \<times> header_sync_session \<times> peer_connection"
where
  "request_headers locator stop s c =
     (case session_request_headers locator stop s of
        (Inl e, s) \<Rightarrow> (Inl e, s, c)
      | (Inr action, s) \<Rightarrow>
          (case apply_action action c of
             (Inl e, c) \<Rightarrow> (Inl e, s, c)
           | (Inr _, c) \<Rightarrow> session_loop headers_arm s c))"

definition proof_arm :: "header_sync_session \<Rightarrow> header_sync_action \<Rightarrow> proof_packet arm" where
  "proof_arm s action =
     (case action of
        ActProof pk \<Rightarrow> Return pk
      | ActSend packet \<Rightarrow> Reply packet
      | ActDisconnect reason \<Rightarrow> Fail (SessionDisconnected reason)
      | _ \<Rightarrow> Fail UnexpectedAction)"

definition request_proof ::
  "hash \<Rightarrow> hash \<Rightarrow> header_sync_session \<Rightarrow> peer_connection \<Rightarrow>
   (p2p_error + proof_packet) \<times> header_sync_session \<times> peer_connection"
where
  "request_proof root key s c =
     (case session_request_proof root key s of
        (action, s) \<Rightarrow>
          (case apply_action action c of
             (Inl e, c) \<Rightarrow> (Inl e, s, c)
           | (Inr _, c) \<Rightarrow> session_loop proof_arm s c))"

function address_loop :: "peer_connection \<Rightarrow> (p2p_error + (ip_addr \<times> u16) list) \<times> peer_connection" where
  "address_loop c =
     (case receive_packet c of
        (Inl e, c) \<Rightarrow> (Inl e, c)
      | (Inr packet, c) \<Rightarrow>
          (case packet of
             PktAddr items \<Rightarrow> (Inr (service_sockets SERVICE_NETWORK items), c)
           | PktPing n \<Rightarrow>
               (case send_packet (PktPong n) c of
                  (Inl e, c) \<Rightarrow> (Inl e, c)
                | (Inr _, c) \<Rightarrow> address_loop c)
           | PktGetAddr \<Rightarrow> address_loop c
           | PktPong _ \<Rightarrow> address_loop c
           | PktSendHeaders \<Rightarrow> address_loop c
           | PktUnknown _ _ \<Rightarrow> address_loop c
           | PktVerack \<Rightarrow> address_loop c
           | _ \<Rightarrow> (Inl UnexpectedAction, c)))"
  by pat_completeness auto
termination
proof (relation "measure input_left", goal_cases)
  case (3 c x c2 b n y c3)
  then have "input_left c3 = input_left c2" by (metis input_left_cong send_packet_keeps)
  with 3 show ?case by (auto dest: receive_packet_work [OF sym])
qed (auto dest: receive_packet_work [OF sym])

declare address_loop.simps [simp del]

definition request_addresses :: "peer_connection \<Rightarrow> (p2p_error + (ip_addr \<times> u16) list) \<times> peer_connection" where
  "request_addresses c =
     (case send_packet PktGetAddr c of
        (Inl e, c) \<Rightarrow> (Inl e, c)
      | (Inr _, c) \<Rightarrow> address_loop c)"

section \<open>The session\<close>

definition serves :: "version_packet \<Rightarrow> bool" where
  "serves v \<longleftrightarrow> \<not> vp_version v < 1 \<and> vp_services v AND SERVICE_NETWORK \<noteq> 0"

text \<open>Everything a session can go through, with the log of the actions it asked for.\<close>

inductive session_run :: "header_sync_session \<Rightarrow> header_sync_action list \<Rightarrow> header_sync_session \<Rightarrow> bool" for s0 where
  session_begin: "session_run s0 [] s0"
| session_packet: "session_run s0 (log @ acts) s'" if "session_run s0 log s" "on_packet p s = (acts, s')"
| session_ask_headers: "session_run s0 (log @ [act]) s'"
    if "session_run s0 log s" "session_request_headers locator stop s = (Inr act, s')"
| session_ask_proof: "session_run s0 (log @ [act]) s'"
    if "session_run s0 log s" "session_request_proof root key s = (act, s')"

lemma on_version_closed:
  "on_version v s =
     (if \<not> serves v
      then ([ActDisconnect (ascii ''peer lacks required network service'')], s\<lparr>hs_state := SyncClosed\<rparr>)
      else if hs_ack_received s then ([ActSend PktVerack, ActReady], s\<lparr>hs_remote_version := Some v, hs_state := SyncReady\<rparr>)
      else ([ActSend PktVerack], s\<lparr>hs_remote_version := Some v, hs_state := AwaitingVerack\<rparr>))"
  by (cases "serves v") (auto simp: on_version_def serves_def Let_def)

lemma on_packet_cases:
  assumes "on_packet p s = (acts, s')"
  obtains (refused) v where "p = PktVersion v" "hs_state s = AwaitingVersion" "\<not> serves v"
      "acts = [ActDisconnect (ascii ''peer lacks required network service'')]" "s' = s\<lparr>hs_state := SyncClosed\<rparr>"
  | (version_first) v where "p = PktVersion v" "hs_state s = AwaitingVersion" "serves v" "\<not> hs_ack_received s"
      "acts = [ActSend PktVerack]" "s' = s\<lparr>hs_remote_version := Some v, hs_state := AwaitingVerack\<rparr>"
  | (version_last) v where "p = PktVersion v" "hs_state s = AwaitingVersion" "serves v" "hs_ack_received s"
      "acts = [ActSend PktVerack, ActReady]" "s' = s\<lparr>hs_remote_version := Some v, hs_state := SyncReady\<rparr>"
  | (ack_first) "p = PktVerack" "hs_state s = AwaitingVersion" "acts = []" "s' = s\<lparr>hs_ack_received := True\<rparr>"
  | (ack_last) "p = PktVerack" "hs_state s = AwaitingVerack" "acts = [ActReady]"
      "s' = s\<lparr>hs_ack_received := True, hs_state := SyncReady\<rparr>"
  | (answer) items where "p = PktHeaders items" "hs_state s = HeadersRequested" "acts = [ActHeaders items]"
      "s' = s\<lparr>hs_state := SyncReady\<rparr>"
  | (proven) pk where "p = PktProof pk" "hs_state s = ProofRequested" "acts = [ActProof pk]"
      "s' = s\<lparr>hs_state := SyncReady\<rparr>"
  | (other) "acts = on_other_packet (hs_state s) p" "s' = s"
proof (cases p)
  case (PktVersion v)
  show thesis
  proof (cases "hs_state s = AwaitingVersion")
    case True
    then have v: "(acts, s') = on_version v s" using assms PktVersion by (simp add: on_packet_def)
    show thesis
    proof (cases "serves v")
      case False
      with v PktVersion True refused on_version_closed [of v s] show thesis by simp
    next
      case s: True
      show thesis
      proof (cases "hs_ack_received s")
        case a: True
        with v s PktVersion True version_last on_version_closed [of v s] show thesis by simp
      next
        case a: False
        with v s PktVersion True version_first on_version_closed [of v s] show thesis by simp
      qed
    qed
  qed (use assms PktVersion other in \<open>auto simp: on_packet_def split: header_sync_state.splits\<close>)
qed (use assms ack_first ack_last answer proven other in \<open>auto simp: on_packet_def split: header_sync_state.splits\<close>)

lemma on_other_packet_log:
  "a \<in> set (on_other_packet st p) \<Longrightarrow> (\<exists>n. a = ActSend (PktPong n)) \<or> (\<exists>r. a = ActDisconnect r)"
  by (auto simp: on_other_packet_def split: packet.splits if_splits)

text \<open>What is only asked of, or delivered by, a peer whose handshake is complete.\<close>

fun privileged :: "header_sync_action \<Rightarrow> bool" where
  "privileged ActReady \<longleftrightarrow> True"
| "privileged (ActHeaders _) \<longleftrightarrow> True"
| "privileged (ActProof _) \<longleftrightarrow> True"
| "privileged (ActSend (PktGetHeaders _)) \<longleftrightarrow> True"
| "privileged (ActSend (PktGetProof _)) \<longleftrightarrow> True"
| "privileged _ \<longleftrightarrow> False"

fun asks_headers :: "header_sync_action \<Rightarrow> bool" where
  "asks_headers (ActSend (PktGetHeaders _)) \<longleftrightarrow> True"
| "asks_headers _ \<longleftrightarrow> False"

fun asks_proof :: "header_sync_action \<Rightarrow> bool" where
  "asks_proof (ActSend (PktGetProof _)) \<longleftrightarrow> True"
| "asks_proof _ \<longleftrightarrow> False"

fun delivers_headers :: "header_sync_action \<Rightarrow> bool" where
  "delivers_headers (ActHeaders _) \<longleftrightarrow> True"
| "delivers_headers _ \<longleftrightarrow> False"

fun delivers_proof :: "header_sync_action \<Rightarrow> bool" where
  "delivers_proof (ActProof _) \<longleftrightarrow> True"
| "delivers_proof _ \<longleftrightarrow> False"

definition shaken :: "header_sync_session \<Rightarrow> bool" where
  "shaken s \<longleftrightarrow> hs_ack_received s \<and> (\<exists>v. hs_remote_version s = Some v \<and> serves v)"

definition session_inv :: "header_sync_action list \<Rightarrow> header_sync_session \<Rightarrow> bool" where
  "session_inv log s \<longleftrightarrow>
     (hs_state s \<in> {SyncReady, HeadersRequested, ProofRequested} \<longrightarrow> shaken s) \<and>
     (hs_state s = AwaitingVerack \<longrightarrow> (\<exists>v. hs_remote_version s = Some v \<and> serves v)) \<and>
     (hs_state s \<in> {AwaitingVersion, AwaitingVerack, SyncClosed} \<longrightarrow> list_all (\<lambda>a. \<not> privileged a) log) \<and>
     length (filter asks_headers log) = length (filter delivers_headers log) + of_bool (hs_state s = HeadersRequested) \<and>
     length (filter asks_proof log) = length (filter delivers_proof log) + of_bool (hs_state s = ProofRequested) \<and>
     length (filter (\<lambda>a. a = ActReady) log) = of_bool (hs_state s \<in> {SyncReady, HeadersRequested, ProofRequested})"

lemma on_other_packet_quiet:
  "list_all (\<lambda>a. \<not> privileged a) (on_other_packet st p)"
  "filter asks_headers (on_other_packet st p) = []" "filter delivers_headers (on_other_packet st p) = []"
  "filter asks_proof (on_other_packet st p) = []" "filter delivers_proof (on_other_packet st p) = []"
  "filter (\<lambda>a. a = ActReady) (on_other_packet st p) = []"
  by (auto simp: list_all_iff filter_empty_conv dest!: on_other_packet_log)

lemma session_run_inv: "session_run (session_new lv) log s \<Longrightarrow> session_inv log s"
proof (induction rule: session_run.induct)
  case session_begin
  then show ?case by (simp add: session_inv_def session_new_def)
next
  case (session_packet log s p acts s')
  note inv = session_packet(3) [unfolded session_inv_def]
  from session_packet(2) show ?case
  proof (cases rule: on_packet_cases)
    case other
    with inv show ?thesis by (simp add: session_inv_def on_other_packet_quiet)
  qed (use inv in \<open>simp_all add: session_inv_def shaken_def\<close>)
next
  case (session_ask_headers log s locator stop act s')
  note inv = session_ask_headers(3) [unfolded session_inv_def]
  show ?case
  proof (cases "hs_state s = SyncReady")
    case True
    then have "act = ActSend (PktGetHeaders \<lparr>lp_locator = locator, lp_stop = stop\<rparr>)" "s' = s\<lparr>hs_state := HeadersRequested\<rparr>"
      using session_ask_headers(2) by (simp_all add: session_request_headers_def split: if_splits)
    with True inv show ?thesis by (simp add: session_inv_def shaken_def)
  next
    case False
    then have "act = ActDisconnect (ascii ''headers requested before peer ready'')" "s' = s"
      using session_ask_headers(2) by (simp_all add: session_request_headers_def)
    with inv show ?thesis by (simp add: session_inv_def)
  qed
next
  case (session_ask_proof log s root key act s')
  note inv = session_ask_proof(3) [unfolded session_inv_def]
  show ?case
  proof (cases "hs_state s = SyncReady")
    case True
    then have "act = ActSend (PktGetProof \<lparr>pr_root = root, pr_key = key\<rparr>)" "s' = s\<lparr>hs_state := ProofRequested\<rparr>"
      using session_ask_proof(2) by (simp_all add: session_request_proof_def)
    with True inv show ?thesis by (simp add: session_inv_def shaken_def)
  next
    case False
    then have "act = ActDisconnect (ascii ''proof requested before peer ready'')" "s' = s"
      using session_ask_proof(2) by (simp_all add: session_request_proof_def)
    with inv show ?thesis by (simp add: session_inv_def)
  qed
qed

end
