(* ===== verification/P2p_Handshake.thy ===== *)
theory P2p_Handshake
  imports P2p_Session
begin

text \<open>
  What the peer connection of \<open>hns-p2p/src/lib.rs\<close> achieves: a connection over a transport that carries the frames
  of a list of packets behaves as that list, however the transport cuts the bytes, so the handshake and the requests
  complete once the peer has sent its part.
\<close>

section \<open>A connection as a list of packets\<close>

definition fits_reads :: "packet \<Rightarrow> bool" where
  "fits_reads p \<longleftrightarrow> sendable p \<and> length (payload_bytes p) + PACKET_READ_SIZE \<le> MAX_MESSAGE + 1"

definition delivers :: "peer_connection \<Rightarrow> packet list \<Rightarrow> bool" where
  "delivers c ps \<longleftrightarrow>
     (\<exists>later chunks. ps = pc_pending c @ later \<and> list_all fits_reads later \<and>
        tr_reads (pc_transport c) = map Inr chunks \<and> [] \<notin> set chunks \<and>
        stream_bytes (pc_network c) later = fd_buffer (pc_decoder c) @ concat chunks \<and>
        fd_network (pc_decoder c) = pc_network c \<and> decode_frame (pc_network c) (fd_buffer (pc_decoder c)) = Inr None)"

lemma delivers_new:
  assumes "list_all fits_reads ps" "tr_reads t = map Inr chunks" "[] \<notin> set chunks" "concat chunks = stream_bytes N ps"
  shows "delivers (connection_new t N) ps"
  using assms by (simp add: delivers_def connection_new_def frame_decoder_new_def)

lemma receive_loop_delivers:
  assumes "delivers c (p # ps)" "pc_pending c = []"
  shows "\<exists>t d qs. receive_loop c = (Inr p, c\<lparr>pc_transport := t, pc_decoder := d, pc_pending := qs\<rparr>) \<and>
    delivers (c\<lparr>pc_transport := t, pc_decoder := d, pc_pending := qs\<rparr>) ps \<and>
    tr_writes t = tr_writes (pc_transport c) \<and> tr_sent t = tr_sent (pc_transport c)"
  using assms
proof (induction c rule: receive_loop.induct)
  case (1 c)
  let ?N = "pc_network c" and ?t = "pc_transport c" and ?d = "pc_decoder c"
  obtain chunks where ch: "list_all fits_reads (p # ps)" "tr_reads ?t = map Inr chunks" "[] \<notin> set chunks"
    "stream_bytes ?N (p # ps) = fd_buffer ?d @ concat chunks" "fd_network ?d = ?N"
    "decode_frame ?N (fd_buffer ?d) = Inr None"
    using 1(2,3) by (auto simp: delivers_def)
  have ok: "list_all sendable (p # ps)" using ch(1) by (auto simp: list_all_iff fits_reads_def)
  have "chunks \<noteq> []"
  proof
    assume "chunks = []"
    with ch(4,6) decode_whole_frame [of p ?N "stream_bytes ?N ps"] ok show False by simp
  qed
  then obtain x xs where x: "chunks = x # xs" by (cases chunks) auto
  define data where "data = take PACKET_READ_SIZE x"
  define ys where "ys = (if length x \<le> PACKET_READ_SIZE then xs else drop PACKET_READ_SIZE x # xs)"
  define t where "t = ?t\<lparr>tr_reads := map Inr ys\<rparr>"
  have r: "transport_read PACKET_READ_SIZE ?t = (Inr data, t)"
    using ch(2) x by (simp add: transport_read_def data_def t_def ys_def)
  have data: "data \<noteq> []" using ch(3) x by (auto simp: data_def PACKET_READ_SIZE_def)
  have ys: "[] \<notin> set ys" "concat chunks = data @ concat ys"
    using ch(3) x by (auto simp: ys_def data_def)
  have n: "length data \<le> PACKET_READ_SIZE" "PACKET_READ_SIZE \<le> MAX_MESSAGE"
    by (simp_all add: data_def PACKET_READ_SIZE_def MAX_MESSAGE_def)
  have fits: "\<forall>p\<in>set (p # ps). length (payload_bytes p) + PACKET_READ_SIZE \<le> MAX_MESSAGE + 1"
    using ch(1) by (auto simp: list_all_iff fits_reads_def)
  from feed_step [OF ok ch(4) [unfolded ys(2)] ch(5,6) n(1) fits n(2)] obtain k post where
    k: "feed data ?d = (Inr (take k (p # ps)), ?d\<lparr>fd_buffer := post\<rparr>)" "decode_frame ?N post = Inr None"
      "stream_bytes ?N (drop k (p # ps)) = post @ concat ys" .
  define d where "d = ?d\<lparr>fd_buffer := post\<rparr>"
  have later: "list_all fits_reads (drop k (p # ps))" using ch(1) by (meson in_set_dropD list_all_iff)
  have del: "delivers (c\<lparr>pc_transport := t, pc_decoder := d, pc_pending := qs\<rparr>) (qs @ drop k (p # ps))" for qs
    using later ys(1) k(2,3) ch(5) by (auto simp: delivers_def d_def t_def)
  note unfold = receive_loop.simps [of c]
  show ?case
  proof (cases k)
    case 0
    then have eq: "receive_loop c = receive_loop (c\<lparr>pc_transport := t, pc_decoder := d, pc_pending := []\<rparr>)"
      using r data k(1) 1(3) by (subst unfold) (simp add: d_def)
    have "\<exists>t' d' qs. receive_loop (c\<lparr>pc_transport := t, pc_decoder := d, pc_pending := []\<rparr>) =
        (Inr p, c\<lparr>pc_transport := t', pc_decoder := d', pc_pending := qs\<rparr>) \<and>
      delivers (c\<lparr>pc_transport := t', pc_decoder := d', pc_pending := qs\<rparr>) ps \<and>
      tr_writes t' = tr_writes t \<and> tr_sent t' = tr_sent t"
    proof -
      have f: "(Inr [], d) = feed data ?d" "pc_pending c @ [] = []" using k(1) 0 1(3) by (simp_all add: d_def)
      have "delivers (c\<lparr>pc_transport := t, pc_decoder := d, pc_pending := []\<rparr>) (p # ps)" using del [of "[]"] 0 by simp
      from 1(1) [OF r [symmetric] refl data f(1) refl f(2) this] show ?thesis by simp
    qed
    then show ?thesis unfolding eq by (simp add: t_def)
  next
    case (Suc j)
    have "receive_loop c = (Inr p, c\<lparr>pc_transport := t, pc_decoder := d, pc_pending := take j ps\<rparr>)"
      using r data k(1) 1(3) Suc by (subst unfold) (simp add: d_def)
    moreover have "delivers (c\<lparr>pc_transport := t, pc_decoder := d, pc_pending := take j ps\<rparr>) ps"
      using del [of "take j ps"] Suc by simp
    moreover have "tr_writes t = tr_writes ?t" "tr_sent t = tr_sent ?t" by (simp_all add: t_def)
    ultimately show ?thesis by blast
  qed
qed

lemma receive_packet_delivers:
  assumes "delivers c (p # ps)"
  obtains c' where "receive_packet c = (Inr p, c')" "delivers c' ps" "pc_network c' = pc_network c"
    "tr_writes (pc_transport c') = tr_writes (pc_transport c)" "tr_sent (pc_transport c') = tr_sent (pc_transport c)"
proof (cases "pc_pending c")
  case Nil
  with receive_loop_delivers [OF assms] that show thesis by (auto simp: receive_packet_def)
next
  case (Cons q qs)
  with assms have "q = p" "delivers (c\<lparr>pc_pending := qs\<rparr>) ps" by (auto simp: delivers_def)
  with Cons that [of "c\<lparr>pc_pending := qs\<rparr>"] show thesis by (simp add: receive_packet_def)
qed

text \<open>A connection on which nothing fails any more, and what it has written.\<close>

definition flows :: "peer_connection \<Rightarrow> packet list \<Rightarrow> bytes \<Rightarrow> bool" where
  "flows c ps sent \<longleftrightarrow>
     delivers c ps \<and> (\<forall>w\<in>set (tr_writes (pc_transport c)). w = Inr ()) \<and> tr_sent (pc_transport c) = sent"

lemma send_packet_flows:
  assumes "flows c ps sent" "sendable p"
  obtains c' where "send_packet p c = (Inr (), c')" "flows c' ps (sent @ frame_bytes (pc_network c) p)"
    "pc_network c' = pc_network c"
proof -
  have w: "transport_write data t = (Inr (), t\<lparr>tr_writes := tl (tr_writes t), tr_sent := tr_sent t @ data\<rparr>)"
    if "\<forall>w\<in>set (tr_writes t). w = Inr ()" for data t
    using that by (cases "tr_writes t") (auto simp: transport_write_def)
  let ?t = "pc_transport c"
  define t' where "t' = ?t\<lparr>tr_writes := tl (tl (tr_writes ?t)), tr_sent := tr_sent ?t @ frame_bytes (pc_network c) p\<rparr>"
  have ok: "\<forall>w\<in>set (tr_writes ?t). w = Inr ()" using assms(1) by (simp add: flows_def)
  then have ok': "\<forall>w\<in>set (tl (tr_writes ?t)). w = Inr ()" "\<forall>w\<in>set (tl (tl (tr_writes ?t))). w = Inr ()"
    using in_set_dropD [of _ 1] in_set_dropD [of _ 2] by (metis drop_Suc drop_0 One_nat_def Suc_1)+
  have "send_packet p c = (Inr (), c\<lparr>pc_transport := t'\<rparr>)"
    using w [OF ok] w ok' assms(2) by (simp add: send_packet_def encode_frame_bytes t'_def)
  moreover have "flows (c\<lparr>pc_transport := t'\<rparr>) ps (sent @ frame_bytes (pc_network c) p)"
    using assms(1) ok' by (simp add: flows_def delivers_def t'_def)
  ultimately show thesis using that by simp
qed

lemma receive_packet_flows:
  assumes "flows c (p # ps) sent"
  obtains c' where "receive_packet c = (Inr p, c')" "flows c' ps sent" "pc_network c' = pc_network c"
proof -
  have d: "delivers c (p # ps)" using assms by (simp add: flows_def)
  from receive_packet_delivers [OF d] obtain c' where "receive_packet c = (Inr p, c')" "delivers c' ps"
    "pc_network c' = pc_network c" "tr_writes (pc_transport c') = tr_writes (pc_transport c)"
    "tr_sent (pc_transport c') = tr_sent (pc_transport c)" .
  with that [of c'] assms show thesis by (simp add: flows_def)
qed

section \<open>Driving loops\<close>

text \<open>Packets a session skips or answers without changing its state.\<close>

fun benign :: "packet \<Rightarrow> bool" where
  "benign (PktPing n) \<longleftrightarrow> length n = 8"
| "benign (PktPong _) \<longleftrightarrow> True"
| "benign PktGetAddr \<longleftrightarrow> True"
| "benign (PktAddr _) \<longleftrightarrow> True"
| "benign PktSendHeaders \<longleftrightarrow> True"
| "benign (PktUnknown _ _) \<longleftrightarrow> True"
| "benign _ \<longleftrightarrow> False"

fun session_replies :: "packet list \<Rightarrow> packet list" where
  "session_replies [] = []"
| "session_replies (PktPing n # ps) = PktPong n # session_replies ps"
| "session_replies (PktVersion v # ps) = PktVerack # session_replies ps"
| "session_replies (_ # ps) = session_replies ps"

lemma session_replies_append: "session_replies (ps @ qs) = session_replies ps @ session_replies qs"
  by (induction ps rule: session_replies.induct) simp_all

lemma stream_bytes_append: "stream_bytes N (ps @ qs) = stream_bytes N ps @ stream_bytes N qs"
  by (simp add: stream_bytes_def)

lemma on_packet_benign:
  assumes "benign p" "hs_state s \<noteq> SyncClosed"
  shows "on_packet p s = (map ActSend (session_replies [p]), s)"
  using assms by (cases p; cases "hs_state s") (simp_all add: on_packet_def on_other_packet_def)

lemma run_actions_sends:
  assumes "flows c ps sent" "list_all sendable qs" "\<And>q. arm (ActSend q) = Reply q"
  shows "\<exists>c'. run_actions arm (map ActSend qs @ acts) c = run_actions arm acts c' \<and>
    flows c' ps (sent @ stream_bytes (pc_network c) qs) \<and> pc_network c' = pc_network c"
  using assms(1,2)
proof (induction qs arbitrary: c sent)
  case (Cons q qs)
  then have "sendable q" by simp
  from send_packet_flows [OF Cons.prems(1) this] obtain c1 where
    c1: "send_packet q c = (Inr (), c1)" "flows c1 ps (sent @ frame_bytes (pc_network c) q)" "pc_network c1 = pc_network c" .
  from Cons.IH [OF c1(2)] Cons.prems(2) c1 assms(3) show ?case by simp
qed auto

text \<open>One turn of a loop whose packet lets it go on.\<close>

lemma session_loop_turn:
  assumes "flows c (p # ps) sent" "on_packet p s = (map ActSend qs, s')" "list_all sendable qs"
    and "\<And>q. arm s' (ActSend q) = Reply q"
  shows "\<exists>c'. session_loop arm s c = session_loop arm s' c' \<and>
    flows c' ps (sent @ stream_bytes (pc_network c) qs) \<and> pc_network c' = pc_network c"
proof -
  from receive_packet_flows [OF assms(1)] obtain c1 where
    c1: "receive_packet c = (Inr p, c1)" "flows c1 ps sent" "pc_network c1 = pc_network c" .
  from run_actions_sends [OF c1(2) assms(3), of "arm s'" "[]"] assms(4) c1(3) obtain c2 where
    "run_actions (arm s') (map ActSend qs) c1 = (Inr None, c2)"
    "flows c2 ps (sent @ stream_bytes (pc_network c) qs)" "pc_network c2 = pc_network c" by auto
  with c1(1) assms(2) show ?thesis by (subst session_loop.simps) auto
qed

text \<open>One turn that returns.\<close>

lemma session_loop_return:
  assumes "flows c (p # ps) sent" "on_packet p s = (map ActSend qs @ [act], s')" "list_all sendable qs"
    and "\<And>q. arm s' (ActSend q) = Reply q" "arm s' act = Return x"
  shows "\<exists>c'. session_loop arm s c = (Inr x, s', c') \<and>
    flows c' ps (sent @ stream_bytes (pc_network c) qs) \<and> pc_network c' = pc_network c"
proof -
  from receive_packet_flows [OF assms(1)] obtain c1 where
    c1: "receive_packet c = (Inr p, c1)" "flows c1 ps sent" "pc_network c1 = pc_network c" .
  from run_actions_sends [OF c1(2) assms(3), of "arm s'" "[act]"] assms(4,5) c1(3) obtain c2 where
    "run_actions (arm s') (map ActSend qs @ [act]) c1 = (Inr (Some x), c2)"
    "flows c2 ps (sent @ stream_bytes (pc_network c) qs)" "pc_network c2 = pc_network c" by auto
  with c1(1) assms(2) show ?thesis by (subst session_loop.simps) auto
qed

lemma sendable_replies: "benign p \<Longrightarrow> list_all sendable (session_replies [p])"
  by (cases p) (simp_all add: sendable_def MAX_MESSAGE_def)

lemma session_loop_benign:
  assumes "flows c (ps @ qs) sent" "list_all benign ps" "hs_state s \<noteq> SyncClosed" "\<And>q. arm s (ActSend q) = Reply q"
  shows "\<exists>c'. session_loop arm s c = session_loop arm s c' \<and>
    flows c' qs (sent @ stream_bytes (pc_network c) (session_replies ps)) \<and> pc_network c' = pc_network c"
  using assms(1,2)
proof (induction ps arbitrary: c sent)
  case (Cons p ps)
  then have b: "benign p" by simp
  have "flows c (p # ps @ qs) sent" using Cons.prems(1) by simp
  from session_loop_turn [where arm = arm, OF this on_packet_benign [OF b assms(3)] sendable_replies [OF b] assms(4)] obtain c1 where
    c1: "session_loop arm s c = session_loop arm s c1"
      "flows c1 (ps @ qs) (sent @ stream_bytes (pc_network c) (session_replies [p]))" "pc_network c1 = pc_network c"
    by blast
  have "session_replies (p # ps) = session_replies [p] @ session_replies ps"
    using session_replies_append [of "[p]" ps] by simp
  with Cons.IH [OF c1(2)] Cons.prems(2) c1 show ?case by (simp add: stream_bytes_append)
qed auto

lemma handshake_arm_send: "handshake_arm s (ActSend q) = Reply q"
  and headers_arm_send: "headers_arm s (ActSend q) = Reply q"
  and proof_arm_send: "proof_arm s (ActSend q) = Reply q"
  by (simp_all add: handshake_arm_def headers_arm_def proof_arm_def)

text \<open>The two packets that complete a handshake, in either order.\<close>

definition handshake_pair :: "version_packet \<Rightarrow> packet \<Rightarrow> packet \<Rightarrow> bool" where
  "handshake_pair v x y \<longleftrightarrow> serves v \<and> (x = PktVersion v \<and> y = PktVerack \<or> x = PktVerack \<and> y = PktVersion v)"

definition shaken_session :: "version_packet \<Rightarrow> version_packet \<Rightarrow> header_sync_session" where
  "shaken_session lv v =
     \<lparr>hs_state = SyncReady, hs_local_version = lv, hs_remote_version = Some v, hs_ack_received = True\<rparr>"

lemma handshake_first:
  assumes "handshake_pair v x y"
  obtains s where "on_packet x (session_new lv) = (map ActSend (session_replies [x]), s)" "hs_state s \<noteq> SyncClosed"
    "on_packet y s = (map ActSend (session_replies [y]) @ [ActReady], shaken_session lv v)"
    "list_all sendable (session_replies [x])" "list_all sendable (session_replies [y])"
  using assms
  by (force simp: handshake_pair_def on_packet_def on_version_closed session_new_def shaken_session_def sendable_def)

lemma handshake_flows:
  assumes "flows c (a @ x # b @ y # later) sent" "list_all benign a" "list_all benign b" "handshake_pair v x y"
    and "sendable (PktVersion lv)"
  obtains c' where "handshake (session_new lv) c = (Inr v, shaken_session lv v, c')"
    "flows c' later (sent @ stream_bytes (pc_network c) (PktVersion lv # session_replies (a @ x # b @ [y])))"
    "pc_network c' = pc_network c"
proof -
  let ?N = "pc_network c" and ?s0 = "session_new lv"
  from send_packet_flows [OF assms(1,5)] obtain c0 where
    c0: "send_packet (PktVersion lv) c = (Inr (), c0)" "pc_network c0 = ?N"
      "flows c0 (a @ x # b @ y # later) (sent @ frame_bytes ?N (PktVersion lv))" .
  have open0: "hs_state ?s0 \<noteq> SyncClosed" by (simp add: session_new_def)
  from session_loop_benign [where arm = handshake_arm, OF c0(3) assms(2) open0 handshake_arm_send] c0(2)
  obtain c1 where c1: "session_loop handshake_arm ?s0 c0 = session_loop handshake_arm ?s0 c1" "pc_network c1 = ?N"
      "flows c1 (x # b @ y # later) ((sent @ frame_bytes ?N (PktVersion lv)) @ stream_bytes ?N (session_replies a))"
    by auto
  from handshake_first [OF assms(4)] obtain s where
    s: "on_packet x ?s0 = (map ActSend (session_replies [x]), s)" "hs_state s \<noteq> SyncClosed"
      "on_packet y s = (map ActSend (session_replies [y]) @ [ActReady], shaken_session lv v)"
      "list_all sendable (session_replies [x])" "list_all sendable (session_replies [y])" .
  from session_loop_turn [where arm = handshake_arm, OF c1(3) s(1) s(4) handshake_arm_send] c1(2) obtain c2 where
    c2: "session_loop handshake_arm ?s0 c1 = session_loop handshake_arm s c2" "pc_network c2 = ?N"
      "flows c2 (b @ y # later) (((sent @ frame_bytes ?N (PktVersion lv)) @ stream_bytes ?N (session_replies a)) @
         stream_bytes ?N (session_replies [x]))"
    by auto
  from session_loop_benign [where arm = handshake_arm, OF c2(3) assms(3) s(2) handshake_arm_send] c2(2) obtain c3 where
    c3: "session_loop handshake_arm s c2 = session_loop handshake_arm s c3" "pc_network c3 = ?N"
      "flows c3 (y # later) ((((sent @ frame_bytes ?N (PktVersion lv)) @ stream_bytes ?N (session_replies a)) @
         stream_bytes ?N (session_replies [x])) @ stream_bytes ?N (session_replies b))"
    by auto
  have ret: "handshake_arm (shaken_session lv v) ActReady = Return v"
    by (simp add: handshake_arm_def shaken_session_def)
  have rep: "session_replies (a @ x # b @ [y]) =
      session_replies a @ session_replies [x] @ session_replies b @ session_replies [y]"
    using session_replies_append [of a "[x] @ b @ [y]"] session_replies_append [of "[x]" "b @ [y]"]
      session_replies_append [of b "[y]"] by simp
  from session_loop_return [where arm = handshake_arm, OF c3(3) s(3) s(5) handshake_arm_send ret] c3(2) obtain c4 where
    c4: "session_loop handshake_arm s c3 = (Inr v, shaken_session lv v, c4)" "pc_network c4 = ?N"
      "flows c4 later (((((sent @ frame_bytes ?N (PktVersion lv)) @ stream_bytes ?N (session_replies a)) @
         stream_bytes ?N (session_replies [x])) @ stream_bytes ?N (session_replies b)) @ stream_bytes ?N (session_replies [y]))"
    by auto
  have "handshake ?s0 c = (Inr v, shaken_session lv v, c4)"
    using c0(1) c1(1) c2(1) c3(1) c4(1)
    by (simp add: handshake_def apply_action_def session_start_def session_new_def)
  moreover have "flows c4 later (sent @ stream_bytes ?N (PktVersion lv # session_replies (a @ x # b @ [y])))"
    using c4(3) by (simp add: rep stream_bytes_append)
  ultimately show thesis using that c4(2) by blast
qed

lemma request_headers_flows:
  assumes "flows c (a @ PktHeaders hs # later) sent" "list_all benign a" "hs_state s = SyncReady"
    and "sendable (PktGetHeaders \<lparr>lp_locator = locator, lp_stop = stop\<rparr>)"
  obtains c' where "request_headers locator stop s c = (Inr hs, s, c')"
    "flows c' later (sent @ stream_bytes (pc_network c)
       (PktGetHeaders \<lparr>lp_locator = locator, lp_stop = stop\<rparr> # session_replies a))"
    "pc_network c' = pc_network c"
proof -
  let ?N = "pc_network c" and ?q = "PktGetHeaders \<lparr>lp_locator = locator, lp_stop = stop\<rparr>"
  let ?s = "s\<lparr>hs_state := HeadersRequested\<rparr>"
  have l: "length locator \<le> MAX_INV" using assms(4) by (simp add: sendable_def MAX_INV_def)
  from send_packet_flows [OF assms(1,4)] obtain c0 where
    c0: "send_packet ?q c = (Inr (), c0)" "pc_network c0 = ?N"
      "flows c0 (a @ PktHeaders hs # later) (sent @ frame_bytes ?N ?q)" .
  have "hs_state ?s \<noteq> SyncClosed" by simp
  from session_loop_benign [where arm = headers_arm, OF c0(3) assms(2) this headers_arm_send] c0(2) obtain c1 where
    c1: "session_loop headers_arm ?s c0 = session_loop headers_arm ?s c1" "pc_network c1 = ?N"
      "flows c1 (PktHeaders hs # later) ((sent @ frame_bytes ?N ?q) @ stream_bytes ?N (session_replies a))"
    by auto
  have p: "on_packet (PktHeaders hs) ?s = (map ActSend [] @ [ActHeaders hs], s)"
    using assms(3) by (simp add: on_packet_def)
  have ret: "headers_arm s (ActHeaders hs) = Return hs" by (simp add: headers_arm_def)
  have nil: "list_all sendable []" by simp
  from session_loop_return [where arm = headers_arm, OF c1(3) p nil headers_arm_send ret] c1(2) obtain c2 where
    c2: "session_loop headers_arm ?s c1 = (Inr hs, s, c2)" "pc_network c2 = ?N"
      "flows c2 later ((sent @ frame_bytes ?N ?q) @ stream_bytes ?N (session_replies a))" by auto
  have "request_headers locator stop s c = (Inr hs, s, c2)"
    using c0(1) c1(1) c2(1) l assms(3)
    by (simp add: request_headers_def session_request_headers_def apply_action_def)
  with c2 that show thesis by simp
qed

section \<open>What a returned handshake means\<close>

lemma run_actions_returns:
  assumes "run_actions arm acts c = (Inr (Some x), c')"
  shows "\<exists>act\<in>set acts. arm act = Return x"
  using assms
  by (induction acts arbitrary: c) (auto split: arm.splits prod.splits sum.splits)

lemma session_loop_returns:
  assumes "session_loop arm s c = (Inr x, s', c')" "session_run s0 log s"
  shows "\<exists>log s1 p acts. session_run s0 log s1 \<and> on_packet p s1 = (acts, s') \<and> (\<exists>act\<in>set acts. arm s' act = Return x)"
  using assms
proof (induction arm s c arbitrary: log rule: session_loop.induct)
  case (1 arm s c)
  obtain r c1 where r: "receive_packet c = (r, c1)" by force
  then obtain p where p: "r = Inr p" using 1(2) by (cases r) (simp_all add: session_loop.simps)
  obtain acts s1 where a: "on_packet p s = (acts, s1)" by force
  obtain q c2 where q: "run_actions (arm s1) acts c1 = (q, c2)" by force
  have run: "session_run s0 (log @ acts) s1" using 1(3) a by (rule session_packet)
  consider (failed) e where "q = Inl e" | (again) "q = Inr None" | (returned) y where "q = Inr (Some y)"
    by (metis option.exhaust sum.exhaust_sel)
  then show ?case
  proof cases
    case again
    then have "session_loop arm s1 c2 = (Inr x, s', c')" using 1(2) r p a q by (simp add: session_loop.simps [of arm s c])
    from 1(1) [OF r [symmetric] p refl a [symmetric] q [symmetric] again refl this run] show ?thesis .
  next
    case (returned y)
    then have "y = x" "s1 = s'" using 1(2) r p a q by (simp_all add: session_loop.simps [of arm s c])
    with returned q run_actions_returns [of "arm s1" acts c1 x c2] a 1(3) show ?thesis by blast
  qed (use 1(2) r p a q in \<open>simp add: session_loop.simps [of arm s c]\<close>)
qed

lemma on_packet_ready: "on_packet p s = (acts, s') \<Longrightarrow> ActReady \<in> set acts \<Longrightarrow> hs_state s' = SyncReady"
  by (erule on_packet_cases) (auto dest: on_other_packet_log)

lemma handshake_returns:
  assumes "handshake (session_new lv) c = (Inr v, s, c')"
  shows "serves v \<and> hs_state s = SyncReady \<and> hs_remote_version s = Some v \<and> hs_ack_received s"
proof -
  obtain c1 where "session_loop handshake_arm (session_new lv) c1 = (Inr v, s, c')"
    using assms by (auto simp: handshake_def split: prod.splits sum.splits)
  from session_loop_returns [OF this session_begin] obtain log s1 p acts act where
    run: "session_run (session_new lv) log s1" "on_packet p s1 = (acts, s)" "act \<in> set acts" "handshake_arm s act = Return v"
    by blast
  then have act: "act = ActReady" "hs_remote_version s = Some v"
    by (auto simp: handshake_arm_def split: header_sync_action.splits option.splits)
  from on_packet_ready [OF run(2)] run(3) act have ready: "hs_state s = SyncReady" by simp
  from session_run_inv [OF session_packet [OF run(1,2)]] ready act show ?thesis
    by (simp add: session_inv_def shaken_def)
qed

section \<open>Properties\<close>

text \<open>The session asks for headers or proofs, delivers them or declares itself ready only when the peer's version
  with the network service and its acknowledgement have arrived; it declares itself ready once; and every headers or
  proof packet it delivers answers one request it sent, at most one of which is outstanding.\<close>

theorem session_safety:
  assumes "session_run (session_new lv) log s"
  shows "(list_ex privileged log \<longrightarrow> hs_ack_received s \<and> (\<exists>v. hs_remote_version s = Some v \<and> serves v)) \<and>
    length (filter (\<lambda>a. a = ActReady) log) \<le> 1 \<and>
    length (filter asks_headers log) = length (filter delivers_headers log) + of_bool (hs_state s = HeadersRequested) \<and>
    length (filter asks_proof log) = length (filter delivers_proof log) + of_bool (hs_state s = ProofRequested)"
  using session_run_inv [OF assms]
  by (cases "hs_state s") (simp_all add: session_inv_def shaken_def list_all_iff list_ex_iff)

text \<open>A handshake that returns a version has seen a peer with the network service and its acknowledgement, on any
  transport whatever its errors, and leaves the session ready.\<close>

theorem handshake_sound:
  assumes "handshake (session_new lv) c = (Inr v, s, c')"
  shows "1 \<le> vp_version v \<and> vp_services v AND SERVICE_NETWORK \<noteq> 0 \<and> hs_state s = SyncReady \<and>
    hs_remote_version s = Some v \<and> hs_ack_received s"
  using handshake_returns [OF assms] unfolding serves_def not_less by blast

text \<open>C36.  Liveness: when the transport carries the peer's version and acknowledgement, in either order, with any number
  of packets in between and before that a session may skip or must answer, then headers, cut into reads in any way, the
  handshake returns the peer's version, the following request returns the headers, and what was written is exactly the
  local version, one acknowledgement, a pong for each ping, and the request.\<close>

theorem sync_round_completes:
  assumes "handshake_pair v x y" "list_all benign (a @ b @ d)"
    and "list_all fits_reads (a @ x # b @ y # d @ [PktHeaders hs])"
    and "tr_reads t = map Inr chunks" "[] \<notin> set chunks"
    and "concat chunks = stream_bytes N (a @ x # b @ y # d @ [PktHeaders hs])"
    and "\<forall>w\<in>set (tr_writes t). w = Inr ()"
    and "sendable (PktVersion lv)" "sendable (PktGetHeaders \<lparr>lp_locator = locator, lp_stop = stop\<rparr>)"
  shows "\<exists>s c c'. handshake (session_new lv) (connection_new t N) = (Inr v, s, c) \<and>
    request_headers locator stop s c = (Inr hs, s, c') \<and>
    tr_sent (pc_transport c') = tr_sent t @ stream_bytes N
      (PktVersion lv # session_replies (a @ x # b @ [y]) @
       PktGetHeaders \<lparr>lp_locator = locator, lp_stop = stop\<rparr> # session_replies d)"
proof -
  let ?c0 = "connection_new t N" and ?q = "PktGetHeaders \<lparr>lp_locator = locator, lp_stop = stop\<rparr>"
  have benign: "list_all benign a" "list_all benign b" "list_all benign d" using assms(2) by simp_all
  have "flows ?c0 (a @ x # b @ y # d @ [PktHeaders hs]) (tr_sent t)"
    using delivers_new [OF assms(3-6)] assms(7) by (simp add: flows_def connection_new_def)
  from handshake_flows [OF this benign(1,2) assms(1,8)] obtain c where
    c: "handshake (session_new lv) ?c0 = (Inr v, shaken_session lv v, c)" "pc_network c = N"
      "flows c (d @ [PktHeaders hs]) (tr_sent t @ stream_bytes N (PktVersion lv # session_replies (a @ x # b @ [y])))"
    by (auto simp: connection_new_def)
  have "hs_state (shaken_session lv v) = SyncReady" by (simp add: shaken_session_def)
  from request_headers_flows [OF c(3) benign(3) this assms(9)] obtain c' where
    c': "request_headers locator stop (shaken_session lv v) c = (Inr hs, shaken_session lv v, c')"
      "flows c' [] ((tr_sent t @ stream_bytes N (PktVersion lv # session_replies (a @ x # b @ [y]))) @
         stream_bytes N (?q # session_replies d))" using c(2) by auto
  from c' have "tr_sent (pc_transport c') = tr_sent t @ stream_bytes N
      (PktVersion lv # session_replies (a @ x # b @ [y]) @ ?q # session_replies d)"
    by (simp add: flows_def stream_bytes_append)
  with c c' show ?thesis by blast
qed

definition sample_version :: version_packet where
  "sample_version =
     \<lparr>vp_version = 3, vp_services = 1, vp_time = 0,
      vp_remote = \<lparr>na_time = 0, na_services = 1, na_address = V4 (0, 0, 0, 0), na_port = 0\<rparr>,
      vp_nonce = replicate 8 0, vp_agent = [], vp_height = 0, vp_no_relay = True\<rparr>"

definition sample_peer :: "packet list" where
  "sample_peer = [PktPing [1, 2, 3, 4, 5, 6, 7, 8], PktVerack, PktSendHeaders, PktVersion sample_version, PktHeaders []]"

definition sample_transport :: transport where
  "sample_transport = \<lparr>tr_reads = map Inr [take 5 (stream_bytes mainnet sample_peer), drop 5 (stream_bytes mainnet sample_peer)],
     tr_writes = [], tr_sent = []\<rparr>"

lemma sample_stream:
  "concat [take 5 (stream_bytes mainnet sample_peer), drop 5 (stream_bytes mainnet sample_peer)] = stream_bytes mainnet sample_peer"
  "[] \<notin> set [take 5 (stream_bytes mainnet sample_peer), drop 5 (stream_bytes mainnet sample_peer)]"
  "sample_peer = [PktPing [1, 2, 3, 4, 5, 6, 7, 8]] @ PktVerack # [PktSendHeaders] @ PktVersion sample_version # [] @ [PktHeaders []]"
  "length (varint_bytes 0) \<le> 9"
  by (simp_all add: sample_peer_def frame_bytes_def varint_bytes_def write_varint_def)

theorem session_safety_witness:
  "(list_ex privileged [ActSend PktVerack] \<longrightarrow>
      hs_ack_received (session_new sample_version\<lparr>hs_remote_version := Some sample_version, hs_state := AwaitingVerack\<rparr>) \<and>
      (\<exists>v. hs_remote_version (session_new sample_version\<lparr>hs_remote_version := Some sample_version, hs_state := AwaitingVerack\<rparr>) = Some v \<and> serves v)) \<and>
    length (filter (\<lambda>a. a = ActReady) [ActSend PktVerack]) \<le> 1 \<and>
    length (filter asks_headers [ActSend PktVerack]) = length (filter delivers_headers [ActSend PktVerack]) +
      of_bool (hs_state (session_new sample_version\<lparr>hs_remote_version := Some sample_version, hs_state := AwaitingVerack\<rparr>) = HeadersRequested) \<and>
    length (filter asks_proof [ActSend PktVerack]) = length (filter delivers_proof [ActSend PktVerack]) +
      of_bool (hs_state (session_new sample_version\<lparr>hs_remote_version := Some sample_version, hs_state := AwaitingVerack\<rparr>) = ProofRequested)"
proof (rule session_safety)
  have "on_packet (PktVersion sample_version) (session_new sample_version) =
      ([ActSend PktVerack], session_new sample_version\<lparr>hs_remote_version := Some sample_version, hs_state := AwaitingVerack\<rparr>)"
    by (simp add: on_packet_def session_new_def on_version_def sample_version_def SERVICE_NETWORK_def Let_def)
  from session_packet [OF session_begin this]
  show "session_run (session_new sample_version) [ActSend PktVerack]
      (session_new sample_version\<lparr>hs_remote_version := Some sample_version, hs_state := AwaitingVerack\<rparr>)" by simp
qed

lemma sample_version_facts:
  "sendable (PktVersion sample_version)" "serves sample_version" "length (version_bytes sample_version) \<le> 1000"
  by (simp_all add: sample_version_def sendable_def serves_def wf_version_def version_bytes_def net_address_bytes_def
      MAX_MESSAGE_def SERVICE_NETWORK_def)

theorem sync_round_completes_witness:
  "\<exists>s c c'. handshake (session_new sample_version) (connection_new sample_transport mainnet) = (Inr sample_version, s, c) \<and>
    request_headers [] (replicate 32 0) s c = (Inr [], s, c') \<and>
    tr_sent (pc_transport c') = tr_sent sample_transport @ stream_bytes mainnet
      (PktVersion sample_version # session_replies ([PktPing [1, 2, 3, 4, 5, 6, 7, 8]] @ PktVerack # [PktSendHeaders] @ [PktVersion sample_version]) @
       PktGetHeaders \<lparr>lp_locator = [], lp_stop = replicate 32 0\<rparr> # session_replies [])"
proof (rule sync_round_completes [where d = "[]"])
  show "concat [take 5 (stream_bytes mainnet sample_peer), drop 5 (stream_bytes mainnet sample_peer)] =
      stream_bytes mainnet ([PktPing [1, 2, 3, 4, 5, 6, 7, 8]] @ PktVerack # [PktSendHeaders] @ PktVersion sample_version # [] @ [PktHeaders []])"
    unfolding sample_stream(3) [symmetric] by (rule sample_stream(1))
  show "[] \<notin> set [take 5 (stream_bytes mainnet sample_peer), drop 5 (stream_bytes mainnet sample_peer)]"
    by (rule sample_stream(2))
  show "list_all fits_reads ([PktPing [1, 2, 3, 4, 5, 6, 7, 8]] @ PktVerack # [PktSendHeaders] @ PktVersion sample_version # [] @ [PktHeaders []])"
    using sample_version_facts sample_stream(4) by (simp add: fits_reads_def sendable_def MAX_MESSAGE_def PACKET_READ_SIZE_def)
qed (use sample_version_facts sample_stream(4) in \<open>simp_all add: handshake_pair_def sample_transport_def sendable_def MAX_MESSAGE_def\<close>)

theorem handshake_sound_witness:
  "1 \<le> vp_version sample_version \<and> vp_services sample_version AND SERVICE_NETWORK \<noteq> 0 \<and>
    hs_state (shaken_session sample_version sample_version) = SyncReady \<and>
    hs_remote_version (shaken_session sample_version sample_version) = Some sample_version \<and>
    hs_ack_received (shaken_session sample_version sample_version)"
proof -
  have "delivers (connection_new sample_transport mainnet) sample_peer"
  proof (rule delivers_new)
    show "list_all fits_reads sample_peer"
      using sample_version_facts sample_stream(4)
      by (simp add: sample_peer_def fits_reads_def sendable_def MAX_MESSAGE_def PACKET_READ_SIZE_def)
    show "[] \<notin> set [take 5 (stream_bytes mainnet sample_peer), drop 5 (stream_bytes mainnet sample_peer)]"
      by (rule sample_stream(2))
  qed (simp_all add: sample_transport_def)
  then have "flows (connection_new sample_transport mainnet)
      ([PktPing [1, 2, 3, 4, 5, 6, 7, 8]] @ PktVerack # [PktSendHeaders] @ PktVersion sample_version # [PktHeaders []]) []"
    by (simp add: flows_def connection_new_def sample_transport_def sample_peer_def)
  from handshake_flows [OF this _ _ _ sample_version_facts(1), of sample_version] sample_version_facts obtain c where
    "handshake (session_new sample_version) (connection_new sample_transport mainnet) =
      (Inr sample_version, shaken_session sample_version sample_version, c)"
    by (auto simp: handshake_pair_def)
  then show ?thesis by (rule handshake_sound)
qed

end
