(* ===== verification/Peer_Manager.thy ===== *)
theory Peer_Manager
  imports P2p_Wire "HOL-Library.AList" "HOL-Library.List_Lexorder" "HOL-Library.Multiset"
begin

text \<open>
  The peer book of \<open>hns-p2p/src/lib.rs\<close>: \<open>PeerState\<close>, \<open>PeerManager\<close> with its scores, bans and outbound selection,
  the peer sources and the endpoint filter. The \<open>HashMap\<close> of the manager is an association list: its order stands
  for the map's iteration order, and the selection is proved not to depend on it. Scores are integers with the
  saturation of \<open>i32\<close> written out; a socket address is an IP address and a port.
\<close>

section \<open>Definitions\<close>

type_synonym socket_addr = "ip_addr \<times> u16"

definition BAN_SCORE :: int where "BAN_SCORE = 100"
definition MALFORMED_SCORE :: int where "MALFORMED_SCORE = 100"
definition STALE_TIP_SCORE :: int where "STALE_TIP_SCORE = 10"
definition TRANSIENT_FAILURE_SCORE :: int where "TRANSIENT_FAILURE_SCORE = 5"
definition SUCCESS_REWARD :: int where "SUCCESS_REWARD = 2"
definition DEFAULT_DNS_SEED_LIMIT :: nat where "DEFAULT_DNS_SEED_LIMIT = 64"

lemmas peer_scores = BAN_SCORE_def MALFORMED_SCORE_def STALE_TIP_SCORE_def TRANSIENT_FAILURE_SCORE_def SUCCESS_REWARD_def

text \<open>Saturating arithmetic of \<open>i32\<close>, \<open>u32\<close> and \<open>u64\<close>.\<close>

definition sat_i32 :: "int \<Rightarrow> int" where
  "sat_i32 x = max (- (2 ^ 31)) (min x (2 ^ 31 - 1))"

definition succ_u32 :: "u32 \<Rightarrow> u32" where
  "succ_u32 n = (if n = - 1 then n else n + 1)"

definition add_u64 :: "u64 \<Rightarrow> u64 \<Rightarrow> u64" where
  "add_u64 a b = (if unat a + unat b < 2 ^ 64 then a + b else - 1)"

record peer_state =
  ps_address :: socket_addr
  ps_score :: int
  ps_last_height :: u32
  ps_last_connected_at :: "u64 option"
  ps_banned_until :: "u64 option"
  ps_successes :: u32
  ps_failures :: u32

definition peer_state_new :: "socket_addr \<Rightarrow> peer_state" where
  "peer_state_new a =
     \<lparr>ps_address = a, ps_score = 0, ps_last_height = 0, ps_last_connected_at = None, ps_banned_until = None,
      ps_successes = 0, ps_failures = 0\<rparr>"

definition is_banned :: "u64 \<Rightarrow> peer_state \<Rightarrow> bool" where
  "is_banned now p = (case ps_banned_until p of None \<Rightarrow> False | Some until \<Rightarrow> until > now)"

datatype peer_address_group = GroupV4 u8 u8 | GroupV6 bytes

fun group_of_socket :: "socket_addr \<Rightarrow> peer_address_group" where
  "group_of_socket (V4 (a, b, c, d), port) = GroupV4 a b"
| "group_of_socket (V6 s, port) = GroupV6 (take 4 (ipv6_octets s))"

type_synonym peer_manager = "(socket_addr \<times> peer_state) list"

definition from_states :: "peer_state list \<Rightarrow> peer_manager" where
  "from_states states = fold (\<lambda>st m. AList.update (ps_address st) st m) states []"

text \<open>\<open>upsert\<close> returns the entry it finds or creates; a caller that changes the entry writes it back.\<close>

definition peer_entry :: "socket_addr \<Rightarrow> peer_manager \<Rightarrow> peer_state" where
  "peer_entry a m = (case map_of m a of Some p \<Rightarrow> p | None \<Rightarrow> peer_state_new a)"

definition upsert :: "(peer_state \<Rightarrow> peer_state) \<Rightarrow> socket_addr \<Rightarrow> peer_manager \<Rightarrow> peer_manager" where
  "upsert change a m = AList.update a (change (peer_entry a m)) m"

definition seed :: "socket_addr list \<Rightarrow> peer_manager \<Rightarrow> nat \<times> peer_manager" where
  "seed addresses m =
     fold (\<lambda>a (inserted, m).
       (if map_of m a = None then min (inserted + 1) (usize_limit - 1) else inserted, upsert (\<lambda>p. p) a m)) addresses (0, m)"

definition record_success :: "socket_addr \<Rightarrow> u32 \<Rightarrow> u64 \<Rightarrow> peer_manager \<Rightarrow> peer_manager" where
  "record_success a height now m =
     upsert (\<lambda>p. p\<lparr>ps_score := max (sat_i32 (ps_score p - SUCCESS_REWARD)) 0, ps_last_height := height,
       ps_last_connected_at := Some now, ps_successes := succ_u32 (ps_successes p)\<rparr>) a m"

definition record_observed_height :: "socket_addr \<Rightarrow> u32 \<Rightarrow> u64 \<Rightarrow> peer_manager \<Rightarrow> peer_manager" where
  "record_observed_height a height now m =
     upsert (\<lambda>p. p\<lparr>ps_last_height := height, ps_last_connected_at := Some now\<rparr>) a m"

definition record_connection :: "socket_addr \<Rightarrow> u64 \<Rightarrow> peer_manager \<Rightarrow> peer_manager" where
  "record_connection a now m = upsert (\<lambda>p. p\<lparr>ps_last_connected_at := Some now\<rparr>) a m"

definition record_transport_success :: "socket_addr \<Rightarrow> u64 \<Rightarrow> peer_manager \<Rightarrow> peer_manager" where
  "record_transport_success a now m =
     upsert (\<lambda>p. p\<lparr>ps_score := max (sat_i32 (ps_score p - SUCCESS_REWARD)) 0, ps_last_connected_at := Some now,
       ps_successes := succ_u32 (ps_successes p)\<rparr>) a m"

definition record_transient_failure :: "socket_addr \<Rightarrow> peer_manager \<Rightarrow> peer_manager" where
  "record_transient_failure a m =
     upsert (\<lambda>p. p\<lparr>ps_score := sat_i32 (ps_score p + TRANSIENT_FAILURE_SCORE), ps_failures := succ_u32 (ps_failures p)\<rparr>) a m"

definition penalize :: "socket_addr \<Rightarrow> int \<Rightarrow> u64 option \<Rightarrow> peer_manager \<Rightarrow> peer_manager" where
  "penalize a score banned_until m =
     upsert (\<lambda>p. let p = p\<lparr>ps_score := sat_i32 (ps_score p + score)\<rparr> in
       if ps_score p \<ge> BAN_SCORE \<and> banned_until \<noteq> None then p\<lparr>ps_banned_until := banned_until\<rparr> else p) a m"

definition record_stale_tip :: "socket_addr \<Rightarrow> peer_manager \<Rightarrow> peer_manager" where
  "record_stale_tip a m = penalize a STALE_TIP_SCORE None m"

definition record_malformed :: "socket_addr \<Rightarrow> u64 \<Rightarrow> u64 \<Rightarrow> peer_manager \<Rightarrow> peer_manager" where
  "record_malformed a now ban_seconds m = penalize a MALFORMED_SCORE (Some (add_u64 now ban_seconds)) m"

definition retain :: "(peer_state \<Rightarrow> bool) \<Rightarrow> peer_manager \<Rightarrow> nat \<times> peer_manager" where
  "retain keep m = (let kept = filter (\<lambda>(_, p). keep p) m in (length m - length kept, kept))"

definition address_group_count :: "u64 \<Rightarrow> peer_manager \<Rightarrow> nat" where
  "address_group_count now m =
     length (remdups (map (\<lambda>p. group_of_socket (ps_address p)) (filter (\<lambda>p. \<not> is_banned now p) (map snd m))))"

subsection \<open>Outbound selection\<close>

text \<open>The order of socket addresses: version 4 first, then the address, then the port.\<close>

fun socket_key :: "socket_addr \<Rightarrow> int list" where
  "socket_key (V4 (a, b, c, d), port) = [0, uint a, uint b, uint c, uint d, uint port]"
| "socket_key (V6 s, port) = 1 # map uint s @ [uint port]"

definition outbound_key :: "peer_state \<Rightarrow> int list" where
  "outbound_key p = [ps_score p, - uint (ps_last_height p)] @ socket_key (ps_address p)"

definition discovery_key :: "peer_state \<Rightarrow> int list" where
  "discovery_key p =
     [uint (ps_successes p), ps_score p, (case ps_last_connected_at p of None \<Rightarrow> - 1 | Some t \<Rightarrow> uint t),
      - uint (ps_last_height p)] @ socket_key (ps_address p)"

text \<open>The first loop takes one peer per address group; the flag tells that it returned.\<close>

fun pick_groups ::
  "nat \<Rightarrow> peer_state list \<Rightarrow> socket_addr list \<Rightarrow> peer_address_group list \<Rightarrow> socket_addr list \<times> bool"
where
  "pick_groups preferred [] selected groups = (selected, False)"
| "pick_groups preferred (p # ps) selected groups =
     (if length selected \<ge> preferred then (selected, True) else
      let group = group_of_socket (ps_address p) in
      if group \<in> set groups then pick_groups preferred ps selected groups
      else pick_groups preferred ps (selected @ [ps_address p]) (group # groups))"

fun pick_rest :: "nat \<Rightarrow> peer_state list \<Rightarrow> socket_addr list \<Rightarrow> socket_addr list" where
  "pick_rest preferred [] selected = selected"
| "pick_rest preferred (p # ps) selected =
     (if length selected \<ge> preferred then selected
      else if ps_address p \<in> set selected then pick_rest preferred ps selected
      else pick_rest preferred ps (selected @ [ps_address p]))"

definition pick_peers :: "nat \<Rightarrow> peer_state list \<Rightarrow> socket_addr list" where
  "pick_peers preferred ps =
     (case pick_groups preferred ps [] [] of
        (selected, True) \<Rightarrow> selected
      | (selected, False) \<Rightarrow> pick_rest preferred ps selected)"

definition select_outbound :: "nat \<Rightarrow> u64 \<Rightarrow> peer_manager \<Rightarrow> socket_addr list" where
  "select_outbound preferred now m =
     pick_peers preferred (sort_key outbound_key (filter (\<lambda>p. \<not> is_banned now p) (map snd m)))"

definition select_discovery_outbound ::
  "nat \<Rightarrow> u64 \<Rightarrow> socket_addr set \<Rightarrow> peer_manager \<Rightarrow> socket_addr list"
where
  "select_discovery_outbound preferred now exclude m =
     pick_peers preferred
       (sort_key discovery_key (filter (\<lambda>p. \<not> is_banned now p \<and> ps_address p \<notin> exclude) (map snd m)))"

subsection \<open>Peer sources and the endpoint filter\<close>

definition is_allowed_peer_endpoint :: "network \<Rightarrow> socket_addr \<Rightarrow> bool" where
  "is_allowed_peer_endpoint network address =
     (if snd address = 0 \<or> (case fst address of V4 a \<Rightarrow> a = (0, 0, 0, 0) | V6 s \<Rightarrow> s = replicate 8 0) then False
      else if net_name network = ascii ''mainnet'' \<or> net_name network = ascii ''testnet''
        then snd address = net_port network \<and> is_publicly_routable (fst address)
      else net_name network = ascii ''regtest'')"

definition static_source_new :: "socket_addr list \<Rightarrow> socket_addr list" where
  "static_source_new peers = fold (\<lambda>p unique. if p \<in> set unique then unique else unique @ [p]) peers []"

record dns_seed_source =
  ds_seeds :: "rust_str list"
  ds_port :: u16
  ds_limit :: nat

definition dedupe_seed_names :: "rust_str list \<Rightarrow> rust_str list" where
  "dedupe_seed_names seeds = fold (\<lambda>s unique. if s \<noteq> [] \<and> s \<notin> set unique then unique @ [s] else unique) seeds []"

definition dns_seed_source_new :: "rust_str list \<Rightarrow> u16 \<Rightarrow> dns_seed_source" where
  "dns_seed_source_new seeds port =
     \<lparr>ds_seeds = dedupe_seed_names seeds, ds_port = port, ds_limit = DEFAULT_DNS_SEED_LIMIT\<rparr>"

definition dns_seed_source_from_network :: "network \<Rightarrow> dns_seed_source" where
  "dns_seed_source_from_network network = dns_seed_source_new (net_dns_seeds network) (net_port network)"

fun push_unique_addresses :: "nat \<Rightarrow> socket_addr list \<Rightarrow> socket_addr list \<Rightarrow> socket_addr list" where
  "push_unique_addresses limit [] peers = peers"
| "push_unique_addresses limit (a # addresses) peers =
     (if length peers \<ge> limit then peers
      else if a \<in> set peers then push_unique_addresses limit addresses peers
      else push_unique_addresses limit addresses (peers @ [a]))"

text \<open>\<open>discover\<close> of the DNS seeds. The system resolver \<open>to_socket_addrs\<close> is the parameter \<open>resolve\<close>.\<close>

fun discover_loop ::
  "(rust_str \<Rightarrow> u16 \<Rightarrow> io_kind + socket_addr list) \<Rightarrow> u16 \<Rightarrow> nat \<Rightarrow> rust_str list \<Rightarrow> socket_addr list \<Rightarrow> io_kind option \<Rightarrow>
   p2p_error + socket_addr list"
where
  "discover_loop resolve port limit [] peers last_error =
     (case last_error of
        Some kind \<Rightarrow> if peers = [] then Inl (PeerIo kind) else Inr peers
      | None \<Rightarrow> Inr peers)"
| "discover_loop resolve port limit (name # seeds) peers last_error =
     (case resolve name port of
        Inr addresses \<Rightarrow>
          (let peers = push_unique_addresses limit addresses peers in
           if length peers \<ge> limit then Inr peers else discover_loop resolve port limit seeds peers last_error)
      | Inl kind \<Rightarrow> discover_loop resolve port limit seeds peers (Some kind))"

definition dns_seed_discover ::
  "(rust_str \<Rightarrow> u16 \<Rightarrow> io_kind + socket_addr list) \<Rightarrow> dns_seed_source \<Rightarrow> p2p_error + socket_addr list"
where
  "dns_seed_discover resolve source =
     (if ds_limit source = 0 \<or> ds_seeds source = [] then Inr []
      else discover_loop resolve (ds_port source) (ds_limit source) (ds_seeds source) [] None)"

definition seed_from :: "(p2p_error + socket_addr list) \<Rightarrow> peer_manager \<Rightarrow> (p2p_error + nat) \<times> peer_manager" where
  "seed_from discovered m =
     (case discovered of Inl e \<Rightarrow> (Inl e, m) | Inr peers \<Rightarrow> (case seed peers m of (n, m) \<Rightarrow> (Inr n, m)))"

section \<open>Selection\<close>

text \<open>The first peer of each address group not seen before.\<close>

fun reps :: "peer_state list \<Rightarrow> peer_address_group list \<Rightarrow> socket_addr list" where
  "reps [] gs = []"
| "reps (p # ps) gs =
     (let g = group_of_socket (ps_address p) in if g \<in> set gs then reps ps gs else ps_address p # reps ps (g # gs))"

lemma pick_groups_reps: "fst (pick_groups n ps sel gs) = sel @ take (n - length sel) (reps ps gs)"
  by (induction n ps sel gs rule: pick_groups.induct) (auto simp: Let_def take_Cons' Suc_diff_Suc)

lemma pick_groups_full: "snd (pick_groups n ps sel gs) \<Longrightarrow> n \<le> length (fst (pick_groups n ps sel gs))"
  by (induction n ps sel gs rule: pick_groups.induct) (auto simp: Let_def split: if_splits)

lemma pick_rest_full: "n \<le> length sel \<Longrightarrow> pick_rest n ps sel = sel"
  by (cases ps) simp_all

lemma pick_rest_filter:
  assumes "distinct (map ps_address ps)"
  shows "pick_rest n ps sel = sel @ take (n - length sel) (filter (\<lambda>a. a \<notin> set sel) (map ps_address ps))"
  using assms
proof (induction ps arbitrary: sel)
  case (Cons p ps)
  have "filter (\<lambda>a. a \<noteq> ps_address p \<and> a \<notin> set sel) (map ps_address ps) = filter (\<lambda>a. a \<notin> set sel) (map ps_address ps)"
    using Cons.prems by (intro filter_cong) auto
  with Cons show ?case by (auto simp: take_Cons')
qed simp

lemma pick_peers_eq:
  assumes "distinct (map ps_address ps)"
  shows "pick_peers n ps = take n (reps ps []) @
    take (n - length (reps ps [])) (filter (\<lambda>a. a \<notin> set (take n (reps ps []))) (map ps_address ps))"
proof -
  obtain sel full where s: "pick_groups n ps [] [] = (sel, full)" by force
  then have sel: "sel = take n (reps ps [])" using pick_groups_reps [of n ps "[]" "[]"] by simp
  have "pick_peers n ps = pick_rest n ps sel"
    using s pick_groups_full [of n ps "[]" "[]"] by (auto simp: pick_peers_def pick_rest_full split: bool.splits)
  with pick_rest_filter [OF assms, of n sel] sel show ?thesis by (simp add: min_def)
qed

lemma set_reps: "set (reps ps gs) \<subseteq> ps_address ` set ps"
  by (induction ps gs rule: reps.induct) (auto simp: Let_def)

lemma reps_groups:
  "set (map group_of_socket (reps ps gs)) = (\<lambda>p. group_of_socket (ps_address p)) ` set ps - set gs \<and>
   distinct (map group_of_socket (reps ps gs))"
  by (induction ps gs rule: reps.induct) (auto simp: Let_def)

lemma hd_reps: "ps \<noteq> [] \<Longrightarrow> reps ps [] \<noteq> [] \<and> hd (reps ps []) = ps_address (hd ps)"
  by (cases ps) (simp_all add: Let_def)

lemma pick_peers_spec:
  assumes d: "distinct (map ps_address ps)"
  shows "distinct (pick_peers n ps)" "set (pick_peers n ps) \<subseteq> ps_address ` set ps"
    "length (pick_peers n ps) = min n (length ps)"
    "card (group_of_socket ` set (pick_peers n ps)) = min n (card ((\<lambda>p. group_of_socket (ps_address p)) ` set ps))"
    "pick_peers n ps \<noteq> [] \<Longrightarrow> hd (pick_peers n ps) = ps_address (hd ps)"
proof -
  let ?r = "reps ps []" and ?as = "map ps_address ps"
  have g: "set (map group_of_socket ?r) = (\<lambda>p. group_of_socket (ps_address p)) ` set ps" "distinct (map group_of_socket ?r)"
    using reps_groups [of ps "[]"] by auto
  then have dr: "distinct ?r" by (simp add: distinct_map)
  have sub: "set ?r \<subseteq> set ?as" using set_reps [of ps "[]"] by simp
  note eq = pick_peers_eq [OF d, of n]
  show "distinct (pick_peers n ps)" "set (pick_peers n ps) \<subseteq> ps_address ` set ps"
    unfolding eq using d dr sub by (auto dest: in_set_takeD)
  have c: "length (filter (\<lambda>a. a \<notin> set (take n ?r)) ?as) = length ps - length (take n ?r)"
  proof -
    have "length (filter (\<lambda>a. a \<notin> set (take n ?r)) ?as) = card (set ?as - set (take n ?r))"
      using distinct_card [OF distinct_filter [OF d]] by (simp add: set_diff_eq)
    also have "\<dots> = length ps - length (take n ?r)"
      using d dr sub by (subst card_Diff_subset) (auto simp: distinct_card card_image distinct_map dest: in_set_takeD)
    finally show ?thesis .
  qed
  have len: "length ?r \<le> length ps"
    using dr sub d by (metis card_mono distinct_card finite_set length_map)
  show "length (pick_peers n ps) = min n (length ps)"
    unfolding eq using c len by auto
  have cr: "card ((\<lambda>p. group_of_socket (ps_address p)) ` set ps) = length ?r"
    using g by (metis distinct_card length_map)
  show "card (group_of_socket ` set (pick_peers n ps)) = min n (card ((\<lambda>p. group_of_socket (ps_address p)) ` set ps))"
  proof (cases "n \<le> length ?r")
    case True
    then have "pick_peers n ps = take n ?r" by (simp add: eq)
    moreover have "distinct (map group_of_socket (take n ?r))" using g(2) by (simp add: take_map [symmetric])
    ultimately show ?thesis using True cr by (metis distinct_card length_map length_take min.absorb2 min.commute set_map)
  next
    case False
    have "group_of_socket ` set (pick_peers n ps) = (\<lambda>p. group_of_socket (ps_address p)) ` set ps"
    proof
      show "group_of_socket ` set (pick_peers n ps) \<subseteq> (\<lambda>p. group_of_socket (ps_address p)) ` set ps"
        using \<open>set (pick_peers n ps) \<subseteq> ps_address ` set ps\<close> by auto
      have "set ?r \<subseteq> set (pick_peers n ps)" using False by (auto simp: eq)
      then show "(\<lambda>p. group_of_socket (ps_address p)) ` set ps \<subseteq> group_of_socket ` set (pick_peers n ps)"
        unfolding g(1) [symmetric] by auto
    qed
    with False cr show ?thesis by simp
  qed
  show "hd (pick_peers n ps) = ps_address (hd ps)" if "pick_peers n ps \<noteq> []"
  proof -
    have "ps \<noteq> []" using that by (auto simp: pick_peers_def)
    moreover have "n \<noteq> 0" using that by (auto simp: eq)
    ultimately show ?thesis using hd_reps [of ps] by (simp add: eq hd_append)
  qed
qed

section \<open>The book\<close>

definition peers_ok :: "peer_manager \<Rightarrow> bool" where
  "peers_ok m \<longleftrightarrow> distinct (map fst m) \<and> (\<forall>(a, p)\<in>set m. ps_address p = a \<and> ps_score p \<in> {- (2 ^ 31)..<2 ^ 31})"

lemma peers_ok_update:
  assumes "peers_ok m" "ps_address p = a" "ps_score p \<in> {- (2 ^ 31)..<2 ^ 31}"
  shows "peers_ok (AList.update a p m)"
proof -
  have "set (AList.update a p m) \<subseteq> insert (a, p) (set m)" by (induction m) auto
  with assms show ?thesis by (auto simp: peers_ok_def distinct_update)
qed

lemma peer_entry_ok:
  assumes "peers_ok m"
  shows "ps_address (peer_entry a m) = a" "ps_score (peer_entry a m) \<in> {- (2 ^ 31)..<2 ^ 31}"
  using assms by (auto simp: peers_ok_def peer_entry_def peer_state_new_def split: option.splits dest!: map_of_SomeD)

lemma sat_i32_range [simp]: "- 2147483648 \<le> sat_i32 x" "sat_i32 x < 2147483648" "sat_i32 x \<le> 2147483647"
  by (auto simp: sat_i32_def)

lemma upsert_ok:
  assumes "peers_ok m" "\<And>p. ps_score p \<in> {- (2 ^ 31)..<2 ^ 31} \<Longrightarrow> ps_address (change p) = ps_address p \<and> ps_score (change p) \<in> {- (2 ^ 31)..<2 ^ 31}"
  shows "peers_ok (upsert change a m)"
  unfolding upsert_def using assms peer_entry_ok [OF assms(1), of a] by (intro peers_ok_update) auto

lemma peer_entry_upsert:
  "peer_entry b (upsert change a m) = (if b = a then change (peer_entry a m) else peer_entry b m)"
  by (simp add: upsert_def peer_entry_def update_conv')

lemma distinct_addresses: "peers_ok m \<Longrightarrow> map ps_address (map snd m) = map fst m"
  by (auto simp: peers_ok_def)

lemma socket_key_inj: "socket_key a = socket_key b \<Longrightarrow> a = b"
proof (cases a rule: socket_key.cases; cases b rule: socket_key.cases)
  fix s t and p q :: u16
  assume eq: "socket_key a = socket_key b" and ab: "a = (V6 s, p)" "b = (V6 t, q)"
  then have "map uint s = map uint t" "uint p = uint q" by simp_all
  moreover have "inj (uint :: u16 \<Rightarrow> int)" by (simp add: inj_def word_uint_eq_iff)
  ultimately show "a = b" using ab by (simp add: inj_map_eq_map word_uint_eq_iff)
qed (auto simp: word_uint_eq_iff)

text \<open>The peers a selection may use.\<close>

definition available :: "(peer_state \<Rightarrow> bool) \<Rightarrow> peer_manager \<Rightarrow> socket_addr set" where
  "available ok m = {a. \<exists>p. map_of m a = Some p \<and> ok p}"

lemma available_eq:
  assumes "peers_ok m"
  shows "available ok m = ps_address ` set (filter ok (map snd m))" "card (available ok m) = length (filter ok (map snd m))"
proof -
  have d: "distinct (map fst m)" and a: "(x, p) \<in> set m \<Longrightarrow> ps_address p = x" for x p
    using assms by (auto simp: peers_ok_def)
  show e: "available ok m = ps_address ` set (filter ok (map snd m))"
    using d a by (force simp: available_def)
  have "distinct (map ps_address (filter ok (map snd m)))"
    using assms distinct_addresses [OF assms] by (metis distinct_map_filter peers_ok_def)
  then show "card (available ok m) = length (filter ok (map snd m))"
    unfolding e by (metis distinct_card length_map set_map)
qed

lemma pick_sorted:
  assumes "peers_ok m" "ps = sort_key key (filter ok (map snd m))"
  shows "distinct (pick_peers n ps)" "set (pick_peers n ps) \<subseteq> available ok m"
    "length (pick_peers n ps) = min n (card (available ok m))"
    "card (group_of_socket ` set (pick_peers n ps)) = min n (card (group_of_socket ` available ok m))"
    "pick_peers n ps \<noteq> [] \<Longrightarrow> a \<in> available ok m \<Longrightarrow>
      key (peer_entry (hd (pick_peers n ps)) m) \<le> key (peer_entry a m)"
proof -
  have d0: "distinct (map ps_address (filter ok (map snd m)))"
    using assms(1) distinct_addresses [OF assms(1)] by (metis distinct_map_filter peers_ok_def)
  have ms: "mset (map ps_address ps) = mset (map ps_address (filter ok (map snd m)))"
    by (simp add: assms(2))
  then have d: "distinct (map ps_address ps)" using d0 by (metis mset_eq_imp_distinct_iff)
  have st: "set ps = set (filter ok (map snd m))" by (simp add: assms(2))
  note av = available_eq [OF assms(1), of ok]
  note spec = pick_peers_spec [OF d, of n]
  show "distinct (pick_peers n ps)" by (rule spec(1))
  show "set (pick_peers n ps) \<subseteq> available ok m" using spec(2) by (simp add: av(1) st)
  show "length (pick_peers n ps) = min n (card (available ok m))" using spec(3) by (simp add: av(2) assms(2))
  show "card (group_of_socket ` set (pick_peers n ps)) = min n (card (group_of_socket ` available ok m))"
    using spec(4) by (simp add: av(1) st image_image)
  show "key (peer_entry (hd (pick_peers n ps)) m) \<le> key (peer_entry a m)"
    if ne: "pick_peers n ps \<noteq> []" and a: "a \<in> available ok m"
  proof -
    have entry: "peer_entry (ps_address p) m = p" if "p \<in> set (map snd m)" for p
      using that assms(1) by (auto simp: peers_ok_def peer_entry_def)
    have "ps \<noteq> []" using ne by (auto simp: pick_peers_def)
    then obtain p ps' where ps: "ps = p # ps'" by (cases ps) auto
    have "sorted (map key ps)" by (simp add: assms(2))
    then have "\<forall>q\<in>set ps. key p \<le> key q" by (simp add: ps)
    moreover obtain q where "q \<in> set ps" "a = ps_address q" using a by (auto simp: av(1) st)
    moreover have "p \<in> set (map snd m)" "q \<in> set (map snd m)"
      using calculation(2) st ps by (auto dest: arg_cong [where f = "\<lambda>X. p \<in> X"])
    ultimately show ?thesis using spec(5) [OF ne] entry by (auto simp: ps)
  qed
qed

lemma pick_order_independent:
  assumes "peers_ok m" "mset m' = mset m" "\<And>p q. key p = key q \<Longrightarrow> ps_address p = ps_address q"
  shows "sort_key key (filter ok (map snd m')) = sort_key key (filter ok (map snd m))"
proof (rule sort_key_inj_key_eq)
  show "mset (filter ok (map snd m')) = mset (sort_key key (filter ok (map snd m)))"
    using assms(2) by (simp add: mset_filter mset_map)
  show "inj_on key (set (filter ok (map snd m')))"
  proof (rule inj_onI)
    fix p q
    assume pq: "p \<in> set (filter ok (map snd m'))" "q \<in> set (filter ok (map snd m'))" "key p = key q"
    have "set m' = set m" using assms(2) by (metis set_mset_mset)
    with pq obtain a b where ab: "(a, p) \<in> set m" "(b, q) \<in> set m" by auto
    have entry: "ps_address p = a" "ps_address q = b"
      using bspec [OF conjunct2 [OF assms(1) [unfolded peers_ok_def]] ab(1)]
        bspec [OF conjunct2 [OF assms(1) [unfolded peers_ok_def]] ab(2)] by simp_all
    with assms(3) [OF pq(3)] have "a = b" by simp
    with ab assms(1) show "p = q" by (auto simp: peers_ok_def dest: eq_key_imp_eq_value)
  qed
qed simp

lemma key_address:
  "outbound_key p = outbound_key q \<Longrightarrow> ps_address p = ps_address q"
  "discovery_key p = discovery_key q \<Longrightarrow> ps_address p = ps_address q"
  by (auto simp: outbound_key_def discovery_key_def dest: socket_key_inj)

section \<open>Histories\<close>

datatype peer_op =
    OpSeed "socket_addr list"
  | OpSuccess socket_addr u32 u64
  | OpObservedHeight socket_addr u32 u64
  | OpConnection socket_addr u64
  | OpTransportSuccess socket_addr u64
  | OpTransientFailure socket_addr
  | OpStaleTip socket_addr
  | OpMalformed socket_addr u64 u64

fun apply_peer_op :: "peer_op \<Rightarrow> peer_manager \<Rightarrow> peer_manager" where
  "apply_peer_op (OpSeed as) m = snd (seed as m)"
| "apply_peer_op (OpSuccess a h now) m = record_success a h now m"
| "apply_peer_op (OpObservedHeight a h now) m = record_observed_height a h now m"
| "apply_peer_op (OpConnection a now) m = record_connection a now m"
| "apply_peer_op (OpTransportSuccess a now) m = record_transport_success a now m"
| "apply_peer_op (OpTransientFailure a) m = record_transient_failure a m"
| "apply_peer_op (OpStaleTip a) m = record_stale_tip a m"
| "apply_peer_op (OpMalformed a now secs) m = record_malformed a now secs m"

text \<open>The time the last report of malformed data against a peer bans it until.\<close>

fun last_ban :: "socket_addr \<Rightarrow> peer_op \<Rightarrow> u64 option \<Rightarrow> u64 option" where
  "last_ban a (OpMalformed b now secs) until = (if a = b then Some (add_u64 now secs) else until)"
| "last_ban a _ until = until"

definition book_inv :: "(socket_addr \<Rightarrow> u64 option) \<Rightarrow> peer_manager \<Rightarrow> bool" where
  "book_inv bans m \<longleftrightarrow>
     peers_ok m \<and> (\<forall>a. 0 \<le> ps_score (peer_entry a m) \<and> ps_banned_until (peer_entry a m) = bans a)"

lemma book_inv_upsert:
  assumes "book_inv bans m"
    and "\<And>p. 0 \<le> ps_score p \<Longrightarrow> ps_score p < 2 ^ 31 \<Longrightarrow> ps_banned_until p = bans a \<Longrightarrow>
      ps_address (change p) = ps_address p \<and> 0 \<le> ps_score (change p) \<and> ps_score (change p) < 2 ^ 31 \<and>
      ps_banned_until (change p) = until"
  shows "book_inv (bans(a := until)) (upsert change a m)"
proof -
  let ?p = "peer_entry a m"
  have ok: "peers_ok m" and p: "0 \<le> ps_score ?p" "ps_banned_until ?p = bans a"
    using assms(1) unfolding book_inv_def by blast+
  have r: "ps_address ?p = a" "ps_score ?p < 2 ^ 31" using peer_entry_ok [OF ok, of a] by simp_all
  have c: "ps_address (change ?p) = a \<and> 0 \<le> ps_score (change ?p) \<and> ps_score (change ?p) < 2 ^ 31 \<and>
      ps_banned_until (change ?p) = until" using assms(2) [OF p(1) r(2) p(2)] r(1) by simp
  have "peers_ok (upsert change a m)" unfolding upsert_def using ok c by (intro peers_ok_update) auto
  with assms(1) c show ?thesis by (simp add: book_inv_def peer_entry_upsert)
qed

lemma book_inv_keep:
  assumes "book_inv bans m"
    and "\<And>p. 0 \<le> ps_score p \<Longrightarrow> ps_score p < 2 ^ 31 \<Longrightarrow>
      ps_address (change p) = ps_address p \<and> 0 \<le> ps_score (change p) \<and> ps_score (change p) < 2 ^ 31 \<and>
      ps_banned_until (change p) = ps_banned_until p"
  shows "book_inv bans (upsert change a m)"
  using book_inv_upsert [OF assms(1), of a change "bans a"] assms(2) by simp

lemma book_inv_seed:
  assumes "book_inv bans m"
  shows "book_inv bans (snd (fold (\<lambda>a (inserted, m).
       (if map_of m a = None then min (inserted + 1) (usize_limit - 1) else inserted, upsert (\<lambda>p. p) a m)) as (n, m)))"
  using assms
proof (induction as arbitrary: n m)
  case (Cons a as)
  have "book_inv bans (upsert (\<lambda>p. p) a m)" using Cons.prems by (rule book_inv_keep) simp
  with Cons.IH show ?case by simp
qed simp

lemma sat_i32_nonneg [simp]: "0 \<le> x \<Longrightarrow> 0 \<le> sat_i32 x"
  by (simp add: sat_i32_def)

lemma book_inv_op:
  assumes "book_inv bans m"
  shows "book_inv (\<lambda>a. last_ban a op (bans a)) (apply_peer_op op m)"
proof (cases op)
  case (OpMalformed a now secs)
  have "(\<lambda>b. last_ban b op (bans b)) = bans(a := Some (add_u64 now secs))" using OpMalformed by auto
  then show ?thesis
    unfolding OpMalformed apply_peer_op.simps record_malformed_def penalize_def
    using assms by (simp only: OpMalformed) (intro book_inv_upsert, auto simp: Let_def peer_scores sat_i32_def)
next
  case (OpSeed as)
  then show ?thesis using book_inv_seed [OF assms] by (simp add: seed_def)
qed (use assms in \<open>auto intro!: book_inv_keep simp: record_success_def record_observed_height_def record_connection_def
    record_transport_success_def record_transient_failure_def record_stale_tip_def penalize_def peer_scores Let_def\<close>)

lemma book_inv_ops:
  assumes "book_inv bans m"
  shows "book_inv (\<lambda>a. fold (last_ban a) ops (bans a)) (fold apply_peer_op ops m)"
  using assms
proof (induction ops arbitrary: bans m)
  case (Cons op ops)
  from Cons.IH [OF book_inv_op [OF Cons.prems]] show ?case by simp
qed simp

section \<open>Sources\<close>

lemma push_unique_keeps: "set peers \<subseteq> set (push_unique_addresses limit as peers)"
  by (induction as arbitrary: peers) fastforce+

lemma push_unique_spec:
  assumes "distinct peers" "length peers \<le> limit"
  shows "distinct (push_unique_addresses limit as peers) \<and> length (push_unique_addresses limit as peers) \<le> limit \<and>
    set peers \<subseteq> set (push_unique_addresses limit as peers) \<and>
    set (push_unique_addresses limit as peers) \<subseteq> set peers \<union> set as \<and>
    (length (push_unique_addresses limit as peers) < limit \<longrightarrow> set as \<subseteq> set (push_unique_addresses limit as peers))"
  using assms
proof (induction as arbitrary: peers)
  case (Cons a as)
  consider "length peers \<ge> limit" | "length peers < limit" "a \<in> set peers" | "length peers < limit" "a \<notin> set peers"
    by linarith
  then show ?case
  proof cases
    case 2
    with Cons.IH [OF Cons.prems] show ?thesis by auto
  next
    case 3
    with Cons.IH [of "peers @ [a]"] Cons.prems show ?thesis by auto
  qed (use Cons.prems in auto)
qed simp

text \<open>What the resolver answers for the seeds.\<close>

definition seed_answers :: "(rust_str \<Rightarrow> u16 \<Rightarrow> io_kind + socket_addr list) \<Rightarrow> u16 \<Rightarrow> rust_str list \<Rightarrow> socket_addr set" where
  "seed_answers resolve port seeds = (\<Union>name\<in>set seeds. case resolve name port of Inl _ \<Rightarrow> {} | Inr as \<Rightarrow> set as)"

lemma seed_answers_Cons:
  "resolve name port = Inl e \<Longrightarrow> seed_answers resolve port (name # seeds) = seed_answers resolve port seeds"
  "resolve name port = Inr as \<Longrightarrow> seed_answers resolve port (name # seeds) = set as \<union> seed_answers resolve port seeds"
  by (simp_all add: seed_answers_def)

lemma discover_loop_found:
  assumes "distinct peers" "length peers \<le> limit" "discover_loop resolve port limit seeds peers err = Inr found"
  shows "distinct found \<and> length found \<le> limit \<and> set found \<subseteq> set peers \<union> seed_answers resolve port seeds \<and>
    (length found < limit \<longrightarrow> set peers \<union> seed_answers resolve port seeds = set found)"
  using assms
proof (induction seeds arbitrary: peers err)
  case Nil
  then show ?case by (auto simp: seed_answers_def split: option.splits if_splits)
next
  case (Cons name seeds)
  show ?case
  proof (cases "resolve name port")
    case (Inl kind)
    with Cons.IH [of peers "Some kind"] Cons.prems show ?thesis by (simp add: seed_answers_Cons)
  next
    case (Inr as)
    define q where "q = push_unique_addresses limit as peers"
    note q = push_unique_spec [OF Cons.prems(1,2), of as, folded q_def]
    show ?thesis
    proof (cases "length q \<ge> limit")
      case True
      then have "found = q" using Cons.prems(3) Inr by (simp add: q_def [symmetric])
      with q True Inr show ?thesis by (auto simp: seed_answers_Cons)
    next
      case False
      then have "discover_loop resolve port limit seeds q err = Inr found"
        using Cons.prems(3) Inr by (simp add: q_def [symmetric])
      from Cons.IH [OF _ _ this] q have "distinct found \<and> length found \<le> limit \<and>
          set found \<subseteq> set q \<union> seed_answers resolve port seeds \<and>
          (length found < limit \<longrightarrow> set q \<union> seed_answers resolve port seeds = set found)" by blast
      moreover have "set q = set peers \<union> set as" using q False by auto
      ultimately show ?thesis using Inr by (simp add: seed_answers_Cons Un_assoc)
    qed
  qed
qed

lemma discover_loop_error:
  assumes "discover_loop resolve port limit seeds peers err = Inl e" "0 < limit"
  shows "peers = [] \<and> seed_answers resolve port seeds = {} \<and>
    (\<exists>kind. e = PeerIo kind \<and> (err = Some kind \<or> (\<exists>name\<in>set seeds. resolve name port = Inl kind)))"
  using assms(1)
proof (induction seeds arbitrary: peers err)
  case Nil
  then show ?case by (auto simp: seed_answers_def split: option.splits if_splits)
next
  case (Cons name seeds)
  show ?case
  proof (cases "resolve name port")
    case (Inl kind)
    with Cons.IH [of peers "Some kind"] Cons.prems show ?thesis by (auto simp: seed_answers_Cons)
  next
    case (Inr as)
    define q where "q = push_unique_addresses limit as peers"
    have "discover_loop resolve port limit seeds q err = Inl e"
      using Cons.prems Inr by (simp add: q_def [symmetric] split: if_splits)
    note IH = Cons.IH [OF this]
    have "peers = [] \<and> as = []"
    proof (cases as)
      case (Cons a as')
      then show ?thesis
      proof (cases peers)
        case Nil
        have "set [a] \<subseteq> set (push_unique_addresses limit as' [a])"
          using push_unique_spec [of "[a]" limit as'] assms(2) by simp
        then show ?thesis using IH Nil Cons assms(2) by (auto simp: q_def)
      next
        case (Cons p ps)
        then show ?thesis using IH push_unique_keeps [of peers limit as] by (auto simp: q_def)
      qed
    qed (use IH in \<open>simp add: q_def\<close>)
    with IH Inr show ?thesis by (auto simp: seed_answers_Cons)
  qed
qed

section \<open>Properties\<close>

text \<open>C38.  Outbound selection: no peer twice, only unbanned peers of the book, as many as asked for or all there are, as
  many different address groups as that number allows, and the best scored peer first.\<close>

theorem select_outbound_spec:
  assumes "peers_ok m"
  shows "distinct (select_outbound n now m) \<and>
    set (select_outbound n now m) \<subseteq> available (\<lambda>p. \<not> is_banned now p) m \<and>
    length (select_outbound n now m) = min n (card (available (\<lambda>p. \<not> is_banned now p) m)) \<and>
    card (group_of_socket ` set (select_outbound n now m)) = min n (address_group_count now m) \<and>
    (select_outbound n now m \<noteq> [] \<longrightarrow> (\<forall>a\<in>available (\<lambda>p. \<not> is_banned now p) m.
       outbound_key (peer_entry (hd (select_outbound n now m)) m) \<le> outbound_key (peer_entry a m)))"
proof -
  let ?ok = "\<lambda>p. \<not> is_banned now p"
  have sel: "select_outbound n now m = pick_peers n (sort_key outbound_key (filter ?ok (map snd m)))"
    by (simp add: select_outbound_def)
  have "address_group_count now m = card (group_of_socket ` available ?ok m)"
    unfolding address_group_count_def available_eq(1) [OF assms] by (simp add: length_remdups_card_conv image_image)
  with pick_sorted [where ok = ?ok and key = outbound_key and n = n, OF assms refl] show ?thesis unfolding sel by simp
qed

text \<open>Outbound selection for discovery: likewise, and none of the excluded addresses.\<close>

theorem select_discovery_spec:
  assumes "peers_ok m"
  shows "distinct (select_discovery_outbound n now exclude m) \<and>
    set (select_discovery_outbound n now exclude m) \<inter> exclude = {} \<and>
    set (select_discovery_outbound n now exclude m) \<subseteq> available (\<lambda>p. \<not> is_banned now p \<and> ps_address p \<notin> exclude) m \<and>
    length (select_discovery_outbound n now exclude m) =
      min n (card (available (\<lambda>p. \<not> is_banned now p \<and> ps_address p \<notin> exclude) m))"
proof -
  let ?ok = "\<lambda>p. \<not> is_banned now p \<and> ps_address p \<notin> exclude"
  have sel: "select_discovery_outbound n now exclude m = pick_peers n (sort_key discovery_key (filter ?ok (map snd m)))"
    by (simp add: select_discovery_outbound_def)
  have "available ?ok m \<inter> exclude = {}" unfolding available_eq(1) [OF assms] by auto
  with pick_sorted(1-3) [where ok = ?ok and key = discovery_key and n = n, OF assms refl] show ?thesis unfolding sel by blast
qed

text \<open>Selection does not depend on the order in which the hash map lists the peers.\<close>

theorem selection_order_independent:
  assumes "peers_ok m" "mset m' = mset m"
  shows "select_outbound n now m' = select_outbound n now m \<and>
    select_discovery_outbound n now exclude m' = select_discovery_outbound n now exclude m"
  using pick_order_independent [where key = outbound_key, OF assms key_address(1)]
    pick_order_independent [where key = discovery_key, OF assms key_address(2)]
  by (simp add: select_outbound_def select_discovery_outbound_def)

text \<open>Whatever is recorded in a new book, in any order: the addresses stay distinct and match their entries, no score
  is negative or leaves its width, and a peer is banned exactly until the time the last report of malformed data against
  it says, so that nothing else bans a peer and no success lifts a ban.\<close>

theorem peer_book_history:
  "peers_ok (fold apply_peer_op ops []) \<and>
   0 \<le> ps_score (peer_entry a (fold apply_peer_op ops [])) \<and>
   ps_score (peer_entry a (fold apply_peer_op ops [])) < 2 ^ 31 \<and>
   ps_banned_until (peer_entry a (fold apply_peer_op ops [])) = fold (last_ban a) ops None"
proof -
  have "book_inv (\<lambda>_. None) []" by (simp add: book_inv_def peers_ok_def peer_entry_def peer_state_new_def)
  from book_inv_ops [OF this, of ops] have inv: "book_inv (\<lambda>a. fold (last_ban a) ops None) (fold apply_peer_op ops [])" .
  then have "peers_ok (fold apply_peer_op ops [])" by (simp add: book_inv_def)
  with peer_entry_ok(2) [OF this, of a] inv show ?thesis unfolding book_inv_def by (simp only: atLeastLessThan_iff)
qed

text \<open>Discovery through DNS seeds returns distinct addresses the resolver gave for a seed, no more than the limit, and
  all of them when there are fewer; it fails only when no seed gave an address and one of them failed.\<close>

theorem dns_seed_discover_spec:
  "(dns_seed_discover resolve source = Inr found \<longrightarrow>
      distinct found \<and> length found \<le> ds_limit source \<and>
      set found \<subseteq> seed_answers resolve (ds_port source) (ds_seeds source) \<and>
      (length found < ds_limit source \<longrightarrow> seed_answers resolve (ds_port source) (ds_seeds source) = set found)) \<and>
   (dns_seed_discover resolve source = Inl e \<longrightarrow>
      seed_answers resolve (ds_port source) (ds_seeds source) = {} \<and>
      (\<exists>kind. e = PeerIo kind \<and> (\<exists>name\<in>set (ds_seeds source). resolve name (ds_port source) = Inl kind)))"
proof (cases "ds_limit source = 0 \<or> ds_seeds source = []")
  case True
  then show ?thesis by (auto simp: dns_seed_discover_def seed_answers_def)
next
  case False
  then have "dns_seed_discover resolve source =
      discover_loop resolve (ds_port source) (ds_limit source) (ds_seeds source) [] None"
    by (simp add: dns_seed_discover_def)
  with False discover_loop_found [of "[]" "ds_limit source" resolve "ds_port source" "ds_seeds source" None found]
    discover_loop_error [of resolve "ds_port source" "ds_limit source" "ds_seeds source" "[]" None e]
  show ?thesis by auto
qed

definition sample_book :: peer_manager where
  "sample_book = from_states
     [peer_state_new (V4 (1, 2, 3, 4), 12038), peer_state_new (V4 (1, 2, 9, 9), 12038),
      (peer_state_new (V4 (5, 6, 7, 8), 12038))\<lparr>ps_score := 5\<rparr>]"

lemma sample_book_ok: "peers_ok sample_book"
  by (simp add: sample_book_def from_states_def peer_state_new_def peers_ok_def)

theorem select_outbound_spec_witness:
  "distinct (select_outbound 2 0 sample_book) \<and>
    set (select_outbound 2 0 sample_book) \<subseteq> available (\<lambda>p. \<not> is_banned 0 p) sample_book \<and>
    length (select_outbound 2 0 sample_book) = min 2 (card (available (\<lambda>p. \<not> is_banned 0 p) sample_book)) \<and>
    card (group_of_socket ` set (select_outbound 2 0 sample_book)) = min 2 (address_group_count 0 sample_book)"
  using select_outbound_spec [OF sample_book_ok, of 2 0] by (elim conjE) (intro conjI)

theorem select_discovery_spec_witness:
  "distinct (select_discovery_outbound 2 0 {(V4 (1, 2, 3, 4), 12038)} sample_book) \<and>
    set (select_discovery_outbound 2 0 {(V4 (1, 2, 3, 4), 12038)} sample_book) \<inter> {(V4 (1, 2, 3, 4), 12038)} = {} \<and>
    set (select_discovery_outbound 2 0 {(V4 (1, 2, 3, 4), 12038)} sample_book) \<subseteq>
      available (\<lambda>p. \<not> is_banned 0 p \<and> ps_address p \<notin> {(V4 (1, 2, 3, 4), 12038)}) sample_book \<and>
    length (select_discovery_outbound 2 0 {(V4 (1, 2, 3, 4), 12038)} sample_book) =
      min 2 (card (available (\<lambda>p. \<not> is_banned 0 p \<and> ps_address p \<notin> {(V4 (1, 2, 3, 4), 12038)}) sample_book))"
  by (rule select_discovery_spec) (rule sample_book_ok)

theorem selection_order_independent_witness:
  "select_outbound 2 0 (rev sample_book) = select_outbound 2 0 sample_book \<and>
    select_discovery_outbound 2 0 {} (rev sample_book) = select_discovery_outbound 2 0 {} sample_book"
  by (rule selection_order_independent) (simp_all add: sample_book_ok)

theorem dns_seed_discover_spec_witness:
  "(dns_seed_discover (\<lambda>_ _. Inr [(V4 (1, 2, 3, 4), 1)]) (dns_seed_source_new [[97], [97]] 1) = Inr [(V4 (1, 2, 3, 4), 1)] \<longrightarrow>
      distinct [(V4 (1, 2, 3, 4), 1 :: u16)] \<and> length [(V4 (1, 2, 3, 4), 1 :: u16)] \<le> ds_limit (dns_seed_source_new [[97], [97]] 1) \<and>
      set [(V4 (1, 2, 3, 4), 1)] \<subseteq> seed_answers (\<lambda>_ _. Inr [(V4 (1, 2, 3, 4), 1)]) (ds_port (dns_seed_source_new [[97], [97]] 1)) (ds_seeds (dns_seed_source_new [[97], [97]] 1)) \<and>
      (length [(V4 (1, 2, 3, 4), 1 :: u16)] < ds_limit (dns_seed_source_new [[97], [97]] 1) \<longrightarrow>
        seed_answers (\<lambda>_ _. Inr [(V4 (1, 2, 3, 4), 1)]) (ds_port (dns_seed_source_new [[97], [97]] 1)) (ds_seeds (dns_seed_source_new [[97], [97]] 1)) = set [(V4 (1, 2, 3, 4), 1)])) \<and>
   (dns_seed_discover (\<lambda>_ _. Inr [(V4 (1, 2, 3, 4), 1)]) (dns_seed_source_new [[97], [97]] 1) = Inl UnexpectedAction \<longrightarrow>
      seed_answers (\<lambda>_ _. Inr [(V4 (1, 2, 3, 4), 1)]) (ds_port (dns_seed_source_new [[97], [97]] 1)) (ds_seeds (dns_seed_source_new [[97], [97]] 1)) = {} \<and>
      (\<exists>kind. UnexpectedAction = PeerIo kind \<and> (\<exists>name\<in>set (ds_seeds (dns_seed_source_new [[97], [97]] 1)).
         Inr [(V4 (1, 2, 3, 4), 1 :: u16)] = Inl kind)))"
  by (rule dns_seed_discover_spec)

end
