(* ===== verification/Dns_Relay.thy ===== *)
theory Dns_Relay
  imports Peer_Manager Hashing Dns_Message
begin

text \<open>
  \<open>hns-p2p/src/dns_relay.rs\<close>: which queries may be relayed and which answers are taken, the choice of a relay peer,
  and the client that keeps a few live connections, asks one peer after another and scores them. The traits
  \<open>DnsRelayPeerConnector\<close> and \<open>DnsRelayPeerConnection\<close> are a record of operations, as in the code, together with the
  clock and the random source; they act on a world of any type.
\<close>

section \<open>Definitions\<close>

subsection \<open>Queries and answers\<close>

datatype relay_validation_error =
    MessageTooLargeForRelay
  | MalformedMessage
  | NotStandardQuery
  | InvalidQuestionCount
  | InvalidQuestionClass
  | QueryHasResponseSections
  | InvalidQueryFlags
  | UnsupportedQuestionType
  | InvalidHnsRoot
  | InvalidEdns
  | InvalidEdnsSize
  | DnssecOkRequired
  | EdnsClientSubnetForbidden
  | InvalidRecursiveFlags
  | ResponseIdMismatch
  | ResponseQuestionMismatch

definition is_supported_dns_relay_type :: "u16 \<Rightarrow> bool" where
  "is_supported_dns_relay_type code \<longleftrightarrow>
     code \<in> set [1, 2, 5, 6, 15, 16, 28, 33, 39, 43, 46, 47, 48, 50, 51, 52, 64, 65, 257]"

function validate_edns_options :: "bytes \<Rightarrow> relay_validation_error + unit" where
  "validate_edns_options options =
     (if options = [] then Inr ()
      else if length options < 4 then Inl InvalidEdns else
      let code = u16_of_be [options ! 0, options ! 1]; n = unat (u16_of_be [options ! 2, options ! 3]);
          options = drop 4 options in
      if length options < n then Inl InvalidEdns
      else if code = 8 then Inl EdnsClientSubnetForbidden
      else if code \<noteq> 12 then Inl InvalidEdns
      else validate_edns_options (drop n options))"
  by pat_completeness auto
termination
  by (relation "measure length") auto

declare validate_edns_options.simps [simp del]

definition validate_dns_relay_query :: "bytes \<Rightarrow> bool \<Rightarrow> relay_validation_error + dns_message" where
  "validate_dns_relay_query query require_recursive_flags =
     (if length query > MAX_DNS_RELAY_QUERY_SIZE then Inl MessageTooLargeForRelay else
      and_then (map_err (\<lambda>_. MalformedMessage) (dns_message_parse query)) (\<lambda>query.
      let flags = dh_flags (msg_header query) in
      if is_response flags \<or> opcode flags \<noteq> 0 then Inl NotStandardQuery
      else if length (questions query) \<noteq> 1 then Inl InvalidQuestionCount
      else if flags AND 0x06c0 \<noteq> 0 \<or> flags AND 0x000f \<noteq> 0 then Inl InvalidQueryFlags
      else if q_class (questions query ! 0) \<noteq> 1 then Inl InvalidQuestionClass
      else if \<not> is_supported_dns_relay_type (record_type_code (q_type (questions query ! 0)))
        then Inl UnsupportedQuestionType
      else if q_name (questions query ! 0) = [] then Inl InvalidHnsRoot else
      and_then (map_err (\<lambda>_. InvalidHnsRoot) (validate_handshake_name (last (q_name (questions query ! 0))))) (\<lambda>_.
      if answers query \<noteq> [] \<or> authorities query \<noteq> [] then Inl QueryHasResponseSections
      else if require_recursive_flags \<and> (flags AND 0x0100 = 0 \<or> flags AND 0x0010 = 0) then Inl InvalidRecursiveFlags
      else if length (additionals query) \<noteq> 1 then Inl InvalidEdns else
      let opt = additionals query ! 0 in
      if rr_type opt \<noteq> TypeUnknown 41 \<or> rr_name opt \<noteq> [] then Inl InvalidEdns
      else if \<not> (512 \<le> rr_class opt \<and> rr_class opt \<le> word_of_nat MAX_DNS_RELAY_QUERY_SIZE) then Inl InvalidEdnsSize
      else if rr_ttl opt AND 0x8000 = 0 then Inl DnssecOkRequired
      else if rr_ttl opt \<noteq> 0x8000 then Inl InvalidEdns else
      and_then (validate_edns_options (rr_rdata opt)) (\<lambda>_. Inr query))))"

definition prepare_dns_relay_query :: "bytes \<Rightarrow> relay_validation_error + bytes" where
  "prepare_dns_relay_query query =
     and_then (validate_dns_relay_query query False) (\<lambda>_.
     let flags = u16_of_be [query ! 2, query ! 3] OR 0x0110;
         prepared = take 2 query @ u16_to_be flags @ drop 4 query in
     and_then (validate_dns_relay_query prepared True) (\<lambda>_. Inr prepared))"

definition validate_dns_relay_response :: "bytes \<Rightarrow> bytes \<Rightarrow> relay_validation_error + unit" where
  "validate_dns_relay_response prepared_query response =
     and_then (validate_dns_relay_query prepared_query True) (\<lambda>query.
     if length response > MAX_DNS_RELAY_RESPONSE_SIZE then Inl MessageTooLargeForRelay else
     and_then (map_err (\<lambda>_. MalformedMessage) (dns_message_parse response)) (\<lambda>response.
     let flags = dh_flags (msg_header response) in
     if \<not> is_response flags \<or> opcode flags \<noteq> 0 then Inl NotStandardQuery
     else if length (questions response) \<noteq> 1 then Inl InvalidQuestionCount
     else if flags AND 0x0100 = 0 \<or> flags AND 0x0080 = 0 then Inl InvalidRecursiveFlags
     else if dh_id (msg_header response) \<noteq> dh_id (msg_header query) then Inl ResponseIdMismatch
     else if questions response ! 0 \<noteq> questions query ! 0 then Inl ResponseQuestionMismatch
     else Inr ()))"

subsection \<open>Choosing a relay peer\<close>

record relay_capability =
  cap_address :: socket_addr
  cap_services :: u64
  cap_fully_handshaken :: bool
  cap_cooldown_until :: "u64 option"

definition is_eligible :: "u64 \<Rightarrow> relay_capability \<Rightarrow> bool" where
  "is_eligible now c \<longleftrightarrow>
     cap_fully_handshaken c \<and> cap_services c AND EXPERIMENTAL_DNS_RELAY_SERVICE \<noteq> 0 \<and>
     (case cap_cooldown_until c of None \<Rightarrow> True | Some until \<Rightarrow> until \<le> now)"

definition relay_key :: "socket_addr option \<Rightarrow> socket_addr \<times> peer_state \<Rightarrow> int list" where
  "relay_key proof_peer ap =
     [of_bool (fst ap = (case proof_peer of None \<Rightarrow> fst ap | Some p \<Rightarrow> p)), ps_score (snd ap),
      - uint (ps_last_height (snd ap))] @ socket_key (fst ap)"

text \<open>\<open>dedup_by_key\<close>: an element is dropped when it has the address of the element kept before it.\<close>

fun dedup_by_address :: "(socket_addr \<times> peer_state) list \<Rightarrow> (socket_addr \<times> peer_state) list" where
  "dedup_by_address [] = []"
| "dedup_by_address [x] = [x]"
| "dedup_by_address (x # y # xs) =
     (if fst y = fst x then dedup_by_address (x # xs) else x # dedup_by_address (y # xs))"

text \<open>The two selection loops of \<open>select_dns_relay\<close> are those of \<open>select_outbound\<close>, over pairs.\<close>

definition select_dns_relay ::
  "relay_capability list \<Rightarrow> nat \<Rightarrow> u64 \<Rightarrow> socket_addr option \<Rightarrow> peer_manager \<Rightarrow> socket_addr list"
where
  "select_dns_relay capabilities preferred now proof_peer m =
     (let eligible = List.map_filter (\<lambda>c.
            (case map_of m (cap_address c) of
               Some st \<Rightarrow> if \<not> is_banned now st then Some (cap_address c, st) else None
             | None \<Rightarrow> None)) (filter (is_eligible now) capabilities);
          eligible = dedup_by_address (sort_key (relay_key proof_peer) eligible)
      in pick_peers preferred (map (\<lambda>(a, st). st\<lparr>ps_address := a\<rparr>) eligible))"

section \<open>Options\<close>

text \<open>A list of padding options, the only ones a relayed query may carry.\<close>

definition padding_options :: "bytes list \<Rightarrow> bytes" where
  "padding_options ds = concat (map (\<lambda>d. u16_to_be 12 @ u16_to_be (word_of_nat (length d)) @ d) ds)"

lemma u16_be_pair: "u16_to_be (u16_of_be [a, b]) = [a, b]" "u16_of_be (u16_to_be w) = w"
  using u16_to_be_of_be [of "[a, b]"] by simp_all

lemma u16_be_split: obtains a b where "u16_to_be w = [a, b]" "u16_of_be [a, b] = w"
proof -
  have "length (u16_to_be w) = Suc (Suc 0)" by (simp add: u16_to_be_def)
  then have "\<exists>a b. u16_to_be w = [a, b]" unfolding length_Suc_conv by blast
  with that u16_be_pair(2) [of w] show thesis by metis
qed

lemma u16_length: "n < 65536 \<Longrightarrow> unat (word_of_nat n :: u16) = n"
  by (simp add: unat_of_nat)

lemma edns_option_step:
  assumes "length d < 65536"
  shows "validate_edns_options (u16_to_be 12 @ u16_to_be (word_of_nat (length d)) @ d @ t) = validate_edns_options t"
proof -
  obtain a b where ab: "u16_to_be 12 = [a, b]" "u16_of_be [a, b] = 12" by (rule u16_be_split)
  obtain e f where ef: "u16_to_be (word_of_nat (length d)) = [e, f]" "u16_of_be [e, f] = word_of_nat (length d)"
    by (rule u16_be_split)
  show ?thesis
    using ab ef u16_length [OF assms] by (subst validate_edns_options.simps) (simp add: Let_def)
qed

lemma edns_options_padding:
  assumes "validate_edns_options options = Inr ()"
  shows "\<exists>ds. options = padding_options ds \<and> list_all (\<lambda>d. length d < 65536) ds"
  using assms
proof (induction options rule: validate_edns_options.induct)
  case (1 options)
  show ?case
  proof (cases "options = []")
    case True
    then show ?thesis by (intro exI [of _ "[]"]) (simp add: padding_options_def)
  next
    case False
    define code n rs where "code = u16_of_be [options ! 0, options ! 1]" and
      "n = unat (u16_of_be [options ! 2, options ! 3])" and "rs = drop 4 options"
    from 1(2) False have s: "\<not> length options < 4" "\<not> length rs < n" "code \<noteq> 8" "\<not> code \<noteq> 12"
      "validate_edns_options (drop n rs) = Inr ()"
      by (subst (asm) validate_edns_options.simps, simp add: Let_def code_def n_def rs_def split: if_splits)+
    from 1(1) [OF False s(1) code_def n_def rs_def s(2-5)] obtain ds where
      ds: "drop n rs = padding_options ds" "list_all (\<lambda>d. length d < 65536) ds" by blast
    have four: "take 4 options = [options ! 0, options ! 1, options ! 2, options ! 3]"
    proof (rule nth_equalityI)
      fix i assume "i < length (take 4 options)"
      then have "i = 0 \<or> i = 1 \<or> i = 2 \<or> i = 3" by auto
      then show "take 4 options ! i = [options ! 0, options ! 1, options ! 2, options ! 3] ! i" by auto
    qed (use s(1) in simp)
    have n: "word_of_nat n = u16_of_be [options ! 2, options ! 3]" "n < 65536"
      using unsigned_less [of "u16_of_be [options ! 2, options ! 3]"] by (simp_all add: n_def)
    have "options = take 4 options @ take n rs @ drop n rs" unfolding rs_def by (simp only: append_take_drop_id)
    also have "take 4 options = u16_to_be 12 @ u16_to_be (word_of_nat n)"
      unfolding four n(1) u16_be_pair(1) using s(4) by (metis code_def u16_be_pair(1) append_Cons append_Nil)
    finally have "options = padding_options (take n rs # ds)"
      using s(2) ds(1) by (simp add: padding_options_def)
    with ds(2) n(2) s(2) show ?thesis by (intro exI [of _ "take n rs # ds"]) simp
  qed
qed

lemma edns_options_complete:
  "list_all (\<lambda>d. length d < 65536) ds \<Longrightarrow> validate_edns_options (padding_options ds) = Inr ()"
proof (induction ds)
  case Nil
  then show ?case by (simp add: padding_options_def validate_edns_options.simps [of "[]"])
next
  case (Cons d ds)
  have "padding_options (d # ds) = u16_to_be 12 @ u16_to_be (word_of_nat (length d)) @ d @ padding_options ds"
    by (simp add: padding_options_def)
  with Cons edns_option_step [of d "padding_options ds"] show ?case by simp
qed

section \<open>Prepared queries\<close>

lemma if_Inl_Inr: "(if c then Inl e else m) = Inr x \<longleftrightarrow> \<not> c \<and> m = Inr x"
  by simp

lemma validate_query_weaken:
  "validate_dns_relay_query q True = Inr m \<Longrightarrow> validate_dns_relay_query q False = Inr m"
  by (simp only: validate_dns_relay_query_def Let_def if_Inl_Inr and_then_Inr) blast

lemma validated_length:
  assumes "validate_dns_relay_query q f = Inr m"
  shows "12 \<le> length q"
  using assms by (auto simp: validate_dns_relay_query_def and_then_Inr map_err_def dns_message_parse_def split: if_splits sum.splits)

lemma prepared_query:
  assumes "prepare_dns_relay_query query = Inr prepared"
  obtains m where "validate_dns_relay_query prepared True = Inr m" "12 \<le> length query"
    "prepared = take 2 query @ u16_to_be (u16_of_be [query ! 2, query ! 3] OR 0x0110) @ drop 4 query"
    "\<exists>m0. validate_dns_relay_query query False = Inr m0"
proof -
  from assms obtain m0 m where "validate_dns_relay_query query False = Inr m0"
    "prepared = take 2 query @ u16_to_be (u16_of_be [query ! 2, query ! 3] OR 0x0110) @ drop 4 query"
    "validate_dns_relay_query prepared True = Inr m"
    by (auto simp: prepare_dns_relay_query_def and_then_Inr Let_def)
  with validated_length that show thesis by blast
qed

lemma or_twice: "(f OR m) OR m = f OR (m :: u16)"
  by (simp add: or.assoc)

lemma prepare_again:
  assumes "prepare_dns_relay_query query = Inr prepared"
  shows "prepare_dns_relay_query prepared = Inr prepared"
proof -
  from prepared_query [OF assms] obtain m where m: "validate_dns_relay_query prepared True = Inr m" "12 \<le> length query"
    "prepared = take 2 query @ u16_to_be (u16_of_be [query ! 2, query ! 3] OR 0x0110) @ drop 4 query" by blast
  define w where "w = u16_of_be [query ! 2, query ! 3] OR 0x0110"
  obtain a b where ab: "u16_to_be w = [a, b]" "u16_of_be [a, b] = w"
    by (rule u16_be_split)
  have p: "prepared = take 2 query @ [a, b] @ drop 4 query" using m(3) ab(1) by (simp add: w_def)
  have nth: "prepared ! 2 = a" "prepared ! 3 = b" "take 2 prepared = take 2 query" "drop 4 prepared = drop 4 query"
    using m(2) by (simp_all add: p nth_append)
  have "take 2 prepared @ u16_to_be (u16_of_be [prepared ! 2, prepared ! 3] OR 0x0110) @ drop 4 prepared = prepared"
    unfolding nth ab(2) using or_twice [of "u16_of_be [query ! 2, query ! 3]" "0x0110"] ab(1)
    by (simp add: p w_def)
  then show ?thesis
    unfolding prepare_dns_relay_query_def Let_def using m(1) validate_query_weaken [OF m(1)] by simp
qed

section \<open>Selection\<close>

lemma set_pick_groups: "set (fst (pick_groups n ps sel gs)) \<subseteq> set sel \<union> ps_address ` set ps"
  by (induction n ps sel gs rule: pick_groups.induct) (auto simp: Let_def)

lemma set_pick_rest: "set (pick_rest n ps sel) \<subseteq> set sel \<union> ps_address ` set ps"
  by (induction n ps sel rule: pick_rest.induct) auto

lemma set_pick_peers: "set (pick_peers n ps) \<subseteq> ps_address ` set ps"
proof -
  obtain sel full where s: "pick_groups n ps [] [] = (sel, full)" by force
  with set_pick_groups [of n ps "[]" "[]"] set_pick_rest [of n ps sel] show ?thesis
    by (auto simp: pick_peers_def split: bool.splits)
qed

lemma set_dedup: "set (dedup_by_address xs) \<subseteq> set xs"
  by (induction xs rule: dedup_by_address.induct) auto

lemma select_dns_relay_sound:
  assumes "a \<in> set (select_dns_relay capabilities n now proof_peer m)"
  shows "\<exists>c st. c \<in> set capabilities \<and> cap_address c = a \<and> is_eligible now c \<and> map_of m a = Some st \<and> \<not> is_banned now st"
proof -
  let ?f = "\<lambda>c. case map_of m (cap_address c) of
               Some st \<Rightarrow> if \<not> is_banned now st then Some (cap_address c, st) else None | None \<Rightarrow> None"
  let ?e = "List.map_filter ?f (filter (is_eligible now) capabilities)"
  have "a \<in> fst ` set (dedup_by_address (sort_key (relay_key proof_peer) ?e))"
  proof -
    have "a \<in> ps_address ` set (map (\<lambda>(a, st). st\<lparr>ps_address := a\<rparr>) (dedup_by_address (sort_key (relay_key proof_peer) ?e)))"
      using assms set_pick_peers unfolding select_dns_relay_def Let_def by blast
    then obtain x where "x \<in> set (dedup_by_address (sort_key (relay_key proof_peer) ?e))" "a = fst x"
      unfolding set_map by (auto simp: case_prod_unfold)
    then show ?thesis by blast
  qed
  then obtain st where "(a, st) \<in> set ?e" using set_dedup by fastforce
  then show ?thesis by (auto simp: set_map_filter split: option.splits if_splits)
qed

section \<open>Properties\<close>

text \<open>The EDNS options of a relayed query are accepted exactly when they are a list of padding options: client subnet,
  cookies, anything else and anything truncated are refused.\<close>

theorem edns_options_exactly_padding:
  "validate_edns_options options = Inr () \<longleftrightarrow>
     (\<exists>ds. options = padding_options ds \<and> list_all (\<lambda>d. length d < 65536) ds)"
  using edns_options_padding edns_options_complete by blast

text \<open>A prepared query is the caller's with only the flag word changed, to ask for recursion and to disable checking;
  it is a single standard question of class IN for a supported type below a valid Handshake name, with one EDNS record
  that sets DNSSEC OK and carries only padding; and preparing it again leaves it as it is.\<close>

theorem prepared_query_private:
  assumes "prepare_dns_relay_query query = Inr prepared"
  shows "length prepared = length query \<and> take 2 prepared = take 2 query \<and> drop 4 prepared = drop 4 query \<and>
    prepare_dns_relay_query prepared = Inr prepared \<and>
    (\<exists>m question opt ds. dns_message_parse prepared = Inr m \<and> questions m = [question] \<and> additionals m = [opt] \<and>
       answers m = [] \<and> authorities m = [] \<and>
       \<not> is_response (dh_flags (msg_header m)) \<and> recursion_desired (dh_flags (msg_header m)) \<and>
       dh_flags (msg_header m) AND 0x0010 \<noteq> 0 \<and> q_class question = 1 \<and>
       is_supported_dns_relay_type (record_type_code (q_type question)) \<and>
       validate_handshake_name (last (q_name question)) = Inr () \<and>
       rr_type opt = TypeUnknown 41 \<and> rr_ttl opt = 0x8000 \<and> rr_rdata opt = padding_options ds)"
proof -
  from prepared_query [OF assms] obtain m where m: "validate_dns_relay_query prepared True = Inr m" "12 \<le> length query"
    "prepared = take 2 query @ u16_to_be (u16_of_be [query ! 2, query ! 3] OR 0x0110) @ drop 4 query" by blast
  then have len: "length prepared = length query" "take 2 prepared = take 2 query" "drop 4 prepared = drop 4 query"
    by simp_all
  from m(1) have v: "dns_message_parse prepared = Inr m" "\<not> is_response (dh_flags (msg_header m))"
    "length (questions m) = 1" "q_class (questions m ! 0) = 1"
    "is_supported_dns_relay_type (record_type_code (q_type (questions m ! 0)))"
    "validate_handshake_name (last (q_name (questions m ! 0))) = Inr ()"
    "answers m = []" "authorities m = []" "dh_flags (msg_header m) AND 0x0100 \<noteq> 0" "dh_flags (msg_header m) AND 0x0010 \<noteq> 0"
    "length (additionals m) = 1" "rr_type (additionals m ! 0) = TypeUnknown 41" "rr_ttl (additionals m ! 0) = 0x8000"
    "validate_edns_options (rr_rdata (additionals m ! 0)) = Inr ()"
    by (simp_all only: validate_dns_relay_query_def Let_def if_Inl_Inr and_then_Inr map_err_Inr de_Morgan_disj
        not_not simp_thms sum.inject) (elim exE conjE, simp)+
  from v(3,11) obtain question opt where q: "questions m = [question]" "additionals m = [opt]"
    by (auto simp: length_Suc_conv)
  from edns_options_padding [OF v(14)] obtain ds where "rr_rdata opt = padding_options ds" using q by auto
  with v q len prepare_again [OF assms] show ?thesis
    by (intro conjI exI [of _ m] exI [of _ question] exI [of _ opt] exI [of _ ds]) (simp_all add: recursion_desired_def)
qed

definition relay_message :: "u16 \<Rightarrow> dns_message" where
  "relay_message flags =
     \<lparr>msg_header = \<lparr>dh_id = 0x1234, dh_flags = flags, question_count = 1, answer_count = 0, authority_count = 0, additional_count = 1\<rparr>,
      questions = [\<lparr>q_name = [[97]], q_type = TypeA, q_class = 1\<rparr>], answers = [], authorities = [],
      additionals = [\<lparr>rr_name = [], rr_type = TypeUnknown 41, rr_class = 1232, rr_ttl = 0x8000, rr_rdata = []\<rparr>]\<rparr>"

definition relay_message_bytes :: "u16 \<Rightarrow> bytes" where
  "relay_message_bytes flags =
     header_bytes (msg_header (relay_message flags)) @ concat (map question_bytes (questions (relay_message flags))) @
     concat (map record_bytes (additionals (relay_message flags)))"

lemma relay_message_parses: "dns_message_parse (relay_message_bytes flags) = Inr (relay_message flags)"
proof (rule dns_message_round_trip)
  show wf: "wf_message (relay_message flags)"
    by (simp add: wf_message_def relay_message_def wf_question_def wf_record_def wf_record_type_def
        wf_rdata_def wf_name_def wf_label_def from_code_def total_records_def is_valid_dns_label_def
        to_ascii_lowercase_def to_ascii_lower_byte_def is_ascii_upper_def
        is_ascii_alphanumeric_def is_ascii_lower_def)
  have "\<exists>bs. dns_message_encode dns_encode_config_default (relay_message flags) = Inr bs"
    by (simp add: dns_message_encode_def relay_message_def total_records_def MAX_DNS_QUESTIONS_def
        MAX_DNS_RECORDS_def dns_question_encode_def resource_record_encode_def encode_wire_def
        dns_encode_config_default_def Let_def MAX_DNS_LABEL_LEN_def)
  then obtain bs where bs: "dns_message_encode dns_encode_config_default (relay_message flags) = Inr bs" ..
  with dns_message_encode_Inr [OF wf bs] show
    "dns_message_encode dns_encode_config_default (relay_message flags) = Inr (relay_message_bytes flags)"
    by (simp add: relay_message_bytes_def relay_message_def)
qed (simp add: dns_encode_config_default_def)

lemma relay_message_valid:
  assumes "flags AND 0x8000 = 0" "opcode flags = 0" "flags AND 0x06c0 = 0" "flags AND 0x000f = 0"
    "f \<longrightarrow> flags AND 0x0100 \<noteq> 0 \<and> flags AND 0x0010 \<noteq> 0"
  shows "validate_dns_relay_query (relay_message_bytes flags) f = Inr (relay_message flags)"
proof -
  have name: "validate_handshake_name [97] = Inr ()"
    by code_simp
  have len: "length (relay_message_bytes flags) \<le> 4096"
    by (simp add: relay_message_bytes_def relay_message_def question_bytes_def record_bytes_def wire_def)
  show ?thesis
    using assms name len
    by (auto simp: validate_dns_relay_query_def relay_message_parses relay_limits is_response_def
        relay_message_def is_supported_dns_relay_type_def validate_edns_options.simps [of "[]"])
qed

definition sample_relay_query :: bytes where "sample_relay_query = relay_message_bytes 0"
definition sample_prepared_query :: bytes where "sample_prepared_query = relay_message_bytes 0x0110"

lemma sample_query_prepares: "prepare_dns_relay_query sample_relay_query = Inr sample_prepared_query"
proof -
  obtain a b where ab: "u16_to_be 0x1234 = [a, b]" by (rule u16_be_split)
  obtain d e where de: "u16_to_be 0 = [d, e]" "u16_of_be [d, e] = 0" by (rule u16_be_split)
  have swap: "take 2 sample_relay_query @ u16_to_be (u16_of_be [sample_relay_query ! 2, sample_relay_query ! 3] OR 0x0110) @
      drop 4 sample_relay_query = sample_prepared_query"
    using ab de by (simp add: sample_relay_query_def sample_prepared_query_def relay_message_bytes_def relay_message_def
        header_bytes_def)
  have "validate_dns_relay_query sample_relay_query False = Inr (relay_message 0)"
    unfolding sample_relay_query_def by (rule relay_message_valid) (simp_all add: opcode_def)
  moreover have "validate_dns_relay_query sample_prepared_query True = Inr (relay_message 0x0110)"
    unfolding sample_prepared_query_def by (rule relay_message_valid) (simp_all add: opcode_def)
  ultimately show ?thesis unfolding prepare_dns_relay_query_def Let_def swap by simp
qed

theorem prepared_query_private_witness:
  "length sample_prepared_query = length sample_relay_query \<and> take 2 sample_prepared_query = take 2 sample_relay_query \<and>
    drop 4 sample_prepared_query = drop 4 sample_relay_query \<and>
    prepare_dns_relay_query sample_prepared_query = Inr sample_prepared_query \<and>
    (\<exists>m question opt ds. dns_message_parse sample_prepared_query = Inr m \<and> questions m = [question] \<and>
       additionals m = [opt] \<and> answers m = [] \<and> authorities m = [] \<and>
       \<not> is_response (dh_flags (msg_header m)) \<and> recursion_desired (dh_flags (msg_header m)) \<and>
       dh_flags (msg_header m) AND 0x0010 \<noteq> 0 \<and> q_class question = 1 \<and>
       is_supported_dns_relay_type (record_type_code (q_type question)) \<and>
       validate_handshake_name (last (q_name question)) = Inr () \<and>
       rr_type opt = TypeUnknown 41 \<and> rr_ttl opt = 0x8000 \<and> rr_rdata opt = padding_options ds)"
  by (rule prepared_query_private) (rule sample_query_prepares)

end
