(* ===== verification/Dns_Relay_Client.thy ===== *)
theory Dns_Relay_Client
  imports Dns_Relay
begin

text \<open>
  The client of \<open>hns-p2p/src/dns_relay.rs\<close> (\<open>DnsRelayClient\<close>): it keeps live connections to relay peers, and resolves
  a query by asking one peer after another, with the penalties, cool-downs and bans the code gives. The connector and
  connection traits, the clock and the random source are the operations of a record; the deadline each operation is
  given is the world's business.
\<close>

section \<open>Definitions\<close>

definition DEFAULT_MAX_DNS_RELAY_CONNECTIONS :: nat where "DEFAULT_MAX_DNS_RELAY_CONNECTIONS = 2"
definition DEFAULT_DNS_RELAY_ALTERNATE_RETRIES :: nat where "DEFAULT_DNS_RELAY_ALTERNATE_RETRIES = 1"
definition MAX_DNS_RELAY_HANDSHAKE_ATTEMPTS_PER_RESOLUTION :: nat where
  "MAX_DNS_RELAY_HANDSHAKE_ATTEMPTS_PER_RESOLUTION = 4"
definition DEFAULT_DNS_RELAY_COOLDOWN_SECONDS :: u64 where "DEFAULT_DNS_RELAY_COOLDOWN_SECONDS = 30"
definition DEFAULT_DNS_RELAY_MALFORMED_BAN_SECONDS :: u64 where "DEFAULT_DNS_RELAY_MALFORMED_BAN_SECONDS = 10 * 60"
definition MAX_ADVISORY_PACKETS_PER_EXCHANGE :: nat where "MAX_ADVISORY_PACKETS_PER_EXCHANGE = 32"

text \<open>\<open>VersionPacket::default\<close>, whose agent holds the version of the package, and the version a relay client sends.\<close>

definition version_packet_default :: "rust_str \<Rightarrow> version_packet" where
  "version_packet_default package_version =
     \<lparr>vp_version = PROTOCOL_VERSION, vp_services = SERVICE_NETWORK, vp_time = 0,
      vp_remote = \<lparr>na_time = 0, na_services = SERVICE_NETWORK, na_address = V4 (0, 0, 0, 0), na_port = 0\<rparr>,
      vp_nonce = replicate 8 0, vp_agent = ascii ''/hns-dane-browser:'' @ package_version @ ascii ''/'',
      vp_height = 0, vp_no_relay = True\<rparr>"

definition relay_requester_version :: "rust_str \<Rightarrow> version_packet" where
  "relay_requester_version package_version =
     (version_packet_default package_version)
       \<lparr>vp_services := 0,
        vp_remote := \<lparr>na_time = 0, na_services = 0, na_address = V4 (0, 0, 0, 0), na_port = 0\<rparr>\<rparr>"

record ('w, 'c) relay_ops =
  op_package_version :: rust_str
  op_connect :: "socket_addr \<Rightarrow> network \<Rightarrow> 'w \<Rightarrow> (p2p_error + 'c) \<times> 'w"
  op_handshake :: "version_packet \<Rightarrow> 'c \<Rightarrow> 'w \<Rightarrow> (p2p_error + version_packet) \<times> 'c \<times> 'w"
  op_send :: "packet \<Rightarrow> 'c \<Rightarrow> 'w \<Rightarrow> (p2p_error + unit) \<times> 'c \<times> 'w"
  op_receive :: "'c \<Rightarrow> 'w \<Rightarrow> (p2p_error + packet) \<times> 'c \<times> 'w"
  op_close :: "'c \<Rightarrow> 'w \<Rightarrow> 'w"
  op_expired :: "'w \<Rightarrow> bool \<times> 'w"
  op_random :: "'w \<Rightarrow> u64 option \<times> 'w"

datatype relay_client_error =
    InvalidRelayQuery relay_validation_error
  | NoCapablePeer
  | RandomnessUnavailable
  | RelayTransport p2p_error
  | RelayStatus dns_relay_status
  | InvalidResponse relay_validation_error
  | UnsolicitedResponse u64
  | UnexpectedPacket
  | AdvisoryPacketLimit

record relay_exchange =
  ex_response :: bytes
  ex_peer :: socket_addr
  ex_retries :: nat

record 'c live_relay =
  lv_address :: socket_addr
  lv_services :: u64
  lv_connection :: 'c

record ('w, 'c) relay_client =
  rc_network :: network
  rc_peers :: peer_manager
  rc_connections :: "'c live_relay list"
  rc_cooldowns :: "socket_addr \<rightharpoonup> u64"
  rc_pending :: "u64 set"
  rc_proof_peer :: "socket_addr option"
  rc_max_connections :: nat
  rc_alternate_retries :: nat
  rc_world :: 'w

definition relay_client_new :: "network \<Rightarrow> peer_manager \<Rightarrow> 'w \<Rightarrow> ('w, 'c) relay_client" where
  "relay_client_new network peers w =
     \<lparr>rc_network = network, rc_peers = peers, rc_connections = [], rc_cooldowns = Map.empty, rc_pending = {},
      rc_proof_peer = None, rc_max_connections = DEFAULT_MAX_DNS_RELAY_CONNECTIONS,
      rc_alternate_retries = DEFAULT_DNS_RELAY_ALTERNATE_RETRIES, rc_world = w\<rparr>"

datatype attempt_action = ActNone | ActClose | ActBackoff | ActTransport | ActMalformed

record attempt_failure =
  af_retryable :: bool
  af_action :: attempt_action
  af_error :: relay_client_error

definition unknown_status_failure :: attempt_failure where
  "unknown_status_failure =
     \<lparr>af_retryable = True, af_action = ActClose, af_error = RelayTransport InvalidDnsRelayStatus\<rparr>"

definition transport_failure :: "relay_client_error \<Rightarrow> attempt_failure" where
  "transport_failure e = \<lparr>af_retryable = True, af_action = ActTransport, af_error = e\<rparr>"

definition malformed_failure :: "relay_client_error \<Rightarrow> attempt_failure" where
  "malformed_failure e = \<lparr>af_retryable = True, af_action = ActMalformed, af_error = e\<rparr>"

text \<open>\<open>AttemptFailure::status\<close>, which is never given \<open>Ok\<close> (\<open>unreachable!\<close> in the source): that arm is left out.\<close>

definition status_failure :: "dns_relay_status \<Rightarrow> attempt_failure" where
  "status_failure st =
     (if st = InvalidQuery then \<lparr>af_retryable = False, af_action = ActNone, af_error = RelayStatus st\<rparr>
      else if st = Refused then \<lparr>af_retryable = True, af_action = ActNone, af_error = RelayStatus st\<rparr>
      else \<lparr>af_retryable = True, af_action = ActBackoff, af_error = RelayStatus st\<rparr>)"

subsection \<open>Connections\<close>

text \<open>\<open>Vec::swap_remove\<close>.\<close>

definition swap_remove :: "nat \<Rightarrow> 'a list \<Rightarrow> 'a list" where
  "swap_remove i xs = (if Suc i = length xs then butlast xs else (butlast xs)[i := last xs])"

definition remove_connection :: "('w, 'c) relay_ops \<Rightarrow> nat \<Rightarrow> ('w, 'c) relay_client \<Rightarrow> ('w, 'c) relay_client" where
  "remove_connection ops index c =
     c\<lparr>rc_connections := swap_remove index (rc_connections c),
       rc_world := op_close ops (lv_connection (rc_connections c ! index)) (rc_world c)\<rparr>"

definition cool_down :: "socket_addr \<Rightarrow> u64 \<Rightarrow> ('w, 'c) relay_client \<Rightarrow> ('w, 'c) relay_client" where
  "cool_down a now c =
     c\<lparr>rc_cooldowns := (rc_cooldowns c)(a \<mapsto> add_u64 now DEFAULT_DNS_RELAY_COOLDOWN_SECONDS)\<rparr>"

lemma length_swap_remove: "i < length xs \<Longrightarrow> length (swap_remove i xs) = length xs - 1"
  by (simp add: swap_remove_def)

function drop_banned :: "('w, 'c) relay_ops \<Rightarrow> u64 \<Rightarrow> nat \<Rightarrow> ('w, 'c) relay_client \<Rightarrow> ('w, 'c) relay_client" where
  "drop_banned ops now index c =
     (if index < length (rc_connections c) then
        (case map_of (rc_peers c) (lv_address (rc_connections c ! index)) of
           Some st \<Rightarrow>
             if is_banned now st then drop_banned ops now index (remove_connection ops index c)
             else drop_banned ops now (index + 1) c
         | None \<Rightarrow> drop_banned ops now (index + 1) c)
      else c)"
  by pat_completeness auto
termination
  by (relation "measure (\<lambda>(_, _, i, c). length (rc_connections c) - i)")
    (auto simp: remove_connection_def length_swap_remove)

declare drop_banned.simps [simp del]

text \<open>The loop over the candidates, with the handshakes still allowed.\<close>

fun connect_loop ::
  "('w, 'c) relay_ops \<Rightarrow> u64 \<Rightarrow> socket_addr set \<Rightarrow> socket_addr set \<Rightarrow> socket_addr list \<Rightarrow> nat \<Rightarrow>
   ('w, 'c) relay_client \<Rightarrow> nat \<times> ('w, 'c) relay_client"
where
  "connect_loop ops now connected exclude [] budget c = (budget, c)"
| "connect_loop ops now connected exclude (a # candidates) budget c =
     (if length (rc_connections c) \<ge> rc_max_connections c \<or> budget = 0 then (budget, c)
      else if a \<in> connected \<or> a \<in> exclude \<or> (case rc_cooldowns c a of None \<Rightarrow> False | Some until \<Rightarrow> until > now)
        then connect_loop ops now connected exclude candidates budget c
      else
      let budget = budget - 1; (expired, w) = op_expired ops (rc_world c) in
      if expired then (budget, c\<lparr>rc_world := w\<rparr>)
      else case op_connect ops a (rc_network c) w of
        (Inl e, w) \<Rightarrow>
          connect_loop ops now connected exclude candidates budget
            (cool_down a now (c\<lparr>rc_world := w, rc_peers := record_transient_failure a (rc_peers c)\<rparr>))
      | (Inr conn, w) \<Rightarrow>
          (case op_handshake ops (relay_requester_version (op_package_version ops)) conn w of
             (Inr remote, conn, w) \<Rightarrow>
               (let c = c\<lparr>rc_peers := record_connection a now (rc_peers c)\<rparr> in
                if vp_services remote AND EXPERIMENTAL_DNS_RELAY_SERVICE = 0
                then connect_loop ops now connected exclude candidates budget
                       (cool_down a now (c\<lparr>rc_world := op_close ops conn w\<rparr>))
                else connect_loop ops now connected exclude candidates budget
                       (c\<lparr>rc_world := w, rc_connections := rc_connections c @
                          [\<lparr>lv_address = a, lv_services = vp_services remote, lv_connection = conn\<rparr>]\<rparr>))
           | (Inl e, conn, w) \<Rightarrow>
               connect_loop ops now connected exclude candidates budget
                 (cool_down a now (c\<lparr>rc_world := op_close ops conn w, rc_peers := record_transient_failure a (rc_peers c)\<rparr>))))"

definition proof_peer_last :: "socket_addr option \<Rightarrow> socket_addr list \<Rightarrow> socket_addr list" where
  "proof_peer_last proof_peer candidates =
     (case proof_peer of
        None \<Rightarrow> candidates
      | Some p \<Rightarrow> if p \<in> set candidates then remove1 p candidates @ [p] else candidates)"

definition replenish_connections ::
  "('w, 'c) relay_ops \<Rightarrow> u64 \<Rightarrow> socket_addr set \<Rightarrow> nat \<Rightarrow> ('w, 'c) relay_client \<Rightarrow> nat \<times> ('w, 'c) relay_client"
where
  "replenish_connections ops now exclude budget c =
     (let c = drop_banned ops now 0 c in
      if length (rc_connections c) \<ge> rc_max_connections c then (budget, c) else
      let connected = set (map lv_address (rc_connections c));
          candidates = proof_peer_last (rc_proof_peer c) (select_outbound (length (rc_peers c)) now (rc_peers c))
      in connect_loop ops now connected exclude candidates budget c)"

definition select_connection ::
  "u64 \<Rightarrow> socket_addr set \<Rightarrow> ('w, 'c) relay_client \<Rightarrow> (nat \<times> socket_addr) option"
where
  "select_connection now exclude c =
     (let capabilities = map (\<lambda>l. \<lparr>cap_address = lv_address l, cap_services = lv_services l,
            cap_fully_handshaken = True, cap_cooldown_until = rc_cooldowns c (lv_address l)\<rparr>) (rc_connections c) in
      case find (\<lambda>a. a \<notin> exclude)
             (select_dns_relay capabilities (length (rc_connections c)) now (rc_proof_peer c) (rc_peers c)) of
        None \<Rightarrow> None
      | Some a \<Rightarrow>
          map_option (\<lambda>i. (i, a)) (find (\<lambda>i. lv_address (rc_connections c ! i) = a) [0..<length (rc_connections c)]))"

subsection \<open>One exchange\<close>

definition relay_send ::
  "('w, 'c) relay_ops \<Rightarrow> nat \<Rightarrow> packet \<Rightarrow> ('w, 'c) relay_client \<Rightarrow> (p2p_error + unit) \<times> ('w, 'c) relay_client"
where
  "relay_send ops index packet c =
     (let live = rc_connections c ! index in
      case op_send ops packet (lv_connection live) (rc_world c) of
        (r, conn, w) \<Rightarrow> (r, c\<lparr>rc_connections := (rc_connections c)[index := live\<lparr>lv_connection := conn\<rparr>], rc_world := w\<rparr>))"

definition relay_receive ::
  "('w, 'c) relay_ops \<Rightarrow> nat \<Rightarrow> ('w, 'c) relay_client \<Rightarrow> (p2p_error + packet) \<times> ('w, 'c) relay_client"
where
  "relay_receive ops index c =
     (let live = rc_connections c ! index in
      case op_receive ops (lv_connection live) (rc_world c) of
        (r, conn, w) \<Rightarrow> (r, c\<lparr>rc_connections := (rc_connections c)[index := live\<lparr>lv_connection := conn\<rparr>], rc_world := w\<rparr>))"

definition on_relay_answer ::
  "u64 \<Rightarrow> bytes \<Rightarrow> u64 set \<Rightarrow> dns_relay_packet \<Rightarrow> attempt_failure + bytes"
where
  "on_relay_answer request_id query pending response =
     (if dr_request_id response \<noteq> request_id \<or> request_id \<notin> pending
      then Inl (malformed_failure (UnsolicitedResponse (dr_request_id response)))
      else if dr_status response \<noteq> RelayOk then Inl (status_failure (dr_status response))
      else case validate_dns_relay_response query (dr_response response) of
        Inl e \<Rightarrow> Inl (malformed_failure (InvalidResponse e))
      | Inr _ \<Rightarrow> Inr (dr_response response))"

fun exchange_loop ::
  "('w, 'c) relay_ops \<Rightarrow> nat \<Rightarrow> u64 \<Rightarrow> bytes \<Rightarrow> nat \<Rightarrow> ('w, 'c) relay_client \<Rightarrow>
   (attempt_failure + bytes) \<times> ('w, 'c) relay_client"
where
  "exchange_loop ops index request_id query 0 c = (Inl (transport_failure AdvisoryPacketLimit), c)"
| "exchange_loop ops index request_id query (Suc n) c =
     (case relay_receive ops index c of
        (Inl e, c) \<Rightarrow>
          (if e = InvalidDnsRelayStatus then (Inl unknown_status_failure, c)
           else (Inl (transport_failure (RelayTransport e)), c))
      | (Inr packet, c) \<Rightarrow>
          (case packet of
             PktDnsRelay response \<Rightarrow> (on_relay_answer request_id query (rc_pending c) response, c)
           | PktPing ping \<Rightarrow>
               (case relay_send ops index (PktPong ping) c of
                  (Inl e, c) \<Rightarrow> (Inl (transport_failure (RelayTransport e)), c)
                | (Inr _, c) \<Rightarrow> exchange_loop ops index request_id query n c)
           | PktVersion _ \<Rightarrow> (Inl (malformed_failure UnexpectedPacket), c)
           | _ \<Rightarrow> exchange_loop ops index request_id query n c))"

definition exchange ::
  "('w, 'c) relay_ops \<Rightarrow> nat \<Rightarrow> u64 \<Rightarrow> bytes \<Rightarrow> ('w, 'c) relay_client \<Rightarrow>
   (attempt_failure + bytes) \<times> ('w, 'c) relay_client"
where
  "exchange ops index request_id query c =
     (case get_relay_new request_id query of
        Inl e \<Rightarrow> (Inl (transport_failure (RelayTransport e)), c)
      | Inr request \<Rightarrow>
          (case relay_send ops index (PktGetDnsRelay request) c of
             (Inl e, c) \<Rightarrow> (Inl (transport_failure (RelayTransport e)), c)
           | (Inr _, c) \<Rightarrow> exchange_loop ops index request_id query MAX_ADVISORY_PACKETS_PER_EXCHANGE c))"

fun allocate_loop :: "('w, 'c) relay_ops \<Rightarrow> nat \<Rightarrow> ('w, 'c) relay_client \<Rightarrow>
  (relay_client_error + u64) \<times> ('w, 'c) relay_client"
where
  "allocate_loop ops 0 c = (Inl RandomnessUnavailable, c)"
| "allocate_loop ops (Suc n) c =
     (case op_random ops (rc_world c) of
        (None, w) \<Rightarrow> (Inl RandomnessUnavailable, c\<lparr>rc_world := w\<rparr>)
      | (Some request_id, w) \<Rightarrow>
          (let c = c\<lparr>rc_world := w\<rparr> in
           if request_id \<noteq> 0 \<and> request_id \<notin> rc_pending c then (Inr request_id, c) else allocate_loop ops n c))"

definition allocate_request_id ::
  "('w, 'c) relay_ops \<Rightarrow> ('w, 'c) relay_client \<Rightarrow> (relay_client_error + u64) \<times> ('w, 'c) relay_client"
where
  "allocate_request_id ops c = allocate_loop ops 16 c"

subsection \<open>Resolution\<close>

definition settle_failure ::
  "('w, 'c) relay_ops \<Rightarrow> u64 \<Rightarrow> nat \<Rightarrow> socket_addr \<Rightarrow> attempt_action \<Rightarrow> ('w, 'c) relay_client \<Rightarrow> ('w, 'c) relay_client"
where
  "settle_failure ops now index address action c =
     (case action of
        ActClose \<Rightarrow> remove_connection ops index c
      | ActMalformed \<Rightarrow>
          remove_connection ops index (cool_down address now
            (c\<lparr>rc_peers := record_malformed address now DEFAULT_DNS_RELAY_MALFORMED_BAN_SECONDS (rc_peers c)\<rparr>))
      | ActTransport \<Rightarrow>
          remove_connection ops index (cool_down address now (c\<lparr>rc_peers := record_transient_failure address (rc_peers c)\<rparr>))
      | ActBackoff \<Rightarrow> cool_down address now c
      | ActNone \<Rightarrow> c)"

definition last_error_or :: "relay_client_error option \<Rightarrow> relay_client_error" where
  "last_error_or e = (case e of None \<Rightarrow> NoCapablePeer | Some e \<Rightarrow> e)"

fun resolve_loop ::
  "('w, 'c) relay_ops \<Rightarrow> bytes \<Rightarrow> u64 \<Rightarrow> nat list \<Rightarrow> socket_addr set \<Rightarrow> relay_client_error option \<Rightarrow> nat \<Rightarrow>
   ('w, 'c) relay_client \<Rightarrow> (relay_client_error + relay_exchange) \<times> ('w, 'c) relay_client"
where
  "resolve_loop ops query now [] attempted last_error budget c = (Inl (last_error_or last_error), c)"
| "resolve_loop ops query now (retry # later) attempted last_error budget c =
     (let (budget, c) = replenish_connections ops now attempted budget c in
      case select_connection now attempted c of
        None \<Rightarrow> (Inl (last_error_or last_error), c)
      | Some (index, address) \<Rightarrow>
          (let attempted = insert address attempted in
           case allocate_request_id ops c of
             (Inl e, c) \<Rightarrow> (Inl e, c)
           | (Inr request_id, c) \<Rightarrow>
               (let c = c\<lparr>rc_pending := insert request_id (rc_pending c)\<rparr>;
                    (result, c) = exchange ops index request_id query c;
                    c = c\<lparr>rc_pending := rc_pending c - {request_id}\<rparr> in
                case result of
                  Inr response \<Rightarrow>
                    (Inr \<lparr>ex_response = response, ex_peer = address, ex_retries = retry\<rparr>,
                     c\<lparr>rc_peers := record_transport_success address now (rc_peers c)\<rparr>)
                | Inl failure \<Rightarrow>
                    (let c = settle_failure ops now index address (af_action failure) c in
                     if \<not> af_retryable failure then (Inl (last_error_or (Some (af_error failure))), c)
                     else resolve_loop ops query now later attempted (Some (af_error failure)) budget c))))"

definition resolve_at ::
  "('w, 'c) relay_ops \<Rightarrow> bytes \<Rightarrow> u64 \<Rightarrow> ('w, 'c) relay_client \<Rightarrow>
   (relay_client_error + relay_exchange) \<times> ('w, 'c) relay_client"
where
  "resolve_at ops query now c =
     (case prepare_dns_relay_query query of
        Inl e \<Rightarrow> (Inl (InvalidRelayQuery e), c)
      | Inr query \<Rightarrow>
          resolve_loop ops query now [0..<Suc (rc_alternate_retries c)] {} None
            MAX_DNS_RELAY_HANDSHAKE_ATTEMPTS_PER_RESOLUTION c)"

definition report_dnssec_failure ::
  "('w, 'c) relay_ops \<Rightarrow> socket_addr \<Rightarrow> u64 \<Rightarrow> ('w, 'c) relay_client \<Rightarrow> bool \<times> ('w, 'c) relay_client"
where
  "report_dnssec_failure ops peer now c =
     (case find (\<lambda>i. lv_address (rc_connections c ! i) = peer) [0..<length (rc_connections c)] of
        None \<Rightarrow> (False, c)
      | Some index \<Rightarrow>
          (True, remove_connection ops index (cool_down peer now
             (c\<lparr>rc_peers := record_malformed peer now DEFAULT_DNS_RELAY_MALFORMED_BAN_SECONDS (rc_peers c)\<rparr>))))"

definition relay_shutdown :: "('w, 'c) relay_ops \<Rightarrow> ('w, 'c) relay_client \<Rightarrow> ('w, 'c) relay_client" where
  "relay_shutdown ops c =
     c\<lparr>rc_connections := [], rc_pending := {},
       rc_world := fold (\<lambda>l w. op_close ops (lv_connection l) w) (rc_connections c) (rc_world c)\<rparr>"

section \<open>The invariant\<close>

definition live_ids :: "('w, 'c) relay_client \<Rightarrow> (socket_addr \<times> u64) list" where
  "live_ids c = map (\<lambda>l. (lv_address l, lv_services l)) (rc_connections c)"

definition serves_relay :: "u64 \<Rightarrow> bool" where
  "serves_relay services \<longleftrightarrow> services AND EXPERIMENTAL_DNS_RELAY_SERVICE \<noteq> 0"

definition client_ok :: "('w, 'c) relay_client \<Rightarrow> bool" where
  "client_ok c \<longleftrightarrow>
     peers_ok (rc_peers c) \<and> distinct (map fst (live_ids c)) \<and> length (live_ids c) \<le> rc_max_connections c \<and>
     list_all (\<lambda>(_, services). serves_relay services) (live_ids c)"

text \<open>What every step of a resolution keeps: the configuration, the pending requests, and the bans in force.\<close>

definition keeps :: "u64 \<Rightarrow> ('w, 'c) relay_client \<Rightarrow> ('w, 'c) relay_client \<Rightarrow> bool" where
  "keeps now c c' \<longleftrightarrow>
     rc_max_connections c' = rc_max_connections c \<and> rc_alternate_retries c' = rc_alternate_retries c \<and>
     rc_pending c' = rc_pending c \<and> rc_proof_peer c' = rc_proof_peer c \<and> rc_network c' = rc_network c \<and>
     (client_ok c \<longrightarrow> client_ok c') \<and>
     (\<forall>a. is_banned now (peer_entry a (rc_peers c)) \<longrightarrow> is_banned now (peer_entry a (rc_peers c')))"

lemma keeps_refl [simp]: "keeps now c c"
  by (simp add: keeps_def)

lemma keeps_trans: "keeps now c c1 \<Longrightarrow> keeps now c1 c2 \<Longrightarrow> keeps now c c2"
  unfolding keeps_def by simp

lemma keeps_ban:
  "keeps now c c' \<Longrightarrow> is_banned now (peer_entry a (rc_peers c)) \<Longrightarrow> is_banned now (peer_entry a (rc_peers c'))"
  unfolding keeps_def by blast

lemma swap_remove_mset: "i < length xs \<Longrightarrow> mset (swap_remove i xs) = mset (take i xs @ drop (Suc i) xs)"
proof -
  assume i: "i < length xs"
  show ?thesis
  proof (cases "Suc i = length xs")
    case True
    then show ?thesis by (cases xs rule: rev_cases) (auto simp: swap_remove_def)
  next
    case False
    define ys z where "ys = butlast xs" and "z = last xs"
    have "xs \<noteq> []" using i by auto
    then have xs: "xs = ys @ [z]" by (simp add: ys_def z_def)
    with i False have "i < length ys" by simp
    then have "ys[i := z] = take i ys @ z # drop (Suc i) ys" by (simp add: upd_conv_take_nth_drop)
    with \<open>i < length ys\<close> False show ?thesis by (simp add: swap_remove_def xs)
  qed
qed

lemma swap_remove_props:
  assumes "i < length xs"
  shows "map f (swap_remove i xs) = swap_remove i (map f xs)" "set (swap_remove i xs) \<subseteq> set xs"
    "distinct xs \<Longrightarrow> distinct (swap_remove i xs)" "distinct xs \<Longrightarrow> set (swap_remove i xs) = set xs - {xs ! i}"
proof -
  have ne: "xs \<noteq> []" using assms by auto
  show "map f (swap_remove i xs) = swap_remove i (map f xs)"
    using assms ne by (simp add: swap_remove_def map_butlast map_update last_map)
  have s: "set (swap_remove i xs) = set (take i xs @ drop (Suc i) xs)"
    using swap_remove_mset [OF assms] by (metis set_mset_mset)
  then show "set (swap_remove i xs) \<subseteq> set xs" by (auto dest: in_set_takeD in_set_dropD)
  assume d: "distinct xs"
  have split: "xs = take i xs @ xs ! i # drop (Suc i) xs" using assms by (rule id_take_nth_drop)
  have d': "distinct (take i xs @ xs ! i # drop (Suc i) xs)" using d split by simp
  then have "distinct (take i xs @ drop (Suc i) xs)" by auto
  then show "distinct (swap_remove i xs)" using swap_remove_mset [OF assms] by (metis mset_eq_imp_distinct_iff)
  have "set xs = set (take i xs) \<union> {xs ! i} \<union> set (drop (Suc i) xs)" by (subst split) auto
  with d' s show "set (swap_remove i xs) = set xs - {xs ! i}" by auto
qed

lemma remove_connection_keeps:
  assumes "i < length (rc_connections c)"
  shows "keeps now c (remove_connection ops i c)"
proof -
  have l: "live_ids (remove_connection ops i c) = swap_remove i (live_ids c)" "i < length (live_ids c)"
    using assms by (simp_all add: live_ids_def remove_connection_def swap_remove_props(1))
  have "client_ok (remove_connection ops i c)" if "client_ok c"
    using that swap_remove_props(2) [OF l(2)] swap_remove_props(3) [of i "map fst (live_ids c)"] l
    by (auto simp: client_ok_def swap_remove_props(1) length_swap_remove list_all_iff remove_connection_def)
  then show ?thesis by (simp add: keeps_def remove_connection_def)
qed

lemma upsert_keeps:
  assumes "\<And>p. ps_score p \<in> {- (2 ^ 31)..<2 ^ 31} \<Longrightarrow>
      ps_address (change p) = ps_address p \<and> ps_score (change p) \<in> {- (2 ^ 31)..<2 ^ 31}"
    and "\<And>p. is_banned now p \<Longrightarrow> p = peer_entry a (rc_peers c) \<Longrightarrow> is_banned now (change p)"
  shows "keeps now c (c\<lparr>rc_peers := upsert change a (rc_peers c)\<rparr>)"
  using upsert_ok [of "rc_peers c" change a] assms
  by (simp add: keeps_def client_ok_def live_ids_def peer_entry_upsert)

lemma records_keep:
  "keeps now c (c\<lparr>rc_peers := record_transient_failure a (rc_peers c)\<rparr>)"
  "keeps now c (c\<lparr>rc_peers := record_connection a t (rc_peers c)\<rparr>)"
  "keeps now c (c\<lparr>rc_peers := record_transport_success a t (rc_peers c)\<rparr>)"
  "\<not> is_banned now (peer_entry a (rc_peers c)) \<Longrightarrow> keeps now c (c\<lparr>rc_peers := record_malformed a t s (rc_peers c)\<rparr>)"
  unfolding record_transient_failure_def record_connection_def record_transport_success_def record_malformed_def
    penalize_def
  by (rule upsert_keeps; auto simp: is_banned_def Let_def max_def)+

lemma frame_keeps:
  "keeps now c (cool_down a t c)" "keeps now c (c\<lparr>rc_world := w\<rparr>)"
  by (simp_all add: keeps_def cool_down_def client_ok_def live_ids_def)

lemma drop_banned_keeps: "keeps now c (drop_banned ops now i c)"
proof (induction ops now i c rule: drop_banned.induct)
  case (1 ops now i c)
  show ?case
  proof (cases "i < length (rc_connections c)")
    case True
    show ?thesis
    proof (cases "map_of (rc_peers c) (lv_address (rc_connections c ! i))")
      case None
      with 1(1) [OF True None] True show ?thesis by (simp add: drop_banned.simps [of ops now i c])
    next
      case (Some st)
      show ?thesis
      proof (cases "is_banned now st")
        case b: True
        from 1(2) [OF True Some b] remove_connection_keeps [OF True] show ?thesis
          using True Some b by (simp add: drop_banned.simps [of ops now i c]) (metis keeps_trans)
      next
        case b: False
        from 1(3) [OF True Some b] show ?thesis using True Some b by (simp add: drop_banned.simps [of ops now i c])
      qed
    qed
  qed (simp add: drop_banned.simps [of ops now i c])
qed

lemma connect_loop_keeps:
  assumes "connect_loop ops now connected exclude candidates budget c = (budget', c')"
    and "distinct candidates" "set (map fst (live_ids c)) \<inter> set candidates \<subseteq> connected"
  shows "keeps now c c' \<and> budget' \<le> budget"
  using assms
proof (induction candidates arbitrary: budget c)
  case (Cons a as)
  have d: "distinct as" "a \<notin> set as" using Cons.prems(2) by simp_all
  let ?skip = "a \<in> connected \<or> a \<in> exclude \<or> (case rc_cooldowns c a of None \<Rightarrow> False | Some until \<Rightarrow> until > now)"
  show ?case
  proof (cases "length (rc_connections c) \<ge> rc_max_connections c \<or> budget = 0 \<or> ?skip")
    case True
    have "set (map fst (live_ids c)) \<inter> set as \<subseteq> connected" using Cons.prems(3) by auto
    note IH = Cons.IH [OF _ d(1) this]
    consider "length (rc_connections c) \<ge> rc_max_connections c \<or> budget = 0"
      | "\<not> (length (rc_connections c) \<ge> rc_max_connections c \<or> budget = 0)" ?skip using True by blast
    then show ?thesis
    proof cases
      case 1
      then show ?thesis using Cons.prems(1) by (simp only: connect_loop.simps if_True) simp
    next
      case 2
      have "connect_loop ops now connected exclude as budget c = (budget', c')"
        using Cons.prems(1) [unfolded connect_loop.simps if_not_P [OF 2(1)] if_P [OF 2(2)]] .
      then show ?thesis by (rule IH)
    qed
  next
    case False
    then have ns: "\<not> (length (rc_connections c) \<ge> rc_max_connections c \<or> budget = 0)" "\<not> ?skip" by simp_all
    obtain expired w where w: "op_expired ops (rc_world c) = (expired, w)" by force
    obtain r1 w1 where r1: "op_connect ops a (rc_network c) w = (r1, w1)" by force
    have step: "keeps now c c' \<and> budget' \<le> budget"
      if "connect_loop ops now connected exclude as (budget - 1) d = (budget', c')" "keeps now c d"
        "live_ids d = live_ids c \<or> (\<exists>s. live_ids d = live_ids c @ [(a, s)])" for d
    proof -
      have "set (map fst (live_ids d)) \<inter> set as \<subseteq> connected"
      proof -
        have "set (map fst (live_ids d)) \<subseteq> insert a (set (map fst (live_ids c)))" using that(3) by auto
        moreover have "set (map fst (live_ids c)) \<inter> set as \<subseteq> connected" using Cons.prems(3) by auto
        ultimately show ?thesis using d(2) by blast
      qed
      from Cons.IH [OF that(1) d(1) this] that(2) show ?thesis by (auto intro: keeps_trans)
    qed
    note prem = Cons.prems(1) [unfolded connect_loop.simps if_not_P [OF ns(1)] if_not_P [OF ns(2)] Let_def w prod.case]
    show ?thesis
    proof (cases expired)
      case True
      with prem show ?thesis by (auto simp: frame_keeps)
    next
      case False
      note prem = prem [unfolded if_not_P [OF False] r1 prod.case]
      have fail: "keeps now c (cool_down a now (c\<lparr>rc_world := v, rc_peers := record_transient_failure a (rc_peers c)\<rparr>))" for v
        using keeps_trans [OF keeps_trans [OF frame_keeps(2) records_keep(1)] frame_keeps(1)] by simp
      show ?thesis
      proof (cases r1)
        case (Inl e)
        show ?thesis by (rule step [OF prem [unfolded Inl sum.case] fail]) (simp add: cool_down_def live_ids_def)
      next
        case (Inr conn)
        obtain r2 conn2 w2 where r2: "op_handshake ops (relay_requester_version (op_package_version ops)) conn w1 = (r2, conn2, w2)"
          by (metis prod_cases3)
        note prem = prem [unfolded Inr sum.case r2 prod.case]
        show ?thesis
        proof (cases r2)
          case (Inl e)
          show ?thesis by (rule step [OF prem [unfolded Inl sum.case] fail]) (simp add: cool_down_def live_ids_def)
        next
          case (Inr remote)
          note prem = prem [unfolded Inr sum.case]
          have rec: "keeps now c (c\<lparr>rc_peers := record_connection a now (rc_peers c), rc_world := v\<rparr>)" for v
            by (rule keeps_trans [OF records_keep(2) frame_keeps(2)])
          show ?thesis
          proof (cases "vp_services remote AND EXPERIMENTAL_DNS_RELAY_SERVICE = 0")
            case True
            show ?thesis
              by (rule step [OF prem [unfolded if_P [OF True]]])
                (simp_all add: cool_down_def live_ids_def keeps_trans [OF rec frame_keeps(1) [unfolded cool_down_def], simplified])
          next
            case False
            let ?d = "c\<lparr>rc_peers := record_connection a now (rc_peers c), rc_world := w2,
              rc_connections := rc_connections c @ [\<lparr>lv_address = a, lv_services = vp_services remote, lv_connection = conn2\<rparr>]\<rparr>"
            have ids: "live_ids ?d = live_ids c @ [(a, vp_services remote)]" by (simp add: live_ids_def)
            have "a \<notin> set (map fst (live_ids c))" using Cons.prems(3) ns(2) by auto
            then have "client_ok ?d" if "client_ok c"
              using that rec [of w2] False ns(1) unfolding keeps_def client_ok_def ids
              by (auto simp: live_ids_def serves_relay_def)
            then have "keeps now c ?d" using rec [of w2] by (simp add: keeps_def)
            moreover have "connect_loop ops now connected exclude as (budget - 1) ?d = (budget', c')"
              using prem [unfolded if_not_P [OF False]] by simp
            ultimately show ?thesis using step [of ?d] ids by blast
          qed
        qed
      qed
    qed
  qed
qed simp

lemma proof_peer_last_props:
  "distinct (proof_peer_last p as) \<longleftrightarrow> distinct as" "set (proof_peer_last p as) = set as"
proof -
  have m: "mset (proof_peer_last p as) = mset as" by (simp add: proof_peer_last_def split: option.splits)
  then show "distinct (proof_peer_last p as) \<longleftrightarrow> distinct as" by (rule mset_eq_imp_distinct_iff)
  from m show "set (proof_peer_last p as) = set as" by (metis set_mset_mset)
qed

lemma replenish_keeps:
  assumes "replenish_connections ops now exclude budget c = (budget', c')" "client_ok c"
  shows "keeps now c c' \<and> budget' \<le> budget"
proof -
  define d where "d = drop_banned ops now 0 c"
  have k: "keeps now c d" by (simp add: d_def drop_banned_keeps)
  then have ok: "peers_ok (rc_peers d)" using assms(2) by (simp add: keeps_def client_ok_def)
  let ?cs = "proof_peer_last (rc_proof_peer d) (select_outbound (length (rc_peers d)) now (rc_peers d))"
  have dist: "distinct ?cs"
    unfolding proof_peer_last_props select_outbound_def by (rule pick_sorted(1) [OF ok refl])
  show ?thesis
  proof (cases "length (rc_connections d) \<ge> rc_max_connections d")
    case True
    with assms(1) k show ?thesis by (simp add: replenish_connections_def d_def [symmetric])
  next
    case False
    with assms(1) have "connect_loop ops now (set (map lv_address (rc_connections d))) exclude ?cs budget d = (budget', c')"
      by (simp add: replenish_connections_def d_def [symmetric] Let_def)
    from connect_loop_keeps [OF this dist] k show ?thesis by (auto simp: live_ids_def intro: keeps_trans)
  qed
qed

section \<open>Selection and exchange\<close>

lemma select_connection_sound:
  assumes "select_connection now exclude c = Some (i, a)"
  shows "i < length (rc_connections c)" "lv_address (rc_connections c ! i) = a" "a \<notin> exclude"
    "a \<in> fst ` set (rc_peers c)" "\<not> is_banned now (peer_entry a (rc_peers c))"
    "case rc_cooldowns c a of None \<Rightarrow> True | Some until \<Rightarrow> until \<le> now"
proof -
  let ?caps = "map (\<lambda>l. \<lparr>cap_address = lv_address l, cap_services = lv_services l,
            cap_fully_handshaken = True, cap_cooldown_until = rc_cooldowns c (lv_address l)\<rparr>) (rc_connections c)"
  from assms have f: "find (\<lambda>a. a \<notin> exclude)
        (select_dns_relay ?caps (length (rc_connections c)) now (rc_proof_peer c) (rc_peers c)) = Some a"
    and i: "find (\<lambda>i. lv_address (rc_connections c ! i) = a) [0..<length (rc_connections c)] = Some i"
    by (auto simp: select_connection_def Let_def split: option.splits)
  from i show "i < length (rc_connections c)" "lv_address (rc_connections c ! i) = a"
    by (auto simp: find_Some_iff)
  from f have a: "a \<in> set (select_dns_relay ?caps (length (rc_connections c)) now (rc_proof_peer c) (rc_peers c))" "a \<notin> exclude"
    by (auto simp: find_Some_iff)
  then show "a \<notin> exclude" by simp
  from select_dns_relay_sound [OF a(1)] obtain cap st where
    s: "cap \<in> set ?caps" "cap_address cap = a" "is_eligible now cap" "map_of (rc_peers c) a = Some st" "\<not> is_banned now st"
    by blast
  then show "\<not> is_banned now (peer_entry a (rc_peers c))" by (simp add: peer_entry_def)
  show "a \<in> fst ` set (rc_peers c)" using s(4) by (metis domI dom_map_of_conv_image_fst)
  show "case rc_cooldowns c a of None \<Rightarrow> True | Some until \<Rightarrow> until \<le> now" using s(1-3) by (auto simp: is_eligible_def)
qed

text \<open>An exchange changes nothing but the state of its connection and the world.\<close>

definition same_live :: "('w, 'c) relay_client \<Rightarrow> ('w, 'c) relay_client \<Rightarrow> bool" where
  "same_live c c' \<longleftrightarrow>
     live_ids c' = live_ids c \<and> c' = c\<lparr>rc_connections := rc_connections c', rc_world := rc_world c'\<rparr>"

lemma same_live_refl [simp]: "same_live c c"
  by (simp add: same_live_def)

lemma same_live_trans: "same_live c c1 \<Longrightarrow> same_live c1 c2 \<Longrightarrow> same_live c c2"
  unfolding same_live_def by (cases c; cases c1; cases c2) simp

lemma same_live_fields:
  assumes "same_live c c'"
  shows "live_ids c' = live_ids c" "rc_pending c' = rc_pending c" "rc_peers c' = rc_peers c"
    "length (rc_connections c') = length (rc_connections c)" "keeps now c c'"
proof -
  have e: "c' = c\<lparr>rc_connections := rc_connections c', rc_world := rc_world c'\<rparr>" and l: "live_ids c' = live_ids c"
    using assms by (simp_all only: same_live_def)
  show "live_ids c' = live_ids c" by (rule l)
  show len: "length (rc_connections c') = length (rc_connections c)"
    using arg_cong [OF l, of length] by (simp add: live_ids_def)
  have f: "rc_pending c' = rc_pending c" "rc_peers c' = rc_peers c" "rc_max_connections c' = rc_max_connections c"
    "rc_alternate_retries c' = rc_alternate_retries c" "rc_proof_peer c' = rc_proof_peer c" "rc_network c' = rc_network c"
    by (subst e, simp)+
  then show "rc_pending c' = rc_pending c" "rc_peers c' = rc_peers c" by simp_all
  from f l show "keeps now c c'" by (simp add: keeps_def client_ok_def)
qed

lemma relay_io_same:
  assumes "i < length (rc_connections c)"
  shows "relay_send ops i p c = (r, c') \<Longrightarrow> same_live c c'" "relay_receive ops i c = (q, c') \<Longrightarrow> same_live c c'"
proof -
  have "live_ids (c\<lparr>rc_connections := (rc_connections c)[i := (rc_connections c ! i)\<lparr>lv_connection := conn\<rparr>], rc_world := w\<rparr>)
      = live_ids c" for conn w
    using assms by (simp add: live_ids_def map_update list_update_same_conv)
  then show "relay_send ops i p c = (r, c') \<Longrightarrow> same_live c c'" "relay_receive ops i c = (q, c') \<Longrightarrow> same_live c c'"
    by (auto simp: relay_send_def relay_receive_def Let_def same_live_def split: prod.splits)
qed

lemma exchange_loop_sound:
  assumes "exchange_loop ops i request_id query n c = (r, c')" "i < length (rc_connections c)"
  shows "same_live c c' \<and> (\<forall>response. r = Inr response \<longrightarrow> validate_dns_relay_response query response = Inr ())"
  using assms
proof (induction n arbitrary: c)
  case (Suc n)
  obtain q c1 where q: "relay_receive ops i c = (q, c1)" by force
  note s1 = relay_io_same(2) [OF Suc.prems(2) q]
  then have i1: "i < length (rc_connections c1)" using Suc.prems(2) same_live_fields(4) by metis
  show ?case
  proof (cases q)
    case (Inl e)
    with Suc.prems q s1 show ?thesis by (auto split: if_splits)
  next
    case (Inr packet)
    have again: "?thesis" if "exchange_loop ops i request_id query n c2 = (r, c')" "same_live c1 c2" for c2
    proof -
      have "i < length (rc_connections c2)" using i1 that(2) same_live_fields(4) by metis
      from Suc.IH [OF that(1) this] s1 that(2) show ?thesis by (meson same_live_trans)
    qed
    show ?thesis
    proof (cases packet)
      case (PktDnsRelay response)
      with Suc.prems(1) q Inr s1 show ?thesis
        by (auto simp: on_relay_answer_def split: if_splits sum.splits)
    next
      case (PktPing ping)
      obtain u c2 where u: "relay_send ops i (PktPong ping) c1 = (u, c2)" by force
      note s2 = relay_io_same(1) [OF i1 u]
      show ?thesis
      proof (cases u)
        case (Inl e)
        then show ?thesis using Suc.prems(1) q Inr PktPing u same_live_trans [OF s1 s2] by auto
      next
        case v: (Inr v)
        have "exchange_loop ops i request_id query n c2 = (r, c')" using Suc.prems(1) q Inr PktPing u v by simp
        from again [OF this s2] show ?thesis .
      qed
    next
      case (PktVersion v)
      with Suc.prems(1) q Inr s1 show ?thesis by auto
    qed (rule again [of c1]; use Suc.prems(1) q Inr in simp)+
  qed
qed auto

lemma exchange_sound:
  assumes "exchange ops i request_id query c = (r, c')" "i < length (rc_connections c)"
  shows "same_live c c' \<and> (\<forall>response. r = Inr response \<longrightarrow> validate_dns_relay_response query response = Inr ())"
proof (cases "get_relay_new request_id query")
  case (Inl e)
  with assms show ?thesis by (auto simp: exchange_def)
next
  case (Inr request)
  obtain u c1 where u: "relay_send ops i (PktGetDnsRelay request) c = (u, c1)" by force
  note s = relay_io_same(1) [OF assms(2) u]
  show ?thesis
  proof (cases u)
    case (Inl e)
    with assms Inr u s show ?thesis by (auto simp: exchange_def)
  next
    case v: (Inr v)
    have "i < length (rc_connections c1)" using assms(2) same_live_fields(4) [OF s] by metis
    moreover have "exchange_loop ops i request_id query MAX_ADVISORY_PACKETS_PER_EXCHANGE c1 = (r, c')"
      using assms(1) Inr u v by (simp add: exchange_def)
    ultimately show ?thesis using exchange_loop_sound s by (meson same_live_trans)
  qed
qed

lemma allocate_sound:
  assumes "allocate_loop ops n c = (r, c')"
  shows "c' = c\<lparr>rc_world := rc_world c'\<rparr> \<and> (\<forall>request_id. r = Inr request_id \<longrightarrow> request_id \<noteq> 0 \<and> request_id \<notin> rc_pending c)"
  using assms
proof (induction n arbitrary: c)
  case (Suc n)
  obtain x w where x: "op_random ops (rc_world c) = (x, w)" by force
  show ?case
  proof (cases x)
    case (Some request_id)
    show ?thesis
    proof (cases "request_id \<noteq> 0 \<and> request_id \<notin> rc_pending c")
      case False
      then have "allocate_loop ops n (c\<lparr>rc_world := w\<rparr>) = (r, c')" using Suc.prems x Some by (auto simp: Let_def)
      from Suc.IH [OF this] show ?thesis by simp
    qed (use Suc.prems x Some in \<open>auto simp: Let_def\<close>)
  qed (use Suc.prems x in auto)
qed auto

section \<open>Resolution\<close>

lemma settle_keeps:
  assumes "i < length (rc_connections c)" "\<not> is_banned now (peer_entry a (rc_peers c))"
  shows "keeps now c (settle_failure ops now i a action c)"
proof -
  have rm: "keeps now d (remove_connection ops i (cool_down a now d))" if "length (rc_connections d) = length (rc_connections c)" for d
    using that assms(1) by (intro keeps_trans [OF frame_keeps(1) remove_connection_keeps]) (simp add: cool_down_def)
  show ?thesis
  proof (cases action)
    case ActMalformed
    then show ?thesis
      unfolding settle_failure_def using keeps_trans [OF records_keep(4) [OF assms(2)] rm] by simp
  next
    case ActTransport
    then show ?thesis
      unfolding settle_failure_def using keeps_trans [OF records_keep(1) rm] by simp
  qed (simp_all add: settle_failure_def remove_connection_keeps assms(1) frame_keeps)
qed

lemma keeps_pending:
  assumes "keeps now (c\<lparr>rc_pending := insert x (rc_pending c)\<rparr>) c'" "x \<notin> rc_pending c"
  shows "keeps now c (c'\<lparr>rc_pending := rc_pending c' - {x}\<rparr>)"
  using assms by (auto simp: keeps_def client_ok_def live_ids_def)

lemma resolve_loop_sound:
  assumes "resolve_loop ops query now retries attempted last_error budget c = (r, c')" "client_ok c"
  shows "keeps now c c' \<and> (\<forall>ex. r = Inr ex \<longrightarrow>
      validate_dns_relay_response query (ex_response ex) = Inr () \<and> ex_retries ex \<in> set retries \<and> ex_peer ex \<notin> attempted \<and>
      \<not> is_banned now (peer_entry (ex_peer ex) (rc_peers c)) \<and> ex_peer ex \<in> fst ` set (rc_peers c') \<and>
      (\<exists>s. (ex_peer ex, s) \<in> set (live_ids c') \<and> serves_relay s))"
  using assms
proof (induction retries arbitrary: attempted last_error budget c)
  case (Cons retry later)
  obtain b1 c1 where c1: "replenish_connections ops now attempted budget c = (b1, c1)" by force
  from replenish_keeps [OF c1 Cons.prems(2)] have k1: "keeps now c c1" by simp
  then have ok1: "client_ok c1" using Cons.prems(2) by (simp add: keeps_def)
  show ?case
  proof (cases "select_connection now attempted c1")
    case None
    with Cons.prems(1) c1 k1 show ?thesis by auto
  next
    case (Some ia)
    obtain i a where "ia = (i, a)" by (rule prod.exhaust)
    with Some have sel: "select_connection now attempted c1 = Some (i, a)" by simp
    note s = select_connection_sound [OF sel]
    obtain q c2 where q: "allocate_request_id ops c1 = (q, c2)" by force
    have c2: "c2 = c1\<lparr>rc_world := rc_world c2\<rparr>" using allocate_sound q by (metis allocate_request_id_def)
    have k2: "keeps now c1 c2" by (subst c2) (rule frame_keeps(2))
    have f2: "rc_peers c2 = rc_peers c1" "rc_connections c2 = rc_connections c1" "rc_pending c2 = rc_pending c1"
      by (subst c2, simp)+
    show ?thesis
    proof (cases q)
      case (Inl e)
      with Cons.prems(1) c1 sel q keeps_trans [OF k1 k2] show ?thesis by auto
    next
      case (Inr request_id)
      have fresh: "request_id \<notin> rc_pending c2"
        using allocate_sound q Inr f2(3) by (metis allocate_request_id_def)
      let ?d = "c2\<lparr>rc_pending := insert request_id (rc_pending c2)\<rparr>"
      obtain x c3 where x: "exchange ops i request_id query ?d = (x, c3)" by force
      have "i < length (rc_connections ?d)" using s(1) f2(2) by simp
      note e = exchange_sound [OF x this]
      then have sl: "same_live ?d c3" by simp
      define c4 where "c4 = c3\<lparr>rc_pending := rc_pending c3 - {request_id}\<rparr>"
      have k4: "keeps now c2 c4" unfolding c4_def by (rule keeps_pending [OF same_live_fields(5) [OF sl] fresh])
      have f4: "rc_peers c4 = rc_peers c1" "length (rc_connections c4) = length (rc_connections c1)" "live_ids c4 = live_ids c1"
        using same_live_fields [OF sl] f2 by (simp_all add: c4_def live_ids_def)
      have k: "keeps now c c4" by (rule keeps_trans [OF k1 keeps_trans [OF k2 k4]])
      have nb: "\<not> is_banned now (peer_entry a (rc_peers c))" using s(5) keeps_ban [OF k1] by blast
      show ?thesis
      proof (cases x)
        case r: (Inr response)
        have res: "r = Inr \<lparr>ex_response = response, ex_peer = a, ex_retries = retry\<rparr>"
          "c' = c4\<lparr>rc_peers := record_transport_success a now (rc_peers c4)\<rparr>"
          using Cons.prems(1) c1 sel q Inr x r by (simp_all add: Let_def c4_def)
        have "(a, lv_services (rc_connections c1 ! i)) \<in> set (live_ids c1)"
          using s(1,2) by (auto simp: live_ids_def)
        moreover from this have "serves_relay (lv_services (rc_connections c1 ! i))"
          using ok1 by (auto simp: client_ok_def list_all_iff)
        moreover have "live_ids c' = live_ids c1" using f4 res(2) by (simp add: live_ids_def)
        moreover have "keeps now c c'" unfolding res(2) by (rule keeps_trans [OF k records_keep(3)])
        moreover have "a \<in> fst ` set (rc_peers c')"
        proof -
          have "map_of (rc_peers c') a \<noteq> None" by (simp add: res(2) record_transport_success_def upsert_def update_conv')
          then show ?thesis by (metis domIff dom_map_of_conv_image_fst)
        qed
        ultimately show ?thesis using e r s(3) nb res by auto
      next
        case (Inl failure)
        have "\<not> is_banned now (peer_entry a (rc_peers c4))" "i < length (rc_connections c4)"
          using s f4 by simp_all
        note st = settle_keeps [OF this(2,1), of ops "af_action failure"]
        let ?c5 = "settle_failure ops now i a (af_action failure) c4"
        have k5: "keeps now c ?c5" by (rule keeps_trans [OF k st])
        show ?thesis
        proof (cases "af_retryable failure")
          case False
          with Cons.prems(1) c1 sel q Inr x Inl k5 show ?thesis by (auto simp: Let_def c4_def)
        next
          case True
          have rec: "resolve_loop ops query now later (insert a attempted) (Some (af_error failure)) b1 ?c5 = (r, c')"
            using Cons.prems(1) c1 sel q Inr x Inl True by (simp add: Let_def c4_def)
          have "client_ok ?c5" using k5 Cons.prems(2) by (simp add: keeps_def)
          note IH = Cons.IH [OF rec this]
          then have "keeps now c c'" using k5 by (meson keeps_trans)
          moreover have "\<not> is_banned now (peer_entry p (rc_peers c))" if "\<not> is_banned now (peer_entry p (rc_peers ?c5))" for p
            using that keeps_ban [OF k5] by blast
          ultimately show ?thesis using IH by auto
        qed
      qed
    qed
  qed
qed auto

lemma resolve_at_sound:
  assumes "resolve_at ops query now c = (r, c')" "client_ok c"
  shows "keeps now c c' \<and> (\<forall>ex. r = Inr ex \<longrightarrow>
      (\<exists>prepared. prepare_dns_relay_query query = Inr prepared \<and>
         validate_dns_relay_response prepared (ex_response ex) = Inr ()) \<and>
      ex_retries ex \<le> rc_alternate_retries c \<and> \<not> is_banned now (peer_entry (ex_peer ex) (rc_peers c)) \<and>
      ex_peer ex \<in> fst ` set (rc_peers c') \<and> (\<exists>s. (ex_peer ex, s) \<in> set (live_ids c') \<and> serves_relay s))"
proof (cases "prepare_dns_relay_query query")
  case (Inl e)
  with assms show ?thesis by (auto simp: resolve_at_def)
next
  case (Inr prepared)
  then have "resolve_loop ops prepared now [0..<Suc (rc_alternate_retries c)] {} None
      MAX_DNS_RELAY_HANDSHAKE_ATTEMPTS_PER_RESOLUTION c = (r, c')"
    using assms(1) by (simp add: resolve_at_def)
  from resolve_loop_sound [OF this assms(2)] Inr show ?thesis by auto
qed

lemma report_sound:
  assumes "report_dnssec_failure ops peer now c = (True, c')" "client_ok c" "0 \<le> ps_score (peer_entry peer (rc_peers c))"
  shows "client_ok c' \<and> peer \<notin> set (map fst (live_ids c')) \<and>
    (\<forall>t < add_u64 now DEFAULT_DNS_RELAY_MALFORMED_BAN_SECONDS. is_banned t (peer_entry peer (rc_peers c')))"
proof -
  from assms(1) obtain i where i: "find (\<lambda>i. lv_address (rc_connections c ! i) = peer) [0..<length (rc_connections c)] = Some i"
    and c': "c' = remove_connection ops i (cool_down peer now
      (c\<lparr>rc_peers := record_malformed peer now DEFAULT_DNS_RELAY_MALFORMED_BAN_SECONDS (rc_peers c)\<rparr>))"
    by (auto simp: report_dnssec_failure_def split: option.splits)
  from i have i: "i < length (rc_connections c)" "lv_address (rc_connections c ! i) = peer"
    by (auto simp: find_Some_iff)
  let ?d = "cool_down peer now (c\<lparr>rc_peers := record_malformed peer now DEFAULT_DNS_RELAY_MALFORMED_BAN_SECONDS (rc_peers c)\<rparr>)"
  have p: "peers_ok (rc_peers ?d)"
    using assms(2) unfolding cool_down_def record_malformed_def penalize_def
    by (simp add: client_ok_def Let_def) (intro upsert_ok; auto simp: Let_def)
  have l: "live_ids ?d = live_ids c" "rc_connections ?d = rc_connections c" by (simp_all add: cool_down_def live_ids_def)
  have "client_ok ?d" using assms(2) p l by (simp add: client_ok_def cool_down_def)
  with remove_connection_keeps [of i ?d now ops] i l c' have "client_ok c'" by (simp add: keeps_def)
  moreover have "peer \<notin> set (map fst (live_ids c'))"
  proof -
    have "map fst (live_ids c') = swap_remove i (map fst (live_ids c))"
      using i(1) by (simp add: c' remove_connection_def live_ids_def cool_down_def swap_remove_props(1) comp_def)
    moreover have "distinct (map fst (live_ids c))" "map fst (live_ids c) ! i = peer"
      using assms(2) i by (simp_all add: client_ok_def live_ids_def)
    ultimately show ?thesis using swap_remove_props(4) [of i "map fst (live_ids c)"] i(1) by (simp add: live_ids_def)
  qed
  moreover have "ps_banned_until (peer_entry peer (rc_peers c')) = Some (add_u64 now DEFAULT_DNS_RELAY_MALFORMED_BAN_SECONDS)"
    using assms(3)
    by (simp add: c' remove_connection_def cool_down_def record_malformed_def penalize_def peer_entry_upsert Let_def
        peer_scores sat_i32_def)
  ultimately show ?thesis by (simp add: is_banned_def)
qed

section \<open>Properties\<close>


text \<open>The client's invariant: addresses of live connections are distinct, there are at most as many as configured, each
  showed the relay service in its handshake, and the peer book is consistent. A resolution keeps it whatever it returns,
  as do reports of answers that failed DNSSEC validation, shutting down, and starting anew.\<close>

theorem relay_client_invariant:
  assumes "client_ok c"
  shows "client_ok (snd (resolve_at ops query now c)) \<and> rc_pending (snd (resolve_at ops query now c)) = rc_pending c \<and>
    client_ok (snd (report_dnssec_failure ops peer now c)) \<and> client_ok (relay_shutdown ops c) \<and>
    client_ok (relay_client_new network (rc_peers c) w)"
proof -
  obtain r c' where r: "resolve_at ops query now c = (r, c')" by force
  from resolve_at_sound [OF r assms] have "keeps now c c'" by simp
  then have "client_ok c'" "rc_pending c' = rc_pending c" using assms by (simp_all add: keeps_def)
  moreover have "client_ok (snd (report_dnssec_failure ops peer now c))"
  proof (cases "find (\<lambda>i. lv_address (rc_connections c ! i) = peer) [0..<length (rc_connections c)]")
    case (Some i)
    let ?d = "cool_down peer now (c\<lparr>rc_peers := record_malformed peer now DEFAULT_DNS_RELAY_MALFORMED_BAN_SECONDS (rc_peers c)\<rparr>)"
    have "peers_ok (rc_peers ?d)"
      using assms unfolding cool_down_def record_malformed_def penalize_def
      by (simp add: client_ok_def Let_def) (intro upsert_ok; auto simp: Let_def)
    then have "client_ok ?d" using assms by (simp add: client_ok_def cool_down_def live_ids_def)
    moreover have "i < length (rc_connections ?d)" using Some by (auto simp: find_Some_iff cool_down_def)
    ultimately have "client_ok (remove_connection ops i ?d)"
      using remove_connection_keeps [of i ?d now ops] by (simp add: keeps_def)
    with Some show ?thesis by (simp add: report_dnssec_failure_def)
  qed (use assms in \<open>simp add: report_dnssec_failure_def\<close>)
  moreover have "client_ok (relay_shutdown ops c)"
    using assms by (simp add: client_ok_def relay_shutdown_def live_ids_def)
  moreover have "client_ok (relay_client_new network (rc_peers c) w)"
    using assms by (simp add: client_ok_def relay_client_new_def live_ids_def)
  ultimately show ?thesis using r by simp
qed

text \<open>A peer whose answer failed DNSSEC validation is not asked again while its ban lasts: once a failure of a live
  peer has been reported, no resolution in the ban period returns an answer from it.\<close>

theorem reported_peer_not_trusted:
  assumes "client_ok c" "0 \<le> ps_score (peer_entry peer (rc_peers c))"
    and "report_dnssec_failure ops peer now c = (True, c1)"
    and "later < add_u64 now DEFAULT_DNS_RELAY_MALFORMED_BAN_SECONDS"
    and "resolve_at ops query later c1 = (Inr ex, c2)"
  shows "ex_peer ex \<noteq> peer"
proof -
  from report_sound [OF assms(3,1,2)] assms(4) have "client_ok c1" "is_banned later (peer_entry peer (rc_peers c1))"
    by simp_all
  with resolve_at_sound [OF assms(5)] show ?thesis by auto
qed

section \<open>Witnesses\<close>

definition relay_ops_sample :: "(nat, unit) relay_ops" where
  "relay_ops_sample =
     \<lparr>op_package_version = [], op_connect = (\<lambda>_ _ w. (Inl ConnectionClosed, w)),
      op_handshake = (\<lambda>v c w. (Inl ConnectionClosed, c, w)), op_send = (\<lambda>_ c w. (Inr (), c, w)),
      op_receive = (\<lambda>c w. (Inr (PktDnsRelay \<lparr>dr_request_id = 1, dr_status = RelayOk, dr_response = relay_message_bytes 0x8180\<rparr>), c, w)),
      op_close = (\<lambda>_ w. w), op_expired = (\<lambda>w. (False, w)), op_random = (\<lambda>w. (Some 1, w))\<rparr>"

definition relay_peer_a :: socket_addr where "relay_peer_a = (V4 (1, 2, 3, 4), 12038)"
definition relay_peer_b :: socket_addr where "relay_peer_b = (V4 (5, 6, 7, 8), 12038)"

definition relay_client_sample :: "(nat, unit) relay_client" where
  "relay_client_sample =
     (relay_client_new mainnet (from_states [peer_state_new relay_peer_a, peer_state_new relay_peer_b]) 0)
       \<lparr>rc_connections := [\<lparr>lv_address = relay_peer_a, lv_services = EXPERIMENTAL_DNS_RELAY_SERVICE, lv_connection = ()\<rparr>,
          \<lparr>lv_address = relay_peer_b, lv_services = EXPERIMENTAL_DNS_RELAY_SERVICE, lv_connection = ()\<rparr>]\<rparr>"

lemma relay_peers_differ [simp]: "relay_peer_a \<noteq> relay_peer_b" "relay_peer_b \<noteq> relay_peer_a"
  by (simp_all add: relay_peer_a_def relay_peer_b_def)

lemma relay_sample_ok: "client_ok relay_client_sample"
  by (simp add: client_ok_def relay_client_sample_def relay_client_new_def live_ids_def peers_ok_def from_states_def
      peer_state_new_def serves_relay_def EXPERIMENTAL_DNS_RELAY_SERVICE_def DEFAULT_MAX_DNS_RELAY_CONNECTIONS_def)

lemma sample_response_valid:
  "validate_dns_relay_response sample_prepared_query (relay_message_bytes 0x8180) = Inr ()"
proof -
  have "validate_dns_relay_query sample_prepared_query True = Inr (relay_message 0x0110)"
    unfolding sample_prepared_query_def by (rule relay_message_valid) (simp_all add: opcode_def)
  moreover have "length (relay_message_bytes 0x8180) \<le> 65535"
    by (simp add: relay_message_bytes_def relay_message_def question_bytes_def record_bytes_def wire_def)
  ultimately show ?thesis
    by (simp add: validate_dns_relay_response_def relay_message_parses relay_limits is_response_def opcode_def relay_message_def)
qed

lemma sample_request_new: "\<exists>request. get_relay_new 1 sample_prepared_query = Inr request"
proof -
  have "length sample_prepared_query \<le> 4096" "sample_prepared_query \<noteq> []"
    by (simp_all add: sample_prepared_query_def relay_message_bytes_def relay_message_def question_bytes_def
        record_bytes_def wire_def header_bytes_def)
  then show ?thesis by (simp add: get_relay_new_def get_relay_validate_def relay_limits)
qed

lemma sample_exchange:
  assumes "1 \<in> rc_pending c" "i < length (rc_connections c)"
  shows "fst (exchange relay_ops_sample i 1 sample_prepared_query c) = Inr (relay_message_bytes 0x8180)"
proof -
  obtain request where "get_relay_new 1 sample_prepared_query = Inr request" using sample_request_new ..
  with assms show ?thesis
    by (simp add: exchange_def relay_send_def relay_receive_def relay_ops_sample_def Let_def
        MAX_ADVISORY_PACKETS_PER_EXCHANGE_def numeral_eq_Suc on_relay_answer_def sample_response_valid)
qed

lemma sample_resolves:
  assumes "replenish_connections relay_ops_sample now {} MAX_DNS_RELAY_HANDSHAKE_ATTEMPTS_PER_RESOLUTION c = (b, c1)"
    and "select_connection now {} c1 = Some (i, a)" "rc_pending c1 = {}"
  shows "\<exists>ex c'. resolve_at relay_ops_sample sample_relay_query now c = (Inr ex, c')"
proof -
  have al: "allocate_request_id relay_ops_sample c1 = (Inr 1, c1\<lparr>rc_world := rc_world c1\<rparr>)"
    using assms(3) by (simp add: allocate_request_id_def relay_ops_sample_def numeral_eq_Suc)
  let ?d = "c1\<lparr>rc_pending := {1}\<rparr>"
  obtain r c2 where x: "exchange relay_ops_sample i 1 sample_prepared_query ?d = (r, c2)" by force
  have "i < length (rc_connections ?d)" using select_connection_sound(1) [OF assms(2)] by simp
  then have "r = Inr (relay_message_bytes 0x8180)" using sample_exchange [of ?d i] x by simp
  with assms al x show ?thesis
    by (simp add: resolve_at_def sample_query_prepares upt_rec Let_def)
qed

lemma relay_book_sample:
  "from_states [peer_state_new relay_peer_a, peer_state_new relay_peer_b] =
     [(relay_peer_a, peer_state_new relay_peer_a), (relay_peer_b, peer_state_new relay_peer_b)]"
  by (simp add: from_states_def peer_state_new_def)

lemma drop_no_banned:
  assumes "\<forall>l\<in>set (rc_connections c). \<not> is_banned now (peer_entry (lv_address l) (rc_peers c))"
  shows "drop_banned ops now i c = c"
  using assms
proof (induction ops now i c rule: drop_banned.induct)
  case (1 ops now i c)
  show ?case
  proof (cases "i < length (rc_connections c)")
    case True
    then have l: "rc_connections c ! i \<in> set (rc_connections c)" by simp
    show ?thesis
    proof (cases "map_of (rc_peers c) (lv_address (rc_connections c ! i))")
      case None
      with 1(1) [OF True None 1(4)] True show ?thesis by (simp add: drop_banned.simps [of ops now i c])
    next
      case (Some st)
      then have "\<not> is_banned now st" using 1(4) l by (auto simp: peer_entry_def)
      with 1(3) [OF True Some this 1(4)] True Some show ?thesis by (simp add: drop_banned.simps [of ops now i c])
    qed
  qed (simp add: drop_banned.simps [of ops now i c])
qed

lemma peer_state_new_fields [simp]:
  "ps_address (peer_state_new a) = a" "ps_score (peer_state_new a) = 0" "ps_last_height (peer_state_new a) = 0"
  "ps_banned_until (peer_state_new a) = None" "is_banned t (peer_state_new a) \<longleftrightarrow> False"
  by (simp_all add: peer_state_new_def is_banned_def)

lemma relay_sample_eq:
  "rc_connections relay_client_sample =
     [\<lparr>lv_address = relay_peer_a, lv_services = EXPERIMENTAL_DNS_RELAY_SERVICE, lv_connection = ()\<rparr>,
      \<lparr>lv_address = relay_peer_b, lv_services = EXPERIMENTAL_DNS_RELAY_SERVICE, lv_connection = ()\<rparr>]"
  "rc_peers relay_client_sample = [(relay_peer_a, peer_state_new relay_peer_a), (relay_peer_b, peer_state_new relay_peer_b)]"
  "rc_pending relay_client_sample = {}" "rc_proof_peer relay_client_sample = None"
  "rc_cooldowns relay_client_sample = Map.empty" "rc_max_connections relay_client_sample = 2"
  by (simp_all add: relay_client_sample_def relay_client_new_def relay_book_sample DEFAULT_MAX_DNS_RELAY_CONNECTIONS_def)

lemma sample_client_resolves: "\<exists>ex c'. resolve_at relay_ops_sample sample_relay_query 0 relay_client_sample = (Inr ex, c')"
proof (rule sample_resolves)
  have "drop_banned relay_ops_sample 0 0 relay_client_sample = relay_client_sample"
    by (rule drop_no_banned)
      (simp add: relay_sample_eq peer_entry_def)
  then show "replenish_connections relay_ops_sample 0 {} MAX_DNS_RELAY_HANDSHAKE_ATTEMPTS_PER_RESOLUTION relay_client_sample =
      (MAX_DNS_RELAY_HANDSHAKE_ATTEMPTS_PER_RESOLUTION, relay_client_sample)"
    by (simp add: replenish_connections_def Let_def relay_sample_eq)
  show "select_connection 0 {} relay_client_sample = Some (0, relay_peer_a)"
    by (simp add: select_connection_def relay_sample_eq select_dns_relay_def is_eligible_def
        EXPERIMENTAL_DNS_RELAY_SERVICE_def List.map_filter_simps relay_key_def relay_peer_a_def relay_peer_b_def pick_peers_def Let_def upt_rec)
  show "rc_pending relay_client_sample = {}" by (simp add: relay_sample_eq)
qed

text \<open>The client after a report against its second peer.\<close>

definition relay_reported_sample :: "(nat, unit) relay_client" where
  "relay_reported_sample = snd (report_dnssec_failure relay_ops_sample relay_peer_b 0 relay_client_sample)"

lemma relay_reported_eq:
  "report_dnssec_failure relay_ops_sample relay_peer_b 0 relay_client_sample = (True, relay_reported_sample)"
  "rc_connections relay_reported_sample =
     [\<lparr>lv_address = relay_peer_a, lv_services = EXPERIMENTAL_DNS_RELAY_SERVICE, lv_connection = ()\<rparr>]"
  "rc_peers relay_reported_sample = [(relay_peer_a, peer_state_new relay_peer_a),
     (relay_peer_b, (peer_state_new relay_peer_b)\<lparr>ps_score := 100, ps_banned_until := Some 600\<rparr>)]"
  "rc_pending relay_reported_sample = {}" "rc_proof_peer relay_reported_sample = None"
  "rc_cooldowns relay_reported_sample = [relay_peer_b \<mapsto> 30]" "rc_max_connections relay_reported_sample = 2"
  by (simp_all add: relay_reported_sample_def report_dnssec_failure_def relay_sample_eq upt_rec remove_connection_def swap_remove_def cool_down_def record_malformed_def penalize_def
      upsert_def peer_entry_def peer_scores sat_i32_def add_u64_def Let_def
      DEFAULT_DNS_RELAY_MALFORMED_BAN_SECONDS_def DEFAULT_DNS_RELAY_COOLDOWN_SECONDS_def)

lemma reported_client_resolves:
  "\<exists>ex c'. resolve_at relay_ops_sample sample_relay_query 1 relay_reported_sample = (Inr ex, c')"
proof (rule sample_resolves)
  have d: "drop_banned relay_ops_sample 1 0 relay_reported_sample = relay_reported_sample"
    by (rule drop_no_banned) (simp add: relay_reported_eq peer_entry_def)
  have "select_outbound (length (rc_peers relay_reported_sample)) 1 (rc_peers relay_reported_sample) = [relay_peer_a]"
    by (simp add: relay_reported_eq select_outbound_def is_banned_def pick_peers_def Let_def)
  then show "replenish_connections relay_ops_sample 1 {} MAX_DNS_RELAY_HANDSHAKE_ATTEMPTS_PER_RESOLUTION relay_reported_sample =
      (MAX_DNS_RELAY_HANDSHAKE_ATTEMPTS_PER_RESOLUTION, relay_reported_sample)"
    by (simp add: replenish_connections_def Let_def d proof_peer_last_def relay_reported_eq
        MAX_DNS_RELAY_HANDSHAKE_ATTEMPTS_PER_RESOLUTION_def)
  show "select_connection 1 {} relay_reported_sample = Some (0, relay_peer_a)"
    by (simp add: select_connection_def relay_reported_eq select_dns_relay_def is_eligible_def
        EXPERIMENTAL_DNS_RELAY_SERVICE_def List.map_filter_simps relay_key_def relay_peer_a_def relay_peer_b_def pick_peers_def Let_def upt_rec)
qed (simp add: relay_reported_eq)


theorem relay_client_invariant_witness:
  "client_ok (snd (resolve_at relay_ops_sample sample_relay_query 0 relay_client_sample)) \<and>
    rc_pending (snd (resolve_at relay_ops_sample sample_relay_query 0 relay_client_sample)) = rc_pending relay_client_sample \<and>
    client_ok (snd (report_dnssec_failure relay_ops_sample relay_peer_b 0 relay_client_sample)) \<and>
    client_ok (relay_shutdown relay_ops_sample relay_client_sample) \<and>
    client_ok (relay_client_new mainnet (rc_peers relay_client_sample) (0 :: nat) :: (nat, unit) relay_client)"
  by (rule relay_client_invariant) (rule relay_sample_ok)

theorem reported_peer_not_trusted_witness:
  "\<exists>ex c2. resolve_at relay_ops_sample sample_relay_query 1 relay_reported_sample = (Inr ex, c2) \<and> ex_peer ex \<noteq> relay_peer_b"
proof -
  obtain ex c2 where r: "resolve_at relay_ops_sample sample_relay_query 1 relay_reported_sample = (Inr ex, c2)"
    using reported_client_resolves by blast
  have "0 \<le> ps_score (peer_entry relay_peer_b (rc_peers relay_client_sample))"
    by (simp add: relay_sample_eq peer_entry_def)
  moreover have "1 < add_u64 0 DEFAULT_DNS_RELAY_MALFORMED_BAN_SECONDS"
    by (simp add: add_u64_def DEFAULT_DNS_RELAY_MALFORMED_BAN_SECONDS_def)
  ultimately have "ex_peer ex \<noteq> relay_peer_b"
    using reported_peer_not_trusted [OF relay_sample_ok _ relay_reported_eq(1) _ r] by blast
  with r show ?thesis by blast
qed

end
