(* ===== verification/Rate_Limit.thy ===== *)
theory Rate_Limit
  imports Prelude "HOL-Library.AList"
begin

text \<open>
  \<open>hns-loopback-proxy/src/rate_limit.rs\<close>: the counter of active clients, as interleaved steps of the threads that
  share it, and the sliding-window limiter of requests. An \<open>Instant\<close> and a \<open>Duration\<close> are numbers of nanoseconds; the
  largest instant of the platform, past which \<open>checked_add\<close> fails, and the keyed hash of host names are parameters.
\<close>

section \<open>Definitions\<close>

definition DEFAULT_GLOBAL_REQUESTS_PER_WINDOW :: nat where "DEFAULT_GLOBAL_REQUESTS_PER_WINDOW = 240"
definition DEFAULT_HOST_REQUESTS_PER_WINDOW :: nat where "DEFAULT_HOST_REQUESTS_PER_WINDOW = 80"
definition DEFAULT_MAX_TRACKED_HOSTS :: nat where "DEFAULT_MAX_TRACKED_HOSTS = 256"
definition DEFAULT_RATE_WINDOW :: nat where "DEFAULT_RATE_WINDOW = 10 * 10 ^ 9"

record rate_limit_config =
  rc_global_requests :: nat
  rc_per_host_requests :: nat
  rc_window :: nat
  rc_max_tracked_hosts :: nat

definition rate_limit_config_default :: rate_limit_config where
  "rate_limit_config_default =
     \<lparr>rc_global_requests = DEFAULT_GLOBAL_REQUESTS_PER_WINDOW, rc_per_host_requests = DEFAULT_HOST_REQUESTS_PER_WINDOW,
      rc_window = DEFAULT_RATE_WINDOW, rc_max_tracked_hosts = DEFAULT_MAX_TRACKED_HOSTS\<rparr>"

datatype rate_config_error =
  ZeroGlobalLimit | ZeroHostLimit | ZeroWindow | ZeroTrackedHosts | HostLimitExceedsGlobal | ExceedsMaximum

definition rate_config_validate :: "rate_limit_config \<Rightarrow> rate_config_error + rate_limit_config" where
  "rate_config_validate c =
     (if rc_global_requests c = 0 then Inl ZeroGlobalLimit
      else if rc_per_host_requests c = 0 then Inl ZeroHostLimit
      else if rc_window c = 0 then Inl ZeroWindow
      else if rc_max_tracked_hosts c = 0 then Inl ZeroTrackedHosts
      else if rc_per_host_requests c > rc_global_requests c then Inl HostLimitExceedsGlobal
      else if rc_global_requests c > DEFAULT_GLOBAL_REQUESTS_PER_WINDOW \<or>
              rc_per_host_requests c > DEFAULT_HOST_REQUESTS_PER_WINDOW \<or>
              rc_window c > DEFAULT_RATE_WINDOW \<or> rc_max_tracked_hosts c > DEFAULT_MAX_TRACKED_HOSTS
        then Inl ExceedsMaximum
      else Inr c)"

subsection \<open>Active clients\<close>

text \<open>What a task is doing with the counter: nothing, in the loop of \<open>try_acquire\<close> with the value it last observed, or
  holding a permit. A step is one atomic access: the load, the test that gives up, the weak compare-and-exchange (which
  may fail although the value is the one observed), and the drop of a permit.\<close>

datatype client_task = TaskIdle | TaskLoop nat | TaskHolding

record active_limiter =
  al_max :: nat
  al_active :: nat
  al_tasks :: "nat \<Rightarrow> client_task"

definition active_limiter_new :: "nat \<Rightarrow> active_limiter" where
  "active_limiter_new max_active = \<lparr>al_max = max_active, al_active = 0, al_tasks = (\<lambda>_. TaskIdle)\<rparr>"

inductive limiter_step :: "active_limiter \<Rightarrow> active_limiter \<Rightarrow> bool" where
  acquire_load: "limiter_step s (s\<lparr>al_tasks := (al_tasks s)(t := TaskLoop (al_active s))\<rparr>)"
    if "al_tasks s t = TaskIdle"
| acquire_refuse: "limiter_step s (s\<lparr>al_tasks := (al_tasks s)(t := TaskIdle)\<rparr>)"
    if "al_tasks s t = TaskLoop observed" "observed \<ge> al_max s"
| exchange_ok: "limiter_step s (s\<lparr>al_active := observed + 1, al_tasks := (al_tasks s)(t := TaskHolding)\<rparr>)"
    if "al_tasks s t = TaskLoop observed" "observed < al_max s" "al_active s = observed"
| exchange_failed: "limiter_step s (s\<lparr>al_tasks := (al_tasks s)(t := TaskLoop (al_active s))\<rparr>)"
    if "al_tasks s t = TaskLoop observed" "observed < al_max s"
| permit_drop: "limiter_step s (s\<lparr>al_active := al_active s - 1, al_tasks := (al_tasks s)(t := TaskIdle)\<rparr>)"
    if "al_tasks s t = TaskHolding"

subsection \<open>Request rates\<close>

datatype rate_scope = ScopeGlobal | ScopeHost

datatype rate_decision = Allowed | Limited rate_scope nat

record rate_limiter =
  rl_config :: rate_limit_config
  rl_hasher :: "bytes \<Rightarrow> u64"
  rl_max_instant :: nat
  rl_global :: "nat list"
  rl_hosts :: "(u64 \<times> nat list) list"

definition rate_limiter_new ::
  "(bytes \<Rightarrow> u64) \<Rightarrow> nat \<Rightarrow> rate_limit_config \<Rightarrow> rate_config_error + rate_limiter"
where
  "rate_limiter_new hasher max_instant config =
     and_then (rate_config_validate config) (\<lambda>config.
     Inr \<lparr>rl_config = config, rl_hasher = hasher, rl_max_instant = max_instant, rl_global = [], rl_hosts = []\<rparr>)"

definition instant_add :: "nat \<Rightarrow> nat \<Rightarrow> nat \<Rightarrow> nat option" where
  "instant_add max_instant t d = (if t + d \<le> max_instant then Some (t + d) else None)"

definition host_key :: "rate_limiter \<Rightarrow> rust_str \<Rightarrow> u64" where
  "host_key l canonical_host = rl_hasher l (map to_ascii_lower_byte canonical_host)"

definition expire :: "nat \<Rightarrow> nat \<Rightarrow> nat \<Rightarrow> nat list \<Rightarrow> nat list" where
  "expire max_instant now window requests =
     dropWhile (\<lambda>r. case instant_add max_instant r window of None \<Rightarrow> False | Some expires \<Rightarrow> expires \<le> now) requests"

definition rate_retry_after :: "nat \<Rightarrow> nat \<Rightarrow> nat \<Rightarrow> nat list \<Rightarrow> nat" where
  "rate_retry_after max_instant now window requests =
     (case requests of
        [] \<Rightarrow> window
      | r # _ \<Rightarrow> (case instant_add max_instant r window of None \<Rightarrow> window | Some expires \<Rightarrow> expires - now))"

text \<open>The earliest time at which a tracked host's first request leaves its window.\<close>

definition tracked_retry_after :: "nat \<Rightarrow> nat \<Rightarrow> nat \<Rightarrow> (u64 \<times> nat list) list \<Rightarrow> nat" where
  "tracked_retry_after max_instant now window hosts =
     (let firsts = List.map_filter (\<lambda>(_, requests). case requests of [] \<Rightarrow> None | r # _ \<Rightarrow> Some r) hosts;
          waits = map (\<lambda>expires. expires - now) (List.map_filter (\<lambda>r. instant_add max_instant r window) firsts)
      in case waits of [] \<Rightarrow> window | d # ds \<Rightarrow> fold min ds d)"

definition rate_check :: "rust_str \<Rightarrow> nat \<Rightarrow> rate_limiter \<Rightarrow> rate_decision \<times> rate_limiter" where
  "rate_check canonical_host now l =
     (let config = rl_config l; key = host_key l canonical_host; lim = rl_max_instant l; window = rc_window config;
          global = expire lim now window (rl_global l);
          hosts = filter (\<lambda>(_, requests). requests \<noteq> [])
            (map (\<lambda>(k, requests). (k, expire lim now window requests)) (rl_hosts l));
          l = l\<lparr>rl_global := global, rl_hosts := hosts\<rparr>
      in if length global \<ge> rc_global_requests config
         then (Limited ScopeGlobal (rate_retry_after lim now window global), l)
         else case map_of hosts key of
           Some requests \<Rightarrow>
             if length requests \<ge> rc_per_host_requests config
             then (Limited ScopeHost (rate_retry_after lim now window requests), l)
             else (Allowed, l\<lparr>rl_global := global @ [now], rl_hosts := AList.update key (requests @ [now]) hosts\<rparr>)
         | None \<Rightarrow>
             if length hosts \<ge> rc_max_tracked_hosts config
             then (Limited ScopeHost (tracked_retry_after lim now window hosts), l)
             else (Allowed, l\<lparr>rl_global := global @ [now], rl_hosts := AList.update key [now] hosts\<rparr>))"

section \<open>The counter\<close>

inductive limiter_reachable :: "nat \<Rightarrow> active_limiter \<Rightarrow> bool" for n where
  limiter_start: "limiter_reachable n (active_limiter_new n)"
| limiter_next: "limiter_reachable n s'" if "limiter_reachable n s" "limiter_step s s'"

definition holders :: "active_limiter \<Rightarrow> nat set" where
  "holders s = {t. al_tasks s t = TaskHolding}"

definition limiter_inv :: "nat \<Rightarrow> active_limiter \<Rightarrow> bool" where
  "limiter_inv n s \<longleftrightarrow> al_max s = n \<and> finite (holders s) \<and> al_active s = card (holders s) \<and> al_active s \<le> n"

lemma holders_update:
  "holders (s\<lparr>al_active := k, al_tasks := (al_tasks s)(t := x)\<rparr>) =
     (if x = TaskHolding then insert t (holders s) else holders s - {t})"
  "holders (s\<lparr>al_tasks := (al_tasks s)(t := x)\<rparr>) =
     (if x = TaskHolding then insert t (holders s) else holders s - {t})"
  by (auto simp: holders_def)

lemma limiter_step_inv:
  assumes "limiter_step s s'" "limiter_inv n s"
  shows "limiter_inv n s'"
  using assms(1)
proof cases
  case (acquire_load t)
  then have "t \<notin> holders s" by (simp add: holders_def)
  with acquire_load assms(2) show ?thesis by (simp add: limiter_inv_def holders_update)
next
  case (acquire_refuse t observed)
  then have "t \<notin> holders s" by (simp add: holders_def)
  with acquire_refuse assms(2) show ?thesis by (simp add: limiter_inv_def holders_update)
next
  case (exchange_ok t observed)
  then have "t \<notin> holders s" by (simp add: holders_def)
  with exchange_ok assms(2) show ?thesis by (simp add: limiter_inv_def holders_update)
next
  case (exchange_failed t observed)
  then have "t \<notin> holders s" by (simp add: holders_def)
  with exchange_failed assms(2) show ?thesis by (simp add: limiter_inv_def holders_update)
next
  case (permit_drop t)
  then have "t \<in> holders s" by (simp add: holders_def)
  with permit_drop assms(2) show ?thesis
    by (auto simp: limiter_inv_def holders_update card_Diff_singleton intro: le_trans [OF diff_le_self])
qed

lemma limiter_reachable_inv: "limiter_reachable n s \<Longrightarrow> limiter_inv n s"
proof (induction rule: limiter_reachable.induct)
  case limiter_start
  then show ?case by (simp add: limiter_inv_def active_limiter_new_def holders_def)
next
  case (limiter_next s s')
  then show ?case using limiter_step_inv by blast
qed

section \<open>The window\<close>

text \<open>What the limiter should decide, from the log of admitted requests (host key and time): the requests of the last
  window are counted, all of them and those of the host.\<close>

definition live :: "nat \<Rightarrow> nat \<Rightarrow> (u64 \<times> nat) list \<Rightarrow> (u64 \<times> nat) list" where
  "live window now log = filter (\<lambda>(_, t). now < t + window) log"

definition times_of :: "u64 \<Rightarrow> (u64 \<times> nat) list \<Rightarrow> nat list" where
  "times_of k log = map snd (filter (\<lambda>(k', _). k' = k) log)"

definition spec_decision :: "rate_limit_config \<Rightarrow> (u64 \<times> nat) list \<Rightarrow> u64 \<Rightarrow> nat \<Rightarrow> rate_scope option" where
  "spec_decision config log key now =
     (let recent = live (rc_window config) now log in
      if length recent \<ge> rc_global_requests config then Some ScopeGlobal
      else if length (times_of key recent) \<ge> rc_per_host_requests config then Some ScopeHost
      else if times_of key recent = [] \<and> card (fst ` set recent) \<ge> rc_max_tracked_hosts config then Some ScopeHost
      else None)"

lemma expire_filter:
  assumes "sorted ts" "\<forall>t\<in>set ts. t + w \<le> lim"
  shows "expire lim now w ts = filter (\<lambda>t. now < t + w) ts"
  using assms
proof (induction ts)
  case (Cons t ts)
  have "filter (\<lambda>t. now < t + w) ts = ts" if "now < t + w"
    using that Cons.prems(1) by (intro filter_True) auto
  with Cons show ?case by (auto simp: expire_def instant_add_def)
qed (simp add: expire_def)

lemma live_live: "now \<le> later \<Longrightarrow> live w later (live w now log) = live w later log"
  by (auto simp: live_def intro!: filter_cong)

lemma times_of_live: "filter (\<lambda>t. later < t + w) (times_of k log) = times_of k (live w later log)"
  by (induction log) (auto simp: times_of_def live_def)

lemma map_snd_live: "filter (\<lambda>t. later < t + w) (map snd log) = map snd (live w later log)"
  by (induction log) (auto simp: live_def)

lemma times_of_append: "times_of k (xs @ ys) = times_of k xs @ times_of k ys"
  and live_append: "live w now (xs @ ys) = live w now xs @ live w now ys"
  by (simp_all add: times_of_def live_def)

definition tracks :: "rate_limiter \<Rightarrow> (u64 \<times> nat) list \<Rightarrow> bool" where
  "tracks l log \<longleftrightarrow>
     rl_global l = map snd log \<and> distinct (map fst (rl_hosts l)) \<and>
     (\<forall>k. map_of (rl_hosts l) k = (if times_of k log = [] then None else Some (times_of k log)))"

lemma times_of_empty: "times_of k log = [] \<longleftrightarrow> k \<notin> fst ` set log"
  by (force simp: times_of_def filter_empty_conv)

lemma tracks_length:
  assumes "tracks l log"
  shows "length (rl_hosts l) = card (fst ` set log)" "length (rl_global l) = length log"
proof -
  have "fst ` set (rl_hosts l) = dom (map_of (rl_hosts l))" by (simp add: dom_map_of_conv_image_fst)
  also have "\<dots> = fst ` set log" using assms by (auto simp: tracks_def dom_def times_of_empty split: if_splits)
  finally have "fst ` set (rl_hosts l) = fst ` set log" .
  moreover have "card (fst ` set (rl_hosts l)) = length (rl_hosts l)"
    using assms by (metis distinct_card length_map list.set_map tracks_def)
  ultimately show "length (rl_hosts l) = card (fst ` set log)" by simp
  show "length (rl_global l) = length log" using assms by (simp add: tracks_def)
qed

lemma map_of_expired:
  assumes "distinct (map fst hosts)"
  shows "map_of (filter (\<lambda>(_, ts). ts \<noteq> []) (map (\<lambda>(k, ts). (k, f ts)) hosts)) k =
    (case map_of hosts k of None \<Rightarrow> None | Some ts \<Rightarrow> if f ts = [] then None else Some (f ts))"
  using assms
proof (induction hosts)
  case (Cons h hosts)
  obtain x ts where h: "h = (x, ts)" by (rule prod.exhaust)
  with Cons.prems have "map_of hosts x = None" by (simp add: map_of_eq_None_iff)
  with Cons h show ?case by (cases "k = x") simp_all
qed simp

lemma distinct_expired:
  assumes "distinct (map fst hosts)"
  shows "distinct (map fst (filter (\<lambda>(_, ts). ts \<noteq> []) (map (\<lambda>(k, ts). (k, f ts)) hosts)))"
proof (rule distinct_map_filter)
  have "map fst (map (\<lambda>(k, ts). (k, f ts)) hosts) = map fst hosts" by (simp add: case_prod_unfold)
  with assms show "distinct (map fst (map (\<lambda>(k, ts). (k, f ts)) hosts))" by (simp only:)
qed

text \<open>Expiring both kinds of window keeps the limiter in step with the recent part of the log.\<close>

lemma tracks_expire:
  assumes "tracks l log" "sorted (map snd log)" "\<forall>(_, t)\<in>set log. t + w \<le> lim"
  shows "tracks (l\<lparr>rl_global := expire lim now w (rl_global l),
      rl_hosts := filter (\<lambda>(_, ts). ts \<noteq> []) (map (\<lambda>(k, ts). (k, expire lim now w ts)) (rl_hosts l))\<rparr>) (live w now log)"
proof -
  have g: "expire lim now w (rl_global l) = map snd (live w now log)"
    using assms by (subst expire_filter) (auto simp: tracks_def map_snd_live)
  have s: "sorted (times_of k log)" "\<forall>t\<in>set (times_of k log). t + w \<le> lim" for k
    using assms(2,3) by (auto simp: times_of_def intro: sorted_filter)
  have t: "expire lim now w (times_of k log) = times_of k (live w now log)" for k
    using expire_filter [OF s] by (simp add: times_of_live)
  have d: "distinct (map fst (rl_hosts l))" using assms(1) by (simp add: tracks_def)
  have m: "map_of (rl_hosts l) k = (if times_of k log = [] then None else Some (times_of k log))" for k
    using assms(1) by (simp add: tracks_def)
  have e: "times_of k log = [] \<Longrightarrow> times_of k (live w now log) = []" for k
    by (metis filter.simps(1) times_of_live)
  show ?thesis
    using map_of_expired [OF d, of "expire lim now w"] distinct_expired [OF d, of "expire lim now w"] by (simp add: tracks_def g m t e)
qed

lemma tracks_admit:
  assumes "tracks l log"
  shows "tracks (l\<lparr>rl_global := rl_global l @ [now], rl_hosts := AList.update key (times_of key log @ [now]) (rl_hosts l)\<rparr>)
    (log @ [(key, now)])"
  using assms by (auto simp: tracks_def times_of_append distinct_update update_conv') (auto simp: times_of_def)

lemma rate_check_step:
  assumes "tracks l (live (rc_window (rl_config l)) prev log)" "sorted (map snd log)" "prev \<le> now"
    and "\<forall>(_, t)\<in>set log. t + rc_window (rl_config l) \<le> rl_max_instant l"
    and "rc_per_host_requests (rl_config l) > 0" "rc_window (rl_config l) > 0"
    and "rate_check host now l = (d, l')"
  shows "rl_config l' = rl_config l \<and> rl_hasher l' = rl_hasher l \<and> rl_max_instant l' = rl_max_instant l \<and>
    (case spec_decision (rl_config l) log (host_key l host) now of
       None \<Rightarrow> d = Allowed \<and> tracks l' (live (rc_window (rl_config l)) now (log @ [(host_key l host, now)]))
     | Some scope \<Rightarrow> (\<exists>wait. d = Limited scope wait) \<and> tracks l' (live (rc_window (rl_config l)) now log))"
proof -
  let ?w = "rc_window (rl_config l)" and ?lim = "rl_max_instant l" and ?k = "host_key l host"
  let ?recent = "live ?w now log"
  define g hs where "g = expire ?lim now ?w (rl_global l)" and
    "hs = filter (\<lambda>(_, ts). ts \<noteq> []) (map (\<lambda>(k, ts). (k, expire ?lim now ?w ts)) (rl_hosts l))"
  define e where "e = l\<lparr>rl_global := g, rl_hosts := hs\<rparr>"
  have "sorted (map snd (live ?w prev log))" using assms(2) unfolding live_def by (rule sorted_filter)
  moreover have "\<forall>(_, t)\<in>set (live ?w prev log). t + ?w \<le> ?lim" using assms(4) by (auto simp: live_def)
  ultimately have tr: "tracks e ?recent"
    using tracks_expire [OF assms(1), where w = ?w and lim = ?lim and now = now] live_live [OF assms(3), of ?w log] by (simp add: e_def g_def hs_def)
  have len: "length g = length ?recent" "length hs = card (fst ` set ?recent)"
    using tracks_length [OF tr] by (simp_all add: e_def)
  have hk: "map_of hs ?k = (if times_of ?k ?recent = [] then None else Some (times_of ?k ?recent))"
    using tr by (simp add: tracks_def e_def)
  have adm: "tracks (e\<lparr>rl_global := g @ [now], rl_hosts := AList.update ?k (times_of ?k ?recent @ [now]) hs\<rparr>)
      (live ?w now (log @ [(?k, now)]))"
    using tracks_admit [OF tr, where now = now and key = ?k] assms(6) by (simp add: live_append e_def) (simp add: live_def)
  note c = assms(7) [unfolded rate_check_def Let_def, folded g_def hs_def]
  show ?thesis
  proof (cases "length g \<ge> rc_global_requests (rl_config l)")
    case True
    with c len tr show ?thesis by (auto simp: spec_decision_def e_def)
  next
    case ng: False
    show ?thesis
    proof (cases "times_of ?k ?recent = []")
      case True
      with c ng len tr hk adm assms(5) show ?thesis
        by (auto simp: spec_decision_def e_def split: if_splits)
    next
      case False
      with c ng len tr hk adm show ?thesis
        by (auto simp: spec_decision_def e_def split: if_splits)
    qed
  qed
qed

section \<open>Runs\<close>

fun run_checks :: "(rust_str \<times> nat) list \<Rightarrow> rate_limiter \<Rightarrow> rate_decision list \<times> rate_limiter" where
  "run_checks [] l = ([], l)"
| "run_checks ((host, now) # later) l =
     (case rate_check host now l of (d, l) \<Rightarrow> (case run_checks later l of (ds, l) \<Rightarrow> (d # ds, l)))"

text \<open>The same requests decided by counting the log of those admitted.\<close>

fun spec_run ::
  "rate_limit_config \<Rightarrow> (rust_str \<Rightarrow> u64) \<Rightarrow> (u64 \<times> nat) list \<Rightarrow> (rust_str \<times> nat) list \<Rightarrow>
   rate_scope option list \<times> (u64 \<times> nat) list"
where
  "spec_run config key log [] = ([], log)"
| "spec_run config key log ((host, now) # later) =
     (let s = spec_decision config log (key host) now;
          (ss, log) = spec_run config key (if s = None then log @ [(key host, now)] else log) later
      in (s # ss, log))"

fun scope_of :: "rate_decision \<Rightarrow> rate_scope option" where
  "scope_of Allowed = None"
| "scope_of (Limited scope wait) = Some scope"

definition limiter_in_step :: "rate_limiter \<Rightarrow> (u64 \<times> nat) list \<Rightarrow> nat \<Rightarrow> bool" where
  "limiter_in_step l log prev \<longleftrightarrow>
     tracks l (live (rc_window (rl_config l)) prev log) \<and> sorted (map snd log) \<and>
     (\<forall>(_, t)\<in>set log. t \<le> prev \<and> t + rc_window (rl_config l) \<le> rl_max_instant l) \<and>
     rc_per_host_requests (rl_config l) > 0 \<and> rc_window (rl_config l) > 0"

lemma rate_check_in_step:
  assumes "limiter_in_step l log prev" "prev \<le> now" "now + rc_window (rl_config l) \<le> rl_max_instant l"
    and "rate_check host now l = (d, l')"
  shows "scope_of d = spec_decision (rl_config l) log (host_key l host) now \<and>
    limiter_in_step l' (if scope_of d = None then log @ [(host_key l host, now)] else log) now \<and>
    rl_config l' = rl_config l \<and> rl_hasher l' = rl_hasher l \<and> rl_max_instant l' = rl_max_instant l"
proof -
  let ?w = "rc_window (rl_config l)"
  have s: "tracks l (live ?w prev log)" "sorted (map snd log)" "\<forall>(_, t)\<in>set log. t + ?w \<le> rl_max_instant l"
    "\<forall>(_, t)\<in>set log. t \<le> prev" "rc_per_host_requests (rl_config l) > 0" "?w > 0"
    using assms(1) by (auto simp: limiter_in_step_def)
  from rate_check_step [OF s(1,2) assms(2) s(3,5,6) assms(4)]
  have c: "rl_config l' = rl_config l" "rl_hasher l' = rl_hasher l" "rl_max_instant l' = rl_max_instant l" and
    d: "case spec_decision (rl_config l) log (host_key l host) now of
       None \<Rightarrow> d = Allowed \<and> tracks l' (live ?w now (log @ [(host_key l host, now)]))
     | Some scope \<Rightarrow> (\<exists>wait. d = Limited scope wait) \<and> tracks l' (live ?w now log)" by simp_all
  have le: "\<forall>(_, t)\<in>set log. t \<le> now" using s(4) assms(2) by auto
  have srt: "sorted (map snd (log @ [(host_key l host, now)]))" using s(2) le by (auto simp: sorted_append)
  show ?thesis
  proof (cases "spec_decision (rl_config l) log (host_key l host) now")
    case None
    with d c s le srt assms(3) show ?thesis by (auto simp: limiter_in_step_def)
  next
    case (Some scope)
    with d c s le show ?thesis by (auto simp: limiter_in_step_def)
  qed
qed

lemma run_checks_spec:
  assumes "limiter_in_step l log prev" "sorted (prev # map snd requests)"
    and "\<forall>(_, t)\<in>set requests. t + rc_window (rl_config l) \<le> rl_max_instant l"
    and "run_checks requests l = (ds, l')"
  shows "map scope_of ds = fst (spec_run (rl_config l) (host_key l) log requests) \<and>
    limiter_in_step l' (snd (spec_run (rl_config l) (host_key l) log requests)) (last (prev # map snd requests)) \<and>
    rl_config l' = rl_config l \<and> rl_max_instant l' = rl_max_instant l \<and> host_key l' = host_key l"
  using assms
proof (induction requests arbitrary: l log prev ds)
  case (Cons r later)
  obtain host now where r: "r = (host, now)" by (rule prod.exhaust)
  obtain d l1 where d: "rate_check host now l = (d, l1)" by force
  obtain es where es: "run_checks later l1 = (es, l')" "ds = d # es"
    using Cons.prems(4) r d by (auto split: prod.splits)
  have now: "prev \<le> now" "now + rc_window (rl_config l) \<le> rl_max_instant l" using Cons.prems(2,3) r by auto
  from rate_check_in_step [OF Cons.prems(1) now d] have
    s: "scope_of d = spec_decision (rl_config l) log (host_key l host) now" and
    st: "limiter_in_step l1 (if scope_of d = None then log @ [(host_key l host, now)] else log) now" and
    c: "rl_config l1 = rl_config l" "rl_hasher l1 = rl_hasher l" "rl_max_instant l1 = rl_max_instant l" by blast+
  have k: "host_key l1 = host_key l" by (intro ext) (simp add: host_key_def c)
  have srt: "sorted (now # map snd later)" using Cons.prems(2) r by simp
  have lim: "\<forall>(_, t)\<in>set later. t + rc_window (rl_config l1) \<le> rl_max_instant l1" using Cons.prems(3) c by simp
  have "spec_run (rl_config l) (host_key l) log (r # later) =
      (scope_of d # fst (spec_run (rl_config l) (host_key l) (if scope_of d = None then log @ [(host_key l host, now)] else log) later),
       snd (spec_run (rl_config l) (host_key l) (if scope_of d = None then log @ [(host_key l host, now)] else log) later))"
    by (simp add: r s Let_def split: prod.splits)
  with Cons.IH [OF st srt lim es(1)] c k es(2) r show ?case by simp
qed auto

lemma limiter_new_in_step:
  assumes "rate_limiter_new hasher max_instant config = Inr l"
  shows "limiter_in_step l [] 0" "rl_config l = config" "rl_max_instant l = max_instant"
    "host_key l host = hasher (map to_ascii_lower_byte host)"
    "0 < rc_global_requests config"
  using assms
  by (auto simp: rate_limiter_new_def rate_config_validate_def and_then_Inr limiter_in_step_def tracks_def live_def
      times_of_def host_key_def split: if_splits)

section \<open>Counts\<close>

text \<open>Every request in the log was admitted with room left in the window before it.\<close>

fun well_admitted :: "rate_limit_config \<Rightarrow> (u64 \<times> nat) list \<Rightarrow> bool" where
  "well_admitted config [] \<longleftrightarrow> True"
| "well_admitted config ((k, t) # earlier) \<longleftrightarrow>
     length (live (rc_window config) t (rev earlier)) < rc_global_requests config \<and>
     length (times_of k (live (rc_window config) t (rev earlier))) < rc_per_host_requests config \<and>
     well_admitted config earlier"

lemma spec_run_admitted:
  "well_admitted config (rev log) \<Longrightarrow> well_admitted config (rev (snd (spec_run config key log requests)))"
proof (induction requests arbitrary: log)
  case (Cons r later)
  obtain host now where r: "r = (host, now)" by (rule prod.exhaust)
  have "well_admitted config (rev (if spec_decision config log (key host) now = None then log @ [(key host, now)] else log))"
    using Cons.prems by (auto simp: spec_decision_def Let_def split: if_splits)
  from Cons.IH [OF this] r show ?case by (auto simp: Let_def split: prod.splits)
qed simp

lemma window_subset:
  assumes "x < t" "t \<le> x + w"
  shows "length (filter (\<lambda>(k, s). P k \<and> x < s \<and> s \<le> x + w) log) \<le> length (filter (\<lambda>(k, _). P k) (live w t log))"
  using assms by (induction log) (auto simp: live_def)

lemma admitted_counts:
  assumes "well_admitted config (rev log)"
  shows "length (filter (\<lambda>(_, t). x < t \<and> t \<le> x + rc_window config) log) \<le> rc_global_requests config \<and>
    length (filter (\<lambda>(k', t). k' = k \<and> x < t \<and> t \<le> x + rc_window config) log) \<le> rc_per_host_requests config"
  using assms
proof (induction log rule: rev_induct)
  case (snoc kt log)
  obtain k' t where kt: "kt = (k', t)" by (rule prod.exhaust)
  let ?w = "rc_window config"
  from snoc kt have IH: "length (filter (\<lambda>(_, t). x < t \<and> t \<le> x + ?w) log) \<le> rc_global_requests config"
    "length (filter (\<lambda>(k', t). k' = k \<and> x < t \<and> t \<le> x + ?w) log) \<le> rc_per_host_requests config" by simp_all
  from snoc kt have a: "length (live ?w t log) < rc_global_requests config"
    "length (times_of k' (live ?w t log)) < rc_per_host_requests config" by simp_all
  show ?case
  proof (cases "x < t \<and> t \<le> x + ?w")
    case True
    with window_subset [of x t ?w "\<lambda>_. True" log] window_subset [of x t ?w "\<lambda>k. k = k'" log] a IH kt
    show ?thesis by (auto simp: times_of_def)
  next
    case False
    with IH kt show ?thesis by auto
  qed
qed simp

section \<open>Waiting\<close>

lemma hd_live_sorted:
  assumes "sorted (map snd xs)" "xs \<noteq> []" "later < snd (hd xs) + w"
  shows "live w later xs = xs"
  using assms by (cases xs) (auto simp: live_def intro!: filter_True)

lemma sorted_live: "sorted (map snd log) \<Longrightarrow> sorted (map snd (live w now log))"
  by (simp add: live_def sorted_filter)

lemma fold_min: "fold min ds (d :: nat) = Min (insert d (set ds))"
  by (simp flip: Min.set_eq_fold)

lemma tracked_wait:
  assumes "tracks l recent" "sorted (map snd recent)" "\<forall>(_, t)\<in>set recent. t + w \<le> lim" "recent \<noteq> []"
  shows "tracked_retry_after lim now w (rl_hosts l) = snd (hd recent) + w - now"
proof -
  let ?first = "\<lambda>k. hd (times_of k recent)"
  have hosts: "(k, ts) \<in> set (rl_hosts l) \<longleftrightarrow> ts = times_of k recent \<and> ts \<noteq> []" for k ts
  proof -
    have d: "distinct (map fst (rl_hosts l))"
      and m: "map_of (rl_hosts l) k = (if times_of k recent = [] then None else Some (times_of k recent))"
      using assms(1) unfolding tracks_def by blast+
    show ?thesis using map_of_eq_Some_iff [OF d, of k ts, unfolded m] by (auto split: if_splits)
  qed
  have first: "\<exists>t. times_of k recent = t # tl (times_of k recent) \<and> (k, t) \<in> set recent" if "times_of k recent \<noteq> []" for k
    using that by (cases "times_of k recent") (auto simp: times_of_def filter_eq_Cons_iff)
  let ?firsts = "List.map_filter (\<lambda>(_, ts). case ts of [] \<Rightarrow> None | r # _ \<Rightarrow> Some r) (rl_hosts l)"
  have sf: "set ?firsts = {?first k | k. times_of k recent \<noteq> []}"
  proof -
    have "set ?firsts = {r. \<exists>k rs. (k, r # rs) \<in> set (rl_hosts l)}"
      by (force simp: set_map_filter split: list.splits)
    also have "\<dots> = {?first k | k. times_of k recent \<noteq> []}"
      unfolding hosts by (metis list.exhaust_sel list.sel(1) list.simps(3))
    finally show ?thesis .
  qed
  let ?waits = "map (\<lambda>e. e - now) (List.map_filter (\<lambda>r. instant_add lim r w) ?firsts)"
  have sw: "set ?waits = (\<lambda>r. r + w - now) ` set ?firsts"
  proof -
    have "instant_add lim r w = Some (r + w)" if "r \<in> set ?firsts" for r
    proof -
      from that obtain k where k: "times_of k recent \<noteq> []" "r = ?first k" unfolding sf by blast
      with first obtain t where "times_of k recent = t # tl (times_of k recent)" "(k, t) \<in> set recent" by blast
      then have "(k, r) \<in> set recent" using k(2) by (metis list.sel(1))
      then show ?thesis using assms(3) by (auto simp: instant_add_def)
    qed
    then have "List.map_filter (\<lambda>r. instant_add lim r w) ?firsts = map (\<lambda>r. r + w) ?firsts"
      by (simp add: List.map_filter_def cong: map_cong)
    then show ?thesis by auto
  qed
  obtain k0 t0 rs where r0: "recent = (k0, t0) # rs" using assms(4) by (cases recent) auto
  have k0: "times_of k0 recent = t0 # times_of k0 rs" by (simp add: r0 times_of_def)
  have mn: "Min (set ?waits) = t0 + w - now"
  proof (rule Min_eqI)
    have "times_of k0 recent \<noteq> []" "t0 = ?first k0" using k0 by simp_all
    then show "t0 + w - now \<in> set ?waits" unfolding sw sf by blast
    fix y assume "y \<in> set ?waits"
    then obtain k where "times_of k recent \<noteq> []" "y = ?first k + w - now" unfolding sw sf by auto
    with first obtain t where "(k, t) \<in> set recent" "y = t + w - now" by (metis list.sel(1))
    moreover from this have "t0 \<le> t" using assms(2) by (auto simp: r0)
    ultimately show "t0 + w - now \<le> y" by simp
  qed simp
  have "set ?waits \<noteq> {}" unfolding sw sf using k0 by (auto intro: exI [of _ k0])
  then obtain d ds where "?waits = d # ds" by (metis list.exhaust list.set(1))
  with mn show ?thesis by (simp add: tracked_retry_after_def Let_def fold_min r0)
qed

text \<open>The decision in full, waits included.\<close>

lemma rate_check_decision:
  fixes host :: rust_str
  assumes "limiter_in_step l log prev" "prev \<le> now" "0 < rc_global_requests (rl_config l)" "0 < rc_max_tracked_hosts (rl_config l)"
  defines "w \<equiv> rc_window (rl_config l)" and "recent \<equiv> live (rc_window (rl_config l)) now log" and "k \<equiv> host_key l host"
  shows "fst (rate_check host now l) =
    (if length recent \<ge> rc_global_requests (rl_config l) then Limited ScopeGlobal (snd (hd recent) + w - now)
     else if times_of k recent \<noteq> [] then
       (if length (times_of k recent) \<ge> rc_per_host_requests (rl_config l)
        then Limited ScopeHost (hd (times_of k recent) + w - now) else Allowed)
     else if card (fst ` set recent) \<ge> rc_max_tracked_hosts (rl_config l) then Limited ScopeHost (snd (hd recent) + w - now)
     else Allowed)"
proof -
  let ?lim = "rl_max_instant l"
  define g hs where "g = expire ?lim now w (rl_global l)" and
    "hs = filter (\<lambda>(_, ts). ts \<noteq> []) (map (\<lambda>(k, ts). (k, expire ?lim now w ts)) (rl_hosts l))"
  define e where "e = l\<lparr>rl_global := g, rl_hosts := hs\<rparr>"
  have s: "tracks l (live w prev log)" "sorted (map snd log)" "\<forall>(_, t)\<in>set log. t + w \<le> ?lim"
    using assms(1) by (auto simp: limiter_in_step_def w_def)
  have lim: "\<forall>(_, t)\<in>set (live w m log). t + w \<le> ?lim" for m using s(3) by (auto simp: live_def)
  have tr: "tracks e recent"
    using tracks_expire [OF s(1) sorted_live [OF s(2)] lim, where now = now] live_live [OF assms(2), of w log]
    by (simp add: e_def g_def hs_def recent_def w_def)
  have g: "g = map snd recent" and hk: "map_of hs k = (if times_of k recent = [] then None else Some (times_of k recent))"
    using tr by (simp_all add: tracks_def e_def)
  have len: "length hs = card (fst ` set recent)" using tracks_length [OF tr] by (simp add: e_def)
  have srt: "sorted (map snd recent)" using sorted_live [OF s(2)] by (simp add: recent_def)
  have limr: "\<forall>(_, t)\<in>set recent. t + w \<le> ?lim" using lim by (simp add: recent_def w_def)
  have wait: "rate_retry_after ?lim now w ts = hd ts + w - now" if "ts \<noteq> []" "\<forall>t\<in>set ts. t + w \<le> ?lim" for ts
    using that by (cases ts) (simp_all add: rate_retry_after_def instant_add_def)
  have w1: "rate_retry_after ?lim now w g = snd (hd recent) + w - now" if "recent \<noteq> []"
    using wait [of g] that limr by (simp add: g hd_map case_prod_unfold)
  have w2: "rate_retry_after ?lim now w (times_of k recent) = hd (times_of k recent) + w - now" if "times_of k recent \<noteq> []"
    using wait [OF that] limr by (auto simp: times_of_def)
  have w3: "tracked_retry_after ?lim now w hs = snd (hd recent) + w - now" if "recent \<noteq> []"
    using tracked_wait [OF tr srt limr that, of now] by (simp add: e_def)
  have ne: "recent \<noteq> []" if "rc_max_tracked_hosts (rl_config l) \<le> card (fst ` set recent)"
    using that assms(4) by auto
  have lg: "length g = length recent" by (simp add: g)
  have ne2: "recent \<noteq> []" if "rc_global_requests (rl_config l) \<le> length recent" using that assms(3) by auto
  show ?thesis
    using w1 w2 w3 ne ne2 hk
    by (simp add: rate_check_def Let_def w_def [symmetric] g_def [symmetric] hs_def [symmetric] k_def [symmetric] lg len
        split: if_splits)
qed

lemma live_bound:
  assumes "well_admitted config (rev log)" "\<forall>(_, t)\<in>set log. t \<le> now" "0 < rc_global_requests config"
  shows "length (live (rc_window config) now log) \<le> rc_global_requests config"
  using assms
proof (induction log rule: rev_induct)
  case (snoc kt log)
  obtain k t where kt: "kt = (k, t)" by (rule prod.exhaust)
  have t: "t \<le> now" using snoc.prems(2) kt by simp
  have "length (live (rc_window config) t log) < rc_global_requests config" using snoc.prems(1) kt by simp
  moreover have "length (live (rc_window config) now log) \<le> length (live (rc_window config) t log)"
    using t live_live [OF t, of "rc_window config" log] by (metis length_filter_le live_def)
  ultimately show ?case using kt by (simp add: live_append live_def)
qed (simp add: live_def)

lemma retry_countdown:
  assumes st: "limiter_in_step l log prev" "prev \<le> now" "now + rc_window (rl_config l) \<le> rl_max_instant l"
    and pos: "0 < rc_global_requests (rl_config l)" "0 < rc_max_tracked_hosts (rl_config l)"
    and adm: "well_admitted (rl_config l) (rev log)"
    and chk: "rate_check host now l = (Limited scope wait, l')"
  shows "0 < wait"
    "now \<le> t \<Longrightarrow> t < now + wait \<Longrightarrow> fst (rate_check host t l') = Limited scope (now + wait - t)"
    "scope = ScopeGlobal \<Longrightarrow> fst (rate_check host (now + wait) l') \<noteq> Limited ScopeGlobal wait'"
proof -
  let ?c = "rl_config l" and ?w = "rc_window (rl_config l)" and ?k = "host_key l host"
  let ?recent = "live (rc_window (rl_config l)) now log"
  from rate_check_in_step [OF st chk] have
    st': "limiter_in_step l' log now" and c: "rl_config l' = ?c" "host_key l' host = ?k" "rl_max_instant l' = rl_max_instant l"
    by (simp_all add: host_key_def)
  have srt: "sorted (map snd log)" and le: "\<forall>(_, t)\<in>set log. t \<le> now"
    using st' by (auto simp: limiter_in_step_def)
  note srtr = sorted_live [OF srt, of ?w now]
  have d: "Limited scope wait = fst (rate_check host now l)" using chk by simp
  note d = d [unfolded rate_check_decision [OF st(1,2) pos]]
  have d': "fst (rate_check host t l') =
    (if length (live ?w t log) \<ge> rc_global_requests ?c then Limited ScopeGlobal (snd (hd (live ?w t log)) + ?w - t)
     else if times_of ?k (live ?w t log) \<noteq> [] then
       (if length (times_of ?k (live ?w t log)) \<ge> rc_per_host_requests ?c
        then Limited ScopeHost (hd (times_of ?k (live ?w t log)) + ?w - t) else Allowed)
     else if card (fst ` set (live ?w t log)) \<ge> rc_max_tracked_hosts ?c
       then Limited ScopeHost (snd (hd (live ?w t log)) + ?w - t)
     else Allowed)" if "now \<le> t" for t
    using rate_check_decision [OF st' that, where host = host] pos by (simp add: c)
  have live_hd: "now < snd (hd ?recent) + ?w" if "?recent \<noteq> []"
    using hd_in_set [OF that] by (auto simp: live_def)
  have live_hd_k: "now < hd (times_of ?k ?recent) + ?w" if "times_of ?k ?recent \<noteq> []"
    using hd_in_set [OF that] by (auto simp: live_def times_of_def)
  consider (global) "length ?recent \<ge> rc_global_requests ?c" "scope = ScopeGlobal" "wait = snd (hd ?recent) + ?w - now" "?recent \<noteq> []"
    | (per_host) "\<not> length ?recent \<ge> rc_global_requests ?c" "times_of ?k ?recent \<noteq> []"
        "length (times_of ?k ?recent) \<ge> rc_per_host_requests ?c" "scope = ScopeHost" "wait = hd (times_of ?k ?recent) + ?w - now"
    | (tracked) "\<not> length ?recent \<ge> rc_global_requests ?c" "times_of ?k ?recent = []"
        "card (fst ` set ?recent) \<ge> rc_max_tracked_hosts ?c" "scope = ScopeHost" "wait = snd (hd ?recent) + ?w - now" "?recent \<noteq> []"
  proof -
    have "?recent \<noteq> []" if "card (fst ` set ?recent) \<ge> rc_max_tracked_hosts ?c" using that pos(2) by auto
    moreover have "?recent \<noteq> []" if "length ?recent \<ge> rc_global_requests ?c" using that pos(1) by auto
    ultimately show thesis using d that by (auto split: if_splits)
  qed
  then have "0 < wait \<and> (now \<le> t \<longrightarrow> t < now + wait \<longrightarrow> fst (rate_check host t l') = Limited scope (now + wait - t)) \<and>
    (scope = ScopeGlobal \<longrightarrow> fst (rate_check host (now + wait) l') \<noteq> Limited ScopeGlobal wait')"
  proof cases
    case global
    have w: "now + wait = snd (hd ?recent) + ?w" using global live_hd by simp
    have "fst (rate_check host t l') = Limited scope (now + wait - t)" if t: "now \<le> t" "t < now + wait"
    proof -
      have "live ?w t log = ?recent"
        using hd_live_sorted [OF srtr global(4), of t] live_live [OF t(1), of ?w log] t w by simp
      then show ?thesis using d' [OF t(1)] global w by simp
    qed
    moreover have "fst (rate_check host (now + wait) l') \<noteq> Limited ScopeGlobal wait'"
    proof -
      obtain r rs where r: "?recent = r # rs" using global(4) by (cases ?recent) auto
      have "live ?w (now + wait) log = live ?w (now + wait) ?recent" using live_live [of now "now + wait" ?w log] by simp
      also have "\<dots> = live ?w (now + wait) rs" using w r by (simp add: live_def case_prod_unfold)
      finally have "length (live ?w (now + wait) log) \<le> length rs" by (simp add: live_def)
      moreover have "length ?recent \<le> rc_global_requests ?c" by (rule live_bound [OF adm le pos(1)])
      ultimately have "\<not> length (live ?w (now + wait) log) \<ge> rc_global_requests ?c" using r by simp
      then show ?thesis using d' [of "now + wait"] by simp
    qed
    ultimately show ?thesis using w live_hd [OF global(4)] global(3) by simp
  next
    case per_host
    have w: "now + wait = hd (times_of ?k ?recent) + ?w" using per_host live_hd_k by simp
    have "fst (rate_check host t l') = Limited scope (now + wait - t)" if t: "now \<le> t" "t < now + wait"
    proof -
      have s: "sorted (times_of ?k ?recent)" using srtr by (simp add: times_of_def sorted_filter)
      have "times_of ?k (live ?w t log) = filter (\<lambda>s. t < s + ?w) (times_of ?k ?recent)"
        using live_live [OF t(1), of ?w log] by (simp add: times_of_live)
      also have "\<dots> = times_of ?k ?recent"
        using s t w per_host(2) by (cases "times_of ?k ?recent") (auto intro!: filter_True)
      finally have k: "times_of ?k (live ?w t log) = times_of ?k ?recent" .
      have "length (live ?w t log) \<le> length ?recent"
        using live_live [OF t(1), of ?w log] by (metis length_filter_le live_def)
      then show ?thesis using d' [OF t(1)] per_host k w by simp
    qed
    then show ?thesis using w live_hd_k [OF per_host(2)] per_host(4,5) by simp
  next
    case tracked
    have w: "now + wait = snd (hd ?recent) + ?w" using tracked live_hd by simp
    have "fst (rate_check host t l') = Limited scope (now + wait - t)" if t: "now \<le> t" "t < now + wait"
    proof -
      have "live ?w t log = ?recent"
        using hd_live_sorted [OF srtr tracked(6), of t] live_live [OF t(1), of ?w log] t w by simp
      then show ?thesis using d' [OF t(1)] tracked w by simp
    qed
    then show ?thesis using w live_hd [OF tracked(6)] tracked(4,5) by simp
  qed
  then show "0 < wait"
    "now \<le> t \<Longrightarrow> t < now + wait \<Longrightarrow> fst (rate_check host t l') = Limited scope (now + wait - t)"
    "scope = ScopeGlobal \<Longrightarrow> fst (rate_check host (now + wait) l') \<noteq> Limited ScopeGlobal wait'" by simp_all
qed

section \<open>Properties\<close>

text \<open>Whatever the interleaving of the tasks that acquire and drop permits, the counter is the number of permits held,
  which never exceeds the maximum, so that dropping a permit never wraps the counter.\<close>

theorem active_clients_bounded:
  assumes "limiter_reachable max_active s"
  shows "finite (holders s) \<and> al_active s = card (holders s) \<and> card (holders s) \<le> max_active \<and>
    (\<forall>t\<in>holders s. 0 < al_active s)"
proof -
  from limiter_reachable_inv [OF assms] have i: "finite (holders s)" "al_active s = card (holders s)" "al_active s \<le> max_active"
    by (simp_all add: limiter_inv_def)
  then have "0 < card (holders s)" if "t \<in> holders s" for t using that card_gt_0_iff by blast
  with i show ?thesis by simp
qed

text \<open>C40.  The limiter is an exact sliding window: on any sequence of requests whose times do not go back, it decides each
  exactly as counting the requests admitted in the last window would, all of them first and then those of the host
  (compared without case), and it refuses a new host only when as many hosts as allowed are active in the window.\<close>

theorem sliding_window_exact:
  assumes "rate_limiter_new hasher max_instant config = Inr l"
    and "sorted (map snd requests)" "\<forall>(_, t)\<in>set requests. t + rc_window config \<le> max_instant"
  shows "map scope_of (fst (run_checks requests l)) =
    fst (spec_run config (\<lambda>host. hasher (map to_ascii_lower_byte host)) [] requests)"
proof -
  obtain ds l' where r: "run_checks requests l = (ds, l')" by force
  note n = limiter_new_in_step [OF assms(1)]
  have k: "host_key l = (\<lambda>host. hasher (map to_ascii_lower_byte host))" using n(4) by (intro ext) simp
  have "sorted (0 # map snd requests)" using assms(2) by simp
  from run_checks_spec [OF n(1) this _ r] assms(3) n r k show ?thesis by simp
qed

text \<open>The rate is bounded: in no window of the configured length, wherever it starts, are more requests admitted than
  the global limit, nor more for one host than the host limit.\<close>

theorem admitted_rate_bounded:
  assumes "rate_limiter_new hasher max_instant config = Inr l"
    and "sorted (map snd requests)" "\<forall>(_, t)\<in>set requests. t + rc_window config \<le> max_instant"
  shows "length (filter (\<lambda>((_, t), d). d = Allowed \<and> x < t \<and> t \<le> x + rc_window config) (zip requests (fst (run_checks requests l))))
      \<le> rc_global_requests config \<and>
    length (filter (\<lambda>((h, t), d). h = host \<and> d = Allowed \<and> x < t \<and> t \<le> x + rc_window config)
      (zip requests (fst (run_checks requests l)))) \<le> rc_per_host_requests config"
proof -
  let ?key = "\<lambda>host. hasher (map to_ascii_lower_byte host)"
  let ?ds = "fst (run_checks requests l)"
  have spec: "map scope_of ?ds = fst (spec_run config ?key [] requests)"
  proof -
    obtain ds l' where r: "run_checks requests l = (ds, l')" by force
    note n = limiter_new_in_step [OF assms(1)]
    have k: "host_key l = ?key" using n(4) by (intro ext) simp
    have "sorted (0 # map snd requests)" using assms(2) by simp
    from run_checks_spec [OF n(1) this _ r] assms(3) n r k show ?thesis by simp
  qed
  have al: "scope_of d = None \<longleftrightarrow> d = Allowed" for d by (cases d) simp_all
  have log: "snd (spec_run config ?key log reqs) =
      log @ map (\<lambda>((h, t), _). (?key h, t)) (filter (\<lambda>(_, d). d = Allowed) (zip reqs ds))"
    if "map scope_of ds = fst (spec_run config ?key log reqs)" for log reqs ds
    using that
  proof (induction reqs arbitrary: log ds)
    case (Cons r reqs)
    obtain h t where r: "r = (h, t)" by (rule prod.exhaust)
    let ?s = "spec_decision config log (?key h) t"
    have e: "spec_run config ?key log (r # reqs) =
        (?s # fst (spec_run config ?key (if ?s = None then log @ [(?key h, t)] else log) reqs),
         snd (spec_run config ?key (if ?s = None then log @ [(?key h, t)] else log) reqs))"
      by (simp add: r Let_def split: prod.splits)
    with Cons.prems obtain d ds' where ds: "ds = d # ds'" "scope_of d = ?s"
      "map scope_of ds' = fst (spec_run config ?key (if ?s = None then log @ [(?key h, t)] else log) reqs)" by auto
    from Cons.IH [OF ds(3)] e ds(1,2) r al [of d] show ?case by auto
  qed simp
  let ?log = "snd (spec_run config ?key [] requests)"
  have adm: "well_admitted config (rev ?log)" by (rule spec_run_admitted) simp
  have f1: "length (filter (\<lambda>(_, t). x < t \<and> t \<le> x + rc_window config) ?log) =
      length (filter (\<lambda>((_, t), d). d = Allowed \<and> x < t \<and> t \<le> x + rc_window config) (zip requests ?ds))"
    unfolding log [OF spec] by (simp add: filter_map comp_def case_prod_unfold conj_commute conj_left_commute)
  have "length (filter (\<lambda>((h, t), d). h = host \<and> d = Allowed \<and> x < t \<and> t \<le> x + rc_window config) xs) \<le>
      length (filter (\<lambda>(k, t). k = ?key host \<and> x < t \<and> t \<le> x + rc_window config)
        (map (\<lambda>((h, t), _). (?key h, t)) (filter (\<lambda>(_, d). d = Allowed) xs)))" for xs :: "((rust_str \<times> nat) \<times> rate_decision) list"
    by (induction xs) auto
  then have f2: "length (filter (\<lambda>((h, t), d). h = host \<and> d = Allowed \<and> x < t \<and> t \<le> x + rc_window config) (zip requests ?ds)) \<le>
      length (filter (\<lambda>(k, t). k = ?key host \<and> x < t \<and> t \<le> x + rc_window config) ?log)"
    unfolding log [OF spec] by simp
  from admitted_counts [OF adm, of x "?key host"] f1 f2 show ?thesis by simp
qed

text \<open>The wait a refusal reports is positive and right: until it has passed, the same request is refused for the same
  reason with the remaining time, and when it has passed it is no longer refused for the global limit.\<close>

theorem retry_after_exact:
  assumes "rate_limiter_new hasher max_instant config = Inr l0" "run_checks requests l0 = (ds, l)"
    and "sorted (map snd requests @ [now])" "\<forall>(_, t)\<in>set requests. t + rc_window config \<le> max_instant"
    and "now + rc_window config \<le> max_instant"
    and "rate_check host now l = (Limited scope wait, l')"
  shows "0 < wait \<and>
    (\<forall>t. now \<le> t \<and> t < now + wait \<longrightarrow> fst (rate_check host t l') = Limited scope (now + wait - t)) \<and>
    (scope = ScopeGlobal \<longrightarrow> (\<forall>wait'. fst (rate_check host (now + wait) l') \<noteq> Limited ScopeGlobal wait'))"
proof -
  note n = limiter_new_in_step [OF assms(1)]
  have pos: "0 < rc_global_requests config" "0 < rc_max_tracked_hosts config"
    using assms(1) by (auto simp: rate_limiter_new_def rate_config_validate_def and_then_Inr split: if_splits)
  have srt: "sorted (0 # map snd requests)" using assms(3) by (simp add: sorted_append)
  have lim: "\<forall>(_, t)\<in>set requests. t + rc_window (rl_config l0) \<le> rl_max_instant l0" using assms(4) n by simp
  let ?log = "snd (spec_run config (host_key l0) [] requests)"
  from run_checks_spec [OF n(1) srt lim assms(2)] have
    st: "limiter_in_step l ?log (last (0 # map snd requests))" and c: "rl_config l = config" "rl_max_instant l = max_instant"
    using n by simp_all
  have le: "last (0 # map snd requests) \<le> now"
    using assms(3) last_in_set [of "map snd requests"] by (fastforce simp: sorted_append)
  have adm: "well_admitted (rl_config l) (rev ?log)" unfolding c by (rule spec_run_admitted) simp
  have fut: "now + rc_window (rl_config l) \<le> rl_max_instant l" using assms(5) c by simp
  have pos': "0 < rc_global_requests (rl_config l)" "0 < rc_max_tracked_hosts (rl_config l)" using pos c by simp_all
  show ?thesis using retry_countdown [OF st le fut pos' adm assms(6)] by blast
qed

section \<open>Witnesses\<close>

definition tight_config :: rate_limit_config where
  "tight_config = \<lparr>rc_global_requests = 2, rc_per_host_requests = 1, rc_window = 10, rc_max_tracked_hosts = 4\<rparr>"

definition tight_limiter :: rate_limiter where
  "tight_limiter =
     \<lparr>rl_config = tight_config, rl_hasher = (\<lambda>bs. of_nat (length bs)), rl_max_instant = 1000, rl_global = [], rl_hosts = []\<rparr>"

definition tight_requests :: "(rust_str \<times> nat) list" where
  "tight_requests = [([97], 1), ([97], 2), ([97, 98], 3)]"

lemma tight_new: "rate_limiter_new (\<lambda>bs. of_nat (length bs)) 1000 tight_config = Inr tight_limiter"
  by (simp add: rate_limiter_new_def rate_config_validate_def tight_limiter_def tight_config_def
      DEFAULT_GLOBAL_REQUESTS_PER_WINDOW_def DEFAULT_HOST_REQUESTS_PER_WINDOW_def DEFAULT_RATE_WINDOW_def
      DEFAULT_MAX_TRACKED_HOSTS_def)

definition tight_after :: rate_limiter where
  "tight_after = tight_limiter\<lparr>rl_global := [1, 3], rl_hosts := [(1, [1]), (2, [3])]\<rparr>"

lemma tight_run: "run_checks tight_requests tight_limiter = ([Allowed, Limited ScopeHost 9, Allowed], tight_after)"
  by (simp add: tight_requests_def tight_after_def tight_limiter_def tight_config_def rate_check_def expire_def
      instant_add_def host_key_def rate_retry_after_def Let_def)

lemma tight_limited: "rate_check [99] 4 tight_after = (Limited ScopeGlobal 7, tight_after)"
  by (simp add: tight_after_def tight_limiter_def tight_config_def rate_check_def expire_def instant_add_def
      rate_retry_after_def Let_def)

definition one_client :: active_limiter where
  "one_client = (active_limiter_new 3)\<lparr>al_active := 1, al_tasks := (\<lambda>_. TaskIdle)(0 := TaskHolding)\<rparr>"

lemma one_client_reachable: "limiter_reachable 3 one_client"
proof -
  let ?s = "(active_limiter_new 3)\<lparr>al_tasks := (\<lambda>_. TaskIdle)(0 := TaskLoop 0)\<rparr>"
  have "limiter_step (active_limiter_new 3) ?s"
    using acquire_load [of "active_limiter_new 3" 0] by (simp add: active_limiter_new_def)
  moreover have "limiter_step ?s one_client"
    using exchange_ok [of ?s 0 0] by (simp add: active_limiter_new_def one_client_def)
  ultimately show ?thesis by (meson limiter_start limiter_next)
qed

theorem active_clients_bounded_witness:
  "finite (holders one_client) \<and> al_active one_client = card (holders one_client) \<and> card (holders one_client) \<le> 3"
  using active_clients_bounded [OF one_client_reachable] by blast

theorem sliding_window_exact_witness:
  "map scope_of (fst (run_checks tight_requests tight_limiter)) =
    fst (spec_run tight_config (\<lambda>host. of_nat (length (map to_ascii_lower_byte host))) [] tight_requests)"
  by (rule sliding_window_exact [OF tight_new]) (simp_all add: tight_requests_def tight_config_def)

theorem admitted_rate_bounded_witness:
  "length (filter (\<lambda>((_, t), d). d = Allowed \<and> 0 < t \<and> t \<le> 0 + rc_window tight_config)
      (zip tight_requests (fst (run_checks tight_requests tight_limiter)))) \<le> rc_global_requests tight_config \<and>
    length (filter (\<lambda>((h, t), d). h = [97] \<and> d = Allowed \<and> 0 < t \<and> t \<le> 0 + rc_window tight_config)
      (zip tight_requests (fst (run_checks tight_requests tight_limiter)))) \<le> rc_per_host_requests tight_config"
  by (rule admitted_rate_bounded [OF tight_new]) (simp_all add: tight_requests_def tight_config_def)

theorem retry_after_exact_witness:
  "0 < (7 :: nat) \<and> fst (rate_check [99] 6 tight_after) = Limited ScopeGlobal 5 \<and>
    fst (rate_check [99] 11 tight_after) \<noteq> Limited ScopeGlobal 1"
proof -
  have "0 < (7 :: nat) \<and>
    (\<forall>t. 4 \<le> t \<and> t < 4 + 7 \<longrightarrow> fst (rate_check [99] t tight_after) = Limited ScopeGlobal (4 + 7 - t)) \<and>
    (ScopeGlobal = ScopeGlobal \<longrightarrow> (\<forall>wait'. fst (rate_check [99] (4 + 7) tight_after) \<noteq> Limited ScopeGlobal wait'))"
    by (rule retry_after_exact [OF tight_new tight_run _ _ _ tight_limited]) (simp_all add: tight_requests_def tight_config_def)
  then show ?thesis by (auto dest!: spec [of _ 6])
qed

end
