(* ===== verification/Ip_Text.thy ===== *)
theory Ip_Text
  imports Network_Policy
begin

text \<open>
  Textual IP addresses as Rust's standard library parses them (\<open>core::net::parser\<close>), which the resolver, the gateway
  and the proxy use to tell addresses from names: decimal octets without leading zeros, hexadecimal groups, one
  \<open>::\<close>, and an IPv4 tail. A reader is a function from the bytes left to a value and the bytes left; \<open>None\<close> is
  failure, which leaves the position where it was (\<open>read_atomically\<close>).
\<close>

section \<open>Definitions\<close>

definition digit_value :: "nat \<Rightarrow> u8 \<Rightarrow> nat option" where
  "digit_value radix b =
     (let v = (if is_ascii_digit b then unat b - 48
               else if is_ascii_lower b then unat b - 87
               else if is_ascii_upper b then unat b - 55 else 36)
      in if v < radix then Some v else None)"

text \<open>The digits of \<open>read_number\<close>: the value, how many were read, and the bytes left; more than \<open>max_digits\<close> fail.\<close>

fun read_digits :: "nat \<Rightarrow> nat \<Rightarrow> nat \<Rightarrow> nat \<Rightarrow> bytes \<Rightarrow> (nat \<times> nat \<times> bytes) option" where
  "read_digits radix max_digits acc count [] = Some (acc, count, [])"
| "read_digits radix max_digits acc count (b # bs) =
     (case digit_value radix b of
        None \<Rightarrow> Some (acc, count, b # bs)
      | Some d \<Rightarrow>
          if count + 1 > max_digits then None
          else read_digits radix max_digits (acc * radix + d) (count + 1) bs)"

definition read_number :: "nat \<Rightarrow> nat \<Rightarrow> bool \<Rightarrow> nat \<Rightarrow> bytes \<Rightarrow> (nat \<times> bytes) option" where
  "read_number radix max_digits allow_zero_prefix limit bs =
     (case read_digits radix max_digits 0 0 bs of
        None \<Rightarrow> None
      | Some (v, count, left) \<Rightarrow>
          if count = 0 then None
          else if \<not> allow_zero_prefix \<and> take 1 bs = [48] \<and> count > 1 then None
          else if v < limit then Some (v, left) else None)"

definition read_separator :: "u8 \<Rightarrow> nat \<Rightarrow> bytes \<Rightarrow> bytes option" where
  "read_separator sep index bs =
     (if index = 0 then Some bs
      else case bs of [] \<Rightarrow> None | b # left \<Rightarrow> if b = sep then Some left else None)"

definition read_octet :: "nat \<Rightarrow> bytes \<Rightarrow> (u8 \<times> bytes) option" where
  "read_octet index bs =
     (case read_separator 46 index bs of
        None \<Rightarrow> None
      | Some bs \<Rightarrow> map_option (\<lambda>(v, left). (word_of_nat v, left)) (read_number 10 3 False 256 bs))"

definition read_ipv4_addr :: "bytes \<Rightarrow> (ipv4_addr \<times> bytes) option" where
  "read_ipv4_addr bs =
     (case read_octet 0 bs of None \<Rightarrow> None | Some (a, bs) \<Rightarrow>
     (case read_octet 1 bs of None \<Rightarrow> None | Some (b, bs) \<Rightarrow>
     (case read_octet 2 bs of None \<Rightarrow> None | Some (c, bs) \<Rightarrow>
     (case read_octet 3 bs of None \<Rightarrow> None | Some (d, bs) \<Rightarrow> Some ((a, b, c, d), bs)))))"

text \<open>\<open>read_groups\<close>: at most \<open>left + i\<close> groups, those read so far in \<open>groups\<close>, and whether an IPv4 tail ended them.\<close>

definition read_group :: "nat \<Rightarrow> bytes \<Rightarrow> (u16 \<times> bytes) option" where
  "read_group index bs =
     (case read_separator 58 index bs of
        None \<Rightarrow> None
      | Some bs \<Rightarrow> map_option (\<lambda>(v, left). (word_of_nat v, left)) (read_number 16 4 True 65536 bs))"

fun read_groups :: "nat \<Rightarrow> nat \<Rightarrow> u16 list \<Rightarrow> bytes \<Rightarrow> u16 list \<times> bool \<times> bytes" where
  "read_groups 0 i groups bs = (groups, False, bs)"
| "read_groups (Suc left) i groups bs =
     (case (if left > 0 then
              (case read_separator 58 i bs of None \<Rightarrow> None | Some bs \<Rightarrow> read_ipv4_addr bs)
            else None) of
        Some ((a, b, c, d), bs) \<Rightarrow> (groups @ [word_cat a b, word_cat c d], True, bs)
      | None \<Rightarrow>
          (case read_group i bs of
             Some (g, bs) \<Rightarrow> read_groups left (i + 1) (groups @ [g]) bs
           | None \<Rightarrow> (groups, False, bs)))"

definition read_ipv6_addr :: "bytes \<Rightarrow> (ipv6_addr \<times> bytes) option" where
  "read_ipv6_addr bs =
     (let (head, head_ipv4, bs) = read_groups 8 0 [] bs in
      if length head = 8 then Some (head, bs)
      else if head_ipv4 then None
      else case bs of
        c1 # c2 # bs \<Rightarrow>
          if c1 = 58 \<and> c2 = 58 then
            (let (tail, _, bs) = read_groups (7 - length head) 0 [] bs in
             Some (head @ replicate (8 - length head - length tail) 0 @ tail, bs))
          else None
      | _ \<Rightarrow> None)"

definition read_ip_addr :: "bytes \<Rightarrow> (ip_addr \<times> bytes) option" where
  "read_ip_addr bs =
     (case read_ipv4_addr bs of
        Some (a, left) \<Rightarrow> Some (V4 a, left)
      | None \<Rightarrow> map_option (\<lambda>(a, left). (V6 a, left)) (read_ipv6_addr bs))"

text \<open>\<open>str::parse\<close> at the types \<open>IpAddr\<close> and \<open>Ipv4Addr\<close>.\<close>

definition parse_ip_addr :: "rust_str \<Rightarrow> ip_addr option" where
  "parse_ip_addr s = (case read_ip_addr s of Some (a, []) \<Rightarrow> Some a | _ \<Rightarrow> None)"

definition parse_ipv4_addr :: "rust_str \<Rightarrow> ipv4_addr option" where
  "parse_ipv4_addr s =
     (if length s > 15 then None else case read_ipv4_addr s of Some (a, []) \<Rightarrow> Some a | _ \<Rightarrow> None)"

text \<open>\<open>Ipv4Addr\<close>'s \<open>Display\<close>.\<close>

definition octet_text :: "u8 \<Rightarrow> rust_str" where
  "octet_text b =
     (let n = unat b; digit = (\<lambda>d. word_of_nat (48 + d)) in
      if n < 10 then [digit n]
      else if n < 100 then [digit (n div 10), digit (n mod 10)]
      else [digit (n div 100), digit (n div 10 mod 10), digit (n mod 10)])"

fun ipv4_text :: "ipv4_addr \<Rightarrow> rust_str" where
  "ipv4_text (a, b, c, d) = octet_text a @ 46 # octet_text b @ 46 # octet_text c @ 46 # octet_text d"

section \<open>Lemmas\<close>

text \<open>Whatever is printed is read back, and what is read is what would have been printed.\<close>

lemma digit_value_10: "digit_value 10 b = (if 48 \<le> b \<and> b \<le> 57 then Some (unat b - 48) else None)"
  by (auto simp: digit_value_def is_ascii_digit_def is_ascii_lower_def is_ascii_upper_def word_le_nat_alt Let_def)

lemma ascii_digit: "k < 10 \<Longrightarrow> unat (word_of_nat (48 + k) :: u8) = 48 + k"
  by (simp add: unat_of_nat del: of_nat_add)

lemma three_digits:
  fixes n :: nat
  assumes "n < 256"
  shows "n div 100 < 10" "n div 10 mod 10 < 10" "n mod 10 < 10"
    "n div 100 * 100 + n div 10 mod 10 * 10 + n mod 10 = n"
proof -
  have "n div 100 = n div 10 div 10" by (simp flip: div_mult2_eq)
  moreover have "n div 10 = 10 * (n div 10 div 10) + n div 10 mod 10" "n = 10 * (n div 10) + n mod 10" by simp_all
  ultimately show "n div 100 * 100 + n div 10 mod 10 * 10 + n mod 10 = n" by linarith
  show "n div 100 < 10" using assms by (simp add: div_less_iff_less_mult)
qed simp_all

lemma read_number_octet:
  fixes left :: bytes
  assumes "left = [] \<or> digit_value 10 (hd left) = None"
  shows "read_number 10 3 False 256 (octet_text a @ left) = Some (unat a, left)"
proof -
  have stop: "read_digits 10 3 v n left = Some (v, n, left)" for v n
    using assms by (cases left) auto
  have d: "digit_value 10 (word_of_nat (48 + k)) = Some k" if "k < 10" for k
    using ascii_digit [of k] that by (simp add: digit_value_10 word_le_nat_alt del: of_nat_add)
  have one: "take 1 [word_of_nat (48 + k) :: u8] = [48] \<longleftrightarrow> k = 0" if "k < 10" for k
    using ascii_digit [of k] that by (simp add: word_unat_eq_iff del: of_nat_add)
  have less: "unat a < 256" using unat_u8_less [of a] by simp
  note digits = three_digits [OF this]
  consider "unat a < 10" | "10 \<le> unat a" "unat a < 100" | "100 \<le> unat a" by linarith
  then show ?thesis
  proof cases
    case 1
    then show ?thesis by (simp add: octet_text_def read_number_def d stop less del: of_nat_add of_nat_Suc)
  next
    case 2
    then have "unat a div 10 < 10" "unat a div 10 \<noteq> 0" by auto
    with 2 d [OF this(1)] d [OF digits(3)] one [OF this(1)] show ?thesis
      by (simp add: octet_text_def read_number_def stop Let_def del: of_nat_add of_nat_Suc)
  next
    case 3
    then have "unat a div 100 \<noteq> 0" by auto
    with 3 d [OF digits(1)] d [OF digits(2)] d [OF digits(3)] one [OF digits(1)] digits(4) show ?thesis
      by (simp add: octet_text_def read_number_def stop Let_def less algebra_simps del: of_nat_add of_nat_Suc)
  qed
qed

lemma ipv4_text_parses: "read_ipv4_addr (ipv4_text x) = Some (x, [])"
proof -
  obtain a b c d where x: "x = (a, b, c, d)" by (metis prod_cases4)
  have dot: "digit_value 10 46 = None" by (simp add: digit_value_10)
  show ?thesis
    by (simp add: x read_ipv4_addr_def read_octet_def read_separator_def read_number_octet dot
        read_number_octet [where left = "[]", simplified])
qed

end
