(* ===== verification/Hns_Names.thy ===== *)
theory Hns_Names
  imports Hashing Resource Ip_Text
begin

text \<open>
  What \<open>hns-resolver/src/lib.rs\<close> says about names and proven values: the namespace a browser input belongs to, the
  root label below which it is proven, resource values with the anchor of their proof, and the in-memory provider of
  such values. The IANA root-zone snapshot compiled into the program (\<open>icann_tlds.txt\<close>) is the parameter \<open>tlds\<close>, its
  lines. Operations that call a trait object are functions of a world of any type, which the object may read and
  change; \<open>io_then\<close> is \<open>?\<close> for them.
\<close>

section \<open>Definitions\<close>

datatype resolver_error =
    ProofUnavailable
  | InvalidName name_hash_error
  | ProofNameMismatch
  | NameNotFound
  | LocalChainNotCurrent
  | DnssecFailed
  | RelayDnssecFailed
  | InvalidResource resource_error
  | UnsupportedBackend
  | NoNameserverAddress
  | NonPublicDnsEndpoint
  | UnsafeAuthoritativeDohPort u16
  | DnsTransport rust_str
  | DnsResponseCode u8
  | InvalidDnsResponse
  | InvalidAuthoritativeDoh
  | CachePoisoned
  | ResolverStorage rust_str

definition io_then :: "('w \<Rightarrow> ('e + 'a) \<times> 'w) \<Rightarrow> ('a \<Rightarrow> 'w \<Rightarrow> ('e + 'b) \<times> 'w) \<Rightarrow> 'w \<Rightarrow> ('e + 'b) \<times> 'w" where
  "io_then m f w = (case m w of (Inl e, w) \<Rightarrow> (Inl e, w) | (Inr x, w) \<Rightarrow> f x w)"

text \<open>A computation that does not touch the world.\<close>

definition io_pure :: "'e + 'a \<Rightarrow> 'w \<Rightarrow> ('e + 'a) \<times> 'w" where
  "io_pure r w = (r, w)"

subsection \<open>Names\<close>

datatype name_class = ClassHns | ClassIcann | ClassSearch

text \<open>\<open>trim_start_matches\<close> of a nonempty text, and \<open>split(['/', '?', '#']).next()\<close>.\<close>

function trim_start_matches :: "rust_str \<Rightarrow> rust_str \<Rightarrow> rust_str" where
  "trim_start_matches p s =
     (if p \<noteq> [] \<and> take (length p) s = p then trim_start_matches p (drop (length p) s) else s)"
  by pat_completeness auto
termination
proof (relation "measure (\<lambda>(_, s). length s)", goal_cases)
  case (2 p s)
  then have "s \<noteq> []" by auto
  with 2 show ?case by (cases p; cases s) auto
qed simp

declare trim_start_matches.simps [simp del]

definition url_host :: "rust_str \<Rightarrow> rust_str" where
  "url_host s =
     takeWhile (\<lambda>b. b \<notin> {47, 63, 35}) (trim_start_matches (ascii ''http://'') (trim_start_matches (ascii ''https://'') s))"

definition resolver_root_label :: "rust_str \<Rightarrow> resolver_error + rust_str" where
  "resolver_root_label input =
     (let trimmed = trim_end_matches 46 (url_host (str_trim input)) in
      and_then (map_err (\<lambda>_. UnsupportedBackend) (from_ascii trimmed)) (\<lambda>labels.
      if labels = [] then Inl UnsupportedBackend else
      let root = last labels in
      and_then (map_err InvalidName (validate_handshake_name root)) (\<lambda>_. Inr root)))"

text \<open>\<open>chars().any(char::is_whitespace)\<close> on UTF-8 text.\<close>

fun has_whitespace :: "rust_str \<Rightarrow> bool" where
  "has_whitespace (a # b # c # s) =
     (is_space1 a \<or> is_space2 a b \<or> is_space3 a b c \<or> has_whitespace (b # c # s))"
| "has_whitespace [a, b] = (is_space1 a \<or> is_space2 a b \<or> is_space1 b)"
| "has_whitespace [a] = is_space1 a"
| "has_whitespace [] = False"

definition uses_icann_namespace :: "rust_str list \<Rightarrow> rust_str \<Rightarrow> bool" where
  "uses_icann_namespace tlds host =
     (let host = trim_end_matches 46 host; suffix = last (str_split 46 host) in
      is_browser_special_use_host host \<or>
      46 \<in> set host \<and> (\<exists>candidate\<in>set tlds. to_ascii_lowercase suffix = to_ascii_lowercase candidate))"

definition classify_name :: "rust_str list \<Rightarrow> rust_str \<Rightarrow> name_class" where
  "classify_name tlds input =
     (let trimmed = str_trim input in
      if trimmed = [] \<or> has_whitespace trimmed then ClassSearch else
      let host = trim_end_matches 46 (url_host trimmed) in
      if host = [] then ClassSearch
      else if parse_ip_addr host \<noteq> None \<or> uses_icann_namespace tlds host then ClassIcann
      else case resolver_root_label host of Inr _ \<Rightarrow> ClassHns | Inl _ \<Rightarrow> ClassIcann)"

subsection \<open>Requests, answers, proven values\<close>

record resolution_request =
  req_qname :: rust_str
  req_qtype :: u16

record resolution_answer =
  ans_name :: dns_name
  ans_records :: "resource_record list"
  ans_secure :: bool

record value_anchor =
  va_tree_root :: hash
  va_height :: u32

record verified_value =
  vv_root_name :: rust_str
  vv_name_hash :: hash
  vv_value :: "bytes option"
  vv_secure :: bool
  vv_anchor :: "value_anchor option"

definition verified_inclusion :: "rust_str \<Rightarrow> hash \<Rightarrow> bytes \<Rightarrow> verified_value" where
  "verified_inclusion root_name name_hash v =
     \<lparr>vv_root_name = root_name, vv_name_hash = name_hash, vv_value = Some v, vv_secure = True, vv_anchor = None\<rparr>"

definition verified_non_inclusion :: "rust_str \<Rightarrow> hash \<Rightarrow> verified_value" where
  "verified_non_inclusion root_name name_hash =
     \<lparr>vv_root_name = root_name, vv_name_hash = name_hash, vv_value = None, vv_secure = True, vv_anchor = None\<rparr>"

definition with_anchor :: "hash \<Rightarrow> u32 \<Rightarrow> verified_value \<Rightarrow> verified_value" where
  "with_anchor tree_root height v = v\<lparr>vv_anchor := Some \<lparr>va_tree_root = tree_root, va_height = height\<rparr>\<rparr>"

record proven_records =
  pn_root_name :: rust_str
  pn_name_hash :: hash
  pn_records :: "resource_record list"
  pn_secure :: bool
  pn_exists :: bool

definition from_resource_value :: "rust_str \<Rightarrow> hash \<Rightarrow> bytes \<Rightarrow> resolver_error + proven_records" where
  "from_resource_value root_name name_hash v =
     and_then (map_err (\<lambda>_. UnsupportedBackend) (from_ascii root_name)) (\<lambda>owner.
     and_then (map_err InvalidResource (decode_handshake_resource_records owner v)) (\<lambda>records.
     Inr \<lparr>pn_root_name = root_name, pn_name_hash = name_hash, pn_records = records, pn_secure = True, pn_exists = True\<rparr>))"

definition from_verified_resource_value :: "verified_value \<Rightarrow> resolver_error + proven_records" where
  "from_verified_resource_value verified =
     and_then
       (case vv_value verified of
          Some v \<Rightarrow>
            and_then (map_err (\<lambda>_. UnsupportedBackend) (from_ascii (vv_root_name verified))) (\<lambda>owner.
            map_err InvalidResource (decode_handshake_resource_records owner v))
        | None \<Rightarrow> Inr []) (\<lambda>records.
     Inr \<lparr>pn_root_name = vv_root_name verified, pn_name_hash = vv_name_hash verified, pn_records = records,
          pn_secure = vv_secure verified, pn_exists = (vv_value verified \<noteq> None)\<rparr>)"

subsection \<open>The in-memory provider\<close>

text \<open>No code panics while it holds the lock, so the lock is never poisoned.\<close>

type_synonym memory_values = "rust_str \<times> hash \<Rightarrow> verified_value option"

definition normalize_verified_value :: "digest_fns \<Rightarrow> verified_value \<Rightarrow> resolver_error + verified_value" where
  "normalize_verified_value D verified =
     and_then (resolver_root_label (vv_root_name verified)) (\<lambda>root_name.
     and_then (map_err InvalidName (name_hash_from_name D root_name)) (\<lambda>expected.
     if vv_name_hash verified \<noteq> expected then Inl ProofNameMismatch
     else Inr (verified\<lparr>vv_root_name := root_name\<rparr>)))"

definition memory_insert :: "digest_fns \<Rightarrow> verified_value \<Rightarrow> memory_values \<Rightarrow> (resolver_error + unit) \<times> memory_values"
where
  "memory_insert D verified vs =
     (case and_then (resolver_root_label (vv_root_name verified)) (\<lambda>root_name.
           and_then (normalize_verified_value D verified) (\<lambda>verified. Inr (root_name, verified))) of
        Inl e \<Rightarrow> (Inl e, vs)
      | Inr (root_name, verified) \<Rightarrow> (Inr (), vs((root_name, vv_name_hash verified) \<mapsto> verified)))"

definition memory_prove :: "digest_fns \<Rightarrow> rust_str \<Rightarrow> hash \<Rightarrow> memory_values \<Rightarrow> (resolver_error + verified_value) \<times> memory_values"
where
  "memory_prove D root_name name_hash vs =
     (and_then (resolver_root_label root_name) (\<lambda>root_name.
      and_then (map_err InvalidName (name_hash_from_name D root_name)) (\<lambda>expected.
      if name_hash \<noteq> expected then Inl ProofNameMismatch
      else ok_or ProofUnavailable (vs (root_name, name_hash)))), vs)"

section \<open>Lemmas\<close>

lemma io_then_Inr: "io_then m f w = (Inr y, w'') \<longleftrightarrow> (\<exists>x w'. m w = (Inr x, w') \<and> f x w' = (Inr y, w''))"
  by (auto simp: io_then_def split: sum.splits prod.splits)

lemma io_then_Inl:
  "io_then m f w = (Inl e, w'') \<longleftrightarrow> m w = (Inl e, w'') \<or> (\<exists>x w'. m w = (Inr x, w') \<and> f x w' = (Inl e, w''))"
  by (auto simp: io_then_def split: sum.splits prod.splits)

lemma io_pure_eq [simp]: "io_pure r w = (r', w') \<longleftrightarrow> r' = r \<and> w' = w"
  by (auto simp: io_pure_def)

text \<open>The root label of a text is a valid Handshake name, and a valid Handshake name is its own root label.\<close>

lemma root_label_valid:
  assumes "resolver_root_label input = Inr root"
  shows "handshake_name_ok root"
  using assms by (auto simp: resolver_root_label_def and_then_Inr Let_def handshake_name_exact split: if_splits)

lemma name_char_facts:
  assumes "name_char b"
  shows "is_ascii_alphanumeric b \<or> b = 45 \<or> b = 95" "to_ascii_lower_byte b = b" "b \<noteq> 47" "b \<noteq> 63" "b \<noteq> 35" "b \<noteq> 58"
    "b \<noteq> 46" "\<not> is_space1 b" "b < 0x80"
  using assms
  by (auto simp: name_char_def is_ascii_alphanumeric_def is_ascii_digit_def is_ascii_lower_def is_ascii_upper_def
      to_ascii_lower_byte_def is_space1_def word_le_nat_alt word_less_nat_alt)

lemma handshake_name_chars: "\<lbrakk>handshake_name_ok root; b \<in> set root\<rbrakk> \<Longrightarrow> name_char b"
  by (simp add: handshake_name_ok_def)

lemma handshake_name_wf:
  assumes "handshake_name_ok root"
  shows "wf_name [root]"
proof -
  have "is_valid_dns_label root"
    using handshake_name_chars [OF assms] name_char_facts(1) by (auto simp: is_valid_dns_label_def list_all_iff)
  moreover have "map to_ascii_lower_byte root = root"
    using handshake_name_chars [OF assms] name_char_facts(2) by (intro map_idI) auto
  ultimately show ?thesis
    using assms by (simp add: wf_name_def wf_label_def to_ascii_lowercase_def handshake_name_ok_def)
qed

lemma handshake_name_from_ascii: "handshake_name_ok root \<Longrightarrow> from_ascii root = Inr [root]"
  using from_ascii_display [OF handshake_name_wf, of root] by (simp add: dns_name_display_def)

lemma no_scheme: "58 \<notin> set s \<Longrightarrow> 58 \<in> set p \<Longrightarrow> trim_start_matches p s = s"
  by (subst trim_start_matches.simps) (metis in_set_takeD)

lemma url_host_plain:
  assumes "\<And>b. b \<in> set s \<Longrightarrow> b \<noteq> 58 \<and> b \<noteq> 47 \<and> b \<noteq> 63 \<and> b \<noteq> 35"
  shows "url_host s = s"
proof -
  have "58 \<notin> set s" using assms by blast
  moreover have "58 \<in> set (ascii ''https://'')" "58 \<in> set (ascii ''http://'')" by (simp_all add: ascii_def)
  ultimately show ?thesis using assms by (simp add: url_host_def no_scheme takeWhile_eq_all_conv)
qed

lemma root_label_self:
  assumes "handshake_name_ok root"
  shows "resolver_root_label root = Inr root"
proof -
  note c = handshake_name_chars [OF assms]
  have ne: "root \<noteq> []" using assms by (simp add: handshake_name_ok_def)
  have "str_trim root = root" "trim_end_matches 46 root = root"
    using ne c [of "hd root"] c [of "last root"] name_char_facts
    by (simp_all add: str_trim_def trim_start_ascii trim_end_ascii hd_rev trim_end_matches_id)
  moreover have "url_host root = root"
    using c name_char_facts(3-6) by (intro url_host_plain) auto
  ultimately show ?thesis
    using assms by (simp add: resolver_root_label_def handshake_name_from_ascii handshake_name_exact
        flip: handshake_name_exact)
qed

lemma root_label_idem: "resolver_root_label input = Inr root \<Longrightarrow> resolver_root_label root = Inr root"
  using root_label_self root_label_valid by blast

text \<open>The provider returns what was stored last for a name, and only under the hash of that name.\<close>

lemma normalize_verified_Inr:
  assumes "normalize_verified_value D v = Inr v'"
  shows "v' = v\<lparr>vv_root_name := vv_root_name v'\<rparr>" "resolver_root_label (vv_root_name v) = Inr (vv_root_name v')"
    "name_hash_from_name D (vv_root_name v') = Inr (vv_name_hash v)"
  using assms by (auto simp: normalize_verified_value_def and_then_Inr split: if_splits)

lemma memory_insert_Inr:
  "memory_insert D v vs = (Inr (), vs') \<longleftrightarrow>
     (\<exists>v'. normalize_verified_value D v = Inr v' \<and> vs' = vs((vv_root_name v', vv_name_hash v') \<mapsto> v'))"
  by (auto simp: memory_insert_def normalize_verified_value_def and_then_Inr and_then_Inl split: sum.splits if_splits)

end
