(* ===== verification/Proof_Sync.thy ===== *)
theory Proof_Sync
  imports P2p_Handshake Hns_Names Header_Store Dane
begin

text \<open>
  Fetching and checking name proofs (\<open>hns-sync/src/lib.rs\<close>, \<open>ProofSyncCoordinator\<close> and \<open>ProofScheduler\<close>): a proof is
  requested from a peer for a tree root and a name hash, the answer is parsed and verified, the resource value is
  cut out of the name state, and the value is handed to a sink. Verifier and sink are trait objects: the verifier is
  a function, the sink a function on a world of any type.
\<close>

section \<open>Definitions\<close>

datatype sync_error =
    SyncChain chain_error
  | SyncP2p p2p_error
  | SyncProof proof_error
  | SyncResolver resolver_error
  | SyncUnexpectedAction
  | UnexpectedProof
  | ProofMismatch
  | UnverifiedProof
  | MissingProofValue
  | MalformedNameStateValue

definition SYNC_MAX_NAME_STATE_NAME_BYTES :: nat where "SYNC_MAX_NAME_STATE_NAME_BYTES = 63"
definition SYNC_MAX_NAME_STATE_DATA_BYTES :: nat where "SYNC_MAX_NAME_STATE_DATA_BYTES = 512"
definition SYNC_NAME_STATE_FIXED_TAIL_BYTES :: nat where "SYNC_NAME_STATE_FIXED_TAIL_BYTES = 10"

record proof_validation =
  pv_root :: hash
  pv_key :: hash
  pv_kind :: proof_kind
  pv_value :: "bytes option"

record proof_coordinator =
  co_verify :: "parsed_proof \<Rightarrow> hash \<Rightarrow> proof_error + bool"
  co_pending :: "(hash \<times> hash) set"

definition coordinator_new :: "(parsed_proof \<Rightarrow> hash \<Rightarrow> proof_error + bool) \<Rightarrow> proof_coordinator" where
  "coordinator_new verify = \<lparr>co_verify = verify, co_pending = {}\<rparr>"

definition track_request :: "hash \<Rightarrow> hash \<Rightarrow> proof_coordinator \<Rightarrow> proof_coordinator" where
  "track_request root key co = co\<lparr>co_pending := insert (root, key) (co_pending co)\<rparr>"

definition forget_request :: "hash \<Rightarrow> hash \<Rightarrow> proof_coordinator \<Rightarrow> bool \<times> proof_coordinator" where
  "forget_request root key co = ((root, key) \<in> co_pending co, co\<lparr>co_pending := co_pending co - {(root, key)}\<rparr>)"

definition coordinator_request_proof ::
  "hash \<Rightarrow> hash \<Rightarrow> header_sync_session \<Rightarrow> proof_coordinator \<Rightarrow>
   header_sync_action \<times> header_sync_session \<times> proof_coordinator"
where
  "coordinator_request_proof root key s co =
     (let (action, s) = session_request_proof root key s in
      case action of
        ActSend (PktGetProof _) \<Rightarrow> (action, s, track_request root key co)
      | _ \<Rightarrow> (action, s, co))"

definition ingest_proof :: "proof_packet \<Rightarrow> proof_coordinator \<Rightarrow> (sync_error + proof_validation) \<times> proof_coordinator"
where
  "ingest_proof packet co =
     (let (requested, co) = forget_request (pk_root packet) (pk_key packet) co in
      (if \<not> requested then Inl UnexpectedProof else
       and_then (map_err SyncProof (parse_for_key (pk_proof packet) (pk_root packet) (pk_key packet))) (\<lambda>p.
       if pp_root p \<noteq> pk_root packet \<or> pp_name_hash p \<noteq> pk_key packet then Inl ProofMismatch else
       and_then (map_err SyncProof (co_verify co p (pk_root packet))) (\<lambda>ok.
       if \<not> ok then Inl UnverifiedProof else
       Inr \<lparr>pv_root = pk_root packet, pv_key = pk_key packet, pv_kind = pp_kind p, pv_value = parsed_proof_value p\<rparr>)),
       co))"

definition coordinator_ingest_action ::
  "header_sync_action \<Rightarrow> proof_coordinator \<Rightarrow> (sync_error + proof_validation) \<times> proof_coordinator"
where
  "coordinator_ingest_action action co =
     (case action of ActProof proof \<Rightarrow> ingest_proof proof co | _ \<Rightarrow> (Inl SyncUnexpectedAction, co))"

text \<open>The resource value inside a name state: name length and name, data length and data, and the fixed tail.\<close>

definition sync_name_state_value :: "rust_str \<Rightarrow> bytes \<Rightarrow> sync_error fault + bytes" where
  "sync_name_state_value root_name v =
     (let malformed = Inl (Err MalformedNameStateValue) in
      and_then (ok_or (Err MalformedNameStateValue) (get_byte v 0)) (\<lambda>first.
      let name_len = unat first in
      if name_len > SYNC_MAX_NAME_STATE_NAME_BYTES then malformed else
      let name_start = 1 in
      and_then (ok_or (Err MalformedNameStateValue) (checked_add_usize name_start name_len)) (\<lambda>name_end.
      let data_len_start = name_end in
      and_then (ok_or (Err MalformedNameStateValue) (checked_add_usize data_len_start 2)) (\<lambda>data_len_end.
      if length v < data_len_end then malformed else
      and_then (ok_or Panic (get_range v name_start name_end)) (\<lambda>name.
      if name \<noteq> root_name then Inl (Err ProofMismatch) else
      and_then (ok_or Panic (get_byte v data_len_start)) (\<lambda>low.
      and_then (ok_or Panic (get_byte v (data_len_start + 1))) (\<lambda>high.
      let data_len = unat (u16_of_le [low, high]) in
      if data_len > SYNC_MAX_NAME_STATE_DATA_BYTES then malformed else
      let data_start = data_len_end in
      and_then (ok_or (Err MalformedNameStateValue) (checked_add_usize data_start data_len)) (\<lambda>data_end.
      and_then (ok_or (Err MalformedNameStateValue) (checked_add_usize data_end SYNC_NAME_STATE_FIXED_TAIL_BYTES)) (\<lambda>min_end.
      if length v < min_end then malformed else ok_or Panic (get_range v data_start data_end))))))))))"

definition verified_resource_value :: "rust_str \<Rightarrow> hash \<Rightarrow> proof_validation \<Rightarrow> sync_error fault + verified_value" where
  "verified_resource_value root_name name_hash result =
     (case pv_kind result of
        Inclusion \<Rightarrow>
          and_then (ok_or (Err MissingProofValue) (pv_value result)) (\<lambda>v.
          and_then (sync_name_state_value root_name v) (\<lambda>resource.
          Inr (verified_inclusion root_name name_hash resource)))
      | NonInclusion \<Rightarrow> Inr (verified_non_inclusion root_name name_hash))"

subsection \<open>The scheduler\<close>

record 's proof_scheduler =
  sc_coordinator :: proof_coordinator
  sc_sink :: 's

type_synonym 's sink_fn = "verified_value \<Rightarrow> 's \<Rightarrow> (resolver_error + unit) \<times> 's"

definition scheduler_new :: "(parsed_proof \<Rightarrow> hash \<Rightarrow> proof_error + bool) \<Rightarrow> 's \<Rightarrow> 's proof_scheduler" where
  "scheduler_new verify sink = \<lparr>sc_coordinator = coordinator_new verify, sc_sink = sink\<rparr>"

definition scheduler_forget :: "hash \<Rightarrow> hash \<Rightarrow> 's proof_scheduler \<Rightarrow> 's proof_scheduler" where
  "scheduler_forget root key sc = sc\<lparr>sc_coordinator := snd (forget_request root key (sc_coordinator sc))\<rparr>"

text \<open>What is asked: the name, the tree root, the name hash and the height the root belongs to.\<close>

record proof_query =
  qy_root_name :: rust_str
  qy_root :: hash
  qy_name_hash :: hash
  qy_height :: "u32 option"

definition store_proof ::
  "'s sink_fn \<Rightarrow> proof_query \<Rightarrow> proof_packet \<Rightarrow> 's proof_scheduler \<Rightarrow> (sync_error fault + proof_validation) \<times> 's proof_scheduler"
where
  "store_proof sink q proof sc =
     (let (r, co) = ingest_proof proof (sc_coordinator sc); sc = sc\<lparr>sc_coordinator := co\<rparr> in
      case and_then (map_err Err r) (\<lambda>result.
           and_then (verified_resource_value (qy_root_name q) (qy_name_hash q) result) (\<lambda>verified.
           Inr (result, case qy_height q of
             Some height \<Rightarrow> with_anchor (pv_root result) height verified
           | None \<Rightarrow> verified))) of
        Inl e \<Rightarrow> (Inl e, sc)
      | Inr (result, verified) \<Rightarrow>
          (case sink verified (sc_sink sc) of
             (Inl e, w) \<Rightarrow> (Inl (Err (SyncResolver e)), sc\<lparr>sc_sink := w\<rparr>)
           | (Inr _, w) \<Rightarrow> (Inr result, sc\<lparr>sc_sink := w\<rparr>)))"

text \<open>The actions of one packet; \<open>None\<close> when the loop goes on.\<close>

fun proof_actions ::
  "'s sink_fn \<Rightarrow> proof_query \<Rightarrow> header_sync_action list \<Rightarrow> 's proof_scheduler \<Rightarrow> peer_connection \<Rightarrow>
   (sync_error fault + proof_validation option) \<times> 's proof_scheduler \<times> peer_connection"
where
  "proof_actions sink q [] sc c = (Inr None, sc, c)"
| "proof_actions sink q (action # later) sc c =
     (let forget = scheduler_forget (qy_root q) (qy_name_hash q) in
      case action of
        ActProof proof \<Rightarrow>
          (case store_proof sink q proof sc of
             (Inl e, sc) \<Rightarrow> (Inl e, sc, c)
           | (Inr result, sc) \<Rightarrow> (Inr (Some result), sc, c))
      | ActSend packet \<Rightarrow>
          (case send_packet packet c of
             (Inl e, c) \<Rightarrow> (Inl (Err (SyncP2p e)), forget sc, c)
           | (Inr _, c) \<Rightarrow> proof_actions sink q later sc c)
      | ActDisconnect reason \<Rightarrow> (Inl (Err (SyncP2p (SessionDisconnected reason))), forget sc, c)
      | _ \<Rightarrow> (Inl (Err SyncUnexpectedAction), forget sc, c))"

lemma proof_actions_keeps:
  assumes "proof_actions sink q acts sc c = (r, sc', c')"
  shows "pc_pending c' = pc_pending c \<and> pc_decoder c' = pc_decoder c \<and> pc_network c' = pc_network c \<and>
    tr_reads (pc_transport c') = tr_reads (pc_transport c)"
  using assms
proof (induction acts arbitrary: c sc)
  case (Cons a acts)
  show ?case
  proof (cases a)
    case (ActSend p)
    obtain r1 c1 where s: "send_packet p c = (r1, c1)" by force
    note k = send_packet_keeps [OF s]
    show ?thesis
    proof (cases r1)
      case (Inr u)
      then have "proof_actions sink q acts sc c1 = (r, sc', c')" using Cons.prems ActSend s by simp
      from Cons.IH [OF this] k show ?thesis by simp
    qed (use Cons.prems ActSend s k in auto)
  next
    case (ActProof p)
    obtain r1 sc1 where s: "store_proof sink q p sc = (r1, sc1)" by force
    with Cons.prems ActProof show ?thesis by (cases r1) auto
  qed (use Cons.prems in auto)
qed simp

function proof_loop ::
  "'s sink_fn \<Rightarrow> proof_query \<Rightarrow> header_sync_session \<Rightarrow> 's proof_scheduler \<Rightarrow> peer_connection \<Rightarrow>
   (sync_error fault + proof_validation) \<times> header_sync_session \<times> 's proof_scheduler \<times> peer_connection"
where
  "proof_loop sink q s sc c =
     (case receive_packet c of
        (Inl e, c) \<Rightarrow> (Inl (Err (SyncP2p e)), s, scheduler_forget (qy_root q) (qy_name_hash q) sc, c)
      | (Inr packet, c) \<Rightarrow>
          (let (actions, s) = on_packet packet s in
           case proof_actions sink q actions sc c of
             (Inl e, sc, c) \<Rightarrow> (Inl e, s, sc, c)
           | (Inr (Some result), sc, c) \<Rightarrow> (Inr result, s, sc, c)
           | (Inr None, sc, c) \<Rightarrow> proof_loop sink q s sc c))"
  by pat_completeness auto
termination
  by (relation "measure (\<lambda>(_, _, _, _, c). input_left c)")
    (auto dest!: receive_packet_work [OF sym] proof_actions_keeps [OF sym, THEN input_left_cong])

declare proof_loop.simps [simp del]

definition request_hash_and_store ::
  "'s sink_fn \<Rightarrow> proof_query \<Rightarrow> header_sync_session \<Rightarrow> 's proof_scheduler \<Rightarrow> peer_connection \<Rightarrow>
   (sync_error fault + proof_validation) \<times> header_sync_session \<times> 's proof_scheduler \<times> peer_connection"
where
  "request_hash_and_store sink q s sc c =
     (let root = qy_root q; key = qy_name_hash q;
          (action, s, co) = coordinator_request_proof root key s (sc_coordinator sc);
          sc = sc\<lparr>sc_coordinator := co\<rparr>
      in case action of
        ActSend packet \<Rightarrow>
          (case send_packet packet c of
             (Inl e, c) \<Rightarrow> (Inl (Err (SyncP2p e)), s, scheduler_forget root key sc, c)
           | (Inr _, c) \<Rightarrow> proof_loop sink q s sc c)
      | ActDisconnect reason \<Rightarrow> (Inl (Err (SyncP2p (SessionDisconnected reason))), s, sc, c)
      | _ \<Rightarrow> (Inl (Err SyncUnexpectedAction), s, sc, c))"

text \<open>\<open>request_and_store\<close> and \<open>request_and_store_at_height\<close>: the hash is computed from the name.\<close>

definition request_and_store ::
  "digest_fns \<Rightarrow> 's sink_fn \<Rightarrow> rust_str \<Rightarrow> hash \<Rightarrow> u32 option \<Rightarrow> header_sync_session \<Rightarrow> 's proof_scheduler \<Rightarrow>
   peer_connection \<Rightarrow> (sync_error fault + proof_validation) \<times> header_sync_session \<times> 's proof_scheduler \<times> peer_connection"
where
  "request_and_store D sink root_name root height s sc c =
     (case name_hash_from_name D root_name of
        Inl e \<Rightarrow> (Inl (Err (SyncResolver (InvalidName e))), s, sc, c)
      | Inr name_hash \<Rightarrow>
          request_hash_and_store sink
            \<lparr>qy_root_name = root_name, qy_root = root, qy_name_hash = name_hash, qy_height = height\<rparr> s sc c)"

section \<open>The name state\<close>

text \<open>The two parsers of name states, here and in \<open>hns-dane\<close>, accept the same states; this one never panics.\<close>

lemmas sync_limits = SYNC_MAX_NAME_STATE_NAME_BYTES_def SYNC_MAX_NAME_STATE_DATA_BYTES_def
  SYNC_NAME_STATE_FIXED_TAIL_BYTES_def

lemma sync_name_state_agrees:
  "sync_name_state_value name v = Inr d \<longleftrightarrow> extract_name_state_resource_value name v = Inr d"
  unfolding sync_name_state_value_def extract_name_state_resource_value_def index_range_def index_byte_def
    sync_limits name_state_limits
  by (simp add: and_then_Inr ok_or_Inr Let_def)

lemma sync_name_state_no_panic: "sync_name_state_value name v \<noteq> Inl Panic"
  unfolding sync_name_state_value_def sync_limits
  by (auto simp: and_then_Inl and_then_Inr ok_or_Inl ok_or_Inr Let_def checked_add_usize_def get_range_def get_byte_def
      split: if_splits)

lemma verified_resource_no_panic: "verified_resource_value name h r \<noteq> Inl Panic"
  by (auto simp: verified_resource_value_def and_then_Inl ok_or_Inl sync_name_state_no_panic split: proof_kind.splits)

section \<open>Soundness\<close>

text \<open>The answer \<open>a\<close> (a name state, or none) is proven under a root for a key.\<close>

definition proof_shows :: "(parsed_proof \<Rightarrow> hash \<Rightarrow> proof_error + bool) \<Rightarrow> hash \<Rightarrow> hash \<Rightarrow> bytes option \<Rightarrow> parsed_proof \<Rightarrow> bool"
where
  "proof_shows verify root key a p \<longleftrightarrow>
     (\<exists>bs. parse_for_key bs root key = Inr p) \<and> verify p root = Inr True \<and> parsed_proof_value p = a"

text \<open>The value stored for a query whose proof shows \<open>a\<close>.\<close>

definition stored_for :: "proof_query \<Rightarrow> bytes option \<Rightarrow> verified_value \<Rightarrow> bool" where
  "stored_for q a v \<longleftrightarrow>
     vv_root_name v = qy_root_name q \<and> vv_name_hash v = qy_name_hash q \<and> vv_secure v \<and>
     vv_anchor v = map_option (\<lambda>h. \<lparr>va_tree_root = qy_root q, va_height = h\<rparr>) (qy_height q) \<and>
     (case a of
        None \<Rightarrow> vv_value v = None
      | Some st \<Rightarrow> \<exists>d. vv_value v = Some d \<and> sync_name_state_value (qy_root_name q) st = Inr d)"

definition settled :: "'s sink_fn \<Rightarrow> proof_query \<Rightarrow> sync_error fault + proof_validation \<Rightarrow> 's proof_scheduler \<Rightarrow>
  's proof_scheduler \<Rightarrow> bool"
where
  "settled sink q r sc sc' \<longleftrightarrow>
     (case r of
        Inr result \<Rightarrow>
          \<exists>p v. proof_shows (co_verify (sc_coordinator sc)) (qy_root q) (qy_name_hash q) (pv_value result) p \<and>
            stored_for q (pv_value result) v \<and> sink v (sc_sink sc) = (Inr (), sc_sink sc') \<and>
            pv_root result = qy_root q \<and> pv_key result = qy_name_hash q \<and>
            co_pending (sc_coordinator sc') = {}
      | Inl e \<Rightarrow>
          e \<noteq> Panic \<and>
          (co_pending (sc_coordinator sc') = {} \<or> e = Err UnexpectedProof) \<and>
          (sc_sink sc' = sc_sink sc \<or>
           (\<exists>a p v e'. proof_shows (co_verify (sc_coordinator sc)) (qy_root q) (qy_name_hash q) a p \<and>
              stored_for q a v \<and> sink v (sc_sink sc) = (Inl e', sc_sink sc') \<and> e = Err (SyncResolver e'))))"

lemma parse_for_key_facts:
  assumes "parse_for_key bs root key = Inr p"
  shows "pp_root p = root" "pp_name_hash p = key" "pp_kind p = Inclusion \<longleftrightarrow> parsed_proof_value p \<noteq> None"
proof -
  from assms obtain q where q: "urkel_decode bs = Inr q"
    "p = \<lparr>pp_kind = urkel_kind q, pp_root = root, pp_name_hash = key, pp_payload = bs, pp_proof = q\<rparr>"
    by (auto simp: parse_for_key_def and_then_Inr split: if_splits)
  then show "pp_root p = root" "pp_name_hash p = key" by simp_all
  from q(1) obtain ty c b c' where "decode_body ty c = Inr (b, c')" and b: "proof_body q = b" "proof_type q = ty"
    unfolding urkel_decode_def by (fastforce simp: and_then_Inr Let_def split: if_splits)
  then have "proof_type q = TYPE_EXISTS \<longleftrightarrow> (\<exists>v. proof_body q = Exists v)"
    unfolding b by (auto simp: decode_body_def and_then_Inr TYPE_DEADEND_def TYPE_SHORT_def TYPE_COLLISION_def TYPE_EXISTS_def
        split: if_splits)
  with q(2) show "pp_kind p = Inclusion \<longleftrightarrow> parsed_proof_value p \<noteq> None"
    by (auto simp: parsed_proof_value_def urkel_kind_def urkel_value_def split: proof_body.splits)
qed

lemma ingest_proof_Inr:
  assumes "ingest_proof packet co = (Inr result, co')"
  obtains p where "(pk_root packet, pk_key packet) \<in> co_pending co"
    "co' = co\<lparr>co_pending := co_pending co - {(pk_root packet, pk_key packet)}\<rparr>"
    "proof_shows (co_verify co) (pk_root packet) (pk_key packet) (pv_value result) p"
    "pv_kind result = Inclusion \<longleftrightarrow> pv_value result \<noteq> None"
    "pv_root result = pk_root packet" "pv_key result = pk_key packet"
proof -
  obtain p where p: "(pk_root packet, pk_key packet) \<in> co_pending co"
    "co' = co\<lparr>co_pending := co_pending co - {(pk_root packet, pk_key packet)}\<rparr>"
    "parse_for_key (pk_proof packet) (pk_root packet) (pk_key packet) = Inr p"
    "co_verify co p (pk_root packet) = Inr True"
    "result = \<lparr>pv_root = pk_root packet, pv_key = pk_key packet, pv_kind = pp_kind p, pv_value = parsed_proof_value p\<rparr>"
    using assms by (auto simp: ingest_proof_def forget_request_def and_then_Inr map_err_Inr split: if_splits)
  with that [of p] parse_for_key_facts(3) [OF p(3)] show thesis by (auto simp: proof_shows_def)
qed

lemma ingest_proof_state:
  "snd (ingest_proof packet co) = co\<lparr>co_pending := co_pending co - {(pk_root packet, pk_key packet)}\<rparr>"
  by (simp add: ingest_proof_def forget_request_def)

lemma ingest_proof_unrequested:
  "(pk_root packet, pk_key packet) \<notin> co_pending co \<Longrightarrow> ingest_proof packet co = (Inl UnexpectedProof, co)"
  by (simp add: ingest_proof_def forget_request_def)

lemma ingest_proof_ends:
  assumes "ingest_proof packet co = (r, co')" "co_pending co \<subseteq> {k}"
  shows "co_verify co' = co_verify co" "co_pending co' \<subseteq> {k}" "co_pending co' = {} \<or> r = Inl UnexpectedProof"
  using assms ingest_proof_state [of packet co] ingest_proof_unrequested [of packet co] by auto

lemma store_proof_settled:
  assumes "store_proof sink q packet sc = (r, sc')"
    and "co_pending (sc_coordinator sc) \<subseteq> {(qy_root q, qy_name_hash q)}"
  shows "settled sink q r sc sc'"
proof -
  let ?co = "sc_coordinator sc"
  obtain ri co where i: "ingest_proof packet ?co = (ri, co)" by force
  note ends = ingest_proof_ends [OF i assms(2)]
  show ?thesis
  proof (cases ri)
    case (Inl e)
    with i assms(1) ends show ?thesis by (auto simp: store_proof_def settled_def)
  next
    case (Inr result)
    with i have "ingest_proof packet ?co = (Inr result, co)" by simp
    from ingest_proof_Inr [OF this] obtain p where p: "(pk_root packet, pk_key packet) \<in> co_pending ?co"
      "proof_shows (co_verify ?co) (pk_root packet) (pk_key packet) (pv_value result) p"
      "pv_kind result = Inclusion \<longleftrightarrow> pv_value result \<noteq> None"
      "pv_root result = pk_root packet" "pv_key result = pk_key packet" by metis
    with assms(2) have k: "pk_root packet = qy_root q" "pk_key packet = qy_name_hash q" by auto
    have e: "co_pending co = {}" using ends(3) Inr by simp
    let ?anchor = "\<lambda>v. case qy_height q of Some h \<Rightarrow> with_anchor (pv_root result) h v | None \<Rightarrow> v"
    show ?thesis
    proof (cases "verified_resource_value (qy_root_name q) (qy_name_hash q) result")
      case (Inl e')
      then have "e' \<noteq> Panic" using verified_resource_no_panic by metis
      then show ?thesis using i Inr Inl assms(1) e by (auto simp: store_proof_def settled_def)
    next
      case (Inr v)
      have form: "stored_for q (pv_value result) (?anchor v)"
        using Inr p(3,4) k
        by (cases "pv_kind result")
          (auto simp: verified_resource_value_def and_then_Inr ok_or_Inr stored_for_def with_anchor_def
            verified_inclusion_def verified_non_inclusion_def split: option.splits)
      obtain rs w where w: "sink (?anchor v) (sc_sink sc) = (rs, w)" by force
      have eq: "store_proof sink q packet sc =
          (case rs of Inl e \<Rightarrow> Inl (Err (SyncResolver e)) | Inr _ \<Rightarrow> Inr result,
           sc\<lparr>sc_coordinator := co, sc_sink := w\<rparr>)"
        using i \<open>ri = Inr result\<close> Inr w by (auto simp: store_proof_def split: sum.splits)
      show ?thesis
      proof (cases rs)
        case (Inl e')
        then show ?thesis using eq assms(1) w form p(2) k e unfolding settled_def by auto
      next
        case (Inr u)
        then show ?thesis using eq assms(1) w form p(2,4,5) k e unfolding settled_def by auto
      qed
    qed
  qed
qed

lemma forget_settled:
  assumes "co_pending (sc_coordinator sc) \<subseteq> {(qy_root q, qy_name_hash q)}" "e \<noteq> Panic"
  shows "settled sink q (Inl e) sc (scheduler_forget (qy_root q) (qy_name_hash q) sc)"
  using assms by (auto simp: settled_def scheduler_forget_def forget_request_def)

lemma proof_actions_settled:
  assumes "proof_actions sink q acts sc c = (r, sc', c')"
    and "co_pending (sc_coordinator sc) \<subseteq> {(qy_root q, qy_name_hash q)}"
  shows "case r of Inl e \<Rightarrow> settled sink q (Inl e) sc sc' | Inr None \<Rightarrow> sc' = sc
    | Inr (Some result) \<Rightarrow> settled sink q (Inr result) sc sc'"
  using assms(1)
proof (induction acts arbitrary: c)
  case (Cons a acts)
  note forget = forget_settled [OF assms(2)]
  show ?case
  proof (cases a)
    case (ActSend p)
    obtain r1 c1 where s: "send_packet p c = (r1, c1)" by force
    then show ?thesis using Cons ActSend forget by (cases r1) auto
  next
    case (ActProof p)
    obtain r1 sc1 where s: "store_proof sink q p sc = (r1, sc1)" by force
    then show ?thesis using store_proof_settled [OF s assms(2)] Cons.prems ActProof by (cases r1) auto
  qed (use Cons.prems forget in auto)
qed auto

lemma proof_loop_settled:
  assumes "proof_loop sink q s sc c = (r, s', sc', c')"
    and "co_pending (sc_coordinator sc) \<subseteq> {(qy_root q, qy_name_hash q)}"
  shows "settled sink q r sc sc'"
  using assms(1)
proof (induction "input_left c" arbitrary: s c rule: less_induct)
  case less
  obtain rp c1 where rp: "receive_packet c = (rp, c1)" by force
  show ?case
  proof (cases rp)
    case (Inl e)
    then show ?thesis
      using less.prems rp forget_settled [OF assms(2)] by (subst (asm) proof_loop.simps) auto
  next
    case (Inr packet)
    obtain acts s1 where a: "on_packet packet s = (acts, s1)" by force
    obtain ra sc1 c2 where p: "proof_actions sink q acts sc c1 = (ra, sc1, c2)" by (metis prod_cases3)
    note st = proof_actions_settled [OF p assms(2)]
    have left: "input_left c2 < input_left c"
      using receive_packet_work [of c packet c1] rp Inr proof_actions_keeps [OF p, THEN input_left_cong] by simp
    show ?thesis
    proof (cases "ra = Inr None")
      case True
      then have "ra = Inr None" "sc1 = sc" using st by auto
      then have "proof_loop sink q s1 sc c2 = (r, s', sc', c')"
        using less.prems rp Inr a p by (subst (asm) proof_loop.simps) simp
      from less.hyps [OF left this] show ?thesis .
    next
      case False
      then show ?thesis
        using less.prems rp Inr a p st by (subst (asm) proof_loop.simps) (auto split: sum.splits option.splits)
    qed
  qed
qed

lemma coordinator_request_cases:
  "coordinator_request_proof root key s co =
     (if hs_state s \<noteq> SyncReady then (ActDisconnect (ascii ''proof requested before peer ready''), s, co)
      else (ActSend (PktGetProof \<lparr>pr_root = root, pr_key = key\<rparr>), s\<lparr>hs_state := ProofRequested\<rparr>, track_request root key co))"
  by (simp add: coordinator_request_proof_def session_request_proof_def)

lemma settled_track:
  "settled sink q r (sc\<lparr>sc_coordinator := track_request root key (sc_coordinator sc)\<rparr>) sc' = settled sink q r sc sc'"
  by (cases r) (simp_all add: settled_def track_request_def)

lemma request_settled:
  assumes "request_hash_and_store sink q s sc c = (r, s', sc', c')" "co_pending (sc_coordinator sc) = {}"
  shows "settled sink q r sc sc'"
proof (cases "hs_state s = SyncReady")
  case False
  then show ?thesis
    using assms by (auto simp: request_hash_and_store_def coordinator_request_cases settled_def)
next
  case True
  let ?sc = "sc\<lparr>sc_coordinator := track_request (qy_root q) (qy_name_hash q) (sc_coordinator sc)\<rparr>"
  have pend: "co_pending (sc_coordinator ?sc) \<subseteq> {(qy_root q, qy_name_hash q)}"
    using assms(2) by (simp add: track_request_def)
  obtain r1 c1 where s: "send_packet (PktGetProof \<lparr>pr_root = qy_root q, pr_key = qy_name_hash q\<rparr>) c = (r1, c1)" by force
  have "settled sink q r ?sc sc'"
  proof (cases r1)
    case (Inl e)
    then show ?thesis
      using assms(1) True s forget_settled [OF pend]
      by (auto simp: request_hash_and_store_def coordinator_request_cases Let_def)
  next
    case (Inr u)
    then have "proof_loop sink q (s\<lparr>hs_state := ProofRequested\<rparr>) ?sc c1 = (r, s', sc', c')"
      using assms(1) True s by (simp add: request_hash_and_store_def coordinator_request_cases)
    from proof_loop_settled [OF this pend] show ?thesis .
  qed
  then show ?thesis by (simp only: settled_track)
qed

section \<open>A request that is never forgotten\<close>

lemma on_packet_proof:
  "hs_state s = ProofRequested \<Longrightarrow> on_packet (PktProof p) s = ([ActProof p], s\<lparr>hs_state := SyncReady\<rparr>)"
  by (simp add: on_packet_def)

text \<open>A request on a connection that delivers a proof packet hands that packet to the coordinator.\<close>

lemma request_delivered:
  assumes "hs_state s = SyncReady" "flows c (PktProof packet # ps) sent"
    and "sendable (PktGetProof \<lparr>pr_root = qy_root q, pr_key = qy_name_hash q\<rparr>)"
  obtains c' sent' where "request_hash_and_store sink q s sc c =
      (let (r, sc') = store_proof sink q packet
         (sc\<lparr>sc_coordinator := track_request (qy_root q) (qy_name_hash q) (sc_coordinator sc)\<rparr>)
       in (r, s, sc', c'))" "flows c' ps sent'"
proof -
  let ?get = "PktGetProof \<lparr>pr_root = qy_root q, pr_key = qy_name_hash q\<rparr>"
  let ?sc = "sc\<lparr>sc_coordinator := track_request (qy_root q) (qy_name_hash q) (sc_coordinator sc)\<rparr>"
  from send_packet_flows [OF assms(2,3)] obtain c1 where c1: "send_packet ?get c = (Inr (), c1)"
    "flows c1 (PktProof packet # ps) (sent @ frame_bytes (pc_network c) ?get)" by metis
  from receive_packet_flows [OF c1(2)] obtain c2 where c2: "receive_packet c1 = (Inr (PktProof packet), c2)"
    "flows c2 ps (sent @ frame_bytes (pc_network c) ?get)" by metis
  have ready: "s\<lparr>hs_state := SyncReady\<rparr> = s" using assms(1) by simp
  obtain r sc' where st: "store_proof sink q packet ?sc = (r, sc')" by force
  have "proof_loop sink q (s\<lparr>hs_state := ProofRequested\<rparr>) ?sc c1 = (r, s, sc', c2)"
    by (cases r) (subst proof_loop.simps, simp add: c2(1) on_packet_proof ready st)+
  then have "request_hash_and_store sink q s sc c = (r, s, sc', c2)"
    using assms(1) c1(1) by (simp add: request_hash_and_store_def coordinator_request_cases)
  with st c2(2) that show thesis by simp
qed

section \<open>Properties\<close>

text \<open>C5.  Fetching a proof is sound against any peer: a fresh scheduler that reports success has given its sink exactly one
  value, for the name, the name hash, the root and the height asked for, cut out of the name state that an accepted
  proof shows under that root (or none, when it shows absence); and if the root is the hash of a tree, that is what the
  tree holds, unless the hash function is broken on the messages of the accepted proof and the tree.\<close>

theorem proof_fetch_sound:
  assumes "digest_laws D" "co_verify (sc_coordinator sc) = urkel_verifier_verify D" "co_pending (sc_coordinator sc) = {}"
    and "wf_tree t" "fully_known t" "qy_root q = tree_hash D t" "length (qy_name_hash q) = 32"
    and "request_hash_and_store sink q s sc c = (Inr result, s', sc', c')"
  shows "\<exists>v. sink v (sc_sink sc) = (Inr (), sc_sink sc') \<and> stored_for q (pv_value result) v \<and>
    (\<exists>p. proof_shows (urkel_verifier_verify D) (qy_root q) (qy_name_hash q) (pv_value result) p \<and>
      (tree_lookup (qy_name_hash q) 0 t = Some (pv_value result) \<or>
       hash_broken D (set (tree_msgs D t) \<union> set (tree_msgs D (proof_tree (qy_name_hash q) (pp_proof p))))))"
proof -
  from request_settled [OF assms(8,3)] obtain p v where
    p: "proof_shows (urkel_verifier_verify D) (qy_root q) (qy_name_hash q) (pv_value result) p"
    and v: "stored_for q (pv_value result) v" "sink v (sc_sink sc) = (Inr (), sc_sink sc')"
    by (auto simp: settled_def assms(2))
  from p obtain bs where "parse_for_key bs (tree_hash D t) (qy_name_hash q) = Inr p"
    "urkel_verifier_verify D p (tree_hash D t) = Inr True" "parsed_proof_value p = pv_value result"
    by (auto simp: proof_shows_def assms(6))
  with uv.accepted_sound [OF assms(1,7) this(1,2) assms(4,5)] p v show ?thesis by metis
qed

text \<open>Whatever the peer does, a request by a fresh scheduler never panics, hands its sink nothing but proven values, and
  forgets the request, except when the peer answers with a proof nobody asked for: then the request stays pending.\<close>

theorem proof_request_failure:
  assumes "request_hash_and_store sink q s sc c = (Inl e, s', sc', c')" "co_pending (sc_coordinator sc) = {}"
  shows "e \<noteq> Panic \<and> (co_pending (sc_coordinator sc') = {} \<or> e = Err UnexpectedProof) \<and>
    (sc_sink sc' = sc_sink sc \<or>
     (\<exists>a p v e'. proof_shows (co_verify (sc_coordinator sc)) (qy_root q) (qy_name_hash q) a p \<and> stored_for q a v \<and>
        sink v (sc_sink sc) = (Inl e', sc_sink sc') \<and> e = Err (SyncResolver e')))"
  using request_settled [OF assms] by (simp add: settled_def)

text \<open>C24.  A request that stays pending poisons the next one: a peer that answers a first request with a proof nobody asked for
  and a second one with a genuine proof of absence for the first makes the scheduler store, and report as proven, that
  the name of the second request does not exist.\<close>

theorem stale_request_poisons_name:
  assumes "hs_state s = SyncReady" "co_pending (sc_coordinator sc) = {}"
    and "flows c [PktProof stray, PktProof absence] sent"
    and "(pk_root stray, pk_key stray) \<noteq> (qy_root q1, qy_name_hash q1)"
    and "pk_root absence = qy_root q1" "pk_key absence = qy_name_hash q1"
    and "parse_for_key (pk_proof absence) (qy_root q1) (qy_name_hash q1) = Inr p"
    and "co_verify (sc_coordinator sc) p (qy_root q1) = Inr True" "parsed_proof_value p = None"
    and "sendable (PktGetProof \<lparr>pr_root = qy_root q1, pr_key = qy_name_hash q1\<rparr>)"
    and "sendable (PktGetProof \<lparr>pr_root = qy_root q2, pr_key = qy_name_hash q2\<rparr>)"
    and "qy_height q2 = None"
    and "sink (verified_non_inclusion (qy_root_name q2) (qy_name_hash q2)) (sc_sink sc) = (Inr (), w)"
  shows "\<exists>sc1 c1 sc2 c2 result. request_hash_and_store sink q1 s sc c = (Inl (Err UnexpectedProof), s, sc1, c1) \<and>
    request_hash_and_store sink q2 s sc1 c1 = (Inr result, s, sc2, c2) \<and> sc_sink sc2 = w \<and>
    pv_key result = qy_name_hash q1"
proof -
  let ?co1 = "track_request (qy_root q1) (qy_name_hash q1) (sc_coordinator sc)"
  from request_delivered [OF assms(1,3,10)] obtain c1 sent1 where
    r1: "request_hash_and_store sink q1 s sc c =
      (let (r, sc') = store_proof sink q1 stray (sc\<lparr>sc_coordinator := ?co1\<rparr>) in (r, s, sc', c1))"
    and f1: "flows c1 [PktProof absence] sent1" .
  have "(pk_root stray, pk_key stray) \<notin> co_pending ?co1" using assms(2,4) by (simp add: track_request_def)
  then have "store_proof sink q1 stray (sc\<lparr>sc_coordinator := ?co1\<rparr>) =
      (Inl (Err UnexpectedProof), sc\<lparr>sc_coordinator := ?co1\<rparr>)"
    by (simp add: store_proof_def ingest_proof_unrequested)
  with r1 have round1: "request_hash_and_store sink q1 s sc c =
      (Inl (Err UnexpectedProof), s, sc\<lparr>sc_coordinator := ?co1\<rparr>, c1)" by simp
  let ?co2 = "track_request (qy_root q2) (qy_name_hash q2) ?co1"
  let ?result = "\<lparr>pv_root = qy_root q1, pv_key = qy_name_hash q1, pv_kind = pp_kind p, pv_value = parsed_proof_value p\<rparr>"
  from request_delivered [OF assms(1) f1 assms(11), where sc = "sc\<lparr>sc_coordinator := ?co1\<rparr>" and sink = sink]
  obtain c2 sent2 where "request_hash_and_store sink q2 s (sc\<lparr>sc_coordinator := ?co1\<rparr>) c1 =
      (let (r, sc') = store_proof sink q2 absence (sc\<lparr>sc_coordinator := ?co1, sc_coordinator :=
         track_request (qy_root q2) (qy_name_hash q2) (sc_coordinator (sc\<lparr>sc_coordinator := ?co1\<rparr>))\<rparr>)
       in (r, s, sc', c2))" "flows c2 [] sent2" .
  then have r2: "request_hash_and_store sink q2 s (sc\<lparr>sc_coordinator := ?co1\<rparr>) c1 =
      (let (r, sc') = store_proof sink q2 absence (sc\<lparr>sc_coordinator := ?co2\<rparr>) in (r, s, sc', c2))" by simp
  note f = parse_for_key_facts [OF assms(7)]
  have kind: "pp_kind p = NonInclusion" using f(3) assms(9) by (cases "pp_kind p") auto
  have "fst (ingest_proof absence ?co2) = Inr ?result"
    using assms(5-8) f(1,2) by (simp add: ingest_proof_def forget_request_def track_request_def)
  then obtain co where "ingest_proof absence ?co2 = (Inr ?result, co)" by (metis prod.collapse)
  then have "store_proof sink q2 absence (sc\<lparr>sc_coordinator := ?co2\<rparr>) =
      (Inr ?result, sc\<lparr>sc_coordinator := co, sc_sink := w\<rparr>)"
    using assms(12,13) kind by (simp add: store_proof_def verified_resource_value_def)
  with r2 have "request_hash_and_store sink q2 s (sc\<lparr>sc_coordinator := ?co1\<rparr>) c1 =
      (Inr ?result, s, sc\<lparr>sc_coordinator := co, sc_sink := w\<rparr>, c2)" by simp
  with round1 show ?thesis by fastforce
qed

section \<open>Witnesses\<close>

text \<open>A sink that keeps what it is given, and the proof of absence in the empty tree.\<close>

definition list_sink :: "verified_value list sink_fn" where
  "list_sink v vs = (Inr (), v # vs)"

definition absence_proof :: bytes where "absence_proof = [0, 0, 0, 0]"

definition absent_key :: hash where "absent_key = replicate 32 5"
definition other_key :: hash where "other_key = replicate 32 6"

definition sample_query :: proof_query where
  "sample_query = \<lparr>qy_root_name = [97], qy_root = hash_ZERO, qy_name_hash = absent_key, qy_height = None\<rparr>"

definition other_query :: proof_query where
  "other_query = \<lparr>qy_root_name = [98], qy_root = hash_ZERO, qy_name_hash = other_key, qy_height = None\<rparr>"

definition absence_packet :: "hash \<Rightarrow> proof_packet" where
  "absence_packet key = \<lparr>pk_root = hash_ZERO, pk_key = key, pk_proof = absence_proof\<rparr>"

definition sample_scheduler :: "verified_value list proof_scheduler" where
  "sample_scheduler = scheduler_new (urkel_verifier_verify sample_digests) []"

definition ready_session :: header_sync_session where
  "ready_session = session_new sample_version\<lparr>hs_state := SyncReady\<rparr>"

definition scripted_connection :: "packet list \<Rightarrow> peer_connection" where
  "scripted_connection ps =
     connection_new \<lparr>tr_reads = [Inr (stream_bytes mainnet ps)], tr_writes = [], tr_sent = []\<rparr> mainnet"

lemma scripted_flows:
  assumes "list_all fits_reads ps" "ps \<noteq> []"
  shows "flows (scripted_connection ps) ps []"
proof -
  have "stream_bytes mainnet ps \<noteq> []"
    using assms(2) length_frame_bytes [of mainnet "hd ps"] by (cases ps) auto
  then have "delivers (scripted_connection ps) ps"
    unfolding scripted_connection_def using assms(1)
    by (intro delivers_new [where chunks = "[stream_bytes mainnet ps]"]) auto
  then show ?thesis by (simp add: flows_def scripted_connection_def connection_new_def)
qed

lemma absence_decodes:
  "parse_for_key absence_proof root key = Inr \<lparr>pp_kind = NonInclusion, pp_root = root, pp_name_hash = key,
     pp_payload = absence_proof, pp_proof = \<lparr>proof_type = 0, proof_depth = 0, proof_nodes = [], proof_body = Deadend\<rparr>\<rparr>"
  by (simp add: parse_for_key_def absence_proof_def urkel_decode_def MAX_PROOF_SIZE_def URKEL_BITS_def cursor_read_u16_le_def
      cursor_read_bytes_def cursor_new_def checked_add_usize_def get_range_def slice_def u16_of_le_def div_ceil_def
      decode_body_def TYPE_DEADEND_def TYPE_EXISTS_def is_finished_def is_sane_def Let_def urkel_kind_def)

lemma absence_verifies:
  assumes "parse_for_key absence_proof hash_ZERO key = Inr p"
  shows "urkel_verifier_verify D p hash_ZERO = Inr True" "parsed_proof_value p = None" "pp_kind p = NonInclusion"
  using assms
  by (auto simp: absence_decodes urkel_verifier_verify_def urkel_verify_def is_sane_def leaf_hash_def
      TYPE_DEADEND_def TYPE_EXISTS_def TYPE_SHORT_def TYPE_COLLISION_def parsed_proof_value_def urkel_value_def)

lemma sample_facts [simp]:
  "length hash_ZERO = 32" "length absent_key = 32" "length other_key = 32" "hs_state ready_session = SyncReady"
  "co_pending (sc_coordinator sample_scheduler) = {}" "sc_sink sample_scheduler = []"
  "co_verify (sc_coordinator sample_scheduler) = urkel_verifier_verify sample_digests"
  "absent_key \<noteq> other_key" "other_key \<noteq> absent_key"
  by (simp_all add: hash_ZERO_def absent_key_def other_key_def ready_session_def sample_scheduler_def scheduler_new_def
      coordinator_new_def)

lemma absence_sendable: "length key = 32 \<Longrightarrow> sendable (PktGetProof \<lparr>pr_root = hash_ZERO, pr_key = key\<rparr>)"
  "length key = 32 \<Longrightarrow> fits_reads (PktProof (absence_packet key))"
  by (simp_all add: sendable_def fits_reads_def absence_packet_def absence_proof_def MAX_MESSAGE_def PACKET_READ_SIZE_def)

lemma sample_request_succeeds:
  "\<exists>result s' sc' c'. request_hash_and_store list_sink sample_query ready_session sample_scheduler
     (scripted_connection [PktProof (absence_packet absent_key)]) = (Inr result, s', sc', c') \<and> pv_value result = None"
proof -
  let ?c = "scripted_connection [PktProof (absence_packet absent_key)]"
  have "flows ?c [PktProof (absence_packet absent_key)] []" by (intro scripted_flows) (simp_all add: absence_sendable)
  moreover have "sendable (PktGetProof \<lparr>pr_root = qy_root sample_query, pr_key = qy_name_hash sample_query\<rparr>)"
    by (simp add: sample_query_def absence_sendable)
  ultimately obtain c' sent' where "request_hash_and_store list_sink sample_query ready_session sample_scheduler ?c =
      (let (r, sc') = store_proof list_sink sample_query (absence_packet absent_key)
         (sample_scheduler\<lparr>sc_coordinator := track_request (qy_root sample_query) (qy_name_hash sample_query)
            (sc_coordinator sample_scheduler)\<rparr>) in (r, ready_session, sc', c'))"
    using request_delivered [where s = ready_session and ps = "[]"] by (metis sample_facts(4))
  then show ?thesis
    by (simp add: store_proof_def ingest_proof_def forget_request_def track_request_def absence_packet_def sample_query_def
        absence_decodes absence_verifies [OF absence_decodes] verified_resource_value_def list_sink_def)
qed

theorem proof_fetch_sound_witness:
  "\<exists>result s' sc' c'. request_hash_and_store list_sink sample_query ready_session sample_scheduler
     (scripted_connection [PktProof (absence_packet absent_key)]) = (Inr result, s', sc', c') \<and>
     (\<exists>v. list_sink v [] = (Inr (), sc_sink sc') \<and> stored_for sample_query None v \<and>
      (\<exists>p. proof_shows (urkel_verifier_verify sample_digests) hash_ZERO absent_key None p \<and>
        (tree_lookup absent_key 0 TEmpty = Some None \<or>
         hash_broken sample_digests (set (tree_msgs sample_digests TEmpty) \<union>
           set (tree_msgs sample_digests (proof_tree absent_key (pp_proof p)))))))"
proof -
  obtain result s' sc' c' where r: "request_hash_and_store list_sink sample_query ready_session sample_scheduler
     (scripted_connection [PktProof (absence_packet absent_key)]) = (Inr result, s', sc', c')" "pv_value result = None"
    using sample_request_succeeds by blast
  from proof_fetch_sound [OF sample_digests_laws _ _ _ _ _ _ r(1), of TEmpty] r show ?thesis
    by (simp add: sample_query_def)
qed

theorem proof_request_failure_witness:
  "Err (SyncP2p (SessionDisconnected (ascii ''proof requested before peer ready''))) \<noteq> Panic \<and>
   (sc_sink sample_scheduler = [] \<or> False)"
proof -
  have "request_hash_and_store list_sink sample_query (session_new sample_version) sample_scheduler (scripted_connection []) =
      (Inl (Err (SyncP2p (SessionDisconnected (ascii ''proof requested before peer ready'')))), session_new sample_version,
       sample_scheduler, scripted_connection [])"
    by (simp add: request_hash_and_store_def coordinator_request_cases session_new_def)
  from proof_request_failure [OF this] show ?thesis by simp
qed

theorem stale_request_poisons_name_witness:
  "\<exists>sc1 c1 sc2 c2 result.
     request_hash_and_store list_sink sample_query ready_session sample_scheduler
       (scripted_connection [PktProof (absence_packet other_key), PktProof (absence_packet absent_key)]) =
       (Inl (Err UnexpectedProof), ready_session, sc1, c1) \<and>
     request_hash_and_store list_sink other_query ready_session sc1 c1 = (Inr result, ready_session, sc2, c2) \<and>
     sc_sink sc2 = [verified_non_inclusion [98] other_key] \<and> pv_key result = absent_key"
proof -
  let ?c = "scripted_connection [PktProof (absence_packet other_key), PktProof (absence_packet absent_key)]"
  have f: "flows ?c [PktProof (absence_packet other_key), PktProof (absence_packet absent_key)] []"
    by (intro scripted_flows) (simp_all add: absence_sendable)
  have "\<exists>sc1 c1 sc2 c2 result.
      request_hash_and_store list_sink sample_query ready_session sample_scheduler ?c =
        (Inl (Err UnexpectedProof), ready_session, sc1, c1) \<and>
      request_hash_and_store list_sink other_query ready_session sc1 c1 = (Inr result, ready_session, sc2, c2) \<and>
      sc_sink sc2 = [verified_non_inclusion [98] other_key] \<and> pv_key result = qy_name_hash sample_query"
    by (rule stale_request_poisons_name [OF _ _ f])
      (auto simp: sample_query_def other_query_def absence_packet_def absence_decodes list_sink_def absence_sendable
        absence_verifies [OF absence_decodes])
  then show ?thesis by (simp add: sample_query_def)
qed

end
