(* ===== verification/Header_Sync.thy ===== *)
theory Header_Sync
  imports Proof_Sync Header_Chain Peer_Manager
begin

text \<open>
  Header synchronisation (\<open>hns-sync/src/lib.rs\<close>, \<open>HeaderSyncCoordinator\<close> and the sequential \<open>HeaderSyncRunner\<close>): the block
  locator, the ingestion of header batches, and one round over the peers of the book, with the penalties failures
  earn. The traits \<open>HeaderPeerConnector\<close> and \<open>HeaderPeerClient\<close> and the persistent peer store are a record of functions
  on a world of any type, so that a peer can do anything. The text of an error in a failure report is the error itself.
\<close>

section \<open>Definitions\<close>

definition DEFAULT_LOCATOR_LIMIT :: nat where "DEFAULT_LOCATOR_LIMIT = 32"
definition DEFAULT_OUTBOUND_PEERS :: nat where "DEFAULT_OUTBOUND_PEERS = 8"
definition DEFAULT_MAX_HEADER_BATCHES_PER_PEER :: nat where "DEFAULT_MAX_HEADER_BATCHES_PER_PEER = 16"
definition DEFAULT_MALFORMED_BAN_SECONDS :: u64 where "DEFAULT_MALFORMED_BAN_SECONDS = 24 * 60 * 60"
definition DEFAULT_PEER_DISCOVERY_TARGET :: nat where "DEFAULT_PEER_DISCOVERY_TARGET = 64"
definition DEFAULT_PEER_DISCOVERY_QUERY_PEERS :: nat where "DEFAULT_PEER_DISCOVERY_QUERY_PEERS = 8"

subsection \<open>The coordinator\<close>

record 's header_coordinator =
  hc_chain :: "'s header_chain"
  hc_locator_limit :: nat

record batch_result =
  br_accepted :: nat
  br_best :: "stored_header option"

definition with_locator_limit :: "'s header_chain \<Rightarrow> nat \<Rightarrow> 's header_coordinator" where
  "with_locator_limit chain limit = \<lparr>hc_chain = chain, hc_locator_limit = limit\<rparr>"

definition header_coordinator_new :: "'s header_chain \<Rightarrow> 's header_coordinator" where
  "header_coordinator_new chain = with_locator_limit chain DEFAULT_LOCATOR_LIMIT"

text \<open>\<open>From<ChainError> for SyncError\<close>, panics kept.\<close>

definition sync_chain :: "'a chain_result \<Rightarrow> sync_error fault + 'a" where
  "sync_chain r = map_err (\<lambda>f. case f of Err e \<Rightarrow> Err (SyncChain e) | Panic \<Rightarrow> Panic) r"

definition ingest_headers ::
  "digest_fns \<Rightarrow> 's header_store_ops \<Rightarrow> block_header list \<Rightarrow> 's header_coordinator \<Rightarrow>
   (sync_error fault + batch_result) \<times> 's header_coordinator"
where
  "ingest_headers D ops hs co =
     (case insert_headers D ops hs (hc_chain co) of
        (Inl e, chain) \<Rightarrow> (sync_chain (Inl e), co\<lparr>hc_chain := chain\<rparr>)
      | (Inr acc, chain) \<Rightarrow>
          (sync_chain (and_then (best_header ops chain) (\<lambda>best. Inr \<lparr>br_accepted = length acc, br_best = best\<rparr>)),
           co\<lparr>hc_chain := chain\<rparr>))"

definition header_ingest_action ::
  "digest_fns \<Rightarrow> 's header_store_ops \<Rightarrow> header_sync_action \<Rightarrow> 's header_coordinator \<Rightarrow>
   (sync_error fault + batch_result) \<times> 's header_coordinator"
where
  "header_ingest_action D ops action co =
     (case action of ActHeaders hs \<Rightarrow> ingest_headers D ops hs co | _ \<Rightarrow> (Inl (Err SyncUnexpectedAction), co))"

fun step_back :: "(hash \<Rightarrow> stored_header option) \<Rightarrow> nat \<Rightarrow> stored_header \<Rightarrow> sync_error fault + stored_header" where
  "step_back get 0 current = Inr current"
| "step_back get (Suc n) current =
     (if sh_height current = 0 then Inr current
      else and_then (ok_or (Err (SyncChain UnknownParent)) (get (prev_block (sh_header current)))) (step_back get n))"

function locator_loop ::
  "(hash \<Rightarrow> stored_header option) \<Rightarrow> nat \<Rightarrow> stored_header \<Rightarrow> hash list \<Rightarrow> nat \<Rightarrow> sync_error fault + hash list"
where
  "locator_loop get limit current locator step =
     (if length locator < limit then
        let locator = locator @ [sh_hash current] in
        if sh_height current = 0 then Inr locator else
        and_then (step_back get step current) (\<lambda>current.
        locator_loop get limit current locator
          (if length locator \<ge> 10 then min (step * 2) (usize_limit - 1) else step))
      else Inr locator)"
  by pat_completeness auto
termination by (relation "measure (\<lambda>(_, limit, _, locator, _). limit - length locator)") auto

declare locator_loop.simps [simp del]

definition locator_with_limit :: "'s header_store_ops \<Rightarrow> nat \<Rightarrow> 's header_coordinator \<Rightarrow> sync_error fault + hash list" where
  "locator_with_limit ops limit co =
     and_then (sync_chain (best_header ops (hc_chain co))) (\<lambda>best.
     case best of None \<Rightarrow> Inr []
     | Some current \<Rightarrow> locator_loop (chain_get_header ops (hc_chain co)) limit current [] 1)"

definition coordinator_locator :: "'s header_store_ops \<Rightarrow> 's header_coordinator \<Rightarrow> sync_error fault + hash list" where
  "coordinator_locator ops co = locator_with_limit ops (hc_locator_limit co) co"

definition request_next_headers ::
  "'s header_store_ops \<Rightarrow> hash \<Rightarrow> 's header_coordinator \<Rightarrow> header_sync_session \<Rightarrow>
   (sync_error fault + header_sync_action) \<times> header_sync_session"
where
  "request_next_headers ops stop co s =
     (case coordinator_locator ops co of
        Inl e \<Rightarrow> (Inl e, s)
      | Inr locator \<Rightarrow>
          (let (r, s) = session_request_headers locator stop s in (map_err (\<lambda>e. Err (SyncP2p e)) r, s)))"

subsection \<open>The runner\<close>

record ('w, 'c) peer_ops =
  hp_connect :: "socket_addr \<Rightarrow> network \<Rightarrow> 'w \<Rightarrow> (p2p_error + 'c) \<times> 'w"
  hp_handshake :: "header_sync_session \<Rightarrow> 'c \<Rightarrow> 'w \<Rightarrow> (p2p_error + version_packet) \<times> header_sync_session \<times> 'c \<times> 'w"
  hp_request_headers :: "header_sync_session \<Rightarrow> hash list \<Rightarrow> hash \<Rightarrow> 'c \<Rightarrow> 'w \<Rightarrow>
    (p2p_error + block_header list) \<times> header_sync_session \<times> 'c \<times> 'w"
  hp_request_addresses :: "'c \<Rightarrow> 'w \<Rightarrow> (p2p_error + socket_addr list) \<times> 'c \<times> 'w"
  hp_save_manager :: "peer_manager \<Rightarrow> 'w \<Rightarrow> (p2p_error + unit) \<times> 'w"

datatype failure_stage = StageConnect | StageHandshake | StageHeaders | StageChain

fun failure_stage_as_str :: "failure_stage \<Rightarrow> rust_str" where
  "failure_stage_as_str StageConnect = ascii ''connect''"
| "failure_stage_as_str StageHandshake = ascii ''handshake''"
| "failure_stage_as_str StageHeaders = ascii ''headers''"
| "failure_stage_as_str StageChain = ascii ''chain''"

record peer_failure =
  fl_address :: socket_addr
  fl_stage :: failure_stage
  fl_error :: sync_error

record peer_sync_result =
  sr_address :: socket_addr
  sr_remote_height :: u32
  sr_accepted :: nat
  sr_best :: "stored_header option"

datatype peer_outcome = PeerSuccess peer_sync_result | PeerFailure peer_failure

record run_result =
  rr_attempted :: nat
  rr_successful :: nat
  rr_accepted :: nat
  rr_best :: "stored_header option"
  rr_failures :: "peer_failure list"

definition run_result_empty :: run_result where
  "run_result_empty = \<lparr>rr_attempted = 0, rr_successful = 0, rr_accepted = 0, rr_best = None, rr_failures = []\<rparr>"

text \<open>The settings the sequential round reads, and the runner; \<open>ru_persist\<close> says whether a peer store is given.\<close>

record runner_config =
  cf_preferred_peers :: nat
  cf_max_header_batches_per_peer :: nat
  cf_discover_peers :: bool
  cf_peer_discovery_target :: nat
  cf_peer_discovery_query_peers :: nat
  cf_stop :: hash
  cf_malformed_ban_seconds :: u64
  cf_allow_unsafe_peer_endpoints :: bool

definition runner_config_default :: runner_config where
  "runner_config_default =
     \<lparr>cf_preferred_peers = DEFAULT_OUTBOUND_PEERS, cf_max_header_batches_per_peer = DEFAULT_MAX_HEADER_BATCHES_PER_PEER,
      cf_discover_peers = True, cf_peer_discovery_target = DEFAULT_PEER_DISCOVERY_TARGET,
      cf_peer_discovery_query_peers = DEFAULT_PEER_DISCOVERY_QUERY_PEERS, cf_stop = hash_ZERO,
      cf_malformed_ban_seconds = DEFAULT_MALFORMED_BAN_SECONDS, cf_allow_unsafe_peer_endpoints = False\<rparr>"

record runner =
  ru_network :: network
  ru_local_version :: version_packet
  ru_config :: runner_config

definition peer_endpoint_allowed :: "runner \<Rightarrow> socket_addr \<Rightarrow> bool" where
  "peer_endpoint_allowed ru a \<longleftrightarrow>
     cf_allow_unsafe_peer_endpoints (ru_config ru) \<or> is_allowed_peer_endpoint (ru_network ru) a"

definition eligible_peer_count :: "runner \<Rightarrow> peer_manager \<Rightarrow> nat" where
  "eligible_peer_count ru m = length (filter (\<lambda>p. peer_endpoint_allowed ru (ps_address p)) (map snd m))"

definition select_outbound_peers :: "runner \<Rightarrow> nat \<Rightarrow> u64 \<Rightarrow> peer_manager \<Rightarrow> socket_addr list" where
  "select_outbound_peers ru preferred now m =
     take preferred (filter (peer_endpoint_allowed ru) (select_outbound (length m) now m))"

definition select_discovery_peers :: "runner \<Rightarrow> nat \<Rightarrow> u64 \<Rightarrow> socket_addr set \<Rightarrow> peer_manager \<Rightarrow> socket_addr list" where
  "select_discovery_peers ru preferred now exclude m =
     take preferred (filter (peer_endpoint_allowed ru) (select_discovery_outbound (length m) now exclude m))"

definition seed_discovered_peers :: "runner \<Rightarrow> socket_addr list \<Rightarrow> peer_manager \<Rightarrow> nat \<times> peer_manager" where
  "seed_discovered_peers ru discovered m = seed (filter (peer_endpoint_allowed ru) discovered) m"

definition chain_failure_fatal :: "chain_error \<Rightarrow> bool" where
  "chain_failure_fatal e = (case e of Storage _ \<Rightarrow> True | MissingBestHeader \<Rightarrow> True | _ \<Rightarrow> False)"

definition record_chain_failure :: "socket_addr \<Rightarrow> u64 \<Rightarrow> chain_error \<Rightarrow> u64 \<Rightarrow> peer_manager \<Rightarrow> peer_manager" where
  "record_chain_failure a now e malformed_ban_seconds m =
     (case e of
        UnknownParent \<Rightarrow> record_stale_tip a m
      | DuplicateHeader \<Rightarrow> record_stale_tip a m
      | MissingBestHeader \<Rightarrow> record_transient_failure a m
      | Storage _ \<Rightarrow> record_transient_failure a m
      | _ \<Rightarrow> record_malformed a now malformed_ban_seconds m)"

definition persist_peer_manager ::
  "('w, 'c) peer_ops \<Rightarrow> bool \<Rightarrow> peer_manager \<Rightarrow> 'w \<Rightarrow> (sync_error fault + unit) \<times> 'w"
where
  "persist_peer_manager pops store m w =
     (if store then (let (r, w) = hp_save_manager pops m w in (map_err (\<lambda>e. Err (SyncP2p e)) r, w)) else (Inr (), w))"

text \<open>The state a round changes: the coordinator, the peer book and the world.\<close>

record ('s, 'w) sync_state =
  ss_coordinator :: "'s header_coordinator"
  ss_peers :: peer_manager
  ss_world :: 'w

definition sync_persist ::
  "('w, 'c) peer_ops \<Rightarrow> bool \<Rightarrow> ('s, 'w) sync_state \<Rightarrow> (sync_error fault + unit) \<times> ('s, 'w) sync_state"
where
  "sync_persist pops store st =
     (let (r, w) = persist_peer_manager pops store (ss_peers st) (ss_world st) in (r, st\<lparr>ss_world := w\<rparr>))"

definition peer_failed :: "socket_addr \<Rightarrow> failure_stage \<Rightarrow> sync_error \<Rightarrow> ('s, 'w) sync_state \<Rightarrow>
  (sync_error fault + peer_outcome) \<times> ('s, 'w) sync_state"
where
  "peer_failed a stage e st =
     (Inr (PeerFailure \<lparr>fl_address = a, fl_stage = stage, fl_error = e\<rparr>),
      st\<lparr>ss_peers := record_transient_failure a (ss_peers st)\<rparr>)"

definition peer_succeeded ::
  "('w, 'c) peer_ops \<Rightarrow> bool \<Rightarrow> u64 \<Rightarrow> peer_sync_result \<Rightarrow> ('s, 'w) sync_state \<Rightarrow>
   (sync_error fault + peer_outcome) \<times> ('s, 'w) sync_state"
where
  "peer_succeeded pops store now result st =
     io_then (sync_persist pops store) (\<lambda>_. io_pure (Inr (PeerSuccess result)))
       (st\<lparr>ss_peers := record_success (sr_address result) (sr_remote_height result) now (ss_peers st)\<rparr>)"

text \<open>The loop over batches: what was accepted so far and the best header; \<open>None\<close> in the result is \<open>break\<close> or the end.\<close>

fun batches_loop ::
  "digest_fns \<Rightarrow> 's header_store_ops \<Rightarrow> ('w, 'c) peer_ops \<Rightarrow> runner \<Rightarrow> socket_addr \<Rightarrow> u64 \<Rightarrow> nat \<Rightarrow>
   header_sync_session \<Rightarrow> 'c \<Rightarrow> nat \<Rightarrow> stored_header option \<Rightarrow> ('s, 'w) sync_state \<Rightarrow>
   (sync_error fault + (peer_outcome + nat \<times> stored_header option)) \<times> ('s, 'w) sync_state"
where
  "batches_loop D ops pops ru a now 0 s c acc tip st = (Inr (Inr (acc, tip)), st)"
| "batches_loop D ops pops ru a now (Suc n) s c acc tip st =
     (case coordinator_locator ops (ss_coordinator st) of
        Inl e \<Rightarrow> (Inl e, st)
      | Inr locator \<Rightarrow>
     (case hp_request_headers pops s locator (cf_stop (ru_config ru)) c (ss_world st) of
        (Inl e, s, c, w) \<Rightarrow> io_then (peer_failed a StageHeaders (SyncP2p e)) (\<lambda>r. io_pure (Inr (Inl r))) (st\<lparr>ss_world := w\<rparr>)
      | (Inr hs, s, c, w) \<Rightarrow>
          (let st = st\<lparr>ss_world := w\<rparr> in
           if hs = [] then (Inr (Inr (acc, tip)), st) else
           case ingest_headers D ops hs (ss_coordinator st) of
             (Inr b, co) \<Rightarrow>
               (let st = st\<lparr>ss_coordinator := co\<rparr>; acc = acc + br_accepted b; tip = br_best b in
                if length hs < MAX_HEADERS \<or> br_accepted b = 0 then (Inr (Inr (acc, tip)), st)
                else batches_loop D ops pops ru a now n s c acc tip st)
           | (Inl (Err (SyncChain e)), co) \<Rightarrow>
               (let st = st\<lparr>ss_coordinator := co,
                   ss_peers := record_chain_failure a now e (cf_malformed_ban_seconds (ru_config ru)) (ss_peers st)\<rparr> in
                if chain_failure_fatal e then (Inl (Err (SyncChain e)), st)
                else (Inr (Inl (PeerFailure \<lparr>fl_address = a, fl_stage = StageChain, fl_error = SyncChain e\<rparr>)), st))
           | (Inl e, co) \<Rightarrow> (Inl e, st\<lparr>ss_coordinator := co\<rparr>))))"

text \<open>What \<open>sync_peer\<close> and \<open>discover_more_peers\<close> do with the addresses a peer knows.\<close>

definition ask_addresses ::
  "('w, 'c) peer_ops \<Rightarrow> runner \<Rightarrow> bool \<Rightarrow> 'c \<Rightarrow> ('s, 'w) sync_state \<Rightarrow> (sync_error fault + 'c) \<times> ('s, 'w) sync_state"
where
  "ask_addresses pops ru store c st =
     (case hp_request_addresses pops c (ss_world st) of
        (Inl e, c, w) \<Rightarrow> (Inr c, st\<lparr>ss_world := w\<rparr>)
      | (Inr discovered, c, w) \<Rightarrow>
          io_then (sync_persist pops store) (\<lambda>_. io_pure (Inr c))
            (st\<lparr>ss_world := w, ss_peers := snd (seed_discovered_peers ru discovered (ss_peers st))\<rparr>))"

definition sync_peer_ready ::
  "digest_fns \<Rightarrow> 's header_store_ops \<Rightarrow> ('w, 'c) peer_ops \<Rightarrow> runner \<Rightarrow> bool \<Rightarrow> socket_addr \<Rightarrow> u64 \<Rightarrow>
   header_sync_session \<Rightarrow> version_packet \<Rightarrow> 'c \<Rightarrow> ('s, 'w) sync_state \<Rightarrow>
   (sync_error fault + peer_outcome) \<times> ('s, 'w) sync_state"
where
  "sync_peer_ready D ops pops ru store a now s remote c =
     io_then (\<lambda>st. (sync_chain (best_header ops (hc_chain (ss_coordinator st))), st)) (\<lambda>tip st.
     let done_with = (\<lambda>acc tip. peer_succeeded pops store now
           \<lparr>sr_address = a, sr_remote_height = vp_height remote, sr_accepted = acc, sr_best = tip\<rparr>) in
     if (case tip of Some b \<Rightarrow> unat (vp_height remote) \<le> sh_height b | None \<Rightarrow> False) then done_with 0 tip st
     else io_then (batches_loop D ops pops ru a now (max 1 (cf_max_header_batches_per_peer (ru_config ru))) s c 0 tip) (\<lambda>r.
       case r of Inl outcome \<Rightarrow> io_pure (Inr outcome) | Inr (acc, tip) \<Rightarrow> done_with acc tip) st)"

definition sync_peer ::
  "digest_fns \<Rightarrow> 's header_store_ops \<Rightarrow> ('w, 'c) peer_ops \<Rightarrow> runner \<Rightarrow> bool \<Rightarrow> socket_addr \<Rightarrow> u64 \<Rightarrow>
   ('s, 'w) sync_state \<Rightarrow> (sync_error fault + peer_outcome) \<times> ('s, 'w) sync_state"
where
  "sync_peer D ops pops ru store a now st =
     (case hp_connect pops a (ru_network ru) (ss_world st) of
        (Inl e, w) \<Rightarrow> peer_failed a StageConnect (SyncP2p e) (st\<lparr>ss_world := w\<rparr>)
      | (Inr c, w) \<Rightarrow>
     (case hp_handshake pops (session_new (ru_local_version ru)) c w of
        (Inl e, s, c, w) \<Rightarrow> peer_failed a StageHandshake (SyncP2p e) (st\<lparr>ss_world := w\<rparr>)
      | (Inr remote, s, c, w) \<Rightarrow>
          (let st = st\<lparr>ss_world := w, ss_peers := record_observed_height a (vp_height remote) now (ss_peers st)\<rparr> in
           io_then (sync_persist pops store) (\<lambda>_.
           io_then (if cf_discover_peers (ru_config ru) then ask_addresses pops ru store c else io_pure (Inr c)) (\<lambda>c.
           sync_peer_ready D ops pops ru store a now s remote c)) st)))"

fun outbound_loop ::
  "digest_fns \<Rightarrow> 's header_store_ops \<Rightarrow> ('w, 'c) peer_ops \<Rightarrow> runner \<Rightarrow> bool \<Rightarrow> u64 \<Rightarrow> socket_addr list \<Rightarrow>
   run_result \<Rightarrow> ('s, 'w) sync_state \<Rightarrow> (sync_error fault + run_result) \<times> ('s, 'w) sync_state"
where
  "outbound_loop D ops pops ru store now [] result st = (Inr result, st)"
| "outbound_loop D ops pops ru store now (a # later) result st =
     (let result = result\<lparr>rr_attempted := rr_attempted result + 1\<rparr> in
      io_then (sync_peer D ops pops ru store a now) (\<lambda>outcome.
        outbound_loop D ops pops ru store now later
          (case outcome of
             PeerSuccess r \<Rightarrow> result\<lparr>rr_successful := rr_successful result + 1,
               rr_accepted := rr_accepted result + sr_accepted r, rr_best := sr_best r\<rparr>
           | PeerFailure f \<Rightarrow> result\<lparr>rr_failures := rr_failures result @ [f]\<rparr>)) st)"

definition discover_from_peer ::
  "('w, 'c) peer_ops \<Rightarrow> runner \<Rightarrow> bool \<Rightarrow> u64 \<Rightarrow> socket_addr \<Rightarrow> ('s, 'w) sync_state \<Rightarrow>
   (sync_error fault + unit) \<times> ('s, 'w) sync_state"
where
  "discover_from_peer pops ru store now a st =
     (let failed = (\<lambda>st. (Inr (), st\<lparr>ss_peers := record_transient_failure a (ss_peers st)\<rparr>)) in
      case hp_connect pops a (ru_network ru) (ss_world st) of
        (Inl e, w) \<Rightarrow> failed (st\<lparr>ss_world := w\<rparr>)
      | (Inr c, w) \<Rightarrow>
     (case hp_handshake pops (session_new (ru_local_version ru)) c w of
        (Inl e, s, c, w) \<Rightarrow> failed (st\<lparr>ss_world := w\<rparr>)
      | (Inr remote, s, c, w) \<Rightarrow>
          io_then (sync_persist pops store) (\<lambda>_.
          io_then (ask_addresses pops ru store c) (\<lambda>_ st.
          sync_persist pops store (st\<lparr>ss_peers := record_success a (vp_height remote) now (ss_peers st)\<rparr>)))
            (st\<lparr>ss_world := w, ss_peers := record_observed_height a (vp_height remote) now (ss_peers st)\<rparr>)))"

fun discover_more_loop ::
  "('w, 'c) peer_ops \<Rightarrow> runner \<Rightarrow> bool \<Rightarrow> u64 \<Rightarrow> socket_addr list \<Rightarrow> ('s, 'w) sync_state \<Rightarrow>
   (sync_error fault + unit) \<times> ('s, 'w) sync_state"
where
  "discover_more_loop pops ru store now [] st = (Inr (), st)"
| "discover_more_loop pops ru store now (a # later) st =
     (if eligible_peer_count ru (ss_peers st) \<ge> cf_peer_discovery_target (ru_config ru) then (Inr (), st)
      else io_then (discover_from_peer pops ru store now a) (\<lambda>_. discover_more_loop pops ru store now later) st)"

definition discover_more_peers ::
  "('w, 'c) peer_ops \<Rightarrow> runner \<Rightarrow> bool \<Rightarrow> u64 \<Rightarrow> socket_addr set \<Rightarrow> ('s, 'w) sync_state \<Rightarrow>
   (sync_error fault + unit) \<times> ('s, 'w) sync_state"
where
  "discover_more_peers pops ru store now attempted st =
     (let cfg = ru_config ru in
      if \<not> cf_discover_peers cfg \<or> eligible_peer_count ru (ss_peers st) \<ge> cf_peer_discovery_target cfg \<or>
         cf_peer_discovery_query_peers cfg = 0
      then (Inr (), st)
      else discover_more_loop pops ru store now
        (select_discovery_peers ru (cf_peer_discovery_query_peers cfg) now attempted (ss_peers st)) st)"

definition sync_once_inner ::
  "digest_fns \<Rightarrow> 's header_store_ops \<Rightarrow> ('w, 'c) peer_ops \<Rightarrow> runner \<Rightarrow> bool \<Rightarrow> u64 \<Rightarrow>
   ('s, 'w) sync_state \<Rightarrow> (sync_error fault + run_result) \<times> ('s, 'w) sync_state"
where
  "sync_once_inner D ops pops ru store now st =
     (let outbound = select_outbound_peers ru (cf_preferred_peers (ru_config ru)) now (ss_peers st) in
      io_then (outbound_loop D ops pops ru store now outbound run_result_empty) (\<lambda>result.
      io_then (discover_more_peers pops ru store now (set outbound)) (\<lambda>_.
      io_pure (Inr result))) st)"

definition sync_once ::
  "digest_fns \<Rightarrow> 's header_store_ops \<Rightarrow> ('w, 'c) peer_ops \<Rightarrow> runner \<Rightarrow> u64 \<Rightarrow>
   ('s, 'w) sync_state \<Rightarrow> (sync_error fault + run_result) \<times> ('s, 'w) sync_state"
where
  "sync_once D ops pops ru = sync_once_inner D ops pops ru False"

definition sync_once_and_persist ::
  "digest_fns \<Rightarrow> 's header_store_ops \<Rightarrow> ('w, 'c) peer_ops \<Rightarrow> runner \<Rightarrow> u64 \<Rightarrow>
   ('s, 'w) sync_state \<Rightarrow> (sync_error fault + run_result) \<times> ('s, 'w) sync_state"
where
  "sync_once_and_persist D ops pops ru now =
     io_then (sync_once_inner D ops pops ru True now) (\<lambda>result.
     io_then (sync_persist pops True) (\<lambda>_.
     io_pure (Inr result)))"

end
