(* ===== verification/Sync_Safety.thy ===== *)
theory Sync_Safety
  imports Header_Sync "HOL-Library.Sublist"
begin

text \<open>
  What a round of header synchronisation does, whatever the peers send. The round is a run of a small step relation on
  the chain and the peer book: batches are inserted, peers are recorded, and a peer is banned only for a batch the chain
  rejected by its rules. The locator is computed in closed form.
\<close>

section \<open>Rounds as runs\<close>

definition core :: "('s, 'w) sync_state \<Rightarrow> 's header_chain \<times> peer_manager" where
  "core st = (hc_chain (ss_coordinator st), ss_peers st)"

lemma core_simps [simp]:
  "core (st\<lparr>ss_world := w\<rparr>) = core st" "core (st\<lparr>ss_peers := m\<rparr>) = (fst (core st), m)"
  "core (st\<lparr>ss_coordinator := co\<rparr>) = (hc_chain co, snd (core st))"
  "fst (core st) = hc_chain (ss_coordinator st)" "snd (core st) = ss_peers st"
  by (simp_all add: core_def)

text \<open>The errors that show a batch to be invalid, rather than unconnected, already known, or lost to the storage.\<close>

definition breaks_rules :: "chain_error \<Rightarrow> bool" where
  "breaks_rules e \<longleftrightarrow> \<not> chain_failure_fatal e \<and> e \<noteq> UnknownParent \<and> e \<noteq> DuplicateHeader"

fun bans_nobody :: "peer_op \<Rightarrow> bool" where
  "bans_nobody (OpMalformed _ _ _) \<longleftrightarrow> False"
| "bans_nobody _ \<longleftrightarrow> True"

inductive sync_step ::
  "digest_fns \<Rightarrow> 's header_store_ops \<Rightarrow> u64 \<Rightarrow> u64 \<Rightarrow> 's header_chain \<times> peer_manager \<Rightarrow> 's header_chain \<times> peer_manager \<Rightarrow> bool"
  for D ops now secs where
  step_insert: "sync_step D ops now secs (c, m) (c', m)" if "insert_headers D ops hs c = (r, c')"
| step_record: "sync_step D ops now secs (c, m) (c, apply_peer_op op m)" if "bans_nobody op"
| step_ban: "sync_step D ops now secs (c, m) (c', record_malformed a now secs m)"
    if "insert_headers D ops hs c = (Inl (Err e), c')" "breaks_rules e"

definition sync_runs ::
  "digest_fns \<Rightarrow> 's header_store_ops \<Rightarrow> runner \<Rightarrow> u64 \<Rightarrow> ('s, 'w) sync_state \<Rightarrow> ('s, 'w) sync_state \<Rightarrow> bool"
where
  "sync_runs D ops ru now st st' \<longleftrightarrow>
     (sync_step D ops now (cf_malformed_ban_seconds (ru_config ru)))\<^sup>*\<^sup>* (core st) (core st') \<and>
     hc_locator_limit (ss_coordinator st') = hc_locator_limit (ss_coordinator st)"

lemma sync_runs_same:
  "\<lbrakk>core st' = core st; ss_coordinator st' = ss_coordinator st\<rbrakk> \<Longrightarrow> sync_runs D ops ru now st st'"
  by (simp add: sync_runs_def)

lemma sync_runs_refl [simp]: "sync_runs D ops ru now st st"
  by (simp add: sync_runs_same)

lemma sync_runs_trans:
  "\<lbrakk>sync_runs D ops ru now st st'; sync_runs D ops ru now st' st''\<rbrakk> \<Longrightarrow> sync_runs D ops ru now st st''"
  by (auto simp: sync_runs_def)

lemma sync_runs_record:
  assumes "core st' = (hc_chain (ss_coordinator st), apply_peer_op op (ss_peers st))" "bans_nobody op"
    and "ss_coordinator st' = ss_coordinator st"
  shows "sync_runs D ops ru now st st'"
proof -
  have "sync_step D ops now (cf_malformed_ban_seconds (ru_config ru)) (core st) (core st')"
    using step_record [OF assms(2), of D ops now "cf_malformed_ban_seconds (ru_config ru)" "hc_chain (ss_coordinator st)"
        "ss_peers st"] assms(1) by (simp add: core_def)
  then show ?thesis using assms(3) by (simp add: sync_runs_def)
qed

lemma sync_runs_transient:
  "\<lbrakk>ss_coordinator st' = ss_coordinator st; ss_peers st' = record_transient_failure a (ss_peers st)\<rbrakk> \<Longrightarrow>
     sync_runs D ops ru now st st'"
  by (rule sync_runs_record [where op = "OpTransientFailure a"]) (auto simp: core_def)

lemma sync_runs_success:
  "\<lbrakk>ss_coordinator st' = ss_coordinator st; ss_peers st' = record_success a h t (ss_peers st)\<rbrakk> \<Longrightarrow>
     sync_runs D ops ru now st st'"
  by (rule sync_runs_record [where op = "OpSuccess a h t"]) (auto simp: core_def)

lemma sync_runs_observed:
  "\<lbrakk>ss_coordinator st' = ss_coordinator st; ss_peers st' = record_observed_height a h t (ss_peers st)\<rbrakk> \<Longrightarrow>
     sync_runs D ops ru now st st'"
  by (rule sync_runs_record [where op = "OpObservedHeight a h t"]) (auto simp: core_def)

lemma sync_runs_seed:
  "\<lbrakk>ss_coordinator st' = ss_coordinator st; ss_peers st' = snd (seed_discovered_peers ru' as (ss_peers st))\<rbrakk> \<Longrightarrow>
     sync_runs D ops ru now st st'"
  by (rule sync_runs_record [where op = "OpSeed (filter (peer_endpoint_allowed ru') as)"])
    (auto simp: core_def seed_discovered_peers_def)

lemma io_then_runs:
  assumes "io_then m f st = (r, st')" "\<And>r1 st1. m st = (r1, st1) \<Longrightarrow> sync_runs D ops ru now st st1"
    and "\<And>x st1 r2 st2. f x st1 = (r2, st2) \<Longrightarrow> sync_runs D ops ru now st1 st2"
  shows "sync_runs D ops ru now st st'"
proof -
  obtain r1 st1 where m: "m st = (r1, st1)" by force
  show ?thesis
  proof (cases r1)
    case (Inl e)
    then show ?thesis using assms(1) m assms(2) [OF m] by (simp add: io_then_def)
  next
    case (Inr x)
    then have "f x st1 = (r, st')" using assms(1) m by (simp add: io_then_def)
    from sync_runs_trans [OF assms(2) [OF m] assms(3) [OF this]] show ?thesis .
  qed
qed

lemma sync_persist_runs: "sync_persist pops store st = (r, st') \<Longrightarrow> sync_runs D ops ru now st st'"
  by (auto simp: sync_persist_def intro: sync_runs_same split: prod.splits)

lemma peer_failed_runs: "peer_failed a stage e st = (r, st') \<Longrightarrow> sync_runs D ops ru now st st'"
  by (auto simp: peer_failed_def intro: sync_runs_transient)

lemma peer_succeeded_runs:
  assumes "peer_succeeded pops store t result st = (r, st')"
  shows "sync_runs D ops ru now st st'"
proof -
  let ?st = "st\<lparr>ss_peers := record_success (sr_address result) (sr_remote_height result) t (ss_peers st)\<rparr>"
  have "sync_runs D ops ru now ?st st'"
    using assms unfolding peer_succeeded_def by (rule io_then_runs) (auto intro: sync_persist_runs)
  moreover have "sync_runs D ops ru now st ?st" by (rule sync_runs_success) simp_all
  ultimately show ?thesis by (metis sync_runs_trans)
qed

lemma ask_addresses_runs:
  assumes "ask_addresses pops ru store c st = (r, st')"
  shows "sync_runs D ops ru now st st'"
proof -
  obtain ra c' w where a: "hp_request_addresses pops c (ss_world st) = (ra, c', w)" by (metis prod_cases3)
  show ?thesis
  proof (cases ra)
    case (Inl e)
    then show ?thesis using assms a by (auto simp: ask_addresses_def intro: sync_runs_same)
  next
    case (Inr as)
    let ?st = "st\<lparr>ss_world := w, ss_peers := snd (seed_discovered_peers ru as (ss_peers st))\<rparr>"
    have "io_then (sync_persist pops store) (\<lambda>_. io_pure (Inr c')) ?st = (r, st')"
      using assms a Inr by (simp add: ask_addresses_def)
    then have "sync_runs D ops ru now ?st st'" by (rule io_then_runs) (auto intro: sync_persist_runs)
    moreover have "sync_runs D ops ru now st ?st" by (rule sync_runs_seed) simp_all
    ultimately show ?thesis by (metis sync_runs_trans)
  qed
qed

text \<open>A batch: inserted, or rejected with the penalty its error earns.\<close>

lemma sync_chain_Inl: "sync_chain (Inl f) = Inl (case f of Err e \<Rightarrow> Err (SyncChain e) | Panic \<Rightarrow> Panic)"
  by (simp add: sync_chain_def)

lemma ingest_headers_cases:
  assumes "ingest_headers D ops hs co = (r, co')"
  obtains c' ri where "insert_headers D ops hs (hc_chain co) = (ri, c')" "co' = co\<lparr>hc_chain := c'\<rparr>"
    "\<And>e. ri = Inl e \<Longrightarrow> r = sync_chain (Inl e)"
    "\<And>acc. ri = Inr acc \<Longrightarrow> r = sync_chain (and_then (best_header ops c') (\<lambda>tip. Inr \<lparr>br_accepted = length acc, br_best = tip\<rparr>))"
  using assms that by (auto simp: ingest_headers_def split: prod.splits sum.splits)

lemma insert_runs:
  assumes "ingest_headers D ops hs (ss_coordinator st) = (r, co)"
  shows "sync_runs D ops ru now st (st\<lparr>ss_coordinator := co\<rparr>)"
proof -
  from ingest_headers_cases [OF assms] obtain c' ri where
    "insert_headers D ops hs (hc_chain (ss_coordinator st)) = (ri, c')" "co = ss_coordinator st\<lparr>hc_chain := c'\<rparr>" by metis
  then show ?thesis
    using step_insert [of D ops hs "hc_chain (ss_coordinator st)" ri c' now "cf_malformed_ban_seconds (ru_config ru)"
        "ss_peers st"] by (simp add: sync_runs_def core_def r_into_rtranclp)
qed

lemma record_chain_failure_eq:
  "record_chain_failure a now e secs m =
     (if breaks_rules e then record_malformed a now secs m
      else if chain_failure_fatal e then record_transient_failure a m else record_stale_tip a m)"
  by (cases e) (simp_all add: record_chain_failure_def breaks_rules_def chain_failure_fatal_def)


lemma best_header_error: "best_header ops c = Inl f \<Longrightarrow> f = Err MissingBestHeader"
  by (auto simp: best_header_def ok_or_def split: option.splits)

lemma sync_chain_error: "sync_chain r = Inl (Err (SyncChain e)) \<longleftrightarrow> r = Inl (Err e)"
proof (cases r)
  case (Inl f)
  then show ?thesis by (cases f) (auto simp: sync_chain_def)
qed (simp add: sync_chain_def)

text \<open>A batch whose failure breaks the rules was rejected by the chain itself.\<close>

lemma ingest_breaks_rules:
  assumes "ingest_headers D ops hs co = (Inl (Err (SyncChain e)), co')" "breaks_rules e"
  obtains c' where "insert_headers D ops hs (hc_chain co) = (Inl (Err e), c')" "co' = co\<lparr>hc_chain := c'\<rparr>"
proof -
  obtain c' ri where i: "insert_headers D ops hs (hc_chain co) = (ri, c')" by force
  show ?thesis
  proof (cases ri)
    case (Inl f)
    then have "sync_chain (Inl f :: stored_header list chain_result) = Inl (Err (SyncChain e))"
      using assms(1) i by (cases f) (auto simp: ingest_headers_def sync_chain_def)
    then show ?thesis using Inl i assms(1) that by (auto simp: sync_chain_error ingest_headers_def)
  next
    case (Inr acc)
    then have "\<exists>f. best_header ops c' = Inl f \<and> f = Err e"
      using assms(1) i by (auto simp: ingest_headers_def sync_chain_error and_then_def split: sum.splits)
    then show ?thesis using best_header_error assms(2) by (fastforce simp: breaks_rules_def chain_failure_fatal_def)
  qed
qed

lemma chain_failure_runs:
  assumes "ingest_headers D ops hs (ss_coordinator st) = (Inl (Err (SyncChain e)), co)"
  shows "sync_runs D ops ru now st (st\<lparr>ss_coordinator := co,
      ss_peers := record_chain_failure a now e (cf_malformed_ban_seconds (ru_config ru)) (ss_peers st)\<rparr>)"
proof (cases "breaks_rules e")
  case True
  with ingest_breaks_rules [OF assms] obtain c' where
    i: "insert_headers D ops hs (hc_chain (ss_coordinator st)) = (Inl (Err e), c')" "co = ss_coordinator st\<lparr>hc_chain := c'\<rparr>"
    by metis
  show ?thesis
    using step_ban [OF i(1) True, of now "cf_malformed_ban_seconds (ru_config ru)" "ss_peers st" a] i(2) True
    by (simp add: sync_runs_def core_def record_chain_failure_eq r_into_rtranclp)
next
  case False
  let ?st = "st\<lparr>ss_coordinator := co\<rparr>"
  let ?op = "if chain_failure_fatal e then OpTransientFailure a else OpStaleTip a"
  have "sync_runs D ops ru now ?st (?st\<lparr>ss_peers := apply_peer_op ?op (ss_peers ?st)\<rparr>)"
    by (rule sync_runs_record [where op = ?op]) (auto simp: core_def)
  moreover have "apply_peer_op ?op (ss_peers ?st) =
      record_chain_failure a now e (cf_malformed_ban_seconds (ru_config ru)) (ss_peers st)"
    using False by (simp add: record_chain_failure_eq)
  ultimately show ?thesis using sync_runs_trans [OF insert_runs [OF assms]] by simp
qed

section \<open>The operations of a round are runs\<close>

lemma batches_loop_runs:
  "batches_loop D ops pops ru a now n s c acc tip st = (r, st') \<Longrightarrow> sync_runs D ops ru now st st'"
proof (induction n arbitrary: s c acc tip st r st')
  case (Suc n)
  show ?case
  proof (cases "coordinator_locator ops (ss_coordinator st)")
    case (Inl e)
    then show ?thesis using Suc.prems by simp
  next
    case loc: (Inr locator)
    obtain rh s1 c1 w where q: "hp_request_headers pops s locator (cf_stop (ru_config ru)) c (ss_world st) = (rh, s1, c1, w)"
      by (metis prod_cases4)
    let ?st = "st\<lparr>ss_world := w\<rparr>"
    have st: "sync_runs D ops ru now st ?st" by (rule sync_runs_same) simp_all
    show ?thesis
    proof (cases rh)
      case (Inl e)
      then have "io_then (peer_failed a StageHeaders (SyncP2p e)) (\<lambda>r. io_pure (Inr (Inl r))) ?st = (r, st')"
        using Suc.prems loc q by simp
      then have "sync_runs D ops ru now ?st st'"
        by (rule io_then_runs) (auto intro: peer_failed_runs simp: io_pure_def)
      with st show ?thesis by (metis sync_runs_trans)
    next
      case (Inr hs)
      obtain ri co where ing: "ingest_headers D ops hs (ss_coordinator st) = (ri, co)" by force
      have ing': "ingest_headers D ops hs (ss_coordinator ?st) = (ri, co)" using ing by simp
      have ins: "sync_runs D ops ru now st (?st\<lparr>ss_coordinator := co\<rparr>)"
        using sync_runs_trans [OF st insert_runs [OF ing']] .
      show ?thesis
      proof (cases "hs = []")
        case True
        then show ?thesis using Suc.prems loc q Inr st by simp
      next
        case False
        show ?thesis
        proof (cases ri)
          case b: (Inr b)
          then show ?thesis
            using Suc.prems loc q Inr False ing ins Suc.IH sync_runs_trans [OF ins]
            by (auto simp: Let_def split: if_splits)
        next
          case f: (Inl f)
          show ?thesis
          proof (cases "\<exists>e. f = Err (SyncChain e)")
            case True
            then obtain e where e: "f = Err (SyncChain e)" ..
            have "sync_runs D ops ru now ?st (?st\<lparr>ss_coordinator := co,
                ss_peers := record_chain_failure a now e (cf_malformed_ban_seconds (ru_config ru)) (ss_peers ?st)\<rparr>)"
              using ing' unfolding f e by (rule chain_failure_runs)
            with st have "sync_runs D ops ru now st (?st\<lparr>ss_coordinator := co,
                ss_peers := record_chain_failure a now e (cf_malformed_ban_seconds (ru_config ru)) (ss_peers st)\<rparr>)"
              using sync_runs_trans by fastforce
            then show ?thesis using Suc.prems loc q Inr False ing f e by (auto simp: Let_def split: if_splits)
          next
            case other: False
            then have "st' = ?st\<lparr>ss_coordinator := co\<rparr>"
              using Suc.prems loc q Inr False ing f by (auto simp: Let_def split: fault.splits sync_error.splits)
            with ins show ?thesis by simp
          qed
        qed
      qed
    qed
  qed
qed simp

lemma sync_peer_ready_runs:
  assumes "sync_peer_ready D ops pops ru store a now s remote c st = (r, st')"
  shows "sync_runs D ops ru now st st'"
  using assms unfolding sync_peer_ready_def
proof (rule io_then_runs, goal_cases)
  case (2 tip st1 r2 st2)
  show ?case
  proof (cases "case tip of Some b \<Rightarrow> unat (vp_height remote) \<le> sh_height b | None \<Rightarrow> False")
    case True
    with 2 show ?thesis by (auto intro: peer_succeeded_runs)
  next
    case False
    with 2 have "io_then (batches_loop D ops pops ru a now (max 1 (cf_max_header_batches_per_peer (ru_config ru))) s c 0 tip)
        (\<lambda>r. case r of Inl outcome \<Rightarrow> io_pure (Inr outcome) | Inr (acc, tip) \<Rightarrow> peer_succeeded pops store now
          \<lparr>sr_address = a, sr_remote_height = vp_height remote, sr_accepted = acc, sr_best = tip\<rparr>) st1 = (r2, st2)"
      by (simp add: Let_def)
    then show ?thesis
      by (rule io_then_runs)
        (auto intro: batches_loop_runs peer_succeeded_runs simp: io_pure_def split: sum.splits prod.splits)
  qed
qed auto

lemma sync_peer_runs:
  assumes "sync_peer D ops pops ru store a now st = (r, st')"
  shows "sync_runs D ops ru now st st'"
proof -
  obtain rc w where conn: "hp_connect pops a (ru_network ru) (ss_world st) = (rc, w)" by force
  show ?thesis
  proof (cases rc)
    case (Inl e)
    have "sync_runs D ops ru now st (st\<lparr>ss_world := w\<rparr>)" by (rule sync_runs_same) simp_all
    moreover have "sync_runs D ops ru now (st\<lparr>ss_world := w\<rparr>) st'"
      using assms conn Inl by (intro peer_failed_runs) (simp add: sync_peer_def)
    ultimately show ?thesis by (rule sync_runs_trans)
  next
    case (Inr c)
    obtain rh s c' w' where hand: "hp_handshake pops (session_new (ru_local_version ru)) c w = (rh, s, c', w')"
      by (metis prod_cases4)
    show ?thesis
    proof (cases rh)
      case (Inl e)
      have "sync_runs D ops ru now st (st\<lparr>ss_world := w'\<rparr>)" by (rule sync_runs_same) simp_all
      moreover have "sync_runs D ops ru now (st\<lparr>ss_world := w'\<rparr>) st'"
        using assms conn Inr hand Inl by (intro peer_failed_runs) (simp add: sync_peer_def)
      ultimately show ?thesis by (rule sync_runs_trans)
    next
      case remote: (Inr remote)
      let ?st = "st\<lparr>ss_world := w', ss_peers := record_observed_height a (vp_height remote) now (ss_peers st)\<rparr>"
      have "io_then (sync_persist pops store) (\<lambda>_.
           io_then (if cf_discover_peers (ru_config ru) then ask_addresses pops ru store c' else io_pure (Inr c')) (\<lambda>c.
           sync_peer_ready D ops pops ru store a now s remote c)) ?st = (r, st')"
        using assms conn Inr hand remote by (simp add: sync_peer_def)
      then have "sync_runs D ops ru now ?st st'"
      proof (rule io_then_runs, goal_cases)
        case (2 x st1 r2 st2)
        from 2 show ?case
          by (rule io_then_runs)
            (auto intro: ask_addresses_runs sync_peer_ready_runs simp: io_pure_def split: if_splits)
      qed (auto intro: sync_persist_runs)
      moreover have "sync_runs D ops ru now st ?st" by (rule sync_runs_observed) simp_all
      ultimately show ?thesis by (metis sync_runs_trans)
    qed
  qed
qed

lemma outbound_loop_runs:
  "outbound_loop D ops pops ru store now as result st = (r, st') \<Longrightarrow> sync_runs D ops ru now st st'"
proof (induction as arbitrary: result st r st')
  case (Cons a as)
  from Cons.prems show ?case
    unfolding outbound_loop.simps Let_def
    by (rule io_then_runs) (auto intro: sync_peer_runs Cons.IH)
qed simp

lemma discover_from_peer_runs:
  assumes "discover_from_peer pops ru store now a st = (r, st')"
  shows "sync_runs D ops ru now st st'"
proof -
  obtain rc w where conn: "hp_connect pops a (ru_network ru) (ss_world st) = (rc, w)" by force
  show ?thesis
  proof (cases rc)
    case (Inl e)
    then show ?thesis using assms conn by (intro sync_runs_transient) (auto simp: discover_from_peer_def Let_def)
  next
    case (Inr c)
    obtain rh s c' w' where hand: "hp_handshake pops (session_new (ru_local_version ru)) c w = (rh, s, c', w')"
      by (metis prod_cases4)
    show ?thesis
    proof (cases rh)
      case (Inl e)
      then show ?thesis
        using assms conn Inr hand by (intro sync_runs_transient) (auto simp: discover_from_peer_def Let_def)
    next
      case remote: (Inr remote)
      let ?st = "st\<lparr>ss_world := w', ss_peers := record_observed_height a (vp_height remote) now (ss_peers st)\<rparr>"
      have "io_then (sync_persist pops store) (\<lambda>_.
          io_then (ask_addresses pops ru store c') (\<lambda>_ st.
          sync_persist pops store (st\<lparr>ss_peers := record_success a (vp_height remote) now (ss_peers st)\<rparr>))) ?st = (r, st')"
        using assms conn Inr hand remote by (simp add: discover_from_peer_def Let_def)
      then have "sync_runs D ops ru now ?st st'"
      proof (rule io_then_runs, goal_cases)
        case (2 x st1 r2 st2)
        from 2 show ?case
        proof (rule io_then_runs, goal_cases)
          case (2 c st3 r4 st4)
          have "sync_runs D ops ru now st3 (st3\<lparr>ss_peers := record_success a (vp_height remote) now (ss_peers st3)\<rparr>)"
            by (rule sync_runs_success) simp_all
          from sync_runs_trans [OF this sync_persist_runs [OF 2]] show ?case .
        qed (auto intro: ask_addresses_runs)
      qed (auto intro: sync_persist_runs)
      moreover have "sync_runs D ops ru now st ?st" by (rule sync_runs_observed) simp_all
      ultimately show ?thesis by (metis sync_runs_trans)
    qed
  qed
qed

lemma discover_more_loop_runs:
  "discover_more_loop pops ru store now as st = (r, st') \<Longrightarrow> sync_runs D ops ru now st st'"
proof (induction as arbitrary: st r st')
  case (Cons a as)
  show ?case
  proof (cases "eligible_peer_count ru (ss_peers st) \<ge> cf_peer_discovery_target (ru_config ru)")
    case False
    then have "io_then (discover_from_peer pops ru store now a) (\<lambda>_. discover_more_loop pops ru store now as) st = (r, st')"
      using Cons.prems by simp
    then show ?thesis by (rule io_then_runs) (auto intro: discover_from_peer_runs Cons.IH)
  qed (use Cons.prems in simp)
qed simp

lemma sync_once_inner_runs:
  assumes "sync_once_inner D ops pops ru store now st = (r, st')"
  shows "sync_runs D ops ru now st st'"
  using assms unfolding sync_once_inner_def Let_def
proof (rule io_then_runs, goal_cases)
  case (2 x st1 r2 st2)
  from 2 show ?case
    by (rule io_then_runs)
      (auto intro: discover_more_loop_runs simp: discover_more_peers_def Let_def io_pure_def split: if_splits)
qed (auto intro: outbound_loop_runs)

lemma sync_once_and_persist_runs:
  assumes "sync_once_and_persist D ops pops ru now st = (r, st')"
  shows "sync_runs D ops ru now st st'"
  using assms unfolding sync_once_and_persist_def
proof (rule io_then_runs, goal_cases)
  case (2 x st1 r2 st2)
  from 2 show ?case by (rule io_then_runs) (auto intro: sync_persist_runs simp: io_pure_def)
qed (auto intro: sync_once_inner_runs)

section \<open>What runs keep\<close>

lemma insert_stored_keeps: "\<forall>x \<in> set hs. g (sh_hash x) = None \<Longrightarrow> g \<subseteq>\<^sub>m insert_stored hs g"
  by (auto simp: map_le_def intro!: insert_stored_other [symmetric])

lemma insert_headers_keeps:
  assumes inv: "chain_inv D memory_store c" and ins: "insert_headers D memory_store news c = (r, c')"
  shows "get_header memory_store (chain_store c) \<subseteq>\<^sub>m get_header memory_store (chain_store c')"
proof (cases "\<exists>b. batch_loop D (chain_policy c) (get_header memory_store (chain_store c)) news batch_empty = Inr b \<and>
    accepted b \<noteq> []")
  case True
  then obtain b where b: "batch_loop D (chain_policy c) (get_header memory_store (chain_store c)) news batch_empty = Inr b"
    "accepted b \<noteq> []" by blast
  then obtain i s where "best_candidate (accepted b) = Some (i, s)"
    using best_candidate_None [of "accepted b"] by fastforce
  from mem.insert_headers_spec [OF inv b this] obtain c2 where
    "insert_headers D memory_store news c = (Inr (accepted b), c2)"
    "get_header memory_store (chain_store c2) = insert_stored (accepted b) (get_header memory_store (chain_store c))"
    by blast
  with ins have c': "get_header memory_store (chain_store c') =
      insert_stored (accepted b) (get_header memory_store (chain_store c))" by simp
  have "\<forall>x \<in> set (accepted b). get_header memory_store (chain_store c) (sh_hash x) = None"
    using mem.batch_accepted_ok [OF inv b(1)] b(2) by (simp add: batch_ok_def)
  then show ?thesis unfolding c' by (rule insert_stored_keeps)
next
  case False
  from mem.insert_headers_other [OF False] ins have "c' = c" by (metis prod.inject)
  then show ?thesis by simp
qed

text \<open>What holds of the chain and the peer book throughout a round that started from a chain and a book with the given bans.\<close>

definition rejected_batch :: "digest_fns \<Rightarrow> difficulty_policy \<Rightarrow> bool" where
  "rejected_batch D pol \<longleftrightarrow> (\<exists>hs c e. chain_reachable D pol c \<and> breaks_rules e \<and>
     insert_headers D memory_store hs c = (Inl (Err e), c))"

definition round_inv ::
  "digest_fns \<Rightarrow> difficulty_policy \<Rightarrow> (hash \<rightharpoonup> stored_header) \<Rightarrow> (socket_addr \<Rightarrow> u64 option) \<Rightarrow> u64 \<Rightarrow>
   memory_header_store header_chain \<times> peer_manager \<Rightarrow> bool"
where
  "round_inv D pol g bans until = (\<lambda>(c, m).
     chain_reachable D pol c \<and> g \<subseteq>\<^sub>m get_header memory_store (chain_store c) \<and>
     (\<exists>bans'. book_inv bans' m \<and>
       (\<forall>a. bans' a = bans a \<or> bans' a = Some until \<and> rejected_batch D pol)))"

lemma round_inv_step:
  assumes "sync_step D memory_store now secs x y" "round_inv D pol g bans (add_u64 now secs) x"
  shows "round_inv D pol g bans (add_u64 now secs) y"
  using assms
proof (cases rule: sync_step.cases)
  case (step_insert hs c r c' m)
  have r: "chain_reachable D pol c" and g: "g \<subseteq>\<^sub>m get_header memory_store (chain_store c)"
    using assms(2) step_insert(1) by (simp_all only: round_inv_def prod.case)
  have "g \<subseteq>\<^sub>m get_header memory_store (chain_store c')"
    using map_le_trans [OF g insert_headers_keeps [OF conjunct1 [OF chain_reachable_inv [OF r]] step_insert(3)]] .
  moreover have "chain_reachable D pol c'" using r step_insert(3) by (rule reach_headers)
  ultimately show ?thesis using assms(2) step_insert(1,2) by (simp only: round_inv_def prod.case simp_thms)
next
  case (step_record op c m)
  have x: "chain_reachable D pol c" "g \<subseteq>\<^sub>m get_header memory_store (chain_store c)"
    "\<exists>bans'. book_inv bans' m \<and> (\<forall>a. bans' a = bans a \<or> bans' a = Some (add_u64 now secs) \<and> rejected_batch D pol)"
    using assms(2) step_record(1) by (simp_all only: round_inv_def prod.case)
  then obtain bans' where b: "book_inv bans' m"
    "\<forall>a. bans' a = bans a \<or> bans' a = Some (add_u64 now secs) \<and> rejected_batch D pol" by blast
  have "last_ban a op u = u" for a u using step_record(3) by (cases op) auto
  then have "book_inv bans' (apply_peer_op op m)" using book_inv_op [OF b(1), of op] by simp
  then show ?thesis using x(1,2) b(2) step_record(2) unfolding round_inv_def by blast
next
  case (step_ban hs c e c' m a)
  have x: "chain_reachable D pol c" "g \<subseteq>\<^sub>m get_header memory_store (chain_store c)"
    "\<exists>bans'. book_inv bans' m \<and> (\<forall>a. bans' a = bans a \<or> bans' a = Some (add_u64 now secs) \<and> rejected_batch D pol)"
    using assms(2) step_ban(1) by (simp_all only: round_inv_def prod.case)
  then obtain bans' where b: "book_inv bans' m"
    "\<forall>a. bans' a = bans a \<or> bans' a = Some (add_u64 now secs) \<and> rejected_batch D pol" by blast
  have c: "c' = c" using mem.insert_headers_inv [OF _ step_ban(3)] chain_reachable_inv [OF x(1)] by blast
  then have rej: "rejected_batch D pol" using x(1) step_ban(3,4) unfolding rejected_batch_def by blast
  have "book_inv (\<lambda>b. last_ban b (OpMalformed a now secs) (bans' b)) (record_malformed a now secs m)"
    using book_inv_op [OF b(1), of "OpMalformed a now secs"] by simp
  moreover have "\<forall>b. last_ban b (OpMalformed a now secs) (bans' b) = bans b \<or>
      last_ban b (OpMalformed a now secs) (bans' b) = Some (add_u64 now secs) \<and> rejected_batch D pol"
    using b(2) rej by simp
  ultimately show ?thesis using x(1,2) c step_ban(2) unfolding round_inv_def by blast
qed

lemma round_inv_run:
  assumes "(sync_step D memory_store now secs)\<^sup>*\<^sup>* x y" "round_inv D pol g bans (add_u64 now secs) x"
  shows "round_inv D pol g bans (add_u64 now secs) y"
  using assms by (induction rule: rtranclp_induct) (auto intro: round_inv_step)

section \<open>What a round reports\<close>

fun outcome_address :: "peer_outcome \<Rightarrow> socket_addr" where
  "outcome_address (PeerSuccess res) = sr_address res"
| "outcome_address (PeerFailure f) = fl_address f"

lemma peer_failed_address: "peer_failed a stage e st = (Inr out, st') \<Longrightarrow> outcome_address out = a"
  by (auto simp: peer_failed_def)

lemma peer_succeeded_address: "peer_succeeded pops store now res st = (Inr out, st') \<Longrightarrow> outcome_address out = sr_address res"
  by (auto simp: peer_succeeded_def io_then_Inr io_pure_def)

lemma batches_loop_address:
  "batches_loop D ops pops ru a now n s c acc tip st = (Inr (Inl out), st') \<Longrightarrow> outcome_address out = a"
proof (induction n arbitrary: s c acc tip st)
  case (Suc n)
  obtain locator where loc: "coordinator_locator ops (ss_coordinator st) = Inr locator"
    using Suc.prems by (cases "coordinator_locator ops (ss_coordinator st)") auto
  obtain rh s1 c1 w where q: "hp_request_headers pops s locator (cf_stop (ru_config ru)) c (ss_world st) = (rh, s1, c1, w)"
    by (metis prod_cases4)
  show ?case
  proof (cases rh)
    case (Inl e)
    then show ?thesis
      using Suc.prems loc q by (auto simp: io_then_Inr io_pure_def dest: peer_failed_address)
  next
    case (Inr hs)
    obtain ri co where ing: "ingest_headers D ops hs (ss_coordinator st) = (ri, co)" by force
    show ?thesis
    proof (cases ri)
      case (Inl f)
      then show ?thesis
        using Suc.prems loc q Inr ing
        by (cases f; cases "case f of Err e \<Rightarrow> e | Panic \<Rightarrow> SyncUnexpectedAction") (auto simp: Let_def split: if_splits)
    next
      case b: (Inr b)
      then show ?thesis using Suc.prems loc q Inr ing Suc.IH by (auto simp: Let_def split: if_splits)
    qed
  qed
qed simp

lemma io_then_lift: "io_then (\<lambda>st. (g st, st)) f st = (case g st of Inl e \<Rightarrow> (Inl e, st) | Inr x \<Rightarrow> f x st)"
  by (simp add: io_then_def split: sum.split)

lemma sync_peer_ready_address:
  assumes "sync_peer_ready D ops pops ru store a now s remote c st = (Inr out, st')"
  shows "outcome_address out = a"
proof -
  let ?ok = "\<lambda>acc tip. peer_succeeded pops store now
    \<lparr>sr_address = a, sr_remote_height = vp_height remote, sr_accepted = acc, sr_best = tip\<rparr>"
  let ?loop = "batches_loop D ops pops ru a now (max 1 (cf_max_header_batches_per_peer (ru_config ru))) s c 0"
  obtain tip where tip: "sync_chain (best_header ops (hc_chain (ss_coordinator st))) = Inr tip"
    using assms by (cases "sync_chain (best_header ops (hc_chain (ss_coordinator st)))")
      (simp_all add: sync_peer_ready_def io_then_lift)
  have "?ok 0 tip st = (Inr out, st') \<or>
      io_then (?loop tip) (\<lambda>r. case r of Inl o1 \<Rightarrow> io_pure (Inr o1) | Inr (acc, tip) \<Rightarrow> ?ok acc tip) st = (Inr out, st')"
    using assms unfolding sync_peer_ready_def io_then_lift tip sum.case Let_def
    by (simp only: split: if_splits) (simp_all only: simp_thms)
  then consider "?ok 0 tip st = (Inr out, st')"
    | r st1 where "?loop tip st = (Inr r, st1)"
      "(case r of Inl o1 \<Rightarrow> io_pure (Inr o1) | Inr (acc, tip) \<Rightarrow> ?ok acc tip) st1 = (Inr out, st')"
    unfolding io_then_Inr by blast
  then show ?thesis
  proof cases
    case 1
    then show ?thesis by (simp add: peer_succeeded_address)
  next
    case (2 r st1)
    then show ?thesis
      by (cases r) (auto dest: batches_loop_address peer_succeeded_address split: prod.splits)
  qed
qed

lemma sync_peer_address:
  assumes "sync_peer D ops pops ru store a now st = (Inr out, st')"
  shows "outcome_address out = a"
  using assms
  by (auto simp: sync_peer_def io_then_Inr Let_def dest: peer_failed_address sync_peer_ready_address
      split: prod.splits sum.splits)

lemma outbound_loop_report:
  "outbound_loop D ops pops ru store now as result st = (Inr res, st') \<Longrightarrow>
     rr_attempted res = rr_attempted result + length as \<and>
     (\<exists>fs. rr_failures res = rr_failures result @ fs \<and> subseq (map fl_address fs) as \<and>
       rr_successful res + length fs = rr_successful result + length as)"
proof (induction as arbitrary: result st)
  case (Cons a as)
  let ?next = "result\<lparr>rr_attempted := rr_attempted result + 1\<rparr>"
  obtain out st1 where out: "sync_peer D ops pops ru store a now st = (Inr out, st1)"
    and loop: "outbound_loop D ops pops ru store now as
      (case out of
         PeerSuccess r \<Rightarrow> ?next\<lparr>rr_successful := rr_successful ?next + 1,
           rr_accepted := rr_accepted ?next + sr_accepted r, rr_best := sr_best r\<rparr>
       | PeerFailure f \<Rightarrow> ?next\<lparr>rr_failures := rr_failures ?next @ [f]\<rparr>) st1
      = (Inr res, st')"
    using Cons.prems unfolding outbound_loop.simps Let_def io_then_Inr by blast
  show ?case
  proof (cases out)
    case (PeerSuccess r)
    with Cons.IH [OF loop] show ?thesis by auto
  next
    case (PeerFailure f)
    with Cons.IH [OF loop] sync_peer_address [OF out] show ?thesis by auto
  qed
qed simp

section \<open>The locator\<close>

text \<open>How far below the tip the \<open>i\<close>th entry of a locator is, and the step the loop takes after it.\<close>

definition locator_offset :: "nat \<Rightarrow> nat" where
  "locator_offset i = (if i \<le> 9 then i else 8 + 2 ^ (i - 9))"

definition locator_step :: "nat \<Rightarrow> nat" where
  "locator_step i = (if i \<le> 9 then 1 else 2 ^ (i - 9))"

lemma power_gap:
  assumes "9 < i"
  shows "(2 :: nat) ^ (i - 8) = 2 * 2 ^ (i - 9)"
proof -
  have "i - 8 = Suc (i - 9)" using assms by simp
  then show ?thesis by simp
qed

lemma locator_offset_Suc: "locator_offset (Suc i) = locator_offset i + locator_step i"
proof -
  consider "i < 9" | "i = 9" | "9 < i" by linarith
  then show ?thesis by cases (simp_all add: locator_offset_def locator_step_def power_gap)
qed

lemma locator_step_Suc:
  "locator_step (Suc i) = (if 10 \<le> Suc i then locator_step i * 2 else locator_step i)"
  using power_gap [of i] by (auto simp: locator_step_def not_le)

lemma locator_step_small:
  assumes "locator_offset i < 2 ^ 32"
  shows "locator_step i * 2 < usize_limit"
proof -
  have "locator_step i \<le> locator_offset i \<or> i = 0" by (auto simp: locator_step_def locator_offset_def)
  with assms have "locator_step i \<le> 2 ^ 32" by (auto simp: locator_step_def)
  then show ?thesis by simp
qed

lemma step_back_path:
  assumes "is_path get hs" "h < length hs"
  shows "step_back get n (hs ! h) = Inr (hs ! (h - n))"
  using assms(2)
proof (induction n arbitrary: h)
  case (Suc n)
  show ?case
  proof (cases h)
    case 0
    then show ?thesis using assms(1) Suc.prems by (simp add: is_path_def)
  next
    case (Suc k)
    then have "get (prev_block (sh_header (hs ! h))) = Some (hs ! k)" "sh_height (hs ! h) = h"
      using assms(1) Suc.prems by (auto simp: is_path_def)
    with Suc Suc.IH [of k] Suc.prems show ?thesis by (simp add: ok_or_def and_then_def)
  qed
qed simp

definition locator_entries :: "stored_header list \<Rightarrow> nat \<Rightarrow> hash list" where
  "locator_entries hs n = map (\<lambda>i. sh_hash (hs ! (length hs - 1 - locator_offset i))) [0..<n]"

lemma locator_entries_Suc [simp]:
  "locator_entries hs n @ [sh_hash (hs ! (length hs - Suc (locator_offset n)))] = locator_entries hs (Suc n)"
  "length (locator_entries hs n) = n"
  by (simp_all add: locator_entries_def)

text \<open>Where the loop stops: at its limit, or at the first entry that is the genesis header.\<close>

definition locator_stops :: "nat \<Rightarrow> nat \<Rightarrow> nat \<Rightarrow> bool" where
  "locator_stops limit height n \<longleftrightarrow> n \<le> limit \<and> (\<forall>i. Suc i < n \<longrightarrow> locator_offset i < height) \<and>
     (n < limit \<longrightarrow> 0 < n \<and> height \<le> locator_offset (n - 1))"

lemma locator_loop_path:
  assumes path: "is_path get hs" and small: "length hs \<le> 2 ^ 32"
  shows "\<lbrakk>k \<le> limit; \<forall>i < k. locator_offset i < length hs - 1\<rbrakk> \<Longrightarrow>
    \<exists>n. locator_loop get limit (hs ! (length hs - 1 - locator_offset k)) (locator_entries hs k) (locator_step k) =
      Inr (locator_entries hs n) \<and> locator_stops limit (length hs - 1) n"
proof (induction "limit - k" arbitrary: k)
  case 0
  then have k: "k = limit" by simp
  with 0 show ?case by (intro exI [of _ k]) (simp add: locator_loop.simps locator_stops_def)
next
  case (Suc d)
  then have lim: "k < limit" by simp
  have len: "0 < length hs" using path by (simp add: is_path_def)
  let ?h = "length hs - 1 - locator_offset k"
  have hgt: "sh_height (hs ! ?h) = ?h" and lt: "?h < length hs" using path len by (auto simp: is_path_def)
  show ?case
  proof (cases "?h = 0")
    case True
    then have "locator_loop get limit (hs ! ?h) (locator_entries hs k) (locator_step k) = Inr (locator_entries hs (Suc k))"
      using lim hgt True locator_entries_Suc(1) [of hs k]
      by (subst locator_loop.simps) (simp add: Let_def)
    moreover have "locator_stops limit (length hs - 1) (Suc k)" using lim True Suc.prems by (auto simp: locator_stops_def)
    ultimately show ?thesis by blast
  next
    case False
    then have off: "locator_offset k < length hs - 1" by simp
    have "locator_step k * 2 < usize_limit" using off small by (intro locator_step_small) simp
    then have step: "(if 10 \<le> Suc k then min (locator_step k * 2) (usize_limit - 1) else locator_step k) = locator_step (Suc k)"
      by (simp add: locator_step_Suc)
    have "?h - locator_step k = length hs - 1 - locator_offset (Suc k)" by (simp add: locator_offset_Suc)
    then have jump: "step_back get (locator_step k) (hs ! ?h) = Inr (hs ! (length hs - 1 - locator_offset (Suc k)))"
      using step_back_path [OF path lt, of "locator_step k"] by simp
    have "locator_loop get limit (hs ! ?h) (locator_entries hs k) (locator_step k) =
        locator_loop get limit (hs ! (length hs - 1 - locator_offset (Suc k))) (locator_entries hs (Suc k)) (locator_step (Suc k))"
      using lim hgt False jump step by (subst locator_loop.simps) (simp add: Let_def)
    moreover have "\<forall>i < Suc k. locator_offset i < length hs - 1" using Suc.prems(2) off by (simp add: less_Suc_eq)
    ultimately show ?thesis using Suc.hyps(1) [of "Suc k"] Suc.hyps(2) lim by simp
  qed
qed

lemma locator_with_limit_path:
  assumes reach: "chain_reachable D pol c" and best: "best_header memory_store c = Inr (Some t)"
  obtains hs n where "is_path (get_header memory_store (chain_store c)) hs" "last hs = t"
    "length hs = Suc (sh_height t)"
    "canonical_hash memory_store (chain_store c) = index_of hs"
    "locator_with_limit memory_store limit \<lparr>hc_chain = c, hc_locator_limit = l\<rparr> = Inr (locator_entries hs n)"
    "locator_stops limit (sh_height t) n"
proof -
  let ?get = "get_header memory_store (chain_store c)"
  have inv: "chain_inv D memory_store c" using chain_reachable_inv [OF reach] by simp
  obtain b where b: "best_hash memory_store (chain_store c) = Some b" "?get b = Some t"
    using best by (auto simp: best_header_def ok_or_def split: option.splits)
  obtain t' hs where hs: "best_header memory_store c = Inr (Some t')" "last hs = t'" "is_path ?get hs"
    "canonical_hash memory_store (chain_store c) = index_of hs"
    by (rule mem.best_header_ok [OF inv b(2)]) (rule that)
  have t: "t' = t" using hs(1) best by simp
  have len: "length hs = Suc (sh_height t)" using is_path_height [OF hs(3)] hs(2) t by simp
  have "header_valid D (chain_policy c) ?get b t"
    using inv b(2) by (simp add: chain_inv_def chain_ok_def headers_valid_def)
  then have small: "length hs \<le> 2 ^ 32" using len by (simp add: header_valid_def)
  have last: "hs ! (length hs - 1) = t" using hs(2) t len by (metis last_conv_nth length_0_conv nat.distinct(1))
  obtain n where "locator_loop ?get limit (hs ! (length hs - 1 - locator_offset 0)) (locator_entries hs 0) (locator_step 0) =
      Inr (locator_entries hs n)" "locator_stops limit (length hs - 1) n"
    using locator_loop_path [OF hs(3) small, of 0 limit] by auto
  moreover have "chain_get_header memory_store c = ?get" by (simp add: chain_get_header_def fun_eq_iff)
  ultimately show ?thesis
    using that [OF hs(3) _ len hs(4)] hs(2) t best last len
    by (simp add: locator_with_limit_def sync_chain_def locator_offset_def locator_step_def locator_entries_def)
qed

section \<open>Endpoints\<close>

text \<open>A round depends on what connecting does only at the endpoints the runner allows.\<close>

lemma hp_connect_update:
  "hp_request_headers (pops\<lparr>hp_connect := f\<rparr>) = hp_request_headers pops"
  "hp_request_addresses (pops\<lparr>hp_connect := f\<rparr>) = hp_request_addresses pops"
  "hp_handshake (pops\<lparr>hp_connect := f\<rparr>) = hp_handshake pops"
  "hp_save_manager (pops\<lparr>hp_connect := f\<rparr>) = hp_save_manager pops"
  "hp_connect (pops\<lparr>hp_connect := f\<rparr>) = f"
  by simp_all

lemma batches_loop_connect:
  "batches_loop D ops (pops\<lparr>hp_connect := f\<rparr>) ru a now n s c acc tip st = batches_loop D ops pops ru a now n s c acc tip st"
proof (induction n arbitrary: s c acc tip st)
  case (Suc n)
  have "batches_loop D ops (pops\<lparr>hp_connect := f\<rparr>) ru a now n = batches_loop D ops pops ru a now n"
    by (intro ext) (rule Suc.IH)
  then show ?case by (simp only: batches_loop.simps hp_connect_update)
qed simp

lemma persist_connect: "sync_persist (pops\<lparr>hp_connect := f\<rparr>) store = sync_persist pops store"
  by (simp only: sync_persist_def persist_peer_manager_def hp_connect_update fun_eq_iff simp_thms)

lemma ask_addresses_connect: "ask_addresses (pops\<lparr>hp_connect := f\<rparr>) ru store c = ask_addresses pops ru store c"
  by (simp only: ask_addresses_def hp_connect_update persist_connect fun_eq_iff simp_thms)

lemma peer_succeeded_connect: "peer_succeeded (pops\<lparr>hp_connect := f\<rparr>) store now = peer_succeeded pops store now"
  by (simp only: peer_succeeded_def persist_connect fun_eq_iff simp_thms)

lemma sync_peer_ready_connect:
  "sync_peer_ready D ops (pops\<lparr>hp_connect := f\<rparr>) ru store a now s remote c = sync_peer_ready D ops pops ru store a now s remote c"
proof -
  have "batches_loop D ops (pops\<lparr>hp_connect := f\<rparr>) ru a now n s c acc tip = batches_loop D ops pops ru a now n s c acc tip"
    for n acc tip by (intro ext) (rule batches_loop_connect)
  then show ?thesis by (simp only: sync_peer_ready_def peer_succeeded_connect)
qed

lemma sync_peer_connect:
  assumes "f a (ru_network ru) = hp_connect pops a (ru_network ru)"
  shows "sync_peer D ops (pops\<lparr>hp_connect := f\<rparr>) ru store a now = sync_peer D ops pops ru store a now"
  by (simp only: sync_peer_def fun_eq_iff assms hp_connect_update persist_connect ask_addresses_connect sync_peer_ready_connect simp_thms)

lemma discover_from_peer_connect:
  assumes "f a (ru_network ru) = hp_connect pops a (ru_network ru)"
  shows "discover_from_peer (pops\<lparr>hp_connect := f\<rparr>) ru store now a = discover_from_peer pops ru store now a"
  by (simp only: discover_from_peer_def fun_eq_iff assms hp_connect_update persist_connect ask_addresses_connect simp_thms)

lemma outbound_loop_connect:
  assumes "\<forall>a \<in> set as. f a (ru_network ru) = hp_connect pops a (ru_network ru)"
  shows "outbound_loop D ops (pops\<lparr>hp_connect := f\<rparr>) ru store now as result st = outbound_loop D ops pops ru store now as result st"
  using assms
proof (induction as arbitrary: result st)
  case (Cons a as)
  then have "outbound_loop D ops (pops\<lparr>hp_connect := f\<rparr>) ru store now as = outbound_loop D ops pops ru store now as"
    by (intro ext) simp
  with Cons.prems show ?case by (simp add: sync_peer_connect)
qed simp

lemma discover_more_loop_connect:
  fixes pops :: "('w, 'c) peer_ops" and st :: "('s, 'w) sync_state"
  assumes "\<forall>a \<in> set as. f a (ru_network ru) = hp_connect pops a (ru_network ru)"
  shows "discover_more_loop (pops\<lparr>hp_connect := f\<rparr>) ru store now as st = discover_more_loop pops ru store now as st"
  using assms
proof (induction as arbitrary: st)
  case (Cons a as)
  then have "discover_more_loop (pops\<lparr>hp_connect := f\<rparr>) ru store now as x = discover_more_loop pops ru store now as x"
    for x :: "('s, 'w) sync_state" by simp
  then have "discover_more_loop (pops\<lparr>hp_connect := f\<rparr>) ru store now as =
      (discover_more_loop pops ru store now as :: ('s, 'w) sync_state \<Rightarrow> _)" by (intro ext)
  with Cons.prems show ?case by (simp add: discover_from_peer_connect)
qed simp

lemma selected_allowed:
  "a \<in> set (select_outbound_peers ru n now m) \<Longrightarrow> peer_endpoint_allowed ru a"
  "a \<in> set (select_discovery_peers ru n now xs m) \<Longrightarrow> peer_endpoint_allowed ru a"
  unfolding select_outbound_peers_def select_discovery_peers_def by (auto dest!: in_set_takeD)

lemma sync_once_inner_connect:
  fixes pops :: "('w, 'c) peer_ops" and ops :: "'s header_store_ops"
  assumes "\<forall>a. peer_endpoint_allowed ru a \<longrightarrow> f a (ru_network ru) = hp_connect pops a (ru_network ru)"
  shows "sync_once_inner D ops (pops\<lparr>hp_connect := f\<rparr>) ru store now = sync_once_inner D ops pops ru store now"
proof -
  have "discover_more_peers (pops\<lparr>hp_connect := f\<rparr>) ru store now xs =
      (discover_more_peers pops ru store now xs :: ('s, 'w) sync_state \<Rightarrow> _)" for xs
    using assms selected_allowed(2)
    by (auto simp: discover_more_peers_def fun_eq_iff Let_def intro!: discover_more_loop_connect)
  moreover have "outbound_loop D ops (pops\<lparr>hp_connect := f\<rparr>) ru store now (select_outbound_peers ru n now m) res =
      outbound_loop D ops pops ru store now (select_outbound_peers ru n now m) res" for n m res
    using assms selected_allowed(1) by (auto simp: fun_eq_iff intro!: outbound_loop_connect)
  ultimately show ?thesis by (intro ext) (simp only: sync_once_inner_def Let_def)
qed

section \<open>Properties\<close>


text \<open>C20.  The locator is exact: on a reachable chain with a best header it always succeeds, and its entries are the
  canonical hashes at the tip, nine below it one by one, and then at gaps that double; it ends at its limit or with
  the genesis header, the first time that is reached.\<close>

theorem locator_exact:
  assumes "chain_reachable D pol c" "best_header memory_store c = Inr (Some t)"
  shows "\<exists>ls. locator_with_limit memory_store limit \<lparr>hc_chain = c, hc_locator_limit = l\<rparr> = Inr ls \<and>
    locator_stops limit (sh_height t) (length ls) \<and>
    map Some ls = map (\<lambda>i. chain_canonical_hash memory_store c (sh_height t - locator_offset i)) [0..<length ls]"
proof -
  obtain hs n where hs: "length hs = Suc (sh_height t)" "canonical_hash memory_store (chain_store c) = index_of hs"
    "locator_with_limit memory_store limit \<lparr>hc_chain = c, hc_locator_limit = l\<rparr> = Inr (locator_entries hs n)"
    "locator_stops limit (sh_height t) n"
    by (rule locator_with_limit_path [OF assms]) (rule that)
  then show ?thesis
    by (auto simp: locator_entries_def chain_canonical_hash_def index_of_def)
qed

text \<open>Endpoints: unless unsafe endpoints are allowed, what connecting to an endpoint outside the allowed peer
  addresses would do has no influence on a round, whether the address came from the book or was discovered in it.\<close>

theorem disallowed_endpoints_never_contacted:
  assumes "\<not> cf_allow_unsafe_peer_endpoints (ru_config ru)"
    and "\<forall>a. is_allowed_peer_endpoint (ru_network ru) a \<longrightarrow>
      hp_connect pops' a (ru_network ru) = hp_connect pops a (ru_network ru)"
    and "\<exists>f. pops' = pops\<lparr>hp_connect := f\<rparr>"
  shows "sync_once_and_persist D ops pops' ru now st = sync_once_and_persist D ops pops ru now st"
proof -
  obtain f where f: "pops' = pops\<lparr>hp_connect := f\<rparr>" using assms(3) by blast
  have "sync_once_inner D ops pops' ru True now = sync_once_inner D ops pops ru True now"
    unfolding f using assms(1,2) f by (intro sync_once_inner_connect) (simp add: peer_endpoint_allowed_def)
  then show ?thesis by (simp only: sync_once_and_persist_def f persist_connect)
qed

text \<open>The report of a round that ends: every selected peer is tried, each attempt is counted as a success or is a
  failure in the report, in the order of the attempts, and no more peers are tried than preferred.\<close>

theorem sync_report_exact:
  assumes "sync_once D ops pops ru now st = (Inr res, st')"
  shows "rr_attempted res = length (select_outbound_peers ru (cf_preferred_peers (ru_config ru)) now (ss_peers st)) \<and>
    rr_attempted res \<le> cf_preferred_peers (ru_config ru) \<and>
    rr_attempted res = rr_successful res + length (rr_failures res) \<and>
    subseq (map fl_address (rr_failures res))
      (select_outbound_peers ru (cf_preferred_peers (ru_config ru)) now (ss_peers st))"
proof -
  obtain st1 where "outbound_loop D ops pops ru False now
      (select_outbound_peers ru (cf_preferred_peers (ru_config ru)) now (ss_peers st)) run_result_empty st = (Inr res, st1)"
    using assms by (auto simp: sync_once_def sync_once_inner_def Let_def io_then_Inr)
  from outbound_loop_report [OF this] show ?thesis
    by (auto simp: run_result_empty_def select_outbound_peers_def)
qed

section \<open>Witnesses\<close>

text \<open>A peer that serves one header to everyone, and a runner that speaks to it.\<close>

definition sample_peer_ops :: "(unit, unit) peer_ops" where
  "sample_peer_ops =
     \<lparr>hp_connect = (\<lambda>_ _ w. (Inr (), w)), hp_handshake = (\<lambda>s c w. (Inr sample_version, s, c, w)),
      hp_request_headers = (\<lambda>s _ _ c w. (Inr [sample_child], s, c, w)),
      hp_request_addresses = (\<lambda>c w. (Inr [(V4 (9, 9, 9, 9), 12038)], c, w)), hp_save_manager = (\<lambda>_ w. (Inr (), w))\<rparr>"

definition sample_runner :: runner where
  "sample_runner = \<lparr>ru_network = mainnet, ru_local_version = sample_version, ru_config = runner_config_default\<rparr>"

definition sample_peers :: peer_manager where
  "sample_peers = from_states [peer_state_new (V4 (8, 8, 8, 8), 12038)]"

definition sample_sync :: "memory_header_store header_chain \<Rightarrow> (memory_header_store, unit) sync_state" where
  "sample_sync c = \<lparr>ss_coordinator = header_coordinator_new c, ss_peers = sample_peers, ss_world = ()\<rparr>"

lemma sample_peers_inv: "book_inv (\<lambda>_. None) sample_peers"
  by (simp add: book_inv_def peers_ok_def sample_peers_def from_states_def peer_state_new_def peer_entry_def)


theorem locator_exact_witness:
  "\<exists>c t ls. best_header memory_store c = Inr (Some t) \<and>
     locator_with_limit memory_store 32 (header_coordinator_new c) = Inr ls \<and>
     locator_stops 32 (sh_height t) (length ls) \<and>
     map Some ls = map (\<lambda>i. chain_canonical_hash memory_store c (sh_height t - locator_offset i)) [0..<length ls]"
proof -
  obtain c s where c: "chain_reachable sample_digests Permissive c"
    "chain_get_header memory_store c (replicate 32 0) = Some s"
    using sample_chain by blast
  then have "chain_inv sample_digests memory_store c" "get_header memory_store (chain_store c) (replicate 32 0) = Some s"
    using chain_reachable_inv [OF c(1)] by (simp_all add: chain_get_header_def)
  from mem.best_header_ok [OF this] obtain t where t: "best_header memory_store c = Inr (Some t)" by blast
  from locator_exact [OF c(1) t, of 32 DEFAULT_LOCATOR_LIMIT] t show ?thesis
    unfolding header_coordinator_new_def with_locator_limit_def by blast
qed

theorem disallowed_endpoints_never_contacted_witness:
  "sync_once_and_persist D memory_store (sample_peer_ops\<lparr>hp_connect := \<lambda>a n w.
       if is_allowed_peer_endpoint mainnet a then (Inr (), w) else (Inl UnexpectedAction, w)\<rparr>) sample_runner 5 st =
     sync_once_and_persist D memory_store sample_peer_ops sample_runner 5 st"
proof (rule disallowed_endpoints_never_contacted)
  show "\<exists>f. sample_peer_ops\<lparr>hp_connect := \<lambda>a n w.
       if is_allowed_peer_endpoint mainnet a then (Inr (), w) else (Inl UnexpectedAction, w)\<rparr> = sample_peer_ops\<lparr>hp_connect := f\<rparr>"
    by (rule exI, rule refl)
qed (simp_all add: sample_runner_def runner_config_default_def sample_peer_ops_def fun_eq_iff)

definition sample_open_runner :: runner where
  "sample_open_runner = sample_runner\<lparr>ru_config := runner_config_default\<lparr>cf_discover_peers := False,
     cf_allow_unsafe_peer_endpoints := True\<rparr>\<rparr>"

definition sample_refusal :: run_result where
  "sample_refusal = run_result_empty\<lparr>rr_attempted := 1, rr_failures := [\<lparr>fl_address = (V4 (8, 8, 8, 8), 12038),
     fl_stage = StageConnect, fl_error = SyncP2p UnexpectedAction\<rparr>]\<rparr>"

lemma sample_selected: "select_outbound_peers sample_open_runner DEFAULT_OUTBOUND_PEERS 5 sample_peers = [(V4 (8, 8, 8, 8), 12038)]"
  by (simp add: select_outbound_peers_def sample_peers_def from_states_def peer_state_new_def select_outbound_def
      is_banned_def pick_peers_def Let_def peer_endpoint_allowed_def sample_open_runner_def DEFAULT_OUTBOUND_PEERS_def)

lemma sample_round:
  "\<exists>st'. sync_once D memory_store (sample_peer_ops\<lparr>hp_connect := \<lambda>a n w. (Inl UnexpectedAction, w)\<rparr>)
     sample_open_runner 5 (sample_sync c) = (Inr sample_refusal, st')"
proof -
  have "cf_preferred_peers (ru_config sample_open_runner) = DEFAULT_OUTBOUND_PEERS"
    "\<not> cf_discover_peers (ru_config sample_open_runner)"
    by (simp_all add: sample_open_runner_def runner_config_default_def)
  then show ?thesis
    using sample_selected
    by (simp add: sync_once_def sync_once_inner_def sample_sync_def Let_def io_then_Inr sync_peer_def peer_failed_def
        discover_more_peers_def sample_refusal_def run_result_empty_def)
qed

theorem sync_report_exact_witness:
  "rr_attempted sample_refusal = length (select_outbound_peers sample_open_runner
      (cf_preferred_peers (ru_config sample_open_runner)) 5 (ss_peers (sample_sync (chain_new memory_store_default)))) \<and>
   rr_attempted sample_refusal = rr_successful sample_refusal + length (rr_failures sample_refusal)"
proof -
  obtain st' where "sync_once sample_digests memory_store (sample_peer_ops\<lparr>hp_connect := \<lambda>a n w. (Inl UnexpectedAction, w)\<rparr>)
      sample_open_runner 5 (sample_sync (chain_new memory_store_default)) = (Inr sample_refusal, st')"
    using sample_round by blast
  from sync_report_exact [OF this] show ?thesis by blast
qed

end
