(* ===== verification/Zone_Cut.thy ===== *)
theory Zone_Cut
  imports Denial
begin

text \<open>
  The NSEC validators of \<open>hns-dnssec/src/lib.rs\<close> at a zone cut. The NSEC record of a delegation lists NS and no SOA: it
  belongs to the parent zone and says nothing of the names below the cut nor of the child's own data (RFC 6840, section
  4.1). The NSEC3 path refuses such records (\<open>closest_nsec3_is_authoritative\<close>); \<open>validate_nsec_name_range\<close> and
  \<open>validate_nsec_no_data\<close> do not look at these bits, and the theorem of this theory says what follows.
\<close>

section \<open>Lemmas\<close>

lemma less_append_notprefix:
  fixes xs ys zs :: "'a :: linorder list"
  assumes "xs < ys" "take (length xs) ys \<noteq> xs"
  shows "xs @ zs < ys"
  using assms
proof (induction xs arbitrary: ys)
  case (Cons x xs)
  then show ?case by (cases ys) auto
qed auto

lemma ends_with_append: "ends_with name suffix \<longleftrightarrow> (\<exists>front. name = front @ suffix)"
proof
  assume "ends_with name suffix"
  then have "name = take (length name - length suffix) name @ suffix"
    unfolding ends_with_def by (metis append_take_drop_id)
  then show "\<exists>front. name = front @ suffix" by blast
qed (auto simp: ends_with_def)

text \<open>The NSEC range that starts at a name contains every name below it, up to a next name that is not below it.\<close>

lemma less_append_self: "ys \<noteq> [] \<Longrightarrow> (xs :: 'a :: linorder list) < xs @ ys"
  by (induction xs) (auto simp: neq_Nil_conv)

lemma not_below_notprefix:
  assumes "\<not> ends_with next_name zc"
  shows "take (length (rev zc)) (rev next_name) \<noteq> rev zc"
proof
  define later where "later = drop (length (rev zc)) (rev next_name)"
  assume "take (length (rev zc)) (rev next_name) = rev zc"
  then have "rev next_name = rev zc @ later"
    using append_take_drop_id [of "length (rev zc)" "rev next_name"] by (simp only: later_def)
  then have "rev (rev next_name) = rev (rev zc @ later)" by (rule arg_cong)
  then have "next_name = rev later @ zc" by (simp only: rev_rev_ident rev_append)
  with assms ends_with_append show False by blast
qed

lemma range_covers_below:
  assumes "canonical_name_cmp zc next_name = Less" "\<not> ends_with next_name zc" "is_strict_subdomain q zc"
  shows "nsec_covers_name zc next_name q"
proof -
  obtain front where q: "q = front @ zc"
    using assms(3) unfolding is_strict_subdomain_def ends_with_append by blast
  then have "rev front \<noteq> []" using assms(3) by (simp add: is_strict_subdomain_def)
  then have "rev zc < rev q" unfolding q rev_append by (rule less_append_self)
  moreover have less: "rev zc < rev next_name" using assms(1) by (simp only: canonical_name_cmp_iff)
  moreover have "rev q < rev next_name"
    unfolding q rev_append by (rule less_append_notprefix [OF less not_below_notprefix [OF assms(2)]])
  moreover have "q \<noteq> zc" using assms(3) by (auto simp: is_strict_subdomain_def)
  ultimately show ?thesis by (simp add: nsec_covers_name_gap in_gap_def)
qed

section \<open>Properties\<close>

text \<open>
  C25.  One genuine NSEC record of the parent zone, at a delegation, makes every name of the child zone provably non-existent
  for the validator, and every type at the child's apex that the parent's record does not list provably absent.
\<close>

theorem parent_nsec_denies_child_zone:
  assumes "validate_rrset_signature K zone keys [r] sigs now = Inr Secure"
    and "rr_type r = TypeNsec" "rr_name r = zc" "nsec_from_record r = Inr n"
    and "nsec_has_type n TypeNs = Inr True" "nsec_has_type n TypeSoa = Inr False"
    and "canonical_name_cmp zc (nsec_next_domain_name n) = Less" "\<not> ends_with (nsec_next_domain_name n) zc"
    and "is_strict_subdomain q zc" "wf_name (ascii ''*'' # zc)"
    and "nsec_has_type n ty = Inr False" "nsec_has_type n TypeCname = Inr False"
  shows "validate_nsec_name_error K \<lparr>ne_signer_name = zone, ne_dnskey_rrset = keys, ne_query_name = q,
      ne_closest_encloser = zc, ne_covering_nsec_rrset = [r], ne_covering_nsec_rrsig_rrset = sigs,
      ne_wildcard_nsec_rrset = [r], ne_wildcard_nsec_rrsig_rrset = sigs, ne_now = now\<rparr> = Inr Secure \<and>
    validate_nsec_no_data K \<lparr>nd_signer_name = zone, nd_dnskey_rrset = keys, nd_query_name = zc, nd_query_type = ty,
      nd_nsec_rrset = [r], nd_nsec_rrsig_rrset = sigs, nd_now = now\<rparr> = Inr Secure"
proof -
  have wild: "is_strict_subdomain (ascii ''*'' # zc) zc" by (auto simp: is_strict_subdomain_def ends_with_append)
  have covers: "nsec_covers_name (rr_name r) (nsec_next_domain_name n) x" if "is_strict_subdomain x zc" for x
    using range_covers_below [OF assms(7,8) that] assms(3) by simp
  have "validate_nsec_name_range K \<lparr>nr_signer_name = zone, nr_dnskey_rrset = keys, nr_query_name = x,
      nr_nsec_rrset = [r], nr_nsec_rrsig_rrset = sigs, nr_now = now\<rparr> = Inr Secure" if "is_strict_subdomain x zc" for x
    using covers [OF that] assms(1,2,4) by (simp add: validate_nsec_name_range_def when_secure_def)
  from this [OF assms(9)] this [OF wild] show ?thesis
    using assms
    by (simp add: validate_nsec_name_error_def validate_nsec_no_data_def when_secure_def wildcard_child_exact)
qed

section \<open>Witness\<close>

text \<open>The root zone of the sample delegates \<open>d\<close>; its NSEC record at the cut runs to \<open>e\<close> and lists NS only.\<close>

definition cut_record :: resource_record where
  "cut_record = \<lparr>rr_name = [ascii ''d''], rr_type = TypeNsec, rr_class = 1, rr_ttl = 60,
     rr_rdata = [1, 101, 0, 0, 1, 0x20]\<rparr>"

definition cut_sig :: resource_record where
  "cut_sig = (sample_sig 47)\<lparr>rr_name := [ascii ''d'']\<rparr>"

definition cut_nsec :: nsec_record where
  "cut_nsec = \<lparr>nsec_next_domain_name = [ascii ''e''], nsec_type_bit_maps = [0, 1, 0x20]\<rparr>"

lemma cut_names: "wf_name [ascii ''d'']" "wf_name [ascii ''e'']" "wf_name [ascii ''*'', ascii ''d'']"
  by (simp_all add: wf_name_def wf_label_def is_valid_dns_label_def ascii_def is_ascii_alphanumeric_def
      is_ascii_lower_def to_ascii_lowercase_def to_ascii_lower_byte_def is_ascii_upper_def)

lemma cut_record_parses: "nsec_from_record cut_record = Inr cut_nsec"
proof -
  have "[1, 101, 0, 0, 1, 0x20] = [] @ wire [ascii ''e''] @ [0, 1, 0x20]" by (simp add: wire_def ascii_def)
  from parse_wire_at [OF cut_names(2) this] have "parse_wire [1, 101, 0, 0, 1, 0x20] 0 = Inr ([ascii ''e''], 3)"
    by (simp add: wire_def ascii_def)
  then show ?thesis
    by (simp add: nsec_from_record_def cut_record_def nsec_parse_rdata_def cut_nsec_def validate_nsec_type_bit_maps_def)
qed

lemma cut_types: "nsec_has_type cut_nsec ty = Inr (bitmap_lists [0, 1, 0x20] (record_type_code ty))"
  using nsec_has_type_exact [OF cut_record_parses] by (simp add: cut_nsec_def)

lemma cut_set_validates:
  "validate_rrset_signature sample_crypto [] [sample_key 7] [cut_record] [cut_sig] 50 = Inr Secure"
proof -
  have c: "\<exists>cs. canonical_rrset [cut_record] (sample_signature 47) = Inr cs \<and> distinct (map cr_rdata cs)"
  proof -
    have "encode_wire (nsec_next_domain_name cut_nsec) [] = Inr [1, 101, 0]"
      using encode_wire_closed [OF cut_names(2)] by (simp add: cut_nsec_def wire_def ascii_def)
    then have "canonical_rdata cut_record = Inr [1, 101, 0, 0, 1, 0x20]"
      using cut_record_parses
      by (simp add: canonical_rdata_def canonical_nsec_rdata_def cut_record_def encode_canonical_name_def cut_nsec_def)
    then show ?thesis
      by (simp add: canonical_rrset_def canonical_owner_def encode_label_def ascii_def canonical_one_def
          sample_signature_def from_code_def cut_record_def)
  qed
  have "rr_name (hd [cut_record]) = [ascii ''d'']" "rr_class (hd [cut_record]) = 1" "rr_type (hd [cut_record]) = from_code 47"
    by (simp_all add: cut_record_def from_code_def)
  then have "signed_by sample_crypto [] [sample_key 7] [cut_record] [cut_sig] 50"
    unfolding cut_sig_def using c sample_signed_by by blast
  moreover have "rrsig_from_record cut_sig = Inr (sample_signature 47)"
    using sample_sig_parses [of 47] by (simp add: cut_sig_def sample_sig_def rrsig_from_record_def)
  ultimately show ?thesis by (simp add: validate_rrset_signature_Secure parses_def sample_key_parses)
qed

theorem parent_nsec_denies_child_zone_witness:
  "validate_nsec_name_error sample_crypto \<lparr>ne_signer_name = [], ne_dnskey_rrset = [sample_key 7],
      ne_query_name = [ascii ''www'', ascii ''d''], ne_closest_encloser = [ascii ''d''],
      ne_covering_nsec_rrset = [cut_record], ne_covering_nsec_rrsig_rrset = [cut_sig],
      ne_wildcard_nsec_rrset = [cut_record], ne_wildcard_nsec_rrsig_rrset = [cut_sig], ne_now = 50\<rparr> = Inr Secure"
proof (rule conjunct1 [OF parent_nsec_denies_child_zone [where n = cut_nsec and ty = TypeA, OF cut_set_validates]])
  show "nsec_has_type cut_nsec TypeNs = Inr True" "nsec_has_type cut_nsec TypeSoa = Inr False"
    "nsec_has_type cut_nsec TypeA = Inr False" "nsec_has_type cut_nsec TypeCname = Inr False"
    by (simp_all add: cut_types bitmap_lists_def bit_numeral_rec)
  show "canonical_name_cmp [ascii ''d''] (nsec_next_domain_name cut_nsec) = Less"
    "\<not> ends_with (nsec_next_domain_name cut_nsec) [ascii ''d'']"
    "is_strict_subdomain [ascii ''www'', ascii ''d''] [ascii ''d'']"
    by (simp_all add: canonical_name_cmp_iff cut_nsec_def ascii_def ends_with_def is_strict_subdomain_def)
qed (simp_all add: cut_record_parses cut_names, simp_all add: cut_record_def)

end
