(* ===== verification/Hns_Resolver.thy ===== *)
theory Hns_Resolver
  imports Proof_Sync Ttl_Cache
begin

text \<open>
  The resolvers of \<open>hns-resolver/src/lib.rs\<close> that rest on proven names: \<open>ResourceValueProofProvider\<close>,
  \<open>ProofBackedResolver\<close>, \<open>DelegatingResolver\<close> with the hydration of nameserver addresses, \<open>CompositeResolver\<close> and
  \<open>CachedResolver\<close>. The traits \<open>Resolver\<close>, \<open>DelegatedResolver\<close>, \<open>HnsProofProvider\<close> and \<open>HnsResourceValueProvider\<close> are
  functions on a world of any type.
\<close>

section \<open>Definitions\<close>

type_synonym 'w resolver = "resolution_request \<Rightarrow> 'w \<Rightarrow> (resolver_error + resolution_answer) \<times> 'w"
type_synonym 'w name_prover = "rust_str \<Rightarrow> hash \<Rightarrow> 'w \<Rightarrow> (resolver_error + proven_records) \<times> 'w"
type_synonym 'w value_prover = "rust_str \<Rightarrow> hash \<Rightarrow> 'w \<Rightarrow> (resolver_error + verified_value) \<times> 'w"

record hns_delegation =
  hd_root_name :: rust_str
  hd_owner :: dns_name
  hd_records :: "resource_record list"

type_synonym 'w delegated_resolver = "resolution_request \<Rightarrow> hns_delegation \<Rightarrow> 'w \<Rightarrow> (resolver_error + resolution_answer) \<times> 'w"

definition delegated_of_resolver :: "'w resolver \<Rightarrow> 'w delegated_resolver" where
  "delegated_of_resolver resolve request delegation = resolve request"

definition fail_closed_resolve :: "'w resolver" where
  "fail_closed_resolve request = io_pure (Inl UnsupportedBackend)"

definition composite_resolve :: "rust_str list \<Rightarrow> 'w resolver \<Rightarrow> 'w resolver \<Rightarrow> 'w resolver" where
  "composite_resolve tlds hns icann request =
     (case classify_name tlds (req_qname request) of
        ClassHns \<Rightarrow> hns request
      | ClassIcann \<Rightarrow> icann request
      | ClassSearch \<Rightarrow> io_pure (Inl UnsupportedBackend))"

subsection \<open>Records\<close>

definition filter_records :: "resource_record list \<Rightarrow> dns_name \<Rightarrow> u16 \<Rightarrow> resource_record list" where
  "filter_records records request_name qtype =
     (if qtype = 0xFFFF then records
      else filter (\<lambda>r. rr_name r = request_name \<and> rr_type r = from_code qtype) records)"

definition root_records_answer_request :: "dns_name \<Rightarrow> dns_name \<Rightarrow> u16 \<Rightarrow> bool" where
  "root_records_answer_request request_name root_owner qtype =
     (if request_name \<noteq> root_owner then False
      else if qtype = 0xFFFF then True
      else from_code qtype \<in> {TypeDs, TypeNs, TypeTxt})"

definition has_owner_record :: "resource_record list \<Rightarrow> dns_name \<Rightarrow> record_type \<Rightarrow> bool" where
  "has_owner_record records owner t = (\<exists>r\<in>set records. rr_name r = owner \<and> rr_type r = t)"

definition record_name_rdata :: "resource_record \<Rightarrow> dns_name option" where
  "record_name_rdata r =
     (case parse_wire (rr_rdata r) 0 of
        Inr (n, fin) \<Rightarrow> if fin = length (rr_rdata r) then Some n else None
      | Inl _ \<Rightarrow> None)"

text \<open>The names the NS records of an owner point to, each once, in order.\<close>

definition push_new :: "'a \<Rightarrow> 'a list \<Rightarrow> 'a list" where
  "push_new x xs = (if x \<in> set xs then xs else xs @ [x])"

definition ns_targets :: "dns_name \<Rightarrow> resource_record list \<Rightarrow> dns_name list" where
  "ns_targets owner records =
     fold push_new (List.map_filter record_name_rdata (filter (\<lambda>r. rr_name r = owner \<and> rr_type r = TypeNs) records)) []"

subsection \<open>Proof-backed resolution\<close>

definition value_prove_name :: "'w value_prover \<Rightarrow> 'w name_prover" where
  "value_prove_name prove_value root_name name_hash =
     io_then (prove_value root_name name_hash) (\<lambda>verified. io_pure (
     if vv_root_name verified \<noteq> root_name \<or> vv_name_hash verified \<noteq> name_hash \<or> \<not> vv_secure verified
     then Inl ProofNameMismatch
     else from_verified_resource_value verified))"

definition proven_mismatch :: "proven_records \<Rightarrow> rust_str \<Rightarrow> hash \<Rightarrow> bool" where
  "proven_mismatch proven root_name name_hash \<longleftrightarrow>
     pn_root_name proven \<noteq> root_name \<or> pn_name_hash proven \<noteq> name_hash \<or> \<not> pn_secure proven"

definition proof_backed_resolve :: "digest_fns \<Rightarrow> 'w name_prover \<Rightarrow> 'w resolver" where
  "proof_backed_resolve D prove request =
     io_then (io_pure (map_err (\<lambda>_. UnsupportedBackend) (from_ascii (req_qname request)))) (\<lambda>request_name.
     io_then (io_pure (resolver_root_label (req_qname request))) (\<lambda>root_name.
     io_then (io_pure (map_err InvalidName (name_hash_from_name D root_name))) (\<lambda>name_hash.
     io_then (prove root_name name_hash) (\<lambda>proven. io_pure (
     if proven_mismatch proven root_name name_hash then Inl ProofNameMismatch
     else if \<not> pn_exists proven then Inl NameNotFound
     else Inr \<lparr>ans_name = request_name, ans_records = filter_records (pn_records proven) request_name (req_qtype request),
               ans_secure = True\<rparr>)))))"

fun hydrate_loop ::
  "digest_fns \<Rightarrow> 'w name_prover \<Rightarrow> dns_name list \<Rightarrow> resource_record list \<Rightarrow> 'w \<Rightarrow> (resolver_error + resource_record list) \<times> 'w"
where
  "hydrate_loop D prove [] records w = (Inr records, w)"
| "hydrate_loop D prove (ns_name # names) records w =
     (if has_owner_record records ns_name TypeA \<or> has_owner_record records ns_name TypeAaaa \<or> ns_name = []
      then hydrate_loop D prove names records w else
      let ns_root = last ns_name in
      case name_hash_from_name D ns_root of
        Inl _ \<Rightarrow> hydrate_loop D prove names records w
      | Inr name_hash \<Rightarrow>
     (case prove ns_root name_hash w of
        (Inl e, w) \<Rightarrow> if e = ProofUnavailable then hydrate_loop D prove names records w else (Inl e, w)
      | (Inr proven, w) \<Rightarrow>
          if proven_mismatch proven ns_root name_hash then (Inl ProofNameMismatch, w)
          else if \<not> pn_exists proven then hydrate_loop D prove names records w
          else hydrate_loop D prove names
            (records @ filter (\<lambda>r. rr_name r = ns_name \<and> rr_type r \<in> {TypeA, TypeAaaa}) (pn_records proven)) w))"

definition hydrate_hns_nameserver_addresses ::
  "digest_fns \<Rightarrow> 'w name_prover \<Rightarrow> dns_name \<Rightarrow> resource_record list \<Rightarrow> 'w \<Rightarrow> (resolver_error + resource_record list) \<times> 'w"
where
  "hydrate_hns_nameserver_addresses D prove delegation_owner records =
     hydrate_loop D prove (ns_targets delegation_owner records) records"

definition delegating_resolve :: "digest_fns \<Rightarrow> 'w name_prover \<Rightarrow> 'w delegated_resolver \<Rightarrow> 'w resolver" where
  "delegating_resolve D prove resolve_delegated request =
     io_then (io_pure (map_err (\<lambda>_. UnsupportedBackend) (from_ascii (req_qname request)))) (\<lambda>request_name.
     io_then (io_pure (resolver_root_label (req_qname request))) (\<lambda>root_name.
     io_then (io_pure (map_err (\<lambda>_. UnsupportedBackend) (from_ascii root_name))) (\<lambda>root_owner.
     io_then (io_pure (map_err InvalidName (name_hash_from_name D root_name))) (\<lambda>name_hash.
     io_then (prove root_name name_hash) (\<lambda>proven.
     if proven_mismatch proven root_name name_hash then io_pure (Inl ProofNameMismatch)
     else if \<not> pn_exists proven then io_pure (Inl NameNotFound)
     else
       let direct_records = filter_records (pn_records proven) request_name (req_qtype request) in
       if request_name = root_owner \<and> direct_records \<noteq> [] \<or>
          root_records_answer_request request_name root_owner (req_qtype request) \<or>
          \<not> has_owner_record (pn_records proven) root_owner TypeNs
       then io_pure (Inr \<lparr>ans_name = request_name, ans_records = direct_records, ans_secure = True\<rparr>)
       else
         io_then (hydrate_hns_nameserver_addresses D prove root_owner (pn_records proven)) (\<lambda>delegation_records.
         io_then (resolve_delegated request
             \<lparr>hd_root_name = root_name, hd_owner = root_owner, hd_records = delegation_records\<rparr>) (\<lambda>delegated. io_pure (
         if \<not> has_owner_record delegation_records root_owner TypeDs then Inr (delegated\<lparr>ans_secure := False\<rparr>)
         else if \<not> ans_secure delegated then Inl DnssecFailed
         else Inr delegated))))))))"

subsection \<open>The resolution cache\<close>

datatype cached_resolution = CachedAnswer resolution_answer | CachedNameNotFound

fun into_result :: "cached_resolution \<Rightarrow> resolver_error + resolution_answer" where
  "into_result (CachedAnswer a) = Inr a"
| "into_result CachedNameNotFound = Inl NameNotFound"

text \<open>
  The cache behind its lock: \<open>None\<close> after a panic while the lock was held. \<open>Instant::now()\<close> reads the world; the sum of
  an instant and the lifetime panics above the platform's limit.
\<close>

record 'w cached_resolver =
  cr_cache :: "(resolution_request, cached_resolution) ttl_cache option"
  cr_world :: 'w

definition cached_resolver_new :: "nat \<Rightarrow> 'w \<Rightarrow> 'w cached_resolver" where
  "cached_resolver_new cap w = \<lparr>cr_cache = Some (cache_new cap), cr_world = w\<rparr>"

definition cached_store ::
  "nat \<Rightarrow> nat \<Rightarrow> ('w \<Rightarrow> nat \<times> 'w) \<Rightarrow> resolution_request \<Rightarrow> cached_resolution \<Rightarrow> 'w cached_resolver \<Rightarrow>
   (resolver_error fault + resolution_answer) \<times> 'w cached_resolver"
where
  "cached_store limit ttl clock request r st =
     (case cr_cache st of
        None \<Rightarrow> (Inl (Err CachePoisoned), st)
      | Some c \<Rightarrow>
          (let (now, w) = clock (cr_world st); (now', w) = clock w in
           case cache_insert limit now now' request r ttl c of
             None \<Rightarrow> (Inl Panic, st\<lparr>cr_cache := None, cr_world := w\<rparr>)
           | Some c \<Rightarrow> (map_err Err (into_result r), st\<lparr>cr_cache := Some c, cr_world := w\<rparr>)))"

definition cached_resolve ::
  "nat \<Rightarrow> nat \<Rightarrow> ('w \<Rightarrow> nat \<times> 'w) \<Rightarrow> 'w resolver \<Rightarrow> resolution_request \<Rightarrow> 'w cached_resolver \<Rightarrow>
   (resolver_error fault + resolution_answer) \<times> 'w cached_resolver"
where
  "cached_resolve limit ttl clock inner request st =
     (case cr_cache st of
        None \<Rightarrow> (Inl (Err CachePoisoned), st)
      | Some c \<Rightarrow>
     (let (now, w) = clock (cr_world st); (hit, c) = cache_get now request c in
      case hit of
        Some r \<Rightarrow> (map_err Err (into_result r), st\<lparr>cr_cache := Some c, cr_world := w\<rparr>)
      | None \<Rightarrow>
     (case inner request w of
        (Inr answer, w) \<Rightarrow> cached_store limit ttl clock request (CachedAnswer answer) (st\<lparr>cr_cache := Some c, cr_world := w\<rparr>)
      | (Inl e, w) \<Rightarrow>
          if e = NameNotFound
          then cached_store limit ttl clock request CachedNameNotFound (st\<lparr>cr_cache := Some c, cr_world := w\<rparr>)
          else (Inl (Err e), st\<lparr>cr_cache := Some c, cr_world := w\<rparr>))))"

section \<open>Lemmas\<close>

lemma io_pure_then [simp]: "io_then (io_pure (Inr x)) f = f x" "io_then (io_pure (Inl e)) f = io_pure (Inl e)"
  by (simp_all add: io_then_def io_pure_def fun_eq_iff)

lemma io_pure_cases [simp]:
  "io_pure r w = (Inr x, w') \<longleftrightarrow> r = Inr x \<and> w' = w" "io_pure r w = (Inl e, w') \<longleftrightarrow> r = Inl e \<and> w' = w"
  by auto

declare io_pure_eq [simp del]

subsection \<open>Proof-backed resolution\<close>

lemma value_prove_Inr:
  "value_prove_name prove_value root h w = (Inr proven, w') \<longleftrightarrow>
     (\<exists>v. prove_value root h w = (Inr v, w') \<and> vv_root_name v = root \<and> vv_name_hash v = h \<and> vv_secure v \<and>
       from_verified_resource_value v = Inr proven)"
  by (auto simp: value_prove_name_def io_then_Inr split: if_splits)

lemma proof_backed_Inr:
  "proof_backed_resolve D prove request w = (Inr a, w') \<longleftrightarrow>
     (\<exists>n root h proven. from_ascii (req_qname request) = Inr n \<and> resolver_root_label (req_qname request) = Inr root \<and>
        name_hash_from_name D root = Inr h \<and> prove root h w = (Inr proven, w') \<and>
        \<not> proven_mismatch proven root h \<and> pn_exists proven \<and>
        a = \<lparr>ans_name = n, ans_records = filter_records (pn_records proven) n (req_qtype request), ans_secure = True\<rparr>)"
  by (auto simp: proof_backed_resolve_def io_then_Inr split: if_splits)

text \<open>What the memory provider answers for a name whose value was just stored.\<close>

lemma memory_prove_stored:
  assumes "memory_insert D v vs = (Inr (), vs')" "resolver_root_label input = Inr (vv_root_name v)"
    and "name_hash_from_name D (vv_root_name v) = Inr (vv_name_hash v)"
  shows "memory_prove D (vv_root_name v) (vv_name_hash v) vs' = (Inr v, vs')"
proof -
  have root: "resolver_root_label (vv_root_name v) = Inr (vv_root_name v)" using root_label_idem [OF assms(2)] .
  from assms(1) obtain v' where v': "normalize_verified_value D v = Inr v'"
    "vs' = vs((vv_root_name v', vv_name_hash v') \<mapsto> v')" by (auto simp: memory_insert_Inr)
  have "v' = v" using v'(1) root assms(3) by (auto simp: normalize_verified_value_def)
  then show ?thesis using v'(2) root assms(3) by (simp add: memory_prove_def ok_or_def)
qed

subsection \<open>Delegation\<close>

lemma delegating_proven:
  assumes "from_ascii (req_qname request) = Inr n" "resolver_root_label (req_qname request) = Inr root"
    and "name_hash_from_name D root = Inr h"
  shows "delegating_resolve D prove rd request w =
    (case prove root h w of
       (Inl e, w) \<Rightarrow> (Inl e, w)
     | (Inr proven, w) \<Rightarrow>
         let direct = filter_records (pn_records proven) n (req_qtype request) in
         if proven_mismatch proven root h then (Inl ProofNameMismatch, w)
         else if \<not> pn_exists proven then (Inl NameNotFound, w)
         else if n = [root] \<and> direct \<noteq> [] \<or> root_records_answer_request n [root] (req_qtype request) \<or>
             \<not> has_owner_record (pn_records proven) [root] TypeNs
         then (Inr \<lparr>ans_name = n, ans_records = direct, ans_secure = True\<rparr>, w)
         else io_then (hydrate_hns_nameserver_addresses D prove [root] (pn_records proven)) (\<lambda>recs.
           io_then (rd request \<lparr>hd_root_name = root, hd_owner = [root], hd_records = recs\<rparr>) (\<lambda>delegated. io_pure (
             if \<not> has_owner_record recs [root] TypeDs then Inr (delegated\<lparr>ans_secure := False\<rparr>)
             else if \<not> ans_secure delegated then Inl DnssecFailed
             else Inr delegated))) w)"
proof -
  have owner: "from_ascii root = Inr [root]" using handshake_name_from_ascii [OF root_label_valid [OF assms(2)]] .
  obtain r w1 where "prove root h w = (r, w1)" by force
  with assms owner show ?thesis
    by (cases r) (auto simp: delegating_resolve_def io_then_def [of "prove root h"] io_pure_def Let_def)
qed

text \<open>Hydration appends address records that a secure proof of their own root name holds, and nothing else.\<close>

definition hydrated :: "digest_fns \<Rightarrow> 'w name_prover \<Rightarrow> resource_record \<Rightarrow> bool" where
  "hydrated D prove r \<longleftrightarrow> rr_type r \<in> {TypeA, TypeAaaa} \<and> rr_name r \<noteq> [] \<and>
     (\<exists>h proven w w'. name_hash_from_name D (last (rr_name r)) = Inr h \<and>
        prove (last (rr_name r)) h w = (Inr proven, w') \<and> \<not> proven_mismatch proven (last (rr_name r)) h \<and>
        pn_exists proven \<and> r \<in> set (pn_records proven))"

lemma hydrate_loop_adds:
  "hydrate_loop D prove names records w = (Inr out, w') \<Longrightarrow>
     \<exists>more_records. out = records @ more_records \<and> list_all (hydrated D prove) more_records"
proof (induction names arbitrary: records w)
  case (Cons ns names)
  show ?case
  proof (cases "has_owner_record records ns TypeA \<or> has_owner_record records ns TypeAaaa \<or> ns = []")
    case True
    with Cons show ?thesis by simp
  next
    case skip: False
    show ?thesis
    proof (cases "name_hash_from_name D (last ns)")
      case (Inl e)
      with skip Cons show ?thesis by simp
    next
      case hash: (Inr h)
      obtain r w1 where p: "prove (last ns) h w = (r, w1)" by force
      show ?thesis
      proof (cases r)
        case (Inl e)
        with skip hash p Cons show ?thesis by (simp split: if_splits)
      next
        case (Inr proven)
        let ?new = "filter (\<lambda>r. rr_name r = ns \<and> rr_type r \<in> {TypeA, TypeAaaa}) (pn_records proven)"
        have ok: "\<not> proven_mismatch proven (last ns) h" using Cons.prems skip hash p Inr by (simp split: if_splits)
        show ?thesis
        proof (cases "pn_exists proven")
          case False
          with skip hash p Inr ok Cons show ?thesis by simp
        next
          case True
          have "list_all (hydrated D prove) ?new"
            using skip hash p Inr ok True unfolding list_all_iff hydrated_def by auto
          moreover have "hydrate_loop D prove names (records @ ?new) w1 = (Inr out, w')"
            using Cons.prems skip hash p Inr ok True by simp
          ultimately show ?thesis using Cons.IH [of "records @ ?new" w1] by fastforce
        qed
      qed
    qed
  qed
qed simp

lemma hydrated_no_ds:
  assumes "list_all (hydrated D prove) more_records"
  shows "has_owner_record (records @ more_records) owner TypeDs = has_owner_record records owner TypeDs"
  using assms by (auto simp: has_owner_record_def list_all_iff hydrated_def)

subsection \<open>The resolution cache\<close>

text \<open>The inner resolver answered a request, and the clock then read \<open>t\<close> for the expiry.\<close>

definition given ::
  "('w \<Rightarrow> nat \<times> 'w) \<Rightarrow> 'w resolver \<Rightarrow> resolution_request \<Rightarrow> resolver_error + resolution_answer \<Rightarrow> nat \<Rightarrow> bool"
where
  "given clock inner request r t \<longleftrightarrow>
     (\<exists>w w1 now w2 w3. inner request w = (r, w1) \<and> clock w1 = (now, w2) \<and> clock w2 = (t, w3))"

definition cache_given ::
  "nat \<Rightarrow> ('w \<Rightarrow> nat \<times> 'w) \<Rightarrow> 'w resolver \<Rightarrow> (resolution_request, cached_resolution) ttl_cache \<Rightarrow> bool"
where
  "cache_given ttl clock inner c \<longleftrightarrow>
     (\<forall>k e. (k, e) \<in> set (entries c) \<longrightarrow>
       (\<exists>t. given clock inner k (into_result (entry_value e)) t \<and> expires_at e = t + ttl))"

inductive cached_reachable ::
  "nat \<Rightarrow> nat \<Rightarrow> ('w \<Rightarrow> nat \<times> 'w) \<Rightarrow> 'w resolver \<Rightarrow> nat \<Rightarrow> 'w cached_resolver \<Rightarrow> bool"
  for limit ttl clock inner cap where
  cached_start: "cached_reachable limit ttl clock inner cap (cached_resolver_new cap w)"
| cached_step: "\<lbrakk>cached_reachable limit ttl clock inner cap st; cached_resolve limit ttl clock inner request st = (r, st')\<rbrakk> \<Longrightarrow>
     cached_reachable limit ttl clock inner cap st'"

lemma prune_subset: "set (entries (prune_expired now c)) \<subseteq> set (entries c)"
  by (auto simp: prune_expired_def Let_def)

lemma cache_get_subset:
  assumes "cache_get now k c = (r, c')"
  shows "set (entries c') \<subseteq> set (entries c)" "r = Some v \<Longrightarrow> \<exists>e. (k, e) \<in> set (entries c) \<and> now < expires_at e \<and> entry_value e = v"
  using assms prune_subset [of now c]
  by (auto simp: cache_get_def Let_def promote_def prune_expired_def dest!: map_of_SomeD split: option.splits)

lemma evict_loop_subset: "set (fst (evict_loop n es ks)) \<subseteq> set es"
  by (induction n es ks rule: evict_loop.induct) (auto simp: AList.delete_eq)

lemma update_subset: "set (AList.update k e es) \<subseteq> insert (k, e) (set es)"
  by (induction es) auto

lemma cache_insert_subset:
  assumes "cache_insert limit now now' k v ttl c = Some c'"
  shows "set (entries c') \<subseteq> insert (k, \<lparr>entry_value = v, expires_at = now' + ttl\<rparr>) (set (entries c))"
proof -
  let ?p = "prune_expired now c"
  let ?es = "AList.update k \<lparr>entry_value = v, expires_at = now' + ttl\<rparr> (entries ?p)"
  let ?ks = "filter (\<lambda>x. x \<noteq> k) (order ?p) @ [k]"
  have "entries c' = fst (evict_loop (max_entries ?p) ?es ?ks)"
    using assms by (cases "evict_loop (max_entries ?p) ?es ?ks")
      (auto simp: cache_insert_def instant_add_def Let_def promote_def evict_over_limit_def split: if_splits)
  then have "set (entries c') \<subseteq> set ?es" using evict_loop_subset by metis
  also have "\<dots> \<subseteq> insert (k, \<lparr>entry_value = v, expires_at = now' + ttl\<rparr>) (set (entries ?p))" by (rule update_subset)
  also have "\<dots> \<subseteq> insert (k, \<lparr>entry_value = v, expires_at = now' + ttl\<rparr>) (set (entries c))"
    using prune_subset [of now c] by auto
  finally show ?thesis .
qed

lemma cached_store_given:
  assumes "cached_store limit ttl clock request x st = (r, st')"
    and "\<And>c. cr_cache st = Some c \<Longrightarrow> cache_given ttl clock inner c"
    and "\<And>now w1 t w2. \<lbrakk>clock (cr_world st) = (now, w1); clock w1 = (t, w2)\<rbrakk> \<Longrightarrow> given clock inner request (into_result x) t"
    and "cr_cache st' = Some c'"
  shows "cache_given ttl clock inner c'"
proof (cases "cr_cache st")
  case None
  with assms(1,4) show ?thesis by (simp add: cached_store_def)
next
  case (Some c)
  obtain now w1 t w2 where t: "clock (cr_world st) = (now, w1)" "clock w1 = (t, w2)" by (meson surj_pair)
  then have "cache_insert limit now t request x ttl c = Some c'"
    using assms(1,4) Some by (auto simp: cached_store_def Let_def split: option.splits)
  from cache_insert_subset [OF this] assms(2) [OF Some] assms(3) [OF t] show ?thesis by (fastforce simp: cache_given_def)
qed

lemma cached_resolve_given:
  assumes "cached_resolve limit ttl clock inner request st = (r, st')"
    and "\<And>c. cr_cache st = Some c \<Longrightarrow> cache_given ttl clock inner c" and "cr_cache st' = Some c'"
  shows "cache_given ttl clock inner c'"
proof (cases "cr_cache st")
  case None
  with assms(1,3) show ?thesis by (simp add: cached_resolve_def)
next
  case (Some c)
  obtain now w where now: "clock (cr_world st) = (now, w)" by force
  obtain hit c1 where hit: "cache_get now request c = (hit, c1)" by force
  have c1: "cache_given ttl clock inner c1"
    using cache_get_subset(1) [OF hit] assms(2) [OF Some] unfolding cache_given_def by blast
  show ?thesis
  proof (cases hit)
    case h: (Some x)
    with assms(1,3) Some now hit c1 show ?thesis by (auto simp: cached_resolve_def Let_def)
  next
    case None
    obtain x w1 where x: "inner request w = (x, w1)" by force
    have given: "given clock inner request x t" if "clock w1 = (n, w2)" "clock w2 = (t, w3)" for n w2 t w3
      unfolding given_def using x that by blast
    show ?thesis
    proof (cases x)
      case (Inr a)
      then have st: "cached_store limit ttl clock request (CachedAnswer a) (st\<lparr>cr_cache := Some c1, cr_world := w1\<rparr>) = (r, st')"
        using assms(1) Some now hit None x by (simp add: cached_resolve_def Let_def)
      show ?thesis by (rule cached_store_given [OF st _ _ assms(3)]) (use c1 given Inr in auto)
    next
      case (Inl e)
      show ?thesis
      proof (cases "e = NameNotFound")
        case True
        then have st: "cached_store limit ttl clock request CachedNameNotFound (st\<lparr>cr_cache := Some c1, cr_world := w1\<rparr>) = (r, st')"
          using assms(1) Some now hit None x Inl by (simp add: cached_resolve_def Let_def)
        show ?thesis by (rule cached_store_given [OF st _ _ assms(3)]) (use c1 given Inl True in auto)
      next
        case False
        with assms(1,3) Some now hit None x Inl c1 show ?thesis by (auto simp: cached_resolve_def Let_def)
      qed
    qed
  qed
qed

lemma cached_reachable_given:
  "\<lbrakk>cached_reachable limit ttl clock inner cap st; cr_cache st = Some c\<rbrakk> \<Longrightarrow> cache_given ttl clock inner c"
proof (induction arbitrary: c rule: cached_reachable.induct)
  case (cached_start w)
  then show ?case by (auto simp: cached_resolver_new_def cache_new_def cache_given_def)
next
  case (cached_step st request r st')
  then show ?case using cached_resolve_given by blast
qed

section \<open>Properties\<close>

text \<open>Proof-backed resolution answers from the proof and nothing else: an answer is secure and holds exactly the records
  of the requested name and type that decode from the value the provider proved for the root label of the request.\<close>

theorem proof_backed_sound:
  assumes "proof_backed_resolve D (value_prove_name prove_value) request w = (Inr a, w')"
  shows "\<exists>n root h v d rs. from_ascii (req_qname request) = Inr n \<and> resolver_root_label (req_qname request) = Inr root \<and>
    name_hash_from_name D root = Inr h \<and> prove_value root h w = (Inr v, w') \<and>
    vv_root_name v = root \<and> vv_name_hash v = h \<and> vv_secure v \<and> vv_value v = Some d \<and>
    decode_handshake_resource_records [root] d = Inr rs \<and>
    a = \<lparr>ans_name = n, ans_records = filter_records rs n (req_qtype request), ans_secure = True\<rparr>"
proof -
  from assms obtain n root h proven where p: "from_ascii (req_qname request) = Inr n"
    "resolver_root_label (req_qname request) = Inr root" "name_hash_from_name D root = Inr h"
    "value_prove_name prove_value root h w = (Inr proven, w')" "pn_exists proven"
    "a = \<lparr>ans_name = n, ans_records = filter_records (pn_records proven) n (req_qtype request), ans_secure = True\<rparr>"
    unfolding proof_backed_Inr by blast
  from p(4) obtain v where v: "prove_value root h w = (Inr v, w')" "vv_root_name v = root" "vv_name_hash v = h" "vv_secure v"
    "from_verified_resource_value v = Inr proven" by (auto simp: value_prove_Inr)
  have "from_ascii root = Inr [root]" using handshake_name_from_ascii [OF root_label_valid [OF p(2)]] .
  then obtain d where "vv_value v = Some d" "decode_handshake_resource_records [root] d = Inr (pn_records proven)"
    using v(2,5) p(5) by (auto simp: from_verified_resource_value_def and_then_Inr split: option.splits)
  with p v show ?thesis by blast
qed

text \<open>C7.  A delegation never makes an answer more secure than its proof: a secure answer is either read off the proven records
  themselves, or the delegated resolver called it secure and the proven records hold a DS record of the root name; the
  records handed to the delegated resolver are the proven ones and address records from secure proofs of the
  nameservers' own root names.\<close>

theorem delegation_never_upgrades:
  assumes "delegating_resolve D prove rd request w = (Inr a, w')" "ans_secure a"
  shows "\<exists>n root h proven w1. from_ascii (req_qname request) = Inr n \<and> resolver_root_label (req_qname request) = Inr root \<and>
    name_hash_from_name D root = Inr h \<and> prove root h w = (Inr proven, w1) \<and> pn_secure proven \<and> pn_exists proven \<and>
    (a = \<lparr>ans_name = n, ans_records = filter_records (pn_records proven) n (req_qtype request), ans_secure = True\<rparr> \<or>
     has_owner_record (pn_records proven) [root] TypeDs \<and>
     (\<exists>more_records w2. list_all (hydrated D prove) more_records \<and>
        rd request \<lparr>hd_root_name = root, hd_owner = [root], hd_records = pn_records proven @ more_records\<rparr> w2 = (Inr a, w')))"
proof -
  obtain n where n: "from_ascii (req_qname request) = Inr n"
    using assms(1) by (cases "from_ascii (req_qname request)") (simp_all add: delegating_resolve_def)
  obtain root where root: "resolver_root_label (req_qname request) = Inr root"
    using assms(1) n by (cases "resolver_root_label (req_qname request)") (simp_all add: delegating_resolve_def)
  have owner: "from_ascii root = Inr [root]" using handshake_name_from_ascii [OF root_label_valid [OF root]] .
  obtain h where h: "name_hash_from_name D root = Inr h"
    using assms(1) n root owner by (cases "name_hash_from_name D root") (simp_all add: delegating_resolve_def)
  obtain r w1 where pr: "prove root h w = (r, w1)" by force
  note run = assms(1) [unfolded delegating_proven [OF n root h] pr prod.case]
  obtain proven where proven: "r = Inr proven" using run by (cases r) simp_all
  note p = n root h pr [unfolded proven] and run = run [unfolded proven sum.case Let_def]
  let ?direct = "\<lparr>ans_name = n, ans_records = filter_records (pn_records proven) n (req_qtype request), ans_secure = True\<rparr>"
  have ok: "\<not> proven_mismatch proven root h" "pn_exists proven" using run by (simp_all split: if_splits)
  then have sec: "pn_secure proven" by (simp add: proven_mismatch_def)
  have "a = ?direct \<or> (\<exists>recs w2 a0. hydrate_hns_nameserver_addresses D prove [root] (pn_records proven) w1 = (Inr recs, w2) \<and>
      rd request \<lparr>hd_root_name = root, hd_owner = [root], hd_records = recs\<rparr> w2 = (Inr a0, w') \<and>
      (if \<not> has_owner_record recs [root] TypeDs then a = a0\<lparr>ans_secure := False\<rparr> else ans_secure a0 \<and> a = a0))"
  proof (cases "n = [root] \<and> ans_records ?direct \<noteq> [] \<or> root_records_answer_request n [root] (req_qtype request) \<or>
      \<not> has_owner_record (pn_records proven) [root] TypeNs")
    case True
    with run ok show ?thesis by auto
  next
    case False
    have "io_then (hydrate_hns_nameserver_addresses D prove [root] (pn_records proven)) (\<lambda>recs.
        io_then (rd request \<lparr>hd_root_name = root, hd_owner = [root], hd_records = recs\<rparr>) (\<lambda>delegated. io_pure (
          if \<not> has_owner_record recs [root] TypeDs then Inr (delegated\<lparr>ans_secure := False\<rparr>)
          else if \<not> ans_secure delegated then Inl DnssecFailed
          else Inr delegated))) w1 = (Inr a, w')" using run ok False by (auto split: if_splits)
    then obtain recs w2 a0 where "hydrate_hns_nameserver_addresses D prove [root] (pn_records proven) w1 = (Inr recs, w2)"
      "rd request \<lparr>hd_root_name = root, hd_owner = [root], hd_records = recs\<rparr> w2 = (Inr a0, w')"
      "(if \<not> has_owner_record recs [root] TypeDs then Inr (a0\<lparr>ans_secure := False\<rparr>)
          else if \<not> ans_secure a0 then Inl DnssecFailed else Inr a0) = (Inr a :: resolver_error + resolution_answer)"
      unfolding io_then_Inr io_pure_cases by blast
    then show ?thesis by (intro disjI2 exI conjI) (auto split: if_splits)
  qed
  then show ?thesis
  proof (elim disjE exE conjE)
    fix recs w2 a0
    assume hyd: "hydrate_hns_nameserver_addresses D prove [root] (pn_records proven) w1 = (Inr recs, w2)"
      and rd: "rd request \<lparr>hd_root_name = root, hd_owner = [root], hd_records = recs\<rparr> w2 = (Inr a0, w')"
      and a: "if \<not> has_owner_record recs [root] TypeDs then a = a0\<lparr>ans_secure := False\<rparr> else ans_secure a0 \<and> a = a0"
    obtain more_records where m: "recs = pn_records proven @ more_records" "list_all (hydrated D prove) more_records"
      using hydrate_loop_adds [OF hyd [unfolded hydrate_hns_nameserver_addresses_def]] by blast
    have "has_owner_record recs [root] TypeDs" "a = a0" using a assms(2) by (auto split: if_splits)
    then have "has_owner_record (pn_records proven) [root] TypeDs" using hydrated_no_ds [OF m(2)] m(1) by simp
    moreover have "rd request \<lparr>hd_root_name = root, hd_owner = [root], hd_records = pn_records proven @ more_records\<rparr> w2 =
        (Inr a, w')" using rd m(1) \<open>a = a0\<close> by simp
    ultimately show ?thesis using p ok(2) sec m(2) by (intro exI conjI disjI2) assumption+
  next
    assume "a = ?direct"
    then show ?thesis using p ok(2) sec by (intro exI conjI disjI1) assumption+
  qed
qed

text \<open>C21.  The resolution cache is transparent: what a caching resolver answers is what its inner resolver answers to the same
  request, now or at a time whose expiry has not come, in which case it was an answer or the absence of the name; every
  other error comes from the inner resolver at once, and after a panic in the cache every request fails.\<close>

theorem cached_answers_fresh:
  assumes "cached_reachable limit ttl clock inner cap st" "cached_resolve limit ttl clock inner request st = (r, st')"
  shows "r = Inl Panic \<and> cr_cache st' = None \<or>
    (\<exists>r0. r = map_err Err r0 \<and>
      (r0 = Inl CachePoisoned \<and> cr_cache st = None \<or>
       (\<exists>w. inner request (snd (clock (cr_world st))) = (r0, w)) \<or>
       (\<exists>t. given clock inner request r0 t \<and> fst (clock (cr_world st)) < t + ttl \<and> r0 \<in> insert (Inl NameNotFound) (range Inr))))"
proof (cases "cr_cache st")
  case None
  with assms(2) show ?thesis by (intro disjI2 exI [of _ "Inl CachePoisoned"]) (simp add: cached_resolve_def)
next
  case (Some c)
  obtain now w where now: "clock (cr_world st) = (now, w)" by force
  obtain hit c1 where hit: "cache_get now request c = (hit, c1)" by force
  show ?thesis
  proof (cases hit)
    case h: (Some x)
    then obtain e where e: "(request, e) \<in> set (entries c)" "now < expires_at e" "entry_value e = x"
      using cache_get_subset(2) [OF hit] by blast
    then obtain t where "given clock inner request (into_result x) t" "now < t + ttl"
      using cached_reachable_given [OF assms(1) Some] unfolding cache_given_def by metis
    moreover have "r = map_err Err (into_result x)" using assms(2) Some now hit h by (simp add: cached_resolve_def)
    moreover have "into_result x \<in> insert (Inl NameNotFound) (range Inr)" by (cases x) simp_all
    ultimately show ?thesis using now by (intro disjI2 exI [of _ "into_result x"]) auto
  next
    case None
    obtain x w1 where x: "inner request w = (x, w1)" by force
    have "r = Inl Panic \<and> cr_cache st' = None \<or> r = map_err Err x"
      using assms(2) Some now hit None x
      by (cases x) (auto simp: cached_resolve_def cached_store_def split: prod.splits option.splits if_splits)
    then show ?thesis using now x by auto
  qed
qed

text \<open>C6.  From the peer to the answer: when a fresh scheduler has fetched the proof of a name into the memory provider, the
  proof-backed resolver answers every request below that name from it, with the records of the value in the proven
  name state, or with the absence of the name if the accepted proof shows that.\<close>

theorem fetched_name_resolves:
  assumes "co_verify (sc_coordinator sc) = urkel_verifier_verify D" "co_pending (sc_coordinator sc) = {}"
    and "request_hash_and_store (memory_insert D) q s sc c = (Inr result, s', sc', c')"
    and "from_ascii (req_qname request) = Inr n" "resolver_root_label (req_qname request) = Inr (qy_root_name q)"
    and "name_hash_from_name D (qy_root_name q) = Inr (qy_name_hash q)"
  shows "(\<exists>p. proof_shows (urkel_verifier_verify D) (qy_root q) (qy_name_hash q) (pv_value result) p) \<and>
    (let answer = fst (proof_backed_resolve D (value_prove_name (memory_prove D)) request (sc_sink sc')) in
     case pv_value result of
       None \<Rightarrow> answer = Inl NameNotFound
     | Some state_value \<Rightarrow>
         \<exists>d. sync_name_state_value (qy_root_name q) state_value = Inr d \<and>
           answer = and_then (map_err InvalidResource (decode_handshake_resource_records [qy_root_name q] d)) (\<lambda>rs.
             Inr \<lparr>ans_name = n, ans_records = filter_records rs n (req_qtype request), ans_secure = True\<rparr>))"
proof -
  from request_settled [OF assms(3,2)] obtain p v where
    p: "proof_shows (urkel_verifier_verify D) (qy_root q) (qy_name_hash q) (pv_value result) p"
    and v: "stored_for q (pv_value result) v" "memory_insert D v (sc_sink sc) = (Inr (), sc_sink sc')"
    by (auto simp: settled_def assms(1))
  have names: "vv_root_name v = qy_root_name q" "vv_name_hash v = qy_name_hash q" "vv_secure v"
    using v(1) by (simp_all add: stored_for_def)
  have mem: "memory_prove D (qy_root_name q) (qy_name_hash q) (sc_sink sc') = (Inr v, sc_sink sc')"
    using memory_prove_stored [OF v(2), of "req_qname request"] assms(5,6) names by simp
  have owner: "from_ascii (qy_root_name q) = Inr [qy_root_name q]"
    using handshake_name_from_ascii [OF root_label_valid [OF assms(5)]] .
  have prove: "value_prove_name (memory_prove D) (qy_root_name q) (qy_name_hash q) (sc_sink sc') =
      (from_verified_resource_value v, sc_sink sc')"
    using mem names by (simp add: value_prove_name_def io_then_def io_pure_def)
  have run: "fst (proof_backed_resolve D (value_prove_name (memory_prove D)) request (sc_sink sc')) =
      and_then (from_verified_resource_value v) (\<lambda>proven.
        if proven_mismatch proven (qy_root_name q) (qy_name_hash q) then Inl ProofNameMismatch
        else if \<not> pn_exists proven then Inl NameNotFound
        else Inr \<lparr>ans_name = n, ans_records = filter_records (pn_records proven) n (req_qtype request), ans_secure = True\<rparr>)"
    using assms(4-6) prove
    by (cases "from_verified_resource_value v") (simp_all add: proof_backed_resolve_def io_then_def io_pure_def)
  show ?thesis
  proof (cases "pv_value result")
    case None
    then show ?thesis
      using p v(1) run names by (auto simp: stored_for_def from_verified_resource_value_def proven_mismatch_def Let_def)
  next
    case (Some sv)
    then obtain d where d: "vv_value v = Some d" "sync_name_state_value (qy_root_name q) sv = Inr d"
      using v(1) by (auto simp: stored_for_def)
    have "fst (proof_backed_resolve D (value_prove_name (memory_prove D)) request (sc_sink sc')) =
        and_then (map_err InvalidResource (decode_handshake_resource_records [qy_root_name q] d)) (\<lambda>rs.
          Inr \<lparr>ans_name = n, ans_records = filter_records rs n (req_qtype request), ans_secure = True\<rparr>)"
      using run names owner d
      by (cases "decode_handshake_resource_records [qy_root_name q] d")
        (simp_all add: from_verified_resource_value_def proven_mismatch_def)
    with Some p d(2) show ?thesis unfolding Let_def by auto
  qed
qed

section \<open>Witnesses\<close>

definition sample_request :: "u16 \<Rightarrow> resolution_request" where
  "sample_request qtype = \<lparr>req_qname = [97], req_qtype = qtype\<rparr>"

definition sample_name_hash :: hash where
  "sample_name_hash = sha3_256 sample_digests [[97]]"

lemma sample_name_ok: "handshake_name_ok [97]"
  by (simp add: handshake_name_ok_def name_char_def name_edge_char_def is_ascii_lower_def is_ascii_digit_def
      name_blacklist_def ascii_def)

lemma sample_name_facts [simp]:
  "from_ascii [97] = Inr [[97]]" "resolver_root_label [97] = Inr [97]"
  "name_hash_from_name sample_digests [97] = Inr sample_name_hash" "length sample_name_hash = 32"
proof -
  have "validate_handshake_name [97] = Inr ()" using sample_name_ok handshake_name_exact [of "[97]"] by simp
  then show "name_hash_from_name sample_digests [97] = Inr sample_name_hash"
    by (simp add: name_hash_from_name_def sample_name_hash_def)
qed (use handshake_name_from_ascii [OF sample_name_ok] root_label_self [OF sample_name_ok] in
    \<open>simp_all add: sample_name_hash_def sha3_256_def sample_digests_def pad_digest_def\<close>)

definition sample_records :: "resource_record list" where
  "sample_records = [\<lparr>rr_name = [[97]], rr_type = TypeNs, rr_class = 1, rr_ttl = 0, rr_rdata = []\<rparr>,
     \<lparr>rr_name = [[97]], rr_type = TypeDs, rr_class = 1, rr_ttl = 0, rr_rdata = []\<rparr>]"

definition sample_prove :: "unit name_prover" where
  "sample_prove root h = io_pure (Inr \<lparr>pn_root_name = root, pn_name_hash = h, pn_records = sample_records, pn_secure = True,
     pn_exists = True\<rparr>)"

definition sample_value :: "unit value_prover" where
  "sample_value root h = io_pure (Inr (verified_inclusion root h [0]))"

lemma sample_decodes: "decode_handshake_resource_records owner [0] = Inr []"
  by (simp add: decode_handshake_resource_records_def decode_handshake_resource_records_with_ttl_def rc_new_def rc_read_u8_def
      get_byte_def RESOURCE_VERSION_def, subst decode_loop.simps, simp add: rc_remaining_def)

theorem proof_backed_sound_witness:
  "\<exists>a. proof_backed_resolve sample_digests (value_prove_name sample_value) (sample_request 1) () = (Inr a, ()) \<and>
     (\<exists>n root h v d rs. from_ascii [97] = Inr n \<and> name_hash_from_name sample_digests root = Inr h \<and>
        sample_value root h () = (Inr v, ()) \<and> vv_value v = Some d \<and> decode_handshake_resource_records [root] d = Inr rs \<and>
        a = \<lparr>ans_name = n, ans_records = filter_records rs n 1, ans_secure = True\<rparr>)"
proof -
  have "value_prove_name sample_value root h () = (Inr \<lparr>pn_root_name = root, pn_name_hash = h, pn_records = [], pn_secure = True,
      pn_exists = True\<rparr>, ())" if "root = [97]" for root h
    using that by (simp add: value_prove_Inr sample_value_def verified_inclusion_def from_verified_resource_value_def sample_decodes)
  then obtain a where a: "proof_backed_resolve sample_digests (value_prove_name sample_value) (sample_request 1) () = (Inr a, ())"
    by (auto simp: proof_backed_Inr sample_request_def proven_mismatch_def)
  from proof_backed_sound [OF a] obtain n root h v d rs where "from_ascii [97] = Inr n"
    "name_hash_from_name sample_digests root = Inr h" "sample_value root h () = (Inr v, ())" "vv_value v = Some d"
    "decode_handshake_resource_records [root] d = Inr rs" "a = \<lparr>ans_name = n, ans_records = filter_records rs n 1, ans_secure = True\<rparr>"
    unfolding sample_request_def resolution_request.simps by blast
  with a show ?thesis by blast
qed

lemma sample_has [simp]:
  "has_owner_record sample_records [[97]] TypeNs" "has_owner_record sample_records [[97]] TypeDs"
  "filter_records sample_records [[97]] 1 = []"
  by (simp_all add: has_owner_record_def sample_records_def filter_records_def from_code_def)

theorem delegation_never_upgrades_witness:
  "\<exists>a. delegating_resolve sample_digests sample_prove
       (\<lambda>_ _. io_pure (Inr \<lparr>ans_name = [[97]], ans_records = [], ans_secure = True\<rparr>)) (sample_request 1) () = (Inr a, ()) \<and>
     (\<exists>root h proven w1. name_hash_from_name sample_digests root = Inr h \<and> sample_prove root h () = (Inr proven, w1) \<and>
        pn_secure proven)"
proof -
  let ?rd = "\<lambda>_ _. io_pure (Inr \<lparr>ans_name = [[97]], ans_records = [], ans_secure = True\<rparr>) :: unit \<Rightarrow> _"
  have "record_name_rdata r = None" if "rr_rdata r = []" for r
    using that by (simp add: record_name_rdata_def parse_wire_def) (subst parse_wire_loop.simps, simp add: get_byte_def)
  then have "ns_targets [[97]] sample_records = []"
    by (simp add: ns_targets_def sample_records_def List.map_filter_def)
  then have a: "delegating_resolve sample_digests sample_prove ?rd (sample_request 1) () =
      (Inr \<lparr>ans_name = [[97]], ans_records = [], ans_secure = True\<rparr>, ())"
    by (subst delegating_proven [where n = "[[97]]" and root = "[97]" and h = sample_name_hash])
      (simp_all add: sample_request_def sample_prove_def io_pure_def proven_mismatch_def
        root_records_answer_request_def from_code_def hydrate_hns_nameserver_addresses_def io_then_def)
  from delegation_never_upgrades [OF a] a show ?thesis by auto
qed

theorem cached_answers_fresh_witness:
  "\<exists>r st'. cached_resolve 100 10 (\<lambda>w. (w, w + 1)) (\<lambda>_. io_pure (Inl NameNotFound)) (sample_request 1) (cached_resolver_new 4 0) =
       (r, st') \<and>
     (r = Inl Panic \<and> cr_cache st' = None \<or>
      (\<exists>r0. r = map_err Err r0 \<and>
        (r0 = Inl CachePoisoned \<and> cr_cache (cached_resolver_new 4 (0 :: nat)) = None \<or>
         (\<exists>w :: nat. io_pure (Inl NameNotFound) 1 = (r0, w)) \<or>
         (\<exists>t. given (\<lambda>w :: nat. (w, w + 1)) (\<lambda>_. io_pure (Inl NameNotFound)) (sample_request 1) r0 t \<and> 0 < t + 10))))"
proof -
  obtain r st' where r: "cached_resolve 100 10 (\<lambda>w. (w, w + 1)) (\<lambda>_. io_pure (Inl NameNotFound)) (sample_request 1)
      (cached_resolver_new 4 (0 :: nat)) = (r, st')" by force
  have "cr_world (cached_resolver_new 4 (0 :: nat)) = 0" by (simp add: cached_resolver_new_def)
  with cached_answers_fresh [OF cached_start r] r show ?thesis by (intro exI conjI) (assumption, auto)
qed

definition fetch_query :: proof_query where
  "fetch_query = \<lparr>qy_root_name = [97], qy_root = hash_ZERO, qy_name_hash = sample_name_hash, qy_height = None\<rparr>"

definition fetch_scheduler :: "memory_values proof_scheduler" where
  "fetch_scheduler = scheduler_new (urkel_verifier_verify sample_digests) Map.empty"

lemma fetch_succeeds:
  "\<exists>result s' sc' c'. request_hash_and_store (memory_insert sample_digests) fetch_query ready_session fetch_scheduler
     (scripted_connection [PktProof (absence_packet sample_name_hash)]) = (Inr result, s', sc', c') \<and> pv_value result = None"
proof -
  let ?c = "scripted_connection [PktProof (absence_packet sample_name_hash)]"
  have "flows ?c [PktProof (absence_packet sample_name_hash)] []" by (intro scripted_flows) (simp_all add: absence_sendable)
  moreover have "sendable (PktGetProof \<lparr>pr_root = qy_root fetch_query, pr_key = qy_name_hash fetch_query\<rparr>)"
    by (simp add: fetch_query_def absence_sendable)
  ultimately obtain c' sent' where "request_hash_and_store (memory_insert sample_digests) fetch_query ready_session fetch_scheduler ?c =
      (let (r, sc') = store_proof (memory_insert sample_digests) fetch_query (absence_packet sample_name_hash)
         (fetch_scheduler\<lparr>sc_coordinator := track_request (qy_root fetch_query) (qy_name_hash fetch_query)
            (sc_coordinator fetch_scheduler)\<rparr>) in (r, ready_session, sc', c'))"
    using request_delivered [where s = ready_session and ps = "[]"] by (metis sample_facts(4))
  then show ?thesis
    by (simp add: store_proof_def ingest_proof_def forget_request_def track_request_def absence_packet_def fetch_query_def
        absence_decodes absence_verifies [OF absence_decodes] verified_resource_value_def fetch_scheduler_def scheduler_new_def
        coordinator_new_def verified_non_inclusion_def memory_insert_def normalize_verified_value_def)
qed

theorem fetched_name_resolves_witness:
  "\<exists>result s' sc' c'. request_hash_and_store (memory_insert sample_digests) fetch_query ready_session fetch_scheduler
     (scripted_connection [PktProof (absence_packet sample_name_hash)]) = (Inr result, s', sc', c') \<and>
   fst (proof_backed_resolve sample_digests (value_prove_name (memory_prove sample_digests)) (sample_request 1) (sc_sink sc')) =
     Inl NameNotFound"
proof -
  obtain result s' sc' c' where r: "request_hash_and_store (memory_insert sample_digests) fetch_query ready_session fetch_scheduler
     (scripted_connection [PktProof (absence_packet sample_name_hash)]) = (Inr result, s', sc', c')" "pv_value result = None"
    using fetch_succeeds by blast
  have "co_verify (sc_coordinator fetch_scheduler) = urkel_verifier_verify sample_digests"
    "co_pending (sc_coordinator fetch_scheduler) = {}"
    by (simp_all add: fetch_scheduler_def scheduler_new_def coordinator_new_def)
  from fetched_name_resolves [OF this r(1), of "sample_request 1" "[[97]]"] r show ?thesis
    by (simp add: sample_request_def fetch_query_def)
qed

end
