(* ===== verification/Dns_Query.thy ===== *)
theory Dns_Query
  imports Hns_Resolver Peer_Manager
begin

text \<open>
  One DNS exchange of the authoritative resolver (\<open>hns-resolver/src/lib.rs\<close>, \<open>DnsTransport\<close>, \<open>dns_query_target\<close> and what
  it calls): the query built, the endpoint policy, the retry over TCP, and the check that a response answers its query.
  The trait \<open>DnsTransport\<close> is a record of functions on a world of any type. The state of a resolver is the counter of
  query ids, which is global in the program (other threads may advance it between two queries), the cache of discovered
  DoH endpoints, and the world.
\<close>

section \<open>Definitions\<close>

definition DNS_CLASS_IN :: u16 where "DNS_CLASS_IN = 1"
definition DNS_OPT_RECORD_TYPE :: u16 where "DNS_OPT_RECORD_TYPE = 41"
definition DNSSEC_DO_FLAG :: u32 where "DNSSEC_DO_FLAG = 0x8000"
definition DNS_RCODE_NOERROR :: u8 where "DNS_RCODE_NOERROR = 0"
definition DNS_RCODE_NXDOMAIN :: u8 where "DNS_RCODE_NXDOMAIN = 3"
definition DEFAULT_DNS_UDP_PAYLOAD :: nat where "DEFAULT_DNS_UDP_PAYLOAD = 1232"
definition DNS_QUERY_ID_START :: u16 where "DNS_QUERY_ID_START = 0x4d00"

subsection \<open>Endpoints and transports\<close>

datatype doh_tls_authentication = DohWebPki | HnsProofTlsa "tlsa_record list"

record doh_endpoint =
  de_ns :: dns_name
  de_host :: rust_str
  de_connect_addr :: ip_addr
  de_port :: u16
  de_path_and_query :: rust_str
  de_tls_authentication :: doh_tls_authentication

record endpoint_policy =
  ep_allow_non_public_addresses :: bool
  ep_allow_unsafe_doh_ports :: bool

definition policy_strict :: endpoint_policy where
  "policy_strict = \<lparr>ep_allow_non_public_addresses = False, ep_allow_unsafe_doh_ports = False\<rparr>"

definition policy_permissive :: endpoint_policy where
  "policy_permissive = \<lparr>ep_allow_non_public_addresses = True, ep_allow_unsafe_doh_ports = True\<rparr>"

definition policy_for_network :: "network_kind \<Rightarrow> endpoint_policy" where
  "policy_for_network kind = (case kind of Regtest \<Rightarrow> policy_permissive | _ \<Rightarrow> policy_strict)"

type_synonym 'w dns_exchange_fn = "bytes \<Rightarrow> 'w \<Rightarrow> (resolver_error + bytes) \<times> 'w"

record 'w dns_transport =
  dt_endpoint_policy :: endpoint_policy
  dt_exchange_udp :: "socket_addr \<Rightarrow> 'w dns_exchange_fn"
  dt_exchange_tcp :: "socket_addr \<Rightarrow> 'w dns_exchange_fn"
  dt_exchange_doh :: "doh_endpoint \<Rightarrow> 'w dns_exchange_fn"
  dt_probe_dns_interception :: "'w \<Rightarrow> 'w"
  dt_is_recursive_relay :: bool

record 'w dns_state =
  dn_query_id :: u16
  dn_doh_cache :: "rust_str \<Rightarrow> doh_endpoint list option"
  dn_world :: 'w

definition on_dns_world :: "('w \<Rightarrow> 'a \<times> 'w) \<Rightarrow> 'w dns_state \<Rightarrow> 'a \<times> 'w dns_state" where
  "on_dns_world f st = (let (r, w) = f (dn_world st) in (r, st\<lparr>dn_world := w\<rparr>))"

definition validate_dns_server :: "endpoint_policy \<Rightarrow> socket_addr \<Rightarrow> resolver_error + unit" where
  "validate_dns_server policy server =
     (if ep_allow_non_public_addresses policy \<or> is_publicly_routable (fst server) then Inr () else Inl NonPublicDnsEndpoint)"

definition validate_doh_endpoint :: "endpoint_policy \<Rightarrow> doh_endpoint \<Rightarrow> resolver_error + unit" where
  "validate_doh_endpoint policy endpoint =
     and_then (validate_dns_server policy (de_connect_addr endpoint, de_port endpoint)) (\<lambda>_.
     if ep_allow_unsafe_doh_ports policy \<or> \<not> is_browser_blocked_port (de_port endpoint) then Inr ()
     else Inl (UnsafeAuthoritativeDohPort (de_port endpoint)))"

subsection \<open>Messages\<close>

definition next_dns_query_id :: "'w dns_state \<Rightarrow> u16 \<times> 'w dns_state" where
  "next_dns_query_id st = (dn_query_id st + 1, st\<lparr>dn_query_id := dn_query_id st + 1\<rparr>)"

definition dns_query_message :: "u16 \<Rightarrow> dns_name \<Rightarrow> record_type \<Rightarrow> dns_message" where
  "dns_query_message qid qname qtype =
     \<lparr>msg_header = \<lparr>dh_id = qid, dh_flags = 0, question_count = 1, answer_count = 0, authority_count = 0, additional_count = 1\<rparr>,
      questions = [\<lparr>q_name = qname, q_type = qtype, q_class = DNS_CLASS_IN\<rparr>], answers = [], authorities = [],
      additionals = [\<lparr>rr_name = dns_root, rr_type = TypeUnknown DNS_OPT_RECORD_TYPE,
        rr_class = word_of_nat DEFAULT_DNS_UDP_PAYLOAD, rr_ttl = DNSSEC_DO_FLAG, rr_rdata = []\<rparr>]\<rparr>"

definition build_dns_query :: "u16 \<Rightarrow> dns_name \<Rightarrow> record_type \<Rightarrow> resolver_error + bytes" where
  "build_dns_query qid qname qtype =
     map_err (\<lambda>_. InvalidDnsResponse)
       (dns_message_encode \<lparr>max_message_len = DEFAULT_DNS_UDP_PAYLOAD\<rparr> (dns_query_message qid qname qtype))"

definition parse_dns_response :: "u16 \<Rightarrow> dns_name \<Rightarrow> record_type \<Rightarrow> bytes \<Rightarrow> resolver_error + dns_message" where
  "parse_dns_response qid qname qtype response =
     and_then (map_err (\<lambda>_. InvalidDnsResponse) (dns_message_parse response)) (\<lambda>message.
     let flags = dh_flags (msg_header message); code = rcode flags in
     if dh_id (msg_header message) \<noteq> qid \<or> \<not> is_response flags \<or> opcode flags \<noteq> 0 \<or> length (questions message) \<noteq> 1 \<or>
        q_name (questions message ! 0) \<noteq> qname \<or> q_type (questions message ! 0) \<noteq> qtype \<or>
        q_class (questions message ! 0) \<noteq> DNS_CLASS_IN
     then Inl InvalidDnsResponse
     else if code \<noteq> DNS_RCODE_NOERROR \<and> code \<noteq> DNS_RCODE_NXDOMAIN then Inl (DnsResponseCode code)
     else Inr message)"

fun dns_query_should_retry_tcp :: "resolver_error \<Rightarrow> bool" where
  "dns_query_should_retry_tcp (DnsTransport _) \<longleftrightarrow> True"
| "dns_query_should_retry_tcp InvalidDnsResponse \<longleftrightarrow> True"
| "dns_query_should_retry_tcp _ \<longleftrightarrow> False"

subsection \<open>Exchanges\<close>

datatype dns_target = TargetServer socket_addr | TargetServerTcp socket_addr | TargetDoh doh_endpoint

definition untruncated :: "resolver_error + dns_message \<Rightarrow> resolver_error + dns_message" where
  "untruncated r =
     and_then r (\<lambda>response. if truncated (dh_flags (msg_header response)) then Inl InvalidDnsResponse else Inr response)"

definition dns_query_tcp ::
  "'w dns_transport \<Rightarrow> socket_addr \<Rightarrow> u16 \<Rightarrow> dns_name \<Rightarrow> record_type \<Rightarrow> bytes \<Rightarrow> 'w \<Rightarrow> (resolver_error + dns_message) \<times> 'w"
where
  "dns_query_tcp tp server qid qname qtype query =
     io_then (dt_exchange_tcp tp server query) (\<lambda>response. io_pure (untruncated (parse_dns_response qid qname qtype response)))"

definition dns_query_https ::
  "'w dns_transport \<Rightarrow> dns_target \<Rightarrow> dns_name \<Rightarrow> record_type \<Rightarrow> bytes \<Rightarrow> 'w \<Rightarrow> (resolver_error + dns_message) \<times> 'w"
where
  "dns_query_https tp target qname qtype query =
     (case target of
        TargetDoh endpoint \<Rightarrow>
          (if length query < 2 then io_pure (Inl InvalidDnsResponse) else
           let query = query[0 := 0, 1 := 0] in
           io_then (dt_exchange_doh tp endpoint query) (\<lambda>response. io_pure (parse_dns_response 0 qname qtype response)))
      | _ \<Rightarrow> io_pure (Inl UnsupportedBackend))"

definition dns_query_udp ::
  "'w dns_transport \<Rightarrow> socket_addr \<Rightarrow> u16 \<Rightarrow> dns_name \<Rightarrow> record_type \<Rightarrow> bytes \<Rightarrow> 'w \<Rightarrow> (resolver_error + dns_message) \<times> 'w"
where
  "dns_query_udp tp server qid qname qtype query w =
     (let tcp = dns_query_tcp tp server qid qname qtype query in
      case dt_exchange_udp tp server query w of
        (Inl e, w) \<Rightarrow> if dns_query_should_retry_tcp e then tcp w else (Inl e, w)
      | (Inr udp_response, w) \<Rightarrow>
     (case parse_dns_response qid qname qtype udp_response of
        Inl e \<Rightarrow> if dns_query_should_retry_tcp e then tcp w else (Inl e, w)
      | Inr response \<Rightarrow> if truncated (dh_flags (msg_header response)) then tcp w else (Inr response, w)))"

definition validate_target :: "endpoint_policy \<Rightarrow> dns_target \<Rightarrow> resolver_error + unit" where
  "validate_target policy target =
     (case target of
        TargetServer server \<Rightarrow> validate_dns_server policy server
      | TargetServerTcp server \<Rightarrow> validate_dns_server policy server
      | TargetDoh endpoint \<Rightarrow> validate_doh_endpoint policy endpoint)"

text \<open>The exchange itself, once the query is built: one relay exchange, or the target's own transport.\<close>

definition dns_exchange ::
  "'w dns_transport \<Rightarrow> dns_target \<Rightarrow> u16 \<Rightarrow> dns_name \<Rightarrow> record_type \<Rightarrow> bytes \<Rightarrow> 'w \<Rightarrow> (resolver_error + dns_message) \<times> 'w"
where
  "dns_exchange tp target qid qname qtype query =
     (let relay = (\<lambda>server. io_then (dt_exchange_udp tp server query) (\<lambda>response.
         io_pure (untruncated (parse_dns_response qid qname qtype response)))) in
      case target of
        TargetServer server \<Rightarrow>
          if dt_is_recursive_relay tp then relay server else dns_query_udp tp server qid qname qtype query
      | TargetServerTcp server \<Rightarrow>
          if dt_is_recursive_relay tp then relay server else dns_query_tcp tp server qid qname qtype query
      | TargetDoh endpoint \<Rightarrow> dns_query_https tp target qname qtype query)"

definition dns_query_target ::
  "'w dns_transport \<Rightarrow> dns_target \<Rightarrow> dns_name \<Rightarrow> record_type \<Rightarrow> 'w dns_state \<Rightarrow>
   (resolver_error + dns_message) \<times> 'w dns_state"
where
  "dns_query_target tp target qname qtype st =
     (case validate_target (dt_endpoint_policy tp) target of
        Inl e \<Rightarrow> (Inl e, st)
      | Inr _ \<Rightarrow>
          (let (qid, st) = next_dns_query_id st in
           case build_dns_query qid qname qtype of
             Inl e \<Rightarrow> (Inl e, st)
           | Inr query \<Rightarrow> on_dns_world (dns_exchange tp target qid qname qtype query) st))"

definition dns_query ::
  "'w dns_transport \<Rightarrow> socket_addr \<Rightarrow> dns_name \<Rightarrow> record_type \<Rightarrow> 'w dns_state \<Rightarrow> (resolver_error + dns_message) \<times> 'w dns_state"
where
  "dns_query tp server = dns_query_target tp (TargetServer server)"

definition dns_query_doh ::
  "'w dns_transport \<Rightarrow> doh_endpoint \<Rightarrow> dns_name \<Rightarrow> record_type \<Rightarrow> 'w dns_state \<Rightarrow> (resolver_error + dns_message) \<times> 'w dns_state"
where
  "dns_query_doh tp endpoint = dns_query_target tp (TargetDoh endpoint)"

section \<open>Lemmas\<close>

text \<open>A message answers a query: it is a response with the only question asked and a code that says so.\<close>

definition answers_query :: "dns_name \<Rightarrow> record_type \<Rightarrow> dns_message \<Rightarrow> bool" where
  "answers_query qname qtype m \<longleftrightarrow>
     questions m = [\<lparr>q_name = qname, q_type = qtype, q_class = DNS_CLASS_IN\<rparr>] \<and>
     is_response (dh_flags (msg_header m)) \<and> rcode (dh_flags (msg_header m)) \<in> {DNS_RCODE_NOERROR, DNS_RCODE_NXDOMAIN}"

lemma parse_dns_response_Inr:
  assumes "parse_dns_response qid qname qtype bs = Inr m"
  shows "dns_message_parse bs = Inr m \<and> dh_id (msg_header m) = qid \<and> answers_query qname qtype m"
proof -
  have m: "dns_message_parse bs = Inr m" "dh_id (msg_header m) = qid" "is_response (dh_flags (msg_header m))"
    "length (questions m) = 1" "q_name (questions m ! 0) = qname" "q_type (questions m ! 0) = qtype"
    "q_class (questions m ! 0) = DNS_CLASS_IN" "rcode (dh_flags (msg_header m)) \<in> {DNS_RCODE_NOERROR, DNS_RCODE_NXDOMAIN}"
    using assms by (auto simp: parse_dns_response_def and_then_Inr Let_def split: if_splits)
  then obtain q where "questions m = [q]" by (cases "questions m") auto
  with m show ?thesis by (cases q) (auto simp: answers_query_def)
qed

lemma untruncated_Inr: "untruncated r = Inr m \<longleftrightarrow> r = Inr m \<and> \<not> truncated (dh_flags (msg_header m))"
  by (auto simp: untruncated_def and_then_Inr split: if_splits)

lemma dns_query_tcp_answers:
  "dns_query_tcp tp server qid qname qtype query w = (Inr m, w') \<Longrightarrow> answers_query qname qtype m"
  by (auto simp: dns_query_tcp_def io_then_Inr untruncated_Inr dest: parse_dns_response_Inr)

lemma dns_query_udp_answers:
  "dns_query_udp tp server qid qname qtype query w = (Inr m, w') \<Longrightarrow> answers_query qname qtype m"
  by (auto simp: dns_query_udp_def Let_def dest: parse_dns_response_Inr dns_query_tcp_answers
      split: prod.splits sum.splits if_splits)

lemma dns_query_target_answers:
  assumes "dns_query_target tp target qname qtype st = (Inr m, st')"
  shows "answers_query qname qtype m"
proof -
  obtain qid query w w' where "dns_exchange tp target qid qname qtype query w = (Inr m, w')"
    using assms by (auto simp: dns_query_target_def next_dns_query_id_def on_dns_world_def split: sum.splits prod.splits)
  then show ?thesis
    by (auto simp: dns_exchange_def dns_query_https_def io_then_Inr untruncated_Inr Let_def
        dest: parse_dns_response_Inr dns_query_tcp_answers dns_query_udp_answers
        split: dns_target.splits if_splits)
qed

end
