(* ===== verification/Doh_Discovery.thy ===== *)
theory Doh_Discovery
  imports Dns_Query Svcb
begin

text \<open>
  What the authoritative resolver reads out of records (\<open>hns-resolver/src/lib.rs\<close>): the addresses of nameservers, the
  DoH endpoints an \<open>hnsdns\<close> TXT declaration or an SVCB record describes, and the key of the endpoint cache. The crate
  \<open>hex\<close> is the parameter \<open>hex_decode\<close>; the texts of numbers and addresses are those of the standard library.
\<close>

section \<open>Definitions\<close>

definition DEFAULT_DOH_PORT :: u16 where "DEFAULT_DOH_PORT = 443"
definition DEFAULT_DOH_PATH :: rust_str where "DEFAULT_DOH_PATH = ascii ''/dns-query''"
definition DOH_URI_TEMPLATE_DNS_VARIABLE :: rust_str where "DOH_URI_TEMPLATE_DNS_VARIABLE = ascii ''{?dns}''"
definition HNSDNS_VERSION :: rust_str where "HNSDNS_VERSION = ascii ''1''"
definition HNSDNS_MAX_TEXT_BYTES :: nat where "HNSDNS_MAX_TEXT_BYTES = 255"
definition HNSDNS_MAX_TLSA_PINS :: nat where "HNSDNS_MAX_TLSA_PINS = 2"
definition SVCB_PARAM_DOHPATH :: u16 where "SVCB_PARAM_DOHPATH = 7"

subsection \<open>Text\<close>

definition split_once :: "u8 \<Rightarrow> rust_str \<Rightarrow> (rust_str \<times> rust_str) option" where
  "split_once b s = (if b \<in> set s then Some (takeWhile (\<lambda>x. x \<noteq> b) s, tl (dropWhile (\<lambda>x. x \<noteq> b) s)) else None)"

definition rsplit_once :: "u8 \<Rightarrow> rust_str \<Rightarrow> (rust_str \<times> rust_str) option" where
  "rsplit_once b s = map_option (\<lambda>(x, y). (rev y, rev x)) (split_once b (rev s))"

fun str_contains :: "rust_str \<Rightarrow> rust_str \<Rightarrow> bool" where
  "str_contains p [] \<longleftrightarrow> p = []"
| "str_contains p (x # s) \<longleftrightarrow> take (length p) (x # s) = p \<or> str_contains p s"

definition strip_suffix :: "rust_str \<Rightarrow> rust_str \<Rightarrow> rust_str option" where
  "strip_suffix p s =
     (if length p \<le> length s \<and> drop (length s - length p) s = p then Some (take (length s - length p) s) else None)"

definition is_ascii_control :: "u8 \<Rightarrow> bool" where
  "is_ascii_control b \<longleftrightarrow> b < 32 \<or> b = 127"

text \<open>\<open>str::parse::<u16>\<close>: an optional plus sign and decimal digits.\<close>

fun decimal_digits :: "nat \<Rightarrow> rust_str \<Rightarrow> nat option" where
  "decimal_digits acc [] = Some acc"
| "decimal_digits acc (b # s) =
     (if is_ascii_digit b \<and> acc * 10 + unat (b - 48) < 65536 then decimal_digits (acc * 10 + unat (b - 48)) s else None)"

definition parse_u16 :: "rust_str \<Rightarrow> u16 option" where
  "parse_u16 s =
     (let digits = (case s of b # c # t \<Rightarrow> if b = 43 then c # t else s | _ \<Rightarrow> s) in
      if digits = [] then None else map_option word_of_nat (decimal_digits 0 digits))"

fun nat_text :: "nat \<Rightarrow> rust_str" where
  "nat_text n = (if n < 10 then [word_of_nat (48 + n)] else nat_text (n div 10) @ [word_of_nat (48 + n mod 10)])"

declare nat_text.simps [simp del]

definition hex_char :: "nat \<Rightarrow> u8" where
  "hex_char d = word_of_nat (if d < 10 then 48 + d else 87 + d)"

fun hex_text :: "nat \<Rightarrow> rust_str" where
  "hex_text n = (if n < 16 then [hex_char n] else hex_text (n div 16) @ [hex_char (n mod 16)])"

declare hex_text.simps [simp del]

text \<open>\<open>{:02x?}\<close> of a byte vector.\<close>

definition bytes_debug_text :: "bytes \<Rightarrow> rust_str" where
  "bytes_debug_text bs =
     91 # str_join (ascii '', '') (map (\<lambda>b. [hex_char (unat b div 16), hex_char (unat b mod 16)]) bs) @ [93]"

text \<open>The longest run of zero segments of an IPv6 address, the first one of several, as start and length.\<close>

fun zero_run :: "nat \<Rightarrow> nat \<times> nat \<Rightarrow> nat \<times> nat \<Rightarrow> ipv6_addr \<Rightarrow> nat \<times> nat" where
  "zero_run i current longest [] = longest"
| "zero_run i (start, len) longest (segment # s) =
     (if segment = 0 then
        let current = (if len = 0 then i else start, len + 1) in
        zero_run (i + 1) current (if snd current > snd longest then current else longest) s
      else zero_run (i + 1) (0, 0) longest s)"

definition segments_text :: "ipv6_addr \<Rightarrow> rust_str" where
  "segments_text s = str_join [58] (map (\<lambda>x. hex_text (unat x)) s)"

definition ipv6_text :: "ipv6_addr \<Rightarrow> rust_str" where
  "ipv6_text s =
     (case to_ipv4_mapped s of
        Some a \<Rightarrow> ascii ''::ffff:'' @ ipv4_text a
      | None \<Rightarrow>
          (let (start, len) = zero_run 0 (0, 0) (0, 0) s in
           if len > 1 then segments_text (take start s) @ [58, 58] @ segments_text (drop (start + len) s)
           else segments_text s))"

fun ip_text :: "ip_addr \<Rightarrow> rust_str" where
  "ip_text (V4 a) = ipv4_text a"
| "ip_text (V6 s) = ipv6_text s"

subsection \<open>Nameserver addresses\<close>

definition record_address :: "resource_record \<Rightarrow> ip_addr option" where
  "record_address r =
     (case rr_type r of
        TypeA \<Rightarrow> (case rr_rdata r of [a, b, c, d] \<Rightarrow> Some (V4 (a, b, c, d)) | _ \<Rightarrow> None)
      | TypeAaaa \<Rightarrow>
          (if length (rr_rdata r) = 16
           then Some (V6 (map (\<lambda>i. u16_of_be [rr_rdata r ! (2 * i), rr_rdata r ! (2 * i + 1)]) [0..<8])) else None)
      | _ \<Rightarrow> None)"

definition nameserver_ip_addresses :: "hns_delegation \<Rightarrow> (dns_name \<times> ip_addr) list" where
  "nameserver_ip_addresses delegation =
     fold (\<lambda>ns addresses. fold push_new
         (map (Pair ns) (List.map_filter record_address (filter (\<lambda>r. rr_name r = ns) (hd_records delegation)))) addresses)
       (ns_targets (hd_owner delegation) (hd_records delegation)) []"

definition nameserver_addresses :: "hns_delegation \<Rightarrow> socket_addr list" where
  "nameserver_addresses delegation =
     fold push_new (map (\<lambda>(_, address). (address, 53)) (nameserver_ip_addresses delegation)) []"

definition referral_nameserver_addresses :: "resource_record list \<Rightarrow> resource_record list \<Rightarrow> socket_addr list" where
  "referral_nameserver_addresses ns_rrset adds =
     fold (\<lambda>ns addresses. fold push_new
         (map (\<lambda>a. (a, 53)) (List.map_filter record_address (filter (\<lambda>r. rr_name r = ns) adds))) addresses)
       (fold push_new (List.map_filter record_name_rdata ns_rrset) []) []"

subsection \<open>\<open>hnsdns\<close> declarations\<close>

record doh_template =
  dtm_ns :: dns_name
  dtm_host :: rust_str
  dtm_port :: u16
  dtm_path_and_query :: rust_str
  dtm_tls_authentication :: doh_tls_authentication

definition key_value_part :: "rust_str \<Rightarrow> (rust_str \<times> rust_str) option" where
  "key_value_part part =
     (case split_once 61 (str_trim part) of
        None \<Rightarrow> None
      | Some (k, v) \<Rightarrow>
          (let k = str_trim k; v = str_trim v in if k \<noteq> [] \<and> v \<noteq> [] then Some (k, v) else None))"

function txt_strings_from :: "bytes \<Rightarrow> rust_str list \<Rightarrow> resolver_error + rust_str list" where
  "txt_strings_from rdata strings =
     (case rdata of
        [] \<Rightarrow> Inr strings
      | len # tail \<Rightarrow>
          (if unat len > length tail then Inl InvalidAuthoritativeDoh else
           case str_from_utf8 (take (unat len) tail) of
             None \<Rightarrow> Inl InvalidAuthoritativeDoh
           | Some text \<Rightarrow> txt_strings_from (drop (unat len) tail) (strings @ [text])))"
  by pat_completeness auto
termination by (relation "measure (\<lambda>(rdata, _). length rdata)") auto

declare txt_strings_from.simps [simp del]

definition txt_rdata_strings :: "bytes \<Rightarrow> resolver_error + rust_str list" where
  "txt_rdata_strings rdata = txt_strings_from rdata []"

definition hnsdns_is_declared :: "rust_str \<Rightarrow> bool" where
  "hnsdns_is_declared text =
     list_ex (\<lambda>part. case key_value_part part of
        Some (k, v) \<Rightarrow> to_ascii_lowercase k = ascii ''hnsdns'' \<and> v = HNSDNS_VERSION
      | None \<Rightarrow> False) (str_split 59 text)"

definition parse_hnsdns_tlsa :: "(rust_str \<Rightarrow> bytes option) \<Rightarrow> rust_str \<Rightarrow> resolver_error + tlsa_record" where
  "parse_hnsdns_tlsa hex_decode v =
     (case map str_trim (str_split 44 v) of
        [usage, selector, matching, association] \<Rightarrow>
          if usage \<noteq> ascii ''3'' \<or> selector \<noteq> ascii ''1'' \<or> matching \<noteq> ascii ''1'' then Inl InvalidAuthoritativeDoh else
          and_then (map_err (\<lambda>_. InvalidAuthoritativeDoh) (hash_from_hex hex_decode association)) (\<lambda>digest.
          Inr \<lparr>tr_usage = DaneEe, tr_selector = SubjectPublicKeyInfo, tr_matching = Sha256, tr_association_data = digest\<rparr>)
      | _ \<Rightarrow> Inl InvalidAuthoritativeDoh)"

definition hnsdns_ns_name :: "dns_name \<Rightarrow> rust_str \<Rightarrow> resolver_error + dns_name" where
  "hnsdns_ns_name root_owner v =
     (let v = to_ascii_lowercase (trim_end_matches 46 (str_trim v)) in
      if v = [] \<or> v = ascii ''@'' \<or> 42 \<in> set v then Inl InvalidAuthoritativeDoh else
      and_then (map_err (\<lambda>_. InvalidAuthoritativeDoh) (from_ascii v)) (\<lambda>n.
      if length n = 1
      then map_err (\<lambda>_. InvalidAuthoritativeDoh) (from_ascii (dns_name_display n @ 46 # dns_name_display root_owner))
      else Inr n))"

definition normalize_doh_host :: "rust_str \<Rightarrow> resolver_error + rust_str" where
  "normalize_doh_host host =
     (let host = to_ascii_lowercase (trim_end_matches 46 (str_trim host)) in
      if host = [] \<or> length host > 253 \<or> list_ex (\<lambda>b. is_ascii_control b \<or> b \<in> {47, 63, 35, 64, 32}) host \<or>
         (case from_ascii host of Inl _ \<Rightarrow> True | Inr _ \<Rightarrow> False)
      then Inl InvalidAuthoritativeDoh
      else Inr host)"

definition normalize_doh_path :: "rust_str \<Rightarrow> resolver_error + rust_str" where
  "normalize_doh_path path =
     (let path = str_trim path;
          path = (case strip_suffix DOH_URI_TEMPLATE_DNS_VARIABLE path of Some stripped \<Rightarrow> stripped | None \<Rightarrow> path) in
      if path = [] \<or> hd path \<noteq> 47 then Inl InvalidAuthoritativeDoh
      else if 35 \<in> set path \<or> list_ex (\<lambda>b. is_ascii_control b \<or> b = 32) path then Inl InvalidAuthoritativeDoh
      else Inr path)"

definition parse_doh_uri_template :: "rust_str \<Rightarrow> resolver_error + (rust_str \<times> u16 \<times> rust_str)" where
  "parse_doh_uri_template v =
     (let v = str_trim v in
      if to_ascii_lowercase (take 8 v) \<noteq> ascii ''https://'' then Inl InvalidAuthoritativeDoh else
      let remainder = drop 8 v in
      if 35 \<in> set remainder \<or> list_ex (\<lambda>b. is_ascii_control b \<or> b = 32) remainder then Inl InvalidAuthoritativeDoh else
      let (authority, raw_path) =
            (case split_once 47 remainder of Some p \<Rightarrow> p | None \<Rightarrow> (remainder, ascii ''dns-query'')) in
      if authority = [] \<or> 64 \<in> set authority then Inl InvalidAuthoritativeDoh else
      and_then
        (case rsplit_once 58 authority of
           Some (host, port) \<Rightarrow>
             if 58 \<notin> set host
             then and_then (ok_or InvalidAuthoritativeDoh (parse_u16 port)) (\<lambda>port. Inr (host, port))
             else Inl InvalidAuthoritativeDoh
         | None \<Rightarrow> Inr (authority, DEFAULT_DOH_PORT)) (\<lambda>(host, port).
      and_then (normalize_doh_host host) (\<lambda>host.
      and_then (normalize_doh_path (47 # raw_path)) (\<lambda>path_and_query.
      Inr (host, port, path_and_query)))))"

text \<open>What the loop over the parts of a declaration has seen.\<close>

record hnsdns_fields =
  hf_saw_version :: bool
  hf_ns :: "dns_name option"
  hf_transport :: "rust_str option"
  hf_doh_uri :: "(rust_str \<times> u16 \<times> rust_str) option"
  hf_explicit_port :: "u16 option"
  hf_explicit_path :: "rust_str option"
  hf_tlsa :: "tlsa_record list"

definition hnsdns_part ::
  "(rust_str \<Rightarrow> bytes option) \<Rightarrow> dns_name \<Rightarrow> rust_str \<Rightarrow> hnsdns_fields \<Rightarrow> resolver_error + hnsdns_fields"
where
  "hnsdns_part hex_decode root_owner part f =
     and_then (ok_or InvalidAuthoritativeDoh (key_value_part part)) (\<lambda>(k, v).
     let k = to_ascii_lowercase k; invalid = Inl InvalidAuthoritativeDoh in
     if k = ascii ''hnsdns'' then (if v = HNSDNS_VERSION then Inr (f\<lparr>hf_saw_version := True\<rparr>) else invalid)
     else if k = ascii ''ns'' then
       (if hf_ns f \<noteq> None then invalid
        else and_then (hnsdns_ns_name root_owner v) (\<lambda>ns. Inr (f\<lparr>hf_ns := Some ns\<rparr>)))
     else if k = ascii ''transport'' then
       (if hf_transport f \<noteq> None then invalid else Inr (f\<lparr>hf_transport := Some (to_ascii_lowercase v)\<rparr>))
     else if k = ascii ''doh'' then
       and_then (parse_doh_uri_template v) (\<lambda>uri.
       if hf_doh_uri f \<noteq> None then invalid else Inr (f\<lparr>hf_doh_uri := Some uri\<rparr>))
     else if k = ascii ''port'' then
       and_then (ok_or InvalidAuthoritativeDoh (parse_u16 v)) (\<lambda>port.
       if hf_explicit_port f \<noteq> None then invalid else Inr (f\<lparr>hf_explicit_port := Some port\<rparr>))
     else if k = ascii ''path'' then
       and_then (normalize_doh_path v) (\<lambda>path.
       if hf_explicit_path f \<noteq> None then invalid else Inr (f\<lparr>hf_explicit_path := Some path\<rparr>))
     else if k = ascii ''tlsa'' then
       and_then (parse_hnsdns_tlsa hex_decode v) (\<lambda>r.
       if r \<in> set (hf_tlsa f) then Inr f
       else if length (hf_tlsa f) \<ge> HNSDNS_MAX_TLSA_PINS then invalid
       else Inr (f\<lparr>hf_tlsa := hf_tlsa f @ [r]\<rparr>))
     else Inr f)"

fun hnsdns_parts ::
  "(rust_str \<Rightarrow> bytes option) \<Rightarrow> dns_name \<Rightarrow> rust_str list \<Rightarrow> hnsdns_fields \<Rightarrow> resolver_error + hnsdns_fields"
where
  "hnsdns_parts hex_decode root_owner [] f = Inr f"
| "hnsdns_parts hex_decode root_owner (part # parts) f =
     and_then (hnsdns_part hex_decode root_owner part f) (hnsdns_parts hex_decode root_owner parts)"

definition parse_hnsdns_declaration ::
  "(rust_str \<Rightarrow> bytes option) \<Rightarrow> rust_str \<Rightarrow> dns_name \<Rightarrow> resolver_error + doh_template option"
where
  "parse_hnsdns_declaration hex_decode text root_owner =
     (if \<not> hnsdns_is_declared text then Inr None
      else if length text > HNSDNS_MAX_TEXT_BYTES then Inl InvalidAuthoritativeDoh else
      and_then (hnsdns_parts hex_decode root_owner (str_split 59 text)
          \<lparr>hf_saw_version = False, hf_ns = None, hf_transport = None, hf_doh_uri = None, hf_explicit_port = None,
           hf_explicit_path = None, hf_tlsa = []\<rparr>) (\<lambda>f.
      if \<not> hf_saw_version f \<or> (case hf_transport f of Some t \<Rightarrow> t \<noteq> ascii ''doh'' | None \<Rightarrow> False)
      then Inl InvalidAuthoritativeDoh else
      and_then (ok_or InvalidAuthoritativeDoh (hf_ns f)) (\<lambda>ns.
      let (host, port, path_and_query) =
            (case hf_doh_uri f of Some uri \<Rightarrow> uri
             | None \<Rightarrow> (to_ascii_lowercase (trim_end_matches 46 (dns_name_display ns)), DEFAULT_DOH_PORT, DEFAULT_DOH_PATH)) in
      Inr (Some \<lparr>dtm_ns = ns, dtm_host = host, dtm_port = (case hf_explicit_port f of Some p \<Rightarrow> p | None \<Rightarrow> port),
        dtm_path_and_query = (case hf_explicit_path f of Some p \<Rightarrow> p | None \<Rightarrow> path_and_query),
        dtm_tls_authentication = (if hf_tlsa f = [] then DohWebPki else HnsProofTlsa (hf_tlsa f))\<rparr>))))"

fun texts_templates ::
  "(rust_str \<Rightarrow> bytes option) \<Rightarrow> dns_name \<Rightarrow> rust_str list \<Rightarrow> doh_template list \<Rightarrow> resolver_error + doh_template list"
where
  "texts_templates hex_decode owner [] templates = Inr templates"
| "texts_templates hex_decode owner (text # texts) templates =
     and_then (parse_hnsdns_declaration hex_decode text owner) (\<lambda>parsed.
     texts_templates hex_decode owner texts
       (case parsed of None \<Rightarrow> templates | Some template \<Rightarrow> push_new template templates))"

fun records_templates ::
  "(rust_str \<Rightarrow> bytes option) \<Rightarrow> dns_name \<Rightarrow> resource_record list \<Rightarrow> doh_template list \<Rightarrow> resolver_error + doh_template list"
where
  "records_templates hex_decode owner [] templates = Inr templates"
| "records_templates hex_decode owner (r # rs) templates =
     and_then (txt_rdata_strings (rr_rdata r)) (\<lambda>texts.
     and_then (texts_templates hex_decode owner texts templates) (records_templates hex_decode owner rs))"

definition authoritative_doh_templates_from_hns ::
  "(rust_str \<Rightarrow> bytes option) \<Rightarrow> hns_delegation \<Rightarrow> resolver_error + doh_template list"
where
  "authoritative_doh_templates_from_hns hex_decode delegation =
     records_templates hex_decode (hd_owner delegation)
       (filter (\<lambda>r. rr_name r = hd_owner delegation \<and> rr_type r = TypeTxt) (hd_records delegation)) []"

subsection \<open>SVCB records\<close>

fun mandatory_supported :: "bytes \<Rightarrow> bool" where
  "mandatory_supported (a # b # s) \<longleftrightarrow>
     u16_of_be [a, b] \<in> {SVCB_PARAM_ALPN, SVCB_PARAM_PORT, SVCB_PARAM_IPV4HINT, SVCB_PARAM_IPV6HINT, SVCB_PARAM_DOHPATH} \<and>
     mandatory_supported s"
| "mandatory_supported _ \<longleftrightarrow> True"

definition svcb_mandatory_keys_supported :: "svcb_record \<Rightarrow> bool" where
  "svcb_mandatory_keys_supported svcb \<longleftrightarrow>
     (case svcb_param svcb SVCB_PARAM_MANDATORY of None \<Rightarrow> True | Some v \<Rightarrow> mandatory_supported v)"

definition doh_path_from_svcb_param :: "bytes \<Rightarrow> resolver_error + rust_str" where
  "doh_path_from_svcb_param v =
     and_then (ok_or InvalidAuthoritativeDoh (str_from_utf8 v)) (\<lambda>template.
     if \<not> str_contains (ascii ''dns'') template then Inl InvalidAuthoritativeDoh else normalize_doh_path template)"

definition authoritative_doh_template_from_svcb :: "dns_name \<Rightarrow> resource_record \<Rightarrow> resolver_error + doh_template option"
where
  "authoritative_doh_template_from_svcb ns r =
     and_then (map_err (\<lambda>_. InvalidAuthoritativeDoh) (svcb_from_record r)) (\<lambda>svcb.
     if is_alias_mode svcb \<or> \<not> svcb_mandatory_keys_supported svcb then Inr None else
     let target = (if target_name svcb = dns_root then ns else target_name svcb) in
     and_then (map_err (\<lambda>_. InvalidAuthoritativeDoh) (alpn_ids svcb)) (\<lambda>ids.
     if ascii ''h2'' \<notin> set ids then Inr None else
     case svcb_param svcb SVCB_PARAM_DOHPATH of
       None \<Rightarrow> Inr None
     | Some dohpath \<Rightarrow>
         and_then (doh_path_from_svcb_param dohpath) (\<lambda>path_and_query.
         and_then (map_err (\<lambda>_. InvalidAuthoritativeDoh) (svcb_port svcb)) (\<lambda>port.
         Inr (Some \<lparr>dtm_ns = ns, dtm_host = to_ascii_lowercase (trim_end_matches 46 (dns_name_display target)),
           dtm_port = (case port of Some p \<Rightarrow> p | None \<Rightarrow> DEFAULT_DOH_PORT), dtm_path_and_query = path_and_query,
           dtm_tls_authentication = DohWebPki\<rparr>)))))"

definition dns_service_binding_name :: "dns_name \<Rightarrow> resolver_error + dns_name" where
  "dns_service_binding_name ns =
     map_err (\<lambda>_. InvalidAuthoritativeDoh) (from_ascii (ascii ''_dns.'' @ dns_name_display ns))"

subsection \<open>The key of the endpoint cache\<close>

definition record_key :: "resource_record \<Rightarrow> rust_str" where
  "record_key r = str_join [58] [dns_name_display (rr_name r), nat_text (unat (record_type_code (rr_type r))),
     nat_text (unat (rr_class r)), nat_text (unat (rr_ttl r)), bytes_debug_text (rr_rdata r)]"

definition authoritative_doh_cache_key :: "hns_delegation \<Rightarrow> rust_str" where
  "authoritative_doh_cache_key delegation =
     (let sorted_join = (\<lambda>xs. str_join [44] (sorted_list_of_set (set xs)));
          records = sorted_join (map record_key (hd_records delegation));
          servers = sorted_join (map (\<lambda>(ns, a). dns_name_display ns @ 64 # ip_text a) (nameserver_ip_addresses delegation)) in
      str_join [124] [dns_name_display (hd_owner delegation), servers, records])"

end
