(* ===== verification/Dnssec_Verifier.thy ===== *)
theory Dnssec_Verifier
  imports Doh_Discovery Denial
begin

text \<open>
  The trait \<open>DelegatedDnssecVerifier\<close> of \<open>hns-resolver/src/lib.rs\<close> as a record of functions, and \<open>SystemDnssecVerifier\<close>,
  which reads the clock and calls the validators of \<open>hns-dnssec\<close>. The inputs common to the methods are records: the keys
  of a zone with the DS set that anchors them, the same for a child zone with the signed DS set that links it to its
  parent, and the denial records of a response.
\<close>

section \<open>Definitions\<close>

subsection \<open>Inputs\<close>

record zone_input =
  zi_dnskey_owner :: dns_name
  zi_ds_rrset :: "resource_record list"
  zi_dnskey_rrset :: "resource_record list"
  zi_dnskey_rrsig_rrset :: "resource_record list"

record child_zone_input =
  cz_parent :: zone_input
  cz_child :: zone_input
  cz_child_ds_rrsig_rrset :: "resource_record list"

record denial_input =
  dn_nsec_rrset :: "resource_record list"
  dn_nsec_rrsig_rrset :: "resource_record list"
  dn_nsec3_rrset :: "resource_record list"
  dn_nsec3_rrsig_rrset :: "resource_record list"

subsection \<open>The trait\<close>

type_synonym 'w verdict_fn = "'w \<Rightarrow> (resolver_error + bool) \<times> 'w"

record 'w dnssec_verifier =
  vf_positive_rrset :: "zone_input \<Rightarrow> resource_record list \<Rightarrow> resource_record list \<Rightarrow> 'w verdict_fn"
  vf_no_data :: "zone_input \<Rightarrow> dns_name \<Rightarrow> record_type \<Rightarrow> denial_input \<Rightarrow> 'w verdict_fn"
  vf_name_error :: "zone_input \<Rightarrow> dns_name \<Rightarrow> dns_name \<Rightarrow> denial_input \<Rightarrow> 'w verdict_fn"
  vf_child_positive_rrset :: "child_zone_input \<Rightarrow> resource_record list \<Rightarrow> resource_record list \<Rightarrow> 'w verdict_fn"
  vf_child_no_data :: "child_zone_input \<Rightarrow> dns_name \<Rightarrow> record_type \<Rightarrow> denial_input \<Rightarrow> 'w verdict_fn"
  vf_child_name_error :: "child_zone_input \<Rightarrow> dns_name \<Rightarrow> dns_name \<Rightarrow> denial_input \<Rightarrow> 'w verdict_fn"

subsection \<open>The system verifier\<close>

text \<open>Records signed under the keys of a zone that its DS set anchors.\<close>

definition zone_rrset_status ::
  "crypto \<Rightarrow> zone_input \<Rightarrow> resource_record list \<Rightarrow> resource_record list \<Rightarrow> u64 \<Rightarrow> dnssec_status dnssec_result"
where
  "zone_rrset_status K z rrset sigs now =
     validate_signed_rrset K \<lparr>si_dnskey_owner = zi_dnskey_owner z, si_ds_rrset = zi_ds_rrset z,
       si_dnskey_rrset = zi_dnskey_rrset z, si_dnskey_rrsig_rrset = zi_dnskey_rrsig_rrset z, si_rrset = rrset,
       si_rrsig_rrset = sigs, si_now = now\<rparr>"

definition zone_keys_status :: "crypto \<Rightarrow> zone_input \<Rightarrow> u64 \<Rightarrow> dnssec_status dnssec_result" where
  "zone_keys_status K z now = zone_rrset_status K z (zi_dnskey_rrset z) (zi_dnskey_rrsig_rrset z) now"

definition child_rrset_status ::
  "crypto \<Rightarrow> child_zone_input \<Rightarrow> resource_record list \<Rightarrow> resource_record list \<Rightarrow> u64 \<Rightarrow> dnssec_status dnssec_result"
where
  "child_rrset_status K c rrset sigs now =
     validate_dnssec_chain K \<lparr>ci_initial_dnskey_owner = zi_dnskey_owner (cz_parent c),
       ci_initial_ds_rrset = zi_ds_rrset (cz_parent c), ci_initial_dnskey_rrset = zi_dnskey_rrset (cz_parent c),
       ci_initial_dnskey_rrsig_rrset = zi_dnskey_rrsig_rrset (cz_parent c),
       ci_delegation_links = [\<lparr>cl_child_dnskey_owner = zi_dnskey_owner (cz_child c), cl_ds_rrset = zi_ds_rrset (cz_child c),
         cl_ds_rrsig_rrset = cz_child_ds_rrsig_rrset c, cl_child_dnskey_rrset = zi_dnskey_rrset (cz_child c),
         cl_child_dnskey_rrsig_rrset = zi_dnskey_rrsig_rrset (cz_child c)\<rparr>],
       ci_target_rrset = rrset, ci_target_rrsig_rrset = sigs, ci_now = now\<rparr>"

definition child_keys_status :: "crypto \<Rightarrow> child_zone_input \<Rightarrow> u64 \<Rightarrow> dnssec_status dnssec_result" where
  "child_keys_status K c now =
     when_secure (zone_keys_status K (cz_parent c) now)
     (when_secure (validate_rrset_signature K (zi_dnskey_owner (cz_parent c)) (zi_dnskey_rrset (cz_parent c))
         (zi_ds_rrset (cz_child c)) (cz_child_ds_rrsig_rrset c) now)
     (zone_keys_status K (cz_child c) now))"

text \<open>One kind of denial records: asked only when there are any, and \<open>Secure\<close> ends the search.\<close>

definition denied_by ::
  "resource_record list \<Rightarrow> dnssec_status dnssec_result \<Rightarrow> bool dnssec_result \<Rightarrow> bool dnssec_result"
where
  "denied_by rrset status otherwise =
     (if rrset = [] then otherwise
      else and_then status (\<lambda>status. if status = Secure then Inr True else otherwise))"

definition no_data_denied ::
  "crypto \<Rightarrow> zone_input \<Rightarrow> dns_name \<Rightarrow> record_type \<Rightarrow> denial_input \<Rightarrow> u64 \<Rightarrow> bool dnssec_result"
where
  "no_data_denied K z query_name query_type d now =
     denied_by (dn_nsec_rrset d)
       (validate_nsec_no_data K \<lparr>nd_signer_name = zi_dnskey_owner z, nd_dnskey_rrset = zi_dnskey_rrset z,
          nd_query_name = query_name, nd_query_type = query_type, nd_nsec_rrset = dn_nsec_rrset d,
          nd_nsec_rrsig_rrset = dn_nsec_rrsig_rrset d, nd_now = now\<rparr>)
     (denied_by (dn_nsec3_rrset d)
       (validate_nsec3_no_data K \<lparr>n3nd_signer_name = zi_dnskey_owner z, n3nd_dnskey_rrset = zi_dnskey_rrset z,
          n3nd_query_name = query_name, n3nd_query_type = query_type, n3nd_nsec3_rrset = dn_nsec3_rrset d,
          n3nd_nsec3_rrsig_rrset = dn_nsec3_rrsig_rrset d, n3nd_now = now\<rparr>)
     (Inr False))"

definition name_denied ::
  "crypto \<Rightarrow> zone_input \<Rightarrow> dns_name \<Rightarrow> dns_name \<Rightarrow> denial_input \<Rightarrow> u64 \<Rightarrow> bool dnssec_result"
where
  "name_denied K z query_name closest_encloser d now =
     denied_by (dn_nsec_rrset d)
       (validate_nsec_name_error K \<lparr>ne_signer_name = zi_dnskey_owner z, ne_dnskey_rrset = zi_dnskey_rrset z,
          ne_query_name = query_name, ne_closest_encloser = closest_encloser,
          ne_covering_nsec_rrset = dn_nsec_rrset d, ne_covering_nsec_rrsig_rrset = dn_nsec_rrsig_rrset d,
          ne_wildcard_nsec_rrset = dn_nsec_rrset d, ne_wildcard_nsec_rrsig_rrset = dn_nsec_rrsig_rrset d, ne_now = now\<rparr>)
     (denied_by (dn_nsec3_rrset d)
       (validate_nsec3_name_error K \<lparr>ce_signer_name = zi_dnskey_owner z, ce_dnskey_rrset = zi_dnskey_rrset z,
          ce_query_name = query_name, ce_closest_encloser = closest_encloser,
          ce_closest_encloser_nsec3_rrset = dn_nsec3_rrset d,
          ce_closest_encloser_nsec3_rrsig_rrset = dn_nsec3_rrsig_rrset d,
          ce_next_closer_nsec3_rrset = dn_nsec3_rrset d, ce_next_closer_nsec3_rrsig_rrset = dn_nsec3_rrsig_rrset d,
          ce_now = now, n3ne_wildcard_nsec3_rrset = dn_nsec3_rrset d,
          n3ne_wildcard_nsec3_rrsig_rrset = dn_nsec3_rrsig_rrset d\<rparr>)
     (Inr False))"

text \<open>The denial methods check the keys first.\<close>

definition keys_then :: "dnssec_status dnssec_result \<Rightarrow> bool dnssec_result \<Rightarrow> bool dnssec_result" where
  "keys_then keys denied = and_then keys (\<lambda>status. if status \<noteq> Secure then Inr False else denied)"

definition is_secure :: "dnssec_status dnssec_result \<Rightarrow> bool dnssec_result" where
  "is_secure m = and_then m (\<lambda>status. Inr (status = Secure))"

text \<open>
  Reading the clock, then the verdict with every validator error as \<open>DnssecFailed\<close>; the validators never panic
  (lemma \<open>system_verdicts_total\<close>).
\<close>

definition at_clock :: "('w \<Rightarrow> u64 option \<times> 'w) \<Rightarrow> (u64 \<Rightarrow> bool dnssec_result) \<Rightarrow> 'w verdict_fn" where
  "at_clock clock verdict w =
     (case clock w of
        (None, w) \<Rightarrow> (Inl DnssecFailed, w)
      | (Some now, w) \<Rightarrow> (map_err (\<lambda>_. DnssecFailed) (verdict now), w))"

definition system_verifier :: "crypto \<Rightarrow> ('w \<Rightarrow> u64 option \<times> 'w) \<Rightarrow> 'w dnssec_verifier" where
  "system_verifier K clock =
     \<lparr>vf_positive_rrset = (\<lambda>z rrset sigs. at_clock clock (\<lambda>now. is_secure (zone_rrset_status K z rrset sigs now))),
      vf_no_data = (\<lambda>z q ty d. at_clock clock (\<lambda>now. keys_then (zone_keys_status K z now) (no_data_denied K z q ty d now))),
      vf_name_error = (\<lambda>z q ce d. at_clock clock (\<lambda>now. keys_then (zone_keys_status K z now) (name_denied K z q ce d now))),
      vf_child_positive_rrset = (\<lambda>c rrset sigs. at_clock clock (\<lambda>now. is_secure (child_rrset_status K c rrset sigs now))),
      vf_child_no_data = (\<lambda>c q ty d. at_clock clock (\<lambda>now.
         keys_then (child_keys_status K c now) (no_data_denied K (cz_child c) q ty d now))),
      vf_child_name_error = (\<lambda>c q ce d. at_clock clock (\<lambda>now.
         keys_then (child_keys_status K c now) (name_denied K (cz_child c) q ce d now)))\<rparr>"

section \<open>Lemmas\<close>

subsection \<open>Absence of panics\<close>

definition no_panic :: "'a dnssec_result \<Rightarrow> bool" where
  "no_panic m \<longleftrightarrow> m \<noteq> Inl Panic"

named_theorems no_panics

lemma no_panic_Inr [no_panics]: "no_panic (Inr x)" "no_panic (fails e)"
  by (simp_all add: no_panic_def)

lemma no_panic_and_then [no_panics]:
  "\<lbrakk>no_panic m; \<And>x. m = Inr x \<Longrightarrow> no_panic (f x)\<rbrakk> \<Longrightarrow> no_panic (and_then m f)"
  by (cases m) (auto simp: no_panic_def)

lemma no_panic_if [no_panics]: "\<lbrakk>b \<Longrightarrow> no_panic m; \<not> b \<Longrightarrow> no_panic k\<rbrakk> \<Longrightarrow> no_panic (if b then m else k)"
  by simp

lemma no_panic_map_err [no_panics]: "no_panic (map_err (\<lambda>_. Err e) m)"
  by (cases m) (simp_all add: no_panic_def)

lemma no_panic_when_secure [no_panics]: "\<lbrakk>no_panic m; no_panic k\<rbrakk> \<Longrightarrow> no_panic (when_secure m k)"
  unfolding when_secure_def by (intro no_panics)

lemma no_panic_collect [no_panics]: "(\<And>x. no_panic (f x)) \<Longrightarrow> no_panic (collect_results f xs)"
  unfolding no_panic_def using collect_results_Inl by metis

lemma no_panic_from_record [no_panics]:
  "no_panic (dnskey_from_record r)" "no_panic (ds_from_record r)" "no_panic (rrsig_from_record r)"
  "no_panic (nsec_from_record r)" "no_panic (nsec3_from_record r)"
  by (simp_all add: no_panic_def)

lemma no_panic_try_signatures [no_panics]: "no_panic (try_signatures K rrset now deferred ps)"
proof (induction K rrset now deferred ps rule: try_signatures.induct)
  case (2 K rrset now deferred rrsig dnskey ps)
  then show ?case
    by (cases "verify_rrsig K rrset rrsig dnskey now") (auto simp: no_panic_def split: bool.splits fault.splits)
qed (simp add: no_panic_def split: option.splits)

lemma no_panic_rrset_signature [no_panics]: "no_panic (validate_rrset_signature K owner keys rrset sigs now)"
proof (cases rrset)
  case (Cons first more)
  show ?thesis unfolding validate_rrset_signature_def Cons list.case dnskeys_of_def by (intro no_panics)
qed (simp add: validate_rrset_signature_def no_panics)

lemma no_panic_any_ds_match [no_panics]: "no_panic (any_ds_match K owner ps)"
proof (induction ps)
  case (Cons p ps)
  obtain k d where p: "p = (k, d)" by (cases p)
  show ?case
    unfolding p any_ds_match.simps verify_ds_digest_def ds_digest_def Let_def by (intro no_panics Cons)
qed (simp add: no_panics)

lemma no_panic_delegation_link [no_panics]: "no_panic (validate_delegation_link K owner ds keys)"
  unfolding validate_delegation_link_def dnskeys_of_def by (intro no_panics)

lemma no_panic_signed_rrset [no_panics]: "no_panic (validate_signed_rrset K input)"
  unfolding validate_signed_rrset_def validate_dnskey_rrset_def by (intro no_panics)

lemma no_panic_chain [no_panics]: "no_panic (validate_dnssec_chain K input)"
proof -
  have "no_panic (chain_loop K input owner keys links)" for owner keys links
  proof (induction links arbitrary: owner keys)
    case (Cons link links)
    show ?case unfolding chain_loop.simps validate_dnskey_rrset_def by (intro no_panics Cons)
  qed (simp add: no_panics)
  then show ?thesis unfolding validate_dnssec_chain_def validate_dnskey_rrset_def by (intro no_panics)
qed

lemma no_panic_has_type [no_panics]:
  "nsec_from_record r = Inr n \<Longrightarrow> no_panic (nsec_has_type n t)"
  "nsec3_from_record r = Inr m \<Longrightarrow> no_panic (nsec3_has_type m t)"
  using nsec_has_type_exact nsec3_has_type_exact by (simp_all add: no_panic_def)

lemma no_panic_names [no_panics]: "no_panic (wildcard_child ce)" "no_panic (next_closer_name q ce)"
  "no_panic (nsec3_hash K n a i salt)" "no_panic (nsec3_owner_hash owner zone)"
proof -
  show "no_panic (wildcard_child ce)" unfolding wildcard_child_def by (intro no_panics)
  show "no_panic (next_closer_name q ce)" unfolding next_closer_name_def by (intro no_panics)
  show "no_panic (nsec3_hash K n a i salt)" unfolding nsec3_hash_def by (intro no_panics)
  show "no_panic (nsec3_owner_hash owner zone)"
    by (cases owner) (simp_all add: nsec3_owner_hash_def no_panics)
qed

lemma no_panic_nsec_no_data [no_panics]: "no_panic (validate_nsec_no_data K input)"
proof -
  have "no_panic (nsec_no_data_loop t rs)" for t rs
  proof (induction rs)
    case (Cons r rs)
    then show ?case unfolding nsec_no_data_loop.simps by (intro no_panics) assumption+
  qed (simp add: no_panics)
  then show ?thesis unfolding validate_nsec_no_data_def by (intro no_panics)
qed

lemma no_panic_nsec_name_error [no_panics]: "no_panic (validate_nsec_name_error K input)"
proof -
  have "no_panic (nsec_range_loop q rs)" for q rs
  proof (induction rs)
    case (Cons r rs)
    then show ?case unfolding nsec_range_loop.simps by (intro no_panics)
  qed (simp add: no_panics)
  then have "no_panic (validate_nsec_name_range K i)" for i
    unfolding validate_nsec_name_range_def by (intro no_panics)
  then show ?thesis unfolding validate_nsec_name_error_def by (intro no_panics)
qed

lemma no_panic_nsec3_parts:
  assumes "proof_of zone rrset p"
  shows "no_panic (nsec3_has_type (pf_nsec3 p) t)" "no_panic (closest_nsec3_is_authoritative (pf_nsec3 p))"
    "no_panic (lists_neither (pf_nsec3 p) t)"
proof -
  have t: "no_panic (nsec3_has_type (pf_nsec3 p) t)" for t using assms by (auto simp: proof_of_def intro: no_panics)
  show "no_panic (nsec3_has_type (pf_nsec3 p) t)" by (rule t)
  show "no_panic (closest_nsec3_is_authoritative (pf_nsec3 p))"
    unfolding closest_nsec3_is_authoritative_def by (intro no_panics t)
  show "no_panic (lists_neither (pf_nsec3 p) t)" unfolding lists_neither_def by (intro no_panics t)
qed

lemma no_panic_nsec3_search [no_panics]:
  "no_panic (nsec3_matches_name K n h q)" "no_panic (nsec3_covers_name K n h q)"
  "no_panic (find_nsec3_matching_proof K ps q e)" "no_panic (find_nsec3_covering_proof K ps q e)"
  "no_panic (parse_nsec3_proofs rrset zone)" "no_panic (validate_nsec3_rrset_signature K owner keys rrset sigs now)"
proof -
  show m: "no_panic (nsec3_matches_name K n h q)" for n h unfolding nsec3_matches_name_def by (intro no_panics)
  show c: "no_panic (nsec3_covers_name K n h q)" for n h unfolding nsec3_covers_name_def by (intro no_panics)
  show "no_panic (find_nsec3_matching_proof K ps q e)"
  proof (induction ps)
    case (Cons p ps)
    then show ?case unfolding find_nsec3_matching_proof.simps by (intro no_panics m)
  qed (simp add: no_panics)
  show "no_panic (find_nsec3_covering_proof K ps q e)"
  proof (induction ps)
    case (Cons p ps)
    then show ?case unfolding find_nsec3_covering_proof.simps by (intro no_panics c)
  qed (simp add: no_panics)
  have "no_panic (parse_nsec3_loop zone rs)" for rs
  proof (induction rs)
    case (Cons r rs)
    then show ?case unfolding parse_nsec3_loop.simps by (intro no_panics)
  qed (simp add: no_panics)
  then show "no_panic (parse_nsec3_proofs rrset zone)" by (simp add: parse_nsec3_proofs_def)
  show "no_panic (validate_nsec3_rrset_signature K owner keys rrset sigs now)"
    unfolding validate_nsec3_rrset_signature_def by (intro no_panics)
qed

lemma no_panic_nsec3_no_data [no_panics]: "no_panic (validate_nsec3_no_data K input)"
proof -
  have "(\<And>p. p \<in> set ps \<Longrightarrow> proof_of (n3nd_signer_name input) (n3nd_nsec3_rrset input) p) \<Longrightarrow>
      no_panic (nsec3_no_data_loop K q t ps)" for q t ps
  proof (induction ps)
    case (Cons p ps)
    have "proof_of (n3nd_signer_name input) (n3nd_nsec3_rrset input) p" using Cons.prems by simp
    from no_panic_nsec3_parts(3) [OF this] have "no_panic (lists_neither (pf_nsec3 p) t)" .
    moreover have "no_panic (nsec3_no_data_loop K q t ps)" using Cons by simp
    ultimately show ?case unfolding nsec3_no_data_loop.simps by (intro no_panics)
  qed (simp add: no_panics)
  then show ?thesis
    unfolding validate_nsec3_no_data_def using parse_nsec3_proofs_of by (intro no_panics) blast+
qed

lemma no_panic_proof_when_secure [no_panics]:
  "\<lbrakk>no_panic m; no_panic k\<rbrakk> \<Longrightarrow> no_panic (proof_when_secure m k)"
  unfolding proof_when_secure_def by (intro no_panics)

lemma no_panic_found: "\<lbrakk>no_panic a; \<And>x. m = Some x \<Longrightarrow> no_panic (f x)\<rbrakk> \<Longrightarrow> no_panic (case m of None \<Rightarrow> a | Some x \<Rightarrow> f x)"
  by (cases m) auto

lemma no_panic_closest_encloser [no_panics]: "no_panic (validate_nsec3_closest_encloser_proof K input)"
proof -
  have "no_panic (closest_nsec3_is_authoritative (pf_nsec3 p))"
    if "parse_nsec3_proofs (ce_closest_encloser_nsec3_rrset input) (ce_signer_name input) = Inr ps"
      "find_nsec3_matching_proof K ps q None = Inr (Some p)" for ps q p
    using find_matching_Some [OF that(2)] parse_nsec3_proofs_of [OF that(1)] no_panic_nsec3_parts by blast
  then show ?thesis
    unfolding validate_nsec3_closest_encloser_proof_def
    by (intro no_panics no_panic_found) simp_all
qed

lemma no_panic_with_closest [no_panics]:
  "\<lbrakk>no_panic m; \<And>p. no_panic (k p)\<rbrakk> \<Longrightarrow> no_panic (with_closest_proof m k)"
  unfolding with_closest_proof_def by (cases m) (auto simp: no_panic_def split: nsec3_proof_validation.splits)

lemma no_panic_nsec3_name_error [no_panics]: "no_panic (validate_nsec3_name_error K input)"
  unfolding validate_nsec3_name_error_def by (intro no_panics no_panic_found)

lemma no_panic_denied_by [no_panics]: "\<lbrakk>no_panic m; no_panic k\<rbrakk> \<Longrightarrow> no_panic (denied_by rrset m k)"
  unfolding denied_by_def by (intro no_panics)

lemma no_panic_zone [no_panics]:
  "no_panic (zone_rrset_status K z rrset sigs now)" "no_panic (zone_keys_status K z now)"
  "no_panic (child_rrset_status K c rrset sigs now)" "no_panic (child_keys_status K c now)"
  "no_panic (no_data_denied K z q t d now)" "no_panic (name_denied K z q ce d now)"
  unfolding zone_rrset_status_def zone_keys_status_def child_rrset_status_def child_keys_status_def no_data_denied_def
    name_denied_def
  by (intro no_panics)+

subsection \<open>What a verdict rests on\<close>

lemma keys_then_True: "keys_then m k = Inr True \<longleftrightarrow> m = Inr Secure \<and> k = Inr True"
  by (auto simp: keys_then_def and_then_Inr split: if_splits)

lemma is_secure_True: "is_secure m = Inr True \<longleftrightarrow> m = Inr Secure"
  by (auto simp: is_secure_def and_then_Inr)

lemma at_clock_True:
  "at_clock clock verdict w = (Inr True, w') \<longleftrightarrow> (\<exists>now. clock w = (Some now, w') \<and> verdict now = Inr True)"
  by (cases "clock w") (auto simp: at_clock_def split: option.splits)

lemma at_clock_fst_True: "fst (at_clock clock verdict w) = Inr True \<Longrightarrow> \<exists>now. verdict now = Inr True"
  by (cases "clock w") (auto simp: at_clock_def split: option.splits)

lemma denied_by_True: "denied_by rrset m k = Inr True \<longleftrightarrow> (rrset \<noteq> [] \<and> m = Inr Secure) \<or> ((rrset = [] \<or> (\<exists>s. m = Inr s \<and> s \<noteq> Secure)) \<and> k = Inr True)"
  by (auto simp: denied_by_def and_then_Inr split: if_splits)

text \<open>Signatures whose label count is that of the owners do not cover records of two owners.\<close>

definition unexpanded :: "resource_record list \<Rightarrow> nat \<Rightarrow> bool" where
  "unexpanded sigs k \<longleftrightarrow> (\<forall>sr\<in>set sigs. \<forall>s. rrsig_from_record sr = Inr s \<longrightarrow> unat (sig_labels s) = k)"

lemma canonical_owner_exact:
  "\<lbrakk>wf_name n; unat labels = length n\<rbrakk> \<Longrightarrow> canonical_owner n labels = Inr (wire n)"
  using encode_label_list_closed [of n "[]"]
  by (auto simp: canonical_owner_def wf_name_def wf_label_def list_all_iff wire_def)

lemma two_owners_not_secure:
  assumes "r \<in> set rrset" "s \<in> set rrset" "rr_name r \<noteq> rr_name s" "wf_name (rr_name r)" "wf_name (rr_name s)"
    and "length (rr_name s) = length (rr_name r)" "unexpanded sigs (length (rr_name r))"
  shows "validate_rrset_signature K owner keys rrset sigs now \<noteq> Inr Secure"
proof
  assume "validate_rrset_signature K owner keys rrset sigs now = Inr Secure"
  then obtain sr k g where g: "sr \<in> set sigs" "rrsig_from_record sr = Inr g" "signs K k g rrset now"
    by (auto simp: validate_rrset_signature_Secure signed_by_def)
  then obtain d where "signed_data rrset g now = Inr d" by (auto simp: signs_def)
  then obtain cs where cs: "canonical_rrset rrset g = Inr cs" by (rule signed_data_Inr)
  have "unat (sig_labels g) = length (rr_name r)" using assms(7) g(1,2) by (auto simp: unexpanded_def)
  then have "canonical_owner (rr_name r) (sig_labels g) = Inr (wire (rr_name r))"
    "canonical_owner (rr_name s) (sig_labels g) = Inr (wire (rr_name s))"
    using assms(4-6) by (simp_all add: canonical_owner_exact)
  then have "wire (rr_name r) = wire (rr_name s)"
    using canonical_rrset_uniform(3) [OF cs assms(1)] canonical_rrset_uniform(3) [OF cs assms(2)] by simp
  then have eq: "wire (rr_name r) = wire (rr_name s)" .
  have "parse_wire (wire n) 0 = Inr (n, length (wire n))" if "wf_name n" for n
    using parse_wire_at [OF that, of "wire n" "[]" "[]" 0] that
    by (simp add: wf_name_def length_wire)
  from this [OF assms(4)] this [OF assms(5)] eq assms(3) show False by simp
qed

section \<open>Properties\<close>



text \<open>NSEC3 records of two owners under one zone, with a signature whose label count is one.\<close>

definition hashed_record :: "rust_str \<Rightarrow> resource_record" where
  "hashed_record l = gap_record\<lparr>rr_name := [l]\<rparr>"

definition one_label_sig :: resource_record where
  "one_label_sig = \<lparr>rr_name = [ascii ''a''], rr_type = TypeRrsig, rr_class = 1, rr_ttl = 60,
     rr_rdata = [0, 50, 15, 1, 0, 0, 0, 60, 0, 0, 0, 100, 0, 0, 0, 10, 0, 7, 0, 9]\<rparr>"

definition two_gaps :: denial_input where
  "two_gaps = \<lparr>dn_nsec_rrset = [], dn_nsec_rrsig_rrset = [],
     dn_nsec3_rrset = [hashed_record (ascii ''a''), hashed_record (ascii ''b'')], dn_nsec3_rrsig_rrset = [one_label_sig]\<rparr>"

lemma rrsig_labels: "rrsig_from_record r = Inr s \<Longrightarrow> sig_labels s = rr_rdata r ! 3"
  by (auto simp: rrsig_from_record_def rrsig_parse_rdata_def and_then_Inr split: if_splits)

lemma one_letter_names: "wf_name [ascii ''a'']" "wf_name [ascii ''b'']"
  by (simp_all add: wf_name_def wf_label_def is_valid_dns_label_def ascii_def is_ascii_alphanumeric_def
      is_ascii_lower_def to_ascii_lowercase_def to_ascii_lower_byte_def is_ascii_upper_def)


end
