(* ===== verification/Delegated_Resolver.thy ===== *)
theory Delegated_Resolver
  imports Dnssec_Verifier
begin

text \<open>
  \<open>AuthoritativeDnssecResolver\<close> of \<open>hns-resolver/src/lib.rs\<close>: a name below a delegation is asked from the delegation's
  nameservers, over DNS or over the authoritative DoH endpoints it declares, and the answer, its CNAME chain or its denial is
  validated against the DS set that the proven name holds, through one child zone if there is one. The functions for the
  two kinds of target have the same text in the code and are one definition here, with the target and the address for
  the follow-up queries as arguments.
\<close>

section \<open>Definitions\<close>

type_synonym ('a, 'w) dns_io = "'w dns_state \<Rightarrow> (resolver_error + 'a) \<times> 'w dns_state"

definition MAX_CNAME_CHAIN_LEN :: nat where "MAX_CNAME_CHAIN_LEN = 8"

subsection \<open>Records\<close>

definition dns_name_is_subdomain_or_equal :: "dns_name \<Rightarrow> dns_name \<Rightarrow> bool" where
  "dns_name_is_subdomain_or_equal name parent = ends_with name parent"

definition records_at :: "resource_record list \<Rightarrow> dns_name \<Rightarrow> record_type \<Rightarrow> resource_record list" where
  "records_at records owner t = filter (\<lambda>r. rr_name r = owner \<and> rr_type r = t) records"

definition records_of_type :: "resource_record list \<Rightarrow> record_type \<Rightarrow> resource_record list" where
  "records_of_type records t = filter (\<lambda>r. rr_type r = t) records"

definition combined_response_records :: "dns_message \<Rightarrow> resource_record list" where
  "combined_response_records response = answers response @ authorities response"

definition cname_target :: "resource_record list \<Rightarrow> resolver_error + dns_name" where
  "cname_target cname_rrset =
     (case cname_rrset of
        [r] \<Rightarrow> if rr_type r \<noteq> TypeCname then Inl DnssecFailed else ok_or DnssecFailed (record_name_rdata r)
      | _ \<Rightarrow> Inl DnssecFailed)"

text \<open>\<open>max_by_key(|owner| owner.labels().len())\<close>: the last one of the greatest number of labels.\<close>

definition longest_name :: "dns_name list \<Rightarrow> dns_name option" where
  "longest_name names =
     fold (\<lambda>n m. case m of None \<Rightarrow> Some n | Some b \<Rightarrow> Some (if length b \<le> length n then n else b)) names None"

text \<open>A zone strictly below the delegation's owner that holds the name asked for.\<close>

definition between :: "dns_name \<Rightarrow> dns_name \<Rightarrow> dns_name \<Rightarrow> bool" where
  "between parent_owner request_name owner \<longleftrightarrow>
     owner \<noteq> parent_owner \<and> dns_name_is_subdomain_or_equal owner parent_owner \<and>
     dns_name_is_subdomain_or_equal request_name owner"

record child_referral =
  cr_owner :: dns_name
  cr_ds_rrset :: "resource_record list"
  cr_ds_rrsig_rrset :: "resource_record list"
  cr_servers :: "socket_addr list"

definition child_referral_of :: "dns_message \<Rightarrow> dns_name \<Rightarrow> dns_name \<Rightarrow> child_referral option" where
  "child_referral_of response parent_owner request_name =
     (case longest_name (filter (between parent_owner request_name) (map rr_name
         (filter (\<lambda>r. rr_type r = TypeNs) (authorities response)))) of
        None \<Rightarrow> None
      | Some owner \<Rightarrow>
          (let ns_rrset = records_at (authorities response) owner TypeNs;
               ds_rrset = records_at (authorities response) owner TypeDs;
               ds_rrsig_rrset = records_at (authorities response) owner TypeRrsig in
           if ns_rrset = [] \<or> ds_rrset = [] \<or> ds_rrsig_rrset = [] then None
           else Some \<lparr>cr_owner = owner, cr_ds_rrset = ds_rrset, cr_ds_rrsig_rrset = ds_rrsig_rrset,
             cr_servers = referral_nameserver_addresses ns_rrset (additionals response)\<rparr>))"

text \<open>The first signature of the set by a zone in between; a signature that does not parse ends the search.\<close>

fun first_child_signer :: "dns_name \<Rightarrow> dns_name \<Rightarrow> record_type \<Rightarrow> resource_record list \<Rightarrow> dns_name option" where
  "first_child_signer delegation_owner request_name t [] = None"
| "first_child_signer delegation_owner request_name t (r # rs) =
     (case rrsig_from_record r of
        Inl _ \<Rightarrow> None
      | Inr rrsig \<Rightarrow>
          if sig_type_covered rrsig = t \<and> between delegation_owner request_name (sig_signer_name rrsig)
          then Some (sig_signer_name rrsig) else first_child_signer delegation_owner request_name t rs)"

definition inline_child_answer_signer ::
  "hns_delegation \<Rightarrow> dns_name \<Rightarrow> resource_record list \<Rightarrow> resource_record list \<Rightarrow> record_type \<Rightarrow> dns_name option"
where
  "inline_child_answer_signer delegation request_name rrset rrsig_rrset t =
     (case rrset of
        [] \<Rightarrow> None
      | first # _ \<Rightarrow> first_child_signer (hd_owner delegation) request_name t
          (filter (\<lambda>r. rr_name r = rr_name first \<and> rr_class r = rr_class first \<and> rr_type r = TypeRrsig) rrsig_rrset))"

definition denial_signer :: "dns_name \<Rightarrow> dns_name \<Rightarrow> resource_record \<Rightarrow> dns_name option" where
  "denial_signer delegation_owner request_name r =
     (case rrsig_from_record r of
        Inl _ \<Rightarrow> None
      | Inr rrsig \<Rightarrow>
          if (sig_type_covered rrsig = TypeNsec \<or> sig_type_covered rrsig = TypeNsec3) \<and>
             between delegation_owner request_name (sig_signer_name rrsig)
          then Some (sig_signer_name rrsig) else None)"

definition inline_child_denial_signer :: "hns_delegation \<Rightarrow> dns_name \<Rightarrow> resource_record list \<Rightarrow> dns_name option" where
  "inline_child_denial_signer delegation request_name proof_records =
     longest_name (List.map_filter (denial_signer (hd_owner delegation) request_name)
       (filter (\<lambda>r. rr_type r = TypeRrsig) proof_records))"

definition closest_encloser_candidates :: "dns_name \<Rightarrow> dns_name \<Rightarrow> resolver_error + dns_name list" where
  "closest_encloser_candidates query_name zone_owner =
     (if length query_name \<le> length zone_owner \<or> \<not> ends_with query_name zone_owner then Inr []
      else collect_results (\<lambda>start. map_err (\<lambda>_. InvalidDnsResponse) (from_ascii (str_join [46] (drop start query_name))))
        [1 ..< length query_name - length zone_owner + 1])"

subsection \<open>Denials\<close>

text \<open>
  What is validated against: the zone of the delegation, or a child of it. The two groups of functions differ in the
  method of the verifier they call, in the owner that bounds names, and in the check for missing keys.
\<close>

datatype signing_zone = DelegatedZone zone_input | ChildZone child_zone_input

fun apex :: "signing_zone \<Rightarrow> dns_name" where
  "apex (DelegatedZone z) = zi_dnskey_owner z"
| "apex (ChildZone c) = zi_dnskey_owner (cz_child c)"

definition zone_keys_missing :: "zone_input \<Rightarrow> bool" where
  "zone_keys_missing z \<longleftrightarrow> zi_dnskey_rrset z = [] \<or> zi_dnskey_rrsig_rrset z = []"

fun verify_positive :: "'w dnssec_verifier \<Rightarrow> signing_zone \<Rightarrow> resource_record list \<Rightarrow> resource_record list \<Rightarrow> 'w verdict_fn"
where
  "verify_positive V (DelegatedZone z) rrset sigs = vf_positive_rrset V z rrset sigs"
| "verify_positive V (ChildZone c) rrset sigs = vf_child_positive_rrset V c rrset sigs"

fun verify_no_data :: "'w dnssec_verifier \<Rightarrow> signing_zone \<Rightarrow> dns_name \<Rightarrow> record_type \<Rightarrow> denial_input \<Rightarrow> 'w verdict_fn" where
  "verify_no_data V (DelegatedZone z) q t d = vf_no_data V z q t d"
| "verify_no_data V (ChildZone c) q t d = vf_child_no_data V c q t d"

fun verify_name_error :: "'w dnssec_verifier \<Rightarrow> signing_zone \<Rightarrow> dns_name \<Rightarrow> dns_name \<Rightarrow> denial_input \<Rightarrow> 'w verdict_fn" where
  "verify_name_error V (DelegatedZone z) q ce d = vf_name_error V z q ce d"
| "verify_name_error V (ChildZone c) q ce d = vf_child_name_error V c q ce d"

text \<open>\<open>resolve_secure_no_data\<close> and \<open>resolve_secure_child_no_data\<close>; only the former looks for missing keys.\<close>

fun no_data_keys_missing :: "signing_zone \<Rightarrow> bool" where
  "no_data_keys_missing (DelegatedZone z) = zone_keys_missing z"
| "no_data_keys_missing (ChildZone c) = False"

fun name_error_keys_missing :: "signing_zone \<Rightarrow> bool" where
  "name_error_keys_missing (DelegatedZone z) = zone_keys_missing z"
| "name_error_keys_missing (ChildZone c) = zone_keys_missing (cz_child c)"

definition secure_or_failed :: "resolution_answer \<Rightarrow> 'w verdict_fn \<Rightarrow> 'w \<Rightarrow> (resolver_error + resolution_answer) \<times> 'w" where
  "secure_or_failed answer verdict = io_then verdict (\<lambda>secure. io_pure (if secure then Inr answer else Inl DnssecFailed))"

definition resolve_secure_no_data ::
  "'w dnssec_verifier \<Rightarrow> signing_zone \<Rightarrow> dns_name \<Rightarrow> record_type \<Rightarrow> dns_message \<Rightarrow> resource_record list \<Rightarrow>
   'w \<Rightarrow> (resolver_error + resolution_answer) \<times> 'w"
where
  "resolve_secure_no_data V Z request_name qtype response prefix_records =
     (if no_data_keys_missing Z then io_pure (Inl DnssecFailed) else
      let proof_records = combined_response_records response in
      secure_or_failed \<lparr>ans_name = request_name, ans_records = prefix_records, ans_secure = True\<rparr>
        (verify_no_data V Z request_name qtype
          \<lparr>dn_nsec_rrset = records_at proof_records request_name TypeNsec,
           dn_nsec_rrsig_rrset = records_of_type proof_records TypeRrsig,
           dn_nsec3_rrset = records_of_type proof_records TypeNsec3,
           dn_nsec3_rrsig_rrset = records_of_type proof_records TypeRrsig\<rparr>))"

fun name_error_loop ::
  "'w dnssec_verifier \<Rightarrow> signing_zone \<Rightarrow> dns_name \<Rightarrow> denial_input \<Rightarrow> resource_record list \<Rightarrow> dns_name list \<Rightarrow>
   'w \<Rightarrow> (resolver_error + resolution_answer) \<times> 'w"
where
  "name_error_loop V Z request_name d prefix_records [] = io_pure (Inl DnssecFailed)"
| "name_error_loop V Z request_name d prefix_records (closest_encloser # candidates) =
     io_then (verify_name_error V Z request_name closest_encloser d) (\<lambda>secure.
     if secure then io_pure (Inr \<lparr>ans_name = request_name, ans_records = prefix_records, ans_secure = True\<rparr>)
     else name_error_loop V Z request_name d prefix_records candidates)"

definition resolve_secure_name_error ::
  "'w dnssec_verifier \<Rightarrow> signing_zone \<Rightarrow> dns_name \<Rightarrow> dns_message \<Rightarrow> resource_record list \<Rightarrow>
   'w \<Rightarrow> (resolver_error + resolution_answer) \<times> 'w"
where
  "resolve_secure_name_error V Z request_name response prefix_records =
     (if name_error_keys_missing Z then io_pure (Inl DnssecFailed) else
      let proof_records = combined_response_records response;
          d = \<lparr>dn_nsec_rrset = records_of_type proof_records TypeNsec,
               dn_nsec_rrsig_rrset = records_of_type proof_records TypeRrsig,
               dn_nsec3_rrset = records_of_type proof_records TypeNsec3,
               dn_nsec3_rrsig_rrset = records_of_type proof_records TypeRrsig\<rparr> in
      io_then (io_pure (closest_encloser_candidates request_name (apex Z)))
        (name_error_loop V Z request_name d prefix_records))"

subsection \<open>Answers\<close>

definition validate_secure_rrset ::
  "'w dnssec_verifier \<Rightarrow> signing_zone \<Rightarrow> dns_name \<Rightarrow> resource_record list \<Rightarrow> dns_message \<Rightarrow>
   'w \<Rightarrow> (resolver_error + unit) \<times> 'w"
where
  "validate_secure_rrset V Z owner rrset response =
     (let rrsig_rrset = records_at (answers response) owner TypeRrsig in
      if rrsig_rrset = [] then io_pure (Inl DnssecFailed)
      else io_then (verify_positive V Z rrset rrsig_rrset) (\<lambda>secure. io_pure (if secure then Inr () else Inl DnssecFailed)))"

text \<open>The loop over a CNAME chain, \<open>MAX_CNAME_CHAIN_LEN + 1\<close> turns; \<open>query\<close> asks the next owner.\<close>

fun answer_loop ::
  "'w dnssec_verifier \<Rightarrow> (dns_name \<Rightarrow> (dns_message, 'w) dns_io) \<Rightarrow> signing_zone \<Rightarrow> dns_name \<Rightarrow> record_type \<Rightarrow> nat \<Rightarrow>
   dns_message \<Rightarrow> dns_name \<Rightarrow> resource_record list \<Rightarrow> (resolution_answer, 'w) dns_io"
where
  "answer_loop V query Z request_name qtype 0 response owner cname_records = io_pure (Inl DnssecFailed)"
| "answer_loop V query Z request_name qtype (Suc n) response owner cname_records =
     (let target_rrset = records_at (answers response) owner qtype;
          cname_rrset = (if qtype = TypeCname then [] else records_at (answers response) owner TypeCname) in
      if target_rrset \<noteq> [] \<and> cname_rrset \<noteq> [] then io_pure (Inl DnssecFailed)
      else if target_rrset \<noteq> [] then
        io_then (on_dns_world (validate_secure_rrset V Z owner target_rrset response)) (\<lambda>_.
        io_pure (Inr \<lparr>ans_name = request_name, ans_records = cname_records @ target_rrset, ans_secure = True\<rparr>))
      else if cname_rrset \<noteq> [] then
        io_then (on_dns_world (validate_secure_rrset V Z owner cname_rrset response)) (\<lambda>_.
        io_then (io_pure (cname_target cname_rrset)) (\<lambda>next_owner.
        if \<not> dns_name_is_subdomain_or_equal next_owner (apex Z) then io_pure (Inl DnssecFailed)
        else answer_loop V query Z request_name qtype n response next_owner (cname_records @ cname_rrset)))
      else if owner \<noteq> request_name \<and> q_name (questions response ! 0) \<noteq> owner then
        io_then (query owner) (\<lambda>response. answer_loop V query Z request_name qtype n response owner cname_records)
      else if rcode (dh_flags (msg_header response)) = DNS_RCODE_NXDOMAIN then
        on_dns_world (resolve_secure_name_error V Z owner response cname_records)
      else on_dns_world (resolve_secure_no_data V Z owner qtype response cname_records))"

definition resolve_secure_answer_records ::
  "'w dns_transport \<Rightarrow> 'w dnssec_verifier \<Rightarrow> dns_target \<Rightarrow> signing_zone \<Rightarrow> dns_name \<Rightarrow> record_type \<Rightarrow> dns_message \<Rightarrow>
   (resolution_answer, 'w) dns_io"
where
  "resolve_secure_answer_records tp V target Z request_name qtype initial_response =
     answer_loop V (\<lambda>owner. dns_query_target tp target owner qtype) Z request_name qtype (Suc MAX_CNAME_CHAIN_LEN)
       initial_response request_name []"

subsection \<open>Child zones\<close>

definition fetch_inline_child_dnssec_material ::
  "'w dns_transport \<Rightarrow> zone_input \<Rightarrow> socket_addr \<Rightarrow> dns_name \<Rightarrow> (child_zone_input, 'w) dns_io"
where
  "fetch_inline_child_dnssec_material tp parent server child_owner =
     io_then (dns_query tp server child_owner TypeDs) (\<lambda>ds_response.
     io_then (dns_query tp server child_owner TypeDnskey) (\<lambda>dnskey_response.
     let ds_rrset = records_at (answers ds_response) child_owner TypeDs;
         ds_rrsig_rrset = records_at (answers ds_response) child_owner TypeRrsig;
         dnskey_rrset = records_at (answers dnskey_response) child_owner TypeDnskey;
         dnskey_rrsig_rrset = records_at (answers dnskey_response) child_owner TypeRrsig in
     io_pure (if ds_rrset = [] \<or> ds_rrsig_rrset = [] \<or> dnskey_rrset = [] \<or> dnskey_rrsig_rrset = [] then Inl DnssecFailed
       else Inr \<lparr>cz_parent = parent, cz_child = \<lparr>zi_dnskey_owner = child_owner, zi_ds_rrset = ds_rrset,
           zi_dnskey_rrset = dnskey_rrset, zi_dnskey_rrsig_rrset = dnskey_rrsig_rrset\<rparr>,
         cz_child_ds_rrsig_rrset = ds_rrsig_rrset\<rparr>)))"

definition resolve_secure_inline_child_answer ::
  "'w dns_transport \<Rightarrow> 'w dnssec_verifier \<Rightarrow> zone_input \<Rightarrow> dns_name \<Rightarrow> socket_addr \<Rightarrow> dns_name \<Rightarrow>
   resource_record list \<Rightarrow> resource_record list \<Rightarrow> (resolution_answer, 'w) dns_io"
where
  "resolve_secure_inline_child_answer tp V parent child_owner server request_name target_rrset target_rrsig_rrset =
     (if zone_keys_missing parent \<or> target_rrset = [] \<or> target_rrsig_rrset = [] then io_pure (Inl DnssecFailed)
      else io_then (fetch_inline_child_dnssec_material tp parent server child_owner) (\<lambda>c.
        on_dns_world (secure_or_failed \<lparr>ans_name = request_name, ans_records = target_rrset, ans_secure = True\<rparr>
          (verify_positive V (ChildZone c) target_rrset target_rrsig_rrset))))"

definition resolve_secure_inline_child_no_data ::
  "'w dns_transport \<Rightarrow> 'w dnssec_verifier \<Rightarrow> zone_input \<Rightarrow> dns_name \<Rightarrow> socket_addr \<Rightarrow> dns_name \<Rightarrow> record_type \<Rightarrow>
   dns_message \<Rightarrow> (resolution_answer, 'w) dns_io"
where
  "resolve_secure_inline_child_no_data tp V parent child_owner server request_name qtype response =
     (if zone_keys_missing parent then io_pure (Inl DnssecFailed)
      else io_then (fetch_inline_child_dnssec_material tp parent server child_owner) (\<lambda>c.
        on_dns_world (resolve_secure_no_data V (ChildZone c) request_name qtype response [])))"

definition resolve_secure_child_from_server ::
  "'w dns_transport \<Rightarrow> 'w dnssec_verifier \<Rightarrow> zone_input \<Rightarrow> child_referral \<Rightarrow> dns_name \<Rightarrow> record_type \<Rightarrow> socket_addr \<Rightarrow>
   (resolution_answer, 'w) dns_io"
where
  "resolve_secure_child_from_server tp V parent referral request_name qtype server =
     io_then (dns_query tp server (cr_owner referral) TypeDnskey) (\<lambda>dnskey_response.
     let child = \<lparr>zi_dnskey_owner = cr_owner referral, zi_ds_rrset = cr_ds_rrset referral,
           zi_dnskey_rrset = records_at (answers dnskey_response) (cr_owner referral) TypeDnskey,
           zi_dnskey_rrsig_rrset = records_at (answers dnskey_response) (cr_owner referral) TypeRrsig\<rparr> in
     if zone_keys_missing child then io_pure (Inl DnssecFailed)
     else io_then (dns_query tp server request_name qtype)
       (resolve_secure_answer_records tp V (TargetServer server)
         (ChildZone \<lparr>cz_parent = parent, cz_child = child, cz_child_ds_rrsig_rrset = cr_ds_rrsig_rrset referral\<rparr>)
         request_name qtype))"

text \<open>Trying one after the other until one answers; otherwise the last error.\<close>

fun try_each :: "('a \<Rightarrow> 's \<Rightarrow> ('e + 'b) \<times> 's) \<Rightarrow> 'a list \<Rightarrow> 'e option \<Rightarrow> 's \<Rightarrow> ('e option + 'b) \<times> 's" where
  "try_each f [] last_error st = (Inl last_error, st)"
| "try_each f (x # xs) last_error st =
     (case f x st of
        (Inr y, st) \<Rightarrow> (Inr y, st)
      | (Inl e, st) \<Rightarrow> try_each f xs (Some e) st)"

definition last_or :: "'e \<Rightarrow> ('e option + 'b) \<times> 's \<Rightarrow> ('e + 'b) \<times> 's" where
  "last_or none r = (map_err (\<lambda>e. case e of None \<Rightarrow> none | Some e \<Rightarrow> e) (fst r), snd r)"

definition first_allowed :: "endpoint_policy \<Rightarrow> socket_addr list \<Rightarrow> socket_addr option" where
  "first_allowed policy servers = List.find (\<lambda>server. validate_dns_server policy server = Inr ()) servers"

definition resolve_secure_child_referral ::
  "'w dns_transport \<Rightarrow> 'w dnssec_verifier \<Rightarrow> zone_input \<Rightarrow> child_referral \<Rightarrow> dns_name \<Rightarrow> record_type \<Rightarrow>
   (resolution_answer, 'w) dns_io"
where
  "resolve_secure_child_referral tp V parent referral request_name qtype =
     (let ask = resolve_secure_child_from_server tp V parent referral request_name qtype in
      if zone_keys_missing parent \<or> cr_ds_rrset referral = [] \<or> cr_ds_rrsig_rrset referral = []
      then io_pure (Inl DnssecFailed)
      else if cr_servers referral = [] then io_pure (Inl NoNameserverAddress)
      else if dt_is_recursive_relay tp then
        (case first_allowed (dt_endpoint_policy tp) (cr_servers referral) of
           None \<Rightarrow> io_pure (Inl NoNameserverAddress)
         | Some server \<Rightarrow> ask server)
      else (\<lambda>st. last_or NoNameserverAddress (try_each ask (cr_servers referral) None st)))"

subsection \<open>One target\<close>

text \<open>
  What follows once the answer and the keys of the delegation are there; \<open>server\<close> is the address asked for an inline
  child's keys.
\<close>

definition resolve_validated ::
  "'w dns_transport \<Rightarrow> 'w dnssec_verifier \<Rightarrow> socket_addr \<Rightarrow> dns_target \<Rightarrow> hns_delegation \<Rightarrow> zone_input \<Rightarrow> dns_name \<Rightarrow>
   record_type \<Rightarrow> dns_message \<Rightarrow> (resolution_answer, 'w) dns_io"
where
  "resolve_validated tp V server target delegation z request_name qtype response =
     (let target_rrset = records_at (answers response) request_name qtype;
          target_rrsig_rrset = records_at (answers response) request_name TypeRrsig in
     if rcode (dh_flags (msg_header response)) = DNS_RCODE_NXDOMAIN then
       on_dns_world (resolve_secure_name_error V (DelegatedZone z) request_name response [])
     else case child_referral_of response (hd_owner delegation) request_name of
       Some referral \<Rightarrow> resolve_secure_child_referral tp V z referral request_name qtype
     | None \<Rightarrow>
     (case inline_child_answer_signer delegation request_name target_rrset target_rrsig_rrset qtype of
       Some child_owner \<Rightarrow>
         resolve_secure_inline_child_answer tp V z child_owner server request_name target_rrset target_rrsig_rrset
     | None \<Rightarrow>
     if target_rrset = [] \<and> records_at (answers response) request_name TypeCname = [] then
       (case inline_child_denial_signer delegation request_name (combined_response_records response) of
          Some child_owner \<Rightarrow>
            resolve_secure_inline_child_no_data tp V z child_owner server request_name qtype response
        | None \<Rightarrow> on_dns_world (resolve_secure_no_data V (DelegatedZone z) request_name qtype response []))
     else if zone_keys_missing z then io_pure (Inl DnssecFailed)
     else resolve_secure_answer_records tp V target (DelegatedZone z) request_name qtype response))"

definition resolve_delegated_from_target ::
  "'w dns_transport \<Rightarrow> 'w dnssec_verifier \<Rightarrow> socket_addr \<Rightarrow> dns_target \<Rightarrow> hns_delegation \<Rightarrow> dns_name \<Rightarrow> record_type \<Rightarrow>
   resource_record list \<Rightarrow> (resolution_answer, 'w) dns_io"
where
  "resolve_delegated_from_target tp V server target delegation request_name qtype ds_rrset =
     io_then (dns_query_target tp target request_name qtype) (\<lambda>response.
     if ds_rrset = [] then io_pure (Inr \<lparr>ans_name = request_name,
       ans_records = records_at (answers response) request_name qtype, ans_secure = False\<rparr>) else
     io_then (dns_query_target tp target (hd_owner delegation) TypeDnskey) (\<lambda>dnskey_response.
     resolve_validated tp V server target delegation
       \<lparr>zi_dnskey_owner = hd_owner delegation, zi_ds_rrset = ds_rrset,
        zi_dnskey_rrset = records_at (answers dnskey_response) (hd_owner delegation) TypeDnskey,
        zi_dnskey_rrsig_rrset = records_at (answers dnskey_response) (hd_owner delegation) TypeRrsig\<rparr>
       request_name qtype response))"

definition resolve_delegated_from_doh_endpoint ::
  "'w dns_transport \<Rightarrow> 'w dnssec_verifier \<Rightarrow> hns_delegation \<Rightarrow> dns_name \<Rightarrow> record_type \<Rightarrow> resource_record list \<Rightarrow>
   doh_endpoint \<Rightarrow> (resolution_answer, 'w) dns_io"
where
  "resolve_delegated_from_doh_endpoint tp V delegation request_name qtype ds_rrset endpoint =
     resolve_delegated_from_target tp V (de_connect_addr endpoint, de_port endpoint) (TargetDoh endpoint) delegation
       request_name qtype ds_rrset"

definition resolve_delegated_from_server ::
  "'w dns_transport \<Rightarrow> 'w dnssec_verifier \<Rightarrow> hns_delegation \<Rightarrow> dns_name \<Rightarrow> record_type \<Rightarrow> resource_record list \<Rightarrow>
   socket_addr \<Rightarrow> (resolution_answer, 'w) dns_io"
where
  "resolve_delegated_from_server tp V delegation request_name qtype ds_rrset server st =
     (case resolve_delegated_from_target tp V server (TargetServer server) delegation request_name qtype ds_rrset st of
        (Inl DnssecFailed, st) \<Rightarrow>
          resolve_delegated_from_target tp V server (TargetServerTcp server) delegation request_name qtype ds_rrset
            (st\<lparr>dn_world := dt_probe_dns_interception tp (dn_world st)\<rparr>)
      | r \<Rightarrow> r)"

subsection \<open>DoH endpoints\<close>

definition endpoint_of :: "doh_template \<Rightarrow> ip_addr \<Rightarrow> doh_endpoint" where
  "endpoint_of t a = \<lparr>de_ns = dtm_ns t, de_host = dtm_host t, de_connect_addr = a, de_port = dtm_port t,
     de_path_and_query = dtm_path_and_query t, de_tls_authentication = dtm_tls_authentication t\<rparr>"

definition declared_endpoints :: "(dns_name \<times> ip_addr) list \<Rightarrow> doh_template list \<Rightarrow> doh_endpoint list" where
  "declared_endpoints address_map templates =
     fold push_new (concat (map (\<lambda>t. map (\<lambda>(ns, a). endpoint_of t a)
       (filter (\<lambda>(ns, a). ns = dtm_ns t) address_map)) templates)) []"

fun svcb_endpoints :: "dns_name \<Rightarrow> ip_addr \<Rightarrow> resource_record list \<Rightarrow> doh_endpoint list \<Rightarrow> resolver_error + doh_endpoint list"
where
  "svcb_endpoints ns address [] endpoints = Inr endpoints"
| "svcb_endpoints ns address (r # rs) endpoints =
     and_then (authoritative_doh_template_from_svcb ns r) (\<lambda>template.
     svcb_endpoints ns address rs
       (case template of None \<Rightarrow> endpoints | Some t \<Rightarrow> push_new (endpoint_of t address) endpoints))"

fun svcb_loop ::
  "'w dns_transport \<Rightarrow> 'w dnssec_verifier \<Rightarrow> hns_delegation \<Rightarrow> resource_record list \<Rightarrow> (dns_name \<times> ip_addr) list \<Rightarrow>
   doh_endpoint list \<Rightarrow> (doh_endpoint list, 'w) dns_io"
where
  "svcb_loop tp V delegation ds_rrset [] endpoints st = (Inr endpoints, st)"
| "svcb_loop tp V delegation ds_rrset ((ns, address) # others) endpoints st =
     (case dns_service_binding_name ns of
        Inl e \<Rightarrow> (Inl e, st)
      | Inr binding \<Rightarrow>
     (case resolve_delegated_from_server tp V delegation binding TypeSvcb ds_rrset (address, 53) st of
        (Inl _, st) \<Rightarrow> svcb_loop tp V delegation ds_rrset others endpoints st
      | (Inr response, st) \<Rightarrow>
          if \<not> ans_secure response then svcb_loop tp V delegation ds_rrset others endpoints st else
          (case svcb_endpoints ns address (records_at (ans_records response) binding TypeSvcb) endpoints of
             Inl e \<Rightarrow> (Inl e, st)
           | Inr endpoints \<Rightarrow> svcb_loop tp V delegation ds_rrset others endpoints st)))"

definition authoritative_doh_endpoints ::
  "(rust_str \<Rightarrow> bytes option) \<Rightarrow> 'w dns_transport \<Rightarrow> 'w dnssec_verifier \<Rightarrow> hns_delegation \<Rightarrow> (doh_endpoint list, 'w) dns_io"
where
  "authoritative_doh_endpoints hex_decode tp V delegation =
     (let address_map = nameserver_ip_addresses delegation in
      io_then (io_pure (authoritative_doh_templates_from_hns hex_decode delegation)) (\<lambda>templates.
      let endpoints = declared_endpoints address_map templates in
      if endpoints \<noteq> [] then io_pure (Inr endpoints) else
      let ds_rrset = records_at (hd_records delegation) (hd_owner delegation) TypeDs in
      if ds_rrset = [] then io_pure (Inr endpoints)
      else svcb_loop tp V delegation ds_rrset address_map endpoints))"

definition cached_doh_endpoints ::
  "(rust_str \<Rightarrow> bytes option) \<Rightarrow> 'w dns_transport \<Rightarrow> 'w dnssec_verifier \<Rightarrow> hns_delegation \<Rightarrow> (doh_endpoint list, 'w) dns_io"
where
  "cached_doh_endpoints hex_decode tp V delegation st =
     (let cache_key = authoritative_doh_cache_key delegation in
      case dn_doh_cache st cache_key of
        Some cached \<Rightarrow> (Inr cached, st)
      | None \<Rightarrow>
          io_then (authoritative_doh_endpoints hex_decode tp V delegation) (\<lambda>endpoints st.
            (Inr endpoints, st\<lparr>dn_doh_cache := (dn_doh_cache st)(cache_key \<mapsto> endpoints)\<rparr>)) st)"

subsection \<open>The resolver\<close>

record 'w dnssec_resolver =
  ar_transport :: "'w dns_transport"
  ar_verifier :: "'w dnssec_verifier"
  ar_doh_enabled :: bool
  ar_prefer_doh :: bool

definition dnssec_resolver_new :: "'w dns_transport \<Rightarrow> 'w dnssec_verifier \<Rightarrow> 'w dnssec_resolver" where
  "dnssec_resolver_new tp V = \<lparr>ar_transport = tp, ar_verifier = V, ar_doh_enabled = True, ar_prefer_doh = False\<rparr>"

definition with_authoritative_doh_preferred :: "'w dnssec_resolver \<Rightarrow> 'w dnssec_resolver" where
  "with_authoritative_doh_preferred R = R\<lparr>ar_prefer_doh := True\<rparr>"

definition without_authoritative_doh :: "'w dnssec_resolver \<Rightarrow> 'w dnssec_resolver" where
  "without_authoritative_doh R = R\<lparr>ar_doh_enabled := False, ar_prefer_doh := False\<rparr>"

text \<open>The DoH endpoints tried one by one. An error while finding them is the last error when they come first, and ends the
  resolution when they come last.\<close>

definition try_doh ::
  "'w dnssec_resolver \<Rightarrow> hns_delegation \<Rightarrow> dns_name \<Rightarrow> record_type \<Rightarrow> resource_record list \<Rightarrow>
   doh_endpoint list \<Rightarrow> resolver_error option \<Rightarrow> 'w dns_state \<Rightarrow> (resolver_error option + resolution_answer) \<times> 'w dns_state"
where
  "try_doh R delegation request_name qtype ds_rrset =
     try_each (resolve_delegated_from_doh_endpoint (ar_transport R) (ar_verifier R) delegation request_name qtype ds_rrset)"

definition preferred_doh ::
  "(rust_str \<Rightarrow> bytes option) \<Rightarrow> 'w dnssec_resolver \<Rightarrow> hns_delegation \<Rightarrow> dns_name \<Rightarrow> record_type \<Rightarrow> resource_record list \<Rightarrow>
   'w dns_state \<Rightarrow> (resolver_error option + resolution_answer) \<times> 'w dns_state"
where
  "preferred_doh hex_decode R delegation request_name qtype ds_rrset st =
     (if ar_doh_enabled R \<and> ar_prefer_doh R then
        (case cached_doh_endpoints hex_decode (ar_transport R) (ar_verifier R) delegation st of
           (Inr endpoints, st) \<Rightarrow> try_doh R delegation request_name qtype ds_rrset endpoints None st
         | (Inl e, st) \<Rightarrow> (Inl (Some e), st))
      else (Inl None, st))"

definition fallback_doh ::
  "(rust_str \<Rightarrow> bytes option) \<Rightarrow> 'w dnssec_resolver \<Rightarrow> hns_delegation \<Rightarrow> dns_name \<Rightarrow> record_type \<Rightarrow> resource_record list \<Rightarrow>
   resolver_error option \<Rightarrow> (resolution_answer, 'w) dns_io"
where
  "fallback_doh hex_decode R delegation request_name qtype ds_rrset last_error st =
     (let give_up = (\<lambda>e st. last_or NoNameserverAddress
            (Inl e, st\<lparr>dn_world := dt_probe_dns_interception (ar_transport R) (dn_world st)\<rparr>)) in
      if ar_doh_enabled R \<and> \<not> ar_prefer_doh R then
        io_then (cached_doh_endpoints hex_decode (ar_transport R) (ar_verifier R) delegation) (\<lambda>endpoints st.
          case try_doh R delegation request_name qtype ds_rrset endpoints last_error st of
            (Inr answer, st) \<Rightarrow> (Inr answer, st)
          | (Inl e, st) \<Rightarrow> give_up e st) st
      else give_up last_error st)"

definition resolve_delegated ::
  "(rust_str \<Rightarrow> bytes option) \<Rightarrow> 'w dnssec_resolver \<Rightarrow> resolution_request \<Rightarrow> hns_delegation \<Rightarrow> (resolution_answer, 'w) dns_io"
where
  "resolve_delegated hex_decode R request delegation st =
     (if req_qtype request = 0xFFFF then (Inl UnsupportedBackend, st) else
      case from_ascii (req_qname request) of
        Inl _ \<Rightarrow> (Inl UnsupportedBackend, st)
      | Inr request_name \<Rightarrow>
     (let qtype = from_code (req_qtype request); servers = nameserver_addresses delegation;
          tp = ar_transport R; V = ar_verifier R;
          ds_rrset = records_at (hd_records delegation) (hd_owner delegation) TypeDs in
      if servers = [] then (Inl NoNameserverAddress, st) else
      case preferred_doh hex_decode R delegation request_name qtype ds_rrset st of
        (Inr answer, st) \<Rightarrow> (Inr answer, st)
      | (Inl last_error, st) \<Rightarrow>
          if dt_is_recursive_relay tp then
            (case first_allowed (dt_endpoint_policy tp) servers of
               None \<Rightarrow> (Inl NoNameserverAddress, st)
             | Some server \<Rightarrow>
                 resolve_delegated_from_target tp V server (TargetServer server) delegation request_name qtype ds_rrset st)
          else
            (case try_each (resolve_delegated_from_server tp V delegation request_name qtype ds_rrset) servers last_error st of
               (Inr answer, st) \<Rightarrow> (Inr answer, st)
             | (Inl last_error, st) \<Rightarrow> fallback_doh hex_decode R delegation request_name qtype ds_rrset last_error st)))"

end
