(* ===== verification/Delegated_Safety.thy ===== *)
theory Delegated_Safety
  imports Delegated_Resolver
begin

text \<open>
  What the authoritative resolver of theory Delegated_Resolver promises: answers below a delegation with DS records are
  secure, and a secure answer follows a path of signed records, or a validated denial, in a zone anchored in the proven
  name; a chain of CNAMEs ends; servers outside the endpoint policy are not contacted.
\<close>

section \<open>Reference definitions\<close>

text \<open>
  What a secure resolution may return, for three judgements of a zone: which record sets it signs, where it has no data
  of the type, which names it does not have.
\<close>

inductive secure_path ::
  "(resource_record list \<Rightarrow> bool) \<Rightarrow> (dns_name \<Rightarrow> bool) \<Rightarrow> (dns_name \<Rightarrow> bool) \<Rightarrow> dns_name \<Rightarrow> record_type \<Rightarrow>
   dns_name \<Rightarrow> resource_record list \<Rightarrow> bool"
  for sets_signed no_data no_name zone_apex qtype
where
  path_answer: "\<lbrakk>rs \<noteq> []; \<forall>r\<in>set rs. rr_name r = owner \<and> rr_type r = qtype; sets_signed rs\<rbrakk> \<Longrightarrow>
    secure_path sets_signed no_data no_name zone_apex qtype owner rs"
| path_cname: "\<lbrakk>qtype \<noteq> TypeCname; rr_name r = owner; rr_type r = TypeCname; sets_signed [r];
    record_name_rdata r = Some next_owner; dns_name_is_subdomain_or_equal next_owner zone_apex;
    secure_path sets_signed no_data no_name zone_apex qtype next_owner rs\<rbrakk> \<Longrightarrow>
    secure_path sets_signed no_data no_name zone_apex qtype owner (r # rs)"
| path_no_data: "no_data owner \<Longrightarrow> secure_path sets_signed no_data no_name zone_apex qtype owner []"
| path_no_name: "no_name owner \<Longrightarrow> secure_path sets_signed no_data no_name zone_apex qtype owner []"

text \<open>The zones a delegation may be answered from: its own, anchored in its DS records, or a child that holds the name.\<close>

definition delegated_ds :: "hns_delegation \<Rightarrow> resource_record list" where
  "delegated_ds delegation = records_at (hd_records delegation) (hd_owner delegation) TypeDs"

definition anchored_zone :: "hns_delegation \<Rightarrow> zone_input \<Rightarrow> bool" where
  "anchored_zone delegation z \<longleftrightarrow> zi_dnskey_owner z = hd_owner delegation \<and> zi_ds_rrset z = delegated_ds delegation"

fun anchored_in :: "hns_delegation \<Rightarrow> dns_name \<Rightarrow> signing_zone \<Rightarrow> bool" where
  "anchored_in delegation n (DelegatedZone z) \<longleftrightarrow> anchored_zone delegation z"
| "anchored_in delegation n (ChildZone c) \<longleftrightarrow>
     anchored_zone delegation (cz_parent c) \<and> between (hd_owner delegation) n (zi_dnskey_owner (cz_child c))"

text \<open>The three judgements as a verifier gives them, and as the validators of \<open>hns-dnssec\<close> give them at a time.\<close>

definition verified_set :: "'w dnssec_verifier \<Rightarrow> signing_zone \<Rightarrow> resource_record list \<Rightarrow> bool" where
  "verified_set V Z rs \<longleftrightarrow> (\<exists>sigs w w'. verify_positive V Z rs sigs w = (Inr True, w'))"

definition verified_no_data :: "'w dnssec_verifier \<Rightarrow> signing_zone \<Rightarrow> record_type \<Rightarrow> dns_name \<Rightarrow> bool" where
  "verified_no_data V Z t q \<longleftrightarrow> (\<exists>d w w'. verify_no_data V Z q t d w = (Inr True, w'))"

definition verified_no_name :: "'w dnssec_verifier \<Rightarrow> signing_zone \<Rightarrow> dns_name \<Rightarrow> bool" where
  "verified_no_name V Z q \<longleftrightarrow> (\<exists>ce d w w'. verify_name_error V Z q ce d w = (Inr True, w'))"

fun keys_secure :: "crypto \<Rightarrow> signing_zone \<Rightarrow> u64 \<Rightarrow> bool" where
  "keys_secure K (DelegatedZone z) now \<longleftrightarrow> zone_keys_status K z now = Inr Secure"
| "keys_secure K (ChildZone c) now \<longleftrightarrow> child_keys_status K c now = Inr Secure"

fun answering_zone :: "signing_zone \<Rightarrow> zone_input" where
  "answering_zone (DelegatedZone z) = z"
| "answering_zone (ChildZone c) = cz_child c"

fun set_secure :: "crypto \<Rightarrow> signing_zone \<Rightarrow> resource_record list \<Rightarrow> u64 \<Rightarrow> bool" where
  "set_secure K (DelegatedZone z) rs now \<longleftrightarrow> (\<exists>sigs. zone_rrset_status K z rs sigs now = Inr Secure)"
| "set_secure K (ChildZone c) rs now \<longleftrightarrow> (\<exists>sigs. child_rrset_status K c rs sigs now = Inr Secure)"

definition no_data_secure :: "crypto \<Rightarrow> signing_zone \<Rightarrow> record_type \<Rightarrow> dns_name \<Rightarrow> u64 \<Rightarrow> bool" where
  "no_data_secure K Z t q now \<longleftrightarrow> keys_secure K Z now \<and> (\<exists>d. no_data_denied K (answering_zone Z) q t d now = Inr True)"

definition no_name_secure :: "crypto \<Rightarrow> signing_zone \<Rightarrow> dns_name \<Rightarrow> u64 \<Rightarrow> bool" where
  "no_name_secure K Z q now \<longleftrightarrow> keys_secure K Z now \<and> (\<exists>ce d. name_denied K (answering_zone Z) q ce d now = Inr True)"

definition clock_times :: "('w \<Rightarrow> u64 option \<times> 'w) \<Rightarrow> u64 set" where
  "clock_times clock = {now. \<exists>w w'. clock w = (Some now, w')}"

section \<open>Lemmas\<close>

subsection \<open>Answers of a computation\<close>

definition answers_with :: "('a \<Rightarrow> bool) \<Rightarrow> ('s \<Rightarrow> ('e + 'a) \<times> 's) \<Rightarrow> bool" where
  "answers_with P f \<longleftrightarrow> (\<forall>st a st'. f st = (Inr a, st') \<longrightarrow> P a)"

named_theorems answering

lemma answers_withI: "(\<And>st a st'. f st = (Inr a, st') \<Longrightarrow> P a) \<Longrightarrow> answers_with P f"
  by (simp add: answers_with_def)

lemma answers_withD: "\<lbrakk>answers_with P f; f st = (Inr a, st')\<rbrakk> \<Longrightarrow> P a"
  by (auto simp: answers_with_def)

lemma answers_with_pure [answering]: "(\<And>a. r = Inr a \<Longrightarrow> P a) \<Longrightarrow> answers_with P (io_pure r)"
  by (auto simp: answers_with_def io_pure_def)

lemma answers_with_then:
  "\<lbrakk>answers_with Q m; \<And>x. Q x \<Longrightarrow> answers_with P (f x)\<rbrakk> \<Longrightarrow> answers_with P (io_then m f)"
  unfolding answers_with_def io_then_Inr by blast

lemma answers_with_any [answering]: "(\<And>x. answers_with P (f x)) \<Longrightarrow> answers_with P (io_then m f)"
  unfolding answers_with_def io_then_Inr by blast

lemma answers_with_world [answering]: "answers_with P f \<Longrightarrow> answers_with P (on_dns_world f)"
  unfolding answers_with_def on_dns_world_def by (auto split: prod.splits)

lemma answers_with_if [answering]:
  "\<lbrakk>b \<Longrightarrow> answers_with P m; \<not> b \<Longrightarrow> answers_with P k\<rbrakk> \<Longrightarrow> answers_with P (if b then m else k)"
  by simp

lemma answers_with_mono: "\<lbrakk>answers_with Q m; \<And>x. Q x \<Longrightarrow> P x\<rbrakk> \<Longrightarrow> answers_with P m"
  by (auto simp: answers_with_def)

lemma try_each_answers:
  assumes "\<And>x. answers_with P (f x)" "try_each f xs l st = (Inr a, st')"
  shows "P a"
  using assms
proof (induction f xs l st rule: try_each.induct)
  case (2 f x xs l st)
  show ?case
  proof (cases "f x st")
    case (Pair r st1)
    then show ?thesis using 2 answers_withD [OF 2(2), of x st] by (cases r) auto
  qed
qed simp

lemma answers_with_try_each:
  "(\<And>x. answers_with P (f x)) \<Longrightarrow> answers_with P (\<lambda>st. last_or e (try_each f xs l st))"
proof (rule answers_withI)
  fix st a st'
  assume f: "\<And>x. answers_with P (f x)" and "last_or e (try_each f xs l st) = (Inr a, st')"
  then have "try_each f xs l st = (Inr a, st')"
    by (cases "try_each f xs l st") (auto simp: last_or_def map_err_def split: sum.splits)
  with f show "P a" by (rule try_each_answers)
qed

subsection \<open>Child zones found in a response\<close>

lemma longest_name_mem: "longest_name ns = Some n \<Longrightarrow> n \<in> set ns"
proof -
  have "fold (\<lambda>n m. case m of None \<Rightarrow> Some n | Some b \<Rightarrow> Some (if length b \<le> length n then n else b)) ns m = Some n \<Longrightarrow>
      n \<in> set ns \<or> m = Some n" for m
    by (induction ns arbitrary: m) (fastforce split: option.splits if_splits)+
  then show "longest_name ns = Some n \<Longrightarrow> n \<in> set ns" unfolding longest_name_def by blast
qed

lemma child_referral_between:
  "child_referral_of response parent n = Some referral \<Longrightarrow> between parent n (cr_owner referral)"
  using longest_name_mem
  by (fastforce simp: child_referral_of_def Let_def split: option.splits if_splits)

lemma first_child_signer_between: "first_child_signer parent n t rs = Some owner \<Longrightarrow> between parent n owner"
  by (induction rs) (auto split: sum.splits if_splits)

lemma inline_answer_between:
  "inline_child_answer_signer delegation n rrset sigs t = Some owner \<Longrightarrow> between (hd_owner delegation) n owner"
  by (auto simp: inline_child_answer_signer_def dest: first_child_signer_between split: list.splits)

lemma inline_denial_between:
  assumes "inline_child_denial_signer delegation n rs = Some owner"
  shows "between (hd_owner delegation) n owner"
proof -
  obtain r where "denial_signer (hd_owner delegation) n r = Some owner"
    using longest_name_mem [OF assms [unfolded inline_child_denial_signer_def]]
    by (auto simp: List.map_filter_def)
  then show ?thesis by (auto simp: denial_signer_def split: sum.splits if_splits)
qed

subsection \<open>Secure answers follow a verified path\<close>

abbreviation verified_path where
  "verified_path V Z t \<equiv> secure_path (verified_set V Z) (verified_no_data V Z t) (verified_no_name V Z) (apex Z) t"

definition path_from :: "'w dnssec_verifier \<Rightarrow> signing_zone \<Rightarrow> record_type \<Rightarrow> dns_name \<Rightarrow> resource_record list \<Rightarrow> resolution_answer \<Rightarrow> bool"
where
  "path_from V Z t owner prefix a \<longleftrightarrow> ans_secure a \<and> (\<exists>rs. ans_records a = prefix @ rs \<and> verified_path V Z t owner rs)"

lemma no_data_path [answering]:
  "answers_with (path_from V Z t q prefix) (resolve_secure_no_data V Z q t response prefix)"
proof (rule answers_withI)
  fix w a w'
  assume "resolve_secure_no_data V Z q t response prefix w = (Inr a, w')"
  then have "verified_no_data V Z t q" "ans_secure a" "ans_records a = prefix"
    by (auto simp: resolve_secure_no_data_def secure_or_failed_def io_then_Inr io_pure_def verified_no_data_def Let_def
        split: if_splits)
  then show "path_from V Z t q prefix a" by (auto simp: path_from_def intro: path_no_data)
qed

lemma name_error_loop_path:
  "answers_with (path_from V Z t q prefix) (name_error_loop V Z q d prefix ces)"
proof (rule answers_withI)
  fix w a w'
  show "name_error_loop V Z q d prefix ces w = (Inr a, w') \<Longrightarrow> path_from V Z t q prefix a"
  proof (induction ces arbitrary: w)
    case (Cons ce ces)
    then obtain secure w1 where v: "verify_name_error V Z q ce d w = (Inr secure, w1)"
      and "(if secure then io_pure (Inr \<lparr>ans_name = q, ans_records = prefix, ans_secure = True\<rparr>)
        else name_error_loop V Z q d prefix ces) w1 = (Inr a, w')"
      by (auto simp: io_then_Inr)
    moreover have "verified_no_name V Z q" if secure
      using v that by (auto simp: verified_no_name_def)
    ultimately show ?case
      using Cons.IH [of w1] by (cases secure) (auto simp: io_pure_def path_from_def intro: path_no_name)
  qed (simp add: io_pure_def)
qed

lemma name_error_path [answering]:
  "answers_with (path_from V Z t q prefix) (resolve_secure_name_error V Z q response prefix)"
  unfolding resolve_secure_name_error_def Let_def by (intro answering name_error_loop_path) simp

lemma rrset_verified: "answers_with (\<lambda>_. verified_set V Z rrset) (validate_secure_rrset V Z owner rrset response)"
proof (rule answers_withI)
  fix w a w'
  assume "validate_secure_rrset V Z owner rrset response w = (Inr a, w')"
  then show "verified_set V Z rrset"
    by (auto simp: validate_secure_rrset_def io_then_Inr io_pure_def verified_set_def Let_def split: if_splits)
qed

lemma answer_loop_path:
  "answers_with (path_from V Z t owner cnames) (answer_loop V query Z n t fuel response owner cnames)"
proof (induction fuel arbitrary: response owner cnames)
  case (Suc fuel)
  define target where "target = records_at (answers response) owner t"
  define cname where "cname = (if t = TypeCname then [] else records_at (answers response) owner TypeCname)"
  have members: "\<forall>r\<in>set target. rr_name r = owner \<and> rr_type r = t"
    "\<forall>r\<in>set cname. rr_name r = owner \<and> rr_type r = TypeCname" "cname \<noteq> [] \<Longrightarrow> t \<noteq> TypeCname"
    by (auto simp: target_def cname_def records_at_def)
  have answer: "path_from V Z t owner cnames \<lparr>ans_name = n, ans_records = cnames @ target, ans_secure = True\<rparr>"
    if "target \<noteq> []" "verified_set V Z target"
    using that members(1) by (auto simp: path_from_def intro: path_answer)
  have along: "answers_with (path_from V Z t owner cnames) (answer_loop V query Z n t fuel response next_owner (cnames @ cname))"
    if c: "cname \<noteq> []" "verified_set V Z cname" "cname_target cname = Inr next_owner"
      "dns_name_is_subdomain_or_equal next_owner (apex Z)" for next_owner
  proof -
    obtain r where r: "cname = [r]" "record_name_rdata r = Some next_owner"
      using c(3) by (auto simp: cname_target_def ok_or_def split: list.splits if_splits option.splits)
    show ?thesis
    proof (rule answers_with_mono [OF Suc.IH])
      fix a
      assume "path_from V Z t next_owner (cnames @ cname) a"
      then show "path_from V Z t owner cnames a"
        using r members(2,3) c by (auto simp: path_from_def intro: path_cname)
    qed
  qed
  show ?case
    unfolding answer_loop.simps Let_def target_def [symmetric] cname_def [symmetric]
    by (intro answers_with_if answers_with_then [OF answers_with_world [OF rrset_verified]]
        answers_with_then [where Q = "\<lambda>x. cname_target cname = Inr x" and m = "io_pure (cname_target cname)"]
        answers_with_any [where m = "query owner"] Suc.IH answering)
      (auto simp: answer along)
qed (simp add: answers_with_def io_pure_def)

lemma answer_records_path [answering]:
  "answers_with (path_from V Z t n []) (resolve_secure_answer_records tp V target Z n t response)"
  unfolding resolve_secure_answer_records_def by (rule answer_loop_path)

text \<open>What an answer for a name below a delegation rests on.\<close>

definition delegated_answer :: "'w dnssec_verifier \<Rightarrow> hns_delegation \<Rightarrow> dns_name \<Rightarrow> record_type \<Rightarrow> resolution_answer \<Rightarrow> bool" where
  "delegated_answer V delegation n t a \<longleftrightarrow>
     (if delegated_ds delegation = [] then \<not> ans_secure a
      else ans_secure a \<and> (\<exists>Z. anchored_in delegation n Z \<and> verified_path V Z t n (ans_records a)))"

lemma path_delegated:
  "\<lbrakk>path_from V Z t n [] a; anchored_in delegation n Z; delegated_ds delegation \<noteq> []\<rbrakk> \<Longrightarrow> delegated_answer V delegation n t a"
  by (auto simp: path_from_def delegated_answer_def)

definition inline_material :: "zone_input \<Rightarrow> dns_name \<Rightarrow> child_zone_input \<Rightarrow> bool" where
  "inline_material parent owner c \<longleftrightarrow> cz_parent c = parent \<and> zi_dnskey_owner (cz_child c) = owner"

lemma fetched_material:
  "answers_with (inline_material parent owner) (fetch_inline_child_dnssec_material tp parent server owner)"
  unfolding fetch_inline_child_dnssec_material_def Let_def
  by (intro answering) (auto simp: inline_material_def split: if_splits)

lemma path_from_delegated:
  "\<lbrakk>answers_with (path_from V Z t n []) f; anchored_in delegation n Z; delegated_ds delegation \<noteq> []\<rbrakk> \<Longrightarrow>
    answers_with (delegated_answer V delegation n t) f"
  by (erule answers_with_mono) (erule path_delegated)

lemma child_server_path:
  assumes "anchored_zone delegation parent" "between (hd_owner delegation) n (cr_owner referral)"
    and "delegated_ds delegation \<noteq> []"
  shows "answers_with (delegated_answer V delegation n t) (resolve_secure_child_from_server tp V parent referral n t server)"
proof -
  have "answers_with (delegated_answer V delegation n t)
      (resolve_secure_answer_records tp V (TargetServer server) (ChildZone \<lparr>cz_parent = parent,
        cz_child = \<lparr>zi_dnskey_owner = cr_owner referral, zi_ds_rrset = ds, zi_dnskey_rrset = keys,
          zi_dnskey_rrsig_rrset = sigs\<rparr>, cz_child_ds_rrsig_rrset = ds_sigs\<rparr>) n t response)" for ds keys sigs ds_sigs response
    by (rule path_from_delegated [OF answer_records_path _ assms(3)]) (simp add: assms)
  then show ?thesis
    unfolding resolve_secure_child_from_server_def Let_def by (intro answering) simp_all
qed

lemma child_referral_path:
  assumes "anchored_zone delegation parent" "between (hd_owner delegation) n (cr_owner referral)"
    and "delegated_ds delegation \<noteq> []"
  shows "answers_with (delegated_answer V delegation n t) (resolve_secure_child_referral tp V parent referral n t)"
  unfolding resolve_secure_child_referral_def Let_def
  by (intro answering answers_with_try_each child_server_path assms)
    (auto split: option.splits intro: answering child_server_path [OF assms])

lemma inline_answer_path:
  assumes "anchored_zone delegation parent" "between (hd_owner delegation) n owner" "delegated_ds delegation \<noteq> []"
    and "\<forall>r\<in>set rrset. rr_name r = n \<and> rr_type r = t"
  shows "answers_with (delegated_answer V delegation n t)
    (resolve_secure_inline_child_answer tp V parent owner server n rrset sigs)"
proof -
  have "answers_with (delegated_answer V delegation n t)
      (secure_or_failed \<lparr>ans_name = n, ans_records = rrset, ans_secure = True\<rparr> (verify_positive V (ChildZone c) rrset sigs))"
    if c: "inline_material parent owner c" and ne: "rrset \<noteq> []" for c
  proof (rule answers_withI)
    fix w a w'
    assume "secure_or_failed \<lparr>ans_name = n, ans_records = rrset, ans_secure = True\<rparr>
      (verify_positive V (ChildZone c) rrset sigs) w = (Inr a, w')"
    then have a: "a = \<lparr>ans_name = n, ans_records = rrset, ans_secure = True\<rparr>" and "verified_set V (ChildZone c) rrset"
      by (auto simp: secure_or_failed_def io_then_Inr io_pure_def verified_set_def split: if_splits)
    with ne assms(4) have "verified_path V (ChildZone c) t n rrset" by (intro path_answer) auto
    moreover have "anchored_in delegation n (ChildZone c)" using c assms(1,2) by (simp add: inline_material_def)
    ultimately show "delegated_answer V delegation n t a"
      using a assms(3) path_delegated [of V "ChildZone c" t n a delegation] by (simp add: path_from_def)
  qed
  then show ?thesis
    unfolding resolve_secure_inline_child_answer_def
    by (intro answers_with_if answers_with_then [OF fetched_material] answers_with_world answers_with_pure) simp_all
qed

lemma inline_no_data_path:
  assumes "anchored_zone delegation parent" "between (hd_owner delegation) n owner" "delegated_ds delegation \<noteq> []"
  shows "answers_with (delegated_answer V delegation n t)
    (resolve_secure_inline_child_no_data tp V parent owner server n t response)"
proof -
  have "answers_with (delegated_answer V delegation n t) (resolve_secure_no_data V (ChildZone c) n t response [])"
    if "inline_material parent owner c" for c
    by (rule path_from_delegated [OF no_data_path _ assms(3)]) (use that assms in \<open>simp add: inline_material_def\<close>)
  then show ?thesis
    unfolding resolve_secure_inline_child_no_data_def
    by (intro answers_with_if answers_with_then [OF fetched_material] answers_with_world answers_with_pure) simp_all
qed

lemma validated_answers:
  assumes "anchored_zone delegation z" "delegated_ds delegation \<noteq> []"
  shows "answers_with (delegated_answer V delegation n t) (resolve_validated tp V server target delegation z n t response)"
proof -
  have own: "anchored_in delegation n (DelegatedZone z)" using assms by simp
  note own_path = path_from_delegated [OF _ own assms(2)]
  have rs: "\<forall>r\<in>set (records_at (answers response) n t). rr_name r = n \<and> rr_type r = t" by (auto simp: records_at_def)
  note child_paths = child_referral_path [OF assms(1) child_referral_between assms(2)]
    inline_answer_path [OF assms(1) inline_answer_between assms(2) rs]
    inline_no_data_path [OF assms(1) inline_denial_between assms(2)]
  show ?thesis
    unfolding resolve_validated_def Let_def
    by (cases "child_referral_of response (hd_owner delegation) n";
        cases "inline_child_answer_signer delegation n (records_at (answers response) n t)
          (records_at (answers response) n TypeRrsig) t";
        cases "inline_child_denial_signer delegation n (combined_response_records response)")
      (simp_all only: option.case, (intro answers_with_if answers_with_world child_paths own_path [OF no_data_path]
        own_path [OF name_error_path] own_path [OF answer_records_path] answers_with_pure; simp)+)
qed

lemma delegated_target_answers:
  "answers_with (delegated_answer V delegation n t)
     (resolve_delegated_from_target tp V server target delegation n t (delegated_ds delegation))"
proof (cases "delegated_ds delegation = []")
  case True
  then show ?thesis
    unfolding resolve_delegated_from_target_def by (intro answering) (auto simp: delegated_answer_def)
next
  case False
  show ?thesis
    unfolding resolve_delegated_from_target_def
    by (intro answering validated_answers) (simp_all add: False anchored_zone_def)
qed

lemma delegated_server_answers:
  "answers_with (delegated_answer V delegation n t) (resolve_delegated_from_server tp V delegation n t (delegated_ds delegation) server)"
proof (rule answers_withI)
  fix st a st'
  note target = answers_withD [OF delegated_target_answers]
  assume "resolve_delegated_from_server tp V delegation n t (delegated_ds delegation) server st = (Inr a, st')"
  then show "delegated_answer V delegation n t a"
    unfolding resolve_delegated_from_server_def
    by (auto split: prod.splits sum.splits resolver_error.splits intro: target)
qed

lemma delegated_doh_answers:
  "answers_with (delegated_answer V delegation n t)
     (resolve_delegated_from_doh_endpoint tp V delegation n t (delegated_ds delegation) endpoint)"
  unfolding resolve_delegated_from_doh_endpoint_def by (rule delegated_target_answers)

lemma last_or_Inl [simp]: "last_or d (Inl e, st) \<noteq> (Inr a, st')"
  by (simp add: last_or_def)

lemma fallback_doh_answers:
  "answers_with (delegated_answer (ar_verifier R) delegation n t)
     (fallback_doh hex_decode R delegation n t (delegated_ds delegation) last_error)"
proof (rule answers_withI)
  fix st a st'
  assume a: "fallback_doh hex_decode R delegation n t (delegated_ds delegation) last_error st = (Inr a, st')"
  then obtain endpoints st1 where e: "(case try_doh R delegation n t (delegated_ds delegation) endpoints last_error st1 of
      (Inr answer, st) \<Rightarrow> (Inr answer, st)
    | (Inl e, st) \<Rightarrow> last_or NoNameserverAddress
        (Inl e, st\<lparr>dn_world := dt_probe_dns_interception (ar_transport R) (dn_world st)\<rparr>)) = (Inr a, st')"
    by (auto simp: fallback_doh_def Let_def io_then_Inr split: if_splits)
  obtain r st2 where t: "try_doh R delegation n t (delegated_ds delegation) endpoints last_error st1 = (r, st2)" by force
  with e have "r = Inr a" by (cases r) auto
  with t show "delegated_answer (ar_verifier R) delegation n t a"
    unfolding try_doh_def by (auto intro: try_each_answers [OF delegated_doh_answers])
qed

lemma resolve_delegated_answers:
  assumes "resolve_delegated hex_decode R request delegation st = (Inr a, st')" "from_ascii (req_qname request) = Inr n"
  shows "delegated_answer (ar_verifier R) delegation n (from_code (req_qtype request)) a"
proof -
  note each = try_each_answers [OF delegated_doh_answers] try_each_answers [OF delegated_server_answers]
    answers_withD [OF fallback_doh_answers] answers_withD [OF delegated_target_answers]
  show ?thesis
    using assms
    by (auto simp: resolve_delegated_def preferred_doh_def try_doh_def Let_def simp flip: delegated_ds_def
        split: if_splits prod.splits sum.splits option.splits dest: each)
qed

subsection \<open>The system verifier\<close>

lemma secure_path_mono:
  assumes "secure_path S D N z t n rs"
    and "\<And>rs. S rs \<Longrightarrow> S' rs" "\<And>q. D q \<Longrightarrow> D' q" "\<And>q. N q \<Longrightarrow> N' q"
  shows "secure_path S' D' N' z t n rs"
  using assms(1)
proof (induction rule: secure_path.induct)
  case (path_answer rs owner)
  then show ?case by (auto intro: secure_path.path_answer assms(2))
next
  case (path_cname r owner next_owner rs)
  then show ?case by (intro secure_path.path_cname) (auto intro: assms(2))
qed (auto intro: secure_path.intros assms)

lemma system_verified:
  "verified_set (system_verifier K clock) Z rs \<Longrightarrow> \<exists>now\<in>clock_times clock. set_secure K Z rs now"
  "verified_no_data (system_verifier K clock) Z t q \<Longrightarrow> \<exists>now\<in>clock_times clock. no_data_secure K Z t q now"
  "verified_no_name (system_verifier K clock) Z q \<Longrightarrow> \<exists>now\<in>clock_times clock. no_name_secure K Z q now"
  by (cases Z; fastforce simp: verified_set_def verified_no_data_def verified_no_name_def system_verifier_def at_clock_True
      is_secure_True keys_then_True clock_times_def no_data_secure_def no_name_secure_def)+

subsection \<open>Endpoints the resolver contacts\<close>

text \<open>Two transports that behave alike on every endpoint the policy allows.\<close>

definition same_allowed :: "'w dns_transport \<Rightarrow> 'w dns_transport \<Rightarrow> bool" where
  "same_allowed tp tp' \<longleftrightarrow>
     dt_endpoint_policy tp = dt_endpoint_policy tp' \<and> dt_is_recursive_relay tp = dt_is_recursive_relay tp' \<and>
     dt_probe_dns_interception tp = dt_probe_dns_interception tp' \<and>
     (\<forall>server. validate_dns_server (dt_endpoint_policy tp) server = Inr () \<longrightarrow>
        dt_exchange_udp tp server = dt_exchange_udp tp' server \<and> dt_exchange_tcp tp server = dt_exchange_tcp tp' server) \<and>
     (\<forall>endpoint. validate_doh_endpoint (dt_endpoint_policy tp) endpoint = Inr () \<longrightarrow>
        dt_exchange_doh tp endpoint = dt_exchange_doh tp' endpoint)"

lemma same_allowed_fields:
  assumes "same_allowed tp tp'"
  shows "dt_endpoint_policy tp = dt_endpoint_policy tp'" "dt_is_recursive_relay tp = dt_is_recursive_relay tp'"
    "dt_probe_dns_interception tp = dt_probe_dns_interception tp'"
  using assms by (simp_all add: same_allowed_def)

lemma same_allowed_exchanges:
  assumes "same_allowed tp tp'"
  shows "validate_dns_server (dt_endpoint_policy tp') server = Inr () \<Longrightarrow> dt_exchange_udp tp server = dt_exchange_udp tp' server"
    "validate_dns_server (dt_endpoint_policy tp') server = Inr () \<Longrightarrow> dt_exchange_tcp tp server = dt_exchange_tcp tp' server"
    "validate_doh_endpoint (dt_endpoint_policy tp') endpoint = Inr () \<Longrightarrow> dt_exchange_doh tp endpoint = dt_exchange_doh tp' endpoint"
  using assms unfolding same_allowed_def by metis+

lemma same_exchange:
  assumes "same_allowed tp tp'" "validate_target (dt_endpoint_policy tp') target = Inr ()"
  shows "dns_exchange tp target qid qname t query = dns_exchange tp' target qid qname t query"
proof -
  note same = same_allowed_exchanges [OF assms(1)] same_allowed_fields [OF assms(1)]
  have udp: "dns_query_udp tp server qid qname t query = dns_query_udp tp' server qid qname t query"
    if "validate_dns_server (dt_endpoint_policy tp') server = Inr ()" for server
    by (rule ext) (simp add: dns_query_udp_def dns_query_tcp_def same that)
  show ?thesis
    using assms(2)
    by (cases target) (simp_all add: validate_target_def dns_exchange_def dns_query_tcp_def dns_query_https_def same udp)
qed

lemma same_query:
  assumes "same_allowed tp tp'"
  shows "dns_query_target tp = dns_query_target tp'"
proof (intro ext)
  fix target qname t st
  show "dns_query_target tp target qname t st = dns_query_target tp' target qname t st"
  proof (cases "validate_target (dt_endpoint_policy tp') target")
    case (Inr u)
    then have "dns_exchange tp target = dns_exchange tp' target" by (intro ext same_exchange [OF assms]) simp
    then show ?thesis unfolding dns_query_target_def same_allowed_fields [OF assms] by (simp only:)
  qed (simp add: dns_query_target_def same_allowed_fields [OF assms])
qed

lemma same_target:
  assumes "same_allowed tp tp'"
  shows "resolve_delegated_from_target tp = resolve_delegated_from_target tp'"
proof -
  note same = same_query [OF assms] same_allowed_fields [OF assms]
  have q: "dns_query tp = dns_query tp'"
    unfolding fun_eq_iff dns_query_def same by (rule allI refl)+
  have records: "resolve_secure_answer_records tp = resolve_secure_answer_records tp'"
    unfolding fun_eq_iff resolve_secure_answer_records_def same by (rule allI refl)+
  have fetch: "fetch_inline_child_dnssec_material tp = fetch_inline_child_dnssec_material tp'"
    unfolding fun_eq_iff fetch_inline_child_dnssec_material_def q by (rule allI refl)+
  have inline: "resolve_secure_inline_child_answer tp = resolve_secure_inline_child_answer tp'"
    "resolve_secure_inline_child_no_data tp = resolve_secure_inline_child_no_data tp'"
    unfolding fun_eq_iff resolve_secure_inline_child_answer_def resolve_secure_inline_child_no_data_def fetch
    by (rule allI refl)+
  have server: "resolve_secure_child_from_server tp = resolve_secure_child_from_server tp'"
    unfolding fun_eq_iff resolve_secure_child_from_server_def q records by (rule allI refl)+
  have referral: "resolve_secure_child_referral tp = resolve_secure_child_referral tp'"
    unfolding fun_eq_iff resolve_secure_child_referral_def server same by (rule allI refl)+
  have validated: "resolve_validated tp = resolve_validated tp'"
    unfolding fun_eq_iff resolve_validated_def records inline referral by (rule allI refl)+
  show ?thesis unfolding fun_eq_iff resolve_delegated_from_target_def validated same by (rule allI refl)+
qed

lemma same_server:
  assumes "same_allowed tp tp'"
  shows "resolve_delegated_from_server tp = resolve_delegated_from_server tp'"
    "resolve_delegated_from_doh_endpoint tp = resolve_delegated_from_doh_endpoint tp'"
  unfolding fun_eq_iff resolve_delegated_from_server_def resolve_delegated_from_doh_endpoint_def same_target [OF assms]
    same_allowed_fields [OF assms]
  by (rule allI refl)+

lemma same_endpoints:
  assumes "same_allowed tp tp'"
  shows "cached_doh_endpoints hex_decode tp = cached_doh_endpoints hex_decode tp'"
proof -
  note server = same_server [OF assms]
  have "svcb_loop tp V delegation ds addresses endpoints = svcb_loop tp' V delegation ds addresses endpoints"
    for V delegation ds addresses endpoints
  proof (induction addresses arbitrary: endpoints)
    case Nil
    show ?case by (rule ext) simp
  next
    case (Cons a addresses)
    obtain ns address where a: "a = (ns, address)" by (cases a)
    show ?case unfolding fun_eq_iff a svcb_loop.simps server Cons.IH by (rule allI refl)+
  qed
  then have loop: "svcb_loop tp = svcb_loop tp'" by (intro ext) simp
  have found: "authoritative_doh_endpoints hex_decode tp = authoritative_doh_endpoints hex_decode tp'"
    unfolding fun_eq_iff authoritative_doh_endpoints_def loop by (rule allI refl)+
  show ?thesis unfolding fun_eq_iff cached_doh_endpoints_def found by (rule allI refl)+
qed

subsection \<open>Chains of CNAMEs\<close>

text \<open>In the response every name of a set has one CNAME, to a name of the set, and no data of the type.\<close>

definition cname_cycle :: "dns_message \<Rightarrow> record_type \<Rightarrow> dns_name set \<Rightarrow> bool" where
  "cname_cycle response t names \<longleftrightarrow> t \<noteq> TypeCname \<and>
     (\<forall>n\<in>names. records_at (answers response) n t = [] \<and>
       (\<exists>r. records_at (answers response) n TypeCname = [r] \<and> (\<exists>n'\<in>names. record_name_rdata r = Some n')))"

lemma cycle_loop:
  assumes "cname_cycle response t names"
  shows "owner \<in> names \<Longrightarrow> \<exists>e w'. answer_loop V query Z n t fuel response owner cnames st = (Inl e, st\<lparr>dn_world := w'\<rparr>)"
proof (induction fuel arbitrary: owner cnames st)
  case 0
  have "answer_loop V query Z n t 0 response owner cnames st = (Inl DnssecFailed, st\<lparr>dn_world := dn_world st\<rparr>)"
    by (simp add: io_pure_def)
  then show ?case by blast
next
  case (Suc fuel)
  obtain r n' where r: "records_at (answers response) owner t = []" "records_at (answers response) owner TypeCname = [r]"
    "record_name_rdata r = Some n'" "n' \<in> names" "t \<noteq> TypeCname"
    using assms Suc.prems by (auto simp: cname_cycle_def)
  have "rr_type r = TypeCname"
  proof -
    have "r \<in> set (records_at (answers response) owner TypeCname)" using r(2) by simp
    then show ?thesis by (simp add: records_at_def)
  qed
  then have next_name: "cname_target [r] = Inr n'" using r by (simp add: cname_target_def)
  obtain v w where v: "validate_secure_rrset V Z owner [r] response (dn_world st) = (v, w)" by force
  show ?case
  proof (cases v)
    case (Inl e)
    with v r show ?thesis by (auto simp: io_then_def on_dns_world_def Let_def)
  next
    case (Inr u)
    obtain e w' where "answer_loop V query Z n t fuel response n' (cnames @ [r]) (st\<lparr>dn_world := w\<rparr>) =
        (Inl e, (st\<lparr>dn_world := w\<rparr>)\<lparr>dn_world := w'\<rparr>)"
      using Suc.IH [OF r(4)] by blast
    with v Inr r next_name show ?thesis by (auto simp: io_then_def on_dns_world_def io_pure_def Let_def)
  qed
qed

section \<open>Properties\<close>

text \<open>
  C4.  A delegation with DS records is never answered insecurely: whatever the transport returns and the verifier says, every
  answer of the resolver is marked secure exactly when the proven name holds DS records at the delegation.
\<close>

theorem no_insecure_downgrade:
  assumes "resolve_delegated hex_decode R request delegation st = (Inr a, st')"
  shows "ans_secure a \<longleftrightarrow> delegated_ds delegation \<noteq> []"
proof -
  obtain n where "from_ascii (req_qname request) = Inr n"
    using assms by (auto simp: resolve_delegated_def split: if_splits sum.splits)
  with resolve_delegated_answers [OF assms this] show ?thesis by (auto simp: delegated_answer_def split: if_splits)
qed

text \<open>
  C3.  A secure answer of the resolver with the system verifier is a secure path in one zone, which is the delegation itself,
  anchored in the DS records of the proven name, or a child zone that holds the name: every CNAME of the answer stays in
  the zone and is signed, and the end is a signed set of the type asked or a validated denial, all at times the clock gave.
\<close>

theorem secure_resolution_sound:
  assumes "resolve_delegated hex_decode R request delegation st = (Inr a, st')" "ans_secure a"
    and "ar_verifier R = system_verifier K clock" "from_ascii (req_qname request) = Inr n"
    and "t = from_code (req_qtype request)"
  shows "\<exists>Z. anchored_in delegation n Z \<and>
    secure_path (\<lambda>rs. \<exists>now\<in>clock_times clock. set_secure K Z rs now)
      (\<lambda>q. \<exists>now\<in>clock_times clock. no_data_secure K Z t q now)
      (\<lambda>q. \<exists>now\<in>clock_times clock. no_name_secure K Z q now) (apex Z) t n (ans_records a)"
proof -
  obtain Z where Z: "anchored_in delegation n Z" and p: "verified_path (system_verifier K clock) Z t n (ans_records a)"
    using resolve_delegated_answers [OF assms(1,4)] assms(2,3,5) by (auto simp: delegated_answer_def split: if_splits)
  show ?thesis
    by (intro exI [where x = Z] conjI Z secure_path_mono [OF p]) (erule system_verified)+
qed

text \<open>
  C22.  The resolver contacts no nameserver, DoH endpoint or child nameserver outside its endpoint policy, whatever the responses
  name: two transports that agree on the allowed endpoints give the same result, state and world.
\<close>

theorem only_allowed_endpoints:
  assumes "same_allowed (ar_transport R) tp'"
  shows "resolve_delegated hex_decode (R\<lparr>ar_transport := tp'\<rparr>) request delegation st =
    resolve_delegated hex_decode R request delegation st"
proof -
  note same = same_server [OF assms] same_endpoints [OF assms] same_target [OF assms] same_allowed_fields [OF assms]
  let ?R = "R\<lparr>ar_transport := tp'\<rparr>"
  have R: "ar_transport ?R = tp'" "ar_verifier ?R = ar_verifier R" "ar_doh_enabled ?R = ar_doh_enabled R"
    "ar_prefer_doh ?R = ar_prefer_doh R"
    by simp_all
  have each: "try_doh ?R = try_doh R" unfolding fun_eq_iff try_doh_def R same by (rule allI refl)+
  have doh: "preferred_doh hex_decode ?R = preferred_doh hex_decode R" "fallback_doh hex_decode ?R = fallback_doh hex_decode R"
    unfolding fun_eq_iff preferred_doh_def fallback_doh_def R same each by (rule allI refl)+
  show ?thesis unfolding resolve_delegated_def Let_def R same doh by (rule refl)
qed

text \<open>
  C23.  A response in which the CNAMEs run in a circle ends the resolution with an error, whatever the verifier says and without
  another query, although every step of the circle may be validly signed.
\<close>

theorem cname_cycle_refused:
  assumes "cname_cycle response t names" "n \<in> names"
  shows "\<exists>e w'. resolve_secure_answer_records tp V target Z n t response st = (Inl e, st\<lparr>dn_world := w'\<rparr>)"
  unfolding resolve_secure_answer_records_def by (rule cycle_loop [OF assms])

section \<open>A resolution\<close>

text \<open>
  The sample zone asked over a transport that answers the first query with the address and the second with the keys; the
  world counts the exchanges.
\<close>

definition sample_reply :: "u16 \<Rightarrow> record_type \<Rightarrow> resource_record list \<Rightarrow> dns_message" where
  "sample_reply qid t rs =
     \<lparr>msg_header = \<lparr>dh_id = qid, dh_flags = 0x8400, question_count = 1, answer_count = word_of_nat (length rs),
        authority_count = 0, additional_count = 0\<rparr>,
      questions = [\<lparr>q_name = [], q_type = t, q_class = 1\<rparr>], answers = rs, authorities = [], additionals = []\<rparr>"

definition reply_bytes :: "dns_message \<Rightarrow> bytes" where
  "reply_bytes m = (case dns_message_encode dns_encode_config_default m of Inr bs \<Rightarrow> bs | Inl _ \<Rightarrow> [])"

definition address_reply :: dns_message where
  "address_reply = sample_reply 1 TypeA [sample_address 1, sample_sig 1]"

definition keys_reply :: dns_message where
  "keys_reply = sample_reply 2 TypeDnskey [sample_key 5, sample_key 7, sample_sig 48]"

definition reply_transport :: "nat dns_transport" where
  "reply_transport = \<lparr>dt_endpoint_policy = policy_permissive,
     dt_exchange_udp = (\<lambda>server query w. (Inr (reply_bytes (if w = 0 then address_reply else keys_reply)), w + 1)),
     dt_exchange_tcp = (\<lambda>server query w. (Inl UnsupportedBackend, w)),
     dt_exchange_doh = (\<lambda>endpoint query w. (Inl UnsupportedBackend, w)),
     dt_probe_dns_interception = (\<lambda>w. w), dt_is_recursive_relay = False\<rparr>"

definition sample_clock :: "nat \<Rightarrow> u64 option \<times> nat" where
  "sample_clock w = (Some 50, w)"

definition sample_dnssec_resolver :: "nat dnssec_resolver" where
  "sample_dnssec_resolver = dnssec_resolver_new reply_transport (system_verifier sample_crypto sample_clock)"

definition sample_delegation_records :: hns_delegation where
  "sample_delegation_records = \<lparr>hd_root_name = [], hd_owner = [], hd_records =
     [\<lparr>rr_name = [], rr_type = TypeNs, rr_class = 1, rr_ttl = 60, rr_rdata = wire [ascii ''a'']\<rparr>,
      \<lparr>rr_name = [ascii ''a''], rr_type = TypeA, rr_class = 1, rr_ttl = 60, rr_rdata = [10, 0, 0, 1]\<rparr>, sample_ds]\<rparr>"

definition sample_dns_state :: "nat dns_state" where
  "sample_dns_state = \<lparr>dn_query_id = 0, dn_doh_cache = Map.empty, dn_world = 0\<rparr>"

lemma reply_parses:
  assumes "wf_message m" "dns_message_encode dns_encode_config_default m = Inr bs"
  shows "dns_message_parse (reply_bytes m) = Inr m"
  using dns_message_round_trip [OF assms] assms(2) by (simp add: reply_bytes_def dns_encode_config_default_def)

lemma sample_replies_parse:
  "dns_message_parse (reply_bytes address_reply) = Inr address_reply"
  "dns_message_parse (reply_bytes keys_reply) = Inr keys_reply"
proof -
  obtain u v where uv: "u16_to_be (dnskey_key_tag (sample_dnskey 7)) = [u, v]" by (rule u16_two_bytes)
  have wf: "wf_message address_reply" "wf_message keys_reply"
    by (simp_all add: wf_message_def address_reply_def keys_reply_def sample_reply_def wf_question_def wf_record_def
        wf_record_type_def wf_rdata_def wf_name_def from_code_def total_records_def sample_address_def sample_key_def
        sample_sig_def sample_sig_rdata_def uv nth_append)
  have "\<exists>bs. dns_message_encode dns_encode_config_default m = Inr bs" if "m = address_reply \<or> m = keys_reply" for m
    using that
    by (auto simp: dns_message_encode_def address_reply_def keys_reply_def sample_reply_def total_records_def
        MAX_DNS_QUESTIONS_def MAX_DNS_RECORDS_def dns_question_encode_def resource_record_encode_def encode_wire_def
        dns_encode_config_default_def Let_def sample_address_def sample_key_def sample_sig_def sample_sig_rdata_def)
  then show "dns_message_parse (reply_bytes address_reply) = Inr address_reply"
    "dns_message_parse (reply_bytes keys_reply) = Inr keys_reply"
    using reply_parses wf by blast+
qed

lemma reply_fields:
  "dh_id (msg_header (sample_reply qid t rs)) = qid" "dh_flags (msg_header (sample_reply qid t rs)) = 0x8400"
  "questions (sample_reply qid t rs) = [\<lparr>q_name = [], q_type = t, q_class = 1\<rparr>]" "answers (sample_reply qid t rs) = rs"
  "authorities (sample_reply qid t rs) = []"
  by (simp_all add: sample_reply_def)

lemma reply_accepted:
  assumes "dns_message_parse bs = Inr (sample_reply qid t rs)"
  shows "parse_dns_response qid [] t bs = Inr (sample_reply qid t rs)"
  using assms
  by (simp add: parse_dns_response_def reply_fields rcode_def is_response_def opcode_def DNS_RCODE_NOERROR_def
      DNS_CLASS_IN_def Let_def)

lemma sample_replies_accepted:
  "parse_dns_response 1 [] TypeA (reply_bytes address_reply) = Inr address_reply"
  "parse_dns_response 2 [] TypeDnskey (reply_bytes keys_reply) = Inr keys_reply"
  using reply_accepted sample_replies_parse unfolding address_reply_def keys_reply_def by blast+

lemma sample_query_builds: "\<exists>q. build_dns_query qid [] t = Inr q"
  by (simp add: build_dns_query_def dns_query_message_def dns_message_encode_def total_records_def
      MAX_DNS_QUESTIONS_def MAX_DNS_RECORDS_def dns_question_encode_def resource_record_encode_def encode_wire_def
      DEFAULT_DNS_UDP_PAYLOAD_def Let_def dns_root_def)

lemma sample_query:
  assumes "parse_dns_response (dn_query_id st + 1) [] t
      (reply_bytes (if dn_world st = 0 then address_reply else keys_reply)) = Inr m"
    "\<not> truncated (dh_flags (msg_header m))"
  shows "dns_query_target reply_transport (TargetServer server) [] t st =
    (Inr m, st\<lparr>dn_query_id := dn_query_id st + 1, dn_world := dn_world st + 1\<rparr>)"
proof -
  obtain q where "build_dns_query (dn_query_id st + 1) [] t = Inr q" using sample_query_builds by blast
  then show ?thesis
    using assms
    by (simp add: dns_query_target_def validate_target_def validate_dns_server_def reply_transport_def
        policy_permissive_def next_dns_query_id_def on_dns_world_def dns_exchange_def dns_query_udp_def Let_def)
qed

lemma sample_zone_secure:
  "zone_rrset_status sample_crypto \<lparr>zi_dnskey_owner = [], zi_ds_rrset = [sample_ds],
     zi_dnskey_rrset = [sample_key 5, sample_key 7], zi_dnskey_rrsig_rrset = [sample_sig 48]\<rparr> [sample_address 1]
     [sample_sig 1] 50 = Inr Secure"
  by (simp add: zone_rrset_status_def validate_signed_rrset_def when_secure_def sample_validates validate_dnskey_rrset_def)

lemma sample_records:
  "records_at (answers address_reply) [] TypeA = [sample_address 1]"
  "records_at (answers address_reply) [] TypeCname = []"
  "records_at (answers address_reply) [] TypeRrsig = [sample_sig 1]"
  "records_at (answers keys_reply) [] TypeDnskey = [sample_key 5, sample_key 7]"
  "records_at (answers keys_reply) [] TypeRrsig = [sample_sig 48]"
  "authorities address_reply = []" "rcode (dh_flags (msg_header address_reply)) = 0"
  by (simp_all add: records_at_def address_reply_def keys_reply_def reply_fields sample_address_def sample_sig_def
      sample_key_def rcode_def)

lemma sample_target:
  "resolve_delegated_from_target reply_transport (system_verifier sample_crypto sample_clock) server (TargetServer server)
     sample_delegation_records [] TypeA [sample_ds] sample_dns_state =
   (Inr \<lparr>ans_name = [], ans_records = [sample_address 1], ans_secure = True\<rparr>,
    sample_dns_state\<lparr>dn_query_id := 2, dn_world := 2\<rparr>)"
proof -
  have q1: "dns_query_target reply_transport (TargetServer server) [] TypeA sample_dns_state =
      (Inr address_reply, sample_dns_state\<lparr>dn_query_id := 1, dn_world := 1\<rparr>)"
    using sample_query [of sample_dns_state TypeA address_reply server] sample_replies_accepted(1)
    by (simp add: sample_dns_state_def address_reply_def reply_fields truncated_def)
  have q2: "dns_query_target reply_transport (TargetServer server) [] TypeDnskey
      (sample_dns_state\<lparr>dn_query_id := 1, dn_world := 1\<rparr>) =
      (Inr keys_reply, sample_dns_state\<lparr>dn_query_id := 2, dn_world := 2\<rparr>)"
    using sample_query [of "sample_dns_state\<lparr>dn_query_id := 1, dn_world := 1\<rparr>" TypeDnskey keys_reply server]
      sample_replies_accepted(2)
    by (simp add: sample_dns_state_def keys_reply_def reply_fields truncated_def)
  have signer: "inline_child_answer_signer sample_delegation_records [] [sample_address 1] [sample_sig 1] TypeA = None"
    using sample_sig_parses [of 1]
    by (simp add: inline_child_answer_signer_def sample_delegation_records_def between_def sample_signature_def)
  have own: "hd_owner sample_delegation_records = []" by (simp add: sample_delegation_records_def)
  show ?thesis
    by (simp add: resolve_delegated_from_target_def io_then_def q1 q2 own resolve_validated_def sample_records signer
        child_referral_of_def longest_name_def DNS_RCODE_NXDOMAIN_def zone_keys_missing_def
        resolve_secure_answer_records_def validate_secure_rrset_def on_dns_world_def system_verifier_def at_clock_def
        sample_clock_def sample_zone_secure is_secure_def io_pure_def Let_def del: One_nat_def)
qed

lemma sample_servers: "nameserver_addresses sample_delegation_records = [(V4 (10, 0, 0, 1), 53)]"
proof -
  have "parse_wire (wire [ascii ''a'']) 0 = Inr ([ascii ''a''], length (wire [ascii ''a'']))"
    using parse_wire_at [OF one_letter_names(1), of "wire [ascii ''a'']" "[]" "[]" 0] by (simp add: wire_def ascii_def)
  then have "record_name_rdata \<lparr>rr_name = [], rr_type = TypeNs, rr_class = 1, rr_ttl = 60, rr_rdata = wire [ascii ''a'']\<rparr> =
      Some [ascii ''a'']"
    by (simp add: record_name_rdata_def)
  then show ?thesis
    by (simp add: nameserver_addresses_def nameserver_ip_addresses_def sample_delegation_records_def ns_targets_def
        push_new_def record_address_def sample_ds_def List.map_filter_simps)
qed

lemma from_ascii_empty: "from_ascii [] = Inr []"
  by (simp add: from_ascii_def dns_root_def str_trim_def trim_end_matches_def)

lemma sample_resolution:
  "resolve_delegated (\<lambda>_. None) sample_dnssec_resolver \<lparr>req_qname = [], req_qtype = 1\<rparr> sample_delegation_records sample_dns_state =
   (Inr \<lparr>ans_name = [], ans_records = [sample_address 1], ans_secure = True\<rparr>,
    sample_dns_state\<lparr>dn_query_id := 2, dn_world := 2\<rparr>)"
proof -
  have ds: "records_at (hd_records sample_delegation_records) (hd_owner sample_delegation_records) TypeDs = [sample_ds]"
    by (simp add: records_at_def sample_delegation_records_def sample_ds_def)
  have R: "ar_transport sample_dnssec_resolver = reply_transport" "\<not> dt_is_recursive_relay reply_transport"
    "ar_verifier sample_dnssec_resolver = system_verifier sample_crypto sample_clock" "\<not> ar_prefer_doh sample_dnssec_resolver"
    by (simp_all add: sample_dnssec_resolver_def dnssec_resolver_new_def reply_transport_def)
  show ?thesis
    using sample_target [of "(V4 (10, 0, 0, 1), 53)"]
    by (simp add: resolve_delegated_def sample_servers ds preferred_doh_def R resolve_delegated_from_server_def
        from_ascii_empty from_code_def Let_def)
qed

theorem no_insecure_downgrade_witness:
  "ans_secure \<lparr>ans_name = [], ans_records = [sample_address 1], ans_secure = True\<rparr> \<longleftrightarrow>
     delegated_ds sample_delegation_records \<noteq> []"
  by (rule no_insecure_downgrade [OF sample_resolution])

theorem secure_resolution_sound_witness:
  "\<exists>Z. anchored_in sample_delegation_records [] Z \<and>
    secure_path (\<lambda>rs. \<exists>now\<in>clock_times sample_clock. set_secure sample_crypto Z rs now)
      (\<lambda>q. \<exists>now\<in>clock_times sample_clock. no_data_secure sample_crypto Z TypeA q now)
      (\<lambda>q. \<exists>now\<in>clock_times sample_clock. no_name_secure sample_crypto Z q now) (apex Z) TypeA []
      [sample_address 1]"
  using secure_resolution_sound [OF sample_resolution, of sample_crypto sample_clock "[]" TypeA]
  by (simp add: sample_dnssec_resolver_def dnssec_resolver_new_def from_ascii_empty from_code_def)

text \<open>A transport that would answer the server 10.0.0.1 over TCP differs from the sample one only where the strict policy forbids.\<close>

definition strict_transport :: "nat dns_transport" where
  "strict_transport = reply_transport\<lparr>dt_endpoint_policy := policy_strict\<rparr>"

definition answering_transport :: "nat dns_transport" where
  "answering_transport = strict_transport\<lparr>dt_exchange_udp := (\<lambda>server query w.
     if server = (V4 (10, 0, 0, 1), 53) then (Inr [], w + 7) else dt_exchange_udp strict_transport server query w)\<rparr>"

theorem only_allowed_endpoints_witness:
  "resolve_delegated (\<lambda>_. None) (sample_dnssec_resolver\<lparr>ar_transport := strict_transport, ar_transport := answering_transport\<rparr>)
     \<lparr>req_qname = [], req_qtype = 1\<rparr> sample_delegation_records sample_dns_state =
   resolve_delegated (\<lambda>_. None) (sample_dnssec_resolver\<lparr>ar_transport := strict_transport\<rparr>)
     \<lparr>req_qname = [], req_qtype = 1\<rparr> sample_delegation_records sample_dns_state"
proof -
  have inner: "\<not> is_publicly_routable (V4 (10, 0, 0, 1))" by simp
  have "dt_exchange_udp answering_transport server = dt_exchange_udp strict_transport server"
    if "validate_dns_server policy_strict server = Inr ()" for server
  proof -
    have "server \<noteq> (V4 (10, 0, 0, 1), 53)"
      using that inner by (auto simp: validate_dns_server_def policy_strict_def)
    then show ?thesis by (intro ext) (simp add: answering_transport_def)
  qed
  then have "same_allowed strict_transport answering_transport"
    unfolding same_allowed_def by (simp add: answering_transport_def strict_transport_def)
  then have "same_allowed (ar_transport (sample_dnssec_resolver\<lparr>ar_transport := strict_transport\<rparr>)) answering_transport"
    by simp
  from only_allowed_endpoints [OF this] show ?thesis by simp
qed

definition circle_reply :: dns_message where
  "circle_reply = sample_reply 1 TypeA [\<lparr>rr_name = [], rr_type = TypeCname, rr_class = 1, rr_ttl = 60, rr_rdata = [0]\<rparr>]"

theorem cname_cycle_refused_witness:
  "\<exists>e w'. resolve_secure_answer_records reply_transport (system_verifier sample_crypto sample_clock)
     (TargetServer (V4 (10, 0, 0, 1), 53)) (DelegatedZone \<lparr>zi_dnskey_owner = [], zi_ds_rrset = [sample_ds],
       zi_dnskey_rrset = [sample_key 5, sample_key 7], zi_dnskey_rrsig_rrset = [sample_sig 48]\<rparr>) [] TypeA circle_reply
     sample_dns_state = (Inl e, sample_dns_state\<lparr>dn_world := w'\<rparr>)"
proof (rule cname_cycle_refused)
  show "cname_cycle circle_reply TypeA {[]}"
    by (simp add: cname_cycle_def circle_reply_def reply_fields records_at_def record_name_rdata_def parse_wire_def
        parse_wire_loop.simps get_byte_def)
qed simp

end
