(* ===== verification/Spec2Isabelle.thy ===== *)
theory Spec2Isabelle
  imports Header_Chain Ttl_Cache Svcb Network_Policy Denial Origin_Tls Stateless P2p_Handshake Dns_Relay_Client Rate_Limit
    Sync_Safety Zone_Cut Delegated_Safety
begin

text \<open>
  Verification of the core of the HNS DANE browser, the Rust workspace under \<open>src/rust/crates\<close>: a
  browser back end that follows the Handshake block chain as a light client, resolves names
  from Handshake resources with DNSSEC below them, and decides by DANE whether a TLS certificate
  is the right one.  The program trusts nothing it downloads: block headers are accepted by proof of work,
  name data by Urkel inclusion proofs against a header's tree root, DNS data by signatures that lead
  back to the DS records in the name data, and certificates by TLSA records.  The theories follow
  that path.

  \<^bold>\<open>How code is modelled.\<close>  A Rust integer is a word of its width; a \<open>usize\<close> that the code only
  compares and adds with \<open>checked_add\<close> is a \<open>nat\<close> with the limit $2^{64}$ written out.  A \<open>Result\<close> is a
  sum with the error on the left, \<open>?\<close> is \<open>and_then\<close>, and a panic (an index out of range, a failed
  \<open>expect\<close>) is the value \<open>Panic\<close> of the type \<open>fault\<close>, kept apart from returned errors.  A \<open>&mut self\<close>
  method takes and returns the record.  Loops are structural recursions over the data they consume,
  or recursions whose measure is the unread input.  The digests, the elliptic-curve and
  RSA primitives and the header store behind its trait are parameters; what theorems need of them is a
  hypothesis in their statement, or a locale whose laws are proved for the model's own provider.

  \<^bold>\<open>Theories and sources.\<close>
  \<^item> \<open>Prelude\<close>: integers, slices, results, byte order, ASCII and UTF-8 as the standard library has them.
  \<^item> \<open>Reader\<close> (\<open>hns-core/src/bytes.rs\<close>): the bounds-checked reader; every read in closed form.
  \<^item> \<open>Hashing\<close> (\<open>hns-core/src/hash.rs\<close>): hashes, Handshake name rules, the digest wrappers.
  \<^item> \<open>Header\<close> (\<open>hns-core/src/header.rs\<close>, \<open>network.rs\<close>): the block header, its wire format, genesis
    headers, the masked proof-of-work hash.
  \<^item> \<open>Pow\<close> (\<open>hns-core/src/pow.rs\<close>): compact targets, work, the proof-of-work check.
  \<^item> \<open>Header_Store\<close> and \<open>Header_Chain\<close> (\<open>hns-chain/src/lib.rs\<close>): the trait \<open>HeaderStore\<close> as a record of
    methods and the locale \<open>header_store\<close> of its laws, the in-memory store that satisfies them, and
    \<open>HeaderChain\<close> over any store: single and batch insertion, difficulty, checkpoints, promotion.
    Reachable chains are an inductive predicate; the invariant gives that the best header has the most
    work and the canonical index is its path, that every stored header satisfies the consensus rules,
    that batches equal sequences, and that errors change nothing.
  \<^item> \<open>Ttl_Cache\<close> (\<open>hns-cache/src/lib.rs\<close>): the cache and its refinement of a recency list.
  \<^item> \<open>Urkel\<close> (\<open>hns-urkel/src/lib.rs\<close>): proof decoding and verification; soundness and completeness against
    radix trees, and that two accepted proofs for one key agree unless the hash is broken.
  \<^item> \<open>Dns_Name\<close>, \<open>Dns_Message\<close>, \<open>Svcb\<close> (\<open>hns-core/src/dns.rs\<close>): names with compression, messages, service
    bindings; absence of panics, round trips, canonical forms.
  \<^item> \<open>Resource\<close> (\<open>hns-core/src/resource.rs\<close>): Handshake resources to DNS records, confined to their owner.
  \<^item> \<open>Network_Policy\<close> (\<open>hns-core/src/network_policy.rs\<close>): routable addresses, special-use hosts, ports.
  \<^item> \<open>Dnssec_Records\<close>, \<open>Dnssec_Canonical\<close>, \<open>Dnssec\<close>, \<open>Denial\<close> (\<open>hns-dnssec/src/lib.rs\<close>): record data and type
    bitmaps; canonical form and signed bytes; signatures, delegation and chains; NSEC and NSEC3.
  \<^item> \<open>Der\<close> and \<open>Dane\<close> (\<open>hns-dane/src/lib.rs\<close>): the DER reader against the distinguished encoding, certificate
    extensions and public keys; TLSA matching, the trust policy, and the containers and checks of stateless
    evidence.  \<open>Stateless\<close> joins the certificate, the tree proof, the name state and the DNSSEC chain into one
    soundness theorem and runs all of them on one certificate.
  \<^item> \<open>Origin_Tls\<close> (\<open>hns-transport/src/lib.rs\<close>): the certificate verifier that rustls calls, the decisions it
    keeps per thread and per server, and the runs of many handshakes against one verifier.
  \<^item> \<open>P2p_Wire\<close> and \<open>P2p_Frames\<close> (\<open>hns-p2p/src/lib.rs\<close>, \<open>dns_relay.rs\<close>): packets, their codecs (a locale of item
    codecs, interpreted for hashes, headers, numbers, addresses and versions) and frames on a stream.
    \<open>P2p_Session\<close> and \<open>P2p_Handshake\<close>: the session state machine and the connection that drives it, over a
    transport that is a script of reads and writes with their failures; safety of the session on every
    script, and completion of a synchronisation round on every script that delivers the packets.
  \<^item> \<open>Peer_Manager\<close> (\<open>hns-p2p/src/lib.rs\<close>): the peer book, scores and bans over all histories, outbound
    selection, peer sources.
  \<^item> \<open>Dns_Relay\<close> and \<open>Dns_Relay_Client\<close> (\<open>hns-p2p/src/dns_relay.rs\<close>): what may be asked of a relay and what is
    accepted from it; the client over any connector, with its connection and ban discipline.
  \<^item> \<open>Header_Sync\<close> and \<open>Sync_Safety\<close> (\<open>hns-sync/src/lib.rs\<close>): the coordinator, the locator and the sequential
    runner over any connector, as steps on the chain and the peer book; a round is a sequence of such steps,
    each of which keeps the invariants of both.  \<open>Proof_Sync\<close>: fetching one proof over a session, its
    soundness, and the request that an unsolicited proof leaves behind.
  \<^item> \<open>Ip_Text\<close>, \<open>Hns_Names\<close> and \<open>Hns_Resolver\<close> (\<open>hns-resolver/src/lib.rs\<close>): addresses as text, name
    classes, resource values and their records; the proof-backed, delegating and caching resolvers over the
    resolver traits, which are functions on a world they thread.
  \<^item> \<open>Dns_Query\<close>, \<open>Doh_Discovery\<close>, \<open>Dnssec_Verifier\<close>, \<open>Delegated_Resolver\<close> and \<open>Delegated_Safety\<close>
    (\<open>hns-resolver/src/lib.rs\<close>): queries over UDP, TCP and DoH under the endpoint policy; DoH endpoints a name
    declares; the verdicts of the validators put together; the resolver below a delegation, with CNAME
    chains, denials and child zones.  Its functions return an answer or an error on any transport, and a
    secure answer is a path of signed sets in one zone under the proven DS records.  \<open>Zone_Cut\<close> shows what
    the denials of \<open>Denial\<close> miss at a delegation.
  \<^item> \<open>Rate_Limit\<close> (\<open>hns-loopback-proxy/src/rate_limit.rs\<close>): the permit counter as a step relation of concurrent
    tasks, and the request limiter as an exact sliding window.

  \<^bold>\<open>Loops and bounds.\<close>  No definition carries fuel: every loop is a total function.  \<open>ancestor_loop\<close> and
  \<open>chain_to_loop\<close> of \<open>Header_Chain\<close> walk parent links and are measured by the height, which the code's
  own check on the parent's height lowers at each step.  The wire name parser is measured by the jumps it has left and
  then by the room left in the name, so its termination proof is the argument against pointer loops.  The parsers
  with offsets are measured by the unread bytes; the remaining loops are structural.  Byte slices are
  assumed shorter than $2^{63}$, Rust's own limit on an allocation, where an offset addition could wrap.

  \<^bold>\<open>Not modelled.\<close>  Sqlite persistence (\<open>SqliteHeaderStore\<close>, \<open>SqlitePeerStore\<close>,
  \<open>SqliteResourceValueProvider\<close>), sockets and TLS (\<open>hns-transport\<close> but for its certificate verifier, the TCP connectors
  of \<open>hns-p2p\<close>, \<open>UdpTcpDnsTransport\<close> of \<open>hns-resolver\<close>), the racing synchronisation on threads of \<open>hns-sync\<close>, the
  gateway (\<open>hns-gateway\<close>), the asynchronous proxy server (\<open>hns-loopback-proxy\<close>), the runtime that schedules
  them (\<open>hns-browser-runtime\<close>) and the platform bindings: input and output around the functions above.
  Cryptographic primitives and hexadecimal text of third-party crates stay parameters.
\<close>

end
